(* ===== verification/Prelude.thy ===== *)
theory Prelude
  imports Main "HOL-Library.Word" "HOL-Library.Signed_Division"
begin

text \<open>
  Shared vocabulary of the development. It names the machine types of the Rust sources
  (bytes, 32-bit and 64-bit words), the slice operations that every component uses
  (\<open>&xs[i..j]\<close> and \<open>xs[o..o+n].copy_from_slice(ys)\<close>), the little- and big-endian readings of
  byte strings, two's-complement wrap-around on mathematical integers, and the lemmas about
  them. Facts about slices are collected in \<open>slice_simps\<close>.
\<close>

named_theorems slice_simps \<open>length, indexing and overlap of slices and in-place copies\<close>

section \<open>Machine types\<close>

type_synonym byte = "8 word"
type_synonym u32 = "32 word"
type_synonym u64 = "64 word"
type_synonym bytes = "byte list"

section \<open>Slices and in-place copies\<close>

text \<open>\<open>slice xs i j\<close> is Rust's \<open>&xs[i..j]\<close> for \<open>i \<le> j \<le> xs.len()\<close>.\<close>

definition slice :: "'a list \<Rightarrow> nat \<Rightarrow> nat \<Rightarrow> 'a list" where
  "slice xs i j = take (j - i) (drop i xs)"

text \<open>\<open>blit xs o ys\<close> is \<open>xs[o..o + ys.len()].copy_from_slice(ys)\<close>.\<close>

definition blit :: "'a list \<Rightarrow> nat \<Rightarrow> 'a list \<Rightarrow> 'a list" where
  "blit xs off ys = take off xs @ ys @ drop (off + length ys) xs"

lemma length_slice [slice_simps, simp]: "length (slice xs i j) = min (j - i) (length xs - i)"
  by (simp add: slice_def min.commute)

lemma nth_slice [slice_simps]: "i + k < j \<Longrightarrow> j \<le> length xs \<Longrightarrow> slice xs i j ! k = xs ! (i + k)"
  by (simp add: slice_def)

lemma slice_full [simp]: "slice xs 0 (length xs) = xs"
  by (simp add: slice_def)

lemma slice_empty [simp]: "slice xs i i = []"
  by (simp add: slice_def)

lemma slice_append:
  "i \<le> j \<Longrightarrow> j \<le> k \<Longrightarrow> slice xs i j @ slice xs j k = slice xs i k"
proof -
  assume "i \<le> j" "j \<le> k"
  then have "slice xs i k = take ((j - i) + (k - j)) (drop i xs)" by (simp add: slice_def)
  also have "\<dots> = take (j - i) (drop i xs) @ take (k - j) (drop (j - i) (drop i xs))"
    by (rule take_add)
  finally show ?thesis using \<open>i \<le> j\<close> by (simp add: slice_def)
qed

lemma slice_eqI:
  assumes "length xs = length ys" "\<And>k. i \<le> k \<Longrightarrow> k < j \<Longrightarrow> k < length xs \<Longrightarrow> xs ! k = ys ! k"
  shows "slice xs i j = slice ys i j"
  using assms by (intro nth_equalityI) (auto simp: slice_def)

lemma length_blit [slice_simps, simp]:
  "off + length ys \<le> length xs \<Longrightarrow> length (blit xs off ys) = length xs"
  by (simp add: blit_def)

lemma nth_blit [slice_simps]:
  "off + length ys \<le> length xs \<Longrightarrow> k < length xs \<Longrightarrow>
     blit xs off ys ! k = (if off \<le> k \<and> k < off + length ys then ys ! (k - off) else xs ! k)"
  by (auto simp: blit_def nth_append min_def)

lemma slice_blit_same [slice_simps]:
  "off + length ys \<le> length xs \<Longrightarrow> slice (blit xs off ys) off (off + length ys) = ys"
  by (simp add: blit_def slice_def)

lemma slice_blit_other [slice_simps]:
  assumes "off + length ys \<le> length xs" "j \<le> off \<or> off + length ys \<le> i"
  shows "slice (blit xs off ys) i j = slice xs i j"
  using assms by (intro slice_eqI) (auto simp: nth_blit)

lemma blit_blit_inside:
  assumes "off + length xs \<le> length d" "k + length ys \<le> length xs"
  shows "blit (blit d off xs) (off + k) ys = blit d off (blit xs k ys)"
  using assms by (intro nth_equalityI) (auto simp: nth_blit)

lemma update_blit_inside:
  assumes "off + length xs \<le> length d" "k < length xs"
  shows "(blit d off xs)[off + k := v] = blit d off (xs[k := v])"
  using assms by (intro nth_equalityI) (auto simp: nth_blit nth_list_update)

lemma slice_slice [slice_simps]:
  "c + i \<le> c + j \<Longrightarrow> c + j \<le> d \<Longrightarrow> slice (slice xs c d) i j = slice xs (c + i) (c + j)"
  by (simp add: slice_def drop_take min_def add.commute)

lemma blit_slice_id [simp]:
  "j \<le> length xs \<Longrightarrow> i \<le> j \<Longrightarrow> blit xs i (slice xs i j) = xs"
  by (rule nth_equalityI) (auto simp: blit_def slice_def nth_append min_def)

lemma map_upt_shift: "map f [a..<a + n] = map (\<lambda>i. f (a + i)) [0..<n]"
  by (rule nth_equalityI) auto

lemma length_concat_uniform: "\<forall>x \<in> set xss. length x = w \<Longrightarrow> length (concat xss) = length xss * w"
  by (induction xss) auto

lemma nth_concat_uniform:
  "\<forall>x \<in> set xss. length x = w \<Longrightarrow> k < length xss * w \<Longrightarrow>
     concat xss ! k = xss ! (k div w) ! (k mod w)"
proof (induction xss arbitrary: k)
  case (Cons x xss)
  show ?case
  proof (cases "k < w")
    case True
    then show ?thesis using Cons.prems by (simp add: nth_append)
  next
    case False
    then have w: "0 < w" "w \<le> k" using Cons.prems by (cases w; auto)+
    have "concat xss ! (k - w) = xss ! ((k - w) div w) ! ((k - w) mod w)"
      using Cons.prems w by (intro Cons.IH) auto
    moreover have "(k - w) div w = k div w - 1" "(k - w) mod w = k mod w"
      using w by (simp_all add: le_div_geq le_mod_geq)
    moreover have "k div w \<noteq> 0" using w by (simp add: div_eq_0_iff)
    ultimately show ?thesis
      using Cons.prems False by (simp add: nth_append nth_Cons')
  qed
qed simp

section \<open>Exclusive-or of byte strings\<close>

text \<open>\<open>for i in 0..n { x[i] ^= y[i] }\<close> on strings of one length.\<close>

definition xor_bytes :: "bytes \<Rightarrow> bytes \<Rightarrow> bytes" where
  "xor_bytes = map2 xor"

lemma length_xor_bytes [simp]: "length (xor_bytes xs ys) = min (length xs) (length ys)"
  by (simp add: xor_bytes_def)

lemma xor_left_self [simp]: "xor (x :: 'a :: len word) (xor x y) = y"
  by (simp add: xor.assoc [symmetric])

lemma xor_right_self [simp]: "xor (xor (x :: 'a :: len word) y) y = x"
  by (simp add: xor.assoc)

lemma xor_bytes_twice [simp]: "length xs \<le> length ys \<Longrightarrow> xor_bytes (xor_bytes xs ys) ys = xs"
  by (rule nth_equalityI) (simp_all add: xor_bytes_def)

section \<open>Byte strings as numbers\<close>

text \<open>\<open>from_le_bytes\<close>, \<open>to_le_bytes\<close> and their big-endian forms, over natural numbers.\<close>

fun nat_of_le :: "bytes \<Rightarrow> nat" where
  "nat_of_le [] = 0"
| "nat_of_le (b # bs) = unat b + 256 * nat_of_le bs"

fun le_of_nat :: "nat \<Rightarrow> nat \<Rightarrow> bytes" where
  "le_of_nat 0 v = []"
| "le_of_nat (Suc n) v = of_nat v # le_of_nat n (v div 256)"

definition nat_of_be :: "bytes \<Rightarrow> nat" where
  "nat_of_be bs = nat_of_le (rev bs)"

definition be_of_nat :: "nat \<Rightarrow> nat \<Rightarrow> bytes" where
  "be_of_nat n v = rev (le_of_nat n v)"

lemma length_le_of_nat [simp]: "length (le_of_nat n v) = n"
  by (induction n arbitrary: v) auto

lemma length_be_of_nat [simp]: "length (be_of_nat n v) = n"
  by (simp add: be_of_nat_def)

lemma unat_of_nat_byte [simp]: "unat (of_nat v :: byte) = v mod 256"
  by (simp add: unat_of_nat)

lemma byte_lt [simp]: "unat (b :: byte) < 256"
  using unsigned_less [of b] by simp

lemma nat_of_le_of_nat: "nat_of_le (le_of_nat n v) = v mod 256 ^ n"
proof (induction n arbitrary: v)
  case 0
  then show ?case by simp
next
  case (Suc n)
  have "nat_of_le (le_of_nat (Suc n) v) = v mod 256 + 256 * (v div 256 mod 256 ^ n)"
    by (simp add: Suc.IH)
  also have "\<dots> = v mod 256 ^ Suc n"
    using mod_mult2_eq [of v 256 "256 ^ n"] by (simp add: mult.commute)
  finally show ?case .
qed

lemma nat_of_le_bound: "nat_of_le bs < 256 ^ length bs"
proof (induction bs)
  case Nil
  then show ?case by simp
next
  case (Cons b bs)
  have "unat b < 256" by simp
  then have "unat b + 256 * nat_of_le bs < 256 * Suc (nat_of_le bs)" by simp
  also have "\<dots> \<le> 256 * 256 ^ length bs" using Cons.IH by (simp del: mult_Suc_right)
  finally show ?case by simp
qed

lemma le_of_nat_of_le: "le_of_nat (length bs) (nat_of_le bs) = bs"
proof (induction bs)
  case Nil
  then show ?case by simp
next
  case (Cons b bs)
  have "unat (of_nat (unat b + 256 * nat_of_le bs) :: byte) = unat b"
    by (simp only: unat_of_nat_byte) simp
  then have "of_nat (unat b + 256 * nat_of_le bs) = b"
    by (simp only: word_unat_eq_iff)
  moreover have "(unat b + 256 * nat_of_le bs) div 256 = nat_of_le bs"
    using byte_lt [of b] by simp
  ultimately show ?case using Cons.IH by simp
qed

lemma nat_of_be_of_nat: "nat_of_be (be_of_nat n v) = v mod 256 ^ n"
  by (simp add: nat_of_be_def be_of_nat_def nat_of_le_of_nat)

lemma be_of_nat_of_be: "be_of_nat (length bs) (nat_of_be bs) = bs"
  using le_of_nat_of_le [of "rev bs"] by (simp add: nat_of_be_def be_of_nat_def)

lemma nat_of_be_bound: "nat_of_be bs < 256 ^ length bs"
  using nat_of_le_bound [of "rev bs"] by (simp add: nat_of_be_def)

lemma nat_of_le_append: "nat_of_le (xs @ ys) = nat_of_le xs + 256 ^ length xs * nat_of_le ys"
  by (induction xs) (auto simp: algebra_simps)

lemma nat_of_be_zeros [simp]: "nat_of_be (replicate k 0) = 0"
proof -
  have "nat_of_le (replicate k 0) = 0" by (induction k) simp_all
  then show ?thesis by (simp add: nat_of_be_def)
qed

section \<open>Clearing low bits\<close>

text \<open>\<open>w & !(2 ^ k - 1)\<close> rounds down to a multiple of \<open>2 ^ k\<close>.\<close>

lemma unat_and_not_mask: "unat (and w (not (mask k))) = unat w div 2 ^ k * 2 ^ k" for w :: "'a::len word"
proof -
  have "and w (not (mask k)) = push_bit k (drop_bit k w)"
    by (rule bit_word_eqI) (auto simp: bit_simps)
  moreover have "unat (push_bit k v) = take_bit LENGTH('a) (unat v * 2 ^ k)" for v :: "'a word"
    by (subst unsigned_push_bit_eq) (simp add: push_bit_eq_mult)
  moreover have "unat (drop_bit k w) = unat w div 2 ^ k" unfolding unat_drop_bit_eq by (rule drop_bit_eq_div)
  moreover have "unat w div 2 ^ k * 2 ^ k < 2 ^ LENGTH('a)"
    using div_times_less_eq_dividend unsigned_less by (rule le_less_trans)
  ultimately show ?thesis by (simp add: take_bit_nat_eq_self)
qed

section \<open>Two's-complement wrap-around\<close>

text \<open>The value an \<open>i32\<close> operation leaves in its register when its exact result is \<open>x\<close>.\<close>

definition wrap_i32 :: "int \<Rightarrow> int" where
  "wrap_i32 x = (x + 2147483648) mod 4294967296 - 2147483648"

lemma wrap_i32_id: "-2147483648 \<le> x \<Longrightarrow> x < 2147483648 \<Longrightarrow> wrap_i32 x = x"
  by (simp add: wrap_i32_def)

text \<open>Addition in \<open>u32\<close>, on the numbers the registers hold.\<close>

definition u32_add :: "nat \<Rightarrow> nat \<Rightarrow> nat" where
  "u32_add a b = (a + b) mod 4294967296"

lemma u32_add_id [simp]: "a + b < 4294967296 \<Longrightarrow> u32_add a b = a + b"
  by (simp add: u32_add_def)

section \<open>Searching a slice\<close>

text \<open>\<open>iter().position(p)\<close> and \<open>iter().rposition(p)\<close>.\<close>

fun position :: "('a \<Rightarrow> bool) \<Rightarrow> 'a list \<Rightarrow> nat option" where
  "position p [] = None"
| "position p (x # xs) = (if p x then Some 0 else map_option Suc (position p xs))"

definition rposition :: "('a \<Rightarrow> bool) \<Rightarrow> 'a list \<Rightarrow> nat option" where
  "rposition p xs = map_option (\<lambda>k. length xs - 1 - k) (position p (rev xs))"

lemma position_None: "position p xs = None \<longleftrightarrow> (\<forall>x \<in> set xs. \<not> p x)"
  by (induction xs) auto

lemma position_Some:
  "position p xs = Some k \<longleftrightarrow> k < length xs \<and> p (xs ! k) \<and> (\<forall>j < k. \<not> p (xs ! j))"
proof (induction xs arbitrary: k)
  case (Cons x xs)
  show ?case
    by (cases k) (auto simp: Cons.IH less_Suc_eq_0_disj nth_Cons' split: if_splits)
qed simp

lemma position_lt: "position p xs = Some k \<Longrightarrow> k < length xs"
  by (simp add: position_Some)

lemma take_position: "position (\<lambda>x. \<not> p x) xs = Some k \<Longrightarrow> take k xs = takeWhile p xs"
  by (induction xs arbitrary: k) (auto split: if_splits)

lemma find_Some_iff_upt:
  "List.find P [0..<n] = Some i \<longleftrightarrow> i < n \<and> P i \<and> (\<forall>j < i. \<not> P j)"
  by (auto simp: find_Some_iff)

lemma find_None_iff_upt: "List.find P [0..<n] = None \<longleftrightarrow> (\<forall>i < n. \<not> P i)"
  by (auto simp: find_None_iff)

end
