(* ===== verification/Ternary.thy ===== *)
theory Ternary
  imports Prelude
begin

text \<open>
  Balanced ternary: \<open>ternary-core/src/lib.rs\<close> (trits, 9-trit trytes, the full adder),
  \<open>mathematics/src/lib.rs\<close> (tryte multiplication, division, trit logic) and
  \<open>ai-runtime/src/lib.rs\<close> (the sparse dot product and the ternary linear layer).
  An \<open>i32\<close> is an integer whose additions and subtractions go through \<^const>\<open>wrap_i32\<close>; Rust's
  \<open>/\<close> and \<open>%\<close> are \<open>sdiv\<close> and \<open>smod\<close>, its \<open>rem_euclid\<close> is \<open>mod\<close>. A failed \<open>assert\<close> or an
  out-of-range index is \<^const>\<open>None\<close>.
\<close>

section \<open>Trits\<close>

datatype trit = TNeg | TZero | TPos

fun trit_to_i8 :: "trit \<Rightarrow> int" where
  "trit_to_i8 TNeg = -1"
| "trit_to_i8 TZero = 0"
| "trit_to_i8 TPos = 1"

definition trit_from_i8 :: "int \<Rightarrow> trit option" where
  "trit_from_i8 v =
     (if v = -1 then Some TNeg else if v = 0 then Some TZero else if v = 1 then Some TPos else None)"

text \<open>The derived \<open>Ord\<close> of the enum is the order of the discriminants.\<close>

instantiation trit :: linorder
begin

definition less_eq_trit :: "trit \<Rightarrow> trit \<Rightarrow> bool" where
  "less_eq_trit a b \<longleftrightarrow> trit_to_i8 a \<le> trit_to_i8 b"

definition less_trit :: "trit \<Rightarrow> trit \<Rightarrow> bool" where
  "less_trit a b \<longleftrightarrow> trit_to_i8 a < trit_to_i8 b"

instance
proof
  fix x y :: trit
  show "x \<le> y \<Longrightarrow> y \<le> x \<Longrightarrow> x = y"
    by (cases x; cases y) (simp_all add: less_eq_trit_def)
qed (auto simp: less_eq_trit_def less_trit_def)

end

definition full_add :: "trit \<Rightarrow> trit \<Rightarrow> trit \<Rightarrow> trit \<times> trit" where
  "full_add a b carry_in =
     (let sum_val = trit_to_i8 a + trit_to_i8 b + trit_to_i8 carry_in
      in if sum_val = -3 then (TZero, TNeg)
         else if sum_val = -2 then (TPos, TNeg)
         else if sum_val = -1 then (TNeg, TZero)
         else if sum_val = 0 then (TZero, TZero)
         else if sum_val = 1 then (TPos, TZero)
         else if sum_val = 2 then (TNeg, TPos)
         else (TZero, TPos))"

fun trit_neg :: "trit \<Rightarrow> trit" where
  "trit_neg TNeg = TPos"
| "trit_neg TZero = TZero"
| "trit_neg TPos = TNeg"

section \<open>Trytes\<close>

text \<open>\<open>struct Tryte([Trit; 9])\<close>: least significant trit first.\<close>

type_synonym tryte = "trit list"

definition tryte_zero :: tryte where
  "tryte_zero = replicate 9 TZero"

text \<open>
  The loop of \<open>from_i32\<close>. The \<open>unwrap\<close> never fails: \<open>rem_euclid(3) - 1\<close> is \<open>-1\<close>, \<open>0\<close> or \<open>1\<close>
  (lemma \<open>from_i8_rem\<close>).
\<close>

fun from_i32_loop :: "nat \<Rightarrow> int \<Rightarrow> tryte" where
  "from_i32_loop 0 val = []"
| "from_i32_loop (Suc n) val =
     (let rem = wrap_i32 (val + 1) mod 3 - 1
      in the (trit_from_i8 rem) # from_i32_loop n (wrap_i32 (val - rem) sdiv 3))"

definition from_i32 :: "int \<Rightarrow> tryte" where
  "from_i32 val = from_i32_loop 9 val"

fun to_i32_loop :: "tryte \<Rightarrow> int \<Rightarrow> int \<Rightarrow> int" where
  "to_i32_loop [] val pw = val"
| "to_i32_loop (t # ts) val pw = to_i32_loop ts (val + trit_to_i8 t * pw) (pw * 3)"

definition to_i32 :: "tryte \<Rightarrow> int" where
  "to_i32 ts = to_i32_loop ts 0 1"

definition tryte_neg :: "tryte \<Rightarrow> tryte" where
  "tryte_neg ts = map trit_neg ts"

fun tryte_add_loop :: "tryte \<Rightarrow> tryte \<Rightarrow> trit \<Rightarrow> tryte" where
  "tryte_add_loop (a # as) (b # bs) carry =
     (let (s, c) = full_add a b carry in s # tryte_add_loop as bs c)"
| "tryte_add_loop _ _ carry = []"

definition tryte_add :: "tryte \<Rightarrow> tryte \<Rightarrow> tryte" where
  "tryte_add a b = tryte_add_loop a b TZero"

section \<open>Tryte arithmetic\<close>

definition mul_tryte :: "tryte \<Rightarrow> tryte \<Rightarrow> tryte \<times> tryte" where
  "mul_tryte a b =
     (let product = to_i32 a * to_i32 b;
          lo = ((product smod 19683) + 9841) mod 19683 - 9841;
          hi = (product - lo) sdiv 19683
      in (from_i32 lo, from_i32 hi))"

definition div_tryte :: "tryte \<Rightarrow> tryte \<Rightarrow> tryte \<times> tryte" where
  "div_tryte a b =
     (let bv = to_i32 b
      in if bv = 0 then (tryte_zero, a)
         else let av = to_i32 a in (from_i32 (av sdiv bv), from_i32 (av smod bv)))"

definition mod_tryte :: "tryte \<Rightarrow> tryte \<Rightarrow> tryte" where
  "mod_tryte a b = snd (div_tryte a b)"

definition abs_tryte :: "tryte \<Rightarrow> tryte" where
  "abs_tryte a = (if to_i32 a < 0 then tryte_neg a else a)"

fun consensus :: "trit \<Rightarrow> trit \<Rightarrow> trit" where
  "consensus TPos TPos = TPos"
| "consensus TNeg TNeg = TNeg"
| "consensus _ _ = TZero"

fun trit_any :: "trit \<Rightarrow> trit \<Rightarrow> trit" where
  "trit_any TZero x = x"
| "trit_any x TZero = x"
| "trit_any _ _ = TZero"

fun scale :: "tryte \<Rightarrow> trit \<Rightarrow> tryte" where
  "scale a TPos = a"
| "scale a TZero = tryte_zero"
| "scale a TNeg = tryte_neg a"

section \<open>The ternary runtime\<close>

record tensor =
  t_data :: "trit list"
  t_shape :: "nat list"

definition tensor_new :: "trit list \<Rightarrow> nat list \<Rightarrow> tensor option" where
  "tensor_new dat shp =
     (if length dat = prod_list shp then Some \<lparr>t_data = dat, t_shape = shp\<rparr> else None)"

definition tensor_zeros :: "nat list \<Rightarrow> tensor" where
  "tensor_zeros shp = \<lparr>t_data = replicate (prod_list shp) TZero, t_shape = shp\<rparr>"

fun sparse_dot_loop :: "(trit \<times> trit) list \<Rightarrow> int \<Rightarrow> nat \<Rightarrow> int \<times> nat" where
  "sparse_dot_loop [] acc skipped = (acc, skipped)"
| "sparse_dot_loop ((x, y) # rest) acc skipped =
     (if x = TZero \<or> y = TZero then sparse_dot_loop rest acc (Suc skipped)
      else if x = y then sparse_dot_loop rest (wrap_i32 (acc + 1)) skipped
      else sparse_dot_loop rest (wrap_i32 (acc - 1)) skipped)"

definition sparse_dot :: "trit list \<Rightarrow> trit list \<Rightarrow> (int \<times> nat \<times> nat) option" where
  "sparse_dot a b =
     (if length a \<noteq> length b then None
      else let (acc, skipped) = sparse_dot_loop (zip a b) 0 0 in Some (acc, length a, skipped))"

definition activation :: "int \<Rightarrow> trit" where
  "activation acc = (if acc > 0 then TPos else if acc < 0 then TNeg else TZero)"

definition linear_new :: "nat \<Rightarrow> nat \<Rightarrow> tensor" where
  "linear_new in_features out_features = tensor_zeros [out_features, in_features]"

fun forward_loop :: "trit list \<Rightarrow> nat \<Rightarrow> trit list \<Rightarrow> nat list \<Rightarrow> trit list \<Rightarrow> nat \<Rightarrow> nat
    \<Rightarrow> (trit list \<times> nat \<times> nat) option" where
  "forward_loop ws n_in x [] out ops skipped = Some (out, ops, skipped)"
| "forward_loop ws n_in x (row # rows) out ops skipped =
     (let start = row * n_in; stop = start + n_in
      in if length ws < stop then None
         else case sparse_dot x (slice ws start stop) of
                None \<Rightarrow> None
              | Some (s, n, k) \<Rightarrow>
                  forward_loop ws n_in x rows (out @ [activation s]) (ops + n) (skipped + k))"

definition linear_forward :: "tensor \<Rightarrow> tensor \<Rightarrow> (tensor \<times> nat \<times> nat) option" where
  "linear_forward weights input =
     (if length (t_shape input) \<noteq> 1 \<or> length (t_shape weights) < 2 then None
      else let n_in = t_shape weights ! 1; outf = t_shape weights ! 0
           in if length (t_data input) \<noteq> n_in then None
              else case forward_loop (t_data weights) n_in (t_data input) [0..<outf] [] 0 0 of
                     None \<Rightarrow> None
                   | Some (out, ops, skipped) \<Rightarrow>
                       map_option (\<lambda>t. (t, ops, skipped)) (tensor_new out [outf]))"


section \<open>Values of trit strings\<close>

text \<open>The number a trit string stands for, and the largest number of \<open>n\<close> trits.\<close>

primrec tval :: "trit list \<Rightarrow> int" where
  "tval [] = 0"
| "tval (t # ts) = trit_to_i8 t + 3 * tval ts"

definition half :: "nat \<Rightarrow> int" where
  "half n = (3 ^ n - 1) div 2"

definition balanced :: "int \<Rightarrow> int" where
  "balanced v = (v + 9841) mod 19683 - 9841"

lemma half_0 [simp]: "half 0 = 0"
  by (simp add: half_def)

lemma half_Suc [simp]: "half (Suc n) = 3 * half n + 1"
proof -
  have "odd ((3::int) ^ n)" by simp
  then obtain k where "(3::int) ^ n = 2 * k + 1" by (rule oddE)
  then show ?thesis by (simp add: half_def)
qed

lemma power3_half: "(3::int) ^ n = 2 * half n + 1"
  by (induction n) auto

lemma half_9: "half 9 = 9841"
  by (simp add: half_def)

lemma trit_to_i8_bounds: "-1 \<le> trit_to_i8 t \<and> trit_to_i8 t \<le> 1"
  by (cases t) auto

lemma trit_to_i8_inj [simp]: "trit_to_i8 a = trit_to_i8 b \<longleftrightarrow> a = b"
  by (cases a; cases b) auto

lemma trit_from_to_i8 [simp]: "trit_from_i8 (trit_to_i8 t) = Some t"
  by (cases t) (auto simp: trit_from_i8_def)

lemma to_i8_the_from_i8: "r \<in> {-1, 0, 1} \<Longrightarrow> trit_to_i8 (the (trit_from_i8 r)) = r"
  by (auto simp: trit_from_i8_def)

lemma from_i8_rem: "trit_from_i8 (x mod 3 - 1) \<noteq> None"
proof -
  have "x mod 3 = 0 \<or> x mod 3 = 1 \<or> x mod 3 = 2" by presburger
  then show ?thesis by (auto simp: trit_from_i8_def)
qed

lemma tval_bound: "\<bar>tval ts\<bar> \<le> half (length ts)"
proof (induction ts)
  case (Cons t ts)
  then show ?case using trit_to_i8_bounds [of t] by (simp add: abs_le_iff)
qed simp

lemma to_i32_loop_eq: "to_i32_loop ts v p = v + p * tval ts"
  by (induction ts arbitrary: v p) (auto simp: algebra_simps)

lemma to_i32_eq: "to_i32 ts = tval ts"
  by (simp add: to_i32_def to_i32_loop_eq)

lemma balanced_unique:
  assumes "\<bar>a\<bar> \<le> half n" "\<bar>b\<bar> \<le> half n" "a mod 3 ^ n = b mod 3 ^ n"
  shows "a = b"
proof -
  from assms(3) have "(a + half n) mod 3 ^ n = (b + half n) mod 3 ^ n"
    by (metis mod_add_left_eq)
  moreover have "0 \<le> a + half n" "a + half n < 3 ^ n" "0 \<le> b + half n" "b + half n < 3 ^ n"
    using assms(1,2) by (auto simp: power3_half)
  ultimately show ?thesis by simp
qed

lemma balanced_eqI: "\<bar>a\<bar> \<le> half 9 \<Longrightarrow> a mod 19683 = v mod 19683 \<Longrightarrow> a = balanced v"
proof -
  assume a: "\<bar>a\<bar> \<le> half 9" "a mod 19683 = v mod 19683"
  have "0 \<le> (v + 9841) mod 19683" "(v + 9841) mod 19683 < 19683" by simp_all
  then have "\<bar>balanced v\<bar> \<le> half 9" unfolding half_9 balanced_def by linarith
  moreover have "balanced v mod 19683 = v mod 19683" by (simp add: balanced_def mod_diff_left_eq)
  ultimately show ?thesis using a balanced_unique [of a 9 "balanced v"] by simp
qed

lemma balanced_id: "\<bar>v\<bar> \<le> 9841 \<Longrightarrow> balanced v = v"
  by (simp add: balanced_def)

section \<open>Conversion\<close>

lemma length_from_i32_loop [simp]: "length (from_i32_loop n v) = n"
  by (induction n arbitrary: v) (auto simp: Let_def)

lemma length_from_i32 [simp]: "length (from_i32 v) = 9"
  by (simp add: from_i32_def)

lemma balanced_digit:
  fixes v :: int
  defines "r \<equiv> (v + 1) mod 3 - 1"
  shows "r \<in> {-1, 0, 1}" "3 dvd v - r"
  unfolding r_def by (auto, presburger+)

lemma sdiv_3_dvd: "3 dvd (v::int) \<Longrightarrow> v sdiv 3 = v div 3"
  by (auto simp: signed_divide_int_def sgn_if elim!: dvdE)

text \<open>
  Inside the open \<open>i32\<close> range neither \<open>val + 1\<close> nor \<open>val - rem\<close> overflows, and after the first
  step the value has shrunk to a third.
\<close>

lemma tval_from_i32_loop:
  assumes "-2147483648 < v" "v < 2147483647"
  shows "tval (from_i32_loop n v) mod 3 ^ n = v mod 3 ^ n"
  using assms
proof (induction n arbitrary: v)
  case 0
  then show ?case by simp
next
  case (Suc n)
  define r where "r = (v + 1) mod 3 - 1"
  have r: "r \<in> {-1, 0, 1}" "3 dvd v - r"
    using balanced_digit [of v] by (auto simp: r_def)
  then obtain q where q: "v - r = 3 * q" by (auto elim: dvdE)
  have w1: "wrap_i32 (v + 1) = v + 1" using Suc.prems by (simp add: wrap_i32_id)
  have "wrap_i32 (v - r) = v - r"
  proof (rule wrap_i32_id)
    show "-2147483648 \<le> v - r" using r Suc.prems(1) by auto
    show "v - r < 2147483648" using r Suc.prems(2) by auto
  qed
  then have w2: "wrap_i32 (v - r) sdiv 3 = q" using q by (simp add: sdiv_3_dvd)
  have "from_i32_loop (Suc n) v = the (trit_from_i8 r) # from_i32_loop n q"
    using w2 by (simp add: Let_def w1 flip: r_def)
  then have val: "tval (from_i32_loop (Suc n) v) = r + 3 * tval (from_i32_loop n q)"
    using to_i8_the_from_i8 [OF r(1)] by simp
  have "-2147483648 < q" "q < 2147483647" using q r Suc.prems by auto
  then have "tval (from_i32_loop n q) mod 3 ^ n = q mod 3 ^ n" by (rule Suc.IH)
  then have "3 * tval (from_i32_loop n q) mod 3 ^ Suc n = 3 * q mod 3 ^ Suc n"
    by (simp add: mult_mod_right [symmetric])
  then have "(r + 3 * tval (from_i32_loop n q)) mod 3 ^ Suc n = (r + 3 * q) mod 3 ^ Suc n"
    by (metis mod_add_right_eq)
  moreover have "r + 3 * q = v" using q by simp
  ultimately show ?case by (simp only: val)
qed

lemma to_i32_from_i32:
  "-2147483648 < v \<Longrightarrow> v < 2147483647 \<Longrightarrow> to_i32 (from_i32 v) = balanced v"
  using tval_from_i32_loop [of v 9] tval_bound [of "from_i32_loop 9 v"]
  by (intro balanced_eqI) (auto simp: to_i32_eq from_i32_def)

lemma tval_inj: "length xs = length ys \<Longrightarrow> tval xs = tval ys \<Longrightarrow> xs = ys"
proof (induction xs ys rule: list_induct2)
  case (Cons x xs y ys)
  have "trit_to_i8 x = trit_to_i8 y"
    using Cons.prems trit_to_i8_bounds [of x] trit_to_i8_bounds [of y]
    unfolding tval.simps by presburger
  with Cons show ?case by simp
qed simp

lemma to_i32_bound: "length t = 9 \<Longrightarrow> \<bar>to_i32 t\<bar> \<le> 9841"
  using tval_bound [of t] by (simp add: to_i32_eq half_9)

lemma from_i32_to_i32: "length t = 9 \<Longrightarrow> from_i32 (to_i32 t) = t"
proof -
  assume t: "length t = 9"
  have "to_i32 (from_i32 (to_i32 t)) = to_i32 t"
    using to_i32_bound [OF t] by (subst to_i32_from_i32) (auto intro: balanced_id)
  then show ?thesis using t by (intro tval_inj) (auto simp: to_i32_eq)
qed

section \<open>Arithmetic\<close>

lemma full_add_value:
  "full_add a b c = (s, c') \<Longrightarrow>
     trit_to_i8 s + 3 * trit_to_i8 c' = trit_to_i8 a + trit_to_i8 b + trit_to_i8 c"
  by (cases a; cases b; cases c) (auto simp: full_add_def Let_def)

lemma length_tryte_add_loop [simp]:
  "length (tryte_add_loop a b c) = min (length a) (length b)"
  by (induction a b c rule: tryte_add_loop.induct) (auto split: prod.splits)

lemma tval_add_loop:
  "length a = length b \<Longrightarrow>
     \<exists>k. tval (tryte_add_loop a b c) + 3 ^ length a * k = tval a + tval b + trit_to_i8 c"
proof (induction a b arbitrary: c rule: list_induct2)
  case Nil
  show ?case by (rule exI [where x = "trit_to_i8 c"]) simp
next
  case (Cons x xs y ys)
  obtain s c' where f: "full_add x y c = (s, c')" by fastforce
  obtain k where k: "tval (tryte_add_loop xs ys c') + 3 ^ length xs * k
      = tval xs + tval ys + trit_to_i8 c'"
    using Cons.IH by blast
  show ?case
    using full_add_value [OF f] k by (intro exI [where x = k]) (simp add: f algebra_simps)
qed

lemma to_i32_tryte_add:
  assumes "length a = 9" "length b = 9"
  shows "to_i32 (tryte_add a b) = balanced (to_i32 a + to_i32 b)"
proof -
  obtain k where "tval (tryte_add a b) + 3 ^ 9 * k = tval a + tval b"
    using tval_add_loop [of a b TZero] assms by (auto simp: tryte_add_def)
  then have k: "tval a + tval b = tval (tryte_add a b) + 19683 * k" by simp
  have "\<bar>tval (tryte_add a b)\<bar> \<le> half 9"
    using tval_bound [of "tryte_add a b"] assms by (simp add: tryte_add_def)
  then show ?thesis
    unfolding to_i32_eq k by (rule balanced_eqI) simp
qed

lemma trit_to_i8_neg [simp]: "trit_to_i8 (trit_neg t) = - trit_to_i8 t"
  by (cases t) auto

lemma length_tryte_neg [simp]: "length (tryte_neg t) = length t"
  by (simp add: tryte_neg_def)

lemma to_i32_tryte_neg: "to_i32 (tryte_neg t) = - to_i32 t"
  unfolding to_i32_eq tryte_neg_def by (induction t) auto

lemma to_i32_zero [simp]: "to_i32 tryte_zero = 0"
  by (simp add: to_i32_eq tryte_zero_def numeral_eq_Suc)

lemma to_i32_scale: "to_i32 (scale a s) = trit_to_i8 s * to_i32 a"
  by (cases s) (auto simp: to_i32_tryte_neg)

lemma to_i32_abs: "to_i32 (abs_tryte a) = \<bar>to_i32 a\<bar>"
  by (simp add: abs_tryte_def to_i32_tryte_neg)

lemma smod_mod_add: "((p smod 19683) + c) mod 19683 = ((p::int) + c) mod 19683"
proof -
  have "p smod 19683 + c = (p + c) - p sdiv 19683 * 19683"
    using sdiv_mult_smod_eq [of p 19683] by linarith
  then show ?thesis by (metis mod_diff_right_eq mod_mult_self2_is_0 diff_0_right)
qed

lemma balanced_abs: "\<bar>balanced v\<bar> \<le> 9841"
proof -
  have "0 \<le> (v + 9841) mod 19683" "(v + 9841) mod 19683 < 19683" by simp_all
  then show ?thesis unfolding balanced_def by linarith
qed

lemma balanced_dvd: "19683 dvd v - balanced v"
  by (simp add: balanced_def mod_eq_dvd_iff [symmetric] mod_diff_left_eq)

lemma to_i32_from_small: "\<bar>v\<bar> \<le> 9841 \<Longrightarrow> to_i32 (from_i32 v) = v"
  by (subst to_i32_from_i32) (auto simp: balanced_id)

lemma sdiv_dvd_mult: "(d::int) dvd v \<Longrightarrow> d * (v sdiv d) = v"
  using mult_sdiv_smod_eq [of d v] by (simp add: smod_int_alt_def dvd_imp_mod_0)

lemma mul_high_bound:
  fixes p :: int
  assumes "\<bar>p\<bar> \<le> 96845281"
  shows "\<bar>(p - balanced p) sdiv 19683\<bar> \<le> 9841"
proof -
  have "19683 * ((p - balanced p) sdiv 19683) = p - balanced p"
    using balanced_dvd [of p] by (rule sdiv_dvd_mult)
  moreover have "\<bar>p - balanced p\<bar> \<le> 96845281 + 9841"
    using balanced_abs [of p] assms by linarith
  ultimately show ?thesis by linarith
qed

lemma to_i32_product_bound:
  assumes "length a = 9" "length b = 9"
  shows "\<bar>to_i32 a * to_i32 b\<bar> \<le> 96845281"
  using mult_mono [OF to_i32_bound [OF assms(1)] to_i32_bound [OF assms(2)]]
  by (simp add: abs_mult)

lemma sdiv_abs_le: "\<bar>(a::int) sdiv b\<bar> \<le> \<bar>a\<bar>"
proof (cases "a = 0 \<or> b = 0")
  case False
  have "\<bar>a\<bar> div \<bar>b\<bar> \<le> \<bar>a\<bar>" using zdiv_mono2 [of "\<bar>a\<bar>" 1 "\<bar>b\<bar>"] False by (simp add: int_one_le_iff_zero_less)
  then show ?thesis
    using False by (auto simp: signed_divide_int_def abs_mult abs_sgn_eq pos_imp_zdiv_nonneg_iff)
qed (auto simp: signed_divide_int_def)

lemma smod_abs: "\<bar>(a::int) smod b\<bar> = \<bar>a\<bar> mod \<bar>b\<bar>"
proof -
  have "0 \<le> \<bar>a\<bar> mod \<bar>b\<bar>" by (cases "b = 0") auto
  then show ?thesis by (auto simp: smod_int_alt_def abs_mult abs_sgn_eq)
qed

lemma sgn_smod: "(a::int) smod b \<noteq> 0 \<Longrightarrow> sgn (a smod b) = sgn a"
proof -
  assume nz: "a smod b \<noteq> 0"
  have "0 \<le> \<bar>a\<bar> mod \<bar>b\<bar>" by (cases "b = 0") auto
  then have "0 < \<bar>a\<bar> mod \<bar>b\<bar>" using nz by (auto simp: smod_int_alt_def le_less)
  then show ?thesis by (simp add: smod_int_alt_def sgn_mult)
qed

lemma mul_tryte_value:
  assumes "length a = 9" "length b = 9"
  shows "to_i32 (fst (mul_tryte a b)) + 19683 * to_i32 (snd (mul_tryte a b)) = to_i32 a * to_i32 b"
proof -
  define p where "p = to_i32 a * to_i32 b"
  have lo: "((p smod 19683) + 9841) mod 19683 - 9841 = balanced p"
    by (simp add: smod_mod_add balanced_def)
  have hi: "\<bar>(p - balanced p) sdiv 19683\<bar> \<le> 9841"
    using to_i32_product_bound [OF assms] by (intro mul_high_bound) (simp add: p_def)
  have "19683 * ((p - balanced p) sdiv 19683) = p - balanced p"
    using balanced_dvd by (rule sdiv_dvd_mult)
  then show "to_i32 (fst (mul_tryte a b)) + 19683 * to_i32 (snd (mul_tryte a b))
      = to_i32 a * to_i32 b"
    by (simp add: mul_tryte_def Let_def lo to_i32_from_small [OF balanced_abs]
        to_i32_from_small [OF hi] flip: p_def)
qed

lemma div_tryte_value:
  assumes "length a = 9" "length b = 9"
  shows "if to_i32 b = 0 then div_tryte a b = (tryte_zero, a)
         else to_i32 (fst (div_tryte a b)) * to_i32 b + to_i32 (mod_tryte a b) = to_i32 a
            \<and> \<bar>to_i32 (mod_tryte a b)\<bar> < \<bar>to_i32 b\<bar>
            \<and> (to_i32 (mod_tryte a b) \<noteq> 0 \<longrightarrow> sgn (to_i32 (mod_tryte a b)) = sgn (to_i32 a))"
proof -
  let ?a = "to_i32 a" and ?b = "to_i32 b"
  have q: "\<bar>?a sdiv ?b\<bar> \<le> 9841"
    using sdiv_abs_le [of ?a ?b] to_i32_bound [OF assms(1)] by linarith
  have r: "?b \<noteq> 0 \<Longrightarrow> \<bar>?a smod ?b\<bar> < \<bar>?b\<bar>" by (simp add: smod_abs)
  moreover have "?b \<noteq> 0 \<Longrightarrow> \<bar>?a smod ?b\<bar> \<le> 9841"
    using r to_i32_bound [OF assms(2)] by linarith
  moreover have "?a smod ?b \<noteq> 0 \<Longrightarrow> sgn (?a smod ?b) = sgn ?a" by (rule sgn_smod)
  ultimately show "if ?b = 0 then div_tryte a b = (tryte_zero, a)
         else to_i32 (fst (div_tryte a b)) * ?b + to_i32 (mod_tryte a b) = ?a
            \<and> \<bar>to_i32 (mod_tryte a b)\<bar> < \<bar>?b\<bar>
            \<and> (to_i32 (mod_tryte a b) \<noteq> 0 \<longrightarrow> sgn (to_i32 (mod_tryte a b)) = sgn ?a)"
    by (simp add: div_tryte_def mod_tryte_def Let_def to_i32_from_small [OF q] to_i32_from_small
        sdiv_mult_smod_eq)
qed

section \<open>The sparse dot product\<close>

abbreviation dense_terms :: "trit list \<Rightarrow> trit list \<Rightarrow> int list" where
  "dense_terms xs ys \<equiv> map2 (\<lambda>x y. trit_to_i8 x * trit_to_i8 y) xs ys"

definition dense_dot :: "trit list \<Rightarrow> trit list \<Rightarrow> int" where
  "dense_dot xs ys = sum_list (dense_terms xs ys)"

lemma dense_term_bound: "\<bar>trit_to_i8 x * trit_to_i8 y\<bar> \<le> 1"
  by (cases x; cases y) auto

lemma sparse_dot_loop_eq:
  "\<bar>s\<bar> + int (length ps) < 2147483648 \<Longrightarrow>
   sparse_dot_loop ps s k =
     (s + (\<Sum>(x, y)\<leftarrow>ps. trit_to_i8 x * trit_to_i8 y),
      k + length (filter (\<lambda>(x, y). trit_to_i8 x * trit_to_i8 y = 0) ps))"
proof (induction ps s k rule: sparse_dot_loop.induct)
  case (2 x y rest s k)
  have w: "wrap_i32 (s + 1) = s + 1" "wrap_i32 (s - 1) = s - 1"
    using "2.prems" by (auto intro!: wrap_i32_id)
  show ?case
  proof (cases "x = TZero \<or> y = TZero")
    case True
    with "2.IH"(1) "2.prems" show ?thesis by auto
  next
    case False
    have le: "\<bar>s + 1\<bar> + int (length rest) < 2147483648"
      "\<bar>s - 1\<bar> + int (length rest) < 2147483648"
      using "2.prems" by auto
    show ?thesis
      using False "2.IH"(2,3) le w by (cases x; cases y) auto
  qed
qed simp

lemma sparse_dot_Some:
  assumes "length x = length w" "length x < 2147483648"
  shows "sparse_dot x w = Some (dense_dot x w, length x,
           length (filter (\<lambda>p. p = 0) (dense_terms x w)))"
proof -
  have "sparse_dot_loop (zip x w) 0 0
      = (dense_dot x w, length (filter (\<lambda>p. p = 0) (dense_terms x w)))"
    using assms by (subst sparse_dot_loop_eq)
      (auto simp: dense_dot_def filter_map comp_def case_prod_unfold)
  then show ?thesis using assms by (simp add: sparse_dot_def)
qed

definition weight_row :: "trit list \<Rightarrow> nat \<Rightarrow> nat \<Rightarrow> trit list" where
  "weight_row ws n_in row = slice ws (row * n_in) (row * n_in + n_in)"

lemma forward_loop_eq:
  assumes "length x = n_in" "n_in < 2147483648" "\<forall>row \<in> set rows. row * n_in + n_in \<le> length ws"
  shows "forward_loop ws n_in x rows out ops sk =
    Some (out @ map (\<lambda>row. activation (dense_dot x (weight_row ws n_in row))) rows,
          ops + length rows * n_in,
          sk + (\<Sum>row\<leftarrow>rows. length (filter (\<lambda>p. p = 0) (dense_terms x (weight_row ws n_in row)))))"
  using assms(3)
proof (induction rows arbitrary: out ops sk)
  case (Cons row rows)
  have "sparse_dot x (weight_row ws n_in row) = Some (dense_dot x (weight_row ws n_in row), n_in,
      length (filter (\<lambda>p. p = 0) (dense_terms x (weight_row ws n_in row))))"
    using sparse_dot_Some [of x "weight_row ws n_in row", OF _ _] assms(1,2) Cons.prems
    by (metis length_slice list.set_intros(1) min.absorb1 weight_row_def add_diff_cancel_left' le_diff_conv2 add_leD1 add.commute)
  then show ?case using Cons by (simp add: Let_def flip: weight_row_def)
qed simp

lemma filter_zero_le: "length (filter (\<lambda>p. p = (0::int)) (dense_terms x w)) \<le> length x"
  by (rule le_trans [OF length_filter_le]) simp

section \<open>Properties\<close>

text \<open>
  C39: conversion is a round trip. A tryte converted to \<open>i32\<close> and back is the same tryte, and
  every \<open>i32\<close> strictly between \<open>i32::MIN\<close> and \<open>i32::MAX\<close> comes back as its balanced residue
  modulo \<open>3 ^ 9\<close>, so exactly itself in the range \<open>-9841..9841\<close> of a tryte.
\<close>

theorem tryte_roundtrip:
  "(length t = 9 \<longrightarrow> from_i32 (to_i32 t) = t) \<and>
   (-2147483648 < v \<and> v < 2147483647 \<longrightarrow> to_i32 (from_i32 v) = balanced v) \<and>
   (\<bar>v\<bar> \<le> 9841 \<longrightarrow> to_i32 (from_i32 v) = v)"
  using to_i32_from_small by (simp add: from_i32_to_i32 to_i32_from_i32)

theorem tryte_roundtrip_witness:
  "from_i32 (to_i32 [TPos, TNeg, TZero, TZero, TPos, TZero, TZero, TZero, TZero])
     = [TPos, TNeg, TZero, TZero, TPos, TZero, TZero, TZero, TZero] \<and>
   to_i32 (from_i32 20000) = 317 \<and> to_i32 (from_i32 (- 100)) = - 100"
proof -
  let ?t = "[TPos, TNeg, TZero, TZero, TPos, TZero, TZero, TZero, TZero]"
  have b: "balanced 20000 = 317" by (simp add: balanced_def)
  show ?thesis
    using tryte_roundtrip [of ?t 20000] tryte_roundtrip [of ?t "- 100"] b by simp
qed

text \<open>
  At the two ends of the range \<open>val + 1\<close> and \<open>val - rem\<close> leave \<open>i32\<close>: with wrapping arithmetic
  (a release build) the converted tryte is not the residue of the argument.
\<close>

lemma from_i32_overflow:
  "to_i32 (from_i32 2147483647) \<noteq> balanced 2147483647 \<and>
   to_i32 (from_i32 (- 2147483648)) \<noteq> balanced (- 2147483648)"
  by code_simp

text \<open>
  the carry chain of nine full adders adds trytes modulo \<open>3 ^ 9\<close>: the sum's value is the
  balanced residue of the sum of the values; negation, absolute value and scaling by a trit
  are exact.
\<close>

theorem tryte_add_correct:
  assumes "length a = 9" "length b = 9"
  shows "length (tryte_add a b) = 9 \<and>
         to_i32 (tryte_add a b) = balanced (to_i32 a + to_i32 b) \<and>
         to_i32 (tryte_neg a) = - to_i32 a \<and>
         to_i32 (abs_tryte a) = \<bar>to_i32 a\<bar> \<and>
         to_i32 (scale a s) = trit_to_i8 s * to_i32 a"
  using to_i32_tryte_add [OF assms] assms
  by (simp add: to_i32_tryte_neg to_i32_abs to_i32_scale tryte_add_def)

theorem tryte_add_correct_witness:
  "to_i32 (tryte_add (from_i32 9841) (from_i32 2)) = - 9840"
proof -
  have "to_i32 (tryte_add (from_i32 9841) (from_i32 2))
      = balanced (to_i32 (from_i32 9841) + to_i32 (from_i32 2))"
    using tryte_add_correct [of "from_i32 9841" "from_i32 2" TPos] by simp
  then show ?thesis by (simp add: to_i32_from_small balanced_def)
qed

text \<open>
  multiplication returns the exact double-width product, low tryte plus \<open>3 ^ 9\<close> times the
  high tryte; division by a nonzero tryte returns quotient and remainder with the remainder
  smaller than the divisor and of the dividend's sign; division by zero returns zero and the
  dividend.
\<close>

theorem tryte_mul_div_correct:
  assumes "length a = 9" "length b = 9"
  shows "to_i32 (fst (mul_tryte a b)) + 19683 * to_i32 (snd (mul_tryte a b)) = to_i32 a * to_i32 b \<and>
    (if to_i32 b = 0 then div_tryte a b = (tryte_zero, a)
         else to_i32 (fst (div_tryte a b)) * to_i32 b + to_i32 (mod_tryte a b) = to_i32 a
            \<and> \<bar>to_i32 (mod_tryte a b)\<bar> < \<bar>to_i32 b\<bar>
            \<and> (to_i32 (mod_tryte a b) \<noteq> 0 \<longrightarrow> sgn (to_i32 (mod_tryte a b)) = sgn (to_i32 a)))"
  by (rule conjI [OF mul_tryte_value [OF assms] div_tryte_value [OF assms]])

theorem tryte_mul_div_correct_witness:
  "to_i32 (fst (mul_tryte (from_i32 9000) (from_i32 (- 700))))
     + 19683 * to_i32 (snd (mul_tryte (from_i32 9000) (from_i32 (- 700)))) = - 6300000"
  using tryte_mul_div_correct [of "from_i32 9000" "from_i32 (- 700)"]
  by (simp add: to_i32_from_small)

text \<open>
  the sparse linear layer computes the dense one. With weights of shape
  \<open>[out, in]\<close> the forward pass succeeds; output trit \<open>row\<close> is the sign of the full dot product
  of the input with that weight row, the operation count is \<open>out * in\<close>, and the operations
  reported as skipped are exactly the products that are zero.
\<close>

theorem sparse_forward_is_dense:
  assumes "t_shape w = [n_out, n_in]" "length (t_data w) = n_out * n_in"
    and "t_shape x = [n_in]" "length (t_data x) = n_in" "n_in < 2147483648"
  shows "linear_forward w x = Some
    (\<lparr>t_data = map (\<lambda>row. activation (dense_dot (t_data x) (weight_row (t_data w) n_in row))) [0..<n_out],
      t_shape = [n_out]\<rparr>,
     n_out * n_in,
     (\<Sum>row\<leftarrow>[0..<n_out]. length (filter (\<lambda>p. p = 0)
        (dense_terms (t_data x) (weight_row (t_data w) n_in row)))))"
proof -
  have "\<forall>row \<in> set [0..<n_out]. row * n_in + n_in \<le> length (t_data w)"
  proof
    fix row assume "row \<in> set [0..<n_out]"
    then have "Suc row * n_in \<le> n_out * n_in" by (intro mult_le_mono1) auto
    then show "row * n_in + n_in \<le> length (t_data w)" using assms(2) by simp
  qed
  from forward_loop_eq [OF assms(4,5) this, of "[]" 0 0] show ?thesis
    using assms by (simp add: linear_forward_def tensor_new_def)
qed

theorem sparse_forward_is_dense_witness:
  "linear_forward \<lparr>t_data = [TPos, TNeg], t_shape = [1, 2]\<rparr> \<lparr>t_data = [TPos, TZero], t_shape = [2]\<rparr>
     = Some (\<lparr>t_data = [TPos], t_shape = [1]\<rparr>, 2, 1)"
  using sparse_forward_is_dense [of "\<lparr>t_data = [TPos, TNeg], t_shape = [1, 2]\<rparr>" 1 2
      "\<lparr>t_data = [TPos, TZero], t_shape = [2]\<rparr>"]
  by (simp add: weight_row_def slice_def dense_dot_def activation_def)

end
