(* ===== verification/Rpfs.thy ===== *)
theory Rpfs
  imports Prelude
begin

text \<open>
  The RPFS v2 filesystem core, \<open>kernel/src/rpfs.rs\<close>, over an arbitrary block device, and the
  RAM disk of \<open>tools/rpfs_test.rs\<close>. The filesystem state is the record \<open>rpfs\<close> with the fields
  of the Rust struct; every method is a function from the state to the new state and its
  result. A \<open>&mut self\<close> method of the device trait returns the new device. \<open>u64\<close> and \<open>usize\<close>
  values are natural numbers; \<open>u32\<close> values are natural numbers whose additions wrap
  (\<^const>\<open>u32_add\<close>), and the casts to \<open>u16\<close> and \<open>u32\<close> are written out.
\<close>

section \<open>Constants and the on-disk entry\<close>

definition SECTOR :: nat where "SECTOR = 512"
definition MAGIC :: bytes where "MAGIC = [82, 80, 70, 83, 50, 48, 50, 55]"
definition VERSION :: nat where "VERSION = 2"
definition ENTRY_SZ :: nat where "ENTRY_SZ = 128"
definition DIR_ENTRIES :: nat where "DIR_ENTRIES = 2048"
definition MAX_NAME :: nat where "MAX_NAME = 111"
definition MAX_FILE :: nat where "MAX_FILE = 1048576"
definition SCRATCH_SECTORS :: nat where "SCRATCH_SECTORS = 64"
definition K_FILE :: byte where "K_FILE = 0"
definition K_DIR :: byte where "K_DIR = 1"

abbreviation SLASH :: byte where "SLASH \<equiv> 47"

definition as_u16 :: "nat \<Rightarrow> nat" where "as_u16 n = n mod 65536"
definition as_u32 :: "nat \<Rightarrow> nat" where "as_u32 n = n mod 4294967296"

text \<open>The trait \<open>BlockDev\<close>: both methods take a sector number, a count and a buffer.\<close>

record 'd block_dev =
  bd_read :: "'d \<Rightarrow> nat \<Rightarrow> nat \<Rightarrow> bytes \<Rightarrow> 'd \<times> bool \<times> bytes"
  bd_write :: "'d \<Rightarrow> nat \<Rightarrow> nat \<Rightarrow> bytes \<Rightarrow> 'd \<times> bool"

record 'd rpfs =
  dev :: 'd
  base :: nat
  total_blocks :: nat
  bitmap_lba :: nat
  bitmap_sectors :: nat
  dir_lba :: nat
  data_lba :: nat
  bitmap :: bytes
  dir :: bytes
  scratch :: bytes
  ready :: bool

record 's dir_item =
  di_name :: 's
  di_is_dir :: bool
  di_size :: nat

definition rd_u32 :: "bytes \<Rightarrow> nat \<Rightarrow> nat" where
  "rd_u32 b off = nat_of_le (slice b off (off + 4))"

definition wr_u32 :: "bytes \<Rightarrow> nat \<Rightarrow> nat \<Rightarrow> bytes" where
  "wr_u32 b off v = blit b off (le_of_nat 4 v)"

definition parent_of :: "bytes \<Rightarrow> bytes" where
  "parent_of name = (case rposition (\<lambda>c. c = SLASH) name of Some i \<Rightarrow> take i name | None \<Rightarrow> [])"

section \<open>Flushing to the device\<close>

definition DIR_SECTORS :: nat where
  "DIR_SECTORS = DIR_ENTRIES * ENTRY_SZ div SECTOR"

definition super_block :: "nat \<Rightarrow> nat \<Rightarrow> bytes" where
  "super_block nb bms =
     (let sb = replicate SECTOR 0;
          sb = blit sb 0 MAGIC;
          sb = wr_u32 sb 8 VERSION;
          sb = wr_u32 sb 12 nb;
          sb = wr_u32 sb 16 bms
      in wr_u32 sb 20 DIR_ENTRIES)"

definition flush_super :: "'d block_dev \<Rightarrow> 'd rpfs \<Rightarrow> 'd rpfs" where
  "flush_super ops fs =
     fs\<lparr>dev := fst (bd_write ops (dev fs) (base fs) 1
          (super_block (total_blocks fs) (bitmap_sectors fs)))\<rparr>"

function flush_dir_loop :: "'d block_dev \<Rightarrow> nat \<Rightarrow> 'd rpfs \<Rightarrow> 'd rpfs" where
  "flush_dir_loop ops fin fs =
     (if fin < DIR_SECTORS then
        let n = min (DIR_SECTORS - fin) 64;
            off = fin * SECTOR;
            sl = slice (dir fs) off (off + n * SECTOR);
            d = fst (bd_write ops (dev fs) (dir_lba fs + fin) (as_u16 n) sl)
        in flush_dir_loop ops (fin + n) (fs\<lparr>dev := d\<rparr>)
      else fs)"
  by pat_completeness auto
termination by (relation "measure (\<lambda>(ops, fin, fs). DIR_SECTORS - fin)") auto

definition flush_dir_all :: "'d block_dev \<Rightarrow> 'd rpfs \<Rightarrow> 'd rpfs" where
  "flush_dir_all ops fs = flush_dir_loop ops 0 fs"

function load_dir_loop :: "'d block_dev \<Rightarrow> nat \<Rightarrow> 'd rpfs \<Rightarrow> 'd rpfs" where
  "load_dir_loop ops fin fs =
     (if fin < DIR_SECTORS then
        let n = min (DIR_SECTORS - fin) 64;
            off = fin * SECTOR;
            lba = dir_lba fs + fin;
            (d, _, buf) = bd_read ops (dev fs) lba (as_u16 n) (slice (dir fs) off (off + n * SECTOR))
        in load_dir_loop ops (fin + n) (fs\<lparr>dev := d, dir := blit (dir fs) off buf\<rparr>)
      else fs)"
  by pat_completeness auto
termination by (relation "measure (\<lambda>(ops, fin, fs). DIR_SECTORS - fin)") auto

definition load_dir :: "'d block_dev \<Rightarrow> 'd rpfs \<Rightarrow> 'd rpfs" where
  "load_dir ops fs = load_dir_loop ops 0 fs"

function flush_bitmap_loop :: "'d block_dev \<Rightarrow> nat \<Rightarrow> 'd rpfs \<Rightarrow> 'd rpfs" where
  "flush_bitmap_loop ops fin fs =
     (if fin < bitmap_sectors fs then
        let n = min (bitmap_sectors fs - fin) 64;
            off = fin * SECTOR;
            sl = slice (bitmap fs) off (off + n * SECTOR);
            d = fst (bd_write ops (dev fs) (bitmap_lba fs + fin) (as_u16 n) sl)
        in flush_bitmap_loop ops (fin + n) (fs\<lparr>dev := d\<rparr>)
      else fs)"
  by pat_completeness auto
termination by (relation "measure (\<lambda>(ops, fin, fs). bitmap_sectors fs - fin)") auto

definition flush_bitmap_all :: "'d block_dev \<Rightarrow> 'd rpfs \<Rightarrow> 'd rpfs" where
  "flush_bitmap_all ops fs = flush_bitmap_loop ops 0 fs"

definition flush_dir_entry :: "'d block_dev \<Rightarrow> nat \<Rightarrow> 'd rpfs \<Rightarrow> 'd rpfs" where
  "flush_dir_entry ops idx fs =
     (let sector = idx * ENTRY_SZ div SECTOR;
          off = sector * SECTOR;
          buf = slice (dir fs) off (off + SECTOR)
      in fs\<lparr>dev := fst (bd_write ops (dev fs) (dir_lba fs + sector) 1 buf)\<rparr>)"

text \<open>The loop over \<open>first..=last\<close>; it breaks off at the end of the in-memory bitmap.\<close>

fun flush_range_loop :: "'d block_dev \<Rightarrow> nat list \<Rightarrow> 'd rpfs \<Rightarrow> 'd rpfs" where
  "flush_range_loop ops [] fs = fs"
| "flush_range_loop ops (s # ss) fs =
     (let off = s * SECTOR
      in if off + SECTOR > length (bitmap fs) then fs
         else let buf = slice (bitmap fs) off (off + SECTOR);
                  d = fst (bd_write ops (dev fs) (bitmap_lba fs + s) 1 buf)
              in flush_range_loop ops ss (fs\<lparr>dev := d\<rparr>))"

definition flush_bitmap_range :: "'d block_dev \<Rightarrow> nat \<Rightarrow> nat \<Rightarrow> 'd rpfs \<Rightarrow> 'd rpfs" where
  "flush_bitmap_range ops start n fs =
     (let first = start div 8 div SECTOR;
          last = (u32_add start n - 1) div 8 div SECTOR
      in flush_range_loop ops [first..<Suc last] fs)"

section \<open>The block bitmap\<close>

definition bit_get :: "bytes \<Rightarrow> nat \<Rightarrow> bool" where
  "bit_get bm b \<longleftrightarrow> and (drop_bit (b mod 8) (bm ! (b div 8))) 1 \<noteq> 0"

definition bit_set :: "bytes \<Rightarrow> nat \<Rightarrow> bool \<Rightarrow> bytes" where
  "bit_set bm b v =
     (let i = b div 8; mask = push_bit (b mod 8) 1
      in if v then bm[i := or (bm ! i) mask] else bm[i := and (bm ! i) (not mask)])"

fun set_bits :: "bytes \<Rightarrow> nat list \<Rightarrow> bytes" where
  "set_bits bm [] = bm"
| "set_bits bm (k # ks) = set_bits (bit_set bm k True) ks"

fun alloc_scan :: "bytes \<Rightarrow> nat \<Rightarrow> nat list \<Rightarrow> nat \<Rightarrow> nat \<Rightarrow> nat option" where
  "alloc_scan bm n [] start run = None"
| "alloc_scan bm n (b # bs) start run =
     (if \<not> bit_get bm b then
        let start = (if run = 0 then b else start); run = run + 1
        in if run = n then Some start else alloc_scan bm n bs start run
      else alloc_scan bm n bs start 0)"

definition alloc_run :: "nat \<Rightarrow> 'd rpfs \<Rightarrow> nat option \<times> 'd rpfs" where
  "alloc_run n fs =
     (if n = 0 then (None, fs)
      else case alloc_scan (bitmap fs) n [0..<total_blocks fs] 0 0 of
             None \<Rightarrow> (None, fs)
           | Some start \<Rightarrow>
               (Some start, fs\<lparr>bitmap := set_bits (bitmap fs) [start..<u32_add start n]\<rparr>))"

fun clear_bits :: "nat \<Rightarrow> bytes \<Rightarrow> nat list \<Rightarrow> bytes" where
  "clear_bits nb bm [] = bm"
| "clear_bits nb bm (k # ks) =
     clear_bits nb (if k < nb then bit_set bm k False else bm) ks"

definition free_run :: "nat \<Rightarrow> nat \<Rightarrow> 'd rpfs \<Rightarrow> 'd rpfs" where
  "free_run start n fs =
     fs\<lparr>bitmap := clear_bits (total_blocks fs) (bitmap fs) [start..<u32_add start n]\<rparr>"

definition free_blocks :: "'d rpfs \<Rightarrow> nat" where
  "free_blocks fs = length (filter (\<lambda>b. \<not> bit_get (bitmap fs) b) [0..<total_blocks fs])"

section \<open>Directory entries\<close>

definition ent :: "bytes \<Rightarrow> nat \<Rightarrow> bytes" where
  "ent d i = slice d (i * ENTRY_SZ) ((i + 1) * ENTRY_SZ)"

definition e_trit :: "bytes \<Rightarrow> nat \<Rightarrow> int" where
  "e_trit d i = sint (d ! (i * ENTRY_SZ + 112))"

definition e_kind :: "bytes \<Rightarrow> nat \<Rightarrow> byte" where
  "e_kind d i = d ! (i * ENTRY_SZ + 111)"

definition e_name :: "bytes \<Rightarrow> nat \<Rightarrow> bytes" where
  "e_name d i =
     (let e = ent d i;
          stop = (case position (\<lambda>b. b = 0) (take MAX_NAME e) of Some k \<Rightarrow> k | None \<Rightarrow> MAX_NAME)
      in take stop e)"

definition e_start :: "bytes \<Rightarrow> nat \<Rightarrow> nat" where
  "e_start d i = rd_u32 (ent d i) 116"

definition e_size :: "bytes \<Rightarrow> nat \<Rightarrow> nat" where
  "e_size d i = rd_u32 (ent d i) 120"

definition e_nblocks :: "bytes \<Rightarrow> nat \<Rightarrow> nat" where
  "e_nblocks d i = rd_u32 (ent d i) 124"

definition set_entry ::
  "nat \<Rightarrow> bytes \<Rightarrow> byte \<Rightarrow> int \<Rightarrow> nat \<Rightarrow> nat \<Rightarrow> nat \<Rightarrow> bytes \<Rightarrow> bytes" where
  "set_entry i name kind trit start sz nblocks d =
     (let off = i * ENTRY_SZ;
          d = blit d off (replicate ENTRY_SZ 0);
          n = min (length name) MAX_NAME;
          d = blit d off (take n name);
          d = d[off + 111 := kind];
          d = d[off + 112 := of_int trit];
          d = wr_u32 d (off + 116) start;
          d = wr_u32 d (off + 120) sz
      in wr_u32 d (off + 124) nblocks)"

definition find_entry :: "bytes \<Rightarrow> bytes \<Rightarrow> nat option" where
  "find_entry d name = List.find (\<lambda>i. e_trit d i = 1 \<and> e_name d i = name) [0..<DIR_ENTRIES]"

definition free_slot :: "bytes \<Rightarrow> nat option" where
  "free_slot d = List.find (\<lambda>i. e_trit d i \<le> 0) [0..<DIR_ENTRIES]"

text \<open>One iteration of \<open>ensure_parents\<close>: create the directory at \<open>name[..cut]\<close> if it is missing.\<close>

definition ensure_one :: "'d block_dev \<Rightarrow> bytes \<Rightarrow> 'd rpfs \<Rightarrow> 'd rpfs" where
  "ensure_one ops dirpath fs =
     (if find_entry (dir fs) dirpath = None then
        case free_slot (dir fs) of
          Some slot \<Rightarrow>
            flush_dir_entry ops slot (fs\<lparr>dir := set_entry slot dirpath K_DIR 1 0 0 0 (dir fs)\<rparr>)
        | None \<Rightarrow> fs
      else fs)"

function ensure_parents_loop :: "'d block_dev \<Rightarrow> bytes \<Rightarrow> nat \<Rightarrow> 'd rpfs \<Rightarrow> 'd rpfs" where
  "ensure_parents_loop ops name idx fs =
     (case position (\<lambda>c. c = SLASH) (drop idx name) of
        None \<Rightarrow> fs
      | Some pos \<Rightarrow>
          let cut = idx + pos;
              fs' = (if cut > 0 then ensure_one ops (take cut name) fs else fs)
          in ensure_parents_loop ops name (cut + 1) fs')"
  by pat_completeness auto
termination
  by (relation "measure (\<lambda>(ops, name, idx, fs). length name - idx)") (auto dest!: position_lt)

definition ensure_parents :: "'d block_dev \<Rightarrow> bytes \<Rightarrow> 'd rpfs \<Rightarrow> 'd rpfs" where
  "ensure_parents ops name fs = ensure_parents_loop ops name 0 fs"

section \<open>Files\<close>

text \<open>
  One chunk of the staging loop of \<open>write_file\<close>: at most 64 sectors go through the scratch
  buffer, zero-padded. Returns the device's answer, the bytes copied and the state.
\<close>

definition write_chunk ::
  "'d block_dev \<Rightarrow> bytes \<Rightarrow> nat \<Rightarrow> nat \<Rightarrow> nat \<Rightarrow> nat \<Rightarrow> 'd rpfs \<Rightarrow> bool \<times> nat \<times> 'd rpfs" where
  "write_chunk ops data start cnt blk written fs =
     (let cbytes = cnt * SECTOR;
          copy = min (length data - written) cbytes;
          scr = blit (scratch fs) 0 (slice data written (written + copy));
          scr = blit scr copy (replicate (cbytes - copy) 0);
          lba = data_lba fs + u32_add start blk;
          (d, ok) = bd_write ops (dev fs) lba (as_u16 cnt) (take cbytes scr)
      in (ok, copy, fs\<lparr>scratch := scr, dev := d\<rparr>))"

function write_loop :: "'d block_dev \<Rightarrow> bytes \<Rightarrow> nat \<Rightarrow> nat \<Rightarrow> nat \<Rightarrow> nat \<Rightarrow> 'd rpfs \<Rightarrow> bool \<times> 'd rpfs"
where
  "write_loop ops data start nblocks blk written fs =
     (if blk < nblocks then
        let cnt = min (nblocks - blk) SCRATCH_SECTORS
        in case write_chunk ops data start cnt blk written fs of
             (ok, copy, fs') \<Rightarrow>
               if \<not> ok then (False, fs')
               else write_loop ops data start nblocks (blk + cnt) (written + copy) fs'
      else (True, fs))"
  by pat_completeness auto
termination
  by (relation "measure (\<lambda>(ops, data, start, nblocks, blk, written, fs). nblocks - blk)")
    (simp_all add: SCRATCH_SECTORS_def)

definition blocks_for :: "bytes \<Rightarrow> nat" where
  "blocks_for data = as_u32 (max ((length data + SECTOR - 1) div SECTOR) 1)"

text \<open>
  Which slot the file goes to: the slot of the file it overwrites, whose extent is freed, or
  the first free slot. \<^const>\<open>None\<close> is \<open>return false\<close>.
\<close>

definition claim_slot :: "'d block_dev \<Rightarrow> bytes \<Rightarrow> 'd rpfs \<Rightarrow> (nat \<times> 'd rpfs) option" where
  "claim_slot ops name fs =
     (case find_entry (dir fs) name of
        Some i \<Rightarrow>
          if e_kind (dir fs) i = K_DIR then None
          else let os = e_start (dir fs) i; on = e_nblocks (dir fs) i
               in Some (i, flush_bitmap_range ops os on (free_run os on fs))
      | None \<Rightarrow> map_option (\<lambda>i. (i, fs)) (free_slot (dir fs)))"

definition write_file :: "'d block_dev \<Rightarrow> bytes \<Rightarrow> bytes \<Rightarrow> 'd rpfs \<Rightarrow> bool \<times> 'd rpfs" where
  "write_file ops name data fs =
     (if \<not> ready fs \<or> name = [] \<or> length name > MAX_NAME \<or> length data > MAX_FILE then (False, fs)
      else let nblocks = blocks_for data in
      case claim_slot ops name fs of
        None \<Rightarrow> (False, fs)
      | Some (slot, fs1) \<Rightarrow>
         (case alloc_run nblocks fs1 of
            (None, fs2) \<Rightarrow>
              (False, flush_dir_entry ops slot
                 (fs2\<lparr>dir := set_entry slot name K_FILE (-1) 0 0 0 (dir fs2)\<rparr>))
          | (Some start, fs2) \<Rightarrow>
             (case write_loop ops data start nblocks 0 0 fs2 of
                (False, fs3) \<Rightarrow> (False, fs3)
              | (True, fs3) \<Rightarrow>
                  let fs4 = ensure_parents ops name fs3;
                      fs5 = fs4\<lparr>dir := set_entry slot name K_FILE 1 start (as_u32 (length data)) nblocks
                              (dir fs4)\<rparr>;
                      fs6 = flush_bitmap_range ops start nblocks fs5
                  in (True, flush_dir_entry ops slot fs6))))"

text \<open>
  One chunk of the loop of \<open>read_file\<close>, and the loop: it returns the state, the output buffer
  and \<open>Some out_pos\<close>, or \<open>None\<close> when the device fails.
\<close>

definition read_chunk :: "'d block_dev \<Rightarrow> nat \<Rightarrow> nat \<Rightarrow> nat \<Rightarrow> 'd rpfs \<Rightarrow> bool \<times> 'd rpfs" where
  "read_chunk ops start cnt blk fs =
     (let lba = data_lba fs + u32_add start blk;
          (d, ok, buf) = bd_read ops (dev fs) lba (as_u16 cnt) (take (cnt * SECTOR) (scratch fs))
      in (ok, fs\<lparr>dev := d, scratch := blit (scratch fs) 0 buf\<rparr>))"

function read_loop ::
  "'d block_dev \<Rightarrow> nat \<Rightarrow> nat \<Rightarrow> nat \<Rightarrow> nat \<Rightarrow> nat \<Rightarrow> nat \<Rightarrow> bytes \<Rightarrow> 'd rpfs
     \<Rightarrow> nat option \<times> bytes \<times> 'd rpfs" where
  "read_loop ops start sz nblocks blk file_pos out_pos out fs =
     (if blk < nblocks then
        let cnt = min (nblocks - blk) SCRATCH_SECTORS;
            cbytes = cnt * SECTOR
        in case read_chunk ops start cnt blk fs of
             (ok, fs') \<Rightarrow>
               if \<not> ok then (None, out, fs')
               else let n = min (min (sz - file_pos) cbytes) (length out - out_pos);
                        out' = blit out out_pos (take n (scratch fs'))
                    in if length out' \<le> out_pos + n \<or> sz \<le> file_pos + cbytes
                       then (Some (out_pos + n), out', fs')
                       else read_loop ops start sz nblocks (blk + cnt) (file_pos + cbytes) (out_pos + n) out' fs'
      else (Some out_pos, out, fs))"
  by pat_completeness auto
termination
proof (relation "measure (\<lambda>(ops, start, sz, nblocks, blk, fp, op, out, fs). nblocks - blk)", goal_cases)
  case 2
  from 2(1) show ?case unfolding 2(2) by (simp add: SCRATCH_SECTORS_def)
qed simp

definition read_file :: "'d block_dev \<Rightarrow> bytes \<Rightarrow> bytes \<Rightarrow> 'd rpfs \<Rightarrow> nat option \<times> bytes \<times> 'd rpfs" where
  "read_file ops name out fs =
     (if \<not> ready fs then (None, out, fs)
      else case find_entry (dir fs) name of
             None \<Rightarrow> (None, out, fs)
           | Some i \<Rightarrow>
               if e_kind (dir fs) i = K_DIR then (None, out, fs)
               else read_loop ops (e_start (dir fs) i) (e_size (dir fs) i) (e_nblocks (dir fs) i) 0 0 0 out fs)"

definition is_child_of :: "bytes \<Rightarrow> bytes \<Rightarrow> bool" where
  "is_child_of cn name \<longleftrightarrow>
     length cn > length name \<and> take (length name) cn = name \<and> cn ! length name = SLASH"

definition delete_file :: "'d block_dev \<Rightarrow> bytes \<Rightarrow> 'd rpfs \<Rightarrow> bool \<times> 'd rpfs" where
  "delete_file ops name fs =
     (if \<not> ready fs then (False, fs)
      else case find_entry (dir fs) name of
        None \<Rightarrow> (False, fs)
      | Some i \<Rightarrow>
          if e_kind (dir fs) i = K_DIR \<and>
             (\<exists>j \<in> set [0..<DIR_ENTRIES]. e_trit (dir fs) j = 1 \<and> is_child_of (e_name (dir fs) j) name)
          then (False, fs)
          else let s = e_start (dir fs) i; n = e_nblocks (dir fs) i;
                   fs1 = (if e_kind (dir fs) i = K_DIR then fs
                          else flush_bitmap_range ops s n (free_run s n fs));
                   fs2 = fs1\<lparr>dir := (dir fs1)[i * ENTRY_SZ + 112 := -1]\<rparr>
               in (True, flush_dir_entry ops i fs2))"

definition mkdir :: "'d block_dev \<Rightarrow> bytes \<Rightarrow> 'd rpfs \<Rightarrow> bool \<times> 'd rpfs" where
  "mkdir ops name fs =
     (if \<not> ready fs \<or> name = [] \<or> length name > MAX_NAME then (False, fs)
      else let fs1 = ensure_parents ops name fs
      in if find_entry (dir fs1) name \<noteq> None then (True, fs1)
         else case free_slot (dir fs1) of
                Some slot \<Rightarrow>
                  (True, flush_dir_entry ops slot
                     (fs1\<lparr>dir := set_entry slot name K_DIR 1 0 0 0 (dir fs1)\<rparr>))
              | None \<Rightarrow> (False, fs1))"

text \<open>\<open>lossy\<close> stands for \<open>String::from_utf8_lossy\<close>.\<close>

definition list_dir :: "(bytes \<Rightarrow> 's) \<Rightarrow> bytes \<Rightarrow> 'd rpfs \<Rightarrow> 's dir_item list" where
  "list_dir lossy path fs =
     map (\<lambda>i. let name = e_name (dir fs) i;
                  child = (case rposition (\<lambda>c. c = SLASH) name of
                             Some p \<Rightarrow> drop (p + 1) name | None \<Rightarrow> name)
              in \<lparr>di_name = lossy child, di_is_dir = (e_kind (dir fs) i = K_DIR),
                  di_size = e_size (dir fs) i\<rparr>)
       (filter (\<lambda>i. e_trit (dir fs) i = 1 \<and> parent_of (e_name (dir fs) i) = path) [0..<DIR_ENTRIES])"

definition entry_count :: "'d rpfs \<Rightarrow> nat" where
  "entry_count fs = length (filter (\<lambda>i. e_trit (dir fs) i = 1) [0..<DIR_ENTRIES])"

section \<open>Formatting and mounting\<close>

function tighten :: "nat \<Rightarrow> nat \<Rightarrow> nat \<Rightarrow> nat \<times> nat" where
  "tighten avail data_blocks bms =
     (if bms + data_blocks > avail \<and> data_blocks > 0
      then tighten avail (data_blocks - 1) ((data_blocks - 1 + 4096 - 1) div 4096)
      else (data_blocks, bms))"
  by pat_completeness auto
termination by (relation "measure (\<lambda>(avail, d, b). d)") auto

definition geometry :: "nat \<Rightarrow> nat \<Rightarrow> nat \<times> nat" where
  "geometry bas disk_sectors =
     (let dir_sectors = DIR_SECTORS;
          avail = disk_sectors - (bas + 1 + dir_sectors);
          per = SECTOR * 8;
          data_blocks = (avail * per) div (per + 1);
          bms = (data_blocks + per - 1) div per;
          (data_blocks, bms) = tighten avail data_blocks bms
      in (as_u32 data_blocks, as_u32 (max bms 1)))"

definition format_fs :: "'d block_dev \<Rightarrow> 'd rpfs \<Rightarrow> 'd rpfs" where
  "format_fs ops fs =
     (let fs = fs\<lparr>bitmap := replicate (length (bitmap fs)) 0, dir := replicate (length (dir fs)) 0\<rparr>
      in flush_dir_all ops (flush_bitmap_all ops (flush_super ops fs)))"

text \<open>The struct literal both branches of \<open>open\<close> build.\<close>

definition blank_fs :: "'d \<Rightarrow> nat \<Rightarrow> nat \<Rightarrow> nat \<Rightarrow> 'd rpfs" where
  "blank_fs d bas nb bms =
     \<lparr>dev = d, base = bas, total_blocks = nb, bitmap_lba = bas + 1, bitmap_sectors = bms,
      dir_lba = bas + 1 + bms, data_lba = bas + 1 + bms + DIR_SECTORS,
      bitmap = replicate (bms * SECTOR) 0, dir = replicate (DIR_ENTRIES * ENTRY_SZ) 0,
      scratch = replicate (SCRATCH_SECTORS * SECTOR) 0, ready = False\<rparr>"

definition open_fs :: "'d block_dev \<Rightarrow> 'd \<Rightarrow> nat \<Rightarrow> nat \<Rightarrow> 'd rpfs" where
  "open_fs ops d bas disk_sectors =
     (let (d1, ok, sb) = bd_read ops d bas 1 (replicate SECTOR 0);
          have_sb = (ok \<and> take 8 sb = MAGIC \<and> rd_u32 sb 8 = VERSION)
      in if have_sb then
           let fs = blank_fs d1 bas (rd_u32 sb 12) (rd_u32 sb 16);
               (d2, _, bm) = bd_read ops (dev fs) (bitmap_lba fs) (as_u16 (bitmap_sectors fs)) (bitmap fs);
               fs = load_dir ops (fs\<lparr>dev := d2, bitmap := bm\<rparr>)
           in fs\<lparr>ready := True\<rparr>
         else
           let (nb, bms) = geometry bas disk_sectors;
               fs = format_fs ops (blank_fs d1 bas nb bms)
           in fs\<lparr>ready := True\<rparr>)"

section \<open>The RAM disk\<close>

type_synonym ram_disk = bytes

definition ram_read :: "ram_disk \<Rightarrow> nat \<Rightarrow> nat \<Rightarrow> bytes \<Rightarrow> ram_disk \<times> bool \<times> bytes" where
  "ram_read d lba count buf =
     (let off = lba * SECTOR; n = count * SECTOR
      in if off + n > length d \<or> length buf < n then (d, False, buf)
         else (d, True, blit buf 0 (slice d off (off + n))))"

definition ram_write :: "ram_disk \<Rightarrow> nat \<Rightarrow> nat \<Rightarrow> bytes \<Rightarrow> ram_disk \<times> bool" where
  "ram_write d lba count buf =
     (let off = lba * SECTOR; n = count * SECTOR
      in if off + n > length d \<or> length buf < n then (d, False)
         else (blit d off (take n buf), True))"

definition ram_dev :: "ram_disk block_dev" where
  "ram_dev = \<lparr>bd_read = ram_read, bd_write = ram_write\<rparr>"

definition ram_new :: "nat \<Rightarrow> ram_disk" where
  "ram_new sectors = replicate (sectors * SECTOR) 0"

declare flush_dir_loop.simps [simp del] load_dir_loop.simps [simp del]
  flush_bitmap_loop.simps [simp del] ensure_parents_loop.simps [simp del]
  write_loop.simps [simp del] read_loop.simps [simp del] tighten.simps [simp del]

lemma as_u16_id [simp]: "n < 65536 \<Longrightarrow> as_u16 n = n"
  by (simp add: as_u16_def)

lemma as_u32_id [simp]: "n < 4294967296 \<Longrightarrow> as_u32 n = n"
  by (simp add: as_u32_def)

end
