(* ===== verification/Rpfs_Bytes.thy ===== *)
theory Rpfs_Bytes
  imports Rpfs
begin

text \<open>
  The byte-level facts of RPFS: the bitmap as a set of used blocks, the first-fit search, and
  the 128-byte directory entry as a record of its fields. Above this theory nobody unfolds
  \<open>bit_get\<close>, \<open>bit_set\<close>, \<open>set_entry\<close> or the entry accessors.
\<close>

section \<open>The bitmap\<close>

lemma bit_get_bit: "bit_get bm b \<longleftrightarrow> bit (bm ! (b div 8)) (b mod 8)"
  by (simp add: bit_get_def and_one_eq bit_iff_odd_drop_bit odd_iff_mod_2_eq_one)

lemma length_bit_set [simp]: "length (bit_set bm b v) = length bm"
  by (simp add: bit_set_def Let_def)

lemma bit_get_bit_set:
  assumes "b div 8 < length bm"
  shows "bit_get (bit_set bm b v) c = (if c = b then v else bit_get bm c)"
proof -
  have "b mod 8 < 8" "c mod 8 < 8" by simp_all
  moreover have "c = b \<longleftrightarrow> c div 8 = b div 8 \<and> c mod 8 = b mod 8"
    by (metis div_mod_decomp)
  ultimately show ?thesis
    using assms by (auto simp: bit_get_bit bit_set_def Let_def nth_list_update bit_simps)
qed

lemma length_set_bits [simp]: "length (set_bits bm ks) = length bm"
  by (induction bm ks rule: set_bits.induct) auto

lemma length_clear_bits [simp]: "length (clear_bits nb bm ks) = length bm"
  by (induction nb bm ks rule: clear_bits.induct) auto

lemma bit_get_set_bits:
  "\<forall>k \<in> set ks. k div 8 < length bm \<Longrightarrow>
     bit_get (set_bits bm ks) c \<longleftrightarrow> c \<in> set ks \<or> bit_get bm c"
  by (induction bm ks rule: set_bits.induct) (auto simp: bit_get_bit_set)

lemma bit_get_clear_bits:
  "nb \<le> 8 * length bm \<Longrightarrow>
     bit_get (clear_bits nb bm ks) c \<longleftrightarrow> bit_get bm c \<and> \<not> (c \<in> set ks \<and> c < nb)"
  by (induction nb bm ks rule: clear_bits.induct) (auto simp: bit_get_bit_set)

text \<open>Bytes of the bitmap outside the touched blocks keep their value.\<close>

lemma set_bits_nth_other:
  "\<forall>k \<in> set ks. k div 8 \<noteq> j \<Longrightarrow> set_bits bm ks ! j = bm ! j"
  by (induction bm ks rule: set_bits.induct) (auto simp: bit_set_def Let_def)

lemma clear_bits_nth_other:
  "\<forall>k \<in> set ks. k div 8 \<noteq> j \<Longrightarrow> clear_bits nb bm ks ! j = bm ! j"
  by (induction nb bm ks rule: clear_bits.induct) (auto simp: bit_set_def Let_def)

definition free_range :: "bytes \<Rightarrow> nat \<Rightarrow> nat \<Rightarrow> bool" where
  "free_range bm s n \<longleftrightarrow> (\<forall>k \<in> {s..<s + n}. \<not> bit_get bm k)"

lemma free_range_0 [simp]: "free_range bm s 0"
  by (simp add: free_range_def)

text \<open>
  The scan's invariant: the last \<open>run\<close> blocks before \<open>b\<close> are free and start at \<open>start\<close>.
\<close>

lemma alloc_scan_correct:
  assumes "run < n" "run \<le> b" "b \<le> nb" "run > 0 \<Longrightarrow> start = b - run" "free_range bm (b - run) run"
  shows "(case alloc_scan bm n [b..<nb] start run of
            Some s \<Rightarrow> b - run \<le> s \<and> s + n \<le> nb \<and> free_range bm s n \<and>
              (\<forall>t. b - run \<le> t \<and> t < s \<longrightarrow> \<not> free_range bm t n)
          | None \<Rightarrow> \<forall>t. b - run \<le> t \<and> t + n \<le> nb \<longrightarrow> \<not> free_range bm t n)"
  using assms
proof (induction "nb - b" arbitrary: b start run)
  case 0
  then show ?case by auto
next
  case (Suc m)
  then have b: "b < nb" by simp
  then have upt: "[b..<nb] = b # [Suc b..<nb]" by (simp add: upt_conv_Cons)
  show ?case
  proof (cases "bit_get bm b")
    case True
    have used: "\<not> free_range bm t n" if "b - run \<le> t" "t \<le> b" for t
      using that True Suc.prems(1,2) by (auto simp: free_range_def)
    have eq: "alloc_scan bm n [b..<nb] start run = alloc_scan bm n [Suc b..<nb] start 0"
      by (simp add: upt True)
    have IH: "case alloc_scan bm n [Suc b..<nb] start 0 of
        Some s \<Rightarrow> Suc b \<le> s \<and> s + n \<le> nb \<and> free_range bm s n \<and>
          (\<forall>t. Suc b \<le> t \<and> t < s \<longrightarrow> \<not> free_range bm t n)
      | None \<Rightarrow> \<forall>t. Suc b \<le> t \<and> t + n \<le> nb \<longrightarrow> \<not> free_range bm t n"
    proof -
      have m: "m = nb - Suc b" using Suc.hyps(2) by simp
      show ?thesis
        using Suc.hyps(1) [OF m, of 0 start] Suc.prems(1) b unfolding diff_zero by simp
    qed
    have split: "b - run \<le> t \<Longrightarrow> b - run \<le> t \<and> t \<le> b \<or> Suc b \<le> t" for t by linarith
    show ?thesis
    proof (cases "alloc_scan bm n [Suc b..<nb] start 0")
      case None
      then have "\<And>t. Suc b \<le> t \<Longrightarrow> t + n \<le> nb \<Longrightarrow> \<not> free_range bm t n" using IH by simp
      then have "\<not> free_range bm t n" if "b - run \<le> t" "t + n \<le> nb" for t
        using that used split [of t] by blast
      then show ?thesis by (simp add: eq None)
    next
      case (Some s)
      then have s: "Suc b \<le> s \<and> s + n \<le> nb \<and> free_range bm s n"
        and "\<And>t. Suc b \<le> t \<Longrightarrow> t < s \<Longrightarrow> \<not> free_range bm t n" using IH by simp_all
      then have "\<not> free_range bm t n" if "b - run \<le> t" "t < s" for t
        using that used split [of t] by blast
      moreover have "b - run \<le> s" using s by linarith
      ultimately show ?thesis using s by (simp add: eq Some)
    qed
  next
    case False
    define st where "st = (if run = 0 then b else start)"
    have st: "st = Suc b - Suc run" using Suc.prems(2,4) by (auto simp: st_def)
    have fr: "free_range bm (Suc b - Suc run) (Suc run)"
      using Suc.prems(2,5) False by (auto simp: free_range_def less_Suc_eq)
    show ?thesis
    proof (cases "Suc run = n")
      case True
      have "alloc_scan bm n [b..<nb] start run = Some st"
        using True False by (simp add: upt st_def)
      then show ?thesis using st fr True Suc.prems(2) b by auto
    next
      case nt: False
      have "alloc_scan bm n [b..<nb] start run = alloc_scan bm n [Suc b..<nb] st (Suc run)"
        using nt False by (simp add: upt st_def Let_def)
      moreover note Suc.hyps(1) [of "Suc b" "Suc run" st]
      ultimately show ?thesis
        using Suc.hyps(2) Suc.prems(1,2) nt b st fr by (auto split: option.splits)
    qed
  qed
qed

lemma alloc_scan_Some:
  assumes "alloc_scan bm n [0..<nb] 0 0 = Some s" "0 < n"
  shows "s + n \<le> nb" "free_range bm s n" "\<And>t. t < s \<Longrightarrow> \<not> free_range bm t n"
  using alloc_scan_correct [of 0 n 0 nb 0 bm] assms by (auto simp: free_range_def)

lemma alloc_scan_None:
  "alloc_scan bm n [0..<nb] 0 0 = None \<Longrightarrow> 0 < n \<Longrightarrow> t + n \<le> nb \<Longrightarrow> \<not> free_range bm t n"
  using alloc_scan_correct [of 0 n 0 nb 0 bm] by (auto simp: free_range_def)

section \<open>Directory entries\<close>

abbreviation dir_ok :: "bytes \<Rightarrow> bool" where
  "dir_ok d \<equiv> length d = DIR_ENTRIES * ENTRY_SZ"

definition good_name :: "bytes \<Rightarrow> bool" where
  "good_name name \<longleftrightarrow> name \<noteq> [] \<and> length name \<le> MAX_NAME \<and> 0 \<notin> set name"

definition entry_bytes :: "bytes \<Rightarrow> byte \<Rightarrow> int \<Rightarrow> nat \<Rightarrow> nat \<Rightarrow> nat \<Rightarrow> bytes" where
  "entry_bytes name kind trit start sz nblocks =
     (let e = blit (replicate ENTRY_SZ 0) 0 (take (min (length name) MAX_NAME) name);
          e = e[111 := kind];
          e = e[112 := of_int trit];
          e = wr_u32 e 116 start;
          e = wr_u32 e 120 sz
      in wr_u32 e 124 nblocks)"

lemma length_wr_u32 [simp]: "off + 4 \<le> length b \<Longrightarrow> length (wr_u32 b off v) = length b"
  by (simp add: wr_u32_def)

lemma length_entry_bytes [simp]: "length (entry_bytes name kind trit start sz nblocks) = 128"
  by (simp add: entry_bytes_def Let_def ENTRY_SZ_def MAX_NAME_def)

lemma entry_in_dir: "i < DIR_ENTRIES \<Longrightarrow> i * ENTRY_SZ + ENTRY_SZ \<le> DIR_ENTRIES * ENTRY_SZ"
  using mult_le_mono1 [of "Suc i" DIR_ENTRIES ENTRY_SZ] by simp

lemma wr_u32_blit:
  assumes "off + length xs \<le> length d" "k + 4 \<le> length xs"
  shows "wr_u32 (blit d off xs) (off + k) v = blit d off (wr_u32 xs k v)"
  using assms by (simp add: wr_u32_def blit_blit_inside)

lemma set_entry_blit:
  assumes "dir_ok d" "i < DIR_ENTRIES"
  shows "set_entry i name kind trit start sz nblocks d
       = blit d (i * ENTRY_SZ) (entry_bytes name kind trit start sz nblocks)"
proof -
  let ?o = "i * ENTRY_SZ"
  have le: "?o + 128 \<le> length d"
    using entry_in_dir [OF assms(2)] assms(1) by (simp add: ENTRY_SZ_def)
  have 0: "blit (blit d ?o (replicate 128 0)) ?o (take n name)
      = blit d ?o (blit (replicate 128 0) 0 (take n name))" if "n \<le> 111" for n
    using blit_blit_inside [of ?o "replicate 128 0" d 0 "take n name"] le that by simp
  show ?thesis
    using le
    by (simp add: set_entry_def entry_bytes_def Let_def ENTRY_SZ_def MAX_NAME_def 0 [unfolded ENTRY_SZ_def]
        update_blit_inside wr_u32_blit)
qed

lemma length_set_entry [simp]:
  "dir_ok d \<Longrightarrow> i < DIR_ENTRIES \<Longrightarrow>
     length (set_entry i name kind trit start sz nblocks d) = DIR_ENTRIES * ENTRY_SZ"
  using entry_in_dir [of i] by (simp add: set_entry_blit) (simp add: ENTRY_SZ_def)

lemma ent_blit:
  assumes "dir_ok d" "i < DIR_ENTRIES" "j < DIR_ENTRIES" "length e = ENTRY_SZ"
  shows "ent (blit d (i * ENTRY_SZ) e) j = (if j = i then e else ent d j)"
proof (cases "j = i")
  case True
  then show ?thesis
    using assms entry_in_dir [of i]
      slice_blit_same [of "i * ENTRY_SZ" e d] by (simp add: ent_def add.commute)
next
  case False
  then have "(j + 1) * ENTRY_SZ \<le> i * ENTRY_SZ \<or> i * ENTRY_SZ + ENTRY_SZ \<le> j * ENTRY_SZ"
    using mult_le_mono1 [of "j + 1" i ENTRY_SZ] mult_le_mono1 [of "i + 1" j ENTRY_SZ]
    by (cases "j < i") auto
  then show ?thesis
    using False assms entry_in_dir [of i] by (simp add: ent_def slice_blit_other)
qed

lemma ent_set_entry:
  assumes "dir_ok d" "i < DIR_ENTRIES" "j < DIR_ENTRIES"
  shows "ent (set_entry i name kind trit start sz nblocks d) j
       = (if j = i then entry_bytes name kind trit start sz nblocks else ent d j)"
  unfolding set_entry_blit [OF assms(1,2)] using assms
  by (rule ent_blit) (simp add: ENTRY_SZ_def)

lemma nth_ent:
  assumes "dir_ok d" "i < DIR_ENTRIES" "k < ENTRY_SZ"
  shows "ent d i ! k = d ! (i * ENTRY_SZ + k)"
  using assms entry_in_dir [of i] by (simp add: ent_def nth_slice)

lemma e_trit_ent: "dir_ok d \<Longrightarrow> i < DIR_ENTRIES \<Longrightarrow> e_trit d i = sint (ent d i ! 112)"
  by (simp add: e_trit_def nth_ent ENTRY_SZ_def)

lemma e_kind_ent: "dir_ok d \<Longrightarrow> i < DIR_ENTRIES \<Longrightarrow> e_kind d i = ent d i ! 111"
  by (simp add: e_kind_def nth_ent ENTRY_SZ_def)

lemma e_name_ent: "e_name d i = takeWhile (\<lambda>b. b \<noteq> 0) (take MAX_NAME (ent d i))"
proof (cases "position (\<lambda>b. b = 0) (take MAX_NAME (ent d i))")
  case None
  then have all: "takeWhile (\<lambda>b. b \<noteq> 0) (take MAX_NAME (ent d i)) = take MAX_NAME (ent d i)"
    by (simp add: position_None takeWhile_eq_all_conv [THEN iffD2])
  show ?thesis unfolding all by (simp add: e_name_def Let_def None)
next
  case (Some k)
  then have "take k (take MAX_NAME (ent d i)) = takeWhile (\<lambda>b. b \<noteq> 0) (take MAX_NAME (ent d i))"
    by (intro take_position) simp
  moreover have "k < length (take MAX_NAME (ent d i))" by (rule position_lt [OF Some])
  ultimately show ?thesis using Some by (simp add: e_name_def Let_def min_def split: if_splits)
qed


section \<open>The fields of a written entry\<close>

lemma rd_wr_same: "off + 4 \<le> length b \<Longrightarrow> rd_u32 (wr_u32 b off v) off = v mod 4294967296"
proof -
  assume "off + 4 \<le> length b"
  then have "slice (wr_u32 b off v) off (off + 4) = le_of_nat 4 v"
    using slice_blit_same [of off "le_of_nat 4 v" b] by (simp add: wr_u32_def)
  then show ?thesis by (simp add: rd_u32_def nat_of_le_of_nat)
qed

lemma rd_wr_other:
  "off + 4 \<le> length b \<Longrightarrow> o' + 4 \<le> off \<or> off + 4 \<le> o' \<Longrightarrow> rd_u32 (wr_u32 b off v) o' = rd_u32 b o'"
  by (simp add: rd_u32_def wr_u32_def slice_blit_other)

lemma nth_wr_other: "off + 4 \<le> length b \<Longrightarrow> k < off \<Longrightarrow> wr_u32 b off v ! k = b ! k"
  by (simp add: wr_u32_def nth_blit)

lemma take_wr_other: "off + 4 \<le> length b \<Longrightarrow> k \<le> off \<Longrightarrow> take k (wr_u32 b off v) = take k b"
  by (simp add: wr_u32_def blit_def)

lemma rd_u32_lt: "off + 4 \<le> length b \<Longrightarrow> rd_u32 b off < 4294967296"
  using nat_of_le_bound [of "slice b off (off + 4)"] by (simp add: rd_u32_def min_absorb1)

lemma entry_bytes_u32 [simp]:
  "start < 4294967296 \<Longrightarrow> rd_u32 (entry_bytes name kind trit start sz nblocks) 116 = start"
  "sz < 4294967296 \<Longrightarrow> rd_u32 (entry_bytes name kind trit start sz nblocks) 120 = sz"
  "nblocks < 4294967296 \<Longrightarrow> rd_u32 (entry_bytes name kind trit start sz nblocks) 124 = nblocks"
  by (simp_all add: entry_bytes_def Let_def rd_wr_same rd_wr_other ENTRY_SZ_def MAX_NAME_def)

lemma entry_bytes_kind [simp]: "entry_bytes name kind trit start sz nblocks ! 111 = kind"
  by (simp add: entry_bytes_def Let_def nth_wr_other ENTRY_SZ_def MAX_NAME_def)

lemma entry_bytes_trit [simp]: "entry_bytes name kind trit start sz nblocks ! 112 = of_int trit"
  by (simp add: entry_bytes_def Let_def nth_wr_other ENTRY_SZ_def MAX_NAME_def)

lemma take_entry_bytes:
  "length name \<le> 111 \<Longrightarrow>
     take 111 (entry_bytes name kind trit start sz nblocks) = name @ replicate (111 - length name) 0"
  by (simp add: entry_bytes_def Let_def take_wr_other ENTRY_SZ_def MAX_NAME_def blit_def min_def)

lemma takeWhile_nz_append_zeros:
  "0 \<notin> set name \<Longrightarrow> takeWhile (\<lambda>b. b \<noteq> 0) (name @ replicate k (0::byte)) = name"
  by (induction name) (auto simp: takeWhile_replicate)

text \<open>Writing entry \<open>i\<close> sets its fields and leaves every other entry alone.\<close>

lemma e_trit_set_entry:
  "dir_ok d \<Longrightarrow> i < DIR_ENTRIES \<Longrightarrow> j < DIR_ENTRIES \<Longrightarrow>
     -128 \<le> trit \<Longrightarrow> trit < 128 \<Longrightarrow>
     e_trit (set_entry i name kind trit start sz nblocks d) j = (if j = i then trit else e_trit d j)"
  by (simp add: e_trit_ent ent_set_entry signed_of_int signed_take_bit_int_eq_self)

lemma e_kind_set_entry:
  "dir_ok d \<Longrightarrow> i < DIR_ENTRIES \<Longrightarrow> j < DIR_ENTRIES \<Longrightarrow>
     e_kind (set_entry i name kind trit start sz nblocks d) j = (if j = i then kind else e_kind d j)"
  by (simp add: e_kind_ent ent_set_entry)

lemma e_name_set_entry:
  "dir_ok d \<Longrightarrow> i < DIR_ENTRIES \<Longrightarrow> j < DIR_ENTRIES \<Longrightarrow>
     good_name name \<Longrightarrow>
     e_name (set_entry i name kind trit start sz nblocks d) j = (if j = i then name else e_name d j)"
  by (simp add: e_name_ent ent_set_entry good_name_def MAX_NAME_def take_entry_bytes
      takeWhile_nz_append_zeros)

lemma e_start_set_entry:
  "dir_ok d \<Longrightarrow> i < DIR_ENTRIES \<Longrightarrow> j < DIR_ENTRIES \<Longrightarrow>
     start < 4294967296 \<Longrightarrow>
     e_start (set_entry i name kind trit start sz nblocks d) j = (if j = i then start else e_start d j)"
  by (simp add: e_start_def ent_set_entry)

lemma e_size_set_entry:
  "dir_ok d \<Longrightarrow> i < DIR_ENTRIES \<Longrightarrow> j < DIR_ENTRIES \<Longrightarrow>
     sz < 4294967296 \<Longrightarrow>
     e_size (set_entry i name kind trit start sz nblocks d) j = (if j = i then sz else e_size d j)"
  by (simp add: e_size_def ent_set_entry)

lemma e_nblocks_set_entry:
  "dir_ok d \<Longrightarrow> i < DIR_ENTRIES \<Longrightarrow> j < DIR_ENTRIES \<Longrightarrow>
     nblocks < 4294967296 \<Longrightarrow>
     e_nblocks (set_entry i name kind trit start sz nblocks d) j
       = (if j = i then nblocks else e_nblocks d j)"
  by (simp add: e_nblocks_def ent_set_entry)

lemmas set_entry_fields = e_trit_set_entry e_kind_set_entry e_name_set_entry e_start_set_entry
  e_size_set_entry e_nblocks_set_entry

text \<open>The tombstone of \<open>delete_file\<close> changes only the trit of its entry.\<close>

lemma ent_update:
  assumes "dir_ok d" "i < DIR_ENTRIES" "j < DIR_ENTRIES" "k < ENTRY_SZ"
  shows "ent (d[i * ENTRY_SZ + k := v]) j = (if j = i then (ent d i)[k := v] else ent d j)"
proof -
  have "length (ent d i) = ENTRY_SZ"
    using assms entry_in_dir [of i] by (simp add: ent_def)
  moreover have "blit d (i * ENTRY_SZ) (ent d i) = d"
    using assms entry_in_dir [of i] unfolding ent_def by (intro blit_slice_id) auto
  then have "d[i * ENTRY_SZ + k := v] = blit d (i * ENTRY_SZ) ((ent d i)[k := v])"
    using update_blit_inside [of "i * ENTRY_SZ" "ent d i" d k v] assms entry_in_dir [of i]
      \<open>length (ent d i) = ENTRY_SZ\<close> by simp
  ultimately show ?thesis using assms by (simp add: ent_blit)
qed

lemma tombstone_fields:
  assumes "dir_ok d" "i < DIR_ENTRIES" "j < DIR_ENTRIES"
  defines "d' \<equiv> d[i * ENTRY_SZ + 112 := -1]"
  shows "e_trit d' j = (if j = i then -1 else e_trit d j)"
    and "e_kind d' j = e_kind d j" and "e_name d' j = e_name d j"
    and "e_start d' j = e_start d j" and "e_size d' j = e_size d j"
    and "e_nblocks d' j = e_nblocks d j"
proof -
  have l: "length (ent d i) = ENTRY_SZ"
    using assms entry_in_dir [of i] by (simp add: ent_def)
  have e: "ent d' j = (if j = i then (ent d i)[112 := -1] else ent d j)"
    unfolding d'_def using assms(1-3) by (rule ent_update) (simp add: ENTRY_SZ_def)
  show "e_trit d' j = (if j = i then -1 else e_trit d j)" "e_kind d' j = e_kind d j"
    using assms(1-3) l e by (simp_all add: e_trit_ent e_kind_ent d'_def ENTRY_SZ_def)
  show "e_name d' j = e_name d j"
    using e by (simp add: e_name_ent MAX_NAME_def)
  show "e_start d' j = e_start d j" "e_size d' j = e_size d j" "e_nblocks d' j = e_nblocks d j"
    using e by (auto simp: e_start_def e_size_def e_nblocks_def rd_u32_def slice_def)
qed

end
