(* ===== verification/Rpfs_Alloc.thy ===== *)
theory Rpfs_Alloc
  imports Rpfs_Bytes
begin

text \<open>
  The directory and the bitmap of RPFS as an allocation: which entries are active, which of
  them are files, the extent of blocks each file owns, and the invariant that the extents of
  the files lie in the data region, are pairwise disjoint and are exactly the used blocks of
  the bitmap. The lemmas state how releasing an extent, claiming one and rewriting an entry
  change it, independently of any device.
\<close>

section \<open>Active entries, files and extents\<close>

definition active :: "bytes \<Rightarrow> nat \<Rightarrow> bool" where
  "active d i \<longleftrightarrow> i < DIR_ENTRIES \<and> e_trit d i = 1"

definition is_file :: "bytes \<Rightarrow> nat \<Rightarrow> bool" where
  "is_file d i \<longleftrightarrow> active d i \<and> e_kind d i \<noteq> K_DIR"

definition files :: "bytes \<Rightarrow> nat set" where
  "files d = {i. is_file d i}"

definition extent :: "bytes \<Rightarrow> nat \<Rightarrow> nat set" where
  "extent d i = {e_start d i ..< e_start d i + e_nblocks d i}"

definition names_ok :: "bytes \<Rightarrow> bool" where
  "names_ok d \<longleftrightarrow> (\<forall>i j. active d i \<and> active d j \<and> e_name d i = e_name d j \<longrightarrow> i = j)"

text \<open>The allocation invariant for the file entries in \<open>S\<close>.\<close>

definition alloc_on :: "nat \<Rightarrow> bytes \<Rightarrow> bytes \<Rightarrow> nat set \<Rightarrow> bool" where
  "alloc_on nb bm d S \<longleftrightarrow>
     (\<forall>i \<in> S. 0 < e_nblocks d i \<and> e_start d i + e_nblocks d i \<le> nb
               \<and> e_size d i \<le> e_nblocks d i * SECTOR) \<and>
     (\<forall>i \<in> S. \<forall>j \<in> S. i \<noteq> j \<longrightarrow> extent d i \<inter> extent d j = {}) \<and>
     (\<forall>b < nb. bit_get bm b \<longleftrightarrow> (\<exists>i \<in> S. b \<in> extent d i))"

abbreviation alloc_ok :: "nat \<Rightarrow> bytes \<Rightarrow> bytes \<Rightarrow> bool" where
  "alloc_ok nb bm d \<equiv> alloc_on nb bm d (files d)"

lemma files_lt: "i \<in> files d \<Longrightarrow> i < DIR_ENTRIES"
  by (simp add: files_def is_file_def active_def)

lemma finite_files [simp]: "finite (files d)"
  by (rule finite_subset [of _ "{..<DIR_ENTRIES}"]) (auto dest: files_lt)

text \<open>Entries with the same bytes have the same fields.\<close>

lemma same_ent_fields:
  assumes "ent d' i = ent d i" "dir_ok d" "dir_ok d'" "i < DIR_ENTRIES"
  shows "e_trit d' i = e_trit d i" "e_kind d' i = e_kind d i" "e_name d' i = e_name d i"
    "e_start d' i = e_start d i" "e_size d' i = e_size d i" "e_nblocks d' i = e_nblocks d i"
    "active d' i = active d i" "is_file d' i = is_file d i" "extent d' i = extent d i"
  using assms
  by (simp_all add: e_trit_ent e_kind_ent e_name_ent e_start_def e_size_def e_nblocks_def
      active_def is_file_def extent_def)

lemma find_entry_Some:
  "find_entry d name = Some i \<Longrightarrow> active d i \<and> e_name d i = name"
  by (auto simp: find_entry_def find_Some_iff_upt active_def)

lemma find_entry_None:
  "find_entry d name = None \<longleftrightarrow> (\<forall>i. active d i \<longrightarrow> e_name d i \<noteq> name)"
  by (auto simp: find_entry_def find_None_iff_upt active_def)

lemma find_entry_iff:
  assumes "names_ok d"
  shows "find_entry d name = Some i \<longleftrightarrow> active d i \<and> e_name d i = name"
proof
  assume a: "active d i \<and> e_name d i = name"
  then obtain j where "find_entry d name = Some j" using find_entry_None by (cases "find_entry d name") auto
  moreover have "j = i" using a find_entry_Some [OF calculation] assms unfolding names_ok_def by metis
  ultimately show "find_entry d name = Some i" by simp
qed (rule find_entry_Some)

lemma free_slot_Some: "free_slot d = Some i \<Longrightarrow> i < DIR_ENTRIES \<and> \<not> active d i"
  by (auto simp: free_slot_def find_Some_iff_upt active_def)

section \<open>Releasing and claiming an extent\<close>

lemma alloc_on_cong:
  assumes "\<And>i. i \<in> S \<Longrightarrow> e_start d' i = e_start d i \<and> e_size d' i = e_size d i
      \<and> e_nblocks d' i = e_nblocks d i"
  shows "alloc_on nb bm d' S = alloc_on nb bm d S"
proof -
  have e: "extent d' i = extent d i" if "i \<in> S" for i using assms [OF that] by (simp add: extent_def)
  show ?thesis unfolding alloc_on_def using assms e by (simp cong: ball_cong bex_cong)
qed

lemma alloc_on_release:
  assumes "alloc_on nb bm d S" "i \<in> S" "nb \<le> 8 * length bm"
  shows "alloc_on nb (clear_bits nb bm [e_start d i..<e_start d i + e_nblocks d i]) d (S - {i})"
proof -
  let ?bm = "clear_bits nb bm [e_start d i..<e_start d i + e_nblocks d i]"
  have clr: "bit_get ?bm b \<longleftrightarrow> bit_get bm b \<and> b \<notin> extent d i" if "b < nb" for b
    using assms(3) that by (auto simp: bit_get_clear_bits extent_def)
  have dj: "\<forall>j \<in> S - {i}. extent d i \<inter> extent d j = {}"
    using assms(1,2) unfolding alloc_on_def by blast
  have bits: "bit_get bm b \<longleftrightarrow> (\<exists>j \<in> S. b \<in> extent d j)" if "b < nb" for b
    using assms(1) that unfolding alloc_on_def by blast
  have "bit_get ?bm b \<longleftrightarrow> (\<exists>j \<in> S - {i}. b \<in> extent d j)" if "b < nb" for b
    unfolding clr [OF that] bits [OF that] using dj by blast
  moreover have "\<forall>j \<in> S - {i}. 0 < e_nblocks d j \<and> e_start d j + e_nblocks d j \<le> nb
      \<and> e_size d j \<le> e_nblocks d j * SECTOR"
    using assms(1) unfolding alloc_on_def by (meson DiffD1)
  moreover have "\<forall>j \<in> S - {i}. \<forall>k \<in> S - {i}. j \<noteq> k \<longrightarrow> extent d j \<inter> extent d k = {}"
    using assms(1) unfolding alloc_on_def by (meson DiffD1)
  ultimately show ?thesis unfolding alloc_on_def by (intro conjI) blast+
qed

lemma alloc_on_claim:
  assumes "alloc_on nb bm d S" "i \<notin> S" "nb \<le> 8 * length bm"
    and "free_range bm s n" "s + n \<le> nb" "0 < n" "sz \<le> n * SECTOR"
    and "\<And>j. j \<in> S \<Longrightarrow> e_start d' j = e_start d j \<and> e_size d' j = e_size d j
      \<and> e_nblocks d' j = e_nblocks d j"
    and "e_start d' i = s" "e_size d' i = sz" "e_nblocks d' i = n"
  shows "alloc_on nb (set_bits bm [s..<s + n]) d' (insert i S)"
proof -
  have S: "alloc_on nb bm d' S" using alloc_on_cong [of S d' d, OF assms(8)] assms(1) by simp
  have "\<forall>k \<in> set [s..<s + n]. k div 8 < length bm"
    using assms(3,5) by auto
  then have b: "bit_get (set_bits bm [s..<s + n]) c \<longleftrightarrow> c \<in> extent d' i \<or> bit_get bm c" for c
    using assms(9,11) by (simp add: bit_get_set_bits extent_def)
  have dj: "extent d' i \<inter> extent d' j = {}" if "j \<in> S" for j
  proof -
    have "c < nb \<and> \<not> bit_get bm c" if "c \<in> extent d' i" for c
      using that assms(4,5,9,11) by (auto simp: extent_def free_range_def)
    moreover have "bit_get bm c" if "c \<in> extent d' j" "c < nb" for c
      using that S \<open>j \<in> S\<close> by (auto simp: alloc_on_def)
    ultimately show ?thesis by blast
  qed
  have 1: "\<forall>j \<in> insert i S. 0 < e_nblocks d' j \<and> e_start d' j + e_nblocks d' j \<le> nb
      \<and> e_size d' j \<le> e_nblocks d' j * SECTOR"
    using S assms(5-7,9-11) by (auto simp: alloc_on_def)
  have 2: "\<forall>j \<in> insert i S. \<forall>k \<in> insert i S. j \<noteq> k \<longrightarrow> extent d' j \<inter> extent d' k = {}"
    using S dj by (auto simp: alloc_on_def)
  have 3: "\<forall>c < nb. bit_get (set_bits bm [s..<s + n]) c \<longleftrightarrow> (\<exists>j \<in> insert i S. c \<in> extent d' j)"
    using S by (auto simp: b alloc_on_def)
  show ?thesis unfolding alloc_on_def using 1 2 3 by blast
qed

text \<open>The used blocks are counted by the files: no block is lost and none is counted twice.\<close>

lemma alloc_on_count:
  assumes "alloc_on nb bm d S" "finite S"
  shows "length (filter (\<lambda>b. \<not> bit_get bm b) [0..<nb]) + (\<Sum>i \<in> S. e_nblocks d i) = nb"
proof -
  let ?U = "\<Union>i \<in> S. extent d i"
  have U: "?U \<subseteq> {..<nb}"
    using assms(1) unfolding alloc_on_def extent_def by fastforce
  have "card ?U = (\<Sum>i \<in> S. card (extent d i))"
    using assms unfolding alloc_on_def by (intro card_UN_disjoint) (assumption | simp only: extent_def finite_atLeastLessThan | blast)+
  then have c: "card ?U = (\<Sum>i \<in> S. e_nblocks d i)" by (simp add: extent_def)
  have "set (filter (\<lambda>b. \<not> bit_get bm b) [0..<nb]) = {..<nb} - ?U"
    using assms(1) by (auto simp: alloc_on_def)
  then have "length (filter (\<lambda>b. \<not> bit_get bm b) [0..<nb]) = card ({..<nb} - ?U)"
    by (metis distinct_card distinct_filter distinct_upt)
  moreover have "card ({..<nb} - ?U) = nb - card ?U"
    using U by (simp add: card_Diff_subset finite_subset)
  moreover have "card ?U \<le> nb"
    using card_mono [OF _ U] by simp
  ultimately show ?thesis using c by simp
qed

section \<open>Growing the directory by parent directories\<close>

text \<open>
  What \<open>ensure_parents name\<close> may do to the directory: active entries stay as they are and new
  ones are directories whose names are shorter than \<open>name\<close>; names stay unique.
\<close>

definition dir_ext :: "bytes \<Rightarrow> bytes \<Rightarrow> bytes \<Rightarrow> bool" where
  "dir_ext name d d' \<longleftrightarrow> dir_ok d' \<and>
     (\<forall>i. active d i \<longrightarrow> ent d' i = ent d i) \<and>
     (\<forall>i. active d' i \<and> \<not> active d i \<longrightarrow> e_kind d' i = K_DIR \<and> length (e_name d' i) < length name) \<and>
     (names_ok d \<longrightarrow> names_ok d')"

lemma dir_ext_refl: "dir_ok d \<Longrightarrow> dir_ext name d d"
  by (simp add: dir_ext_def)

lemma dir_ext_active:
  assumes "dir_ext name d d'" "dir_ok d" "active d i"
  shows "active d' i" "is_file d' i = is_file d i" "extent d' i = extent d i"
    "e_name d' i = e_name d i" "e_kind d' i = e_kind d i" "e_start d' i = e_start d i"
    "e_size d' i = e_size d i" "e_nblocks d' i = e_nblocks d i"
proof -
  have "ent d' i = ent d i" "dir_ok d'" "i < DIR_ENTRIES"
    using assms by (auto simp: dir_ext_def active_def)
  from same_ent_fields [OF this(1) assms(2) this(2,3)] assms(3)
  show "active d' i" "is_file d' i = is_file d i" "extent d' i = extent d i"
    "e_name d' i = e_name d i" "e_kind d' i = e_kind d i" "e_start d' i = e_start d i"
    "e_size d' i = e_size d i" "e_nblocks d' i = e_nblocks d i" by simp_all
qed

lemma dir_ext_trans:
  assumes "dir_ext name d d1" "dir_ext name d1 d2" "dir_ok d"
  shows "dir_ext name d d2"
proof -
  have d1: "dir_ok d1" using assms(1) by (simp add: dir_ext_def)
  have a: "active d i \<Longrightarrow> active d1 i" for i by (rule dir_ext_active(1) [OF assms(1,3)])
  have "e_kind d2 i = K_DIR \<and> length (e_name d2 i) < length name" if "active d2 i" "\<not> active d i" for i
  proof (cases "active d1 i")
    case True
    then show ?thesis
      using assms(1) that dir_ext_active [OF assms(2) d1 True] by (simp add: dir_ext_def)
  qed (use assms(2) that in \<open>simp add: dir_ext_def\<close>)
  then show ?thesis using assms a by (simp add: dir_ext_def)
qed

lemma dir_ext_files:
  assumes "dir_ext name d d'" "dir_ok d"
  shows "files d' = files d"
proof -
  have "is_file d' i = is_file d i" for i
    using assms dir_ext_active [OF assms, of i] by (cases "active d i") (auto simp: dir_ext_def is_file_def)
  then show ?thesis by (simp add: files_def)
qed

text \<open>Writing an active entry under a name that no other active entry has keeps names unique.\<close>

lemma names_ok_set_entry:
  assumes "names_ok d" "dir_ok d" "i < DIR_ENTRIES" "good_name name"
    and "\<And>j. active d j \<Longrightarrow> j \<noteq> i \<Longrightarrow> e_name d j \<noteq> name"
    and "-128 \<le> t" "t < 128"
  shows "names_ok (set_entry i name k t s sz n d)"
proof -
  let ?d = "set_entry i name k t s sz n d"
  have j: "j \<noteq> i \<Longrightarrow> active ?d j = active d j \<and> (active d j \<longrightarrow> e_name ?d j = e_name d j)" for j
    using assms by (auto simp: active_def set_entry_fields)
  have "e_name ?d i = name" using assms by (simp add: set_entry_fields)
  then show ?thesis
    unfolding names_ok_def using j assms(1,5) by (metis names_ok_def)
qed

lemma dir_ext_new_dir:
  assumes "dir_ok d" "find_entry d p = None" "free_slot d = Some i" "good_name p"
    "length p < length name"
  shows "dir_ext name d (set_entry i p K_DIR 1 0 0 0 d)"
proof -
  let ?d = "set_entry i p K_DIR 1 0 0 0 d"
  have i: "i < DIR_ENTRIES" "\<not> active d i" using free_slot_Some [OF assms(3)] by auto
  have len: "dir_ok ?d" using assms(1) i by simp
  have other: "ent ?d j = ent d j" if "j \<noteq> i" "j < DIR_ENTRIES" for j
    using that assms(1) i by (simp add: ent_set_entry)
  have 1: "\<forall>j. active d j \<longrightarrow> ent ?d j = ent d j"
    using other i unfolding active_def by metis
  have 2: "\<forall>j. active ?d j \<and> \<not> active d j \<longrightarrow> e_kind ?d j = K_DIR \<and> length (e_name ?d j) < length name"
  proof (intro allI impI)
    fix j assume a: "active ?d j \<and> \<not> active d j"
    have "j = i"
      using a same_ent_fields(7) [OF other assms(1) len, of j] by (auto simp: active_def)
    then show "e_kind ?d j = K_DIR \<and> length (e_name ?d j) < length name"
      using assms i by (simp add: set_entry_fields)
  qed
  have 3: "names_ok d \<longrightarrow> names_ok ?d"
    using assms i by (auto intro!: names_ok_set_entry simp: find_entry_None)
  show ?thesis unfolding dir_ext_def using len 1 2 3 by blast
qed

end
