(* ===== verification/Rpfs_Device.thy ===== *)
theory Rpfs_Device
  imports Rpfs_Bytes
begin

text \<open>
  The block device as an interface. The locale \<open>block_device\<close> states what RPFS relies on: a
  device is an array of 512-byte sectors; a transfer of 1 to 128 sectors inside the device
  succeeds (128 is the limit of the AHCI driver's transfer buffer), reading leaves the device
  alone and delivers the sectors, writing replaces exactly the addressed sectors. The effects
  of the flush, load and data loops of RPFS are proved inside it; the RAM disk of the host
  test interprets it.
\<close>

definition region :: "('d \<Rightarrow> nat \<Rightarrow> bytes) \<Rightarrow> 'd \<Rightarrow> nat \<Rightarrow> nat \<Rightarrow> bytes" where
  "region sec d lba n = concat (map (sec d) [lba..<lba + n])"

definition xfer_ok :: "('d \<Rightarrow> nat) \<Rightarrow> 'd \<Rightarrow> nat \<Rightarrow> nat \<Rightarrow> bytes \<Rightarrow> bool" where
  "xfer_ok nsec d lba n buf \<longleftrightarrow>
     0 < n \<and> n \<le> 128 \<and> lba + n \<le> nsec d \<and> length buf = n * SECTOR"

locale block_device =
  fixes ops :: "'d block_dev"
    and sec :: "'d \<Rightarrow> nat \<Rightarrow> bytes"
    and nsec :: "'d \<Rightarrow> nat"
  assumes sec_length: "i < nsec d \<Longrightarrow> length (sec d i) = SECTOR"
    and read_law: "xfer_ok nsec d lba n buf \<Longrightarrow>
          bd_read ops d lba n buf = (d, True, region sec d lba n)"
    and write_ok: "xfer_ok nsec d lba n buf \<Longrightarrow> snd (bd_write ops d lba n buf)"
    and write_nsec: "xfer_ok nsec d lba n buf \<Longrightarrow> nsec (fst (bd_write ops d lba n buf)) = nsec d"
    and write_sec: "xfer_ok nsec d lba n buf \<Longrightarrow> i < nsec d \<Longrightarrow>
          sec (fst (bd_write ops d lba n buf)) i =
            (if lba \<le> i \<and> i < lba + n
             then slice buf ((i - lba) * SECTOR) ((i - lba) * SECTOR + SECTOR) else sec d i)"
begin

lemma length_region [simp]: "lba + n \<le> nsec d \<Longrightarrow> length (region sec d lba n) = n * SECTOR"
  unfolding region_def
  by (subst length_concat_uniform [where w = SECTOR]) (auto simp: sec_length)

lemma nth_region:
  "lba + n \<le> nsec d \<Longrightarrow> k < n * SECTOR \<Longrightarrow>
     region sec d lba n ! k = sec d (lba + k div SECTOR) ! (k mod SECTOR)"
  unfolding region_def
  by (subst nth_concat_uniform [where w = SECTOR])
    (auto simp: sec_length less_mult_imp_div_less)

text \<open>Two devices that agree on the sectors of a region have the same region.\<close>

lemma region_cong:
  "(\<And>i. lba \<le> i \<Longrightarrow> i < lba + n \<Longrightarrow> sec d i = sec d' i) \<Longrightarrow> region sec d lba n = region sec d' lba n"
  unfolding region_def by (rule arg_cong [where f = concat], rule map_cong) auto

text \<open>A region whose sectors are the pieces of a byte string is that string.\<close>

lemma region_eqI:
  assumes "lba + n \<le> nsec d" "length xs = n * SECTOR"
    and "\<And>i. i < n \<Longrightarrow> sec d (lba + i) = slice xs (i * SECTOR) (i * SECTOR + SECTOR)"
  shows "region sec d lba n = xs"
proof (rule nth_equalityI)
  show "length (region sec d lba n) = length xs" using assms by simp
  fix k assume "k < length (region sec d lba n)"
  then have k: "k < n * SECTOR" using assms(1) by simp
  then have "k div SECTOR < n" by (simp add: less_mult_imp_div_less)
  moreover have "k mod SECTOR < SECTOR" by (simp add: SECTOR_def)
  moreover have "k div SECTOR * SECTOR + SECTOR \<le> length xs"
    using \<open>k div SECTOR < n\<close> assms(2) mult_le_mono1 [of "Suc (k div SECTOR)" n SECTOR] by simp
  ultimately have "slice xs (k div SECTOR * SECTOR) (k div SECTOR * SECTOR + SECTOR) ! (k mod SECTOR)
      = xs ! (k div SECTOR * SECTOR + k mod SECTOR)"
    by (intro nth_slice) linarith+
  then show "region sec d lba n ! k = xs ! k"
    using nth_region [OF assms(1) k] \<open>k div SECTOR < n\<close> by (simp add: assms(3))
qed

lemma sec_of_region:
  assumes "lba + n \<le> nsec d" "i < n"
  shows "sec d (lba + i) = slice (region sec d lba n) (i * SECTOR) (i * SECTOR + SECTOR)"
proof (rule nth_equalityI)
  have le: "i * SECTOR + SECTOR \<le> n * SECTOR"
    using assms(2) mult_le_mono1 [of "Suc i" n SECTOR] by simp
  then show "length (sec d (lba + i))
      = length (slice (region sec d lba n) (i * SECTOR) (i * SECTOR + SECTOR))"
    using assms by (simp add: sec_length)
  fix k assume "k < length (sec d (lba + i))"
  then have k: "k < SECTOR" using assms by (simp add: sec_length)
  then have "(i * SECTOR + k) div SECTOR = i" "(i * SECTOR + k) mod SECTOR = k"
    by (simp_all add: SECTOR_def)
  then show "sec d (lba + i) ! k
      = slice (region sec d lba n) (i * SECTOR) (i * SECTOR + SECTOR) ! k"
    using k le assms(1) by (simp add: nth_slice nth_region)
qed

section \<open>The flush loops\<close>

lemma flush_range_loop_effect:
  assumes "\<forall>s \<in> set ss. s < bitmap_sectors fs" "bitmap_lba fs + bitmap_sectors fs \<le> nsec (dev fs)"
    and "length (bitmap fs) = bitmap_sectors fs * SECTOR"
  shows "\<exists>d'. flush_range_loop ops ss fs = fs\<lparr>dev := d'\<rparr> \<and> nsec d' = nsec (dev fs) \<and>
      (\<forall>i < nsec (dev fs). sec d' i =
        (if bitmap_lba fs \<le> i \<and> i - bitmap_lba fs \<in> set ss
         then slice (bitmap fs) ((i - bitmap_lba fs) * SECTOR) ((i - bitmap_lba fs) * SECTOR + SECTOR)
         else sec (dev fs) i))"
  using assms
proof (induction ss arbitrary: fs)
  case Nil
  then show ?case by (intro exI [where x = "dev fs"]) simp
next
  case (Cons s ss)
  let ?buf = "slice (bitmap fs) (s * SECTOR) (s * SECTOR + SECTOR)"
  let ?d = "fst (bd_write ops (dev fs) (bitmap_lba fs + s) 1 ?buf)"
  have s: "s * SECTOR + SECTOR \<le> length (bitmap fs)"
    using Cons.prems mult_le_mono1 [of "Suc s" "bitmap_sectors fs" SECTOR] by simp
  then have x: "xfer_ok nsec (dev fs) (bitmap_lba fs + s) 1 ?buf"
    using Cons.prems by (simp add: xfer_ok_def)
  obtain d' where d': "flush_range_loop ops ss (fs\<lparr>dev := ?d\<rparr>) = fs\<lparr>dev := d'\<rparr>"
    "nsec d' = nsec (dev fs)"
    "\<forall>i < nsec (dev fs). sec d' i =
        (if bitmap_lba fs \<le> i \<and> i - bitmap_lba fs \<in> set ss
         then slice (bitmap fs) ((i - bitmap_lba fs) * SECTOR) ((i - bitmap_lba fs) * SECTOR + SECTOR)
         else sec ?d i)"
    using Cons.IH [of "fs\<lparr>dev := ?d\<rparr>"] Cons.prems write_nsec [OF x] by auto
  have "length ?buf = SECTOR" using s by simp
  then have all: "slice ?buf 0 SECTOR = ?buf" by (metis slice_full)
  have "flush_range_loop ops (s # ss) fs = fs\<lparr>dev := d'\<rparr>"
    using s d'(1) by (simp add: Let_def)
  then show ?case
    using d'(2,3) write_sec [OF x] all by (intro exI [where x = d']) auto
qed

lemma flush_dir_entry_effect:
  assumes "idx < DIR_ENTRIES" "dir_lba fs + DIR_SECTORS \<le> nsec (dev fs)" "dir_ok (dir fs)"
  defines "s \<equiv> idx * ENTRY_SZ div SECTOR"
  shows "\<exists>d'. flush_dir_entry ops idx fs = fs\<lparr>dev := d'\<rparr> \<and> nsec d' = nsec (dev fs) \<and>
      (\<forall>i < nsec (dev fs). sec d' i =
        (if i = dir_lba fs + s then slice (dir fs) (s * SECTOR) (s * SECTOR + SECTOR)
         else sec (dev fs) i))"
proof -
  let ?buf = "slice (dir fs) (s * SECTOR) (s * SECTOR + SECTOR)"
  have s: "s < DIR_SECTORS"
    using assms(1) by (simp add: s_def DIR_SECTORS_def DIR_ENTRIES_def ENTRY_SZ_def SECTOR_def)
  then have "s * SECTOR + SECTOR \<le> DIR_SECTORS * SECTOR"
    using mult_le_mono1 [of "Suc s" DIR_SECTORS SECTOR] by simp
  then have "s * SECTOR + SECTOR \<le> length (dir fs)"
    using assms(3) by (simp add: DIR_SECTORS_def DIR_ENTRIES_def ENTRY_SZ_def SECTOR_def)
  then have x: "xfer_ok nsec (dev fs) (dir_lba fs + s) 1 ?buf"
    using assms(2) s by (simp add: xfer_ok_def)
  have "length ?buf = SECTOR" using \<open>s * SECTOR + SECTOR \<le> length (dir fs)\<close> by simp
  then have all: "slice ?buf 0 SECTOR = ?buf" by (metis slice_full)
  show ?thesis
    using all write_nsec [OF x] write_sec [OF x]
    by (intro exI [where x = "fst (bd_write ops (dev fs) (dir_lba fs + s) 1 ?buf)"])
      (auto simp: flush_dir_entry_def Let_def s_def)
qed

end

section \<open>The data loops\<close>

text \<open>File data zero-padded to \<open>n\<close> sectors: what the data region holds for the file.\<close>

definition padded :: "bytes \<Rightarrow> nat \<Rightarrow> bytes" where
  "padded data n = data @ replicate (n * SECTOR - length data) 0"

lemma length_padded [simp]: "length data \<le> n * SECTOR \<Longrightarrow> length (padded data n) = n * SECTOR"
  by (simp add: padded_def)

lemma take_padded [simp]: "take (length data) (padded data n) = data"
  by (simp add: padded_def)

text \<open>The scratch buffer after staging chunk \<open>blk..blk+cnt\<close> is that piece of the padded data.\<close>

lemma staged_chunk:
  assumes "length data \<le> n * SECTOR" "blk + cnt \<le> n" "cnt * SECTOR \<le> length scr"
  defines "w \<equiv> min (length data) (blk * SECTOR)"
  defines "copy \<equiv> min (length data - w) (cnt * SECTOR)"
  shows "take (cnt * SECTOR) (blit (blit scr 0 (slice data w (w + copy))) copy (replicate (cnt * SECTOR - copy) 0))
       = slice (padded data n) (blk * SECTOR) (blk * SECTOR + cnt * SECTOR)"
    (is "?l = ?r")
proof -
  have len: "length (slice data w (w + copy)) = copy"
    by (simp add: w_def copy_def)
  have le: "blk * SECTOR + cnt * SECTOR \<le> n * SECTOR"
    using mult_le_mono1 [OF assms(2), of SECTOR] by (simp add: add_mult_distrib)
  have cp: "copy \<le> cnt * SECTOR" by (simp add: copy_def)
  have l: "?l = slice data w (w + copy) @ replicate (cnt * SECTOR - copy) 0"
    using len cp by (simp add: blit_def)
  show ?thesis
  proof (rule nth_equalityI)
    show "length ?l = length ?r" using len cp le assms(1) unfolding l by simp
    fix k assume "k < length ?l"
    then have k: "k < cnt * SECTOR" using len cp unfolding l by simp
    have "?r ! k = padded data n ! (blk * SECTOR + k)"
      using k le assms(1) by (simp add: nth_slice)
    also have "\<dots> = (if blk * SECTOR + k < length data then data ! (blk * SECTOR + k) else 0)"
      using k le assms(1) by (simp add: padded_def nth_append)
    also have "\<dots> = ?l ! k"
    proof (cases "k < copy")
      case True
      then have w: "w = blk * SECTOR" "blk * SECTOR + k < length data"
        by (auto simp: w_def copy_def min_def split: if_splits)
      have "slice data w (w + copy) ! k = data ! (w + k)"
        using True by (intro nth_slice) (auto simp: copy_def)
      then show ?thesis using True w len unfolding l by (simp add: nth_append)
    next
      case False
      then have "\<not> blk * SECTOR + k < length data"
        using k by (auto simp: w_def copy_def min_def split: if_splits)
      then show ?thesis using False k len cp unfolding l by (simp add: nth_append)
    qed
    finally show "?l ! k = ?r ! k" by simp
  qed
qed

context block_device
begin

lemma write_chunk_effect:
  assumes "length data \<le> n * SECTOR" "blk + cnt \<le> n" "0 < cnt" "cnt \<le> SCRATCH_SECTORS"
    and "length (scratch fs) = SCRATCH_SECTORS * SECTOR"
    and "data_lba fs + start + n \<le> nsec (dev fs)" "start + n < 4294967296"
  defines "w \<equiv> min (length data) (blk * SECTOR)"
  shows "\<exists>scr d'. write_chunk ops data start cnt blk w fs
        = (True, min (length data - w) (cnt * SECTOR), fs\<lparr>scratch := scr, dev := d'\<rparr>)
      \<and> length scr = length (scratch fs) \<and> nsec d' = nsec (dev fs)
      \<and> (\<forall>i < nsec (dev fs). sec d' i =
          (if data_lba fs + start + blk \<le> i \<and> i < data_lba fs + start + blk + cnt
           then slice (padded data n) ((i - (data_lba fs + start)) * SECTOR)
                  ((i - (data_lba fs + start)) * SECTOR + SECTOR)
           else sec (dev fs) i))"
proof -
  let ?copy = "min (length data - w) (cnt * SECTOR)"
  let ?scr = "blit (blit (scratch fs) 0 (slice data w (w + ?copy))) ?copy (replicate (cnt * SECTOR - ?copy) 0)"
  let ?lba = "data_lba fs + (start + blk)"
  let ?buf = "slice (padded data n) (blk * SECTOR) (blk * SECTOR + cnt * SECTOR)"
  have cs: "cnt * SECTOR \<le> length (scratch fs)"
    unfolding assms(5) using assms(4) by (rule mult_le_mono1)
  have buf: "take (cnt * SECTOR) ?scr = ?buf"
    using staged_chunk [OF assms(1,2) cs] by (simp add: w_def)
  have le: "blk * SECTOR + cnt * SECTOR \<le> n * SECTOR"
    using mult_le_mono1 [OF assms(2), of SECTOR] by (simp add: add_mult_distrib)
  have wle: "w + ?copy \<le> length data" by (simp add: w_def)
  have lenscr: "length ?scr = length (scratch fs)" using cs wle by simp
  have u16: "cnt < 65536" using assms(4) by (simp add: SCRATCH_SECTORS_def)
  have x: "xfer_ok nsec (dev fs) ?lba cnt ?buf"
    using assms le by (simp add: xfer_ok_def SCRATCH_SECTORS_def)
  have u: "u32_add start blk = start + blk" using assms(2,7) by simp
  have piece: "slice ?buf ((i - ?lba) * SECTOR) ((i - ?lba) * SECTOR + SECTOR)
      = slice (padded data n) ((i - (data_lba fs + start)) * SECTOR)
          ((i - (data_lba fs + start)) * SECTOR + SECTOR)"
    if "?lba \<le> i" "i < ?lba + cnt" for i
  proof -
    have i: "i - (data_lba fs + start) = blk + (i - ?lba)" using that by simp
    have "Suc (i - ?lba) \<le> cnt" using that by simp
    then have "(i - ?lba) * SECTOR + SECTOR \<le> cnt * SECTOR"
      using mult_le_mono1 [of "Suc (i - ?lba)" cnt SECTOR] by simp
    then show ?thesis unfolding i by (subst slice_slice) (auto simp: add_mult_distrib add.assoc)
  qed
  have "write_chunk ops data start cnt blk w fs = (True, ?copy,
      fs\<lparr>scratch := ?scr, dev := fst (bd_write ops (dev fs) ?lba cnt ?buf)\<rparr>)"
    using write_ok [OF x]
    by (simp only: write_chunk_def Let_def buf u as_u16_id [OF u16] split: prod.split) auto
  then show ?thesis
    using lenscr write_nsec [OF x] write_sec [OF x] piece
    by (intro exI [where x = ?scr] exI [where x = "fst (bd_write ops (dev fs) ?lba cnt ?buf)"])
      (simp add: add.assoc)
qed

lemma write_loop_effect:
  assumes "length data \<le> n * SECTOR" "length (scratch fs) = SCRATCH_SECTORS * SECTOR"
    and "data_lba fs + start + n \<le> nsec (dev fs)" "start + n < 4294967296" "blk \<le> n"
  shows "\<exists>scr d'. write_loop ops data start n blk (min (length data) (blk * SECTOR)) fs
        = (True, fs\<lparr>scratch := scr, dev := d'\<rparr>)
      \<and> length scr = length (scratch fs) \<and> nsec d' = nsec (dev fs)
      \<and> (\<forall>i < nsec (dev fs). sec d' i =
          (if data_lba fs + start + blk \<le> i \<and> i < data_lba fs + start + n
           then slice (padded data n) ((i - (data_lba fs + start)) * SECTOR)
                  ((i - (data_lba fs + start)) * SECTOR + SECTOR)
           else sec (dev fs) i))"
  using assms(2-5)
proof (induction "n - blk" arbitrary: blk fs rule: less_induct)
  case less
  show ?case
  proof (cases "blk < n")
    case False
    then show ?thesis
      using less.prems by (intro exI [where x = "scratch fs"] exI [where x = "dev fs"])
        (auto simp: write_loop.simps)
  next
    case True
    define cnt where "cnt = min (n - blk) SCRATCH_SECTORS"
    define w where "w = min (length data) (blk * SECTOR)"
    define copy where "copy = min (length data - w) (cnt * SECTOR)"
    have cnt: "blk + cnt \<le> n" "0 < cnt" "cnt \<le> SCRATCH_SECTORS"
      using True by (auto simp: cnt_def SCRATCH_SECTORS_def)
    obtain scr d1 where c: "write_chunk ops data start cnt blk w fs
        = (True, copy, fs\<lparr>scratch := scr, dev := d1\<rparr>)"
      "length scr = length (scratch fs)" "nsec d1 = nsec (dev fs)"
      "\<forall>i < nsec (dev fs). sec d1 i =
          (if data_lba fs + start + blk \<le> i \<and> i < data_lba fs + start + blk + cnt
           then slice (padded data n) ((i - (data_lba fs + start)) * SECTOR)
                  ((i - (data_lba fs + start)) * SECTOR + SECTOR)
           else sec (dev fs) i)"
      using write_chunk_effect [OF assms(1) cnt less.prems(1-3), folded w_def, folded copy_def]
      by blast
    have w: "w + copy = min (length data) ((blk + cnt) * SECTOR)"
      by (auto simp: w_def copy_def min_def add_mult_distrib)
    define fs1 where "fs1 = fs\<lparr>scratch := scr, dev := d1\<rparr>"
    have "n - (blk + cnt) < n - blk" using cnt by linarith
    moreover have "length (scratch fs1) = SCRATCH_SECTORS * SECTOR"
      "data_lba fs1 + start + n \<le> nsec (dev fs1)"
      using less.prems(1,2) c(2,3) by (simp_all add: fs1_def)
    ultimately obtain scr' d2 where r: "write_loop ops data start n (blk + cnt) (w + copy) fs1
        = (True, fs1\<lparr>scratch := scr', dev := d2\<rparr>)"
      "length scr' = length (scratch fs1)" "nsec d2 = nsec (dev fs1)"
      "\<forall>i < nsec (dev fs1). sec d2 i =
          (if data_lba fs1 + start + (blk + cnt) \<le> i \<and> i < data_lba fs1 + start + n
           then slice (padded data n) ((i - (data_lba fs1 + start)) * SECTOR)
                  ((i - (data_lba fs1 + start)) * SECTOR + SECTOR)
           else sec (dev fs1) i)"
      using less.hyps [of "blk + cnt" fs1] less.prems(3) cnt(1) unfolding w by blast
    have "write_loop ops data start n blk w fs = (True, fs\<lparr>scratch := scr', dev := d2\<rparr>)"
      using True r(1) by (subst write_loop.simps) (simp add: Let_def c(1) cnt_def [symmetric] fs1_def)
    moreover have "sec d2 i =
        (if data_lba fs + start + blk \<le> i \<and> i < data_lba fs + start + n
         then slice (padded data n) ((i - (data_lba fs + start)) * SECTOR)
                ((i - (data_lba fs + start)) * SECTOR + SECTOR)
         else sec (dev fs) i)" if "i < nsec (dev fs)" for i
    proof -
      have a: "sec d2 i = (if data_lba fs + start + (blk + cnt) \<le> i \<and> i < data_lba fs + start + n
           then slice (padded data n) ((i - (data_lba fs + start)) * SECTOR)
                  ((i - (data_lba fs + start)) * SECTOR + SECTOR)
           else sec d1 i)"
        using r(4) that c(3) by (simp add: fs1_def)
      show ?thesis
        unfolding a using c(4) that cnt(1) by (cases "data_lba fs + start + (blk + cnt) \<le> i") auto
    qed
    ultimately show ?thesis
      using c(2,3) r(2,3) unfolding w_def [symmetric]
      by (intro exI [where x = scr'] exI [where x = d2]) (simp add: fs1_def)
  qed
qed

lemma read_chunk_effect:
  assumes "0 < cnt" "cnt \<le> SCRATCH_SECTORS" "length (scratch fs) = SCRATCH_SECTORS * SECTOR"
    and "data_lba fs + (start + blk) + cnt \<le> nsec (dev fs)" "start + blk < 4294967296"
  defines "buf \<equiv> region sec (dev fs) (data_lba fs + (start + blk)) cnt"
  shows "read_chunk ops start cnt blk fs = (True, fs\<lparr>scratch := blit (scratch fs) 0 buf\<rparr>)"
    and "length (blit (scratch fs) 0 buf) = SCRATCH_SECTORS * SECTOR"
    and "take (cnt * SECTOR) (blit (scratch fs) 0 buf) = buf"
proof -
  have cs: "cnt * SECTOR \<le> length (scratch fs)"
    unfolding assms(3) using assms(2) by (rule mult_le_mono1)
  have u16: "cnt < 65536" using assms(2) by (simp add: SCRATCH_SECTORS_def)
  have x: "xfer_ok nsec (dev fs) (data_lba fs + (start + blk)) cnt (take (cnt * SECTOR) (scratch fs))"
    using assms cs by (simp add: xfer_ok_def SCRATCH_SECTORS_def)
  have u: "u32_add start blk = start + blk" using assms(5) by simp
  show "read_chunk ops start cnt blk fs = (True, fs\<lparr>scratch := blit (scratch fs) 0 buf\<rparr>)"
    by (simp add: read_chunk_def u u16 read_law [OF x] buf_def)
  have lb: "length buf = cnt * SECTOR" using assms(4) by (simp add: buf_def)
  then show "length (blit (scratch fs) 0 buf) = SCRATCH_SECTORS * SECTOR"
    using cs assms(3) by simp
  show "take (cnt * SECTOR) (blit (scratch fs) 0 buf) = buf"
    using lb by (simp add: blit_def)
qed

lemma region_split:
  "blk + cnt \<le> n \<Longrightarrow> lba + n \<le> nsec d \<Longrightarrow>
     region sec d (lba + blk) cnt = slice (region sec d lba n) (blk * SECTOR) (blk * SECTOR + cnt * SECTOR)"
proof (rule region_eqI)
  assume a: "blk + cnt \<le> n" "lba + n \<le> nsec d"
  then have le: "blk * SECTOR + cnt * SECTOR \<le> n * SECTOR"
    using mult_le_mono1 [of "blk + cnt" n SECTOR] by (simp add: add_mult_distrib)
  then show "length (slice (region sec d lba n) (blk * SECTOR) (blk * SECTOR + cnt * SECTOR)) = cnt * SECTOR"
    using a by simp
  fix i assume i: "i < cnt"
  then have "i * SECTOR + SECTOR \<le> cnt * SECTOR"
    using mult_le_mono1 [of "Suc i" cnt SECTOR] by simp
  then show "sec d (lba + blk + i) =
      slice (slice (region sec d lba n) (blk * SECTOR) (blk * SECTOR + cnt * SECTOR)) (i * SECTOR) (i * SECTOR + SECTOR)"
    using i a sec_of_region [of lba n d "blk + i"]
    by (subst slice_slice) (auto simp: add_mult_distrib add.assoc)
qed auto

lemma read_loop_step:
  assumes "blk < n" "cnt = min (n - blk) SCRATCH_SECTORS" "read_chunk ops start cnt blk fs = (True, fs')"
    and "k = min (min (sz - fp) (cnt * SECTOR)) (length out - op)"
    and "out' = blit out op (take k (scratch fs'))"
  shows "read_loop ops start sz n blk fp op out fs =
    (if length out' \<le> op + k \<or> sz \<le> fp + cnt * SECTOR then (Some (op + k), out', fs')
     else read_loop ops start sz n (blk + cnt) (fp + cnt * SECTOR) (op + k) out' fs')"
  unfolding assms(5) assms(4)
  by (subst read_loop.simps) (simp only: Let_def assms(1,3) if_True if_False prod.case simp_thms flip: assms(2))

text \<open>
  \<open>read_file\<close>'s loop from block \<open>blk\<close>, with the first \<open>blk\<close> blocks already delivered: it fills
  the buffer with the file's bytes, up to the shorter of the file and the buffer.
\<close>

lemma read_loop_effect:
  fixes sz n start :: nat and out :: bytes
  assumes "length (scratch fs) = SCRATCH_SECTORS * SECTOR"
    and "data_lba fs + start + n \<le> nsec (dev fs)" "start + n < 4294967296"
    and "sz \<le> n * SECTOR" "blk < n" "blk * SECTOR \<le> sz" "blk * SECTOR \<le> length out"
    and "take (blk * SECTOR) out = take (blk * SECTOR) (region sec (dev fs) (data_lba fs + start) n)"
  shows "\<exists>scr. read_loop ops start sz n blk (blk * SECTOR) (blk * SECTOR) out fs =
      (Some (min sz (length out)),
       take (min sz (length out)) (region sec (dev fs) (data_lba fs + start) n)
         @ drop (min sz (length out)) out,
       fs\<lparr>scratch := scr\<rparr>)
      \<and> length scr = SCRATCH_SECTORS * SECTOR"
  using assms
proof (induction "n - blk" arbitrary: blk out fs rule: less_induct)
  case less
  define c where "c = region sec (dev fs) (data_lba fs + start) n"
  define cnt where "cnt = min (n - blk) SCRATCH_SECTORS"
  define buf where "buf = region sec (dev fs) (data_lba fs + (start + blk)) cnt"
  define fs' where "fs' = fs\<lparr>scratch := blit (scratch fs) 0 buf\<rparr>"
  define p where "p = blk * SECTOR"
  define k where "k = min (min (sz - p) (cnt * SECTOR)) (length out - p)"
  define out' where "out' = blit out p (take k (scratch fs'))"
  have cnt: "blk + cnt \<le> n" "0 < cnt" "cnt \<le> SCRATCH_SECTORS"
    using less.prems(5) by (auto simp: cnt_def SCRATCH_SECTORS_def)
  have pre: "data_lba fs + (start + blk) + cnt \<le> nsec (dev fs)" "start + blk < 4294967296"
    using less.prems(2,3,5) cnt(1) by linarith+
  note rc = read_chunk_effect [OF cnt(2,3) less.prems(1) pre, folded buf_def]
  have ch: "read_chunk ops start cnt blk fs = (True, fs')"
    "length (scratch fs') = SCRATCH_SECTORS * SECTOR" "take (cnt * SECTOR) (scratch fs') = buf"
    using rc by (simp_all add: fs'_def)
  have lenc: "length c = n * SECTOR" using less.prems(2) by (simp add: c_def)
  have buf: "buf = slice c p (p + cnt * SECTOR)"
    using region_split [OF cnt(1) less.prems(2)] by (simp add: buf_def c_def p_def add.assoc)
  have kle: "k \<le> cnt * SECTOR" "k \<le> sz - p" "k \<le> length out - p" by (simp_all add: k_def)
  have tk: "take k (scratch fs') = take k (drop p c)"
  proof -
    have "take k (scratch fs') = take k (take (cnt * SECTOR) (scratch fs'))"
      using kle(1) by (simp add: min_absorb1)
    then show ?thesis using kle(1) by (simp add: ch(3) buf slice_def min_absorb1)
  qed
  have prems: "p \<le> sz" "p \<le> length out" "take p out = take p c"
    using less.prems(6-8) by (simp_all add: p_def c_def)
  have pk: "p + k \<le> length out" "p + k \<le> length c" "p + k \<le> sz"
    using kle prems less.prems(4) unfolding lenc by linarith+
  have out': "out' = take (p + k) c @ drop (p + k) out"
    using prems(3) pk unfolding out'_def tk blit_def by (simp add: take_add)
  have lenout: "length out' = length out" using pk unfolding out' by simp
  note step = read_loop_step [OF less.prems(5) cnt_def ch(1) k_def out'_def]
  show ?case
  proof (cases "length out \<le> p + k \<or> sz \<le> p + cnt * SECTOR")
    case True
    then have "p + k = min sz (length out)"
      using prems unfolding k_def by linarith
    then show ?thesis
      using step True ch(2) unfolding lenout p_def [symmetric] c_def [symmetric] out'
      by (auto simp: fs'_def)
  next
    case False
    then have k: "k = cnt * SECTOR" unfolding k_def by linarith
    have nf: "p + cnt * SECTOR = (blk + cnt) * SECTOR" by (simp add: p_def add_mult_distrib)
    have lt: "blk + cnt < n"
    proof (rule ccontr)
      assume "\<not> blk + cnt < n"
      then have "blk + cnt = n" using cnt(1) by simp
      then show False using False nf less.prems(4) by simp
    qed
    have IH: "\<exists>scr. read_loop ops start sz n (blk + cnt) ((blk + cnt) * SECTOR) ((blk + cnt) * SECTOR) out' fs'
        = (Some (min sz (length out')),
           take (min sz (length out')) (region sec (dev fs') (data_lba fs' + start) n)
             @ drop (min sz (length out')) out',
           fs'\<lparr>scratch := scr\<rparr>) \<and> length scr = SCRATCH_SECTORS * SECTOR"
    proof (rule less.hyps)
      show "n - (blk + cnt) < n - blk" using cnt(2) less.prems(5) by simp
      show "length (scratch fs') = SCRATCH_SECTORS * SECTOR" by (rule ch(2))
      show "data_lba fs' + start + n \<le> nsec (dev fs')" using less.prems(2) by (simp add: fs'_def)
      show "(blk + cnt) * SECTOR \<le> sz" "(blk + cnt) * SECTOR \<le> length out'"
        using False k nf lenout by auto
      show "take ((blk + cnt) * SECTOR) out' = take ((blk + cnt) * SECTOR)
          (region sec (dev fs') (data_lba fs' + start) n)"
        using pk k nf unfolding out' by (simp add: fs'_def c_def)
    qed (use less.prems lt in auto)
    have "read_loop ops start sz n blk p p out fs
        = read_loop ops start sz n (blk + cnt) ((blk + cnt) * SECTOR) ((blk + cnt) * SECTOR) out' fs'"
      using step False unfolding lenout p_def [symmetric] k nf by simp
    moreover have "drop (min sz (length out)) out' = drop (min sz (length out)) out"
      unfolding out' using pk by (simp add: min_def)
    ultimately show ?thesis using IH unfolding lenout p_def [symmetric]
      by (auto simp: fs'_def)
  qed
qed

end

section \<open>The RAM disk is a block device\<close>

definition ram_sec :: "ram_disk \<Rightarrow> nat \<Rightarrow> bytes" where
  "ram_sec d i = slice d (i * SECTOR) (i * SECTOR + SECTOR)"

definition ram_nsec :: "ram_disk \<Rightarrow> nat" where
  "ram_nsec d = length d div SECTOR"

lemma ram_range: "lba + n \<le> ram_nsec d \<Longrightarrow> (lba + n) * SECTOR \<le> length d"
  unfolding ram_nsec_def by (metis div_times_less_eq_dividend le_trans mult_le_mono1)

lemma concat_ram_sec:
  "(lba + n) * SECTOR \<le> length d \<Longrightarrow>
     concat (map (ram_sec d) [lba..<lba + n]) = slice d (lba * SECTOR) ((lba + n) * SECTOR)"
proof (induction n)
  case (Suc n)
  have "slice d (lba * SECTOR) ((lba + n) * SECTOR) @ ram_sec d (lba + n)
      = slice d (lba * SECTOR) ((lba + Suc n) * SECTOR)"
    unfolding ram_sec_def
    by (subst slice_append) (auto simp: algebra_simps)
  then show ?case using Suc by simp
qed simp

interpretation ram: block_device ram_dev ram_sec ram_nsec
proof
  fix d i assume "i < ram_nsec d"
  then show "length (ram_sec d i) = SECTOR"
    using ram_range [of i 1 d] by (simp add: ram_sec_def)
next
  fix d lba n buf assume x: "xfer_ok ram_nsec d lba n buf"
  then have le: "(lba + n) * SECTOR \<le> length d" by (intro ram_range) (simp add: xfer_ok_def)
  then have le': "lba * SECTOR + n * SECTOR \<le> length d" by (simp add: algebra_simps)
  show "bd_read ram_dev d lba n buf = (d, True, region ram_sec d lba n)"
    using x le le'
    by (simp add: ram_dev_def ram_read_def Let_def xfer_ok_def region_def concat_ram_sec blit_def
        add_mult_distrib)
  have w: "bd_write ram_dev d lba n buf = (blit d (lba * SECTOR) buf, True)"
    using x le' by (simp add: ram_dev_def ram_write_def Let_def xfer_ok_def)
  show "snd (bd_write ram_dev d lba n buf)" by (simp add: w)
  have bl: "lba * SECTOR + length buf \<le> length d" using x le' by (simp add: xfer_ok_def)
  show "ram_nsec (fst (bd_write ram_dev d lba n buf)) = ram_nsec d"
    using bl by (simp add: w ram_nsec_def)
  fix i assume i: "i < ram_nsec d"
  have lenb: "length buf = n * SECTOR" using x by (simp add: xfer_ok_def)
  show "ram_sec (fst (bd_write ram_dev d lba n buf)) i =
      (if lba \<le> i \<and> i < lba + n
       then slice buf ((i - lba) * SECTOR) ((i - lba) * SECTOR + SECTOR) else ram_sec d i)"
  proof (cases "lba \<le> i \<and> i < lba + n")
    case True
    then obtain k where k: "i = lba + k" "k < n" by (auto simp: le_iff_add)
    have kb: "k * SECTOR + SECTOR \<le> length buf"
      using k lenb mult_le_mono1 [of "Suc k" n SECTOR] by simp
    have "slice (blit d (lba * SECTOR) buf) (lba * SECTOR + k * SECTOR) (lba * SECTOR + (k * SECTOR + SECTOR))
        = slice (slice (blit d (lba * SECTOR) buf) (lba * SECTOR) (lba * SECTOR + length buf))
            (k * SECTOR) (k * SECTOR + SECTOR)"
      using kb by (subst slice_slice) (auto simp: add.assoc)
    also have "\<dots> = slice buf (k * SECTOR) (k * SECTOR + SECTOR)"
      by (simp add: slice_blit_same [OF bl])
    finally show ?thesis using k by (simp add: w ram_sec_def add_mult_distrib add.assoc)
  next
    case False
    then have "(i + 1) * SECTOR \<le> lba * SECTOR \<or> (lba + n) * SECTOR \<le> i * SECTOR"
      using mult_le_mono1 [of "i + 1" lba SECTOR] mult_le_mono1 [of "lba + n" i SECTOR] by linarith
    then have "i * SECTOR + SECTOR \<le> lba * SECTOR \<or> lba * SECTOR + length buf \<le> i * SECTOR"
      by (simp add: lenb add_mult_distrib add.commute)
    then show ?thesis using False bl by (auto simp: w ram_sec_def slice_blit_other)
  qed
qed

end
