(* ===== verification/Rpfs_Sync.thy ===== *)
theory Rpfs_Sync
  imports Rpfs_Alloc Rpfs_Device
begin

text \<open>
  The three on-disk regions of RPFS and their in-memory copies: the geometry of a mounted
  filesystem, the predicates that say on which sectors the disk agrees with memory, and the
  effect of each metadata update, which writes back exactly the sectors it touched.
\<close>

section \<open>Geometry and agreement with the disk\<close>

definition geom_ok :: "('d \<Rightarrow> nat) \<Rightarrow> 'd rpfs \<Rightarrow> bool" where
  "geom_ok nsec fs \<longleftrightarrow>
     bitmap_lba fs = base fs + 1 \<and> dir_lba fs = bitmap_lba fs + bitmap_sectors fs \<and>
     data_lba fs = dir_lba fs + DIR_SECTORS \<and>
     total_blocks fs \<le> bitmap_sectors fs * 4096 \<and> total_blocks fs < 4294967296 \<and>
     bitmap_sectors fs < 4294967296 \<and>
     data_lba fs + total_blocks fs \<le> nsec (dev fs) \<and>
     length (bitmap fs) = bitmap_sectors fs * SECTOR \<and> dir_ok (dir fs) \<and>
     length (scratch fs) = SCRATCH_SECTORS * SECTOR"

definition bm_sync :: "('d \<Rightarrow> nat \<Rightarrow> bytes) \<Rightarrow> 'd rpfs \<Rightarrow> nat set \<Rightarrow> bool" where
  "bm_sync sec fs X \<longleftrightarrow> (\<forall>s < bitmap_sectors fs. s \<notin> X \<longrightarrow>
     sec (dev fs) (bitmap_lba fs + s) = slice (bitmap fs) (s * SECTOR) (s * SECTOR + SECTOR))"

definition dir_sync :: "('d \<Rightarrow> nat \<Rightarrow> bytes) \<Rightarrow> 'd rpfs \<Rightarrow> bool" where
  "dir_sync sec fs \<longleftrightarrow> (\<forall>s < DIR_SECTORS.
     sec (dev fs) (dir_lba fs + s) = slice (dir fs) (s * SECTOR) (s * SECTOR + SECTOR))"

definition bm_area :: "'d rpfs \<Rightarrow> nat set" where
  "bm_area fs = {bitmap_lba fs ..< bitmap_lba fs + bitmap_sectors fs}"

definition dir_area :: "'d rpfs \<Rightarrow> nat set" where
  "dir_area fs = {dir_lba fs ..< dir_lba fs + DIR_SECTORS}"

text \<open>The device changed at most in the sectors of \<open>A\<close>.\<close>

definition dev_upd :: "('d \<Rightarrow> nat \<Rightarrow> bytes) \<Rightarrow> ('d \<Rightarrow> nat) \<Rightarrow> nat set \<Rightarrow> 'd \<Rightarrow> 'd \<Rightarrow> bool" where
  "dev_upd sec nsec A d d' \<longleftrightarrow> nsec d' = nsec d \<and> (\<forall>i < nsec d. i \<notin> A \<longrightarrow> sec d' i = sec d i)"

lemma dev_upd_refl [simp]: "dev_upd sec nsec A d d"
  by (simp add: dev_upd_def)

lemma dev_upd_trans:
  "dev_upd sec nsec A d d1 \<Longrightarrow> dev_upd sec nsec B d1 d2 \<Longrightarrow> A \<union> B \<subseteq> C \<Longrightarrow> dev_upd sec nsec C d d2"
  unfolding dev_upd_def by (metis Un_subset_iff subsetD)

lemma dev_upd_mono: "dev_upd sec nsec A d d1 \<Longrightarrow> A \<subseteq> C \<Longrightarrow> dev_upd sec nsec C d d1"
  unfolding dev_upd_def by blast

lemma geom_dev:
  "geom_ok nsec fs \<Longrightarrow> dev_upd sec nsec A (dev fs) d \<Longrightarrow> geom_ok nsec (fs\<lparr>dev := d\<rparr>)"
  by (simp add: geom_ok_def dev_upd_def)

lemma bm_sync_dev:
  assumes "bm_sync sec fs X" "geom_ok nsec fs" "dev_upd sec nsec A (dev fs) d" "A \<inter> bm_area fs = {}"
  shows "bm_sync sec (fs\<lparr>dev := d\<rparr>) X"
  unfolding bm_sync_def
proof (intro allI impI)
  fix s assume s: "s < bitmap_sectors (fs\<lparr>dev := d\<rparr>)" "s \<notin> X"
  then have "bitmap_lba fs + s \<in> bm_area fs" "bitmap_lba fs + s < nsec (dev fs)"
    using assms(2) by (auto simp: bm_area_def geom_ok_def)
  then have "sec d (bitmap_lba fs + s) = sec (dev fs) (bitmap_lba fs + s)"
    using assms(3,4) unfolding dev_upd_def by blast
  then show "sec (dev (fs\<lparr>dev := d\<rparr>)) (bitmap_lba (fs\<lparr>dev := d\<rparr>) + s)
      = slice (bitmap (fs\<lparr>dev := d\<rparr>)) (s * SECTOR) (s * SECTOR + SECTOR)"
    using s assms(1) by (simp add: bm_sync_def)
qed

lemma dir_sync_dev:
  assumes "dir_sync sec fs" "geom_ok nsec fs" "dev_upd sec nsec A (dev fs) d" "A \<inter> dir_area fs = {}"
  shows "dir_sync sec (fs\<lparr>dev := d\<rparr>)"
  unfolding dir_sync_def
proof (intro allI impI)
  fix s assume s: "s < DIR_SECTORS"
  then have "dir_lba fs + s \<in> dir_area fs" "dir_lba fs + s < nsec (dev fs)"
    using assms(2) by (auto simp: dir_area_def geom_ok_def)
  then have "sec d (dir_lba fs + s) = sec (dev fs) (dir_lba fs + s)"
    using assms(3,4) unfolding dev_upd_def by blast
  then show "sec (dev (fs\<lparr>dev := d\<rparr>)) (dir_lba (fs\<lparr>dev := d\<rparr>) + s)
      = slice (dir (fs\<lparr>dev := d\<rparr>)) (s * SECTOR) (s * SECTOR + SECTOR)"
    using s assms(1) by (simp add: dir_sync_def)
qed

section \<open>Which sectors a metadata change touches\<close>

definition bm_secs :: "nat \<Rightarrow> nat \<Rightarrow> nat set" where
  "bm_secs start n = {start div 8 div SECTOR .. (start + n - 1) div 8 div SECTOR}"

lemma bit_sector:
  assumes "k \<in> {start ..< start + n}" "s * SECTOR \<le> k div 8" "k div 8 < s * SECTOR + SECTOR"
  shows "s \<in> bm_secs start n"
proof -
  have "k div 8 div SECTOR = s"
    using assms(2,3) by (simp add: SECTOR_def div_nat_eqI)
  moreover have "start div 8 div SECTOR \<le> k div 8 div SECTOR"
    using assms(1) by (intro div_le_mono) simp
  moreover have "k \<le> start + n - 1" using assms(1) by auto
  then have "k div 8 div SECTOR \<le> (start + n - 1) div 8 div SECTOR"
    by (intro div_le_mono)
  ultimately show ?thesis by (simp add: bm_secs_def)
qed

lemma bm_sync_bits:
  assumes "bm_sync sec fs X" "length bm = length (bitmap fs)"
    and "\<And>j. (\<forall>k \<in> {start ..< start + n}. k div 8 \<noteq> j) \<Longrightarrow> bm ! j = bitmap fs ! j"
  shows "bm_sync sec (fs\<lparr>bitmap := bm\<rparr>) (X \<union> bm_secs start n)"
proof -
  have "slice bm (s * SECTOR) (s * SECTOR + SECTOR) = slice (bitmap fs) (s * SECTOR) (s * SECTOR + SECTOR)"
    if "s \<notin> bm_secs start n" for s
    using assms(2)
  proof (rule slice_eqI)
    fix j assume j: "s * SECTOR \<le> j" "j < s * SECTOR + SECTOR"
    show "bm ! j = bitmap fs ! j"
      using bit_sector [of _ start n s] that j by (intro assms(3)) blast
  qed
  then show ?thesis using assms(1) by (simp add: bm_sync_def)
qed

lemma dir_slice_other:
  assumes "dir_ok d" "i < DIR_ENTRIES" "length e = ENTRY_SZ" "s \<noteq> i * ENTRY_SZ div SECTOR"
  shows "slice (blit d (i * ENTRY_SZ) e) (s * SECTOR) (s * SECTOR + SECTOR)
       = slice d (s * SECTOR) (s * SECTOR + SECTOR)"
proof (rule slice_blit_other)
  show "i * ENTRY_SZ + length e \<le> length d"
    using entry_in_dir [OF assms(2)] assms(1,3) by simp
  show "s * SECTOR + SECTOR \<le> i * ENTRY_SZ \<or> i * ENTRY_SZ + length e \<le> s * SECTOR"
  proof (cases "s < i div 4")
    case True
    then have "s * 4 + 4 \<le> i" by linarith
    then show ?thesis by (simp add: ENTRY_SZ_def SECTOR_def)
  next
    case False
    moreover have "i * ENTRY_SZ div SECTOR = i div 4"
      using div_mult2_eq [of "i * 128" 128 4] by (simp add: ENTRY_SZ_def SECTOR_def)
    ultimately have "i div 4 < s" using assms(4) by simp
    then have "i + 1 \<le> s * 4" by linarith
    then have "(i + 1) * 128 \<le> s * 4 * 128" by (rule mult_le_mono1)
    then show ?thesis using assms(3) by (simp add: ENTRY_SZ_def SECTOR_def)
  qed
qed

lemma set_entry_is_blit:
  "dir_ok d \<Longrightarrow> i < DIR_ENTRIES \<Longrightarrow>
     \<exists>e. length e = ENTRY_SZ \<and> set_entry i name k t st sz n d = blit d (i * ENTRY_SZ) e"
  by (metis set_entry_blit length_entry_bytes ENTRY_SZ_def)

lemma tombstone_is_blit:
  assumes "dir_ok d" "i < DIR_ENTRIES"
  shows "\<exists>e. length e = ENTRY_SZ \<and> d[i * ENTRY_SZ + 112 := v] = blit d (i * ENTRY_SZ) e"
proof -
  let ?e = "ent d i"
  have "length ?e = ENTRY_SZ" using assms entry_in_dir [of i] by (simp add: ent_def)
  moreover have "blit d (i * ENTRY_SZ) ?e = d"
    using assms entry_in_dir [of i] unfolding ent_def by (intro blit_slice_id) auto
  ultimately have "d[i * ENTRY_SZ + 112 := v] = blit d (i * ENTRY_SZ) (?e[112 := v])"
    using update_blit_inside [of "i * ENTRY_SZ" ?e d 112 v] assms entry_in_dir [of i]
    by (simp add: ENTRY_SZ_def)
  then show ?thesis using \<open>length ?e = ENTRY_SZ\<close> by (intro exI [where x = "?e[112 := v]"]) simp
qed

section \<open>Effects of the metadata updates\<close>

context block_device
begin

lemma put_entry_effect:
  assumes "geom_ok nsec fs" "dir_sync sec fs" "i < DIR_ENTRIES" "length e = ENTRY_SZ"
    and "d' = blit (dir fs) (i * ENTRY_SZ) e"
  shows "\<exists>dv. flush_dir_entry ops i (fs\<lparr>dir := d'\<rparr>) = fs\<lparr>dir := d', dev := dv\<rparr> \<and>
      dev_upd sec nsec (dir_area fs) (dev fs) dv \<and> dir_sync sec (fs\<lparr>dir := d', dev := dv\<rparr>) \<and>
      geom_ok nsec (fs\<lparr>dir := d', dev := dv\<rparr>)"
proof -
  define s where "s = i * ENTRY_SZ div SECTOR"
  have d: "dir_ok (dir fs)" "dir_lba fs + DIR_SECTORS \<le> nsec (dev fs)"
    using assms(1) by (auto simp: geom_ok_def)
  have d': "dir_ok d'" using d(1) assms(3-5) entry_in_dir [of i] by simp
  have s: "s < DIR_SECTORS"
    using assms(3) by (simp add: s_def DIR_SECTORS_def DIR_ENTRIES_def ENTRY_SZ_def SECTOR_def)
  obtain dv where dv: "flush_dir_entry ops i (fs\<lparr>dir := d'\<rparr>) = fs\<lparr>dir := d', dev := dv\<rparr>"
    "nsec dv = nsec (dev fs)"
    "\<forall>j < nsec (dev fs). sec dv j =
        (if j = dir_lba fs + s then slice d' (s * SECTOR) (s * SECTOR + SECTOR) else sec (dev fs) j)"
    using flush_dir_entry_effect [OF assms(3), of "fs\<lparr>dir := d'\<rparr>"] d d' unfolding s_def by auto
  have "dev_upd sec nsec (dir_area fs) (dev fs) dv"
    using dv(2,3) s by (auto simp: dev_upd_def dir_area_def)
  moreover have "dir_sync sec (fs\<lparr>dir := d', dev := dv\<rparr>)"
    unfolding dir_sync_def
  proof (intro allI impI)
    fix r assume r: "r < DIR_SECTORS"
    show "sec (dev (fs\<lparr>dir := d', dev := dv\<rparr>)) (dir_lba (fs\<lparr>dir := d', dev := dv\<rparr>) + r)
        = slice (dir (fs\<lparr>dir := d', dev := dv\<rparr>)) (r * SECTOR) (r * SECTOR + SECTOR)"
      using dv(3) r d assms(2) dir_slice_other [OF d(1) assms(3,4), of r]
      by (cases "r = s") (simp_all add: dir_sync_def assms(5) s_def)
  qed
  moreover have "geom_ok nsec (fs\<lparr>dir := d', dev := dv\<rparr>)"
    using assms(1) d' dv(2) by (simp add: geom_ok_def)
  ultimately show ?thesis using dv(1) by blast
qed

lemma flush_bitmap_range_effect:
  assumes "geom_ok nsec fs" "bm_sync sec fs (bm_secs start n)" "0 < n" "start + n \<le> total_blocks fs"
  shows "\<exists>dv. flush_bitmap_range ops start n fs = fs\<lparr>dev := dv\<rparr> \<and>
      dev_upd sec nsec (bm_area fs) (dev fs) dv \<and> bm_sync sec (fs\<lparr>dev := dv\<rparr>) {}"
proof -
  let ?ss = "[start div 8 div SECTOR..<Suc ((start + n - 1) div 8 div SECTOR)]"
  have set: "set ?ss = bm_secs start n" by (auto simp: bm_secs_def)
  have u: "u32_add start n = start + n" using assms(1,4) by (simp add: geom_ok_def)
  have "s < bitmap_sectors fs" if "s \<in> bm_secs start n" for s
  proof -
    have "s \<le> (start + n - 1) div 8 div SECTOR" using that by (simp add: bm_secs_def)
    moreover have "start + n - 1 < bitmap_sectors fs * 4096"
      using assms(1,3,4) unfolding geom_ok_def by linarith
    ultimately show ?thesis by (simp add: SECTOR_def)
  qed
  then have ss: "\<forall>s \<in> set ?ss. s < bitmap_sectors fs" unfolding set by blast
  have g: "bitmap_lba fs + bitmap_sectors fs \<le> nsec (dev fs)"
    "length (bitmap fs) = bitmap_sectors fs * SECTOR"
    using assms(1) by (auto simp: geom_ok_def)
  obtain dv where dv: "flush_range_loop ops ?ss fs = fs\<lparr>dev := dv\<rparr>" "nsec dv = nsec (dev fs)"
    "\<forall>i < nsec (dev fs). sec dv i =
        (if bitmap_lba fs \<le> i \<and> i - bitmap_lba fs \<in> bm_secs start n
         then slice (bitmap fs) ((i - bitmap_lba fs) * SECTOR) ((i - bitmap_lba fs) * SECTOR + SECTOR)
         else sec (dev fs) i)"
    using flush_range_loop_effect [OF ss g] unfolding set by blast
  have "dev_upd sec nsec (bm_area fs) (dev fs) dv"
    using dv(2,3) ss unfolding set dev_upd_def bm_area_def by fastforce
  moreover have "bm_sync sec (fs\<lparr>dev := dv\<rparr>) {}"
    using dv(3) g(1) assms(2) by (simp add: bm_sync_def)
  ultimately show ?thesis using dv(1) u by (auto simp: flush_bitmap_range_def Let_def)
qed

text \<open>\<open>ensure_parents\<close> creates directories and keeps the disk's directory up to date.\<close>

lemma ensure_one_effect:
  assumes "geom_ok nsec fs" "dir_sync sec fs" "good_name p" "length p < length name"
  shows "\<exists>d' dv. ensure_one ops p fs = fs\<lparr>dir := d', dev := dv\<rparr> \<and> dir_ext name (dir fs) d' \<and>
      dev_upd sec nsec (dir_area fs) (dev fs) dv \<and> dir_sync sec (fs\<lparr>dir := d', dev := dv\<rparr>) \<and>
      geom_ok nsec (fs\<lparr>dir := d', dev := dv\<rparr>)"
proof (cases "find_entry (dir fs) p = None \<and> free_slot (dir fs) \<noteq> None")
  case False
  then have "ensure_one ops p fs = fs" by (auto simp: ensure_one_def)
  then show ?thesis
    using assms by (intro exI [where x = "dir fs"] exI [where x = "dev fs"])
      (auto intro: dir_ext_refl simp: geom_ok_def)
next
  case True
  then obtain i where i: "free_slot (dir fs) = Some i" by auto
  define d' where "d' = set_entry i p K_DIR 1 0 0 0 (dir fs)"
  have d: "dir_ok (dir fs)" using assms(1) by (simp add: geom_ok_def)
  have ilt: "i < DIR_ENTRIES" using free_slot_Some [OF i] by simp
  obtain e where "length e = ENTRY_SZ" "d' = blit (dir fs) (i * ENTRY_SZ) e"
    using set_entry_is_blit [OF d ilt] unfolding d'_def by blast
  then obtain dv where dv: "flush_dir_entry ops i (fs\<lparr>dir := d'\<rparr>) = fs\<lparr>dir := d', dev := dv\<rparr>"
      "dev_upd sec nsec (dir_area fs) (dev fs) dv" "dir_sync sec (fs\<lparr>dir := d', dev := dv\<rparr>)"
      "geom_ok nsec (fs\<lparr>dir := d', dev := dv\<rparr>)"
    using put_entry_effect [OF assms(1,2) ilt] by blast
  moreover have "dir_ext name (dir fs) d'"
    using dir_ext_new_dir [OF d _ i assms(3,4)] True by (simp add: d'_def)
  ultimately show ?thesis
    using True i by (intro exI [where x = d'] exI [where x = dv]) (simp add: ensure_one_def d'_def)
qed

lemma ensure_parents_loop_effect:
  assumes "geom_ok nsec fs" "dir_sync sec fs" "good_name name"
  shows "\<exists>d' dv. ensure_parents_loop ops name idx fs = fs\<lparr>dir := d', dev := dv\<rparr> \<and>
      dir_ext name (dir fs) d' \<and> dev_upd sec nsec (dir_area fs) (dev fs) dv \<and>
      dir_sync sec (fs\<lparr>dir := d', dev := dv\<rparr>) \<and> geom_ok nsec (fs\<lparr>dir := d', dev := dv\<rparr>)"
  using assms(1,2)
proof (induction "length name - idx" arbitrary: idx fs rule: less_induct)
  case less
  have d: "dir_ok (dir fs)" using less.prems(1) by (simp add: geom_ok_def)
  show ?case
  proof (cases "position (\<lambda>c. c = SLASH) (drop idx name)")
    case None
    then show ?thesis
      using less.prems d by (intro exI [where x = "dir fs"] exI [where x = "dev fs"])
        (auto intro: dir_ext_refl simp: ensure_parents_loop.simps)
  next
    case (Some pos)
    define cut where "cut = idx + pos"
    define fs' where "fs' = (if cut > 0 then ensure_one ops (take cut name) fs else fs)"
    have lt: "cut < length name" using position_lt [OF Some] by (simp add: cut_def)
    have eq: "ensure_parents_loop ops name idx fs = ensure_parents_loop ops name (cut + 1) fs'"
      by (subst ensure_parents_loop.simps) (simp add: Some Let_def cut_def fs'_def)
    have "\<exists>d1 dv1. fs' = fs\<lparr>dir := d1, dev := dv1\<rparr> \<and> dir_ext name (dir fs) d1 \<and>
        dev_upd sec nsec (dir_area fs) (dev fs) dv1 \<and> dir_sync sec (fs\<lparr>dir := d1, dev := dv1\<rparr>) \<and>
        geom_ok nsec (fs\<lparr>dir := d1, dev := dv1\<rparr>)"
    proof (cases "cut > 0")
      case True
      have "good_name (take cut name)"
        using assms(3) True lt by (auto simp: good_name_def dest: in_set_takeD)
      from ensure_one_effect [OF less.prems this, of name] lt True
      show ?thesis by (simp add: fs'_def)
    next
      case False
      then show ?thesis
        using less.prems d by (intro exI [where x = "dir fs"] exI [where x = "dev fs"])
          (auto intro: dir_ext_refl simp: fs'_def)
    qed
    then obtain d1 dv1 where 1: "fs' = fs\<lparr>dir := d1, dev := dv1\<rparr>" "dir_ext name (dir fs) d1"
        "dev_upd sec nsec (dir_area fs) (dev fs) dv1" "dir_sync sec fs'" "geom_ok nsec fs'"
      by blast
    have "length name - (cut + 1) < length name - idx" using lt by (simp add: cut_def)
    from less.hyps [OF this 1(5,4)]
    obtain d2 dv2 where 2: "ensure_parents_loop ops name (cut + 1) fs' = fs'\<lparr>dir := d2, dev := dv2\<rparr>"
        "dir_ext name d1 d2" "dev_upd sec nsec (dir_area fs) dv1 dv2"
        "dir_sync sec (fs'\<lparr>dir := d2, dev := dv2\<rparr>)" "geom_ok nsec (fs'\<lparr>dir := d2, dev := dv2\<rparr>)"
      by (auto simp: 1(1) dir_area_def)
    have "dir_ext name (dir fs) d2" by (rule dir_ext_trans [OF 1(2) 2(2) d])
    moreover have "dev_upd sec nsec (dir_area fs) (dev fs) dv2"
      by (rule dev_upd_trans [OF 1(3) 2(3)]) simp
    ultimately show ?thesis
      using 2 by (intro exI [where x = d2] exI [where x = dv2]) (simp add: eq 1(1))
  qed
qed

lemmas ensure_parents_effect = ensure_parents_loop_effect [where idx = 0, folded ensure_parents_def]

end

end
