(* ===== verification/Rpfs_Spec.thy ===== *)
theory Rpfs_Spec
  imports Rpfs_Sync
begin

text \<open>
  The abstract view of RPFS: a finite map from path names to file contents (\<open>lookup\<close>), read
  off the directory and the data sectors, and the invariant of a mounted filesystem
  (\<open>fs_inv\<close>). Each operation is shown to preserve the invariant and to be the corresponding
  update of the map.
\<close>

definition content :: "('d \<Rightarrow> nat \<Rightarrow> bytes) \<Rightarrow> 'd rpfs \<Rightarrow> nat \<Rightarrow> bytes" where
  "content sec fs i = take (e_size (dir fs) i)
     (region sec (dev fs) (data_lba fs + e_start (dir fs) i) (e_nblocks (dir fs) i))"

definition lookup :: "('d \<Rightarrow> nat \<Rightarrow> bytes) \<Rightarrow> 'd rpfs \<Rightarrow> bytes \<Rightarrow> bytes option" where
  "lookup sec fs name =
     (case find_entry (dir fs) name of
        None \<Rightarrow> None
      | Some i \<Rightarrow> if e_kind (dir fs) i = K_DIR then None else Some (content sec fs i))"

definition fs_inv :: "('d \<Rightarrow> nat \<Rightarrow> bytes) \<Rightarrow> ('d \<Rightarrow> nat) \<Rightarrow> 'd rpfs \<Rightarrow> bool" where
  "fs_inv sec nsec fs \<longleftrightarrow>
     ready fs \<and> geom_ok nsec fs \<and> alloc_ok (total_blocks fs) (bitmap fs) (dir fs) \<and>
     names_ok (dir fs) \<and>
     sec (dev fs) (base fs) = super_block (total_blocks fs) (bitmap_sectors fs) \<and>
     bm_sync sec fs {} \<and> dir_sync sec fs"

text \<open>The sectors of data blocks \<open>s .. s + n\<close>.\<close>

definition data_area :: "'d rpfs \<Rightarrow> nat \<Rightarrow> nat \<Rightarrow> nat set" where
  "data_area fs s n = {data_lba fs + s ..< data_lba fs + s + n}"

section \<open>The map of files\<close>

lemma lookup_iff:
  assumes "names_ok (dir fs)"
  shows "lookup sec fs nm = Some c \<longleftrightarrow>
     (\<exists>i \<in> files (dir fs). e_name (dir fs) i = nm \<and> content sec fs i = c)"
proof (cases "find_entry (dir fs) nm")
  case None
  then have "\<forall>i. active (dir fs) i \<longrightarrow> e_name (dir fs) i \<noteq> nm" by (simp add: find_entry_None)
  then show ?thesis by (auto simp: lookup_def None files_def is_file_def)
next
  case (Some k)
  then have "active (dir fs) i \<and> e_name (dir fs) i = nm \<longleftrightarrow> i = k" for i
    using find_entry_iff [OF assms, of nm] Some by (metis option.inject)
  then have "(\<exists>i \<in> files (dir fs). e_name (dir fs) i = nm \<and> content sec fs i = c)
      \<longleftrightarrow> e_kind (dir fs) k \<noteq> K_DIR \<and> content sec fs k = c"
    unfolding files_def is_file_def mem_Collect_eq Bex_def by metis
  then show ?thesis by (simp add: lookup_def Some)
qed

lemma map_eqI: "(\<And>x c. m x = Some c \<longleftrightarrow> m' x = Some c) \<Longrightarrow> m = m'"
  by (rule ext) (metis not_None_eq)

lemma lookup_put:
  assumes "names_ok (dir fs)" "names_ok (dir fs')" "files (dir fs') = insert i (files (dir fs))"
    and "\<And>j. j \<in> files (dir fs) - {i} \<Longrightarrow>
        e_name (dir fs') j = e_name (dir fs) j \<and> content sec fs' j = content sec fs j
        \<and> e_name (dir fs) j \<noteq> name"
    and "e_name (dir fs') i = name" "content sec fs' i = data"
    and "i \<in> files (dir fs) \<Longrightarrow> e_name (dir fs) i = name"
  shows "lookup sec fs' = (lookup sec fs)(name \<mapsto> data)"
proof (rule map_eqI)
  fix nm c
  show "lookup sec fs' nm = Some c \<longleftrightarrow> ((lookup sec fs)(name \<mapsto> data)) nm = Some c"
  proof (cases "nm = name")
    case True
    have "lookup sec fs' name = Some data"
      unfolding lookup_iff [OF assms(2)] using assms(3,5,6) by auto
    then show ?thesis using True by simp
  next
    case False
    then show ?thesis
      unfolding fun_upd_other [OF False] lookup_iff [OF assms(1)] lookup_iff [OF assms(2)]
      using assms(3-7) by (metis Diff_iff insert_iff singletonD)
  qed
qed

lemma lookup_drop:
  assumes "names_ok (dir fs)" "names_ok (dir fs')" "files (dir fs') = files (dir fs) - {i}"
    and "\<And>j. j \<in> files (dir fs) - {i} \<Longrightarrow>
        e_name (dir fs') j = e_name (dir fs) j \<and> content sec fs' j = content sec fs j
        \<and> e_name (dir fs) j \<noteq> name"
    and "i \<in> files (dir fs) \<Longrightarrow> e_name (dir fs) i = name"
  shows "lookup sec fs' = (lookup sec fs)(name := None)"
proof (rule map_eqI)
  fix nm c
  show "lookup sec fs' nm = Some c \<longleftrightarrow> ((lookup sec fs)(name := None)) nm = Some c"
  proof (cases "nm = name")
    case True
    then show ?thesis unfolding lookup_iff [OF assms(2)] using assms(3,4) by auto
  next
    case False
    then show ?thesis
      unfolding fun_upd_other [OF False] lookup_iff [OF assms(1)] lookup_iff [OF assms(2)]
      using assms(3-5) by (metis Diff_iff singletonD)
  qed
qed

context block_device
begin

lemma data_area_disjoint:
  "geom_ok nsec fs \<Longrightarrow> data_area fs s n \<inter> bm_area fs = {}"
  "geom_ok nsec fs \<Longrightarrow> data_area fs s n \<inter> dir_area fs = {}"
  "geom_ok nsec fs \<Longrightarrow> bm_area fs \<inter> dir_area fs = {}"
  "geom_ok nsec fs \<Longrightarrow> base fs \<notin> data_area fs s n \<union> bm_area fs \<union> dir_area fs"
  by (auto simp: geom_ok_def data_area_def bm_area_def dir_area_def)

lemma content_stable:
  assumes "geom_ok nsec fs" "dev_upd sec nsec A (dev fs) dv"
    and "A \<inter> data_area fs (e_start (dir fs) j) (e_nblocks (dir fs) j) = {}"
    and "e_start (dir fs) j + e_nblocks (dir fs) j \<le> total_blocks fs"
    and "dev fs' = dv" "data_lba fs' = data_lba fs"
    and "e_start (dir fs') j = e_start (dir fs) j" "e_size (dir fs') j = e_size (dir fs) j"
      "e_nblocks (dir fs') j = e_nblocks (dir fs) j"
  shows "content sec fs' j = content sec fs j"
proof -
  let ?l = "data_lba fs + e_start (dir fs) j" and ?n = "e_nblocks (dir fs) j"
  have "region sec dv ?l ?n = region sec (dev fs) ?l ?n"
  proof (rule region_cong)
    fix i assume i: "?l \<le> i" "i < ?l + ?n"
    then have "i \<in> data_area fs (e_start (dir fs) j) ?n" by (simp add: data_area_def)
    moreover have "i < nsec (dev fs)"
      using i assms(1,4) unfolding geom_ok_def by linarith
    ultimately show "sec dv i = sec (dev fs) i"
      using assms(2,3) unfolding dev_upd_def by blast
  qed
  then show ?thesis using assms(5-9) by (simp add: content_def)
qed

text \<open>Files whose extents do not meet blocks \<open>s .. s + n\<close> do not see a change of those blocks.\<close>

lemma metadata_disjoint:
  assumes "geom_ok nsec fs" "{s ..< s + n} \<inter> extent (dir fs) j = {}"
  shows "(bm_area fs \<union> dir_area fs \<union> data_area fs s n)
      \<inter> data_area fs (e_start (dir fs) j) (e_nblocks (dir fs) j) = {}"
proof -
  have "data_area fs s n \<inter> data_area fs (e_start (dir fs) j) (e_nblocks (dir fs) j) = {}"
  proof (rule ccontr)
    assume "\<not> ?thesis"
    then obtain x where "x \<in> data_area fs s n" "x \<in> data_area fs (e_start (dir fs) j) (e_nblocks (dir fs) j)"
      by blast
    then have "x - data_lba fs \<in> {s ..< s + n} \<inter> extent (dir fs) j"
      unfolding data_area_def extent_def by auto
    then show False using assms(2) by blast
  qed
  then show ?thesis using data_area_disjoint [OF assms(1)] by blast
qed

section \<open>Claiming a slot\<close>

lemma claim_slot_effect:
  assumes inv: "fs_inv sec nsec fs" and c: "claim_slot ops name fs = Some (slot, fs1)"
  shows "slot < DIR_ENTRIES"
    and "\<And>j. active (dir fs) j \<Longrightarrow> e_name (dir fs) j = name \<longleftrightarrow> j = slot"
    and "active (dir fs) slot \<Longrightarrow> is_file (dir fs) slot"
    and "\<exists>bm dv. fs1 = fs\<lparr>bitmap := bm, dev := dv\<rparr> \<and> length bm = length (bitmap fs) \<and>
      alloc_on (total_blocks fs) bm (dir fs) (files (dir fs) - {slot}) \<and>
      bm_sync sec fs1 {} \<and> dev_upd sec nsec (bm_area fs) (dev fs) dv \<and>
      (\<forall>s n. s + n \<le> total_blocks fs \<longrightarrow> free_range (bitmap fs) s n \<longrightarrow> free_range bm s n)"
proof -
  have g: "geom_ok nsec fs" and a: "alloc_ok (total_blocks fs) (bitmap fs) (dir fs)"
    and n: "names_ok (dir fs)" and b: "bm_sync sec fs {}"
    using inv by (auto simp: fs_inv_def)
  have slot: "slot < DIR_ENTRIES \<and> (\<forall>j. active (dir fs) j \<longrightarrow> (e_name (dir fs) j = name \<longleftrightarrow> j = slot)) \<and>
      (active (dir fs) slot \<longrightarrow> is_file (dir fs) slot)"
  proof (cases "find_entry (dir fs) name")
    case None
    then have "free_slot (dir fs) = Some slot" using c by (auto simp: claim_slot_def)
    moreover have "\<forall>i. active (dir fs) i \<longrightarrow> e_name (dir fs) i \<noteq> name"
      using None by (simp add: find_entry_None)
    ultimately show ?thesis using free_slot_Some by blast
  next
    case (Some i)
    then have "active (dir fs) i \<and> e_name (dir fs) i = name" "slot = i" "e_kind (dir fs) i \<noteq> K_DIR"
      using c find_entry_Some [OF Some] by (auto simp: claim_slot_def Let_def split: if_splits)
    then show ?thesis using n by (auto simp: is_file_def active_def names_ok_def)
  qed
  then show "slot < DIR_ENTRIES" "active (dir fs) slot \<Longrightarrow> is_file (dir fs) slot"
    "\<And>j. active (dir fs) j \<Longrightarrow> e_name (dir fs) j = name \<longleftrightarrow> j = slot" by blast+
  show "\<exists>bm dv. fs1 = fs\<lparr>bitmap := bm, dev := dv\<rparr> \<and> length bm = length (bitmap fs) \<and>
      alloc_on (total_blocks fs) bm (dir fs) (files (dir fs) - {slot}) \<and>
      bm_sync sec fs1 {} \<and> dev_upd sec nsec (bm_area fs) (dev fs) dv \<and>
      (\<forall>s n. s + n \<le> total_blocks fs \<longrightarrow> free_range (bitmap fs) s n \<longrightarrow> free_range bm s n)"
  proof (cases "find_entry (dir fs) name")
    case None
    then have "fs1 = fs" "slot \<notin> files (dir fs)"
      using c free_slot_Some [of "dir fs"] by (auto simp: claim_slot_def files_def is_file_def)
    then show ?thesis
      using a b by (intro exI [where x = "bitmap fs"] exI [where x = "dev fs"]) simp
  next
    case (Some i)
    let ?s = "e_start (dir fs) i" and ?n = "e_nblocks (dir fs) i"
    have i: "slot = i" "i \<in> files (dir fs)"
      and fs1: "fs1 = flush_bitmap_range ops ?s ?n (free_run ?s ?n fs)"
      using c Some find_entry_Some [OF Some]
      by (auto simp: claim_slot_def Let_def files_def is_file_def split: if_splits)
    have ext: "0 < ?n" "?s + ?n \<le> total_blocks fs" using a i(2) by (auto simp: alloc_on_def)
    have nb: "total_blocks fs \<le> 8 * length (bitmap fs)" and u: "u32_add ?s ?n = ?s + ?n"
      using g ext(2) by (auto simp: geom_ok_def SECTOR_def)
    define bm where "bm = clear_bits (total_blocks fs) (bitmap fs) [?s ..< ?s + ?n]"
    have fr: "free_run ?s ?n fs = fs\<lparr>bitmap := bm\<rparr>" by (simp add: free_run_def bm_def u)
    have "bm_sync sec (fs\<lparr>bitmap := bm\<rparr>) ({} \<union> bm_secs ?s ?n)"
      using b by (rule bm_sync_bits) (auto simp: bm_def clear_bits_nth_other)
    moreover have g': "geom_ok nsec (fs\<lparr>bitmap := bm\<rparr>)" using g by (simp add: geom_ok_def bm_def)
    ultimately obtain dv where dv: "fs1 = fs\<lparr>bitmap := bm, dev := dv\<rparr>"
        "dev_upd sec nsec (bm_area fs) (dev fs) dv" "bm_sync sec fs1 {}"
      using flush_bitmap_range_effect [of "fs\<lparr>bitmap := bm\<rparr>" ?s ?n] ext
      by (auto simp: fs1 fr bm_area_def)
    moreover have "alloc_on (total_blocks fs) bm (dir fs) (files (dir fs) - {slot})"
      unfolding bm_def i(1) using a i(2) nb by (rule alloc_on_release)
    moreover have "\<forall>s n. s + n \<le> total_blocks fs \<longrightarrow> free_range (bitmap fs) s n \<longrightarrow> free_range bm s n"
      using nb by (auto simp: bm_def free_range_def bit_get_clear_bits)
    ultimately show ?thesis by (intro exI [where x = bm] exI [where x = dv]) (simp add: bm_def)
  qed
qed

end

end
