(* ===== verification/Rpfs_Ops.thy ===== *)
theory Rpfs_Ops
  imports Rpfs_Spec
begin

text \<open>
  The operations of RPFS against its abstract view: writing, reading and deleting a file and
  making a directory, each proved once for every block device that meets the interface.
\<close>

lemma blocks_for_bounds:
  assumes "length data \<le> MAX_FILE"
  shows "0 < blocks_for data" "blocks_for data \<le> 2048" "length data \<le> blocks_for data * SECTOR"
    "as_u32 (length data) = length data"
proof -
  have "blocks_for data = max ((length data + SECTOR - 1) div SECTOR) 1"
    using assms by (simp add: blocks_for_def as_u32_def MAX_FILE_def SECTOR_def)
  then show "0 < blocks_for data" "blocks_for data \<le> 2048" "length data \<le> blocks_for data * SECTOR"
    using assms by (auto simp: MAX_FILE_def SECTOR_def max_def)
  show "as_u32 (length data) = length data" using assms by (simp add: MAX_FILE_def)
qed

context block_device
begin

text \<open>The state every write ends in, before its directory entry is written.\<close>

lemma set_entry_final:
  assumes g: "geom_ok nsec fs5" and s: "dir_sync sec (fs5\<lparr>dir := d4\<rparr>)" and i: "i < DIR_ENTRIES"
    and d: "dir_ok d4" "dir fs5 = blit d4 (i * ENTRY_SZ) e" "length e = ENTRY_SZ"
  shows "\<exists>dv. flush_dir_entry ops i fs5 = fs5\<lparr>dev := dv\<rparr> \<and>
      dev_upd sec nsec (dir_area fs5) (dev fs5) dv \<and>
      dir_sync sec (fs5\<lparr>dev := dv\<rparr>) \<and> geom_ok nsec (fs5\<lparr>dev := dv\<rparr>)"
proof -
  have "geom_ok nsec (fs5\<lparr>dir := d4\<rparr>)" using g d(1) by (simp add: geom_ok_def)
  moreover have "dir fs5 = blit (dir (fs5\<lparr>dir := d4\<rparr>)) (i * ENTRY_SZ) e" using d(2) by simp
  ultimately have "\<exists>dv. flush_dir_entry ops i (fs5\<lparr>dir := d4\<rparr>\<lparr>dir := dir fs5\<rparr>)
        = fs5\<lparr>dir := d4\<rparr>\<lparr>dir := dir fs5, dev := dv\<rparr> \<and>
      dev_upd sec nsec (dir_area (fs5\<lparr>dir := d4\<rparr>)) (dev (fs5\<lparr>dir := d4\<rparr>)) dv \<and>
      dir_sync sec (fs5\<lparr>dir := d4\<rparr>\<lparr>dir := dir fs5, dev := dv\<rparr>) \<and>
      geom_ok nsec (fs5\<lparr>dir := d4\<rparr>\<lparr>dir := dir fs5, dev := dv\<rparr>)"
    by (rule put_entry_effect [OF _ s i d(3)])
  moreover have "fs5\<lparr>dir := d4\<rparr>\<lparr>dir := dir fs5\<rparr> = fs5" by simp
  ultimately show ?thesis by (simp add: dir_area_def)
qed

text \<open>
  The successful tail of \<open>write_file\<close>: slot claimed, run allocated. Everything it does to the
  state, in one record.
\<close>

definition write_tail :: "nat \<Rightarrow> bytes \<Rightarrow> bytes \<Rightarrow> nat \<Rightarrow> nat \<Rightarrow> 'd rpfs \<Rightarrow> 'd rpfs" where
  "write_tail slot name data start n fs3 =
     (let fs4 = ensure_parents ops name fs3;
          fs5 = fs4\<lparr>dir := set_entry slot name K_FILE 1 start (length data) n (dir fs4)\<rparr>
      in flush_dir_entry ops slot (flush_bitmap_range ops start n fs5))"

lemma write_tail_effect:
  assumes g: "geom_ok nsec fs3" and ds: "dir_sync sec fs3" and bs: "bm_sync sec fs3 (bm_secs start n)"
    and nm: "good_name name" and i: "slot < DIR_ENTRIES" and n: "0 < n" "start + n \<le> total_blocks fs3"
  shows "\<exists>d4 dv. write_tail slot name data start n fs3
        = fs3\<lparr>dir := set_entry slot name K_FILE 1 start (length data) n d4, dev := dv\<rparr> \<and>
      dir_ext name (dir fs3) d4 \<and> dev_upd sec nsec (bm_area fs3 \<union> dir_area fs3) (dev fs3) dv \<and>
      bm_sync sec (fs3\<lparr>dir := set_entry slot name K_FILE 1 start (length data) n d4, dev := dv\<rparr>) {} \<and>
      dir_sync sec (fs3\<lparr>dir := set_entry slot name K_FILE 1 start (length data) n d4, dev := dv\<rparr>) \<and>
      geom_ok nsec (fs3\<lparr>dir := set_entry slot name K_FILE 1 start (length data) n d4, dev := dv\<rparr>)"
proof -
  obtain d4 v4 where 4: "ensure_parents ops name fs3 = fs3\<lparr>dir := d4, dev := v4\<rparr>"
      "dir_ext name (dir fs3) d4" "dev_upd sec nsec (dir_area fs3) (dev fs3) v4"
      "dir_sync sec (fs3\<lparr>dir := d4, dev := v4\<rparr>)" "geom_ok nsec (fs3\<lparr>dir := d4, dev := v4\<rparr>)"
    using ensure_parents_effect [OF g ds nm] by blast
  define d5 where "d5 = set_entry slot name K_FILE 1 start (length data) n d4"
  have d5: "dir_ok d5" using 4(5) i by (simp add: d5_def geom_ok_def)
  have dj: "bm_area fs3 \<inter> dir_area fs3 = {}" by (rule data_area_disjoint(3) [OF g])
  have "bm_sync sec (fs3\<lparr>dev := v4\<rparr>) (bm_secs start n)"
    using bs g 4(3) by (rule bm_sync_dev) (use dj in blast)
  then have "bm_sync sec (fs3\<lparr>dir := d5, dev := v4\<rparr>) (bm_secs start n)" by (simp add: bm_sync_def)
  moreover have g5: "geom_ok nsec (fs3\<lparr>dir := d5, dev := v4\<rparr>)"
    using 4(5) d5 by (simp add: geom_ok_def)
  ultimately obtain v6 where 6: "flush_bitmap_range ops start n (fs3\<lparr>dir := d5, dev := v4\<rparr>)
        = fs3\<lparr>dir := d5, dev := v6\<rparr>" "dev_upd sec nsec (bm_area fs3) v4 v6"
      "bm_sync sec (fs3\<lparr>dir := d5, dev := v6\<rparr>) {}"
    using flush_bitmap_range_effect [of "fs3\<lparr>dir := d5, dev := v4\<rparr>" start n] n
    by (auto simp: bm_area_def)
  have s6: "dir_sync sec (fs3\<lparr>dir := d4, dev := v6\<rparr>)"
    using dir_sync_dev [OF 4(4,5), of "bm_area fs3" v6] 6(2) dj by (simp add: dir_area_def bm_area_def)
  have g6: "geom_ok nsec (fs3\<lparr>dir := d5, dev := v6\<rparr>)"
    using geom_dev [OF g5, of sec "bm_area fs3" v6] 6(2) by simp
  obtain v7 where 7: "flush_dir_entry ops slot (fs3\<lparr>dir := d5, dev := v6\<rparr>) = fs3\<lparr>dir := d5, dev := v7\<rparr>"
      "dev_upd sec nsec (dir_area fs3) v6 v7" "dir_sync sec (fs3\<lparr>dir := d5, dev := v7\<rparr>)"
      "geom_ok nsec (fs3\<lparr>dir := d5, dev := v7\<rparr>)"
  proof -
    have d4: "dir_ok d4" using 4(5) by (simp add: geom_ok_def)
    obtain e where e: "length e = ENTRY_SZ" "d5 = blit d4 (slot * ENTRY_SZ) e"
      using set_entry_is_blit [OF d4 i] unfolding d5_def by blast
    have "dir_sync sec (fs3\<lparr>dir := d5, dev := v6\<rparr>\<lparr>dir := d4\<rparr>)"
      using s6 by (simp add: dir_sync_def)
    from set_entry_final [OF g6 this i d4 _ e(1)] e(2) that
    show thesis by (auto simp: dir_area_def)
  qed
  have "bm_sync sec (fs3\<lparr>dir := d5, dev := v7\<rparr>) {}"
    using bm_sync_dev [OF 6(3) g6, of "dir_area fs3" v7] 7(2) dj
    by (simp add: bm_area_def Int_commute)
  moreover have "dev_upd sec nsec (bm_area fs3 \<union> dir_area fs3) (dev fs3) v7"
    by (rule dev_upd_trans [OF dev_upd_trans [OF 4(3) 6(2) subset_refl] 7(2)]) blast
  moreover have comm: "fs3\<lparr>dev := v4, dir := d5\<rparr> = fs3\<lparr>dir := d5, dev := v4\<rparr>" by simp
  moreover have "write_tail slot name data start n fs3 = fs3\<lparr>dir := d5, dev := v7\<rparr>"
    using 6(1) 7(1) by (simp add: write_tail_def Let_def 4(1) d5_def [symmetric] comm)
  ultimately show ?thesis
    using 4(2) 7(3,4) unfolding d5_def by blast
qed

text \<open>
  Retiring an entry: the blocks of \<open>slot\<close> are already released in the state \<open>fs1\<close>; the entry
  becomes inactive and the directory sector is written back.
\<close>

lemma retire_entry:
  assumes inv: "fs_inv sec nsec fs"
    and slot: "slot < DIR_ENTRIES" "\<And>j. active (dir fs) j \<Longrightarrow> e_name (dir fs) j = name \<longleftrightarrow> j = slot"
    and fs1: "fs1 = fs\<lparr>bitmap := bm, dev := dv\<rparr>" "length bm = length (bitmap fs)"
      "alloc_on (total_blocks fs) bm (dir fs) (files (dir fs) - {slot})"
      "bm_sync sec fs1 {}" "dev_upd sec nsec (bm_area fs) (dev fs) dv"
    and e: "length e = ENTRY_SZ" "d' = blit (dir fs) (slot * ENTRY_SZ) e" "\<not> active d' slot"
  shows "fs_inv sec nsec (flush_dir_entry ops slot (fs1\<lparr>dir := d'\<rparr>)) \<and>
    lookup sec (flush_dir_entry ops slot (fs1\<lparr>dir := d'\<rparr>)) = (lookup sec fs)(name := None)"
proof -
  have g: "geom_ok nsec fs" and a: "alloc_ok (total_blocks fs) (bitmap fs) (dir fs)"
    and n: "names_ok (dir fs)" and sb: "sec (dev fs) (base fs) = super_block (total_blocks fs) (bitmap_sectors fs)"
    and ds: "dir_sync sec fs" and r: "ready fs"
    using inv by (auto simp: fs_inv_def)
  have d: "dir_ok (dir fs)" "dir_ok d'" using g e entry_in_dir [OF slot(1)] by (auto simp: geom_ok_def)
  have g1: "geom_ok nsec fs1" using g fs1(2,5) by (simp add: geom_ok_def dev_upd_def fs1(1))
  have dj: "bm_area fs \<inter> dir_area fs = {}" by (rule data_area_disjoint(3) [OF g])
  have "dir_sync sec (fs\<lparr>dev := dv\<rparr>)" using ds g fs1(5) dj by (rule dir_sync_dev)
  then have ds1: "dir_sync sec fs1" by (simp add: dir_sync_def fs1(1))
  obtain v where v: "flush_dir_entry ops slot (fs1\<lparr>dir := d'\<rparr>) = fs1\<lparr>dir := d', dev := v\<rparr>"
      "dev_upd sec nsec (dir_area fs) dv v" "dir_sync sec (fs1\<lparr>dir := d', dev := v\<rparr>)"
      "geom_ok nsec (fs1\<lparr>dir := d', dev := v\<rparr>)"
    using put_entry_effect [OF g1 ds1 slot(1) e(1), of d'] e(2) by (auto simp: fs1(1) dir_area_def)
  have up: "dev_upd sec nsec (bm_area fs \<union> dir_area fs) (dev fs) v"
    by (rule dev_upd_trans [OF fs1(5) v(2)]) simp
  have same: "ent d' j = ent (dir fs) j" if "j < DIR_ENTRIES" "j \<noteq> slot" for j
    using ent_blit [OF d(1) slot(1) that(1) e(1)] that(2) e(2) by simp
  have act: "active d' j \<longleftrightarrow> active (dir fs) j \<and> j \<noteq> slot" for j
    using same_ent_fields(7) [OF same d] e(3) by (cases "j = slot") (auto simp: active_def)
  have fld: "e_name d' j = e_name (dir fs) j" "e_start d' j = e_start (dir fs) j"
      "e_size d' j = e_size (dir fs) j" "e_nblocks d' j = e_nblocks (dir fs) j"
      "e_kind d' j = e_kind (dir fs) j" if "active (dir fs) j" "j \<noteq> slot" for j
    using same_ent_fields [OF same d, of j] that by (auto simp: active_def)
  have fl: "files d' = files (dir fs) - {slot}"
    using act fld(5) by (auto simp: files_def is_file_def)
  have nm': "names_ok d'" using n act fld(1) unfolding names_ok_def by metis
  let ?f = "fs1\<lparr>dir := d', dev := v\<rparr>"
  have "alloc_on (total_blocks fs) bm d' (files d')"
    using fs1(3) alloc_on_cong [of "files (dir fs) - {slot}" d' "dir fs"] fld fl
    by (auto simp: files_def is_file_def)
  moreover have "sec v (base fs) = sec (dev fs) (base fs)"
    using up data_area_disjoint(4) [OF g, of 0 0] g by (auto simp: dev_upd_def geom_ok_def)
  moreover have "bm_sync sec (fs1\<lparr>dev := v\<rparr>) {}"
    using bm_sync_dev [OF fs1(4) g1, of "dir_area fs" v] v(2) dj
    by (simp add: fs1(1) bm_area_def Int_commute)
  then have "bm_sync sec ?f {}" by (simp add: bm_sync_def)
  ultimately have inv': "fs_inv sec nsec ?f"
    using v(3,4) nm' r sb by (simp add: fs_inv_def fs1(1))
  have cont: "content sec ?f j = content sec fs j" if "j \<in> files (dir fs) - {slot}" for j
  proof (rule content_stable [OF g up])
    show "(bm_area fs \<union> dir_area fs) \<inter> data_area fs (e_start (dir fs) j) (e_nblocks (dir fs) j) = {}"
      using data_area_disjoint [OF g] by blast
    show "e_start (dir fs) j + e_nblocks (dir fs) j \<le> total_blocks fs"
      using a that by (auto simp: alloc_on_def)
  qed (use that fld in \<open>auto simp: fs1(1) files_def is_file_def\<close>)
  have "lookup sec ?f = (lookup sec fs)(name := None)"
    by (rule lookup_drop [where i = slot])
      (use n nm' fl cont fld slot(2) in \<open>auto simp: files_def is_file_def\<close>)
  with inv' show ?thesis by (simp add: v(1))
qed

section \<open>Writing a file\<close>

lemma write_success:
  assumes inv: "fs_inv sec nsec fs" and nm: "good_name name" and len: "length data \<le> MAX_FILE"
    and c: "claim_slot ops name fs = Some (slot, fs1)"
    and al: "alloc_run (blocks_for data) fs1 = (Some start, fs2)"
  shows "\<exists>fs3. write_loop ops data start (blocks_for data) 0 0 fs2 = (True, fs3) \<and>
    fs_inv sec nsec (write_tail slot name data start (blocks_for data) fs3) \<and>
    lookup sec (write_tail slot name data start (blocks_for data) fs3) = (lookup sec fs)(name \<mapsto> data)"
proof -
  define n where "n = blocks_for data"
  note bl = blocks_for_bounds [OF len, folded n_def]
  note cl = claim_slot_effect [OF inv c]
  have g: "geom_ok nsec fs" and a: "alloc_ok (total_blocks fs) (bitmap fs) (dir fs)"
    and n: "names_ok (dir fs)" and sb: "sec (dev fs) (base fs) = super_block (total_blocks fs) (bitmap_sectors fs)"
    and ds: "dir_sync sec fs" and r: "ready fs"
    using inv by (auto simp: fs_inv_def)
  obtain bm dv where fs1: "fs1 = fs\<lparr>bitmap := bm, dev := dv\<rparr>" "length bm = length (bitmap fs)"
      "alloc_on (total_blocks fs) bm (dir fs) (files (dir fs) - {slot})" "bm_sync sec fs1 {}"
      "dev_upd sec nsec (bm_area fs) (dev fs) dv"
    using cl(4) by blast
  have scan: "alloc_scan bm n [0..<total_blocks fs] 0 0 = Some start"
    and fs2': "fs2 = fs1\<lparr>bitmap := set_bits bm [start..<u32_add start n]\<rparr>"
    using al bl(1) by (auto simp: alloc_run_def n_def fs1(1) split: option.splits)
  have run: "start + n \<le> total_blocks fs" "free_range bm start n"
    using alloc_scan_Some [OF scan bl(1)] by auto
  have tb: "total_blocks fs < 4294967296" "data_lba fs + total_blocks fs \<le> nsec (dev fs)"
      "length (scratch fs) = SCRATCH_SECTORS * SECTOR" "dir_ok (dir fs)"
      "total_blocks fs \<le> 8 * length bm"
    using g fs1(2) by (auto simp: geom_ok_def SECTOR_def)
  define bm2 where "bm2 = set_bits bm [start..<start + n]"
  have fs2: "fs2 = fs\<lparr>bitmap := bm2, dev := dv\<rparr>"
    using fs2' run(1) tb(1) by (simp add: fs1(1) bm2_def)
  have nv: "nsec dv = nsec (dev fs)" using fs1(5) by (simp add: dev_upd_def)
  have "data_lba fs2 + start + n \<le> nsec (dev fs2)" "start + n < 4294967296"
    using tb run(1) nv by (auto simp: fs2)
  from write_loop_effect [OF bl(3), of fs2 start 0] this tb(3)
  obtain scr v3 where w: "write_loop ops data start n 0 0 fs2 = (True, fs2\<lparr>scratch := scr, dev := v3\<rparr>)"
      "length scr = SCRATCH_SECTORS * SECTOR" "nsec v3 = nsec (dev fs)"
      "\<forall>i < nsec (dev fs). sec v3 i =
          (if data_lba fs + start \<le> i \<and> i < data_lba fs + start + n
           then slice (padded data n) ((i - (data_lba fs + start)) * SECTOR)
                  ((i - (data_lba fs + start)) * SECTOR + SECTOR)
           else sec dv i)"
    by (auto simp: fs2 nv)
  define fs3 where "fs3 = fs\<lparr>bitmap := bm2, scratch := scr, dev := v3\<rparr>"
  have w': "write_loop ops data start n 0 0 fs2 = (True, fs3)" using w(1) by (simp add: fs2 fs3_def)
  have u3: "dev_upd sec nsec (data_area fs start n) dv v3"
    using w(3,4) nv by (auto simp: dev_upd_def data_area_def)
  have u03: "dev_upd sec nsec (bm_area fs \<union> data_area fs start n) (dev fs) v3"
    by (rule dev_upd_trans [OF fs1(5) u3]) simp
  note dj = data_area_disjoint [OF g]
  have g3: "geom_ok nsec fs3"
    using g w(2,3) fs1(2) by (simp add: geom_ok_def fs3_def bm2_def)
  have "dir_sync sec (fs\<lparr>dev := v3\<rparr>)"
    using ds g u03 by (rule dir_sync_dev) (use dj in blast)
  then have ds3: "dir_sync sec fs3" by (simp add: dir_sync_def fs3_def)
  have "bm_sync sec (fs1\<lparr>bitmap := bm2\<rparr>) ({} \<union> bm_secs start n)"
    using fs1(4) by (rule bm_sync_bits) (auto simp: fs1(1) bm2_def set_bits_nth_other)
  moreover have "geom_ok nsec (fs1\<lparr>bitmap := bm2\<rparr>)"
    using g fs1(2) nv by (simp add: geom_ok_def fs1(1) bm2_def)
  ultimately have "bm_sync sec (fs1\<lparr>bitmap := bm2\<rparr>\<lparr>dev := v3\<rparr>) (bm_secs start n)"
    using bm_sync_dev [of sec "fs1\<lparr>bitmap := bm2\<rparr>" "bm_secs start n" nsec "data_area fs start n" v3]
      u3 dj(1) by (simp add: fs1(1) bm_area_def)
  then have bs3: "bm_sync sec fs3 (bm_secs start n)" by (simp add: bm_sync_def fs3_def fs1(1))
  obtain d4 v where t: "write_tail slot name data start n fs3
        = fs3\<lparr>dir := set_entry slot name K_FILE 1 start (length data) n d4, dev := v\<rparr>"
      "dir_ext name (dir fs) d4" "dev_upd sec nsec (bm_area fs \<union> dir_area fs) v3 v"
      "bm_sync sec (fs3\<lparr>dir := set_entry slot name K_FILE 1 start (length data) n d4, dev := v\<rparr>) {}"
      "dir_sync sec (fs3\<lparr>dir := set_entry slot name K_FILE 1 start (length data) n d4, dev := v\<rparr>)"
      "geom_ok nsec (fs3\<lparr>dir := set_entry slot name K_FILE 1 start (length data) n d4, dev := v\<rparr>)"
    using write_tail_effect [OF g3 ds3 bs3 nm cl(1) bl(1)] run(1)
    by (fastforce simp: fs3_def bm_area_def dir_area_def)
  define d5 where "d5 = set_entry slot name K_FILE 1 start (length data) n d4"
  define f where "f = fs3\<lparr>dir := d5, dev := v\<rparr>"
  have d4: "dir_ok d4" using t(2) by (simp add: dir_ext_def)
  have lt: "start < 4294967296" "length data < 4294967296" "n < 4294967296"
    using run(1) tb(1) bl(2) len by (simp_all add: MAX_FILE_def)
  have ext: "e_start d5 j = e_start (dir fs) j \<and> e_size d5 j = e_size (dir fs) j
      \<and> e_nblocks d5 j = e_nblocks (dir fs) j \<and> e_name d5 j = e_name (dir fs) j"
    if "j \<in> files (dir fs) - {slot}" for j
    using that dir_ext_active [OF t(2) tb(4), of j] d4 cl(1) nm lt
    by (auto simp: d5_def files_def is_file_def active_def set_entry_fields)
  have at: "active d5 slot" "e_kind d5 slot = K_FILE" "e_name d5 slot = name"
      "e_start d5 slot = start" "e_size d5 slot = length data" "e_nblocks d5 slot = n"
    using d4 cl(1) nm lt by (simp_all add: d5_def active_def set_entry_fields)
  have "is_file d5 j \<longleftrightarrow> is_file d4 j \<or> j = slot" for j
    using d4 cl(1) at by (cases "j = slot") (auto simp: d5_def is_file_def active_def set_entry_fields K_FILE_def K_DIR_def)
  then have fl: "files d5 = insert slot (files (dir fs))"
    using dir_ext_files [OF t(2) tb(4)] by (auto simp: files_def)
  have "e_name d4 j \<noteq> name" if "active d4 j" "j \<noteq> slot" for j
    using that t(2) cl(2) dir_ext_active [OF t(2) tb(4), of j] unfolding dir_ext_def by (metis less_irrefl)
  then have nm5: "names_ok d5"
    unfolding d5_def using t(2) n d4 cl(1) nm by (intro names_ok_set_entry) (auto simp: dir_ext_def)
  have al5: "alloc_on (total_blocks fs) bm2 d5 (files d5)"
    unfolding fl insert_Diff_single [symmetric, of slot "files (dir fs)"] bm2_def
    using fs1(3) _ tb(5) run(2,1) bl(1,3)
    by (rule alloc_on_claim) (use at ext in auto)
  have u0: "dev_upd sec nsec (bm_area fs \<union> dir_area fs \<union> data_area fs start n) (dev fs) v"
    by (rule dev_upd_trans [OF u03 t(3)]) blast
  have "sec v (base fs) = sec (dev fs) (base fs)"
    using u0 dj(4) [of start n] g by (auto simp: dev_upd_def geom_ok_def)
  then have inv': "fs_inv sec nsec f"
    using t(4-6) al5 nm5 r sb by (simp add: fs_inv_def f_def d5_def fs3_def)
  have cont: "content sec f j = content sec fs j" if "j \<in> files (dir fs) - {slot}" for j
  proof (rule content_stable [OF g u0])
    have "{start ..< start + n} \<inter> extent (dir fs) j = {}"
    proof -
      have "extent d5 slot \<inter> extent d5 j = {}"
        using al5 that unfolding alloc_on_def fl by blast
      then show ?thesis using at ext [OF that] by (simp add: extent_def)
    qed
    then show "(bm_area fs \<union> dir_area fs \<union> data_area fs start n)
        \<inter> data_area fs (e_start (dir fs) j) (e_nblocks (dir fs) j) = {}"
      by (rule metadata_disjoint [OF g])
    show "e_start (dir fs) j + e_nblocks (dir fs) j \<le> total_blocks fs"
      using a that by (auto simp: alloc_on_def)
  qed (use ext [OF that] in \<open>auto simp: f_def fs3_def\<close>)
  have "region sec v (data_lba fs + start) n = padded data n"
  proof (rule region_eqI)
    have nv': "nsec v = nsec (dev fs)" using u0 by (simp add: dev_upd_def)
    then show "data_lba fs + start + n \<le> nsec v" using tb(2) run(1) by linarith
    show "length (padded data n) = n * SECTOR" using bl(3) by simp
    fix i assume i: "i < n"
    then have k: "data_lba fs + start + i < nsec (dev fs)" using tb(2) run(1) by linarith
    have "data_lba fs + start + i \<in> data_area fs start n" using i by (simp add: data_area_def)
    then have "sec v (data_lba fs + start + i) = sec v3 (data_lba fs + start + i)"
      using t(3) k w(3) dj(1,2) [of start n] unfolding dev_upd_def by (metis Un_iff disjoint_iff)
    then show "sec v (data_lba fs + start + i) = slice (padded data n) (i * SECTOR) (i * SECTOR + SECTOR)"
      using w(4) k i by simp
  qed
  then have cs: "content sec f slot = data" using at by (simp add: content_def f_def fs3_def)
  have "lookup sec f = (lookup sec fs)(name \<mapsto> data)"
    by (rule lookup_put [where i = slot])
      (use n nm5 fl cont ext at cs cl(2,3) in \<open>auto simp: f_def files_def is_file_def\<close>)
  then show ?thesis
    using w' inv' t(1) unfolding n_def f_def d5_def by auto
qed

lemma claim_slot_None_lookup:
  "claim_slot ops name fs = None \<Longrightarrow> lookup sec fs name = None"
  by (auto simp: claim_slot_def lookup_def Let_def split: option.splits if_splits)

lemma write_no_room:
  assumes inv: "fs_inv sec nsec fs" and nm: "good_name name"
    and c: "claim_slot ops name fs = Some (slot, fs1)"
  defines "fs' \<equiv> flush_dir_entry ops slot (fs1\<lparr>dir := set_entry slot name K_FILE (-1) 0 0 0 (dir fs1)\<rparr>)"
  shows "fs_inv sec nsec fs' \<and> lookup sec fs' = (lookup sec fs)(name := None)"
proof -
  note cl = claim_slot_effect [OF inv c]
  obtain bm dv where fs1: "fs1 = fs\<lparr>bitmap := bm, dev := dv\<rparr>" "length bm = length (bitmap fs)"
      "alloc_on (total_blocks fs) bm (dir fs) (files (dir fs) - {slot})" "bm_sync sec fs1 {}"
      "dev_upd sec nsec (bm_area fs) (dev fs) dv"
    using cl(4) by blast
  have d: "dir_ok (dir fs)" using inv by (simp add: fs_inv_def geom_ok_def)
  obtain e where e: "length e = ENTRY_SZ"
      "set_entry slot name K_FILE (-1) 0 0 0 (dir fs) = blit (dir fs) (slot * ENTRY_SZ) e"
    using set_entry_is_blit [OF d cl(1)] by blast
  have "\<not> active (set_entry slot name K_FILE (-1) 0 0 0 (dir fs)) slot"
    using d cl(1) by (simp add: active_def set_entry_fields)
  from retire_entry [OF inv cl(1,2) fs1 e(1) refl this [unfolded e(2)]] e(2)
  show ?thesis by (simp add: fs'_def fs1(1))
qed

text \<open>
  \<open>write_file\<close> keeps the invariant and is an update of the file map, whatever its outcome: on
  success the file holds the data; on failure the name is left without a file and every other
  file is untouched.
\<close>

lemma write_file_spec:
  assumes inv: "fs_inv sec nsec fs" and nm: "good_name name" and len: "length data \<le> MAX_FILE"
    and w: "write_file ops name data fs = (done_ok, fs')"
  shows "fs_inv sec nsec fs'
     \<and> lookup sec fs' = (lookup sec fs)(name := if done_ok then Some data else None)"
proof -
  have guard: "\<not> (\<not> ready fs \<or> name = [] \<or> length name > MAX_NAME \<or> length data > MAX_FILE)"
    using inv nm len by (auto simp: fs_inv_def good_name_def)
  show ?thesis
  proof (cases "claim_slot ops name fs")
    case None
    then have "done_ok = False" "fs' = fs" using w guard by (auto simp: write_file_def)
    then show ?thesis using inv claim_slot_None_lookup [OF None] by (simp add: fun_upd_idem)
  next
    case (Some c)
    then obtain slot fs1 where c: "claim_slot ops name fs = Some (slot, fs1)" by (cases c) auto
    obtain r fs2 where al: "alloc_run (blocks_for data) fs1 = (r, fs2)" by fastforce
    show ?thesis
    proof (cases r)
      case None
      then have "fs2 = fs1"
        using al by (auto simp: alloc_run_def split: if_splits option.splits)
      then show ?thesis
        using w guard write_no_room [OF inv nm c] by (auto simp: write_file_def c al None Let_def)
    next
      case (Some start)
      from write_success [OF inv nm len c al [unfolded Some]]
      show ?thesis
        using w guard blocks_for_bounds(4) [OF len]
        by (auto simp: write_file_def c al Some Let_def write_tail_def)
    qed
  qed
qed

text \<open>When there is a slot for the name and room for the data, the write succeeds.\<close>

lemma write_file_succeeds:
  assumes inv: "fs_inv sec nsec fs" and nm: "good_name name" and len: "length data \<le> MAX_FILE"
    and slot: "case find_entry (dir fs) name of Some i \<Rightarrow> e_kind (dir fs) i \<noteq> K_DIR
               | None \<Rightarrow> free_slot (dir fs) \<noteq> None"
    and room: "free_range (bitmap fs) s (blocks_for data)" "s + blocks_for data \<le> total_blocks fs"
  shows "fst (write_file ops name data fs)"
proof -
  have guard: "\<not> (\<not> ready fs \<or> name = [] \<or> length name > MAX_NAME \<or> length data > MAX_FILE)"
    using inv nm len by (auto simp: fs_inv_def good_name_def)
  obtain c where "claim_slot ops name fs = Some c"
    using slot by (auto simp: claim_slot_def Let_def split: option.splits)
  then obtain sl fs1 where c: "claim_slot ops name fs = Some (sl, fs1)" by (cases c) auto
  from claim_slot_effect(4) [OF inv c]
  have "free_range (bitmap fs1) s (blocks_for data)" "total_blocks fs1 = total_blocks fs"
    using room by auto
  then have "alloc_scan (bitmap fs1) (blocks_for data) [0..<total_blocks fs1] 0 0 \<noteq> None"
    using alloc_scan_None blocks_for_bounds(1) [OF len] room(2) by metis
  then obtain start fs2 where al: "alloc_run (blocks_for data) fs1 = (Some start, fs2)"
    using blocks_for_bounds(1) [OF len] by (auto simp: alloc_run_def)
  show ?thesis
    using write_success [OF inv nm len c al] guard
    by (auto simp: write_file_def c al Let_def)
qed

section \<open>Reading, deleting, making directories\<close>

lemma read_file_spec:
  assumes inv: "fs_inv sec nsec fs"
  shows "\<exists>scr. length scr = SCRATCH_SECTORS * SECTOR \<and> read_file ops name out fs =
    (case lookup sec fs name of
       None \<Rightarrow> (None, out, fs)
     | Some data \<Rightarrow>
         (Some (min (length data) (length out)),
          take (min (length data) (length out)) data @ drop (min (length data) (length out)) out,
          fs\<lparr>scratch := scr\<rparr>))"
proof -
  have g: "geom_ok nsec fs" and a: "alloc_ok (total_blocks fs) (bitmap fs) (dir fs)"
    and r: "ready fs" using inv by (auto simp: fs_inv_def)
  show ?thesis
  proof (cases "lookup sec fs name")
    case None
    then have "read_file ops name out fs = (None, out, fs)"
      by (auto simp: read_file_def lookup_def split: option.splits if_splits)
    then show ?thesis using None g by (intro exI [where x = "scratch fs"]) (simp add: geom_ok_def)
  next
    case (Some data)
    then obtain i where i: "find_entry (dir fs) name = Some i" "e_kind (dir fs) i \<noteq> K_DIR"
        "data = content sec fs i"
      by (auto simp: lookup_def split: option.splits if_splits)
    have "i \<in> files (dir fs)" using find_entry_Some [OF i(1)] i(2) by (simp add: files_def is_file_def)
    then have e: "0 < e_nblocks (dir fs) i" "e_start (dir fs) i + e_nblocks (dir fs) i \<le> total_blocks fs"
        "e_size (dir fs) i \<le> e_nblocks (dir fs) i * SECTOR"
      using a by (auto simp: alloc_on_def)
    have b: "length (scratch fs) = SCRATCH_SECTORS * SECTOR"
        "data_lba fs + e_start (dir fs) i + e_nblocks (dir fs) i \<le> nsec (dev fs)"
        "e_start (dir fs) i + e_nblocks (dir fs) i < 4294967296"
      using g e(2) by (auto simp: geom_ok_def)
    define c where "c = region sec (dev fs) (data_lba fs + e_start (dir fs) i) (e_nblocks (dir fs) i)"
    have ld: "length data = e_size (dir fs) i" "data = take (e_size (dir fs) i) c"
      using b(2) e(3) by (simp_all add: i(3) content_def c_def)
    have tk: "take (min (length data) (length out)) data = take (min (length data) (length out)) c"
      unfolding ld(2) by (simp add: min_def)
    from read_loop_effect [OF b(1-3) e(3,1), of out]
    obtain scr where "read_loop ops (e_start (dir fs) i) (e_size (dir fs) i) (e_nblocks (dir fs) i) 0 0 0 out fs
        = (Some (min (length data) (length out)),
           take (min (length data) (length out)) c @ drop (min (length data) (length out)) out,
           fs\<lparr>scratch := scr\<rparr>)" "length scr = SCRATCH_SECTORS * SECTOR"
      by (auto simp: ld(1) c_def)
    then show ?thesis
      using i(1,2) r tk Some by (intro exI [where x = scr]) (simp add: read_file_def)
  qed
qed

lemma delete_file_spec:
  assumes inv: "fs_inv sec nsec fs" and d: "delete_file ops name fs = (done_ok, fs')"
  shows "fs_inv sec nsec fs'
     \<and> lookup sec fs' = (if done_ok then (lookup sec fs)(name := None) else lookup sec fs)"
proof (cases "done_ok")
  case False
  then have "fs' = fs" using d by (auto simp: delete_file_def Let_def split: option.splits if_splits)
  then show ?thesis using inv False by simp
next
  case True
  have n: "names_ok (dir fs)" and a: "alloc_ok (total_blocks fs) (bitmap fs) (dir fs)"
    and bs: "bm_sync sec fs {}" and g: "geom_ok nsec fs" and dk: "dir_ok (dir fs)"
    using inv by (auto simp: fs_inv_def geom_ok_def)
  from True d obtain i where i: "find_entry (dir fs) name = Some i"
    by (auto simp: delete_file_def split: option.splits if_splits)
  define fs1 where "fs1 = (if e_kind (dir fs) i = K_DIR then fs
      else flush_bitmap_range ops (e_start (dir fs) i) (e_nblocks (dir fs) i)
             (free_run (e_start (dir fs) i) (e_nblocks (dir fs) i) fs))"
  have fs': "fs' = flush_dir_entry ops i (fs1\<lparr>dir := (dir fs1)[i * ENTRY_SZ + 112 := -1]\<rparr>)"
    using d True i by (auto simp: delete_file_def fs1_def Let_def split: if_splits)
  have act: "active (dir fs) i" "e_name (dir fs) i = name" using find_entry_Some [OF i] by auto
  have lt: "i < DIR_ENTRIES" using act(1) by (simp add: active_def)
  have u: "e_name (dir fs) j = name \<longleftrightarrow> j = i" if "active (dir fs) j" for j
    using that act n by (auto simp: names_ok_def)
  have "\<exists>bm dv. fs1 = fs\<lparr>bitmap := bm, dev := dv\<rparr> \<and> length bm = length (bitmap fs) \<and>
      alloc_on (total_blocks fs) bm (dir fs) (files (dir fs) - {i}) \<and>
      bm_sync sec fs1 {} \<and> dev_upd sec nsec (bm_area fs) (dev fs) dv"
  proof (cases "e_kind (dir fs) i = K_DIR")
    case True
    then have "i \<notin> files (dir fs)" "fs1 = fs" by (auto simp: files_def is_file_def fs1_def)
    then show ?thesis
      using a bs by (intro exI [where x = "bitmap fs"] exI [where x = "dev fs"]) simp
  next
    case False
    then have "claim_slot ops name fs = Some (i, fs1)" by (simp add: claim_slot_def i fs1_def Let_def)
    from claim_slot_effect(4) [OF inv this] show ?thesis by blast
  qed
  then obtain bm dv where fs1: "fs1 = fs\<lparr>bitmap := bm, dev := dv\<rparr>" "length bm = length (bitmap fs)"
      "alloc_on (total_blocks fs) bm (dir fs) (files (dir fs) - {i})"
      "bm_sync sec fs1 {}" "dev_upd sec nsec (bm_area fs) (dev fs) dv" by blast
  obtain e where e: "length e = ENTRY_SZ" "(dir fs)[i * ENTRY_SZ + 112 := -1] = blit (dir fs) (i * ENTRY_SZ) e"
    using tombstone_is_blit [OF dk lt] by blast
  have "\<not> active ((dir fs)[i * ENTRY_SZ + 112 := -1]) i"
    using tombstone_fields(1) [OF dk lt lt] by (simp add: active_def)
  from retire_entry [OF inv lt u fs1 e(1) refl this [unfolded e(2)]] e(2)
  show ?thesis using True by (simp add: fs' fs1(1))
qed

text \<open>Growing the directory by directories keeps the invariant and the files.\<close>

lemma grow_dir:
  assumes inv: "fs_inv sec nsec fs" and x: "dir_ext name (dir fs) d'"
    and u: "dev_upd sec nsec (dir_area fs) (dev fs) dv"
    and s: "dir_sync sec (fs\<lparr>dir := d', dev := dv\<rparr>)" "geom_ok nsec (fs\<lparr>dir := d', dev := dv\<rparr>)"
  shows "fs_inv sec nsec (fs\<lparr>dir := d', dev := dv\<rparr>) \<and>
    lookup sec (fs\<lparr>dir := d', dev := dv\<rparr>) = lookup sec fs"
proof -
  have g: "geom_ok nsec fs" and a: "alloc_ok (total_blocks fs) (bitmap fs) (dir fs)"
    and n: "names_ok (dir fs)" and sb: "sec (dev fs) (base fs) = super_block (total_blocks fs) (bitmap_sectors fs)"
    and bs: "bm_sync sec fs {}" and r: "ready fs" and d: "dir_ok (dir fs)"
    using inv by (auto simp: fs_inv_def geom_ok_def)
  have fl: "files d' = files (dir fs)" by (rule dir_ext_files [OF x d])
  have fld: "e_start d' j = e_start (dir fs) j \<and> e_size d' j = e_size (dir fs) j
      \<and> e_nblocks d' j = e_nblocks (dir fs) j \<and> e_name d' j = e_name (dir fs) j"
    if "j \<in> files (dir fs)" for j
    using that dir_ext_active [OF x d, of j] by (simp add: files_def is_file_def)
  have n': "names_ok d'" using x n by (simp add: dir_ext_def)
  have a': "alloc_on (total_blocks fs) (bitmap fs) d' (files d')"
    using a alloc_on_cong [of "files (dir fs)" d' "dir fs"] fld fl by simp
  note dj = data_area_disjoint [OF g]
  have "bm_sync sec (fs\<lparr>dev := dv\<rparr>) {}" using bs g u by (rule bm_sync_dev) (use dj in blast)
  moreover have "sec dv (base fs) = sec (dev fs) (base fs)"
    using u dj(4) g by (auto simp: dev_upd_def geom_ok_def)
  ultimately have inv': "fs_inv sec nsec (fs\<lparr>dir := d', dev := dv\<rparr>)"
    using s n' a' sb r by (simp add: fs_inv_def bm_sync_def)
  have cont: "content sec (fs\<lparr>dir := d', dev := dv\<rparr>) j = content sec fs j" if "j \<in> files (dir fs)" for j
  proof (rule content_stable [OF g u])
    show "dir_area fs \<inter> data_area fs (e_start (dir fs) j) (e_nblocks (dir fs) j) = {}"
      using dj by blast
    show "e_start (dir fs) j + e_nblocks (dir fs) j \<le> total_blocks fs"
      using a that by (auto simp: alloc_on_def)
  qed (use fld [OF that] in auto)
  have "lookup sec (fs\<lparr>dir := d', dev := dv\<rparr>) = lookup sec fs"
  proof (rule map_eqI)
    fix nm c
    have n'': "names_ok (dir (fs\<lparr>dir := d', dev := dv\<rparr>))" using n' by simp
    show "lookup sec (fs\<lparr>dir := d', dev := dv\<rparr>) nm = Some c \<longleftrightarrow> lookup sec fs nm = Some c"
      unfolding lookup_iff [OF n''] lookup_iff [OF n] using fl fld cont by auto
  qed
  with inv' show ?thesis by simp
qed

lemma mkdir_spec:
  assumes inv: "fs_inv sec nsec fs" and nm: "good_name name" and m: "mkdir ops name fs = (done_ok, fs')"
  shows "fs_inv sec nsec fs' \<and> lookup sec fs' = lookup sec fs
     \<and> (done_ok \<longrightarrow> find_entry (dir fs') name \<noteq> None)"
proof -
  have guard: "\<not> (\<not> ready fs \<or> name = [] \<or> length name > MAX_NAME)"
    using inv nm by (auto simp: fs_inv_def good_name_def)
  have g: "geom_ok nsec fs" "dir_sync sec fs" using inv by (auto simp: fs_inv_def)
  obtain d1 v1 where 1: "ensure_parents ops name fs = fs\<lparr>dir := d1, dev := v1\<rparr>"
      "dir_ext name (dir fs) d1" "dev_upd sec nsec (dir_area fs) (dev fs) v1"
      "dir_sync sec (fs\<lparr>dir := d1, dev := v1\<rparr>)" "geom_ok nsec (fs\<lparr>dir := d1, dev := v1\<rparr>)"
    using ensure_parents_effect [OF g nm] by blast
  define fs1 where "fs1 = fs\<lparr>dir := d1, dev := v1\<rparr>"
  have inv1: "fs_inv sec nsec fs1" "lookup sec fs1 = lookup sec fs"
    using grow_dir [OF inv 1(2-5)] by (auto simp: fs1_def)
  show ?thesis
  proof (cases "find_entry (dir fs1) name = None \<and> free_slot (dir fs1) \<noteq> None")
    case False
    then have "fs' = fs1 \<and> (done_ok \<longrightarrow> find_entry (dir fs1) name \<noteq> None)"
      using m guard 1(1) by (auto simp: mkdir_def Let_def fs1_def [symmetric] split: if_splits)
    then show ?thesis using inv1 by simp
  next
    case True
    then obtain i where i: "free_slot (dir fs1) = Some i" by auto
    define d2 where "d2 = set_entry i name K_DIR 1 0 0 0 (dir fs1)"
    have g1: "geom_ok nsec fs1" "dir_sync sec fs1" and dk: "dir_ok (dir fs1)"
      using inv1 by (auto simp: fs_inv_def geom_ok_def)
    have lt: "i < DIR_ENTRIES" using free_slot_Some [OF i] by simp
    obtain e where e: "length e = ENTRY_SZ" "d2 = blit (dir fs1) (i * ENTRY_SZ) e"
      using set_entry_is_blit [OF dk lt] unfolding d2_def by blast
    obtain v2 where 2: "flush_dir_entry ops i (fs1\<lparr>dir := d2\<rparr>) = fs1\<lparr>dir := d2, dev := v2\<rparr>"
        "dev_upd sec nsec (dir_area fs1) (dev fs1) v2" "dir_sync sec (fs1\<lparr>dir := d2, dev := v2\<rparr>)"
        "geom_ok nsec (fs1\<lparr>dir := d2, dev := v2\<rparr>)"
      using put_entry_effect [OF g1 lt e] by blast
    have x: "dir_ext (name @ [0]) (dir fs1) d2"
      unfolding d2_def using True dk i nm by (intro dir_ext_new_dir) auto
    have fs': "fs' = fs1\<lparr>dir := d2, dev := v2\<rparr>" "done_ok"
      using m guard 1(1) True i 2(1) by (auto simp: mkdir_def Let_def fs1_def [symmetric] d2_def)
    have "active d2 i" "e_name d2 i = name"
      using dk lt nm by (simp_all add: d2_def active_def set_entry_fields)
    then have "find_entry d2 name \<noteq> None" by (auto simp: find_entry_None)
    then show ?thesis using grow_dir [OF inv1(1) x 2(2-4)] inv1(2) by (simp add: fs')
  qed
qed

end

end
