(* ===== verification/Rpfs_Mount.thy ===== *)
theory Rpfs_Mount
  imports Rpfs_Ops
begin

text \<open>
  Formatting, mounting and the geometry of RPFS. Formatting a device that holds no superblock
  gives an empty filesystem in the invariant; mounting a device that a filesystem in the
  invariant was written to gives that filesystem back.
\<close>

section \<open>Geometry\<close>

lemma tighten_done: "b + n \<le> avail \<Longrightarrow> tighten avail n b = (n, b)"
  by (simp add: tighten.simps)

text \<open>The rounding loop never runs: the first estimate already fits.\<close>

lemma estimate_fits:
  fixes avail :: nat
  defines "n \<equiv> avail * 4096 div 4097"
  shows "(n + 4095) div 4096 + n \<le> avail"
proof -
  have "n * 4097 \<le> avail * 4096" by (simp add: n_def)
  then have "n \<le> (avail - n) * 4096" by (simp add: diff_mult_distrib)
  then have "(n + 4095) div 4096 \<le> ((avail - n) * 4096 + 4095) div 4096" by (intro div_le_mono) simp
  moreover have "((avail - n) * 4096 + 4095) div 4096 = avail - n" by simp
  moreover have "n \<le> avail" using \<open>n * 4097 \<le> avail * 4096\<close> by linarith
  ultimately show ?thesis by linarith
qed

lemma geometry_eq:
  assumes "disk_sectors < 4294967296" "bas + 1 + DIR_SECTORS + 2 \<le> disk_sectors"
  defines "avail \<equiv> disk_sectors - (bas + 1 + DIR_SECTORS)"
  defines "n \<equiv> avail * 4096 div 4097"
  shows "geometry bas disk_sectors = (n, (n + 4095) div 4096)" "0 < n"
proof -
  have av: "2 \<le> avail" "avail < 4294967296" using assms(1,2) by (auto simp: avail_def)
  note fit = estimate_fits [of avail, folded n_def]
  have "2 * 4096 \<le> avail * 4096" using av(1) by simp
  then show pos: "0 < n" unfolding n_def by (simp add: div_greater_zero_iff)
  have "n < 4294967296" "(n + 4095) div 4096 < 4294967296" using fit av(2) by linarith+
  have "0 < (n + 4095) div 4096" using pos by simp
  show "geometry bas disk_sectors = (n, (n + 4095) div 4096)"
  proof -
    have "geometry bas disk_sectors = (case tighten avail n ((n + 4095) div 4096) of
        (data_blocks, bms) \<Rightarrow> (as_u32 data_blocks, as_u32 (max bms 1)))"
    proof -
      have s: "SECTOR * 8 = 4096" "(4096::nat) + 1 = 4097" "n + 4096 - 1 = n + 4095"
        by (simp_all add: SECTOR_def)
      show ?thesis
        unfolding geometry_def Let_def avail_def [symmetric] s(1,2) n_def [symmetric] s(3) ..
    qed
    then show ?thesis
      using tighten_done [OF fit] \<open>n < 4294967296\<close> \<open>(n + 4095) div 4096 < 4294967296\<close>
        \<open>0 < (n + 4095) div 4096\<close> by (simp add: max_def)
  qed
qed

section \<open>The superblock and the empty directory\<close>

lemma length_super_block [simp]: "length (super_block nb bms) = SECTOR"
  by (simp add: super_block_def Let_def SECTOR_def MAGIC_def)

lemma super_block_fields:
  "take 8 (super_block nb bms) = MAGIC" "rd_u32 (super_block nb bms) 8 = VERSION"
  "nb < 4294967296 \<Longrightarrow> rd_u32 (super_block nb bms) 12 = nb"
  "bms < 4294967296 \<Longrightarrow> rd_u32 (super_block nb bms) 16 = bms"
  by (simp_all add: super_block_def Let_def SECTOR_def MAGIC_def VERSION_def rd_wr_same rd_wr_other
      take_wr_other blit_def)

lemma inactive_zero_dir: "i < DIR_ENTRIES \<Longrightarrow> \<not> active (replicate (DIR_ENTRIES * ENTRY_SZ) 0) i"
  using entry_in_dir [of i] by (simp add: active_def e_trit_def ENTRY_SZ_def)

lemma files_zero_dir [simp]: "files (replicate (DIR_ENTRIES * ENTRY_SZ) 0) = {}"
  using inactive_zero_dir by (auto simp: files_def is_file_def active_def)

lemma names_zero_dir [simp]: "names_ok (replicate (DIR_ENTRIES * ENTRY_SZ) 0)"
  using inactive_zero_dir by (auto simp: names_ok_def active_def)

lemma bit_get_zeros: "b div 8 < k \<Longrightarrow> \<not> bit_get (replicate k 0) b"
  by (simp add: bit_get_bit)

lemma lookup_empty: "files (dir fs) = {} \<Longrightarrow> names_ok (dir fs) \<Longrightarrow> lookup sec fs = Map.empty"
  by (rule map_eqI) (simp add: lookup_iff)

section \<open>Writing whole regions\<close>

context block_device
begin

text \<open>One chunk of at most 64 sectors of a memory image \<open>b\<close> that starts at sector \<open>lba\<close>.\<close>

lemma chunk_write:
  assumes "k + m \<le> n" "0 < m" "m \<le> 64" "length b = n * SECTOR" "lba + n \<le> nsec d"
  defines "d' \<equiv> fst (bd_write ops d (lba + k) (as_u16 m) (slice b (k * SECTOR) (k * SECTOR + m * SECTOR)))"
  shows "nsec d' = nsec d" "i < nsec d \<Longrightarrow> sec d' i =
      (if lba + k \<le> i \<and> i < lba + (k + m)
       then slice b ((i - lba) * SECTOR) ((i - lba) * SECTOR + SECTOR) else sec d i)"
proof -
  have le: "k * SECTOR + m * SECTOR \<le> n * SECTOR"
    using mult_le_mono1 [OF assms(1), of SECTOR] by (simp add: add_mult_distrib)
  have x: "xfer_ok nsec d (lba + k) m (slice b (k * SECTOR) (k * SECTOR + m * SECTOR))"
    using assms le by (simp add: xfer_ok_def)
  have u: "as_u16 m = m" using assms(3) by simp
  show "nsec d' = nsec d" using write_nsec [OF x] by (simp add: d'_def u)
  assume i: "i < nsec d"
  have piece: "slice (slice b (k * SECTOR) (k * SECTOR + m * SECTOR))
        ((i - (lba + k)) * SECTOR) ((i - (lba + k)) * SECTOR + SECTOR)
      = slice b ((i - lba) * SECTOR) ((i - lba) * SECTOR + SECTOR)"
    if a: "lba + k \<le> i" "i < lba + (k + m)"
  proof -
    have e: "i - lba = k + (i - (lba + k))" using a by simp
    have "Suc (i - (lba + k)) \<le> m" using a by simp
    then have "(i - (lba + k)) * SECTOR + SECTOR \<le> m * SECTOR"
      using mult_le_mono1 [of "Suc (i - (lba + k))" m SECTOR] by simp
    then show ?thesis unfolding e by (subst slice_slice) (auto simp: add_mult_distrib add.assoc)
  qed
  show "sec d' i = (if lba + k \<le> i \<and> i < lba + (k + m)
       then slice b ((i - lba) * SECTOR) ((i - lba) * SECTOR + SECTOR) else sec d i)"
    using write_sec [OF x i] piece by (simp add: d'_def u add.assoc)
qed

lemma flush_dir_loop_effect:
  assumes "dir_ok (dir fs)" "dir_lba fs + DIR_SECTORS \<le> nsec (dev fs)" "k \<le> DIR_SECTORS"
  shows "\<exists>d'. flush_dir_loop ops k fs = fs\<lparr>dev := d'\<rparr> \<and> nsec d' = nsec (dev fs) \<and>
      (\<forall>i < nsec (dev fs). sec d' i =
        (if dir_lba fs + k \<le> i \<and> i < dir_lba fs + DIR_SECTORS
         then slice (dir fs) ((i - dir_lba fs) * SECTOR) ((i - dir_lba fs) * SECTOR + SECTOR)
         else sec (dev fs) i))"
  using assms
proof (induction "DIR_SECTORS - k" arbitrary: k fs rule: less_induct)
  case less
  show ?case
  proof (cases "k < DIR_SECTORS")
    case False
    then show ?thesis
      by (intro exI [where x = "dev fs"]) (auto simp: flush_dir_loop.simps)
  next
    case True
    define m where "m = min (DIR_SECTORS - k) 64"
    have m: "k + m \<le> DIR_SECTORS" "0 < m" "m \<le> 64" using True by (auto simp: m_def)
    have l: "length (dir fs) = DIR_SECTORS * SECTOR"
      using less.prems(1) by (simp add: DIR_SECTORS_def DIR_ENTRIES_def ENTRY_SZ_def SECTOR_def)
    define d1 where "d1 = fst (bd_write ops (dev fs) (dir_lba fs + k) (as_u16 m)
        (slice (dir fs) (k * SECTOR) (k * SECTOR + m * SECTOR)))"
    note cw = chunk_write [OF m l less.prems(2), folded d1_def]
    have "DIR_SECTORS - (k + m) < DIR_SECTORS - k" using m True by linarith
    from less.hyps [OF this, of "fs\<lparr>dev := d1\<rparr>"] less.prems m(1) cw(1)
    obtain d2 where 2: "flush_dir_loop ops (k + m) (fs\<lparr>dev := d1\<rparr>) = fs\<lparr>dev := d2\<rparr>"
        "nsec d2 = nsec (dev fs)" "\<forall>i < nsec (dev fs). sec d2 i =
        (if dir_lba fs + (k + m) \<le> i \<and> i < dir_lba fs + DIR_SECTORS
         then slice (dir fs) ((i - dir_lba fs) * SECTOR) ((i - dir_lba fs) * SECTOR + SECTOR)
         else sec d1 i)"
      by auto
    have "flush_dir_loop ops k fs = flush_dir_loop ops (k + m) (fs\<lparr>dev := d1\<rparr>)"
      using True by (subst flush_dir_loop.simps) (simp add: Let_def m_def [symmetric] d1_def)
    moreover have "sec d2 i = (if dir_lba fs + k \<le> i \<and> i < dir_lba fs + DIR_SECTORS
         then slice (dir fs) ((i - dir_lba fs) * SECTOR) ((i - dir_lba fs) * SECTOR + SECTOR)
         else sec (dev fs) i)" if "i < nsec (dev fs)" for i
      using 2(3) that cw(2) [OF that] m(1) by (cases "dir_lba fs + (k + m) \<le> i") auto
    ultimately show ?thesis using 2(1,2) by (intro exI [where x = d2]) simp
  qed
qed

lemma flush_bitmap_loop_effect:
  assumes "length (bitmap fs) = bitmap_sectors fs * SECTOR"
    and "bitmap_lba fs + bitmap_sectors fs \<le> nsec (dev fs)" "k \<le> bitmap_sectors fs"
  shows "\<exists>d'. flush_bitmap_loop ops k fs = fs\<lparr>dev := d'\<rparr> \<and> nsec d' = nsec (dev fs) \<and>
      (\<forall>i < nsec (dev fs). sec d' i =
        (if bitmap_lba fs + k \<le> i \<and> i < bitmap_lba fs + bitmap_sectors fs
         then slice (bitmap fs) ((i - bitmap_lba fs) * SECTOR) ((i - bitmap_lba fs) * SECTOR + SECTOR)
         else sec (dev fs) i))"
  using assms
proof (induction "bitmap_sectors fs - k" arbitrary: k fs rule: less_induct)
  case less
  show ?case
  proof (cases "k < bitmap_sectors fs")
    case False
    then show ?thesis
      by (intro exI [where x = "dev fs"]) (auto simp: flush_bitmap_loop.simps)
  next
    case True
    define m where "m = min (bitmap_sectors fs - k) 64"
    have m: "k + m \<le> bitmap_sectors fs" "0 < m" "m \<le> 64" using True by (auto simp: m_def)
    define d1 where "d1 = fst (bd_write ops (dev fs) (bitmap_lba fs + k) (as_u16 m)
        (slice (bitmap fs) (k * SECTOR) (k * SECTOR + m * SECTOR)))"
    note cw = chunk_write [OF m less.prems(1,2), folded d1_def]
    have "bitmap_sectors (fs\<lparr>dev := d1\<rparr>) - (k + m) < bitmap_sectors fs - k" using m True by simp
    from less.hyps [OF this] less.prems m(1) cw(1)
    obtain d2 where 2: "flush_bitmap_loop ops (k + m) (fs\<lparr>dev := d1\<rparr>) = fs\<lparr>dev := d2\<rparr>"
        "nsec d2 = nsec (dev fs)" "\<forall>i < nsec (dev fs). sec d2 i =
        (if bitmap_lba fs + (k + m) \<le> i \<and> i < bitmap_lba fs + bitmap_sectors fs
         then slice (bitmap fs) ((i - bitmap_lba fs) * SECTOR) ((i - bitmap_lba fs) * SECTOR + SECTOR)
         else sec d1 i)"
      by auto
    have "flush_bitmap_loop ops k fs = flush_bitmap_loop ops (k + m) (fs\<lparr>dev := d1\<rparr>)"
      using True by (subst flush_bitmap_loop.simps) (simp add: Let_def m_def [symmetric] d1_def)
    moreover have "sec d2 i = (if bitmap_lba fs + k \<le> i \<and> i < bitmap_lba fs + bitmap_sectors fs
         then slice (bitmap fs) ((i - bitmap_lba fs) * SECTOR) ((i - bitmap_lba fs) * SECTOR + SECTOR)
         else sec (dev fs) i)" if "i < nsec (dev fs)" for i
      using 2(3) that cw(2) [OF that] m(1) by (cases "bitmap_lba fs + (k + m) \<le> i") auto
    ultimately show ?thesis using 2(1,2) by (intro exI [where x = d2]) simp
  qed
qed

text \<open>\<open>load_dir\<close> fills the memory image from the disk.\<close>

lemma load_dir_loop_effect:
  assumes "dir_ok (dir fs)" "dir_lba fs + DIR_SECTORS \<le> nsec (dev fs)" "k \<le> DIR_SECTORS"
  shows "load_dir_loop ops k fs = fs\<lparr>dir := take (k * SECTOR) (dir fs)
      @ drop (k * SECTOR) (region sec (dev fs) (dir_lba fs) DIR_SECTORS)\<rparr>"
  using assms
proof (induction "DIR_SECTORS - k" arbitrary: k fs rule: less_induct)
  case less
  define R where "R = region sec (dev fs) (dir_lba fs) DIR_SECTORS"
  have l: "length (dir fs) = DIR_SECTORS * SECTOR"
    using less.prems(1) by (simp add: DIR_SECTORS_def DIR_ENTRIES_def ENTRY_SZ_def SECTOR_def)
  have lR: "length R = DIR_SECTORS * SECTOR" using less.prems(2) by (simp add: R_def)
  show ?case
  proof (cases "k < DIR_SECTORS")
    case False
    then show ?thesis using less.prems(3) l lR by (simp add: load_dir_loop.simps R_def)
  next
    case True
    define m where "m = min (DIR_SECTORS - k) 64"
    have m: "k + m \<le> DIR_SECTORS" "0 < m" "m \<le> 64" using True by (auto simp: m_def)
    have le: "k * SECTOR + m * SECTOR \<le> DIR_SECTORS * SECTOR"
      using mult_le_mono1 [OF m(1), of SECTOR] by (simp add: add_mult_distrib)
    have x: "xfer_ok nsec (dev fs) (dir_lba fs + k) m (slice (dir fs) (k * SECTOR) (k * SECTOR + m * SECTOR))"
      using less.prems(2) m le l by (simp add: xfer_ok_def)
    define buf where "buf = slice R (k * SECTOR) (k * SECTOR + m * SECTOR)"
    have rs: "region sec (dev fs) (dir_lba fs + k) m = buf"
      unfolding buf_def R_def by (rule region_split [OF m(1) less.prems(2)])
    have u: "as_u16 m = m" using m(3) by simp
    define fs1 where "fs1 = fs\<lparr>dir := blit (dir fs) (k * SECTOR) buf\<rparr>"
    have step: "load_dir_loop ops k fs = load_dir_loop ops (k + m) fs1"
      using True read_law [OF x]
      by (subst load_dir_loop.simps) (simp add: Let_def m_def [symmetric] u rs fs1_def)
    have d1: "dir fs1 = take (k * SECTOR) (dir fs) @ buf @ drop (k * SECTOR + m * SECTOR) (dir fs)"
      using le lR by (simp add: fs1_def blit_def buf_def)
    have "length buf = m * SECTOR" using le lR by (simp add: buf_def)
    then have "dir_ok (dir fs1)" using le l less.prems(1) by (simp add: fs1_def)
    moreover have "DIR_SECTORS - (k + m) < DIR_SECTORS - k" using m True by linarith
    ultimately have "load_dir_loop ops (k + m) fs1
        = fs1\<lparr>dir := take ((k + m) * SECTOR) (dir fs1) @ drop ((k + m) * SECTOR) R\<rparr>"
      using less.hyps [of "k + m" fs1] less.prems m(1) by (simp add: fs1_def R_def)
    moreover have "take ((k + m) * SECTOR) (dir fs1) = take (k * SECTOR) (dir fs) @ buf"
      using le l \<open>length buf = m * SECTOR\<close> less.prems(3) unfolding d1 by (simp add: add_mult_distrib)
    moreover have "buf @ drop ((k + m) * SECTOR) R = drop (k * SECTOR) R"
      by (simp add: buf_def slice_def add_mult_distrib)
        (metis append_take_drop_id drop_drop add.commute)
    ultimately show ?thesis unfolding step R_def [symmetric] by (simp add: fs1_def)
  qed
qed

section \<open>Formatting\<close>

text \<open>The state \<open>open\<close> builds for a geometry that fits the device, once formatted.\<close>

lemma format_effect:
  assumes fit: "bas + 1 + bms + DIR_SECTORS + nb \<le> nsec d" and sz: "nb \<le> bms * 4096" "nb < 4294967296"
      "bms < 4294967296"
  shows "\<exists>dv. format_fs ops (blank_fs d bas nb bms) = (blank_fs d bas nb bms)\<lparr>dev := dv\<rparr> \<and>
      fs_inv sec nsec ((blank_fs d bas nb bms)\<lparr>dev := dv, ready := True\<rparr>) \<and> nsec dv = nsec d"
proof -
  let ?b = "blank_fs d bas nb bms"
  let ?sb = "super_block nb bms"
  have x: "xfer_ok nsec d bas 1 ?sb" using fit by (simp add: xfer_ok_def)
  define d1 where "d1 = fst (bd_write ops d bas 1 ?sb)"
  have d1: "nsec d1 = nsec d" "sec d1 bas = ?sb"
  proof -
    show "nsec d1 = nsec d" using write_nsec [OF x] by (simp add: d1_def)
    have "slice ?sb 0 SECTOR = ?sb" by (metis slice_full length_super_block)
    then show "sec d1 bas = ?sb" using write_sec [OF x, of bas] fit by (simp add: d1_def)
  qed
  have sup: "flush_super ops ?b = ?b\<lparr>dev := d1\<rparr>"
    by (simp add: flush_super_def blank_fs_def d1_def)
  obtain d2 where d2: "flush_bitmap_loop ops 0 (?b\<lparr>dev := d1\<rparr>) = ?b\<lparr>dev := d2\<rparr>" "nsec d2 = nsec d"
      "\<forall>i < nsec d. sec d2 i = (if bas + 1 \<le> i \<and> i < bas + 1 + bms
         then slice (replicate (bms * SECTOR) 0) ((i - (bas + 1)) * SECTOR) ((i - (bas + 1)) * SECTOR + SECTOR)
         else sec d1 i)"
    using flush_bitmap_loop_effect [of "?b\<lparr>dev := d1\<rparr>" 0] fit d1(1) by (auto simp: blank_fs_def)
  obtain d3 where d3: "flush_dir_loop ops 0 (?b\<lparr>dev := d2\<rparr>) = ?b\<lparr>dev := d3\<rparr>" "nsec d3 = nsec d"
      "\<forall>i < nsec d. sec d3 i = (if bas + 1 + bms \<le> i \<and> i < bas + 1 + bms + DIR_SECTORS
         then slice (replicate (DIR_ENTRIES * ENTRY_SZ) 0) ((i - (bas + 1 + bms)) * SECTOR)
                ((i - (bas + 1 + bms)) * SECTOR + SECTOR)
         else sec d2 i)"
    using flush_dir_loop_effect [of "?b\<lparr>dev := d2\<rparr>" 0] fit d2(2) by (auto simp: blank_fs_def)
  have fmt: "format_fs ops ?b = ?b\<lparr>dev := d3\<rparr>"
    using sup d2(1) d3(1)
    by (simp add: format_fs_def Let_def flush_bitmap_all_def flush_dir_all_def blank_fs_def)
  have nb: "nb \<le> 8 * (bms * SECTOR)" using sz(1) by (simp add: SECTOR_def)
  let ?f = "?b\<lparr>dev := d3, ready := True\<rparr>"
  have "geom_ok nsec ?f" using fit sz d3(2) by (simp add: geom_ok_def blank_fs_def)
  moreover have "alloc_ok (total_blocks ?f) (bitmap ?f) (dir ?f)"
    using nb by (auto simp: alloc_on_def blank_fs_def bit_get_zeros)
  moreover have "bm_sync sec ?f {}"
    using d2(3) d3(3) fit by (auto simp: bm_sync_def blank_fs_def)
  moreover have "dir_sync sec ?f"
    using d3(3) fit by (auto simp: dir_sync_def blank_fs_def)
  moreover have "sec d3 bas = ?sb"
    using d2(3) d3(3) d1(2) fit by simp
  ultimately have "fs_inv sec nsec ?f" by (simp add: fs_inv_def blank_fs_def)
  then show ?thesis using fmt d3(2) by blast
qed

lemma open_unformatted:
  assumes big: "bas + 1 + DIR_SECTORS + 2 \<le> disk_sectors" "disk_sectors \<le> nsec d" "disk_sectors < 4294967296"
    and raw: "take 8 (sec d bas) \<noteq> MAGIC \<or> rd_u32 (sec d bas) 8 \<noteq> VERSION"
  shows "fs_inv sec nsec (open_fs ops d bas disk_sectors)
    \<and> lookup sec (open_fs ops d bas disk_sectors) = Map.empty
    \<and> free_blocks (open_fs ops d bas disk_sectors) = total_blocks (open_fs ops d bas disk_sectors)
    \<and> 0 < total_blocks (open_fs ops d bas disk_sectors)"
proof -
  define avail where "avail = disk_sectors - (bas + 1 + DIR_SECTORS)"
  define nb where "nb = avail * 4096 div 4097"
  define bms where "bms = (nb + 4095) div 4096"
  have geo: "geometry bas disk_sectors = (nb, bms)" "0 < nb"
    using geometry_eq [OF big(3,1)] by (simp_all add: nb_def bms_def avail_def)
  have fit: "bms + nb \<le> avail" using estimate_fits [of avail] by (simp add: bms_def nb_def)
  then have f: "bas + 1 + bms + DIR_SECTORS + nb \<le> nsec d" using big by (simp add: avail_def)
  have bms: "nb \<le> bms * 4096" by (simp add: bms_def)
  have lt: "nb < 4294967296" "bms < 4294967296" using fit big(3) by (simp_all add: avail_def)
  have x: "xfer_ok nsec d bas 1 (replicate SECTOR 0)" using big by (simp add: xfer_ok_def)
  have rd: "bd_read ops d bas 1 (replicate SECTOR 0) = (d, True, sec d bas)"
    using read_law [OF x] by (simp add: region_def)
  from format_effect [OF f bms lt]
  obtain dv where dv: "format_fs ops (blank_fs d bas nb bms) = (blank_fs d bas nb bms)\<lparr>dev := dv\<rparr>"
      "fs_inv sec nsec ((blank_fs d bas nb bms)\<lparr>dev := dv, ready := True\<rparr>)" by blast
  have o: "open_fs ops d bas disk_sectors = (blank_fs d bas nb bms)\<lparr>dev := dv, ready := True\<rparr>"
    using raw by (auto simp: open_fs_def rd [unfolded One_nat_def] geo dv(1) Let_def)
  have "lookup sec (open_fs ops d bas disk_sectors) = Map.empty"
    by (rule lookup_empty) (simp_all add: o blank_fs_def)
  moreover have "nb \<le> 8 * (bms * SECTOR)" using bms by (simp add: SECTOR_def)
  then have "filter (\<lambda>b. \<not> bit_get (replicate (bms * SECTOR) 0) b) [0..<nb] = [0..<nb]"
    by (intro filter_True) (auto simp: bit_get_zeros)
  then have "free_blocks (open_fs ops d bas disk_sectors) = nb"
    by (simp add: free_blocks_def o blank_fs_def)
  ultimately show ?thesis using dv(2) geo(2) by (simp add: o blank_fs_def)
qed

section \<open>Mounting again\<close>

lemma open_remount:
  assumes inv: "fs_inv sec nsec fs" and cap: "0 < bitmap_sectors fs" "bitmap_sectors fs \<le> 128"
  shows "open_fs ops (dev fs) (base fs) disk_sectors
       = fs\<lparr>scratch := replicate (SCRATCH_SECTORS * SECTOR) 0\<rparr>"
proof -
  have g: "geom_ok nsec fs" and sb: "sec (dev fs) (base fs) = super_block (total_blocks fs) (bitmap_sectors fs)"
    and bs: "bm_sync sec fs {}" and ds: "dir_sync sec fs" and r: "ready fs"
    using inv by (auto simp: fs_inv_def)
  have gg: "bitmap_lba fs = base fs + 1" "dir_lba fs = base fs + 1 + bitmap_sectors fs"
      "data_lba fs = base fs + 1 + bitmap_sectors fs + DIR_SECTORS"
      "total_blocks fs < 4294967296" "bitmap_sectors fs < 4294967296"
      "base fs + 1 + bitmap_sectors fs + DIR_SECTORS \<le> nsec (dev fs)"
      "length (bitmap fs) = bitmap_sectors fs * SECTOR" "dir_ok (dir fs)"
    using g by (auto simp: geom_ok_def)
  have x: "xfer_ok nsec (dev fs) (base fs) 1 (replicate SECTOR 0)" using gg(6) by (simp add: xfer_ok_def)
  have rd: "bd_read ops (dev fs) (base fs) 1 (replicate SECTOR 0)
      = (dev fs, True, super_block (total_blocks fs) (bitmap_sectors fs))"
    using read_law [OF x] by (simp add: region_def sb)
  have rb: "region sec (dev fs) (base fs + 1) (bitmap_sectors fs) = bitmap fs"
    using bs gg by (intro region_eqI) (auto simp: bm_sync_def)
  have x2: "xfer_ok nsec (dev fs) (base fs + 1) (bitmap_sectors fs) (replicate (bitmap_sectors fs * SECTOR) 0)"
    using gg(6) cap by (simp add: xfer_ok_def)
  have ld: "length (dir fs) = DIR_SECTORS * SECTOR"
    using gg(8) by (simp add: DIR_SECTORS_def DIR_ENTRIES_def ENTRY_SZ_def SECTOR_def)
  have rdir: "region sec (dev fs) (base fs + 1 + bitmap_sectors fs) DIR_SECTORS = dir fs"
    using ds gg ld by (intro region_eqI) (auto simp: dir_sync_def)
  define b where "b = (blank_fs (dev fs) (base fs) (total_blocks fs) (bitmap_sectors fs))\<lparr>bitmap := bitmap fs\<rparr>"
  have "load_dir ops b = b\<lparr>dir := dir fs\<rparr>"
    using load_dir_loop_effect [of b 0] gg(6) rdir by (simp add: load_dir_def b_def blank_fs_def)
  then show ?thesis
    using read_law [OF x2] cap(2) gg r rb
    by (simp add: open_fs_def rd [unfolded One_nat_def] Let_def super_block_fields blank_fs_def b_def)
qed

end

end
