(* ===== verification/Rpfs_Props.thy ===== *)
theory Rpfs_Props
  imports Rpfs_Mount
begin

text \<open>
  What RPFS promises its callers, for every block device that meets the interface
  \<open>block_device\<close>, and the RAM-disk instances that show the promises are not empty. The
  example filesystem is a freshly formatted RAM disk of 700 sectors and the state after one
  file has been written to it.
\<close>

section \<open>The example filesystem\<close>

definition ram_fs :: "ram_disk rpfs" where
  "ram_fs = open_fs ram_dev (ram_new 700) 0 700"

abbreviation ram_inv :: "ram_disk rpfs \<Rightarrow> bool" where
  "ram_inv \<equiv> fs_inv ram_sec ram_nsec"

lemma ram_fs_geometry: "geometry 0 700 = (186, 1)"
  using geometry_eq [of 700 0] by (simp add: DIR_SECTORS_def DIR_ENTRIES_def ENTRY_SZ_def SECTOR_def)

lemma ram_fs_raw: "take 8 (ram_sec (ram_new 700) 0) \<noteq> MAGIC \<or> rd_u32 (ram_sec (ram_new 700) 0) 8 \<noteq> VERSION"
proof -
  have h: "hd (take 8 (ram_sec (ram_new 700) 0)) = 0"
    by (simp add: ram_sec_def ram_new_def SECTOR_def slice_def)
  have "take 8 (ram_sec (ram_new 700) 0) \<noteq> MAGIC"
  proof
    assume "take 8 (ram_sec (ram_new 700) 0) = MAGIC"
    then have "hd MAGIC = 0" using h by metis
    then show False by (simp add: MAGIC_def)
  qed
  then show ?thesis ..
qed

lemma ram_fs_ok:
  "ram_inv ram_fs" "lookup ram_sec ram_fs = Map.empty" "free_blocks ram_fs = total_blocks ram_fs"
proof -
  have big: "0 + 1 + DIR_SECTORS + 2 \<le> 700" "700 \<le> ram_nsec (ram_new 700)" "(700::nat) < 4294967296"
    by (simp_all add: DIR_SECTORS_def DIR_ENTRIES_def ENTRY_SZ_def SECTOR_def ram_nsec_def ram_new_def)
  from ram.open_unformatted [OF big ram_fs_raw]
  show "ram_inv ram_fs" "lookup ram_sec ram_fs = Map.empty" "free_blocks ram_fs = total_blocks ram_fs"
    by (simp_all add: ram_fs_def)
qed

lemma ram_fs_state:
  "\<exists>dv. ram_fs = (blank_fs (ram_new 700) 0 186 1)\<lparr>dev := dv, ready := True\<rparr>"
proof -
  have fit: "0 + 1 + 1 + DIR_SECTORS + 186 \<le> ram_nsec (ram_new 700)"
    by (simp add: DIR_SECTORS_def DIR_ENTRIES_def ENTRY_SZ_def SECTOR_def ram_nsec_def ram_new_def)
  obtain dv where dv: "format_fs ram_dev (blank_fs (ram_new 700) 0 186 1)
      = (blank_fs (ram_new 700) 0 186 1)\<lparr>dev := dv\<rparr>"
    using ram.format_effect [OF fit] by auto
  have x: "xfer_ok ram_nsec (ram_new 700) 0 1 (replicate SECTOR 0)"
    by (simp add: xfer_ok_def ram_nsec_def ram_new_def SECTOR_def)
  have "bd_read ram_dev (ram_new 700) 0 1 (replicate SECTOR 0) = (ram_new 700, True, ram_sec (ram_new 700) 0)"
    using ram.read_law [OF x] by (simp add: region_def)
  then show ?thesis
    using ram_fs_raw
    by (auto simp: ram_fs_def open_fs_def Let_def ram_fs_geometry [unfolded One_nat_def] dv [unfolded One_nat_def])
qed

lemma ram_fs_dir: "dir ram_fs = replicate (DIR_ENTRIES * ENTRY_SZ) 0" "bitmap_sectors ram_fs = 1"
    "base ram_fs = 0" "total_blocks ram_fs = 186" "bitmap ram_fs = replicate SECTOR 0" "ready ram_fs"
proof -
  obtain dv where s: "ram_fs = (blank_fs (ram_new 700) 0 186 1)\<lparr>dev := dv, ready := True\<rparr>"
    using ram_fs_state by blast
  show "dir ram_fs = replicate (DIR_ENTRIES * ENTRY_SZ) 0" "bitmap_sectors ram_fs = 1"
    "base ram_fs = 0" "total_blocks ram_fs = 186" "bitmap ram_fs = replicate SECTOR 0" "ready ram_fs"
    unfolding s by (simp_all add: blank_fs_def)
qed

lemma ram_fs_find: "find_entry (dir ram_fs) name = None" "free_slot (dir ram_fs) \<noteq> None"
proof -
  have "\<not> active (dir ram_fs) i" for i
    using inactive_zero_dir [of i] by (auto simp: ram_fs_dir active_def)
  then show "find_entry (dir ram_fs) name = None" by (simp add: find_entry_None)
  have "e_trit (dir ram_fs) 0 = 0"
    by (simp add: ram_fs_dir e_trit_def DIR_ENTRIES_def ENTRY_SZ_def)
  then show "free_slot (dir ram_fs) \<noteq> None"
    by (auto simp: free_slot_def find_None_iff_upt DIR_ENTRIES_def intro!: exI [where x = 0])
qed

lemma ram_fs_writes:
  assumes "good_name name" "length data \<le> MAX_FILE" "blocks_for data \<le> 186"
  shows "fst (write_file ram_dev name data ram_fs)"
  using ram_fs_ok(1) assms(1,2)
proof (rule ram.write_file_succeeds [where s = 0])
  show "case find_entry (dir ram_fs) name of None \<Rightarrow> free_slot (dir ram_fs) \<noteq> None
      | Some i \<Rightarrow> e_kind (dir ram_fs) i \<noteq> K_DIR"
    using ram_fs_find by simp
  show "free_range (bitmap ram_fs) 0 (blocks_for data)"
    using assms(3) by (auto simp: free_range_def ram_fs_dir SECTOR_def bit_get_zeros)
  show "0 + blocks_for data \<le> total_blocks ram_fs" using assms(3) by (simp add: ram_fs_dir)
qed

definition ram_fs1 :: "ram_disk rpfs" where
  "ram_fs1 = snd (write_file ram_dev [97] [1, 2, 3] ram_fs)"

lemma good_name_a: "good_name [97]" and small_data: "length [1, 2, 3 :: byte] \<le> MAX_FILE"
  and small_blocks: "blocks_for [1, 2, 3] \<le> 186"
  by (simp_all add: good_name_def MAX_NAME_def MAX_FILE_def blocks_for_def SECTOR_def)

lemma ram_fs1_write: "write_file ram_dev [97] [1, 2, 3] ram_fs = (True, ram_fs1)"
  using ram_fs_writes [OF good_name_a small_data small_blocks]
  by (simp add: ram_fs1_def prod_eq_iff)

lemma ram_fs1_ok: "ram_inv ram_fs1" "lookup ram_sec ram_fs1 = [[97] \<mapsto> [1, 2, 3]]"
  using ram.write_file_spec [OF ram_fs_ok(1) good_name_a small_data ram_fs1_write]
  by (simp_all add: ram_fs_ok(2))

section \<open>Writing\<close>

text \<open>
  C1: Whatever \<open>write_file\<close> answers, the filesystem invariant holds afterwards (the
  geometry, unique names, extents disjoint and exactly the used blocks, superblock, bitmap and
  directory on disk equal to memory), and the map from names to contents is the old one
  updated at the written name only: to the data on success, to no file on failure.
\<close>

theorem rpfs_write_refines:
  assumes "block_device ops sec nsec" "fs_inv sec nsec fs"
    and "good_name name" "length data \<le> MAX_FILE"
    and "write_file ops name data fs = (done_ok, fs')"
  shows "fs_inv sec nsec fs'
     \<and> lookup sec fs' = (lookup sec fs)(name := if done_ok then Some data else None)"
  by (rule block_device.write_file_spec [OF assms])

lemma rpfs_write_refines_witness:
  "ram_inv ram_fs1 \<and> lookup ram_sec ram_fs1 = (lookup ram_sec ram_fs)([97] := Some [1, 2, 3])"
  using rpfs_write_refines [OF ram.block_device_axioms ram_fs_ok(1) good_name_a small_data ram_fs1_write]
  by simp

text \<open>
  Writing succeeds whenever the name is not a directory, a directory slot is available
  for it, and some run of free blocks is long enough for the data.
\<close>

theorem rpfs_write_succeeds:
  assumes "block_device ops sec nsec" "fs_inv sec nsec fs"
    and "good_name name" "length data \<le> MAX_FILE"
    and "case find_entry (dir fs) name of Some i \<Rightarrow> e_kind (dir fs) i \<noteq> K_DIR
               | None \<Rightarrow> free_slot (dir fs) \<noteq> None"
    and "free_range (bitmap fs) s (blocks_for data)" "s + blocks_for data \<le> total_blocks fs"
  shows "fst (write_file ops name data fs)"
  by (rule block_device.write_file_succeeds [OF assms])

lemma rpfs_write_succeeds_witness: "fst (write_file ram_dev [98, 47, 99] [7] ram_fs)"
proof (rule rpfs_write_succeeds [OF ram.block_device_axioms ram_fs_ok(1), where s = 5])
  show "good_name [98, 47, 99]" "length [7 :: byte] \<le> MAX_FILE"
    by (simp_all add: good_name_def MAX_NAME_def MAX_FILE_def)
  show "case find_entry (dir ram_fs) [98, 47, 99] of None \<Rightarrow> free_slot (dir ram_fs) \<noteq> None
      | Some i \<Rightarrow> e_kind (dir ram_fs) i \<noteq> K_DIR"
    using ram_fs_find by simp
  show "free_range (bitmap ram_fs) 5 (blocks_for [7])" "5 + blocks_for [7] \<le> total_blocks ram_fs"
    by (auto simp: free_range_def ram_fs_dir SECTOR_def bit_get_zeros blocks_for_def)
qed

section \<open>Reading and deleting\<close>

text \<open>
  C36: \<open>read_file\<close> answers \<open>None\<close> exactly for names that hold no file; for a file it
  returns the number of bytes delivered, the shorter of file and buffer, puts that prefix of
  the content at the front of the buffer, leaves the rest of the buffer alone, and changes
  nothing in the filesystem but its scratch buffer.
\<close>

theorem rpfs_read_returns_content:
  assumes "block_device ops sec nsec" "fs_inv sec nsec fs"
  shows "\<exists>scr. length scr = SCRATCH_SECTORS * SECTOR \<and> read_file ops name out fs =
    (case lookup sec fs name of
       None \<Rightarrow> (None, out, fs)
     | Some data \<Rightarrow>
         (Some (min (length data) (length out)),
          take (min (length data) (length out)) data @ drop (min (length data) (length out)) out,
          fs\<lparr>scratch := scr\<rparr>))"
  by (rule block_device.read_file_spec [OF assms])

lemma rpfs_read_returns_content_witness:
  "fst (read_file ram_dev [97] [9, 9, 9, 9, 9] ram_fs1) = Some 3
   \<and> fst (snd (read_file ram_dev [97] [9, 9, 9, 9, 9] ram_fs1)) = [1, 2, 3, 9, 9]"
  using rpfs_read_returns_content [OF ram.block_device_axioms ram_fs1_ok(1), of "[97]" "[9, 9, 9, 9, 9]"]
  by (auto simp: ram_fs1_ok(2))

text \<open>
  \<open>delete_file\<close> keeps the invariant, and when it answers true the name no longer holds
  a file and every other file is untouched; when it answers false no file changes.
\<close>

theorem rpfs_delete_refines:
  assumes "block_device ops sec nsec" "fs_inv sec nsec fs"
    and "delete_file ops name fs = (done_ok, fs')"
  shows "fs_inv sec nsec fs'
     \<and> lookup sec fs' = (if done_ok then (lookup sec fs)(name := None) else lookup sec fs)"
  by (rule block_device.delete_file_spec [OF assms])

lemma ram_fs1_delete: "fst (delete_file ram_dev [97] ram_fs1)"
proof -
  have "lookup ram_sec ram_fs1 [97] = Some [1, 2, 3]" by (simp add: ram_fs1_ok(2))
  then obtain i where "find_entry (dir ram_fs1) [97] = Some i" "e_kind (dir ram_fs1) i \<noteq> K_DIR"
    by (auto simp: lookup_def split: option.splits if_splits)
  moreover have "ready ram_fs1" using ram_fs1_ok(1) by (simp add: fs_inv_def)
  ultimately show ?thesis by (simp add: delete_file_def Let_def)
qed

lemma rpfs_delete_refines_witness:
  "ram_inv (snd (delete_file ram_dev [97] ram_fs1))
   \<and> lookup ram_sec (snd (delete_file ram_dev [97] ram_fs1)) = Map.empty"
  using rpfs_delete_refines [OF ram.block_device_axioms ram_fs1_ok(1), of "[97]" True] ram_fs1_delete
  by (cases "delete_file ram_dev [97] ram_fs1") (auto simp: ram_fs1_ok(2))

text \<open>
  \<open>mkdir\<close> keeps the invariant and every file, and when it answers true an entry of that
  name exists.
\<close>

theorem rpfs_mkdir_keeps_files:
  assumes "block_device ops sec nsec" "fs_inv sec nsec fs" "good_name name"
    and "mkdir ops name fs = (done_ok, fs')"
  shows "fs_inv sec nsec fs' \<and> lookup sec fs' = lookup sec fs
     \<and> (done_ok \<longrightarrow> find_entry (dir fs') name \<noteq> None)"
  by (rule block_device.mkdir_spec [OF assms])

lemma rpfs_mkdir_keeps_files_witness:
  "lookup ram_sec (snd (mkdir ram_dev [98] ram_fs1)) [97] = Some [1, 2, 3]"
proof -
  have "good_name [98]" by (simp add: good_name_def MAX_NAME_def)
  from rpfs_mkdir_keeps_files [OF ram.block_device_axioms ram_fs1_ok(1) this]
  show ?thesis by (cases "mkdir ram_dev [98] ram_fs1") (auto simp: ram_fs1_ok(2))
qed

section \<open>Mounting\<close>

text \<open>
  Opening a device that carries no RPFS superblock, and is large enough for the directory,
  a bitmap sector and a data block, formats it: the result satisfies the invariant, holds no
  file, and all of its blocks are free.
\<close>

theorem rpfs_open_formats:
  assumes "block_device ops sec nsec"
    and "bas + 1 + DIR_SECTORS + 2 \<le> disk_sectors" "disk_sectors \<le> nsec d" "disk_sectors < 4294967296"
    and "take 8 (sec d bas) \<noteq> MAGIC \<or> rd_u32 (sec d bas) 8 \<noteq> VERSION"
  shows "fs_inv sec nsec (open_fs ops d bas disk_sectors)
    \<and> lookup sec (open_fs ops d bas disk_sectors) = Map.empty
    \<and> free_blocks (open_fs ops d bas disk_sectors) = total_blocks (open_fs ops d bas disk_sectors)
    \<and> 0 < total_blocks (open_fs ops d bas disk_sectors)"
  by (rule block_device.open_unformatted [OF assms])

lemma rpfs_open_formats_witness: "ram_inv (open_fs ram_dev (ram_new 700) 0 700)"
proof -
  have "0 + 1 + DIR_SECTORS + 2 \<le> 700" "700 \<le> ram_nsec (ram_new 700)" "(700::nat) < 4294967296"
    by (simp_all add: DIR_SECTORS_def DIR_ENTRIES_def ENTRY_SZ_def SECTOR_def ram_nsec_def ram_new_def)
  from rpfs_open_formats [OF ram.block_device_axioms this ram_fs_raw] show ?thesis by blast
qed

text \<open>
  C29: Everything is on disk: opening the device a filesystem in the invariant has written
  gives that filesystem back, bit for bit, up to its scratch buffer, as long as the bitmap fits
  one transfer (128 sectors, 256 MiB of data).
\<close>

theorem rpfs_remount_restores:
  assumes "block_device ops sec nsec" "fs_inv sec nsec fs"
    and "0 < bitmap_sectors fs" "bitmap_sectors fs \<le> 128"
  shows "open_fs ops (dev fs) (base fs) disk_sectors
       = fs\<lparr>scratch := replicate (SCRATCH_SECTORS * SECTOR) 0\<rparr>"
  by (rule block_device.open_remount [OF assms])

lemma rpfs_remount_restores_witness:
  "open_fs ram_dev (dev ram_fs) (base ram_fs) 0 = ram_fs\<lparr>scratch := replicate (SCRATCH_SECTORS * SECTOR) 0\<rparr>"
  by (rule rpfs_remount_restores [OF ram.block_device_axioms ram_fs_ok(1)]) (simp_all add: ram_fs_dir)

section \<open>Parent directories of a new file\<close>

lemma dir_flush [simp]:
  "dir (flush_dir_entry ops i fs) = dir fs"
  "dir (flush_range_loop ops ss fs) = dir fs"
  "dir (flush_bitmap_range ops s n fs) = dir fs"
proof -
  show r: "dir (flush_range_loop ops ss fs) = dir fs" for ss fs
    by (induction ops ss fs rule: flush_range_loop.induct) (auto simp: Let_def)
  show "dir (flush_dir_entry ops i fs) = dir fs" "dir (flush_bitmap_range ops s n fs) = dir fs"
    by (simp_all add: flush_dir_entry_def flush_bitmap_range_def Let_def r)
qed

lemma dir_write_loop: "write_loop ops data start n blk w fs = (r, fs') \<Longrightarrow> dir fs' = dir fs"
proof (induction ops data start n blk w fs rule: write_loop.induct)
  case (1 ops data start n blk w fs)
  obtain ok copy fs1 where c: "write_chunk ops data start (min (n - blk) SCRATCH_SECTORS) blk w fs = (ok, copy, fs1)"
    by (metis prod_cases3)
  then have d1: "dir fs1 = dir fs"
    by (auto simp: write_chunk_def Let_def split: prod.splits)
  show ?case
  proof (cases "blk < n \<and> ok")
    case True
    then have "write_loop ops data start n (blk + min (n - blk) SCRATCH_SECTORS) (w + copy) fs1 = (r, fs')"
      using "1.prems" c by (subst (asm) write_loop.simps) (simp add: Let_def)
    then show ?thesis using "1.IH" [OF _ refl] c True d1 by auto
  next
    case False
    then show ?thesis using "1.prems" c d1
      by (subst (asm) write_loop.simps) (auto simp: Let_def split: if_splits)
  qed
qed

lemma position_append: "SLASH \<notin> set p \<Longrightarrow> position (\<lambda>c. c = SLASH) (p @ SLASH # f) = Some (length p)"
  by (induction p) auto

lemma position_notin: "SLASH \<notin> set f \<Longrightarrow> position (\<lambda>c. c = SLASH) f = None"
  by (auto simp: position_None)

lemma ensure_parents_single:
  assumes "SLASH \<notin> set p" "SLASH \<notin> set f" "p \<noteq> []" "find_entry (dir fs) p = None" "free_slot (dir fs) = Some i"
  shows "dir (ensure_parents ops (p @ SLASH # f) fs) = set_entry i p K_DIR 1 0 0 0 (dir fs)"
  using assms position_append [OF assms(1), of f] position_notin [OF assms(2)]
  by (simp add: ensure_parents_def ensure_parents_loop.simps [of ops _ 0]
      ensure_parents_loop.simps [of ops _ "Suc n" for n] Let_def ensure_one_def)

text \<open>
  A new file in a directory that does not exist yet loses that directory: \<open>write_file\<close>
  picks the free slot for the file before \<open>ensure_parents\<close> picks the same slot for the
  directory, and the file's entry then overwrites the directory's. After a successful write of
  \<open>p/f\<close> into a filesystem without \<open>p\<close>, \<open>p\<close> still does not exist.
\<close>

theorem rpfs_new_parent_lost:
  assumes "dir_ok (dir fs)" "good_name (p @ SLASH # f)" "SLASH \<notin> set p" "SLASH \<notin> set f" "p \<noteq> []"
    and "find_entry (dir fs) p = None" "find_entry (dir fs) (p @ SLASH # f) = None"
    and "write_file ops (p @ SLASH # f) data fs = (True, fs')"
  shows "find_entry (dir fs') p = None \<and> find_entry (dir fs') (p @ SLASH # f) \<noteq> None"
proof -
  let ?nm = "p @ SLASH # f"
  from assms(7,8) obtain i start fs2 fs3 where i: "free_slot (dir fs) = Some i"
    and al: "alloc_run (blocks_for data) fs = (Some start, fs2)"
    and wl: "write_loop ops data start (blocks_for data) 0 0 fs2 = (True, fs3)"
    and d: "dir fs' = set_entry i ?nm K_FILE 1 start (as_u32 (length data)) (blocks_for data)
        (dir (ensure_parents ops ?nm fs3))"
    by (auto simp: write_file_def claim_slot_def Let_def split: if_splits option.splits prod.splits bool.splits)
  have "dir fs3 = dir fs"
    using dir_write_loop [OF wl] al by (auto simp: alloc_run_def split: if_splits option.splits)
  then have d': "dir fs' = set_entry i ?nm K_FILE 1 start (as_u32 (length data)) (blocks_for data)
      (set_entry i p K_DIR 1 0 0 0 (dir fs))"
    using ensure_parents_single [OF assms(3,4,5), of fs3 i ops] assms(6) i d by metis
  have lt: "i < DIR_ENTRIES" using free_slot_Some [OF i] by simp
  have gp: "good_name p" using assms(2,5) by (auto simp: good_name_def)
  have ok1: "dir_ok (set_entry i p K_DIR 1 0 0 0 (dir fs))" using assms(1) lt by simp
  have "e_name (dir fs') j = (if j = i then ?nm else e_name (dir fs) j)"
    "active (dir fs') j \<longleftrightarrow> active (dir fs) j \<or> j = i" if "j < DIR_ENTRIES" for j
    using ok1 lt that gp assms(1,2) by (simp_all add: d' active_def set_entry_fields)
  then show ?thesis
    using assms(6) lt unfolding find_entry_None by (metis active_def append_self_conv list.distinct(1))
qed

lemma rpfs_new_parent_lost_witness:
  "find_entry (dir (snd (write_file ram_dev [98, 47, 99] [7] ram_fs))) [98] = None"
proof -
  have gn: "good_name ([98] @ SLASH # [99])" by (simp add: good_name_def MAX_NAME_def)
  have "fst (write_file ram_dev ([98] @ SLASH # [99]) [7] ram_fs)"
    using gn by (intro ram_fs_writes) (simp_all add: MAX_FILE_def blocks_for_def SECTOR_def)
  then have w: "write_file ram_dev ([98] @ SLASH # [99]) [7] ram_fs
      = (True, snd (write_file ram_dev ([98] @ SLASH # [99]) [7] ram_fs))"
    by (simp add: prod_eq_iff)
  have "dir_ok (dir ram_fs)" by (simp add: ram_fs_dir)
  from rpfs_new_parent_lost [OF this gn _ _ _ ram_fs_find(1) ram_fs_find(1) w]
  show ?thesis by simp
qed

end
