(* ===== verification/Heap.thy ===== *)
theory Heap
  imports Prelude
begin

text \<open>
  The free-list heap of \<open>desktop-metal/src/heap.rs\<close>. Memory is a store of \<open>usize\<close> cells by
  address; a free block keeps its size at its address and the next block's address eight bytes
  on. Additions of \<open>usize\<close> wrap at 64 bits (\<open>u64_add\<close>); a walk of the list that does not end
  is the value \<^const>\<open>None\<close>.
\<close>

section \<open>The program\<close>

type_synonym mem = "nat \<Rightarrow> nat"

definition u64_add :: "nat \<Rightarrow> nat \<Rightarrow> nat" where
  "u64_add a b = (a + b) mod 18446744073709551616"

lemma u64_add_id [simp]: "a + b < 18446744073709551616 \<Longrightarrow> u64_add a b = a + b"
  by (simp add: u64_add_def)

definition u64_sub :: "nat \<Rightarrow> nat \<Rightarrow> nat" where
  "u64_sub a b = (a + (18446744073709551616 - b mod 18446744073709551616)) mod 18446744073709551616"

lemma u64_sub_id [simp]: "b \<le> a \<Longrightarrow> a < 18446744073709551616 \<Longrightarrow> u64_sub a b = a - b"
proof -
  assume a: "b \<le> a" "a < 18446744073709551616"
  have 1: "a + (18446744073709551616 - b) = (a - b) + 18446744073709551616" using a by simp
  have 2: "b mod 18446744073709551616 = b" using a by simp
  have "(a - b + 18446744073709551616) mod 18446744073709551616 = a - b"
    unfolding mod_add_self2 using a by simp
  then show ?thesis unfolding u64_sub_def 2 1 .
qed

definition HDR :: nat where "HDR = 16"
definition ALIGN :: nat where "ALIGN = 16"

text \<open>\<open>(x + a - 1) & !(a - 1)\<close> in 64 bits.\<close>

definition align_up :: "nat \<Rightarrow> nat \<Rightarrow> nat" where
  "align_up x a = unat (and (of_nat x + of_nat a - 1) (not (of_nat a - 1)) :: u64)"

definition round_block :: "nat \<Rightarrow> nat" where
  "round_block sz = (let s = (if sz < HDR then HDR else sz) in align_up s ALIGN)"

record heap =
  head :: nat
  hbase :: nat
  hend :: nat
  live :: nat

definition heap_new :: heap where
  "heap_new = \<lparr>head = 0, hbase = 0, hend = 0, live = 0\<rparr>"

definition size_of :: "mem \<Rightarrow> nat \<Rightarrow> nat" where "size_of m addr = m addr"
definition next_of :: "mem \<Rightarrow> nat \<Rightarrow> nat" where "next_of m addr = m (addr + 8)"
definition set_size :: "nat \<Rightarrow> nat \<Rightarrow> mem \<Rightarrow> mem" where "set_size addr sz m = m(addr := sz)"
definition set_next :: "nat \<Rightarrow> nat \<Rightarrow> mem \<Rightarrow> mem" where "set_next addr nx m = m(addr + 8 := nx)"
definition write_hdr :: "nat \<Rightarrow> nat \<Rightarrow> nat \<Rightarrow> mem \<Rightarrow> mem" where
  "write_hdr addr sz nx m = set_next addr nx (set_size addr sz m)"

definition heap_init :: "nat \<Rightarrow> nat \<Rightarrow> mem \<Rightarrow> mem \<times> heap" where
  "heap_init bas sz m =
     (let sz = unat (and (of_nat sz) (not (of_nat (ALIGN - 1))) :: u64)
      in (write_hdr bas sz 0 m, \<lparr>head = bas, hbase = bas, hend = u64_add bas sz, live = 0\<rparr>))"

text \<open>Taking \<open>need\<close> bytes at \<open>payload\<close> out of the free block \<open>cur\<close>.\<close>

definition carve :: "nat \<Rightarrow> nat \<Rightarrow> nat \<Rightarrow> nat \<Rightarrow> nat \<Rightarrow> nat \<Rightarrow> mem \<Rightarrow> heap \<Rightarrow> mem \<times> heap" where
  "carve need payload cend cnext prev cur m h =
     (let pre = u64_sub payload cur;
          post = u64_sub cend (u64_add payload need);
          (m, chain) = (if HDR \<le> post
            then (write_hdr (u64_add payload need) post cnext m, u64_add payload need) else (m, cnext));
          (m, chain) = (if HDR \<le> pre then (write_hdr cur pre chain m, cur) else (m, chain));
          (m, h) = (if prev = 0 then (m, h\<lparr>head := chain\<rparr>) else (set_next prev chain m, h))
      in (m, h\<lparr>live := u64_add (live h) need\<rparr>))"

partial_function (option) alloc_loop ::
  "nat \<Rightarrow> nat \<Rightarrow> mem \<Rightarrow> heap \<Rightarrow> nat \<Rightarrow> nat \<Rightarrow> (nat \<times> mem \<times> heap) option" where
  "alloc_loop need algn m h prev cur =
     (if cur \<noteq> 0 then
        let csz = size_of m cur;
            cnext = next_of m cur;
            payload = align_up cur algn;
            cend = u64_add cur csz
        in if u64_add payload need \<le> cend
           then Some (payload, carve need payload cend cnext prev cur m h)
           else alloc_loop need algn m h cur cnext
      else Some (0, m, h))"

definition heap_alloc :: "nat \<Rightarrow> nat \<Rightarrow> mem \<Rightarrow> heap \<Rightarrow> (nat \<times> mem \<times> heap) option" where
  "heap_alloc sz algn m h =
     (let algn = (if algn < ALIGN then ALIGN else algn); need = round_block sz
      in alloc_loop need algn m h 0 (head h))"

partial_function (option) locate :: "mem \<Rightarrow> nat \<Rightarrow> nat \<Rightarrow> nat \<Rightarrow> (nat \<times> nat) option" where
  "locate m ptr prev cur =
     (if cur \<noteq> 0 \<and> cur < ptr then locate m ptr cur (next_of m cur) else Some (prev, cur))"

definition heap_dealloc :: "nat \<Rightarrow> nat \<Rightarrow> mem \<Rightarrow> heap \<Rightarrow> (mem \<times> heap) option" where
  "heap_dealloc ptr sz m h =
     (if ptr = 0 then Some (m, h)
      else let need = round_block sz;
               h = h\<lparr>live := u64_sub (live h) need\<rparr>
      in case locate m ptr 0 (head h) of
           None \<Rightarrow> None
         | Some (prev, cur) \<Rightarrow>
             let prev_adj = (prev \<noteq> 0 \<and> u64_add prev (size_of m prev) = ptr);
                 cur_adj = (cur \<noteq> 0 \<and> u64_add ptr need = cur)
             in Some
               (if prev_adj \<and> cur_adj then
                  (let newsz = u64_add (u64_add (size_of m prev) need) (size_of m cur)
                   in (write_hdr prev newsz (next_of m cur) m, h))
                else if prev_adj then (set_size prev (u64_add (size_of m prev) need) m, h)
                else
                  let m1 = (if cur_adj
                            then write_hdr ptr (u64_add need (size_of m cur)) (next_of m cur) m
                            else write_hdr ptr need cur m)
                  in if prev = 0 then (m1, h\<lparr>head := ptr\<rparr>) else (set_next prev ptr m1, h)))"

section \<open>Rounding\<close>

lemma clear_low_bits:
  assumes "n < 18446744073709551616"
  shows "unat (and (of_nat n) (not (mask k)) :: u64) = n div 2 ^ k * 2 ^ k"
  using assms by (simp add: unat_and_not_mask unat_of_nat)

lemma align_up_eq:
  assumes "a = 2 ^ k" "x + a \<le> 18446744073709551616" "0 < x"
  shows "align_up x a = (x + a - 1) div a * a"
proof -
  have w: "(of_nat x + of_nat a - 1 :: u64) = of_nat (x + a - 1)"
    using assms(1,3) by (subst of_nat_diff) auto
  have m: "(of_nat a - 1 :: u64) = mask k" by (simp add: assms(1) mask_eq_exp_minus_1)
  have "x + a - 1 < 18446744073709551616" using assms(2,3) by linarith
  from clear_low_bits [OF this, of k] show ?thesis unfolding align_up_def w m by (simp add: assms(1))
qed

lemma align_up_bounds:
  assumes "a = 2 ^ k" "x + a \<le> 18446744073709551616" "0 < x"
  shows "x \<le> align_up x a" "a dvd align_up x a" "align_up x a < x + a"
proof -
  have a: "0 < a" using assms by simp
  show "a dvd align_up x a" by (simp add: align_up_eq [OF assms])
  have "(x + a - 1) div a * a + (x + a - 1) mod a = x + a - 1" by simp
  moreover have "(x + a - 1) mod a \<le> a - 1" using mod_less_divisor [OF a, of "x + a - 1"] by linarith
  ultimately show "x \<le> align_up x a" "align_up x a < x + a"
    unfolding align_up_eq [OF assms] using a assms(3) by linarith+
qed

lemma round_block_bounds:
  assumes "sz < 9223372036854775808"
  shows "sz \<le> round_block sz" "16 \<le> round_block sz" "16 dvd round_block sz" "round_block sz < sz + 32"
proof -
  define s where "s = (if sz < 16 then 16 else sz)"
  have "0 < s" "s + 16 \<le> 18446744073709551616" using assms by (auto simp: s_def)
  from align_up_bounds [of 16 4 s] this
  show "sz \<le> round_block sz" "16 \<le> round_block sz" "16 dvd round_block sz" "round_block sz < sz + 32"
    by (auto simp: round_block_def HDR_def ALIGN_def s_def [symmetric]) (auto simp: s_def split: if_splits)
qed

end
