(* ===== verification/Heap_List.thy ===== *)
theory Heap_List
  imports Heap
begin

text \<open>
  The free list as a list of blocks. \<open>seg\<close> relates the pointer structure in memory to the
  list, \<open>blocks_ok\<close> is the documented invariant (ascending, 16-aligned, nonempty, never
  adjacent, inside the arena), \<open>space\<close> the set of addresses a list of blocks covers.
  \<open>first_fit\<close> and \<open>insert_block\<close> are the heap's two operations on lists; the loops of the
  program are shown to compute them.
\<close>

type_synonym blocks = "(nat \<times> nat) list"

fun seg :: "mem \<Rightarrow> nat \<Rightarrow> blocks \<Rightarrow> nat \<Rightarrow> bool" where
  "seg m a [] c \<longleftrightarrow> a = c"
| "seg m a ((b, s) # bs) c \<longleftrightarrow> a = b \<and> b \<noteq> 0 \<and> m b = s \<and> seg m (m (b + 8)) bs c"

fun blocks_ok :: "nat \<Rightarrow> nat \<Rightarrow> blocks \<Rightarrow> bool" where
  "blocks_ok lo hi [] \<longleftrightarrow> True"
| "blocks_ok lo hi ((b, s) # bs) \<longleftrightarrow>
     lo \<le> b \<and> 16 dvd b \<and> 16 dvd s \<and> 0 < s \<and> b + s \<le> hi \<and> blocks_ok (b + s + 1) hi bs"

definition space :: "blocks \<Rightarrow> nat set" where
  "space bs = (\<Union>(b, s) \<in> set bs. {b ..< b + s})"

fun first_fit :: "nat \<Rightarrow> nat \<Rightarrow> blocks \<Rightarrow> (nat \<times> blocks) option" where
  "first_fit need algn [] = None"
| "first_fit need algn ((b, s) # bs) =
     (let p = align_up b algn
      in if p + need \<le> b + s
         then Some (p, (if 16 \<le> p - b then [(b, p - b)] else [])
                @ (if 16 \<le> b + s - (p + need) then [(p + need, b + s - (p + need))] else []) @ bs)
         else map_option (\<lambda>(p, bs'). (p, (b, s) # bs')) (first_fit need algn bs))"

fun insert_block :: "nat \<Rightarrow> nat \<Rightarrow> blocks \<Rightarrow> blocks" where
  "insert_block p n [] = [(p, n)]"
| "insert_block p n ((b, s) # bs) =
     (if b < p then
        if b + s = p then
          (case bs of
             [] \<Rightarrow> [(b, s + n)]
           | (b', s') # bs' \<Rightarrow> if p + n = b' then (b, s + n + s') # bs' else (b, s + n) # bs)
        else (b, s) # insert_block p n bs
      else if p + n = b then (p, n + s) # bs
      else (p, n) # (b, s) # bs)"

section \<open>Segments and order\<close>

lemma seg_append: "seg m a (xs @ ys) c \<longleftrightarrow> (\<exists>d. seg m a xs d \<and> seg m d ys c)"
  by (induction xs arbitrary: a) (auto simp: split_paired_all)

lemma seg_frame:
  "seg m a bs c \<Longrightarrow> (\<And>b s. (b, s) \<in> set bs \<Longrightarrow> m' b = m b \<and> m' (b + 8) = m (b + 8)) \<Longrightarrow> seg m' a bs c"
proof (induction bs arbitrary: a)
  case (Cons x bs)
  obtain b s where x: "x = (b, s)" by (cases x)
  have "m' b = m b \<and> m' (b + 8) = m (b + 8)" using Cons.prems(2) [of b s] x by simp
  then show ?case using Cons x by auto
qed simp

lemma seg_head: "seg m a (x # bs) c \<Longrightarrow> a = fst x"
  by (cases x) simp

lemma blocks_ok_mono: "blocks_ok lo hi bs \<Longrightarrow> lo' \<le> lo \<Longrightarrow> blocks_ok lo' hi bs"
  by (induction bs) (auto simp: split_paired_all)

lemma blocks_ok_ge: "blocks_ok lo hi bs \<Longrightarrow> (b, s) \<in> set bs \<Longrightarrow>
    lo \<le> b \<and> 16 dvd b \<and> 16 dvd s \<and> 16 \<le> s \<and> b + s \<le> hi"
proof (induction bs arbitrary: lo)
  case (Cons x bs)
  obtain c t where x: "x = (c, t)" by (cases x)
  show ?case
  proof (cases "(b, s) = x")
    case True
    then have "16 dvd s" "0 < s" using Cons.prems x by auto
    then have "16 \<le> s" by (rule dvd_imp_le)
    then show ?thesis using Cons.prems True x by auto
  next
    case False
    then have "c + t + 1 \<le> b \<and> 16 dvd b \<and> 16 dvd s \<and> 16 \<le> s \<and> b + s \<le> hi"
      using Cons x by auto
    then show ?thesis using Cons.prems x by auto
  qed
qed simp

lemma blocks_ok_append:
  "blocks_ok lo hi (xs @ ys) \<Longrightarrow> blocks_ok lo hi xs \<and> blocks_ok lo hi ys \<and>
     (\<forall>b s b' s'. (b, s) \<in> set xs \<longrightarrow> (b', s') \<in> set ys \<longrightarrow> b + s < b')"
proof (induction xs arbitrary: lo)
  case (Cons x xs)
  obtain c t where x: "x = (c, t)" by (cases x)
  have ok: "blocks_ok (c + t + 1) hi (xs @ ys)" using Cons.prems x by simp
  have IH: "blocks_ok (c + t + 1) hi xs" "blocks_ok (c + t + 1) hi ys"
    "\<And>b s b' s'. (b, s) \<in> set xs \<Longrightarrow> (b', s') \<in> set ys \<Longrightarrow> b + s < b'"
    using Cons.IH [OF ok] by blast+
  have "c + t < b'" if "(b', s') \<in> set ys" for b' s'
    using blocks_ok_ge [OF IH(2) that] by simp
  moreover have "blocks_ok lo hi ys"
    using IH(2) Cons.prems x by (auto intro: blocks_ok_mono)
  ultimately show ?case using Cons.prems x IH by auto
qed simp

lemma space_simps [simp]:
  "space [] = {}" "space ((b, s) # bs) = {b ..< b + s} \<union> space bs"
  "space (xs @ ys) = space xs \<union> space ys"
  by (auto simp: space_def)

lemma in_space: "(b, s) \<in> set bs \<Longrightarrow> b \<le> x \<Longrightarrow> x < b + s \<Longrightarrow> x \<in> space bs"
  unfolding space_def by (rule UN_I [where a = "(b, s)"]) auto

lemma finite_space [simp]: "finite (space bs)"
  by (auto simp: space_def)

lemma space_range: "blocks_ok lo hi bs \<Longrightarrow> space bs \<subseteq> {lo ..< hi}"
proof (induction bs arbitrary: lo)
  case (Cons x bs)
  obtain c t where x: "x = (c, t)" by (cases x)
  have "space bs \<subseteq> {c + t + 1 ..< hi}" using Cons x by simp
  moreover have "lo \<le> c" "c + t \<le> hi" using Cons.prems x by auto
  ultimately show ?case unfolding x space_simps by fastforce
qed simp

text \<open>
  The list is determined by the addresses it covers, because its blocks are never adjacent.
\<close>

lemma blocks_canonical:
  "blocks_ok lo hi xs \<Longrightarrow> blocks_ok lo' hi' ys \<Longrightarrow> space xs = space ys \<Longrightarrow> xs = ys"
proof (induction xs arbitrary: ys lo lo')
  case Nil
  then show ?case by (cases ys) (auto simp: split_paired_all)
next
  case (Cons x xs)
  obtain b s where x: "x = (b, s)" by (cases x)
  have xs: "blocks_ok (b + s + 1) hi xs" "0 < s" using Cons.prems(1) x by auto
  have rx: "space xs \<subseteq> {b + s + 1 ..< hi}" by (rule space_range [OF xs(1)])
  show ?case
  proof (cases ys)
    case Nil
    then have "b \<in> {}" using Cons.prems(3) xs(2) x by auto
    then show ?thesis by simp
  next
    case (Cons y ys')
    obtain c t where y: "y = (c, t)" by (cases y)
    have ys: "blocks_ok (c + t + 1) hi' ys'" "0 < t" using Cons.prems(2) Cons y by auto
    have ry: "space ys' \<subseteq> {c + t + 1 ..< hi'}" by (rule space_range [OF ys(1)])
    have eq: "{b ..< b + s} \<union> space xs = {c ..< c + t} \<union> space ys'"
      using Cons.prems(3) Cons x y by simp
    have "b \<in> {c ..< c + t} \<union> space ys'" using eq xs(2) by auto
    then have "c \<le> b" using ry by auto
    have "c \<in> {b ..< b + s} \<union> space xs" using eq ys(2) by auto
    then have "b \<le> c" using rx by auto
    then have bc: "b = c" using \<open>c \<le> b\<close> by simp
    have "b + s \<notin> {b ..< b + s} \<union> space xs" using rx by auto
    then have "t \<le> s" using eq bc by (metis UnI1 atLeastLessThan_iff le_add1 add_less_cancel_left not_le)
    have "c + t \<notin> {c ..< c + t} \<union> space ys'" using ry by auto
    then have "s \<le> t" using eq bc by (metis UnI1 atLeastLessThan_iff le_add1 add_less_cancel_left not_le)
    then have st: "s = t" using \<open>t \<le> s\<close> by simp
    have "space xs = ({b ..< b + s} \<union> space xs) - {b ..< b + s}" using rx by auto
    also have "\<dots> = space ys'" unfolding eq using ry bc st by auto
    finally have "space xs = space ys'" .
    then have "xs = ys'" by (rule Cons.IH [OF xs(1) ys(1)])
    then show ?thesis using Cons x y bc st by simp
  qed
qed

section \<open>First fit\<close>

definition fits_u64 :: "nat \<Rightarrow> nat \<Rightarrow> nat \<Rightarrow> bool" where
  "fits_u64 hi need algn \<longleftrightarrow> (\<exists>k. algn = 2 ^ k) \<and> 16 dvd algn \<and> 16 dvd need \<and> 0 < need \<and>
     hi + algn + need < 18446744073709551616"

lemma align_up_fits:
  assumes "fits_u64 hi need algn" "0 < b" "b \<le> hi"
  shows "b \<le> align_up b algn" "algn dvd align_up b algn" "align_up b algn < b + algn"
    "16 dvd align_up b algn" "align_up b algn + need < 18446744073709551616"
proof -
  obtain k where k: "algn = 2 ^ k" "16 dvd algn" "hi + algn + need < 18446744073709551616"
    using assms(1) by (auto simp: fits_u64_def)
  note b = align_up_bounds [OF k(1), of b]
  show "b \<le> align_up b algn" "algn dvd align_up b algn" "align_up b algn < b + algn"
    "align_up b algn + need < 18446744073709551616"
    using b k assms(2,3) by auto
  then show "16 dvd align_up b algn" using k(2) dvd_trans by blast
qed

lemma first_fit_Some:
  assumes "blocks_ok lo hi bs" "0 < lo" "fits_u64 hi need algn" "first_fit need algn bs = Some (p, bs')"
  shows "blocks_ok lo hi bs' \<and> algn dvd p \<and> lo \<le> p \<and> {p ..< p + need} \<subseteq> space bs
    \<and> space bs' = space bs - {p ..< p + need}"
  using assms
proof (induction bs arbitrary: lo bs')
  case (Cons x bs)
  obtain b s where x: "x = (b, s)" by (cases x)
  have ok: "lo \<le> b" "16 dvd b" "16 dvd s" "0 < s" "b + s \<le> hi" "blocks_ok (b + s + 1) hi bs"
    using Cons.prems(1) x by auto
  have rs: "space bs \<subseteq> {b + s + 1 ..< hi}" by (rule space_range [OF ok(6)])
  have nd: "16 dvd need" "0 < need" using Cons.prems(3) by (auto simp: fits_u64_def)
  define q where "q = align_up b algn"
  have "0 < b" "b \<le> hi" using ok Cons.prems(2) by auto
  note q = align_up_fits [OF Cons.prems(3) this, folded q_def]
  show ?case
  proof (cases "q + need \<le> b + s")
    case True
    define pre where "pre = (if 16 \<le> q - b then [(b, q - b)] else [])"
    define post where "post = (if 16 \<le> b + s - (q + need) then [(q + need, b + s - (q + need))] else [])"
    have res: "p = q" "bs' = pre @ post @ bs"
      using Cons.prems(4) True by (auto simp: x Let_def q_def pre_def post_def)
    have d: "16 dvd q - b" "16 dvd b + s - (q + need)" "16 dvd q + need"
      using q(4) ok(2,3) nd(1) by (auto intro: dvd_diff_nat dvd_add)
    have z: "\<not> 16 \<le> q - b \<Longrightarrow> q = b" "\<not> 16 \<le> b + s - (q + need) \<Longrightarrow> q + need = b + s"
      using d q(1) True by (auto dest!: nat_dvd_not_less [rotated] simp: not_le)
    have sp: "space pre = {b ..< q}" "space post = {q + need ..< b + s}"
      using z q(1) True by (auto simp: pre_def post_def)
    have "space bs' = space (x # bs) - {q ..< q + need}"
      unfolding res(2) space_simps sp x using rs q(1) True by auto
    moreover have "blocks_ok lo hi bs'"
      unfolding res(2) pre_def post_def using ok d q(1) True nd(2)
      by (auto intro: blocks_ok_mono)
    moreover have "{q ..< q + need} \<subseteq> space (x # bs)" using True q(1) x by auto
    ultimately show ?thesis using q(1,2) ok(1) res(1) by simp
  next
    case False
    then obtain r where r: "first_fit need algn bs = Some (p, r)" "bs' = (b, s) # r"
      using Cons.prems(4) by (auto simp: x Let_def q_def)
    have IH: "blocks_ok (b + s + 1) hi r" "algn dvd p" "b + s + 1 \<le> p" "{p ..< p + need} \<subseteq> space bs"
      "space r = space bs - {p ..< p + need}"
      using Cons.IH [OF ok(6) _ Cons.prems(3) r(1)] by auto
    have "space bs' = space (x # bs) - {p ..< p + need}"
      unfolding r(2) x space_simps IH(5) using IH(3) by auto
    then show ?thesis using IH ok r(2) x by auto
  qed
qed simp

text \<open>First fit fails only when no aligned range of the size is free.\<close>

lemma first_fit_None:
  assumes "blocks_ok lo hi bs" "0 < lo" "fits_u64 hi need algn" "first_fit need algn bs = None"
    and "algn dvd p"
  shows "\<not> {p ..< p + need} \<subseteq> space bs"
  using assms(1,2,4)
proof (induction bs arbitrary: lo)
  case Nil
  have "0 < need" using assms(3) by (simp add: fits_u64_def)
  then show ?case by simp
next
  case (Cons x bs)
  obtain b s where x: "x = (b, s)" by (cases x)
  have ok: "lo \<le> b" "0 < s" "b + s \<le> hi" "blocks_ok (b + s + 1) hi bs"
    using Cons.prems(1) x by auto
  have nd: "0 < need" and al: "0 < algn" using assms(3) by (auto simp: fits_u64_def)
  have "0 < b" "b \<le> hi" using ok Cons.prems(2) by auto
  note q = align_up_fits [OF assms(3) this]
  have rs: "space bs \<subseteq> {b + s + 1 ..< hi}" by (rule space_range [OF ok(4)])
  have nofit: "\<not> align_up b algn + need \<le> b + s" "first_fit need algn bs = None"
    using Cons.prems(3) by (auto simp: x Let_def split: if_splits)
  have rest: "\<not> {p ..< p + need} \<subseteq> space bs" using Cons.IH [OF ok(4) _ nofit(2)] by simp
  show ?case
  proof
    assume a: "{p ..< p + need} \<subseteq> space (x # bs)"
    have "p \<in> space (x # bs)" using a nd by auto
    then consider "b \<le> p" "p < b + s" | "b + s + 1 \<le> p" using rs x by auto
    then show False
    proof cases
      case 1
      have "p + need \<le> b + s"
      proof (rule ccontr)
        assume "\<not> p + need \<le> b + s"
        then have "b + s \<in> space (x # bs)" using a 1 by auto
        then show False using rs x by auto
      qed
      moreover have "align_up b algn \<le> p"
      proof -
        obtain i j where "align_up b algn = algn * i" "p = algn * j" using q(2) assms(5) by (auto elim!: dvdE)
        moreover have "i \<le> j"
        proof (rule ccontr)
          assume "\<not> i \<le> j"
          then have "algn * Suc j \<le> algn * i" by (intro mult_le_mono2) simp
          then show False using calculation q(3) 1(1) by simp
        qed
        ultimately show ?thesis by simp
      qed
      ultimately show False using nofit(1) by simp
    next
      case 2
      then have "{p ..< p + need} \<subseteq> space bs" using a x by auto
      then show False using rest by simp
    qed
  qed
qed

section \<open>Insertion with coalescing\<close>

lemma insert_block_ok:
  assumes "blocks_ok lo hi bs" "{p ..< p + n} \<inter> space bs = {}" "lo \<le> p" "p + n \<le> hi"
    and "16 dvd p" "16 dvd n" "0 < n"
  shows "blocks_ok lo hi (insert_block p n bs) \<and> space (insert_block p n bs) = space bs \<union> {p ..< p + n}"
  using assms(1-3)
proof (induction bs arbitrary: lo)
  case Nil
  then show ?case using assms by auto
next
  case (Cons x bs)
  obtain b s where x: "x = (b, s)" by (cases x)
  have ok: "lo \<le> b" "16 dvd b" "16 dvd s" "0 < s" "b + s \<le> hi" "blocks_ok (b + s + 1) hi bs"
    using Cons.prems(1) x by auto
  have dj: "{p ..< p + n} \<inter> {b ..< b + s} = {}" "{p ..< p + n} \<inter> space bs = {}"
    using Cons.prems(2) unfolding x space_simps by blast+
  show ?case
  proof (cases "b < p")
    case True
    have "b + s - 1 \<notin> {p ..< p + n}" using dj(1) ok(4) by fastforce
    moreover have "p \<notin> {b ..< b + s}" using dj(1) assms(7) by fastforce
    ultimately have bp: "b + s \<le> p" using True by auto
    show ?thesis
    proof (cases "b + s = p")
      case adj: True
      show ?thesis
      proof (cases bs)
        case Nil
        then show ?thesis using True adj ok assms by (auto simp: x)
      next
        case (Cons y bs')
        obtain b' s' where y: "y = (b', s')" by (cases y)
        have ok': "b + s + 1 \<le> b'" "16 dvd b'" "16 dvd s'" "0 < s'" "b' + s' \<le> hi" "blocks_ok (b' + s' + 1) hi bs'"
          using ok(6) Cons y by auto
        have "b' \<notin> {p ..< p + n}" using dj(2) ok'(4) Cons y by fastforce
        then have "p + n \<le> b'" using ok'(1) adj by auto
        then show ?thesis
          using True adj ok ok' assms(4-7) Cons y x by (auto intro: dvd_add simp: ac_simps)
      qed
    next
      case False
      have "b + s + 1 \<le> p" using bp False by simp
      from Cons.IH [OF ok(6) dj(2) this] True False ok show ?thesis by (auto simp: x)
    qed
  next
    case False
    have "b \<notin> {p ..< p + n}" using dj(1) ok(4) by fastforce
    then have "p + n \<le> b" using False by auto
    moreover have "blocks_ok (p + n + 1) hi bs" using ok(6) calculation ok(4) by (auto intro: blocks_ok_mono)
    ultimately show ?thesis
      using False ok Cons.prems(3) assms(5-7) x by (auto intro: dvd_add simp: ac_simps)
  qed
qed

end
