(* ===== verification/Heap_Refine.thy ===== *)
theory Heap_Refine
  imports Heap_List
begin

text \<open>
  The pointer program computes the list operations: \<open>alloc\<close> refines \<open>first_fit\<close>, \<open>dealloc\<close>
  refines \<open>insert_block\<close>. Header cells are written inside the free space only, so no cell of
  a block in the caller's hands changes.
\<close>

definition last_addr :: "blocks \<Rightarrow> nat" where
  "last_addr xs = (if xs = [] then 0 else fst (last xs))"

lemma last_addr_simps [simp]: "last_addr [] = 0" "last_addr (xs @ [(b, s)]) = b"
  by (simp_all add: last_addr_def)

text \<open>Memory changed at most inside \<open>A\<close>.\<close>

definition mem_upd :: "nat set \<Rightarrow> mem \<Rightarrow> mem \<Rightarrow> bool" where
  "mem_upd A m m' \<longleftrightarrow> (\<forall>x. x \<notin> A \<longrightarrow> m' x = m x)"

lemma mem_upd_refl [simp]: "mem_upd A m m"
  by (simp add: mem_upd_def)

lemma mem_upd_trans: "mem_upd A m m1 \<Longrightarrow> mem_upd A m1 m2 \<Longrightarrow> mem_upd A m m2"
  by (simp add: mem_upd_def)

lemma write_hdr_upd: "a \<in> A \<Longrightarrow> a + 8 \<in> A \<Longrightarrow> mem_upd A m (write_hdr a s n m)"
  by (auto simp: mem_upd_def write_hdr_def set_next_def set_size_def)

lemma set_next_upd: "a + 8 \<in> A \<Longrightarrow> mem_upd A m (set_next a n m)"
  by (auto simp: mem_upd_def set_next_def)

lemma seg_write_hdr:
  assumes "seg m c bs 0" "a \<noteq> 0" "\<And>b s. (b, s) \<in> set bs \<Longrightarrow> a + 16 \<le> b"
  shows "seg (write_hdr a sz c m) a ((a, sz) # bs) 0"
proof -
  have "seg (write_hdr a sz c m) c bs 0"
    using assms(1)
  proof (rule seg_frame)
    fix b s assume "(b, s) \<in> set bs"
    then have "a + 16 \<le> b" by (rule assms(3))
    then show "write_hdr a sz c m b = m b \<and> write_hdr a sz c m (b + 8) = m (b + 8)"
      by (auto simp: write_hdr_def set_next_def set_size_def)
  qed
  then show ?thesis using assms(2) by (simp add: write_hdr_def set_next_def set_size_def)
qed

text \<open>Linking the segment before \<open>cur\<close> to a new continuation.\<close>

definition relink :: "nat \<Rightarrow> nat \<Rightarrow> mem \<Rightarrow> heap \<Rightarrow> mem \<times> heap" where
  "relink prev chain m h =
     (if prev = 0 then (m, h\<lparr>head := chain\<rparr>) else (set_next prev chain m, h))"

lemma relink_seg:
  assumes xs: "seg m (head h) xs d" "blocks_ok lo hi xs" "0 < lo"
    and ys: "seg m chain ys 0" "\<And>b s b' s'. (b, s) \<in> set xs \<Longrightarrow> (b', s') \<in> set ys \<Longrightarrow> b + s \<le> b'"
    and r: "relink (last_addr xs) chain m h = (m', h')"
  shows "seg m' (head h') (xs @ ys) 0 \<and> mem_upd (space xs) m m' \<and>
    (\<exists>c. h' = h\<lparr>head := c\<rparr>)"
proof (cases xs rule: rev_cases)
  case Nil
  then show ?thesis using r ys(1) by (auto simp: relink_def)
next
  case (snoc zs z)
  obtain b s where z: "z = (b, s)" by (cases z)
  have ok: "blocks_ok lo hi zs" "blocks_ok lo hi [(b, s)]"
    "\<And>b' s'. (b', s') \<in> set zs \<Longrightarrow> b' + s' < b"
    using blocks_ok_append [of lo hi zs "[(b, s)]"] xs(2) snoc z by auto
  have b: "b \<noteq> 0" "16 \<le> s"
    using blocks_ok_ge [OF ok(2), of b s] xs(3) by auto
  have m': "m' = set_next b chain m" "h' = h"
    using r b snoc z by (simp_all add: relink_def)
  have zs: "seg m (head h) zs b" "m b = s"
    using xs(1) unfolding snoc z seg_append by auto
  have "seg m' (head h) zs b"
    using zs(1)
  proof (rule seg_frame)
    fix b' s' assume i: "(b', s') \<in> set zs"
    have "b' + s' < b" "16 \<le> s'" using ok(3) [OF i] blocks_ok_ge [OF ok(1) i] by auto
    then show "m' b' = m b' \<and> m' (b' + 8) = m (b' + 8)" by (simp add: m' set_next_def)
  qed
  moreover have "seg m' chain ys 0"
    using ys(1)
  proof (rule seg_frame)
    fix b' s' assume "(b', s') \<in> set ys"
    then have "b + s \<le> b'" using ys(2) [of b s b' s'] snoc z by simp
    then show "m' b' = m b' \<and> m' (b' + 8) = m (b' + 8)"
      using b by (simp add: m' set_next_def)
  qed
  ultimately have "seg m' (head h) (zs @ (b, s) # ys) 0"
    using zs(2) b by (auto simp: seg_append m' set_next_def)
  moreover have "mem_upd (space xs) m m'"
    unfolding m' using b by (intro set_next_upd) (auto simp: snoc z)
  moreover have "\<exists>c. h' = h\<lparr>head := c\<rparr>" by (rule exI [where x = "head h"]) (simp add: m')
  ultimately show ?thesis using snoc z m'(2) by simp
qed

section \<open>Allocation\<close>

lemma carve_eq:
  "carve need payload cend cnext prev cur m h =
     (let pre = u64_sub payload cur;
          post = u64_sub cend (u64_add payload need);
          (m1, c1) = (if HDR \<le> post
            then (write_hdr (u64_add payload need) post cnext m, u64_add payload need) else (m, cnext));
          (m2, c2) = (if HDR \<le> pre then (write_hdr cur pre c1 m1, cur) else (m1, c1));
          (m3, h3) = relink prev c2 m2 h
      in (m3, h3\<lparr>live := u64_add (live h3) need\<rparr>))"
  by (simp add: carve_def relink_def Let_def)

lemma carve_refines:
  assumes xs: "seg m (head h) xs b" "blocks_ok lo hi (xs @ (b, s) # bs)" "0 < lo"
    and ys: "seg m b ((b, s) # bs) 0" and f: "fits_u64 hi need algn"
    and p: "b \<le> p" "p + need \<le> b + s"
    and c: "carve need p (b + s) (m (b + 8)) (last_addr xs) b m h = (m', h')"
  shows "seg m' (head h') (xs @ (if 16 \<le> p - b then [(b, p - b)] else [])
      @ (if 16 \<le> b + s - (p + need) then [(p + need, b + s - (p + need))] else []) @ bs) 0
    \<and> mem_upd (space (xs @ (b, s) # bs)) m m'
    \<and> (\<exists>c. h' = h\<lparr>head := c, live := u64_add (live h) need\<rparr>)"
proof -
  have ok: "blocks_ok lo hi xs" "blocks_ok lo hi ((b, s) # bs)"
    "\<And>b1 s1 b2 s2. (b1, s1) \<in> set xs \<Longrightarrow> (b2, s2) \<in> set ((b, s) # bs) \<Longrightarrow> b1 + s1 < b2"
    using blocks_ok_append [OF xs(2)] by blast+
  have b: "b + s \<le> hi" "0 < b" using ok(2) xs(3) by auto
  have rest: "blocks_ok (b + s + 1) hi bs" using ok(2) by simp
  have gt: "b + s < b'" if "(b', s') \<in> set bs" for b' s'
    using blocks_ok_ge [OF rest that] by simp
  have u: "u64_add p need = p + need" "u64_sub p b = p - b" "u64_sub (b + s) (p + need) = b + s - (p + need)"
    using f b p by (auto simp: fits_u64_def)
  define post where "post = (if 16 \<le> b + s - (p + need) then [(p + need, b + s - (p + need))] else [])"
  define pre where "pre = (if 16 \<le> p - b then [(b, p - b)] else [])"
  define m1c where "m1c = (if 16 \<le> b + s - (p + need)
      then (write_hdr (p + need) (b + s - (p + need)) (m (b + 8)) m, p + need) else (m, m (b + 8)))"
  define m2c where "m2c = (if 16 \<le> p - b then (write_hdr b (p - b) (snd m1c) (fst m1c), b) else m1c)"
  let ?A = "space (xs @ (b, s) # bs)"
  have tl: "seg m (m (b + 8)) bs 0" using ys by simp
  have 1: "seg (fst m1c) (snd m1c) (post @ bs) 0"
  proof (cases "16 \<le> b + s - (p + need)")
    case True
    then show ?thesis
      using seg_write_hdr [OF tl, of "p + need"] b p gt by (fastforce simp: m1c_def post_def)
  qed (use tl in \<open>simp add: m1c_def post_def\<close>)
  have 1: "seg (fst m1c) (snd m1c) (post @ bs) 0" "mem_upd {b ..< b + s} m (fst m1c)"
    using 1 p by (auto simp: m1c_def intro!: write_hdr_upd)
  have 2: "seg (fst m2c) (snd m2c) (pre @ post @ bs) 0"
  proof (cases "16 \<le> p - b")
    case True
    have ge: "b + 16 \<le> b'" if "(b', s') \<in> set (post @ bs)" for b' s'
      using that gt [of b' s'] True p by (auto simp: post_def split: if_splits)
    have "b \<noteq> 0" using b by simp
    from seg_write_hdr [OF 1(1) this ge, where sz = "p - b"] show ?thesis
      using True by (simp add: m2c_def pre_def)
  qed (use 1 in \<open>simp add: m2c_def pre_def\<close>)
  have upd2: "mem_upd {b ..< b + s} m (fst m2c)"
  proof (cases "16 \<le> p - b")
    case True
    then have "mem_upd {b ..< b + s} (fst m1c) (fst m2c)"
      using p by (auto simp: m2c_def intro!: write_hdr_upd)
    then show ?thesis by (rule mem_upd_trans [OF 1(2)])
  qed (use 1 in \<open>simp add: m2c_def\<close>)
  have xs2: "seg (fst m2c) (head h) xs b"
    using xs(1)
  proof (rule seg_frame)
    fix b1 s1 assume i: "(b1, s1) \<in> set xs"
    have "b1 + s1 < b" "16 \<le> s1" using ok(3) [OF i] blocks_ok_ge [OF ok(1) i] by auto
    then show "fst m2c b1 = m b1 \<and> fst m2c (b1 + 8) = m (b1 + 8)"
      using upd2 by (auto simp: mem_upd_def)
  qed
  obtain m3 h3 where r: "relink (last_addr xs) (snd m2c) (fst m2c) h = (m3, h3)" by fastforce
  have ge: "b1 + s1 \<le> b'" if "(b1, s1) \<in> set xs" "(b', s') \<in> set (pre @ post @ bs)" for b1 s1 b' s'
  proof -
    have "b1 + s1 < b" using ok(3) [OF that(1), of b s] by simp
    moreover have "b \<le> b'" using that(2) gt [of b' s'] p by (auto simp: pre_def post_def split: if_splits)
    ultimately show ?thesis by simp
  qed
  from relink_seg [OF xs2 ok(1) xs(3) 2 ge r]
  have 3: "seg m3 (head h3) (xs @ pre @ post @ bs) 0" "mem_upd (space xs) (fst m2c) m3"
    "\<exists>c. h3 = h\<lparr>head := c\<rparr>" by auto
  have c': "(m', h') = (m3, h3\<lparr>live := u64_add (live h3) need\<rparr>)"
    unfolding c [symmetric] carve_eq u HDR_def Let_def m1c_def [symmetric]
    using r by (cases "16 \<le> p - b") (simp_all add: m2c_def split_beta)
  have "mem_upd ?A m (fst m2c)" "mem_upd ?A (fst m2c) m3"
    using upd2 3(2) by (auto simp: mem_upd_def)
  then have "mem_upd ?A m m3" by (rule mem_upd_trans)
  then show ?thesis using c' 3 by (auto simp: pre_def post_def)
qed

lemma alloc_loop_refines:
  assumes "seg m (head h) xs cur" "seg m cur ys 0" "blocks_ok lo hi (xs @ ys)" "0 < lo"
    and f: "fits_u64 hi need algn"
  shows "case first_fit need algn ys of
      None \<Rightarrow> alloc_loop need algn m h (last_addr xs) cur = Some (0, m, h)
    | Some (p, ys') \<Rightarrow> \<exists>m' h'. alloc_loop need algn m h (last_addr xs) cur = Some (p, m', h') \<and>
        seg m' (head h') (xs @ ys') 0 \<and> mem_upd (space (xs @ ys)) m m' \<and>
        (\<exists>c. h' = h\<lparr>head := c, live := u64_add (live h) need\<rparr>)"
  using assms(1-4)
proof (induction ys arbitrary: xs cur)
  case Nil
  then show ?case by (simp add: alloc_loop.simps)
next
  case (Cons y ys)
  obtain b s where y: "y = (b, s)" by (cases y)
  have cur: "cur = b" "b \<noteq> 0" "m b = s" "seg m (m (b + 8)) ys 0"
    using Cons.prems(2) y by auto
  have ok: "blocks_ok lo hi ((b, s) # ys)" using blocks_ok_append [OF Cons.prems(3)] y by blast
  have bhi: "b + s \<le> hi" "b \<le> hi" "0 < b" using ok Cons.prems(4) by auto
  define p where "p = align_up b algn"
  note p = align_up_fits [OF f bhi(3,2), folded p_def]
  have u: "u64_add p need = p + need" "u64_add b s = b + s"
    using p(5) bhi f by (auto simp: fits_u64_def)
  show ?case
  proof (cases "p + need \<le> b + s")
    case True
    obtain m' h' where c: "carve need p (b + s) (m (b + 8)) (last_addr xs) b m h = (m', h')" by fastforce
    have "alloc_loop need algn m h (last_addr xs) cur = Some (p, m', h')"
      using True cur c u by (subst alloc_loop.simps) (simp add: Let_def size_of_def next_of_def p_def)
    moreover have "seg m (head h) xs b" "blocks_ok lo hi (xs @ (b, s) # ys)" "seg m b ((b, s) # ys) 0"
      using Cons.prems(1-3) cur(1) y by simp_all
    note carve_refines [OF this(1,2) Cons.prems(4) this(3) f p(1) True c]
    moreover have "first_fit need algn (y # ys) = Some (p, (if 16 \<le> p - b then [(b, p - b)] else [])
        @ (if 16 \<le> b + s - (p + need) then [(p + need, b + s - (p + need))] else []) @ ys)"
      using True by (simp add: y Let_def p_def [symmetric])
    ultimately show ?thesis by (simp add: y)
  next
    case False
    have step: "alloc_loop need algn m h (last_addr xs) cur = alloc_loop need algn m h (last_addr (xs @ [y])) (m (b + 8))"
      using False cur u by (subst alloc_loop.simps) (simp add: Let_def size_of_def next_of_def p_def y)
    have "seg m (head h) (xs @ [y]) (m (b + 8))"
      using Cons.prems(1) cur y by (auto simp: seg_append)
    from Cons.IH [OF this cur(4) _ Cons.prems(4)] Cons.prems(3)
    have IH: "case first_fit need algn ys of
      None \<Rightarrow> alloc_loop need algn m h (last_addr xs) cur = Some (0, m, h)
    | Some (p, ys') \<Rightarrow> \<exists>m' h'. alloc_loop need algn m h (last_addr xs) cur = Some (p, m', h') \<and>
        seg m' (head h') ((xs @ [y]) @ ys') 0 \<and> mem_upd (space ((xs @ [y]) @ ys)) m m' \<and>
        (\<exists>c. h' = h\<lparr>head := c, live := u64_add (live h) need\<rparr>)"
      unfolding step by simp
    have ff: "first_fit need algn (y # ys) = map_option (\<lambda>(p, bs'). (p, y # bs')) (first_fit need algn ys)"
      using False by (simp add: y Let_def p_def)
    show ?thesis
    proof (cases "first_fit need algn ys")
      case None
      then show ?thesis using IH ff by simp
    next
      case (Some r)
      then show ?thesis using IH ff by (cases r) simp
    qed
  qed
qed

section \<open>Deallocation\<close>

text \<open>\<open>locate\<close> splits the list at the freed address.\<close>

lemma locate_refines:
  assumes "seg m a xs cur" "seg m cur ys 0" "blocks_ok lo hi (xs @ ys)" "0 < lo"
    and "\<forall>(b, s) \<in> set xs. b < ptr"
  shows "\<exists>us vs c. xs @ ys = us @ vs \<and> locate m ptr (last_addr xs) cur = Some (last_addr us, c) \<and>
      seg m a us c \<and> seg m c vs 0 \<and> (\<forall>(b, s) \<in> set us. b < ptr) \<and> (\<forall>(b, s) \<in> set vs. ptr \<le> b)"
  using assms
proof (induction ys arbitrary: xs cur)
  case Nil
  then show ?case
    by (intro exI [where x = xs] exI [where x = "[]"] exI [where x = 0]) (auto simp: locate.simps)
next
  case (Cons y ys)
  obtain b s where y: "y = (b, s)" by (cases y)
  have cur: "cur = b" "b \<noteq> 0" "seg m (m (b + 8)) ys 0" using Cons.prems(2) y by auto
  show ?case
  proof (cases "b < ptr")
    case True
    have step: "locate m ptr (last_addr xs) cur = locate m ptr (last_addr (xs @ [y])) (m (b + 8))"
      using True cur by (subst locate.simps) (simp add: next_of_def y)
    have "seg m a (xs @ [y]) (m (b + 8))"
      using Cons.prems(1,2) cur y by (auto simp: seg_append)
    from Cons.IH [OF this cur(3) _ Cons.prems(4)] Cons.prems(3,5) True y
    show ?thesis unfolding step by auto
  next
    case False
    have ok: "blocks_ok lo hi ((b, s) # ys)" using blocks_ok_append [OF Cons.prems(3)] y by blast
    have "ptr \<le> b'" if "(b', s') \<in> set (y # ys)" for b' s'
    proof (cases "(b', s') \<in> set ys")
      case True
      have "blocks_ok (b + s + 1) hi ys" using ok by simp
      from blocks_ok_ge [OF this True] False show ?thesis by simp
    qed (use that y False in auto)
    then have "\<forall>(b', s') \<in> set (y # ys). ptr \<le> b'" by blast
    moreover have "locate m ptr (last_addr xs) cur = Some (last_addr xs, cur)"
      using False cur(1) by (subst locate.simps) simp
    ultimately show ?thesis using Cons.prems(1,2,5) by blast
  qed
qed

text \<open>Insertion at the split point.\<close>

lemma insert_block_skip:
  "(\<And>b s. (b, s) \<in> set us \<Longrightarrow> b < p \<and> b + s \<noteq> p) \<Longrightarrow> insert_block p n (us @ vs) = us @ insert_block p n vs"
  by (induction us) (auto simp: split_paired_all)

lemma set_size_is_write: "set_size b n m = write_hdr b n (next_of m b) m"
  by (auto simp: set_size_def write_hdr_def set_next_def next_of_def fun_eq_iff)

text \<open>Rewriting the header of the last block of a segment.\<close>

lemma seg_rewrite:
  assumes "seg m a us b" "blocks_ok lo hi (us @ [(b, s)])" "0 < lo"
    and "seg m c vs 0" "\<And>b' s'. (b', s') \<in> set vs \<Longrightarrow> b + s \<le> b'"
  shows "seg (write_hdr b n c m) a (us @ (b, n) # vs) 0"
proof -
  note ok = blocks_ok_append [OF assms(2)]
  have b: "b \<noteq> 0" "16 \<le> s" using blocks_ok_ge [of lo hi "[(b, s)]" b s] ok assms(3) by auto
  have "seg (write_hdr b n c m) b ((b, n) # vs) 0"
    using b assms(5) by (intro seg_write_hdr [OF assms(4)]) fastforce+
  moreover have "seg (write_hdr b n c m) a us b"
    using assms(1)
  proof (rule seg_frame)
    fix b1 s1 assume i: "(b1, s1) \<in> set us"
    have "b1 + s1 < b" "16 \<le> s1" using ok i blocks_ok_ge [of lo hi us b1 s1] by auto
    then show "write_hdr b n c m b1 = m b1 \<and> write_hdr b n c m (b1 + 8) = m (b1 + 8)"
      by (simp add: write_hdr_def set_next_def set_size_def)
  qed
  ultimately show ?thesis by (auto simp: seg_append)
qed

lemma dealloc_refines:
  assumes sg: "seg m (head h) bs 0" and ok: "blocks_ok lo hi bs" "0 < lo" and n: "n = round_block sz"
    and dj: "{ptr ..< ptr + n} \<inter> space bs = {}" and r: "lo \<le> ptr" "ptr + n \<le> hi" "16 \<le> n"
    and hi: "hi < 18446744073709551616"
  shows "\<exists>m' h'. heap_dealloc ptr sz m h = Some (m', h') \<and> seg m' (head h') (insert_block ptr n bs) 0 \<and>
      mem_upd (space bs \<union> {ptr ..< ptr + n}) m m' \<and>
      (\<exists>c. h' = h\<lparr>head := c, live := u64_sub (live h) n\<rparr>)"
proof -
  obtain us vs c where lc: "bs = us @ vs" "locate m ptr 0 (head h) = Some (last_addr us, c)"
      "seg m (head h) us c" "seg m c vs 0" "\<forall>(b, s) \<in> set us. b < ptr" "\<forall>(b, s) \<in> set vs. ptr \<le> b"
    using locate_refines [of m "head h" "[]" "head h" bs lo hi ptr] sg ok by auto
  note okk = blocks_ok_append [OF ok(1) [unfolded lc(1)]]
  have us: "b + s \<le> ptr" "16 \<le> s" "0 < b" if "(b, s) \<in> set us" for b s
  proof -
    have g: "lo \<le> b" "16 \<le> s" using blocks_ok_ge [of lo hi us b s] okk that by auto
    then show "16 \<le> s" "0 < b" using ok(2) by auto
    show "b + s \<le> ptr"
    proof (rule ccontr)
      assume "\<not> b + s \<le> ptr"
      then have "ptr \<in> {b ..< b + s}" using lc(5) that by auto
      then have "ptr \<in> space bs" using in_space [of b s bs ptr] that lc(1,5) by auto
      moreover have "ptr \<in> {ptr ..< ptr + n}" using r(3) by simp
      ultimately show False using dj by blast
    qed
  qed
  have vs: "ptr + n \<le> b" "16 \<le> s" "b + s \<le> hi" if "(b, s) \<in> set vs" for b s
  proof -
    have g: "16 \<le> s" "b + s \<le> hi" using blocks_ok_ge [of lo hi vs b s] okk that by auto
    then show "16 \<le> s" "b + s \<le> hi" by auto
    show "ptr + n \<le> b"
    proof (rule ccontr)
      assume "\<not> ptr + n \<le> b"
      then have "b \<in> {ptr ..< ptr + n}" using lc(6) that by auto
      moreover have "b \<in> space bs" using in_space [of b s bs b] that lc(1) g by auto
      ultimately show False using dj by auto
    qed
  qed
  define h1 where "h1 = h\<lparr>live := u64_sub (live h) n\<rparr>"
  define padj where "padj \<longleftrightarrow> last_addr us \<noteq> 0 \<and> u64_add (last_addr us) (size_of m (last_addr us)) = ptr"
  define cadj where "cadj \<longleftrightarrow> c \<noteq> 0 \<and> u64_add ptr n = c"
  have ptr0: "ptr \<noteq> 0" using r ok(2) by simp
  have up: "u64_add ptr n = ptr + n" using r(2) hi by simp
  have ev: "heap_dealloc ptr sz m h = Some
     (if padj \<and> cadj then (write_hdr (last_addr us)
          (u64_add (u64_add (size_of m (last_addr us)) n) (size_of m c)) (next_of m c) m, h1)
      else if padj then (set_size (last_addr us) (u64_add (size_of m (last_addr us)) n) m, h1)
      else relink (last_addr us) ptr (if cadj then write_hdr ptr (u64_add n (size_of m c)) (next_of m c) m
             else write_hdr ptr n c m) h1)"
    using ptr0 lc(2) by (simp add: heap_dealloc_def Let_def n [symmetric] relink_def h1_def padj_def cadj_def)
  have h1: "\<exists>d. h1 = h\<lparr>head := d, live := u64_sub (live h) n\<rparr>" "head h1 = head h"
    by (auto simp: h1_def intro!: exI [where x = "head h"])
  have cv: "cadj \<longleftrightarrow> (\<exists>s' vs'. vs = (ptr + n, s') # vs')"
  proof (cases vs)
    case Nil
    then show ?thesis using lc(4) by (simp add: cadj_def)
  next
    case (Cons v vs')
    then show ?thesis using seg_head [of m c v vs' 0] lc(4) by (cases v) (auto simp: cadj_def up)
  qed
  have inA: "b \<in> space bs" "b + 8 \<in> space bs" if "(b, s) \<in> set us" for b s
    using us(2) [OF that] in_space [of b s bs] that lc(1) by auto
  show ?thesis
  proof (cases padj)
    case True
    then have "us \<noteq> []" by (auto simp: padj_def)
    then obtain us' b s where u: "us = us' @ [(b, s)]" by (metis rev_exhaust surj_pair)
    have bs': "(b, s) \<in> set us" by (simp add: u)
    have sm: "size_of m b = s" "seg m (head h) us' b" "m (b + 8) = c"
      using lc(3) by (auto simp: u seg_append size_of_def)
    have bp: "b + s = ptr" using True us(1) [OF bs'] r(2) hi by (simp add: padj_def u sm(1))
    have "b1 < ptr \<and> b1 + s1 \<noteq> ptr" if "(b1, s1) \<in> set us'" for b1 s1
    proof -
      have "blocks_ok lo hi (us' @ [(b, s)])" using okk u by simp
      from blocks_ok_append [OF this] have "b1 + s1 < b" using that by (metis list.set_intros(1))
      then show ?thesis using bp by simp
    qed
    then have ins: "insert_block ptr n bs = us' @ insert_block ptr n ((b, s) # vs)"
      using insert_block_skip [of us' ptr n "(b, s) # vs"] by (simp add: lc(1) u)
    have usn: "u64_add s n = s + n" using bp r(2) hi by simp
    have oku: "blocks_ok lo hi (us' @ [(b, s)])" using okk u by simp
    have lt: "b < ptr" using bp us(2) [OF bs'] by simp
    show ?thesis
    proof (cases cadj)
      case c: True
      then obtain s' vs' where v: "vs = (ptr + n, s') # vs'" using cv by blast
      have sc: "c = ptr + n" "m c = s'" "seg m (m (c + 8)) vs' 0" using lc(4) by (auto simp: v)
      have un: "u64_add (s + n) s' = s + n + s'"
        using vs(3) [of "ptr + n" s'] v bp hi by simp
      have ge: "b + s \<le> b'" if "(b', s'') \<in> set vs'" for b' s''
        using vs(1) [of b' s''] that v bp by simp
      have "seg (write_hdr b (s + n + s') (m (c + 8)) m) (head h) (us' @ (b, s + n + s') # vs') 0"
        by (rule seg_rewrite [OF sm(2) oku ok(2) sc(3) ge])
      moreover have "insert_block ptr n ((b, s) # vs) = (b, s + n + s') # vs'"
        using lt bp by (simp add: v)
      moreover have "mem_upd (space bs \<union> {ptr ..< ptr + n}) m (write_hdr b (s + n + s') (m (c + 8)) m)"
        using inA [OF bs'] by (intro write_hdr_upd) auto
      ultimately show ?thesis
        using ev True c ins h1 sc(2)
        by (simp add: u sm(1) [unfolded size_of_def] usn un size_of_def next_of_def sc(1))
    next
      case c: False
      have ge: "b + s \<le> b'" if "(b', s'') \<in> set vs" for b' s''
        using vs(1) [OF that] bp by simp
      have "seg (write_hdr b (s + n) c m) (head h) (us' @ (b, s + n) # vs) 0"
        by (rule seg_rewrite [OF sm(2) oku ok(2) lc(4) ge])
      moreover have "insert_block ptr n ((b, s) # vs) = (b, s + n) # vs"
        using lt bp c cv by (auto split: list.splits)
      moreover have "mem_upd (space bs \<union> {ptr ..< ptr + n}) m (write_hdr b (s + n) c m)"
        using inA [OF bs'] by (intro write_hdr_upd) auto
      ultimately show ?thesis
        using ev True c ins h1 by (simp add: u sm(1,3) usn set_size_is_write next_of_def)
    qed
  next
    case False
    have "b1 < ptr \<and> b1 + s1 \<noteq> ptr" if i: "(b1, s1) \<in> set us" for b1 s1
    proof
      show "b1 < ptr" using us(1,2) [OF i] by simp
      show "b1 + s1 \<noteq> ptr"
      proof
        assume e: "b1 + s1 = ptr"
        obtain us' b s where u: "us = us' @ [(b, s)]" using i by (metis rev_exhaust surj_pair empty_iff empty_set)
        have "(b1, s1) = (b, s)"
        proof (rule ccontr)
          assume "(b1, s1) \<noteq> (b, s)"
          then have "b1 + s1 < b" using i u okk blocks_ok_append [of lo hi us' "[(b, s)]"] by auto
          then show False using e us(1,2) [of b s] u by simp
        qed
        moreover have "m b = s" using lc(3) by (auto simp: u seg_append)
        ultimately have padj using e us(3) [OF i] r(2) hi by (simp add: padj_def u size_of_def)
        then show False using False by simp
      qed
    qed
    then have ins: "insert_block ptr n bs = us @ insert_block ptr n vs"
      unfolding lc(1) by (rule insert_block_skip)
    define m1 where "m1 = (if cadj then write_hdr ptr (u64_add n (size_of m c)) (next_of m c) m
        else write_hdr ptr n c m)"
    have m1: "seg m1 ptr (insert_block ptr n vs) 0"
    proof (cases cadj)
      case c: True
      then obtain s' vs' where v: "vs = (ptr + n, s') # vs'" using cv by blast
      have sc: "c = ptr + n" "m c = s'" "seg m (m (c + 8)) vs' 0" using lc(4) by (auto simp: v)
      have un: "u64_add n s' = n + s'" using vs(3) [of "ptr + n" s'] v hi by simp
      have ge: "ptr + 16 \<le> b'" if "(b', s'') \<in> set vs'" for b' s''
        using vs(1) [of b' s''] that v r(3) by simp
      have "seg (write_hdr ptr (n + s') (m (c + 8)) m) ptr ((ptr, n + s') # vs') 0"
        by (rule seg_write_hdr [OF sc(3) ptr0]) (use ge in blast)
      moreover have "m1 = write_hdr ptr (n + s') (m (c + 8)) m"
        using c sc(2) un by (simp add: m1_def size_of_def next_of_def)
      ultimately show ?thesis by (simp add: v)
    next
      case c: False
      have ge: "ptr + 16 \<le> b'" if "(b', s'') \<in> set vs" for b' s''
        using vs(1) [OF that] r(3) by simp
      have "insert_block ptr n vs = (ptr, n) # vs"
        using c cv vs(1) r(3) by (cases vs) fastforce+
      with seg_write_hdr [OF lc(4) ptr0 ge, where sz = n]
      show ?thesis using c by (simp add: m1_def)
    qed
    have u1: "mem_upd {ptr ..< ptr + n} m m1"
      using r(3) by (auto simp: m1_def intro!: write_hdr_upd)
    have "seg m1 (head h) us c"
      using lc(3)
    proof (rule seg_frame)
      fix b1 s1 assume i: "(b1, s1) \<in> set us"
      show "m1 b1 = m b1 \<and> m1 (b1 + 8) = m (b1 + 8)"
        using us(1,2) [OF i] u1 by (auto simp: mem_upd_def)
    qed
    then have us1: "seg m1 (head h1) us c" using h1(2) by simp
    have ge: "b + s \<le> b'" if "(b, s) \<in> set us" "(b', s') \<in> set (insert_block ptr n vs)" for b s b' s'
    proof -
      have "b' = ptr \<or> b' \<in> fst ` set vs"
      proof (cases vs)
        case Nil
        then show ?thesis using that(2) by simp
      next
        case (Cons v vs')
        obtain b0 s0 where v: "v = (b0, s0)" by (cases v)
        have "\<not> b0 < ptr" using vs(1) [of b0 s0] Cons v by simp
        then show ?thesis using that(2) Cons v by (force split: if_splits)
      qed
      then show ?thesis using us(1) [OF that(1)] lc(6) by fastforce
    qed
    obtain m2 h2 where rl: "relink (last_addr us) ptr m1 h1 = (m2, h2)" by fastforce
    from relink_seg [OF us1 _ ok(2) m1 ge rl] okk
    have "seg m2 (head h2) (us @ insert_block ptr n vs) 0" "mem_upd (space us) m1 m2"
      "\<exists>d. h2 = h1\<lparr>head := d\<rparr>" by auto
    moreover have "mem_upd (space bs \<union> {ptr ..< ptr + n}) m m2"
      using u1 calculation(2) by (auto simp: mem_upd_def lc(1))
    moreover obtain d where "h2 = h1\<lparr>head := d\<rparr>" using calculation(3) by blast
    then have "h2 = h\<lparr>head := d, live := u64_sub (live h) n\<rparr>" by (simp add: h1_def)
    moreover have "heap_dealloc ptr sz m h = Some (m2, h2)"
      using ev False rl by (simp add: m1_def)
    ultimately show ?thesis using ins by auto
  qed
qed

end
