(* ===== verification/Heap_Props.thy ===== *)
theory Heap_Props
  imports Heap_Refine
begin

text \<open>
  The heap together with its clients as a state machine: a state is the memory, the heap and
  the set of blocks in the clients' hands; a step is an allocation, the release of an
  outstanding block, or a client's store into one. The invariant of the reachable states is
  what the header of \<open>heap.rs\<close> documents and what the host fuzzer samples.
\<close>

type_synonym heap_state = "mem \<times> heap \<times> (nat \<times> nat) set"

definition block_of :: "nat \<times> nat \<Rightarrow> nat set" where
  "block_of b = {fst b ..< fst b + round_block (snd b)}"

text \<open>What a \<open>Layout\<close> guarantees: a power-of-two alignment, and sizes below half the address space.\<close>

definition request_ok :: "nat \<Rightarrow> nat \<Rightarrow> bool" where
  "request_ok sz algn \<longleftrightarrow> sz < 4611686018427387904 \<and> (\<exists>k \<le> 62. algn = 2 ^ k)"

inductive heap_step :: "heap_state \<Rightarrow> heap_state \<Rightarrow> bool" where
  alloc: "request_ok sz algn \<Longrightarrow> heap_alloc sz algn m h = Some (p, m', h') \<Longrightarrow>
     heap_step (m, h, own) (m', h', if p = 0 then own else insert (p, sz) own)"
| dealloc: "(p, sz) \<in> own \<Longrightarrow> heap_dealloc p sz m h = Some (m', h') \<Longrightarrow>
     heap_step (m, h, own) (m', h', own - {(p, sz)})"
| store: "(p, sz) \<in> own \<Longrightarrow> p \<le> x \<Longrightarrow> x < p + sz \<Longrightarrow> heap_step (m, h, own) (m(x := v), h, own)"

inductive_cases heap_stepE: "heap_step s s'"

inductive heap_reach :: "nat \<Rightarrow> nat \<Rightarrow> heap_state \<Rightarrow> bool" for bas arena where
  init: "heap_init bas arena m = (m', h) \<Longrightarrow> heap_reach bas arena (m', h, {})"
| step: "heap_reach bas arena s \<Longrightarrow> heap_step s s' \<Longrightarrow> heap_reach bas arena s'"

text \<open>The arena of the kernel: nonempty, 16-aligned, in the lower part of the address space.\<close>

definition arena_ok :: "nat \<Rightarrow> nat \<Rightarrow> bool" where
  "arena_ok bas arena \<longleftrightarrow> 16 dvd bas \<and> 0 < bas \<and> 16 \<le> arena \<and> bas + arena < 4611686018427387904"

definition heap_ok :: "nat \<Rightarrow> nat \<Rightarrow> heap_state \<Rightarrow> bool" where
  "heap_ok bas arena = (\<lambda>(m, h, own). hbase h = bas \<and> hend h = bas + arena div 16 * 16 \<and>
     (\<exists>bs. seg m (head h) bs 0 \<and> blocks_ok (hbase h) (hend h) bs \<and>
       finite own \<and> (\<forall>b \<in> own. 16 dvd fst b \<and> snd b < 4611686018427387904) \<and>
       (\<forall>b \<in> own. \<forall>c \<in> own. b \<noteq> c \<longrightarrow> block_of b \<inter> block_of c = {}) \<and>
       (\<forall>b \<in> own. block_of b \<inter> space bs = {}) \<and>
       {hbase h ..< hend h} = space bs \<union> (\<Union>b \<in> own. block_of b) \<and>
       live h = (\<Sum>b \<in> own. round_block (snd b))))"

lemma block_of_bounds:
  assumes "snd b < 4611686018427387904"
  shows "fst b \<in> block_of b" "snd b \<le> round_block (snd b)" "16 \<le> round_block (snd b)" "16 dvd round_block (snd b)"
    "round_block (snd b) < snd b + 32"
  using round_block_bounds [of "snd b"] assms by (auto simp: block_of_def)

lemma block_in_arena:
  assumes "{lo ..< hi} = S \<union> (\<Union>b \<in> own. block_of b)" "b \<in> own" "snd b < 4611686018427387904"
  shows "lo \<le> fst b \<and> fst b + round_block (snd b) \<le> hi"
proof -
  have "fst b \<in> {lo ..< hi}" "fst b + round_block (snd b) - 1 \<in> {lo ..< hi}"
    unfolding assms(1) using assms(2) block_of_bounds [OF assms(3)] by (force simp: block_of_def)+
  then show ?thesis using block_of_bounds(3) [OF assms(3)] by auto
qed

lemma request_fits:
  assumes "request_ok sz algn" "hi < 4611686018427387904 + 16"
  shows "fits_u64 hi (round_block sz) (if algn < ALIGN then ALIGN else algn)"
proof -
  obtain k where k: "k \<le> 62" "algn = 2 ^ k" using assms(1) by (auto simp: request_ok_def)
  define a where "a = (if algn < 16 then 16 else algn)"
  have pw: "\<exists>j. 4 \<le> j \<and> j \<le> 62 \<and> a = 2 ^ j"
  proof (cases "algn < 16")
    case True
    then show ?thesis by (intro exI [where x = 4]) (simp add: a_def)
  next
    case False
    have "4 \<le> k"
    proof (rule ccontr)
      assume "\<not> 4 \<le> k"
      then have "(2::nat) ^ k < 2 ^ 4" by (intro power_strict_increasing) auto
      then show False using False k(2) by simp
    qed
    then show ?thesis using False k by (auto simp: a_def)
  qed
  then obtain j where j: "4 \<le> j" "j \<le> 62" "a = 2 ^ j" by blast
  have "(2::nat) ^ 4 dvd 2 ^ j" using j(1) by (rule le_imp_power_dvd)
  then have "16 dvd a" using j(3) by simp
  moreover have "a \<le> 2 ^ 62" unfolding j(3) using j(2) by (rule power_increasing) simp
  moreover have sz: "sz < 4611686018427387904" using assms(1) by (simp add: request_ok_def)
  moreover note round_block_bounds [of sz]
  ultimately have "fits_u64 hi (round_block sz) a"
    using assms(2) j(3) unfolding fits_u64_def by auto
  then show ?thesis unfolding a_def ALIGN_def .
qed

text \<open>The facts of the list level about one allocation and one release.\<close>

lemma heap_alloc_spec:
  assumes "seg m (head h) bs 0" "blocks_ok lo hi bs" "0 < lo" "hi < 4611686018427387904 + 16"
    and "request_ok sz algn"
  defines "a \<equiv> if algn < ALIGN then ALIGN else algn"
  shows "(heap_alloc sz algn m h = Some (0, m, h) \<and> (\<forall>p. a dvd p \<longrightarrow> \<not> {p ..< p + round_block sz} \<subseteq> space bs)) \<or>
    (\<exists>p bs' m' h'. heap_alloc sz algn m h = Some (p, m', h') \<and> lo \<le> p \<and> a dvd p \<and>
       {p ..< p + round_block sz} \<subseteq> space bs \<and> seg m' (head h') bs' 0 \<and> blocks_ok lo hi bs' \<and>
       space bs' = space bs - {p ..< p + round_block sz} \<and> mem_upd (space bs) m m' \<and>
       (\<exists>c. h' = h\<lparr>head := c, live := u64_add (live h) (round_block sz)\<rparr>))"
proof -
  note f = request_fits [OF assms(5,4), folded a_def]
  have e: "heap_alloc sz algn m h = alloc_loop (round_block sz) a m h 0 (head h)"
    by (simp add: heap_alloc_def Let_def a_def)
  note r = alloc_loop_refines [of m h "[]" "head h" bs lo hi, OF _ assms(1) _ assms(3) f]
  show ?thesis
  proof (cases "first_fit (round_block sz) a bs")
    case None
    then show ?thesis using r assms(2) first_fit_None [OF assms(2,3) f None] by (simp add: e)
  next
    case (Some q)
    obtain p bs' where q: "q = (p, bs')" by (cases q)
    have "\<exists>m' h'. heap_alloc sz algn m h = Some (p, m', h') \<and> seg m' (head h') bs' 0 \<and> mem_upd (space bs) m m' \<and>
        (\<exists>c. h' = h\<lparr>head := c, live := u64_add (live h) (round_block sz)\<rparr>)"
      using r assms(2) Some q by (simp add: e)
    then show ?thesis using first_fit_Some [OF assms(2,3) f Some [unfolded q]] by blast
  qed
qed

lemma heap_dealloc_spec:
  assumes "seg m (head h) bs 0" "blocks_ok lo hi bs" "0 < lo" "hi < 4611686018427387904 + 16"
    and "{p ..< p + round_block sz} \<inter> space bs = {}" "lo \<le> p" "p + round_block sz \<le> hi"
    and "16 dvd p" "sz < 4611686018427387904"
  shows "\<exists>m' h' bs'. heap_dealloc p sz m h = Some (m', h') \<and> seg m' (head h') bs' 0 \<and>
      blocks_ok lo hi bs' \<and> space bs' = space bs \<union> {p ..< p + round_block sz} \<and>
      mem_upd (space bs \<union> {p ..< p + round_block sz}) m m' \<and>
      (\<exists>c. h' = h\<lparr>head := c, live := u64_sub (live h) (round_block sz)\<rparr>)"
proof -
  have n: "16 \<le> round_block sz" "16 dvd round_block sz" "0 < round_block sz"
    using round_block_bounds [of sz] assms(9) by auto
  have "hi < 18446744073709551616" using assms(4) by simp
  from dealloc_refines [OF assms(1-3) refl assms(5-7) n(1) this]
    insert_block_ok [OF assms(2,5,6,7,8) n(2,3)]
  show ?thesis by blast
qed

lemma heap_ok_bounds:
  assumes "arena_ok bas arena" "heap_ok bas arena (m, h, own)"
  shows "0 < hbase h" "hend h < 4611686018427387904 + 16" "hbase h = bas" "16 dvd hbase h"
    "(\<Sum>b \<in> own. round_block (snd b)) \<le> hend h"
proof -
  have "arena div 16 * 16 \<le> arena" by simp
  then show "0 < hbase h" "hend h < 4611686018427387904 + 16" "hbase h = bas" "16 dvd hbase h"
    using assms by (auto simp: arena_ok_def heap_ok_def)
  obtain bs where o: "finite own" "\<forall>b \<in> own. \<forall>c \<in> own. b \<noteq> c \<longrightarrow> block_of b \<inter> block_of c = {}"
      "{hbase h ..< hend h} = space bs \<union> (\<Union>b \<in> own. block_of b)"
    using assms(2) by (auto simp: heap_ok_def)
  have "(\<Sum>b \<in> own. round_block (snd b)) = card (\<Union>b \<in> own. block_of b)"
    using o(1,2) by (subst card_UN_disjoint) (auto simp: block_of_def)
  also have "\<dots> \<le> card {hbase h ..< hend h}" unfolding o(3) by (rule card_mono) (use o(1) in \<open>auto simp: block_of_def\<close>)
  finally show "(\<Sum>b \<in> own. round_block (snd b)) \<le> hend h" by simp
qed

lemma seg_outside:
  assumes "seg m a bs 0" "blocks_ok lo hi bs" "x \<notin> space bs"
  shows "seg (m(x := v)) a bs 0"
  using assms(1)
proof (rule seg_frame)
  fix b s assume i: "(b, s) \<in> set bs"
  have "16 \<le> s" using blocks_ok_ge [OF assms(2) i] by simp
  then have "b \<in> space bs" "b + 8 \<in> space bs" using in_space [OF i] by auto
  then show "(m(x := v)) b = m b \<and> (m(x := v)) (b + 8) = m (b + 8)" using assms(3) by auto
qed

lemma heap_step_ok:
  assumes ar: "arena_ok bas arena" and "heap_step s s'" "heap_ok bas arena s"
  shows "heap_ok bas arena s'"
  using assms(2,3)
proof (induction rule: heap_step.induct)
  case (alloc sz algn m h p m' h' own)
  note b = heap_ok_bounds [OF ar alloc.prems]
  obtain bs where o: "seg m (head h) bs 0" "blocks_ok (hbase h) (hend h) bs" "finite own"
      "\<forall>b \<in> own. 16 dvd fst b \<and> snd b < 4611686018427387904"
      "\<forall>b \<in> own. \<forall>c \<in> own. b \<noteq> c \<longrightarrow> block_of b \<inter> block_of c = {}"
      "\<forall>b \<in> own. block_of b \<inter> space bs = {}"
      "{hbase h ..< hend h} = space bs \<union> (\<Union>b \<in> own. block_of b)"
      "live h = (\<Sum>b \<in> own. round_block (snd b))"
    using alloc.prems by (auto simp: heap_ok_def)
  from heap_alloc_spec [OF o(1,2) b(1,2) alloc.hyps(1)]
  show ?case
  proof
    assume "heap_alloc sz algn m h = Some (0, m, h) \<and> (\<forall>p. (if algn < ALIGN then ALIGN else algn) dvd p
        \<longrightarrow> \<not> {p ..< p + round_block sz} \<subseteq> space bs)"
    then show ?thesis using alloc.hyps(2) alloc.prems by simp
  next
    let ?n = "round_block sz"
    assume "\<exists>p bs' m' h'. heap_alloc sz algn m h = Some (p, m', h') \<and> hbase h \<le> p \<and>
       (if algn < ALIGN then ALIGN else algn) dvd p \<and> {p ..< p + ?n} \<subseteq> space bs \<and>
       seg m' (head h') bs' 0 \<and> blocks_ok (hbase h) (hend h) bs' \<and>
       space bs' = space bs - {p ..< p + ?n} \<and> mem_upd (space bs) m m' \<and>
       (\<exists>c. h' = h\<lparr>head := c, live := u64_add (live h) ?n\<rparr>)"
    then obtain bs' c where r: "hbase h \<le> p" "(if algn < ALIGN then ALIGN else algn) dvd p"
        "{p ..< p + ?n} \<subseteq> space bs" "seg m' (head h') bs' 0" "blocks_ok (hbase h) (hend h) bs'"
        "space bs' = space bs - {p ..< p + ?n}" "h' = h\<lparr>head := c, live := u64_add (live h) ?n\<rparr>"
      using alloc.hyps(2) by auto
    have sz: "sz < 4611686018427387904" using alloc.hyps(1) by (simp add: request_ok_def)
    have bp: "block_of (p, sz) = {p ..< p + ?n}" "p \<in> block_of (p, sz)"
      using block_of_bounds(1) [of "(p, sz)"] sz by (auto simp: block_of_def)
    have p0: "p \<noteq> 0" using r(1) b(1) by simp
    have new: "(p, sz) \<notin> own" using o(6) bp r(3) by blast
    have "16 dvd (if algn < ALIGN then ALIGN else algn)"
      using request_fits [OF alloc.hyps(1) b(2)] by (simp add: fits_u64_def)
    then have al: "16 dvd p" using r(2) by (rule dvd_trans)
    have "finite (space bs)" "{p ..< p + ?n} \<subseteq> {hbase h ..< hend h}" using r(3) o(7) by auto
    then have "p + ?n \<le> hend h" using bp by auto
    then have "u64_add (live h) ?n = live h + ?n" using b(2,5) o(8) by simp
    moreover have "{hbase h ..< hend h} = space bs' \<union> (\<Union>b \<in> insert (p, sz) own. block_of b)"
      using r(3,6) o(7) bp by auto
    moreover have "\<forall>b \<in> insert (p, sz) own. \<forall>c \<in> insert (p, sz) own. b \<noteq> c \<longrightarrow> block_of b \<inter> block_of c = {}"
      using o(5,6) bp r(3) by blast
    moreover have "\<forall>b \<in> insert (p, sz) own. block_of b \<inter> space bs' = {}"
      using o(6) r(6) bp by blast
    ultimately show ?thesis
      using r(4,5,7) o(3,4,8) new al sz p0 alloc.prems
      unfolding heap_ok_def by (auto intro!: exI [where x = bs'])
  qed
next
  case (dealloc p sz own m h m' h')
  note b = heap_ok_bounds [OF ar dealloc.prems]
  obtain bs where o: "seg m (head h) bs 0" "blocks_ok (hbase h) (hend h) bs" "finite own"
      "\<forall>b \<in> own. 16 dvd fst b \<and> snd b < 4611686018427387904"
      "\<forall>b \<in> own. \<forall>c \<in> own. b \<noteq> c \<longrightarrow> block_of b \<inter> block_of c = {}"
      "\<forall>b \<in> own. block_of b \<inter> space bs = {}"
      "{hbase h ..< hend h} = space bs \<union> (\<Union>b \<in> own. block_of b)"
      "live h = (\<Sum>b \<in> own. round_block (snd b))"
    using dealloc.prems by (auto simp: heap_ok_def)
  let ?n = "round_block sz"
  have sz: "sz < 4611686018427387904" "16 dvd p" using o(4) dealloc.hyps(1) by auto
  have bp: "block_of (p, sz) = {p ..< p + ?n}" by (simp add: block_of_def)
  have ia: "hbase h \<le> p" "p + ?n \<le> hend h"
    using block_in_arena [OF o(7) dealloc.hyps(1)] sz by auto
  have dj: "{p ..< p + ?n} \<inter> space bs = {}" using o(6) dealloc.hyps(1) bp by blast
  from heap_dealloc_spec [OF o(1,2) b(1,2) dj ia sz(2,1)] dealloc.hyps(2)
  obtain bs' c where r: "seg m' (head h') bs' 0" "blocks_ok (hbase h) (hend h) bs'"
      "space bs' = space bs \<union> {p ..< p + ?n}" "h' = h\<lparr>head := c, live := u64_sub (live h) ?n\<rparr>"
    by auto
  have sm: "live h = ?n + (\<Sum>b \<in> own - {(p, sz)}. round_block (snd b))"
    unfolding o(8) by (subst sum.remove [OF o(3) dealloc.hyps(1)]) simp
  then have "u64_sub (live h) ?n = (\<Sum>b \<in> own - {(p, sz)}. round_block (snd b))"
    using b(2,5) o(8) by simp
  moreover have "(\<Union>b \<in> own. block_of b) = block_of (p, sz) \<union> (\<Union>b \<in> own - {(p, sz)}. block_of b)"
    using dealloc.hyps(1) by blast
  then have "{hbase h ..< hend h} = space bs' \<union> (\<Union>b \<in> own - {(p, sz)}. block_of b)"
    unfolding o(7) r(3) bp by blast
  moreover have "\<forall>b \<in> own - {(p, sz)}. block_of b \<inter> space bs' = {}"
    unfolding r(3) using o(5,6) dealloc.hyps(1) bp by blast
  ultimately show ?case
    using r(1,2,4) o(3-5) dealloc.prems unfolding heap_ok_def by (auto intro!: exI [where x = bs'])
next
  case (store p sz own x m h v)
  obtain bs where o: "seg m (head h) bs 0" "blocks_ok (hbase h) (hend h) bs"
      "\<forall>b \<in> own. 16 dvd fst b \<and> snd b < 4611686018427387904" "\<forall>b \<in> own. block_of b \<inter> space bs = {}"
    and all: "finite own"  "\<forall>b \<in> own. \<forall>c \<in> own. b \<noteq> c \<longrightarrow> block_of b \<inter> block_of c = {}"
      "{hbase h ..< hend h} = space bs \<union> (\<Union>b \<in> own. block_of b)"
      "live h = (\<Sum>b \<in> own. round_block (snd b))"
    using store.prems by (auto simp: heap_ok_def)
  have "sz \<le> round_block sz" using block_of_bounds(2) [of "(p, sz)"] o(3) store.hyps(1) by auto
  then have "x \<in> block_of (p, sz)" using store.hyps by (simp add: block_of_def)
  then have "x \<notin> space bs" using o(4) store.hyps(1) by blast
  then have "seg (m(x := v)) (head h) bs 0" by (rule seg_outside [OF o(1,2)])
  then show ?case using o(2-4) all store.prems unfolding heap_ok_def by (auto intro!: exI [where x = bs])
qed

lemma heap_init_eq:
  assumes "arena_ok bas arena"
  shows "heap_init bas arena m = (write_hdr bas (arena div 16 * 16) 0 m,
     \<lparr>head = bas, hbase = bas, hend = bas + arena div 16 * 16, live = 0\<rparr>)"
proof -
  have "(of_nat (ALIGN - 1) :: u64) = mask 4" by (simp add: ALIGN_def mask_eq_exp_minus_1)
  moreover have "arena < 18446744073709551616" using assms(1) by (simp add: arena_ok_def)
  ultimately have e: "unat (and (of_nat arena) (not (of_nat (ALIGN - 1))) :: u64) = arena div 16 * 16"
    using clear_low_bits [of arena 4] by simp
  have "arena div 16 * 16 \<le> arena" by simp
  then have "bas + arena div 16 * 16 < 18446744073709551616"
    using assms unfolding arena_ok_def by linarith
  then show ?thesis unfolding heap_init_def Let_def e by simp
qed

lemma heap_init_ok:
  assumes "arena_ok bas arena" "heap_init bas arena m = (m', h)"
  shows "heap_ok bas arena (m', h, {})"
proof -
  define z where "z = arena div 16 * 16"
  have z: "16 dvd z" "0 < z" "z \<le> arena" using assms(1) by (auto simp: z_def arena_ok_def)
  have h: "h = \<lparr>head = bas, hbase = bas, hend = bas + z, live = 0\<rparr>" "m' = write_hdr bas z 0 m"
    using heap_init_eq [OF assms(1), of m, folded z_def] assms(2) by simp_all
  have "seg m' bas [(bas, z)] 0"
    using assms(1) by (simp add: h write_hdr_def set_next_def set_size_def arena_ok_def)
  then show ?thesis
    using assms(1) z by (auto simp: heap_ok_def h z_def [symmetric] arena_ok_def intro!: exI [where x = "[(bas, z)]"])
qed

lemma heap_reach_ok:
  assumes "arena_ok bas arena" "heap_reach bas arena s"
  shows "heap_ok bas arena s"
  using assms(2)
  by (induction rule: heap_reach.induct) (auto intro: heap_init_ok heap_step_ok assms(1))

section \<open>The properties\<close>

definition ex_mem :: mem where "ex_mem = fst (heap_init 4096 1024 (\<lambda>_. 0))"
definition ex_heap :: heap where "ex_heap = snd (heap_init 4096 1024 (\<lambda>_. 0))"

lemma ex_arena: "arena_ok 4096 1024"
  by (simp add: arena_ok_def)

lemma ex_mem_eq: "ex_mem = write_hdr 4096 1024 0 (\<lambda>_. 0)"
  and ex_heap_eq: "ex_heap = \<lparr>head = 4096, hbase = 4096, hend = 5120, live = 0\<rparr>"
  by (simp_all add: ex_mem_def ex_heap_def heap_init_eq [OF ex_arena])

lemma ex_reach: "heap_reach 4096 1024 (ex_mem, ex_heap, {})"
  by (rule heap_reach.init [of _ _ "\<lambda>_. 0"]) (simp add: ex_mem_def ex_heap_def)

lemma ex_request: "request_ok 100 64"
  by (auto simp: request_ok_def intro!: exI [where x = 6])

lemma ex_round: "round_block 100 = 112"
  using align_up_eq [of 16 4 100] by (simp add: round_block_def HDR_def ALIGN_def)

lemma ex_bounds: "hbase ex_heap = 4096" "hend ex_heap = 5120"
  by (simp_all add: ex_heap_eq)

lemma ex_fits: "\<exists>q. max 64 16 dvd q \<and>
    {q ..< q + round_block 100} \<subseteq> {hbase ex_heap ..< hend ex_heap} - (\<Union>b \<in> {}. block_of b)"
  by (intro exI [where x = 4096]) (simp add: ex_round ex_bounds)

text \<open>
  C4: In every state the heap and its clients can reach, the free list is sorted, 16-aligned,
  coalesced and inside the arena; the outstanding blocks are 16-aligned, pairwise disjoint and
  disjoint from the free blocks; free and outstanding blocks together tile the arena; and
  \<open>live\<close> is the number of bytes handed out.
\<close>

theorem heap_invariant:
  assumes "arena_ok bas arena" "heap_reach bas arena s"
  shows "heap_ok bas arena s"
  by (rule heap_reach_ok [OF assms])

lemma heap_invariant_witness: "heap_ok 4096 1024 (ex_mem, ex_heap, {})"
  by (rule heap_invariant [OF ex_arena ex_reach])

lemma owned_space:
  assumes "heap_ok bas arena (m, h, own)" "seg m (head h) bs 0" "blocks_ok (hbase h) (hend h) bs"
  shows "space bs = {hbase h ..< hend h} - (\<Union>b \<in> own. block_of b)"
proof -
  obtain cs where c: "seg m (head h) cs 0" "\<forall>b \<in> own. block_of b \<inter> space cs = {}"
      "{hbase h ..< hend h} = space cs \<union> (\<Union>b \<in> own. block_of b)"
    using assms(1) by (auto simp: heap_ok_def)
  have "bs = cs" if "seg m a bs 0" "seg m a cs 0" for a bs cs
    using that
  proof (induction bs arbitrary: a cs)
    case Nil
    then show ?case by (cases cs) (auto simp: split_paired_all)
  next
    case (Cons x bs)
    then show ?case by (cases cs; cases x) (auto simp: split_paired_all)
  qed
  then have "bs = cs" using assms(2) c(1) by blast
  then show ?thesis using c(2,3) by blast
qed

text \<open>
  C30: \<open>alloc\<close> always returns. It returns a nonzero block that has the requested alignment,
  lies in the arena, meets no outstanding block and leaves the contents of every outstanding
  block alone; or it returns 0 with nothing changed, and then no aligned range of that size
  is free.
\<close>

theorem heap_alloc_correct:
  assumes "arena_ok bas arena" "heap_reach bas arena (m, h, own)" "request_ok sz algn"
  shows "(heap_alloc sz algn m h = Some (0, m, h) \<and>
        (\<forall>p. max algn 16 dvd p \<longrightarrow> \<not> {p ..< p + round_block sz} \<subseteq> {hbase h ..< hend h} - (\<Union>b \<in> own. block_of b)))
    \<or> (\<exists>p m' h'. heap_alloc sz algn m h = Some (p, m', h') \<and> p \<noteq> 0 \<and> max algn 16 dvd p \<and>
        {p ..< p + round_block sz} \<subseteq> {hbase h ..< hend h} - (\<Union>b \<in> own. block_of b) \<and>
        (\<forall>b \<in> own. \<forall>x \<in> block_of b. m' x = m x))"
proof -
  have ok: "heap_ok bas arena (m, h, own)" by (rule heap_reach_ok [OF assms(1,2)])
  note b = heap_ok_bounds [OF assms(1) ok]
  obtain bs where o: "seg m (head h) bs 0" "blocks_ok (hbase h) (hend h) bs"
      "\<forall>b \<in> own. block_of b \<inter> space bs = {}"
    using ok by (auto simp: heap_ok_def)
  have a: "(if algn < ALIGN then ALIGN else algn) = max algn 16" by (simp add: ALIGN_def max_def)
  note sp = owned_space [OF ok o(1,2)]
  from heap_alloc_spec [OF o(1,2) b(1,2) assms(3), unfolded a]
  show ?thesis
  proof
    assume "\<exists>p bs' m' h'. heap_alloc sz algn m h = Some (p, m', h') \<and> hbase h \<le> p \<and> max algn 16 dvd p \<and>
       {p ..< p + round_block sz} \<subseteq> space bs \<and> seg m' (head h') bs' 0 \<and> blocks_ok (hbase h) (hend h) bs' \<and>
       space bs' = space bs - {p ..< p + round_block sz} \<and> mem_upd (space bs) m m' \<and>
       (\<exists>c. h' = h\<lparr>head := c, live := u64_add (live h) (round_block sz)\<rparr>)"
    then obtain p m' h' where r: "heap_alloc sz algn m h = Some (p, m', h')" "hbase h \<le> p" "max algn 16 dvd p"
        "{p ..< p + round_block sz} \<subseteq> space bs" "mem_upd (space bs) m m'" by blast
    have "\<forall>b \<in> own. \<forall>x \<in> block_of b. m' x = m x"
      using r(5) o(3) unfolding mem_upd_def by blast
    then show ?thesis using r b(1) unfolding sp by auto
  qed (simp add: sp)
qed

lemma heap_alloc_correct_witness:
  "\<exists>p m' h'. heap_alloc 100 64 ex_mem ex_heap = Some (p, m', h') \<and> p \<noteq> 0 \<and> 64 dvd p \<and>
     {p ..< p + 112} \<subseteq> {4096 ..< 5120}"
  using heap_alloc_correct [OF ex_arena ex_reach ex_request] ex_fits
  unfolding ex_round ex_bounds by auto

text \<open>
  Releasing an outstanding block always returns, makes exactly that block's addresses free
  again, and leaves the contents of every other outstanding block alone.
\<close>

theorem heap_dealloc_correct:
  assumes "arena_ok bas arena" "heap_reach bas arena (m, h, own)" "(p, sz) \<in> own"
  shows "\<exists>m' h'. heap_dealloc p sz m h = Some (m', h') \<and> heap_ok bas arena (m', h', own - {(p, sz)}) \<and>
      (\<forall>b \<in> own - {(p, sz)}. \<forall>x \<in> block_of b. m' x = m x)"
proof -
  have ok: "heap_ok bas arena (m, h, own)" by (rule heap_reach_ok [OF assms(1,2)])
  note b = heap_ok_bounds [OF assms(1) ok]
  obtain bs where o: "seg m (head h) bs 0" "blocks_ok (hbase h) (hend h) bs"
      "\<forall>b \<in> own. 16 dvd fst b \<and> snd b < 4611686018427387904"
      "\<forall>b \<in> own. \<forall>c \<in> own. b \<noteq> c \<longrightarrow> block_of b \<inter> block_of c = {}"
      "\<forall>b \<in> own. block_of b \<inter> space bs = {}"
      "{hbase h ..< hend h} = space bs \<union> (\<Union>b \<in> own. block_of b)"
    using ok by (auto simp: heap_ok_def)
  have bp: "block_of (p, sz) = {p ..< p + round_block sz}" by (simp add: block_of_def)
  have sz: "sz < 4611686018427387904" "16 dvd p" using o(3) assms(3) by auto
  have ia: "hbase h \<le> p" "p + round_block sz \<le> hend h"
    using block_in_arena [OF o(6) assms(3)] sz by auto
  have dj: "{p ..< p + round_block sz} \<inter> space bs = {}" using o(5) assms(3) bp by blast
  from heap_dealloc_spec [OF o(1,2) b(1,2) dj ia sz(2,1)]
  obtain m' h' where r: "heap_dealloc p sz m h = Some (m', h')"
      "mem_upd (space bs \<union> {p ..< p + round_block sz}) m m'" by blast
  have "heap_ok bas arena (m', h', own - {(p, sz)})"
    by (rule heap_step_ok [OF assms(1) heap_step.dealloc [OF assms(3) r(1)] ok])
  moreover have "\<forall>b \<in> own - {(p, sz)}. \<forall>x \<in> block_of b. m' x = m x"
    using r(2) o(4,5) assms(3) bp unfolding mem_upd_def by blast
  ultimately show ?thesis using r(1) by blast
qed

lemma ex_seg: "seg ex_mem (head ex_heap) [(4096, 1024)] 0"
  by (simp add: ex_mem_eq ex_heap_eq write_hdr_def set_next_def set_size_def)

lemma ex_reach1: "\<exists>p m h. heap_reach 4096 1024 (m, h, {(p, 100)})"
proof -
  have bl: "blocks_ok 4096 5120 [(4096, 1024)]" by simp
  have "\<not> {4096 ..< 4096 + round_block 100} \<subseteq> space [(4096, 1024)] \<Longrightarrow> False"
    by (simp add: ex_round)
  moreover have "(if (64::nat) < ALIGN then ALIGN else 64) dvd 4096" by (simp add: ALIGN_def)
  ultimately obtain p m h where a: "heap_alloc 100 64 ex_mem ex_heap = Some (p, m, h)" "4096 \<le> p"
    using heap_alloc_spec [OF ex_seg bl _ _ ex_request] by auto
  have "heap_step (ex_mem, ex_heap, {}) (m, h, {(p, 100)})"
    using heap_step.alloc [OF ex_request a(1), of "{}"] a(2) by simp
  then show ?thesis using heap_reach.step [OF ex_reach] by blast
qed

lemma heap_dealloc_correct_witness:
  "\<exists>p m h m' h'. heap_reach 4096 1024 (m, h, {(p, 100)}) \<and> heap_dealloc p 100 m h = Some (m', h')
     \<and> heap_ok 4096 1024 (m', h', {})"
proof -
  obtain p m h where r: "heap_reach 4096 1024 (m, h, {(p, 100)})" using ex_reach1 by blast
  from heap_dealloc_correct [OF ex_arena r, of p 100] obtain m' h'
    where "heap_dealloc p 100 m h = Some (m', h')" "heap_ok 4096 1024 (m', h', {})" by auto
  with r show ?thesis by blast
qed

text \<open>
  When every block has been released, in whatever order, the arena is one free block again
  and \<open>live\<close> is 0: no fragmentation is permanent.
\<close>

theorem heap_coalesces:
  assumes "arena_ok bas arena" "heap_reach bas arena (m, h, {})"
  shows "seg m (head h) [(hbase h, hend h - hbase h)] 0 \<and> live h = 0"
proof -
  have ok: "heap_ok bas arena (m, h, {})" by (rule heap_reach_ok [OF assms])
  note b = heap_ok_bounds [OF assms(1) ok]
  obtain bs where o: "seg m (head h) bs 0" "blocks_ok (hbase h) (hend h) bs" "live h = 0"
    "{hbase h ..< hend h} = space bs"
    using ok by (auto simp: heap_ok_def)
  have e: "hend h = bas + arena div 16 * 16" "0 < arena div 16"
    using ok assms(1) by (auto simp: heap_ok_def arena_ok_def)
  have "bs = [(hbase h, hend h - hbase h)]"
  proof (rule blocks_canonical [OF o(2)])
    show "blocks_ok (hbase h) (hend h) [(hbase h, hend h - hbase h)]"
      using e b(3,4) by simp
    show "space bs = space [(hbase h, hend h - hbase h)]"
      using o(4) e b(3) by simp
  qed
  then show ?thesis using o(1,3) by simp
qed

lemma heap_coalesces_witness: "seg ex_mem (head ex_heap) [(hbase ex_heap, hend ex_heap - hbase ex_heap)] 0"
  using heap_coalesces [OF ex_arena ex_reach] by blast

end
