(* ===== verification/Bignum.thy ===== *)
theory Bignum
  imports Prelude
begin

text \<open>
  Modular exponentiation, \<open>kernel/src/bignum.rs\<close>. A number is a little-endian list of 64-bit
  limbs. Limbs and the \<open>u128\<close> intermediates are natural numbers; the casts back to \<open>u64\<close> are
  \<open>mod LIMB\<close>, the shifts by 64 are \<open>div LIMB\<close> (no \<open>u128\<close> sum of the program reaches
  $2^{128}$). The loops \<open>for j in 0..s\<close> over several arrays of \<open>s\<close> limbs are recursions over
  those lists; all lists of one call have the length of the modulus.
\<close>

section \<open>The program\<close>

definition LIMB :: nat where "LIMB = 18446744073709551616"

text \<open>Newton iteration for $-n_0^{-1}$ modulo $2^{64}$, on wrapping 64-bit words.\<close>

definition n0inv_step :: "u64 \<Rightarrow> u64 \<Rightarrow> u64" where
  "n0inv_step n0 x = x * (2 - n0 * x)"

definition n0inv :: "u64 \<Rightarrow> u64" where
  "n0inv n0 = - ((n0inv_step n0 ^^ 6) 1)"

fun from_be_loop :: "nat \<Rightarrow> nat list \<Rightarrow> nat \<Rightarrow> bytes \<Rightarrow> nat list" where
  "from_be_loop k limbs b [] = limbs"
| "from_be_loop k limbs b (x # xs) =
     (let limb = b div 64; shift = b mod 64;
          limbs' = (if limb < k then
             let l = limbs[limb := or (limbs ! limb) (push_bit shift (unat x) mod LIMB)]
             in if shift > 56 \<and> limb + 1 < k
                then l[limb + 1 := or (l ! (limb + 1)) (drop_bit (64 - shift) (unat x))] else l
             else limbs)
      in from_be_loop k limbs' (b + 8) xs)"

definition from_be :: "bytes \<Rightarrow> nat \<Rightarrow> nat list" where
  "from_be bs k = from_be_loop k (replicate k 0) 0 (rev bs)"

definition to_be :: "nat list \<Rightarrow> bytes" where
  "to_be limbs = concat (map (be_of_nat 8) (rev limbs))"

fun ge_from :: "nat list \<Rightarrow> nat list \<Rightarrow> nat \<Rightarrow> bool" where
  "ge_from a b 0 = True"
| "ge_from a b (Suc i) = (if a ! i \<noteq> b ! i then a ! i > b ! i else ge_from a b i)"

definition ge :: "nat list \<Rightarrow> nat list \<Rightarrow> bool" where
  "ge a b = ge_from a b (length a)"

fun sub_loop :: "nat list \<Rightarrow> nat list \<Rightarrow> int \<Rightarrow> nat list" where
  "sub_loop (x # xs) (y # ys) borrow =
     (let v = (int x - int y - borrow) mod (int LIMB * int LIMB)
      in nat (v mod int LIMB) # sub_loop xs ys (v div int LIMB mod 2))"
| "sub_loop xs ys borrow = xs"

definition sub_assign :: "nat list \<Rightarrow> nat list \<Rightarrow> nat list" where
  "sub_assign a b = sub_loop a b 0"

text \<open>\<open>x = t[j] + a[j] * m + c; t[j] = x as u64; c = x >> 64\<close> for consecutive \<open>j\<close>.\<close>

fun mac_loop :: "nat \<Rightarrow> nat list \<Rightarrow> nat list \<Rightarrow> nat \<Rightarrow> nat list \<times> nat" where
  "mac_loop m (t # ts) (a # as) c =
     (let x = t + a * m + c; (r, c') = mac_loop m ts as (x div LIMB) in (x mod LIMB # r, c'))"
| "mac_loop m ts as c = ([], c)"

text \<open>One iteration over the limb \<open>bi\<close> of \<open>b\<close>.\<close>

definition mont_row :: "nat list \<Rightarrow> nat list \<Rightarrow> nat \<Rightarrow> nat list \<Rightarrow> nat \<Rightarrow> nat list" where
  "mont_row a n n0i t bi =
     (let s = length n;
          (lo, c) = mac_loop bi (take s t) a 0;
          x = t ! s + c;
          ts = x mod LIMB;
          ts1 = x div LIMB mod LIMB;
          m = lo ! 0 * n0i mod LIMB;
          x = lo ! 0 + m * n ! 0;
          (lo', c2) = mac_loop m (tl lo) (tl n) (x div LIMB);
          x = ts + c2
      in lo' @ [x mod LIMB, (ts1 + x div LIMB mod LIMB) mod LIMB, ts1])"

definition mont_mul :: "nat list \<Rightarrow> nat list \<Rightarrow> nat list \<Rightarrow> nat \<Rightarrow> nat list" where
  "mont_mul a b n n0i =
     (let s = length n;
          t = foldl (mont_row a n n0i) (replicate (s + 2) 0) (take s b);
          res = take s t
      in if t ! s \<noteq> 0 \<or> ge res n then sub_assign res n else res)"

text \<open>\<open>rr <<= 1\<close> over the limbs, then the conditional subtraction.\<close>

fun shl1_loop :: "nat list \<Rightarrow> nat \<Rightarrow> nat list \<times> nat" where
  "shl1_loop [] carry = ([], carry)"
| "shl1_loop (l # ls) carry =
     (let nc = drop_bit 63 l; (r, c) = shl1_loop ls nc
      in (or (push_bit 1 l mod LIMB) carry # r, c))"

definition rr_step :: "nat list \<Rightarrow> nat list \<Rightarrow> nat list" where
  "rr_step nl rr = (let (rr', carry) = shl1_loop rr 0
                    in if carry \<noteq> 0 \<or> ge rr' nl then sub_assign rr' nl else rr')"

text \<open>One exponent bit of the square-and-multiply loop; the state is \<open>result\<close> and \<open>started\<close>.\<close>

definition exp_bit :: "nat list \<Rightarrow> nat list \<Rightarrow> nat \<Rightarrow> nat list \<times> bool \<Rightarrow> bool \<Rightarrow> nat list \<times> bool" where
  "exp_bit a_mont nl n0i st b =
     (let (result, started) = st;
          result = (if started then mont_mul result result nl n0i else result)
      in if b then if \<not> started then (a_mont, True) else (mont_mul result a_mont nl n0i, started)
         else (result, started))"

definition msb_bits :: "byte \<Rightarrow> bool list" where
  "msb_bits x = map (\<lambda>i. and (drop_bit i x) 1 = 1) (rev [0..<8])"

fun trim :: "bytes \<Rightarrow> bytes" where
  "trim (x # y # zs) = (if x = 0 then trim (y # zs) else x # y # zs)"
| "trim xs = xs"

definition mod_exp :: "bytes \<Rightarrow> bytes \<Rightarrow> bytes \<Rightarrow> bytes" where
  "mod_exp bas ex n =
     (let n_trim = trim n; k = (length n_trim + 7) div 8
      in if k = 0 then []
         else let nl = from_be n_trim k
         in if and (nl ! 0) 1 = 0 then []
            else let n0i = unat (n0inv (of_nat (nl ! 0)));
                     one = (replicate k 0)[0 := 1];
                     rr = (rr_step nl ^^ (128 * k)) one;
                     base_l = from_be bas k;
                     base_l = (if ge base_l nl then sub_assign base_l nl else base_l);
                     a_mont = mont_mul base_l rr nl n0i;
                     result = mont_mul one rr nl n0i;
                     (result, started) =
                       foldl (exp_bit a_mont nl n0i) (result, False) (concat (map msb_bits ex))
                 in to_be (if \<not> started then one else mont_mul result one nl n0i))"

section \<open>Limb lists as numbers\<close>

fun limbs_val :: "nat list \<Rightarrow> nat" where
  "limbs_val [] = 0"
| "limbs_val (x # xs) = x + LIMB * limbs_val xs"

definition limbs_ok :: "nat list \<Rightarrow> bool" where
  "limbs_ok xs \<longleftrightarrow> (\<forall>x \<in> set xs. x < LIMB)"

lemma limbs_ok_simps [simp]:
  "limbs_ok []" "limbs_ok (x # xs) \<longleftrightarrow> x < LIMB \<and> limbs_ok xs"
  "limbs_ok (xs @ ys) \<longleftrightarrow> limbs_ok xs \<and> limbs_ok ys"
  by (auto simp: limbs_ok_def)

lemma LIMB_pos [simp]: "0 < LIMB" "1 < LIMB"
  by (simp_all add: LIMB_def)

lemma limbs_val_append: "limbs_val (xs @ ys) = limbs_val xs + LIMB ^ length xs * limbs_val ys"
  by (induction xs) (auto simp: algebra_simps)

lemma limbs_val_replicate [simp]: "limbs_val (replicate k 0) = 0"
  by (induction k) auto

lemma limbs_val_lt: "limbs_ok xs \<Longrightarrow> limbs_val xs < LIMB ^ length xs"
proof (induction xs)
  case (Cons x xs)
  then have "x + LIMB * limbs_val xs < LIMB * Suc (limbs_val xs)" by simp
  also have "\<dots> \<le> LIMB * LIMB ^ length xs" using Cons by (intro mult_le_mono2) simp
  finally show ?case by simp
qed simp

lemma limbs_val_inj:
  "limbs_ok xs \<Longrightarrow> limbs_ok ys \<Longrightarrow> length xs = length ys \<Longrightarrow> limbs_val xs = limbs_val ys \<Longrightarrow> xs = ys"
proof (induction xs arbitrary: ys)
  case (Cons x xs)
  obtain y ys' where y: "ys = y # ys'" using Cons.prems(3) by (cases ys) auto
  have e: "x + LIMB * limbs_val xs = y + LIMB * limbs_val ys'" using Cons.prems(4) y by simp
  have "(x + LIMB * limbs_val xs) mod LIMB = x" "(y + LIMB * limbs_val ys') mod LIMB = y"
 if "x < LIMB" "y < LIMB" using that by simp_all
  moreover have "x < LIMB" "y < LIMB" using Cons.prems y by simp_all
  ultimately have "x = y" using e by metis
  then show ?case using Cons e y LIMB_pos(1) by simp
qed simp

section \<open>Comparison and subtraction\<close>

lemma ge_from_correct:
  assumes "limbs_ok a" "limbs_ok b" "i \<le> length a" "i \<le> length b"
  shows "ge_from a b i \<longleftrightarrow> limbs_val (take i b) \<le> limbs_val (take i a)"
  using assms(3,4)
proof (induction i)
  case (Suc i)
  have v: "limbs_val (take (Suc i) xs) = limbs_val (take i xs) + LIMB ^ i * (xs ! i)"
    if "i < length xs" for xs
    using that by (simp add: take_Suc_conv_app_nth limbs_val_append)
  have va: "limbs_val (take i xs) < LIMB ^ i" if "limbs_ok xs" "i \<le> length xs" for xs
    using limbs_val_lt [of "take i xs"] that by (auto simp: limbs_ok_def min_absorb2 dest: in_set_takeD)
  have lt: "limbs_val (take i xs) + LIMB ^ i * x < LIMB ^ i * y" if "x < y" "limbs_ok xs" "i \<le> length xs" for xs x y
  proof -
    have "limbs_val (take i xs) + LIMB ^ i * x < LIMB ^ i * Suc x" using va [OF that(2,3)] by simp
    also have "\<dots> \<le> LIMB ^ i * y" using that(1) by (intro mult_le_mono2) simp
    finally show ?thesis .
  qed
  show ?case
  proof (cases "a ! i" "b ! i" rule: linorder_cases)
    case less
    from lt [OF this assms(1)] less Suc.prems show ?thesis by (simp add: v)
  next
    case equal
    then show ?thesis using Suc by (simp add: v)
  next
    case greater
    from lt [OF this assms(2)] greater Suc.prems show ?thesis by (simp add: v)
  qed
qed simp

lemma ge_correct:
  "limbs_ok a \<Longrightarrow> limbs_ok b \<Longrightarrow> length a = length b \<Longrightarrow> ge a b \<longleftrightarrow> limbs_val b \<le> limbs_val a"
  using ge_from_correct [of a b "length a"] by (simp add: ge_def)

lemma sub_loop_correct:
  assumes "length xs = length ys" "limbs_ok xs" "limbs_ok ys" "borrow \<in> {0, 1}"
  shows "limbs_ok (sub_loop xs ys borrow) \<and> length (sub_loop xs ys borrow) = length xs \<and>
    int (limbs_val (sub_loop xs ys borrow))
      = (int (limbs_val xs) - int (limbs_val ys) - borrow) mod (int LIMB ^ length xs)"
  using assms
proof (induction xs ys arbitrary: borrow rule: list_induct2)
  case (Cons x xs y ys)
  define L where "L = int LIMB"
  have L: "0 < L" "2 \<le> L" by (auto simp: L_def LIMB_def)
  define d where "d = int x - int y - borrow"
  have d: "-L \<le> d" "d < L" using Cons.prems by (auto simp: d_def L_def)
  define v where "v = d mod (L * L)"
  have LL: "L \<le> L * L" using L by simp
  define bw where "bw = (if d < 0 then 1 else 0 :: int)"
  have v: "v mod L = d + L * bw \<and> v div L mod 2 = bw"
  proof (cases "d < 0")
    case False
    have "d < L * L" using d(2) LL by linarith
    then have "v = d" using False by (simp add: v_def)
    then show ?thesis using d False by (simp add: bw_def)
  next
    case True
    have "0 \<le> d + L * L" "d + L * L < L * L" using d(1) True LL by linarith+
    then have "(d + L * L) mod (L * L) = d + L * L" by (rule mod_pos_pos_trivial)
    then have "v = d + L * L" by (simp only: v_def mod_add_self2)
    then have v': "v = (d + L) + L * (L - 1)" by (simp add: algebra_simps)
    have "0 \<le> d + L" "d + L < L" using d True by auto
    then have dl: "(d + L) mod L = d + L" "(d + L) div L = 0"
      by (auto intro: mod_pos_pos_trivial div_pos_pos_trivial simp del: mod_add_self2)
    have m: "v mod L = d + L" unfolding v' mod_mult_self2 by (rule dl(1))
    have L0: "L \<noteq> 0" using L by simp
    have dv: "v div L = L - 1" unfolding v' div_mult_self2 [OF L0] dl(2) by simp
    have "(L - 1) mod 2 = 1" by (simp add: L_def LIMB_def)
    then show ?thesis using m dv True by (simp add: bw_def)
  qed
  have bw: "bw \<in> {0, 1}" by (simp add: bw_def)
  define r where "r = sub_loop xs ys bw"
  have IH: "limbs_ok r" "length r = length xs"
    "int (limbs_val r) = (int (limbs_val xs) - int (limbs_val ys) - bw) mod L ^ length xs"
    using Cons.IH [OF _ _ bw] Cons.prems by (simp_all add: r_def L_def)
  have s: "sub_loop (x # xs) (y # ys) borrow = nat (d + L * bw) # r"
    using v by (simp add: Let_def r_def d_def [symmetric] L_def [symmetric] v_def [symmetric])
  have nn: "0 \<le> d + L * bw" "d + L * bw < L" using d by (auto simp: bw_def)
  define e where "e = int (limbs_val xs) - int (limbs_val ys) - bw"
  have eq: "int (limbs_val (x # xs)) - int (limbs_val (y # ys)) - borrow = (d + L * bw) + L * e"
    by (simp add: d_def e_def L_def algebra_simps)
  have "((d + L * bw) + L * e) mod (L * L ^ length xs) = (d + L * bw) + L * (e mod L ^ length xs)"
  proof -
    define M where "M = L ^ length xs"
    have M: "0 < M" using L by (simp add: M_def)
    have "(d + L * bw) + L * e = ((d + L * bw) + L * (e mod M)) + L * M * (e div M)"
      using mult_div_mod_eq [of M e] by (metis (no_types, opaque_lifting) add.assoc add.commute distrib_left mult.assoc)
    moreover have "0 \<le> (d + L * bw) + L * (e mod M)" using nn M L by simp
    moreover have "(d + L * bw) + L * (e mod M) < L * M"
    proof -
      have "e mod M + 1 \<le> M" using M by (simp add: add1_zle_eq)
      then have "L * (e mod M + 1) \<le> L * M" using L by (intro mult_left_mono) auto
      then show ?thesis using nn by (simp add: algebra_simps)
    qed
    ultimately show ?thesis unfolding M_def [symmetric] by (metis mod_mult_self2 mod_pos_pos_trivial)
  qed
  then have "int (limbs_val (sub_loop (x # xs) (y # ys) borrow))
      = (int (limbs_val (x # xs)) - int (limbs_val (y # ys)) - borrow) mod (L ^ length (x # xs))"
    unfolding eq s using IH(3) nn by (simp add: e_def L_def [symmetric])
  moreover have "nat (d + L * bw) < LIMB" using nn by (simp add: L_def nat_less_iff)
  ultimately show ?case using IH s by (simp add: L_def)
qed simp

lemma sub_assign_correct:
  assumes "length a = length b" "limbs_ok a" "limbs_ok b"
  shows "limbs_ok (sub_assign a b)" "length (sub_assign a b) = length a"
    "int (limbs_val (sub_assign a b)) = (int (limbs_val a) - int (limbs_val b)) mod (int LIMB ^ length a)"
  using sub_loop_correct [OF assms, of 0] by (simp_all add: sub_assign_def)

end
