(* ===== verification/Bignum_Mont.thy ===== *)
theory Bignum_Mont
  imports Bignum
begin

text \<open>
  The Montgomery product: each row adds $a b_i + m n$ and divides by the limb base exactly, so
  that after all rows the accumulator times $R$ is $ab + Mn$ with $M < R$.
\<close>

section \<open>The Newton inverse\<close>

lemma n0inv_step_square: "1 - n0 * n0inv_step n0 x = (1 - n0 * x) ^ 2"
  by (simp add: n0inv_step_def power2_eq_square algebra_simps)

lemma n0inv_iter: "1 - n0 * (n0inv_step n0 ^^ i) 1 = (1 - n0) ^ (2 ^ i)"
proof (induction i)
  case (Suc i)
  then show ?case by (simp add: n0inv_step_square power_mult [symmetric] mult.commute)
qed simp

lemma n0inv_correct:
  assumes "1 - n0 = 2 * w"
  shows "n0 * n0inv n0 = -1"
proof -
  have "(1 - n0) ^ (2 ^ 6) = 2 ^ 64 * w ^ 64" unfolding assms by (simp add: power_mult_distrib)
  also have "(2 :: u64) ^ 64 = 0" by (simp add: word_eq_iff_unsigned)
  finally have "n0 * (n0inv_step n0 ^^ 6) 1 = 1" using n0inv_iter [of n0 6] by simp
  then show ?thesis by (simp add: n0inv_def)
qed

lemma n0inv_nat:
  assumes "odd n" "n < LIMB"
  shows "(n * unat (n0inv (of_nat n)) + 1) mod LIMB = 0"
proof -
  have "(of_nat (n * unat (n0inv (of_nat n)) + 1) :: u64) = of_nat n * n0inv (of_nat n) + 1" by simp
  also have "\<dots> = 0"
  proof -
    obtain j where "n = 2 * j + 1" using assms(1) by (elim oddE)
    then have "1 - (of_nat n :: u64) = 2 * (- of_nat j)" by simp
    from n0inv_correct [OF this] show ?thesis by simp
  qed
  finally have "unat (of_nat (n * unat (n0inv (of_nat n)) + 1) :: u64) = 0" by simp
  then show ?thesis by (simp only: unat_of_nat) (simp add: LIMB_def)
qed

section \<open>Multiply-accumulate\<close>

lemma mac_loop_correct:
  assumes "length ts = length as" "limbs_ok ts" "limbs_ok as" "m < LIMB" "c < LIMB"
  shows "case mac_loop m ts as c of (r, c') \<Rightarrow>
    length r = length ts \<and> limbs_ok r \<and> c' < LIMB \<and>
    limbs_val r + LIMB ^ length ts * c' = limbs_val ts + m * limbs_val as + c"
  using assms
proof (induction ts as arbitrary: c rule: list_induct2)
  case (Cons t ts a as)
  define x where "x = t + a * m + c"
  have "a * m \<le> (LIMB - 1) * (LIMB - 1)" using Cons.prems by (intro mult_le_mono) auto
  then have "x \<le> (LIMB - 1) + (LIMB - 1) * (LIMB - 1) + (LIMB - 1)"
    using Cons.prems unfolding x_def by (intro add_mono) auto
  also have "\<dots> < LIMB * LIMB" by (simp add: LIMB_def)
  finally have x: "x div LIMB < LIMB" by (simp add: less_mult_imp_div_less)
  obtain r c' where r: "mac_loop m ts as (x div LIMB) = (r, c')" by fastforce
  from Cons.IH [OF _ _ Cons.prems(3) x] r Cons.prems
  have IH: "length r = length ts" "limbs_ok r" "c' < LIMB"
    "limbs_val r + LIMB ^ length ts * c' = limbs_val ts + m * limbs_val as + x div LIMB" by auto
  have "mac_loop m (t # ts) (a # as) c = (x mod LIMB # r, c')"
    using r by (simp add: x_def Let_def)
  moreover have "limbs_val (x mod LIMB # r) + LIMB ^ length (t # ts) * c'
      = x mod LIMB + LIMB * (limbs_val r + LIMB ^ length ts * c')"
    by (simp add: algebra_simps)
  moreover have "\<dots> = x mod LIMB + LIMB * (x div LIMB) + LIMB * (limbs_val ts + m * limbs_val as)"
    unfolding IH(4) by (simp add: algebra_simps)
  moreover have "\<dots> = x + LIMB * (limbs_val ts + m * limbs_val as)" by simp
  moreover have "\<dots> = limbs_val (t # ts) + m * limbs_val (a # as) + c"
    by (simp add: x_def algebra_simps)
  ultimately show ?case using IH by simp
qed simp

section \<open>One row\<close>

text \<open>The part of the accumulator that carries over to the next row.\<close>

definition acc_val :: "nat \<Rightarrow> nat list \<Rightarrow> nat" where
  "acc_val s t = limbs_val (take (Suc s) t)"

lemma acc_val_split: "length t = s + 2 \<Longrightarrow> acc_val s t = limbs_val (take s t) + LIMB ^ s * (t ! s)"
  by (simp add: acc_val_def take_Suc_conv_app_nth limbs_val_append min_def)

lemma mont_row_correct:
  assumes s: "s = length n" "0 < s" and len: "length a = s" "length t = s + 2"
    and ok: "limbs_ok a" "limbs_ok n" "limbs_ok t" "bi < LIMB" "t ! s \<le> 1"
    and inv: "(n ! 0 * n0i + 1) mod LIMB = 0"
  shows "length (mont_row a n n0i t bi) = s + 2 \<and> limbs_ok (mont_row a n n0i t bi) \<and>
    (\<exists>m < LIMB. LIMB * acc_val s (mont_row a n n0i t bi)
        = acc_val s t + bi * limbs_val a + m * limbs_val n)"
proof -
  have okt: "limbs_ok (take s t)" using ok(3) by (auto simp: limbs_ok_def dest: in_set_takeD)
  obtain lo c where lo: "mac_loop bi (take s t) a 0 = (lo, c)" by fastforce
  from mac_loop_correct [of "take s t" a bi 0] lo len okt ok
  have 1: "length lo = s" "limbs_ok lo" "c < LIMB"
    "limbs_val lo + LIMB ^ s * c = limbs_val (take s t) + bi * limbs_val a"
    by (auto simp: min_def)
  define x1 where "x1 = t ! s + c"
  define ts where "ts = x1 mod LIMB"
  define ts1 where "ts1 = x1 div LIMB mod LIMB"
  have x1: "x1 < 2 * LIMB" using 1(3) ok(5) by (simp add: x1_def LIMB_def)
  then have ts1: "ts1 = x1 div LIMB" "ts1 \<le> 1"
    by (auto simp: ts1_def less_mult_imp_div_less div_less_iff_less_mult less_Suc_eq_le [symmetric] numeral_2_eq_2 LIMB_def)
  define m where "m = lo ! 0 * n0i mod LIMB"
  have m: "m < LIMB" by (simp add: m_def)
  define x0 where "x0 = lo ! 0 + m * n ! 0"
  obtain l0 lo1 where lo1: "lo = l0 # lo1" using 1(1) s(2) by (cases lo) auto
  obtain n0 n1 where n1: "n = n0 # n1" using s by (cases n) auto
  have div: "x0 = LIMB * (x0 div LIMB)"
  proof -
    have "x0 mod LIMB = (l0 + (l0 * n0i) * n0) mod LIMB"
      using mod_add_right_eq [of l0 "l0 * n0i mod LIMB * n0" LIMB]
        mod_add_right_eq [of l0 "l0 * n0i * n0" LIMB] mod_mult_left_eq [of "l0 * n0i" LIMB n0]
      by (simp add: x0_def lo1 n1 m_def)
    also have "l0 + (l0 * n0i) * n0 = l0 * (n0 * n0i + 1)" by (simp add: algebra_simps)
    also have "\<dots> mod LIMB = 0" using inv n1 by (metis mod_mult_right_eq mult_0_right mod_0 nth_Cons_0)
    finally have "x0 mod LIMB = 0" .
    then show ?thesis using mult_div_mod_eq [of LIMB x0] by (metis add_0_right)
  qed
  have "m * n0 \<le> (LIMB - 1) * (LIMB - 1)" using m ok(2) n1 by (intro mult_le_mono) auto
  then have "x0 \<le> (LIMB - 1) + (LIMB - 1) * (LIMB - 1)"
    using 1(2) lo1 n1 unfolding x0_def by (intro add_mono) auto
  also have "\<dots> < LIMB * LIMB" by (simp add: LIMB_def)
  finally have x0: "x0 div LIMB < LIMB" by (simp add: less_mult_imp_div_less)
  obtain lo' c2 where lo': "mac_loop m lo1 n1 (x0 div LIMB) = (lo', c2)" by fastforce
  have ln: "length lo1 = length n1" using 1(1) s lo1 n1 by simp
  from mac_loop_correct [OF ln _ _ m x0] lo' 1(2) ok(2) lo1 n1
  have 2: "length lo' = s - 1" "limbs_ok lo'" "c2 < LIMB"
    "limbs_val lo' + LIMB ^ (s - 1) * c2 = limbs_val lo1 + m * limbs_val n1 + x0 div LIMB"
    using s n1 ln by auto
  define x2 where "x2 = ts + c2"
  have "ts < LIMB" by (simp add: ts_def)
  then have x2: "x2 < 2 * LIMB" using 2(3) by (simp add: x2_def)
  then have "x2 div LIMB \<le> 1"
    by (simp add: div_less_iff_less_mult less_Suc_eq_le [symmetric] numeral_2_eq_2 LIMB_def)
  then have top: "(ts1 + x2 div LIMB mod LIMB) mod LIMB = ts1 + x2 div LIMB"
    using ts1(2) by (simp add: LIMB_def)
  have row: "mont_row a n n0i t bi = lo' @ [x2 mod LIMB, ts1 + x2 div LIMB, ts1]"
  proof -
    have tl: "tl lo = lo1" "tl n = n1" by (simp_all add: lo1 n1)
    show ?thesis
      unfolding mont_row_def Let_def s(1) [symmetric] lo prod.case x1_def [symmetric]
        ts_def [symmetric] ts1_def [symmetric] m_def [symmetric] x0_def [symmetric] tl lo'
        x2_def [symmetric] top ..
  qed
  have small: "ts1 + x2 div LIMB < LIMB" using ts1(2) \<open>x2 div LIMB \<le> 1\<close> by (simp add: LIMB_def)
  have len': "length (mont_row a n n0i t bi) = s + 2" using 2(1) s(2) by (simp add: row)
  moreover have "limbs_ok (mont_row a n n0i t bi)"
  proof -
    have "ts1 < LIMB" using ts1(2) by (simp add: LIMB_def)
    then show ?thesis using 2(2) small by (simp add: row)
  qed
  moreover have "LIMB * acc_val s (mont_row a n n0i t bi) = acc_val s t + bi * limbs_val a + m * limbs_val n"
  proof -
    have B: "LIMB ^ s = LIMB * LIMB ^ (s - 1)" using s(2) by (cases s) auto
    have "take (Suc s) (mont_row a n n0i t bi) = lo' @ [x2 mod LIMB, ts1 + x2 div LIMB]"
      using 2(1) s(2) by (simp add: row)
    then have "acc_val s (mont_row a n n0i t bi)
        = limbs_val lo' + LIMB ^ (s - 1) * (x2 mod LIMB + LIMB * (x2 div LIMB) + LIMB * ts1)"
      using 2(1) by (simp add: acc_val_def limbs_val_append algebra_simps)
    also have "\<dots> = limbs_val lo' + LIMB ^ (s - 1) * c2 + LIMB ^ (s - 1) * (ts + LIMB * ts1)"
      by (simp add: x2_def algebra_simps)
    also have "ts + LIMB * ts1 = x1" by (simp add: ts_def ts1(1))
    finally have "LIMB * acc_val s (mont_row a n n0i t bi)
        = LIMB * limbs_val lo1 + m * (LIMB * limbs_val n1) + LIMB * (x0 div LIMB) + LIMB ^ s * x1"
      unfolding 2(4) B by (simp add: algebra_simps)
    also have "LIMB * (x0 div LIMB) = l0 + m * n0" using div by (simp add: x0_def lo1 n1)
    finally show ?thesis
      using 1(4) acc_val_split [OF len(2)] by (simp add: x1_def lo1 n1 algebra_simps)
  qed
  ultimately show ?thesis using m by blast
qed

section \<open>The product\<close>

lemma mont_rows_correct:
  assumes s: "s = length n" "0 < s" and len: "length a = s"
    and ok: "limbs_ok a" "limbs_ok n" and inv: "(n ! 0 * n0i + 1) mod LIMB = 0"
    and t: "length t = s + 2" "limbs_ok t" "acc_val s t < limbs_val a + limbs_val n" and bs: "limbs_ok bs"
  defines "t' \<equiv> foldl (mont_row a n n0i) t bs"
  shows "length t' = s + 2 \<and> limbs_ok t' \<and> acc_val s t' < limbs_val a + limbs_val n \<and>
    (\<exists>M < LIMB ^ length bs. LIMB ^ length bs * acc_val s t'
        = acc_val s t + limbs_val bs * limbs_val a + M * limbs_val n)"
  using t bs unfolding t'_def
proof (induction bs arbitrary: t)
  case (Cons b bs)
  define A where "A = limbs_val a"
  define N where "N = limbs_val n"
  define t1 where "t1 = mont_row a n n0i t b"
  have AN: "A < LIMB ^ s" "N < LIMB ^ s"
    using limbs_val_lt [OF ok(1)] limbs_val_lt [OF ok(2)] len s by (simp_all add: A_def N_def)
  have "LIMB ^ s * (t ! s) < 2 * LIMB ^ s"
    using Cons.prems(3) acc_val_split [OF Cons.prems(1)] AN unfolding A_def N_def by linarith
  then have ts: "t ! s \<le> 1" by simp
  from mont_row_correct [OF s len Cons.prems(1) ok Cons.prems(2) _ ts inv, of b] Cons.prems(4)
  obtain m where m: "length t1 = s + 2" "limbs_ok t1" "m < LIMB"
      "LIMB * acc_val s t1 = acc_val s t + b * A + m * N"
    by (auto simp: t1_def A_def N_def)
  have b: "b < LIMB" using Cons.prems(4) by simp
  have "LIMB * acc_val s t1 < (A + N) + (LIMB - 1) * A + (LIMB - 1) * N"
  proof -
    have "b * A \<le> (LIMB - 1) * A" "m * N \<le> (LIMB - 1) * N"
      using b m(3) by (intro mult_le_mono1; simp)+
    then show ?thesis using m(4) Cons.prems(3) unfolding A_def N_def by linarith
  qed
  also have "\<dots> = LIMB * (A + N)" by (simp add: LIMB_def algebra_simps)
  finally have "acc_val s t1 < A + N" by simp
  from Cons.IH [OF m(1,2)] this Cons.prems(4)
  obtain M where M: "length (foldl (mont_row a n n0i) t1 bs) = s + 2"
      "limbs_ok (foldl (mont_row a n n0i) t1 bs)" "acc_val s (foldl (mont_row a n n0i) t1 bs) < A + N"
      "M < LIMB ^ length bs"
      "LIMB ^ length bs * acc_val s (foldl (mont_row a n n0i) t1 bs)
        = acc_val s t1 + limbs_val bs * A + M * N"
    by (auto simp: A_def N_def)
  have "LIMB ^ length (b # bs) * acc_val s (foldl (mont_row a n n0i) t1 bs)
      = LIMB * (LIMB ^ length bs * acc_val s (foldl (mont_row a n n0i) t1 bs))" by simp
  also have "\<dots> = LIMB * acc_val s t1 + LIMB * limbs_val bs * A + LIMB * M * N"
    unfolding M(5) by (simp add: algebra_simps)
  also have "\<dots> = acc_val s t + limbs_val (b # bs) * A + (m + LIMB * M) * N"
    unfolding m(4) by (simp add: algebra_simps)
  finally have "LIMB ^ length (b # bs) * acc_val s (foldl (mont_row a n n0i) t1 bs)
      = acc_val s t + limbs_val (b # bs) * A + (m + LIMB * M) * N" .
  moreover have "m + LIMB * M < LIMB ^ length (b # bs)"
  proof -
    have "m + LIMB * M < LIMB * Suc M" using m(3) by simp
    also have "\<dots> \<le> LIMB * LIMB ^ length bs" using M(4) by (intro mult_le_mono2) simp
    finally show ?thesis by simp
  qed
  ultimately show ?case
    using M(1-3) unfolding foldl_Cons t1_def [symmetric] A_def [symmetric] N_def [symmetric] by blast
qed (intro conjI exI [where x = 0]; simp)

text \<open>\<open>mont_mul a b n\<close> is $(ab + MN)/R$ for some $M < R$, reduced once.\<close>

lemma mont_mul_exact:
  assumes s: "s = length n" "0 < s" and len: "length a = s" "length b = s"
    and ok: "limbs_ok a" "limbs_ok b" "limbs_ok n" and inv: "(n ! 0 * n0i + 1) mod LIMB = 0"
    and N0: "0 < limbs_val n"
  shows "length (mont_mul a b n n0i) = s \<and> limbs_ok (mont_mul a b n n0i) \<and>
    (\<exists>T. \<exists>M < LIMB ^ s. LIMB ^ s * T = limbs_val a * limbs_val b + M * limbs_val n \<and>
      limbs_val (mont_mul a b n n0i) = (if limbs_val n \<le> T then T - limbs_val n else T))"
proof -
  define A where "A = limbs_val a"
  define N where "N = limbs_val n"
  define R where "R = LIMB ^ s"
  have AN: "A < R" "N < R"
    using limbs_val_lt [OF ok(1)] limbs_val_lt [OF ok(3)] len s by (simp_all add: A_def N_def R_def)
  define t where "t = foldl (mont_row a n n0i) (replicate (s + 2) 0) b"
  have z: "acc_val s (replicate (s + 2) 0) = 0" "limbs_ok (replicate (s + 2) 0)"
    unfolding acc_val_def take_replicate by (simp_all only: limbs_val_replicate) (simp add: limbs_ok_def)
  from mont_rows_correct [OF s len(1) ok(1,3) inv _ z(2) _ ok(2)] z(1) N0 len(2)
  obtain M where t: "length t = s + 2" "limbs_ok t" "acc_val s t < A + N" "M < R"
      "R * acc_val s t = A * limbs_val b + M * N"
    by (auto simp: t_def A_def N_def R_def mult.commute)
  define res where "res = take s t"
  define T where "T = acc_val s t"
  have res: "length res = s" "limbs_ok res"
    using t(1,2) by (auto simp: res_def limbs_ok_def dest: in_set_takeD)
  have T: "T = limbs_val res + R * (t ! s)" using acc_val_split [OF t(1)] by (simp add: T_def res_def R_def)
  have rlt: "limbs_val res < R" using limbs_val_lt [OF res(2)] res(1) by (simp add: R_def)
  have cond: "t ! s \<noteq> 0 \<or> ge res n \<longleftrightarrow> N \<le> T"
  proof (cases "t ! s = 0")
    case True
    then show ?thesis using ge_correct [OF res(2) ok(3)] res(1) s T by (simp add: N_def)
  next
    case False
    then have "R * 1 \<le> R * (t ! s)" by (intro mult_le_mono2) simp
    then have "R \<le> T" using T by linarith
    then show ?thesis using False AN by simp
  qed
  have mm: "mont_mul a b n n0i = (if N \<le> T then sub_assign res n else res)"
  proof -
    have "take s b = b" using len(2) by simp
    then show ?thesis
      unfolding mont_mul_def Let_def s(1) [symmetric] t_def res_def cond [symmetric] by (simp only:)
  qed
  have eq: "R * T = A * limbs_val b + M * N" using t(5) by (simp add: T_def)
  show ?thesis
  proof (cases "N \<le> T")
    case True
    note sb = sub_assign_correct [of res n, OF _ res(2) ok(3)]
    have ln: "length res = length n" using res(1) s by simp
    have "int (limbs_val (sub_assign res n)) = (int (limbs_val res) - int N) mod int R"
      using sb(3) [OF ln] res(1) by (simp add: N_def R_def)
    also have "int (limbs_val res) - int N = int (T - N) + int R * (- int (t ! s))"
      using True T by (simp add: of_nat_diff)
    also have "\<dots> mod int R = int (T - N) mod int R" by (rule mod_mult_self2)
    also have "\<dots> = int (T - N)"
    proof -
      have "T - N < R" using t(3) AN by (simp add: T_def)
      then show ?thesis by simp
    qed
    finally have "limbs_val (sub_assign res n) = T - N" by simp
    then show ?thesis
      using True sb(1,2) [OF ln] res(1) eq t(4) unfolding mm A_def N_def R_def by auto
  next
    case False
    have "t ! s = 0"
    proof (rule ccontr)
      assume "t ! s \<noteq> 0"
      then show False using cond False by simp
    qed
    then have "T = limbs_val res" using T by simp
    then show ?thesis using False res eq t(4) unfolding mm A_def N_def R_def by auto
  qed
qed

lemma mont_mul_cong:
  assumes s: "s = length n" "0 < s" and len: "length a = s" "length b = s"
    and ok: "limbs_ok a" "limbs_ok b" "limbs_ok n" and inv: "(n ! 0 * n0i + 1) mod LIMB = 0"
    and N0: "0 < limbs_val n"
  shows "length (mont_mul a b n n0i) = s" "limbs_ok (mont_mul a b n n0i)"
    "(limbs_val (mont_mul a b n n0i) * LIMB ^ s) mod limbs_val n = (limbs_val a * limbs_val b) mod limbs_val n"
    "limbs_val b \<le> 1 \<Longrightarrow> limbs_val (mont_mul a b n n0i) < limbs_val n"
proof -
  define N where "N = limbs_val n"
  define R where "R = LIMB ^ s"
  from mont_mul_exact [OF assms] obtain T M where e: "length (mont_mul a b n n0i) = s"
      "limbs_ok (mont_mul a b n n0i)" "M < R" "R * T = limbs_val a * limbs_val b + M * N"
      "limbs_val (mont_mul a b n n0i) = (if N \<le> T then T - N else T)"
    by (auto simp: N_def R_def)
  show "length (mont_mul a b n n0i) = s" "limbs_ok (mont_mul a b n n0i)" by (fact e)+
  have "(limbs_val (mont_mul a b n n0i) * R) mod N = (R * T) mod N"
  proof (cases "N \<le> T")
    case True
    then have "R * T = (T - N) * R + N * R" by (simp add: diff_mult_distrib algebra_simps)
    then show ?thesis using True e(5) by simp
  qed (simp add: e(5) mult.commute)
  then show "(limbs_val (mont_mul a b n n0i) * LIMB ^ s) mod limbs_val n = (limbs_val a * limbs_val b) mod limbs_val n"
    using e(4) by (simp add: N_def R_def)
  assume b: "limbs_val b \<le> 1"
  have AN: "limbs_val a < R" "N < R" "0 < N"
    using limbs_val_lt [OF ok(1)] limbs_val_lt [OF ok(3)] len s N0 by (simp_all add: N_def R_def)
  have "limbs_val a * limbs_val b \<le> limbs_val a * 1" using b by (rule mult_le_mono2)
  moreover have "M * N \<le> (R - 1) * N" using e(3) by (intro mult_le_mono1) simp
  ultimately have "R * T < R + (R - 1) * N" using e(4) AN by linarith
  also have "\<dots> \<le> R + R * N" by (intro add_left_mono mult_le_mono1) simp
  also have "\<dots> = R * (N + 1)" by simp
  finally have "R * T < R * (N + 1)" .
  then have "T < N + 1" unfolding mult_less_cancel1 by (rule conjunct2)
  then show "limbs_val (mont_mul a b n n0i) < limbs_val n" using e(5) AN(3) unfolding N_def [symmetric] by simp
qed

end
