(* ===== verification/Bignum_Exp.thy ===== *)
theory Bignum_Exp
  imports Bignum_Mont
begin

text \<open>
  \<open>mod_exp\<close> computes $b^e \bmod n$: the conversions from and to bytes, the doubling loop for
  $R^2 \bmod n$, and square-and-multiply in Montgomery form.
\<close>

section \<open>Bytes and limbs\<close>

lemma or_push_bit_add:
  fixes a x s :: nat
  assumes "a < 2 ^ s"
  shows "or a (push_bit s x) = a + x * 2 ^ s"
proof -
  have "and a (push_bit s x) = 0"
  proof (rule bit_eqI)
    fix n
    have "\<not> bit a n" if "s \<le> n"
      using assms that
      by (metis bit_take_bit_iff less_le_not_le linorder_not_le take_bit_nat_eq_self)
    then show "bit (and a (push_bit s x)) n \<longleftrightarrow> bit 0 n" by (auto simp: bit_simps)
  qed
  then have "a + push_bit s x = or a (push_bit s x)" by (rule disjunctive_add_eq_or)
  then show ?thesis by (simp add: push_bit_eq_mult)
qed

lemma limbs_val_update:
  "i < length xs \<Longrightarrow> limbs_val (xs[i := xs ! i + d]) = limbs_val xs + LIMB ^ i * d"
proof (induction xs arbitrary: i)
  case (Cons x xs)
  then show ?case by (cases i) (auto simp: algebra_simps)
qed simp

lemma limbs_val_drop: "i \<le> length xs \<Longrightarrow> limbs_val xs = limbs_val (take i xs) + LIMB ^ i * limbs_val (drop i xs)"
  using limbs_val_append [of "take i xs" "drop i xs"] by (simp add: min_def)

lemma limb_bound:
  assumes "limbs_val xs < LIMB ^ i * 2 ^ s" "i < length xs"
  shows "xs ! i < 2 ^ s"
proof -
  have "LIMB ^ i * (xs ! i) \<le> LIMB ^ i * limbs_val (drop i xs)"
    using assms(2) by (simp add: Cons_nth_drop_Suc [symmetric])
  also have "\<dots> \<le> limbs_val xs" using limbs_val_drop [of i xs] assms(2) by simp
  also have "\<dots> < LIMB ^ i * 2 ^ s" by (rule assms(1))
  finally show ?thesis unfolding mult_less_cancel1 by (rule conjunct2)
qed

lemma LIMB_2: "LIMB = 2 ^ 64"
  by (simp add: LIMB_def)

lemma from_be_loop_correct:
  assumes "8 dvd b" "length limbs = k" "limbs_ok limbs" "limbs_val limbs < 2 ^ b" "b \<le> 64 * k"
  shows "length (from_be_loop k limbs b xs) = k \<and> limbs_ok (from_be_loop k limbs b xs) \<and>
    limbs_val (from_be_loop k limbs b xs) = (limbs_val limbs + 2 ^ b * nat_of_le xs) mod LIMB ^ k"
  using assms
proof (induction xs arbitrary: b limbs)
  case Nil
  then have "limbs_val limbs < LIMB ^ k" using limbs_val_lt by metis
  then show ?case using Nil by simp
next
  case (Cons x xs)
  define i where "i = b div 64"
  define s where "s = b mod 64"
  have bs: "2 ^ b = LIMB ^ i * 2 ^ s"
  proof -
    have "b = 64 * i + s" by (simp add: i_def s_def)
    then show ?thesis by (simp add: LIMB_2 power_mult power_add)
  qed
  have s56: "s \<le> 56"
  proof -
    have "8 dvd s" using Cons.prems(1) by (simp add: s_def dvd_mod)
    moreover have "s < 64" by (simp add: s_def)
    ultimately show ?thesis by (auto elim!: dvdE)
  qed
  show ?case
  proof (cases "i < k")
    case True
    have li: "limbs ! i < 2 ^ s" using limb_bound [of limbs i s] Cons.prems(2,4) True bs by simp
    have xs: "unat x * 2 ^ s < LIMB"
    proof -
      have "unat x * 2 ^ s \<le> 255 * 2 ^ s" using byte_lt [of x] by (intro mult_le_mono1) linarith
      also have "\<dots> \<le> 255 * 2 ^ 56" using s56 by (intro mult_le_mono2 power_increasing) auto
      finally show ?thesis by (simp add: LIMB_def)
    qed
    define limbs' where "limbs' = limbs[i := limbs ! i + unat x * 2 ^ s]"
    have step: "from_be_loop k limbs b (x # xs) = from_be_loop k limbs' (b + 8) xs"
      using True s56 xs or_push_bit_add [OF li, of "unat x"]
      by (simp add: Let_def i_def [symmetric] s_def [symmetric] limbs'_def push_bit_eq_mult)
    have v: "limbs_val limbs' = limbs_val limbs + 2 ^ b * unat x"
      using limbs_val_update [of i limbs "unat x * 2 ^ s"] True Cons.prems(2) by (simp add: limbs'_def bs)
    have "limbs ! i + unat x * 2 ^ s < LIMB"
    proof -
      have "limbs ! i + unat x * 2 ^ s < (unat x + 1) * 2 ^ s" using li by simp
      also have "\<dots> \<le> 256 * 2 ^ s" using byte_lt [of x] by (intro mult_le_mono1) linarith
      also have "\<dots> \<le> 256 * 2 ^ 56" using s56 by (intro mult_le_mono2 power_increasing) auto
      finally show ?thesis by (simp add: LIMB_def)
    qed
    then have ok: "limbs_ok limbs'"
      using Cons.prems(3) set_update_subset_insert [of limbs i] by (force simp: limbs_ok_def limbs'_def)
    have lt: "limbs_val limbs' < 2 ^ (b + 8)"
    proof -
      have "limbs_val limbs' < 2 ^ b * (unat x + 1)" using Cons.prems(4) v by simp
      also have "\<dots> \<le> 2 ^ b * 256" using byte_lt [of x] by (intro mult_le_mono2) linarith
      finally show ?thesis by (simp add: power_add)
    qed
    have "b + 8 \<le> 64 * k"
    proof -
      obtain j where j: "b = 8 * j" using Cons.prems(1) by (elim dvdE)
      have "b < 64 * k" using True unfolding i_def by (simp add: div_less_iff_less_mult mult.commute)
      then have "8 * j < 8 * (8 * k)" using j by simp
      then show ?thesis using j by simp
    qed
    then have "length (from_be_loop k limbs' (b + 8) xs) = k \<and> limbs_ok (from_be_loop k limbs' (b + 8) xs) \<and>
        limbs_val (from_be_loop k limbs' (b + 8) xs) = (limbs_val limbs' + 2 ^ (b + 8) * nat_of_le xs) mod LIMB ^ k"
      using Cons.IH [of "b + 8" limbs'] Cons.prems(1,2) ok lt by (simp add: limbs'_def)
    moreover have "limbs_val limbs' + 2 ^ (b + 8) * nat_of_le xs
        = limbs_val limbs + 2 ^ b * nat_of_le (x # xs)"
      by (simp add: v power_add algebra_simps)
    ultimately show ?thesis unfolding step by simp
  next
    case False
    then have b: "b = 64 * k" using Cons.prems(5) by (simp add: i_def)
    have same: "from_be_loop k limbs c ys = limbs" if "64 * k \<le> c" for c ys
      using that
    proof (induction ys arbitrary: c)
      case (Cons y ys)
      have "\<not> c div 64 < k" using Cons.prems by (simp add: div_less_iff_less_mult mult.commute)
      then show ?case using Cons by simp
    qed simp
    have "limbs_val limbs < LIMB ^ k" using Cons.prems limbs_val_lt by metis
    moreover have "2 ^ b = LIMB ^ k" by (simp add: b LIMB_2 power_mult)
    ultimately show ?thesis using Cons.prems(2,3) same [of b "x # xs"] b by simp
  qed
qed

lemma from_be_correct:
  "length (from_be bs k) = k" "limbs_ok (from_be bs k)"
  "limbs_val (from_be bs k) = nat_of_be bs mod LIMB ^ k"
  using from_be_loop_correct [of 0 "replicate k 0" k "rev bs"]
  by (simp_all add: from_be_def nat_of_be_def limbs_ok_def)

lemma to_be_correct: "limbs_ok xs \<Longrightarrow> nat_of_be (to_be xs) = limbs_val xs"
proof (induction xs)
  case (Cons x xs)
  have "rev (to_be (x # xs)) = le_of_nat 8 x @ rev (to_be xs)"
    by (simp add: to_be_def be_of_nat_def)
  then have "nat_of_be (to_be (x # xs)) = nat_of_le (le_of_nat 8 x) + 256 ^ 8 * nat_of_be (to_be xs)"
    by (simp add: nat_of_be_def nat_of_le_append)
  moreover have "nat_of_le (le_of_nat 8 x) = x" using Cons.prems by (simp add: nat_of_le_of_nat LIMB_def)
  ultimately show ?case using Cons by (simp add: LIMB_def)
qed (simp add: to_be_def nat_of_be_def)

lemma length_to_be: "length (to_be xs) = 8 * length xs"
proof -
  have "length (concat (map (be_of_nat 8) (rev xs))) = length (map (be_of_nat 8) (rev xs)) * 8"
    by (rule length_concat_uniform) auto
  then show ?thesis by (simp add: to_be_def)
qed

section \<open>The doubling loop\<close>

lemma shl1_loop_correct:
  assumes "limbs_ok xs" "carry \<le> 1"
  shows "case shl1_loop xs carry of (r, c) \<Rightarrow> length r = length xs \<and> limbs_ok r \<and> c \<le> 1 \<and>
    limbs_val r + LIMB ^ length xs * c = 2 * limbs_val xs + carry"
  using assms
proof (induction xs arbitrary: carry)
  case (Cons l ls)
  define nc where "nc = drop_bit 63 l"
  have l: "l < LIMB" using Cons.prems by simp
  have nc: "nc = l div 2 ^ 63" "nc \<le> 1"
    using l by (auto simp: nc_def drop_bit_eq_div LIMB_def div_less_iff_less_mult less_Suc_eq_le [symmetric])
  have dm: "2 * l div LIMB = nc"
    using div_mult_mult1 [of 2 l "2 ^ 63"] by (simp add: nc(1) LIMB_def)
  obtain r c where r: "shl1_loop ls nc = (r, c)" by fastforce
  from Cons.IH [of nc] Cons.prems nc(2) r
  have IH: "length r = length ls" "limbs_ok r" "c \<le> 1"
    "limbs_val r + LIMB ^ length ls * c = 2 * limbs_val ls + nc" by auto
  define h where "h = push_bit 1 l mod LIMB"
  have he: "even h" by (simp add: h_def LIMB_def push_bit_eq_mult dvd_mod)
  have hc: "or h carry = h + carry"
  proof -
    have "and h carry = 0"
    proof (cases "carry = 0")
      case False
      then have "carry = 1" using Cons.prems(2) by simp
      then show ?thesis using he by (simp add: and_one_eq even_iff_mod_2_eq_zero)
    qed simp
    then show ?thesis by (simp add: disjunctive_add_eq_or)
  qed
  have hl: "h + carry < LIMB"
  proof -
    have "h < LIMB" by (simp add: h_def)
    moreover have "even LIMB" by (simp add: LIMB_def)
    ultimately have "h + 1 < LIMB" using he by (metis Suc_eq_plus1 Suc_lessI even_Suc)
    then show ?thesis using Cons.prems(2) by simp
  qed
  have hh: "h = 2 * l mod LIMB" by (simp add: h_def push_bit_eq_mult mult.commute)
  have "LIMB * nc + h = 2 * l"
    using div_mult_mod_eq [of "2 * l" LIMB] unfolding dm hh by (metis mult.commute)
  then have "limbs_val ((h + carry) # r) + LIMB ^ length (l # ls) * c = 2 * limbs_val (l # ls) + carry"
    using arg_cong [OF IH(4), of "\<lambda>v. LIMB * v"] by (simp add: algebra_simps)
  moreover have "shl1_loop (l # ls) carry = ((h + carry) # r, c)"
    unfolding shl1_loop.simps Let_def nc_def [symmetric] h_def [symmetric] r hc by simp
  ultimately show ?case using IH hl by simp
qed simp

lemma rr_step_correct:
  assumes "length nl = k" "length rr = k" "limbs_ok nl" "limbs_ok rr" "limbs_val rr \<le> limbs_val nl"
    and "0 < limbs_val nl"
  shows "length (rr_step nl rr) = k \<and> limbs_ok (rr_step nl rr) \<and> limbs_val (rr_step nl rr) \<le> limbs_val nl \<and>
    limbs_val (rr_step nl rr) mod limbs_val nl = 2 * limbs_val rr mod limbs_val nl"
proof -
  define N where "N = limbs_val nl"
  define R where "R = LIMB ^ k"
  have NR: "N < R" using limbs_val_lt [OF assms(3)] assms(1) by (simp add: N_def R_def)
  obtain r c where r: "shl1_loop rr 0 = (r, c)" by fastforce
  from shl1_loop_correct [OF assms(4), of 0] r assms(2)
  have s: "length r = k" "limbs_ok r" "c \<le> 1" "limbs_val r + R * c = 2 * limbs_val rr"
    by (auto simp: R_def)
  define T where "T = 2 * limbs_val rr"
  have rl: "limbs_val r < R" using limbs_val_lt [OF s(2)] s(1) by (simp add: R_def)
  have cond: "c \<noteq> 0 \<or> ge r nl \<longleftrightarrow> N \<le> T"
  proof (cases "c = 0")
    case True
    then show ?thesis using ge_correct [OF s(2) assms(3)] s assms(1) by (simp add: N_def T_def)
  next
    case False
    then have "c = 1" using s(3) by simp
    then show ?thesis using s(4) NR by (simp add: T_def)
  qed
  have st: "rr_step nl rr = (if N \<le> T then sub_assign r nl else r)"
    using cond by (simp add: rr_step_def r)
  show ?thesis
  proof (cases "N \<le> T")
    case True
    have ln: "length r = length nl" using s(1) assms(1) by simp
    note sb = sub_assign_correct [OF ln s(2) assms(3)]
    have "int (limbs_val (sub_assign r nl)) = (int (limbs_val r) - int N) mod int R"
      using sb(3) s(1) by (simp add: N_def R_def)
    also have "int (limbs_val r) - int N = int (T - N) + int R * (- int c)"
      using True s(4) by (simp add: of_nat_diff T_def [symmetric]) (simp flip: of_nat_add of_nat_mult add: T_def)
    also have "\<dots> mod int R = int (T - N) mod int R" by (rule mod_mult_self2)
    also have "\<dots> = int (T - N)"
    proof -
      have "T - N \<le> N" using assms(5) by (simp add: T_def N_def)
      then show ?thesis using NR by simp
    qed
    finally have v: "limbs_val (sub_assign r nl) = T - N" by simp
    moreover have "(T - N) mod N = T mod N" using True by (simp add: le_mod_geq)
    moreover have "T - N \<le> N" using assms(5) by (simp add: T_def N_def)
    ultimately show ?thesis using True sb(1,2) s(1) by (simp add: st N_def T_def)
  next
    case False
    then have "c = 0" using cond by blast
    then show ?thesis using False s by (simp add: st T_def N_def)
  qed
qed

lemma rr_loop_correct:
  assumes "length nl = k" "length one = k" "limbs_ok nl" "limbs_ok one" "limbs_val one = 1" "0 < limbs_val nl"
  shows "length ((rr_step nl ^^ i) one) = k \<and> limbs_ok ((rr_step nl ^^ i) one) \<and>
    limbs_val ((rr_step nl ^^ i) one) \<le> limbs_val nl \<and>
    limbs_val ((rr_step nl ^^ i) one) mod limbs_val nl = 2 ^ i mod limbs_val nl"
proof (induction i)
  case (Suc i)
  define rr where "rr = (rr_step nl ^^ i) one"
  have "2 * limbs_val rr mod limbs_val nl = 2 ^ Suc i mod limbs_val nl"
    using Suc unfolding rr_def [symmetric] by (metis mod_mult_right_eq power_Suc)
  moreover have "length (rr_step nl rr) = k \<and> limbs_ok (rr_step nl rr) \<and> limbs_val (rr_step nl rr) \<le> limbs_val nl \<and>
    limbs_val (rr_step nl rr) mod limbs_val nl = 2 * limbs_val rr mod limbs_val nl"
    using Suc assms by (intro rr_step_correct) (auto simp: rr_def)
  ultimately show ?case by (simp add: rr_def)
qed (use assms in simp)

section \<open>Square and multiply\<close>

lemma mod_cancel:
  fixes x y R N :: nat
  assumes "coprime R N" "x * R mod N = y * R mod N"
  shows "x mod N = y mod N"
proof -
  have "int N dvd (int x - int y) * int R"
  proof -
    have "int (x * R) mod int N = int (y * R) mod int N" using assms(2) by (metis zmod_int)
    then have "int N dvd int (x * R) - int (y * R)" by (simp only: mod_eq_dvd_iff)
    then show ?thesis by (simp add: algebra_simps)
  qed
  moreover have "coprime (int N) (int R)" using assms(1) by (simp add: coprime_commute)
  ultimately have "int N dvd int x - int y" by (simp add: coprime_dvd_mult_left_iff)
  then have "int x mod int N = int y mod int N" by (simp only: mod_eq_dvd_iff)
  then show ?thesis by (metis of_nat_eq_iff zmod_int)
qed

lemma coprime_R: "odd N \<Longrightarrow> coprime (LIMB ^ k) N"
proof -
  assume "odd N"
  then have "coprime 2 N" by simp
  then have "coprime (2 ^ (64 * k)) N" by simp
  then show ?thesis by (simp only: LIMB_2 power_mult)
qed

text \<open>What \<open>mod_exp\<close> keeps fixed during its loop.\<close>

definition mont_ctx :: "nat list \<Rightarrow> nat \<Rightarrow> nat \<Rightarrow> bool" where
  "mont_ctx nl k n0i \<longleftrightarrow> length nl = k \<and> 0 < k \<and> limbs_ok nl \<and> odd (limbs_val nl) \<and>
     (nl ! 0 * n0i + 1) mod LIMB = 0"

definition num_ok :: "nat \<Rightarrow> nat list \<Rightarrow> bool" where
  "num_ok k r \<longleftrightarrow> length r = k \<and> limbs_ok r"

text \<open>\<open>r\<close> is the Montgomery form of \<open>v\<close>.\<close>

definition rep :: "nat list \<Rightarrow> nat \<Rightarrow> nat list \<Rightarrow> nat \<Rightarrow> bool" where
  "rep nl k r v \<longleftrightarrow> num_ok k r \<and> limbs_val r mod limbs_val nl = v * LIMB ^ k mod limbs_val nl"

lemma mont_ctx_pos: "mont_ctx nl k n0i \<Longrightarrow> 0 < limbs_val nl"
  by (auto simp: mont_ctx_def intro: odd_pos)

lemma mont_mul_num:
  assumes "mont_ctx nl k n0i" "num_ok k a" "num_ok k b"
  shows "num_ok k (mont_mul a b nl n0i)"
    "limbs_val (mont_mul a b nl n0i) * LIMB ^ k mod limbs_val nl = limbs_val a * limbs_val b mod limbs_val nl"
    "limbs_val b \<le> 1 \<Longrightarrow> limbs_val (mont_mul a b nl n0i) < limbs_val nl"
  using mont_mul_cong [of k nl a b n0i] mont_ctx_pos [OF assms(1)] assms
  by (auto simp: mont_ctx_def num_ok_def)

lemma mont_mul_rep:
  assumes c: "mont_ctx nl k n0i" and a: "rep nl k a v" and b: "rep nl k b w"
  shows "rep nl k (mont_mul a b nl n0i) (v * w)"
proof -
  define N where "N = limbs_val nl"
  define R where "R = LIMB ^ k"
  have n: "num_ok k a" "num_ok k b" "limbs_val a mod N = v * R mod N" "limbs_val b mod N = w * R mod N"
    using a b by (auto simp: rep_def N_def R_def)
  note m = mont_mul_num [OF c n(1,2), folded N_def R_def]
  have "limbs_val (mont_mul a b nl n0i) * R mod N = (v * R) * (w * R) mod N"
    unfolding m(2) using n(3,4) by (metis mod_mult_eq)
  also have "(v * R) * (w * R) = (v * w * R) * R" by (simp add: algebra_simps)
  finally have e: "limbs_val (mont_mul a b nl n0i) * R mod N = (v * w * R) * R mod N" .
  have "coprime R N" unfolding R_def by (rule coprime_R) (use c in \<open>simp add: mont_ctx_def N_def\<close>)
  from mod_cancel [OF this e] have "limbs_val (mont_mul a b nl n0i) mod N = v * w * R mod N" .
  then show ?thesis using m(1) by (simp add: rep_def N_def R_def)
qed

definition exp_inv :: "nat list \<Rightarrow> nat \<Rightarrow> nat \<Rightarrow> nat \<Rightarrow> nat list \<times> bool \<Rightarrow> bool" where
  "exp_inv nl k v e st \<longleftrightarrow> num_ok k (fst st) \<and> (snd st \<longleftrightarrow> 0 < e) \<and> (snd st \<longrightarrow> rep nl k (fst st) (v ^ e))"

lemma exp_bit_inv:
  assumes c: "mont_ctx nl k n0i" and a: "rep nl k am v" and i: "exp_inv nl k v e st"
  shows "exp_inv nl k v (2 * e + of_bool b) (exp_bit am nl n0i st b)"
proof -
  obtain r s where st: "st = (r, s)" by fastforce
  have amn: "num_ok k am" using a by (simp add: rep_def)
  show ?thesis
  proof (cases s)
    case False
    then have "e = 0" using i by (simp add: exp_inv_def st)
    then show ?thesis using i a amn False by (simp add: exp_inv_def st exp_bit_def)
  next
    case True
    then have e: "0 < e" "rep nl k r (v ^ e)" using i by (auto simp: exp_inv_def st)
    define q where "q = mont_mul r r nl n0i"
    have q: "rep nl k q (v ^ (2 * e))"
      using mont_mul_rep [OF c e(2) e(2)] by (simp add: q_def power_add [symmetric] mult_2)
    have qa: "rep nl k (mont_mul q am nl n0i) (v ^ (2 * e + 1))"
      using mont_mul_rep [OF c q a] by (simp add: mult.commute)
    show ?thesis
      using True e(1) q qa by (simp add: exp_inv_def st exp_bit_def q_def [symmetric] rep_def)
  qed
qed

definition bits_val :: "nat \<Rightarrow> bool list \<Rightarrow> nat" where
  "bits_val e bs = foldl (\<lambda>e b. 2 * e + of_bool b) e bs"

lemma exp_fold_inv:
  assumes "mont_ctx nl k n0i" "rep nl k am v" "exp_inv nl k v e st"
  shows "exp_inv nl k v (bits_val e bs) (foldl (exp_bit am nl n0i) st bs)"
  using assms(3)
proof (induction bs arbitrary: e st)
  case (Cons b bs)
  from Cons.IH [OF exp_bit_inv [OF assms(1,2) Cons.prems]] show ?case by (simp add: bits_val_def)
qed (simp add: bits_val_def)

lemma byte_bits:
  "unat x = horner_sum of_bool 2 [bit x 0, bit x 1, bit x 2, bit x 3, bit x 4, bit x 5, bit x 6, bit x 7]"
  for x :: byte
proof -
  have "horner_sum of_bool 2 (map (bit (unat x)) [0..<8]) = take_bit 8 (unat x)"
    by (rule horner_sum_bit_eq_take_bit)
  moreover have "take_bit 8 (unat x) = unat x" using byte_lt [of x] by (simp add: take_bit_nat_eq_self)
  moreover have "bit (unat x) i \<longleftrightarrow> bit x i" for i by (simp add: bit_unsigned_iff)
  moreover have "[0..<8] = [0, 1, 2, 3, 4, 5, 6, 7]" by code_simp
  ultimately show ?thesis by simp
qed

lemma bits_val_msb: "bits_val e (msb_bits x) = 256 * e + unat x"
proof -
  have m: "and (drop_bit i x) 1 = 1 \<longleftrightarrow> bit x i" for i
    by (simp add: and_one_eq bit_iff_odd_drop_bit odd_iff_mod_2_eq_one)
  have l: "rev [0..<8] = [7, 6, 5, 4, 3, 2, 1, 0]" by code_simp
  have "bits_val e (msb_bits x) = bits_val e (map (bit x) [7, 6, 5, 4, 3, 2, 1, 0])"
    unfolding msb_bits_def l m ..
  then show ?thesis unfolding byte_bits [of x] by (simp add: bits_val_def)
qed

lemma bits_val_append: "bits_val e (xs @ ys) = bits_val (bits_val e xs) ys"
  by (simp add: bits_val_def)

lemma nat_of_be_append: "nat_of_be (xs @ ys) = nat_of_be xs * 256 ^ length ys + nat_of_be ys"
  by (simp add: nat_of_be_def nat_of_le_append mult.commute)

lemma nat_of_be_snoc: "nat_of_be (xs @ [x]) = nat_of_be xs * 256 + unat x"
  by (simp add: nat_of_be_append) (simp add: nat_of_be_def)

lemma bits_val_bytes: "bits_val e (concat (map msb_bits bs)) = e * 256 ^ length bs + nat_of_be bs"
proof (induction bs arbitrary: e)
  case Nil
  then show ?case by (simp add: bits_val_def nat_of_be_def)
next
  case (Cons b bs)
  have "nat_of_be (b # bs) = unat b * 256 ^ length bs + nat_of_be bs"
    using nat_of_be_append [of "[b]" bs] by (simp add: nat_of_be_def)
  then show ?case by (simp add: bits_val_append bits_val_msb Cons algebra_simps)
qed

lemma trim_val: "nat_of_be (trim bs) = nat_of_be bs"
proof (induction bs rule: trim.induct)
  case (1 x y zs)
  have "nat_of_be (0 # y # zs) = nat_of_be (y # zs)"
    using nat_of_be_append [of "[0]" "y # zs"] by (simp add: nat_of_be_def)
  then show ?case using 1 by simp
qed simp_all

lemma trim_pos: "n \<noteq> [] \<Longrightarrow> trim n \<noteq> []"
  by (induction n rule: trim.induct) auto

lemma reduce_once:
  assumes "num_ok k b" "num_ok k nl"
  defines "r \<equiv> if ge b nl then sub_assign b nl else b"
  shows "num_ok k r" "limbs_val r mod limbs_val nl = limbs_val b mod limbs_val nl"
proof -
  have l: "length b = length nl" "limbs_ok b" "limbs_ok nl" "length b = k"
    using assms(1,2) by (auto simp: num_ok_def)
  note sb = sub_assign_correct [OF l(1-3)]
  show "num_ok k r" using assms(1,2) sb by (auto simp: r_def num_ok_def)
  show "limbs_val r mod limbs_val nl = limbs_val b mod limbs_val nl"
  proof (cases "ge b nl")
    case True
    then have le: "limbs_val nl \<le> limbs_val b" using ge_correct [OF l(2,3,1)] by simp
    have "limbs_val b < LIMB ^ k" using limbs_val_lt [OF l(2)] l(4) by simp
    then have "limbs_val b - limbs_val nl < LIMB ^ k" by simp
    moreover have "int (limbs_val (sub_assign b nl)) = int (limbs_val b - limbs_val nl) mod int (LIMB ^ k)"
      using sb(3) le l(4) by (simp add: of_nat_diff)
    ultimately have "limbs_val (sub_assign b nl) = limbs_val b - limbs_val nl" by simp
    then show ?thesis using True le by (simp add: r_def le_mod_geq)
  qed (simp add: r_def)
qed

lemma one_num: "0 < k \<Longrightarrow> num_ok k ((replicate k 0)[0 := 1]) \<and> limbs_val ((replicate k 0)[0 := 1]) = 1"
  by (cases k) (auto simp: num_ok_def limbs_ok_def LIMB_def)

lemma modulus_ctx:
  assumes "odd (nat_of_be n)"
  defines "k \<equiv> (length (trim n) + 7) div 8" and "nl \<equiv> from_be (trim n) ((length (trim n) + 7) div 8)"
  shows "mont_ctx nl k (unat (n0inv (of_nat (nl ! 0))))" "limbs_val nl = nat_of_be n" "and (nl ! 0) 1 \<noteq> 0"
proof -
  have "n \<noteq> []" using assms(1) by (auto simp: nat_of_be_def)
  then have "0 < length (trim n)" using trim_pos by simp
  then have k: "0 < k" "length (trim n) \<le> 8 * k" unfolding k_def by linarith+
  have nl: "length nl = k" "limbs_ok nl" "limbs_val nl = nat_of_be (trim n) mod LIMB ^ k"
    using from_be_correct [of "trim n" k] by (simp_all add: nl_def k_def)
  have "nat_of_be (trim n) < 256 ^ length (trim n)" by (rule nat_of_be_bound)
  also have "\<dots> \<le> 256 ^ (8 * k)" using k(2) by (intro power_increasing) auto
  also have "\<dots> = LIMB ^ k" by (simp add: power_mult LIMB_def)
  finally show v: "limbs_val nl = nat_of_be n" using nl(3) by (simp add: trim_val)
  obtain x xs where x: "nl = x # xs" using nl(1) k(1) by (cases nl) auto
  have "even LIMB" by (simp add: LIMB_def)
  moreover have "odd (x + LIMB * limbs_val xs)" using assms(1) v x by simp
  ultimately have ox: "odd (nl ! 0)" by (simp add: x)
  then show "and (nl ! 0) 1 \<noteq> 0" by (simp add: and_one_eq odd_iff_mod_2_eq_one)
  have "nl ! 0 < LIMB" using nl(2) x by simp
  then show "mont_ctx nl k (unat (n0inv (of_nat (nl ! 0))))"
    using nl k ox assms(1) v n0inv_nat [OF ox] by (simp add: mont_ctx_def)
qed

lemma mod_exp_value:
  assumes "odd (nat_of_be n)" "1 < nat_of_be n"
  defines "k \<equiv> (length (trim n) + 7) div 8"
  shows "nat_of_be (mod_exp bas ex n) = (nat_of_be bas mod 2 ^ (64 * k)) ^ nat_of_be ex mod nat_of_be n
    \<and> length (mod_exp bas ex n) = 8 * k"
proof -
  define nl where "nl = from_be (trim n) k"
  define N where "N = limbs_val nl"
  define R where "R = LIMB ^ k"
  define n0i where "n0i = unat (n0inv (of_nat (nl ! 0)))"
  note mc = modulus_ctx [OF assms(1), folded k_def, folded nl_def, folded n0i_def]
  have ctx: "mont_ctx nl k n0i" and N: "N = nat_of_be n" using mc by (simp_all add: N_def)
  have k: "0 < k" "num_ok k nl" "odd N" using ctx by (auto simp: mont_ctx_def num_ok_def N_def)
  have cop: "coprime R N" unfolding R_def by (rule coprime_R [OF k(3)])
  define one where "one = (replicate k (0::nat))[0 := 1]"
  have one: "num_ok k one" "limbs_val one = 1" using one_num [OF k(1)] by (simp_all add: one_def)
  define rr where "rr = (rr_step nl ^^ (128 * k)) one"
  have rr: "num_ok k rr" "limbs_val rr mod N = R * R mod N"
  proof -
    have "(2::nat) ^ (128 * k) = (2 ^ 64) ^ k * (2 ^ 64) ^ k"
      unfolding power_mult [symmetric] power_add [symmetric] by (rule arg_cong [where f = "power 2"]) simp
    then have "2 ^ (128 * k) = R * R" by (simp only: R_def LIMB_2)
    then show "num_ok k rr" "limbs_val rr mod N = R * R mod N"
      using rr_loop_correct [of nl k one "128 * k"] k(2) one mont_ctx_pos [OF ctx]
      by (auto simp: rr_def num_ok_def N_def)
  qed
  define b0 where "b0 = from_be bas k"
  define bl where "bl = (if ge b0 nl then sub_assign b0 nl else b0)"
  define B where "B = nat_of_be bas mod R"
  have b0: "num_ok k b0" "limbs_val b0 = B" using from_be_correct [of bas k] by (simp_all add: b0_def num_ok_def B_def R_def)
  have bl: "num_ok k bl" "limbs_val bl mod N = B mod N"
    using reduce_once [OF b0(1) k(2)] by (simp_all add: bl_def b0(2) N_def)
  define am where "am = mont_mul bl rr nl n0i"
  note m = mont_mul_num [OF ctx bl(1) rr(1), folded am_def N_def R_def]
  have "limbs_val am * R mod N = B * (R * R) mod N"
    unfolding m(2) using bl(2) rr(2) by (metis mod_mult_eq)
  then have "limbs_val am * R mod N = (B * R) * R mod N" by (simp add: mult.assoc)
  from mod_cancel [OF cop this] m(1) have am: "rep nl k am B" by (simp add: rep_def N_def R_def)
  define r0 where "r0 = mont_mul one rr nl n0i"
  have r0: "num_ok k r0" using mont_mul_num(1) [OF ctx one(1) rr(1)] by (simp add: r0_def)
  define bits where "bits = concat (map msb_bits ex)"
  define e where "e = nat_of_be ex"
  have be: "bits_val 0 bits = e" by (simp add: bits_def bits_val_bytes e_def)
  obtain r s where st: "foldl (exp_bit am nl n0i) (r0, False) bits = (r, s)" by fastforce
  have "exp_inv nl k B e (r, s)"
    using exp_fold_inv [OF ctx am, of 0 "(r0, False)" bits] r0 by (simp add: exp_inv_def be st)
  then have rs: "num_ok k r" "s \<longleftrightarrow> 0 < e" "s \<Longrightarrow> rep nl k r (B ^ e)" by (auto simp: exp_inv_def)
  define fin where "fin = (if \<not> s then one else mont_mul r one nl n0i)"
  have "length (trim n) + 7 \<ge> 8" using k(1) by (simp add: k_def)
  have me: "mod_exp bas ex n = to_be fin"
    using k(1) mc(3) st
    unfolding mod_exp_def Let_def k_def [symmetric] nl_def [symmetric] n0i_def [symmetric] one_def [symmetric]
      rr_def [symmetric] b0_def [symmetric] bl_def [symmetric] am_def [symmetric] r0_def [symmetric]
      bits_def [symmetric]
    by (simp add: fin_def)
  have "num_ok k fin \<and> limbs_val fin = B ^ e mod N"
  proof (cases s)
    case False
    then show ?thesis using one rs(2) assms(2) N by (simp add: fin_def)
  next
    case True
    note f = mont_mul_num [OF ctx rs(1) one(1), folded N_def R_def]
    have "limbs_val fin * R mod N = B ^ e * R mod N"
      using f(2) rs(3) [OF True] True one(2) by (simp add: fin_def rep_def N_def R_def)
    from mod_cancel [OF cop this] f(1,3) one(2) True show ?thesis by (simp add: fin_def)
  qed
  moreover have "R = 2 ^ (64 * k)" by (simp add: R_def LIMB_2 power_mult)
  ultimately show ?thesis
    using to_be_correct [of fin] length_to_be [of fin] me N by (simp add: num_ok_def B_def e_def)
qed

text \<open>
  C24: \<open>mod_exp\<close> is modular exponentiation: for an odd modulus above 1 the result, read as a
  big-endian number, is base to the exponent modulo n, for a base and an exponent of any
  length (a base longer than the modulus is first cut to the modulus' width), and its length
  is that of n rounded up to whole limbs.
\<close>

theorem mod_exp_correct:
  assumes "odd (nat_of_be n)" "1 < nat_of_be n"
  defines "k \<equiv> (length (trim n) + 7) div 8"
  shows "nat_of_be (mod_exp bas ex n) = (nat_of_be bas mod 2 ^ (64 * k)) ^ nat_of_be ex mod nat_of_be n
    \<and> length (mod_exp bas ex n) = 8 * k"
  unfolding k_def by (rule mod_exp_value [OF assms(1,2)])

lemma mod_exp_correct_witness: "nat_of_be (mod_exp [5] [3] [0, 13]) = 8"
proof -
  have n: "nat_of_be [0, 13] = 13" by code_simp
  have t: "(length (trim [0, 13]) + 7) div 8 = 1" by code_simp
  have "nat_of_be [5] = 5" "nat_of_be [3] = 3" by code_simp+
  with mod_exp_correct [of "[0, 13]" "[5]" "[3]"] show ?thesis by (simp add: n t)
qed

end
