(* ===== verification/Md.thy ===== *)
theory Md
  imports Prelude
begin

text \<open>
  The streaming shell shared by the two hash functions of the kernel: the buffering of
  \<open>Sha256::{update, finalize}\<close> (kernel/src/crypto.rs) and \<open>Sha1::{update, finalize}\<close>
  (kernel/src/wpa2.rs) is the same code around a different block function, so it is written once
  with the block function as an argument. The specification is the padded message of FIPS 180-4
  (\<open>md_pad\<close>) folded block by block (\<open>md_fold\<close>); the locale \<open>md_hash\<close> proves for every block
  function and initial value that feeding a message in any number of pieces yields the digest of
  the whole.
\<close>

named_theorems md_simps \<open>the streaming state after each operation\<close>

unbundle bit_operations_syntax

section \<open>State and operations\<close>

record 'h md =
  md_h :: 'h
  md_buf :: bytes
  md_len :: nat
  md_total :: u64

definition md_new :: "'h \<Rightarrow> 'h md" where
  "md_new iv = \<lparr>md_h = iv, md_buf = replicate 64 0, md_len = 0, md_total = 0\<rparr>"

text \<open>The loop \<open>while data.len() >= 64\<close>; it returns what is left of the data.\<close>

fun md_blocks :: "('h \<Rightarrow> bytes \<Rightarrow> 'h) \<Rightarrow> 'h \<Rightarrow> bytes \<Rightarrow> 'h \<times> bytes" where
  "md_blocks blk h data =
     (if 64 \<le> length data then md_blocks blk (blk h (take 64 data)) (drop 64 data) else (h, data))"

declare md_blocks.simps [simp del]

text \<open>The first branch of \<open>update\<close>: top up a partly filled buffer, and hash it when it is full.\<close>

definition md_top_up :: "('h \<Rightarrow> bytes \<Rightarrow> 'h) \<Rightarrow> 'h md \<Rightarrow> bytes \<Rightarrow> 'h md \<times> bytes" where
  "md_top_up blk s data =
     (if 0 < md_len s then
        let k = min (64 - md_len s) (length data);
            s1 = s\<lparr>md_buf := blit (md_buf s) (md_len s) (take k data), md_len := md_len s + k\<rparr>
        in (if md_len s1 = 64 then s1\<lparr>md_h := blk (md_h s1) (md_buf s1), md_len := 0\<rparr> else s1,
            drop k data)
      else (s, data))"

definition md_update :: "('h \<Rightarrow> bytes \<Rightarrow> 'h) \<Rightarrow> 'h md \<Rightarrow> bytes \<Rightarrow> 'h md" where
  "md_update blk s data =
     (let s0 = s\<lparr>md_total := md_total s + of_nat (length data)\<rparr>;
          (s1, data1) = md_top_up blk s0 data;
          (h, rest) = md_blocks blk (md_h s1) data1;
          s2 = s1\<lparr>md_h := h\<rparr>
      in if rest \<noteq> [] then s2\<lparr>md_buf := blit (md_buf s2) 0 rest, md_len := length rest\<rparr> else s2)"

text \<open>The zero-filling loop \<open>while i < n { buf[i] = 0; i += 1 }\<close>.\<close>

definition zero_fill :: "bytes \<Rightarrow> nat \<Rightarrow> nat \<Rightarrow> bytes" where
  "zero_fill buf i n = blit buf i (replicate (n - i) 0)"

text \<open>\<open>finalize\<close> up to the serialisation of the words: the state after the last block.\<close>

definition md_finish :: "('h \<Rightarrow> bytes \<Rightarrow> 'h) \<Rightarrow> 'h md \<Rightarrow> 'h" where
  "md_finish blk s =
     (let bits = md_total s * 8;
          buf = (md_buf s)[md_len s := 0x80];
          i = md_len s + 1;
          (h, buf, i) = (if 56 < i then let buf1 = zero_fill buf i 64 in (blk (md_h s) buf1, buf1, 0)
                         else (md_h s, buf, i));
          buf = zero_fill buf i 56;
          buf = blit buf 56 (be_of_nat 8 (unat bits))
      in blk h buf)"

section \<open>Specification\<close>

text \<open>The message cut in 64-byte blocks; a tail shorter than a block is left over.\<close>

fun md_fold :: "('h \<Rightarrow> bytes \<Rightarrow> 'h) \<Rightarrow> 'h \<Rightarrow> bytes \<Rightarrow> 'h" where
  "md_fold blk h msg =
     (if 64 \<le> length msg then md_fold blk (blk h (take 64 msg)) (drop 64 msg) else h)"

declare md_fold.simps [simp del]

definition md_pad :: "bytes \<Rightarrow> bytes" where
  "md_pad msg = msg @ [0x80] @ replicate ((119 - length msg mod 64) mod 64) 0 @
     be_of_nat 8 (length msg * 8)"

definition md_digest :: "('h \<Rightarrow> bytes \<Rightarrow> 'h) \<Rightarrow> 'h \<Rightarrow> bytes \<Rightarrow> 'h" where
  "md_digest blk iv msg = md_fold blk iv (md_pad msg)"

lemma md_fold_short [simp]: "length msg < 64 \<Longrightarrow> md_fold blk h msg = h"
  by (subst md_fold.simps) simp

lemma md_fold_block:
  "length b = 64 \<Longrightarrow> md_fold blk h (b @ msg) = md_fold blk (blk h b) msg"
  by (subst md_fold.simps) simp

lemma md_fold_append:
  "64 dvd length xs \<Longrightarrow> md_fold blk h (xs @ ys) = md_fold blk (md_fold blk h xs) ys"
proof (induction "length xs" arbitrary: xs h rule: less_induct)
  case less
  show ?case
  proof (cases "64 \<le> length xs")
    case True
    have "xs @ ys = take 64 xs @ (drop 64 xs @ ys)" by simp
    then have "md_fold blk h (xs @ ys) = md_fold blk (blk h (take 64 xs)) (drop 64 xs @ ys)"
      using True by (metis length_take md_fold_block min.absorb2)
    also have "\<dots> = md_fold blk (md_fold blk (blk h (take 64 xs)) (drop 64 xs)) ys"
      using less(1) [of "drop 64 xs"] less(2) True by (auto simp: dvd_diff_nat)
    also have "md_fold blk (blk h (take 64 xs)) (drop 64 xs) = md_fold blk h xs"
      using True by (subst (2) md_fold.simps) simp
    finally show ?thesis .
  next
    case False
    then have "xs = []" using less(2) by (auto dest: dvd_imp_le)
    then show ?thesis by simp
  qed
qed

lemma md_blocks_fold:
  "md_blocks blk h data = (md_fold blk h data, drop (64 * (length data div 64)) data)"
proof (induction blk h data rule: md_blocks.induct)
  case (1 blk h data)
  show ?case
  proof (cases "64 \<le> length data")
    case True
    define q where "q = (length data - 64) div 64"
    have q: "64 * (length data div 64) = 64 + 64 * q"
      using le_div_geq [of 64 "length data"] True by (simp add: q_def)
    have "md_blocks blk h data = md_blocks blk (blk h (take 64 data)) (drop 64 data)"
      using True by (subst md_blocks.simps) simp
    also have "\<dots> = (md_fold blk (blk h (take 64 data)) (drop 64 data), drop (64 * q) (drop 64 data))"
      using 1 [OF True] by (simp add: q_def)
    also have "md_fold blk (blk h (take 64 data)) (drop 64 data) = md_fold blk h data"
      using True by (subst (2) md_fold.simps) simp
    finally show ?thesis unfolding q drop_drop by (simp add: add.commute)
  next
    case False
    then show ?thesis by (subst md_blocks.simps) simp
  qed
qed

lemma md_fold_drop_tail:
  "md_fold blk h (take (64 * (length data div 64)) data) = md_fold blk h data"
proof -
  let ?n = "64 * (length data div 64)"
  have "length (take ?n data) = ?n" by simp
  then have "md_fold blk h (take ?n data @ drop ?n data)
      = md_fold blk (md_fold blk h (take ?n data)) (drop ?n data)"
    by (intro md_fold_append) simp
  moreover have "length (drop ?n data) < 64" by (simp add: minus_mult_div_eq_mod)
  ultimately show ?thesis by simp
qed

lemma length_md_pad: "64 dvd length (md_pad msg)"
proof -
  define q r where "q = length msg div 64" and "r = length msg mod 64"
  have l: "length msg = 64 * q + r" and r: "r < 64" by (simp_all add: q_def r_def)
  have "length (md_pad msg) = 64 * q + r + 9 + (119 - r) mod 64"
    unfolding md_pad_def using l r by simp
  moreover have "(119 - r) mod 64 = (if r \<le> 55 then 55 - r else 119 - r)"
  proof (cases "r \<le> 55")
    case True
    then have "119 - r = (55 - r) + 64" by simp
    then have "(119 - r) mod 64 = (55 - r) mod 64" by (simp only: mod_add_self2)
    with True show ?thesis by simp
  next
    case False
    then show ?thesis using r by simp
  qed
  ultimately have "length (md_pad msg) = 64 * (q + (if r \<le> 55 then 1 else 2))"
    using r by simp
  then show ?thesis by simp
qed

section \<open>The streaming state represents the message fed so far\<close>

definition md_core :: "('h \<Rightarrow> bytes \<Rightarrow> 'h) \<Rightarrow> 'h \<Rightarrow> 'h md \<Rightarrow> bytes \<Rightarrow> bool" where
  "md_core blk iv s m \<longleftrightarrow>
     length (md_buf s) = 64 \<and> md_len s = length m mod 64 \<and>
     take (md_len s) (md_buf s) = drop (64 * (length m div 64)) m \<and> md_h s = md_fold blk iv m"

definition md_repr :: "('h \<Rightarrow> bytes \<Rightarrow> 'h) \<Rightarrow> 'h \<Rightarrow> 'h md \<Rightarrow> bytes \<Rightarrow> bool" where
  "md_repr blk iv s m \<longleftrightarrow> md_core blk iv s m \<and> md_total s = of_nat (length m)"

lemma md_repr_new: "md_repr blk iv (md_new iv) []"
  by (simp add: md_repr_def md_core_def md_new_def)

text \<open>The whole blocks of a message and its tail.\<close>

lemma md_split:
  obtains a t where "m = a @ t" "64 dvd length a" "length t < 64" "length t = length m mod 64"
    "length a = 64 * (length m div 64)" "t = drop (64 * (length m div 64)) m"
proof (rule that)
  let ?n = "64 * (length m div 64)"
  show "m = take ?n m @ drop ?n m" by simp
  show "length (take ?n m) = ?n" by simp
  then show "64 dvd length (take ?n m)" by simp
  show "length (drop ?n m) < 64" "length (drop ?n m) = length m mod 64"
    by (simp_all add: minus_mult_div_eq_mod)
qed simp

lemma md_core_tail:
  assumes "64 dvd length a" "length t < 64"
  shows "md_core blk iv s (a @ t) \<longleftrightarrow>
     length (md_buf s) = 64 \<and> md_len s = length t \<and> take (length t) (md_buf s) = t \<and>
     md_h s = md_fold blk iv a"
proof -
  obtain c where c: "length a = 64 * c" using assms(1) by (auto elim: dvdE)
  have "length (a @ t) div 64 = c" "length (a @ t) mod 64 = length t"
    using assms(2) c by simp_all
  then show ?thesis using md_fold_append [OF assms(1), of blk iv t] assms(2) c
    by (auto simp: md_core_def)
qed

lemma md_top_up_core:
  assumes "md_core blk iv s m" "md_top_up blk s d = (s1, d1)"
  obtains d0 where "d = d0 @ d1" "md_core blk iv s1 (m @ d0)" "d1 \<noteq> [] \<longrightarrow> md_len s1 = 0"
    "md_total s1 = md_total s"
proof -
  obtain a t where m: "m = a @ t" "64 dvd length a" "length t < 64" by (rule md_split)
  have s: "length (md_buf s) = 64" "md_len s = length t" "take (length t) (md_buf s) = t"
    "md_h s = md_fold blk iv a"
    using assms(1) unfolding m(1) md_core_tail [OF m(2,3)] by blast+
  show ?thesis
  proof (cases "t = []")
    case True
    then have "s1 = s" "d1 = d" using assms(2) s(2) by (simp_all add: md_top_up_def)
    then show ?thesis using assms(1) True s(2) by (intro that [of "[]"]) simp_all
  next
    case False
    define k where "k = min (64 - length t) (length d)"
    define buf where "buf = blit (md_buf s) (length t) (take k d)"
    define s2 where "s2 = s\<lparr>md_buf := buf, md_len := length t + k\<rparr>"
    have k: "length t + k \<le> 64" "length (take k d) = k" using m(3) by (auto simp: k_def)
    have buf: "length buf = 64" using s(1) k by (simp add: buf_def)
    have "take (length t + k) buf = take (length t) (md_buf s) @ take k d"
      using s(1) k by (simp add: buf_def blit_def)
    then have tk: "take (length t + k) buf = t @ take k d" using s(3) by simp
    have eq: "(s1, d1) = (if length t + k = 64 then s2\<lparr>md_h := blk (md_h s) buf, md_len := 0\<rparr>
      else s2, drop k d)"
      using False
      unfolding assms(2) [symmetric] md_top_up_def Let_def s(2) k_def [symmetric] buf_def [symmetric]
      by (simp add: s2_def)
    show ?thesis
    proof (cases "length t + k = 64")
      case True
      then have buf_eq: "buf = t @ take k d" using tk buf by simp
      have "64 dvd length (m @ take k d)" using m True k by (simp add: add.assoc)
      moreover have "md_fold blk iv (m @ take k d) = blk (md_fold blk iv a) buf"
        using md_fold_append [OF m(2), of blk iv "t @ take k d"] md_fold_block [of buf blk _ "[]"] buf
        by (simp add: m(1) buf_eq)
      ultimately have "md_core blk iv s1 ((m @ take k d) @ [])"
        using eq True buf s(4) by (subst md_core_tail) (simp_all add: s2_def)
      then show ?thesis using eq True by (intro that [of "take k d"]) (simp_all add: s2_def)
    next
      case f: False
      then have lt: "length (t @ take k d) < 64" using k by simp
      have d: "k = length d" using f k(1) m(3) by (auto simp: k_def)
      have "md_core blk iv s1 (a @ (t @ take k d))"
        using eq f buf tk s(4) k lt by (subst md_core_tail [OF m(2) lt]) (simp add: s2_def)
      then show ?thesis using eq f d by (intro that [of "take k d"]) (simp_all add: m(1) s2_def)
    qed
  qed
qed

lemma md_blocks_core:
  assumes "md_core blk iv s m" "d \<noteq> [] \<longrightarrow> md_len s = 0" "md_blocks blk (md_h s) d = (h, rest)"
  shows "md_core blk iv (if rest \<noteq> [] then s\<lparr>md_h := h, md_buf := blit (md_buf s) 0 rest, md_len := length rest\<rparr>
           else s\<lparr>md_h := h\<rparr>) (m @ d)"
proof (cases "d = []")
  case True
  then show ?thesis using assms(1,3) by (auto simp: md_blocks.simps)
next
  case False
  obtain a t where d: "d = a @ t" "64 dvd length a" "length t < 64" "length a = 64 * (length d div 64)"
    "t = drop (64 * (length d div 64)) d" by (rule md_split)
  have m: "64 dvd length m" "length (md_buf s) = 64" "md_h s = md_fold blk iv m" "md_len s = 0"
    using assms(1,2) False by (auto simp: md_core_def)
  have h: "h = md_fold blk (md_h s) d" "rest = t" using assms(3) d(5) by (auto simp: md_blocks_fold)
  have "md_fold blk (md_h s) d = md_fold blk iv (m @ a)"
    using md_fold_append [OF m(1), of blk iv a] md_fold_append [OF d(2), of blk "md_h s" t] m(3) d(1,3) by simp
  moreover have "64 dvd length (m @ a)" using m(1) d(2) by simp
  ultimately have "md_core blk iv (if rest \<noteq> [] then s\<lparr>md_h := h, md_buf := blit (md_buf s) 0 rest, md_len := length rest\<rparr>
           else s\<lparr>md_h := h\<rparr>) ((m @ a) @ t)"
    using d(3) m h by (subst md_core_tail) (auto simp: blit_def)
  then show ?thesis using d(1) by simp
qed

lemma md_core_total [simp]: "md_core blk iv (s\<lparr>md_total := x\<rparr>) m = md_core blk iv s m"
  by (simp add: md_core_def)

lemma md_repr_update:
  assumes "md_repr blk iv s m"
  shows "md_repr blk iv (md_update blk s d) (m @ d)"
proof -
  define s0 where "s0 = s\<lparr>md_total := md_total s + of_nat (length d)\<rparr>"
  obtain s1 d1 where top: "md_top_up blk s0 d = (s1, d1)" by fastforce
  obtain h rest where bl: "md_blocks blk (md_h s1) d1 = (h, rest)" by fastforce
  have "md_core blk iv s0 m" using assms by (simp add: md_repr_def s0_def)
  from md_top_up_core [OF this top] obtain d0 where d0: "d = d0 @ d1" "md_core blk iv s1 (m @ d0)"
    "d1 \<noteq> [] \<longrightarrow> md_len s1 = 0" "md_total s1 = md_total s0" .
  have "md_update blk s d = (if rest \<noteq> [] then s1\<lparr>md_h := h, md_buf := blit (md_buf s1) 0 rest, md_len := length rest\<rparr>
           else s1\<lparr>md_h := h\<rparr>)"
    by (simp add: md_update_def s0_def [symmetric] top bl)
  then show ?thesis using md_blocks_core [OF d0(2,3) bl] d0(1,4) assms
    by (simp add: md_repr_def s0_def)
qed

lemma md_repr_updates:
  "md_repr blk iv s m \<Longrightarrow> md_repr blk iv (foldl (md_update blk) s ds) (m @ concat ds)"
proof (induction ds arbitrary: s m)
  case (Cons d ds)
  show ?case using Cons.IH [OF md_repr_update [OF Cons.prems, of d]] by simp
qed simp

section \<open>Finalisation\<close>

lemma le_of_nat_mod: "le_of_nat n (v mod 256 ^ n) = le_of_nat n v"
  using le_of_nat_of_le [of "le_of_nat n v"] by (simp add: nat_of_le_of_nat)

lemma md_finish_repr:
  assumes "md_repr blk iv s m"
  shows "md_finish blk s = md_digest blk iv m"
proof -
  obtain a t where m: "m = a @ t" "64 dvd length a" "length t < 64" "length t = length m mod 64"
    by (rule md_split)
  have s: "length (md_buf s) = 64" "md_len s = length t" "take (length t) (md_buf s) = t"
    "md_h s = md_fold blk iv a" "md_total s = of_nat (length m)"
    using assms unfolding m(1) md_repr_def md_core_tail [OF m(2,3)] by blast+
  define lens where "lens = be_of_nat 8 (length m * 8)"
  have "unat (md_total s * 8) = length m * 8 mod 256 ^ 8"
    by (simp add: s(5) unat_word_ariths unat_of_nat mod_mult_left_eq)
  then have lens: "be_of_nat 8 (unat (md_total s * 8)) = lens"
    by (simp only: lens_def be_of_nat_def le_of_nat_mod)
  have l8: "length lens = 8" by (simp add: lens_def)
  define buf where "buf = (md_buf s)[length t := (0x80 :: byte)]"
  have buf: "buf = t @ [0x80] @ drop (length t + 1) (md_buf s)"
    using m(3) s(1,3) by (simp add: buf_def upd_conv_take_nth_drop)
  define z where "z = (119 - length t) mod 64"
  have pad: "md_pad m = a @ (t @ [0x80] @ replicate z 0 @ lens)"
    unfolding md_pad_def m(4) [symmetric] by (simp add: m(1) z_def lens_def)
  then have dig: "md_digest blk iv m = md_fold blk (md_h s) (t @ [0x80] @ replicate z 0 @ lens)"
    by (simp add: md_digest_def md_fold_append [OF m(2)] s(4))
  show ?thesis
  proof (cases "length t < 56")
    case True
    then have "119 - length t = (55 - length t) + 64" by simp
    then have z: "z = 55 - length t" unfolding z_def by (simp only: mod_add_self2) simp
    have fill: "blit (zero_fill buf (length t + 1) 56) 56 lens = t @ [0x80] @ replicate z 0 @ lens"
      using True s(1) l8 Suc_diff_le [of "length t" 55] by (simp add: zero_fill_def buf blit_def z)
    have len: "length (t @ [0x80] @ replicate z 0 @ lens) = 64" using True l8 by (simp add: z)
    have "md_finish blk s = blk (md_h s) (t @ [0x80] @ replicate z 0 @ lens)"
      using True by (simp add: md_finish_def s(2) lens buf_def [symmetric] fill [simplified])
    then show ?thesis using dig md_fold_block [OF len, of blk _ "[]"] by simp
  next
    case False
    then have z: "z = 119 - length t" using m(3) by (simp add: z_def)
    define b1 where "b1 = t @ [0x80] @ replicate (63 - length t) (0 :: byte)"
    define b2 where "b2 = replicate 56 (0 :: byte) @ lens"
    have fill1: "zero_fill buf (length t + 1) 64 = b1"
      using m(3) s(1) by (simp add: zero_fill_def buf blit_def b1_def)
    have len1: "length b1 = 64" using m(3) by (simp add: b1_def)
    have fill2: "blit (zero_fill b1 0 56) 56 lens = b2"
      using len1 l8 by (simp add: zero_fill_def blit_def b2_def)
    have len2: "length b2 = 64" using l8 by (simp add: b2_def)
    have "replicate z (0 :: byte) = replicate (63 - length t) 0 @ replicate 56 0"
      using m(3) by (simp add: z replicate_add [symmetric])
    then have "t @ [0x80] @ replicate z 0 @ lens = b1 @ b2 @ []" by (simp add: b1_def b2_def)
    then have "md_digest blk iv m = blk (blk (md_h s) b1) b2"
      using dig md_fold_block [OF len1, of blk] md_fold_block [OF len2, of blk _ "[]"] by simp
    moreover have "md_finish blk s = blk (blk (md_h s) b1) b2"
      using False by (simp add: md_finish_def s(2) lens buf_def [symmetric] fill1 [simplified] fill2 Let_def)
    ultimately show ?thesis by simp
  qed
qed

text \<open>A digest does not depend on how the message was cut.\<close>

lemma md_streaming:
  "md_finish blk (foldl (md_update blk) (md_new iv) ds) = md_digest blk iv (concat ds)"
  using md_finish_repr [OF md_repr_updates [OF md_repr_new, of blk iv ds]] by simp

lemma md_fold_cong:
  assumes "\<And>h b. ok h \<Longrightarrow> length b = 64 \<Longrightarrow> ok (f h b) \<and> f h b = g h b" "ok h"
  shows "md_fold f h msg = md_fold g h msg \<and> ok (md_fold f h msg)"
  using assms(2)
proof (induction "length msg" arbitrary: h msg rule: less_induct)
  case less
  show ?case
  proof (cases "64 \<le> length msg")
    case True
    have "length (take 64 msg) = 64" using True by simp
    from assms(1) [OF less(2) this]
    have b: "ok (f h (take 64 msg))" "f h (take 64 msg) = g h (take 64 msg)" by blast+
    have "length (drop 64 msg) < length msg" using True by simp
    from less(1) [OF this b(1)]
    have "md_fold f (f h (take 64 msg)) (drop 64 msg) = md_fold g (f h (take 64 msg)) (drop 64 msg)"
      "ok (md_fold f (f h (take 64 msg)) (drop 64 msg))" by blast+
    moreover have "md_fold f h msg = md_fold f (f h (take 64 msg)) (drop 64 msg)"
      "md_fold g h msg = md_fold g (g h (take 64 msg)) (drop 64 msg)"
      using True by (subst md_fold.simps, simp)+
    ultimately show ?thesis using b(2) by simp
  qed (simp add: less(2))
qed

section \<open>The interface of a streaming hash, and HMAC over it\<close>

text \<open>
  What the HMAC code of both files relies on: a fresh state, an update, a finalisation, and the
  one-shot hash that any sequence of updates computes.
\<close>

locale stream_hash =
  fixes new :: 's and update :: "'s \<Rightarrow> bytes \<Rightarrow> 's" and finalize :: "'s \<Rightarrow> bytes"
    and H :: "bytes \<Rightarrow> bytes" and dlen :: nat
  assumes streaming: "finalize (foldl update new ds) = H (concat ds)"
    and digest_length: "length (H m) = dlen"
    and digest_fits: "dlen \<le> 64"

text \<open>\<open>k\<close>: the key, hashed when longer than a block, zero-padded to 64 bytes.\<close>

definition hmac_key_block :: "(bytes \<Rightarrow> bytes) \<Rightarrow> bytes \<Rightarrow> bytes" where
  "hmac_key_block hash key =
     blit (replicate 64 0) 0 (if 64 < length key then hash key else key)"

definition xor_pad :: "byte \<Rightarrow> bytes \<Rightarrow> bytes" where
  "xor_pad p k = map (\<lambda>i. (replicate 64 p ! i) XOR (k ! i)) [0..<64]"

text \<open>HMAC as RFC 2104 writes it.\<close>

definition rfc2104_hmac :: "(bytes \<Rightarrow> bytes) \<Rightarrow> bytes \<Rightarrow> bytes \<Rightarrow> bytes" where
  "rfc2104_hmac hash key msg =
     (let k = (if 64 < length key then hash key else key);
          k0 = k @ replicate (64 - length k) 0
      in hash (map ((XOR) 0x5c) k0 @ hash (map ((XOR) 0x36) k0 @ msg)))"

lemma xor_pad_map: "length k = 64 \<Longrightarrow> xor_pad p k = map ((XOR) p) k"
  by (rule nth_equalityI) (simp_all add: xor_pad_def)

context stream_hash
begin

lemma one_shot: "finalize (update new m) = H m"
  using streaming [of "[m]"] by simp

lemma two_parts: "finalize (update (update new a) b) = H (a @ b)"
  using streaming [of "[a, b]"] by simp

lemma parts: "finalize (foldl update (update new a) ds) = H (a @ concat ds)"
  using streaming [of "a # ds"] by simp

lemma key_block:
  "hmac_key_block H key =
     (let k = (if 64 < length key then H key else key) in k @ replicate (64 - length k) 0)"
  using digest_length [of key] digest_fits by (simp add: hmac_key_block_def blit_def Let_def)

lemma length_key_block: "length (hmac_key_block H key) = 64"
  using digest_length [of key] digest_fits by (simp add: key_block Let_def)

text \<open>The HMAC computed with the streaming operations is the one of RFC 2104.\<close>

lemma hmac:
  "finalize (update (update new (xor_pad 0x5c (hmac_key_block H key)))
     (finalize (foldl update (update new (xor_pad 0x36 (hmac_key_block H key))) ds)))
   = rfc2104_hmac H key (concat ds)"
  unfolding two_parts parts rfc2104_hmac_def
  by (simp only: xor_pad_map [OF length_key_block]) (simp add: key_block Let_def)

end

end
