(* ===== verification/Sha256.thy ===== *)
theory Sha256
  imports Md
begin

text \<open>
  SHA-256, HMAC-SHA256 and HKDF of kernel/src/crypto.rs. The block function is the one of the
  source: a 64-entry schedule filled by a loop and eight chained variables; the specification is
  FIPS 180-4, with the schedule as a recursive function and the six logical functions named.
  HMAC and HKDF follow RFC 2104 and RFC 5869. \<open>Md\<close> supplies the streaming shell.
\<close>

unbundle bit_operations_syntax

section \<open>Words and bytes\<close>

text \<open>\<open>u32::from_be_bytes\<close>, \<open>u32::to_be_bytes\<close>, \<open>rotate_left\<close> and \<open>rotate_right\<close>.\<close>

definition u32_of_be :: "bytes \<Rightarrow> u32" where
  "u32_of_be bs = of_nat (nat_of_be bs)"

definition be_of_u32 :: "u32 \<Rightarrow> bytes" where
  "be_of_u32 x = be_of_nat 4 (unat x)"

definition rotr :: "nat \<Rightarrow> u32 \<Rightarrow> u32" where
  "rotr n x = word_rotr n x"

definition rotl :: "nat \<Rightarrow> u32 \<Rightarrow> u32" where
  "rotl n x = word_rotl n x"

lemma length_be_of_u32 [simp]: "length (be_of_u32 x) = 4"
  by (simp add: be_of_u32_def)

lemma length_concat_be [simp]: "length (concat (map be_of_u32 xs)) = 4 * length xs"
  by (induction xs) auto

section \<open>The block function\<close>

text \<open>The round constants and the initial state, in decimal.\<close>

definition SHA256_K :: "u32 list" where
  "SHA256_K = [
    1116352408, 1899447441, 3049323471, 3921009573, 961987163, 1508970993,
    2453635748, 2870763221, 3624381080, 310598401, 607225278, 1426881987,
    1925078388, 2162078206, 2614888103, 3248222580, 3835390401, 4022224774,
    264347078, 604807628, 770255983, 1249150122, 1555081692, 1996064986,
    2554220882, 2821834349, 2952996808, 3210313671, 3336571891, 3584528711,
    113926993, 338241895, 666307205, 773529912, 1294757372, 1396182291,
    1695183700, 1986661051, 2177026350, 2456956037, 2730485921, 2820302411,
    3259730800, 3345764771, 3516065817, 3600352804, 4094571909, 275423344,
    430227734, 506948616, 659060556, 883997877, 958139571, 1322822218,
    1537002063, 1747873779, 1955562222, 2024104815, 2227730452, 2361852424,
    2428436474, 2756734187, 3204031479, 3329325298]"

definition sha256_iv :: "u32 list" where
  "sha256_iv = [1779033703, 3144134277, 1013904242, 2773480762,
                1359893119, 2600822924, 528734635, 1541459225]"

definition sha256_sched_step :: "u32 list \<Rightarrow> nat \<Rightarrow> u32 list" where
  "sha256_sched_step w i =
     (let s0 = rotr 7 (w ! (i - 15)) XOR rotr 18 (w ! (i - 15)) XOR drop_bit 3 (w ! (i - 15));
          s1 = rotr 17 (w ! (i - 2)) XOR rotr 19 (w ! (i - 2)) XOR drop_bit 10 (w ! (i - 2))
      in w[i := w ! (i - 16) + s0 + w ! (i - 7) + s1])"

definition sha256_schedule :: "bytes \<Rightarrow> u32 list" where
  "sha256_schedule blk =
     foldl sha256_sched_step
       (map (\<lambda>i. u32_of_be [blk ! (4 * i), blk ! (4 * i + 1), blk ! (4 * i + 2), blk ! (4 * i + 3)])
          [0..<16] @ replicate 48 0)
       [16..<64]"

text \<open>One round on the chained variables \<open>a, b, c, d, e, f, g, hh\<close>.\<close>

fun sha256_round :: "u32 list \<Rightarrow> u32 \<times> u32 \<times> u32 \<times> u32 \<times> u32 \<times> u32 \<times> u32 \<times> u32 \<Rightarrow> nat \<Rightarrow>
    u32 \<times> u32 \<times> u32 \<times> u32 \<times> u32 \<times> u32 \<times> u32 \<times> u32" where
  "sha256_round w (a, b, c, d, e, f, g, hh) i =
     (let s1 = rotr 6 e XOR rotr 11 e XOR rotr 25 e;
          ch = (e AND f) XOR (NOT e AND g);
          t1 = hh + s1 + ch + SHA256_K ! i + w ! i;
          s0 = rotr 2 a XOR rotr 13 a XOR rotr 22 a;
          maj = (a AND b) XOR (a AND c) XOR (b AND c);
          t2 = s0 + maj
      in (t1 + t2, a, b, c, d + t1, e, f, g))"

definition sha256_block :: "u32 list \<Rightarrow> bytes \<Rightarrow> u32 list" where
  "sha256_block h blk =
     (let w = sha256_schedule blk;
          (a, b, c, d, e, f, g, hh) = foldl (sha256_round w)
            (h ! 0, h ! 1, h ! 2, h ! 3, h ! 4, h ! 5, h ! 6, h ! 7) [0..<64]
      in [h ! 0 + a, h ! 1 + b, h ! 2 + c, h ! 3 + d, h ! 4 + e, h ! 5 + f, h ! 6 + g, h ! 7 + hh])"

definition sha256_new :: "u32 list md" where
  "sha256_new = md_new sha256_iv"

definition sha256_update :: "u32 list md \<Rightarrow> bytes \<Rightarrow> u32 list md" where
  "sha256_update = md_update sha256_block"

definition sha256_finalize :: "u32 list md \<Rightarrow> bytes" where
  "sha256_finalize s = concat (map be_of_u32 (md_finish sha256_block s))"

definition sha256 :: "bytes \<Rightarrow> bytes" where
  "sha256 data = sha256_finalize (sha256_update sha256_new data)"

section \<open>FIPS 180-4\<close>

definition fips_Ch :: "u32 \<Rightarrow> u32 \<Rightarrow> u32 \<Rightarrow> u32" where
  "fips_Ch x y z = (x AND y) XOR (NOT x AND z)"

definition fips_Maj :: "u32 \<Rightarrow> u32 \<Rightarrow> u32 \<Rightarrow> u32" where
  "fips_Maj x y z = (x AND y) XOR (x AND z) XOR (y AND z)"

definition fips_S :: "nat \<Rightarrow> nat \<Rightarrow> nat \<Rightarrow> u32 \<Rightarrow> u32" where
  "fips_S i j k x = rotr i x XOR rotr j x XOR rotr k x"

definition fips_s :: "nat \<Rightarrow> nat \<Rightarrow> nat \<Rightarrow> u32 \<Rightarrow> u32" where
  "fips_s i j k x = rotr i x XOR rotr j x XOR drop_bit k x"

text \<open>The message schedule \<open>W\<close> of FIPS 180-4, section 6.2.2, step 1.\<close>

fun fips_W :: "bytes \<Rightarrow> nat \<Rightarrow> u32" where
  "fips_W m t =
     (if t < 16 then u32_of_be (slice m (4 * t) (4 * t + 4))
      else fips_s 17 19 10 (fips_W m (t - 2)) + fips_W m (t - 7) +
           fips_s 7 18 3 (fips_W m (t - 15)) + fips_W m (t - 16))"

declare fips_W.simps [simp del]

text \<open>The working variables after \<open>t\<close> rounds, and the compression function.\<close>

primrec fips_rounds :: "bytes \<Rightarrow> u32 list \<Rightarrow> nat \<Rightarrow> u32 list" where
  "fips_rounds m h 0 = h"
| "fips_rounds m h (Suc t) =
     (let v = fips_rounds m h t;
          t1 = v ! 7 + fips_S 6 11 25 (v ! 4) + fips_Ch (v ! 4) (v ! 5) (v ! 6) + SHA256_K ! t + fips_W m t;
          t2 = fips_S 2 13 22 (v ! 0) + fips_Maj (v ! 0) (v ! 1) (v ! 2)
      in [t1 + t2, v ! 0, v ! 1, v ! 2, v ! 3 + t1, v ! 4, v ! 5, v ! 6])"

definition fips_compress :: "u32 list \<Rightarrow> bytes \<Rightarrow> u32 list" where
  "fips_compress h m = map2 (+) h (fips_rounds m h 64)"

definition fips_sha256 :: "bytes \<Rightarrow> bytes" where
  "fips_sha256 msg = concat (map be_of_u32 (md_digest fips_compress sha256_iv msg))"

section \<open>The loops compute the FIPS functions\<close>

lemma u32_at_slice:
  "4 * i + 4 \<le> length m \<Longrightarrow>
     [m ! (4 * i), m ! (4 * i + 1), m ! (4 * i + 2), m ! (4 * i + 3)] = slice m (4 * i) (4 * i + 4)"
  by (rule nth_equalityI) (auto simp: slice_def nth_Cons' less_Suc_eq numeral_eq_Suc)

lemma sha256_sched_step_W:
  assumes "length w = 64" "16 \<le> i" "i < 64" "\<forall>t < i. w ! t = fips_W m t"
  shows "length (sha256_sched_step w i) = 64 \<and> (\<forall>t < Suc i. sha256_sched_step w i ! t = fips_W m t)"
proof -
  have "w ! (i - 15) = fips_W m (i - 15)" "w ! (i - 2) = fips_W m (i - 2)"
    "w ! (i - 16) = fips_W m (i - 16)" "w ! (i - 7) = fips_W m (i - 7)"
    using assms(2,4) by auto
  moreover have "fips_W m i = fips_s 17 19 10 (fips_W m (i - 2)) + fips_W m (i - 7) +
      fips_s 7 18 3 (fips_W m (i - 15)) + fips_W m (i - 16)"
    using assms(2) by (subst fips_W.simps) simp
  ultimately show ?thesis using assms
    by (simp add: sha256_sched_step_def Let_def fips_s_def nth_list_update less_Suc_eq)
qed

lemma sha256_schedule_loop:
  assumes "length w = 64" "\<forall>t < 16. w ! t = fips_W m t" "16 + n \<le> 64"
  shows "length (foldl sha256_sched_step w [16..<16 + n]) = 64 \<and>
    (\<forall>t < 16 + n. foldl sha256_sched_step w [16..<16 + n] ! t = fips_W m t)"
  using assms(3)
proof (induction n)
  case 0
  then show ?case using assms by simp
next
  case (Suc n)
  have "[16..<16 + Suc n] = [16..<16 + n] @ [16 + n]" by (simp only: add_Suc_right upt_Suc_append le_add1)
  with Suc show ?case
    using sha256_sched_step_W [of "foldl sha256_sched_step w [16..<16 + n]" "16 + n" m]
    by (simp del: upt_Suc)
qed

lemma sha256_schedule_W:
  assumes "length m = 64" "t < 64"
  shows "sha256_schedule m ! t = fips_W m t"
proof -
  let ?w = "map (\<lambda>i. u32_of_be [m ! (4 * i), m ! (4 * i + 1), m ! (4 * i + 2), m ! (4 * i + 3)])
          [0..<16] @ replicate 48 0"
  have "?w ! t = fips_W m t" if "t < 16" for t
    using that assms(1) u32_at_slice [of t m] by (simp add: nth_append fips_W.simps)
  then show ?thesis using sha256_schedule_loop [of ?w m 48] assms by (simp add: sha256_schedule_def)
qed

lemma length_fips_rounds: "length h = 8 \<Longrightarrow> length (fips_rounds m h t) = 8"
  by (induction t) (auto simp: Let_def)

lemma sha256_rounds_fips:
  assumes "\<forall>i < 64. w ! i = fips_W m i" "t \<le> 64"
  shows "foldl (sha256_round w) (h ! 0, h ! 1, h ! 2, h ! 3, h ! 4, h ! 5, h ! 6, h ! 7) [0..<t] =
    (let v = fips_rounds m h t in (v ! 0, v ! 1, v ! 2, v ! 3, v ! 4, v ! 5, v ! 6, v ! 7))"
  using assms(2)
proof (induction t)
  case (Suc t)
  then show ?case using assms(1)
    by (simp add: Let_def fips_S_def fips_Ch_def fips_Maj_def nth_Cons' ac_simps)
qed simp

lemma list8:
  assumes "length xs = 8"
  shows "xs = [xs ! 0, xs ! 1, xs ! 2, xs ! 3, xs ! 4, xs ! 5, xs ! 6, xs ! 7]"
  using assms by (intro nth_equalityI) (auto simp: less_Suc_eq numeral_eq_Suc)

lemma sha256_block_fips:
  assumes "length h = 8" "length m = 64"
  shows "sha256_block h m = fips_compress h m"
proof -
  define v where "v = fips_rounds m h 64"
  have v: "length v = 8" using assms(1) by (simp add: v_def length_fips_rounds)
  have "sha256_block h m = [h ! 0 + v ! 0, h ! 1 + v ! 1, h ! 2 + v ! 2, h ! 3 + v ! 3,
     h ! 4 + v ! 4, h ! 5 + v ! 5, h ! 6 + v ! 6, h ! 7 + v ! 7]"
    using sha256_rounds_fips [of "sha256_schedule m" m 64 h] sha256_schedule_W [OF assms(2)]
    by (simp add: sha256_block_def Let_def v_def)
  also have "\<dots> = map2 (+) [h ! 0, h ! 1, h ! 2, h ! 3, h ! 4, h ! 5, h ! 6, h ! 7]
     [v ! 0, v ! 1, v ! 2, v ! 3, v ! 4, v ! 5, v ! 6, v ! 7]" by simp
  also have "\<dots> = map2 (+) h v" using list8 [OF assms(1)] list8 [OF v] by simp
  finally show ?thesis by (simp add: fips_compress_def v_def)
qed

lemma length_sha256_block [simp]: "length (sha256_block h m) = 8"
  by (simp add: sha256_block_def Let_def split: prod.splits)

lemma sha256_digest_fips:
  "md_digest sha256_block sha256_iv msg = md_digest fips_compress sha256_iv msg \<and>
   length (md_digest sha256_block sha256_iv msg) = 8"
  unfolding md_digest_def
  by (rule md_fold_cong [where ok = "\<lambda>h. length h = 8"])
    (simp_all add: sha256_block_fips [symmetric] sha256_iv_def)

interpretation sha256: stream_hash sha256_new sha256_update sha256_finalize sha256 32
proof
  have st: "sha256_finalize (foldl sha256_update sha256_new ds)
      = concat (map be_of_u32 (md_digest sha256_block sha256_iv (concat ds)))" for ds
    by (simp add: sha256_finalize_def sha256_update_def sha256_new_def md_streaming)
  have one: "sha256 m = concat (map be_of_u32 (md_digest sha256_block sha256_iv m))" for m
    using st [of "[m]"] by (simp add: sha256_def)
  show "sha256_finalize (foldl sha256_update sha256_new ds) = sha256 (concat ds)" for ds
    by (simp only: st one)
  show "length (sha256 m) = 32" for m using conjunct2 [OF sha256_digest_fips [of m]] by (simp add: one)
qed simp

lemma length_sha256 [simp]: "length (sha256 m) = 32"
  by (rule sha256.digest_length)

text \<open>
  C34: SHA-256 of the kernel is FIPS 180-4: feeding a message in any pieces through \<open>update\<close> and
  calling \<open>finalize\<close> yields the specified digest of the whole message, padded and cut in blocks,
  the same as the one-shot \<open>sha256\<close>.
\<close>

theorem sha256_streaming_fips:
  "sha256_finalize (foldl sha256_update sha256_new ds) = fips_sha256 (concat ds) \<and>
   sha256 (concat ds) = fips_sha256 (concat ds)"
proof -
  have "sha256_finalize (foldl sha256_update sha256_new ds) = fips_sha256 (concat ds)"
    using sha256_digest_fips [of "concat ds"]
    by (simp add: sha256_finalize_def sha256_update_def sha256_new_def md_streaming fips_sha256_def)
  then show ?thesis using sha256.streaming [of ds] by simp
qed

section \<open>HMAC and HKDF\<close>

definition hmac_sha256 :: "bytes \<Rightarrow> bytes \<Rightarrow> bytes" where
  "hmac_sha256 key msg =
     (let k = hmac_key_block sha256 key;
          ih = sha256_finalize (sha256_update (sha256_update sha256_new (xor_pad 0x36 k)) msg)
      in sha256_finalize (sha256_update (sha256_update sha256_new (xor_pad 0x5c k)) ih))"

definition hkdf_extract :: "bytes \<Rightarrow> bytes \<Rightarrow> bytes" where
  "hkdf_extract salt ikm = hmac_sha256 salt ikm"

text \<open>
  The loop of \<open>hkdf_expand\<close>: \<open>t\<close> is the previous block (empty before the first), \<open>n\<close> what is left
  of \<open>out\<close>; at most 600 bytes of \<open>info\<close> are used and the counter wraps.
\<close>

fun hkdf_loop :: "bytes \<Rightarrow> bytes \<Rightarrow> bytes \<Rightarrow> byte \<Rightarrow> nat \<Rightarrow> bytes" where
  "hkdf_loop prk info t counter n =
     (if n = 0 then []
      else let t1 = hmac_sha256 prk (t @ take 600 info @ [counter])
           in take (min n 32) t1 @ hkdf_loop prk info t1 (counter + 1) (n - min n 32))"

declare hkdf_loop.simps [simp del]

definition hkdf_expand :: "bytes \<Rightarrow> bytes \<Rightarrow> nat \<Rightarrow> bytes" where
  "hkdf_expand prk info n = hkdf_loop prk info [] 1 n"

text \<open>
  \<open>hkdf_expand_label\<close>: the label structure is built in a 600-byte buffer; None when the slices
  of it would be out of range (the code panics).
\<close>

definition hkdf_expand_label :: "bytes \<Rightarrow> bytes \<Rightarrow> bytes \<Rightarrow> nat \<Rightarrow> bytes option" where
  "hkdf_expand_label secret label ctx n =
     (let outlen = of_nat n :: 16 word;
          info = [of_nat (unat (drop_bit 8 outlen)), of_nat (unat outlen), of_nat (6 + length label)]
            @ [0x74, 0x6c, 0x73, 0x31, 0x33, 0x20] @ label @ [of_nat (length ctx)] @ ctx
      in if length info \<le> 600 then Some (hkdf_expand secret info n) else None)"

definition derive_secret :: "bytes \<Rightarrow> bytes \<Rightarrow> bytes \<Rightarrow> bytes option" where
  "derive_secret secret label transcript_hash = hkdf_expand_label secret label transcript_hash 32"

subsection \<open>RFC 5869\<close>

primrec rfc5869_T :: "bytes \<Rightarrow> bytes \<Rightarrow> nat \<Rightarrow> bytes" where
  "rfc5869_T prk info 0 = []"
| "rfc5869_T prk info (Suc n) =
     rfc2104_hmac sha256 prk (rfc5869_T prk info n @ info @ [of_nat (Suc n)])"

lemma hmac_sha256_rfc: "hmac_sha256 key msg = rfc2104_hmac sha256 key msg"
  using sha256.hmac [of key "[msg]"] by (simp add: hmac_sha256_def Let_def)

lemma length_hmac_sha256 [simp]: "length (hmac_sha256 key msg) = 32"
  by (simp add: hmac_sha256_rfc rfc2104_hmac_def Let_def)

lemma length_hkdf_loop [simp]: "length (hkdf_loop prk info t c n) = n"
proof (induction prk info t c n rule: hkdf_loop.induct)
  case (1 prk info t c n)
  then show ?case by (subst hkdf_loop.simps) (simp add: Let_def)
qed

lemma hkdf_loop_T:
  assumes "length info \<le> 600"
  shows "hkdf_loop prk info (rfc5869_T prk info k) (of_nat (Suc k)) n =
    take n (concat (map (rfc5869_T prk info) [Suc k..<Suc k + (n + 31) div 32]))"
proof (induction n arbitrary: k rule: less_induct)
  case (less n)
  show ?case
  proof (cases "n = 0")
    case True
    then show ?thesis by (simp add: hkdf_loop.simps)
  next
    case False
    define t1 where "t1 = rfc5869_T prk info (Suc k)"
    have t1: "hmac_sha256 prk (rfc5869_T prk info k @ take 600 info @ [of_nat (Suc k)]) = t1"
      using assms by (simp add: hmac_sha256_rfc t1_def)
    have len: "length t1 = 32" by (simp add: t1 [symmetric])
    have "hkdf_loop prk info (rfc5869_T prk info k) (of_nat (Suc k)) n =
        take (min n 32) t1 @ hkdf_loop prk info t1 (of_nat (Suc (Suc k))) (n - min n 32)"
      using False t1 by (subst hkdf_loop.simps) (simp add: Let_def add.commute)
    also have "hkdf_loop prk info t1 (of_nat (Suc (Suc k))) (n - min n 32) =
        take (n - min n 32) (concat (map (rfc5869_T prk info)
          [Suc (Suc k)..<Suc (Suc k) + ((n - min n 32) + 31) div 32]))"
      unfolding t1_def using False by (intro less.IH) simp
    also have "Suc (Suc k) + ((n - min n 32) + 31) div 32 = Suc k + (n + 31) div 32"
      using False by (cases "n \<le> 32") auto
    also have "take (min n 32) t1 @ take (n - min n 32) (concat (map (rfc5869_T prk info)
          [Suc (Suc k)..<Suc k + (n + 31) div 32])) =
        take n (t1 @ concat (map (rfc5869_T prk info) [Suc (Suc k)..<Suc k + (n + 31) div 32]))"
      using len by (auto simp: min_def)
    also have "t1 @ concat (map (rfc5869_T prk info) [Suc (Suc k)..<Suc k + (n + 31) div 32]) =
        concat (map (rfc5869_T prk info) [Suc k..<Suc k + (n + 31) div 32])"
      using False by (subst (2) upt_rec) (simp add: t1_def div_eq_0_iff)
    finally show ?thesis .
  qed
qed

text \<open>
  HKDF-Expand yields exactly the requested number of bytes, namely the prefix of
  \<open>T(1) | T(2) | ...\<close> of RFC 5869 over the HMAC of RFC 2104, for every \<open>info\<close> the scratch buffer
  holds.
\<close>

theorem hkdf_expand_rfc5869:
  assumes "length info \<le> 600"
  shows "hkdf_expand prk info n = take n (concat (map (rfc5869_T prk info) [1..<1 + (n + 31) div 32]))
    \<and> length (hkdf_expand prk info n) = n"
  using hkdf_loop_T [OF assms, of prk 0 n] length_hkdf_loop [of prk info "[]" 1 n]
  by (simp add: hkdf_expand_def del: upt_Suc length_hkdf_loop)

lemma hkdf_expand_rfc5869_witness: "length (hkdf_expand [1, 2] [3] 42) = 42"
  by (rule conjunct2 [OF hkdf_expand_rfc5869]) simp

end
