(* ===== verification/Wpa2.thy ===== *)
theory Wpa2
  imports Sha256
begin

text \<open>
  The WPA2 key derivation of kernel/src/wpa2.rs: SHA-1 with its streaming state, the streaming
  HMAC-SHA1, PBKDF2, the 802.11i PRF and the pairwise transient key. The specifications are
  RFC 2104, RFC 2898 and the PRF of IEEE 802.11i, each as a closed formula over the one-shot hash.
\<close>

section \<open>SHA-1\<close>

definition sha1_iv :: "u32 list" where
  "sha1_iv = [0x67452301, 0xEFCDAB89, 0x98BADCFE, 0x10325476, 0xC3D2E1F0]"

definition sha1_sched_step :: "u32 list \<Rightarrow> nat \<Rightarrow> u32 list" where
  "sha1_sched_step w i =
     w[i := rotl 1 (w ! (i - 3) XOR w ! (i - 8) XOR w ! (i - 14) XOR w ! (i - 16))]"

definition sha1_schedule :: "bytes \<Rightarrow> u32 list" where
  "sha1_schedule blk =
     foldl sha1_sched_step
       (map (\<lambda>i. u32_of_be [blk ! (4 * i), blk ! (4 * i + 1), blk ! (4 * i + 2), blk ! (4 * i + 3)])
          [0..<16] @ replicate 64 0)
       [16..<80]"

fun sha1_round :: "u32 list \<Rightarrow> u32 \<times> u32 \<times> u32 \<times> u32 \<times> u32 \<Rightarrow> nat \<Rightarrow> u32 \<times> u32 \<times> u32 \<times> u32 \<times> u32" where
  "sha1_round w (a, b, c, d, e) i =
     (let (f, k) =
            (if i < 20 then ((b AND c) OR (NOT b AND d), 0x5A827999)
             else if i < 40 then (b XOR c XOR d, 0x6ED9EBA1)
             else if i < 60 then ((b AND c) OR (b AND d) OR (c AND d), 0x8F1BBCDC)
             else (b XOR c XOR d, 0xCA62C1D6));
          t = rotl 5 a + f + e + k + w ! i
      in (t, a, rotl 30 b, c, d))"

definition sha1_block :: "u32 list \<Rightarrow> bytes \<Rightarrow> u32 list" where
  "sha1_block h blk =
     (let w = sha1_schedule blk;
          (a, b, c, d, e) = foldl (sha1_round w) (h ! 0, h ! 1, h ! 2, h ! 3, h ! 4) [0..<80]
      in [h ! 0 + a, h ! 1 + b, h ! 2 + c, h ! 3 + d, h ! 4 + e])"

definition sha1_new :: "u32 list md" where
  "sha1_new = md_new sha1_iv"

definition sha1_update :: "u32 list md \<Rightarrow> bytes \<Rightarrow> u32 list md" where
  "sha1_update = md_update sha1_block"

definition sha1_finalize :: "u32 list md \<Rightarrow> bytes" where
  "sha1_finalize s = concat (map be_of_u32 (md_finish sha1_block s))"

definition sha1 :: "bytes \<Rightarrow> bytes" where
  "sha1 data = sha1_finalize (sha1_update sha1_new data)"

section \<open>HMAC-SHA1\<close>

record hmac_sha1_state =
  hm_inner :: "u32 list md"
  hm_opad :: bytes

definition hmac_new :: "bytes \<Rightarrow> hmac_sha1_state" where
  "hmac_new key =
     (let k = hmac_key_block sha1 key
      in \<lparr>hm_inner = sha1_update sha1_new (xor_pad 0x36 k), hm_opad = xor_pad 0x5c k\<rparr>)"

definition hmac_update :: "hmac_sha1_state \<Rightarrow> bytes \<Rightarrow> hmac_sha1_state" where
  "hmac_update h data = h\<lparr>hm_inner := sha1_update (hm_inner h) data\<rparr>"

definition hmac_finalize :: "hmac_sha1_state \<Rightarrow> bytes" where
  "hmac_finalize h =
     (let ih = sha1_finalize (hm_inner h)
      in sha1_finalize (sha1_update (sha1_update sha1_new (hm_opad h)) ih))"

definition hmac_sha1 :: "bytes \<Rightarrow> bytes \<Rightarrow> bytes" where
  "hmac_sha1 key msg = hmac_finalize (hmac_update (hmac_new key) msg)"

section \<open>PBKDF2\<close>

text \<open>One turn of \<open>for _ in 1..iterations\<close>.\<close>

fun pbkdf2_step :: "bytes \<Rightarrow> bytes \<times> bytes \<Rightarrow> bytes \<times> bytes" where
  "pbkdf2_step password (u, t) = (let u1 = hmac_sha1 password u in (u1, xor_bytes t u1))"

definition pbkdf2_block :: "bytes \<Rightarrow> bytes \<Rightarrow> nat \<Rightarrow> u32 \<Rightarrow> bytes" where
  "pbkdf2_block password salt iterations block_index =
     (let u = hmac_finalize (hmac_update (hmac_update (hmac_new password) salt) (be_of_u32 block_index))
      in snd ((pbkdf2_step password ^^ (iterations - 1)) (u, u)))"

fun pbkdf2_loop :: "bytes \<Rightarrow> bytes \<Rightarrow> nat \<Rightarrow> u32 \<Rightarrow> nat \<Rightarrow> bytes" where
  "pbkdf2_loop password salt iterations block_index n =
     (if n = 0 then []
      else take (min n 20) (pbkdf2_block password salt iterations block_index) @
           pbkdf2_loop password salt iterations (block_index + 1) (n - min n 20))"

declare pbkdf2_loop.simps [simp del]

definition pbkdf2_sha1 :: "bytes \<Rightarrow> bytes \<Rightarrow> nat \<Rightarrow> nat \<Rightarrow> bytes" where
  "pbkdf2_sha1 password salt iterations n = pbkdf2_loop password salt iterations 1 n"

definition wpa_passphrase_to_psk :: "bytes \<Rightarrow> bytes \<Rightarrow> bytes" where
  "wpa_passphrase_to_psk passphrase ssid = pbkdf2_sha1 passphrase ssid 4096 32"

section \<open>The 802.11i PRF and the pairwise transient key\<close>

fun prf_loop :: "bytes \<Rightarrow> bytes \<Rightarrow> bytes \<Rightarrow> byte \<Rightarrow> nat \<Rightarrow> bytes" where
  "prf_loop key label data counter n =
     (if n = 0 then []
      else let h = hmac_new key;
               h = hmac_update h label;
               h = hmac_update h [0];
               h = hmac_update h data;
               h = hmac_update h [counter]
           in take (min n 20) (hmac_finalize h) @ prf_loop key label data (counter + 1) (n - min n 20))"

declare prf_loop.simps [simp del]

definition prf_sha1 :: "bytes \<Rightarrow> bytes \<Rightarrow> bytes \<Rightarrow> nat \<Rightarrow> bytes" where
  "prf_sha1 key label data n = prf_loop key label data 0 n"

text \<open>Rust's \<open>a <= b\<close> on byte slices, and the canonical order of two strings.\<close>

fun bytes_le :: "bytes \<Rightarrow> bytes \<Rightarrow> bool" where
  "bytes_le [] b = True"
| "bytes_le (x # xs) [] = False"
| "bytes_le (x # xs) (y # ys) = (x < y \<or> (x = y \<and> bytes_le xs ys))"

definition min_max :: "bytes \<Rightarrow> bytes \<Rightarrow> bytes" where
  "min_max a b = (let (lo, hi) = (if bytes_le a b then (a, b) else (b, a)) in lo @ hi)"

text \<open>``Pairwise key expansion''.\<close>

definition ptk_label :: bytes where
  "ptk_label = [0x50, 0x61, 0x69, 0x72, 0x77, 0x69, 0x73, 0x65, 0x20, 0x6b, 0x65, 0x79, 0x20,
     0x65, 0x78, 0x70, 0x61, 0x6e, 0x73, 0x69, 0x6f, 0x6e]"

definition ptk :: "bytes \<Rightarrow> bytes \<Rightarrow> bytes \<Rightarrow> bytes \<Rightarrow> bytes \<Rightarrow> nat \<Rightarrow> bytes" where
  "ptk pmk aa spa anonce snonce n = prf_sha1 pmk ptk_label (min_max aa spa @ min_max anonce snonce) n"

section \<open>Correctness\<close>

lemma length_sha1_digest: "length (md_digest sha1_block sha1_iv m) = 5"
  unfolding md_digest_def
  using md_fold_cong [of "\<lambda>h. length h = 5" sha1_block sha1_block sha1_iv "md_pad m"]
  by (simp add: sha1_block_def sha1_iv_def Let_def split: prod.splits)

interpretation sha1: stream_hash sha1_new sha1_update sha1_finalize sha1 20
proof
  have st: "sha1_finalize (foldl sha1_update sha1_new ds)
      = concat (map be_of_u32 (md_digest sha1_block sha1_iv (concat ds)))" for ds
    by (simp add: sha1_finalize_def sha1_update_def sha1_new_def md_streaming)
  have one: "sha1 m = concat (map be_of_u32 (md_digest sha1_block sha1_iv m))" for m
    using st [of "[m]"] by (simp add: sha1_def)
  show "sha1_finalize (foldl sha1_update sha1_new ds) = sha1 (concat ds)" for ds
    by (simp only: st one)
  show "length (sha1 m) = 20" for m by (simp add: one length_sha1_digest)
qed simp

lemma length_sha1 [simp]: "length (sha1 m) = 20"
  by (rule sha1.digest_length)

lemma hm_inner_updates:
  "hm_inner (foldl hmac_update h ds) = foldl sha1_update (hm_inner h) ds \<and>
   hm_opad (foldl hmac_update h ds) = hm_opad h"
  by (induction ds arbitrary: h) (auto simp: hmac_update_def)

lemma hmac_parts:
  "hmac_finalize (foldl hmac_update (hmac_new key) ds) = rfc2104_hmac sha1 key (concat ds)"
  using hm_inner_updates [of "hmac_new key" ds] sha1.hmac [of key ds]
  by (simp add: hmac_finalize_def hmac_new_def Let_def)

text \<open>
  The streaming HMAC of the WPA2 code, fed a message in any pieces, is the HMAC of RFC 2104
  over the one-shot SHA-1 of the whole message.
\<close>

theorem hmac_sha1_streaming:
  "hmac_finalize (foldl hmac_update (hmac_new key) ds) = rfc2104_hmac sha1 key (concat ds)"
  by (rule hmac_parts)


lemma hmac_sha1_rfc: "hmac_sha1 key msg = rfc2104_hmac sha1 key msg"
  using hmac_parts [of key "[msg]"] by (simp add: hmac_sha1_def)

lemma length_rfc2104_sha1 [simp]: "length (rfc2104_hmac sha1 key msg) = 20"
  by (simp add: rfc2104_hmac_def Let_def)

subsection \<open>Blocks cut to length\<close>

text \<open>
  PBKDF2 and the PRF share a loop shape: blocks of \<open>w\<close> bytes, numbered from a start, appended
  until \<open>n\<close> bytes are written.
\<close>

definition blocks_from :: "(nat \<Rightarrow> bytes) \<Rightarrow> nat \<Rightarrow> nat \<Rightarrow> nat \<Rightarrow> bytes" where
  "blocks_from f w k n = take n (concat (map f [k..<k + (n + (w - 1)) div w]))"

lemma blocks_from_0 [simp]: "blocks_from f w k 0 = []"
  by (simp add: blocks_from_def)

lemma blocks_from_step:
  assumes "0 < n" "0 < w" "length (f k) = w"
  shows "blocks_from f w k n = take (min n w) (f k) @ blocks_from f w (Suc k) (n - min n w)"
proof -
  have "(n + (w - 1)) div w = Suc ((n - min n w + (w - 1)) div w)"
  proof (cases "n \<le> w")
    case True
    then have "(n + (w - 1)) div w = Suc 0"
      using assms(1) by (intro div_nat_eqI) auto
    with True assms(2) show ?thesis by simp
  next
    case False
    then have "n + (w - 1) = (n - w + (w - 1)) + w" by simp
    then have "(n + (w - 1)) div w = ((n - w + (w - 1)) + w) div w" by (simp only:)
    also have "\<dots> = Suc ((n - w + (w - 1)) div w)" using assms(2) by (simp only: div_add_self2)
    finally show ?thesis using False by (simp only: min_absorb2 nle_le not_le less_imp_le)
  qed
  then have "[k..<k + (n + (w - 1)) div w] = k # [Suc k..<Suc k + (n - min n w + (w - 1)) div w]"
    by (simp add: upt_conv_Cons del: upt_Suc)
  then show ?thesis using assms(3) by (auto simp: blocks_from_def min_def)
qed

lemma length_blocks_from:
  assumes "0 < w" "\<And>i. length (f i) = w"
  shows "length (blocks_from f w k n) = n"
proof -
  have "length (concat (map f [k..<k + m])) = m * w" for m
    using length_concat_uniform [of "map f [k..<k + m]" w] assms(2) by simp
  moreover have "n \<le> (n + (w - 1)) div w * w"
    using div_times_less_eq_dividend mod_less_divisor [OF assms(1), of "n + (w - 1)"]
      div_mult_mod_eq [of "n + (w - 1)" w] by linarith
  ultimately show ?thesis by (simp add: blocks_from_def)
qed

subsection \<open>PBKDF2 is RFC 2898\<close>

primrec rfc2898_U :: "bytes \<Rightarrow> bytes \<Rightarrow> nat \<Rightarrow> nat \<Rightarrow> bytes" where
  "rfc2898_U P S i 0 = rfc2104_hmac sha1 P (S @ be_of_nat 4 i)"
| "rfc2898_U P S i (Suc j) = rfc2104_hmac sha1 P (rfc2898_U P S i j)"

definition rfc2898_T :: "bytes \<Rightarrow> bytes \<Rightarrow> nat \<Rightarrow> nat \<Rightarrow> bytes" where
  "rfc2898_T P S c i = foldl xor_bytes (rfc2898_U P S i 0) (map (rfc2898_U P S i) [1..<c])"

lemma pbkdf2_steps:
  "(pbkdf2_step P ^^ n) (rfc2898_U P S i 0, rfc2898_U P S i 0)
   = (rfc2898_U P S i n, foldl xor_bytes (rfc2898_U P S i 0) (map (rfc2898_U P S i) [1..<Suc n]))"
  by (induction n) (simp_all add: hmac_sha1_rfc Let_def)

lemma be_of_u32_nat: "be_of_u32 (of_nat i) = be_of_nat 4 i"
proof -
  have "le_of_nat 4 (i mod 256 ^ 4) = le_of_nat 4 i" by (rule le_of_nat_mod)
  then show ?thesis by (simp add: be_of_u32_def be_of_nat_def unat_of_nat)
qed

lemma pbkdf2_block_T:
  assumes "0 < c"
  shows "pbkdf2_block P S c (of_nat i) = rfc2898_T P S c i"
proof -
  have "hmac_finalize (hmac_update (hmac_update (hmac_new P) S) (be_of_u32 (of_nat i))) = rfc2898_U P S i 0"
    using hmac_parts [of P "[S, be_of_u32 (of_nat i)]"] by (simp add: be_of_u32_nat)
  then show ?thesis using pbkdf2_steps [where P = P and S = S and i = i and n = "c - 1"] assms
    by (simp add: pbkdf2_block_def rfc2898_T_def)
qed

lemma length_rfc2898_U [simp]: "length (rfc2898_U P S i j) = 20"
  by (cases j) simp_all

lemma length_rfc2898_T: "length (rfc2898_T P S c i) = 20"
proof -
  have "length (foldl xor_bytes x (map (rfc2898_U P S i) js)) = 20" if "length x = 20" for x js
    using that by (induction js arbitrary: x) simp_all
  then show ?thesis by (simp add: rfc2898_T_def)
qed

lemma pbkdf2_loop_blocks:
  assumes "0 < c"
  shows "pbkdf2_loop P S c (of_nat k) n = blocks_from (rfc2898_T P S c) 20 k n"
proof (induction n arbitrary: k rule: less_induct)
  case (less n)
  show ?case
  proof (cases "n = 0")
    case False
    have "pbkdf2_loop P S c (of_nat k) n =
        take (min n 20) (rfc2898_T P S c k) @ pbkdf2_loop P S c (of_nat (Suc k)) (n - min n 20)"
      using False pbkdf2_block_T [OF assms] by (subst pbkdf2_loop.simps) (simp add: add.commute)
    also have "\<dots> = blocks_from (rfc2898_T P S c) 20 k n"
      using less [of "n - min n 20" "Suc k"] False
        blocks_from_step [where f = "rfc2898_T P S c" and w = 20 and k = k and n = n]
      by (simp add: length_rfc2898_T)
    finally show ?thesis .
  qed (simp add: pbkdf2_loop.simps)
qed

text \<open>
  The key stretching of WPA2 is PBKDF2 of RFC 2898 with HMAC-SHA1: \<open>n\<close> bytes, the prefix of
  the blocks \<open>T(1) | T(2) | ...\<close>, each the exclusive-or of \<open>c\<close> iterated HMACs.
\<close>

theorem pbkdf2_rfc2898:
  assumes "0 < c"
  shows "pbkdf2_sha1 P S c n = take n (concat (map (rfc2898_T P S c) [1..<1 + (n + 19) div 20]))
    \<and> length (pbkdf2_sha1 P S c n) = n"
  using pbkdf2_loop_blocks [OF assms, of P S 1 n]
    length_blocks_from [of 20 "rfc2898_T P S c" 1 n, OF _ length_rfc2898_T]
  by (simp add: pbkdf2_sha1_def blocks_from_def del: upt_Suc)

lemma pbkdf2_rfc2898_witness: "length (pbkdf2_sha1 [1] [2] 3 32) = 32"
  by (rule conjunct2 [OF pbkdf2_rfc2898]) simp

subsection \<open>The PRF and the transient key\<close>

definition ieee_prf_block :: "bytes \<Rightarrow> bytes \<Rightarrow> bytes \<Rightarrow> nat \<Rightarrow> bytes" where
  "ieee_prf_block key label data i = rfc2104_hmac sha1 key (label @ [0] @ data @ [of_nat i])"

lemma length_ieee_prf_block: "length (ieee_prf_block key label data i) = 20"
  by (simp add: ieee_prf_block_def)

lemma prf_loop_blocks:
  "prf_loop key label data (of_nat k) n = blocks_from (ieee_prf_block key label data) 20 k n"
proof (induction n arbitrary: k rule: less_induct)
  case (less n)
  show ?case
  proof (cases "n = 0")
    case False
    have "prf_loop key label data (of_nat k) n = take (min n 20) (ieee_prf_block key label data k) @
        prf_loop key label data (of_nat (Suc k)) (n - min n 20)"
      using False hmac_parts [of key "[label, [0], data, [of_nat k]]"]
      by (subst prf_loop.simps) (simp add: Let_def ieee_prf_block_def add.commute)
    also have "\<dots> = blocks_from (ieee_prf_block key label data) 20 k n"
      using less [of "n - min n 20" "Suc k"] False
        blocks_from_step [where f = "ieee_prf_block key label data" and w = 20 and k = k and n = n]
      by (simp add: length_ieee_prf_block)
    finally show ?thesis .
  qed (simp add: prf_loop.simps)
qed

lemma length_prf [simp]: "length (prf_sha1 key label data n) = n"
  using prf_loop_blocks [of key label data 0 n] length_blocks_from [of 20 "ieee_prf_block key label data" 0 n]
  by (simp add: prf_sha1_def ieee_prf_block_def)

lemma length_ptk [simp]: "length (ptk pmk aa spa anonce snonce n) = n"
  by (simp add: ptk_def)

lemma bytes_le_total: "bytes_le a b \<or> bytes_le b a"
  by (induction a b rule: bytes_le.induct) auto

lemma bytes_le_antisym: "bytes_le a b \<Longrightarrow> bytes_le b a \<Longrightarrow> a = b"
proof (induction a b rule: bytes_le.induct)
  case (1 b)
  then show ?case by (cases b) auto
qed auto

lemma min_max_sym: "min_max a b = min_max b a"
  using bytes_le_total [of a b] bytes_le_antisym [of a b] by (auto simp: min_max_def)

text \<open>
  Both ends of the four-way handshake derive the same transient key, whichever of the two
  addresses and of the two nonces each calls its own; the key is the 802.11i PRF of the sorted
  addresses and nonces and has the length asked for.
\<close>

theorem ptk_symmetric:
  "ptk pmk aa spa anonce snonce n = ptk pmk spa aa snonce anonce n \<and>
   length (ptk pmk aa spa anonce snonce n) = n \<and>
   ptk pmk aa spa anonce snonce n = take n (concat (map (ieee_prf_block pmk ptk_label
     (min_max spa aa @ min_max snonce anonce)) [0..<(n + 19) div 20]))"
  using prf_loop_blocks [of pmk ptk_label "min_max aa spa @ min_max anonce snonce" 0 n]
  by (simp add: min_max_sym [of aa] min_max_sym [of anonce])
    (simp add: ptk_def prf_sha1_def blocks_from_def min_max_sym)

end
