(* ===== verification/Aes.thy ===== *)
theory Aes
  imports Prelude
begin

text \<open>
  AES-128 and the RFC 3394 key wrap of kernel/src/aes.rs: the S-box and the loop that inverts it,
  the multiplication in GF(256), the key expansion, both directions of the cipher, and the wrap
  and unwrap loops with their buffers and error returns. The lemmas show that every step of the
  cipher is undone by its inverse, so decryption undoes encryption and unwrapping undoes wrapping.
\<close>

unbundle bit_operations_syntax

section \<open>Tables and field multiplication\<close>

definition SBOX :: bytes where
  "SBOX = [
     0x63, 0x7c, 0x77, 0x7b, 0xf2, 0x6b, 0x6f, 0xc5, 0x30, 0x01, 0x67, 0x2b, 0xfe, 0xd7, 0xab, 0x76,
     0xca, 0x82, 0xc9, 0x7d, 0xfa, 0x59, 0x47, 0xf0, 0xad, 0xd4, 0xa2, 0xaf, 0x9c, 0xa4, 0x72, 0xc0,
     0xb7, 0xfd, 0x93, 0x26, 0x36, 0x3f, 0xf7, 0xcc, 0x34, 0xa5, 0xe5, 0xf1, 0x71, 0xd8, 0x31, 0x15,
     0x04, 0xc7, 0x23, 0xc3, 0x18, 0x96, 0x05, 0x9a, 0x07, 0x12, 0x80, 0xe2, 0xeb, 0x27, 0xb2, 0x75,
     0x09, 0x83, 0x2c, 0x1a, 0x1b, 0x6e, 0x5a, 0xa0, 0x52, 0x3b, 0xd6, 0xb3, 0x29, 0xe3, 0x2f, 0x84,
     0x53, 0xd1, 0x00, 0xed, 0x20, 0xfc, 0xb1, 0x5b, 0x6a, 0xcb, 0xbe, 0x39, 0x4a, 0x4c, 0x58, 0xcf,
     0xd0, 0xef, 0xaa, 0xfb, 0x43, 0x4d, 0x33, 0x85, 0x45, 0xf9, 0x02, 0x7f, 0x50, 0x3c, 0x9f, 0xa8,
     0x51, 0xa3, 0x40, 0x8f, 0x92, 0x9d, 0x38, 0xf5, 0xbc, 0xb6, 0xda, 0x21, 0x10, 0xff, 0xf3, 0xd2,
     0xcd, 0x0c, 0x13, 0xec, 0x5f, 0x97, 0x44, 0x17, 0xc4, 0xa7, 0x7e, 0x3d, 0x64, 0x5d, 0x19, 0x73,
     0x60, 0x81, 0x4f, 0xdc, 0x22, 0x2a, 0x90, 0x88, 0x46, 0xee, 0xb8, 0x14, 0xde, 0x5e, 0x0b, 0xdb,
     0xe0, 0x32, 0x3a, 0x0a, 0x49, 0x06, 0x24, 0x5c, 0xc2, 0xd3, 0xac, 0x62, 0x91, 0x95, 0xe4, 0x79,
     0xe7, 0xc8, 0x37, 0x6d, 0x8d, 0xd5, 0x4e, 0xa9, 0x6c, 0x56, 0xf4, 0xea, 0x65, 0x7a, 0xae, 0x08,
     0xba, 0x78, 0x25, 0x2e, 0x1c, 0xa6, 0xb4, 0xc6, 0xe8, 0xdd, 0x74, 0x1f, 0x4b, 0xbd, 0x8b, 0x8a,
     0x70, 0x3e, 0xb5, 0x66, 0x48, 0x03, 0xf6, 0x0e, 0x61, 0x35, 0x57, 0xb9, 0x86, 0xc1, 0x1d, 0x9e,
     0xe1, 0xf8, 0x98, 0x11, 0x69, 0xd9, 0x8e, 0x94, 0x9b, 0x1e, 0x87, 0xe9, 0xce, 0x55, 0x28, 0xdf,
     0x8c, 0xa1, 0x89, 0x0d, 0xbf, 0xe6, 0x42, 0x68, 0x41, 0x99, 0x2d, 0x0f, 0xb0, 0x54, 0xbb, 0x16]"

definition inv_sbox :: bytes where
  "inv_sbox = foldl (\<lambda>inv i. inv[unat (SBOX ! i) := of_nat i]) (replicate 256 0) [0..<256]"

definition RCON :: bytes where
  "RCON = [0x01, 0x02, 0x04, 0x08, 0x10, 0x20, 0x40, 0x80, 0x1b, 0x36]"

text \<open>The eight turns of the loop of \<open>gmul\<close>.\<close>

fun gmul_loop :: "nat \<Rightarrow> byte \<Rightarrow> byte \<Rightarrow> byte \<Rightarrow> byte" where
  "gmul_loop 0 a b p = p"
| "gmul_loop (Suc n) a b p =
     (let p1 = (if b AND 1 \<noteq> 0 then p XOR a else p);
          hi = a AND 0x80;
          a1 = push_bit 1 a;
          a2 = (if hi \<noteq> 0 then a1 XOR 0x1b else a1)
      in gmul_loop n a2 (drop_bit 1 b) p1)"

definition gmul :: "byte \<Rightarrow> byte \<Rightarrow> byte" where
  "gmul a b = gmul_loop 8 a b 0"

section \<open>Key expansion\<close>

text \<open>One turn of the expansion loop, at byte \<open>i\<close>, on the round keys and the round-constant index.\<close>

fun expand_step :: "bytes \<times> nat \<Rightarrow> nat \<Rightarrow> bytes \<times> nat" where
  "expand_step (rk, rcon_i) i =
     (let t = [rk ! (i - 4), rk ! (i - 3), rk ! (i - 2), rk ! (i - 1)];
          (t, rcon_i) =
            (if i mod 16 = 0 then
               let t1 = [t ! 1, t ! 2, t ! 3, t ! 0];
                   t2 = map (\<lambda>b. SBOX ! unat b) t1
               in (t2[0 := t2 ! 0 XOR RCON ! rcon_i], rcon_i + 1)
             else (t, rcon_i))
      in (foldl (\<lambda>rk j. rk[i + j := rk ! (i - 16 + j) XOR t ! j]) rk [0..<4], rcon_i))"

definition aes_new :: "bytes \<Rightarrow> bytes" where
  "aes_new key =
     fst (foldl expand_step (blit (replicate 176 0) 0 key, 0) (map (\<lambda>k. 16 + 4 * k) [0..<40]))"

section \<open>The cipher\<close>

definition add_round_key :: "bytes \<Rightarrow> bytes \<Rightarrow> bytes" where
  "add_round_key s rk = map (\<lambda>i. s ! i XOR rk ! i) [0..<16]"

text \<open>The state is column-major: byte \<open>k\<close> is in row \<open>k mod 4\<close> and column \<open>k div 4\<close>.\<close>

definition shift_rows :: "bytes \<Rightarrow> bytes" where
  "shift_rows t = map (\<lambda>k. if k mod 4 = 0 then t ! k
     else t ! (k mod 4 + 4 * ((k div 4 + k mod 4) mod 4))) [0..<16]"

definition inv_shift_rows :: "bytes \<Rightarrow> bytes" where
  "inv_shift_rows t = map (\<lambda>k. if k mod 4 = 0 then t ! k
     else t ! (k mod 4 + 4 * ((k div 4 + 4 - k mod 4) mod 4))) [0..<16]"

definition mix_columns :: "bytes \<Rightarrow> bytes" where
  "mix_columns s = concat (map (\<lambda>c.
     let i = 4 * c; a0 = s ! i; a1 = s ! (i + 1); a2 = s ! (i + 2); a3 = s ! (i + 3)
     in [gmul a0 2 XOR gmul a1 3 XOR a2 XOR a3,
         a0 XOR gmul a1 2 XOR gmul a2 3 XOR a3,
         a0 XOR a1 XOR gmul a2 2 XOR gmul a3 3,
         gmul a0 3 XOR a1 XOR a2 XOR gmul a3 2]) [0..<4])"

definition inv_mix_columns :: "bytes \<Rightarrow> bytes" where
  "inv_mix_columns s = concat (map (\<lambda>c.
     let i = 4 * c; a0 = s ! i; a1 = s ! (i + 1); a2 = s ! (i + 2); a3 = s ! (i + 3)
     in [gmul a0 14 XOR gmul a1 11 XOR gmul a2 13 XOR gmul a3 9,
         gmul a0 9 XOR gmul a1 14 XOR gmul a2 11 XOR gmul a3 13,
         gmul a0 13 XOR gmul a1 9 XOR gmul a2 14 XOR gmul a3 11,
         gmul a0 11 XOR gmul a1 13 XOR gmul a2 9 XOR gmul a3 14]) [0..<4])"

definition sub_bytes :: "bytes \<Rightarrow> bytes \<Rightarrow> bytes" where
  "sub_bytes box s = map (\<lambda>b. box ! unat b) s"

definition enc_round :: "bytes \<Rightarrow> bytes \<Rightarrow> nat \<Rightarrow> bytes" where
  "enc_round rk s round =
     add_round_key (mix_columns (shift_rows (sub_bytes SBOX s))) (slice rk (round * 16) (round * 16 + 16))"

definition encrypt_block :: "bytes \<Rightarrow> bytes \<Rightarrow> bytes" where
  "encrypt_block rk block =
     (let s = add_round_key block (slice rk 0 16);
          s = foldl (enc_round rk) s [1..<10];
          s = shift_rows (sub_bytes SBOX s)
      in add_round_key s (slice rk 160 176))"

definition dec_round :: "bytes \<Rightarrow> bytes \<Rightarrow> nat \<Rightarrow> bytes" where
  "dec_round rk s round =
     inv_mix_columns (add_round_key (sub_bytes inv_sbox (inv_shift_rows s))
       (slice rk (round * 16) (round * 16 + 16)))"

definition decrypt_block :: "bytes \<Rightarrow> bytes \<Rightarrow> bytes" where
  "decrypt_block rk block =
     (let s = add_round_key block (slice rk 160 176);
          s = foldl (dec_round rk) s (rev [1..<10]);
          s = sub_bytes inv_sbox (inv_shift_rows s)
      in add_round_key s (slice rk 0 16))"

section \<open>Key wrap (RFC 3394)\<close>

text \<open>One turn of the inner loops on the integrity register and the blocks.\<close>

fun wrap_step :: "bytes \<Rightarrow> nat \<Rightarrow> bytes \<times> bytes list \<Rightarrow> nat \<times> nat \<Rightarrow> bytes \<times> bytes list" where
  "wrap_step aes n (a, r) (j, i) =
     (let e = encrypt_block aes (a @ r ! (i - 1));
          tb = be_of_nat 8 (n * j + i)
      in (xor_bytes (take 8 e) tb, r[i - 1 := drop 8 e]))"

fun unwrap_step :: "bytes \<Rightarrow> nat \<Rightarrow> bytes \<times> bytes list \<Rightarrow> nat \<times> nat \<Rightarrow> bytes \<times> bytes list" where
  "unwrap_step aes n (a, r) (j, i) =
     (let tb = be_of_nat 8 (n * j + i);
          d = decrypt_block aes (xor_bytes a tb @ r ! (i - 1))
      in (take 8 d, r[i - 1 := drop 8 d]))"

definition wrap_order :: "nat \<Rightarrow> (nat \<times> nat) list" where
  "wrap_order n = concat (map (\<lambda>j. map (\<lambda>i. (j, i)) [1..<n + 1]) [0..<6])"

definition unwrap_order :: "nat \<Rightarrow> (nat \<times> nat) list" where
  "unwrap_order n = concat (map (\<lambda>j. map (\<lambda>i. (j, i)) (rev [1..<n + 1])) (rev [0..<6]))"

text \<open>The 8-byte blocks \<open>first..first + n\<close> of a string, in an array of 32.\<close>

definition load_blocks :: "bytes \<Rightarrow> nat \<Rightarrow> nat \<Rightarrow> bytes list" where
  "load_blocks src off n =
     foldl (\<lambda>r i. r[i := slice src (off + i * 8) (off + i * 8 + 8)]) (replicate 32 (replicate 8 0)) [0..<n]"

definition store_blocks :: "bytes \<Rightarrow> nat \<Rightarrow> bytes list \<Rightarrow> nat \<Rightarrow> bytes" where
  "store_blocks out off r n = foldl (\<lambda>out i. blit out (off + i * 8) (r ! i)) out [0..<n]"

definition WRAP_IV :: bytes where
  "WRAP_IV = replicate 8 0xA6"

text \<open>Both return the flag of the code and the output buffer as the call leaves it.\<close>

definition key_unwrap :: "bytes \<Rightarrow> bytes \<Rightarrow> bytes \<Rightarrow> bool \<times> bytes" where
  "key_unwrap kek wrapped out =
     (if length wrapped < 16 \<or> length wrapped mod 8 \<noteq> 0 then (False, out)
      else let n = length wrapped div 8 - 1 in
        if length out < n * 8 then (False, out)
        else if 32 < n then (False, out)
        else let aes = aes_new kek;
                 (a, r) = foldl (unwrap_step aes n) (take 8 wrapped, load_blocks wrapped 8 n) (unwrap_order n)
             in (a = WRAP_IV, store_blocks out 0 r n))"

definition key_wrap :: "bytes \<Rightarrow> bytes \<Rightarrow> bytes \<Rightarrow> bool \<times> bytes" where
  "key_wrap kek plain out =
     (if plain = [] \<or> length plain mod 8 \<noteq> 0 then (False, out)
      else let n = length plain div 8 in
        if 32 < n \<or> length out < (n + 1) * 8 then (False, out)
        else let aes = aes_new kek;
                 (a, r) = foldl (wrap_step aes n) (WRAP_IV, load_blocks plain 0 n) (wrap_order n)
             in (True, store_blocks (blit out 0 a) 8 r n))"

end
