(* ===== verification/Aes_Props.thy ===== *)
theory Aes_Props
  imports Aes
begin

text \<open>
  Correctness of \<open>Aes\<close>: the S-box is a permutation and \<open>inv_sbox\<close> its inverse, the two column
  matrices are inverse over GF(256), every round is undone by its counterpart, and the unwrap loop
  runs the steps of the wrap loop backwards.
\<close>

section \<open>The S-box\<close>

definition INV_SBOX :: bytes where
  "INV_SBOX = [
     0x52, 0x09, 0x6a, 0xd5, 0x30, 0x36, 0xa5, 0x38, 0xbf, 0x40, 0xa3, 0x9e, 0x81, 0xf3, 0xd7, 0xfb,
     0x7c, 0xe3, 0x39, 0x82, 0x9b, 0x2f, 0xff, 0x87, 0x34, 0x8e, 0x43, 0x44, 0xc4, 0xde, 0xe9, 0xcb,
     0x54, 0x7b, 0x94, 0x32, 0xa6, 0xc2, 0x23, 0x3d, 0xee, 0x4c, 0x95, 0x0b, 0x42, 0xfa, 0xc3, 0x4e,
     0x08, 0x2e, 0xa1, 0x66, 0x28, 0xd9, 0x24, 0xb2, 0x76, 0x5b, 0xa2, 0x49, 0x6d, 0x8b, 0xd1, 0x25,
     0x72, 0xf8, 0xf6, 0x64, 0x86, 0x68, 0x98, 0x16, 0xd4, 0xa4, 0x5c, 0xcc, 0x5d, 0x65, 0xb6, 0x92,
     0x6c, 0x70, 0x48, 0x50, 0xfd, 0xed, 0xb9, 0xda, 0x5e, 0x15, 0x46, 0x57, 0xa7, 0x8d, 0x9d, 0x84,
     0x90, 0xd8, 0xab, 0x00, 0x8c, 0xbc, 0xd3, 0x0a, 0xf7, 0xe4, 0x58, 0x05, 0xb8, 0xb3, 0x45, 0x06,
     0xd0, 0x2c, 0x1e, 0x8f, 0xca, 0x3f, 0x0f, 0x02, 0xc1, 0xaf, 0xbd, 0x03, 0x01, 0x13, 0x8a, 0x6b,
     0x3a, 0x91, 0x11, 0x41, 0x4f, 0x67, 0xdc, 0xea, 0x97, 0xf2, 0xcf, 0xce, 0xf0, 0xb4, 0xe6, 0x73,
     0x96, 0xac, 0x74, 0x22, 0xe7, 0xad, 0x35, 0x85, 0xe2, 0xf9, 0x37, 0xe8, 0x1c, 0x75, 0xdf, 0x6e,
     0x47, 0xf1, 0x1a, 0x71, 0x1d, 0x29, 0xc5, 0x89, 0x6f, 0xb7, 0x62, 0x0e, 0xaa, 0x18, 0xbe, 0x1b,
     0xfc, 0x56, 0x3e, 0x4b, 0xc6, 0xd2, 0x79, 0x20, 0x9a, 0xdb, 0xc0, 0xfe, 0x78, 0xcd, 0x5a, 0xf4,
     0x1f, 0xdd, 0xa8, 0x33, 0x88, 0x07, 0xc7, 0x31, 0xb1, 0x12, 0x10, 0x59, 0x27, 0x80, 0xec, 0x5f,
     0x60, 0x51, 0x7f, 0xa9, 0x19, 0xb5, 0x4a, 0x0d, 0x2d, 0xe5, 0x7a, 0x9f, 0x93, 0xc9, 0x9c, 0xef,
     0xa0, 0xe0, 0x3b, 0x4d, 0xae, 0x2a, 0xf5, 0xb0, 0xc8, 0xeb, 0xbb, 0x3c, 0x83, 0x53, 0x99, 0x61,
     0x17, 0x2b, 0x04, 0x7e, 0xba, 0x77, 0xd6, 0x26, 0xe1, 0x69, 0x14, 0x63, 0x55, 0x21, 0x0c, 0x7d]"

lemma length_SBOX [simp]: "length SBOX = 256"
  by (simp add: SBOX_def)

lemma SBOX_left_inverse: "map (\<lambda>x. INV_SBOX ! unat x) SBOX = map of_nat [0..<256]"
  by code_simp

lemma SBOX_inj:
  assumes "i < 256" "j < 256" "SBOX ! i = SBOX ! j"
  shows "i = j"
proof -
  have "INV_SBOX ! unat (SBOX ! k) = of_nat k" if "k < 256" for k
    using arg_cong [OF SBOX_left_inverse, of "\<lambda>l. l ! k"] that by simp
  then have "(of_nat i :: byte) = of_nat j" using assms by metis
  then have "unat (of_nat i :: byte) = unat (of_nat j :: byte)" by simp
  then show ?thesis using assms(1,2) by (simp only: unat_of_nat_byte mod_less)
qed

lemma inv_sbox_fill:
  fixes ini :: bytes
  assumes "n \<le> 256" "length ini = 256"
  shows "length (foldl (\<lambda>inv i. inv[unat (SBOX ! i) := of_nat i]) ini [0..<n]) = 256 \<and>
    (\<forall>k < n. foldl (\<lambda>inv i. inv[unat (SBOX ! i) := of_nat i]) ini [0..<n] ! unat (SBOX ! k) = of_nat k)"
  using assms(1)
proof (induction n)
  case 0
  then show ?case using assms(2) by simp
next
  case (Suc n)
  define t where "t = foldl (\<lambda>inv i. inv[unat (SBOX ! i) := of_nat i]) ini [0..<n]"
  have ne: "unat (SBOX ! n) \<noteq> unat (SBOX ! k)" if "k < n" for k
    using SBOX_inj [of k n] that Suc.prems by (metis less_trans Suc_le_lessD nat_neq_iff word_unat_eq_iff)
  have t: "length t = 256" "\<forall>k < n. t ! unat (SBOX ! k) = of_nat k"
    using Suc by (simp_all add: t_def)
  have "foldl (\<lambda>inv i. inv[unat (SBOX ! i) := of_nat i]) ini [0..<Suc n] = t[unat (SBOX ! n) := of_nat n]"
    by (simp add: t_def)
  then show ?case using t ne by (simp add: less_Suc_eq)
qed

lemma inv_sbox_SBOX [simp]: "inv_sbox ! unat (SBOX ! unat b) = b"
proof -
  have "inv_sbox ! unat (SBOX ! unat b) = of_nat (unat b)"
    unfolding inv_sbox_def using conjunct2 [OF inv_sbox_fill [OF order_refl, of "replicate 256 0"]] by simp
  then show ?thesis by simp
qed

lemma sub_bytes_inverse [simp]: "sub_bytes inv_sbox (sub_bytes SBOX s) = s"
  by (simp add: sub_bytes_def comp_def)

lemma length_sub_bytes [simp]: "length (sub_bytes box s) = length s"
  by (simp add: sub_bytes_def)

section \<open>GF(256)\<close>

text \<open>Multiplication by \<open>x\<close>, and the constants of the two matrices as polynomials in it.\<close>

definition xtime :: "byte \<Rightarrow> byte" where
  "xtime a = (if bit a 7 then push_bit 1 a XOR 0x1b else push_bit 1 a)"

lemma bit7_mask: "(a AND (0x80 :: byte) \<noteq> 0) = bit a 7"
  using and_exp_eq_0_iff_not_bit [of a 7] by simp

lemma gmul_step: "gmul_loop (Suc n) a b p =
    gmul_loop n (xtime a) (drop_bit 1 b) (if b AND 1 \<noteq> 0 then p XOR a else p)"
  by (simp add: xtime_def Let_def bit7_mask)

lemma gmul_zero: "gmul_loop n a 0 p = p"
  by (induction n arbitrary: a) (simp_all add: gmul_step del: gmul_loop.simps(2))

lemma eight: "(8 :: nat) = Suc (Suc (Suc (Suc 4)))" by simp

lemma gmul_consts:
  "gmul a 2 = xtime a"
  "gmul a 3 = a XOR xtime a"
  "gmul a 9 = a XOR xtime (xtime (xtime a))"
  "gmul a 11 = a XOR xtime a XOR xtime (xtime (xtime a))"
  "gmul a 13 = a XOR xtime (xtime a) XOR xtime (xtime (xtime a))"
  "gmul a 14 = xtime a XOR xtime (xtime a) XOR xtime (xtime (xtime a))"
  unfolding gmul_def eight gmul_step
  by (simp_all add: gmul_zero xor.assoc del: gmul_loop.simps)

lemma xtime_xor: "xtime (a XOR b) = xtime a XOR xtime b"
  by (simp add: xtime_def bit_xor_iff push_bit_xor ac_simps)

lemma unmix:
  fixes a0 a1 a2 a3 :: byte
  defines "b0 \<equiv> gmul a0 2 XOR gmul a1 3 XOR a2 XOR a3" and "b1 \<equiv> a0 XOR gmul a1 2 XOR gmul a2 3 XOR a3"
    and "b2 \<equiv> a0 XOR a1 XOR gmul a2 2 XOR gmul a3 3" and "b3 \<equiv> gmul a0 3 XOR a1 XOR a2 XOR gmul a3 2"
  shows "gmul b0 14 XOR gmul b1 11 XOR gmul b2 13 XOR gmul b3 9 = a0"
   "gmul b0 9 XOR gmul b1 14 XOR gmul b2 11 XOR gmul b3 13 = a1"
   "gmul b0 13 XOR gmul b1 9 XOR gmul b2 14 XOR gmul b3 11 = a2"
   "gmul b0 11 XOR gmul b1 13 XOR gmul b2 9 XOR gmul b3 14 = a3"
  unfolding assms gmul_consts xtime_xor
  by (simp_all add: xor.assoc xor.left_commute xor.commute)

section \<open>The steps and their inverses\<close>

lemma upt16: "[0..<16] = [0, 1, 2, 3, 4, 5, 6, 7, 8, 9, 10, 11, 12, 13, 14, 15 :: nat]"
  by (simp add: upt_rec)

lemma upt4: "[0..<4] = [0, 1, 2, 3 :: nat]"
  by (simp add: upt_rec)

lemma length_steps [simp]:
  "length (add_round_key s rk) = 16" "length (shift_rows s) = 16" "length (inv_shift_rows s) = 16"
  "length (mix_columns s) = 16" "length (inv_mix_columns s) = 16"
  by (simp_all add: add_round_key_def shift_rows_def inv_shift_rows_def mix_columns_def
      inv_mix_columns_def Let_def upt4)

lemma add_round_key_inverse [simp]:
  "length s = 16 \<Longrightarrow> add_round_key (add_round_key s rk) rk = s"
  by (rule nth_equalityI) (simp_all add: add_round_key_def)

lemma list16:
  assumes "length xs = 16"
  shows "xs = [xs ! 0, xs ! 1, xs ! 2, xs ! 3, xs ! 4, xs ! 5, xs ! 6, xs ! 7,
     xs ! 8, xs ! 9, xs ! 10, xs ! 11, xs ! 12, xs ! 13, xs ! 14, xs ! 15]"
  using map_nth [of xs] assms by (simp add: upt16)

lemma shift_rows_inverse [simp]:
  assumes "length s = 16"
  shows "inv_shift_rows (shift_rows s) = s"
  by (subst (2) list16 [OF assms]) (simp add: inv_shift_rows_def shift_rows_def upt16)

lemma mix_columns_inverse [simp]:
  assumes "length s = 16"
  shows "inv_mix_columns (mix_columns s) = s"
  by (subst (2) list16 [OF assms])
    (simp add: inv_mix_columns_def mix_columns_def upt4 unmix Let_def numeral_2_eq_2 [symmetric])

lemma length_enc_rounds: "length s = 16 \<Longrightarrow> length (foldl (enc_round rk) s js) = 16"
  by (induction js arbitrary: s) (simp_all add: enc_round_def)

lemma length_dec_rounds: "length s = 16 \<Longrightarrow> length (foldl (dec_round rk) s js) = 16"
  by (induction js arbitrary: s) (simp_all add: dec_round_def)

text \<open>
  A decryption round undoes an encryption round up to where the two are cut: the state before
  \<open>ShiftRows\<close> of one round is the state after \<open>SubBytes\<close> of the other.
\<close>

definition half :: "bytes \<Rightarrow> bytes" where
  "half s = shift_rows (sub_bytes SBOX s)"

lemma length_half [simp]: "length (half s) = 16"
  by (simp add: half_def)

lemma inv_half: "length s = 16 \<Longrightarrow> sub_bytes inv_sbox (inv_shift_rows (half s)) = s"
  by (simp add: half_def)

lemma dec_enc_round: "length s = 16 \<Longrightarrow> dec_round rk (half (enc_round rk s j)) j = half s"
  by (simp add: dec_round_def inv_half enc_round_def) (simp add: half_def)

lemma dec_enc_rounds:
  "length s = 16 \<Longrightarrow> foldl (dec_round rk) (half (foldl (enc_round rk) s js)) (rev js) = half s"
  by (induction js rule: rev_induct) (simp_all add: dec_enc_round length_enc_rounds)

lemma length_encrypt_block [simp]: "length (encrypt_block rk b) = 16"
  by (simp add: encrypt_block_def Let_def)

lemma length_decrypt_block [simp]: "length (decrypt_block rk b) = 16"
  by (simp add: decrypt_block_def Let_def)

lemma decrypt_encrypt: "length b = 16 \<Longrightarrow> decrypt_block rk (encrypt_block rk b) = b"
  by (simp add: decrypt_block_def encrypt_block_def Let_def half_def [symmetric] dec_enc_rounds
      inv_half)

text \<open>
  C28: AES decryption undoes AES encryption, for every expanded key and every 16-byte block: the
  loop-built inverse S-box inverts the table, the row shifts cancel, and the two column matrices
  are inverse over GF(256).
\<close>

theorem aes_decrypt_encrypt:
  assumes "length block = 16"
  shows "decrypt_block (aes_new key) (encrypt_block (aes_new key) block) = block \<and>
    length (encrypt_block (aes_new key) block) = 16"
  using decrypt_encrypt [OF assms] by simp

lemma aes_decrypt_encrypt_witness:
  "decrypt_block (aes_new (replicate 16 7)) (encrypt_block (aes_new (replicate 16 7)) (replicate 16 9))
     = replicate 16 9"
  by (rule conjunct1 [OF aes_decrypt_encrypt]) simp

section \<open>Key wrap and unwrap\<close>

text \<open>The arrays of the two loops: 32 entries, the first \<open>n\<close> of them live blocks of 8 bytes.\<close>

definition wrap_ok :: "nat \<Rightarrow> bytes \<times> bytes list \<Rightarrow> bool" where
  "wrap_ok n st \<longleftrightarrow> length (fst st) = 8 \<and> length (snd st) = 32 \<and> (\<forall>b \<in> set (snd st). length b = 8) \<and>
     (\<forall>i. n \<le> i \<and> i < 32 \<longrightarrow> snd st ! i = replicate 8 0)"

lemma wrap_step_ok:
  assumes "wrap_ok n (a, r)" "1 \<le> i" "i \<le> n" "n \<le> 32"
  shows "wrap_ok n (wrap_step rk n (a, r) (j, i))"
  using assms by (auto simp: wrap_ok_def Let_def nth_list_update dest!: set_update_subset_insert [THEN subsetD])

lemma unwrap_wrap_step:
  assumes "wrap_ok n (a, r)" "1 \<le> i" "i \<le> n" "n \<le> 32"
  shows "unwrap_step rk n (wrap_step rk n (a, r) (j, i)) (j, i) = (a, r)"
proof -
  have l: "length a = 8" "length (r ! (i - 1)) = 8" "i - 1 < length r"
    using assms by (auto simp: wrap_ok_def)
  then show ?thesis by (simp add: Let_def decrypt_encrypt)
qed

lemma unwrap_wrap_steps:
  "wrap_ok n st \<Longrightarrow> n \<le> 32 \<Longrightarrow> \<forall>(j, i) \<in> set ps. 1 \<le> i \<and> i \<le> n \<Longrightarrow>
     foldl (unwrap_step rk n) (foldl (wrap_step rk n) st ps) (rev ps) = st \<and>
     wrap_ok n (foldl (wrap_step rk n) st ps)"
proof (induction ps arbitrary: st)
  case (Cons p ps)
  obtain j i where p: "p = (j, i)" by force
  obtain a r where st: "st = (a, r)" by force
  have i: "1 \<le> i" "i \<le> n" using Cons.prems(3) by (auto simp: p)
  have ok: "wrap_ok n (wrap_step rk n (a, r) (j, i))"
    using wrap_step_ok [OF _ i] Cons.prems(1,2) by (simp only: st)
  have "foldl (unwrap_step rk n) (foldl (wrap_step rk n) (wrap_step rk n (a, r) (j, i)) ps) (rev ps) =
      wrap_step rk n (a, r) (j, i) \<and>
     wrap_ok n (foldl (wrap_step rk n) (wrap_step rk n (a, r) (j, i)) ps)"
    using Cons.IH [OF ok Cons.prems(2)] Cons.prems(3) by simp
  then show ?case using unwrap_wrap_step [OF _ i, of a r rk j] Cons.prems(1,2)
    by (simp add: p st del: wrap_step.simps unwrap_step.simps)
qed simp

lemma unwrap_order_rev: "unwrap_order n = rev (wrap_order n)"
  by (simp add: unwrap_order_def wrap_order_def rev_concat rev_map comp_def del: upt_Suc)

lemma wrap_order_range: "\<forall>(j, i) \<in> set (wrap_order n). 1 \<le> i \<and> i \<le> n"
  by (auto simp: wrap_order_def)

text \<open>Loading and storing the blocks.\<close>

lemma load_blocks_nth:
  assumes "n \<le> 32"
  shows "length (load_blocks src off n) = 32 \<and>
    (\<forall>i < 32. load_blocks src off n ! i =
       (if i < n then slice src (off + i * 8) (off + i * 8 + 8) else replicate 8 0))"
  using assms
proof (induction n)
  case (Suc n)
  have "load_blocks src off (Suc n) =
      (load_blocks src off n)[n := slice src (off + n * 8) (off + n * 8 + 8)]"
    by (simp add: load_blocks_def)
  then show ?case using Suc by (auto simp: nth_list_update less_Suc_eq)
qed (simp add: load_blocks_def)

lemma store_blocks_blit:
  assumes "off + n * 8 \<le> length out" "n \<le> length r" "\<forall>b \<in> set r. length b = 8"
  shows "store_blocks out off r n = blit out off (concat (take n r))"
  using assms(1,2)
proof (induction n)
  case 0
  then show ?case by (simp add: store_blocks_def blit_def)
next
  case (Suc n)
  have c: "length (concat (take n r)) = n * 8"
    using length_concat_uniform [of "take n r" 8] assms(3) Suc.prems(2) by (auto dest: in_set_takeD)
  have l: "length (r ! n) = 8" using assms(3) Suc.prems(2) by simp
  have "store_blocks out off r (Suc n) = blit (blit out off (concat (take n r))) (off + n * 8) (r ! n)"
    using Suc by (simp add: store_blocks_def)
  also have "\<dots> = blit out off (concat (take n r) @ r ! n)"
    using c l Suc.prems(1) by (simp add: blit_def add.assoc [symmetric] add.commute)
  finally show ?case using Suc.prems(2) by (simp add: take_Suc_conv_app_nth)
qed

lemma load_blocks_concat:
  assumes "\<forall>b \<in> set r. length b = 8" "n \<le> length r" "n \<le> 32" "length pre = off"
    "\<forall>i. n \<le> i \<and> i < 32 \<longrightarrow> r ! i = replicate 8 0" "length r = 32"
  shows "load_blocks (pre @ concat (take n r)) off n = r"
proof (rule nth_equalityI)
  fix i assume i: "i < length (load_blocks (pre @ concat (take n r)) off n)"
  then have i32: "i < 32" using load_blocks_nth [OF assms(3)] by simp
  have "slice (pre @ concat (take n r)) (off + i * 8) (off + i * 8 + 8) = r ! i" if "i < n"
  proof -
    have r: "take n r = take i r @ r ! i # drop (Suc i) (take n r)"
      using id_take_nth_drop [of i "take n r"] that assms(2) by (simp add: min_def)
    have l: "length (concat (take i r)) = i * 8"
      using length_concat_uniform [of "take i r" 8] assms(1,2) that by (auto dest: in_set_takeD)
    have "length (r ! i) = 8" using assms(1,2) that by simp
    then show ?thesis using l assms(4) by (subst r) (simp add: slice_def)
  qed
  then show "load_blocks (pre @ concat (take n r)) off n ! i = r ! i"
    using load_blocks_nth [OF assms(3)] i32 assms(5) by simp
qed (use load_blocks_nth [OF assms(3)] assms(6) in simp)

lemma concat_load_blocks:
  assumes "length src = n * 8" "n \<le> 32"
  shows "concat (take n (load_blocks src 0 n)) = src"
proof -
  have "concat (map (\<lambda>i. slice src (i * 8) (i * 8 + 8)) [0..<m]) = take (m * 8) src" for m
    by (induction m) (simp_all add: slice_def take_add [symmetric] add.commute)
  moreover have "take n (load_blocks src 0 n) = map (\<lambda>i. slice src (i * 8) (i * 8 + 8)) [0..<n]"
    using load_blocks_nth [OF assms(2), of src 0] assms(2) by (intro nth_equalityI) simp_all
  ultimately show ?thesis using assms(1) by simp
qed

lemma key_wrap_unfold:
  assumes "length plain = n * 8" "0 < n" "n \<le> 32" "(n + 1) * 8 \<le> length out"
    "foldl (wrap_step (aes_new kek) n) (WRAP_IV, load_blocks plain 0 n) (wrap_order n) = (a, r)"
  shows "wrap_ok n (a, r)" "key_wrap kek plain out = (True, blit out 0 (a @ concat (take n r)))"
proof -
  have "wrap_ok n (WRAP_IV, load_blocks plain 0 n)"
    using load_blocks_nth [OF assms(3), of plain 0] assms(1)
    by (auto simp: wrap_ok_def WRAP_IV_def in_set_conv_nth)
  from unwrap_wrap_steps [OF this assms(3) wrap_order_range] show ok: "wrap_ok n (a, r)"
    using assms(5) by metis
  have c: "length (concat (take n r)) = n * 8"
    using length_concat_uniform [of "take n r" 8] ok assms(3) by (auto simp: wrap_ok_def dest: in_set_takeD)
  have "store_blocks (blit out 0 a) 8 r n = blit (blit out 0 a) 8 (concat (take n r))"
    using ok assms(3,4) by (intro store_blocks_blit) (auto simp: wrap_ok_def)
  also have "\<dots> = blit out 0 (a @ concat (take n r))"
    using ok assms(4) c by (simp add: wrap_ok_def blit_def add.commute)
  finally show "key_wrap kek plain out = (True, blit out 0 (a @ concat (take n r)))"
    using assms by (auto simp: key_wrap_def Let_def)
qed

lemma key_unwrap_wrap_value:
  assumes "length plain = n * 8" "0 < n" "n \<le> 32" "(n + 1) * 8 \<le> length out" "n * 8 \<le> length out2"
  shows "fst (key_wrap kek plain out) \<and>
    key_unwrap kek (take ((n + 1) * 8) (snd (key_wrap kek plain out))) out2 = (True, blit out2 0 plain)"
proof -
  obtain a r where ar: "foldl (wrap_step (aes_new kek) n) (WRAP_IV, load_blocks plain 0 n) (wrap_order n) = (a, r)"
    by force
  note wrap = key_wrap_unfold [OF assms(1-4) ar]
  have r: "\<forall>b \<in> set r. length b = 8" "length r = 32" "length a = 8"
    "\<forall>i. n \<le> i \<and> i < 32 \<longrightarrow> r ! i = replicate 8 0" using wrap(1) by (auto simp: wrap_ok_def)
  have c: "length (concat (take n r)) = n * 8"
    using length_concat_uniform [of "take n r" 8] r assms(3) by (auto dest: in_set_takeD)
  have w: "take ((n + 1) * 8) (snd (key_wrap kek plain out)) = a @ concat (take n r)"
    using wrap(2) c r(3) assms(4) by (simp add: blit_def)
  have ok0: "wrap_ok n (WRAP_IV, load_blocks plain 0 n)"
    using load_blocks_nth [OF assms(3), of plain 0] assms(1)
    by (auto simp: wrap_ok_def WRAP_IV_def in_set_conv_nth)
  have "foldl (unwrap_step (aes_new kek) n) (a, r) (unwrap_order n) = (WRAP_IV, load_blocks plain 0 n)"
    using unwrap_wrap_steps [OF ok0 assms(3) wrap_order_range] ar by (metis unwrap_order_rev)
  moreover have "load_blocks (a @ concat (take n r)) 8 n = r"
    using r assms(3) by (intro load_blocks_concat) auto
  moreover have "store_blocks out2 0 (load_blocks plain 0 n) n = blit out2 0 plain"
    using store_blocks_blit [of 0 n out2 "load_blocks plain 0 n"] ok0 assms
    by (simp add: wrap_ok_def concat_load_blocks)
  ultimately have "key_unwrap kek (a @ concat (take n r)) out2 = (True, blit out2 0 plain)"
    using c r(3) assms(2,3,5) by (simp add: key_unwrap_def Let_def)
  then show ?thesis using wrap(2) w by simp
qed

text \<open>
  Unwrapping undoes wrapping: for every key-encryption key and every plaintext of 1 to 32
  blocks, \<open>key_wrap\<close> succeeds in a large enough buffer, and \<open>key_unwrap\<close> of the bytes it wrote
  passes the integrity check and stores the plaintext.
\<close>

theorem key_unwrap_wrap:
  assumes "length plain = n * 8" "0 < n" "n \<le> 32" "(n + 1) * 8 \<le> length out" "n * 8 \<le> length out2"
  shows "fst (key_wrap kek plain out) \<and>
    key_unwrap kek (take ((n + 1) * 8) (snd (key_wrap kek plain out))) out2 = (True, blit out2 0 plain)"
  by (rule key_unwrap_wrap_value [OF assms])

lemma key_unwrap_wrap_witness:
  "fst (key_unwrap (replicate 16 1) (take 24 (snd (key_wrap (replicate 16 1) (replicate 16 2) (replicate 24 0))))
     (replicate 16 0))"
  using key_unwrap_wrap [of "replicate 16 2" 2 "replicate 24 0" "replicate 16 0" "replicate 16 1"] by simp

end
