(* ===== verification/Eapol.thy ===== *)
theory Eapol
  imports Wpa2 Aes_Props
begin

text \<open>
  The supplicant side of the WPA2 four-way handshake, kernel/src/eapol.rs, on the primitives of
  \<open>Wpa2\<close> and \<open>Aes\<close>. A call that would index out of range (and so abort the kernel) is None; the
  functions that write a frame return the buffer as they leave it.
\<close>

section \<open>Frames\<close>

definition KI_KEY_MIC :: "16 word" where "KI_KEY_MIC = push_bit 8 1"
definition KI_SECURE :: "16 word" where "KI_SECURE = push_bit 9 1"
definition KI_ENCRYPTED :: "16 word" where "KI_ENCRYPTED = push_bit 12 1"

definition HDR :: nat where "HDR = 4"
definition OFF_KEYINFO :: nat where "OFF_KEYINFO = HDR + 1"
definition OFF_NONCE :: nat where "OFF_NONCE = HDR + 13"
definition OFF_MIC :: nat where "OFF_MIC = HDR + 77"
definition OFF_KDLEN :: nat where "OFF_KDLEN = HDR + 93"
definition OFF_KDATA :: nat where "OFF_KDATA = HDR + 95"
definition FRAME_FIXED :: nat where "FRAME_FIXED = OFF_KDATA"

lemmas offsets = HDR_def OFF_KEYINFO_def OFF_NONCE_def OFF_MIC_def OFF_KDLEN_def OFF_KDATA_def FRAME_FIXED_def

definition be16 :: "bytes \<Rightarrow> nat \<Rightarrow> 16 word" where
  "be16 b off = push_bit 8 (of_nat (unat (b ! off))) OR of_nat (unat (b ! (off + 1)))"

definition wbe16 :: "bytes \<Rightarrow> nat \<Rightarrow> 16 word \<Rightarrow> bytes" where
  "wbe16 b off v = (b[off := of_nat (unat (drop_bit 8 v))])[off + 1 := of_nat (unat v)]"

definition key_mic :: "bytes \<Rightarrow> bytes \<Rightarrow> bytes" where
  "key_mic kck frame = slice (hmac_sha1 kck frame) 0 16"

section \<open>The supplicant\<close>

record keys =
  k_ptk :: bytes
  k_gtk :: bytes
  k_gtk_len :: nat

record supplicant =
  s_pmk :: bytes
  s_aa :: bytes
  s_spa :: bytes
  s_snonce :: bytes
  s_rsn_ie :: bytes
  s_rsn_ie_len :: nat
  s_ptk :: bytes
  s_have_ptk :: bool

definition supplicant_new :: "bytes \<Rightarrow> bytes \<Rightarrow> bytes \<Rightarrow> bytes \<Rightarrow> supplicant" where
  "supplicant_new pmk aa spa snonce =
     \<lparr>s_pmk = pmk, s_aa = aa, s_spa = spa, s_snonce = snonce, s_rsn_ie = replicate 32 0,
      s_rsn_ie_len = 0, s_ptk = replicate 48 0, s_have_ptk = False\<rparr>"

definition derive_ptk :: "supplicant \<Rightarrow> bytes \<Rightarrow> supplicant" where
  "derive_ptk s anonce =
     s\<lparr>s_ptk := ptk (s_pmk s) (s_aa s) (s_spa s) anonce (s_snonce s) 48, s_have_ptk := True\<rparr>"

text \<open>\<open>out[..tot]\<close> zeroed, the 802.1X header, descriptor type, key info, key length and replay
  counter taken from the received frame: what messages 2 and 4 share.\<close>

definition reply_head :: "bytes \<Rightarrow> nat \<Rightarrow> bytes \<Rightarrow> 16 word \<Rightarrow> bytes" where
  "reply_head out tot m ki =
     (let out = blit out 0 (replicate tot 0);
          out = (out[0 := 2])[1 := 3];
          out = wbe16 out 2 (of_nat (tot - HDR));
          out = out[HDR := m ! HDR];
          out = wbe16 out OFF_KEYINFO ki;
          out = (out[HDR + 2 := m ! (HDR + 2)])[HDR + 3 := m ! (HDR + 3)]
      in blit out (HDR + 5) (slice m (HDR + 5) (HDR + 13)))"

text \<open>Message 1 gives message 2; the number is its length, 0 on error.\<close>

definition on_message1 :: "supplicant \<Rightarrow> bytes \<Rightarrow> bytes \<Rightarrow> (supplicant \<times> bytes \<times> nat) option" where
  "on_message1 s m1 out =
     (if length m1 < FRAME_FIXED then Some (s, out, 0)
      else let anonce = slice m1 OFF_NONCE (OFF_NONCE + 32);
               s = derive_ptk s anonce;
               kd = min (s_rsn_ie_len s) (length out - FRAME_FIXED);
               tot = FRAME_FIXED + kd
           in if length out < tot then Some (s, out, 0)
              else if length (s_rsn_ie s) < kd then None
              else let ki = (be16 m1 OFF_KEYINFO AND 7) OR KI_KEY_MIC;
                       out = reply_head out tot m1 ki;
                       out = blit out OFF_NONCE (s_snonce s);
                       out = wbe16 out OFF_KDLEN (of_nat kd);
                       out = blit out OFF_KDATA (take kd (s_rsn_ie s));
                       mic = key_mic (slice (s_ptk s) 0 16) (take tot out)
                   in Some (s, blit out OFF_MIC mic, tot))"

definition verify_message3 :: "supplicant \<Rightarrow> bytes \<Rightarrow> bool" where
  "verify_message3 s m3 =
     (if \<not> s_have_ptk s \<or> length m3 < FRAME_FIXED then False
      else if 256 < length m3 then False
      else let tmp = blit (replicate 256 0) 0 m3;
               tmp = blit tmp OFF_MIC (replicate 16 0)
           in key_mic (slice (s_ptk s) 0 16) (take (length m3) tmp) = slice m3 OFF_MIC (OFF_MIC + 16))"

text \<open>
  The scan for the group key. The outer None is the out-of-range slice \<open>body[6..]\<close> of a key
  element of four or five bytes, the inner one a scan that finds no key.
\<close>

function find_gtk_kde :: "bytes \<Rightarrow> bytes option option" where
  "find_gtk_kde kd =
     (if length kd < 2 then Some None
      else if kd ! 0 \<noteq> 0xdd then Some None
      else let len = unat (kd ! 1) in
        if length kd < 2 + len \<or> len < 4 then Some None
        else let body = slice kd 2 (2 + len) in
          if body ! 0 = 0x00 \<and> body ! 1 = 0x0f \<and> body ! 2 = 0xac \<and> body ! 3 = 0x01 then
            (if len < 6 then None else Some (Some (take (min (len - 6) 32) (drop 6 body))))
          else find_gtk_kde (drop (2 + len) kd))"
  by auto
termination by (relation "measure length") auto

declare find_gtk_kde.simps [simp del]

definition extract_gtk :: "supplicant \<Rightarrow> bytes \<Rightarrow> nat \<Rightarrow> keys \<Rightarrow> keys option" where
  "extract_gtk s m3 kdlen ks =
     (if be16 m3 OFF_KEYINFO AND KI_ENCRYPTED \<noteq> 0 \<and> 16 \<le> kdlen \<and> kdlen mod 8 = 0 then
        let outlen = kdlen - 8 in
        if 64 < outlen then Some ks
        else let (ok, unwrapped) = key_unwrap (slice (s_ptk s) 16 32) (slice m3 OFF_KDATA (OFF_KDATA + kdlen))
                   (replicate outlen 0)
             in if ok then
                  (case find_gtk_kde unwrapped of
                     None \<Rightarrow> None
                   | Some None \<Rightarrow> Some ks
                   | Some (Some g) \<Rightarrow> Some (ks\<lparr>k_gtk := blit (k_gtk ks) 0 g, k_gtk_len := length g\<rparr>))
                else Some ks
      else Some ks)"

text \<open>Message 3 gives message 4 and the keys; the inner None is the rejection.\<close>

definition on_message3 :: "supplicant \<Rightarrow> bytes \<Rightarrow> bytes \<Rightarrow> (bytes \<times> (nat \<times> keys) option) option" where
  "on_message3 s m3 out =
     (if \<not> verify_message3 s m3 then Some (out, None)
      else let kdlen = unat (be16 m3 OFF_KDLEN) in
        if length m3 < OFF_KDATA + kdlen then Some (out, None)
        else (case extract_gtk s m3 kdlen \<lparr>k_ptk = s_ptk s, k_gtk = replicate 32 0, k_gtk_len = 0\<rparr> of
                None \<Rightarrow> None
              | Some ks \<Rightarrow>
                  let tot = FRAME_FIXED in
                  if length out < tot then Some (out, None)
                  else let ki = (be16 m3 OFF_KEYINFO AND 7) OR KI_KEY_MIC OR KI_SECURE;
                           out = reply_head out tot m3 ki;
                           out = wbe16 out OFF_KDLEN 0;
                           mic = key_mic (slice (s_ptk s) 0 16) (take tot out)
                       in Some (blit out OFF_MIC mic, Some (tot, ks))))"

end
