(* ===== verification/Eapol_Props.thy ===== *)
theory Eapol_Props
  imports Eapol
begin

text \<open>
  The handshake completes: message 2 carries the supplicant's nonce and a valid MIC under the key
  the authenticator derives, a well-formed message 3 yields both keys and a valid message 4, an
  unauthenticated one yields nothing; and the two ways the group-key scan departs from that.
\<close>

section \<open>MIC fields\<close>

text \<open>A frame whose MIC field is the MIC of the frame with that field zeroed.\<close>

definition frame_mic_ok :: "bytes \<Rightarrow> bytes \<Rightarrow> bool" where
  "frame_mic_ok kck f \<longleftrightarrow>
     slice f OFF_MIC (OFF_MIC + 16) = key_mic kck (blit f OFF_MIC (replicate 16 0))"

lemma length_key_mic [simp]: "length (key_mic kck f) = 16"
  by (simp add: key_mic_def hmac_sha1_rfc)

lemma slice_update_other:
  "k < i \<or> j \<le> k \<Longrightarrow> slice (xs[k := v]) i j = slice xs i j"
  unfolding slice_def by (rule nth_equalityI) (auto simp: nth_list_update)

lemma slice_wbe16_other:
  "off + 2 \<le> i \<or> j \<le> off \<Longrightarrow> slice (wbe16 b off v) i j = slice b i j"
  unfolding wbe16_def by (subst slice_update_other, force)+ simp

lemma length_wbe16 [simp]: "length (wbe16 b off v) = length b"
  by (simp add: wbe16_def)

lemma blit_twice:
  "length xs = length ys \<Longrightarrow> off + length ys \<le> length f \<Longrightarrow> blit (blit f off xs) off ys = blit f off ys"
  by (intro nth_equalityI) (auto simp: nth_blit)

lemma take_blit:
  "off + length xs \<le> n \<Longrightarrow> n \<le> length f \<Longrightarrow> take n (blit f off xs) = blit (take n f) off xs"
  by (intro nth_equalityI) (auto simp: nth_blit)

lemma slice_take: "j \<le> n \<Longrightarrow> slice (take n f) i j = slice f i j"
  by (cases "i \<le> j") (auto simp: slice_def drop_take min_def)

text \<open>Writing the MIC of a frame whose field was zero makes the field right.\<close>

lemma mic_written:
  assumes "slice out OFF_MIC (OFF_MIC + 16) = replicate 16 0" "OFF_MIC + 16 \<le> tot" "tot \<le> length out"
  shows "frame_mic_ok kck (take tot (blit out OFF_MIC (key_mic kck (take tot out))))"
proof -
  define f where "f = take tot out"
  have f: "slice f OFF_MIC (OFF_MIC + 16) = replicate 16 0" "OFF_MIC + 16 \<le> length f"
    using assms by (simp_all add: f_def slice_take)
  have t: "take tot (blit out OFF_MIC (key_mic kck f)) = blit f OFF_MIC (key_mic kck f)"
    using assms(2,3) by (simp add: take_blit f_def)
  have "blit (blit f OFF_MIC (key_mic kck f)) OFF_MIC (replicate 16 0) = blit f OFF_MIC (replicate 16 0)"
    using f(2) by (intro blit_twice) simp_all
  also have "\<dots> = f" using blit_slice_id [of "OFF_MIC + 16" f OFF_MIC] f by simp
  finally show ?thesis using f(2) slice_blit_same [of OFF_MIC "key_mic kck f" f]
    unfolding f_def [symmetric] t frame_mic_ok_def by simp
qed

lemma verify_message3_iff:
  "verify_message3 s m3 \<longleftrightarrow> s_have_ptk s \<and> FRAME_FIXED \<le> length m3 \<and> length m3 \<le> 256 \<and>
     frame_mic_ok (slice (s_ptk s) 0 16) m3"
proof (cases "s_have_ptk s \<and> FRAME_FIXED \<le> length m3 \<and> length m3 \<le> 256")
  case True
  then have l: "OFF_MIC + 16 \<le> length m3" by (simp add: offsets)
  have "blit (replicate 256 0) 0 m3 = m3 @ replicate (256 - length m3) 0" using True by (simp add: blit_def)
  then have "take (length m3) (blit (blit (replicate 256 0) 0 m3) OFF_MIC (replicate 16 0)) =
      blit m3 OFF_MIC (replicate 16 0)"
    using l by (simp add: take_blit)
  then show ?thesis using True by (auto simp: verify_message3_def Let_def frame_mic_ok_def)
qed (auto simp: verify_message3_def)

section \<open>The replies\<close>

lemma length_reply_head [simp]:
  "FRAME_FIXED \<le> tot \<Longrightarrow> tot \<le> length out \<Longrightarrow> FRAME_FIXED \<le> length m \<Longrightarrow> length (reply_head out tot m ki) = length out"
  by (simp add: reply_head_def Let_def offsets)

lemma reply_head_zero:
  assumes "FRAME_FIXED \<le> tot" "tot \<le> length out" "FRAME_FIXED \<le> length m"
  shows "slice (reply_head out tot m ki) OFF_MIC (OFF_MIC + 16) = replicate 16 0"
proof -
  define o1 where "o1 = blit out 0 (replicate tot 0)"
  have o1: "slice o1 OFF_MIC (OFF_MIC + 16) = replicate 16 0" "length o1 = length out"
    using assms by (auto simp: o1_def offsets slice_def blit_def)
  show ?thesis
    unfolding reply_head_def Let_def o1_def [symmetric]
    using o1 assms by (simp add: slice_blit_other slice_update_other slice_wbe16_other offsets)
qed

text \<open>
  Message 2 is right: from message 1 the supplicant derives the very key the authenticator
  derives with the roles of the addresses and nonces exchanged, and the reply of fixed part and
  information element carries its nonce, that element, and a valid MIC under the key confirmation
  part of the key.
\<close>

theorem eapol_message2:
  assumes "FRAME_FIXED \<le> length m1" "length (s_snonce s) = 32" "s_rsn_ie_len s \<le> 32" "length (s_rsn_ie s) = 32"
    "FRAME_FIXED + s_rsn_ie_len s \<le> length out"
  shows "\<exists>s' out'. on_message1 s m1 out = Some (s', out', FRAME_FIXED + s_rsn_ie_len s) \<and>
    s_ptk s' = ptk (s_pmk s) (s_spa s) (s_aa s) (s_snonce s) (slice m1 OFF_NONCE (OFF_NONCE + 32)) 48 \<and>
    s_have_ptk s' \<and> length out' = length out \<and>
    slice out' OFF_NONCE (OFF_NONCE + 32) = s_snonce s \<and>
    slice out' OFF_KDATA (OFF_KDATA + s_rsn_ie_len s) = take (s_rsn_ie_len s) (s_rsn_ie s) \<and>
    frame_mic_ok (slice (s_ptk s') 0 16) (take (FRAME_FIXED + s_rsn_ie_len s) out')"
proof -
  define kd where "kd = s_rsn_ie_len s"
  define tot where "tot = FRAME_FIXED + kd"
  define s' where "s' = derive_ptk s (slice m1 OFF_NONCE (OFF_NONCE + 32))"
  define o1 where "o1 = reply_head out tot m1 ((be16 m1 OFF_KEYINFO AND 7) OR KI_KEY_MIC)"
  define o2 where "o2 = blit o1 OFF_NONCE (s_snonce s)"
  define o3 where "o3 = wbe16 o2 OFF_KDLEN (of_nat kd)"
  define o4 where "o4 = blit o3 OFF_KDATA (take kd (s_rsn_ie s))"
  define o5 where "o5 = blit o4 OFF_MIC (key_mic (slice (s_ptk s') 0 16) (take tot o4))"
  have tot: "FRAME_FIXED \<le> tot" "tot \<le> length out" using assms(5) by (simp_all add: tot_def kd_def)
  have l1: "length o1 = length out" using tot assms(1) by (simp add: o1_def)
  have z1: "slice o1 OFF_MIC (OFF_MIC + 16) = replicate 16 0"
    unfolding o1_def by (rule reply_head_zero [OF tot assms(1)])
  have l2: "length o2 = length out" using l1 tot assms(2) by (simp add: o2_def offsets)
  have l3: "length o3 = length out" using l2 by (simp add: o3_def)
  have lr: "length (take kd (s_rsn_ie s)) = kd" using assms(3,4) by (simp add: kd_def)
  have fit: "OFF_KDATA + kd \<le> length out" using tot by (simp add: tot_def FRAME_FIXED_def)
  have l4: "length o4 = length out" using l3 lr fit by (simp add: o4_def)
  have z4: "slice o4 OFF_MIC (OFF_MIC + 16) = replicate 16 0"
    using z1 l1 l2 l3 lr fit assms(2) tot
    by (simp add: o4_def o3_def o2_def slice_blit_other slice_wbe16_other offsets)
  have nonce: "slice o5 OFF_NONCE (OFF_NONCE + 32) = s_snonce s"
    using l1 l2 l3 l4 lr fit assms(2) tot slice_blit_same [of OFF_NONCE "s_snonce s" o1]
    by (simp add: o5_def o4_def o3_def o2_def slice_blit_other slice_wbe16_other offsets)
  have kdata: "slice o5 OFF_KDATA (OFF_KDATA + kd) = take kd (s_rsn_ie s)"
    using l3 l4 lr fit tot slice_blit_same [of OFF_KDATA "take kd (s_rsn_ie s)" o3]
    by (simp add: o5_def o4_def slice_blit_other offsets)
  have mic: "frame_mic_ok (slice (s_ptk s') 0 16) (take tot o5)"
    unfolding o5_def using tot l4 by (intro mic_written [OF z4]) (simp_all add: offsets)
  have kd_min: "min (s_rsn_ie_len s) (length out - FRAME_FIXED) = kd" using assms(5) by (simp add: kd_def)
  have "on_message1 s m1 out = Some (s', o5, tot)"
  proof -
    have g: "\<not> length m1 < FRAME_FIXED" "\<not> length out < tot" "\<not> length (s_rsn_ie s) < kd"
      using assms(1,3,4) tot(2) by (simp_all add: kd_def)
    have f: "s_rsn_ie_len s' = s_rsn_ie_len s" "s_rsn_ie s' = s_rsn_ie s" "s_snonce s' = s_snonce s"
      by (simp_all add: s'_def derive_ptk_def)
    show ?thesis
      unfolding on_message1_def Let_def s'_def [symmetric] f kd_min tot_def [symmetric] o1_def [symmetric]
        o2_def [symmetric] o3_def [symmetric] o4_def [symmetric] o5_def [symmetric]
      by (simp only: g if_False)
  qed
  moreover have "s_ptk s' = ptk (s_pmk s) (s_spa s) (s_aa s) (s_snonce s) (slice m1 OFF_NONCE (OFF_NONCE + 32)) 48"
    by (simp add: s'_def derive_ptk_def ptk_def min_max_sym)
  moreover have "length o5 = length out" using l4 tot by (simp add: o5_def offsets)
  ultimately show ?thesis using nonce kdata mic
    by (intro exI [of _ s'] exI [of _ o5]) (simp add: s'_def derive_ptk_def tot_def kd_def)
qed

lemma eapol_message2_witness:
  "\<exists>s' out'. on_message1 ((supplicant_new (replicate 32 1) (replicate 6 2) (replicate 6 3) (replicate 32 4))
      \<lparr>s_rsn_ie_len := 4\<rparr>) (replicate 99 5) (replicate 128 0) = Some (s', out', 103) \<and>
    slice out' OFF_NONCE (OFF_NONCE + 32) = replicate 32 4 \<and>
    frame_mic_ok (slice (s_ptk s') 0 16) (take 103 out')"
proof -
  have f: "FRAME_FIXED = 99" by (simp add: offsets)
  show ?thesis
    using eapol_message2 [of "replicate 99 5" "(supplicant_new (replicate 32 1) (replicate 6 2)
      (replicate 6 3) (replicate 32 4)) \<lparr>s_rsn_ie_len := 4\<rparr>" "replicate 128 0"]
    by (auto simp: f supplicant_new_def)
qed

section \<open>Message 3\<close>

text \<open>The key element as an access point writes it: header, OUI and type, key id, key.\<close>

definition gtk_kde :: "bytes \<Rightarrow> bytes \<Rightarrow> bytes" where
  "gtk_kde keyid gtk = [0xdd, of_nat (6 + length gtk), 0x00, 0x0f, 0xac, 0x01] @ keyid @ gtk"

lemma find_gtk_kde_written:
  assumes "length keyid = 2" "length gtk \<le> 32"
  shows "find_gtk_kde (gtk_kde keyid gtk @ pad) = Some (Some gtk)"
proof -
  obtain a b where k: "keyid = [a, b]" using assms(1) by (cases keyid; cases "tl keyid") auto
  have u: "unat (of_nat (6 + length gtk) :: 8 word) = 6 + length gtk"
    using assms(2) by (simp add: unat_of_nat del: of_nat_add)
  have d: "drop 6 (take (6 + length gtk) (0 # 15 # 172 # 1 # a # b # gtk @ pad)) = gtk"
    by (simp add: drop_take)
  show ?thesis using assms(2) d unfolding k
    by (subst find_gtk_kde.simps)
      (simp add: gtk_kde_def u Let_def slice_def numeral_2_eq_2 del: of_nat_add)
qed

text \<open>A key element too short for a key id ends the scan out of range.\<close>

lemma find_gtk_kde_short:
  "len = 4 \<or> len = 5 \<Longrightarrow> unat len \<le> length rest + 4 \<Longrightarrow>
   find_gtk_kde ([0xdd, len, 0x00, 0x0f, 0xac, 0x01] @ rest) = None"
  by (subst find_gtk_kde.simps) (auto simp: Let_def slice_def)

lemma find_gtk_kde_other: "kd ! 0 \<noteq> 0xdd \<Longrightarrow> find_gtk_kde kd = Some None"
  by (subst find_gtk_kde.simps) simp

text \<open>\<open>wraps s m3 n plain\<close>: the key data of message 3 is \<open>plain\<close>, of \<open>n\<close> blocks, wrapped under the
  key-encryption part of the derived key, and its header says so.\<close>

definition wraps :: "supplicant \<Rightarrow> bytes \<Rightarrow> nat \<Rightarrow> bytes \<Rightarrow> bool" where
  "wraps s m3 n plain \<longleftrightarrow>
     length m3 = FRAME_FIXED + (n + 1) * 8 \<and> length plain = n * 8 \<and> 0 < n \<and> n \<le> 8 \<and>
     be16 m3 OFF_KEYINFO AND KI_ENCRYPTED \<noteq> 0 \<and> unat (be16 m3 OFF_KDLEN) = (n + 1) * 8 \<and>
     drop OFF_KDATA m3 = snd (key_wrap (slice (s_ptk s) 16 32) plain (replicate ((n + 1) * 8) 0))"

lemma extract_gtk_wrapped:
  assumes "wraps s m3 n plain"
  shows "extract_gtk s m3 (unat (be16 m3 OFF_KDLEN)) ks =
    (case find_gtk_kde plain of
       None \<Rightarrow> None
     | Some None \<Rightarrow> Some ks
     | Some (Some g) \<Rightarrow> Some (ks\<lparr>k_gtk := blit (k_gtk ks) 0 g, k_gtk_len := length g\<rparr>))"
proof -
  note w = assms [unfolded wraps_def]
  have l: "n \<le> 32" "n * 8 \<le> length (replicate (n * 8) (0 :: 8 word))"
    "(n + 1) * 8 \<le> length (replicate ((n + 1) * 8) (0 :: 8 word))" using w by simp_all
  have lp: "length plain = n * 8" "0 < n" using w by simp_all
  note kw = key_unwrap_wrap_value [OF lp l(1,3,2), of "slice (s_ptk s) 16 32"]
  have b: "blit (replicate (n * 8) 0) 0 plain = plain" using w by (simp add: blit_def)
  have sl: "slice m3 OFF_KDATA (OFF_KDATA + (n + 1) * 8) =
      take ((n + 1) * 8) (snd (key_wrap (slice (s_ptk s) 16 32) plain (replicate ((n + 1) * 8) 0)))"
    using w by (simp add: slice_def)
  have kd: "unat (be16 m3 OFF_KDLEN) = (n + 1) * 8" using w by simp
  have g: "16 \<le> (n + 1) * 8" "(n + 1) * 8 mod 8 = 0" "(n + 1) * 8 - 8 = n * 8" "\<not> 64 < n * 8"
    using w by simp_all
  show ?thesis
    unfolding extract_gtk_def kd g Let_def sl kw [THEN conjunct2] b
    using w g(1,4) by simp
qed

lemma on_message3_accept:
  assumes v: "verify_message3 s m3" and len: "OFF_KDATA + unat (be16 m3 OFF_KDLEN) \<le> length m3"
    and ex: "extract_gtk s m3 (unat (be16 m3 OFF_KDLEN)) \<lparr>k_ptk = s_ptk s, k_gtk = replicate 32 0, k_gtk_len = 0\<rparr> = Some ks"
    and out: "FRAME_FIXED \<le> length out"
  shows "\<exists>out'. on_message3 s m3 out = Some (out', Some (FRAME_FIXED, ks)) \<and> length out' = length out \<and>
    frame_mic_ok (slice (s_ptk s) 0 16) (take FRAME_FIXED out')"
proof -
  define o1 where "o1 = reply_head out FRAME_FIXED m3 ((be16 m3 OFF_KEYINFO AND 7) OR KI_KEY_MIC OR KI_SECURE)"
  define o2 where "o2 = wbe16 o1 OFF_KDLEN 0"
  have m: "FRAME_FIXED \<le> length m3" using v by (simp add: verify_message3_iff)
  have l: "length o2 = length out" using out m by (simp add: o2_def o1_def)
  have "slice o1 OFF_MIC (OFF_MIC + 16) = replicate 16 0"
    unfolding o1_def using out m by (intro reply_head_zero) simp_all
  then have z: "slice o2 OFF_MIC (OFF_MIC + 16) = replicate 16 0"
    by (simp add: o2_def slice_wbe16_other offsets)
  have "on_message3 s m3 out = Some (blit o2 OFF_MIC (key_mic (slice (s_ptk s) 0 16) (take FRAME_FIXED o2)),
      Some (FRAME_FIXED, ks))"
    unfolding on_message3_def Let_def ex o1_def [symmetric] o2_def [symmetric] using v len out by simp
  moreover have "OFF_MIC + 16 \<le> FRAME_FIXED" by (simp add: offsets)
  ultimately show ?thesis using mic_written [OF z _ , of FRAME_FIXED] l out by auto
qed

text \<open>A message 3 as an access point builds it, for the instances below: header, key information,
  wrapped data of 24 plain bytes, MIC.\<close>

definition sample_supplicant :: supplicant where
  "sample_supplicant = derive_ptk (supplicant_new (replicate 32 1) (replicate 6 2) (replicate 6 3) (replicate 32 4))
     (replicate 32 5)"

definition sample_core :: "bytes \<Rightarrow> bytes" where
  "sample_core plain = replicate 5 0 @ [0x13, 0xca] @ replicate 90 0 @ [0, 32] @
     snd (key_wrap (slice (s_ptk sample_supplicant) 16 32) plain (replicate 32 0))"

definition sample_m3 :: "bytes \<Rightarrow> bytes" where
  "sample_m3 plain = blit (sample_core plain) OFF_MIC
     (key_mic (slice (s_ptk sample_supplicant) 0 16) (sample_core plain))"

lemma length_sample_wrap:
  assumes "length plain = 24"
  shows "length (snd (key_wrap kek plain (replicate 32 0))) = 32"
proof -
  obtain a r where ar: "foldl (wrap_step (aes_new kek) 3) (WRAP_IV, load_blocks plain 0 3) (wrap_order 3) = (a, r)"
    by force
  have lp: "length plain = 3 * 8" "(0::nat) < 3" "(3::nat) \<le> 32" "(3 + 1) * 8 \<le> length (replicate 32 (0 :: 8 word))"
    using assms by simp_all
  note wrap = key_wrap_unfold [OF lp ar]
  have r: "\<forall>b \<in> set r. length b = 8" "length r = 32" "length a = 8" using wrap(1) by (auto simp: wrap_ok_def)
  have c: "length (concat (take 3 r)) = 24"
    using length_concat_uniform [of "take 3 r" 8] r by (auto dest: in_set_takeD)
  show ?thesis using wrap(2) c r(3) by (simp add: blit_def)
qed

lemma sample_m3_wraps:
  assumes "length plain = 24"
  shows "wraps sample_supplicant (sample_m3 plain) 3 plain"
    "frame_mic_ok (slice (s_ptk sample_supplicant) 0 16) (sample_m3 plain)"
    "length (sample_m3 plain) = 131" "s_have_ptk sample_supplicant"
proof -
  note lw = length_sample_wrap [OF assms, of "slice (s_ptk sample_supplicant) 16 32"]
  have lc: "length (sample_core plain) = 131" using lw by (simp add: sample_core_def)
  show lm: "length (sample_m3 plain) = 131" using lc by (simp add: sample_m3_def offsets)
  have z: "slice (sample_core plain) OFF_MIC (OFF_MIC + 16) = replicate 16 0"
    by (simp add: sample_core_def offsets slice_def)
  show "frame_mic_ok (slice (s_ptk sample_supplicant) 0 16) (sample_m3 plain)"
    using mic_written [OF z, of 131 "slice (s_ptk sample_supplicant) 0 16"] lc
    by (simp add: sample_m3_def offsets)
  have d: "drop OFF_KDATA (sample_m3 plain) = snd (key_wrap (slice (s_ptk sample_supplicant) 16 32) plain (replicate 32 0))"
    by (simp add: sample_m3_def sample_core_def blit_def offsets)
  have k: "sample_m3 plain ! 5 = 0x13" "sample_m3 plain ! 6 = 0xca" "sample_m3 plain ! 97 = 0" "sample_m3 plain ! 98 = 32"
    using lc by (simp_all add: sample_m3_def nth_blit offsets) (simp_all add: sample_core_def nth_append)
  have b: "be16 (sample_m3 plain) OFF_KEYINFO AND KI_ENCRYPTED \<noteq> 0" "unat (be16 (sample_m3 plain) OFF_KDLEN) = 32"
    using k by (simp_all add: be16_def offsets KI_ENCRYPTED_def)
  show "wraps sample_supplicant (sample_m3 plain) 3 plain"
    using lm d b assms by (simp add: wraps_def FRAME_FIXED_def OFF_KDATA_def HDR_def)
  show "s_have_ptk sample_supplicant" by (simp add: sample_supplicant_def derive_ptk_def)
qed

lemma on_message3_reject:
  "\<not> (s_have_ptk s \<and> frame_mic_ok (slice (s_ptk s) 0 16) m3) \<Longrightarrow> on_message3 s m3 out = Some (out, None)"
  by (auto simp: on_message3_def verify_message3_iff)

lemma extract_gtk_ptk: "extract_gtk s m3 n ks = Some ks' \<Longrightarrow> k_ptk ks' = k_ptk ks"
  by (auto simp: extract_gtk_def Let_def split: if_splits prod.splits option.splits)

text \<open>
  C23: The handshake completes: a message 3 of at most 256 bytes whose MIC is valid under the
  derived key, and whose key data is the key-wrapped group-key element (padded to whole blocks),
  gives the pairwise key, exactly the group key that was wrapped, and a message 4 with a valid MIC.
\<close>

theorem eapol_message3:
  assumes "s_have_ptk s" "length m3 \<le> 256" "frame_mic_ok (slice (s_ptk s) 0 16) m3"
    "length keyid = 2" "length gtk \<le> 32" "wraps s m3 n (gtk_kde keyid gtk @ pad)"
    "FRAME_FIXED \<le> length out"
  shows "\<exists>out' ks. on_message3 s m3 out = Some (out', Some (FRAME_FIXED, ks)) \<and>
    k_ptk ks = s_ptk s \<and> k_gtk_len ks = length gtk \<and> take (k_gtk_len ks) (k_gtk ks) = gtk \<and>
    frame_mic_ok (slice (s_ptk s) 0 16) (take FRAME_FIXED out')"
proof -
  note w = assms(6) [unfolded wraps_def]
  have v: "verify_message3 s m3" using assms(1-3) w by (simp add: verify_message3_iff)
  have len: "OFF_KDATA + unat (be16 m3 OFF_KDLEN) \<le> length m3" using w by (simp add: FRAME_FIXED_def)
  note ex = extract_gtk_wrapped [OF assms(6), unfolded find_gtk_kde_written [OF assms(4,5)] option.case]
  show ?thesis
    using on_message3_accept [OF v len ex assms(7)] assms(5) by (fastforce simp: blit_def)
qed

lemma eapol_message3_witness:
  "\<exists>out' ks. on_message3 sample_supplicant (sample_m3 (gtk_kde [0, 0] (replicate 16 0xcc))) (replicate 128 0) =
     Some (out', Some (FRAME_FIXED, ks)) \<and> k_gtk_len ks = 16 \<and> take 16 (k_gtk ks) = replicate 16 0xcc"
proof -
  have l: "length (gtk_kde [0, 0] (replicate 16 0xcc)) = 24" by (simp add: gtk_kde_def)
  show ?thesis
    using eapol_message3 [of sample_supplicant "sample_m3 (gtk_kde [0, 0] (replicate 16 0xcc))" "[0, 0]"
      "replicate 16 0xcc" 3 "[]" "replicate 128 0"] sample_m3_wraps [OF l]
    by (fastforce simp: offsets)
qed

text \<open>
  No key without authentication: when message 3 is answered at all, message 1 has been
  processed, the MIC of message 3 is valid under the derived key, and the pairwise key handed out
  is that derived key; otherwise nothing is written and nothing is installed.
\<close>

theorem eapol_message3_authentic:
  "(\<forall>out' r. on_message3 s m3 out = Some (out', Some r) \<longrightarrow>
      s_have_ptk s \<and> frame_mic_ok (slice (s_ptk s) 0 16) m3 \<and> fst r = FRAME_FIXED \<and> k_ptk (snd r) = s_ptk s) \<and>
   (\<not> (s_have_ptk s \<and> frame_mic_ok (slice (s_ptk s) 0 16) m3) \<longrightarrow> on_message3 s m3 out = Some (out, None))"
  by (auto simp: on_message3_reject)
    (auto simp: on_message3_def verify_message3_iff Let_def dest!: extract_gtk_ptk split: if_splits option.splits)

lemma eapol_message3_authentic_witness:
  "(\<exists>out' ks. on_message3 sample_supplicant (sample_m3 (replicate 24 0)) (replicate 128 0) =
      Some (out', Some (FRAME_FIXED, ks)) \<and> k_ptk ks = s_ptk sample_supplicant) \<and>
   on_message3 (supplicant_new [] [] [] []) (replicate 99 0) (replicate 128 0) = Some (replicate 128 0, None)"
proof -
  note m = sample_m3_wraps [of "replicate 24 0"]
  have w: "wraps sample_supplicant (sample_m3 (replicate 24 0)) 3 (replicate 24 0)" by (rule m(1)) simp
  have v: "verify_message3 sample_supplicant (sample_m3 (replicate 24 0))"
    using m by (simp add: verify_message3_iff offsets)
  have len: "OFF_KDATA + unat (be16 (sample_m3 (replicate 24 0)) OFF_KDLEN) \<le> length (sample_m3 (replicate 24 0))"
    using w by (simp add: wraps_def FRAME_FIXED_def)
  obtain out' ks where r: "on_message3 sample_supplicant (sample_m3 (replicate 24 0)) (replicate 128 0) =
      Some (out', Some (FRAME_FIXED, ks))"
    using on_message3_accept [OF v len, of _ "replicate 128 0"] extract_gtk_wrapped [OF w]
      find_gtk_kde_other [of "replicate 24 0"] by (fastforce simp: offsets)
  have "k_ptk ks = s_ptk sample_supplicant"
    using eapol_message3_authentic [THEN conjunct1, rule_format, OF r] by (simp only: snd_conv)
  moreover have "\<not> s_have_ptk (supplicant_new [] [] [] [])" by (simp add: supplicant_new_def)
  then have "on_message3 (supplicant_new [] [] [] []) (replicate 99 0) (replicate 128 0) = Some (replicate 128 0, None)"
    using eapol_message3_authentic [THEN conjunct2, of "supplicant_new [] [] [] []" "replicate 99 0" "replicate 128 0"]
    by (simp only: simp_thms)
  ultimately show ?thesis using r by blast
qed

text \<open>
  Where the scan for the group key stops short: when the wrapped key data begins with any
  element other than 0xdd (the RSN element an access point puts first) the handshake completes with
  no group key, and when it begins with a key element of four or five bytes the call aborts.
\<close>

theorem eapol_gtk_scan_limits:
  assumes "s_have_ptk s" "length m3 \<le> 256" "frame_mic_ok (slice (s_ptk s) 0 16) m3"
    "wraps s m3 n plain" "FRAME_FIXED \<le> length out"
  shows "(plain ! 0 \<noteq> 0xdd \<longrightarrow>
      (\<exists>out' ks. on_message3 s m3 out = Some (out', Some (FRAME_FIXED, ks)) \<and> k_gtk_len ks = 0)) \<and>
    (take 6 plain \<in> {[0xdd, 4, 0x00, 0x0f, 0xac, 0x01], [0xdd, 5, 0x00, 0x0f, 0xac, 0x01]} \<longrightarrow>
      on_message3 s m3 out = None)"
proof -
  note w = assms(4) [unfolded wraps_def]
  have v: "verify_message3 s m3" using assms(1-3) w by (simp add: verify_message3_iff)
  have len: "OFF_KDATA + unat (be16 m3 OFF_KDLEN) \<le> length m3" using w by (simp add: FRAME_FIXED_def)
  note ex = extract_gtk_wrapped [OF assms(4)]
  have other: "\<exists>out' ks. on_message3 s m3 out = Some (out', Some (FRAME_FIXED, ks)) \<and> k_gtk_len ks = 0"
    if "plain ! 0 \<noteq> 0xdd"
    using on_message3_accept [OF v len _ assms(5)] ex find_gtk_kde_other [OF that] by fastforce
  have short: "on_message3 s m3 out = None"
    if t: "take 6 plain = [0xdd, l, 0x00, 0x0f, 0xac, 0x01]" and l: "l = 4 \<or> l = 5" for l
  proof -
    have p: "plain = [0xdd, l, 0x00, 0x0f, 0xac, 0x01] @ drop 6 plain"
      using append_take_drop_id [of 6 plain] t by simp
    have "unat l \<le> length (drop 6 plain) + 4" using l w by auto
    then have "find_gtk_kde plain = None" using find_gtk_kde_short [OF l] p by metis
    then show ?thesis using v len ex by (simp add: on_message3_def Let_def)
  qed
  show ?thesis using other short by fastforce
qed

lemma eapol_gtk_scan_limits_witness:
  "on_message3 sample_supplicant (sample_m3 ([0xdd, 4, 0x00, 0x0f, 0xac, 0x01] @ replicate 18 0)) (replicate 128 0) = None \<and>
   (\<exists>out' ks. on_message3 sample_supplicant (sample_m3 (0x30 # 22 # replicate 22 0)) (replicate 128 0) =
     Some (out', Some (FRAME_FIXED, ks)) \<and> k_gtk_len ks = 0)"
proof -
  have l: "length ([0xdd, 4, 0x00, 0x0f, 0xac, 0x01] @ replicate 18 (0 :: 8 word)) = 24"
    "length (0x30 # 22 # replicate 22 (0 :: 8 word)) = 24" by simp_all
  have o: "FRAME_FIXED \<le> length (replicate 128 (0 :: 8 word))" by (simp add: offsets)
  show ?thesis
    using eapol_gtk_scan_limits [OF sample_m3_wraps(4) [OF l(1)] _ sample_m3_wraps(2,1) [OF l(1)] o]
      eapol_gtk_scan_limits [OF sample_m3_wraps(4) [OF l(2)] _ sample_m3_wraps(2,1) [OF l(2)] o]
      sample_m3_wraps(3) [OF l(1)] sample_m3_wraps(3) [OF l(2)]
    by simp
qed

end
