(* ===== verification/P256.thy ===== *)
theory P256
  imports Bignum_Exp
begin

text \<open>
  The P-256 arithmetic and ECDSA verification of kernel/src/p256.rs. As in \<open>Bignum\<close>, a 256-bit
  number is a little-endian list of four 64-bit limbs held as natural numbers; \<open>u128\<close> and
  \<open>i128\<close> intermediates are natural numbers and integers with the casts back to \<open>u64\<close> written out,
  and the \<open>i64\<close> accumulators of the reduction are integers (they stay below $2^{40}$ in
  magnitude).
\<close>

section \<open>Constants\<close>

definition P256_P :: "nat list" where
  "P256_P = [0xFFFFFFFFFFFFFFFF, 0x00000000FFFFFFFF, 0x0000000000000000, 0xFFFFFFFF00000001]"

definition P256_N :: "nat list" where
  "P256_N = [0xF3B9CAC2FC632551, 0xBCE6FAADA7179E84, 0xFFFFFFFFFFFFFFFF, 0xFFFFFFFF00000000]"

definition P256_GX :: "nat list" where
  "P256_GX = [0xF4A13945D898C296, 0x77037D812DEB33A0, 0xF8BCE6E563A440F2, 0x6B17D1F2E12C4247]"

definition P256_GY :: "nat list" where
  "P256_GY = [0xCBB6406837BF51F5, 0x2BCE33576B315ECE, 0x8EE7EB4A7C0F9E16, 0x4FE342E2FE1A7F9B]"

section \<open>256-bit integers\<close>

definition is_zero :: "nat list \<Rightarrow> bool" where
  "is_zero a \<longleftrightarrow> a ! 0 = 0 \<and> a ! 1 = 0 \<and> a ! 2 = 0 \<and> a ! 3 = 0"

fun lt_from :: "nat list \<Rightarrow> nat list \<Rightarrow> nat \<Rightarrow> bool" where
  "lt_from a b 0 = False"
| "lt_from a b (Suc i) = (if a ! i < b ! i then True else if b ! i < a ! i then False else lt_from a b i)"

definition lt256 :: "nat list \<Rightarrow> nat list \<Rightarrow> bool" where
  "lt256 a b = lt_from a b 4"

fun add_loop :: "nat list \<Rightarrow> nat list \<Rightarrow> nat \<Rightarrow> nat list \<times> nat" where
  "add_loop (x # xs) (y # ys) c =
     (let s = x + y + c; (r, c') = add_loop xs ys (s div LIMB) in (s mod LIMB # r, c'))"
| "add_loop xs ys c = ([], c)"

definition add256c :: "nat list \<Rightarrow> nat list \<Rightarrow> nat list \<times> bool" where
  "add256c a b = (let (r, c) = add_loop a b 0 in (r, c \<noteq> 0))"

fun subb_loop :: "nat list \<Rightarrow> nat list \<Rightarrow> int \<Rightarrow> nat list \<times> int" where
  "subb_loop (x # xs) (y # ys) borrow =
     (let d = int x - int y - borrow; (r, b') = subb_loop xs ys (if d < 0 then 1 else 0)
      in (nat (d mod int LIMB) # r, b'))"
| "subb_loop xs ys borrow = ([], borrow)"

definition sub256b :: "nat list \<Rightarrow> nat list \<Rightarrow> nat list \<times> bool" where
  "sub256b a b = (let (r, borrow) = subb_loop a b 0 in (r, borrow \<noteq> 0))"

definition cond_sub :: "nat list \<Rightarrow> nat list \<Rightarrow> nat list" where
  "cond_sub a m = (let (r, borrow) = sub256b a m in if borrow then a else r)"

section \<open>Field arithmetic\<close>

definition fp_add :: "nat list \<Rightarrow> nat list \<Rightarrow> nat list" where
  "fp_add a b =
     (let (r, carry) = add256c a b;
          r = (if carry then fst (sub256b r P256_P) else r)
      in cond_sub r P256_P)"

definition fp_sub :: "nat list \<Rightarrow> nat list \<Rightarrow> nat list" where
  "fp_sub a b = (let (r, borrow) = sub256b a b in if borrow then fst (add256c r P256_P) else r)"

definition fp_neg :: "nat list \<Rightarrow> nat list" where
  "fp_neg a = (if is_zero a then a else fp_sub P256_P a)"

definition mul512_row :: "nat list \<Rightarrow> nat list \<Rightarrow> nat list \<Rightarrow> nat \<Rightarrow> nat list" where
  "mul512_row a b r i =
     (let (lo, carry) = mac_loop (a ! i) (slice r i (i + 4)) b 0
      in (blit r i lo)[i + 4 := carry mod LIMB])"

definition mul512 :: "nat list \<Rightarrow> nat list \<Rightarrow> nat list" where
  "mul512 a b = foldl (mul512_row a b) (replicate 8 0) [0..<4]"

text \<open>\<open>acc[i] += k * w[j] as i64\<close> for the entries \<open>(i, k, j)\<close> of a list, in the order of the code.\<close>

definition acc_add :: "nat list \<Rightarrow> int list \<Rightarrow> (nat \<times> int \<times> nat) list \<Rightarrow> int list" where
  "acc_add w acc us = foldl (\<lambda>acc (i, k, j). acc[i := acc ! i + k * int (w ! j)]) acc us"

definition reduce_terms :: "(nat \<times> int \<times> nat) list" where
  "reduce_terms =
     map (\<lambda>i. (i, 1, i)) [0..<8] @
     [(3, 2, 11), (4, 2, 12), (5, 2, 13), (6, 2, 14), (7, 2, 15)] @
     [(4, 2, 12), (5, 2, 13), (6, 2, 14), (7, 2, 15)] @
     [(0, 1, 8), (1, 1, 9), (2, 1, 10), (6, 1, 14), (7, 1, 15)] @
     [(0, 1, 9), (1, 1, 10), (2, 1, 11), (3, 1, 13), (4, 1, 14), (5, 1, 15), (6, 1, 13), (7, 1, 8)] @
     [(0, -1, 11), (1, -1, 12), (2, -1, 13), (6, -1, 8), (7, -1, 10)] @
     [(0, -1, 12), (1, -1, 13), (2, -1, 14), (3, -1, 15), (6, -1, 9), (7, -1, 11)] @
     [(0, -1, 13), (1, -1, 14), (2, -1, 15), (3, -1, 8), (4, -1, 9), (5, -1, 10), (7, -1, 12)] @
     [(0, -1, 14), (1, -1, 15), (3, -1, 9), (4, -1, 10), (5, -1, 11), (7, -1, 13)]"

definition carry_pass :: "int list \<Rightarrow> int list" where
  "carry_pass acc =
     foldl (\<lambda>acc i. let acc1 = acc[i + 1 := acc ! (i + 1) + acc ! i div 2 ^ 32]
                    in acc1[i := acc1 ! i mod 2 ^ 32]) acc [0..<8]"

text \<open>
  The ninth accumulator is computed and not used: the block of the source that should fold it in
  only builds two unused locals.
\<close>

definition reduce_p256 :: "nat list \<Rightarrow> nat list" where
  "reduce_p256 c =
     (let w = concat (map (\<lambda>i. [c ! i mod 2 ^ 32, c ! i div 2 ^ 32]) [0..<8]);
          acc = acc_add w (replicate 9 0) reduce_terms;
          acc = carry_pass (carry_pass acc);
          r = map (\<lambda>i. or (nat (acc ! (2 * i))) (push_bit 32 (nat (acc ! (2 * i + 1))))) [0..<4]
      in ((\<lambda>r. cond_sub r P256_P) ^^ 4) r)"

definition fp_mul :: "nat list \<Rightarrow> nat list \<Rightarrow> nat list" where
  "fp_mul a b = reduce_p256 (mul512 a b)"

definition fp_sqr :: "nat list \<Rightarrow> nat list" where
  "fp_sqr a = fp_mul a a"

text \<open>Square-and-multiply over the 64 bits of each limb, least significant first.\<close>

definition pow_step :: "(nat list \<Rightarrow> nat list \<Rightarrow> nat list) \<Rightarrow> nat list \<times> nat list \<Rightarrow> bool \<Rightarrow> nat list \<times> nat list" where
  "pow_step mul st b = (let (r, base) = st in (if b then mul r base else r, mul base base))"

definition limb_bits :: "nat \<Rightarrow> bool list" where
  "limb_bits l = map (\<lambda>i. odd (l div 2 ^ i)) [0..<64]"

definition fp_inv :: "nat list \<Rightarrow> nat list" where
  "fp_inv a =
     (let pm2 = [0xFFFFFFFFFFFFFFFD, 0x00000000FFFFFFFF, 0x0000000000000000, 0xFFFFFFFF00000001]
      in fst (foldl (pow_step fp_mul) ([1, 0, 0, 0], a) (concat (map limb_bits pm2))))"

section \<open>Scalar arithmetic\<close>

definition fn_add :: "nat list \<Rightarrow> nat list \<Rightarrow> nat list" where
  "fn_add a b =
     (let (r, carry) = add256c a b;
          r = (if carry then fst (sub256b r P256_N) else r)
      in cond_sub r P256_N)"

definition fn_sub :: "nat list \<Rightarrow> nat list \<Rightarrow> nat list" where
  "fn_sub a b = (let (r, borrow) = sub256b a b in if borrow then fst (add256c r P256_N) else r)"

definition shr1 :: "nat list \<Rightarrow> nat list" where
  "shr1 b = fst (foldl (\<lambda>(b, carry) i.
     (b[i := or (b ! i div 2) (push_bit 63 carry)], b ! i mod 2)) (b, 0) (rev [0..<4]))"

definition shl1 :: "nat list \<Rightarrow> nat list" where
  "shl1 a =
     (let a1 = foldl (\<lambda>a i. a[i := or (push_bit 1 (a ! i) mod LIMB) (a ! (i - 1) div 2 ^ 63)]) a (rev [1..<4])
      in a1[0 := push_bit 1 (a1 ! 0) mod LIMB])"

definition fn_mul_step :: "nat list \<times> nat list \<times> nat list \<Rightarrow> nat list \<times> nat list \<times> nat list" where
  "fn_mul_step st =
     (let (r, a2, b2) = st;
          r = (if odd (b2 ! 0) then fn_add r a2 else r);
          b2 = shr1 b2;
          top = a2 ! 3 div 2 ^ 63;
          a2 = shl1 a2;
          a2 = (if top \<noteq> 0 then fn_sub a2 P256_N else a2)
      in (r, cond_sub a2 P256_N, b2))"

definition fn_mul :: "nat list \<Rightarrow> nat list \<Rightarrow> nat list" where
  "fn_mul a b = fst ((fn_mul_step ^^ 256) ([0, 0, 0, 0], a, b))"

definition fn_inv :: "nat list \<Rightarrow> nat list" where
  "fn_inv a =
     (let nm2 = [0xF3B9CAC2FC63254F, 0xBCE6FAADA7179E84, 0xFFFFFFFFFFFFFFFF, 0xFFFFFFFF00000000]
      in fst (foldl (pow_step fn_mul) ([1, 0, 0, 0], a) (concat (map limb_bits nm2))))"

section \<open>Points in Jacobian coordinates\<close>

type_synonym jac = "nat list \<times> nat list \<times> nat list"

fun jac_double :: "jac \<Rightarrow> jac" where
  "jac_double (px, py, pz) =
     (if is_zero pz then (px, py, pz)
      else let y2 = fp_sqr py;
               s = fp_mul (fp_mul [4, 0, 0, 0] px) y2;
               x2 = fp_sqr px;
               z4 = fp_sqr (fp_sqr pz);
               m = fp_mul [3, 0, 0, 0] (fp_sub x2 z4);
               x3 = fp_sub (fp_sqr m) (fp_add s s);
               y3 = fp_sub (fp_mul m (fp_sub s x3)) (fp_mul [8, 0, 0, 0] (fp_sqr y2));
               z3 = fp_mul (fp_mul [2, 0, 0, 0] py) pz
           in (x3, y3, z3))"

fun jac_add :: "jac \<Rightarrow> jac \<Rightarrow> jac" where
  "jac_add (ax, ay, az) (bx, by', bz) =
     (if is_zero az then (bx, by', bz)
      else if is_zero bz then (ax, ay, az)
      else let z1sq = fp_sqr az;
               z2sq = fp_sqr bz;
               u1 = fp_mul ax z2sq;
               u2 = fp_mul bx z1sq;
               s1 = fp_mul ay (fp_mul bz z2sq);
               s2 = fp_mul by' (fp_mul az z1sq);
               h = fp_sub u2 u1;
               r = fp_sub s2 s1
           in if is_zero h then
                if is_zero r then jac_double (ax, ay, az)
                else ([0, 0, 0, 0], [0, 0, 0, 0], [0, 0, 0, 0])
              else let h2 = fp_sqr h;
                       h3 = fp_mul h h2;
                       uh2 = fp_mul u1 h2;
                       x3 = fp_sub (fp_sub (fp_sqr r) h3) (fp_add uh2 uh2);
                       y3 = fp_sub (fp_mul r (fp_sub uh2 x3)) (fp_mul s1 h3);
                       z3 = fp_mul (fp_mul h az) bz
                   in (x3, y3, z3))"

fun jac_to_affine :: "jac \<Rightarrow> (nat list \<times> nat list) option" where
  "jac_to_affine (x, y, z) =
     (if is_zero z then None
      else let zi = fp_inv z;
               zi2 = fp_sqr zi;
               zi3 = fp_mul zi zi2
           in Some (fp_mul x zi2, fp_mul y zi3))"

definition scalar_step :: "nat list \<Rightarrow> nat list \<Rightarrow> jac \<Rightarrow> bool \<Rightarrow> jac" where
  "scalar_step px py st b =
     (let st = jac_double st in if b then jac_add st (px, py, [1, 0, 0, 0]) else st)"

definition scalar_mul :: "nat list \<Rightarrow> nat list \<Rightarrow> nat list \<Rightarrow> (nat list \<times> nat list) option" where
  "scalar_mul k px py =
     jac_to_affine (foldl (scalar_step px py) ([0, 0, 0, 0], [0, 0, 0, 0], [0, 0, 0, 0])
       (concat (map (\<lambda>i. rev (limb_bits (k ! i))) (rev [0..<4]))))"

section \<open>Signature verification\<close>

text \<open>\<open>v = (v << 8) | b[src]\<close> over the bytes of limb \<open>3 - i\<close>; positions before the string are skipped.\<close>

definition be32_limb :: "bytes \<Rightarrow> nat \<Rightarrow> nat" where
  "be32_limb b i = foldl (\<lambda>v j.
     let src = int (length b) - 32 + int (i * 8 + j)
     in if 0 \<le> src \<and> nat src < length b then or (push_bit 8 v mod LIMB) (unat (b ! nat src)) else v) 0 [0..<8]"

definition from_be32 :: "bytes \<Rightarrow> nat list" where
  "from_be32 b = foldl (\<lambda>r i. r[3 - i := be32_limb b i]) [0, 0, 0, 0] [0..<4]"

definition strip_zeros :: "bytes \<Rightarrow> bytes" where
  "strip_zeros b = (case position (\<lambda>x. x \<noteq> 0) b of Some s \<Rightarrow> drop s b | None \<Rightarrow> drop (length b) b)"

definition p256_verify :: "bytes \<Rightarrow> bytes \<Rightarrow> bytes \<Rightarrow> bytes \<Rightarrow> bytes \<Rightarrow> bool" where
  "p256_verify pub_x pub_y hash r_bytes s_bytes =
     (let r_bytes = strip_zeros r_bytes; s_bytes = strip_zeros s_bytes
      in if r_bytes = [] \<or> s_bytes = [] then False
         else if 32 < length r_bytes \<or> 32 < length s_bytes then False
         else let r = from_be32 r_bytes; s = from_be32 s_bytes; e = from_be32 hash;
                  qx = from_be32 pub_x; qy = from_be32 pub_y
              in if is_zero r \<or> is_zero s then False
                 else if \<not> lt256 r P256_N \<or> \<not> lt256 s P256_N then False
                 else let w = fn_inv s; u1 = fn_mul e w; u2 = fn_mul r w
                      in case scalar_mul u1 P256_GX P256_GY of
                           None \<Rightarrow> False
                         | Some (g1x, g1y) \<Rightarrow>
                             (case scalar_mul u2 qx qy of
                                None \<Rightarrow> False
                              | Some (q1x, q1y) \<Rightarrow>
                                  (case jac_to_affine (jac_add (g1x, g1y, [1, 0, 0, 0]) (q1x, q1y, [1, 0, 0, 0])) of
                                     None \<Rightarrow> False
                                   | Some (ax, ay) \<Rightarrow> cond_sub ax P256_N = r \<or> ax = r)))"

end
