(* ===== verification/P256_Props.thy ===== *)
theory P256_Props
  imports P256
begin

text \<open>
  What holds of the P-256 code and what does not: the 256-bit additions, subtractions and the
  512-bit product are exact, addition, subtraction and negation modulo the prime are correct, and
  the parser and the range checks of \<open>verify\<close> do what they say; but the fast reduction and the
  scalar product are wrong, as concrete evaluations show.
\<close>

section \<open>Exact arithmetic\<close>

definition limb4 :: "nat list \<Rightarrow> bool" where
  "limb4 a \<longleftrightarrow> length a = 4 \<and> limbs_ok a"

lemma add_loop_correct:
  assumes "length xs = length ys" "limbs_ok xs" "limbs_ok ys" "c \<le> 1"
  shows "case add_loop xs ys c of (r, c') \<Rightarrow> length r = length xs \<and> limbs_ok r \<and> c' \<le> 1 \<and>
    limbs_val r + LIMB ^ length xs * c' = limbs_val xs + limbs_val ys + c"
  using assms
proof (induction xs ys arbitrary: c rule: list_induct2)
  case (Cons x xs y ys)
  define s where "s = x + y + c"
  have "s < 2 * LIMB" using Cons.prems by (simp add: s_def)
  then have "s div LIMB < 2" by (simp add: div_less_iff_less_mult)
  then have c: "s div LIMB \<le> 1" by simp
  obtain r c' where r: "add_loop xs ys (s div LIMB) = (r, c')" by fastforce
  have IH: "limbs_val r + LIMB ^ length xs * c' = limbs_val xs + limbs_val ys + s div LIMB"
    "length r = length xs" "limbs_ok r" "c' \<le> 1"
    using Cons.IH [OF _ _ c] Cons.prems by (simp_all add: r)
  have "s mod LIMB + LIMB * (s div LIMB) = s" by simp
  then have "s mod LIMB + LIMB * (limbs_val r + LIMB ^ length xs * c') = s + LIMB * (limbs_val xs + limbs_val ys)"
    unfolding IH(1) by (simp add: distrib_left)
  moreover have "add_loop (x # xs) (y # ys) c = (s mod LIMB # r, c')"
    by (simp add: Let_def s_def [symmetric] r)
  ultimately show ?case using IH by (simp add: s_def algebra_simps)
qed simp

lemma add256c_correct:
  assumes "limb4 a" "limb4 b" "add256c a b = (r, c)"
  shows "limb4 r" "limbs_val r + (if c then LIMB ^ 4 else 0) = limbs_val a + limbs_val b"
proof -
  obtain r' c' where l: "add_loop a b 0 = (r', c')" by fastforce
  have *: "length r' = length a" "limbs_ok r'" "c' \<le> 1" "limbs_val r' + LIMB ^ length a * c' = limbs_val a + limbs_val b"
    using add_loop_correct [of a b 0] assms(1,2) by (auto simp: l limb4_def)
  have "r' = r" "c \<longleftrightarrow> c' = 1" using assms(3) l *(3) by (auto simp: add256c_def)
  then show "limb4 r" "limbs_val r + (if c then LIMB ^ 4 else 0) = limbs_val a + limbs_val b"
    using * assms(1) by (auto simp: limb4_def le_Suc_eq)
qed

lemma subb_loop_correct:
  assumes "length xs = length ys" "limbs_ok xs" "limbs_ok ys" "bw = 0 \<or> bw = 1"
  shows "case subb_loop xs ys bw of (r, b') \<Rightarrow> length r = length xs \<and> limbs_ok r \<and> (b' = 0 \<or> b' = 1) \<and>
    int (limbs_val r) = int (limbs_val xs) - int (limbs_val ys) - bw + int LIMB ^ length xs * b'"
  using assms
proof (induction xs ys arbitrary: bw rule: list_induct2)
  case (Cons x xs y ys)
  define d where "d = int x - int y - bw"
  define b1 where "b1 = (if d < 0 then 1 else 0 :: int)"
  have d: "- int LIMB \<le> d" "d < int LIMB" using Cons.prems by (auto simp: d_def)
  have md: "d mod int LIMB = d + int LIMB * b1"
  proof (cases "d < 0")
    case True
    have "(d + int LIMB) mod int LIMB = d + int LIMB"
      using d True by (intro mod_pos_pos_trivial) auto
    then show ?thesis using True by (simp add: b1_def)
  qed (use d in \<open>simp add: b1_def\<close>)
  obtain r b' where r: "subb_loop xs ys b1 = (r, b')" by fastforce
  have b1: "b1 = 0 \<or> b1 = 1" by (simp add: b1_def)
  have IH: "int (limbs_val r) = int (limbs_val xs) - int (limbs_val ys) - b1 + int LIMB ^ length xs * b'"
    "length r = length xs" "limbs_ok r" "b' = 0 \<or> b' = 1"
    using Cons.IH [OF _ _ b1] Cons.prems by (simp_all add: r)
  have nn: "0 \<le> d + int LIMB * b1" "d + int LIMB * b1 < int LIMB"
    using pos_mod_bound [of "int LIMB" d] pos_mod_sign [of "int LIMB" d] md by simp_all
  then have lt: "nat (d + int LIMB * b1) < LIMB" by (simp add: nat_less_iff)
  have "subb_loop (x # xs) (y # ys) bw = (nat (d + int LIMB * b1) # r, b')"
    using md r by (simp add: Let_def d_def [symmetric] b1_def)
  moreover have "d + int LIMB * b1 + int LIMB * int (limbs_val r) = d + int LIMB * (int (limbs_val xs) -
      int (limbs_val ys) + int LIMB ^ length xs * b')"
    unfolding IH(1) by (simp add: algebra_simps)
  ultimately show ?case using IH(2-4) lt nn(1) by (simp add: d_def algebra_simps)
qed simp

lemma sub256b_correct:
  assumes "limb4 a" "limb4 b" "sub256b a b = (r, c)"
  shows "limb4 r" "c \<longleftrightarrow> limbs_val a < limbs_val b"
    "limbs_val r + limbs_val b = limbs_val a + (if c then LIMB ^ 4 else 0)"
proof -
  obtain r' b' where l: "subb_loop a b 0 = (r', b')" by fastforce
  have *: "length r' = 4" "limbs_ok r'" "b' = 0 \<or> b' = 1"
     "int (limbs_val r') = int (limbs_val a) - int (limbs_val b) + int LIMB ^ 4 * b'"
    using subb_loop_correct [of a b 0] assms(1,2) by (auto simp: l limb4_def)
  have r: "r' = r" "c \<longleftrightarrow> b' = 1" using assms(3) l *(3) by (auto simp: sub256b_def)
  then show "limb4 r" using * by (simp add: limb4_def)
  have "int (limbs_val r + limbs_val b) = int (limbs_val a + (if c then LIMB ^ 4 else 0))"
    using *(3,4) r by auto
  then show v: "limbs_val r + limbs_val b = limbs_val a + (if c then LIMB ^ 4 else 0)"
    by (simp only: of_nat_eq_iff)
  have "limbs_val r < LIMB ^ 4" using limbs_val_lt [of r] \<open>limb4 r\<close> by (simp add: limb4_def)
  then show "c \<longleftrightarrow> limbs_val a < limbs_val b" using v by (auto split: if_splits)
qed

lemma cond_sub_correct:
  assumes "limb4 a" "limb4 m"
  shows "limb4 (cond_sub a m)"
    "limbs_val (cond_sub a m) = (if limbs_val a < limbs_val m then limbs_val a else limbs_val a - limbs_val m)"
proof -
  obtain r c where s: "sub256b a m = (r, c)" by fastforce
  note * = sub256b_correct [OF assms s]
  show "limb4 (cond_sub a m)" using * assms by (simp add: cond_sub_def s)
  show "limbs_val (cond_sub a m) = (if limbs_val a < limbs_val m then limbs_val a else limbs_val a - limbs_val m)"
    using *(2,3) by (auto simp: cond_sub_def s)
qed

section \<open>Modular addition and subtraction\<close>

lemma limb4_consts [simp]: "limb4 P256_P" "limb4 P256_N"
  by (simp_all add: limb4_def P256_P_def P256_N_def LIMB_def)

text \<open>The two-step reduction of a sum, for any modulus of 256 bits.\<close>

lemma add_mod_correct:
  assumes "limb4 a" "limb4 b" "limb4 m" "limbs_val a < limbs_val m" "limbs_val b < limbs_val m"
    "add256c a b = (r, carry)"
  defines "res \<equiv> cond_sub (if carry then fst (sub256b r m) else r) m"
  shows "limb4 res" "limbs_val res = (limbs_val a + limbs_val b) mod limbs_val m"
proof -
  obtain r2 c2 where s: "sub256b r m = (r2, c2)" by fastforce
  have m: "limbs_val m < LIMB ^ 4" using limbs_val_lt [of m] assms(3) by (simp add: limb4_def)
  note r = add256c_correct [OF assms(1,2,6)]
  note r2 = sub256b_correct [OF r(1) assms(3) s]
  define t where "t = (if carry then r2 else r)"
  have t: "limb4 t" using r r2 by (simp add: t_def)
  have v: "limbs_val t = (if carry then limbs_val a + limbs_val b - limbs_val m else limbs_val a + limbs_val b)"
  proof (cases carry)
    case True
    then have "limbs_val r < limbs_val m" using r(2) assms(4,5) m by auto
    then show ?thesis using r2(2,3) r(2) True by (auto simp: t_def)
  qed (use r(2) in \<open>simp add: t_def\<close>)
  have res: "res = cond_sub t m" by (simp add: res_def t_def s)
  show "limb4 res" using cond_sub_correct [OF t assms(3)] by (simp add: res)
  have sum: "(limbs_val a + limbs_val b) mod limbs_val m =
      (if limbs_val a + limbs_val b < limbs_val m then limbs_val a + limbs_val b
       else limbs_val a + limbs_val b - limbs_val m)"
    using assms(4,5) by (simp add: mod_if)
  have "carry \<Longrightarrow> limbs_val m \<le> limbs_val a + limbs_val b" using r(2) m by simp
  then show "limbs_val res = (limbs_val a + limbs_val b) mod limbs_val m"
    unfolding res cond_sub_correct(2) [OF t assms(3)] v sum using assms(4,5) by auto
qed

lemma sub_mod_correct:
  assumes "limb4 a" "limb4 b" "limb4 m" "limbs_val a < limbs_val m" "limbs_val b \<le> limbs_val m"
    "sub256b a b = (r, borrow)"
  defines "res \<equiv> (if borrow then fst (add256c r m) else r)"
  shows "limb4 res" "limbs_val res = (limbs_val a + (limbs_val m - limbs_val b)) mod limbs_val m"
proof -
  obtain r2 c2 where s: "add256c r m = (r2, c2)" by fastforce
  have m: "limbs_val m < LIMB ^ 4" using limbs_val_lt [of m] assms(3) by (simp add: limb4_def)
  note r = sub256b_correct [OF assms(1,2,6)]
  note r2 = add256c_correct [OF r(1) assms(3) s]
  have l2: "limbs_val r2 < LIMB ^ 4" using limbs_val_lt [of r2] r2(1) by (simp add: limb4_def)
  show "limb4 res" using r r2 by (simp add: res_def s)
  show "limbs_val res = (limbs_val a + (limbs_val m - limbs_val b)) mod limbs_val m"
  proof (cases borrow)
    case True
    then have lt: "limbs_val a < limbs_val b" using r(2) by simp
    have "limbs_val r2 = limbs_val a + (limbs_val m - limbs_val b)"
      using r(3) r2(2) True lt assms(5) l2 m by (auto split: if_splits)
    then show ?thesis using lt assms(4,5) True by (simp add: res_def s)
  next
    case False
    then have "limbs_val b \<le> limbs_val a" using r(2) by simp
    then have "limbs_val a + (limbs_val m - limbs_val b) = (limbs_val a - limbs_val b) + limbs_val m"
      using assms(5) by simp
    then have "(limbs_val a + (limbs_val m - limbs_val b)) mod limbs_val m = limbs_val a - limbs_val b"
      using assms(4) by (simp only: mod_add_self2) simp
    then show ?thesis using False r(3) by (simp add: res_def)
  qed
qed

text \<open>
  Field addition, subtraction and negation modulo the P-256 prime are correct on reduced
  operands: the results are reduced, well-formed limbs of the sum, the difference and the
  negative, whatever carries and borrows occur.
\<close>

theorem fp_add_sub_correct:
  assumes "limb4 a" "limb4 b" "limbs_val a < limbs_val P256_P" "limbs_val b < limbs_val P256_P"
  shows "limbs_val (fp_add a b) = (limbs_val a + limbs_val b) mod limbs_val P256_P \<and>
    limbs_val (fp_sub a b) = (limbs_val a + (limbs_val P256_P - limbs_val b)) mod limbs_val P256_P \<and>
    limb4 (fp_add a b) \<and> limb4 (fp_sub a b)"
proof -
  obtain r c where a: "add256c a b = (r, c)" by fastforce
  obtain r' c' where s: "sub256b a b = (r', c')" by fastforce
  show ?thesis
    using add_mod_correct [OF assms(1,2) limb4_consts(1) assms(3,4) a]
      sub_mod_correct [OF assms(1,2) limb4_consts(1) assms(3) less_imp_le [OF assms(4)] s]
    by (simp add: fp_add_def fp_sub_def a s)
qed

lemma fp_add_sub_correct_witness:
  "limbs_val (fp_add [0xFFFFFFFFFFFFFFFE, 0xFFFFFFFF, 0, 0xFFFFFFFF00000001] [3, 0, 0, 0]) = 2"
proof -
  have *: "limb4 [0xFFFFFFFFFFFFFFFE, 0xFFFFFFFF, 0, 0xFFFFFFFF00000001]" "limb4 [3, 0, 0, 0]"
    by (simp_all add: limb4_def LIMB_def)
  have "limbs_val [0xFFFFFFFFFFFFFFFE, 0xFFFFFFFF, 0, 0xFFFFFFFF00000001] < limbs_val P256_P"
    "limbs_val [3, 0, 0, 0] < limbs_val P256_P"
    by (simp_all add: P256_P_def LIMB_def)
  from fp_add_sub_correct [OF * this] show ?thesis by (simp add: P256_P_def LIMB_def)
qed

section \<open>The 512-bit product\<close>

lemma mul512_row_correct:
  assumes "length r = 8" "limbs_ok r" "limb4 b" "a ! i < LIMB" "i < 4" "limbs_val r < LIMB ^ (i + 4)"
  shows "length (mul512_row a b r i) = 8 \<and> limbs_ok (mul512_row a b r i) \<and>
    limbs_val (mul512_row a b r i) = limbs_val r + LIMB ^ i * (a ! i * limbs_val b)"
proof -
  define sl where "sl = slice r i (i + 4)"
  have sl: "length sl = 4" "limbs_ok sl"
    using assms(1,2,5) by (auto simp: sl_def slice_def limbs_ok_def dest!: in_set_takeD in_set_dropD)
  obtain lo c where lo: "mac_loop (a ! i) sl b 0 = (lo, c)" by fastforce
  have l: "length lo = 4" "limbs_ok lo" "c < LIMB" "limbs_val lo + LIMB ^ 4 * c = limbs_val sl + a ! i * limbs_val b"
    using mac_loop_correct [of sl b "a ! i" 0] sl assms(3,4) lo by (simp_all add: limb4_def)
  have z: "r ! (i + 4) = 0"
    using limb_bound [of r "i + 4" 0] assms(1,5,6) by simp
  have "Suc (i + 4) = i + 5" by simp
  then have d4: "drop (i + 4) r = 0 # drop (i + 5) r"
    using z assms(1,5) Cons_nth_drop_Suc [of "i + 4" r] by (metis add_less_mono1 numeral_plus_numeral semiring_norm(2,6))
  have r: "r = take i r @ sl @ 0 # drop (i + 5) r"
    unfolding sl_def slice_def d4 [symmetric]
    using append_take_drop_id [of 4 "drop i r"] by (simp add: add.commute)
  have row: "mul512_row a b r i = take i r @ lo @ c # drop (i + 5) r"
  proof -
    have "blit r i lo = take i r @ lo @ 0 # drop (i + 5) r"
      using l(1) d4 by (simp add: blit_def)
    then show ?thesis using l assms(1,5)
      by (simp add: mul512_row_def sl_def [symmetric] lo list_update_append)
  qed
  have ok: "limbs_ok (take i r)" "limbs_ok (drop (i + 5) r)"
    using assms(2) by (auto simp: limbs_ok_def dest: in_set_takeD in_set_dropD)
  define hi where "hi = limbs_val (drop (i + 5) r)"
  have len: "length (take i r) = i" using assms(1,5) by simp
  have "limbs_val (take i r @ lo @ c # drop (i + 5) r) =
      limbs_val (take i r) + LIMB ^ i * (limbs_val lo + LIMB ^ 4 * (c + LIMB * hi))"
    by (simp only: limbs_val_append len l(1) limbs_val.simps hi_def)
  also have "\<dots> = limbs_val (take i r) + LIMB ^ i * ((limbs_val lo + LIMB ^ 4 * c) + LIMB ^ 4 * (LIMB * hi))"
    by (simp only: distrib_left add.assoc)
  also have "\<dots> = limbs_val (take i r) + LIMB ^ i * (limbs_val sl + LIMB ^ 4 * (0 + LIMB * hi)) +
      LIMB ^ i * (a ! i * limbs_val b)"
    unfolding l(4) by (simp only: distrib_left add.assoc add.commute add.left_commute add_0)
  also have "limbs_val (take i r) + LIMB ^ i * (limbs_val sl + LIMB ^ 4 * (0 + LIMB * hi)) =
      limbs_val (take i r @ sl @ 0 # drop (i + 5) r)"
    by (simp only: limbs_val_append len sl(1) limbs_val.simps hi_def)
  finally have "limbs_val (mul512_row a b r i) = limbs_val r + LIMB ^ i * (a ! i * limbs_val b)"
    unfolding row by (simp only: r [symmetric])
  then show ?thesis using row ok l assms(1,5) by simp
qed

lemma mul512_correct:
  assumes "limb4 a" "limb4 b"
  shows "limbs_ok (mul512 a b)" "length (mul512 a b) = 8" "limbs_val (mul512 a b) = limbs_val a * limbs_val b"
proof -
  have b: "limbs_val b < LIMB ^ 4" using assms(2) limbs_val_lt [of b] by (simp add: limb4_def)
  have "i \<le> 4 \<Longrightarrow> (let r = foldl (mul512_row a b) (replicate 8 0) [0..<i] in
      length r = 8 \<and> limbs_ok r \<and> limbs_val r = limbs_val (take i a) * limbs_val b)" for i
  proof (induction i)
    case 0
    then show ?case by (simp add: Let_def limbs_ok_def)
  next
    case (Suc i)
    define r where "r = foldl (mul512_row a b) (replicate 8 0) [0..<i]"
    have r: "length r = 8" "limbs_ok r" "limbs_val r = limbs_val (take i a) * limbs_val b"
      using Suc by (simp_all add: r_def Let_def)
    have ok: "limbs_ok (take i a)" "a ! i < LIMB" "length (take i a) = i" "take (Suc i) a = take i a @ [a ! i]"
      using assms(1) Suc.prems by (auto simp: limb4_def limbs_ok_def take_Suc_conv_app_nth dest: in_set_takeD)
    have "limbs_val (take i a) < LIMB ^ i" using limbs_val_lt [OF ok(1)] ok(3) by simp
    then have "limbs_val r < LIMB ^ (i + 4)"
      unfolding r(3) power_add using b by (intro mult_strict_mono) auto
    from mul512_row_correct [OF r(1,2) assms(2) ok(2) _ this] Suc.prems
    show ?case using r(3) ok(3,4) by (simp add: r_def [symmetric] Let_def limbs_val_append algebra_simps)
  qed
  from this [of 4] assms(1) show "limbs_ok (mul512 a b)" "length (mul512 a b) = 8"
    "limbs_val (mul512 a b) = limbs_val a * limbs_val b"
    by (simp_all add: mul512_def Let_def limb4_def)
qed

section \<open>The fast reduction and the scalar product\<close>

text \<open>Evaluation of the fixed-size arrays.\<close>

lemma list_update_numeral: "(x # xs)[numeral v := y] = x # xs[pred_numeral v := y]"
  by (simp add: numeral_eq_Suc)

lemma replicate_numeral: "replicate (numeral v) x = x # replicate (pred_numeral v) x"
  by (simp add: numeral_eq_Suc)

lemma upt8: "[0..<8] = [0, 1, 2, 3, 4, 5, 6, 7 :: nat]"
  by (simp add: upt_rec)

lemma upt4_nat: "[0..<4] = [0, 1, 2, 3 :: nat]"
  by (simp add: upt_rec)

lemmas array_eval = list_update_numeral replicate_numeral upt8 upt_rec

lemma cond_sub_iterate:
  assumes "limb4 r" "limbs_val r < 2 * limbs_val P256_P"
  shows "limb4 (((\<lambda>r. cond_sub r P256_P) ^^ 4) r) \<and>
    limbs_val (((\<lambda>r. cond_sub r P256_P) ^^ 4) r) = limbs_val r mod limbs_val P256_P"
proof -
  define f where "f = (\<lambda>r. cond_sub r P256_P)"
  have f: "limb4 (f x)" "limbs_val (f x) = (if limbs_val x < limbs_val P256_P then limbs_val x
      else limbs_val x - limbs_val P256_P)" if "limb4 x" for x
    using cond_sub_correct [OF that limb4_consts(1)] by (simp_all add: f_def)
  have small: "limb4 ((f ^^ n) x) \<and> limbs_val ((f ^^ n) x) = limbs_val x"
    if "limb4 x" "limbs_val x < limbs_val P256_P" for n x
    using that f by (induction n) simp_all
  have "(f ^^ 4) r = (f ^^ 3) (f r)" by (simp add: numeral_eq_Suc funpow_swap1)
  moreover have "limbs_val (f r) < limbs_val P256_P" "limbs_val (f r) = limbs_val r mod limbs_val P256_P"
    using f [OF assms(1)] assms(2) by (auto simp: mod_if)
  ultimately show ?thesis using small [of "f r" 3] f [OF assms(1)] by (simp add: f_def)
qed

text \<open>With nothing above 256 bits the reduction is right.\<close>

lemma acc_add_low:
  "acc_add [w0, w1, w2, w3, w4, w5, w6, w7, 0, 0, 0, 0, 0, 0, 0, 0] (replicate 9 0) reduce_terms
    = [int w0, int w1, int w2, int w3, int w4, int w5, int w6, int w7, 0]"
  by (simp add: acc_add_def reduce_terms_def array_eval)

lemma carry_pass_low:
  assumes "w0 < 4294967296" "w1 < 4294967296" "w2 < 4294967296" "w3 < 4294967296"
    "w4 < 4294967296" "w5 < 4294967296" "w6 < 4294967296" "w7 < 4294967296"
  shows "carry_pass [int w0, int w1, int w2, int w3, int w4, int w5, int w6, int w7, 0] =
     [int w0, int w1, int w2, int w3, int w4, int w5, int w6, int w7, 0]"
  using assms by (simp add: carry_pass_def array_eval zdiv_int [symmetric] zmod_int [symmetric])

lemma join_halves: "or (c mod 4294967296) (push_bit 32 (c div 4294967296)) = (c :: nat)"
  using or_push_bit_add [of "c mod 4294967296" 32 "c div 4294967296"] by simp

lemma reduce_low:
  assumes "limbs_ok [c0, c1, c2, c3]"
  shows "limbs_val (reduce_p256 [c0, c1, c2, c3, 0, 0, 0, 0]) = limbs_val [c0, c1, c2, c3] mod limbs_val P256_P"
proof -
  have w: "concat (map (\<lambda>i. [[c0, c1, c2, c3, 0, 0, 0, 0] ! i mod 2 ^ 32, [c0, c1, c2, c3, 0, 0, 0, 0] ! i div 2 ^ 32]) [0..<8])
    = [c0 mod 4294967296, c0 div 4294967296, c1 mod 4294967296, c1 div 4294967296,
       c2 mod 4294967296, c2 div 4294967296, c3 mod 4294967296, c3 div 4294967296, 0, 0, 0, 0, 0, 0, 0, 0]"
    by (simp add: upt8)
  have hi: "c div 4294967296 < 4294967296" if "c < LIMB" for c
    using that by (simp add: LIMB_def div_less_iff_less_mult)
  have cp: "carry_pass [int (c0 mod 4294967296), int (c0 div 4294967296), int (c1 mod 4294967296),
      int (c1 div 4294967296), int (c2 mod 4294967296), int (c2 div 4294967296),
      int (c3 mod 4294967296), int (c3 div 4294967296), 0] =
      [int (c0 mod 4294967296), int (c0 div 4294967296), int (c1 mod 4294967296),
      int (c1 div 4294967296), int (c2 mod 4294967296), int (c2 div 4294967296),
      int (c3 mod 4294967296), int (c3 div 4294967296), 0]"
    using assms by (intro carry_pass_low) (simp_all add: hi)
  have red: "reduce_p256 [c0, c1, c2, c3, 0, 0, 0, 0] = ((\<lambda>r. cond_sub r P256_P) ^^ 4) [c0, c1, c2, c3]"
    unfolding reduce_p256_def Let_def w acc_add_low cp
    by (simp add: upt_rec join_halves nat_mod_distrib del: of_nat_div of_nat_mod)
  have l: "limb4 [c0, c1, c2, c3]" using assms by (simp add: limb4_def)
  have "limbs_val [c0, c1, c2, c3] < LIMB ^ 4" using limbs_val_lt [OF assms] by (simp add: power4_eq_xxxx mult.assoc)
  moreover have "LIMB ^ 4 < 2 * limbs_val P256_P" by (simp add: P256_P_def LIMB_def)
  ultimately have "limbs_val [c0, c1, c2, c3] < 2 * limbs_val P256_P" by (rule less_trans)
  from cond_sub_iterate [OF l this] show ?thesis by (simp only: red)
qed

lemma reduce_at_384:
  "reduce_p256 [0, 0, 0, 0, 0, 0, 1, 0] =
     [18446744069414584319, 18446744073709551615, 3, 18446744069414584320]"
proof -
  have acc: "acc_add (concat (map (\<lambda>i. [[0, 0, 0, 0, 0, 0, 1, 0] ! i mod 2 ^ 32, [0, 0, 0, 0, 0, 0, 1, 0] ! i div 2 ^ 32]) [0..<8]))
      (replicate 9 0) reduce_terms = [-1, -1, 0, 0, 4, 0, 0, -1, 0]"
    by (simp add: acc_add_def reduce_terms_def array_eval)
  have c1: "carry_pass [-1, -1, 0, 0, 4, 0, 0, -1, 0] =
      [4294967295, 4294967294, 4294967295, 4294967295, 3, 0, 0, 4294967295, -1]"
    by (simp add: carry_pass_def array_eval)
  have c2: "carry_pass [4294967295, 4294967294, 4294967295, 4294967295, 3, 0, 0, 4294967295, -1] =
      [4294967295, 4294967294, 4294967295, 4294967295, 3, 0, 0, 4294967295, -1]"
    by (simp add: carry_pass_def array_eval)
  have cs: "cond_sub [18446744069414584319, 18446744073709551615, 3, 18446744069414584320] P256_P =
      [18446744069414584319, 18446744073709551615, 3, 18446744069414584320]"
    by (simp add: cond_sub_def sub256b_def P256_P_def LIMB_def)
  have four: "f ^^ 4 = f \<circ> (f \<circ> (f \<circ> f))" for f :: "nat list \<Rightarrow> nat list"
    by (simp add: numeral_eq_Suc)
  show ?thesis
    unfolding reduce_p256_def Let_def acc c1 c2 four comp_def by (simp add: upt_rec cs)
qed

lemma mul512_at_192: "mul512 [0, 0, 0, 1] [0, 0, 0, 1] = [0, 0, 0, 0, 0, 0, 1, 0]"
  by (simp add: mul512_def mul512_row_def slice_def blit_def LIMB_def array_eval)

lemma fn_mul_zero: "fst ((fn_mul_step ^^ n) (r, a, [0, 0, 0, 0])) = r"
proof (induction n arbitrary: a)
  case (Suc n)
  have "shr1 [0, 0, 0, 0] = [0, 0, 0, 0]" by (simp add: shr1_def array_eval)
  then obtain a' where "fn_mul_step (r, a, [0, 0, 0, 0]) = (r, a', [0, 0, 0, 0])"
    by (simp add: fn_mul_step_def Let_def)
  then show ?case unfolding funpow_Suc_right comp_def by (simp only: Suc)
qed simp

lemma fn_mul_at_255: "fn_mul [0, 0, 0, 9223372036854775808] [2, 0, 0, 0] = [0, 0, 0, 0]"
proof -
  have z: "cond_sub [0, 0, 0, 0] P256_N = [0, 0, 0, 0]"
    by (simp add: cond_sub_def sub256b_def P256_N_def LIMB_def)
  have s1: "fn_mul_step ([0, 0, 0, 0], [0, 0, 0, 9223372036854775808], [2, 0, 0, 0]) =
      ([0, 0, 0, 0], [0, 0, 0, 0], [1, 0, 0, 0])"
    by (simp add: fn_mul_step_def shr1_def shl1_def fn_sub_def sub256b_def add256c_def P256_N_def
        LIMB_def array_eval z [unfolded P256_N_def])
  obtain a where s2: "fn_mul_step ([0, 0, 0, 0], [0, 0, 0, 0], [1, 0, 0, 0]) = ([0, 0, 0, 0], a, [0, 0, 0, 0])"
    by (simp add: fn_mul_step_def shr1_def shl1_def fn_add_def sub256b_def add256c_def
        LIMB_def array_eval z)
  have "(256 :: nat) = Suc (Suc 254)" by simp
  then have "(fn_mul_step ^^ 256) x = (fn_mul_step ^^ 254) (fn_mul_step (fn_mul_step x))" for x
    by (simp only: funpow_Suc_right comp_def)
  then show ?thesis unfolding fn_mul_def by (simp only: fn_mul_zero s1 s2)
qed

text \<open>
  C40: The 512-bit product is exact, but field multiplication is not multiplication modulo the
  prime: the fast reduction is right on products below $2^{256}$ and wrong at $2^{384}$, which the
  square of the reduced operand $2^{192}$ reaches (the third summand is added one word too high,
  and the accumulator above 256 bits is dropped).
\<close>

theorem p256_field_product:
  "(limb4 a \<and> limb4 b \<longrightarrow> limbs_val (mul512 a b) = limbs_val a * limbs_val b) \<and>
   (limb4 [c0, c1, c2, c3] \<longrightarrow> limbs_val (reduce_p256 [c0, c1, c2, c3, 0, 0, 0, 0]) =
      limbs_val [c0, c1, c2, c3] mod limbs_val P256_P) \<and>
   limbs_val (fp_mul [0, 0, 0, 1] [0, 0, 0, 1]) \<noteq>
      limbs_val [0, 0, 0, 1] * limbs_val [0, 0, 0, 1] mod limbs_val P256_P"
proof -
  have "limbs_val (fp_mul [0, 0, 0, 1] [0, 0, 0, 1]) \<noteq>
      limbs_val [0, 0, 0, 1] * limbs_val [0, 0, 0, 1] mod limbs_val P256_P"
    unfolding fp_mul_def mul512_at_192 reduce_at_384 by (simp add: P256_P_def LIMB_def)
  then show ?thesis using mul512_correct(3) reduce_low by (simp add: limb4_def)
qed

lemma p256_field_product_witness:
  "limbs_val (mul512 [3, 0, 0, 0] [5, 0, 0, 0]) = 15 \<and>
   limbs_val (reduce_p256 [7, 0, 0, 0, 0, 0, 0, 0]) = 7"
proof -
  have "limb4 [3, 0, 0, 0] \<and> limb4 [5, 0, 0, 0] \<and> limb4 [7, 0, 0, 0]"
    by (simp add: limb4_def LIMB_def)
  then show ?thesis
    using p256_field_product [of "[3, 0, 0, 0]" "[5, 0, 0, 0]" 7 0 0 0] by (simp add: P256_P_def LIMB_def)
qed

text \<open>
  The scalar product \<open>fn_mul\<close> is not multiplication modulo the group order either: when
  doubling overflows 256 bits the overflow is lost, because \<open>fn_sub\<close> adds the order back after the
  borrow; the product of $2^{255}$ and 2 comes out as 0, which is not $2^{256}$ modulo the order.
\<close>

theorem p256_scalar_product_wrong:
  "fn_mul [0, 0, 0, 9223372036854775808] [2, 0, 0, 0] = [0, 0, 0, 0] \<and>
   limbs_val [0, 0, 0, 9223372036854775808] < limbs_val P256_N \<and>
   limbs_val [0, 0, 0, 9223372036854775808] * limbs_val [2, 0, 0, 0] mod limbs_val P256_N \<noteq> 0"
  by (simp add: fn_mul_at_255 P256_N_def LIMB_def)

section \<open>Parsing and range checks\<close>

lemma be32_limb_slice:
  assumes "length b \<le> 32" "i < 4"
  shows "be32_limb b i = nat_of_be (slice (replicate (32 - length b) 0 @ b) (8 * i) (8 * i + 8))"
proof -
  define p where "p = replicate (32 - length b) 0 @ b"
  define f where "f = (\<lambda>v j.
     let src = int (length b) - 32 + int (i * 8 + j)
     in if 0 \<le> src \<and> nat src < length b then or (push_bit 8 v mod LIMB) (unat (b ! nat src)) else v)"
  have p: "length p = 32" using assms(1) by (simp add: p_def)
  have "m \<le> 8 \<Longrightarrow> foldl f 0 [0..<m] = nat_of_be (slice p (8 * i) (8 * i + m))" for m
  proof (induction m)
    case 0
    then show ?case by (simp add: slice_def nat_of_be_def)
  next
    case (Suc m)
    define q where "q = 8 * i + m"
    define v where "v = nat_of_be (slice p (8 * i) q)"
    have q: "q < 32" using assms(2) Suc.prems by (simp add: q_def)
    have sl: "slice p (8 * i) (8 * i + Suc m) = slice p (8 * i) q @ [p ! q]"
      using p q by (simp add: slice_def q_def take_Suc_conv_app_nth)
    have "length (slice p (8 * i) q) = m" using p q by (simp add: q_def)
    then have "v < 256 ^ m" using nat_of_be_bound [of "slice p (8 * i) q"] by (simp add: v_def)
    also have "(256 :: nat) ^ m \<le> 256 ^ 7" using Suc.prems by (intro power_increasing) auto
    finally have v: "v * 256 < LIMB" by (simp add: LIMB_def)
    have st: "foldl f 0 [0..<Suc m] = f v m"
      using Suc by (simp add: v_def q_def)
    show ?case
    proof (cases "32 - length b \<le> q")
      case True
      then have "int (length b) - 32 + int (i * 8 + m) = int (q - (32 - length b))"
        using assms(1) by (simp add: q_def)
      moreover have "p ! q = b ! (q - (32 - length b))" "q - (32 - length b) < length b"
        using True q assms(1) by (auto simp: p_def nth_append)
      ultimately have "f v m = or (push_bit 8 v mod LIMB) (unat (p ! q))"
        by (simp add: f_def)
      also have "push_bit 8 v mod LIMB = push_bit 8 v" using v by (simp add: push_bit_eq_mult)
      also have "or (push_bit 8 v) (unat (p ! q)) = v * 256 + unat (p ! q)"
        using or_push_bit_add [of "unat (p ! q)" 8 v] by (simp add: or.commute)
      finally show ?thesis unfolding st sl nat_of_be_snoc v_def .
    next
      case False
      then have z: "slice p (8 * i) q @ [p ! q] = replicate (Suc m) 0"
        by (simp add: p_def slice_def q_def nth_append replicate_append_same)
      then have "v = 0" by (simp add: v_def) (metis append_butlast_last_id butlast_snoc nat_of_be_zeros replicate_append_same snoc_eq_iff_butlast)
      moreover have "\<not> 0 \<le> int (length b) - 32 + int (i * 8 + m)"
        using False assms(1) by (simp add: q_def)
      then have "f v m = v" by (simp only: f_def Let_def if_False simp_thms)
      ultimately show ?thesis unfolding st sl z by (simp only: nat_of_be_zeros)
    qed
  qed
  from this [of 8] show ?thesis by (simp add: be32_limb_def f_def p_def)
qed

lemma from_be32_correct:
  assumes "length b \<le> 32"
  shows "limb4 (from_be32 b)" "limbs_val (from_be32 b) = nat_of_be b"
proof -
  define p where "p = replicate (32 - length b) 0 @ b"
  have p: "length p = 32" using assms by (simp add: p_def)
  have l: "be32_limb b i = nat_of_be (slice p (8 * i) (8 * i + 8))" if "i < 4" for i
    using be32_limb_slice [OF assms that] by (simp add: p_def)
  have lt: "nat_of_be (slice p (8 * i) (8 * i + 8)) < LIMB" if "i < 4" for i
    using nat_of_be_bound [of "slice p (8 * i) (8 * i + 8)"] p that by (simp add: LIMB_def)
  have f: "from_be32 b = [be32_limb b 3, be32_limb b 2, be32_limb b 1, be32_limb b 0]"
    unfolding from_be32_def upt4_nat by (simp add: list_update_numeral)
  show "limb4 (from_be32 b)" using lt [of 0] lt [of 1] lt [of 2] lt [of 3] by (simp add: f limb4_def l)
  have "slice p 0 8 @ slice p 8 16 @ slice p 16 24 @ slice p 24 32 = slice p 0 32"
    by (simp add: slice_append)
  then have "p = slice p 0 8 @ slice p 8 16 @ slice p 16 24 @ slice p 24 32"
    using slice_full [of p] p by simp
  then have "nat_of_be p = nat_of_be (slice p 0 8 @ slice p 8 16 @ slice p 16 24 @ slice p 24 32)" by simp
  also have "\<dots> = limbs_val (from_be32 b)"
    using p l [of 0] l [of 1] l [of 2] l [of 3] by (simp add: nat_of_be_append f LIMB_def algebra_simps)
  finally show "limbs_val (from_be32 b) = nat_of_be b"
    by (simp add: p_def nat_of_be_append)
qed

lemma lt256_correct:
  assumes "limb4 a" "limb4 b"
  shows "lt256 a b \<longleftrightarrow> limbs_val a < limbs_val b"
proof -
  have "lt_from a b i \<longleftrightarrow> \<not> ge_from a b i" for i by (induction i) auto
  then show ?thesis using ge_correct [of a b] assms 
    by (simp add: lt256_def ge_def limb4_def linorder_not_le)
qed

lemma is_zero_val: "limb4 a \<Longrightarrow> is_zero a \<longleftrightarrow> limbs_val a = 0"
  by (auto simp: limb4_def is_zero_def length_Suc_conv numeral_eq_Suc)

lemma strip_zeros_val: "nat_of_be (strip_zeros b) = nat_of_be b"
proof (cases "position (\<lambda>x. x \<noteq> 0) b")
  case None
  then have "b = replicate (length b) 0" by (auto simp: position_None replicate_eqI)
  then show ?thesis using None by (metis drop_all le_refl nat_of_be_zeros option.case(1) replicate_empty strip_zeros_def)
next
  case (Some k)
  then have k: "k < length b" "\<forall>j < k. b ! j = 0" by (auto simp: position_Some)
  then have "take k b = replicate k 0" by (intro nth_equalityI) auto
  then have "b = replicate k 0 @ drop k b" by (metis append_take_drop_id)
  then show ?thesis using Some nat_of_be_append [of "replicate k 0" "drop k b"] by (simp add: strip_zeros_def)
qed

text \<open>
  A signature is rejected unless both components, read as big-endian numbers of any padded
  length, lie between 1 and the group order minus 1, as ECDSA requires.
\<close>

theorem p256_verify_range:
  assumes "nat_of_be rb = 0 \<or> limbs_val P256_N \<le> nat_of_be rb \<or> nat_of_be sb = 0 \<or> limbs_val P256_N \<le> nat_of_be sb"
  shows "p256_verify pub_x pub_y hash rb sb = False"
proof (rule ccontr)
  assume v: "p256_verify pub_x pub_y hash rb sb \<noteq> False"
  have len: "length (strip_zeros rb) \<le> 32" "length (strip_zeros sb) \<le> 32"
    using v by (auto simp: p256_verify_def Let_def split: if_splits)
  have nz: "\<not> is_zero (from_be32 (strip_zeros rb))" "\<not> is_zero (from_be32 (strip_zeros sb))"
    "lt256 (from_be32 (strip_zeros rb)) P256_N" "lt256 (from_be32 (strip_zeros sb)) P256_N"
    using v by (auto simp: p256_verify_def Let_def split: if_splits)
  show False
    using assms nz is_zero_val [OF from_be32_correct(1) [OF len(1)]] is_zero_val [OF from_be32_correct(1) [OF len(2)]]
      lt256_correct [OF from_be32_correct(1) [OF len(1)] limb4_consts(2)]
      lt256_correct [OF from_be32_correct(1) [OF len(2)] limb4_consts(2)]
    by (simp add: from_be32_correct(2) [OF len(1)] from_be32_correct(2) [OF len(2)] strip_zeros_val)
qed

lemma p256_verify_range_witness: "p256_verify [4] [5] [6] [0, 0] [7] = False"
  by (rule p256_verify_range) (simp add: nat_of_be_def)

end
