(* ===== verification/X509.thy ===== *)
theory X509
  imports P256 Sha256 "HOL-Library.Monad_Syntax"
begin

text \<open>
  Certificate parsing and chain validation of kernel/src/x509.rs: the DER reader, the certificate
  walk, the two signature checks (over \<open>Bignum\<close>, \<open>P256\<close> and \<open>Sha256\<close>), the clock, the validity
  and host-name checks, and the walk from the leaf to a trust anchor. The embedded trust anchors
  (kernel/src/ca_roots.rs) and the clock chip's registers are parameters.
\<close>

section \<open>DER\<close>

record tlv_item =
  tlv_tag :: byte
  tlv_content :: bytes
  tlv_total :: nat

text \<open>The length octets: the content length and the size of the header.\<close>

definition tlv_header :: "bytes \<Rightarrow> (nat \<times> nat) option" where
  "tlv_header buf =
     (let b1 = unat (buf ! 1) in
      if b1 < 0x80 then Some (b1, 2)
      else let n = unat (buf ! 1 AND 0x7f) in
        if n = 0 \<or> 3 < n \<or> length buf < 2 + n then None
        else Some (foldl (\<lambda>l i. or (push_bit 8 l) (unat (buf ! (2 + i)))) 0 [0..<n], 2 + n))"

definition tlv :: "bytes \<Rightarrow> tlv_item option" where
  "tlv buf =
     (if length buf < 2 then None
      else do {
        (len, hdr) \<leftarrow> tlv_header buf;
        if length buf < hdr + len then None
        else Some \<lparr>tlv_tag = buf ! 0, tlv_content = slice buf hdr (hdr + len), tlv_total = hdr + len\<rparr>
      })"

text \<open>The iterator \<open>Seq\<close>: the next item and the rest, and all items of a constructed value.\<close>

definition seq_next :: "bytes \<Rightarrow> (tlv_item \<times> bytes) option" where
  "seq_next rest = do { t \<leftarrow> tlv rest; Some (t, drop (tlv_total t) rest) }"

lemma tlv_SomeD:
  assumes "tlv buf = Some t"
  obtains len hdr where "tlv_header buf = Some (len, hdr)" "2 \<le> hdr" "hdr + len \<le> length buf"
    "t = \<lparr>tlv_tag = buf ! 0, tlv_content = slice buf hdr (hdr + len), tlv_total = hdr + len\<rparr>"
proof -
  obtain len hdr where h: "tlv_header buf = Some (len, hdr)" "hdr + len \<le> length buf"
    "t = \<lparr>tlv_tag = buf ! 0, tlv_content = slice buf hdr (hdr + len), tlv_total = hdr + len\<rparr>"
    using assms by (auto simp: tlv_def not_less split: if_splits bind_splits)
  have "2 \<le> hdr" using h(1) by (auto simp: tlv_header_def Let_def split: if_splits)
  with h show ?thesis by (intro that)
qed

lemma tlv_total_bounds: "tlv buf = Some t \<Longrightarrow> 2 \<le> tlv_total t \<and> tlv_total t \<le> length buf"
  by (elim tlv_SomeD) simp

lemma seq_next_shrinks: "seq_next r = Some (t, r') \<Longrightarrow> length r' < length r"
  using tlv_total_bounds [of r t] by (auto simp: seq_next_def split: bind_splits)

function seq_items :: "bytes \<Rightarrow> tlv_item list" where
  "seq_items rest = (case seq_next rest of None \<Rightarrow> [] | Some (t, rest') \<Rightarrow> t # seq_items rest')"
  by auto
termination
  by (relation "measure length") (auto dest: seq_next_shrinks)

declare seq_items.simps [simp del]

definition TAG_SEQ :: byte where "TAG_SEQ = 0x30"
definition TAG_BITSTRING :: byte where "TAG_BITSTRING = 0x03"
definition TAG_UTCTIME :: byte where "TAG_UTCTIME = 0x17"
definition TAG_GENTIME :: byte where "TAG_GENTIME = 0x18"
definition TAG_CTX0 :: byte where "TAG_CTX0 = 0xa0"
definition TAG_CTX3 :: byte where "TAG_CTX3 = 0xa3"

definition OID_RSA_ENC :: bytes where
  "OID_RSA_ENC = [0x2a, 0x86, 0x48, 0x86, 0xf7, 0x0d, 0x01, 0x01, 0x01]"
definition OID_RSA_SHA256 :: bytes where
  "OID_RSA_SHA256 = [0x2a, 0x86, 0x48, 0x86, 0xf7, 0x0d, 0x01, 0x01, 0x0b]"
definition OID_EC_PUBKEY :: bytes where
  "OID_EC_PUBKEY = [0x2a, 0x86, 0x48, 0xce, 0x3d, 0x02, 0x01]"
definition OID_ECDSA_SHA256 :: bytes where
  "OID_ECDSA_SHA256 = [0x2a, 0x86, 0x48, 0xce, 0x3d, 0x04, 0x03, 0x02]"
definition OID_SAN :: bytes where
  "OID_SAN = [0x55, 0x1d, 0x11]"

text \<open>The DER prefix of a SHA-256 digest, in decimal.\<close>

definition SHA256_DIGEST_PREFIX :: bytes where
  "SHA256_DIGEST_PREFIX =
     [48, 49, 48, 13, 6, 9, 96, 134, 72, 1, 101, 3, 4, 2, 1, 5,
      0, 4, 32]"

section \<open>Certificates\<close>

datatype key_kind = Rsa | EcP256 | Unknown

record cert =
  c_tbs :: bytes
  c_sig_alg :: bytes
  c_sig :: bytes
  c_issuer :: bytes
  c_subject :: bytes
  c_not_before :: bytes
  c_not_after :: bytes
  c_key_kind :: key_kind
  c_rsa_n :: bytes
  c_rsa_e :: bytes
  c_ec_point :: bytes
  c_san :: "bytes option"

definition strip_int :: "bytes \<Rightarrow> bytes" where
  "strip_int b = (if 1 < length b \<and> b ! 0 = 0 then drop 1 b else b)"

text \<open>The public key: kind, RSA modulus and exponent, EC point.\<close>

definition parse_key :: "bytes \<Rightarrow> bytes \<Rightarrow> (key_kind \<times> bytes \<times> bytes \<times> bytes) option" where
  "parse_key alg_oid key_bits =
     (if alg_oid = OID_RSA_ENC then
        do {
          rsa \<leftarrow> tlv key_bits;
          (n, r) \<leftarrow> seq_next (tlv_content rsa);
          (e, r) \<leftarrow> seq_next r;
          Some (Rsa, strip_int (tlv_content n), strip_int (tlv_content e), [])
        }
      else if alg_oid = OID_EC_PUBKEY then Some (EcP256, [], [], key_bits)
      else Some (Unknown, [], [], []))"

text \<open>
  One extension: a subjectAltName replaces what was found before, provided an OCTET STRING
  follows the identifier and holds a well-formed value.
\<close>

definition san_ext :: "bytes option \<Rightarrow> tlv_item \<Rightarrow> bytes option" where
  "san_ext san ext =
     (case seq_next (tlv_content ext) of
        None \<Rightarrow> san
      | Some (oid, e) \<Rightarrow>
          if tlv_content oid \<noteq> OID_SAN then san
          else (case List.find (\<lambda>x. tlv_tag x = 0x04) (seq_items e) of
                  None \<Rightarrow> san
                | Some octet \<Rightarrow>
                    (case tlv (tlv_content octet) of None \<Rightarrow> san | Some names \<Rightarrow> Some (tlv_content names))))"

definition san_outer :: "bytes option \<Rightarrow> tlv_item \<Rightarrow> bytes option" where
  "san_outer san ext_outer =
     (if tlv_tag ext_outer = TAG_CTX3 then
        (case tlv (tlv_content ext_outer) of
           None \<Rightarrow> san
         | Some ext_seq \<Rightarrow> foldl san_ext san (seq_items (tlv_content ext_seq)))
      else san)"

definition parse_cert :: "bytes \<Rightarrow> cert option" where
  "parse_cert der =
     do {
       crt \<leftarrow> tlv der;
       if tlv_tag crt \<noteq> TAG_SEQ then None else do {
       (tbs_tlv, it) \<leftarrow> seq_next (tlv_content crt);
       if tlv_tag tbs_tlv \<noteq> TAG_SEQ then None else do {
       let tbs = take (tlv_total tbs_tlv) (tlv_content crt);
       (sigalg_tlv, it) \<leftarrow> seq_next it;
       (alg0, _) \<leftarrow> seq_next (tlv_content sigalg_tlv);
       (sig_bs, it) \<leftarrow> seq_next it;
       if tlv_tag sig_bs \<noteq> TAG_BITSTRING \<or> tlv_content sig_bs = [] then None else do {
       (first, t) \<leftarrow> seq_next (tlv_content tbs_tlv);
       (serial, t) \<leftarrow> (if tlv_tag first = TAG_CTX0 then seq_next t else Some (first, t));
       (inner_alg, t) \<leftarrow> seq_next t;
       (issuer_tlv, t) \<leftarrow> seq_next t;
       (validity, t) \<leftarrow> seq_next t;
       (subject_tlv, t) \<leftarrow> seq_next t;
       (spki, t) \<leftarrow> seq_next t;
       (nb, v) \<leftarrow> seq_next (tlv_content validity);
       (na, v) \<leftarrow> seq_next v;
       (alg, s) \<leftarrow> seq_next (tlv_content spki);
       (key_bs, s) \<leftarrow> seq_next s;
       if tlv_tag key_bs \<noteq> TAG_BITSTRING \<or> tlv_content key_bs = [] then None else do {
       (alg_oid, _) \<leftarrow> seq_next (tlv_content alg);
       (kind, n, e, pt) \<leftarrow> parse_key (tlv_content alg_oid) (drop 1 (tlv_content key_bs));
       Some \<lparr>c_tbs = tbs, c_sig_alg = tlv_content alg0, c_sig = drop 1 (tlv_content sig_bs),
             c_issuer = tlv_content issuer_tlv, c_subject = tlv_content subject_tlv,
             c_not_before = tlv_content nb, c_not_after = tlv_content na,
             c_key_kind = kind, c_rsa_n = n, c_rsa_e = e, c_ec_point = pt,
             c_san = foldl san_outer None (seq_items t)\<rparr> }}}}}"

section \<open>Signatures\<close>

fun drop_zeros_to :: "nat \<Rightarrow> bytes \<Rightarrow> bytes" where
  "drop_zeros_to k [] = []"
| "drop_zeros_to k (x # xs) = (if k < length (x # xs) \<and> x = 0 then drop_zeros_to k xs else x # xs)"

definition left_pad :: "bytes \<Rightarrow> nat \<Rightarrow> bytes" where
  "left_pad b k =
     (let s = drop_zeros_to k b in if k < length s then [] else replicate (k - length s) 0 @ s)"

text \<open>\<open>while i < k && em[i] == 0xff { i += 1 }\<close> from position \<open>i\<close>.\<close>

fun skip_ff :: "bytes \<Rightarrow> nat \<Rightarrow> nat" where
  "skip_ff [] i = i"
| "skip_ff (x # xs) i = (if x = 0xff then skip_ff xs (Suc i) else i)"

definition rsa_pkcs1_sha256_verify :: "bytes \<Rightarrow> bytes \<Rightarrow> bytes \<Rightarrow> bytes \<Rightarrow> bool" where
  "rsa_pkcs1_sha256_verify n e sig hash =
     (let n = strip_int n; k = length n
      in if k < length sig \<or> k < length SHA256_DIGEST_PREFIX + 32 + 11 then False
         else let em = left_pad (mod_exp sig e n) k
              in if length em \<noteq> k then False
                 else if em ! 0 \<noteq> 0 \<or> em ! 1 \<noteq> 1 then False
                 else let i = skip_ff (drop 2 em) 2
                      in if i < 10 \<or> k \<le> i \<or> em ! i \<noteq> 0 then False
                         else let t = drop (i + 1) em
                              in if length t \<noteq> length SHA256_DIGEST_PREFIX + 32 then False
                                 else take (length SHA256_DIGEST_PREFIX) t = SHA256_DIGEST_PREFIX \<and>
                                      drop (length SHA256_DIGEST_PREFIX) t = hash)"

definition verify_sig :: "cert \<Rightarrow> cert \<Rightarrow> bool" where
  "verify_sig c issuer =
     (let hash = sha256 (c_tbs c)
      in if c_sig_alg c = OID_RSA_SHA256 then
           (if c_key_kind issuer \<noteq> Rsa then False
            else rsa_pkcs1_sha256_verify (c_rsa_n issuer) (c_rsa_e issuer) (c_sig c) hash)
         else if c_sig_alg c = OID_ECDSA_SHA256 then
           (if c_key_kind issuer \<noteq> EcP256 \<or> length (c_ec_point issuer) < 65 \<or> c_ec_point issuer ! 0 \<noteq> 0x04
            then False
            else (case tlv (c_sig c) of
                    None \<Rightarrow> False
                  | Some sv \<Rightarrow>
                      (case seq_next (tlv_content sv) of
                         None \<Rightarrow> False
                       | Some (r, p) \<Rightarrow>
                           (case seq_next p of
                              None \<Rightarrow> False
                            | Some (s, _) \<Rightarrow>
                                p256_verify (slice (c_ec_point issuer) 1 33) (slice (c_ec_point issuer) 33 65)
                                  hash (tlv_content r) (tlv_content s)))))
         else False)"

section \<open>Clock and validity\<close>

definition bcd :: "byte \<Rightarrow> nat" where
  "bcd v = unat (drop_bit 4 v * 10 + (v AND 0x0f))"

definition pack_time :: "nat \<Rightarrow> nat \<Rightarrow> nat \<Rightarrow> nat \<Rightarrow> nat \<Rightarrow> nat \<Rightarrow> nat" where
  "pack_time y mo d h mi s =
     y * 10000000000 + mo * 100000000 + d * 1000000 + h * 10000 + mi * 100 + s"

text \<open>
  The clock chip: \<open>rd k reg\<close> is what the \<open>k\<close>-th register read of the run returns for register
  \<open>reg\<close>. Both loops may wait for ever, hence the option.
\<close>

partial_function (option) cmos_wait :: "(nat \<Rightarrow> byte \<Rightarrow> byte) \<Rightarrow> nat \<Rightarrow> nat option" where
  "cmos_wait rd k = (if rd k 0x0a AND 0x80 \<noteq> 0 then cmos_wait rd (k + 1) else Some (k + 1))"

partial_function (option) now_packed :: "(nat \<Rightarrow> byte \<Rightarrow> byte) \<Rightarrow> nat \<Rightarrow> nat option" where
  "now_packed rd k0 =
     do {
       k \<leftarrow> cmos_wait rd k0;
       let s = rd k 0x00; mi = rd (k + 1) 0x02; h = rd (k + 2) 0x04;
           d = rd (k + 3) 0x07; mo = rd (k + 4) 0x08; y = rd (k + 5) 0x09
       in if rd (k + 6) 0x0a AND 0x80 \<noteq> 0 then now_packed rd (k + 7)
          else if rd (k + 7) 0x00 \<noteq> s then now_packed rd (k + 8)
          else Some (pack_time (2000 + bcd y) (bcd mo) (bcd d) (bcd h) (bcd mi) (bcd s))
     }"

definition is_digit :: "byte \<Rightarrow> bool" where
  "is_digit c \<longleftrightarrow> 0x30 \<le> c \<and> c \<le> 0x39"

definition d2 :: "bytes \<Rightarrow> nat \<Rightarrow> nat option" where
  "d2 b i =
     (if length b \<le> i + 1 \<or> \<not> is_digit (b ! i) \<or> \<not> is_digit (b ! (i + 1)) then None
      else Some (unat ((b ! i - 0x30) * 10 + (b ! (i + 1) - 0x30))))"

definition parse_time :: "byte \<Rightarrow> bytes \<Rightarrow> nat option" where
  "parse_time tag b =
     do {
       (year, off) \<leftarrow>
         (if tag = TAG_GENTIME then do { hi \<leftarrow> d2 b 0; lo \<leftarrow> d2 b 2; Some (hi * 100 + lo, 4) }
          else do { yy \<leftarrow> d2 b 0; Some (if yy < 50 then 2000 + yy else 1900 + yy, 2) });
       mo \<leftarrow> d2 b off;
       d \<leftarrow> d2 b (off + 2);
       h \<leftarrow> d2 b (off + 4);
       mi \<leftarrow> d2 b (off + 6);
       s \<leftarrow> d2 b (off + 8);
       Some (pack_time year mo d h mi s)
     }"

definition time_tag :: "bytes \<Rightarrow> byte" where
  "time_tag content = (if 14 \<le> length content then TAG_GENTIME else TAG_UTCTIME)"

definition check_validity :: "cert \<Rightarrow> nat \<Rightarrow> bool" where
  "check_validity c now =
     (case parse_time (time_tag (c_not_before c)) (c_not_before c) of
        None \<Rightarrow> False
      | Some nb \<Rightarrow>
          (case parse_time (time_tag (c_not_after c)) (c_not_after c) of
             None \<Rightarrow> False
           | Some na \<Rightarrow> nb \<le> now \<and> now \<le> na))"

section \<open>Host names\<close>

definition ascii_lower :: "byte \<Rightarrow> byte" where
  "ascii_lower c = (if 0x41 \<le> c \<and> c \<le> 0x5a then c + 0x20 else c)"

definition eq_ic :: "bytes \<Rightarrow> bytes \<Rightarrow> bool" where
  "eq_ic a b =
     (if length a \<noteq> length b then False
      else list_all (\<lambda>(x, y). ascii_lower x = ascii_lower y) (zip a b))"

definition dns_match :: "bytes \<Rightarrow> bytes \<Rightarrow> bool" where
  "dns_match pat host =
     (if take 2 pat = [0x2a, 0x2e] then
        (case position (\<lambda>c. c = 0x2e) host of
           Some dot \<Rightarrow> eq_ic (drop dot host) (drop 1 pat)
         | None \<Rightarrow> False)
      else eq_ic pat host)"

definition hostname_ok :: "cert \<Rightarrow> bytes \<Rightarrow> bool" where
  "hostname_ok c host =
     (case c_san c of
        None \<Rightarrow> False
      | Some names \<Rightarrow>
          list_ex (\<lambda>gn. tlv_tag gn = 0x82 \<and> dns_match (tlv_content gn) host) (seq_items names))"

section \<open>Chain validation\<close>

definition same_anchor :: "cert \<Rightarrow> cert \<Rightarrow> bool" where
  "same_anchor a b =
     (if c_subject a \<noteq> c_subject b \<or> c_key_kind a \<noteq> c_key_kind b then False
      else (case c_key_kind a of
              Rsa \<Rightarrow> c_rsa_n a = c_rsa_n b \<and> c_rsa_e a = c_rsa_e b
            | EcP256 \<Rightarrow> c_ec_point a = c_ec_point b
            | Unknown \<Rightarrow> False))"

datatype verdict = V_Ok | Expired | BadHostname | BadSignature | Untrusted | Malformed

text \<open>The loop over the presented certificates, from position \<open>i\<close> on.\<close>

fun chain_walk :: "cert list \<Rightarrow> cert list \<Rightarrow> verdict" where
  "chain_walk anchors [] = Untrusted"
| "chain_walk anchors [c] =
     (if list_ex (\<lambda>a. same_anchor a c) anchors then V_Ok
      else (case List.find (\<lambda>a. c_subject a = c_issuer c) anchors of
              Some a \<Rightarrow> if \<not> verify_sig c a then BadSignature else V_Ok
            | None \<Rightarrow> Untrusted))"
| "chain_walk anchors (c # c' # cs) =
     (if list_ex (\<lambda>a. same_anchor a c) anchors then V_Ok
      else if c_issuer c \<noteq> c_subject c' then Untrusted
      else if \<not> verify_sig c c' then BadSignature
      else chain_walk anchors (c' # cs))"

definition parse_all :: "bytes list \<Rightarrow> cert list option" where
  "parse_all chain = those (map parse_cert chain)"

definition validate_chain :: "bytes list \<Rightarrow> nat \<Rightarrow> bytes list \<Rightarrow> bytes \<Rightarrow> verdict" where
  "validate_chain trust_anchors now chain hostname =
     (if chain = [] then Malformed
      else (case parse_all chain of
              None \<Rightarrow> Malformed
            | Some certs \<Rightarrow>
                if \<not> hostname_ok (certs ! 0) hostname then BadHostname
                else if \<not> list_all (\<lambda>c. check_validity c now) certs then Expired
                else chain_walk (List.map_filter parse_cert trust_anchors) certs))"

end
