(* ===== verification/X509_Props.thy ===== *)
theory X509_Props
  imports X509
begin

text \<open>
  What the certificate code promises: the DER reader stays within its buffer and reads back what a
  DER encoder writes, the RSA check accepts exactly the signatures whose power is the padded
  digest, the wildcard match covers exactly one label, the clock loop returns, an accepted chain
  is linked by verified signatures up to the trust point, and what being that trust point costs.
\<close>

section \<open>DER\<close>

text \<open>A DER encoding with a given number of length octets (0 for the short form).\<close>

definition der_encode :: "nat \<Rightarrow> byte \<Rightarrow> bytes \<Rightarrow> bytes" where
  "der_encode n tag content =
     (if n = 0 then [tag, of_nat (length content)]
      else [tag, of_nat (128 + n)] @ be_of_nat n (length content)) @ content"

lemma foldl_be:
  assumes "i + m \<le> length buf"
  shows "foldl (\<lambda>l j. or (push_bit 8 l) (unat (buf ! (i + j)))) 0 [0..<m] = nat_of_be (slice buf i (i + m))"
  using assms
proof (induction m)
  case 0
  then show ?case by (simp add: nat_of_be_def)
next
  case (Suc m)
  have "slice buf i (i + Suc m) = slice buf i (i + m) @ [buf ! (i + m)]"
    using Suc.prems by (simp add: slice_def take_Suc_conv_app_nth)
  moreover have "or (push_bit 8 l) (unat x) = l * 256 + unat (x :: byte)" for l x
    using or_push_bit_add [of "unat x" 8 l] by (simp add: or.commute)
  ultimately show ?case using Suc by (simp add: nat_of_be_snoc)
qed

lemma tlv_header_encode:
  assumes "n = 0 \<and> length content < 128 \<or> 1 \<le> n \<and> n \<le> 3 \<and> length content < 256 ^ n"
  shows "tlv_header (der_encode n tag content @ rest) = Some (length content, 2 + n)"
proof (cases "n = 0")
  case True
  then have "unat (of_nat (length content) :: byte) = length content" using assms by simp
  then show ?thesis using True assms by (simp add: tlv_header_def der_encode_def Let_def)
next
  case False
  then have n: "1 \<le> n" "n \<le> 3" "length content < 256 ^ n" using assms by auto
  define buf where "buf = der_encode n tag content @ rest"
  have "slice buf 2 (2 + n) = be_of_nat n (length content)"
    using n(1) by (simp add: buf_def der_encode_def slice_def)
  then have fold: "foldl (\<lambda>l j. or (push_bit 8 l) (unat (buf ! (2 + j)))) 0 [0..<n] = length content"
    using foldl_be [of 2 n buf] n(1,3) by (simp add: nat_of_be_of_nat buf_def der_encode_def)
  have b1: "buf ! 1 = of_nat (128 + n)" using n(1) by (simp add: buf_def der_encode_def)
  have u: "unat (of_nat (128 + n) :: byte) = 128 + n" using n(2) by (simp only: unat_of_nat_byte) simp
  have "n = 1 \<or> n = 2 \<or> n = 3" using n by auto
  then have m: "unat (of_nat (128 + n) AND 0x7f :: byte) = n" by (elim disjE) simp_all
  have len: "2 + n \<le> length buf" using n(1) by (simp add: buf_def der_encode_def)
  show ?thesis
    unfolding buf_def [symmetric] tlv_header_def b1 u m Let_def fold using n len by simp
qed

text \<open>
  The DER reader never leaves its buffer and loses nothing: an accepted item covers at least
  two and at most all bytes of the buffer, its content is a slice that ends where the item ends,
  so the rest is strictly shorter and every iteration over siblings ends; and it reads back every
  encoding with the short length form or one to three length octets, whatever follows.
\<close>

theorem tlv_sound_complete:
  "(tlv buf = Some t \<longrightarrow>
      2 \<le> tlv_total t \<and> tlv_total t \<le> length buf \<and> tlv_tag t = buf ! 0 \<and>
      length (tlv_content t) + 2 \<le> tlv_total t \<and>
      tlv_content t = slice buf (tlv_total t - length (tlv_content t)) (tlv_total t)) \<and>
   (n = 0 \<and> length content < 128 \<or> 1 \<le> n \<and> n \<le> 3 \<and> length content < 256 ^ n \<longrightarrow>
      tlv (der_encode n tag content @ rest) =
        Some \<lparr>tlv_tag = tag, tlv_content = content, tlv_total = 2 + n + length content\<rparr>)"
proof (intro conjI impI)
  assume "tlv buf = Some t"
  then obtain len hdr where "2 \<le> hdr" "hdr + len \<le> length buf"
    "t = \<lparr>tlv_tag = buf ! 0, tlv_content = slice buf hdr (hdr + len), tlv_total = hdr + len\<rparr>"
    by (elim tlv_SomeD)
  then show "2 \<le> tlv_total t" "tlv_total t \<le> length buf" "tlv_tag t = buf ! 0"
    "length (tlv_content t) + 2 \<le> tlv_total t"
    "tlv_content t = slice buf (tlv_total t - length (tlv_content t)) (tlv_total t)" by auto
next
  assume n: "n = 0 \<and> length content < 128 \<or> 1 \<le> n \<and> n \<le> 3 \<and> length content < 256 ^ n"
  have "slice (der_encode n tag content @ rest) (2 + n) (2 + n + length content) = content"
    by (simp add: der_encode_def slice_def)
  moreover have "(der_encode n tag content @ rest) ! 0 = tag" "2 + n + length content \<le> length (der_encode n tag content @ rest)"
    by (simp_all add: der_encode_def)
  ultimately show "tlv (der_encode n tag content @ rest) =
        Some \<lparr>tlv_tag = tag, tlv_content = content, tlv_total = 2 + n + length content\<rparr>"
    by (simp add: tlv_def tlv_header_encode [OF n])
qed

lemma tlv_sound_complete_witness:
  "tlv ([0x04, 0x81, 0x02, 0xAA, 0xBB] @ [9]) = Some \<lparr>tlv_tag = 4, tlv_content = [0xAA, 0xBB], tlv_total = 5\<rparr>"
proof -
  have "der_encode 1 4 [0xAA, 0xBB] = [0x04, 0x81, 0x02, 0xAA, 0xBB]"
    by (simp add: der_encode_def be_of_nat_def)
  then show ?thesis
    using tlv_sound_complete [of "[]" undefined 1 "[0xAA, 0xBB]" 4 "[9]"] by simp
qed

section \<open>RSA signatures\<close>

lemma drop_zeros_to_val: "nat_of_be (drop_zeros_to k b) = nat_of_be b"
proof (induction b)
  case (Cons x xs)
  have "nat_of_be (0 # xs) = nat_of_be xs"
    using nat_of_be_append [of "[0]" xs] by (simp add: nat_of_be_def)
  then show ?case using Cons by simp
qed simp

lemma drop_zeros_to_length:
  "k < length (drop_zeros_to k b) \<Longrightarrow> 256 ^ k \<le> nat_of_be (drop_zeros_to k b)"
proof (induction b)
  case (Cons x xs)
  show ?case
  proof (cases "k < length (x # xs) \<and> x = 0")
    case False
    then have s: "drop_zeros_to k (x # xs) = x # xs" by (simp only: drop_zeros_to.simps if_False)
    then have k: "k < length (x # xs)" using Cons.prems by simp
    then have "x \<noteq> 0" using False by simp
    then have "1 \<le> unat x" by (simp add: Suc_leI unat_gt_0)
    have "(256 :: nat) ^ k \<le> 256 ^ length xs" using k by (intro power_increasing) auto
    also have "\<dots> \<le> unat x * 256 ^ length xs" using \<open>1 \<le> unat x\<close> by simp
    also have "\<dots> \<le> nat_of_be (x # xs)"
      using nat_of_be_append [of "[x]" xs] by (simp add: nat_of_be_def)
    finally show ?thesis by (simp only: s)
  qed (use Cons in simp)
qed simp

lemma left_pad_correct:
  assumes "nat_of_be b < 256 ^ k"
  shows "length (left_pad b k) = k" "nat_of_be (left_pad b k) = nat_of_be b"
proof -
  have "\<not> k < length (drop_zeros_to k b)"
    using drop_zeros_to_length [of k b] assms by (auto simp: drop_zeros_to_val)
  then show "length (left_pad b k) = k" "nat_of_be (left_pad b k) = nat_of_be b"
    by (simp_all add: left_pad_def Let_def nat_of_be_append drop_zeros_to_val)
qed

text \<open>EMSA-PKCS1-v1_5 with SHA-256 for a key of \<open>k\<close> bytes.\<close>

definition emsa_pkcs1 :: "nat \<Rightarrow> bytes \<Rightarrow> bytes" where
  "emsa_pkcs1 k hash = [0, 1] @ replicate (k - 54) 0xff @ [0] @ SHA256_DIGEST_PREFIX @ hash"

lemma length_PREFIX [simp]: "length SHA256_DIGEST_PREFIX = 19"
  by (simp add: SHA256_DIGEST_PREFIX_def)

lemma skip_ff_run: "skip_ff (replicate m 0xff @ xs) i = skip_ff xs (i + m)"
  by (induction m arbitrary: i) simp_all

lemma skip_ff_split:
  "skip_ff xs i = i + m \<Longrightarrow> m \<le> length xs \<and> take m xs = replicate m 0xff"
proof (induction xs i arbitrary: m rule: skip_ff.induct)
  case (2 x xs i)
  show ?case
  proof (cases "x = 0xff")
    case True
    have "i < skip_ff xs (Suc i)"
    proof -
      have "j \<le> skip_ff ys j" for ys j by (induction ys j rule: skip_ff.induct) auto
      from this [of "Suc i" xs] show ?thesis by simp
    qed
    then obtain m' where "m = Suc m'" using 2(2) True by (cases m) auto
    then show ?thesis using 2 True by simp
  qed (use 2(2) in simp)
qed simp

text \<open>The checks on the recovered block accept the padded digest and nothing else.\<close>

definition pkcs1_block_ok :: "bytes \<Rightarrow> bytes \<Rightarrow> bool" where
  "pkcs1_block_ok em hash \<longleftrightarrow> em ! 0 = 0 \<and> em ! 1 = 1 \<and>
     (let i = skip_ff (drop 2 em) 2 in 10 \<le> i \<and> i < length em \<and> em ! i = 0 \<and>
        length (drop (i + 1) em) = 51 \<and> take 19 (drop (i + 1) em) = SHA256_DIGEST_PREFIX \<and>
        drop 19 (drop (i + 1) em) = hash)"

lemma pkcs1_block_ok_iff:
  assumes "62 \<le> length em" "length hash = 32"
  shows "pkcs1_block_ok em hash \<longleftrightarrow> em = emsa_pkcs1 (length em) hash"
proof
  assume ok: "pkcs1_block_ok em hash"
  define i where "i = skip_ff (drop 2 em) 2"
  have i: "10 \<le> i" "i < length em" "em ! i = 0" "length (drop (i + 1) em) = 51"
    "take 19 (drop (i + 1) em) = SHA256_DIGEST_PREFIX" "drop 19 (drop (i + 1) em) = hash"
    "em ! 0 = 0" "em ! 1 = 1"
    using ok by (simp_all add: pkcs1_block_ok_def Let_def i_def)
  have ff: "take (i - 2) (drop 2 em) = replicate (i - 2) 0xff"
    using skip_ff_split [of "drop 2 em" 2 "i - 2"] i(1) by (simp add: i_def)
  have "em = take 2 em @ take (i - 2) (drop 2 em) @ drop i em"
  proof -
    have "drop 2 em = take (i - 2) (drop 2 em) @ drop (i - 2) (drop 2 em)"
      by (rule append_take_drop_id [symmetric])
    moreover have "i - 2 + 2 = i" using i(1) by simp
    then have "drop (i - 2) (drop 2 em) = drop i em" by (simp only: drop_drop)
    ultimately show ?thesis by (metis append_take_drop_id)
  qed
  moreover have "take 2 em = [0, 1]"
    using i(7,8) assms(1) by (cases em; cases "tl em") simp_all
  moreover have "drop i em = 0 # SHA256_DIGEST_PREFIX @ hash"
    using i(2,3,5,6) append_take_drop_id [of 19 "drop (i + 1) em"]
    by (simp add: Cons_nth_drop_Suc [symmetric])
  moreover have "i - 2 = length em - 54" using i(2,4) by simp
  ultimately show "em = emsa_pkcs1 (length em) hash"
    using ff by (simp add: emsa_pkcs1_def)
next
  assume em: "em = emsa_pkcs1 (length em) hash"
  define m where "m = length em - 54"
  have e: "em = 0 # 1 # replicate m 0xff @ (0 # SHA256_DIGEST_PREFIX @ hash)" and m: "length em = m + 54"
    using em assms(1) by (simp_all add: emsa_pkcs1_def m_def)
  define t where "t = SHA256_DIGEST_PREFIX @ hash"
  have e2: "em = (0 # 1 # replicate m 0xff) @ 0 # t" using e by (simp add: t_def)
  have skip: "skip_ff (drop 2 em) 2 = m + 2"
    unfolding e by (simp add: skip_ff_run)
  have "length (0 # 1 # replicate m (0xff :: byte)) = m + 2" by simp
  then have d: "em ! (m + 2) = 0" "drop (m + 2 + 1) em = t"
    unfolding e2 by (simp_all only: nth_append_length drop_append) (simp_all add: nth_append)
  have "drop 19 (drop (m + 2 + 1) em) = hash" unfolding d(2) by (simp add: t_def)
  moreover have "em ! 0 = 0" "em ! 1 = 1" unfolding e by simp_all
  ultimately show "pkcs1_block_ok em hash"
    using assms m skip d by (simp add: pkcs1_block_ok_def t_def)
qed

text \<open>
  C35: The RSA check is PKCS#1 v1.5: for an odd modulus of \<open>k\<close> bytes without sign padding, at least
  62 of them, and a signature of at most that length, it accepts exactly when the signature to the
  public exponent modulo \<open>n\<close> is the number of the padded SHA-256 digest, every padding byte
  included.
\<close>

theorem rsa_verify_correct:
  assumes "odd (nat_of_be n)" "n ! 0 \<noteq> 0" "62 \<le> length n" "length sig \<le> length n" "length hash = 32"
  shows "rsa_pkcs1_sha256_verify n e sig hash \<longleftrightarrow>
    nat_of_be sig ^ nat_of_be e mod nat_of_be n = nat_of_be (emsa_pkcs1 (length n) hash)"
proof -
  define k where "k = length n"
  define em where "em = left_pad (mod_exp sig e n) k"
  have strip: "strip_int n = n" using assms(2) by (simp add: strip_int_def)
  obtain x xs where n: "n = x # xs" "x \<noteq> 0" using assms(2,3) by (cases n) auto
  have trim: "trim n = n" using n assms(3) by (cases xs) auto
  have "1 \<le> unat x" using n(2) by (simp add: Suc_leI unat_gt_0)
  then have "256 ^ length xs \<le> unat x * 256 ^ length xs" by simp
  also have "\<dots> \<le> nat_of_be n"
    using n(1) nat_of_be_append [of "[x]" xs] by (simp add: nat_of_be_def)
  finally have "256 ^ length xs \<le> nat_of_be n" .
  moreover have "(1 :: nat) < 256 ^ length xs" using n(1) assms(3) by (intro one_less_power) auto
  ultimately have n1: "1 < nat_of_be n" by linarith
  have "nat_of_be sig < 256 ^ length sig" by (rule nat_of_be_bound)
  also have "\<dots> \<le> 256 ^ (8 * ((length n + 7) div 8))"
    using assms(4) by (intro power_increasing) auto
  also have "\<dots> = 2 ^ (64 * ((length n + 7) div 8))"
    by (simp add: power_mult)
  finally have val: "nat_of_be (mod_exp sig e n) = nat_of_be sig ^ nat_of_be e mod nat_of_be n"
    using mod_exp_value [OF assms(1) n1, of sig e] by (simp add: trim)
  have "nat_of_be (mod_exp sig e n) < 256 ^ k"
    using nat_of_be_bound [of n] n1 unfolding val k_def
    by (meson less_trans mod_less_divisor zero_less_one)
  note em = left_pad_correct [OF this, folded em_def]
  have "rsa_pkcs1_sha256_verify n e sig hash \<longleftrightarrow> pkcs1_block_ok em hash"
    using assms(3,4) em(1)
    by (auto simp: rsa_pkcs1_sha256_verify_def strip Let_def k_def [symmetric] em_def [symmetric]
        pkcs1_block_ok_def not_less not_le)
  also have "\<dots> \<longleftrightarrow> em = emsa_pkcs1 k hash"
    using pkcs1_block_ok_iff [of em hash] em(1) assms(3,5) by (simp add: k_def)
  also have "\<dots> \<longleftrightarrow> nat_of_be em = nat_of_be (emsa_pkcs1 k hash)"
  proof
    assume "nat_of_be em = nat_of_be (emsa_pkcs1 k hash)"
    moreover have "length (emsa_pkcs1 k hash) = length em"
      using em(1) assms(3,5) by (simp add: emsa_pkcs1_def k_def)
    ultimately show "em = emsa_pkcs1 k hash" by (metis be_of_nat_of_be)
  qed simp
  finally show ?thesis by (simp add: em(2) val k_def)
qed

lemma rsa_verify_correct_witness:
  "rsa_pkcs1_sha256_verify (replicate 62 0xff) [1] (emsa_pkcs1 62 (replicate 32 7)) (replicate 32 7)"
proof -
  define sg where "sg = emsa_pkcs1 62 (replicate 32 7)"
  have len: "length sg = 62" by (simp add: sg_def emsa_pkcs1_def)
  have "sg = [0] @ tl sg" by (simp add: sg_def emsa_pkcs1_def)
  then have "nat_of_be sg = nat_of_be (tl sg)"
    using nat_of_be_append [of "[0]" "tl sg"] by (simp add: nat_of_be_def)
  then have lt: "nat_of_be sg < 256 ^ 61" using nat_of_be_bound [of "tl sg"] len by simp
  have n: "replicate 62 (0xff :: byte) = [0xff] @ replicate 60 0xff @ [0xff]"
    by (simp add: replicate_append_same [symmetric]) (simp add: numeral_eq_Suc)
  have "odd (nat_of_be (replicate 62 0xff))"
    unfolding n by (simp only: append_assoc [symmetric] nat_of_be_snoc) simp
  moreover have "256 ^ 61 \<le> nat_of_be (replicate 62 0xff)"
    unfolding n by (simp only: nat_of_be_append) (simp add: nat_of_be_def)
  then have "nat_of_be sg < nat_of_be (replicate 62 0xff)" using lt by linarith
  ultimately show ?thesis
    using rsa_verify_correct [of "replicate 62 0xff" sg "replicate 32 7" "[1]"] len
    by (simp add: sg_def [symmetric]) (simp add: nat_of_be_def sg_def)
qed

section \<open>Host names\<close>

lemma eq_ic_map: "eq_ic a b \<longleftrightarrow> map ascii_lower a = map ascii_lower b"
  by (auto simp: eq_ic_def list_all2_conv_all_nth [symmetric] list_all2_iff list_all_iff
      list_eq_iff_nth_eq in_set_zip dest: map_eq_imp_length_eq)

text \<open>
  A host name is matched by a pattern when they are equal up to ASCII case, and by a pattern
  \<open>*.rest\<close> exactly when the host is one label without a dot, a dot, and \<open>rest\<close> up to case: a
  wildcard never covers two labels.
\<close>

theorem dns_match_spec:
  "(take 2 pat \<noteq> [0x2a, 0x2e] \<longrightarrow> dns_match pat host = (map ascii_lower pat = map ascii_lower host)) \<and>
   (dns_match ([0x2a, 0x2e] @ rest) host \<longleftrightarrow>
      (\<exists>label tl'. host = label @ [0x2e] @ tl' \<and> 0x2e \<notin> set label \<and>
         map ascii_lower tl' = map ascii_lower rest))"
proof (intro conjI impI)
  assume "take 2 pat \<noteq> [0x2a, 0x2e]"
  then show "dns_match pat host = (map ascii_lower pat = map ascii_lower host)"
    by (simp add: dns_match_def eq_ic_map)
next
  have lower: "ascii_lower 0x2e = 0x2e" by (simp add: ascii_lower_def)
  show "dns_match ([0x2a, 0x2e] @ rest) host \<longleftrightarrow>
      (\<exists>label tl'. host = label @ [0x2e] @ tl' \<and> 0x2e \<notin> set label \<and>
         map ascii_lower tl' = map ascii_lower rest)" (is "?l = ?r")
  proof
    assume ?l
    then obtain dot where d: "position (\<lambda>c. c = 0x2e) host = Some dot" "eq_ic (drop dot host) (0x2e # rest)"
      by (auto simp: dns_match_def split: option.splits)
    then have p: "dot < length host" "host ! dot = 0x2e" "\<forall>j < dot. host ! j \<noteq> 0x2e"
      by (auto simp: position_Some)
    have dr: "drop dot host = 0x2e # drop (Suc dot) host"
      using p(1,2) by (simp add: Cons_nth_drop_Suc [symmetric])
    have h: "host = take dot host @ [0x2e] @ drop (Suc dot) host"
      using append_take_drop_id [of dot host] dr by simp
    have "0x2e \<notin> set (take dot host)" using p by (auto simp: in_set_conv_nth)
    moreover have "map ascii_lower (drop (Suc dot) host) = map ascii_lower rest"
      using d(2) unfolding dr eq_ic_map by simp
    ultimately show ?r using h by blast
  next
    assume ?r
    then obtain label tl' where h: "host = label @ [0x2e] @ tl'" "0x2e \<notin> set label"
      "map ascii_lower tl' = map ascii_lower rest" by blast
    have "position (\<lambda>c. c = 0x2e) host = Some (length label)"
      using h(1,2) by (auto simp: position_Some nth_append) (metis nth_mem)
    then show ?l using h(1,3) by (simp add: dns_match_def eq_ic_map)
  qed
qed

lemma dns_match_spec_witness:
  "dns_match [0x61, 0x2E, 0x62] [0x41, 0x2E, 0x42] \<and> \<not> dns_match [0x2a, 0x2e, 0x62] [0x61, 0x2e, 0x61, 0x2e, 0x62]"
proof -
  have "dns_match [0x61, 0x2E, 0x62] [0x41, 0x2E, 0x42] = (map ascii_lower [0x61, 0x2E, 0x62] = map ascii_lower [0x41, 0x2E, 0x42])"
    using dns_match_spec [of "[0x61, 0x2E, 0x62]" "[0x41, 0x2E, 0x42]" "[]"] by simp
  moreover have "\<not> dns_match ([0x2a, 0x2e] @ [0x62]) [0x61, 0x2e, 0x61, 0x2e, 0x62]"
    unfolding dns_match_spec [THEN conjunct2]
    by (auto simp: Cons_eq_append_conv ascii_lower_def)
  ultimately show ?thesis by (simp add: ascii_lower_def)
qed

section \<open>The clock\<close>

lemma cmos_wait_returns:
  assumes "\<forall>k \<ge> m. rd k 0x0a AND 0x80 = 0"
  shows "\<exists>k'. cmos_wait rd k = Some k' \<and> k < k'"
proof (induction "m - k" arbitrary: k)
  case 0
  then have "rd k 0x0a AND 0x80 = 0" using assms by simp
  then show ?case by (subst cmos_wait.simps) simp
next
  case (Suc d)
  have "d = m - (k + 1)" using Suc(2) by simp
  from Suc(1) [OF this] show ?case
    by (subst cmos_wait.simps) (auto intro: less_trans [of k "k + 1"])
qed

text \<open>
  Reading the clock terminates: once the chip's update flag stays clear and the seconds
  register stops changing, from whatever read of the run, both waiting loops end and a packed time
  is returned.
\<close>

theorem now_packed_returns:
  assumes "\<forall>k \<ge> m. rd k 0x0a AND 0x80 = 0" "\<forall>k \<ge> m. rd k 0x00 = s"
  shows "\<exists>t. now_packed rd k0 = Some t"
proof (induction "m - k0" arbitrary: k0 rule: less_induct)
  case less
  obtain k where k: "cmos_wait rd k0 = Some k" "k0 < k" using cmos_wait_returns [where rd = rd and m = m, OF assms(1)] by blast
  show ?case
  proof (cases "m \<le> k")
    case True
    then have "rd (k + 6) 0x0a AND 0x80 = 0" "rd (k + 7) 0x00 = rd k 0x00" using assms by simp_all
    then show ?thesis by (subst now_packed.simps) (simp add: k Let_def)
  next
    case False
    then have "\<exists>t. now_packed rd (k + 7) = Some t" "\<exists>t. now_packed rd (k + 8) = Some t"
      using less [of "k + 7"] less [of "k + 8"] k(2) by (auto simp: diff_less_mono2)
    then show ?thesis by (subst now_packed.simps) (auto simp: k Let_def)
  qed
qed

lemma now_packed_returns_witness: "\<exists>t. now_packed (\<lambda>k reg. if k < 5 then 0x80 else 0x12) 0 = Some t"
  by (rule now_packed_returns [where m = 5 and s = "0x12"]) simp_all

section \<open>Chains\<close>

lemma chain_walk_ok:
  "chain_walk anchors cs = V_Ok \<Longrightarrow> \<exists>i < length cs.
     (\<forall>j < i. c_issuer (cs ! j) = c_subject (cs ! Suc j) \<and> verify_sig (cs ! j) (cs ! Suc j)) \<and>
     ((\<exists>a \<in> set anchors. same_anchor a (cs ! i)) \<or>
      Suc i = length cs \<and> (\<exists>a \<in> set anchors. c_subject a = c_issuer (cs ! i) \<and> verify_sig (cs ! i) a))"
proof (induction anchors cs rule: chain_walk.induct)
  case (2 anchors c)
  then show ?case by (auto simp: list_ex_iff find_Some_iff split: if_splits option.splits)
next
  case (3 anchors c c' cs)
  show ?case
  proof (cases "list_ex (\<lambda>a. same_anchor a c) anchors")
    case True
    then show ?thesis by (intro exI [of _ 0]) (auto simp: list_ex_iff)
  next
    case False
    then have l: "c_issuer c = c_subject c'" "verify_sig c c'" "chain_walk anchors (c' # cs) = V_Ok"
      using 3(2) by (auto split: if_splits)
    then obtain i where i: "i < length (c' # cs)"
      "\<forall>j < i. c_issuer ((c' # cs) ! j) = c_subject ((c' # cs) ! Suc j) \<and> verify_sig ((c' # cs) ! j) ((c' # cs) ! Suc j)"
      "(\<exists>a \<in> set anchors. same_anchor a ((c' # cs) ! i)) \<or>
      Suc i = length (c' # cs) \<and> (\<exists>a \<in> set anchors. c_subject a = c_issuer ((c' # cs) ! i) \<and> verify_sig ((c' # cs) ! i) a)"
      using 3(1) [OF False] by auto
    have "\<forall>j < Suc i. c_issuer ((c # c' # cs) ! j) = c_subject ((c # c' # cs) ! Suc j) \<and>
        verify_sig ((c # c' # cs) ! j) ((c # c' # cs) ! Suc j)"
      using i(2) l(1,2) by (auto simp: less_Suc_eq_0_disj)
    then show ?thesis using i(1,3) by (intro exI [of _ "Suc i"]) auto
  qed
qed simp

text \<open>A small self-contained certificate: one RSA key, one dNSName, an empty signature.\<close>

definition demo_der :: bytes where
  "demo_der = [
     0x30, 0x61, 0x30, 0x57, 0x02, 0x01, 0x01, 0x30, 0x00, 0x30, 0x01, 0x09, 0x30, 0x1e,
     0x17, 0x0d, 0x30, 0x30, 0x30, 0x31, 0x30, 0x31, 0x30, 0x30, 0x30, 0x30, 0x30, 0x30,
     0x5a, 0x17, 0x0d, 0x34, 0x39, 0x31, 0x32, 0x33, 0x31, 0x32, 0x33, 0x35, 0x39, 0x35,
     0x39, 0x5a, 0x30, 0x01, 0x07, 0x30, 0x18, 0x30, 0x0b, 0x06, 0x09, 0x2a, 0x86, 0x48,
     0x86, 0xf7, 0x0d, 0x01, 0x01, 0x01, 0x03, 0x09, 0x00, 0x30, 0x06, 0x02, 0x01, 0x05,
     0x02, 0x01, 0x03, 0xa3, 0x10, 0x30, 0x0e, 0x30, 0x0c, 0x06, 0x03, 0x55, 0x1d, 0x11,
     0x04, 0x05, 0x30, 0x03, 0x82, 0x01, 0x61, 0x30, 0x03, 0x06, 0x01, 0x01, 0x03, 0x01,
     0x00]"

definition demo_cert :: cert where
  "demo_cert = \<lparr>c_tbs = slice demo_der 2 91, c_sig_alg = [1], c_sig = [], c_issuer = [9], c_subject = [7],
     c_not_before = slice demo_der 16 29, c_not_after = slice demo_der 31 44,
     c_key_kind = Rsa, c_rsa_n = [5], c_rsa_e = [3], c_ec_point = [], c_san = Some [0x82, 1, 0x61]\<rparr>"

lemma demo_parse: "parse_cert demo_der = Some demo_cert"
  by code_simp

lemma demo_host: "hostname_ok demo_cert [0x41]"
  by code_simp

lemma demo_valid: "check_validity demo_cert 20250101000000"
  by (simp add: check_validity_def demo_cert_def demo_der_def slice_def parse_time_def time_tag_def
      TAG_GENTIME_def TAG_UTCTIME_def d2_def is_digit_def pack_time_def)

lemma demo_anchor: "same_anchor demo_cert demo_cert"
  by (simp add: same_anchor_def demo_cert_def)

lemma demo_unsigned: "\<not> verify_sig demo_cert a"
  by (simp add: verify_sig_def Let_def demo_cert_def OID_RSA_SHA256_def OID_ECDSA_SHA256_def)

text \<open>
  C12: An accepted chain is sound up to its trust point: every presented certificate parses and is
  inside its validity window, the leaf names the host, and there is a position such that each
  certificate below it names the next one as issuer and is signed by its key, and that position
  is either a certificate with the subject and key of an anchor, or the last one, signed by an
  anchor that it names as issuer.
\<close>

theorem validate_chain_sound:
  assumes "validate_chain trust now chain host = V_Ok"
  shows "\<exists>certs i. parse_all chain = Some certs \<and> hostname_ok (certs ! 0) host \<and>
    (\<forall>c \<in> set certs. check_validity c now) \<and> i < length certs \<and>
    (\<forall>j < i. c_issuer (certs ! j) = c_subject (certs ! Suc j) \<and> verify_sig (certs ! j) (certs ! Suc j)) \<and>
    ((\<exists>a \<in> set (List.map_filter parse_cert trust). same_anchor a (certs ! i)) \<or>
     Suc i = length certs \<and>
       (\<exists>a \<in> set (List.map_filter parse_cert trust). c_subject a = c_issuer (certs ! i) \<and> verify_sig (certs ! i) a))"
proof -
  obtain certs where c: "parse_all chain = Some certs" "hostname_ok (certs ! 0) host"
    "\<forall>c \<in> set certs. check_validity c now" "chain_walk (List.map_filter parse_cert trust) certs = V_Ok"
    using assms by (auto simp: validate_chain_def list_all_iff split: if_splits option.splits)
  then show ?thesis using chain_walk_ok [OF c(4)] by blast
qed

lemma demo_chain: "validate_chain [demo_der] 20250101000000 [demo_der] [0x41] = V_Ok"
  by (simp add: validate_chain_def parse_all_def demo_parse demo_host demo_valid demo_anchor map_filter_simps)

lemma validate_chain_sound_witness:
  "\<exists>certs. parse_all [demo_der] = Some certs \<and> hostname_ok (certs ! 0) [0x41]"
  using validate_chain_sound [OF demo_chain] by blast

text \<open>
  A presented leaf that repeats an anchor's subject and public key is accepted with no
  signature checked at all: neither the leaf's signature, nor its algorithm, nor the bytes it
  covers (its host names among them) play any part.
\<close>

theorem anchor_lookalike_accepted:
  assumes "parse_cert leaf = Some c" "hostname_ok c host" "check_validity c now"
    and "anchor \<in> set trust" "parse_cert anchor = Some a" "same_anchor a c"
  shows "validate_chain trust now [leaf] host = V_Ok"
proof -
  have "a \<in> set (List.map_filter parse_cert trust)"
    using assms(4,5) by (force simp: List.map_filter_def)
  then have "list_ex (\<lambda>a. same_anchor a c) (List.map_filter parse_cert trust)"
    using assms(6) by (auto simp: list_ex_iff)
  then show ?thesis using assms(1-3) by (simp add: validate_chain_def parse_all_def)
qed

lemma anchor_lookalike_accepted_witness:
  "validate_chain [demo_der] 20250101000000 [demo_der] [0x41] = V_Ok \<and>
   (\<forall>a. \<not> verify_sig demo_cert a)"
  using anchor_lookalike_accepted [OF demo_parse demo_host demo_valid _ demo_parse demo_anchor, of "[demo_der]"]
  by (simp add: demo_unsigned)

end
