(* ===== verification/Aead.thy ===== *)
theory Aead
  imports Sha256
begin

text \<open>
  ChaCha20, Poly1305 and the AEAD of RFC 8439, as in kernel/src/crypto.rs. ChaCha20 works on
  32-bit words. The 26-bit limbs of Poly1305 live in \<open>u32\<close> and \<open>u64\<close> registers; they are natural
  numbers here with every wrap-around of the source written out (\<open>u32_add\<close>, \<open>shl32\<close>, \<open>mod 2 ^ 64\<close>),
  so that the absence of overflow is a theorem and not an assumption.
\<close>

section \<open>ChaCha20\<close>

definition u32_of_le :: "bytes \<Rightarrow> u32" where
  "u32_of_le bs = of_nat (nat_of_le bs)"

definition le_of_u32 :: "u32 \<Rightarrow> bytes" where
  "le_of_u32 x = le_of_nat 4 (unat x)"

definition chacha_qr :: "u32 list \<Rightarrow> nat \<times> nat \<times> nat \<times> nat \<Rightarrow> u32 list" where
  "chacha_qr s ix =
     (let (a, b, c, d) = ix;
          s = s[a := s ! a + s ! b]; s = s[d := s ! d XOR s ! a]; s = s[d := rotl 16 (s ! d)];
          s = s[c := s ! c + s ! d]; s = s[b := s ! b XOR s ! c]; s = s[b := rotl 12 (s ! b)];
          s = s[a := s ! a + s ! b]; s = s[d := s ! d XOR s ! a]; s = s[d := rotl 8 (s ! d)];
          s = s[c := s ! c + s ! d]; s = s[b := s ! b XOR s ! c]
      in s[b := rotl 7 (s ! b)])"

definition chacha_double_round :: "u32 list \<Rightarrow> u32 list" where
  "chacha_double_round x =
     foldl chacha_qr x
       [(0, 4, 8, 12), (1, 5, 9, 13), (2, 6, 10, 14), (3, 7, 11, 15),
        (0, 5, 10, 15), (1, 6, 11, 12), (2, 7, 8, 13), (3, 4, 9, 14)]"

definition chacha_init :: "bytes \<Rightarrow> u32 \<Rightarrow> bytes \<Rightarrow> u32 list" where
  "chacha_init key counter nonce =
     [0x61707865, 0x3320646e, 0x79622d32, 0x6b206574] @
     map (\<lambda>i. u32_of_le [key ! (4 * i), key ! (4 * i + 1), key ! (4 * i + 2), key ! (4 * i + 3)]) [0..<8] @
     [counter] @
     map (\<lambda>i. u32_of_le [nonce ! (4 * i), nonce ! (4 * i + 1), nonce ! (4 * i + 2), nonce ! (4 * i + 3)]) [0..<3]"

definition chacha20_block :: "bytes \<Rightarrow> u32 \<Rightarrow> bytes \<Rightarrow> bytes" where
  "chacha20_block key counter nonce =
     (let s = chacha_init key counter nonce;
          x = (chacha_double_round ^^ 10) s
      in concat (map (\<lambda>i. le_of_u32 (x ! i + s ! i)) [0..<16]))"

fun chacha_loop :: "bytes \<Rightarrow> u32 \<Rightarrow> bytes \<Rightarrow> bytes \<Rightarrow> bytes" where
  "chacha_loop key ctr nonce data =
     (if data = [] then []
      else let ks = chacha20_block key ctr nonce; n = min (length data) 64
           in map (\<lambda>i. data ! i XOR ks ! i) [0..<n] @ chacha_loop key (ctr + 1) nonce (drop n data))"

declare chacha_loop.simps [simp del]

definition chacha20_xor :: "bytes \<Rightarrow> u32 \<Rightarrow> bytes \<Rightarrow> bytes \<Rightarrow> bytes" where
  "chacha20_xor key counter nonce data = chacha_loop key counter nonce data"

section \<open>Poly1305\<close>

record poly1305 =
  p_r :: "nat list"
  p_h :: "nat list"
  p_pad :: "nat list"
  p_leftover :: nat
  p_buffer :: bytes
  p_finished :: bool

definition shl32 :: "nat \<Rightarrow> nat \<Rightarrow> nat" where
  "shl32 x n = x * 2 ^ n mod 2 ^ 32"

text \<open>\<open>rd(i)\<close>: the little-endian word at byte \<open>i\<close>.\<close>

definition rd32 :: "bytes \<Rightarrow> nat \<Rightarrow> nat" where
  "rd32 m i = nat_of_le [m ! i, m ! (i + 1), m ! (i + 2), m ! (i + 3)]"

definition poly_new :: "bytes \<Rightarrow> poly1305" where
  "poly_new key =
     (let t0 = rd32 key 0; t1 = rd32 key 4; t2 = rd32 key 8; t3 = rd32 key 12
      in \<lparr>p_r = [and t0 0x3ffffff,
                 and (or (t0 div 2 ^ 26) (shl32 t1 6)) 0x3ffff03,
                 and (or (t1 div 2 ^ 20) (shl32 t2 12)) 0x3ffc0ff,
                 and (or (t2 div 2 ^ 14) (shl32 t3 18)) 0x3f03fff,
                 and (t3 div 2 ^ 8) 0x00fffff],
          p_h = [0, 0, 0, 0, 0],
          p_pad = [rd32 key 16, rd32 key 20, rd32 key 24, rd32 key 28],
          p_leftover = 0, p_buffer = replicate 16 0, p_finished = False\<rparr>)"

text \<open>One turn of the loop of \<open>blocks\<close>, on a block of 16 bytes.\<close>

definition poly_add_block :: "nat \<Rightarrow> bytes \<Rightarrow> nat list \<Rightarrow> nat list" where
  "poly_add_block hibit m h =
     (let t0 = rd32 m 0; t1 = rd32 m 4; t2 = rd32 m 8; t3 = rd32 m 12
      in [u32_add (h ! 0) (and t0 0x3ffffff),
          u32_add (h ! 1) (and (or (t0 div 2 ^ 26) (shl32 t1 6)) 0x3ffffff),
          u32_add (h ! 2) (and (or (t1 div 2 ^ 20) (shl32 t2 12)) 0x3ffffff),
          u32_add (h ! 3) (and (or (t2 div 2 ^ 14) (shl32 t3 18)) 0x3ffffff),
          u32_add (h ! 4) (or (t3 div 2 ^ 8) hibit)])"

definition poly_mul :: "nat list \<Rightarrow> nat list \<Rightarrow> nat list" where
  "poly_mul r h =
     (let r0 = r ! 0; r1 = r ! 1; r2 = r ! 2; r3 = r ! 3; r4 = r ! 4;
          s1 = r1 * 5 mod 2 ^ 32; s2 = r2 * 5 mod 2 ^ 32; s3 = r3 * 5 mod 2 ^ 32; s4 = r4 * 5 mod 2 ^ 32;
          h0 = h ! 0; h1 = h ! 1; h2 = h ! 2; h3 = h ! 3; h4 = h ! 4
      in [(h0 * r0 + h1 * s4 + h2 * s3 + h3 * s2 + h4 * s1) mod 2 ^ 64,
          (h0 * r1 + h1 * r0 + h2 * s4 + h3 * s3 + h4 * s2) mod 2 ^ 64,
          (h0 * r2 + h1 * r1 + h2 * r0 + h3 * s4 + h4 * s3) mod 2 ^ 64,
          (h0 * r3 + h1 * r2 + h2 * r1 + h3 * r0 + h4 * s4) mod 2 ^ 64,
          (h0 * r4 + h1 * r3 + h2 * r2 + h3 * r1 + h4 * r0) mod 2 ^ 64])"

text \<open>\<open>c = (d >> 26) as u32\<close> and \<open>h = (d as u32) & 0x3ffffff\<close>.\<close>

definition poly_carry :: "nat list \<Rightarrow> nat list" where
  "poly_carry d =
     (let d0 = d ! 0;
          c = d0 div 2 ^ 26 mod 2 ^ 32; h0 = and (d0 mod 2 ^ 32) 0x3ffffff;
          d1 = (d ! 1 + c) mod 2 ^ 64; c = d1 div 2 ^ 26 mod 2 ^ 32; h1 = and (d1 mod 2 ^ 32) 0x3ffffff;
          d2 = (d ! 2 + c) mod 2 ^ 64; c = d2 div 2 ^ 26 mod 2 ^ 32; h2 = and (d2 mod 2 ^ 32) 0x3ffffff;
          d3 = (d ! 3 + c) mod 2 ^ 64; c = d3 div 2 ^ 26 mod 2 ^ 32; h3 = and (d3 mod 2 ^ 32) 0x3ffffff;
          d4 = (d ! 4 + c) mod 2 ^ 64; c = d4 div 2 ^ 26 mod 2 ^ 32; h4 = and (d4 mod 2 ^ 32) 0x3ffffff;
          h0 = u32_add h0 (c * 5 mod 2 ^ 32); c = h0 div 2 ^ 26; h0 = and h0 0x3ffffff;
          h1 = u32_add h1 c
      in [h0, h1, h2, h3, h4])"

fun poly_blocks_loop :: "nat list \<Rightarrow> nat \<Rightarrow> bytes \<Rightarrow> nat list \<Rightarrow> nat list" where
  "poly_blocks_loop r hibit m h =
     (if 16 \<le> length m then
        poly_blocks_loop r hibit (drop 16 m) (poly_carry (poly_mul r (poly_add_block hibit m h)))
      else h)"

declare poly_blocks_loop.simps [simp del]

definition poly_blocks :: "poly1305 \<Rightarrow> bytes \<Rightarrow> bool \<Rightarrow> poly1305" where
  "poly_blocks p m full =
     p\<lparr>p_h := poly_blocks_loop (p_r p) (if full then 2 ^ 24 else 0) m (p_h p)\<rparr>"

text \<open>\<open>update\<close> after the partly filled buffer has been dealt with.\<close>

definition poly_update_rest :: "poly1305 \<Rightarrow> bytes \<Rightarrow> poly1305" where
  "poly_update_rest p data =
     (let (p, data) =
            (if 16 \<le> length data then
               let n = 16 * (length data div 16) in (poly_blocks p (take n data) True, drop n data)
             else (p, data))
      in if data \<noteq> [] then p\<lparr>p_buffer := blit (p_buffer p) 0 data, p_leftover := length data\<rparr> else p)"

definition poly_update :: "poly1305 \<Rightarrow> bytes \<Rightarrow> poly1305" where
  "poly_update p data =
     (if 0 < p_leftover p then
        let want = min (16 - p_leftover p) (length data);
            p = p\<lparr>p_buffer := blit (p_buffer p) (p_leftover p) (take want data),
                  p_leftover := p_leftover p + want\<rparr>;
            data = drop want data
        in if p_leftover p < 16 then p
           else poly_update_rest ((poly_blocks p (p_buffer p) True)\<lparr>p_leftover := 0\<rparr>) data
      else poly_update_rest p data)"

text \<open>The final carries, the comparison with $2^{130} - 5$, and the addition of the pad.\<close>

definition poly_full_carry :: "nat list \<Rightarrow> nat list" where
  "poly_full_carry h =
     (let h0 = h ! 0; h1 = h ! 1; h2 = h ! 2; h3 = h ! 3; h4 = h ! 4;
          c = h1 div 2 ^ 26; h1 = and h1 0x3ffffff; h2 = u32_add h2 c;
          c = h2 div 2 ^ 26; h2 = and h2 0x3ffffff; h3 = u32_add h3 c;
          c = h3 div 2 ^ 26; h3 = and h3 0x3ffffff; h4 = u32_add h4 c;
          c = h4 div 2 ^ 26; h4 = and h4 0x3ffffff; h0 = u32_add h0 (c * 5 mod 2 ^ 32);
          c = h0 div 2 ^ 26; h0 = and h0 0x3ffffff; h1 = u32_add h1 c
      in [h0, h1, h2, h3, h4])"

definition poly_reduce :: "nat list \<Rightarrow> nat list" where
  "poly_reduce h =
     (let g0 = u32_add (h ! 0) 5; c = g0 div 2 ^ 26; g0 = and g0 0x3ffffff;
          g1 = u32_add (h ! 1) c; c = g1 div 2 ^ 26; g1 = and g1 0x3ffffff;
          g2 = u32_add (h ! 2) c; c = g2 div 2 ^ 26; g2 = and g2 0x3ffffff;
          g3 = u32_add (h ! 3) c; c = g3 div 2 ^ 26; g3 = and g3 0x3ffffff;
          g4 = (u32_add (h ! 4) c + (2 ^ 32 - 2 ^ 26)) mod 2 ^ 32;
          mask = (g4 div 2 ^ 31 + (2 ^ 32 - 1)) mod 2 ^ 32;
          nmask = 2 ^ 32 - 1 - mask
      in [or (and (h ! 0) nmask) (and g0 mask), or (and (h ! 1) nmask) (and g1 mask),
          or (and (h ! 2) nmask) (and g2 mask), or (and (h ! 3) nmask) (and g3 mask),
          or (and (h ! 4) nmask) (and g4 mask)])"

definition poly_serialise :: "nat list \<Rightarrow> nat list \<Rightarrow> bytes" where
  "poly_serialise pad h =
     (let f0 = or (h ! 0) (shl32 (h ! 1) 26) + pad ! 0;
          f1 = or (h ! 1 div 2 ^ 6) (shl32 (h ! 2) 20) + pad ! 1;
          f2 = or (h ! 2 div 2 ^ 12) (shl32 (h ! 3) 14) + pad ! 2;
          f3 = or (h ! 3 div 2 ^ 18) (shl32 (h ! 4) 8) + pad ! 3;
          f = f0; o0 = le_of_nat 4 f;
          f = f div 2 ^ 32 + f1; o1 = le_of_nat 4 f;
          f = f div 2 ^ 32 + f2; o2 = le_of_nat 4 f;
          f = f div 2 ^ 32 + f3; o3 = le_of_nat 4 f
      in o0 @ o1 @ o2 @ o3)"

definition poly_finalize :: "poly1305 \<Rightarrow> bytes" where
  "poly_finalize p =
     (let p = (if 0 < p_leftover p then
                 let buf = (p_buffer p)[p_leftover p := 1];
                     buf = blit buf (p_leftover p + 1) (replicate (16 - (p_leftover p + 1)) 0)
                 in poly_blocks (p\<lparr>p_buffer := buf, p_finished := True\<rparr>) buf False
               else p)
      in poly_serialise (p_pad p) (poly_reduce (poly_full_carry (p_h p))))"

section \<open>The AEAD\<close>

definition poly1305_key :: "bytes \<Rightarrow> bytes \<Rightarrow> bytes" where
  "poly1305_key key nonce = take 32 (chacha20_block key 0 nonce)"

definition pad16_update :: "poly1305 \<Rightarrow> nat \<Rightarrow> poly1305" where
  "pad16_update p len =
     (let k = (16 - len mod 16) mod 16 in if 0 < k then poly_update p (replicate k 0) else p)"

definition poly1305_tag :: "bytes \<Rightarrow> bytes \<Rightarrow> bytes \<Rightarrow> bytes" where
  "poly1305_tag otk aad ct =
     (let p = poly_new otk;
          p = poly_update p aad;
          p = pad16_update p (length aad);
          p = poly_update p ct;
          p = pad16_update p (length ct);
          p = poly_update p (le_of_nat 8 (length aad) @ le_of_nat 8 (length ct))
      in poly_finalize p)"

definition aead_seal :: "bytes \<Rightarrow> bytes \<Rightarrow> bytes \<Rightarrow> bytes \<Rightarrow> bytes \<times> bytes" where
  "aead_seal key nonce aad buf =
     (let otk = poly1305_key key nonce;
          ct = chacha20_xor key 1 nonce buf
      in (ct, poly1305_tag otk aad ct))"

definition aead_open :: "bytes \<Rightarrow> bytes \<Rightarrow> bytes \<Rightarrow> bytes \<Rightarrow> bytes \<Rightarrow> bool \<times> bytes" where
  "aead_open key nonce aad buf tag =
     (let otk = poly1305_key key nonce;
          expect = poly1305_tag otk aad buf;
          diff = foldl (\<lambda>d i. d OR (expect ! i XOR tag ! i)) 0 [0..<16]
      in if diff \<noteq> 0 then (False, buf) else (True, chacha20_xor key 1 nonce buf))"

end
