(* ===== verification/Poly1305.thy ===== *)
theory Poly1305
  imports Aead Bignum_Exp
begin

text \<open>
  The 26-bit limb arithmetic of Poly1305 computes modulo $2^{130} - 5$: no \<open>u32\<close> or \<open>u64\<close>
  operation of the block loop overflows, one turn multiplies the accumulator plus the block by the
  clamped key, and the final steps reduce it fully and add the pad.
\<close>

definition P1305 :: nat where
  "P1305 = 2 ^ 130 - 5"

lemma P1305_val: "P1305 = 1361129467683753853853498429727072845819"
  by (simp add: P1305_def)

definition val5 :: "nat list \<Rightarrow> nat" where
  "val5 h = h ! 0 + 2 ^ 26 * h ! 1 + 2 ^ 52 * h ! 2 + 2 ^ 78 * h ! 3 + 2 ^ 104 * h ! 4"

section \<open>Limbs of a block\<close>

lemma and_mask26: "and (x :: nat) 0x3ffffff = x mod 2 ^ 26"
  using take_bit_eq_mask [of 26 x] by (simp add: mask_eq_exp_minus_1 take_bit_eq_mod)

lemma or_shl32:
  assumes "a < 2 ^ s" "s \<le> 32"
  shows "or a (shl32 t s) = a + t mod 2 ^ (32 - s) * 2 ^ s"
proof -
  have "shl32 t s = push_bit s (t mod 2 ^ (32 - s))"
    using assms(2) mult_mod_right [of "2 ^ s" t "2 ^ (32 - s)"]
    by (simp add: shl32_def push_bit_eq_mult mult.commute power_add [symmetric])
  then show ?thesis using or_push_bit_add [OF assms(1)] by simp
qed

lemma limb26:
  assumes "a < 2 ^ s" "s \<le> 26"
  shows "and (or a (shl32 t s)) 0x3ffffff = a + t mod 2 ^ (26 - s) * 2 ^ s"
proof -
  have "(2 :: nat) ^ 26 = 2 ^ s * 2 ^ (26 - s)" using assms(2) by (simp add: power_add [symmetric])
  then have "(a + t mod 2 ^ (32 - s) * 2 ^ s) mod 2 ^ 26 =
      2 ^ s * ((a + t mod 2 ^ (32 - s) * 2 ^ s) div 2 ^ s mod 2 ^ (26 - s)) + (a + t mod 2 ^ (32 - s) * 2 ^ s) mod 2 ^ s"
    by (simp only: mod_mult2_eq)
  also have "(a + t mod 2 ^ (32 - s) * 2 ^ s) div 2 ^ s = t mod 2 ^ (32 - s)" using assms(1) by simp
  also have "(a + t mod 2 ^ (32 - s) * 2 ^ s) mod 2 ^ s = a" using assms(1) by simp
  also have "t mod 2 ^ (32 - s) mod 2 ^ (26 - s) = t mod 2 ^ (26 - s)"
    using assms(2) by (intro mod_mod_cancel le_imp_power_dvd) simp
  finally have "(a + t mod 2 ^ (32 - s) * 2 ^ s) mod 2 ^ 26 = a + t mod 2 ^ (26 - s) * 2 ^ s" by simp
  then show ?thesis using or_shl32 [OF assms(1)] assms(2) by (simp only: and_mask26) 
qed

lemma rd32_lt: "rd32 m i < 2 ^ 32"
  using nat_of_le_bound [of "[m ! i, m ! (i + 1), m ! (i + 2), m ! (i + 3)]"] by (simp add: rd32_def)

lemma rd32_block:
  assumes "length m = 16"
  shows "nat_of_le m = rd32 m 0 + 2 ^ 32 * rd32 m 4 + 2 ^ 64 * rd32 m 8 + 2 ^ 96 * rd32 m 12"
proof -
  obtain m0 m1 m2 m3 m4 m5 m6 m7 m8 m9 ma mb mc md me mf where
    "m = [m0, m1, m2, m3, m4, m5, m6, m7, m8, m9, ma, mb, mc, md, me, mf]"
    using assms by (auto simp: length_Suc_conv numeral_eq_Suc)
  then show ?thesis by (simp add: rd32_def)
qed

text \<open>The five limbs the code cuts a block into, and what they are worth.\<close>

definition limbs5 :: "bytes \<Rightarrow> nat list" where
  "limbs5 m =
     (let t0 = rd32 m 0; t1 = rd32 m 4; t2 = rd32 m 8; t3 = rd32 m 12
      in [and t0 0x3ffffff,
          and (or (t0 div 2 ^ 26) (shl32 t1 6)) 0x3ffffff,
          and (or (t1 div 2 ^ 20) (shl32 t2 12)) 0x3ffffff,
          and (or (t2 div 2 ^ 14) (shl32 t3 18)) 0x3ffffff,
          t3 div 2 ^ 8])"

lemma limbs5_val:
  assumes "length m = 16"
  shows "val5 (limbs5 m) = nat_of_le m" "limbs5 m ! 0 < 2 ^ 26" "limbs5 m ! 1 < 2 ^ 26"
    "limbs5 m ! 2 < 2 ^ 26" "limbs5 m ! 3 < 2 ^ 26" "limbs5 m ! 4 < 2 ^ 24"
proof -
  define t0 t1 t2 t3 where "t0 = rd32 m 0" and "t1 = rd32 m 4" and "t2 = rd32 m 8" and "t3 = rd32 m 12"
  have t: "t0 < 4294967296" "t1 < 4294967296" "t2 < 4294967296" "t3 < 4294967296"
    using rd32_lt [of m] by (simp_all add: t0_def t1_def t2_def t3_def)
  have d: "t0 div 2 ^ 26 < 2 ^ 6" "t1 div 2 ^ 20 < 2 ^ 12" "t2 div 2 ^ 14 < 2 ^ 18" "t3 div 2 ^ 8 < 2 ^ 24"
    using t by (simp_all add: div_less_iff_less_mult)
  have l: "limbs5 m = [t0 mod 67108864, t0 div 67108864 + t1 mod 1048576 * 64,
      t1 div 1048576 + t2 mod 16384 * 4096, t2 div 16384 + t3 mod 256 * 262144, t3 div 256]"
    using limb26 [OF d(1), of t1] limb26 [OF d(2), of t2] limb26 [OF d(3), of t3]
    by (simp add: limbs5_def Let_def t0_def [symmetric] t1_def [symmetric] t2_def [symmetric]
        t3_def [symmetric] and_mask26)
  have e: "t0 = t0 mod 67108864 + 67108864 * (t0 div 67108864)" "t1 = t1 mod 1048576 + 1048576 * (t1 div 1048576)"
    "t2 = t2 mod 16384 + 16384 * (t2 div 16384)" "t3 = t3 mod 256 + 256 * (t3 div 256)" by simp_all
  show "val5 (limbs5 m) = nat_of_le m"
    unfolding rd32_block [OF assms] t0_def [symmetric] t1_def [symmetric] t2_def [symmetric] t3_def [symmetric]
      l val5_def by simp (use e in linarith)
  have "t1 mod 1048576 < 1048576" "t2 mod 16384 < 16384" "t3 mod 256 < 256" "t0 mod 67108864 < 67108864" by simp_all
  then have "t0 mod 67108864 < 67108864" "t0 div 67108864 + t1 mod 1048576 * 64 < 67108864"
      "t1 div 1048576 + t2 mod 16384 * 4096 < 67108864" "t2 div 16384 + t3 mod 256 * 262144 < 67108864"
    using d by simp_all
  then show "limbs5 m ! 0 < 2 ^ 26" "limbs5 m ! 1 < 2 ^ 26" "limbs5 m ! 2 < 2 ^ 26" "limbs5 m ! 3 < 2 ^ 26"
    by (simp_all add: l)
  show "limbs5 m ! 4 < 2 ^ 24" using d(4) by (simp add: l)
qed

section \<open>One turn of the loop\<close>

text \<open>The accumulator between blocks, and the clamped key.\<close>

definition h_ok :: "nat list \<Rightarrow> bool" where
  "h_ok h \<longleftrightarrow> length h = 5 \<and> h ! 0 < 2 ^ 26 \<and> h ! 1 < 2 ^ 26 + 2 ^ 6 \<and> h ! 2 < 2 ^ 26 \<and> h ! 3 < 2 ^ 26 \<and> h ! 4 < 2 ^ 26"

definition r_ok :: "nat list \<Rightarrow> bool" where
  "r_ok r \<longleftrightarrow> length r = 5 \<and> r ! 0 < 2 ^ 26 \<and> r ! 1 < 2 ^ 26 \<and> r ! 2 < 2 ^ 26 \<and> r ! 3 < 2 ^ 26 \<and> r ! 4 < 2 ^ 20"

definition a_ok :: "nat list \<Rightarrow> bool" where
  "a_ok a \<longleftrightarrow> length a = 5 \<and> a ! 0 < 2 ^ 27 + 2 ^ 6 \<and> a ! 1 < 2 ^ 27 + 2 ^ 6 \<and> a ! 2 < 2 ^ 27 + 2 ^ 6 \<and>
     a ! 3 < 2 ^ 27 + 2 ^ 6 \<and> a ! 4 < 2 ^ 27 + 2 ^ 6"

lemma poly_add_block_correct:
  assumes "length m = 16" "h_ok h" "b \<le> 1"
  shows "a_ok (poly_add_block (b * 2 ^ 24) m h)"
    "val5 (poly_add_block (b * 2 ^ 24) m h) = val5 h + nat_of_le m + b * 2 ^ 128"
proof -
  define l where "l = limbs5 m"
  have l: "l ! 0 < 67108864" "l ! 1 < 67108864" "l ! 2 < 67108864" "l ! 3 < 67108864" "l ! 4 < 16777216"
    using limbs5_val(2-6) [OF assms(1)] by (simp_all add: l_def)
  have hi: "or (l ! 4) (b * 2 ^ 24) = l ! 4 + b * 2 ^ 24"
    using or_push_bit_add [of "l ! 4" 24 b] l(5) by (simp add: push_bit_eq_mult)
  have h: "h ! 0 < 67108864" "h ! 1 < 67108928" "h ! 2 < 67108864" "h ! 3 < 67108864" "h ! 4 < 67108864"
    using assms(2) by (simp_all add: h_ok_def)
  have eq: "poly_add_block (b * 2 ^ 24) m h =
      [h ! 0 + l ! 0, h ! 1 + l ! 1, h ! 2 + l ! 2, h ! 3 + l ! 3, h ! 4 + (l ! 4 + b * 2 ^ 24)]"
  proof -
    have "poly_add_block (b * 2 ^ 24) m h =
      [u32_add (h ! 0) (l ! 0), u32_add (h ! 1) (l ! 1), u32_add (h ! 2) (l ! 2), u32_add (h ! 3) (l ! 3),
       u32_add (h ! 4) (or (l ! 4) (b * 2 ^ 24))]"
      by (simp add: poly_add_block_def l_def limbs5_def Let_def)
    then show ?thesis using h l assms(3) unfolding hi by simp
  qed
  show "a_ok (poly_add_block (b * 2 ^ 24) m h)"
    unfolding a_ok_def eq using h l assms(3) by simp
  show "val5 (poly_add_block (b * 2 ^ 24) m h) = val5 h + nat_of_le m + b * 2 ^ 128"
    unfolding eq limbs5_val(1) [OF assms(1), symmetric] l_def [symmetric] by (simp add: val5_def)
qed

text \<open>The product of five limbs by five, folded at $2^{130}$; the bounds keep it inside \<open>u64\<close>.\<close>

lemma mul_bound: "(x :: nat) \<le> a \<Longrightarrow> y \<le> b \<Longrightarrow> x * y \<le> a * b"
  by (rule mult_le_mono)

lemma product5:
  fixes h0 h1 h2 h3 h4 r0 r1 r2 r3 r4 :: nat
  defines "K \<equiv> h1 * r4 + h2 * r3 + h3 * r2 + h4 * r1 + 2 ^ 26 * (h2 * r4 + h3 * r3 + h4 * r2) +
      2 ^ 52 * (h3 * r4 + h4 * r3) + 2 ^ 78 * (h4 * r4)"
  shows "val5 [h0, h1, h2, h3, h4] * val5 [r0, r1, r2, r3, r4] =
    val5 [h0 * r0 + h1 * (r4 * 5) + h2 * (r3 * 5) + h3 * (r2 * 5) + h4 * (r1 * 5),
          h0 * r1 + h1 * r0 + h2 * (r4 * 5) + h3 * (r3 * 5) + h4 * (r2 * 5),
          h0 * r2 + h1 * r1 + h2 * r0 + h3 * (r4 * 5) + h4 * (r3 * 5),
          h0 * r3 + h1 * r2 + h2 * r1 + h3 * r0 + h4 * (r4 * 5),
          h0 * r4 + h1 * r3 + h2 * r2 + h3 * r1 + h4 * r0] + P1305 * K"
  unfolding P1305_val by (simp add: val5_def K_def algebra_simps)

text \<open>Bounds on the five sums: all fit in 64 bits, the last is below $2^{56}$.\<close>

definition d_ok :: "nat list \<Rightarrow> bool" where
  "d_ok d \<longleftrightarrow> length d = 5 \<and> d ! 0 < 2 ^ 58 - 2 ^ 40 \<and> d ! 1 < 2 ^ 58 - 2 ^ 40 \<and> d ! 2 < 2 ^ 58 - 2 ^ 40 \<and>
     d ! 3 < 2 ^ 58 - 2 ^ 40 \<and> d ! 4 < 2 ^ 55 + 2 ^ 48"

lemma poly_mul_correct:
  assumes "a_ok a" "r_ok r"
  shows "d_ok (poly_mul r a)" "\<exists>K. val5 a * val5 r = val5 (poly_mul r a) + P1305 * K"
proof -
  define h0 h1 h2 h3 h4 where "h0 = a ! 0" and "h1 = a ! 1" and "h2 = a ! 2" and "h3 = a ! 3" and "h4 = a ! 4"
  define r0 r1 r2 r3 r4 where "r0 = r ! 0" and "r1 = r ! 1" and "r2 = r ! 2" and "r3 = r ! 3" and "r4 = r ! 4"
  note folds = h0_def [symmetric] h1_def [symmetric] h2_def [symmetric] h3_def [symmetric] h4_def [symmetric]
    r0_def [symmetric] r1_def [symmetric] r2_def [symmetric] r3_def [symmetric] r4_def [symmetric]
  have h: "h0 \<le> 134217791" "h1 \<le> 134217791" "h2 \<le> 134217791" "h3 \<le> 134217791" "h4 \<le> 134217791"
    using assms(1) by (simp_all add: a_ok_def h0_def h1_def h2_def h3_def h4_def)
  have r: "r0 \<le> 67108863" "r1 \<le> 67108863" "r2 \<le> 67108863" "r3 \<le> 67108863" "r4 \<le> 1048575"
    using assms(2) by (simp_all add: r_ok_def r0_def r1_def r2_def r3_def r4_def)
  have s: "r1 * 5 \<le> 335544315" "r2 * 5 \<le> 335544315" "r3 * 5 \<le> 335544315" "r4 * 5 \<le> 5242875"
    using r by simp_all
  note hr = h [THEN mul_bound]
  define d0 d1 d2 d3 d4 where
    "d0 = h0 * r0 + h1 * (r4 * 5) + h2 * (r3 * 5) + h3 * (r2 * 5) + h4 * (r1 * 5)" and
    "d1 = h0 * r1 + h1 * r0 + h2 * (r4 * 5) + h3 * (r3 * 5) + h4 * (r2 * 5)" and
    "d2 = h0 * r2 + h1 * r1 + h2 * r0 + h3 * (r4 * 5) + h4 * (r3 * 5)" and
    "d3 = h0 * r3 + h1 * r2 + h2 * r1 + h3 * r0 + h4 * (r4 * 5)" and
    "d4 = h0 * r4 + h1 * r3 + h2 * r2 + h3 * r1 + h4 * r0"
  have d: "d0 < 288229276640083968" "d1 < 288229276640083968" "d2 < 288229276640083968" "d3 < 288229276640083968"
    "d4 < 36310271995674624"
    unfolding d0_def d1_def d2_def d3_def d4_def
    using mul_bound [OF h(1) r(1)] mul_bound [OF h(2) s(4)] mul_bound [OF h(3) s(3)] mul_bound [OF h(4) s(2)] mul_bound [OF h(5) s(1)]
      mul_bound [OF h(1) r(2)] mul_bound [OF h(2) r(1)] mul_bound [OF h(3) s(4)] mul_bound [OF h(4) s(3)] mul_bound [OF h(5) s(2)]
      mul_bound [OF h(1) r(3)] mul_bound [OF h(2) r(2)] mul_bound [OF h(3) r(1)] mul_bound [OF h(4) s(4)] mul_bound [OF h(5) s(3)]
      mul_bound [OF h(1) r(4)] mul_bound [OF h(2) r(3)] mul_bound [OF h(3) r(2)] mul_bound [OF h(4) r(1)] mul_bound [OF h(5) s(4)]
      mul_bound [OF h(1) r(5)] mul_bound [OF h(2) r(4)] mul_bound [OF h(3) r(3)] mul_bound [OF h(4) r(2)] mul_bound [OF h(5) r(1)]
    by simp_all
  have eq: "poly_mul r a = [d0, d1, d2, d3, d4]"
  proof -
    have m: "r1 * 5 mod 2 ^ 32 = r1 * 5" "r2 * 5 mod 2 ^ 32 = r2 * 5" "r3 * 5 mod 2 ^ 32 = r3 * 5" "r4 * 5 mod 2 ^ 32 = r4 * 5"
      using s by simp_all
    have d64: "d0 mod 2 ^ 64 = d0" "d1 mod 2 ^ 64 = d1" "d2 mod 2 ^ 64 = d2" "d3 mod 2 ^ 64 = d3" "d4 mod 2 ^ 64 = d4"
      using d by simp_all
    show ?thesis
      unfolding poly_mul_def Let_def folds m
      unfolding d0_def [symmetric] d1_def [symmetric] d2_def [symmetric] d3_def [symmetric] d4_def [symmetric] d64
      by (rule refl)
  qed
  show "d_ok (poly_mul r a)" using d by (simp add: eq d_ok_def)
  have "val5 a = val5 [h0, h1, h2, h3, h4]" "val5 r = val5 [r0, r1, r2, r3, r4]"
    by (simp_all add: val5_def h0_def h1_def h2_def h3_def h4_def r0_def r1_def r2_def r3_def r4_def)
  then show "\<exists>K. val5 a * val5 r = val5 (poly_mul r a) + P1305 * K"
    using product5 [of h0 h1 h2 h3 h4 r0 r1 r2 r3 r4] by (simp only: eq d0_def d1_def d2_def d3_def d4_def) blast
qed

lemma carry_step:
  fixes d :: nat
  assumes "d < 288230376151711744"
  shows "d div 2 ^ 26 mod 2 ^ 32 = d div 67108864" "and (d mod 2 ^ 32) 0x3ffffff = d mod 67108864"
    "d div 67108864 < 4294967296" "d mod 67108864 < 67108864" "d = 67108864 * (d div 67108864) + d mod 67108864"
proof -
  have c: "d div 67108864 < 4294967296" using assms by (simp add: div_less_iff_less_mult)
  then show "d div 67108864 < 4294967296" "d div 2 ^ 26 mod 2 ^ 32 = d div 67108864" by simp_all
  have "(d mod 2 ^ 32) mod 2 ^ 26 = d mod 2 ^ 26" by (rule mod_mod_cancel) (simp add: le_imp_power_dvd)
  then show "and (d mod 2 ^ 32) 0x3ffffff = d mod 67108864" unfolding and_mask26 by simp
qed simp_all

lemma poly_carry_correct:
  assumes "d_ok d"
  shows "h_ok (poly_carry d)" "\<exists>K. val5 d = val5 (poly_carry d) + P1305 * K"
proof -
  have b: "d ! 0 < 288229276640083968" "d ! 1 < 288229276640083968" "d ! 2 < 288229276640083968"
    "d ! 3 < 288229276640083968" "d ! 4 < 36310271995674624"
    using assms by (simp_all add: d_ok_def)
  define c0 h0 where "c0 = d ! 0 div 67108864" and "h0 = d ! 0 mod 67108864"
  define d1 where "d1 = d ! 1 + c0"
  define c1 h1 where "c1 = d1 div 67108864" and "h1 = d1 mod 67108864"
  define d2 where "d2 = d ! 2 + c1"
  define c2 h2 where "c2 = d2 div 67108864" and "h2 = d2 mod 67108864"
  define d3 where "d3 = d ! 3 + c2"
  define c3 h3 where "c3 = d3 div 67108864" and "h3 = d3 mod 67108864"
  define d4 where "d4 = d ! 4 + c3"
  define c4 h4 where "c4 = d4 div 67108864" and "h4 = d4 mod 67108864"
  define e0 where "e0 = h0 + c4 * 5"
  have d0: "d ! 0 < 288230376151711744" using b(1) by simp
  note s0 = carry_step [OF d0, folded c0_def h0_def]
  have d1: "d1 < 288230376151711744" using b(2) s0(3) by (simp add: d1_def)
  note s1 = carry_step [OF d1, folded c1_def h1_def]
  have d2: "d2 < 288230376151711744" using b(3) s1(3) by (simp add: d2_def)
  note s2 = carry_step [OF d2, folded c2_def h2_def]
  have d3: "d3 < 288230376151711744" using b(4) s2(3) by (simp add: d3_def)
  note s3 = carry_step [OF d3, folded c3_def h3_def]
  have d4: "d4 < 36310276290641920" using b(5) s3(3) by (simp add: d4_def)
  then have d4': "d4 < 288230376151711744" by simp
  note s4 = carry_step [OF d4', folded c4_def h4_def]
  have c4: "c4 < 541065280" using d4 by (simp add: c4_def div_less_iff_less_mult)
  have e0: "e0 < 2772435264" using c4 s0(4) by (simp add: e0_def)
  have c5: "e0 div 67108864 < 64" using e0 by (simp add: div_less_iff_less_mult)
  have m1: "(d ! 1 + c0) mod 2 ^ 64 = d1" "(d ! 2 + c1) mod 2 ^ 64 = d2" "(d ! 3 + c2) mod 2 ^ 64 = d3"
    "(d ! 4 + c3) mod 2 ^ 64 = d4"
    using d1 d2 d3 d4 by (simp_all add: d1_def d2_def d3_def d4_def)
  have m2: "c4 * 5 mod 2 ^ 32 = c4 * 5" "u32_add h0 (c4 * 5) = e0"
    using c4 e0 by (simp_all add: e0_def)
  have m3: "e0 div 2 ^ 26 = e0 div 67108864" "and e0 0x3ffffff = e0 mod 67108864"
    unfolding and_mask26 by simp_all
  have m4: "u32_add h1 (e0 div 67108864) = h1 + e0 div 67108864" using s1(4) c5 by simp
  have eq: "poly_carry d = [e0 mod 67108864, h1 + e0 div 67108864, h2, h3, h4]"
    unfolding poly_carry_def Let_def s0(1,2) m1 s1(1,2) s2(1,2) s3(1,2) s4(1,2) m2 m3 m4 by (rule refl)
  show "h_ok (poly_carry d)"
    using s1(4) s2(4) s3(4) s4(4) c5 by (simp add: eq h_ok_def)
  have "e0 = 67108864 * (e0 div 67108864) + e0 mod 67108864" by simp
  then have "val5 d = val5 (poly_carry d) + P1305 * c4"
    unfolding P1305_val eq val5_def using s0(5) s1(5) s2(5) s3(5) s4(5) d1_def d2_def d3_def d4_def e0_def
    by simp
  then show "\<exists>K. val5 d = val5 (poly_carry d) + P1305 * K" by blast
qed

text \<open>One block: the accumulator plus the block, times the key, modulo the prime.\<close>

lemma poly_step_correct:
  assumes "length m = 16" "h_ok h" "r_ok r" "b \<le> 1"
  shows "h_ok (poly_carry (poly_mul r (poly_add_block (b * 2 ^ 24) m h)))"
    "val5 (poly_carry (poly_mul r (poly_add_block (b * 2 ^ 24) m h))) mod P1305 =
       (val5 h + nat_of_le m + b * 2 ^ 128) * val5 r mod P1305"
proof -
  note a = poly_add_block_correct [OF assms(1,2,4)]
  note d = poly_mul_correct [OF a(1) assms(3)]
  note c = poly_carry_correct [OF d(1)]
  show "h_ok (poly_carry (poly_mul r (poly_add_block (b * 2 ^ 24) m h)))" by (rule c(1))
  show "val5 (poly_carry (poly_mul r (poly_add_block (b * 2 ^ 24) m h))) mod P1305 =
       (val5 h + nat_of_le m + b * 2 ^ 128) * val5 r mod P1305"
    unfolding a(2) [symmetric] using d(2) c(2) by (metis mod_mult_self2)
qed

section \<open>The clamped key\<close>

definition poly_clamp :: "nat \<Rightarrow> nat" where
  "poly_clamp k = and k 0x0ffffffc0ffffffc0ffffffc0fffffff"

lemma and_limb:
  fixes a m x y :: nat
  assumes "a < 2 ^ 26" "m < 2 ^ 26"
  shows "and (a + 2 ^ 26 * x) (m + 2 ^ 26 * y) = and a m + 2 ^ 26 * and x y"
proof -
  let ?z = "and (a + 2 ^ 26 * x) (m + 2 ^ 26 * y)"
  have t: "take_bit 26 ?z = and a m"
    unfolding take_bit_and using assms by (simp add: take_bit_eq_mod)
  have d: "drop_bit 26 ?z = and x y"
    unfolding drop_bit_and using assms by (simp add: drop_bit_eq_div)
  have "?z = take_bit 26 ?z + 2 ^ 26 * drop_bit 26 ?z"
    by (simp add: take_bit_eq_mod drop_bit_eq_div)
  then show ?thesis unfolding t d .
qed

lemma val5_horner: "val5 [a, b, c, d, e] = a + 2 ^ 26 * (b + 2 ^ 26 * (c + 2 ^ 26 * (d + 2 ^ 26 * e)))"
  by (simp add: val5_def)

lemma rd32_take: "i + 4 \<le> n \<Longrightarrow> rd32 (take n m) i = rd32 m i"
  by (simp add: rd32_def)

lemma poly_new_r:
  assumes "length key = 32"
  shows "r_ok (p_r (poly_new key))" "val5 (p_r (poly_new key)) = poly_clamp (nat_of_le (take 16 key))"
proof -
  define l where "l = limbs5 (take 16 key)"
  have len: "length (take 16 key) = 16" using assms by simp
  note l = limbs5_val [OF len, folded l_def]
  have lv: "l = [l ! 0, l ! 1, l ! 2, l ! 3, l ! 4]" by (simp add: l_def limbs5_def Let_def)
  have r: "p_r (poly_new key) = [l ! 0, and (l ! 1) 0x3ffff03, and (l ! 2) 0x3ffc0ff, and (l ! 3) 0x3f03fff, and (l ! 4) 0x00fffff]"
    unfolding poly_new_def l_def limbs5_def Let_def
    by (simp add: rd32_take and.assoc)
  have bound: "and x m \<le> m" for x m :: nat 
    by (metis AND_upper2 of_nat_0_le_iff of_nat_and_eq of_nat_le_iff)
  have "and (l ! 1) 0x3ffff03 \<le> 0x3ffff03" "and (l ! 2) 0x3ffc0ff \<le> 0x3ffc0ff" "and (l ! 3) 0x3f03fff \<le> 0x3f03fff"
    "and (l ! 4) 0x00fffff \<le> 0x00fffff" by (rule bound)+
  then show "r_ok (p_r (poly_new key))" using l(2) by (simp add: r r_ok_def)
  have masks: "(0x3ffffff :: nat) < 2 ^ 26" "(0x3ffff03 :: nat) < 2 ^ 26" "(0x3ffc0ff :: nat) < 2 ^ 26"
    "(0x3f03fff :: nat) < 2 ^ 26" by simp_all
  have l0: "and (l ! 0) 0x3ffffff = l ! 0" unfolding and_mask26 using l(2) by simp
  have "val5 (p_r (poly_new key)) =
      and (l ! 0) 0x3ffffff + 2 ^ 26 * (and (l ! 1) 0x3ffff03 + 2 ^ 26 * (and (l ! 2) 0x3ffc0ff +
        2 ^ 26 * (and (l ! 3) 0x3f03fff + 2 ^ 26 * and (l ! 4) 0x00fffff)))"
    unfolding r val5_horner l0 by (rule refl)
  also have "\<dots> = and (l ! 0 + 2 ^ 26 * (l ! 1 + 2 ^ 26 * (l ! 2 + 2 ^ 26 * (l ! 3 + 2 ^ 26 * l ! 4))))
      (0x3ffffff + 2 ^ 26 * (0x3ffff03 + 2 ^ 26 * (0x3ffc0ff + 2 ^ 26 * (0x3f03fff + 2 ^ 26 * 0x00fffff))))"
    by (simp only: and_limb l(2-5) masks)
  also have "l ! 0 + 2 ^ 26 * (l ! 1 + 2 ^ 26 * (l ! 2 + 2 ^ 26 * (l ! 3 + 2 ^ 26 * l ! 4))) = nat_of_le (take 16 key)"
    using l(1) by (subst (asm) lv) (simp only: val5_horner)
  finally show "val5 (p_r (poly_new key)) = poly_clamp (nat_of_le (take 16 key))"
    by (simp add: poly_clamp_def)
qed

section \<open>The final steps\<close>

definition f_ok :: "nat list \<Rightarrow> bool" where
  "f_ok h \<longleftrightarrow> length h = 5 \<and> h ! 0 < 2 ^ 26 \<and> h ! 1 < 2 ^ 26 \<and> h ! 2 < 2 ^ 26 \<and> h ! 3 < 2 ^ 26 \<and> h ! 4 < 2 ^ 26"

lemma poly_full_carry_correct:
  assumes "h_ok h"
  shows "f_ok (poly_full_carry h)" "val5 (poly_full_carry h) mod P1305 = val5 h mod P1305"
proof -
  define h0 h1 h2 h3 h4 where "h0 = h ! 0" and "h1 = h ! 1" and "h2 = h ! 2" and "h3 = h ! 3" and "h4 = h ! 4"
  note folds = h0_def [symmetric] h1_def [symmetric] h2_def [symmetric] h3_def [symmetric] h4_def [symmetric]
  have b: "h0 < 67108864" "h1 < 67108928" "h2 < 67108864" "h3 < 67108864" "h4 < 67108864"
    using assms unfolding h_ok_def folds by simp_all
  define c1 where "c1 = h1 div 67108864"
  define c2 where "c2 = (h2 + c1) div 67108864"
  define c3 where "c3 = (h3 + c2) div 67108864"
  define c4 where "c4 = (h4 + c3) div 67108864"
  define c5 where "c5 = (h0 + c4 * 5) div 67108864"
  have c: "c1 \<le> 1" "c2 \<le> c1" "c3 \<le> c2" "c4 \<le> c3" "c5 \<le> c4"
  proof -
    show "c1 \<le> 1" using b(2) by (simp add: c1_def less_Suc_eq_le [symmetric] div_less_iff_less_mult)
    have step: "(x + k) div 67108864 \<le> k" if "x < 67108864" "k \<le> 1" for x k :: nat
      using that by (cases k) auto
    show "c2 \<le> c1" unfolding c2_def by (rule step [OF b(3) \<open>c1 \<le> 1\<close>])
    then have "c2 \<le> 1" using \<open>c1 \<le> 1\<close> by simp
    show "c3 \<le> c2" unfolding c3_def by (rule step [OF b(4) \<open>c2 \<le> 1\<close>])
    then have "c3 \<le> 1" using \<open>c2 \<le> 1\<close> by simp
    show "c4 \<le> c3" unfolding c4_def by (rule step [OF b(5) \<open>c3 \<le> 1\<close>])
    then have "c4 \<le> 1" using \<open>c3 \<le> 1\<close> by simp
    then consider "c4 = 0" | "c4 = 1" by linarith
    then show "c5 \<le> c4"
      using b(1) by cases (simp_all add: c5_def less_Suc_eq_le [symmetric] div_less_iff_less_mult)
  qed
  have h1': "h1 mod 67108864 + c5 < 67108864"
  proof (cases "c1 = 0")
    case True
    then have "c5 = 0" using c by simp
    then show ?thesis by simp
  next
    case False
    then have "h1 = 67108864 + h1 mod 67108864"
      using c(1) mult_div_mod_eq [of 67108864 h1] by (simp add: c1_def [symmetric])
    then have "h1 mod 67108864 < 64" using b(2) by linarith
    then show ?thesis using c by simp
  qed
  have eq: "poly_full_carry h =
      [(h0 + c4 * 5) mod 67108864, h1 mod 67108864 + c5, (h2 + c1) mod 67108864, (h3 + c2) mod 67108864,
       (h4 + c3) mod 67108864]"
  proof -
    have d: "x div 2 ^ 26 = x div 67108864" "and x 0x3ffffff = x mod 67108864" for x :: nat
      unfolding and_mask26 by simp_all
    have a: "u32_add h2 c1 = h2 + c1" "u32_add h3 c2 = h3 + c2" "u32_add h4 c3 = h4 + c3"
      "c4 * 5 mod 2 ^ 32 = c4 * 5" "u32_add h0 (c4 * 5) = h0 + c4 * 5"
      "u32_add (h1 mod 67108864) c5 = h1 mod 67108864 + c5"
      using b c h1' by simp_all
    show ?thesis
      unfolding poly_full_carry_def Let_def folds d c1_def [symmetric] a(1) c2_def [symmetric] a(2)
        c3_def [symmetric] a(3) c4_def [symmetric] a(4,5) c5_def [symmetric] a(6) by (rule refl)
  qed
  show "f_ok (poly_full_carry h)" using h1' by (simp add: eq f_ok_def)
  have "h1 = 67108864 * c1 + h1 mod 67108864" "h2 + c1 = 67108864 * c2 + (h2 + c1) mod 67108864"
    "h3 + c2 = 67108864 * c3 + (h3 + c2) mod 67108864" "h4 + c3 = 67108864 * c4 + (h4 + c3) mod 67108864"
    "h0 + c4 * 5 = 67108864 * c5 + (h0 + c4 * 5) mod 67108864"
    by (simp_all add: c1_def c2_def c3_def c4_def c5_def)
  then have "val5 h = val5 (poly_full_carry h) + P1305 * c4"
    unfolding P1305_val eq val5_def folds by simp
  then show "val5 (poly_full_carry h) mod P1305 = val5 h mod P1305" by simp
qed

lemma val5_bound:
  assumes "f_ok h"
  shows "val5 h < 2 ^ 130"
proof -
  have "h ! 0 < 67108864" "h ! 1 < 67108864" "h ! 2 < 67108864" "h ! 3 < 67108864" "h ! 4 < 67108864"
    using assms by (simp_all add: f_ok_def)
  then show ?thesis by (simp add: val5_def)
qed

lemma and_mask32: "x < 2 ^ 32 \<Longrightarrow> and (x :: nat) (2 ^ 32 - 1) = x"
  using take_bit_eq_mask [of 32 x] by (simp add: mask_eq_exp_minus_1 take_bit_eq_mod)

lemma poly_reduce_correct:
  assumes "f_ok h"
  shows "f_ok (poly_reduce h)" "val5 (poly_reduce h) = val5 h mod P1305"
proof -
  define h0 h1 h2 h3 h4 where "h0 = h ! 0" and "h1 = h ! 1" and "h2 = h ! 2" and "h3 = h ! 3" and "h4 = h ! 4"
  note folds = h0_def [symmetric] h1_def [symmetric] h2_def [symmetric] h3_def [symmetric] h4_def [symmetric]
  have b: "h0 < 67108864" "h1 < 67108864" "h2 < 67108864" "h3 < 67108864" "h4 < 67108864"
    using assms unfolding f_ok_def folds by simp_all
  define c0 where "c0 = (h0 + 5) div 67108864"
  define c1 where "c1 = (h1 + c0) div 67108864"
  define c2 where "c2 = (h2 + c1) div 67108864"
  define c3 where "c3 = (h3 + c2) div 67108864"
  define g0 g1 g2 g3 where "g0 = (h0 + 5) mod 67108864" and "g1 = (h1 + c0) mod 67108864"
    and "g2 = (h2 + c1) mod 67108864" and "g3 = (h3 + c2) mod 67108864"
  have c: "c0 \<le> 1" "c1 \<le> 1" "c2 \<le> 1" "c3 \<le> 1"
  proof -
    show "c0 \<le> 1" using b(1) by (simp add: c0_def less_Suc_eq_le [symmetric] div_less_iff_less_mult)
    have step: "(x + k) div 67108864 \<le> 1" if "x < 67108864" "k \<le> 1" for x k :: nat
      using that by (simp add: less_Suc_eq_le [symmetric] div_less_iff_less_mult)
    show "c1 \<le> 1" unfolding c1_def by (rule step [OF b(2) \<open>c0 \<le> 1\<close>])
    then show "c2 \<le> 1" unfolding c2_def by (rule step [OF b(3)])
    then show "c3 \<le> 1" unfolding c3_def by (rule step [OF b(4)])
  qed
  have g: "g0 < 67108864" "g1 < 67108864" "g2 < 67108864" "g3 < 67108864"
    by (simp_all add: g0_def g1_def g2_def g3_def)
  define g4 where "g4 = (h4 + c3 + (2 ^ 32 - 2 ^ 26)) mod 2 ^ 32"
  define mask where "mask = (g4 div 2 ^ 31 + (2 ^ 32 - 1)) mod 2 ^ 32"
  have eq: "poly_reduce h = [or (and h0 (2 ^ 32 - 1 - mask)) (and g0 mask), or (and h1 (2 ^ 32 - 1 - mask)) (and g1 mask),
      or (and h2 (2 ^ 32 - 1 - mask)) (and g2 mask), or (and h3 (2 ^ 32 - 1 - mask)) (and g3 mask),
      or (and h4 (2 ^ 32 - 1 - mask)) (and g4 mask)]"
  proof -
    have d: "x div 2 ^ 26 = x div 67108864" "and x 0x3ffffff = x mod 67108864" for x :: nat
      unfolding and_mask26 by simp_all
    have a: "u32_add h0 5 = h0 + 5" "u32_add h1 c0 = h1 + c0" "u32_add h2 c1 = h2 + c1"
      "u32_add h3 c2 = h3 + c2" "u32_add h4 c3 = h4 + c3"
      using b c by simp_all
    show ?thesis
      unfolding poly_reduce_def Let_def folds d a(1) c0_def [symmetric] a(2) c1_def [symmetric] a(3)
        c2_def [symmetric] a(4) c3_def [symmetric] a(5) g0_def [symmetric] g1_def [symmetric] g2_def [symmetric]
        g3_def [symmetric] g4_def [symmetric] mask_def [symmetric] by (rule refl)
  qed
  have "h0 + 5 = 67108864 * c0 + g0" "h1 + c0 = 67108864 * c1 + g1" "h2 + c1 = 67108864 * c2 + g2"
    "h3 + c2 = 67108864 * c3 + g3"
    by (simp_all add: c0_def c1_def c2_def c3_def g0_def g1_def g2_def g3_def)
  then have sum: "val5 h + 5 = g0 + 2 ^ 26 * g1 + 2 ^ 52 * g2 + 2 ^ 78 * g3 + 2 ^ 104 * (h4 + c3)"
    unfolding val5_def folds by simp
  have a32: "and x (2 ^ 32 - 1) = x" if "x < 67108864" for x :: nat
    using that by (intro and_mask32) simp
  show "f_ok (poly_reduce h)" "val5 (poly_reduce h) = val5 h mod P1305"
  proof -
    have "f_ok (poly_reduce h) \<and> val5 (poly_reduce h) = val5 h mod P1305"
    proof (cases "h4 + c3 < 67108864")
      case True
      have "g4 = h4 + c3 + 4227858432" using True by (simp add: g4_def)
      moreover have "(h4 + c3 + 4227858432) div 2147483648 = 1" using True by (intro div_nat_eqI) simp_all
      ultimately have m: "mask = 0" by (simp add: mask_def)
      have r: "poly_reduce h = [h0, h1, h2, h3, h4]"
        unfolding eq m using a32 [OF b(1)] a32 [OF b(2)] a32 [OF b(3)] a32 [OF b(4)] a32 [OF b(5)] by simp
      have "val5 h + 5 < 2 ^ 130" using sum g True by simp
      then have "val5 h < P1305" by (simp add: P1305_def)
      moreover have "val5 (poly_reduce h) = val5 h" unfolding r val5_def folds by simp
      ultimately show ?thesis using b by (simp add: r f_ok_def)
    next
      case False
      then have e: "h4 + c3 = 67108864" using b(5) c(4) by simp
      then have g4: "g4 = 0" by (simp add: g4_def)
      then have m: "mask = 2 ^ 32 - 1" by (simp add: mask_def)
      have z: "(2 ^ 32 - 1 - (2 ^ 32 - 1) :: nat) = 0" by simp
      have r: "poly_reduce h = [g0, g1, g2, g3, 0]"
        unfolding eq m g4 z using a32 [OF g(1)] a32 [OF g(2)] a32 [OF g(3)] a32 [OF g(4)] by simp
      have v: "val5 h = val5 (poly_reduce h) + P1305"
        using sum unfolding P1305_val r val5_def [of "[g0, g1, g2, g3, 0]"] e by simp
      have "val5 h < 2 ^ 130" by (rule val5_bound [OF assms])
      then have "val5 (poly_reduce h) < P1305" using v by (simp add: P1305_def)
      then show ?thesis using v g by (simp add: r f_ok_def)
    qed
    then show "f_ok (poly_reduce h)" "val5 (poly_reduce h) = val5 h mod P1305" by blast+
  qed
qed

text \<open>Little-endian output, word by word.\<close>

lemma le_of_nat_word:
  "le_of_nat 4 f @ le_of_nat n (f div 2 ^ 32 + g) = le_of_nat (4 + n) (f + 2 ^ 32 * g)"
proof -
  have app: "le_of_nat (k + n) v = le_of_nat k v @ le_of_nat n (v div 256 ^ k)" for k v
    by (induction k arbitrary: v) (simp_all add: div_mult2_eq)
  have "le_of_nat 4 (f + 2 ^ 32 * g) = le_of_nat 4 f"
    using le_of_nat_mod [of 4 "f + 2 ^ 32 * g"] le_of_nat_mod [of 4 f] by simp
  then show ?thesis unfolding app by (simp add: add.commute)
qed

lemma poly_serialise_correct:
  assumes "f_ok h" "length pad = 4" "\<forall>x \<in> set pad. x < 2 ^ 32"
  shows "poly_serialise pad h =
    le_of_nat 16 (val5 h + (pad ! 0 + 2 ^ 32 * pad ! 1 + 2 ^ 64 * pad ! 2 + 2 ^ 96 * pad ! 3))"
proof -
  define h0 h1 h2 h3 h4 where "h0 = h ! 0" and "h1 = h ! 1" and "h2 = h ! 2" and "h3 = h ! 3" and "h4 = h ! 4"
  note folds = h0_def [symmetric] h1_def [symmetric] h2_def [symmetric] h3_def [symmetric] h4_def [symmetric]
  have b: "h0 < 67108864" "h1 < 67108864" "h2 < 67108864" "h3 < 67108864" "h4 < 67108864"
    using assms unfolding f_ok_def folds by simp_all
  have f: "or h0 (shl32 h1 26) = h0 + h1 mod 64 * 67108864"
    "or (h1 div 2 ^ 6) (shl32 h2 20) = h1 div 64 + h2 mod 4096 * 1048576"
    "or (h2 div 2 ^ 12) (shl32 h3 14) = h2 div 4096 + h3 mod 262144 * 16384"
    "or (h3 div 2 ^ 18) (shl32 h4 8) = h3 div 262144 + h4 mod 16777216 * 256"
    using or_shl32 [of h0 26 h1] or_shl32 [of "h1 div 2 ^ 6" 20 h2] or_shl32 [of "h2 div 2 ^ 12" 14 h3]
      or_shl32 [of "h3 div 2 ^ 18" 8 h4] b by (simp_all add: div_less_iff_less_mult)
  define f0 where "f0 = h0 + h1 mod 64 * 67108864 + pad ! 0"
  define f1 where "f1 = h1 div 64 + h2 mod 4096 * 1048576 + pad ! 1"
  define f2 where "f2 = h2 div 4096 + h3 mod 262144 * 16384 + pad ! 2"
  define f3 where "f3 = h3 div 262144 + h4 mod 16777216 * 256 + pad ! 3"
  have nil: "le_of_nat 4 v = le_of_nat 4 v @ le_of_nat 0 (v div 2 ^ 32 + 0)" for v by simp
  have "poly_serialise pad h = le_of_nat 4 f0 @ le_of_nat 4 (f0 div 2 ^ 32 + f1) @
      le_of_nat 4 ((f0 div 2 ^ 32 + f1) div 2 ^ 32 + f2) @
      le_of_nat 4 (((f0 div 2 ^ 32 + f1) div 2 ^ 32 + f2) div 2 ^ 32 + f3)"
    unfolding poly_serialise_def Let_def folds f f0_def [symmetric] f1_def [symmetric] f2_def [symmetric] f3_def [symmetric]
    by (rule refl)
  also have "\<dots> = le_of_nat 16 (f0 + 2 ^ 32 * (f1 + 2 ^ 32 * (f2 + 2 ^ 32 * f3)))"
    using le_of_nat_word [of f0 12 "f1 + 2 ^ 32 * (f2 + 2 ^ 32 * f3)"]
      le_of_nat_word [of "f0 div 2 ^ 32 + f1" 8 "f2 + 2 ^ 32 * f3"]
      le_of_nat_word [of "(f0 div 2 ^ 32 + f1) div 2 ^ 32 + f2" 4 f3]
    by (simp add: add.assoc)
  finally have s: "poly_serialise pad h = le_of_nat 16 (f0 + 2 ^ 32 * (f1 + 2 ^ 32 * (f2 + 2 ^ 32 * f3)))" .
  have e: "h1 = h1 mod 64 + 64 * (h1 div 64)" "h2 = h2 mod 4096 + 4096 * (h2 div 4096)"
    "h3 = h3 mod 262144 + 262144 * (h3 div 262144)" "h4 = h4 mod 16777216 + 16777216 * (h4 div 16777216)"
    by simp_all
  have "val5 h + (pad ! 0 + 2 ^ 32 * pad ! 1 + 2 ^ 64 * pad ! 2 + 2 ^ 96 * pad ! 3) =
      f0 + 2 ^ 32 * (f1 + 2 ^ 32 * (f2 + 2 ^ 32 * f3)) + 256 ^ 16 * (h4 div 16777216)"
    unfolding val5_def folds f0_def f1_def f2_def f3_def by simp (use e in linarith)
  then show ?thesis
    unfolding s using le_of_nat_mod [of 16 "f0 + 2 ^ 32 * (f1 + 2 ^ 32 * (f2 + 2 ^ 32 * f3)) + 256 ^ 16 * (h4 div 16777216)"]
      le_of_nat_mod [of 16 "f0 + 2 ^ 32 * (f1 + 2 ^ 32 * (f2 + 2 ^ 32 * f3))"]
    by (simp only: mod_mult_self2)
qed

section \<open>The authenticator of RFC 8439\<close>

text \<open>
  Blocks of 16 bytes, the last possibly shorter, each extended by a byte 1 and read little-endian;
  the accumulator is multiplied by the clamped key modulo $2^{130} - 5$ after each, and the pad is
  added at the end modulo $2^{128}$.
\<close>

fun poly_eval :: "nat \<Rightarrow> nat \<Rightarrow> bytes \<Rightarrow> nat" where
  "poly_eval r acc msg =
     (if msg = [] then acc
      else poly_eval r ((acc + nat_of_le (take 16 msg @ [1])) * r mod P1305) (drop 16 msg))"

declare poly_eval.simps [simp del]

definition rfc8439_poly1305 :: "bytes \<Rightarrow> bytes \<Rightarrow> bytes" where
  "rfc8439_poly1305 key msg =
     le_of_nat 16 (poly_eval (poly_clamp (nat_of_le (take 16 key))) 0 msg + nat_of_le (drop 16 key))"

lemma poly_eval_Nil [simp]: "poly_eval r acc [] = acc"
  by (simp add: poly_eval.simps)

lemma poly_eval_append:
  "16 dvd length xs \<Longrightarrow> poly_eval r acc (xs @ ys) = poly_eval r (poly_eval r acc xs) ys"
proof (induction "length xs" arbitrary: xs acc rule: less_induct)
  case less
  show ?case
  proof (cases "xs = []")
    case False
    then have l: "16 \<le> length xs" using less(2) by (auto dest: dvd_imp_le)
    have "poly_eval r acc (xs @ ys) =
        poly_eval r ((acc + nat_of_le (take 16 xs @ [1])) * r mod P1305) (drop 16 xs @ ys)"
      using False l by (subst poly_eval.simps) simp
    also have "\<dots> = poly_eval r (poly_eval r ((acc + nat_of_le (take 16 xs @ [1])) * r mod P1305) (drop 16 xs)) ys"
      using less(1) [of "drop 16 xs"] less(2) l by (auto simp: dvd_diff_nat)
    also have "poly_eval r ((acc + nat_of_le (take 16 xs @ [1])) * r mod P1305) (drop 16 xs) = poly_eval r acc xs"
      using False by (subst (2) poly_eval.simps) simp
    finally show ?thesis .
  qed simp
qed

lemma poly_eval_block:
  "0 < length m \<Longrightarrow> length m \<le> 16 \<Longrightarrow> poly_eval r acc m = (acc + nat_of_le (m @ [1])) * r mod P1305"
  by (subst poly_eval.simps) auto

lemma poly_blocks_loop_correct:
  assumes "16 dvd length m" "h_ok h" "r_ok r"
  shows "h_ok (poly_blocks_loop r (2 ^ 24) m h) \<and>
    val5 (poly_blocks_loop r (2 ^ 24) m h) mod P1305 = poly_eval (val5 r) (val5 h mod P1305) m mod P1305"
  using assms(1,2)
proof (induction "length m" arbitrary: m h rule: less_induct)
  case less
  show ?case
  proof (cases "m = []")
    case True
    then show ?thesis using less(3) by (simp add: poly_blocks_loop.simps)
  next
    case False
    then have l: "16 \<le> length m" using less(2) by (auto dest: dvd_imp_le)
    define m0 where "m0 = take 16 m"
    define h' where "h' = poly_carry (poly_mul r (poly_add_block (2 ^ 24) m h))"
    have m0: "length m0 = 16" using l by (simp add: m0_def)
    have "poly_add_block (2 ^ 24) m h = poly_add_block (1 * 2 ^ 24) m0 h"
      by (simp add: poly_add_block_def m0_def rd32_take)
    then have h': "h_ok h'" "val5 h' mod P1305 = (val5 h + nat_of_le m0 + 2 ^ 128) * val5 r mod P1305"
      using poly_step_correct [OF m0 less(3) assms(3), of 1] by (simp_all add: h'_def)
    have le: "nat_of_le (m0 @ [1]) = nat_of_le m0 + 2 ^ 128" using m0 by (simp add: nat_of_le_append)
    have st: "poly_blocks_loop r (2 ^ 24) m h = poly_blocks_loop r (2 ^ 24) (drop 16 m) h'"
      using l by (subst poly_blocks_loop.simps) (simp add: h'_def)
    have ev: "poly_eval (val5 r) (val5 h mod P1305) m = poly_eval (val5 r) (val5 h' mod P1305) (drop 16 m)"
    proof -
      have "(val5 h mod P1305 + nat_of_le (m0 @ [1])) * val5 r mod P1305 = val5 h' mod P1305"
        unfolding h'(2) le by (metis add.assoc mod_add_left_eq mod_mult_left_eq)
      then show ?thesis using False by (subst poly_eval.simps) (simp add: m0_def)
    qed
    have "length (drop 16 m) < length m" "16 dvd length (drop 16 m)" using l less(2) by (auto simp: dvd_diff_nat)
    from less(1) [OF this h'(1)] show ?thesis by (simp only: st ev)
  qed
qed

section \<open>Streaming\<close>

text \<open>The state after the message \<open>a @ t\<close> of whole blocks \<open>a\<close> and a tail \<open>t\<close>.\<close>

definition poly_repr :: "bytes \<Rightarrow> poly1305 \<Rightarrow> bytes \<Rightarrow> bytes \<Rightarrow> bool" where
  "poly_repr key p a t \<longleftrightarrow>
     p_r p = p_r (poly_new key) \<and> p_pad p = p_pad (poly_new key) \<and> length (p_buffer p) = 16 \<and>
     16 dvd length a \<and> length t < 16 \<and> p_leftover p = length t \<and> take (length t) (p_buffer p) = t \<and>
     h_ok (p_h p) \<and>
     val5 (p_h p) mod P1305 = poly_eval (val5 (p_r (poly_new key))) 0 a mod P1305"

lemma poly_eval_mod: "poly_eval r acc m mod P1305 = poly_eval r (acc mod P1305) m mod P1305"
proof (cases "m = []")
  case False
  have "(acc + x) * r mod P1305 = (acc mod P1305 + x) * r mod P1305" for x
    by (metis mod_add_left_eq mod_mult_left_eq)
  then show ?thesis using False by (subst (1 2) poly_eval.simps) simp
qed simp

lemma poly_repr_new: "poly_repr key (poly_new key) [] []"
  by (simp add: poly_repr_def poly_new_def Let_def h_ok_def val5_def)

lemma poly_repr_blocks:
  assumes "poly_repr key p a []" "16 dvd length m" "length key = 32"
  shows "poly_repr key (poly_blocks p m True) (a @ m) []"
proof -
  have r: "r_ok (p_r (poly_new key))" by (rule poly_new_r(1) [OF assms(3)])
  have p: "p_r p = p_r (poly_new key)" "h_ok (p_h p)" "16 dvd length a"
    "val5 (p_h p) mod P1305 = poly_eval (val5 (p_r (poly_new key))) 0 a mod P1305"
    using assms(1) by (simp_all add: poly_repr_def)
  note l = poly_blocks_loop_correct [OF assms(2) p(2) r]
  have "poly_eval (val5 (p_r (poly_new key))) 0 (a @ m) mod P1305 =
     val5 (poly_blocks_loop (p_r (poly_new key)) (2 ^ 24) m (p_h p)) mod P1305"
    unfolding poly_eval_append [OF p(3)] conjunct2 [OF l] p(4) by (rule poly_eval_mod)
  then show ?thesis using assms(1,2) l p(1) by (simp add: poly_repr_def poly_blocks_def)
qed

lemma poly_update_rest_repr:
  assumes "poly_repr key p a []" "length key = 32"
  shows "poly_repr key (poly_update_rest p d) (a @ take (16 * (length d div 16)) d) (drop (16 * (length d div 16)) d)"
proof -
  define n where "n = 16 * (length d div 16)"
  define p1 where "p1 = (if 16 \<le> length d then poly_blocks p (take n d) True else p)"
  have n: "n \<le> length d" "length d - n < 16" "16 dvd n" by (simp_all add: n_def minus_mult_div_eq_mod)
  have p1: "poly_repr key p1 (a @ take n d) []"
  proof (cases "16 \<le> length d")
    case True
    then show ?thesis using poly_repr_blocks [OF assms(1) _ assms(2), of "take n d"] n by (simp add: p1_def)
  next
    case False
    then have "n = 0" by (simp add: n_def)
    then show ?thesis using False assms(1) by (simp add: p1_def)
  qed
  have "n = 0" if "\<not> 16 \<le> length d" using that by (simp add: n_def)
  then have u: "poly_update_rest p d = (if drop n d \<noteq> [] then p1\<lparr>p_buffer := blit (p_buffer p1) 0 (drop n d), p_leftover := length (drop n d)\<rparr> else p1)"
    by (simp add: poly_update_rest_def Let_def n_def [symmetric] p1_def)
  show ?thesis unfolding n_def [symmetric] u using p1 n by (auto simp: poly_repr_def blit_def)
qed

lemma poly_update_repr:
  assumes "poly_repr key p a t" "length key = 32"
  shows "\<exists>a' t'. poly_repr key (poly_update p d) a' t' \<and> a' @ t' = (a @ t) @ d"
proof (cases "t = []")
  case True
  then have "poly_update p d = poly_update_rest p d" using assms(1) by (simp add: poly_update_def poly_repr_def)
  moreover have "poly_repr key p a []" using assms(1) True by simp
  ultimately show ?thesis using poly_update_rest_repr [OF _ assms(2), of p a d] True
    by (metis append.assoc append_Nil2 append_take_drop_id)
next
  case False
  have p: "p_leftover p = length t" "length (p_buffer p) = 16" "take (length t) (p_buffer p) = t" "length t < 16" "16 dvd length a"
    using assms(1) by (simp_all add: poly_repr_def)
  define k where "k = min (16 - length t) (length d)"
  define p1 where "p1 = p\<lparr>p_buffer := blit (p_buffer p) (length t) (take k d), p_leftover := length t + k\<rparr>"
  have k: "length t + k \<le> 16" "length (take k d) = k" using p(4) by (auto simp: k_def)
  have buf: "length (p_buffer p1) = 16" "take (length t + k) (p_buffer p1) = t @ take k d"
    using p k by (simp_all add: p1_def blit_def)
  have u: "poly_update p d = (if p_leftover p1 < 16 then p1
      else poly_update_rest ((poly_blocks p1 (p_buffer p1) True)\<lparr>p_leftover := 0\<rparr>) (drop k d))"
    using False by (simp add: poly_update_def Let_def p(1) k_def [symmetric] p1_def)
  show ?thesis
  proof (cases "length t + k < 16")
    case True
    then have "drop k d = []" by (auto simp: k_def)
    moreover have "poly_repr key p1 a (t @ take k d)"
      using assms(1) True k buf by (simp add: poly_repr_def p1_def)
    moreover have "poly_update p d = p1" using True by (simp add: u) (simp add: p1_def)
    ultimately show ?thesis by (metis append.assoc append_Nil2 append_take_drop_id)
  next
    case f: False
    then have full: "length t + k = 16" using k(1) by simp
    then have b: "p_buffer p1 = t @ take k d" using buf by simp
    have "poly_repr key (p1\<lparr>p_leftover := 0\<rparr>) a []"
      using assms(1) buf(1) by (simp add: poly_repr_def p1_def)
    from poly_repr_blocks [OF this _ assms(2), of "p_buffer p1"] buf(1)
    have r: "poly_repr key ((poly_blocks p1 (p_buffer p1) True)\<lparr>p_leftover := 0\<rparr>) (a @ t @ take k d) []"
      by (auto simp: poly_blocks_def poly_repr_def b)
    have "\<not> p_leftover p1 < 16" using full by (simp add: p1_def)
    then have "poly_update p d = poly_update_rest ((poly_blocks p1 (p_buffer p1) True)\<lparr>p_leftover := 0\<rparr>) (drop k d)"
      by (simp add: u)
    then show ?thesis using poly_update_rest_repr [OF r assms(2), of "drop k d"]
      by (metis append.assoc append_take_drop_id)
  qed
qed

lemma poly_updates_repr:
  assumes "length key = 32"
  shows "\<exists>a t. poly_repr key (foldl poly_update (poly_new key) ds) a t \<and> a @ t = concat ds"
proof (induction ds rule: rev_induct)
  case Nil
  show ?case using poly_repr_new by (intro exI [of _ "[]"]) simp
next
  case (snoc d ds)
  then show ?case using poly_update_repr [OF _ assms] by fastforce
qed

lemma nat_of_le_zeros [simp]: "nat_of_le (xs @ replicate k 0) = nat_of_le xs"
proof -
  have "nat_of_le (replicate k 0) = 0" by (induction k) simp_all
  then show ?thesis by (simp add: nat_of_le_append)
qed

lemma poly_pad_val:
  assumes "length key = 32"
  shows "p_pad (poly_new key) ! 0 + 2 ^ 32 * p_pad (poly_new key) ! 1 + 2 ^ 64 * p_pad (poly_new key) ! 2 +
     2 ^ 96 * p_pad (poly_new key) ! 3 = nat_of_le (drop 16 key)"
    "length (p_pad (poly_new key)) = 4" "\<forall>x \<in> set (p_pad (poly_new key)). x < 2 ^ 32"
proof -
  have "rd32 (drop 16 key) i = rd32 key (16 + i)" if "i \<le> 12" for i
    using that assms by (simp add: rd32_def add.assoc)
  then show "p_pad (poly_new key) ! 0 + 2 ^ 32 * p_pad (poly_new key) ! 1 + 2 ^ 64 * p_pad (poly_new key) ! 2 +
     2 ^ 96 * p_pad (poly_new key) ! 3 = nat_of_le (drop 16 key)"
    using rd32_block [of "drop 16 key"] assms by (simp add: poly_new_def Let_def)
  show "length (p_pad (poly_new key)) = 4" "\<forall>x \<in> set (p_pad (poly_new key)). x < 2 ^ 32"
    using rd32_lt [of key] by (auto simp: poly_new_def Let_def)
qed

lemma poly_eval_lt:
  assumes "acc < P1305"
  shows "poly_eval r acc m < P1305"
  using assms
proof (induction r acc m rule: poly_eval.induct)
  case (1 r acc msg)
  show ?case
  proof (cases "msg = []")
    case False
    have "(acc + nat_of_le (take 16 msg @ [1])) * r mod P1305 < P1305" by (simp add: P1305_def)
    then show ?thesis using 1(1) [OF False] False by (subst poly_eval.simps) simp
  qed (use 1(2) in simp)
qed

lemma poly1305_value:
  assumes "length key = 32"
  shows "poly_finalize (foldl poly_update (poly_new key) ds) = rfc8439_poly1305 key (concat ds)"
proof -
  define p where "p = foldl poly_update (poly_new key) ds"
  obtain a t where at: "poly_repr key p a t" "a @ t = concat ds"
    using poly_updates_repr [OF assms, of ds] unfolding p_def by blast
  define rr where "rr = val5 (p_r (poly_new key))"
  have r: "r_ok (p_r (poly_new key))" "rr = poly_clamp (nat_of_le (take 16 key))"
    using poly_new_r [OF assms] by (simp_all add: rr_def)
  have p: "p_r p = p_r (poly_new key)" "p_pad p = p_pad (poly_new key)" "length (p_buffer p) = 16"
    "16 dvd length a" "length t < 16" "p_leftover p = length t" "take (length t) (p_buffer p) = t"
    "h_ok (p_h p)" "val5 (p_h p) mod P1305 = poly_eval rr 0 a mod P1305"
    using at(1) by (simp_all add: poly_repr_def rr_def)
  define h where "h = (if t = [] then p_h p
    else poly_carry (poly_mul (p_r p) (poly_add_block (0 * 2 ^ 24) (t @ [1] @ replicate (15 - length t) 0) (p_h p))))"
  have fin: "poly_finalize p = poly_serialise (p_pad p) (poly_reduce (poly_full_carry h))"
  proof (cases "t = []")
    case True
    then show ?thesis by (simp add: poly_finalize_def p(6) h_def)
  next
    case False
    define buf where "buf = t @ [1] @ replicate (15 - length t) (0 :: byte)"
    have lb: "length buf = 16" using p(5) by (simp add: buf_def)
    have "(p_buffer p)[length t := 1] = t @ [1] @ drop (length t + 1) (p_buffer p)"
      using p(3,5,7) by (simp add: upd_conv_take_nth_drop)
    then have b: "blit ((p_buffer p)[length t := 1]) (length t + 1) (replicate (16 - (length t + 1)) 0) = buf"
      using p(3,5) by (simp add: blit_def buf_def)
    have "poly_blocks_loop (p_r p) 0 buf (p_h p) = poly_carry (poly_mul (p_r p) (poly_add_block 0 buf (p_h p)))"
      using lb by (subst poly_blocks_loop.simps, subst poly_blocks_loop.simps) simp
    then show ?thesis using False
      by (simp add: poly_finalize_def p(6) b [simplified] h_def Let_def poly_blocks_def buf_def [simplified, symmetric])
  qed
  have h: "h_ok h \<and> val5 h mod P1305 = poly_eval rr 0 (concat ds) mod P1305"
  proof (cases "t = []")
    case True
    then show ?thesis using p(8,9) at(2) by (simp add: h_def)
  next
    case False
    have lb: "length (t @ [1] @ replicate (15 - length t) (0 :: byte)) = 16" using p(5) by simp
    have le: "nat_of_le (t @ [1] @ replicate (15 - length t) 0) = nat_of_le (t @ [1])"
      using nat_of_le_zeros [of "t @ [1]" "15 - length t"] by simp
    have s: "h_ok h" "val5 h mod P1305 = (val5 (p_h p) + nat_of_le (t @ [1])) * rr mod P1305"
      using poly_step_correct [OF lb p(8), of "p_r p" 0] r(1) False
      unfolding p(1) le by (simp_all add: h_def p(1) rr_def)
    have "poly_eval rr 0 (concat ds) = poly_eval rr (poly_eval rr 0 a) t"
      using at(2) poly_eval_append [OF p(4), of rr 0 t] by simp
    also have "\<dots> = (poly_eval rr 0 a + nat_of_le (t @ [1])) * rr mod P1305"
      using False p(5) by (intro poly_eval_block) simp_all
    also have "\<dots> = (val5 (p_h p) + nat_of_le (t @ [1])) * rr mod P1305"
      using p(9) by (metis mod_add_left_eq mod_mult_left_eq)
    finally show ?thesis using s by simp
  qed
  note f = poly_full_carry_correct [OF conjunct1 [OF h]]
  note g = poly_reduce_correct [OF f(1)]
  have "poly_eval rr 0 (concat ds) < P1305" by (rule poly_eval_lt) (simp add: P1305_def)
  then have v: "val5 (poly_reduce (poly_full_carry h)) = poly_eval rr 0 (concat ds)"
    using g(2) f(2) h by simp
  show ?thesis
    unfolding p_def [symmetric] fin p(2) poly_serialise_correct [OF g(1) poly_pad_val(2,3) [OF assms]]
      v poly_pad_val(1) [OF assms] rfc8439_poly1305_def r(2) [symmetric] by (rule refl)
qed

text \<open>
  Poly1305 of the kernel, fed a message in any pieces, is the authenticator of RFC 8439: the
  26-bit limb arithmetic in 32- and 64-bit registers, its carries, the final comparison and the
  serialisation compute modulo $2^{130} - 5$ and $2^{128}$ without an overflow.
\<close>

theorem poly1305_streaming:
  assumes "length key = 32"
  shows "poly_finalize (foldl poly_update (poly_new key) ds) = rfc8439_poly1305 key (concat ds)"
  by (rule poly1305_value [OF assms])

lemma poly1305_streaming_witness:
  "poly_finalize (poly_update (poly_update (poly_new (replicate 32 3)) [1, 2]) [4]) =
     rfc8439_poly1305 (replicate 32 3) [1, 2, 4]"
  using poly1305_streaming [of "replicate 32 3" "[[1, 2], [4]]"] by simp

section \<open>The AEAD\<close>

lemma length_le_of_u32 [simp]: "length (le_of_u32 x) = 4"
  by (simp add: le_of_u32_def)

lemma length_chacha20_block [simp]: "length (chacha20_block key ctr nonce) = 64"
proof -
  have "length (concat (map (\<lambda>i. le_of_u32 (f i)) xs)) = 4 * length xs" for f and xs :: "nat list"
    by (induction xs) auto
  then show ?thesis by (simp add: chacha20_block_def Let_def)
qed

lemma length_chacha_loop [simp]: "length (chacha_loop key ctr nonce data) = length data"
proof (induction key ctr nonce data rule: chacha_loop.induct)
  case (1 key ctr nonce data)
  show ?case
  proof (cases "data = []")
    case False
    then show ?thesis using 1 [OF False refl refl] by (subst chacha_loop.simps) (simp add: Let_def)
  qed (simp add: chacha_loop.simps)
qed

lemma chacha_loop_twice: "chacha_loop key ctr nonce (chacha_loop key ctr nonce data) = data"
proof (induction key ctr nonce data rule: chacha_loop.induct)
  case (1 key ctr nonce data)
  show ?case
  proof (cases "data = []")
    case False
    define n where "n = min (length data) 64"
    define ks where "ks = chacha20_block key ctr nonce"
    define c0 where "c0 = map (\<lambda>i. data ! i XOR ks ! i) [0..<n]"
    define c1 where "c1 = chacha_loop key (ctr + 1) nonce (drop n data)"
    have c: "chacha_loop key ctr nonce data = c0 @ c1"
      using False by (subst chacha_loop.simps) (simp add: Let_def n_def ks_def c0_def c1_def)
    have len: "length c0 = n" "length c1 = length data - n" by (simp_all add: c0_def c1_def)
    then have n: "min (length (c0 @ c1)) 64 = n" by (auto simp: n_def)
    have "n \<noteq> 0" using False by (simp add: n_def)
    then have ne: "c0 @ c1 \<noteq> []" using len by auto
    have "chacha_loop key ctr nonce (c0 @ c1) =
        map (\<lambda>i. (c0 @ c1) ! i XOR ks ! i) [0..<n] @ chacha_loop key (ctr + 1) nonce (drop n (c0 @ c1))"
      using ne n by (subst chacha_loop.simps) (simp only: Let_def ks_def if_False)
    also have "map (\<lambda>i. (c0 @ c1) ! i XOR ks ! i) [0..<n] = take n data"
      using len by (intro nth_equalityI) (simp_all add: nth_append c0_def n_def)
    also have "drop n (c0 @ c1) = c1" using len by simp
    also have "chacha_loop key (ctr + 1) nonce c1 = drop n data"
      unfolding c1_def using 1 [OF False refl refl] by (simp add: n_def)
    finally show ?thesis by (simp add: c)
  qed (simp add: chacha_loop.simps)
qed

text \<open>The data that is authenticated.\<close>

definition rfc8439_pad16 :: "bytes \<Rightarrow> bytes" where
  "rfc8439_pad16 x = replicate ((16 - length x mod 16) mod 16) 0"

definition rfc8439_mac_data :: "bytes \<Rightarrow> bytes \<Rightarrow> bytes" where
  "rfc8439_mac_data aad ct = aad @ rfc8439_pad16 aad @ ct @ rfc8439_pad16 ct @
     le_of_nat 8 (length aad) @ le_of_nat 8 (length ct)"

lemma pad16_update_parts:
  "\<exists>ds. pad16_update p (length x) = foldl poly_update p ds \<and> concat ds = rfc8439_pad16 x"
proof (cases "0 < (16 - length x mod 16) mod 16")
  case True
  then show ?thesis
    by (intro exI [of _ "[rfc8439_pad16 x]"]) (simp add: pad16_update_def rfc8439_pad16_def Let_def)
next
  case False
  then show ?thesis
    by (intro exI [of _ "[]"]) (simp add: pad16_update_def rfc8439_pad16_def Let_def)
qed

lemma poly1305_tag_rfc:
  assumes "length otk = 32"
  shows "poly1305_tag otk aad ct = rfc8439_poly1305 otk (rfc8439_mac_data aad ct)"
proof -
  define lens where "lens = le_of_nat 8 (length aad) @ le_of_nat 8 (length ct)"
  obtain d1 where d1: "pad16_update (poly_update (poly_new otk) aad) (length aad) =
      foldl poly_update (poly_update (poly_new otk) aad) d1" "concat d1 = rfc8439_pad16 aad"
    using pad16_update_parts by blast
  define p1 where "p1 = poly_update (foldl poly_update (poly_update (poly_new otk) aad) d1) ct"
  obtain d2 where d2: "pad16_update p1 (length ct) = foldl poly_update p1 d2" "concat d2 = rfc8439_pad16 ct"
    using pad16_update_parts by blast
  have "poly1305_tag otk aad ct =
      poly_finalize (foldl poly_update (poly_new otk) ([aad] @ d1 @ [ct] @ d2 @ [lens]))"
    by (simp add: poly1305_tag_def Let_def d1(1) p1_def [symmetric] d2(1) lens_def [symmetric])
  then show ?thesis
    using poly1305_value [OF assms, of "[aad] @ d1 @ [ct] @ d2 @ [lens]"] d1(2) d2(2)
    by (simp add: rfc8439_mac_data_def lens_def)
qed

lemma or_fold_zero:
  "foldl (\<lambda>d i. d OR f i) a xs = 0 \<longleftrightarrow> a = 0 \<and> (\<forall>i \<in> set xs. f i = (0 :: byte))"
  by (induction xs arbitrary: a) (auto simp: or_eq_0_iff)

lemma xor_zero_iff: "x XOR y = 0 \<longleftrightarrow> x = (y :: byte)"
  by (metis xor_right_self xor_self_eq xor.left_neutral)

lemma length_rfc8439 [simp]: "length (rfc8439_poly1305 key msg) = 16"
  by (simp add: rfc8439_poly1305_def)

lemma length_poly1305_key [simp]: "length (poly1305_key key nonce) = 32"
  by (simp add: poly1305_key_def)

lemma poly1305_tag_value:
  "poly1305_tag (poly1305_key key nonce) aad ct = rfc8439_poly1305 (poly1305_key key nonce) (rfc8439_mac_data aad ct)"
  by (rule poly1305_tag_rfc) simp

text \<open>The comparison without early exit is equality.\<close>

lemma aead_open_iff:
  assumes "length tag = 16"
  shows "aead_open key nonce aad ct tag =
    (if tag = rfc8439_poly1305 (poly1305_key key nonce) (rfc8439_mac_data aad ct)
     then (True, chacha20_xor key 1 nonce ct) else (False, ct))"
proof -
  have diff: "foldl (\<lambda>d i. d OR (x ! i XOR y ! i)) 0 [0..<16] = 0 \<longleftrightarrow> x = y"
    if "length x = 16" "length y = 16" for x y :: bytes
    unfolding or_fold_zero xor_zero_iff using that by (auto simp: list_eq_iff_nth_eq)
  show ?thesis unfolding aead_open_def poly1305_tag_value Let_def
    using assms diff [of "rfc8439_poly1305 (poly1305_key key nonce) (rfc8439_mac_data aad ct)" tag] by auto
qed

lemma aead_seal_parts:
  "length (fst (aead_seal key nonce aad buf)) = length buf"
  "snd (aead_seal key nonce aad buf) =
     rfc8439_poly1305 (poly1305_key key nonce) (rfc8439_mac_data aad (fst (aead_seal key nonce aad buf)))"
  "length (snd (aead_seal key nonce aad buf)) = 16"
  by (simp_all add: aead_seal_def Let_def chacha20_xor_def poly1305_tag_value)

lemma aead_open_sealed:
  "aead_open key nonce aad (fst (aead_seal key nonce aad buf)) (snd (aead_seal key nonce aad buf)) = (True, buf)"
proof -
  have "chacha20_xor key 1 nonce (fst (aead_seal key nonce aad buf)) = buf"
    by (simp add: aead_seal_def Let_def chacha20_xor_def chacha_loop_twice)
  then show ?thesis using aead_open_iff [OF aead_seal_parts(3)] aead_seal_parts(2) by simp
qed

text \<open>
  C26: The AEAD opens what it sealed and nothing else passes: the tag is the RFC 8439 authenticator
  of the padded associated data and ciphertext under the one-time key; opening a sealed buffer
  with its tag restores the plaintext; and a buffer with any tag but that of its own contents is
  refused and left as it was.
\<close>

theorem aead_open_seal:
  "aead_open key nonce aad (fst (aead_seal key nonce aad buf)) (snd (aead_seal key nonce aad buf)) = (True, buf) \<and>
   snd (aead_seal key nonce aad buf) =
     rfc8439_poly1305 (poly1305_key key nonce) (rfc8439_mac_data aad (fst (aead_seal key nonce aad buf))) \<and>
   (length tag = 16 \<longrightarrow> tag \<noteq> rfc8439_poly1305 (poly1305_key key nonce) (rfc8439_mac_data aad ct) \<longrightarrow>
     aead_open key nonce aad ct tag = (False, ct))"
  using aead_open_sealed aead_seal_parts(2) aead_open_iff by simp

lemma aead_open_seal_witness:
  "aead_open [] [] [7] [1, 2] (map (\<lambda>x. x + 1) (rfc8439_poly1305 (poly1305_key [] []) (rfc8439_mac_data [7] [1, 2])))
     = (False, [1, 2])"
proof -
  define t where "t = rfc8439_poly1305 (poly1305_key [] []) (rfc8439_mac_data [7] [1, 2])"
  have t: "length t = 16" by (simp add: t_def)
  then have "t ! 0 \<noteq> map (\<lambda>x. x + 1) t ! 0" by simp
  then have "map (\<lambda>x. x + 1) t \<noteq> t" by metis
  then show ?thesis
    using aead_open_seal [of "[]" "[]" "[7]" "[]" "map (\<lambda>x. x + 1) t" "[1, 2]"] t by (simp add: t_def)
qed

end
