(* ===== verification/X25519.thy ===== *)
theory X25519
  imports Prelude
begin

text \<open>
  X25519, as in kernel/src/crypto.rs: field elements modulo \<open>2 ^ 255 - 19\<close> in sixteen signed
  limbs of nominally 16 bits, carried lazily, and the Montgomery ladder. A limb is an \<open>i64\<close>; it is
  an integer here and every addition, subtraction, product and left shift of the source is followed
  by \<open>i64\<close>, the two's-complement reading of the low 64 bits, so that the absence of overflow is a
  theorem (in \<open>X25519_Field\<close>) and not an assumption.
\<close>

unbundle bit_operations_syntax

definition i64 :: "int \<Rightarrow> int" where
  "i64 x = (x + 2 ^ 63) mod 2 ^ 64 - 2 ^ 63"

type_synonym gf = "int list"

definition gf0 :: gf where "gf0 = replicate 16 0"

definition car_step :: "gf \<Rightarrow> nat \<Rightarrow> gf" where
  "car_step g i =
     (let g = g[i := i64 (g ! i + push_bit 16 1)];
          c = drop_bit 16 (g ! i);
          g = (if i < 15 then g[i + 1 := i64 (g ! (i + 1) + i64 (c - 1))]
               else g[0 := i64 (g ! 0 + i64 (38 * i64 (c - 1)))])
      in g[i := i64 (g ! i - i64 (push_bit 16 c))])"

definition car25519 :: "gf \<Rightarrow> gf" where
  "car25519 g = foldl car_step g [0..<16]"

definition sel25519 :: "gf \<Rightarrow> gf \<Rightarrow> int \<Rightarrow> gf \<times> gf" where
  "sel25519 p q b =
     (let c = NOT (i64 (b - 1))
      in (map2 (\<lambda>x y. x XOR (c AND (x XOR y))) p q, map2 (\<lambda>x y. y XOR (c AND (x XOR y))) p q))"

text \<open>One iteration of the packing loop: the difference \<open>t - p\<close> with its borrows, and the choice.\<close>

definition pack_borrow :: "gf \<Rightarrow> gf \<Rightarrow> nat \<Rightarrow> gf" where
  "pack_borrow t m i =
     (let m = m[i := i64 (i64 (t ! i - 0xffff) - (drop_bit 16 (m ! (i - 1)) AND 1))]
      in m[i - 1 := m ! (i - 1) AND 0xffff])"

definition pack_sub :: "gf \<Rightarrow> gf" where
  "pack_sub t =
     (let m = gf0[0 := i64 (t ! 0 - 0xffed)];
          m = foldl (pack_borrow t) m [1..<15];
          m = m[15 := i64 (i64 (t ! 15 - 0x7fff) - (drop_bit 16 (m ! 14) AND 1))];
          b = drop_bit 16 (m ! 15) AND 1;
          m = m[14 := m ! 14 AND 0xffff]
      in fst (sel25519 t m (1 - b)))"

definition pack25519 :: "gf \<Rightarrow> bytes" where
  "pack25519 n =
     (let t = car25519 (car25519 (car25519 n));
          t = pack_sub (pack_sub t)
      in concat (map (\<lambda>i. [word_of_int (t ! i AND 0xff), word_of_int (drop_bit 8 (t ! i))]) [0..<16]))"

definition unpack25519 :: "bytes \<Rightarrow> gf" where
  "unpack25519 n =
     (let g = map (\<lambda>i. i64 (uint (n ! (2 * i)) + i64 (push_bit 8 (uint (n ! (2 * i + 1)))))) [0..<16]
      in g[15 := g ! 15 AND 0x7fff])"

definition add_gf :: "gf \<Rightarrow> gf \<Rightarrow> gf" where "add_gf a b = map2 (\<lambda>x y. i64 (x + y)) a b"
definition sub_gf :: "gf \<Rightarrow> gf \<Rightarrow> gf" where "sub_gf a b = map2 (\<lambda>x y. i64 (x - y)) a b"

text \<open>The schoolbook product in 31 limbs (the two nested loops, in their order), and its fold with
  \<open>2 ^ 256 = 38\<close>.\<close>

definition mul_step :: "gf \<Rightarrow> gf \<Rightarrow> int list \<Rightarrow> nat \<times> nat \<Rightarrow> int list" where
  "mul_step a b t ij = (let (i, j) = ij in t[i + j := i64 (t ! (i + j) + i64 (a ! i * b ! j))])"

definition fold38_step :: "int list \<Rightarrow> nat \<Rightarrow> int list" where
  "fold38_step t i = t[i := i64 (t ! i + i64 (38 * t ! (i + 16)))]"

definition mul_gf :: "gf \<Rightarrow> gf \<Rightarrow> gf" where
  "mul_gf a b =
     (let t = foldl (mul_step a b) (replicate 31 0) (List.product [0..<16] [0..<16]);
          t = foldl fold38_step t [0..<15];
          r = blit gf0 0 (take 16 t)
      in car25519 (car25519 r))"

definition sq_gf :: "gf \<Rightarrow> gf" where "sq_gf a = mul_gf a a"

definition inv_step :: "gf \<Rightarrow> gf \<Rightarrow> nat \<Rightarrow> gf" where
  "inv_step i c a = (let c = sq_gf c in if a \<noteq> 2 \<and> a \<noteq> 4 then mul_gf c i else c)"

definition inv25519 :: "gf \<Rightarrow> gf" where
  "inv25519 i = foldl (inv_step i) i (rev [0..<254])"

definition gf121665 :: gf where "gf121665 = (gf0[0 := 0xDB41])[1 := 1]"

text \<open>One iteration of the ladder for bit \<open>i\<close> of the clamped scalar.\<close>

definition ladder_step :: "bytes \<Rightarrow> gf \<Rightarrow> gf \<times> gf \<times> gf \<times> gf \<Rightarrow> nat \<Rightarrow> gf \<times> gf \<times> gf \<times> gf" where
  "ladder_step z x st i =
     (let (a, b, c, d) = st;
          r = uint (drop_bit (i AND 7) (z ! drop_bit 3 i) AND 1);
          (a, b) = sel25519 a b r;
          (c, d) = sel25519 c d r;
          e = add_gf a c;
          a = sub_gf a c;
          c = add_gf b d;
          b = sub_gf b d;
          d = sq_gf e;
          f = sq_gf a;
          a = mul_gf c a;
          c = mul_gf b e;
          e = add_gf a c;
          a = sub_gf a c;
          b = sq_gf a;
          c = sub_gf d f;
          a = mul_gf c gf121665;
          a = add_gf a d;
          c = mul_gf c a;
          a = mul_gf d f;
          d = mul_gf b x;
          b = sq_gf e;
          (a, b) = sel25519 a b r;
          (c, d) = sel25519 c d r
      in (a, b, c, d))"

definition clamp :: "bytes \<Rightarrow> bytes" where
  "clamp n = (let z = n[31 := (n ! 31 AND 127) OR 64] in z[0 := z ! 0 AND 248])"

definition x25519 :: "bytes \<Rightarrow> bytes \<Rightarrow> bytes" where
  "x25519 n p =
     (let z = clamp n;
          x = unpack25519 p;
          (a, b, c, d) = foldl (ladder_step z x) (gf0[0 := 1], x, gf0, gf0[0 := 1]) (rev [0..<255])
      in pack25519 (mul_gf a (inv25519 c)))"

definition x25519_base :: "bytes \<Rightarrow> bytes" where
  "x25519_base private = x25519 private ((replicate 32 0)[0 := 9])"

end
