(* ===== verification/X25519_Field.thy ===== *)
theory X25519_Field
  imports X25519
begin

text \<open>
  The field arithmetic of \<open>X25519\<close>: the carry chain in closed form, the size of the limbs every
  operation leaves, and the value modulo \<open>2 ^ 255 - 19\<close> it computes. The ladder keeps its
  limbs \<open>tight\<close> after a product and \<open>loose\<close> (one addition further) before one.
\<close>

section \<open>Registers, values and congruence\<close>

definition p25519 :: int where "p25519 = 2 ^ 255 - 19"

definition cong25519 :: "int \<Rightarrow> int \<Rightarrow> bool" where
  "cong25519 x y \<longleftrightarrow> x mod p25519 = y mod p25519"

definition gfval :: "int list \<Rightarrow> int" where
  "gfval g = (\<Sum>i<length g. g ! i * 65536 ^ i)"

definition bounded :: "int \<Rightarrow> gf \<Rightarrow> bool" where
  "bounded M g \<longleftrightarrow> length g = 16 \<and> (\<forall>i<16. \<bar>g ! i\<bar> \<le> M)"

definition loose :: "gf \<Rightarrow> bool" where "loose g \<longleftrightarrow> bounded 262144 g"

definition tight :: "gf \<Rightarrow> bool" where
  "tight g \<longleftrightarrow> length g = 16 \<and> (\<forall>i<16. (if i = 0 then - 38 \<le> g ! i \<and> g ! i < 65574 else 0 \<le> g ! i \<and> g ! i < 65536))"

definition normal :: "gf \<Rightarrow> bool" where
  "normal g \<longleftrightarrow> length g = 16 \<and> (\<forall>i<16. 0 \<le> g ! i \<and> g ! i < 65536)"

lemma i64_id [simp]: "- 9223372036854775808 \<le> x \<Longrightarrow> x < 9223372036854775808 \<Longrightarrow> i64 x = x"
  by (simp add: i64_def)

lemma cong25519_refl [simp, intro]: "cong25519 x x" by (simp add: cong25519_def)

lemma cong25519_sym: "cong25519 x y \<Longrightarrow> cong25519 y x" by (simp add: cong25519_def)

lemma cong25519_trans [trans]: "cong25519 x y \<Longrightarrow> cong25519 y z \<Longrightarrow> cong25519 x z"
  by (simp add: cong25519_def)

lemma cong25519_add: "cong25519 x x' \<Longrightarrow> cong25519 y y' \<Longrightarrow> cong25519 (x + y) (x' + y')"
  unfolding cong25519_def by (metis mod_add_eq)

lemma cong25519_diff: "cong25519 x x' \<Longrightarrow> cong25519 y y' \<Longrightarrow> cong25519 (x - y) (x' - y')"
  unfolding cong25519_def by (metis mod_diff_eq)

lemma cong25519_mult: "cong25519 x x' \<Longrightarrow> cong25519 y y' \<Longrightarrow> cong25519 (x * y) (x' * y')"
  unfolding cong25519_def by (metis mod_mult_eq)

lemma cong25519_mod [simp]: "cong25519 (x mod p25519) y \<longleftrightarrow> cong25519 x y"
  "cong25519 x (y mod p25519) \<longleftrightarrow> cong25519 x y"
  by (simp_all add: cong25519_def)

lemma cong25519_multiple: "x = y + k * p25519 \<Longrightarrow> cong25519 x y"
  by (simp add: cong25519_def)

lemma two256: "(2 :: int) ^ 256 = 38 + 2 * p25519" by (simp add: p25519_def)

lemma tight_limb: "tight g \<Longrightarrow> i < 16 \<Longrightarrow> - 38 \<le> g ! i \<and> g ! i < 65574"
  unfolding tight_def by (cases "i = 0") force+

lemma normal_tight: "normal g \<Longrightarrow> tight g"
  unfolding normal_def tight_def by (simp, drule conjunct2, drule spec [of _ 0], simp)

lemma tight_bounded: "tight g \<Longrightarrow> bounded 65574 g"
  using tight_limb [of g] by (fastforce simp: bounded_def tight_def)

lemma bounded_mono: "bounded M g \<Longrightarrow> M \<le> N \<Longrightarrow> bounded N g"
  by (fastforce simp: bounded_def)

lemma tight_loose: "tight g \<Longrightarrow> loose g"
  unfolding loose_def by (rule bounded_mono [OF tight_bounded]) simp_all

section \<open>The carry chain\<close>

primrec carry :: "gf \<Rightarrow> nat \<Rightarrow> int" where
  "carry g 0 = g ! 0 div 65536"
| "carry g (Suc i) = (g ! Suc i + carry g i) div 65536"

definition with_carry :: "gf \<Rightarrow> nat \<Rightarrow> int" where
  "with_carry g i = g ! i + (if i = 0 then 0 else carry g (i - 1))"

lemma carry_div: "carry g i = with_carry g i div 65536"
  by (cases i) (simp_all add: with_carry_def)

lemma carry_bound:
  assumes "\<forall>j\<le>i. \<bar>g ! j\<bar> \<le> M" "2 \<le> M"
  shows "32768 * \<bar>carry g i\<bar> \<le> M + 32768"
  using assms(1)
proof (induction i)
  case 0
  have "g ! 0 = 65536 * (g ! 0 div 65536) + g ! 0 mod 65536" "0 \<le> g ! 0 mod 65536" "g ! 0 mod 65536 < 65536"
    by simp_all
  moreover have "\<bar>g ! 0\<bar> \<le> M" using 0 by simp
  ultimately show ?case using assms(2) unfolding carry.simps by linarith
next
  case (Suc i)
  define x where "x = g ! Suc i + carry g i"
  have "32768 * \<bar>carry g i\<bar> \<le> M + 32768" "\<bar>g ! Suc i\<bar> \<le> M" using Suc by simp_all
  then have x: "\<bar>x\<bar> \<le> 2 * M" using assms(2) unfolding x_def by linarith
  have "x = 65536 * (x div 65536) + x mod 65536" "0 \<le> x mod 65536" "x mod 65536 < 65536" by simp_all
  then have "32768 * \<bar>x div 65536\<bar> \<le> M + 32768" using x by linarith
  then show ?case by (simp add: x_def)
qed

lemma with_carry_bound:
  assumes "\<forall>j\<le>i. \<bar>g ! j\<bar> \<le> M" "2 \<le> M"
  shows "\<bar>with_carry g i\<bar> \<le> 2 * M"
proof (cases i)
  case 0
  then show ?thesis using assms by (auto simp: with_carry_def)
next
  case (Suc k)
  have "32768 * \<bar>carry g k\<bar> \<le> M + 32768" using assms Suc by (intro carry_bound) auto
  moreover have "\<bar>g ! i\<bar> \<le> M" using assms by simp
  ultimately show ?thesis using assms(2) Suc by (simp add: with_carry_def)
qed

text \<open>The limbs after the first \<open>n\<close> steps.\<close>

definition car_limb :: "gf \<Rightarrow> nat \<Rightarrow> nat \<Rightarrow> int" where
  "car_limb g n j = (if j < n then with_carry g j mod 65536 else if j = n then with_carry g j else g ! j)"

lemma i64_shift_rem:
  assumes "\<bar>x\<bar> \<le> 2305843009213693952"
  shows "i64 (i64 (x + 65536) - i64 (push_bit 16 (drop_bit 16 (i64 (x + 65536))))) = x mod 65536"
    "i64 (drop_bit 16 (i64 (x + 65536)) - 1) = x div 65536"
proof -
  have e: "x = 65536 * (x div 65536) + x mod 65536" "0 \<le> x mod 65536" "x mod 65536 < 65536" by simp_all
  have y: "i64 (x + 65536) = x + 65536" using assms by (intro i64_id) linarith+
  have d: "drop_bit 16 (x + 65536) = x div 65536 + 1" by (simp add: drop_bit_eq_div)
  have s: "push_bit 16 (x div 65536 + 1) = 65536 * (x div 65536) + 65536" by (simp add: push_bit_eq_mult)
  have i: "i64 (65536 * (x div 65536) + 65536) = 65536 * (x div 65536) + 65536"
    using assms e by (intro i64_id) linarith+
  have r: "x + 65536 - (65536 * (x div 65536) + 65536) = x mod 65536" using e by linarith
  show "i64 (i64 (x + 65536) - i64 (push_bit 16 (drop_bit 16 (i64 (x + 65536))))) = x mod 65536"
    unfolding y d s i r using e by (intro i64_id) linarith+
  have c: "x div 65536 + 1 - 1 = x div 65536" by simp
  show "i64 (drop_bit 16 (i64 (x + 65536)) - 1) = x div 65536"
    unfolding y d c using assms e by (intro i64_id) linarith+
qed

lemma car_step_inner:
  assumes "bounded M g" "2 \<le> M" "M \<le> 1152921504606846976" "n < 15"
  shows "car_step (map (car_limb g n) [0..<16]) n = map (car_limb g (Suc n)) [0..<16]"
proof -
  define x where "x = with_carry g n"
  have x: "\<bar>x\<bar> \<le> 2305843009213693952"
    using with_carry_bound [of n g M] assms unfolding x_def bounded_def by fastforce
  have c: "carry g n = x div 65536" by (simp add: carry_div x_def)
  have w: "with_carry g (Suc n) = g ! Suc n + x div 65536" using c by (simp add: with_carry_def)
  have "\<bar>with_carry g (Suc n)\<bar> \<le> 2 * M" using assms by (intro with_carry_bound) (auto simp: bounded_def)
  then have wi: "i64 (g ! Suc n + x div 65536) = g ! Suc n + x div 65536"
    using assms(3) unfolding w by (intro i64_id) linarith+
  have n: "n < 16" "Suc n < 16" using assms(4) by simp_all
  define h where "h = map (car_limb g n) [0..<16]"
  have h: "length h = 16" "h ! n = x" "h ! Suc n = g ! Suc n" using n by (simp_all add: h_def car_limb_def x_def)
  have "car_step h n = h[n := x mod 65536, Suc n := g ! Suc n + x div 65536]"
    using assms(4) h n unfolding car_step_def Let_def
    by (simp add: i64_shift_rem [OF x] wi list_update_swap)
  also have "\<dots> = map (car_limb g (Suc n)) [0..<16]"
    using n w by (intro nth_equalityI) (auto simp: h_def nth_list_update car_limb_def x_def)
  finally show ?thesis by (simp add: h_def)
qed

lemma car_prefix:
  assumes "bounded M g" "2 \<le> M" "M \<le> 1152921504606846976"
  shows "n \<le> 15 \<Longrightarrow> foldl car_step g [0..<n] = map (car_limb g n) [0..<16]"
proof (induction n)
  case 0
  show ?case using assms(1)
    by (intro nth_equalityI) (auto simp: bounded_def car_limb_def with_carry_def)
next
  case (Suc n)
  then show ?case using car_step_inner [OF assms, of n] by simp
qed

definition car_result :: "gf \<Rightarrow> gf" where
  "car_result g = map (\<lambda>i. with_carry g i mod 65536 + (if i = 0 then 38 * carry g 15 else 0)) [0..<16]"

lemma car25519_result:
  assumes "bounded M g" "2 \<le> M" "M \<le> 1152921504606846976"
  shows "car25519 g = car_result g"
proof -
  define x where "x = with_carry g 15"
  define h where "h = map (car_limb g 15) [0..<16]"
  have wb: "\<bar>with_carry g 15\<bar> \<le> 2 * M" using assms by (intro with_carry_bound) (auto simp: bounded_def)
  then have x: "\<bar>x\<bar> \<le> 2305843009213693952" using assms(3) by (simp add: x_def)
  have h: "length h = 16" "h ! 15 = x" "h ! 0 = with_carry g 0 mod 65536"
    by (simp_all add: h_def car_limb_def x_def)
  have c: "carry g 15 = x div 65536" by (simp add: carry_div x_def)
  have "32768 * \<bar>carry g 15\<bar> \<le> M + 32768" using assms by (intro carry_bound) (auto simp: bounded_def)
  then have cb: "\<bar>x div 65536\<bar> \<le> 35184372088833" using assms(3) unfolding c by linarith
  have m: "0 \<le> with_carry g 0 mod 65536" "with_carry g 0 mod 65536 < 65536" by simp_all
  have i1: "i64 (38 * (x div 65536)) = 38 * (x div 65536)" using cb by (intro i64_id) linarith+
  have i2: "i64 (with_carry g 0 mod 65536 + 38 * (x div 65536)) = with_carry g 0 mod 65536 + 38 * (x div 65536)"
    using cb m by (intro i64_id) linarith+
  have u: "[0..<16] = [0..<15] @ [15]" by (simp add: upt_rec)
  have "car25519 g = car_step h 15"
    using car_prefix [OF assms, of 15] unfolding car25519_def h_def u foldl_append by simp
  also have "\<dots> = h[15 := x mod 65536, 0 := with_carry g 0 mod 65536 + 38 * (x div 65536)]"
    using h unfolding car_step_def Let_def
    by (simp add: i64_shift_rem [OF x] i1 i2 list_update_swap)
  also have "\<dots> = car_result g"
    by (intro nth_equalityI) (auto simp: h_def nth_list_update car_limb_def car_result_def x_def c)
  finally show ?thesis .
qed

section \<open>Limb sizes after a carry pass\<close>

lemma nth_car_result: "i < 16 \<Longrightarrow> car_result g ! i = with_carry g i mod 65536 + (if i = 0 then 38 * carry g 15 else 0)"
  by (simp add: car_result_def)

lemma length_car_result [simp]: "length (car_result g) = 16"
  by (simp add: car_result_def)

lemma car_result_first:
  assumes "bounded 1125899906842624 g"
  shows "\<bar>car_result g ! 0\<bar> \<le> 2199023255552 \<and> (\<forall>i<16. 0 < i \<longrightarrow> 0 \<le> car_result g ! i \<and> car_result g ! i < 65536)"
proof -
  have "32768 * \<bar>carry g 15\<bar> \<le> 1125899906842624 + 32768"
    using assms by (intro carry_bound) (auto simp: bounded_def)
  moreover have "0 \<le> with_carry g 0 mod 65536" "with_carry g 0 mod 65536 < 65536" by simp_all
  ultimately show ?thesis by (simp add: nth_car_result)
qed

lemma small_carry:
  assumes "\<bar>g ! 0\<bar> \<le> 2199023255552" "\<forall>i<16. 0 < i \<longrightarrow> 0 \<le> g ! i \<and> g ! i < 65536"
  shows "i < 14 \<Longrightarrow> \<bar>carry g (Suc (Suc i))\<bar> \<le> 1"
proof (induction i)
  case 0
  have "\<bar>g ! 0 div 65536\<bar> \<le> 33554433" using assms(1) by linarith
  moreover have "0 \<le> g ! Suc 0" "g ! Suc 0 < 65536" using assms(2) by auto
  ultimately have "\<bar>(g ! Suc 0 + g ! 0 div 65536) div 65536\<bar> \<le> 514" by linarith
  moreover have "0 \<le> g ! Suc (Suc 0)" "g ! Suc (Suc 0) < 65536" using assms(2) by auto
  ultimately show ?case unfolding carry.simps by linarith
next
  case (Suc i)
  have "0 \<le> g ! Suc (Suc (Suc i))" "g ! Suc (Suc (Suc i)) < 65536" using assms(2) Suc.prems by auto
  moreover have "\<bar>carry g (Suc (Suc i))\<bar> \<le> 1" by (rule Suc.IH) (use Suc.prems in linarith)
  ultimately show ?case unfolding carry.simps(2) [of g "Suc (Suc i)"] by linarith
qed

lemma car_result_tight:
  assumes "\<bar>g ! 0\<bar> \<le> 2199023255552" "\<forall>i<16. 0 < i \<longrightarrow> 0 \<le> g ! i \<and> g ! i < 65536"
  shows "tight (car_result g)"
proof -
  have "Suc (Suc 13) = (15 :: nat)" by simp
  then have "\<bar>carry g 15\<bar> \<le> 1" using small_carry [OF assms, of 13] by (simp only:)
  moreover have "0 \<le> with_carry g 0 mod 65536" "with_carry g 0 mod 65536 < 65536" by simp_all
  ultimately show ?thesis unfolding tight_def by (auto simp: nth_car_result)
qed

text \<open>Two passes bring limbs of up to 50 bits into the tight range.\<close>

lemma car_twice_tight:
  assumes "bounded 1125899906842624 g"
  shows "car25519 (car25519 g) = car_result (car_result g)" "tight (car25519 (car25519 g))"
proof -
  have 1: "car25519 g = car_result g" by (rule car25519_result [OF assms]) simp_all
  note f = car_result_first [OF assms]
  have "\<bar>car_result g ! i\<bar> \<le> 2199023255552" if "i < 16" for i
    using f that by (cases "i = 0") fastforce+
  then have "bounded 2199023255552 (car_result g)" by (simp add: bounded_def)
  then have 2: "car25519 (car_result g) = car_result (car_result g)" by (rule car25519_result) simp_all
  show "car25519 (car25519 g) = car_result (car_result g)" using 1 2 by simp
  then show "tight (car25519 (car25519 g))" using car_result_tight f by simp
qed

section \<open>Values\<close>

lemma gfval_update: "k < length t \<Longrightarrow> gfval (t[k := v]) = gfval t + (v - t ! k) * 65536 ^ k"
proof -
  assume k: "k < length t"
  have "gfval (t[k := v]) = (\<Sum>i<length t. t ! i * 65536 ^ i + (if i = k then (v - t ! k) * 65536 ^ k else 0))"
    unfolding gfval_def length_list_update using k
    by (intro sum.cong) (auto simp: nth_list_update algebra_simps)
  then show ?thesis using k by (simp add: gfval_def sum.distrib)
qed

lemma carry_telescope:
  "(\<Sum>i<Suc n. with_carry g i mod 65536 * 65536 ^ i) =
   (\<Sum>i<Suc n. g ! i * 65536 ^ i) - carry g n * 65536 ^ Suc n"
proof (induction n)
  case 0
  have "with_carry g 0 mod 65536 = with_carry g 0 - 65536 * (with_carry g 0 div 65536)"
    by (simp add: minus_mult_div_eq_mod [symmetric])
  then show ?case by (simp add: with_carry_def)
next
  case (Suc n)
  define m where "m = with_carry g (Suc n) mod 65536"
  have m: "m = g ! Suc n + carry g n - 65536 * carry g (Suc n)"
    unfolding m_def by (simp add: with_carry_def minus_mult_div_eq_mod [symmetric])
  have "(\<Sum>i<Suc (Suc n). with_carry g i mod 65536 * 65536 ^ i) =
      (\<Sum>i<Suc n. g ! i * 65536 ^ i) - carry g n * 65536 ^ Suc n + m * 65536 ^ Suc n"
    using Suc by (simp only: sum.lessThan_Suc [of _ "Suc n"] m_def)
  also have "\<dots> = (\<Sum>i<Suc n. g ! i * 65536 ^ i) + g ! Suc n * 65536 ^ Suc n - carry g (Suc n) * 65536 ^ Suc (Suc n)"
    unfolding m by (simp only: power_Suc [of 65536 "Suc n"]) (simp only: algebra_simps)
  finally show ?case by (simp only: sum.lessThan_Suc [of _ "Suc n"])
qed

lemma sum_lessThan_add: "(\<Sum>i<m + n. f i) = (\<Sum>i<m. f i) + (\<Sum>i<n. f (m + i :: nat) :: int)"
  by (induction n) (simp_all add: add.assoc)

lemma gfval_car_result:
  assumes "length g = 16"
  shows "gfval (car_result g) = gfval g - 2 * carry g 15 * p25519"
proof -
  have e: "Suc 15 = 16" by simp
  have "gfval (car_result g) = (\<Sum>i<16. with_carry g i mod 65536 * 65536 ^ i + (if i = 0 then 38 * carry g 15 else 0))"
    unfolding gfval_def length_car_result by (intro sum.cong) (auto simp: nth_car_result algebra_simps)
  also have "\<dots> = (\<Sum>i<16. with_carry g i mod 65536 * 65536 ^ i) + 38 * carry g 15"
    by (simp add: sum.distrib)
  also have "(\<Sum>i<16. with_carry g i mod 65536 * 65536 ^ i) = gfval g - carry g 15 * 2 ^ 256"
    using carry_telescope [of g 15] unfolding e by (simp add: gfval_def assms)
  finally show ?thesis unfolding two256 by (simp add: algebra_simps)
qed

lemma cong_car_result: "length g = 16 \<Longrightarrow> cong25519 (gfval (car_result g)) (gfval g)"
  by (rule cong25519_multiple [where k = "- 2 * carry g 15"]) (simp add: gfval_car_result algebra_simps)

section \<open>Products\<close>

lemma loose_product: "loose a \<Longrightarrow> loose b \<Longrightarrow> i < 16 \<Longrightarrow> j < 16 \<Longrightarrow> \<bar>a ! i * b ! j\<bar> \<le> 68719476736"
  using mult_mono [of "\<bar>a ! i\<bar>" 262144 "\<bar>b ! j\<bar>" 262144] by (simp add: loose_def bounded_def abs_mult)

text \<open>The product loop from any accumulator: sizes grow by at most \<open>2 ^ 36\<close> a step, and no step wraps.\<close>

lemma mul_loop:
  assumes "loose a" "loose b"
  shows "length t = 31 \<Longrightarrow> \<forall>k<31. \<bar>t ! k\<bar> \<le> K \<Longrightarrow> set ps \<subseteq> {..<16} \<times> {..<16} \<Longrightarrow>
    K + int (length ps) * 68719476736 \<le> 4611686018427387904 \<Longrightarrow>
    length (foldl (mul_step a b) t ps) = 31 \<and>
    (\<forall>k<31. \<bar>foldl (mul_step a b) t ps ! k\<bar> \<le> K + int (length ps) * 68719476736) \<and>
    gfval (foldl (mul_step a b) t ps) =
      gfval t + (\<Sum>(i, j)\<leftarrow>ps. (a ! i * 65536 ^ i) * (b ! j * 65536 ^ j))"
proof (induction ps arbitrary: t K)
  case Nil
  then show ?case by simp
next
  case (Cons p ps)
  obtain i j where p: "p = (i, j)" by force
  have ij: "i < 16" "j < 16" using Cons.prems(3) p by auto
  note pb = loose_product [OF assms ij]
  have tb: "\<bar>t ! (i + j)\<bar> \<le> K" using Cons.prems(2) ij by simp
  have K: "0 \<le> K" using Cons.prems(2) by fastforce
  have room: "K + 68719476736 + int (length ps) * 68719476736 \<le> 4611686018427387904"
    using Cons.prems(4) by (simp add: algebra_simps)
  have "K + 68719476736 \<le> 4611686018427387904" using room by linarith
  then have w: "i64 (t ! (i + j) + i64 (a ! i * b ! j)) = t ! (i + j) + a ! i * b ! j"
    using pb tb by (subst (2) i64_id, linarith, linarith, subst i64_id) linarith+
  define t' where "t' = t[i + j := t ! (i + j) + a ! i * b ! j]"
  have s: "mul_step a b t (i, j) = t'" by (simp add: mul_step_def w t'_def)
  have l: "length t' = 31" using Cons.prems(1) by (simp add: t'_def)
  have "\<bar>t' ! k\<bar> \<le> K + 68719476736" if "k < 31" for k
  proof (cases "k = i + j")
    case True
    then show ?thesis using tb pb that Cons.prems(1) by (simp add: t'_def)
  next
    case False
    then have "\<bar>t' ! k\<bar> \<le> K" using Cons.prems(2) that by (simp add: t'_def)
    then show ?thesis by linarith
  qed
  then have bd: "\<forall>k<31. \<bar>t' ! k\<bar> \<le> K + 68719476736" by blast
  have v: "gfval t' = gfval t + (a ! i * 65536 ^ i) * (b ! j * 65536 ^ j)"
    using ij Cons.prems(1) by (simp add: t'_def gfval_update power_add)
  have ps: "set ps \<subseteq> {..<16} \<times> {..<16}" using Cons.prems(3) by simp
  note ih = Cons.IH [OF l bd ps room]
  show ?case using ih by (simp add: s v p algebra_simps)
qed

lemma sum_product_pairs:
  fixes u v :: "nat \<Rightarrow> int"
  shows "(\<Sum>(i, j)\<leftarrow>List.product xs ys. u i * v j) = sum_list (map u xs) * sum_list (map v ys)"
  by (induction xs) (simp_all add: o_def sum_list_const_mult algebra_simps)

lemma gfval_sum_list: "gfval g = sum_list (map (\<lambda>i. g ! i * 65536 ^ i) [0..<length g])"
  by (simp add: gfval_def interv_sum_list_conv_sum_set_nat atLeast0LessThan)

lemma product_limbs:
  assumes "loose a" "loose b"
  defines "t \<equiv> foldl (mul_step a b) (replicate 31 0) (List.product [0..<16] [0..<16])"
  shows "length t = 31" "\<forall>k<31. \<bar>t ! k\<bar> \<le> 17592186044416" "gfval t = gfval a * gfval b"
proof -
  have l: "length (List.product [0..<16] [0..<16]) = 256" by simp
  have z: "gfval (replicate 31 0) = 0" by (simp add: gfval_def)
  have ab: "length a = 16" "length b = 16" using assms(1,2) by (simp_all add: loose_def bounded_def)
  have "length t = 31 \<and> (\<forall>k<31. \<bar>t ! k\<bar> \<le> 0 + int (length (List.product [0..<16] [0..<16])) * 68719476736) \<and>
      gfval t = gfval (replicate 31 0) +
        (\<Sum>(i, j)\<leftarrow>List.product [0..<16] [0..<16]. (a ! i * 65536 ^ i) * (b ! j * 65536 ^ j))"
    unfolding t_def by (rule mul_loop [OF assms(1,2)]) (auto simp: l)
  then show "length t = 31" "\<forall>k<31. \<bar>t ! k\<bar> \<le> 17592186044416" "gfval t = gfval a * gfval b"
    unfolding l z sum_product_pairs by (simp_all add: gfval_sum_list [of a] gfval_sum_list [of b] ab)
qed

lemma fold38_loop:
  assumes "length t = 31" "\<forall>k<31. \<bar>t ! k\<bar> \<le> 17592186044416"
  shows "n \<le> 15 \<Longrightarrow> foldl fold38_step t [0..<n] = map (\<lambda>k. if k < n then t ! k + 38 * t ! (k + 16) else t ! k) [0..<31]"
proof (induction n)
  case 0
  show ?case using assms(1) by (intro nth_equalityI) auto
next
  case (Suc n)
  define h where "h = map (\<lambda>k. if k < n then t ! k + 38 * t ! (k + 16) else t ! k) [0..<31]"
  have h: "h ! n = t ! n" "h ! (n + 16) = t ! (n + 16)" using Suc.prems by (simp_all add: h_def)
  have b: "\<bar>t ! n\<bar> \<le> 17592186044416" "\<bar>t ! (n + 16)\<bar> \<le> 17592186044416" using assms(2) Suc.prems by simp_all
  have "i64 (t ! n + i64 (38 * t ! (n + 16))) = t ! n + 38 * t ! (n + 16)"
    using b by (subst (2) i64_id, linarith, linarith, subst i64_id) linarith+
  then have "fold38_step h n = h[n := t ! n + 38 * t ! (n + 16)]" by (simp add: fold38_step_def h)
  also have "\<dots> = map (\<lambda>k. if k < Suc n then t ! k + 38 * t ! (k + 16) else t ! k) [0..<31]"
    using Suc.prems by (intro nth_equalityI) (auto simp: h_def nth_list_update less_Suc_eq)
  finally show ?case using Suc by (simp add: h_def)
qed

lemma fold38_value:
  assumes "length t = 31" "\<forall>k<31. \<bar>t ! k\<bar> \<le> 17592186044416"
  defines "r \<equiv> blit gf0 0 (take 16 (foldl fold38_step t [0..<15]))"
  shows "bounded 1125899906842624 r" "cong25519 (gfval r) (gfval t)"
proof -
  note f = fold38_loop [OF assms(1,2), of 15]
  have l: "length r = 16" by (simp add: r_def f gf0_def)
  have n: "r ! k = t ! k + (if k < 15 then 38 * t ! (k + 16) else 0)" if "k < 16" for k
    using that by (simp add: r_def f gf0_def blit_def)
  have "\<bar>r ! k\<bar> \<le> 1125899906842624" if "k < 16" for k
  proof -
    have "\<bar>t ! k\<bar> \<le> 17592186044416" "k < 15 \<Longrightarrow> \<bar>t ! (k + 16)\<bar> \<le> 17592186044416" using assms(2) that by simp_all
    then show ?thesis using n [OF that] by (cases "k < 15") auto
  qed
  then show "bounded 1125899906842624 r" using l by (simp add: bounded_def)
  define hi where "hi = (\<Sum>k<15. t ! (16 + k) * 65536 ^ k)"
  have "gfval t = (\<Sum>k<16. t ! k * 65536 ^ k) + (\<Sum>k<15. t ! (16 + k) * 65536 ^ (16 + k))"
    unfolding gfval_def assms(1) using sum_lessThan_add [of "\<lambda>k. t ! k * 65536 ^ k" 16 15] by simp
  also have "(\<Sum>k<15. t ! (16 + k) * 65536 ^ (16 + k)) = 2 ^ 256 * hi"
    unfolding hi_def sum_distrib_left by (intro sum.cong) (simp_all add: power_add)
  finally have t: "gfval t = (\<Sum>k<16. t ! k * 65536 ^ k) + 2 ^ 256 * hi" .
  have "gfval r = (\<Sum>k<16. t ! k * 65536 ^ k) + (\<Sum>k<15 + 1. if k < 15 then 38 * t ! (k + 16) * 65536 ^ k else 0)"
    unfolding gfval_def l by (simp add: sum.distrib [symmetric] del: sum.lessThan_Suc)
      (intro sum.cong, auto simp: n algebra_simps)
  also have "(\<Sum>k<15 + 1. if k < 15 then 38 * t ! (k + 16) * 65536 ^ k else 0) = 38 * hi"
    unfolding sum_lessThan_add hi_def sum_distrib_left by (simp add: add.commute algebra_simps)
  finally have r: "gfval r = (\<Sum>k<16. t ! k * 65536 ^ k) + 38 * hi" .
  show "cong25519 (gfval r) (gfval t)"
    unfolding r t two256 by (rule cong25519_multiple [where k = "- 2 * hi"]) (simp add: algebra_simps)
qed

lemma mul_gf_tight: "loose a \<Longrightarrow> loose b \<Longrightarrow> tight (mul_gf a b)"
  and mul_gf_value: "loose a \<Longrightarrow> loose b \<Longrightarrow> cong25519 (gfval (mul_gf a b)) (gfval a * gfval b)"
proof -
  assume ab: "loose a" "loose b"
  define t where "t = foldl (mul_step a b) (replicate 31 0) (List.product [0..<16] [0..<16])"
  note t = product_limbs [OF ab, folded t_def]
  define r where "r = blit gf0 0 (take 16 (foldl fold38_step t [0..<15]))"
  note r = fold38_value [OF t(1,2), folded r_def]
  have m: "mul_gf a b = car25519 (car25519 r)" by (simp add: mul_gf_def Let_def t_def r_def)
  note c = car_twice_tight [OF r(1)]
  show "tight (mul_gf a b)" using m c by simp
  have "length r = 16" using r(1) by (simp add: bounded_def)
  then have "cong25519 (gfval (mul_gf a b)) (gfval r)"
    unfolding m c(1) using cong25519_trans cong_car_result length_car_result by blast
  then show "cong25519 (gfval (mul_gf a b)) (gfval a * gfval b)"
    using cong25519_trans [OF _ r(2)] t(3) by simp
qed

section \<open>Sums, differences, selection, inverse\<close>

lemma add_gf_loose:
  assumes "tight a" "tight b"
  shows "loose (add_gf a b)" "gfval (add_gf a b) = gfval a + gfval b"
proof -
  have l: "length a = 16" "length b = 16" using assms by (simp_all add: tight_def)
  have n: "add_gf a b ! i = a ! i + b ! i" "\<bar>a ! i + b ! i\<bar> \<le> 262144" if "i < 16" for i
    using tight_limb [OF assms(1) that] tight_limb [OF assms(2) that] l that by (auto simp: add_gf_def)
  show "loose (add_gf a b)" using n l by (simp add: loose_def bounded_def add_gf_def)
  show "gfval (add_gf a b) = gfval a + gfval b"
    using n l by (simp add: gfval_def sum.distrib [symmetric] algebra_simps add_gf_def)
qed

lemma sub_gf_loose:
  assumes "tight a" "tight b"
  shows "loose (sub_gf a b)" "gfval (sub_gf a b) = gfval a - gfval b"
proof -
  have l: "length a = 16" "length b = 16" using assms by (simp_all add: tight_def)
  have n: "sub_gf a b ! i = a ! i - b ! i" "\<bar>a ! i - b ! i\<bar> \<le> 262144" if "i < 16" for i
    using tight_limb [OF assms(1) that] tight_limb [OF assms(2) that] l that by (auto simp: sub_gf_def)
  show "loose (sub_gf a b)" using n l by (simp add: loose_def bounded_def sub_gf_def)
  have "gfval (sub_gf a b) = (\<Sum>i<16. (a ! i - b ! i) * 65536 ^ i)"
    unfolding gfval_def using n(1) l by (intro sum.cong) (simp_all add: sub_gf_def)
  then show "gfval (sub_gf a b) = gfval a - gfval b"
    by (simp add: gfval_def l left_diff_distrib sum_subtractf)
qed

end
