(* ===== verification/X25519_Props.thy ===== *)
theory X25519_Props
  imports X25519_Field
begin

text \<open>
  \<open>X25519\<close> is the function of RFC 7748: packing gives the canonical representative, inversion is
  the power \<open>p - 2\<close>, each ladder step is the RFC's step up to the placement of the conditional
  swaps, and the whole is the RFC's pseudo-code over integers modulo \<open>2 ^ 255 - 19\<close>.
\<close>

section \<open>Packing\<close>

definition p_limbs :: gf where
  "p_limbs = map (\<lambda>i. if i = 0 then 0xffed else if i = 15 then 0x7fff else 0xffff) [0..<16]"

definition p_diff :: "gf \<Rightarrow> gf" where "p_diff t = map2 (-) t p_limbs"

lemma gfval_p_limbs: "gfval p_limbs = p25519" by code_simp

lemma p_diff_facts:
  assumes "normal t"
  shows "length (p_diff t) = 16" "\<forall>i<16. - 65535 \<le> p_diff t ! i \<and> p_diff t ! i < 65536"
    "gfval (p_diff t) = gfval t - p25519"
proof -
  have l: "length t = 16" using assms by (simp add: normal_def)
  show lp: "length (p_diff t) = 16" using l by (simp add: p_diff_def p_limbs_def)
  have n: "p_diff t ! i = t ! i - p_limbs ! i" if "i < 16" for i
    using l that by (simp add: p_diff_def p_limbs_def)
  have pl: "0 \<le> p_limbs ! i \<and> p_limbs ! i \<le> 65535" if "i < 16" for i using that by (simp add: p_limbs_def)
  show "\<forall>i<16. - 65535 \<le> p_diff t ! i \<and> p_diff t ! i < 65536"
    using n pl assms by (fastforce simp: normal_def)
  have "gfval (p_diff t) = (\<Sum>i<16. (t ! i - p_limbs ! i) * 65536 ^ i)"
    unfolding gfval_def lp by (intro sum.cong) (simp_all add: n)
  also have "\<dots> = gfval t - gfval p_limbs"
    by (simp add: gfval_def l p_limbs_def left_diff_distrib sum_subtractf del: upt_Suc)
  finally show "gfval (p_diff t) = gfval t - p25519" by (simp add: gfval_p_limbs)
qed

lemma borrow_range:
  assumes "\<forall>i<16. - 65535 \<le> g ! i \<and> g ! i < 65536"
  shows "i < 16 \<Longrightarrow> carry g i = - 1 \<or> carry g i = 0"
proof (induction i)
  case 0
  have "- 65535 \<le> g ! 0" "g ! 0 < 65536" using assms by auto
  then show ?case unfolding carry.simps by linarith
next
  case (Suc i)
  have "- 65535 \<le> g ! Suc i" "g ! Suc i < 65536" using assms Suc.prems by auto
  moreover have "carry g i = - 1 \<or> carry g i = 0" by (rule Suc.IH) (use Suc.prems in linarith)
  ultimately show ?case unfolding carry.simps by linarith
qed

lemma borrow_bit:
  assumes "x div 65536 = - 1 \<or> x div 65536 = (0 :: int)"
  shows "drop_bit 16 x AND 1 = - (x div 65536)"
  using assms by (auto simp: drop_bit_eq_div and_one_eq)

lemma and_0xffff: "(x :: int) AND 0xffff = x mod 65536"
  using take_bit_eq_mask [of 16 x] by (simp add: mask_eq_exp_minus_1 take_bit_eq_mod)

lemma sel25519_bit:
  assumes "length p = length q" "b = 0 \<or> b = 1"
  shows "sel25519 p q b = (if b = 1 then (q, p) else (p, q))"
proof -
  have 0: "map2 (\<lambda>x y. x) p q = p" "map2 (\<lambda>x y. y) p q = q" 
    using assms(1) by (auto intro!: nth_equalityI)
  have 1: "x XOR (x XOR y) = y" "y XOR (x XOR y) = x" for x y :: int
    by (simp_all add: xor.left_commute)
  show ?thesis using assms(2)
  proof
    assume "b = 0"
    then show ?thesis using 0 by (simp add: sel25519_def)
  next
    assume "b = 1"
    then show ?thesis using 0 by (simp add: sel25519_def 1)
  qed
qed

text \<open>The difference after the borrow loop has run up to \<open>k\<close>.\<close>

definition borrow_limb :: "gf \<Rightarrow> nat \<Rightarrow> nat \<Rightarrow> int" where
  "borrow_limb g k j =
     (if Suc j < k then with_carry g j mod 65536 else if Suc j = k then with_carry g j else 0)"

lemma pack_borrow_step:
  assumes t: "normal t" and k: "1 \<le> k" "k < 15"
  shows "pack_borrow t (map (borrow_limb (p_diff t) k) [0..<16]) k = map (borrow_limb (p_diff t) (Suc k)) [0..<16]"
proof -
  define g where "g = p_diff t"
  define m where "m = map (borrow_limb g k) [0..<16]"
  note d = p_diff_facts [OF t, folded g_def]
  have c: "carry g (k - 1) = - 1 \<or> carry g (k - 1) = 0" using borrow_range [OF d(2), of "k - 1"] k by simp
  have l: "length m = 16" "m ! (k - 1) = with_carry g (k - 1)" using k by (simp_all add: m_def borrow_limb_def)
  have "with_carry g (k - 1) div 65536 = - 1 \<or> with_carry g (k - 1) div 65536 = 0"
    using c unfolding carry_div .
  note bit = borrow_bit [OF this, folded carry_div]
  have tk: "0 \<le> t ! k" "t ! k < 65536" using t k by (auto simp: normal_def)
  have g: "t ! k - 65535 = g ! k" using k t by (simp add: g_def p_diff_def p_limbs_def normal_def)
  have w: "with_carry g k = g ! k + carry g (k - 1)" using k by (simp add: with_carry_def)
  have i: "i64 (i64 (t ! k - 65535) + carry g (k - 1)) = with_carry g k"
    using tk c unfolding w g [symmetric] by (subst (2) i64_id, linarith, linarith, subst i64_id) linarith+
  have "pack_borrow t m k = m[k := with_carry g k, k - 1 := with_carry g (k - 1) mod 65536]"
    using k l i bit by (simp add: pack_borrow_def Let_def and_0xffff)
  also have "\<dots> = map (borrow_limb g (Suc k)) [0..<16]"
    using k by (intro nth_equalityI) (auto simp: m_def nth_list_update borrow_limb_def)
  finally show ?thesis by (simp add: m_def g_def)
qed

lemma pack_borrow_loop:
  assumes t: "normal t"
  shows "k < 15 \<Longrightarrow> foldl (pack_borrow t) (gf0[0 := i64 (t ! 0 - 0xffed)]) [1..<Suc k] =
    map (borrow_limb (p_diff t) (Suc k)) [0..<16]"
proof (induction k)
  case 0
  have "0 \<le> t ! 0" "t ! 0 < 65536" using t by (auto simp: normal_def)
  then have "i64 (t ! 0 - 65517) = t ! 0 - 65517" by (intro i64_id) linarith+
  moreover have "p_diff t ! 0 = t ! 0 - 65517" using t by (simp add: p_diff_def p_limbs_def normal_def)
  ultimately show ?case
    by (intro nth_equalityI) (auto simp: gf0_def nth_list_update borrow_limb_def with_carry_def)
next
  case (Suc k)
  then show ?case using pack_borrow_step [OF t, of "Suc k"] by simp
qed

lemma gfval_normal_range: "length g = 16 \<Longrightarrow> \<forall>i<16. 0 \<le> g ! i \<and> g ! i < 65536 \<Longrightarrow> 0 \<le> gfval g \<and> gfval g < 2 ^ 256"
proof -
  assume a: "length g = 16" "\<forall>i<16. 0 \<le> g ! i \<and> g ! i < 65536"
  have "n \<le> 16 \<Longrightarrow> 0 \<le> (\<Sum>i<n. g ! i * 65536 ^ i) \<and> (\<Sum>i<n. g ! i * 65536 ^ i) < 65536 ^ n" for n
  proof (induction n)
    case (Suc n)
    have "g ! n < 65536" using a(2) Suc.prems by simp
    then have "g ! n * 65536 ^ n \<le> 65535 * 65536 ^ n" by (intro mult_right_mono) auto
    moreover have "0 \<le> g ! n * 65536 ^ n" using a(2) Suc.prems by simp
    moreover have "0 \<le> (\<Sum>i<n. g ! i * 65536 ^ i) \<and> (\<Sum>i<n. g ! i * 65536 ^ i) < 65536 ^ n"
      using Suc by simp
    ultimately show ?case unfolding sum.lessThan_Suc power_Suc by linarith
  qed simp
  from this [of 16] show ?thesis by (simp add: gfval_def a(1))
qed

lemma pack_sub_value:
  assumes t: "normal t"
  shows "normal (pack_sub t)" "gfval (pack_sub t) = (if gfval t < p25519 then gfval t else gfval t - p25519)"
proof -
  define g where "g = p_diff t"
  note d = p_diff_facts [OF t, folded g_def]
  define m where "m = map (borrow_limb g 15) [0..<16]"
  define m' where "m' = map (\<lambda>i. if i < 15 then with_carry g i mod 65536 else with_carry g i) [0..<16]"
  define u where "u = map (\<lambda>i. with_carry g i mod 65536) [0..<16]"
  have e: "Suc 14 = 15" "Suc 15 = 16" by simp_all
  have m: "foldl (pack_borrow t) (gf0[0 := i64 (t ! 0 - 0xffed)]) [1..<15] = m"
    using pack_borrow_loop [OF t, of 14] by (simp add: m_def g_def e)
  have c14: "carry g 14 = - 1 \<or> carry g 14 = 0" and c15: "carry g 15 = - 1 \<or> carry g 15 = 0"
    using borrow_range [OF d(2)] by simp_all
  have m14: "m ! 14 = with_carry g 14" "length m = 16" by (simp_all add: m_def borrow_limb_def)
  note b14 = borrow_bit [OF c14 [unfolded carry_div], folded carry_div]
  note b15 = borrow_bit [OF c15 [unfolded carry_div], folded carry_div]
  have tk: "0 \<le> t ! 15" "t ! 15 < 65536" using t by (auto simp: normal_def)
  have g15: "t ! 15 - 32767 = g ! 15" using t by (simp add: g_def p_diff_def p_limbs_def normal_def)
  have w: "with_carry g 15 = g ! 15 + carry g 14" by (simp add: with_carry_def)
  have i: "i64 (i64 (t ! 15 - 32767) + carry g 14) = with_carry g 15"
    using tk c14 unfolding w g15 [symmetric] by (subst (2) i64_id, linarith, linarith, subst i64_id) linarith+
  have m': "m[15 := with_carry g 15, 14 := with_carry g 14 mod 65536] = m'"
  proof (rule nth_equalityI)
    fix i assume "i < length (m[15 := with_carry g 15, 14 := with_carry g 14 mod 65536])"
    then have "i < 14 \<or> i = 14 \<or> i = 15" by (auto simp: m_def)
    then show "m[15 := with_carry g 15, 14 := with_carry g 14 mod 65536] ! i = m' ! i"
      by (auto simp: m_def m'_def nth_list_update borrow_limb_def)
  qed (simp add: m_def m'_def)
  have l: "length t = length m'" using t by (simp add: m'_def normal_def)
  have "pack_sub t = fst (sel25519 t m' (1 + carry g 15))"
    using m14 b14 b15 i m' unfolding pack_sub_def Let_def m by (simp add: and_0xffff list_update_swap)
  also have "\<dots> = (if carry g 15 = 0 then m' else t)"
    using sel25519_bit [OF l, of "1 + carry g 15"] c15 by auto
  finally have r: "pack_sub t = (if carry g 15 = 0 then m' else t)" .
  have w15: "with_carry g 15 = 65536 * carry g 15 + with_carry g 15 mod 65536" by (simp add: carry_div)
  have m'u: "m' = u" if "carry g 15 = 0"
  proof (rule nth_equalityI)
    fix i assume "i < length m'"
    then have "i < 15 \<or> i = 15" by (auto simp: m'_def)
    then show "m' ! i = u ! i" using that w15 by (auto simp: m'_def u_def)
  qed (simp add: m'_def u_def)
  have nu: "normal u" by (simp add: normal_def u_def)
  have "gfval u = gfval g - carry g 15 * 2 ^ 256"
    using carry_telescope [of g 15] unfolding e by (simp add: gfval_def u_def d(1))
  then have u: "gfval u = gfval t - p25519 - carry g 15 * 2 ^ 256" using d(3) by simp
  have ub: "0 \<le> gfval u \<and> gfval u < 2 ^ 256" using nu by (intro gfval_normal_range) (auto simp: normal_def)
  have lt: "carry g 15 = 0 \<longleftrightarrow> p25519 \<le> gfval t"
    using c15 u ub gfval_normal_range [of t] t by (auto simp: normal_def p25519_def)
  show "normal (pack_sub t)" using r m'u nu t by simp
  show "gfval (pack_sub t) = (if gfval t < p25519 then gfval t else gfval t - p25519)"
    using r m'u u lt by auto
qed

text \<open>The carry passes in front of the subtraction normalise a tight element.\<close>

lemma car_tight_normal:
  assumes "tight g"
  shows "normal (car25519 g)"
proof -
  have r: "car25519 g = car_result g" by (rule car25519_result [OF tight_bounded [OF assms]]) simp_all
  have g0: "- 38 \<le> g ! 0 \<and> g ! 0 < 65574" using tight_limb [OF assms] by simp
  have gi: "0 \<le> g ! Suc i \<and> g ! Suc i < 65536" if "Suc i < 16" for i
    using assms that unfolding tight_def by (metis nat.distinct(1))
  have c: "i < 16 \<Longrightarrow> (carry g i = - 1 \<and> g ! 0 < 0) \<or> carry g i = 0 \<or> (carry g i = 1 \<and> 65536 \<le> g ! 0)" for i
  proof (induction i)
    case 0
    show ?case using g0 unfolding carry.simps by linarith
  next
    case (Suc i)
    have "(carry g i = - 1 \<and> g ! 0 < 0) \<or> carry g i = 0 \<or> (carry g i = 1 \<and> 65536 \<le> g ! 0)"
      by (rule Suc.IH) (use Suc.prems in linarith)
    then show ?case using gi [OF Suc.prems] unfolding carry.simps by linarith
  qed
  have "0 \<le> g ! 0 mod 65536 + 38 * carry g 15 \<and> g ! 0 mod 65536 + 38 * carry g 15 < 65536"
  proof -
    have "(carry g 15 = - 1 \<and> g ! 0 < 0) \<or> carry g 15 = 0 \<or> (carry g 15 = 1 \<and> 65536 \<le> g ! 0)"
      by (rule c) simp
    then show ?thesis
    proof (elim disjE conjE)
      assume a: "carry g 15 = - 1" "g ! 0 < 0"
      have "(g ! 0 + 65536) mod 65536 = g ! 0 + 65536" using a(2) g0 by (intro mod_pos_pos_trivial) auto
      then show ?thesis using a g0 by simp
    next
      assume "carry g 15 = 0"
      then show ?thesis by simp
    next
      assume a: "carry g 15 = 1" "65536 \<le> g ! 0"
      have "(g ! 0 - 65536) mod 65536 = g ! 0 - 65536" using a(2) g0 by (intro mod_pos_pos_trivial) auto
      then show ?thesis using a g0 by simp
    qed
  qed
  then show ?thesis unfolding r by (auto simp: normal_def nth_car_result with_carry_def)
qed

lemma car_normal:
  assumes "normal g"
  shows "car25519 g = g"
proof -
  have r: "car25519 g = car_result g"
    by (rule car25519_result [OF tight_bounded [OF normal_tight [OF assms]]]) simp_all
  have "i < 16 \<Longrightarrow> carry g i = 0" for i
    using assms by (induction i) (auto simp: normal_def div_pos_pos_trivial)
  then show ?thesis unfolding r using assms
    by (intro nth_equalityI) (auto simp: nth_car_result normal_def with_carry_def mod_pos_pos_trivial)
qed

lemma nat_of_le_limbs:
  assumes "\<forall>i<n. 0 \<le> t ! i \<and> t ! i < (65536 :: int)"
  shows "int (nat_of_le (concat (map (\<lambda>i. [word_of_int (t ! i AND 0xff), word_of_int (drop_bit 8 (t ! i))]) [0..<n]))) =
    (\<Sum>i<n. t ! i * 65536 ^ i)"
  using assms
proof (induction n)
  case (Suc n)
  define f where "f = (\<lambda>i. [word_of_int (t ! i AND 0xff), word_of_int (drop_bit 8 (t ! i)) :: 8 word])"
  have l: "length (concat (map f [0..<n])) = 2 * n" by (induction n) (simp_all add: f_def)
  have tn: "0 \<le> t ! n" "t ! n < 65536" using Suc.prems by simp_all
  have a: "t ! n AND 0xff = t ! n mod 256"
    using take_bit_eq_mask [of 8 "t ! n"] by (simp add: mask_eq_exp_minus_1 take_bit_eq_mod)
  have d: "drop_bit 8 (t ! n) = t ! n div 256" by (simp add: drop_bit_eq_div)
  have "uint (word_of_int (t ! n mod 256) :: 8 word) = t ! n mod 256"
    "uint (word_of_int (t ! n div 256) :: 8 word) = t ! n div 256"
    using tn by (simp_all add: uint_word_of_int take_bit_eq_mod mod_pos_pos_trivial)
  moreover have "0 \<le> t ! n div 256" using tn by simp
  ultimately have f: "int (nat_of_le (f n)) = t ! n" unfolding f_def a d
    by (simp add: unat_eq_nat_uint)
  have "int (nat_of_le (concat (map f [0..<Suc n]))) =
      int (nat_of_le (concat (map f [0..<n]))) + 65536 ^ n * t ! n"
    using f by (simp add: nat_of_le_append l power_mult)
  then show ?case using Suc by (simp add: f_def)
qed simp

lemma pack25519_value:
  assumes "tight g"
  shows "int (nat_of_le (pack25519 g)) = gfval g mod p25519" "length (pack25519 g) = 32"
proof -
  define t where "t = car25519 g"
  have t: "normal t" unfolding t_def by (rule car_tight_normal [OF assms])
  have r: "t = car_result g" unfolding t_def by (rule car25519_result [OF tight_bounded [OF assms]]) simp_all
  have lg: "length g = 16" using assms by (simp add: tight_def)
  have v: "cong25519 (gfval t) (gfval g)" unfolding r by (rule cong_car_result [OF lg])
  define u where "u = pack_sub (pack_sub t)"
  note s1 = pack_sub_value [OF t] and s2 = pack_sub_value [OF pack_sub_value(1) [OF t]]
  have "0 \<le> gfval t \<and> gfval t < 2 ^ 256" using t by (intro gfval_normal_range) (auto simp: normal_def)
  then have u: "0 \<le> gfval u \<and> gfval u < p25519" unfolding u_def s1(2) s2(2) by (auto simp: p25519_def)
  have "cong25519 (gfval u) (gfval t)" unfolding u_def s1(2) s2(2) cong25519_def by auto
  then have uv: "gfval u = gfval g mod p25519"
    using u v unfolding cong25519_def by (metis mod_pos_pos_trivial)
  have nu: "normal u" unfolding u_def by (rule s2(1))
  have p: "pack25519 g = concat (map (\<lambda>i. [word_of_int (u ! i AND 0xff), word_of_int (drop_bit 8 (u ! i))]) [0..<16])"
    using car_normal [OF t] by (simp add: pack25519_def Let_def t_def u_def)
  have "gfval u = (\<Sum>i<16. u ! i * 65536 ^ i)" using nu by (simp add: gfval_def normal_def)
  then show "int (nat_of_le (pack25519 g)) = gfval g mod p25519"
    unfolding p uv [symmetric] using nu by (subst nat_of_le_limbs) (auto simp: normal_def)
  show "length (pack25519 g) = 32" unfolding p by (simp add: length_concat o_def sum_list_triv)
qed

section \<open>Inversion\<close>

lemma mul_gf_cong:
  "loose a \<Longrightarrow> loose b \<Longrightarrow> cong25519 (gfval a) x \<Longrightarrow> cong25519 (gfval b) y \<Longrightarrow> cong25519 (gfval (mul_gf a b)) (x * y)"
  using mul_gf_value cong25519_mult cong25519_trans by blast

definition inv_exp :: "nat \<Rightarrow> nat \<Rightarrow> nat" where
  "inv_exp e a = 2 * e + (if a \<noteq> 2 \<and> a \<noteq> 4 then 1 else 0)"

lemma inv_loop:
  assumes "tight i"
  shows "tight c \<Longrightarrow> cong25519 (gfval c) (gfval i ^ e) \<Longrightarrow>
    tight (foldl (inv_step i) c as) \<and> cong25519 (gfval (foldl (inv_step i) c as)) (gfval i ^ foldl inv_exp e as)"
proof (induction as arbitrary: c e)
  case (Cons a as)
  note l = tight_loose [OF Cons.prems(1)]
  define d where "d = sq_gf c"
  have d: "tight d" "cong25519 (gfval d) (gfval i ^ (2 * e))"
    using mul_gf_tight [OF l l] mul_gf_cong [OF l l Cons.prems(2,2)]
    by (simp_all add: d_def sq_gf_def mult_2 power_add)
  have "tight (inv_step i c a) \<and> cong25519 (gfval (inv_step i c a)) (gfval i ^ inv_exp e a)"
  proof (cases "a \<noteq> 2 \<and> a \<noteq> 4")
    case True
    then show ?thesis
      using mul_gf_tight [OF tight_loose [OF d(1)] tight_loose [OF assms]]
        mul_gf_cong [OF tight_loose [OF d(1)] tight_loose [OF assms] d(2) cong25519_refl]
      by (simp add: inv_step_def Let_def d_def inv_exp_def mult.commute)
  next
    case False
    then show ?thesis using d by (auto simp: inv_step_def Let_def d_def inv_exp_def)
  qed
  then show ?case using Cons.IH [of "inv_step i c a" "inv_exp e a"] by simp
qed simp

lemma inv_exp_run: "\<forall>a \<in> set as. a \<noteq> 2 \<and> a \<noteq> 4 \<Longrightarrow> foldl inv_exp e as = (e + 1) * 2 ^ length as - 1"
proof (induction as arbitrary: e)
  case (Cons a as)
  have "inv_exp e a = 2 * e + 1" using Cons.prems by (simp add: inv_exp_def)
  then show ?case using Cons by simp
qed simp

lemma inv_exponent: "foldl inv_exp 1 (rev [0..<254]) = 2 ^ 255 - 21"
proof -
  have "[0..<5 + 249] = [0..<5] @ [5..<5 + 249]" by (rule upt_add_eq_append) simp
  moreover have "[0..<5] = [0, 1, 2, 3, 4 :: nat]" "(5 + 249 :: nat) = 254" by (simp_all add: upt_rec)
  ultimately have "[0..<254] = [0, 1, 2, 3, 4] @ [5..<254]" by (simp only:)
  then have r: "rev [0..<254] = rev [5..<254] @ [4, 3, 2, 1, 0]"
    by (simp only: rev_append) simp
  have "foldl inv_exp 1 (rev [5..<254]) = 2 * 2 ^ 249 - 1" by (subst inv_exp_run) auto
  then show ?thesis unfolding r foldl_append by (simp add: inv_exp_def)
qed

lemma inv25519_value:
  assumes "tight i"
  shows "tight (inv25519 i)" "cong25519 (gfval (inv25519 i)) (gfval i ^ (2 ^ 255 - 21))"
  using inv_loop [OF assms assms, of 1 "rev [0..<254]"] unfolding inv25519_def inv_exponent by simp_all

section \<open>The reference\<close>

text \<open>RFC 7748, section 5: the scalar and the u-coordinate as numbers, the ladder with its deferred
  swaps, and the final inversion, over integers modulo \<open>2 ^ 255 - 19\<close>.\<close>

definition rfc_scalar :: "bytes \<Rightarrow> nat" where
  "rfc_scalar k = nat_of_le k mod 2 ^ 254 - nat_of_le k mod 8 + 2 ^ 254"

definition rfc_u :: "bytes \<Rightarrow> nat" where
  "rfc_u u = nat_of_le u mod 2 ^ 255"

definition cswap :: "int \<Rightarrow> int \<Rightarrow> int \<Rightarrow> int \<times> int" where
  "cswap s x y = (if s = 1 then (y, x) else (x, y))"

definition rfc_step :: "nat \<Rightarrow> int \<Rightarrow> int \<times> int \<times> int \<times> int \<times> int \<Rightarrow> nat \<Rightarrow> int \<times> int \<times> int \<times> int \<times> int" where
  "rfc_step k x1 st t =
     (let (x2, z2, x3, z3, swap) = st;
          kt = int (k div 2 ^ t mod 2);
          swap = (swap + kt) mod 2;
          (x2, x3) = cswap swap x2 x3;
          (z2, z3) = cswap swap z2 z3;
          A = (x2 + z2) mod p25519; AA = A ^ 2 mod p25519;
          B = (x2 - z2) mod p25519; BB = B ^ 2 mod p25519;
          E = (AA - BB) mod p25519;
          C = (x3 + z3) mod p25519; D = (x3 - z3) mod p25519;
          DA = D * A mod p25519; CB = C * B mod p25519
      in (AA * BB mod p25519, E * (AA + 121665 * E) mod p25519,
          (DA + CB) ^ 2 mod p25519, x1 * (DA - CB) ^ 2 mod p25519, kt))"

definition rfc7748 :: "nat \<Rightarrow> nat \<Rightarrow> int" where
  "rfc7748 k u =
     (let (x2, z2, x3, z3, swap) = foldl (rfc_step k (int u)) (1, 0, int u, 1, 0) (rev [0..<255]);
          (x2, x3) = cswap swap x2 x3;
          (z2, z3) = cswap swap z2 z3
      in x2 * z2 ^ (2 ^ 255 - 21) mod p25519)"

section \<open>The ladder\<close>

text \<open>The code undoes its swap at the end of a step, the RFC leaves it pending in \<open>swap\<close>.\<close>

definition ladder_rel :: "gf \<times> gf \<times> gf \<times> gf \<Rightarrow> int \<times> int \<times> int \<times> int \<times> int \<Rightarrow> bool" where
  "ladder_rel cs rs \<longleftrightarrow>
     (case cs of (a, b, c, d) \<Rightarrow> case rs of (x2, z2, x3, z3, s) \<Rightarrow>
       tight a \<and> tight b \<and> tight c \<and> tight d \<and> (s = 0 \<or> s = 1) \<and>
       cong25519 (gfval a) (fst (cswap s x2 x3)) \<and> cong25519 (gfval b) (snd (cswap s x2 x3)) \<and>
       cong25519 (gfval c) (fst (cswap s z2 z3)) \<and> cong25519 (gfval d) (snd (cswap s z2 z3)))"

text \<open>The step between the swaps.\<close>

definition ladder_core :: "gf \<Rightarrow> gf \<Rightarrow> gf \<Rightarrow> gf \<Rightarrow> gf \<Rightarrow> gf \<times> gf \<times> gf \<times> gf" where
  "ladder_core x a b c d =
     (let e = add_gf a c;
          a = sub_gf a c;
          c = add_gf b d;
          b = sub_gf b d;
          d = sq_gf e;
          f = sq_gf a;
          a = mul_gf c a;
          c = mul_gf b e;
          e = add_gf a c;
          a = sub_gf a c;
          b = sq_gf a;
          c = sub_gf d f;
          a = mul_gf c gf121665;
          a = add_gf a d;
          c = mul_gf c a;
          a = mul_gf d f;
          d = mul_gf b x;
          b = sq_gf e
      in (a, b, c, d))"

lemma gf121665_facts: "loose gf121665" "gfval gf121665 = 121665"
proof -
  have "\<forall>i<16. \<bar>gf121665 ! i\<bar> \<le> 262144" by (auto simp: gf121665_def gf0_def nth_list_update)
  then show "loose gf121665" by (simp add: loose_def bounded_def gf121665_def gf0_def)
  show "gfval gf121665 = 121665" by code_simp
qed

lemma cong_square: "cong25519 x y \<Longrightarrow> cong25519 (x * x) (y ^ 2)"
  unfolding power2_eq_square by (rule cong25519_mult)

lemma ladder_core_value:
  assumes t: "tight x" "tight a" "tight b" "tight c" "tight d"
    and v: "cong25519 (gfval x) x1" "cong25519 (gfval a) x2" "cong25519 (gfval b) x3"
      "cong25519 (gfval c) z2" "cong25519 (gfval d) z3"
    and r: "ladder_core x a b c d = (a', b', c', d')"
  defines "AA \<equiv> (x2 + z2) ^ 2" and "BB \<equiv> (x2 - z2) ^ 2"
    and "DA \<equiv> (x3 - z3) * (x2 + z2)" and "CB \<equiv> (x3 + z3) * (x2 - z2)"
  shows "tight a' \<and> tight b' \<and> tight c' \<and> tight d'"
    "cong25519 (gfval a') (AA * BB)" "cong25519 (gfval b') ((DA + CB) ^ 2)"
    "cong25519 (gfval c') ((AA - BB) * (AA + 121665 * (AA - BB)))" "cong25519 (gfval d') (x1 * (DA - CB) ^ 2)"
proof -
  define e where "e = add_gf a c"
  define a1 where "a1 = sub_gf a c"
  define c1 where "c1 = add_gf b d"
  define b1 where "b1 = sub_gf b d"
  define d1 where "d1 = sq_gf e"
  define f where "f = sq_gf a1"
  define a2 where "a2 = mul_gf c1 a1"
  define c2 where "c2 = mul_gf b1 e"
  define e2 where "e2 = add_gf a2 c2"
  define a3 where "a3 = sub_gf a2 c2"
  define b2 where "b2 = sq_gf a3"
  define c3 where "c3 = sub_gf d1 f"
  define a4 where "a4 = mul_gf c3 gf121665"
  define a5 where "a5 = add_gf a4 d1"
  have r': "a' = mul_gf d1 f" "b' = sq_gf e2" "c' = mul_gf c3 a5" "d' = mul_gf b2 x"
    using r [symmetric] unfolding ladder_core_def Let_def a1_def b1_def c1_def d1_def e_def f_def
      a2_def c2_def e2_def a3_def b2_def c3_def a4_def a5_def by simp_all
  have e: "loose e" "cong25519 (gfval e) (x2 + z2)"
    using add_gf_loose [OF t(2,4)] v(2,4) by (simp_all add: e_def cong25519_add)
  have a1: "loose a1" "cong25519 (gfval a1) (x2 - z2)"
    using sub_gf_loose [OF t(2,4)] v(2,4) by (simp_all add: a1_def cong25519_diff)
  have c1: "loose c1" "cong25519 (gfval c1) (x3 + z3)"
    using add_gf_loose [OF t(3,5)] v(3,5) by (simp_all add: c1_def cong25519_add)
  have b1: "loose b1" "cong25519 (gfval b1) (x3 - z3)"
    using sub_gf_loose [OF t(3,5)] v(3,5) by (simp_all add: b1_def cong25519_diff)
  have d1: "tight d1" "cong25519 (gfval d1) AA"
    using mul_gf_tight [OF e(1,1)] mul_gf_cong [OF e(1,1) e(2,2)]
    by (simp_all add: d1_def sq_gf_def AA_def power2_eq_square)
  have f: "tight f" "cong25519 (gfval f) BB"
    using mul_gf_tight [OF a1(1,1)] mul_gf_cong [OF a1(1,1) a1(2,2)]
    by (simp_all add: f_def sq_gf_def BB_def power2_eq_square)
  have a2: "tight a2" "cong25519 (gfval a2) CB"
    using mul_gf_tight [OF c1(1) a1(1)] mul_gf_cong [OF c1(1) a1(1) c1(2) a1(2)]
    by (simp_all add: a2_def CB_def)
  have c2: "tight c2" "cong25519 (gfval c2) DA"
    using mul_gf_tight [OF b1(1) e(1)] mul_gf_cong [OF b1(1) e(1) b1(2) e(2)]
    by (simp_all add: c2_def DA_def)
  have e2: "loose e2" "cong25519 (gfval e2) (CB + DA)"
    using add_gf_loose [OF a2(1) c2(1)] a2(2) c2(2) by (simp_all add: e2_def cong25519_add)
  have a3: "loose a3" "cong25519 (gfval a3) (CB - DA)"
    using sub_gf_loose [OF a2(1) c2(1)] a2(2) c2(2) by (simp_all add: a3_def cong25519_diff)
  have b2: "tight b2" "cong25519 (gfval b2) ((CB - DA) ^ 2)"
    using mul_gf_tight [OF a3(1,1)] mul_gf_cong [OF a3(1,1) a3(2,2)]
    by (simp_all add: b2_def sq_gf_def power2_eq_square)
  have c3: "loose c3" "cong25519 (gfval c3) (AA - BB)"
    using sub_gf_loose [OF d1(1) f(1)] d1(2) f(2) by (simp_all add: c3_def cong25519_diff)
  have a4: "tight a4" "cong25519 (gfval a4) ((AA - BB) * 121665)"
    using mul_gf_tight [OF c3(1) gf121665_facts(1)]
      mul_gf_cong [OF c3(1) gf121665_facts(1) c3(2) cong25519_refl] gf121665_facts(2)
    by (simp_all add: a4_def)
  have a5: "loose a5" "cong25519 (gfval a5) ((AA - BB) * 121665 + AA)"
    using add_gf_loose [OF a4(1) d1(1)] cong25519_add [OF a4(2) d1(2)] by (simp_all add: a5_def)
  note l = tight_loose [OF d1(1)] tight_loose [OF f(1)] tight_loose [OF b2(1)] tight_loose [OF t(1)]
  show "tight a' \<and> tight b' \<and> tight c' \<and> tight d'"
    unfolding r' sq_gf_def using mul_gf_tight l e2 c3 a5 by blast
  show "cong25519 (gfval a') (AA * BB)" unfolding r' by (rule mul_gf_cong [OF l(1,2) d1(2) f(2)])
  show "cong25519 (gfval b') ((DA + CB) ^ 2)" unfolding r' sq_gf_def
    using mul_gf_cong [OF e2(1,1) e2(2,2)] by (simp add: power2_eq_square add.commute)
  show "cong25519 (gfval c') ((AA - BB) * (AA + 121665 * (AA - BB)))" unfolding r'
    using mul_gf_cong [OF c3(1) a5(1) c3(2) a5(2)] by (simp add: add.commute mult.commute)
  show "cong25519 (gfval d') (x1 * (DA - CB) ^ 2)" unfolding r'
    using mul_gf_cong [OF l(3,4) b2(2) v(1)] by (simp add: power2_commute mult.commute)
qed

lemma ladder_step_core:
  "ladder_step z x (a, b, c, d) i =
     (let r = uint (drop_bit (i AND 7) (z ! drop_bit 3 i) AND 1);
          (a, b) = sel25519 a b r; (c, d) = sel25519 c d r;
          (a, b, c, d) = ladder_core x a b c d
      in case sel25519 a b r of (a, b) \<Rightarrow> case sel25519 c d r of (c, d) \<Rightarrow> (a, b, c, d))"
  by (simp add: ladder_step_def ladder_core_def Let_def split: prod.split)

lemma nat_of_le_byte: "j < length bs \<Longrightarrow> nat_of_le bs div 256 ^ j mod 256 = unat (bs ! j)"
proof (induction bs arbitrary: j)
  case (Cons b bs)
  have b: "unat b < 256" using unsigned_less [of b, where ?'a = nat] by simp
  show ?case
  proof (cases j)
    case 0
    then show ?thesis using b by simp
  next
    case (Suc k)
    have "(unat b + 256 * nat_of_le bs) div 256 ^ Suc k = nat_of_le bs div 256 ^ k"
      using b by (simp add: div_mult2_eq)
    then show ?thesis using Cons Suc by simp
  qed
qed simp

lemma scalar_bit:
  assumes "i < 8 * length z"
  shows "uint (drop_bit (i AND 7) (z ! drop_bit 3 i) AND 1) = int (nat_of_le z div 2 ^ i mod 2)"
proof -
  define q j where "q = i div 8" and "j = i mod 8"
  define H where "H = nat_of_le z div 256 ^ q"
  have i: "i = 8 * q + j" "j < 8" by (simp_all add: q_def j_def)
  have ij: "i AND 7 = j" "drop_bit 3 i = q"
    using take_bit_eq_mask [of 3 i] by (simp_all add: mask_eq_exp_minus_1 take_bit_eq_mod j_def q_def drop_bit_eq_div)
  have "H mod 256 = unat (z ! q)" unfolding H_def using assms i by (intro nat_of_le_byte) linarith
  then have zq: "unat (z ! q) = take_bit 8 H" by (simp add: take_bit_eq_mod)
  have "nat_of_le z div 2 ^ i = H div 2 ^ j" by (simp add: i(1) H_def power_add power_mult div_mult2_eq)
  moreover have "unat (drop_bit j (z ! q) AND 1) = drop_bit j (take_bit 8 H) AND 1"
    by (simp only: unsigned_and_eq unat_drop_bit_eq zq unsigned_1)
  moreover have "drop_bit j (take_bit 8 H) AND 1 = of_bool (bit (take_bit 8 H) j)"
    by (simp add: and_one_eq bit_iff_odd_drop_bit mod2_eq_if)
  ultimately have "nat_of_le z div 2 ^ i = H div 2 ^ j"
    "unat (drop_bit j (z ! q) AND 1) = of_bool (bit (take_bit 8 H) j)" by simp_all
  moreover from this(2) have "uint (drop_bit j (z ! q) AND 1) = int (of_bool (bit (take_bit 8 H) j))"
    by (metis of_nat_unat)
  moreover have "int (H div 2 ^ j mod 2) = of_bool (bit H j)"
    by (simp add: bit_iff_odd mod2_eq_if)
  ultimately show ?thesis using i(2) by (simp add: ij bit_take_bit_iff)
qed

lemma cswap_xor:
  assumes "s = 0 \<or> s = 1" "k = 0 \<or> k = 1"
  shows "cswap ((s + k) mod 2) x y = (let (x, y) = cswap s x y in cswap k x y)"
  using assms by (auto simp: cswap_def)

lemma sel_tight: "tight p \<Longrightarrow> tight q \<Longrightarrow> b = 0 \<or> b = 1 \<Longrightarrow> sel25519 p q b = (if b = 1 then (q, p) else (p, q))"
  by (rule sel25519_bit) (simp_all add: tight_def)

lemma ladder_step_rel:
  assumes rel: "ladder_rel st rs" and x: "tight x" "cong25519 (gfval x) x1"
    and z: "length z = 32" and t: "t < 255"
  shows "ladder_rel (ladder_step z x st t) (rfc_step (nat_of_le z) x1 rs t)"
proof -
  obtain a b c d where st: "st = (a, b, c, d)" by (metis prod_cases4)
  obtain x2 z2 x3 z3 s where rs: "rs = (x2, z2, x3, z3, s)" by (metis prod_cases5)
  define kt where "kt = int (nat_of_le z div 2 ^ t mod 2)"
  have kt: "kt = 0 \<or> kt = 1" by (auto simp: kt_def)
  have bit: "uint (drop_bit (t AND 7) (z ! drop_bit 3 t) AND 1) = kt"
    unfolding kt_def using t by (intro scalar_bit) (simp add: z)
  note rel' = rel [unfolded ladder_rel_def st rs prod.case]
  have s: "s = 0 \<or> s = 1" using rel' by blast
  obtain a1 b1 where ab: "sel25519 a b kt = (a1, b1)" by force
  obtain c1 d1 where cd: "sel25519 c d kt = (c1, d1)" by force
  obtain y2 y3 where y: "cswap ((s + kt) mod 2) x2 x3 = (y2, y3)" by force
  obtain w2 w3 where w: "cswap ((s + kt) mod 2) z2 z3 = (w2, w3)" by force
  have tt: "tight a1" "tight b1" "tight c1" "tight d1"
    using ab cd rel' kt by (auto simp: sel_tight split: if_splits)
  have vv: "cong25519 (gfval a1) y2" "cong25519 (gfval b1) y3" "cong25519 (gfval c1) w2" "cong25519 (gfval d1) w3"
    using ab cd rel' kt y w unfolding cswap_xor [OF s kt]
    by (auto simp: sel_tight cswap_def split: if_splits)
  obtain a2 b2 c2 d2 where core: "ladder_core x a1 b1 c1 d1 = (a2, b2, c2, d2)" by (metis prod_cases4)
  note v = ladder_core_value [OF x(1) tt x(2) vv core]
  have t2: "tight a2" "tight b2" "tight c2" "tight d2" using v(1) by simp_all
  have code: "ladder_step z x st t = (if kt = 1 then (b2, a2, d2, c2) else (a2, b2, c2, d2))"
    unfolding st ladder_step_core bit Let_def ab cd core prod.case
    using sel_tight [OF t2(1,2) kt] sel_tight [OF t2(3,4) kt] by auto
  define A B C D where "A = (y2 + w2) mod p25519" and "B = (y2 - w2) mod p25519"
    and "C = (y3 + w3) mod p25519" and "D = (y3 - w3) mod p25519"
  define AA BB DA CB where "AA = A ^ 2 mod p25519" and "BB = B ^ 2 mod p25519"
    and "DA = D * A mod p25519" and "CB = C * B mod p25519"
  define EE where "EE = (AA - BB) mod p25519"
  have rfc: "rfc_step (nat_of_le z) x1 rs t =
      (AA * BB mod p25519, EE * (AA + 121665 * EE) mod p25519, (DA + CB) ^ 2 mod p25519,
       x1 * (DA - CB) ^ 2 mod p25519, kt)"
    unfolding rfc_step_def rs Let_def prod.case kt_def [symmetric] y w
      A_def B_def C_def D_def AA_def BB_def DA_def CB_def EE_def by simp
  have cA: "cong25519 ((y2 + w2) ^ 2) AA" "cong25519 ((y2 - w2) ^ 2) BB"
    "cong25519 ((y3 - w3) * (y2 + w2)) DA" "cong25519 ((y3 + w3) * (y2 - w2)) CB"
    by (simp_all add: AA_def BB_def DA_def CB_def A_def B_def C_def D_def cong25519_def
        power_mod mod_mult_eq mod_mult_left_eq mod_mult_right_eq)
  have cE: "cong25519 ((y2 + w2) ^ 2 - (y2 - w2) ^ 2) EE"
    unfolding EE_def using cong25519_diff [OF cA(1,2)] by simp
  have r1: "cong25519 (gfval a2) (AA * BB)" using v(2) cong25519_mult [OF cA(1,2)] cong25519_trans by blast
  have r2: "cong25519 (gfval b2) ((DA + CB) ^ 2)"
    using v(3) cong25519_mult [OF cong25519_add [OF cA(3,4)] cong25519_add [OF cA(3,4)]] cong25519_trans
    unfolding power2_eq_square by blast
  have r3: "cong25519 (gfval c2) (EE * (AA + 121665 * EE))"
    using v(4) cong25519_mult [OF cE cong25519_add [OF cA(1) cong25519_mult [OF cong25519_refl [of 121665] cE]]]
      cong25519_trans by blast
  have r4: "cong25519 (gfval d2) (x1 * (DA - CB) ^ 2)"
    using v(5) cong25519_mult [OF cong25519_refl [of x1]
        cong25519_mult [OF cong25519_diff [OF cA(3,4)] cong25519_diff [OF cA(3,4)]]] cong25519_trans
    unfolding power2_eq_square by blast
  show ?thesis unfolding code rfc ladder_rel_def using kt t2 r1 r2 r3 r4
    by (auto simp: cswap_def)
qed

lemma ladder_rel_run:
  assumes x: "tight x" "cong25519 (gfval x) x1" and z: "length z = 32"
  shows "ladder_rel st rs \<Longrightarrow> \<forall>t \<in> set ts. t < 255 \<Longrightarrow>
    ladder_rel (foldl (ladder_step z x) st ts) (foldl (rfc_step (nat_of_le z) x1) rs ts)"
proof (induction ts arbitrary: st rs)
  case (Cons t ts)
  then show ?case using ladder_step_rel [OF Cons.prems(1) x z, of t] by simp
qed simp

section \<open>Scalars and coordinates\<close>

lemma clamp_bytes_all:
  "list_all (\<lambda>x. unat (((of_nat x :: byte) AND 127) OR 64) = x mod 64 + 64 \<and>
     unat ((of_nat x :: byte) AND 248) = x - x mod 8) [0..<256]"
  by code_simp

lemma clamp_bytes: "unat ((b AND 127) OR 64) = unat b mod 64 + 64" "unat (b AND 248) = unat b - unat b mod 8"
  for b :: byte
proof -
  have "unat b < 256" using unsigned_less [of b, where ?'a = nat] by simp
  then have "unat b \<in> set [0..<256]" by simp
  note c = clamp_bytes_all [unfolded list_all_iff, rule_format, OF this]
  show "unat ((b AND 127) OR 64) = unat b mod 64 + 64" "unat (b AND 248) = unat b - unat b mod 8"
    using c by simp_all
qed

lemma clamp_value:
  assumes "length n = 32"
  shows "nat_of_le (clamp n) = rfc_scalar n" "length (clamp n) = 32"
proof -
  obtain b0 n' where n0: "n = b0 # n'" using assms by (cases n) auto
  define mid where "mid = take 30 n'"
  define b31 where "b31 = n' ! 30"
  have l: "length n' = 31" using assms n0 by simp
  have "take (Suc 30) n' = take 30 n' @ [n' ! 30]" by (rule take_Suc_conv_app_nth) (simp add: l)
  moreover have "take (Suc 30) n' = n'" using l by simp
  ultimately have "n' = mid @ [b31]" by (simp only: mid_def b31_def)
  then have n: "n = b0 # mid @ [b31]" and lm: "length mid = 30" using n0 assms by simp_all
  have c: "clamp n = (b0 AND 248) # mid @ [(b31 AND 127) OR 64]"
    using lm unfolding n clamp_def Let_def by (simp add: nth_append list_update_append)
  show "length (clamp n) = 32" unfolding c by (simp add: lm)
  define M where "M = nat_of_le mid"
  have b: "unat b0 < 256" using unsigned_less [of b0, where ?'a = nat] by simp
  have M: "M < 256 ^ 30" unfolding M_def using nat_of_le_bound [of mid] lm by simp
  have v: "nat_of_le n = unat b0 + 256 * M + 256 ^ 31 * unat b31"
    unfolding n by (simp add: nat_of_le_append lm M_def algebra_simps)
  have vc: "nat_of_le (clamp n) = (unat b0 - unat b0 mod 8) + 256 * M + 256 ^ 31 * (unat b31 mod 64 + 64)"
    unfolding c by (simp add: nat_of_le_append lm M_def clamp_bytes algebra_simps)
  have m8: "nat_of_le n mod 8 = unat b0 mod 8"
  proof -
    define X where "X = 32 * M + 32 * 256 ^ 30 * unat b31"
    have "nat_of_le n = unat b0 + 8 * X" unfolding v X_def by simp
    then show ?thesis by simp
  qed
  have e: "(2 :: nat) ^ 254 = 256 ^ 31 * 64" by simp
  have "unat b0 + 256 * M < 256 * 256 ^ 30" using b M by linarith
  then have lo: "unat b0 + 256 * M < 256 ^ 31" by simp
  have "nat_of_le n mod 2 ^ 254 = unat b0 + 256 * M + 256 ^ 31 * (unat b31 mod 64)"
    unfolding e v mod_mult2_eq using lo by simp
  moreover have "unat b0 mod 8 \<le> unat b0" by simp
  ultimately show "nat_of_le (clamp n) = rfc_scalar n"
    unfolding vc rfc_scalar_def m8 e by simp
qed

lemma nat_of_le_pairs:
  "length bs = 2 * n \<Longrightarrow>
   int (nat_of_le bs) = (\<Sum>i<n. (uint (bs ! (2 * i)) + 256 * uint (bs ! (2 * i + 1))) * 65536 ^ i)"
proof (induction n arbitrary: bs)
  case (Suc n)
  then obtain x y r where bs: "bs = x # y # r" and r: "length r = 2 * n"
    by (cases bs; cases "tl bs") auto
  have "int (nat_of_le bs) = uint x + 256 * uint y + 65536 * int (nat_of_le r)"
    by (simp add: bs)
  also have "65536 * int (nat_of_le r) = (\<Sum>i<n. (uint (bs ! (2 * Suc i)) + 256 * uint (bs ! (2 * Suc i + 1))) * 65536 ^ Suc i)"
    unfolding Suc.IH [OF r] sum_distrib_left by (intro sum.cong) (simp_all add: bs algebra_simps)
  finally show ?case unfolding sum.lessThan_Suc_shift by (simp add: bs)
qed simp

lemma unpack25519_value:
  assumes "length p = 32"
  shows "normal (unpack25519 p)" "gfval (unpack25519 p) = int (rfc_u p)"
proof -
  define l where "l = (\<lambda>i. uint (p ! (2 * i)) + 256 * uint (p ! (2 * i + 1)))"
  have u: "0 \<le> uint (p ! i) \<and> uint (p ! i) < 256" for i
    using unsigned_less [of "p ! i", where ?'a = int] by simp
  have l: "0 \<le> l i \<and> l i < 65536" for i using u [of "2 * i"] u [of "2 * i + 1"] by (simp add: l_def)
  have "i64 (uint (p ! (2 * i)) + i64 (push_bit 8 (uint (p ! (2 * i + 1))))) = l i" for i
  proof -
    have p8: "push_bit 8 (uint (p ! (2 * i + 1))) = 256 * uint (p ! (2 * i + 1))" by (simp add: push_bit_eq_mult)
    show ?thesis unfolding p8 l_def using u [of "2 * i"] u [of "2 * i + 1"]
      by (subst (2) i64_id, linarith, linarith, subst i64_id) linarith+
  qed
  then have up: "unpack25519 p = (map l [0..<16])[15 := l 15 AND 0x7fff]"
    by (simp add: unpack25519_def Let_def)
  have a: "l 15 AND 0x7fff = l 15 mod 32768"
    using take_bit_eq_mask [of 15 "l 15"] by (simp add: mask_eq_exp_minus_1 take_bit_eq_mod)
  have lu: "length (unpack25519 p) = 16" by (simp add: up)
  have n: "unpack25519 p ! i = (if i = 15 then l 15 mod 32768 else l i)" if "i < 16" for i
    using that by (simp add: up a nth_list_update)
  have m15: "0 \<le> l 15 mod 32768" "l 15 mod 32768 < 32768" by simp_all
  show "normal (unpack25519 p)" using lu n l m15 unfolding normal_def by fastforce
  define S where "S = (\<Sum>i<15. l i * 65536 ^ i)"
  have "gfval (unpack25519 p) = (\<Sum>i<Suc 15. (if i = 15 then l 15 mod 32768 else l i) * 65536 ^ i)"
    unfolding gfval_def lu by (intro sum.cong) (auto simp: n)
  also have "\<dots> = S + l 15 mod 32768 * 2 ^ 240"
    unfolding sum.lessThan_Suc S_def by (intro arg_cong2 [where f = "(+)"] sum.cong) auto
  finally have g: "gfval (unpack25519 p) = S + l 15 mod 32768 * 2 ^ 240" .
  have S: "0 \<le> S \<and> S < 2 ^ 240"
  proof -
    have "0 \<le> (\<Sum>i<n. l i * 65536 ^ i) \<and> (\<Sum>i<n. l i * 65536 ^ i) < 65536 ^ n" for n
    proof (induction n)
      case (Suc n)
      have "l n \<le> 65535" using l [of n] by simp
      then have "l n * 65536 ^ n \<le> 65535 * 65536 ^ n" by (intro mult_right_mono) auto
      moreover have "0 \<le> l n * 65536 ^ n" using l [of n] by simp
      ultimately show ?case using Suc unfolding sum.lessThan_Suc power_Suc by linarith
    qed simp
    from this [of 15] show ?thesis by (simp add: S_def)
  qed
  have "int (nat_of_le p) = (\<Sum>i<Suc 15. l i * 65536 ^ i)"
    using nat_of_le_pairs [of p 16] assms by (simp add: l_def del: sum.lessThan_Suc)
  then have v: "int (nat_of_le p) = S + 2 ^ 240 * l 15"
    unfolding sum.lessThan_Suc S_def by simp
  have e: "(2 :: int) ^ 255 = 2 ^ 240 * 32768" by simp
  have "int (rfc_u p) = (S + 2 ^ 240 * l 15) mod 2 ^ 255" unfolding rfc_u_def of_nat_mod v [symmetric] by simp
  also have "\<dots> = S + l 15 mod 32768 * 2 ^ 240"
  proof -
    have "(S + 2 ^ 240 * l 15) div 2 ^ 240 = l 15" "(S + 2 ^ 240 * l 15) mod 2 ^ 240 = S"
      using S by (simp_all add: div_pos_pos_trivial mod_pos_pos_trivial)
    then show ?thesis unfolding e by (subst zmod_zmult2_eq) simp_all
  qed
  finally show "gfval (unpack25519 p) = int (rfc_u p)" using g by simp
qed

section \<open>The function of RFC 7748\<close>

lemma length_x25519 [simp]: "length (pack25519 g) = 32"
  by (simp add: pack25519_def Let_def length_concat o_def sum_list_triv)

text \<open>
  C9: \<open>x25519\<close> is RFC 7748's function: for every 32-byte scalar and coordinate its result is the
  32-byte little-endian encoding of the reference ladder over integers modulo \<open>2 ^ 255 - 19\<close>, with
  no 64-bit limb operation wrapping around on the way.
\<close>

theorem x25519_rfc7748:
  assumes "length n = 32" "length p = 32"
  shows "length (x25519 n p) = 32 \<and>
    int (nat_of_le (x25519 n p)) = rfc7748 (rfc_scalar n) (rfc_u p)"
proof -
  define x where "x = unpack25519 p"
  note ux = unpack25519_value [OF assms(2), folded x_def]
  have x: "tight x" "cong25519 (gfval x) (int (rfc_u p))" using ux normal_tight by simp_all
  define o1 where "o1 = gf0[0 := 1]"
  have o: "tight gf0" "tight o1" "gfval gf0 = 0" "gfval o1 = 1"
    by (auto simp: tight_def gf0_def o1_def gfval_update nth_list_update) (simp_all add: gfval_def)
  have start: "ladder_rel (o1, x, gf0, o1) (1, 0, int (rfc_u p), 1, 0)"
    using x o by (simp add: ladder_rel_def cswap_def)
  note z = clamp_value [OF assms(1)]
  obtain a b c d where cs: "foldl (ladder_step (clamp n) x) (o1, x, gf0, o1) (rev [0..<255]) = (a, b, c, d)"
    by (metis prod_cases4)
  obtain x2 z2 x3 z3 s where rs:
    "foldl (rfc_step (rfc_scalar n) (int (rfc_u p))) (1, 0, int (rfc_u p), 1, 0) (rev [0..<255]) = (x2, z2, x3, z3, s)"
    by (metis prod_cases5)
  have "ladder_rel (a, b, c, d) (x2, z2, x3, z3, s)"
    using ladder_rel_run [OF x z(2) start, of "rev [0..<255]"] unfolding z(1) cs rs by simp
  then have t: "tight a" "tight c" "cong25519 (gfval a) (fst (cswap s x2 x3))" "cong25519 (gfval c) (fst (cswap s z2 z3))"
    by (simp_all add: ladder_rel_def)
  note i = inv25519_value [OF t(2)]
  have ip: "cong25519 (gfval (inv25519 c)) (fst (cswap s z2 z3) ^ (2 ^ 255 - 21))"
    using i(2) t(4) unfolding cong25519_def by (metis power_mod)
  note l = tight_loose [OF t(1)] tight_loose [OF i(1)]
  note m = mul_gf_tight [OF l] mul_gf_cong [OF l t(3) ip]
  have code: "x25519 n p = pack25519 (mul_gf a (inv25519 c))"
    unfolding x25519_def Let_def x_def [symmetric] o1_def [symmetric] cs by simp
  have "int (nat_of_le (x25519 n p)) = (fst (cswap s x2 x3) * fst (cswap s z2 z3) ^ (2 ^ 255 - 21)) mod p25519"
    unfolding code using pack25519_value(1) [OF m(1)] m(2) by (simp add: cong25519_def)
  then show ?thesis
    unfolding rfc7748_def Let_def rs by (simp add: code split: prod.split)
qed

lemma x25519_rfc7748_witness:
  "int (nat_of_le (x25519 (replicate 32 7) ((replicate 32 0)[0 := 9]))) =
     rfc7748 (rfc_scalar (replicate 32 7)) (rfc_u ((replicate 32 0)[0 := 9]))"
  using x25519_rfc7748 [of "replicate 32 7" "(replicate 32 0)[0 := 9]"] by simp

text \<open>
  Products stay inside their registers: on operands one addition away from a product (limbs up
  to \<open>2 ^ 18\<close>), every entry of the accumulator of \<open>mul_gf\<close> stays below \<open>2 ^ 44\<close>, the result is
  reduced again (limbs of 16 bits, the lowest off by at most 38), and its value is the product
  modulo \<open>2 ^ 255 - 19\<close>; packing such a result gives the canonical representative.
\<close>

theorem x25519_limbs_bounded:
  assumes "loose a" "loose b"
  shows "(\<forall>k<31. \<bar>foldl (mul_step a b) (replicate 31 0) (List.product [0..<16] [0..<16]) ! k\<bar> \<le> 2 ^ 44) \<and>
    tight (mul_gf a b) \<and> gfval (mul_gf a b) mod p25519 = gfval a * gfval b mod p25519 \<and>
    int (nat_of_le (pack25519 (mul_gf a b))) = gfval a * gfval b mod p25519"
  using product_limbs(2) [OF assms] mul_gf_tight [OF assms] mul_gf_value [OF assms]
    pack25519_value(1) [OF mul_gf_tight [OF assms]]
  by (simp add: cong25519_def)

lemma x25519_limbs_bounded_witness:
  "tight (mul_gf gf121665 gf121665) \<and> gfval (mul_gf gf121665 gf121665) mod p25519 = 14802372225"
proof -
  have "gfval gf121665 * gfval gf121665 mod p25519 = 14802372225"
    by (simp add: gf121665_facts p25519_def)
  then show ?thesis using x25519_limbs_bounded [OF gf121665_facts(1) gf121665_facts(1)] by simp
qed

end
