(* ===== verification/Pmm.thy ===== *)
theory Pmm
  imports Prelude
begin

text \<open>
  The physical frame allocator, kernel/src/pmm.rs: a bitmap of 4 KiB pages below 4 GiB (bit 1 is
  free), the counters, the reading of the boot loader's memory map, and allocation of one frame
  and of contiguous runs. The static arrays and atomics are the record \<open>pmm\<close>; \<open>usize\<close> counters
  are natural numbers with their wrap-around written out.
\<close>

unbundle bit_operations_syntax

definition PAGE_SIZE :: nat where "PAGE_SIZE = 4096"
definition MAX_PHYS :: nat where "MAX_PHYS = 4 * 1024 * 1024 * 1024"
definition MAX_PAGES :: nat where "MAX_PAGES = MAX_PHYS div PAGE_SIZE"
definition BITMAP_LEN :: nat where "BITMAP_LEN = MAX_PAGES div 64"

record pmm =
  frames :: "nat \<Rightarrow> u64"
  free_count :: nat
  total_count :: nat
  pmm_ready :: bool

definition pmm_start :: pmm where
  "pmm_start = \<lparr>frames = (\<lambda>_. 0), free_count = 0, total_count = 0, pmm_ready = False\<rparr>"

definition us_add :: "nat \<Rightarrow> nat \<Rightarrow> nat" where "us_add a b = (a + b) mod 2 ^ 64"
definition us_sub :: "nat \<Rightarrow> nat \<Rightarrow> nat" where "us_sub a b = (a + (2 ^ 64 - b mod 2 ^ 64)) mod 2 ^ 64"

section \<open>Bits\<close>

definition mark_free :: "nat \<Rightarrow> (nat \<Rightarrow> u64) \<Rightarrow> nat \<Rightarrow> u64" where
  "mark_free page b =
     (if page < MAX_PAGES then b(page div 64 := b (page div 64) OR push_bit (page mod 64) 1) else b)"

definition mark_used :: "nat \<Rightarrow> (nat \<Rightarrow> u64) \<Rightarrow> nat \<Rightarrow> u64" where
  "mark_used page b =
     (if page < MAX_PAGES then b(page div 64 := b (page div 64) AND NOT (push_bit (page mod 64) 1)) else b)"

definition is_free :: "nat \<Rightarrow> (nat \<Rightarrow> u64) \<Rightarrow> bool" where
  "is_free page b \<longleftrightarrow> page < MAX_PAGES \<and> b (page div 64) AND push_bit (page mod 64) 1 \<noteq> 0"

section \<open>Boot memory map\<close>

text \<open>\<open>*(a as *const u32)\<close> and \<open>*(a as *const u64)\<close> on the memory the boot loader left.\<close>

definition peek32 :: "(nat \<Rightarrow> byte) \<Rightarrow> nat \<Rightarrow> nat" where
  "peek32 m a = nat_of_le (map m [a..<a + 4])"

definition peek64 :: "(nat \<Rightarrow> byte) \<Rightarrow> nat \<Rightarrow> nat" where
  "peek64 m a = nat_of_le (map m [a..<a + 8])"

text \<open>One available region.\<close>

definition add_region :: "nat \<Rightarrow> nat \<Rightarrow> pmm \<Rightarrow> pmm" where
  "add_region rbase rlen p =
     (let pg_start = (rbase + PAGE_SIZE - 1) div PAGE_SIZE;
          pg_end = min (us_add rbase rlen) MAX_PHYS div PAGE_SIZE;
          count = pg_end - pg_start
      in p\<lparr>frames := fold mark_free [pg_start..<pg_end] (frames p),
           free_count := us_add (free_count p) count,
           total_count := us_add (total_count p) count\<rparr>)"

text \<open>The loop over the entries of the memory-map tag; the addresses are \<open>u32\<close>.\<close>

partial_function (option) region_loop ::
  "(nat \<Rightarrow> byte) \<Rightarrow> nat \<Rightarrow> nat \<Rightarrow> nat \<Rightarrow> pmm \<Rightarrow> pmm option" where
  "region_loop m entry_size eend eoff p =
     (if eoff < eend then
        let rbase = peek64 m eoff; rlen = peek64 m (u32_add eoff 8); etype = peek32 m (u32_add eoff 16);
            p = (if etype = 1 \<and> rbase < MAX_PHYS then add_region rbase rlen p else p)
        in region_loop m entry_size eend (u32_add eoff entry_size) p
      else Some p)"

text \<open>The loop over the tags of the boot information.\<close>

partial_function (option) tag_loop ::
  "(nat \<Rightarrow> byte) \<Rightarrow> nat \<Rightarrow> nat \<Rightarrow> nat \<Rightarrow> pmm \<Rightarrow> pmm option" where
  "tag_loop m mb2 total_size offset p =
     (if offset < total_size then
        let tag = u32_add mb2 offset; ttype = peek32 m tag; tsize = peek32 m (tag + 4)
        in if ttype = 0 then Some p
           else if ttype = 6 then
             region_loop m (peek32 m (u32_add tag 8)) (u32_add tag tsize) (u32_add tag 16) p
           else tag_loop m mb2 total_size (u32_add offset (unat ((of_nat (tsize + 7) :: u32) AND NOT 7))) p
      else Some p)"

text \<open>\<open>if is_free(pg) { mark_used(pg); FREE_FRAMES -= 1 }\<close>\<close>

definition reserve :: "nat \<Rightarrow> pmm \<Rightarrow> pmm" where
  "reserve pg p =
     (if is_free pg (frames p)
      then p\<lparr>frames := mark_used pg (frames p), free_count := us_sub (free_count p) 1\<rparr> else p)"

definition pmm_init :: "(nat \<Rightarrow> byte) \<Rightarrow> nat \<Rightarrow> nat \<Rightarrow> pmm \<Rightarrow> pmm option" where
  "pmm_init m mb2 kernel_end p =
     (if mb2 = 0 then Some p
      else (case tag_loop m mb2 (peek32 m mb2) 8 p of
              None \<Rightarrow> None
            | Some p \<Rightarrow>
                let low = 0x100000 div PAGE_SIZE;
                    p = fold reserve [0..<low] p;
                    kend = us_add kernel_end (PAGE_SIZE - 1) div PAGE_SIZE;
                    p = fold reserve [low..<kend] p
                in Some (p\<lparr>pmm_ready := True\<rparr>)))"

section \<open>Allocation\<close>

text \<open>\<open>u64::trailing_zeros\<close>\<close>

function ctz_from :: "u64 \<Rightarrow> nat \<Rightarrow> nat" where
  "ctz_from w i = (if 64 \<le> i then 64 else if bit w i then i else ctz_from w (i + 1))"
  by auto
termination by (relation "measure (\<lambda>(w, i). 64 - i)") auto

declare ctz_from.simps [simp del]

definition trailing_zeros :: "u64 \<Rightarrow> nat" where
  "trailing_zeros w = ctz_from w 0"

function frame_scan :: "(nat \<Rightarrow> u64) \<Rightarrow> nat \<Rightarrow> nat option" where
  "frame_scan b i =
     (if i < BITMAP_LEN then if b i \<noteq> 0 then Some (i * 64 + trailing_zeros (b i)) else frame_scan b (i + 1)
      else None)"
  by auto
termination by (relation "measure (\<lambda>(b, i). BITMAP_LEN - i)") auto

declare frame_scan.simps [simp del]

definition alloc_frame :: "pmm \<Rightarrow> nat option \<times> pmm" where
  "alloc_frame p =
     (if \<not> pmm_ready p then (None, p)
      else (case frame_scan (frames p) 0 of
              None \<Rightarrow> (None, p)
            | Some page \<Rightarrow>
                (Some (page * PAGE_SIZE),
                 p\<lparr>frames := mark_used page (frames p), free_count := us_sub (free_count p) 1\<rparr>)))"

text \<open>The first-fit scan for \<open>n\<close> free pages in a row: the first page of the run found.\<close>

function run_scan :: "(nat \<Rightarrow> u64) \<Rightarrow> nat \<Rightarrow> nat \<Rightarrow> nat \<Rightarrow> nat \<Rightarrow> nat \<Rightarrow> nat option" where
  "run_scan b n tot page start run =
     (if page < tot then
        if is_free page b then
          let start = (if run = 0 then page else start); run = run + 1
          in if run = n then Some start else run_scan b n tot (page + 1) start run
        else run_scan b n tot (page + 1) start 0
      else None)"
  by auto
termination by (relation "measure (\<lambda>(b, n, tot, page, start, run). tot - page)") auto

declare run_scan.simps [simp del]

definition alloc_frames :: "nat \<Rightarrow> pmm \<Rightarrow> nat option \<times> pmm" where
  "alloc_frames n p =
     (if n = 0 \<or> \<not> pmm_ready p then (None, p)
      else if n = 1 then alloc_frame p
      else (case run_scan (frames p) n (total_count p) 256 0 0 of
              None \<Rightarrow> (None, p)
            | Some start \<Rightarrow>
                (Some (start * PAGE_SIZE),
                 p\<lparr>frames := fold mark_used [start..<start + n] (frames p),
                   free_count := us_sub (free_count p) n\<rparr>)))"

definition free_frame :: "nat \<Rightarrow> pmm \<Rightarrow> pmm" where
  "free_frame addr p =
     (let page = addr div PAGE_SIZE
      in if \<not> is_free page (frames p)
         then p\<lparr>frames := mark_free page (frames p), free_count := us_add (free_count p) 1\<rparr> else p)"

definition stats :: "pmm \<Rightarrow> nat \<times> nat" where
  "stats p = (free_count p, total_count p)"

end
