(* ===== verification/Vmm.thy ===== *)
theory Vmm
  imports Pmm
begin

text \<open>
  Page tables, kernel/src/vmm.rs: the four-level tables in physical memory, written through the
  low identity map or the higher-half direct map, frames taken from \<open>Pmm\<close>. The machine state is the
  physical memory in 64-bit cells, the CR3 register and the statics of the file; the translation
  cache has no state of its own here, so that its flushes are no steps.
\<close>

unbundle bit_operations_syntax

record mmu =
  m_cells :: "u64 \<Rightarrow> u64"
  m_cr3 :: u64
  m_physmap :: bool
  m_boot_cr3 :: u64
  m_pmm :: pmm

definition PTE_PRESENT :: u64 where "PTE_PRESENT = push_bit 0 1"
definition PTE_WRITABLE :: u64 where "PTE_WRITABLE = push_bit 1 1"
definition PTE_USER :: u64 where "PTE_USER = push_bit 2 1"
definition PTE_HUGE :: u64 where "PTE_HUGE = push_bit 7 1"

definition PHYSMAP_BASE :: u64 where "PHYSMAP_BASE = 0xFFFF800000000000"

definition phys_to_virt :: "u64 \<Rightarrow> u64" where
  "phys_to_virt phys = PHYSMAP_BASE + phys"

definition frame_virt :: "mmu \<Rightarrow> u64 \<Rightarrow> u64" where
  "frame_virt st phys = (if m_physmap st then phys_to_virt phys else phys)"

text \<open>The cell a kernel access reaches: both windows onto physical memory are linear.\<close>

definition window :: "u64 \<Rightarrow> u64" where
  "window v = (if PHYSMAP_BASE \<le> v then v - PHYSMAP_BASE else v)"

definition read64 :: "mmu \<Rightarrow> u64 \<Rightarrow> nat \<Rightarrow> u64" where
  "read64 st phys idx = m_cells st (window (frame_virt st phys + of_nat idx * 8))"

definition write64 :: "u64 \<Rightarrow> nat \<Rightarrow> u64 \<Rightarrow> mmu \<Rightarrow> mmu" where
  "write64 phys idx val st = st\<lparr>m_cells := (m_cells st)(window (frame_virt st phys + of_nat idx * 8) := val)\<rparr>"

definition zero_frame :: "u64 \<Rightarrow> mmu \<Rightarrow> mmu" where
  "zero_frame phys st = st\<lparr>m_cells := (\<lambda>a. if a - window (frame_virt st phys) < 4096 then 0 else m_cells st a)\<rparr>"

definition cr3 :: "mmu \<Rightarrow> u64" where
  "cr3 st = m_cr3 st AND NOT 0xFFF"

definition save_kernel_cr3 :: "mmu \<Rightarrow> mmu" where
  "save_kernel_cr3 st = st\<lparr>m_boot_cr3 := cr3 st\<rparr>"

definition kernel_boot_cr3 :: "mmu \<Rightarrow> u64" where
  "kernel_boot_cr3 st = m_boot_cr3 st"

definition switch_address_space :: "u64 \<Rightarrow> mmu \<Rightarrow> mmu" where
  "switch_address_space pml4_phys st = st\<lparr>m_cr3 := pml4_phys AND NOT 0xFFF\<rparr>"

definition pml4_idx :: "u64 \<Rightarrow> nat" where "pml4_idx v = unat (drop_bit 39 v AND 0x1FF)"
definition pdpt_idx :: "u64 \<Rightarrow> nat" where "pdpt_idx v = unat (drop_bit 30 v AND 0x1FF)"
definition pd_idx :: "u64 \<Rightarrow> nat" where "pd_idx v = unat (drop_bit 21 v AND 0x1FF)"
definition pt_idx :: "u64 \<Rightarrow> nat" where "pt_idx v = unat (drop_bit 12 v AND 0x1FF)"

section \<open>Mapping\<close>

definition descend :: "u64 \<Rightarrow> nat \<Rightarrow> u64 \<Rightarrow> mmu \<Rightarrow> u64 option \<times> mmu" where
  "descend table idx flags st =
     (let entry = read64 st table idx
      in if entry AND PTE_PRESENT \<noteq> 0 then
           if entry AND PTE_HUGE \<noteq> 0 then (None, st) else (Some (entry AND NOT 0xFFF), st)
         else (case alloc_frame (m_pmm st) of
                 (None, p) \<Rightarrow> (None, st\<lparr>m_pmm := p\<rparr>)
               | (Some f, p) \<Rightarrow>
                   let frame = of_nat f;
                       st = zero_frame frame (st\<lparr>m_pmm := p\<rparr>)
                   in (Some frame, write64 table idx (frame OR flags) st)))"

definition map_page_in :: "u64 \<Rightarrow> u64 \<Rightarrow> u64 \<Rightarrow> u64 \<Rightarrow> mmu \<Rightarrow> bool \<times> mmu" where
  "map_page_in pml4_phys virt phys flags st =
     (let fi = PTE_PRESENT OR PTE_WRITABLE OR PTE_USER
      in case descend pml4_phys (pml4_idx virt) fi st of
           (None, st) \<Rightarrow> (False, st)
         | (Some pdpt, st) \<Rightarrow>
      (case descend pdpt (pdpt_idx virt) fi st of
           (None, st) \<Rightarrow> (False, st)
         | (Some pd, st) \<Rightarrow>
      (case descend pd (pd_idx virt) fi st of
           (None, st) \<Rightarrow> (False, st)
         | (Some pt, st) \<Rightarrow> (True, write64 pt (pt_idx virt) (phys OR flags OR PTE_PRESENT) st))))"

text \<open>The same walk from the active table, which the source repeats.\<close>

definition map_page :: "u64 \<Rightarrow> u64 \<Rightarrow> u64 \<Rightarrow> mmu \<Rightarrow> bool \<times> mmu" where
  "map_page virt phys flags st =
     (let flags_int = PTE_PRESENT OR PTE_WRITABLE OR PTE_USER; pml4 = cr3 st
      in case descend pml4 (pml4_idx virt) flags_int st of
           (None, st) \<Rightarrow> (False, st)
         | (Some pdpt, st) \<Rightarrow>
      (case descend pdpt (pdpt_idx virt) flags_int st of
           (None, st) \<Rightarrow> (False, st)
         | (Some pd, st) \<Rightarrow>
      (case descend pd (pd_idx virt) flags_int st of
           (None, st) \<Rightarrow> (False, st)
         | (Some pt, st) \<Rightarrow> (True, write64 pt (pt_idx virt) (phys OR flags OR PTE_PRESENT) st))))"

partial_function (option) mmio_loop :: "u64 \<Rightarrow> u64 \<Rightarrow> mmu \<Rightarrow> mmu option" where
  "mmio_loop end_addr addr st =
     (if addr < end_addr then
        mmio_loop end_addr (addr + 4096) (snd (map_page addr addr (PTE_PRESENT OR PTE_WRITABLE OR PTE_USER) st))
      else Some st)"

definition map_mmio_range :: "u64 \<Rightarrow> u64 \<Rightarrow> mmu \<Rightarrow> mmu option" where
  "map_mmio_range phys_start sz st =
     (let start = phys_start AND NOT (4096 - 1);
          end_addr = (phys_start + sz + 4096 - 1) AND NOT (4096 - 1)
      in mmio_loop end_addr start st)"

partial_function (option) mmio_high_loop :: "u64 \<Rightarrow> u64 \<Rightarrow> u64 \<Rightarrow> u64 \<Rightarrow> bool \<Rightarrow> mmu \<Rightarrow> mmu option" where
  "mmio_high_loop pml4 u end_addr p user st =
     (if p < end_addr then
        let v = phys_to_virt p
        in case descend pml4 (pml4_idx v) (PTE_PRESENT OR PTE_WRITABLE OR u) st of
             (None, st) \<Rightarrow> Some st
           | (Some pdpt, st) \<Rightarrow>
               let st = (if user then write64 pml4 (pml4_idx v) (read64 st pml4 (pml4_idx v) OR PTE_USER) st else st)
               in (case descend pdpt (pdpt_idx v) (PTE_PRESENT OR PTE_WRITABLE OR u) st of
                     (None, st) \<Rightarrow> Some st
                   | (Some pd, st) \<Rightarrow>
                       mmio_high_loop pml4 u end_addr (p + 0x200000) user
                         (write64 pd (pd_idx v) (p OR PTE_HUGE OR PTE_PRESENT OR PTE_WRITABLE OR u) st))
      else Some st)"

definition map_mmio_high :: "u64 \<Rightarrow> u64 \<Rightarrow> bool \<Rightarrow> mmu \<Rightarrow> (u64 \<times> mmu) option" where
  "map_mmio_high phys sz user st =
     (let u = (if user then PTE_USER else 0);
          start = phys AND NOT (0x200000 - 1);
          end_addr = (phys + sz + 0x200000 - 1) AND NOT (0x200000 - 1)
      in map_option (\<lambda>st. (phys_to_virt phys, st)) (mmio_high_loop (cr3 st) u end_addr start user st))"

section \<open>The direct map of physical memory\<close>

function physmap_pd :: "u64 \<Rightarrow> nat \<Rightarrow> nat \<Rightarrow> nat \<Rightarrow> mmu \<Rightarrow> nat \<times> mmu" where
  "physmap_pd pd pd_i mapped huge_total st =
     (if pd_i < 512 \<and> mapped < huge_total then
        let phys = of_nat mapped * 0x200000
        in physmap_pd pd (pd_i + 1) (mapped + 1) huge_total
             (write64 pd pd_i (phys OR PTE_HUGE OR PTE_PRESENT OR PTE_WRITABLE) st)
      else (mapped, st))"
  by auto
termination by (relation "measure (\<lambda>(pd, pd_i, mapped, huge_total, st). 512 - pd_i)") auto

declare physmap_pd.simps [simp del]

text \<open>The Boolean is False when a frame ran out, and the function returned early.\<close>

function physmap_loop :: "u64 \<Rightarrow> nat \<Rightarrow> nat \<Rightarrow> nat \<Rightarrow> mmu \<Rightarrow> bool \<times> mmu" where
  "physmap_loop pdpt pdpt_i mapped huge_total st =
     (if mapped < huge_total \<and> pdpt_i < 512 then
        (case alloc_frame (m_pmm st) of
           (None, p) \<Rightarrow> (False, st\<lparr>m_pmm := p\<rparr>)
         | (Some f, p) \<Rightarrow>
             let pd = of_nat f;
                 st = zero_frame pd (st\<lparr>m_pmm := p\<rparr>);
                 st = write64 pdpt pdpt_i (pd OR PTE_PRESENT OR PTE_WRITABLE) st;
                 (mapped, st) = physmap_pd pd 0 mapped huge_total st
             in physmap_loop pdpt (pdpt_i + 1) mapped huge_total st)
      else (True, st))"
  by auto
termination by (relation "measure (\<lambda>(pdpt, pdpt_i, mapped, huge_total, st). 512 - pdpt_i)") auto

declare physmap_loop.simps [simp del]

definition build_physmap :: "nat \<Rightarrow> mmu \<Rightarrow> mmu" where
  "build_physmap limit_mib st =
     (if m_physmap st then st
      else (case alloc_frame (m_pmm st) of
              (None, p) \<Rightarrow> st\<lparr>m_pmm := p\<rparr>
            | (Some f, p) \<Rightarrow>
                let pml4 = cr3 st;
                    pdpt = of_nat f;
                    st = zero_frame pdpt (st\<lparr>m_pmm := p\<rparr>);
                    st = write64 pml4 (pml4_idx PHYSMAP_BASE) (pdpt OR PTE_PRESENT OR PTE_WRITABLE) st;
                    (ok, st) = physmap_loop pdpt (pdpt_idx PHYSMAP_BASE) 0 (limit_mib div 2) st
                in if ok then st\<lparr>m_physmap := True\<rparr> else st))"

section \<open>Address spaces\<close>

definition new_address_space :: "mmu \<Rightarrow> u64 option \<times> mmu" where
  "new_address_space st =
     (case alloc_frame (m_pmm st) of
        (None, p) \<Rightarrow> (None, st\<lparr>m_pmm := p\<rparr>)
      | (Some f, p) \<Rightarrow>
          let pml4 = of_nat f;
              st = zero_frame pml4 (st\<lparr>m_pmm := p\<rparr>);
              kpml4 = cr3 st;
              st = write64 pml4 0 (read64 st kpml4 0) st;
              st = write64 pml4 256 (read64 st kpml4 256) st;
              st = write64 pml4 511 (read64 st kpml4 511) st
          in (Some pml4, st))"

definition new_address_space_private :: "mmu \<Rightarrow> u64 option \<times> mmu" where
  "new_address_space_private st =
     (case alloc_frame (m_pmm st) of
        (None, p) \<Rightarrow> (None, st\<lparr>m_pmm := p\<rparr>)
      | (Some f, p) \<Rightarrow>
          let pml4 = of_nat f;
              st = zero_frame pml4 (st\<lparr>m_pmm := p\<rparr>);
              kpml4 = cr3 st;
              st = write64 pml4 256 (read64 st kpml4 256) st;
              st = write64 pml4 511 (read64 st kpml4 511) st
          in (Some pml4, st))"

text \<open>One entry of the identity map: USER added, or a new 2 MiB page in a gap.\<close>

definition identity_entry :: "u64 \<Rightarrow> nat \<Rightarrow> mmu \<Rightarrow> mmu" where
  "identity_entry pd i st =
     (let entry = read64 st pd i
      in if entry AND PTE_PRESENT \<noteq> 0 then write64 pd i (entry OR PTE_USER) st
         else let phys = of_nat i * 2 * 1024 * 1024
              in write64 pd i (phys OR PTE_HUGE OR PTE_WRITABLE OR PTE_USER OR PTE_PRESENT) st)"

definition extend_identity_map :: "nat \<Rightarrow> mmu \<Rightarrow> mmu" where
  "extend_identity_map limit_mib st =
     (let pml4 = cr3 st;
          pml4_e = read64 st pml4 0;
          st = write64 pml4 0 (pml4_e OR PTE_USER) st;
          pdpt = pml4_e AND NOT 0xFFF;
          pdpt_e = read64 st pdpt 0;
          st = write64 pdpt 0 (pdpt_e OR PTE_USER) st;
          pd = pdpt_e AND NOT 0xFFF;
          entries = min (limit_mib div 2) 511
      in fold (identity_entry pd) [0..<entries + 1] st)"

end
