(* ===== verification/Pmm_Props.thy ===== *)
theory Pmm_Props
  imports Pmm
begin

text \<open>
  The frame allocator keeps a set of free pages: the bitmap is read as \<open>free_pages\<close>, the counter is
  its size, and every operation is an operation on that set. The boot memory map is read as a list
  of regions.
\<close>

section \<open>The bitmap as a set\<close>

definition free_pages :: "(nat \<Rightarrow> u64) \<Rightarrow> nat set" where
  "free_pages b = {q. is_free q b}"

definition pmm_ok :: "pmm \<Rightarrow> bool" where
  "pmm_ok p \<longleftrightarrow> free_count p = card (free_pages (frames p))"

lemma page_consts: "PAGE_SIZE = 4096" "MAX_PHYS = 4294967296" "MAX_PAGES = 1048576" "BITMAP_LEN = 16384"
  by (simp_all add: PAGE_SIZE_def MAX_PHYS_def MAX_PAGES_def BITMAP_LEN_def)

lemma is_free_bit: "is_free q b \<longleftrightarrow> q < MAX_PAGES \<and> bit (b (q div 64)) (q mod 64)"
  by (simp add: is_free_def push_bit_eq_mult and_exp_eq_0_iff_not_bit)

lemma page_index_eq: "q div 64 = p div 64 \<and> q mod 64 = p mod 64 \<longleftrightarrow> q = (p :: nat)"
  by (metis div_mult_mod_eq)

lemma is_free_mark_free: "is_free q (mark_free p b) \<longleftrightarrow> is_free q b \<or> (q = p \<and> p < MAX_PAGES)"
proof (cases "q div 64 = p div 64")
  case True
  then show ?thesis using page_index_eq [of q p]
    by (auto simp: is_free_bit mark_free_def bit_or_iff bit_exp_iff)
next
  case False
  then show ?thesis by (auto simp: is_free_bit mark_free_def)
qed

lemma is_free_mark_used: "is_free q (mark_used p b) \<longleftrightarrow> is_free q b \<and> q \<noteq> p"
proof (cases "q div 64 = p div 64")
  case True
  have "q mod 64 < 64" by simp
  then show ?thesis using page_index_eq [of q p] True
    by (auto simp: is_free_bit mark_used_def bit_and_iff bit_not_iff bit_exp_iff)
next
  case False
  then show ?thesis by (auto simp: is_free_bit mark_used_def)
qed

lemma free_pages_marked [simp]:
  "free_pages (mark_free p b) = free_pages b \<union> (if p < MAX_PAGES then {p} else {})"
  "free_pages (mark_used p b) = free_pages b - {p}"
  by (auto simp: free_pages_def is_free_mark_free is_free_mark_used)

lemma free_pages_fold_used: "free_pages (fold mark_used ps b) = free_pages b - set ps"
  by (induction ps arbitrary: b) auto

lemma free_pages_fold_free: "free_pages (fold mark_free ps b) = free_pages b \<union> {q \<in> set ps. q < MAX_PAGES}"
  by (induction ps arbitrary: b) auto

lemma free_pages_le: "free_pages b \<subseteq> {..<MAX_PAGES}"
  by (auto simp: free_pages_def is_free_def)

lemma finite_free_pages [simp, intro]: "finite (free_pages b)"
  using free_pages_le finite_subset by blast

lemma card_free_pages: "card (free_pages b) \<le> 1048576"
  using card_mono [OF _ free_pages_le] by (simp add: page_consts)

lemma is_free_mem: "is_free q b \<longleftrightarrow> q \<in> free_pages b"
  by (simp add: free_pages_def)

lemma us_sub_exact: "b \<le> a \<Longrightarrow> a < 2 ^ 64 \<Longrightarrow> us_sub a b = a - b"
proof -
  assume a: "b \<le> a" "a < 2 ^ 64"
  then have b: "b mod 2 ^ 64 = b" by simp
  have "a + (2 ^ 64 - b) = (a - b) + 2 ^ 64" using a by simp
  then have "(a + (2 ^ 64 - b)) mod 2 ^ 64 = (a - b) mod 2 ^ 64" by (simp only: mod_add_self2)
  then show ?thesis unfolding us_sub_def b using a by simp
qed

section \<open>Single frames\<close>

lemma ctz_from_spec:
  "\<exists>j\<ge>i. j < 64 \<and> bit w j \<Longrightarrow>
   bit w (ctz_from w i) \<and> ctz_from w i < 64 \<and> i \<le> ctz_from w i \<and> (\<forall>j. i \<le> j \<and> j < ctz_from w i \<longrightarrow> \<not> bit w j)"
proof (induction w i rule: ctz_from.induct)
  case (1 w i)
  show ?case
  proof (cases "bit w i")
    case True
    then show ?thesis using 1(2) by (subst (1 2 3 4) ctz_from.simps) auto
  next
    case False
    have i: "\<not> 64 \<le> i" using 1(2) by auto
    have "\<exists>j\<ge>i + 1. j < 64 \<and> bit w j" using 1(2) False by (metis Suc_eq_plus1 Suc_leI le_neq_implies_less)
    note ih = 1(1) [OF i False this]
    have "ctz_from w i = ctz_from w (i + 1)" using i False by (subst ctz_from.simps) simp
    then show ?thesis using ih False by (metis Suc_eq_plus1 Suc_leI le_neq_implies_less le_trans lessI less_imp_le)
  qed
qed

lemma trailing_zeros_spec:
  assumes "w \<noteq> 0"
  shows "bit w (trailing_zeros w)" "trailing_zeros w < 64" "j < trailing_zeros w \<Longrightarrow> \<not> bit w j"
proof -
  have "\<exists>j. j < 64 \<and> bit w j"
  proof (rule ccontr)
    assume "\<not> (\<exists>j. j < 64 \<and> bit w j)"
    then have "w = 0" by (intro bit_word_eqI) auto
    then show False using assms by simp
  qed
  then have "\<exists>j\<ge>0. j < 64 \<and> bit w j" by simp
  note s = ctz_from_spec [OF this, folded trailing_zeros_def]
  show "bit w (trailing_zeros w)" "trailing_zeros w < 64" "j < trailing_zeros w \<Longrightarrow> \<not> bit w j" using s by auto
qed

lemma word_index_bound: "q < MAX_PAGES \<Longrightarrow> q div 64 < BITMAP_LEN"
  by (simp add: page_consts)

lemma frame_scan_spec:
  "(frame_scan b i = None \<longrightarrow> (\<forall>q. is_free q b \<longrightarrow> q < 64 * i)) \<and>
   (\<forall>p. frame_scan b i = Some p \<longrightarrow> is_free p b \<and> 64 * i \<le> p \<and> (\<forall>q. is_free q b \<and> 64 * i \<le> q \<longrightarrow> p \<le> q))"
proof (induction b i rule: frame_scan.induct)
  case (1 b i)
  show ?case
  proof (cases "i < BITMAP_LEN")
    case False
    then have "\<forall>q. is_free q b \<longrightarrow> q < 64 * i" by (auto simp: is_free_bit page_consts)
    then show ?thesis using False by (subst (1 2) frame_scan.simps) simp
  next
    case i: True
    show ?thesis
    proof (cases "b i = 0")
      case True
      have e: "frame_scan b i = frame_scan b (i + 1)" using i True by (subst frame_scan.simps) simp
      have "q < 64 * i \<or> 64 * (i + 1) \<le> q" if "is_free q b" for q
      proof (rule ccontr)
        assume "\<not> (q < 64 * i \<or> 64 * (i + 1) \<le> q)"
        then have "q div 64 = i" by (intro div_nat_eqI) auto
        then show False using that True by (simp add: is_free_bit)
      qed
      then show ?thesis unfolding e using 1 [OF i] True by fastforce
    next
      case False
      note t = trailing_zeros_spec [OF False]
      define p where "p = i * 64 + trailing_zeros (b i)"
      have e: "frame_scan b i = Some p" using i False by (subst frame_scan.simps) (simp add: p_def)
      have d: "p div 64 = i" "p mod 64 = trailing_zeros (b i)" using t(2) by (simp_all add: p_def)
      have f: "is_free p b" using t(1,2) i unfolding is_free_bit d by (simp add: page_consts p_def)
      have "p \<le> q" if q: "is_free q b" "64 * i \<le> q" for q
      proof (rule ccontr)
        assume "\<not> p \<le> q"
        then have "q < p" by simp
        then have "q div 64 = i" using q(2) t(2) unfolding p_def by (intro div_nat_eqI) auto
        moreover from this have "q mod 64 < trailing_zeros (b i)" using \<open>q < p\<close> unfolding p_def
          by (metis add_less_cancel_left div_mult_mod_eq)
        ultimately show False using q(1) t(3) by (simp add: is_free_bit)
      qed
      then show ?thesis using e f by (auto simp: p_def)
    qed
  qed
qed

lemma frame_scan_Min:
  "frame_scan b 0 = (if free_pages b = {} then None else Some (Min (free_pages b)))"
proof (cases "frame_scan b 0")
  case None
  then show ?thesis using frame_scan_spec [of b 0] by (auto simp: free_pages_def)
next
  case (Some p)
  then have "p \<in> free_pages b" "\<forall>q \<in> free_pages b. p \<le> q" using frame_scan_spec [of b 0] by (auto simp: free_pages_def)
  then have "Min (free_pages b) = p" "free_pages b \<noteq> {}" by (auto intro: Min_eqI)
  then show ?thesis using Some by simp
qed

lemma pmm_ok_take:
  assumes "pmm_ok p" "S \<subseteq> free_pages (frames p)" "free_pages b = free_pages (frames p) - S" "n = card S"
  shows "pmm_ok (p\<lparr>frames := b, free_count := us_sub (free_count p) n\<rparr>)"
proof -
  have "card (free_pages b) = free_count p - n" using assms by (simp add: card_Diff_subset finite_subset pmm_ok_def)
  moreover have "n \<le> free_count p" using assms by (simp add: pmm_ok_def card_mono)
  moreover have "free_count p < 2 ^ 64" using assms(1) card_free_pages [of "frames p"] by (simp add: pmm_ok_def)
  ultimately show ?thesis by (simp add: pmm_ok_def us_sub_exact)
qed

lemma alloc_frame_empty: "pmm_ready p \<Longrightarrow> free_pages (frames p) = {} \<Longrightarrow> alloc_frame p = (None, p)"
  by (simp add: alloc_frame_def frame_scan_Min)

lemma alloc_frame_some:
  assumes "pmm_ready p" "pmm_ok p" "free_pages (frames p) \<noteq> {}"
  shows "\<exists>p'. alloc_frame p = (Some (Min (free_pages (frames p)) * 4096), p') \<and>
    free_pages (frames p') = free_pages (frames p) - {Min (free_pages (frames p))} \<and>
    pmm_ok p' \<and> pmm_ready p' \<and> total_count p' = total_count p"
proof -
  have "Min (free_pages (frames p)) \<in> free_pages (frames p)" using assms(3) by simp
  then show ?thesis using assms pmm_ok_take [OF assms(2), of "{Min (free_pages (frames p))}"]
    by (simp add: alloc_frame_def frame_scan_Min page_consts)
qed

section \<open>Runs of frames\<close>

definition run_free :: "(nat \<Rightarrow> u64) \<Rightarrow> nat \<Rightarrow> nat \<Rightarrow> bool" where
  "run_free b s n \<longleftrightarrow> {s..<s + n} \<subseteq> free_pages b"

lemma run_scan_spec:
  assumes "run < n" "run \<le> page" "run = 0 \<or> start = page - run" "run_free b (page - run) run"
  shows "(case run_scan b n tot page start run of
      None \<Rightarrow> (\<forall>s \<ge> page - run. s + n \<le> tot \<longrightarrow> \<not> run_free b s n)
    | Some s \<Rightarrow> page - run \<le> s \<and> s + n \<le> max tot page \<and> run_free b s n \<and>
        (\<forall>s' \<ge> page - run. s' < s \<longrightarrow> \<not> run_free b s' n))"
  using assms
proof (induction b n tot page start run rule: run_scan.induct)
  case (1 b n tot page start run)
  show ?case
  proof (cases "page < tot")
    case False
    then have "run_scan b n tot page start run = None" by (subst run_scan.simps) simp
    then show ?thesis using False 1(3,4) by auto
  next
    case tot: True
    show ?thesis
    proof (cases "is_free page b")
      case free: True
      define start' where "start' = (if run = 0 then page else start)"
      have st: "start' = page - run" using 1(5) by (auto simp: start'_def)
      have "{page - run..<page - run + (run + 1)} = insert page {page - run..<page - run + run}"
        using 1(4) by auto
      then have rf: "run_free b (page - run) (run + 1)" using 1(6) free by (simp add: run_free_def is_free_mem)
      show ?thesis
      proof (cases "run + 1 = n")
        case True
        then have "run_scan b n tot page start run = Some (page - run)"
          using tot free st by (subst run_scan.simps) (simp add: start'_def Let_def)
        then show ?thesis using rf True tot 1(4) by auto
      next
        case False
        have e: "run_scan b n tot page start run = run_scan b n tot (page + 1) start' (run + 1)"
          using tot free False by (subst run_scan.simps) (simp add: start'_def Let_def)
        have pr: "page + 1 - (run + 1) = page - run" by simp
        show ?thesis unfolding e
          using 1(1) [OF tot free start'_def refl False] False 1(3,4) st rf tot unfolding pr
          by (simp split: option.splits)
      qed
    next
      case False
      have e: "run_scan b n tot page start run = run_scan b n tot (page + 1) start 0"
        using tot False by (subst run_scan.simps) simp
      have np: "\<not> run_free b s n" if "page - run \<le> s" "s < page + 1" for s
      proof -
        have "page \<in> {s..<s + n}" using that 1(3) by auto
        then show ?thesis using False by (auto simp: run_free_def is_free_mem)
      qed
      have ih: "(case run_scan b n tot (page + 1) start 0 of
            None \<Rightarrow> (\<forall>s \<ge> page + 1. s + n \<le> tot \<longrightarrow> \<not> run_free b s n)
          | Some s \<Rightarrow> page + 1 \<le> s \<and> s + n \<le> max tot (page + 1) \<and> run_free b s n \<and>
              (\<forall>s' \<ge> page + 1. s' < s \<longrightarrow> \<not> run_free b s' n))"
        using 1(2) [OF tot False, unfolded diff_zero] 1(3) by (simp add: run_free_def)
      show ?thesis unfolding e using ih np tot
        by (auto split: option.splits) (metis not_less)+
    qed
  qed
qed

section \<open>The boot memory map\<close>

text \<open>A region is (base, length, type); its pages are those that lie wholly inside it.\<close>

type_synonym mem_region = "nat \<times> nat \<times> nat"

fun region_pages :: "mem_region \<Rightarrow> nat set" where
  "region_pages (rbase, rlen, ty) =
     (if ty = 1 then {q. q < MAX_PAGES \<and> rbase \<le> q * 4096 \<and> (q + 1) * 4096 \<le> rbase + rlen} else {})"

fun entries_at :: "(nat \<Rightarrow> byte) \<Rightarrow> nat \<Rightarrow> nat \<Rightarrow> mem_region list \<Rightarrow> bool" where
  "entries_at m a esz [] \<longleftrightarrow> True"
| "entries_at m a esz ((rbase, rlen, ty) # rs) \<longleftrightarrow>
     peek64 m a = rbase \<and> peek64 m (a + 8) = rlen \<and> peek32 m (a + 16) = ty \<and> entries_at m (a + esz) esz rs"

fun regions_ok :: "mem_region list \<Rightarrow> bool" where
  "regions_ok [] \<longleftrightarrow> True"
| "regions_ok (r # rs) \<longleftrightarrow>
     fst r + fst (snd r) < 2 ^ 64 \<and> region_pages r \<inter> \<Union> (region_pages ` set rs) = {} \<and> regions_ok rs"

lemma region_pages_range:
  assumes "rbase < MAX_PHYS" "rbase + rlen < 2 ^ 64"
  shows "{(rbase + PAGE_SIZE - 1) div PAGE_SIZE..<min (us_add rbase rlen) MAX_PHYS div PAGE_SIZE} = region_pages (rbase, rlen, 1)"
    "{(rbase + PAGE_SIZE - 1) div PAGE_SIZE..<min (us_add rbase rlen) MAX_PHYS div PAGE_SIZE} \<subseteq> {..<MAX_PAGES}"
proof -
  have u: "us_add rbase rlen = rbase + rlen" using assms(2) by (simp add: us_add_def)
  have "(rbase + 4096 - 1) div 4096 \<le> q \<longleftrightarrow> rbase \<le> q * 4096" for q by linarith
  moreover have "q < min (rbase + rlen) 4294967296 div 4096 \<longleftrightarrow> q < 1048576 \<and> (q + 1) * 4096 \<le> rbase + rlen" for q
    by (auto simp: min_def)
  ultimately show e: "{(rbase + PAGE_SIZE - 1) div PAGE_SIZE..<min (us_add rbase rlen) MAX_PHYS div PAGE_SIZE} = region_pages (rbase, rlen, 1)"
    unfolding u page_consts by (auto simp: page_consts)
  show "{(rbase + PAGE_SIZE - 1) div PAGE_SIZE..<min (us_add rbase rlen) MAX_PHYS div PAGE_SIZE} \<subseteq> {..<MAX_PAGES}"
    unfolding e by auto
qed

lemma region_pages_high: "MAX_PHYS \<le> rbase \<Longrightarrow> region_pages (rbase, rlen, ty) = {}"
  by (auto simp: page_consts)

lemma finite_region_pages [simp]: "finite (region_pages r)"
  by (cases r) (auto intro: finite_subset [of _ "{..<MAX_PAGES}"])

lemma add_region_pages:
  assumes "rbase < MAX_PHYS" "rbase + rlen < 2 ^ 64" "pmm_ok p" "region_pages (rbase, rlen, 1) \<inter> free_pages (frames p) = {}"
  shows "free_pages (frames (add_region rbase rlen p)) = free_pages (frames p) \<union> region_pages (rbase, rlen, 1)"
    "pmm_ok (add_region rbase rlen p)"
proof -
  note r = region_pages_range [OF assms(1,2)]
  define lo hi where "lo = (rbase + PAGE_SIZE - 1) div PAGE_SIZE" and "hi = min (us_add rbase rlen) MAX_PHYS div PAGE_SIZE"
  have p: "{lo..<hi} = region_pages (rbase, rlen, 1)" "{lo..<hi} \<subseteq> {..<MAX_PAGES}" using r by (simp_all add: lo_def hi_def)
  have f: "frames (add_region rbase rlen p) = fold mark_free [lo..<hi] (frames p)"
    "free_count (add_region rbase rlen p) = us_add (free_count p) (hi - lo)"
    by (simp_all add: add_region_def Let_def lo_def hi_def)
  show u: "free_pages (frames (add_region rbase rlen p)) = free_pages (frames p) \<union> region_pages (rbase, rlen, 1)"
    unfolding f free_pages_fold_free p(1) [symmetric] using p(2) by auto
  have "card (free_pages (frames p) \<union> {lo..<hi}) = free_count p + (hi - lo)"
  proof -
    have "free_pages (frames p) \<inter> {lo..<hi} = {}" unfolding p(1) using assms(4) by blast
    then show ?thesis using assms(3) by (simp add: card_Un_disjoint pmm_ok_def)
  qed
  moreover have "card (free_pages (frames p) \<union> {lo..<hi}) \<le> 1048576"
    using card_free_pages [of "frames (add_region rbase rlen p)"] u p(1) by simp
  ultimately show "pmm_ok (add_region rbase rlen p)"
    unfolding pmm_ok_def u f(2) p(1) [symmetric] by (simp add: us_add_def)
qed

lemma region_loop_run:
  assumes "0 < esz"
  shows "entries_at m eoff esz rs \<Longrightarrow> regions_ok rs \<Longrightarrow> eend = eoff + esz * length rs \<Longrightarrow> eend + 16 < 2 ^ 32 \<Longrightarrow>
    pmm_ok p \<Longrightarrow> free_pages (frames p) \<inter> \<Union> (region_pages ` set rs) = {} \<Longrightarrow>
    \<exists>p'. region_loop m esz eend eoff p = Some p' \<and> pmm_ok p' \<and>
      free_pages (frames p') = free_pages (frames p) \<union> \<Union> (region_pages ` set rs)"
proof (induction rs arbitrary: eoff p)
  case Nil
  then show ?case by (subst region_loop.simps) simp
next
  case (Cons r rs)
  obtain rbase rlen ty where r: "r = (rbase, rlen, ty)" by (metis prod_cases3)
  have bound: "eoff + esz \<le> eend" using Cons.prems(3) by simp
  have addr: "u32_add eoff 8 = eoff + 8" "u32_add eoff 16 = eoff + 16" "u32_add eoff esz = eoff + esz"
    using Cons.prems(4) bound assms by (simp_all add: u32_add_def)
  have vals: "peek64 m eoff = rbase" "peek64 m (eoff + 8) = rlen" "peek32 m (eoff + 16) = ty"
    using Cons.prems(1) r by simp_all
  define p1 where "p1 = (if ty = 1 \<and> rbase < MAX_PHYS then add_region rbase rlen p else p)"
  have p1: "pmm_ok p1 \<and> free_pages (frames p1) = free_pages (frames p) \<union> region_pages r"
  proof (cases "ty = 1 \<and> rbase < MAX_PHYS")
    case True
    have "region_pages (rbase, rlen, 1) \<inter> free_pages (frames p) = {}" using Cons.prems(6) r True by auto
    moreover have "rbase + rlen < 2 ^ 64" using Cons.prems(2) r by simp
    ultimately show ?thesis using add_region_pages [of rbase rlen p] Cons.prems(5) True r by (simp add: p1_def)
  next
    case False
    then have "region_pages r = {}"
      unfolding r using region_pages_high [of rbase rlen ty] by (cases "rbase < MAX_PHYS") auto
    moreover have "p1 = p" unfolding p1_def by (rule if_not_P [OF False])
    ultimately show ?thesis using Cons.prems(5) by simp
  qed
  have step: "region_loop m esz eend eoff p = region_loop m esz eend (eoff + esz) p1"
    using bound assms by (subst region_loop.simps) (simp add: Let_def addr vals p1_def)
  have "\<exists>p'. region_loop m esz eend (eoff + esz) p1 = Some p' \<and> pmm_ok p' \<and>
      free_pages (frames p') = free_pages (frames p1) \<union> \<Union> (region_pages ` set rs)"
    using Cons.prems p1 r by (intro Cons.IH) (auto simp: algebra_simps)
  then show ?case unfolding step using p1 by auto
qed

text \<open>Tags before the memory map are given by their types and sizes.\<close>

fun tags_at :: "(nat \<Rightarrow> byte) \<Rightarrow> nat \<Rightarrow> (nat \<times> nat) list \<Rightarrow> nat \<Rightarrow> bool" where
  "tags_at m a [] e \<longleftrightarrow> e = a"
| "tags_at m a ((ty, sz) # ts) e \<longleftrightarrow>
     peek32 m a = ty \<and> peek32 m (a + 4) = sz \<and> ty \<noteq> 0 \<and> ty \<noteq> 6 \<and> 0 < sz \<and> tags_at m (a + (sz + 7) div 8 * 8) ts e"

lemma tags_at_le: "tags_at m a ts e \<Longrightarrow> a \<le> e"
  by (induction m a ts e rule: tags_at.induct) auto

lemma round8: "x + 7 < 2 ^ 32 \<Longrightarrow> unat ((of_nat (x + 7) :: u32) AND NOT 7) = (x + 7) div 8 * 8"
proof -
  assume x: "x + 7 < 2 ^ 32"
  define w :: u32 where "w = of_nat (x + 7)"
  have w: "unat w = x + 7" using x by (simp add: w_def unat_of_nat del: of_nat_add)
  have m: "(7 :: u32) = mask 3" by (simp add: mask_eq_exp_minus_1)
  show ?thesis unfolding w_def [symmetric] m unat_and_not_mask w by simp
qed

lemma tag_loop_skip:
  "tags_at m (mb2 + off) ts (mb2 + e) \<Longrightarrow> e < tot \<Longrightarrow> mb2 + e + 32 < 2 ^ 32 \<Longrightarrow>
   tag_loop m mb2 tot off p = tag_loop m mb2 tot e p"
proof (induction ts arbitrary: off)
  case Nil
  then show ?case by simp
next
  case (Cons t ts)
  obtain ty sz where t: "t = (ty, sz)" by force
  define r where "r = (sz + 7) div 8 * 8"
  have next_tags: "tags_at m (mb2 + (off + r)) ts (mb2 + e)" using Cons.prems(1) t by (simp add: r_def add.assoc)
  then have le: "off + r \<le> e" using tags_at_le by fastforce
  have sz: "sz \<le> r" "0 < sz" using Cons.prems(1) t by (auto simp: r_def)
  have a: "u32_add mb2 off = mb2 + off" "u32_add off r = off + r"
    using le Cons.prems(3) by (simp_all add: u32_add_def)
  have rd: "unat ((of_nat (sz + 7) :: u32) AND NOT 7) = r"
    unfolding r_def using le sz Cons.prems(3) by (intro round8) simp
  then have rd: "unat ((of_nat (sz + 7) :: u32) AND - 8) = r" by (simp del: of_nat_add)
  have "tag_loop m mb2 tot off p = tag_loop m mb2 tot (off + r) p"
    using Cons.prems(1,2) t le sz by (subst tag_loop.simps) (simp add: a rd Let_def del: of_nat_add)
  also have "\<dots> = tag_loop m mb2 tot e p" by (rule Cons.IH [OF next_tags Cons.prems(2,3)])
  finally show ?case .
qed

lemma fold_reserve:
  "pmm_ok p \<Longrightarrow> free_pages (frames (fold reserve ps p)) = free_pages (frames p) - set ps \<and> pmm_ok (fold reserve ps p)"
proof (induction ps arbitrary: p)
  case (Cons q ps)
  have "free_pages (frames (reserve q p)) = free_pages (frames p) - {q} \<and> pmm_ok (reserve q p)"
    using pmm_ok_take [OF Cons.prems, of "{q}" "mark_used q (frames p)" 1] Cons.prems
    by (auto simp: reserve_def is_free_mem)
  then show ?case using Cons.IH by auto
qed simp

text \<open>The boot loader's information at \<open>mb2\<close>: other tags, then a memory map with the given regions.\<close>

definition boot_info :: "(nat \<Rightarrow> byte) \<Rightarrow> nat \<Rightarrow> (nat \<times> nat) list \<Rightarrow> nat \<Rightarrow> nat \<Rightarrow> mem_region list \<Rightarrow> bool" where
  "boot_info m mb2 ts e esz rs \<longleftrightarrow>
     mb2 \<noteq> 0 \<and> e < peek32 m mb2 \<and> tags_at m (mb2 + 8) ts (mb2 + e) \<and>
     peek32 m (mb2 + e) = 6 \<and> peek32 m (mb2 + e + 4) = 16 + esz * length rs \<and> peek32 m (mb2 + e + 8) = esz \<and>
     0 < esz \<and> entries_at m (mb2 + e + 16) esz rs \<and> mb2 + e + 16 + esz * length rs + 16 < 2 ^ 32"

text \<open>
  C13: After booting, the free frames are exactly the whole pages of the memory the boot loader
  reports as available, below 4 GiB, that lie above the first megabyte and above the kernel image,
  and the counter is their number: for every memory map whose regions do not overlap, the two
  loops over the boot information end and compute that set.
\<close>

theorem pmm_boot_free_set:
  assumes "boot_info m mb2 ts e esz rs" "regions_ok rs" "kernel_end < 2 ^ 63"
  shows "\<exists>p. pmm_init m mb2 kernel_end pmm_start = Some p \<and> pmm_ready p \<and> pmm_ok p \<and>
    free_pages (frames p) = {q \<in> \<Union> (region_pages ` set rs). 0x100000 \<le> q * 4096 \<and> kernel_end \<le> q * 4096}"
proof -
  note b = assms(1) [unfolded boot_info_def]
  have z: "free_pages (frames pmm_start) = {}" "pmm_ok pmm_start"
    by (simp_all add: pmm_start_def free_pages_def is_free_def pmm_ok_def)
  have addr: "u32_add mb2 e = mb2 + e" "u32_add (mb2 + e) 8 = mb2 + e + 8" "u32_add (mb2 + e) 16 = mb2 + e + 16"
    "u32_add (mb2 + e) (16 + esz * length rs) = mb2 + e + 16 + esz * length rs"
    using b by (simp_all add: u32_add_def)
  have "tag_loop m mb2 (peek32 m mb2) 8 pmm_start = tag_loop m mb2 (peek32 m mb2) e pmm_start"
    using b by (intro tag_loop_skip) auto
  also have "\<dots> = region_loop m esz (mb2 + e + 16 + esz * length rs) (mb2 + e + 16) pmm_start"
    using b by (subst tag_loop.simps) (simp add: addr Let_def)
  finally have tl: "tag_loop m mb2 (peek32 m mb2) 8 pmm_start =
      region_loop m esz (mb2 + e + 16 + esz * length rs) (mb2 + e + 16) pmm_start" .
  obtain p1 where p1: "tag_loop m mb2 (peek32 m mb2) 8 pmm_start = Some p1" "pmm_ok p1"
    "free_pages (frames p1) = \<Union> (region_pages ` set rs)"
    unfolding tl using region_loop_run [of esz m "mb2 + e + 16" rs "mb2 + e + 16 + esz * length rs" pmm_start] b assms(2) z
    by auto
  define kend where "kend = us_add kernel_end 4095 div 4096"
  have low: "(0x100000 :: nat) div PAGE_SIZE = 256" by (simp add: page_consts)
  define p2 where "p2 = fold reserve [256..<kend] (fold reserve [0..<256] p1)"
  note f1 = fold_reserve [OF p1(2), of "[0..<256]"]
  note f2 = fold_reserve [OF f1 [THEN conjunct2], of "[256..<kend]"]
  have i: "pmm_init m mb2 kernel_end pmm_start = Some (p2\<lparr>pmm_ready := True\<rparr>)"
    using b p1(1) low by (simp add: pmm_init_def p2_def Let_def kend_def page_consts)
  have k: "kend \<le> q \<longleftrightarrow> kernel_end \<le> q * 4096" for q
  proof -
    have "us_add kernel_end 4095 = kernel_end + 4095" using assms(3) by (simp add: us_add_def)
    then show ?thesis unfolding kend_def by (simp only:) linarith
  qed
  have "free_pages (frames p2) = {q \<in> \<Union> (region_pages ` set rs). 256 \<le> q \<and> kend \<le> q}"
    unfolding p2_def using f2 f1 p1(3) by auto
  then have "free_pages (frames p2) = {q \<in> \<Union> (region_pages ` set rs). 0x100000 \<le> q * 4096 \<and> kernel_end \<le> q * 4096}"
    unfolding k by auto
  then show ?thesis using i f2 by (simp add: p2_def pmm_ok_def)
qed

definition sample_boot :: "nat \<Rightarrow> byte" where
  "sample_boot a =
     (if 4096 \<le> a \<and> a < 4160 then
        [64, 0, 0, 0, 0, 0, 0, 0, 1, 0, 0, 0, 8, 0, 0, 0,
         6, 0, 0, 0, 40, 0, 0, 0, 24, 0, 0, 0, 0, 0, 0, 0,
         0xc0, 0xfd, 0x0f, 0, 0, 0, 0, 0, 0, 64, 0, 0, 0, 0, 0, 0,
         1, 0, 0, 0, 0, 0, 0, 0, 0, 0, 0, 0, 0, 0, 0, 0] ! (a - 4096) else 0)"

lemma upt_bytes:
  "[a..<a + 4] = [a, a + 1, a + 2, a + 3]"
  "[a..<a + 8] = [a, a + 1, a + 2, a + 3, a + 4, a + 5, a + 6, a + 7]"
  by (simp_all add: upt_rec numeral_eq_Suc)

lemma sample_words:
  "peek32 sample_boot 4096 = 64" "peek32 sample_boot 4104 = 1" "peek32 sample_boot 4108 = 8"
  "peek32 sample_boot 4112 = 6" "peek32 sample_boot 4116 = 40" "peek32 sample_boot 4120 = 24"
  "peek64 sample_boot 4128 = 1048000" "peek64 sample_boot 4136 = 16384" "peek32 sample_boot 4144 = 1"
  by (simp_all add: peek32_def peek64_def upt_bytes sample_boot_def)

lemma sample_boot_info: "boot_info sample_boot 4096 [(1, 8)] 16 24 [(1048000, 16384, 1)]"
  by (simp add: boot_info_def sample_words)

lemma pmm_boot_free_set_witness:
  "\<exists>p. pmm_init sample_boot 4096 1050000 pmm_start = Some p \<and> pmm_ok p \<and> free_pages (frames p) = {257, 258}"
proof -
  note b = sample_boot_info
  have r: "regions_ok [(1048000, 16384, 1)]" by simp
  have q: "1048000 \<le> q * 4096 \<longleftrightarrow> 256 \<le> q" "1048576 \<le> q * 4096 \<longleftrightarrow> 256 \<le> q"
    "1050000 \<le> q * 4096 \<longleftrightarrow> 257 \<le> q" "(q + 1) * 4096 \<le> 1048000 + 16384 \<longleftrightarrow> q \<le> 258" for q :: nat
  proof -
    show "1048000 \<le> q * 4096 \<longleftrightarrow> 256 \<le> q" "1048576 \<le> q * 4096 \<longleftrightarrow> 256 \<le> q" by (cases "256 \<le> q"; simp)+
    show "1050000 \<le> q * 4096 \<longleftrightarrow> 257 \<le> q" by (cases "257 \<le> q"; simp)
    show "(q + 1) * 4096 \<le> 1048000 + 16384 \<longleftrightarrow> q \<le> 258" by (cases "q \<le> 258"; simp)
  qed
  have "q \<in> {q \<in> \<Union> (region_pages ` set [(1048000, 16384, 1)]). 0x100000 \<le> q * 4096 \<and> 1050000 \<le> q * 4096} \<longleftrightarrow>
      q < MAX_PAGES \<and> 257 \<le> q \<and> q \<le> 258" for q
    unfolding mem_Collect_eq list.set image_insert image_empty Union_insert region_pages.simps
    by (simp only: q) auto
  moreover have "q < MAX_PAGES \<and> 257 \<le> q \<and> q \<le> 258 \<longleftrightarrow> q = 257 \<or> q = 258" for q
    by (auto simp: page_consts)
  ultimately have s: "{q \<in> \<Union> (region_pages ` set [(1048000, 16384, 1)]). 0x100000 \<le> q * 4096 \<and> 1050000 \<le> q * 4096} = {257, 258}"
    by (intro set_eqI) (simp only: insert_iff empty_iff simp_thms)
  show ?thesis using pmm_boot_free_set [OF b r, of 1050000] unfolding s by auto
qed

text \<open>
  C37: Allocating and returning single frames are operations on the set of free pages: on a ready
  allocator whose counter is right, \<open>alloc_frame\<close> hands out the lowest free page and removes exactly
  it, or answers None unchanged when there is none, and \<open>free_frame\<close> of any address below 4 GiB puts
  its page back; the counter stays right.
\<close>

theorem pmm_single_frames:
  assumes "pmm_ready p" "pmm_ok p" "addr < 4294967296"
  shows "(if free_pages (frames p) = {} then alloc_frame p = (None, p)
      else \<exists>p'. alloc_frame p = (Some (Min (free_pages (frames p)) * 4096), p') \<and>
        free_pages (frames p') = free_pages (frames p) - {Min (free_pages (frames p))} \<and> pmm_ok p' \<and> pmm_ready p') \<and>
    free_pages (frames (free_frame addr p)) = insert (addr div 4096) (free_pages (frames p)) \<and>
    pmm_ok (free_frame addr p)"
proof -
  have pg: "addr div 4096 < MAX_PAGES" using assms(3) by (simp add: page_consts)
  have "free_pages (frames (free_frame addr p)) = insert (addr div 4096) (free_pages (frames p)) \<and> pmm_ok (free_frame addr p)"
  proof (cases "addr div 4096 \<in> free_pages (frames p)")
    case True
    then show ?thesis using assms(2) by (simp add: free_frame_def is_free_mem page_consts insert_absorb)
  next
    case False
    have "free_count p < 2 ^ 64 - 1" using assms(2) card_free_pages [of "frames p"] by (simp add: pmm_ok_def)
    then show ?thesis using False assms(2) pg
      by (simp add: free_frame_def is_free_mem page_consts Let_def pmm_ok_def us_add_def)
  qed
  then show ?thesis using alloc_frame_empty [OF assms(1)] alloc_frame_some [OF assms(1,2)]
    by (cases "free_pages (frames p) = {}") auto
qed

lemma pmm_single_frames_witness:
  "\<exists>p'. alloc_frame (free_frame 8192 (pmm_start\<lparr>pmm_ready := True\<rparr>)) = (Some 8192, p') \<and> free_pages (frames p') = {}"
proof -
  have z: "free_pages (frames pmm_start) = {}" by (simp add: pmm_start_def free_pages_def is_free_def)
  define p where "p = pmm_start\<lparr>pmm_ready := True\<rparr>"
  have p: "pmm_ready p" "pmm_ok p" using z by (simp_all add: p_def pmm_ok_def) (simp add: pmm_start_def)
  have f: "free_pages (frames (free_frame 8192 p)) = {2} \<and> pmm_ok (free_frame 8192 p)"
    using pmm_single_frames [OF p, of 8192] z by (simp add: p_def)
  have "pmm_ready (free_frame 8192 p)" using p(1) by (simp add: free_frame_def Let_def)
  then show ?thesis using pmm_single_frames [of "free_frame 8192 p" 0] f unfolding p_def [symmetric] by auto
qed

text \<open>
  C38: A contiguous run is handed out first-fit: for two or more frames, \<open>alloc_frames\<close> answers the
  lowest start, at or above the first megabyte, of a run of free pages below the frame count, and
  removes exactly that run; it answers None unchanged only when there is no such run.
\<close>

theorem pmm_contiguous_run:
  assumes "pmm_ready p" "pmm_ok p" "2 \<le> n"
  shows "(\<exists>p' s. alloc_frames n p = (Some (s * 4096), p') \<and> 256 \<le> s \<and> s + n \<le> max (total_count p) 256 \<and>
        run_free (frames p) s n \<and> (\<forall>s'. 256 \<le> s' \<and> s' < s \<longrightarrow> \<not> run_free (frames p) s' n) \<and>
        free_pages (frames p') = free_pages (frames p) - {s..<s + n} \<and> pmm_ok p') \<or>
    (alloc_frames n p = (None, p) \<and>
        (\<forall>s. 256 \<le> s \<and> s + n \<le> total_count p \<longrightarrow> \<not> run_free (frames p) s n))"
proof -
  have "run_free (frames p) 256 0" by (simp add: run_free_def)
  then have r: "(case run_scan (frames p) n (total_count p) 256 0 0 of
      None \<Rightarrow> (\<forall>s \<ge> 256. s + n \<le> total_count p \<longrightarrow> \<not> run_free (frames p) s n)
    | Some s \<Rightarrow> 256 \<le> s \<and> s + n \<le> max (total_count p) 256 \<and> run_free (frames p) s n \<and>
        (\<forall>s' \<ge> 256. s' < s \<longrightarrow> \<not> run_free (frames p) s' n))"
    using run_scan_spec [of 0 n 256 0 "frames p" "total_count p"] assms(3) unfolding diff_zero by simp
  show ?thesis
  proof (cases "run_scan (frames p) n (total_count p) 256 0 0")
    case None
    then have "alloc_frames n p = (None, p)" using assms(1,3) by (simp add: alloc_frames_def)
    then show ?thesis using r None by simp
  next
    case (Some s)
    define p' where "p' = p\<lparr>frames := fold mark_used [s..<s + n] (frames p), free_count := us_sub (free_count p) n\<rparr>"
    have a: "alloc_frames n p = (Some (s * 4096), p')"
      using Some assms(1,3) by (simp add: alloc_frames_def page_consts p'_def)
    have f: "free_pages (frames p') = free_pages (frames p) - {s..<s + n}"
      by (simp add: p'_def free_pages_fold_used)
    have "pmm_ok p'" unfolding p'_def using r Some assms(2)
      by (intro pmm_ok_take [of p "{s..<s + n}"]) (auto simp: free_pages_fold_used run_free_def)
    then show ?thesis using a f r Some by auto
  qed
qed

lemma pmm_contiguous_run_witness:
  "\<exists>p'. alloc_frames 2 (free_frame 1048576 (free_frame 1052672 (pmm_start\<lparr>total_count := 258, pmm_ready := True\<rparr>)))
      = (Some 1048576, p') \<and> free_pages (frames p') = {}"
proof -
  define p0 where "p0 = pmm_start\<lparr>total_count := 258, pmm_ready := True\<rparr>"
  define p where "p = free_frame 1048576 (free_frame 1052672 p0)"
  have fr: "free_pages (frames pmm_start) = {}" by (simp add: pmm_start_def free_pages_def is_free_def)
  have z: "free_pages (frames p0) = {}" "free_count p0 = 0" "pmm_ready p0" "total_count p0 = 258"
    using fr by (simp_all add: p0_def) (simp add: pmm_start_def)
  have f0: "frames (free_frame 1052672 p0) = mark_free 257 (frames p0)" "free_count (free_frame 1052672 p0) = 1"
    using z by (simp_all add: free_frame_def is_free_mem page_consts Let_def us_add_def)
  have f1: "free_pages (frames p) = {256, 257}" "free_count p = 2"
    using z f0 by (simp_all add: p_def free_frame_def is_free_mem page_consts Let_def us_add_def)
  have t: "pmm_ready p" "total_count p = 258" using z by (simp_all add: p_def free_frame_def Let_def)
  have ok: "pmm_ok p" using f1 by (simp add: pmm_ok_def)
  have two: "{256..<256 + 2} = {256, 257 :: nat}" by auto
  have rf: "run_free (frames p) 256 2" unfolding run_free_def f1 two by simp
  show ?thesis unfolding p_def [symmetric] p0_def [symmetric]
    using pmm_contiguous_run [OF t(1) ok order_refl] rf t(2) f1(1) by (auto simp: two)
qed

text \<open>Returning an address above 4 GiB frees nothing but counts a frame.\<close>

lemma pmm_free_above_limit:
  "4294967296 \<le> addr \<Longrightarrow>
   frames (free_frame addr p) = frames p \<and> free_count (free_frame addr p) = us_add (free_count p) 1"
proof -
  assume "4294967296 \<le> addr"
  then have "\<not> addr div 4096 < MAX_PAGES" by (simp add: page_consts)
  then show ?thesis by (simp add: free_frame_def is_free_def mark_free_def page_consts(1))
qed

end
