(* ===== verification/Vmm_Tables.thy ===== *)
theory Vmm_Tables
  imports Vmm Pmm_Props
begin

text \<open>
  The page tables as trees in physical memory. \<open>walk\<close> is the processor's translation; \<open>tables\<close>
  follows the entries to the table of a path of indices; \<open>tables_ok\<close> is the invariant of a set of
  address spaces: their tables are used frames below 4 GiB, and no two paths through private
  entries lead to the same table. The two lemmas \<open>graft\<close> and \<open>leaf\<close> say what the two kinds of
  write do to all translations at once.
\<close>

section \<open>Frames and slots\<close>

definition is_frame :: "u64 \<Rightarrow> bool" where
  "is_frame t \<longleftrightarrow> (\<exists>q < MAX_PAGES. t = of_nat (q * 4096))"

definition slot :: "(u64 \<Rightarrow> u64) \<Rightarrow> u64 \<Rightarrow> nat \<Rightarrow> u64" where
  "slot m t i = m (t + of_nat i * 8)"

lemma unat_frame: "q < MAX_PAGES \<Longrightarrow> unat (of_nat (q * 4096) :: u64) = q * 4096"
  by (simp add: page_consts unat_of_nat del: of_nat_mult)

lemma is_frame_unat: "is_frame t \<Longrightarrow> \<exists>q < 1048576. unat t = q * 4096"
  unfolding is_frame_def using unat_frame by (metis page_consts(3))

lemma unat_slot:
  assumes "is_frame t" "i < 512"
  shows "unat (t + of_nat i * 8) = unat t + 8 * i"
proof -
  obtain q where q: "q < 1048576" "unat t = q * 4096" using is_frame_unat [OF assms(1)] by blast
  have i: "unat (of_nat i * 8 :: u64) = 8 * i" using assms(2) by (simp add: unat_word_ariths unat_of_nat)
  have "unat t + unat (of_nat i * 8 :: u64) < 2 ^ 64" using q i assms(2) by simp
  then show ?thesis using i by (simp add: unat_word_ariths)
qed

lemma slot_addr_eq:
  assumes "is_frame t" "is_frame t'" "i < 512" "j < 512"
  shows "t + of_nat i * 8 = t' + of_nat j * 8 \<longleftrightarrow> t = t' \<and> i = j"
proof
  assume "t + of_nat i * 8 = t' + of_nat j * 8"
  then have e: "unat t + 8 * i = unat t' + 8 * j" using assms unat_slot by metis
  obtain q q' where q: "unat t = q * 4096" "unat t' = q' * 4096" using is_frame_unat assms(1,2) by metis
  have "q = (q * 4096 + 8 * i) div 4096" "q' = (q' * 4096 + 8 * j) div 4096" using assms(3,4) by simp_all
  then have "q = q'" using e q by metis
  then show "t = t' \<and> i = j" using e q by (simp add: word_unat_eq_iff)
qed simp

lemma zero_range:
  assumes "is_frame t" "is_frame f" "i < 512"
  shows "(t + of_nat i * 8) - f < 4096 \<longleftrightarrow> t = f"
proof
  assume "t = f"
  moreover have "(of_nat i * 8 :: u64) < 4096"
    using assms(3) by (simp add: word_less_nat_alt unat_word_ariths unat_of_nat)
  ultimately show "(t + of_nat i * 8) - f < 4096" by simp
next
  assume lt: "(t + of_nat i * 8) - f < 4096"
  obtain q q' where q: "unat t = q * 4096" "unat f = q' * 4096" "q < 1048576" "q' < 1048576"
    using is_frame_unat assms(1,2) by metis
  define a where "a = unat (t + of_nat i * 8)"
  have a: "a = q * 4096 + 8 * i" using unat_slot [OF assms(1,3)] q(1) by (simp add: a_def)
  have d: "unat ((t + of_nat i * 8) - f) < 4096" using lt by (simp add: word_less_nat_alt)
  have "unat ((t + of_nat i * 8) - f) = (if q' * 4096 \<le> a then a - q' * 4096 else a + 2 ^ 64 - q' * 4096)"
    unfolding a_def q(2) [symmetric] by (simp add: unat_sub_if_size word_size)
  then have "q' * 4096 \<le> a \<and> a < q' * 4096 + 4096" using d q(4) by (auto split: if_splits)
  then have "q = q'" using a assms(3) by auto
  then show "t = f" using q by (simp add: word_unat_eq_iff)
qed

lemma window_frame_virt:
  assumes "unat a < 2 ^ 40"
  shows "window (frame_virt st a) = a"
proof -
  have b: "unat PHYSMAP_BASE = 0xFFFF800000000000" by (simp add: PHYSMAP_BASE_def)
  have "PHYSMAP_BASE \<le> PHYSMAP_BASE + a" using assms b by (simp add: word_le_nat_alt unat_word_ariths)
  moreover have "\<not> PHYSMAP_BASE \<le> a" using assms b by (simp add: word_le_nat_alt)
  ultimately show ?thesis by (simp add: window_def frame_virt_def phys_to_virt_def)
qed

lemma window_slot:
  assumes "is_frame t" "i < 512"
  shows "window (frame_virt st t + of_nat i * 8) = t + of_nat i * 8"
proof -
  have "frame_virt st t + of_nat i * 8 = frame_virt st (t + of_nat i * 8)"
    by (simp add: frame_virt_def phys_to_virt_def)
  moreover have "unat (t + of_nat i * 8) < 2 ^ 40"
    using unat_slot [OF assms] is_frame_unat [OF assms(1)] assms(2) by auto
  ultimately show ?thesis by (simp add: window_frame_virt)
qed

lemma read64_slot: "is_frame t \<Longrightarrow> i < 512 \<Longrightarrow> read64 st t i = slot (m_cells st) t i"
  by (simp add: read64_def slot_def window_slot)

lemma slot_write64:
  "is_frame t \<Longrightarrow> i < 512 \<Longrightarrow> is_frame t' \<Longrightarrow> j < 512 \<Longrightarrow>
   slot (m_cells (write64 t i v st)) t' j = (if t' = t \<and> j = i then v else slot (m_cells st) t' j)"
  using slot_addr_eq by (auto simp: write64_def slot_def window_slot)

lemma slot_zero_frame:
  assumes "is_frame f" "is_frame t" "j < 512"
  shows "slot (m_cells (zero_frame f st)) t j = (if t = f then 0 else slot (m_cells st) t j)"
proof -
  have "unat f < 2 ^ 40" using is_frame_unat [OF assms(1)] by auto
  then show ?thesis using zero_range [OF assms(2,1,3)] by (simp add: zero_frame_def slot_def window_frame_virt)
qed

lemma write64_fields [simp]:
  "m_pmm (write64 t i v st) = m_pmm st" "m_cr3 (write64 t i v st) = m_cr3 st" "m_physmap (write64 t i v st) = m_physmap st"
  by (simp_all add: write64_def)

lemma zero_frame_fields [simp]:
  "m_pmm (zero_frame f st) = m_pmm st" "m_cr3 (zero_frame f st) = m_cr3 st" "m_physmap (zero_frame f st) = m_physmap st"
  by (simp_all add: zero_frame_def)

section \<open>Entries\<close>

definition child :: "u64 \<Rightarrow> u64 option" where
  "child e = (if e AND PTE_PRESENT \<noteq> 0 \<and> e AND PTE_HUGE = 0 then Some (e AND NOT 0xFFF) else None)"

lemma pte_bits: "e AND PTE_PRESENT \<noteq> 0 \<longleftrightarrow> bit e 0" "e AND PTE_HUGE \<noteq> 0 \<longleftrightarrow> bit e 7"
  "bit PTE_PRESENT k \<longleftrightarrow> k = 0" "bit PTE_WRITABLE k \<longleftrightarrow> k = 1" "bit PTE_USER k \<longleftrightarrow> k = 2" "bit PTE_HUGE k \<longleftrightarrow> k = 7"
  using and_exp_eq_0_iff_not_bit [of e 0] and_exp_eq_0_iff_not_bit [of e 7]
  by (auto simp: PTE_PRESENT_def PTE_HUGE_def PTE_WRITABLE_def PTE_USER_def push_bit_eq_mult bit_1_iff
      bit_exp_iff [of 1, simplified] bit_exp_iff [of 2, simplified] bit_exp_iff [of 7, simplified])

lemma frame_low_bits: "is_frame f \<Longrightarrow> k < 12 \<Longrightarrow> \<not> bit f k"
proof -
  assume f: "is_frame f" and k: "k < 12"
  obtain q where "f = of_nat (q * 4096)" using f by (auto simp: is_frame_def)
  then have "f = push_bit 12 (of_nat q)" by (simp add: push_bit_eq_mult)
  then show ?thesis using k by (simp add: bit_push_bit_iff)
qed

lemma bit_clear_offset: "bit (x AND NOT 0xFFF :: u64) k \<longleftrightarrow> 12 \<le> k \<and> bit x k"
proof -
  have m: "(0xFFF :: u64) = mask 12" by (simp add: mask_eq_exp_minus_1)
  show ?thesis unfolding m by (auto simp: bit_and_iff bit_not_iff bit_mask_iff not_less dest: bit_imp_le_length)
qed

lemma child_table_entry:
  assumes "is_frame f"
  shows "child (f OR (PTE_PRESENT OR PTE_WRITABLE OR PTE_USER)) = Some f"
proof -
  have "(f OR (PTE_PRESENT OR PTE_WRITABLE OR PTE_USER)) AND NOT 0xFFF = f"
  proof (rule bit_word_eqI, unfold bit_clear_offset)
    fix n
    show "12 \<le> n \<and> bit (f OR (PTE_PRESENT OR PTE_WRITABLE OR PTE_USER)) n \<longleftrightarrow> bit f n"
      using frame_low_bits [OF assms, of n] by (cases "n < 12") (auto simp: bit_or_iff pte_bits)
  qed
  moreover have "\<not> bit f 7" using frame_low_bits [OF assms] by simp
  ultimately show ?thesis using pte_bits(1,2) [of "f OR (PTE_PRESENT OR PTE_WRITABLE OR PTE_USER)"]
    by (auto simp: child_def bit_or_iff pte_bits)
qed

lemma child_0 [simp]: "child 0 = None"
  by (simp add: child_def)

section \<open>Trees\<close>

definition tables :: "(u64 \<Rightarrow> u64) \<Rightarrow> u64 \<Rightarrow> nat list \<Rightarrow> u64 option" where
  "tables m r p = foldl (\<lambda>t i. Option.bind t (\<lambda>t. child (slot m t i))) (Some r) p"

lemma tables_Nil [simp]: "tables m r [] = Some r"
  by (simp add: tables_def)

lemma tables_snoc: "tables m r (p @ [i]) = Option.bind (tables m r p) (\<lambda>t. child (slot m t i))"
  by (simp add: tables_def)

lemma tables_None_append: "tables m r x = None \<Longrightarrow> tables m r (x @ y) = None"
proof -
  assume "tables m r x = None"
  moreover have "foldl (\<lambda>t i. Option.bind t (\<lambda>t. child (slot m t i))) None y = None" by (induction y) simp_all
  ultimately show ?thesis by (simp add: tables_def)
qed

text \<open>The processor's walk: the leaf entry and the number of levels it cuts short (0 for 4 KiB, 1 for
  2 MiB), or None when nothing is mapped.\<close>

fun walk :: "(u64 \<Rightarrow> u64) \<Rightarrow> u64 \<Rightarrow> nat list \<Rightarrow> (u64 \<times> nat) option" where
  "walk m t [] = None"
| "walk m t [i] = (let e = slot m t i in if e AND PTE_PRESENT \<noteq> 0 then Some (e, 0) else None)"
| "walk m t (i # j # is) =
     (let e = slot m t i
      in if e AND PTE_PRESENT = 0 then None
         else if e AND PTE_HUGE \<noteq> 0 then Some (e, length (j # is))
         else walk m (e AND NOT 0xFFF) (j # is))"

definition indices :: "u64 \<Rightarrow> nat list" where
  "indices v = [pml4_idx v, pdpt_idx v, pd_idx v, pt_idx v]"

definition translate :: "mmu \<Rightarrow> u64 \<Rightarrow> u64 \<Rightarrow> (u64 \<times> nat) option" where
  "translate st r v = walk (m_cells st) r (indices v)"

definition path :: "nat list \<Rightarrow> bool" where
  "path p \<longleftrightarrow> length p \<le> 3 \<and> (\<forall>i \<in> set p. i < 512)"

definition private_path :: "nat list \<Rightarrow> bool" where
  "private_path p \<longleftrightarrow> (case p of [] \<Rightarrow> True | i # _ \<Rightarrow> i \<noteq> 256 \<and> i \<noteq> 511)"

definition trees_ok :: "u64 set \<Rightarrow> (u64 \<Rightarrow> u64) \<Rightarrow> nat set \<Rightarrow> bool" where
  "trees_ok R m fr \<longleftrightarrow>
     (\<forall>r \<in> R. \<forall>p t. path p \<and> tables m r p = Some t \<longrightarrow> is_frame t \<and> unat t div 4096 \<notin> fr) \<and>
     (\<forall>r \<in> R. \<forall>r' \<in> R. \<forall>p p' t. path p \<and> path p' \<and> private_path p \<and>
        tables m r p = Some t \<and> tables m r' p' = Some t \<longrightarrow> r = r' \<and> p = p')"

definition tables_ok :: "u64 set \<Rightarrow> mmu \<Rightarrow> bool" where
  "tables_ok R st \<longleftrightarrow> pmm_ready (m_pmm st) \<and> pmm_ok (m_pmm st) \<and>
     trees_ok R (m_cells st) (free_pages (frames (m_pmm st)))"

lemma trees_okD:
  assumes "trees_ok R m fr" "r \<in> R" "path p" "tables m r p = Some t"
  shows "is_frame t" "unat t div 4096 \<notin> fr"
  using assms unfolding trees_ok_def by blast+

lemma trees_ok_inj:
  assumes "trees_ok R m fr" "r \<in> R" "r' \<in> R" "path p" "path p'" "private_path p"
    "tables m r p = Some t" "tables m r' p' = Some t"
  shows "r' = r \<and> p' = p"
  using assms unfolding trees_ok_def by blast

lemma trees_ok_same_tables:
  assumes "trees_ok R m fr" "\<And>r q. r \<in> R \<Longrightarrow> path q \<Longrightarrow> tables m' r q = tables m r q" "fr' \<subseteq> fr"
  shows "trees_ok R m' fr'"
  unfolding trees_ok_def
proof (intro conjI ballI allI impI)
  fix r p t assume "r \<in> R" "path p \<and> tables m' r p = Some t"
  then show "is_frame t" "unat t div 4096 \<notin> fr'" using trees_okD [OF assms(1)] assms(2,3) by auto
next
  fix r r' p p' t
  assume a: "r \<in> R" "r' \<in> R" "path p \<and> path p' \<and> private_path p \<and> tables m' r p = Some t \<and> tables m' r' p' = Some t"
  then have "tables m r p = Some t" "tables m r' p' = Some t"
    using assms(2) [OF a(1), of p] assms(2) [OF a(2), of p'] by simp_all
  then have "r' = r \<and> p' = p" using trees_ok_inj [OF assms(1) a(1,2), of p p' t] a(3) by simp
  then show "r = r'" "p = p'" by simp_all
qed

lemma path_snoc [simp]: "path (q @ [j]) \<longleftrightarrow> length q \<le> 2 \<and> path q \<and> j < 512"
  by (auto simp: path_def)

lemma path_Nil [simp]: "path []" by (simp add: path_def)

lemma private_snoc: "private_path (p @ [i]) \<Longrightarrow> private_path p"
  by (cases p) (auto simp: private_path_def)

text \<open>Linking a fresh, zeroed table into an absent entry: one table more, and no translation changes.\<close>

lemma graft:
  assumes ok: "trees_ok R m fr" and r: "r \<in> R" and p: "path (p @ [i])" "private_path p"
    and t: "tables m r p = Some t" and absent: "slot m t i AND PTE_PRESENT = 0"
    and f: "is_frame f" "unat f div 4096 \<in> fr" and e: "child e = Some f"
    and upds: "\<forall>t' j. is_frame t' \<longrightarrow> j < 512 \<longrightarrow>
      slot m' t' j = (if t' = t \<and> j = i then e else if t' = f then 0 else slot m t' j)"
  shows "r' \<in> R \<Longrightarrow> path q \<Longrightarrow> tables m' r' q = (if r' = r \<and> q = p @ [i] then Some f else tables m r' q)"
    and "r' \<in> R \<Longrightarrow> path q \<Longrightarrow> tables m r' q = Some s \<Longrightarrow> length q + length rest = 4 \<Longrightarrow> \<forall>k \<in> set rest. k < 512 \<Longrightarrow>
      walk m' s rest = walk m s rest"
proof -
  note upd = upds [rule_format]
  have pp: "path p" "i < 512" "length p \<le> 2" using p by simp_all
  have tf: "t \<noteq> f" using trees_okD(2) [OF ok r pp(1) t] f(2) by auto
  have none: "child (slot m t i) = None" using absent by (simp add: child_def)
  have upd_f: "slot m' f j = 0" if "j < 512" for j using upd [OF f(1) that] tf by simp
  have upd_old: "slot m' s j = (if s = t \<and> j = i then e else slot m s j)"
    if "r' \<in> R" "path q" "tables m r' q = Some s" "j < 512" for r' q s j
  proof -
    have "s \<noteq> f" using trees_okD(2) [OF ok that(1-3)] f(2) by auto
    then show ?thesis using upd [OF trees_okD(1) [OF ok that(1-3)] that(4)] by simp
  qed
  have tab: "tables m' r' q = (if r' = r \<and> q = p @ [i] then Some f else tables m r' q)"
    if "r' \<in> R" "path q" for r' q
    using that(2)
  proof (induction q rule: rev_induct)
    case (snoc j q)
    have q: "path q" "j < 512" "length q \<le> 2" using snoc.prems by simp_all
    show ?case
    proof (cases "r' = r \<and> q = p @ [i]")
      case True
      have "tables m' r' q = Some f" using snoc.IH [OF q(1)] True by simp
      then have "tables m' r' (q @ [j]) = None" unfolding tables_snoc using upd_f [OF q(2)] by simp
      moreover have "tables m r' q = None" using True t none by (simp add: tables_snoc)
      then have "tables m r' (q @ [j]) = None" unfolding tables_snoc by simp
      ultimately show ?thesis using True by simp
    next
      case False
      have same: "tables m' r' q = tables m r' q" using snoc.IH [OF q(1)] unfolding if_not_P [OF False] .
      show ?thesis
      proof (cases "tables m r' q")
        case None
        then show ?thesis using same t by (auto simp: tables_snoc)
      next
        case (Some s)
        note u = upd_old [OF that(1) q(1) Some q(2)]
        show ?thesis
        proof (cases "s = t")
          case True
          then have "r' = r \<and> q = p" using trees_ok_inj [OF ok r that(1) pp(1) q(1) p(2) t] Some by simp
          then show ?thesis using same Some u e True by (simp add: tables_snoc)
        next
          case False
          then have "\<not> (r' = r \<and> q = p)" using Some t by auto
          then show ?thesis using same Some u False by (auto simp: tables_snoc)
        qed
      qed
    qed
  qed simp
  then show "r' \<in> R \<Longrightarrow> path q \<Longrightarrow> tables m' r' q = (if r' = r \<and> q = p @ [i] then Some f else tables m r' q)" .
  show "r' \<in> R \<Longrightarrow> path q \<Longrightarrow> tables m r' q = Some s \<Longrightarrow> length q + length rest = 4 \<Longrightarrow> \<forall>k \<in> set rest. k < 512 \<Longrightarrow>
      walk m' s rest = walk m s rest"
  proof (induction rest arbitrary: q s)
    case (Cons j rest)
    have j: "j < 512" using Cons.prems by simp
    note u = upd_old [OF Cons.prems(1-3) j]
    show ?case
    proof (cases rest)
      case Nil
      have "\<not> (s = t \<and> j = i)"
      proof
        assume "s = t \<and> j = i"
        then have "q = p" using trees_ok_inj [OF ok r Cons.prems(1) pp(1) Cons.prems(2) p(2) t] Cons.prems(3) by simp
        then show False using pp(3) Cons.prems(4) Nil by simp
      qed
      then have "slot m' s j = slot m s j" using u by auto
      then show ?thesis by (simp add: Nil)
    next
      case (Cons k ks)
      show ?thesis
      proof (cases "s = t \<and> j = i")
        case True
        have k: "k < 512" using Cons.prems(5) Cons by simp
        have "walk m' f (k # ks) = None" using upd_f [OF k] by (cases ks) simp_all
        moreover have "e AND PTE_PRESENT \<noteq> 0" "e AND PTE_HUGE = 0" "e AND NOT 0xFFF = f"
          using e by (auto simp: child_def split: if_splits)
        ultimately show ?thesis using True u absent Cons by simp
      next
        case False
        then have same: "slot m' s j = slot m s j" using u by auto
        have "walk m' s2 (k # ks) = walk m s2 (k # ks)" if "child (slot m s j) = Some s2" for s2
          using Cons.IH [of "q @ [j]" s2] Cons.prems Cons that j by (simp add: tables_snoc)
        then show ?thesis using same Cons by (auto simp: child_def Let_def)
      qed
    qed
  qed simp
qed

text \<open>Writing an entry of a last-level table: no table moves, and only that page's translation changes.\<close>

lemma leaf:
  assumes ok: "trees_ok R m fr" and r: "r \<in> R" and p: "path p" "private_path p" "length p = 3" "i < 512"
    and t: "tables m r p = Some t"
    and upds: "\<forall>t' j. is_frame t' \<longrightarrow> j < 512 \<longrightarrow> slot m' t' j = (if t' = t \<and> j = i then e else slot m t' j)"
  shows "r' \<in> R \<Longrightarrow> path q \<Longrightarrow> tables m' r' q = tables m r' q"
    and "r' \<in> R \<Longrightarrow> path q \<Longrightarrow> tables m r' q = Some s \<Longrightarrow> length q + length rest = 4 \<Longrightarrow> \<forall>k \<in> set rest. k < 512 \<Longrightarrow>
      walk m' s rest = (if r' = r \<and> q @ rest = p @ [i] then (if e AND PTE_PRESENT \<noteq> 0 then Some (e, 0) else None) else walk m s rest)"
proof -
  note upd = upds [rule_format]
  have upd_old: "slot m' s j = (if r' = r \<and> q = p \<and> j = i then e else slot m s j)"
    if "r' \<in> R" "path q" "tables m r' q = Some s" "j < 512" for r' q s j
  proof (cases "s = t")
    case True
    then have "r' = r \<and> q = p" using trees_ok_inj [OF ok r that(1) p(1) that(2) p(2) t] that(3) by simp
    then show ?thesis using upd [OF trees_okD(1) [OF ok that(1-3)] that(4)] True by simp
  next
    case False
    then have "\<not> (r' = r \<and> q = p)" using that(3) t by auto
    then show ?thesis using upd [OF trees_okD(1) [OF ok that(1-3)] that(4)] False by auto
  qed
  show "r' \<in> R \<Longrightarrow> path q \<Longrightarrow> tables m' r' q = tables m r' q"
  proof (induction q rule: rev_induct)
    case (snoc j q)
    have q: "path q" "j < 512" "length q \<le> 2" using snoc.prems by simp_all
    have same: "tables m' r' q = tables m r' q" using snoc q by simp
    have "q \<noteq> p" using q(3) p(3) by auto
    then show ?case using same upd_old [OF snoc.prems(1) q(1) _ q(2)]
      by (cases "tables m r' q") (simp_all add: tables_snoc)
  qed simp
  show "r' \<in> R \<Longrightarrow> path q \<Longrightarrow> tables m r' q = Some s \<Longrightarrow> length q + length rest = 4 \<Longrightarrow> \<forall>k \<in> set rest. k < 512 \<Longrightarrow>
      walk m' s rest = (if r' = r \<and> q @ rest = p @ [i] then (if e AND PTE_PRESENT \<noteq> 0 then Some (e, 0) else None) else walk m s rest)"
  proof (induction rest arbitrary: q s)
    case Nil
    then show ?case by (simp add: path_def)
  next
    case (Cons j rest)
    have j: "j < 512" using Cons.prems by simp
    note u = upd_old [OF Cons.prems(1-3) j]
    show ?case
    proof (cases rest)
      case Nil
      then show ?thesis using u by auto
    next
      case (Cons k ks)
      have "q \<noteq> p" using Cons.prems(4) p(3) Cons by auto
      then have same: "slot m' s j = slot m s j" using u by simp
      have "walk m' s2 rest = (if r' = r \<and> q @ j # rest = p @ [i] then (if e AND PTE_PRESENT \<noteq> 0 then Some (e, 0) else None) else walk m s2 rest)"
        if "child (slot m s j) = Some s2" for s2
        using Cons.IH [of "q @ [j]" s2] Cons.prems Cons that j by (simp add: tables_snoc)
      moreover have "child (slot m s j) \<noteq> None" if "r' = r" "q @ j # rest = p @ [i]"
      proof -
        have "rest = butlast rest @ [last rest]" using Cons by (simp only: append_butlast_last_id list.distinct simp_thms)
        then have "(q @ j # butlast rest) @ [last rest] = p @ [i]" using that(2) by (simp only: append_assoc append_Cons)
        then have p': "p = q @ j # butlast rest" by (simp only: append1_eq_conv)
        have "\<exists>x. tables m r (q @ [j]) = Some x"
        proof -
          have "tables m r ((q @ [j]) @ butlast rest) \<noteq> None" using t p' by simp
          then have "tables m r (q @ [j]) \<noteq> None" using tables_None_append by metis
          then show ?thesis by (simp only: not_None_eq)
        qed
        then show ?thesis using that(1) Cons.prems(3) by (auto simp: tables_snoc)
      qed
      ultimately show ?thesis using same Cons
        by (cases "child (slot m s j)") (auto simp: child_def Let_def split: if_splits)
    qed
  qed
qed

text \<open>Writing into a frame no table uses: nothing reachable changes.\<close>

lemma fresh_frame:
  assumes ok: "trees_ok R m fr" and f: "unat f div 4096 \<in> fr"
    and upds: "\<forall>t' j. is_frame t' \<longrightarrow> j < 512 \<longrightarrow> t' \<noteq> f \<longrightarrow> slot m' t' j = slot m t' j"
  shows "r \<in> R \<Longrightarrow> path q \<Longrightarrow> tables m' r q = tables m r q"
    and "r \<in> R \<Longrightarrow> path q \<Longrightarrow> tables m r q = Some s \<Longrightarrow> length q + length rest = 4 \<Longrightarrow> \<forall>k \<in> set rest. k < 512 \<Longrightarrow>
      walk m' s rest = walk m s rest"
proof -
  have same: "slot m' s j = slot m s j" if "r \<in> R" "path q" "tables m r q = Some s" "j < 512" for q s j
  proof -
    have "s \<noteq> f" using trees_okD(2) [OF ok that(1-3)] f by auto
    then show ?thesis using upds trees_okD(1) [OF ok that(1-3)] that(4) by blast
  qed
  show "r \<in> R \<Longrightarrow> path q \<Longrightarrow> tables m' r q = tables m r q"
  proof (induction q rule: rev_induct)
    case (snoc j q)
    have q: "path q" "j < 512" "tables m' r q = tables m r q" using snoc by simp_all
    then show ?case using same [OF snoc.prems(1) q(1) _ q(2)]
      by (cases "tables m r q") (simp_all add: tables_snoc)
  qed simp
  show "r \<in> R \<Longrightarrow> path q \<Longrightarrow> tables m r q = Some s \<Longrightarrow> length q + length rest = 4 \<Longrightarrow> \<forall>k \<in> set rest. k < 512 \<Longrightarrow>
      walk m' s rest = walk m s rest"
  proof (induction rest arbitrary: q s)
    case (Cons j rest)
    have j: "slot m' s j = slot m s j" using same [OF Cons.prems(1-3)] Cons.prems(5) by simp
    show ?case
    proof (cases rest)
      case Nil
      then show ?thesis using j by simp
    next
      case (Cons k ks)
      have "walk m' s2 rest = walk m s2 rest" if "child (slot m s j) = Some s2" for s2
        using Cons.IH [of "q @ [j]" s2] Cons.prems Cons that by (simp add: tables_snoc)
      then show ?thesis using j Cons by (auto simp: child_def Let_def)
    qed
  qed simp
qed

end
