(* ===== verification/Vmm_Props.thy ===== *)
theory Vmm_Props
  imports Vmm_Tables
begin

text \<open>
  What the page-table code promises: mapping a page changes the translation of that page in that
  address space and nothing else anywhere, a private address space starts with an empty low half
  and the kernel's upper entries, and the direct map covers the memory it was built for.
\<close>

section \<open>One level down\<close>

abbreviation free_set :: "mmu \<Rightarrow> nat set" where
  "free_set st \<equiv> free_pages (frames (m_pmm st))"

abbreviation table_flags :: u64 where
  "table_flags \<equiv> PTE_PRESENT OR PTE_WRITABLE OR PTE_USER"

lemma idx_bound [simp]: "pml4_idx v < 512" "pdpt_idx v < 512" "pd_idx v < 512" "pt_idx v < 512"
proof -
  have "unat (w AND 0x1FF) < 512" for w :: u64
  proof -
    have "w AND 0x1FF = take_bit 9 w" using take_bit_eq_mask [of 9 w] by (simp add: mask_eq_exp_minus_1)
    moreover have "unat (take_bit 9 w) = take_bit 9 (unat w)" by (rule unsigned_take_bit_eq)
    moreover have "take_bit 9 (unat w) < 512" using take_bit_nat_less_exp [of 9 "unat w"] by simp
    ultimately show ?thesis by simp
  qed
  then show "pml4_idx v < 512" "pdpt_idx v < 512" "pd_idx v < 512" "pt_idx v < 512"
    by (simp_all add: pml4_idx_def pdpt_idx_def pd_idx_def pt_idx_def)
qed

lemma walk_along: "tables m r p = Some t \<Longrightarrow> rest \<noteq> [] \<Longrightarrow> walk m r (p @ rest) = walk m t rest"
proof (induction p arbitrary: rest t rule: rev_induct)
  case (snoc i p)
  obtain s where s: "tables m r p = Some s" "child (slot m s i) = Some t"
    using snoc.prems(1) by (cases "tables m r p") (auto simp: tables_snoc)
  have "walk m r (p @ i # rest) = walk m s (i # rest)" using snoc.IH [OF s(1)] by simp
  also have "\<dots> = walk m t rest"
    using s(2) snoc.prems(2) by (cases rest) (auto simp: child_def Let_def split: if_splits)
  finally show ?case by simp
qed simp

lemma allocated_frame:
  assumes "pmm_ready p" "pmm_ok p" "alloc_frame p = (Some a, p')"
  shows "is_frame (of_nat a)" "unat (of_nat a :: u64) div 4096 \<in> free_pages (frames p)"
    "free_pages (frames p') = free_pages (frames p) - {unat (of_nat a :: u64) div 4096}"
    "pmm_ready p'" "pmm_ok p'"
proof -
  have ne: "free_pages (frames p) \<noteq> {}" using assms alloc_frame_empty [OF assms(1)] by auto
  define q where "q = Min (free_pages (frames p))"
  have q: "q \<in> free_pages (frames p)" using ne by (simp add: q_def)
  then have qm: "q < MAX_PAGES" using free_pages_le by auto
  have a: "a = q * 4096" "free_pages (frames p') = free_pages (frames p) - {q}" "pmm_ready p'" "pmm_ok p'"
    using alloc_frame_some [OF assms(1,2) ne] assms(3) by (auto simp: q_def)
  have u: "unat (of_nat a :: u64) div 4096 = q" using unat_frame [OF qm] unfolding a(1) by simp
  show "is_frame (of_nat a)" using qm a(1) by (auto simp: is_frame_def)
  show "unat (of_nat a :: u64) div 4096 \<in> free_pages (frames p)"
    "free_pages (frames p') = free_pages (frames p) - {unat (of_nat a :: u64) div 4096}"
    "pmm_ready p'" "pmm_ok p'" using u q a by simp_all
qed

text \<open>What a step of the walk leaves alone.\<close>

definition keeps :: "u64 set \<Rightarrow> mmu \<Rightarrow> mmu \<Rightarrow> bool" where
  "keeps R st st' \<longleftrightarrow> tables_ok R st' \<and> m_cr3 st' = m_cr3 st \<and> m_physmap st' = m_physmap st \<and>
     free_set st' \<subseteq> free_set st \<and>
     (\<forall>r \<in> R. \<forall>v. translate st' r v = translate st r v) \<and>
     (\<forall>r \<in> R. \<forall>q s. path q \<and> tables (m_cells st) r q = Some s \<longrightarrow> tables (m_cells st') r q = Some s)"

lemma keeps_refl: "tables_ok R st \<Longrightarrow> keeps R st st"
  by (simp add: keeps_def)

lemma keeps_trans: "keeps R st1 st2 \<Longrightarrow> keeps R st2 st3 \<Longrightarrow> keeps R st1 st3"
  unfolding keeps_def by auto

lemma indices_bound: "\<forall>k \<in> set (indices v). k < 512"
  by (simp add: indices_def)

lemma length_indices [simp]: "length (indices v) = 4"
  by (simp add: indices_def)

lemma descend_graft:
  assumes ok: "tables_ok R st" and r: "r \<in> R" and p: "path (p @ [i])" "private_path (p @ [i])"
    and t: "tables (m_cells st) r p = Some t"
    and absent: "read64 st t i AND PTE_PRESENT = 0"
    and al: "alloc_frame (m_pmm st) = (Some a, pm)"
  defines "st' \<equiv> write64 t i (of_nat a OR table_flags) (zero_frame (of_nat a) (st\<lparr>m_pmm := pm\<rparr>))"
  shows "keeps R st st'" "tables (m_cells st') r (p @ [i]) = Some (of_nat a)"
    "r' \<in> R \<Longrightarrow> path q \<Longrightarrow> tables (m_cells st') r' q = (if r' = r \<and> q = p @ [i] then Some (of_nat a) else tables (m_cells st) r' q)"
proof -
  define f :: u64 where "f = of_nat a"
  define m where "m = m_cells st"
  define m' where "m' = m_cells st'"
  note tok = ok [unfolded tables_ok_def]
  have trees: "trees_ok R m (free_set st)" using tok by (simp add: m_def)
  note fr = allocated_frame [OF tok [THEN conjunct1] tok [THEN conjunct2, THEN conjunct1] al, folded f_def]
  have pp: "path p" "private_path p" "i < 512" using p private_snoc by simp_all
  have tt: "tables m r p = Some t" using t by (simp add: m_def)
  have tfr: "is_frame t" "unat t div 4096 \<notin> free_set st" using trees_okD [OF trees r pp(1) tt] by simp_all
  have ab: "slot m t i AND PTE_PRESENT = 0" using absent read64_slot [OF tfr(1) pp(3)] by (simp add: m_def)
  have e: "child (f OR table_flags) = Some f" by (rule child_table_entry [OF fr(1)])
  have upd: "slot m' t' j = (if t' = t \<and> j = i then f OR table_flags else if t' = f then 0 else slot m t' j)"
    if "is_frame t'" "j < 512" for t' j
    using slot_write64 [OF tfr(1) pp(3) that, of "f OR table_flags" "zero_frame f (st\<lparr>m_pmm := pm\<rparr>)"]
      slot_zero_frame [OF fr(1) that, of "st\<lparr>m_pmm := pm\<rparr>"]
    unfolding m'_def st'_def m_def f_def [symmetric] by auto
  then have upds: "\<forall>t' j. is_frame t' \<longrightarrow> j < 512 \<longrightarrow>
      slot m' t' j = (if t' = t \<and> j = i then f OR table_flags else if t' = f then 0 else slot m t' j)" by blast
  note g = graft [OF trees r p(1) pp(2) tt ab fr(1,2) e upds]
  have tab: "tables m' r' q = (if r' = r \<and> q = p @ [i] then Some f else tables m r' q)" if "r' \<in> R" "path q" for r' q
    using g(1) that by blast
  have fresh: "tables m r' q \<noteq> Some f" if "r' \<in> R" "path q" for r' q
    using trees_okD(2) [OF trees that] fr(2) by auto
  have pm': "m_pmm st' = pm" by (simp add: st'_def)
  have trees': "trees_ok R m' (free_set st')"
    unfolding trees_ok_def pm'
  proof (intro conjI ballI allI impI)
    fix r' q s assume a: "r' \<in> R" "path q \<and> tables m' r' q = Some s"
    then have "s = f \<or> tables m r' q = Some s" using tab [of r' q] by (auto split: if_splits)
    then show "is_frame s" "unat s div 4096 \<notin> free_pages (frames pm)"
      using fr(1,3) trees_okD [OF trees a(1)] a(2) by auto
  next
    fix r1 r2 q1 q2 s
    assume a: "r1 \<in> R" "r2 \<in> R"
      "path q1 \<and> path q2 \<and> private_path q1 \<and> tables m' r1 q1 = Some s \<and> tables m' r2 q2 = Some s"
    have new: "(r' = r \<and> q = p @ [i] \<and> s = f) \<or> (tables m r' q = Some s \<and> s \<noteq> f)"
      if "r' \<in> R" "path q" "tables m' r' q = Some s" for r' q
      using tab [OF that(1,2)] that(3) fresh [OF that(1,2)] by (cases "r' = r \<and> q = p @ [i]") auto
    have "r1 = r2 \<and> q1 = q2"
      using new [OF a(1), of q1] new [OF a(2), of q2] a(3) trees_ok_inj [OF trees a(1,2), of q1 q2 s] by blast
    then show "r1 = r2" "q1 = q2" by simp_all
  qed
  have tr: "translate st' r' v = translate st r' v" if "r' \<in> R" for r' v
    using g(2) [OF that path_Nil, of r' "indices v"] indices_bound [of v]
    by (simp add: translate_def m_def m'_def indices_def)
  have old: "tables m' r' q = Some s" if "r' \<in> R" "path q" "tables m r' q = Some s" for r' q s
  proof -
    have "tables m r (p @ [i]) = None" using tt ab by (simp add: tables_snoc child_def)
    then show ?thesis using tab [OF that(1,2)] that(3) by auto
  qed
  show "keeps R st st'"
    unfolding keeps_def tables_ok_def using trees' tr old fr(3-5) pm'
    by (auto simp: m_def m'_def st'_def)
  show "tables (m_cells st') r (p @ [i]) = Some (of_nat a)" using tab [OF r p(1)] by (simp add: m'_def f_def)
  show "r' \<in> R \<Longrightarrow> path q \<Longrightarrow> tables (m_cells st') r' q = (if r' = r \<and> q = p @ [i] then Some (of_nat a) else tables (m_cells st) r' q)"
    using tab unfolding m_def m'_def f_def by blast
qed

lemma descend_spec:
  assumes ok: "tables_ok R st" and r: "r \<in> R" and p: "path (p @ [i])" "private_path (p @ [i])"
    and t: "tables (m_cells st) r p = Some t" and d: "descend t i table_flags st = (res, st')"
  shows "keeps R st st'" "res = Some t' \<Longrightarrow> tables (m_cells st') r (p @ [i]) = Some t'"
    "res = None \<Longrightarrow> st' = st \<and> (free_set st = {} \<or> (\<exists>e. slot (m_cells st) t i = e \<and> e AND PTE_PRESENT \<noteq> 0 \<and> e AND PTE_HUGE \<noteq> 0))"
proof -
  note tok = ok [unfolded tables_ok_def]
  have pp: "path p" "i < 512" using p by simp_all
  have rd: "read64 st t i = slot (m_cells st) t i"
    using trees_okD(1) [OF _ r pp(1) t] tok by (intro read64_slot [OF _ pp(2)]) blast
  have all: "keeps R st st' \<and> (\<forall>t'. res = Some t' \<longrightarrow> tables (m_cells st') r (p @ [i]) = Some t') \<and>
    (res = None \<longrightarrow> st' = st \<and> (free_set st = {} \<or> (\<exists>e. slot (m_cells st) t i = e \<and> e AND PTE_PRESENT \<noteq> 0 \<and> e AND PTE_HUGE \<noteq> 0)))"
  proof (cases "read64 st t i AND PTE_PRESENT = 0")
    case False
    then show ?thesis using d t rd keeps_refl [OF ok]
      by (auto simp: descend_def Let_def tables_snoc child_def split: if_splits)
  next
    case True
    show ?thesis
    proof (cases "alloc_frame (m_pmm st)")
      case (Pair x pm)
      show ?thesis
      proof (cases x)
        case None
        have e: "free_set st = {}" using alloc_frame_some [of "m_pmm st"] tok Pair None by auto
        then have "pm = m_pmm st" using alloc_frame_empty [of "m_pmm st"] tok Pair by auto
        then show ?thesis using d True Pair None e keeps_refl [OF ok] by (auto simp: descend_def Let_def)
      next
        case (Some a)
        have al: "alloc_frame (m_pmm st) = (Some a, pm)" using Pair Some by simp
        note g = descend_graft [OF ok r p t True al]
        show ?thesis using d True al g by (auto simp: descend_def Let_def)
      qed
    qed
  qed
  show "keeps R st st'" "res = Some t' \<Longrightarrow> tables (m_cells st') r (p @ [i]) = Some t'"
    "res = None \<Longrightarrow> st' = st \<and> (free_set st = {} \<or> (\<exists>e. slot (m_cells st) t i = e \<and> e AND PTE_PRESENT \<noteq> 0 \<and> e AND PTE_HUGE \<noteq> 0))"
    using all by blast+
qed

section \<open>Mapping a page\<close>

lemma huge_on_path:
  assumes "keeps R st st1" "r \<in> R" "tables (m_cells st1) r p = Some t" "indices virt = p @ i # j # rest"
    "slot (m_cells st1) t i AND PTE_PRESENT \<noteq> 0" "slot (m_cells st1) t i AND PTE_HUGE \<noteq> 0"
  shows "\<exists>e k. translate st r virt = Some (e, Suc k)"
proof -
  have "translate st r virt = translate st1 r virt" using assms(1,2) by (simp add: keeps_def)
  also have "\<dots> = walk (m_cells st1) t (i # j # rest)"
    unfolding translate_def assms(4) by (rule walk_along [OF assms(3)]) simp
  finally show ?thesis using assms(5,6) by (simp add: Let_def)
qed

lemma leaf_write:
  assumes ok: "tables_ok R st" and r: "r \<in> R" and p: "path p" "private_path p" "length p = 3" "i < 512"
    and t: "tables (m_cells st) r p = Some t" and v: "indices virt = p @ [i]" and e: "e AND PTE_PRESENT \<noteq> 0"
  shows "tables_ok R (write64 t i e st)" "translate (write64 t i e st) r virt = Some (e, 0)"
    "r' \<in> R \<Longrightarrow> (r', indices w) \<noteq> (r, indices virt) \<Longrightarrow> translate (write64 t i e st) r' w = translate st r' w"
    "r' \<in> R \<Longrightarrow> path q \<Longrightarrow> tables (m_cells (write64 t i e st)) r' q = tables (m_cells st) r' q"
proof -
  note tok = ok [unfolded tables_ok_def]
  have trees: "trees_ok R (m_cells st) (free_set st)" using tok by simp
  have tf: "is_frame t" using trees_okD(1) [OF trees r p(1) t] .
  have upds: "\<forall>t' j. is_frame t' \<longrightarrow> j < 512 \<longrightarrow>
      slot (m_cells (write64 t i e st)) t' j = (if t' = t \<and> j = i then e else slot (m_cells st) t' j)"
    using slot_write64 [OF tf p(4)] by blast
  note l = leaf [OF trees r p(1-4) t upds]
  have "trees_ok R (m_cells (write64 t i e st)) (free_set st)"
    by (rule trees_ok_same_tables [OF trees l(1) order_refl])
  then show "tables_ok R (write64 t i e st)" using tok by (simp add: tables_ok_def)
  show "r' \<in> R \<Longrightarrow> path q \<Longrightarrow> tables (m_cells (write64 t i e st)) r' q = tables (m_cells st) r' q" by (rule l(1))
  show "translate (write64 t i e st) r virt = Some (e, 0)"
    using l(2) [OF r path_Nil, of r "p @ [i]"] indices_bound [of virt] e p(3) unfolding translate_def v by simp
  assume "r' \<in> R" "(r', indices w) \<noteq> (r, indices virt)"
  then show "translate (write64 t i e st) r' w = translate st r' w"
    using l(2) [OF _ path_Nil, of r' r' "indices w"] indices_bound [of w] v
    by (auto simp: translate_def)
qed

lemma map_page_in_spec:
  assumes ok: "tables_ok R st" and r: "r \<in> R" and priv: "pml4_idx virt \<noteq> 256" "pml4_idx virt \<noteq> 511"
    and d: "map_page_in r virt phys flags st = (res, st')"
  shows "tables_ok R st' \<and>
    (\<forall>r' \<in> R. \<forall>w. (r', indices w) \<noteq> (r, indices virt) \<longrightarrow> translate st' r' w = translate st r' w) \<and>
    (if res then translate st' r virt = Some (phys OR flags OR PTE_PRESENT, 0)
     else translate st' r virt = translate st r virt \<and>
       (free_set st' = {} \<or> (\<exists>e k. translate st r virt = Some (e, Suc k))))"
proof -
  define i4 i3 i2 i1 where "i4 = pml4_idx virt" and "i3 = pdpt_idx virt" and "i2 = pd_idx virt" and "i1 = pt_idx virt"
  have ix: "indices virt = [i4, i3, i2, i1]" by (simp add: indices_def i4_def i3_def i2_def i1_def)
  have b: "i4 < 512" "i3 < 512" "i2 < 512" "i1 < 512" by (simp_all add: i4_def i3_def i2_def i1_def)
  have paths: "path ([] @ [i4])" "path ([i4] @ [i3])" "path ([i4, i3] @ [i2])" "path [i4, i3, i2]"
    using b by (simp_all add: path_def)
  have privs: "private_path ([] @ [i4])" "private_path ([i4] @ [i3])" "private_path ([i4, i3] @ [i2])" "private_path [i4, i3, i2]"
    using priv by (simp_all add: private_path_def i4_def)
  have fail: ?thesis
    if "keeps R st st1" "res = False" "st' = st1" "tables (m_cells st1) r p = Some t" "indices virt = p @ i # j # rest"
      "free_set st1 = {} \<or> (\<exists>e. slot (m_cells st1) t i = e \<and> e AND PTE_PRESENT \<noteq> 0 \<and> e AND PTE_HUGE \<noteq> 0)"
    for st1 p t i j rest
  proof -
    have "free_set st' = {} \<or> (\<exists>e k. translate st r virt = Some (e, Suc k))"
      using that(3,6) huge_on_path [OF that(1) r that(4,5)] by blast
    then show ?thesis using that(1-3) r by (simp add: keeps_def)
  qed
  obtain x1 st1 where d1: "descend r i4 table_flags st = (x1, st1)" by force
  note s1 = descend_spec [OF ok r paths(1) privs(1) tables_Nil d1]
  show ?thesis
  proof (cases x1)
    case None
    then have "res = False" "st' = st1" using d d1 by (simp_all add: map_page_in_def Let_def i4_def)
    then show ?thesis using fail [of st1 "[]" r i4 i3 "[i2, i1]"] s1(1) s1(3) [OF None] ix by simp
  next
    case (Some t3)
    have k1: "keeps R st st1" "tables_ok R st1" using s1(1) by (simp_all add: keeps_def)
    have t3: "tables (m_cells st1) r [i4] = Some t3" using s1(2) [OF Some] by simp
    obtain x2 st2 where d2: "descend t3 i3 table_flags st1 = (x2, st2)" by force
    note s2 = descend_spec [OF k1(2) r paths(2) privs(2) t3 d2]
    have k2: "keeps R st st2" "tables_ok R st2" using keeps_trans [OF k1(1) s2(1)] s2(1) by (simp_all add: keeps_def)
    show ?thesis
    proof (cases x2)
      case None
      then have "res = False" "st' = st2" using d d1 d2 Some by (simp_all add: map_page_in_def Let_def i4_def i3_def)
      then show ?thesis using fail [of st2 "[i4]" t3 i3 i2 "[i1]"] k2(1) s2(3) [OF None] t3 ix by simp
    next
      case x2: (Some t2)
      have t2: "tables (m_cells st2) r [i4, i3] = Some t2" using s2(2) [OF x2] by simp
      obtain x3 st3 where d3: "descend t2 i2 table_flags st2 = (x3, st3)" by force
      note s3 = descend_spec [OF k2(2) r paths(3) privs(3) t2 d3]
      have k3: "keeps R st st3" "tables_ok R st3" using keeps_trans [OF k2(1) s3(1)] s3(1) by (simp_all add: keeps_def)
      show ?thesis
      proof (cases x3)
        case None
        then have "res = False" "st' = st3" using d d1 d2 d3 Some x2
          by (simp_all add: map_page_in_def Let_def i4_def i3_def i2_def)
        then show ?thesis using fail [of st3 "[i4, i3]" t2 i2 i1 "[]"] k3(1) s3(3) [OF None] t2 ix by simp
      next
        case x3: (Some t1)
        have t1: "tables (m_cells st3) r [i4, i3, i2] = Some t1" using s3(2) [OF x3] by simp
        define e where "e = phys OR flags OR PTE_PRESENT"
        have e: "e AND PTE_PRESENT \<noteq> 0" by (simp add: pte_bits(1) e_def bit_or_iff pte_bits)
        have res: "res = True" "st' = write64 t1 i1 e st3" using d d1 d2 d3 Some x2 x3
          by (simp_all add: map_page_in_def Let_def i4_def i3_def i2_def i1_def e_def)
        have ix': "indices virt = [i4, i3, i2] @ [i1]" using ix by simp
        note w = leaf_write [OF k3(2) r paths(4) privs(4) _ b(4) t1 ix' e]
        show ?thesis using w k3(1) res by (auto simp: keeps_def e_def)
      qed
    qed
  qed
qed

lemma descend_frames:
  assumes "pmm_ready (m_pmm st)" "pmm_ok (m_pmm st)" "descend t i fl st = (x, st')"
  shows "pmm_ready (m_pmm st')" "pmm_ok (m_pmm st')" "card (free_set st) \<le> card (free_set st') + 1"
proof -
  have "pmm_ready (m_pmm st') \<and> pmm_ok (m_pmm st') \<and> card (free_set st) \<le> card (free_set st') + 1"
  proof (cases "alloc_frame (m_pmm st)")
    case (Pair y pm)
    show ?thesis
    proof (cases y)
      case None
      then have "pm = m_pmm st"
        using alloc_frame_empty [OF assms(1)] alloc_frame_some [OF assms(1,2)] Pair
        by (cases "free_set st = {}") auto
      then show ?thesis using assms Pair None by (auto simp: descend_def Let_def split: if_splits)
    next
      case (Some a)
      note al = allocated_frame [OF assms(1,2) Pair [unfolded Some]]
      have "card (free_set st) \<le> card (free_pages (frames pm)) + 1" 
        unfolding al(3) by (simp add: card_Diff_singleton_if) arith
      then show ?thesis using assms Pair Some al(4,5) by (auto simp: descend_def Let_def split: if_splits)
    qed
  qed
  then show "pmm_ready (m_pmm st')" "pmm_ok (m_pmm st')" "card (free_set st) \<le> card (free_set st') + 1" by simp_all
qed

lemma map_page_in_frames:
  assumes "pmm_ready (m_pmm st)" "pmm_ok (m_pmm st)" "map_page_in r virt phys flags st = (False, st')" "free_set st' = {}"
  shows "card (free_set st) \<le> 2"
proof -
  obtain x1 st1 where d1: "descend r (pml4_idx virt) table_flags st = (x1, st1)" by force
  note f1 = descend_frames [OF assms(1,2) d1]
  show ?thesis
  proof (cases x1)
    case None
    then show ?thesis using f1(3) assms(3,4) d1 by (simp add: map_page_in_def Let_def)
  next
    case (Some t3)
    obtain x2 st2 where d2: "descend t3 (pdpt_idx virt) table_flags st1 = (x2, st2)" by force
    note f2 = descend_frames [OF f1(1,2) d2]
    show ?thesis
    proof (cases x2)
      case None
      then show ?thesis using f1(3) f2(3) assms(3,4) d1 d2 Some by (simp add: map_page_in_def Let_def)
    next
      case x2: (Some t2)
      obtain x3 st3 where d3: "descend t2 (pd_idx virt) table_flags st2 = (x3, st3)" by force
      then have x3: "x3 = None" "st' = st3"
        using assms(3) d1 d2 Some x2 by (auto simp: map_page_in_def Let_def split: option.splits)
      have "descend t2 (pd_idx virt) table_flags st2 = (None, st3)" using d3 x3 by simp
      then have "st3 = st2 \<or> free_set st3 = free_set st2"
        using alloc_frame_empty [OF f2(1)] alloc_frame_some [OF f2(1,2)]
        by (cases "free_set st2 = {}") (auto simp: descend_def Let_def split: if_splits option.splits prod.splits)
      then show ?thesis using f1(3) f2(3) assms(4) x3 by auto
    qed
  qed
qed

text \<open>
  C6: Mapping a page is an update of one translation, for every address outside the PML4 slots 256
  and 511, whose tables all address spaces share: over any set of address spaces whose tables are well
  formed, \<open>map_page_in\<close> keeps them well formed and leaves every translation of every
  other page, in this and in every other address space, as it was; when it answers true the page
  translates to the given frame and flags, and when it answers false nothing is mapped and either
  at most two frames were free or the address already lies in a huge page.
\<close>

theorem vmm_map_page_in:
  assumes "tables_ok R st" "r \<in> R" "pml4_idx virt \<noteq> 256" "pml4_idx virt \<noteq> 511"
    "map_page_in r virt phys flags st = (res, st')"
  shows "tables_ok R st' \<and>
    (\<forall>r' \<in> R. \<forall>w. (r', indices w) \<noteq> (r, indices virt) \<longrightarrow> translate st' r' w = translate st r' w) \<and>
    (if res then translate st' r virt = Some (phys OR flags OR PTE_PRESENT, 0)
     else translate st' r virt = translate st r virt \<and>
       (card (free_set st) \<le> 2 \<or> (\<exists>e k. translate st r virt = Some (e, Suc k))))"
  using map_page_in_spec [OF assms] map_page_in_frames [of st r virt phys flags st'] assms(1,5)
  by (cases res) (auto simp: tables_ok_def)

definition sample_mask :: u64 where "sample_mask = push_bit 1 (mask 4)"

definition sample_mmu :: mmu where
  "sample_mmu = \<lparr>m_cells = (\<lambda>_. 0), m_cr3 = 0x10000, m_physmap = True, m_boot_cr3 = 0x10000,
     m_pmm = \<lparr>frames = (\<lambda>i. if i = 0 then sample_mask else 0), free_count = 4, total_count = 16, pmm_ready = True\<rparr>\<rparr>"

lemma sample_free: "free_set sample_mmu = {1, 2, 3, 4}"
proof -
  have b: "bit sample_mask k \<longleftrightarrow> k \<in> {1, 2, 3, 4}" for k
    unfolding sample_mask_def bit_push_bit_iff bit_mask_iff by auto
  have z: "q div 64 = 0 \<longleftrightarrow> q < 64" for q :: nat by auto
  have "q \<in> free_set sample_mmu \<longleftrightarrow> q \<in> {1, 2, 3, 4}" for q
    unfolding sample_mmu_def free_pages_def is_free_bit mem_Collect_eq
    using b [of "q mod 64"] by (cases "q div 64 = 0") (auto simp: page_consts z)
  then show ?thesis by blast
qed

lemma sample_tables_ok: "tables_ok {0x10000} sample_mmu"
proof -
  have c: "m_cells sample_mmu = (\<lambda>_. 0)" by (simp add: sample_mmu_def)
  have t: "tables (\<lambda>_. 0) r p = (if p = [] then Some r else None)" for r p
    by (induction p rule: rev_induct) (auto simp: tables_snoc slot_def child_def)
  have fr: "is_frame 0x10000" unfolding is_frame_def by (rule exI [of _ 16]) (simp add: page_consts)
  have "trees_ok {0x10000} (m_cells sample_mmu) (free_set sample_mmu)"
    unfolding c sample_free trees_ok_def t using fr by auto
  moreover have "pmm_ok (m_pmm sample_mmu)" "pmm_ready (m_pmm sample_mmu)"
    using sample_free by (simp_all add: pmm_ok_def) (simp_all add: sample_mmu_def)
  ultimately show ?thesis by (simp add: tables_ok_def)
qed

lemma vmm_map_page_in_witness:
  "\<exists>st'. map_page_in 0x10000 0x400000 0x5000 PTE_USER sample_mmu = (True, st') \<and> tables_ok {0x10000} st' \<and>
     translate st' 0x10000 0x400000 = Some (0x5000 OR PTE_USER OR PTE_PRESENT, 0)"
proof -
  obtain res st' where d: "map_page_in 0x10000 0x400000 0x5000 PTE_USER sample_mmu = (res, st')" by force
  have p: "pml4_idx 0x400000 \<noteq> 256" "pml4_idx 0x400000 \<noteq> 511" by (simp_all add: pml4_idx_def)
  have "translate sample_mmu 0x10000 0x400000 = None"
    by (simp add: translate_def indices_def sample_mmu_def slot_def)
  moreover have "card (free_set sample_mmu) = 4" unfolding sample_free by simp
  ultimately have "res" using vmm_map_page_in [OF sample_tables_ok singletonI p d] by (auto split: if_splits)
  then show ?thesis using vmm_map_page_in [OF sample_tables_ok singletonI p d] d by auto
qed

section \<open>A private address space\<close>

lemma tables_Cons: "tables m r (i # q) = (case child (slot m r i) of None \<Rightarrow> None | Some s \<Rightarrow> tables m s q)"
proof (induction q rule: rev_induct)
  case Nil
  then show ?case using tables_snoc [of m r "[]" i] by (simp split: option.splits)
next
  case (snoc j q)
  then show ?case using tables_snoc [of m r "i # q" j] by (simp add: tables_snoc split: option.splits)
qed

lemma walk_same_root:
  assumes "slot m r' i = slot m r i" "rest \<noteq> []"
  shows "walk m r' (i # rest) = walk m r (i # rest)"
  using assms by (cases rest) simp_all

text \<open>What the six writes of \<open>new_address_space_private\<close> leave in memory.\<close>

lemma private_slots:
  assumes ok: "tables_ok R st" and c: "cr3 st \<in> R" and n: "new_address_space_private st = (Some f, st')"
  shows "is_frame f" "unat f div 4096 \<in> free_set st" "pmm_ready (m_pmm st')" "pmm_ok (m_pmm st')"
    "free_set st' = free_set st - {unat f div 4096}"
    "is_frame t \<Longrightarrow> j < 512 \<Longrightarrow> slot (m_cells st') t j =
       (if t = f then if j = 256 \<or> j = 511 then slot (m_cells st) (cr3 st) j else 0 else slot (m_cells st) t j)"
proof -
  note tok = ok [unfolded tables_ok_def]
  have trees: "trees_ok R (m_cells st) (free_set st)" using tok by simp
  have cf: "is_frame (cr3 st)" "unat (cr3 st) div 4096 \<notin> free_set st"
    using trees_okD [OF trees c path_Nil, of "cr3 st"] by simp_all
  obtain a pm where al: "alloc_frame (m_pmm st) = (Some a, pm)" and f: "f = of_nat a"
    using n by (auto simp: new_address_space_private_def Let_def split: prod.splits option.splits)
  note fr = allocated_frame [OF tok [THEN conjunct1] tok [THEN conjunct2, THEN conjunct1] al, folded f]
  define z where "z = zero_frame f (st\<lparr>m_pmm := pm\<rparr>)"
  have cz: "cr3 z = cr3 st" by (simp add: z_def cr3_def zero_frame_def)
  define y where "y = write64 f 256 (read64 z (cr3 st) 256) z"
  have st': "st' = write64 f 511 (read64 y (cr3 st) 511) y"
    using n by (auto simp: new_address_space_private_def al f [symmetric] cz Let_def y_def z_def [symmetric])
  have ne: "cr3 st \<noteq> f" using cf(2) fr(2) by auto
  have sz: "slot (m_cells z) t j = (if t = f then 0 else slot (m_cells st) t j)" if "is_frame t" "j < 512" for t j
    unfolding z_def using slot_zero_frame [OF fr(1) that] by simp
  have sy: "slot (m_cells y) t j = (if t = f \<and> j = 256 then slot (m_cells st) (cr3 st) 256 else slot (m_cells z) t j)"
    if "is_frame t" "j < 512" for t j
    unfolding y_def using slot_write64 [OF fr(1) _ that, of 256] read64_slot [OF cf(1), of 256 z] sz [OF cf(1), of 256] ne by simp
  have "slot (m_cells st') t j = (if t = f \<and> j = 511 then slot (m_cells st) (cr3 st) 511 else slot (m_cells y) t j)"
    if "is_frame t" "j < 512" for t j
    unfolding st' using slot_write64 [OF fr(1) _ that, of 511] read64_slot [OF cf(1), of 511 y]
      sy [OF cf(1), of 511] sz [OF cf(1), of 511] ne by simp
  then show "is_frame t \<Longrightarrow> j < 512 \<Longrightarrow> slot (m_cells st') t j =
       (if t = f then if j = 256 \<or> j = 511 then slot (m_cells st) (cr3 st) j else 0 else slot (m_cells st) t j)"
    using sy sz by auto
  have pm: "m_pmm st' = pm" by (simp add: st' y_def z_def)
  show "is_frame f" "unat f div 4096 \<in> free_set st" "pmm_ready (m_pmm st')" "pmm_ok (m_pmm st')"
    "free_set st' = free_set st - {unat f div 4096}" using fr pm by simp_all
qed

lemma private_space:
  assumes ok: "tables_ok R st" and c: "cr3 st \<in> R" and n: "new_address_space_private st = (Some f, st')"
  shows "f \<notin> R" "tables_ok (insert f R) st'"
    "r \<in> R \<Longrightarrow> translate st' r v = translate st r v"
    "translate st' f v = (if pml4_idx v = 256 \<or> pml4_idx v = 511 then translate st (cr3 st) v else None)"
proof -
  define m m' k where "m = m_cells st" and "m' = m_cells st'" and "k = cr3 st"
  note ps = private_slots [OF ok c n, folded m_def m'_def k_def]
  have trees: "trees_ok R m (free_set st)" using ok by (simp add: tables_ok_def m_def)
  have kR: "k \<in> R" using c by (simp add: k_def)
  have unused: "tables m r q \<noteq> Some f" if "r \<in> R" "path q" for r q
    using trees_okD(2) [OF trees that] ps(2) by auto
  show fR: "f \<notin> R" using unused [OF _ path_Nil, of f] by auto
  have kf: "k \<noteq> f" "is_frame k" using kR fR trees_okD(1) [OF trees kR path_Nil, of k] by auto
  have upds: "\<forall>t' j. is_frame t' \<longrightarrow> j < 512 \<longrightarrow> t' \<noteq> f \<longrightarrow> slot m' t' j = slot m t' j" using ps(6) by simp
  note ff = fresh_frame [OF trees ps(2) upds]
  have root: "slot m' f j = (if j = 256 \<or> j = 511 then slot m' k j else 0)" if "j < 512" for j
    using ps(6) [OF ps(1) that] ps(6) [OF kf(2) that] kf(1) by simp
  have newtab: "tables m' f q = (case q of [] \<Rightarrow> Some f | i # _ \<Rightarrow> if i = 256 \<or> i = 511 then tables m k q else None)"
    if "path q" for q
  proof (cases q)
    case (Cons i q')
    have "i < 512" using that Cons by (simp add: path_def)
    then have "tables m' f q = (if i = 256 \<or> i = 511 then tables m' k q else None)"
      using root [of i] by (auto simp: Cons tables_Cons child_def)
    then show ?thesis using ff(1) [OF kR that] Cons by simp
  qed simp
  have old: "tables m' r q = tables m r q" if "r \<in> R" "path q" for r q using ff(1) [OF that] .
  have trees': "trees_ok (insert f R) m' (free_set st')"
    unfolding trees_ok_def
  proof (intro conjI ballI allI impI)
    fix r p t assume a: "r \<in> insert f R" "path p \<and> tables m' r p = Some t"
    have "(r = f \<and> t = f) \<or> (\<exists>r0 \<in> R. tables m r0 p = Some t)"
      using a newtab [of p] old [of r p] kR by (cases "r = f") (auto split: list.splits if_splits)
    then show "is_frame t" "unat t div 4096 \<notin> free_set st'"
      using ps(1,5) trees_okD [OF trees, of _ p t] a(2) by auto
  next
    fix r r' p p' t
    assume a: "r \<in> insert f R" "r' \<in> insert f R"
      "path p \<and> path p' \<and> private_path p \<and> tables m' r p = Some t \<and> tables m' r' p' = Some t"
    have cases: "(r0 = f \<and> q = [] \<and> t = f) \<or> (r0 = f \<and> \<not> private_path q \<and> tables m k q = Some t \<and> t \<noteq> f)
        \<or> (r0 \<in> R \<and> tables m r0 q = Some t \<and> t \<noteq> f)"
      if "r0 \<in> insert f R" "path q" "tables m' r0 q = Some t" for r0 q
    proof (cases "r0 = f")
      case True
      then show ?thesis using that(3) newtab [OF that(2)] unused [OF kR that(2)]
        by (auto simp: private_path_def split: list.splits if_splits)
    next
      case False
      then show ?thesis using that old [of r0 q] unused [of r0 q] by auto
    qed
    have "r = r' \<and> p = p'"
      using cases [OF a(1), of p] cases [OF a(2), of p'] a(3)
        trees_ok_inj [OF trees, of r r' p p' t] trees_ok_inj [OF trees _ kR, of r p p' t] by blast
    then show "r = r'" "p = p'" by simp_all
  qed
  then show "tables_ok (insert f R) st'" using ps(3,4) by (simp add: tables_ok_def m'_def)
  have tr: "translate st' r v = translate st r v" if "r \<in> R" for r v
    using ff(2) [OF that path_Nil, of r "indices v"] indices_bound [of v]
    by (simp add: translate_def m_def m'_def)
  then show "r \<in> R \<Longrightarrow> translate st' r v = translate st r v" .
  show "translate st' f v = (if pml4_idx v = 256 \<or> pml4_idx v = 511 then translate st (cr3 st) v else None)"
  proof (cases "pml4_idx v = 256 \<or> pml4_idx v = 511")
    case True
    then have "slot m' f (pml4_idx v) = slot m' k (pml4_idx v)" using root [of "pml4_idx v"] by simp
    then have "translate st' f v = translate st' k v"
      unfolding translate_def indices_def m'_def [symmetric] by (rule walk_same_root) simp
    then show ?thesis using tr [OF kR] True by (simp add: k_def)
  next
    case False
    then have "slot m' f (pml4_idx v) = 0" using root [of "pml4_idx v"] by simp
    then show ?thesis using False by (simp add: translate_def indices_def m'_def)
  qed
qed

text \<open>
  C17: A private address space starts with nothing of a user in it: from well-formed tables of which
  the running one is a member, \<open>new_address_space_private\<close> adds a root that is none of the others,
  in which only the addresses of the kernel's upper entries (256 and 511) translate, and as they do
  in the running space; every translation of every other space is as before, and the tables of all
  of them together are well formed. It fails, and changes nothing, only when no frame is free.
\<close>

theorem vmm_private_space:
  assumes "tables_ok R st" "cr3 st \<in> R" "new_address_space_private st = (x, st')"
  shows "case x of
      None \<Rightarrow> free_set st = {} \<and> st' = st
    | Some r' \<Rightarrow> r' \<notin> R \<and> tables_ok (insert r' R) st' \<and>
        (\<forall>v. translate st' r' v = (if pml4_idx v = 256 \<or> pml4_idx v = 511 then translate st (cr3 st) v else None)) \<and>
        (\<forall>r \<in> R. \<forall>v. translate st' r v = translate st r v)"
proof (cases x)
  case None
  have "pmm_ready (m_pmm st)" "pmm_ok (m_pmm st)" using assms(1) by (simp_all add: tables_ok_def)
  note al = alloc_frame_some [OF this] alloc_frame_empty [OF this(1)]
  obtain y pm where y: "alloc_frame (m_pmm st) = (y, pm)" by force
  have "y = None" "st' = st\<lparr>m_pmm := pm\<rparr>" using y None assms(3)
    by (cases y; simp add: new_address_space_private_def Let_def)+
  moreover from this(1) have "free_set st = {}" using al(1) y by auto
  moreover from this have "pm = m_pmm st" using al(2) y by simp
  ultimately show ?thesis using None by simp
next
  case (Some r')
  have n: "new_address_space_private st = (Some r', st')" using assms(3) Some by simp
  show ?thesis using private_space [OF assms(1,2) n] Some by auto
qed

lemma vmm_private_space_witness:
  "\<exists>r st'. new_address_space_private sample_mmu = (Some r, st') \<and> tables_ok {r, 0x10000} st' \<and> translate st' r 0x1000 = None"
proof -
  obtain x st' where n: "new_address_space_private sample_mmu = (x, st')" by force
  have k: "cr3 sample_mmu = 0x10000" by (simp add: cr3_def sample_mmu_def)
  have c: "cr3 sample_mmu \<in> {0x10000}" unfolding k by simp
  have i: "pml4_idx 0x1000 = 0" by (simp add: pml4_idx_def)
  note t = vmm_private_space [OF sample_tables_ok c n]
  have "x \<noteq> None" using t sample_free by (cases x) simp_all
  then obtain r where x: "x = Some r" by blast
  have "tables_ok {r, 0x10000} st'" "translate st' r 0x1000 = None" using t i unfolding x by simp_all
  then show ?thesis using n x by blast
qed

end
