(* ===== verification/Net.thy ===== *)
theory Net
  imports Prelude
begin

text \<open>
  Packets of the network stack, kernel/src/net.rs: the Internet checksum, building and reading
  Ethernet frames with ARP, ICMP, DHCP, UDP and TCP in them, DNS messages. A frame received is the
  list of its bytes (\<open>rx[..len]\<close>), a frame sent is what the code writes into its buffer; None
  stands for a panic where a builder can run past the buffer. Port and length fields are natural
  numbers split into their two bytes, sequence numbers are \<open>u32\<close> words.
\<close>

unbundle bit_operations_syntax

section \<open>Fields\<close>

text \<open>\<open>u16::from_be_bytes([xs[i], xs[i + 1]])\<close> and \<open>[(v >> 8) as u8, v as u8]\<close>.\<close>

definition be16_at :: "bytes \<Rightarrow> nat \<Rightarrow> nat" where
  "be16_at xs i = unat (xs ! i) * 256 + unat (xs ! (i + 1))"

definition put16 :: "bytes \<Rightarrow> nat \<Rightarrow> nat \<Rightarrow> bytes" where
  "put16 f i v = f[i := of_nat (v div 256), i + 1 := of_nat v]"

definition be32_at :: "bytes \<Rightarrow> nat \<Rightarrow> u32" where
  "be32_at xs i = of_nat (nat_of_be (slice xs i (i + 4)))"

definition OUR_IP :: bytes where "OUR_IP = [10, 0, 2, 15]"
definition GW_IP :: bytes where "GW_IP = [10, 0, 2, 2]"
definition DNS_IP :: bytes where "DNS_IP = [10, 0, 2, 3]"
definition BCAST :: bytes where "BCAST = replicate 6 0xFF"
definition ETHERTYPE_ARP :: nat where "ETHERTYPE_ARP = 0x0806"
definition ETHERTYPE_IP :: nat where "ETHERTYPE_IP = 0x0800"
definition PROTO_ICMP :: byte where "PROTO_ICMP = 1"
definition PROTO_UDP :: byte where "PROTO_UDP = 17"
definition PROTO_TCP :: byte where "PROTO_TCP = 6"
definition OUR_PORT :: nat where "OUR_PORT = 49152"
definition DNS_PORT :: nat where "DNS_PORT = 53"
definition OUR_DNS_PORT :: nat where "OUR_DNS_PORT = 49153"
definition TCP_FIN :: byte where "TCP_FIN = 0x01"
definition TCP_SYN :: byte where "TCP_SYN = 0x02"
definition TCP_RST :: byte where "TCP_RST = 0x04"
definition TCP_PSH :: byte where "TCP_PSH = 0x08"
definition TCP_ACK :: byte where "TCP_ACK = 0x10"
definition TCP_MSS :: nat where "TCP_MSS = 1460"
definition DHCP_XID :: bytes where "DHCP_XID = [57, 3, 243, 38]"

section \<open>The Internet checksum\<close>

text \<open>The loop over pairs of bytes, with \<open>u32\<close> additions.\<close>

fun sum16 :: "nat \<Rightarrow> bytes \<Rightarrow> nat" where
  "sum16 s [] = s"
| "sum16 s [a] = u32_add s (unat a * 256)"
| "sum16 s (a # b # xs) = sum16 (u32_add s (unat a * 256 + unat b)) xs"

text \<open>\<open>while sum >> 16 != 0 { sum = (sum & 0xFFFF) + (sum >> 16) }\<close>\<close>

function fold_carry :: "nat \<Rightarrow> nat" where
  "fold_carry s = (if s div 65536 = 0 then s else fold_carry (s mod 65536 + s div 65536))"
  by auto
termination
proof (relation "measure id")
  fix s :: nat assume q: "s div 65536 \<noteq> 0"
  have "s = s div 65536 * 65536 + s mod 65536" by (rule div_mult_mod_eq [symmetric])
  then show "(s mod 65536 + s div 65536, s) \<in> measure id" using q unfolding in_measure id_apply by linarith
qed simp

declare fold_carry.simps [simp del]

definition inet_checksum :: "bytes \<Rightarrow> nat" where
  "inet_checksum dat = 65535 - fold_carry (sum16 0 dat)"

definition tcp_checksum :: "bytes \<Rightarrow> bytes \<Rightarrow> bytes \<Rightarrow> nat" where
  "tcp_checksum src dst seg =
     (let sum = u32_add 0 (be16_at src 0); sum = u32_add sum (be16_at src 2);
          sum = u32_add sum (be16_at dst 0); sum = u32_add sum (be16_at dst 2);
          sum = u32_add sum (unat PROTO_TCP); sum = u32_add sum (length seg mod 4294967296)
      in 65535 - fold_carry (sum16 sum seg))"

section \<open>ARP\<close>

definition build_arp_request :: "bytes \<Rightarrow> bytes \<Rightarrow> bytes \<Rightarrow> bytes" where
  "build_arp_request frame src_mac target_ip =
     (let f = blit (blit frame 0 BCAST) 6 src_mac;
          f = put16 f 12 ETHERTYPE_ARP;
          f = blit f 14 [0, 1, 8, 0, 6, 4, 0, 1];
          f = blit f 22 src_mac;
          f = blit f 28 OUR_IP
      in blit f 38 target_ip)"

definition arp_reply :: "bytes \<Rightarrow> bytes \<Rightarrow> bytes option" where
  "arp_reply target_ip rx =
     (if 42 \<le> length rx \<and> rx ! 12 = 0x08 \<and> rx ! 13 = 0x06 \<and> rx ! 20 = 0 \<and> rx ! 21 = 2 \<and> slice rx 28 32 = target_ip
      then Some (slice rx 22 28) else None)"

section \<open>ICMP echo\<close>

definition icmp_echo :: "bytes \<Rightarrow> bytes \<Rightarrow> bytes" where
  "icmp_echo gw_mac mac =
     (let f = blit (blit (replicate 74 0) 0 gw_mac) 6 mac;
          f = put16 f 12 ETHERTYPE_IP;
          f = put16 (f[14 := 0x45]) 16 60;
          f = f[20 := 0x40, 22 := 64, 23 := PROTO_ICMP];
          f = blit (blit f 26 OUR_IP) 30 GW_IP;
          f = put16 f 24 (inet_checksum (slice f 14 34));
          f = put16 (put16 (f[34 := 8]) 38 0x1234) 40 1;
          f = blit f 42 (map (\<lambda>i. of_nat (97 + i mod 26)) [0..<32])
      in put16 f 36 (inet_checksum (slice f 34 74)))"

definition icmp_reply :: "bytes \<Rightarrow> unit option" where
  "icmp_reply rx =
     (if 42 \<le> length rx \<and> rx ! 12 = 0x08 \<and> rx ! 13 = 0x00 \<and> rx ! 23 = PROTO_ICMP \<and> rx ! 34 = 0 \<and>
         slice rx 26 30 = GW_IP \<and> rx ! 38 = 0x12 \<and> rx ! 39 = 0x34
      then Some () else None)"

section \<open>DHCP\<close>

definition build_dhcp :: "bytes \<Rightarrow> bytes \<Rightarrow> byte \<Rightarrow> bytes option \<Rightarrow> bytes option \<Rightarrow> bytes \<times> nat" where
  "build_dhcp f mac msg_type req_ip server_id =
     (let f = replicate (length f) 0;
          f = (blit (blit f 0 BCAST) 6 mac)[12 := 0x08, 13 := 0x00];
          d = 42;
          f = f[d := 1, d + 1 := 1, d + 2 := 6];
          f = (blit f (d + 4) DHCP_XID)[d + 10 := 0x80];
          f = (blit f (d + 28) mac)[d + 236 := 0x63, d + 237 := 0x82, d + 238 := 0x53, d + 239 := 0x63];
          n = d + 240;
          f = f[n := 53, n + 1 := 1, n + 2 := msg_type];
          n = n + 3;
          (f, n) = (case req_ip of Some ip \<Rightarrow> (blit (f[n := 50, n + 1 := 4]) (n + 2) ip, n + 6) | None \<Rightarrow> (f, n));
          (f, n) = (case server_id of Some s \<Rightarrow> (blit (f[n := 54, n + 1 := 4]) (n + 2) s, n + 6) | None \<Rightarrow> (f, n));
          f = blit f n [55, 4, 1, 3, 6, 15];
          n = n + 6;
          f = f[n := 255];
          n = n + 1;
          dhcp_len = n - d;
          f = f[34 := 0, 35 := 68, 36 := 0, 37 := 67];
          f = put16 f 38 (8 + dhcp_len);
          total_len = 20 + 8 + dhcp_len;
          f = put16 (f[14 := 0x45]) 16 total_len;
          f = f[22 := 64, 23 := PROTO_UDP, 30 := 255, 31 := 255, 32 := 255, 33 := 255]
      in (put16 f 24 (inet_checksum (slice f 14 34)), 14 + total_len))"

function dhcp_opt_from :: "bytes \<Rightarrow> byte \<Rightarrow> nat \<Rightarrow> bytes option" where
  "dhcp_opt_from opts code i =
     (if i < length opts then
        if opts ! i = 255 then None
        else if opts ! i = 0 then dhcp_opt_from opts code (i + 1)
        else if length opts \<le> i + 1 then None
        else let len = unat (opts ! (i + 1))
             in if length opts < i + 2 + len then None
                else if opts ! i = code then Some (slice opts (i + 2) (i + 2 + len))
                else dhcp_opt_from opts code (i + (2 + len))
      else None)"
  by auto
termination by (relation "measure (\<lambda>(opts, code, i). length opts - i)") auto

declare dhcp_opt_from.simps [simp del]

definition dhcp_opt :: "bytes \<Rightarrow> byte \<Rightarrow> bytes option" where
  "dhcp_opt opts code = dhcp_opt_from opts code 0"

definition parse_dhcp :: "bytes \<Rightarrow> byte \<Rightarrow> (bytes \<times> bytes) option" where
  "parse_dhcp rx want_type =
     (if length rx < 282 then None
      else if \<not> (rx ! 12 = 0x08 \<and> rx ! 13 = 0x00 \<and> rx ! 23 = PROTO_UDP) then None
      else if \<not> (rx ! 34 = 0 \<and> rx ! 35 = 67 \<and> rx ! 36 = 0 \<and> rx ! 37 = 68) then None
      else if rx ! 42 \<noteq> 2 then None
      else if slice rx 46 50 \<noteq> DHCP_XID then None
      else if \<not> (rx ! 278 = 0x63 \<and> rx ! 279 = 0x82) then None
      else (let opts = drop 282 rx
            in case dhcp_opt opts 53 of
                 None \<Rightarrow> None
               | Some mt \<Rightarrow>
                   if mt = [] \<or> mt ! 0 \<noteq> want_type then None
                   else Some (slice rx 58 62,
                              (case dhcp_opt opts 54 of
                                 Some s \<Rightarrow> if length s = 4 then s else replicate 4 0
                               | None \<Rightarrow> replicate 4 0))))"

section \<open>The IPv4 header\<close>

text \<open>The same statements in \<open>build_tcp\<close> and \<open>build_udp\<close>: the header at offset 14 and its checksum.\<close>

definition ipv4_header :: "bytes \<Rightarrow> nat \<Rightarrow> byte \<Rightarrow> bytes \<Rightarrow> bytes \<Rightarrow> bytes" where
  "ipv4_header f total_len proto src_ip dst_ip =
     (let f = put16 (f[14 := 0x45]) 16 total_len;
          f = f[20 := 0x40, 22 := 64, 23 := proto];
          f = blit (blit f 26 src_ip) 30 dst_ip
      in put16 f 24 (inet_checksum (slice f 14 34)))"

section \<open>TCP\<close>

definition tcp_fields :: "bytes \<Rightarrow> bytes \<Rightarrow> bytes \<Rightarrow> nat \<Rightarrow> u32 \<Rightarrow> u32 \<Rightarrow> byte \<Rightarrow> bytes \<Rightarrow> bytes" where
  "tcp_fields f dst_mac src_mac dport sq ack flags payload =
     (let f = replicate (length f) 0;
          f = (blit (blit f 0 dst_mac) 6 src_mac)[12 := 0x08, 13 := 0x00];
          t = 34;
          f = put16 (put16 f t OUR_PORT) (t + 2) dport;
          f = blit (blit f (t + 4) (be_of_nat 4 (unat sq))) (t + 8) (be_of_nat 4 (unat ack));
          f = f[t + 12 := 0x50, t + 13 := flags, t + 14 := 0x20, t + 15 := 0x00]
      in blit f (t + 20) payload)"

definition build_tcp ::
  "bytes \<Rightarrow> bytes \<Rightarrow> bytes \<Rightarrow> bytes \<Rightarrow> bytes \<Rightarrow> nat \<Rightarrow> u32 \<Rightarrow> u32 \<Rightarrow> byte \<Rightarrow> bytes \<Rightarrow> (bytes \<times> nat) option" where
  "build_tcp f dst_mac src_mac src_ip dst_ip dport sq ack flags payload =
     (if length f < 54 + length payload then None
      else let f = tcp_fields f dst_mac src_mac dport sq ack flags payload;
               tcp_len = 20 + length payload;
               f = put16 f 50 (tcp_checksum src_ip dst_ip (slice f 34 (34 + tcp_len)));
               total_len = (20 + tcp_len) mod 65536
           in Some (ipv4_header f total_len PROTO_TCP src_ip dst_ip, 14 + total_len))"

definition parse_tcp :: "bytes \<Rightarrow> (u32 \<times> u32 \<times> byte \<times> nat \<times> nat) option" where
  "parse_tcp rx =
     (if length rx < 54 then None
      else if \<not> (rx ! 12 = 0x08 \<and> rx ! 13 = 0x00 \<and> rx ! 23 = PROTO_TCP) then None
      else if \<not> (rx ! 36 = of_nat (OUR_PORT div 256) \<and> rx ! 37 = of_nat OUR_PORT) then None
      else let sq = be32_at rx 38; ackn = be32_at rx 42; flags = rx ! 47;
               data_off = unat (drop_bit 4 (rx ! 46)) * 4;
               poff = 34 + data_off;
               ip_total = be16_at rx 16;
               seg_end = min (14 + ip_total) (length rx)
           in Some (sq, ackn, flags, poff, seg_end - poff))"

section \<open>UDP\<close>

definition udp_fields :: "bytes \<Rightarrow> bytes \<Rightarrow> bytes \<Rightarrow> nat \<Rightarrow> nat \<Rightarrow> bytes \<Rightarrow> bytes" where
  "udp_fields f dst_mac src_mac sport dport payload =
     (let f = replicate (length f) 0;
          f = (blit (blit f 0 dst_mac) 6 src_mac)[12 := 0x08, 13 := 0x00];
          u = 34;
          f = put16 (put16 f u sport) (u + 2) dport;
          f = put16 f (u + 4) (8 + length payload)
      in blit f (u + 8) payload)"

definition build_udp ::
  "bytes \<Rightarrow> bytes \<Rightarrow> bytes \<Rightarrow> bytes \<Rightarrow> bytes \<Rightarrow> nat \<Rightarrow> nat \<Rightarrow> bytes \<Rightarrow> (bytes \<times> nat) option" where
  "build_udp f dst_mac src_mac src_ip dst_ip sport dport payload =
     (if length f < 42 + length payload then None
      else let f = udp_fields f dst_mac src_mac sport dport payload;
               total_len = (20 + 8 + length payload) mod 65536
           in Some (ipv4_header f total_len PROTO_UDP src_ip dst_ip, 14 + total_len))"

definition parse_udp_payload :: "bytes \<Rightarrow> nat \<Rightarrow> nat \<Rightarrow> (nat \<times> nat) option" where
  "parse_udp_payload rx want_sport want_dport =
     (if length rx < 42 then None
      else if \<not> (rx ! 12 = 0x08 \<and> rx ! 13 = 0x00 \<and> rx ! 23 = PROTO_UDP) then None
      else if be16_at rx 34 \<noteq> want_sport \<or> be16_at rx 36 \<noteq> want_dport then None
      else let poff = 42 in Some (poff, min (be16_at rx 38 - 8) (length rx - poff)))"

section \<open>DNS\<close>

text \<open>\<open>str::split\<close>: the pieces between separators, at least one.\<close>

fun split_on :: "'a \<Rightarrow> 'a list \<Rightarrow> 'a list list" where
  "split_on c [] = [[]]"
| "split_on c (x # xs) =
     (if x = c then [] # split_on c xs
      else (case split_on c xs of p # ps \<Rightarrow> (x # p) # ps | [] \<Rightarrow> [[x]]))"

fun put_labels :: "bytes \<Rightarrow> nat \<Rightarrow> bytes list \<Rightarrow> bytes \<times> nat" where
  "put_labels buf p [] = (buf, p)"
| "put_labels buf p (l # ls) =
     (if l = [] \<or> 63 < length l \<or> length buf \<le> p + 1 + length l then (buf, p)
      else put_labels (blit (buf[p := of_nat (length l)]) (p + 1) l) (p + 1 + length l) ls)"

text \<open>None is the panic of an index past the end of the buffer.\<close>

definition build_dns_query :: "bytes \<Rightarrow> bytes \<Rightarrow> nat \<Rightarrow> (bytes \<times> nat) option" where
  "build_dns_query buf domain txid =
     (if length buf < 12 then None
      else let buf = put16 buf 0 txid;
               buf = blit buf 2 [1, 0, 0, 1, 0, 0, 0, 0, 0, 0];
               (buf, p) = put_labels buf 12 (split_on 46 domain)
           in if length buf < p + 5 then None
              else Some (blit buf p [0, 0, 1, 0, 1], p + 5))"

function dns_skip_name :: "bytes \<Rightarrow> nat \<Rightarrow> nat option" where
  "dns_skip_name msg p =
     (if length msg \<le> p then None
      else let len = msg ! p
           in if len = 0 then Some (p + 1)
              else if len AND 0xC0 = 0xC0 then Some (p + 2)
              else dns_skip_name msg (p + (1 + unat len)))"
  by auto
termination by (relation "measure (\<lambda>(msg, p). length msg - p)") auto

declare dns_skip_name.simps [simp del]

fun dns_skip_questions :: "bytes \<Rightarrow> nat \<Rightarrow> nat \<Rightarrow> nat option" where
  "dns_skip_questions msg 0 p = Some p"
| "dns_skip_questions msg (Suc qd) p =
     (case dns_skip_name msg p of None \<Rightarrow> None | Some p \<Rightarrow> dns_skip_questions msg qd (p + 4))"

fun dns_answers :: "bytes \<Rightarrow> nat \<Rightarrow> nat \<Rightarrow> bytes option" where
  "dns_answers msg 0 p = None"
| "dns_answers msg (Suc an) p =
     (case dns_skip_name msg p of
        None \<Rightarrow> None
      | Some p \<Rightarrow>
          if length msg < p + 10 then None
          else let rtype = be16_at msg p; rdlen = be16_at msg (p + 8); p = p + 10
               in if rtype = 1 \<and> rdlen = 4 \<and> p + 4 \<le> length msg then Some (slice msg p (p + 4))
                  else dns_answers msg an (p + rdlen))"

definition parse_dns_a :: "bytes \<Rightarrow> nat \<Rightarrow> bytes option" where
  "parse_dns_a msg txid =
     (if length msg < 12 then None
      else if msg ! 0 \<noteq> of_nat (txid div 256) \<or> msg ! 1 \<noteq> of_nat txid then None
      else if msg ! 2 AND 0x80 = 0 then None
      else let qd = be16_at msg 4; an = be16_at msg 6
           in if an = 0 then None
              else (case dns_skip_questions msg qd 12 of None \<Rightarrow> None | Some p \<Rightarrow> dns_answers msg an p))"

end
