(* ===== verification/Net_Conn.thy ===== *)
theory Net_Conn
  imports Net "HOL-Library.Monad_Syntax"
begin

text \<open>
  The stateful part of kernel/src/net.rs: resolving addresses, the ping, the DHCP exchange, name
  lookup, the one-shot HTTP client, \<open>TcpConn\<close> and \<open>http_get\<close> with its redirects. The network card
  is the record's \<open>polls\<close>, what each poll of it will answer in turn (nothing once they are used up),
  and \<open>sent\<close>, the frames given to it. The bounded waiting loops of the source are \<open>poll_until\<close>.
  The outer option of a result is a panic of the kernel.
\<close>

unbundle bit_operations_syntax

record net =
  nic_mac :: "bytes option"
  polls :: "bytes option list"
  sent :: "bytes list"
  net_up :: bool
  gw_mac :: "bytes option"
  dns_mac :: "bytes option"
  trust :: int

definition nic_send :: "bytes \<Rightarrow> net \<Rightarrow> net" where
  "nic_send frame st = st\<lparr>sent := sent st @ [frame]\<rparr>"

definition set_trust :: "int \<Rightarrow> net \<Rightarrow> net" where
  "set_trust t st = st\<lparr>trust := t\<rparr>"

definition last_fetch_trust :: "net \<Rightarrow> int" where
  "last_fetch_trust st = trust st"

definition net_info :: "net \<Rightarrow> bool \<times> bytes \<times> bytes \<times> bytes \<times> bytes" where
  "net_info st = (net_up st, (case nic_mac st of Some m \<Rightarrow> m | None \<Rightarrow> replicate 6 0), OUR_IP, GW_IP, DNS_IP)"

text \<open>
  \<open>for _ in 0..n { if let Some(len) = nic.poll_rx(&mut rx) { ... } }\<close> with a receive buffer of
  \<open>cap\<close> bytes: the first frame \<open>f\<close> accepts.
\<close>

fun poll_until :: "nat \<Rightarrow> nat \<Rightarrow> (bytes \<Rightarrow> 'a option) \<Rightarrow> bytes option list \<Rightarrow> 'a option \<times> bytes option list" where
  "poll_until n cap f [] = (None, [])"
| "poll_until n cap f (x # xs) =
     (if n = 0 then (None, x # xs)
      else (case x of
              None \<Rightarrow> poll_until (n - 1) cap f xs
            | Some rx \<Rightarrow> (case f (take cap rx) of None \<Rightarrow> poll_until (n - 1) cap f xs | Some r \<Rightarrow> (Some r, xs))))"

definition poll_net :: "nat \<Rightarrow> nat \<Rightarrow> (bytes \<Rightarrow> 'a option) \<Rightarrow> net \<Rightarrow> 'a option \<times> net" where
  "poll_net n cap f st = (let (r, ps) = poll_until n cap f (polls st) in (r, st\<lparr>polls := ps\<rparr>))"

section \<open>Address resolution, ping, DHCP\<close>

definition arp_resolve :: "bytes \<Rightarrow> net \<Rightarrow> bytes option \<times> net" where
  "arp_resolve target_ip st =
     (case nic_mac st of
        None \<Rightarrow> (None, st)
      | Some mac \<Rightarrow>
          poll_net 10000000 1536 (arp_reply target_ip)
            (nic_send (build_arp_request (replicate 42 0) mac target_ip) st))"

definition icmp_ping :: "bytes \<Rightarrow> net \<Rightarrow> bool \<times> net" where
  "icmp_ping gw st =
     (case nic_mac st of
        None \<Rightarrow> (False, st)
      | Some mac \<Rightarrow>
          (let (r, st) = poll_net 10000000 1536 icmp_reply (nic_send (icmp_echo gw mac) st) in (r \<noteq> None, st)))"

definition dhcp :: "net \<Rightarrow> bytes option \<times> net" where
  "dhcp st =
     (case nic_mac st of
        None \<Rightarrow> (None, st)
      | Some mac \<Rightarrow>
          let (f, n) = build_dhcp (replicate 400 0) mac 1 None None;
              (offer, st) = poll_net 10000000 1536 (\<lambda>rx. parse_dhcp rx 2) (nic_send (take n f) st)
          in case offer of
               None \<Rightarrow> (None, st)
             | Some (yiaddr, sid) \<Rightarrow>
                 let (f, n) = build_dhcp f mac 3 (Some yiaddr) (Some sid);
                     (ack, st) = poll_net 10000000 1536 (\<lambda>rx. parse_dhcp rx 5) (nic_send (take n f) st)
                 in (map_option fst ack, st))"

section \<open>Name lookup\<close>

definition dns_reply :: "nat \<Rightarrow> bytes \<Rightarrow> bytes option" where
  "dns_reply txid rx =
     (case parse_udp_payload rx DNS_PORT OUR_DNS_PORT of
        None \<Rightarrow> None
      | Some (poff, plen) \<Rightarrow> parse_dns_a (slice rx poff (poff + plen)) txid)"

definition dns_resolve :: "bytes \<Rightarrow> bytes \<Rightarrow> net \<Rightarrow> (bytes option \<times> net) option" where
  "dns_resolve dns domain st =
     (case nic_mac st of
        None \<Rightarrow> Some (None, st)
      | Some mac \<Rightarrow> do {
          (query, qlen) \<leftarrow> build_dns_query (replicate 256 0) domain 0x1A2B;
          (f, n) \<leftarrow> build_udp (replicate 512 0) dns mac OUR_IP DNS_IP OUR_DNS_PORT DNS_PORT (take qlen query);
          Some (poll_net 10000000 1536 (dns_reply 0x1A2B) (nic_send (take n f) st))
        })"

definition resolve_host :: "bytes \<Rightarrow> net \<Rightarrow> (bytes option \<times> net) option" where
  "resolve_host host st =
     (if \<not> net_up st then Some (None, st)
      else (case dns_mac st of None \<Rightarrow> Some (None, st) | Some dns \<Rightarrow> dns_resolve dns host st))"

section \<open>TcpConn\<close>

record tcp_conn =
  c_gw :: bytes
  c_mac :: bytes
  c_ip :: bytes
  c_port :: nat
  c_snd :: u32
  c_rcv :: u32
  pending_fin :: bool
  c_closed :: bool

text \<open>\<open>let n = build_tcp(&mut f, ...); nic.send(&f[..n]);\<close> with a buffer of \<open>buflen\<close> bytes.\<close>

definition emit_tcp ::
  "nat \<Rightarrow> bytes \<Rightarrow> bytes \<Rightarrow> bytes \<Rightarrow> nat \<Rightarrow> u32 \<Rightarrow> u32 \<Rightarrow> byte \<Rightarrow> bytes \<Rightarrow> net \<Rightarrow> net option" where
  "emit_tcp buflen gw mac dst dport sq ack flags payload st =
     (case build_tcp (replicate buflen 0) gw mac OUR_IP dst dport sq ack flags payload of
        None \<Rightarrow> None
      | Some (f, n) \<Rightarrow> Some (nic_send (take n f) st))"

text \<open>Waiting for SYN-ACK: a reset is \<open>Some None\<close>, the peer's sequence number \<open>Some (Some _)\<close>.\<close>

definition syn_ack :: "u32 \<Rightarrow> bytes \<Rightarrow> u32 option option" where
  "syn_ack isn rx =
     (case parse_tcp rx of
        None \<Rightarrow> None
      | Some (sq, ackn, flags, _, _) \<Rightarrow>
          if flags AND TCP_RST \<noteq> 0 then Some None
          else if flags AND TCP_SYN \<noteq> 0 \<and> flags AND TCP_ACK \<noteq> 0 \<and> ackn = isn + 1 then Some (Some sq)
          else None)"

definition tcp_connect :: "bytes \<Rightarrow> nat \<Rightarrow> net \<Rightarrow> (tcp_conn option \<times> net) option" where
  "tcp_connect dst_ip dport st =
     (if \<not> net_up st then Some (None, st)
      else (case (gw_mac st, nic_mac st) of
              (Some gw, Some mac) \<Rightarrow> do {
                let isn = 0x00C0FFEE;
                st \<leftarrow> emit_tcp 1600 gw mac dst_ip dport isn 0 TCP_SYN [] st;
                let (r, st) = poll_net 15000000 1600 (syn_ack isn) st;
                (case r of
                   Some (Some their_seq) \<Rightarrow> do {
                     let rcv = their_seq + 1;
                     let snd_nxt = isn + 1;
                     st \<leftarrow> emit_tcp 1600 gw mac dst_ip dport snd_nxt rcv TCP_ACK [] st;
                     Some (Some \<lparr>c_gw = gw, c_mac = mac, c_ip = dst_ip, c_port = dport, c_snd = snd_nxt, c_rcv = rcv,
                                 pending_fin = False, c_closed = False\<rparr>, st)
                   }
                 | _ \<Rightarrow> Some (None, st))
              }
            | _ \<Rightarrow> Some (None, st)))"

function send_loop :: "bytes \<Rightarrow> tcp_conn \<Rightarrow> net \<Rightarrow> (tcp_conn \<times> net) option" where
  "send_loop dat c st =
     (if dat = [] then Some (c, st)
      else (case emit_tcp 1600 (c_gw c) (c_mac c) (c_ip c) (c_port c) (c_snd c) (c_rcv c) (TCP_PSH OR TCP_ACK) (take TCP_MSS dat) st of
              None \<Rightarrow> None
            | Some st \<Rightarrow>
                send_loop (drop TCP_MSS dat) (c\<lparr>c_snd := c_snd c + of_nat (length (take TCP_MSS dat))\<rparr>) st))"
  by auto
termination by (relation "measure (\<lambda>(dat, c, st). length dat)") (auto simp: TCP_MSS_def)

declare send_loop.simps [simp del]

definition tcp_send :: "bytes \<Rightarrow> tcp_conn \<Rightarrow> net \<Rightarrow> (bool \<times> tcp_conn \<times> net) option" where
  "tcp_send dat c st =
     (if nic_mac st = None then Some (False, c, st)
      else map_option (\<lambda>(c, st). (True, c, st)) (send_loop dat c st))"

text \<open>What a received segment means to \<open>recv\<close>; None is one that is passed over.\<close>

datatype event = Reset | Segment byte bytes | Fin

definition recv_event :: "u32 \<Rightarrow> bytes \<Rightarrow> event option" where
  "recv_event rcv rx =
     (case parse_tcp rx of
        None \<Rightarrow> None
      | Some (sq, _, flags, poff, plen) \<Rightarrow>
          if flags AND TCP_RST \<noteq> 0 then Some Reset
          else if 0 < plen \<and> sq = rcv then Some (Segment flags (slice rx poff (poff + plen)))
          else if flags AND TCP_FIN \<noteq> 0 \<and> sq = rcv then Some Fin
          else None)"

definition ack_now :: "tcp_conn \<Rightarrow> net \<Rightarrow> net option" where
  "ack_now c st = emit_tcp 1600 (c_gw c) (c_mac c) (c_ip c) (c_port c) (c_snd c) (c_rcv c) TCP_ACK [] st"

text \<open>\<open>recv\<close> into a buffer of \<open>buflen\<close> bytes: Some of no bytes is the end of the stream, None a timeout.\<close>

definition tcp_recv :: "nat \<Rightarrow> tcp_conn \<Rightarrow> net \<Rightarrow> (bytes option \<times> tcp_conn \<times> net) option" where
  "tcp_recv buflen c st =
     (if pending_fin c then Some (Some [], c\<lparr>pending_fin := False, c_closed := True\<rparr>, st)
      else if nic_mac st = None then Some (None, c, st)
      else let (e, st) = poll_net 20000000 1600 (recv_event (c_rcv c)) st
           in case e of
                None \<Rightarrow> Some (None, c, st)
              | Some Reset \<Rightarrow> Some (Some [], c\<lparr>c_closed := True\<rparr>, st)
              | Some (Segment flags dat) \<Rightarrow> do {
                  let c = c\<lparr>c_rcv := c_rcv c + of_nat (length dat)\<rparr>;
                  let c = (if flags AND TCP_FIN \<noteq> 0 then c\<lparr>c_rcv := c_rcv c + 1, pending_fin := True\<rparr> else c);
                  st \<leftarrow> ack_now c st;
                  Some (Some (take buflen dat), c, st)
                }
              | Some Fin \<Rightarrow> do {
                  let c = c\<lparr>c_rcv := c_rcv c + 1\<rparr>;
                  st \<leftarrow> ack_now c st;
                  Some (Some [], c\<lparr>c_closed := True\<rparr>, st)
                })"

definition tcp_close :: "tcp_conn \<Rightarrow> net \<Rightarrow> (tcp_conn \<times> net) option" where
  "tcp_close c st =
     (if c_closed c then Some (c, st)
      else if nic_mac st = None then Some (c\<lparr>c_closed := True\<rparr>, st)
      else do {
        st \<leftarrow> emit_tcp 1600 (c_gw c) (c_mac c) (c_ip c) (c_port c) (c_snd c) (c_rcv c) (TCP_FIN OR TCP_ACK) [] st;
        Some (c\<lparr>c_snd := c_snd c + 1, c_closed := True\<rparr>, st)
      })"

end
