(* ===== verification/Byte_Pipe.thy ===== *)
theory Byte_Pipe
  imports Prelude "HOL-Library.Sublist"
begin

text \<open>
  The interface between the TLS client and the connection under it: sending, receiving into a
  buffer of a given size, closing. A result is None when the kernel panics. The locale states what
  the client relies on: \<open>content\<close> is what the connection still has to deliver, and receiving hands
  it out piece by piece.
\<close>

record 'c pipe =
  p_send :: "bytes \<Rightarrow> 'c \<Rightarrow> (bool \<times> 'c) option"
  p_recv :: "nat \<Rightarrow> 'c \<Rightarrow> (bytes option \<times> 'c) option"
  p_close :: "'c \<Rightarrow> 'c option"

locale byte_pipe =
  fixes ops :: "'c pipe" and ok :: "'c \<Rightarrow> bool" and content :: "'c \<Rightarrow> bytes"
  assumes send: "ok c \<Longrightarrow> \<exists>c'. p_send ops d c = Some (True, c') \<and> ok c' \<and> content c' = content c"
    and recv: "ok c \<Longrightarrow> content c \<noteq> [] \<Longrightarrow>
      \<exists>d c'. p_recv ops 1600 c = Some (Some d, c') \<and> d \<noteq> [] \<and> ok c' \<and> content c = d @ content c'"
    and recv_end: "ok c \<Longrightarrow> content c = [] \<Longrightarrow>
      \<exists>r c'. p_recv ops 1600 c = Some (r, c') \<and> (r = None \<or> r = Some []) \<and> ok c'"
    and close: "ok c \<Longrightarrow> \<exists>c'. p_close ops c = Some c'"

text \<open>Receiving \<open>k\<close> times, or until the end of the stream.\<close>

fun recv_run :: "'c pipe \<Rightarrow> nat \<Rightarrow> 'c \<Rightarrow> (bytes \<times> 'c) option" where
  "recv_run ops 0 c = Some ([], c)"
| "recv_run ops (Suc k) c =
     (case p_recv ops 1600 c of
        None \<Rightarrow> None
      | Some (None, c) \<Rightarrow> Some ([], c)
      | Some (Some d, c) \<Rightarrow>
          if d = [] then Some ([], c) else map_option (\<lambda>(ds, c). (d @ ds, c)) (recv_run ops k c))"

context byte_pipe
begin

lemma recv_run_content:
  "ok c \<Longrightarrow> \<exists>ds c'. recv_run ops k c = Some (ds, c') \<and> prefix ds (content c) \<and> (length (content c) \<le> k \<longrightarrow> ds = content c)"
proof (induction k arbitrary: c)
  case (Suc k)
  show ?case
  proof (cases "content c = []")
    case True
    then show ?thesis using recv_end [OF Suc.prems] by auto
  next
    case False
    obtain d c1 where d: "p_recv ops 1600 c = Some (Some d, c1)" "d \<noteq> []" "ok c1" "content c = d @ content c1"
      using recv [OF Suc.prems False] by blast
    obtain ds c2 where r: "recv_run ops k c1 = Some (ds, c2)" "prefix ds (content c1)"
      "length (content c1) \<le> k \<longrightarrow> ds = content c1" using Suc.IH [OF d(3)] by blast
    have "recv_run ops (Suc k) c = Some (d @ ds, c2)" using d(1,2) r(1) by simp
    moreover have "prefix (d @ ds) (content c)" using r(2) d(4) by simp
    moreover have "length (content c) \<le> Suc k \<longrightarrow> d @ ds = content c"
    proof
      assume l: "length (content c) \<le> Suc k"
      have "0 < length d" using d(2) by simp
      then have "length (content c1) \<le> k" using l unfolding d(4) length_append by linarith
      then show "d @ ds = content c" using r(3) d(4) by simp
    qed
    ultimately show ?thesis by blast
  qed
qed simp

end

end
