(* ===== verification/Net_Stream.thy ===== *)
theory Net_Stream
  imports Net_Conn Byte_Pipe
begin

text \<open>
  The byte stream a connection delivers. \<open>pending\<close> reads off the polls still to come what \<open>recv\<close> will
  hand out: the payloads of the segments that carry on the stream, in order, up to the peer's FIN
  or a reset. \<open>TcpConn\<close> is a \<open>byte_pipe\<close> with it.
\<close>

unbundle bit_operations_syntax

fun pending :: "u32 \<Rightarrow> bytes option list \<Rightarrow> bytes" where
  "pending rcv [] = []"
| "pending rcv (x # xs) =
     (case Option.bind x (\<lambda>rx. recv_event rcv (take 1600 rx)) of
        None \<Rightarrow> pending rcv xs
      | Some (Segment flags d) \<Rightarrow> d @ (if flags AND TCP_FIN \<noteq> 0 then [] else pending (rcv + of_nat (length d)) xs)
      | Some _ \<Rightarrow> [])"

definition tcp_ok :: "tcp_conn \<times> net \<Rightarrow> bool" where
  "tcp_ok = (\<lambda>(c, st). nic_mac st \<noteq> None \<and> length (polls st) \<le> 20000000)"

definition tcp_content :: "tcp_conn \<times> net \<Rightarrow> bytes" where
  "tcp_content = (\<lambda>(c, st). if pending_fin c then [] else pending (c_rcv c) (polls st))"

definition tcp_pipe :: "(tcp_conn \<times> net) pipe" where
  "tcp_pipe = \<lparr>p_send = (\<lambda>d (c, st). tcp_send d c st), p_recv = (\<lambda>n (c, st). tcp_recv n c st), p_close = (\<lambda>(c, st). tcp_close c st)\<rparr>"

lemma emit_tcp_fits:
  assumes "54 + length payload \<le> buflen"
  shows "\<exists>fr. emit_tcp buflen gw mac dst dport sq ack flags payload st = Some (st\<lparr>sent := sent st @ [fr]\<rparr>)"
proof -
  have nl: "\<not> length (replicate buflen (0 :: byte)) < 54 + length payload" using assms by simp
  show ?thesis unfolding emit_tcp_def build_tcp_def if_not_P [OF nl] Let_def nic_send_def by auto
qed

lemma recv_event_segment:
  "recv_event rcv rx = Some (Segment flags d) \<Longrightarrow> d \<noteq> [] \<and> length d \<le> length rx"
proof -
  assume r: "recv_event rcv rx = Some (Segment flags d)"
  obtain sq ackn fl poff plen where p: "parse_tcp rx = Some (sq, ackn, fl, poff, plen)"
    using r by (cases "parse_tcp rx") (auto simp: recv_event_def)
  have d: "d = slice rx poff (poff + plen)" "0 < plen" using r p by (auto simp: recv_event_def split: if_splits)
  have "poff + plen \<le> length rx" using p d(2) by (auto simp: parse_tcp_def Let_def split: if_splits)
  then have "length d = plen" "plen \<le> length rx" unfolding d(1) by simp_all
  then show ?thesis using d(2) by auto
qed

lemma poll_pending:
  "length ps \<le> n \<Longrightarrow> poll_until n 1600 (recv_event rcv) ps = (e, ps') \<Longrightarrow>
   length ps' \<le> length ps \<and>
   (case e of
      Some (Segment flags d) \<Rightarrow> d \<noteq> [] \<and> length d \<le> 1600 \<and>
        pending rcv ps = d @ (if flags AND TCP_FIN \<noteq> 0 then [] else pending (rcv + of_nat (length d)) ps')
    | _ \<Rightarrow> pending rcv ps = [])"
proof (induction ps arbitrary: n)
  case (Cons x ps)
  have n: "n \<noteq> 0" "length ps \<le> n - 1" using Cons.prems(1) by auto
  show ?case
  proof (cases "Option.bind x (\<lambda>rx. recv_event rcv (take 1600 rx))")
    case None
    then have "poll_until (n - 1) 1600 (recv_event rcv) ps = (e, ps')"
      using Cons.prems(2) n(1) by (cases x) auto
    note ih = Cons.IH [OF n(2) this]
    have "pending rcv (x # ps) = pending rcv ps" using None by simp
    then show ?thesis using ih by (simp only: list.size) (auto split: option.splits event.splits)
  next
    case (Some ev)
    then obtain rx where x: "x = Some rx" "recv_event rcv (take 1600 rx) = Some ev" by (cases x) auto
    then have "e = Some ev" "ps' = ps" using Cons.prems(2) n(1) by auto
    moreover have "d \<noteq> [] \<and> length d \<le> 1600" if "ev = Segment flags d" for flags d
      using recv_event_segment [of rcv "take 1600 rx" flags d] x(2) that by auto
    ultimately show ?thesis using x by (cases ev) auto
  qed
qed simp

lemma send_loop_fits:
  "\<exists>c' fs. send_loop dat c st = Some (c', st\<lparr>sent := sent st @ fs\<rparr>) \<and> c_rcv c' = c_rcv c \<and> pending_fin c' = pending_fin c"
proof (induction dat c st rule: send_loop.induct)
  case (1 dat c st)
  show ?case
  proof (cases "dat = []")
    case True
    then show ?thesis by (subst send_loop.simps) (auto intro: exI [of _ "[]"])
  next
    case False
    have fit: "54 + length (take TCP_MSS dat) \<le> 1600" by (simp add: TCP_MSS_def)
    obtain fr where e: "emit_tcp 1600 (c_gw c) (c_mac c) (c_ip c) (c_port c) (c_snd c) (c_rcv c) (TCP_PSH OR TCP_ACK)
        (take TCP_MSS dat) st = Some (st\<lparr>sent := sent st @ [fr]\<rparr>)"
      using emit_tcp_fits [of "take TCP_MSS dat" 1600] fit by blast
    show ?thesis using "1.IH" [OF False e] False e
      by (subst send_loop.simps) auto
  qed
qed

lemma tcp_send_law:
  "tcp_ok s \<Longrightarrow> \<exists>s'. p_send tcp_pipe d s = Some (True, s') \<and> tcp_ok s' \<and> tcp_content s' = tcp_content s"
proof (cases s)
  case (Pair c st)
  assume ok: "tcp_ok s"
  obtain c' fs where f: "send_loop d c st = Some (c', st\<lparr>sent := sent st @ fs\<rparr>)" "c_rcv c' = c_rcv c"
    "pending_fin c' = pending_fin c" using send_loop_fits [of d c st] by blast
  have "p_send tcp_pipe d s = Some (True, c', st\<lparr>sent := sent st @ fs\<rparr>)"
    using ok f Pair by (auto simp: tcp_pipe_def tcp_send_def tcp_ok_def)
  moreover have "tcp_ok (c', st\<lparr>sent := sent st @ fs\<rparr>)" using ok Pair by (simp add: tcp_ok_def)
  moreover have "tcp_content (c', st\<lparr>sent := sent st @ fs\<rparr>) = tcp_content s" using f Pair by (simp add: tcp_content_def)
  ultimately show ?thesis by blast
qed

lemma tcp_recv_cases:
  assumes "tcp_ok s"
  shows "\<exists>r s'. p_recv tcp_pipe 1600 s = Some (r, s') \<and> tcp_ok s' \<and>
    (if tcp_content s = [] then r = None \<or> r = Some []
     else \<exists>d. r = Some d \<and> d \<noteq> [] \<and> tcp_content s = d @ tcp_content s')"
proof (cases s)
  case (Pair c st)
  show ?thesis
  proof (cases "pending_fin c")
    case True
    then show ?thesis using assms Pair by (simp add: tcp_pipe_def tcp_recv_def tcp_ok_def tcp_content_def)
  next
    case False
    have nic: "nic_mac st \<noteq> None" and len: "length (polls st) \<le> 20000000" using assms Pair by (simp_all add: tcp_ok_def)
    obtain e ps where p: "poll_until 20000000 1600 (recv_event (c_rcv c)) (polls st) = (e, ps)" by force
    note pp = poll_pending [OF len p]
    have em: "\<exists>fr. ack_now c' st' = Some (st'\<lparr>sent := sent st' @ [fr]\<rparr>)" for c' st'
      unfolding ack_now_def by (rule emit_tcp_fits) simp
    have cont: "tcp_content s = pending (c_rcv c) (polls st)" using False Pair by (simp add: tcp_content_def)
    show ?thesis
    proof (cases e)
      case None
      then show ?thesis using nic len p pp cont False Pair
        by (auto simp: tcp_pipe_def tcp_recv_def poll_net_def Let_def tcp_ok_def)
    next
      case (Some ev)
      show ?thesis
      proof (cases ev)
        case Reset
        then show ?thesis using Some nic len p pp cont False Pair
          by (auto simp: tcp_pipe_def tcp_recv_def poll_net_def Let_def tcp_ok_def)
      next
        case Fin
        then show ?thesis using Some nic len p pp cont False Pair em [of "c\<lparr>c_rcv := c_rcv c + 1\<rparr>" "st\<lparr>polls := ps\<rparr>"]
          by (auto simp: tcp_pipe_def tcp_recv_def poll_net_def Let_def tcp_ok_def)
      next
        case (Segment flags d)
        define c' where "c' = c\<lparr>c_rcv := c_rcv c + of_nat (length d)\<rparr>"
        define c2 where "c2 = (if flags AND TCP_FIN \<noteq> 0 then c'\<lparr>c_rcv := c_rcv c' + 1, pending_fin := True\<rparr> else c')"
        obtain fr where fr: "ack_now c2 (st\<lparr>polls := ps\<rparr>) = Some (st\<lparr>polls := ps, sent := sent st @ [fr]\<rparr>)"
          using em [of c2 "st\<lparr>polls := ps\<rparr>"] by auto
        have d: "d \<noteq> []" "take 1600 d = d" "length ps \<le> length (polls st)"
          "pending (c_rcv c) (polls st) = d @ (if flags AND TCP_FIN \<noteq> 0 then [] else pending (c_rcv c + of_nat (length d)) ps)"
          using pp Some Segment by auto
        have "p_recv tcp_pipe 1600 s = Some (Some d, c2, st\<lparr>polls := ps, sent := sent st @ [fr]\<rparr>)"
          using nic p Some Segment False Pair fr d(2)
          by (simp add: tcp_pipe_def tcp_recv_def poll_net_def c'_def [symmetric] c2_def [symmetric])
        moreover have "tcp_content (c2, st\<lparr>polls := ps, sent := sent st @ [fr]\<rparr>) =
            (if flags AND TCP_FIN \<noteq> 0 then [] else pending (c_rcv c + of_nat (length d)) ps)"
          using False by (simp add: tcp_content_def c2_def c'_def)
        moreover have "tcp_ok (c2, st\<lparr>polls := ps, sent := sent st @ [fr]\<rparr>)"
          using nic len d(3) by (simp add: tcp_ok_def)
        ultimately show ?thesis using d cont by auto
      qed
    qed
  qed
qed

lemma tcp_close_law: "\<exists>s'. p_close tcp_pipe s = Some s'"
proof (cases s)
  case (Pair c st)
  have "54 + length ([] :: bytes) \<le> 1600" by simp
  then obtain fr where "emit_tcp 1600 (c_gw c) (c_mac c) (c_ip c) (c_port c) (c_snd c) (c_rcv c) (TCP_FIN OR TCP_ACK) [] st
      = Some (st\<lparr>sent := sent st @ [fr]\<rparr>)"
    using emit_tcp_fits by blast
  then show ?thesis using Pair by (simp add: tcp_pipe_def tcp_close_def)
qed

interpretation tcp: byte_pipe tcp_pipe tcp_ok tcp_content
proof
  fix s :: "tcp_conn \<times> net" and d
  assume ok: "tcp_ok s"
  show "\<exists>s'. p_send tcp_pipe d s = Some (True, s') \<and> tcp_ok s' \<and> tcp_content s' = tcp_content s"
    by (rule tcp_send_law [OF ok])
  show "\<exists>s'. p_close tcp_pipe s = Some s'" by (rule tcp_close_law)
  show "\<exists>d s'. p_recv tcp_pipe 1600 s = Some (Some d, s') \<and> d \<noteq> [] \<and> tcp_ok s' \<and> tcp_content s = d @ tcp_content s'"
    if "tcp_content s \<noteq> []" using tcp_recv_cases [OF ok] that by auto
  show "\<exists>r s'. p_recv tcp_pipe 1600 s = Some (r, s') \<and> (r = None \<or> r = Some []) \<and> tcp_ok s'"
    if "tcp_content s = []" using tcp_recv_cases [OF ok] that by auto
qed

end
