(* ===== verification/Net_Http.thy ===== *)
theory Net_Http
  imports Net_Conn Ternary
begin

text \<open>
  HTTP on top of the connection code of kernel/src/net.rs: the one-shot client, status line and
  header reading, and \<open>http_get\<close> with its redirects. The TLS client is a parameter here, because
  kernel/src/tls.rs is itself built on \<open>TcpConn\<close>.
\<close>

unbundle bit_operations_syntax

definition ascii :: "string \<Rightarrow> bytes" where
  "ascii s = map of_char s"

text \<open>\<open>core::str::from_utf8\<close> accepts exactly the well-formed UTF-8 strings.\<close>

definition utf8_cont :: "byte \<Rightarrow> bool" where
  "utf8_cont b \<longleftrightarrow> 0x80 \<le> b \<and> b \<le> 0xBF"

fun utf8_ok :: "bytes \<Rightarrow> bool" where
  "utf8_ok [] = True"
| "utf8_ok (a # xs) =
     (if a < 0x80 then utf8_ok xs
      else if 0xC2 \<le> a \<and> a \<le> 0xDF then
        (case xs of b # ys \<Rightarrow> utf8_cont b \<and> utf8_ok ys | _ \<Rightarrow> False)
      else if 0xE0 \<le> a \<and> a \<le> 0xEF then
        (case xs of b # c # ys \<Rightarrow>
           utf8_cont b \<and> utf8_cont c \<and> (a = 0xE0 \<longrightarrow> 0xA0 \<le> b) \<and> (a = 0xED \<longrightarrow> b \<le> 0x9F) \<and> utf8_ok ys
         | _ \<Rightarrow> False)
      else if 0xF0 \<le> a \<and> a \<le> 0xF4 then
        (case xs of b # c # d # ys \<Rightarrow>
           utf8_cont b \<and> utf8_cont c \<and> utf8_cont d \<and> (a = 0xF0 \<longrightarrow> 0x90 \<le> b) \<and> (a = 0xF4 \<longrightarrow> b \<le> 0x8F) \<and> utf8_ok ys
         | _ \<Rightarrow> False)
      else False)"

section \<open>The one-shot client\<close>

definition http_request :: "bytes \<Rightarrow> bytes \<Rightarrow> bytes" where
  "http_request host path =
     (let safe_path = (if path = [] then ascii ''/'' else path)
      in fold (\<lambda>part buf. buf @ take (384 - length buf) part)
           [ascii ''GET '', safe_path, ascii '' HTTP/1.0'' @ [13, 10] @ ascii ''Host: '', host,
            [13, 10] @ ascii ''User-Agent: RustyPenguin/2.1'' @ [13, 10] @ ascii ''Connection: close'' @ [13, 10, 13, 10]]
           [])"

text \<open>
  The receive loop over the polls left: \<open>reply rcv flags\<close> sends a segment without data, \<open>got\<close> counts
  what arrived, \<open>out\<close> is the written part of a buffer of \<open>cap\<close> bytes.
\<close>

fun http_recv ::
  "(u32 \<Rightarrow> byte \<Rightarrow> net \<Rightarrow> net option) \<Rightarrow> nat \<Rightarrow> nat \<Rightarrow> bytes option list \<Rightarrow> u32 \<Rightarrow> nat \<Rightarrow> bytes \<Rightarrow> net
    \<Rightarrow> (nat \<times> bytes \<times> bytes option list \<times> net) option" where
  "http_recv reply cap n [] rcv got out st = Some (got, out, [], st)"
| "http_recv reply cap n (x # xs) rcv got out st =
     (if n = 0 then Some (got, out, x # xs, st)
      else (case Option.bind x (\<lambda>rx. parse_tcp (take 1536 rx)) of
              None \<Rightarrow> http_recv reply cap (n - 1) xs rcv got out st
            | Some (sq, _, flags, poff, plen) \<Rightarrow>
                if 0 < plen \<and> sq = rcv then
                  (let rx = take 1536 (the x);
                       out = (if length out < cap then out @ slice rx poff (poff + min plen (cap - length out)) else out);
                       rcv = rcv + of_nat plen
                   in case reply rcv TCP_ACK st of
                        None \<Rightarrow> None
                      | Some st \<Rightarrow>
                          if flags AND TCP_FIN \<noteq> 0 then do {
                            st \<leftarrow> reply (rcv + 1) TCP_ACK st;
                            st \<leftarrow> reply (rcv + 1) (TCP_FIN OR TCP_ACK) st;
                            Some (got + plen, out, xs, st)
                          }
                          else http_recv reply cap (n - 1) xs rcv (got + plen) out st)
                else if flags AND TCP_FIN \<noteq> 0 then do {
                  st \<leftarrow> reply (rcv + 1) TCP_ACK st;
                  st \<leftarrow> reply (rcv + 1) (TCP_FIN OR TCP_ACK) st;
                  Some (got, out, xs, st)
                }
                else http_recv reply cap (n - 1) xs rcv got out st))"

definition tcp_http_get ::
  "bytes \<Rightarrow> bytes \<Rightarrow> nat \<Rightarrow> bytes \<Rightarrow> bytes \<Rightarrow> nat \<Rightarrow> net \<Rightarrow> (bytes option \<times> net) option" where
  "tcp_http_get gw dst_ip dport host path cap st =
     (case nic_mac st of
        None \<Rightarrow> Some (None, st)
      | Some mac \<Rightarrow> do {
          let isn = 0x00012000;
          let emit = emit_tcp 256 gw mac dst_ip dport;
          st \<leftarrow> emit isn 0 TCP_SYN [] st;
          let (r, st) = poll_net 10000000 1536 (syn_ack isn) st;
          (case r of
             Some (Some their_seq) \<Rightarrow> do {
               let rcv_nxt = their_seq + 1;
               let snd_nxt = isn + 1;
               st \<leftarrow> emit snd_nxt rcv_nxt TCP_ACK [] st;
               let req = http_request host path;
               st \<leftarrow> emit snd_nxt rcv_nxt (TCP_PSH OR TCP_ACK) req st;
               let snd_after = snd_nxt + of_nat (length req);
               (got, out, ps, st) \<leftarrow>
                 http_recv (\<lambda>rcv flags. emit snd_after rcv flags []) cap 15000000 (polls st) rcv_nxt 0 [] st;
               let st = st\<lparr>polls := ps\<rparr>;
               Some (if 0 < got then Some out else None, st)
             }
           | _ \<Rightarrow> Some (None, st))
        })"

section \<open>Reading a response\<close>

definition to_lower :: "byte \<Rightarrow> byte" where
  "to_lower b = (if 65 \<le> b \<and> b \<le> 90 then b + 32 else b)"

definition starts_with_ci :: "bytes \<Rightarrow> bytes \<Rightarrow> bool" where
  "starts_with_ci hay needle \<longleftrightarrow>
     length needle \<le> length hay \<and> list_all2 (\<lambda>a b. to_lower a = to_lower b) (take (length needle) hay) needle"

fun status_digits :: "bytes \<Rightarrow> nat \<Rightarrow> bool \<Rightarrow> nat \<times> bool" where
  "status_digits [] code any = (code, any)"
| "status_digits (b # bs) code any =
     (if 48 \<le> b \<and> b \<le> 57 then status_digits bs ((code * 10 + (unat b - 48)) mod 65536) True else (code, any))"

definition http_status :: "bytes \<Rightarrow> nat option" where
  "http_status resp =
     (if take 5 resp \<noteq> ascii ''HTTP/'' then None
      else (case position (\<lambda>b. b = 32) resp of
              None \<Rightarrow> None
            | Some sp \<Rightarrow> (let (code, any) = status_digits (drop (sp + 1) resp) 0 False in if any then Some code else None)))"

function find_header_from :: "bytes \<Rightarrow> bytes \<Rightarrow> nat \<Rightarrow> bytes option" where
  "find_header_from resp name_colon i =
     (if i + length name_colon \<le> length resp then
        if (i = 0 \<or> resp ! (i - 1) = 10) \<and> starts_with_ci (drop i resp) name_colon
        then Some (drop (i + length name_colon) resp)
        else find_header_from resp name_colon (i + 1)
      else None)"
  by auto
termination by (relation "measure (\<lambda>(resp, nc, i). length resp + 1 - i)") auto

declare find_header_from.simps [simp del]

definition find_header :: "bytes \<Rightarrow> bytes \<Rightarrow> bytes option" where
  "find_header resp name_colon = find_header_from resp name_colon 0"

text \<open>The target of a redirect: whether it is https, and what is copied into buffers of the given sizes.\<close>

definition parse_location :: "bytes \<Rightarrow> nat \<Rightarrow> nat \<Rightarrow> (bool \<times> bytes \<times> bytes) option" where
  "parse_location resp host_cap path_cap =
     (case find_header resp (ascii ''location:'') of
        None \<Rightarrow> None
      | Some loc \<Rightarrow>
          let val = dropWhile (\<lambda>b. b = 32 \<or> b = 9) loc;
              val = takeWhile (\<lambda>b. \<not> (b = 13 \<or> b = 10)) val
          in if val = [] then None
             else let absolute = (\<lambda>https after.
                        let hsep = (case position (\<lambda>b. b = 47 \<or> b = 63) after of Some k \<Rightarrow> k | None \<Rightarrow> length after);
                            host = take host_cap (take hsep after);
                            path = drop hsep after
                        in Some (https, host, if path = [] then [47] else take path_cap path))
                  in if starts_with_ci val (ascii ''https://'') then absolute True (drop 8 val)
                     else if starts_with_ci val (ascii ''http://'') then absolute False (drop 7 val)
                     else Some (False, [], take path_cap val))"

section \<open>http_get\<close>

text \<open>The redirect loop: \<open>k\<close> counts the hops left, the last one not following.\<close>

fun http_hops ::
  "(bytes \<Rightarrow> bytes \<Rightarrow> nat \<Rightarrow> net \<Rightarrow> (bytes option \<times> net) option) \<Rightarrow> bytes \<Rightarrow> bytes \<Rightarrow> nat \<Rightarrow> nat \<Rightarrow> bytes \<Rightarrow> bytes \<Rightarrow> net
    \<Rightarrow> (bytes option \<times> net) option" where
  "http_hops https gw dns cap 0 host path st = Some (None, st)"
| "http_hops https gw dns cap (Suc k) host path st =
     (if \<not> utf8_ok host then Some (None, st)
      else case dns_resolve dns host st of
        None \<Rightarrow> None
      | Some (None, st) \<Rightarrow> Some (None, st)
      | Some (Some ip, st) \<Rightarrow>
          (case tcp_http_get gw ip 80 host (if utf8_ok path then path else [47]) cap st of
             None \<Rightarrow> None
           | Some (None, st) \<Rightarrow> Some (None, st)
           | Some (Some resp, st) \<Rightarrow>
               if (case http_status resp of Some code \<Rightarrow> 301 \<le> code \<and> code \<le> 308 \<and> code \<noteq> 304 \<and> 0 < k | None \<Rightarrow> False) then
                 (case parse_location resp 128 256 of
                    Some (True, nh, np) \<Rightarrow>
                      (let nh_host = (if nh = [] then host else if utf8_ok nh then nh else host);
                           nh_path = (if utf8_ok np then np else [47])
                       in map_option (\<lambda>(r, st). (r, set_trust (if r \<noteq> None then 1 else - 1) st))
                            (https nh_host nh_path cap st))
                  | Some (False, nh, np) \<Rightarrow> http_hops https gw dns cap k nh np st
                  | None \<Rightarrow> Some (Some resp, set_trust 0 st))
               else Some (Some resp, set_trust 0 st)))"

definition http_get ::
  "(bytes \<Rightarrow> bytes \<Rightarrow> nat \<Rightarrow> net \<Rightarrow> (bytes option \<times> net) option) \<Rightarrow> bytes \<Rightarrow> nat \<Rightarrow> net \<Rightarrow> (bytes option \<times> net) option" where
  "http_get https target cap st =
     (let st = set_trust (- 1) st
      in if \<not> net_up st then Some (None, st)
         else case (gw_mac st, dns_mac st) of
           (Some gw, Some dns) \<Rightarrow>
             (let (is_https, rest) =
                    (if starts_with_ci target (ascii ''https://'') then (True, drop 8 target)
                     else if starts_with_ci target (ascii ''http://'') then (False, drop 7 target)
                     else (False, target));
                  (in_host, in_path) =
                    (case position (\<lambda>b. b = 47) rest of Some i \<Rightarrow> (take i rest, drop i rest) | None \<Rightarrow> (rest, [47]))
              in if is_https then
                   map_option (\<lambda>(r, st). (r, set_trust (if r \<noteq> None then 1 else - 1) st)) (https in_host in_path cap st)
                 else http_hops https gw dns cap 6 (take 128 in_host) (take 256 in_path) st)
         | _ \<Rightarrow> Some (None, st))"

section \<open>Bringing the network up\<close>

text \<open>
  \<open>found\<close> are the hardware addresses of the cards the three drivers find, in the order they are probed;
  the first card is the active one.
\<close>

definition net_init ::
  "(bytes \<Rightarrow> bytes \<Rightarrow> nat \<Rightarrow> net \<Rightarrow> (bytes option \<times> net) option) \<Rightarrow> bytes option list \<Rightarrow> net \<Rightarrow> (trit \<times> net) option" where
  "net_init https found st =
     (case List.find (\<lambda>m. m \<noteq> None) found of
        None \<Rightarrow> Some (TNeg, st)
      | Some mac \<Rightarrow>
          let (gw, st) = arp_resolve GW_IP (st\<lparr>nic_mac := mac\<rparr>)
          in case gw of
               None \<Rightarrow> Some (TZero, st)
             | Some gw \<Rightarrow>
                 let st = st\<lparr>gw_mac := Some gw, net_up := True\<rparr>;
                     (_, st) = icmp_ping gw st;
                     (lease, st) = dhcp st;
                     (dns, st) = arp_resolve DNS_IP st
                 in do {
                   st \<leftarrow> (case dns of
                           None \<Rightarrow> Some st
                         | Some dns \<Rightarrow> do {
                             (_, st) \<leftarrow> http_get https (ascii ''example.com'') 1024 (st\<lparr>dns_mac := Some dns\<rparr>);
                             (_, st) \<leftarrow> https (ascii ''www.google.com'') [47] 2048 st;
                             Some st
                           });
                   (_, st) \<leftarrow> tcp_http_get gw GW_IP 8088 (ascii ''10.0.2.2:8088'') [47] 256 st;
                   Some (if lease \<noteq> None then TPos else TZero, st)
                 })"

end
