(* ===== verification/Tls.thy ===== *)
theory Tls
  imports Net_Stream Net_Http Sha256 Aead X25519 X509
begin

text \<open>
  The TLS 1.3 client, kernel/src/tls.rs, in the order of the file: random bytes, record framing
  over a connection, record protection, key schedule, ClientHello, reading ServerHello and the
  certificate list, the handshake and the request. The connection is a \<open>pipe\<close>; the time stamp
  counter is a sequence \<open>tsc\<close> of readings. The outer option of a result is a panic, an inner None
  the function's own None.
\<close>

unbundle bit_operations_syntax

text \<open>Checked indexing and slicing.\<close>

definition idx :: "'a list \<Rightarrow> nat \<Rightarrow> 'a option" where
  "idx xs i = (if i < length xs then Some (xs ! i) else None)"

definition sub :: "'a list \<Rightarrow> nat \<Rightarrow> nat \<Rightarrow> 'a list option" where
  "sub xs i j = (if i \<le> j \<and> j \<le> length xs then Some (slice xs i j) else None)"

definition u16_at :: "bytes \<Rightarrow> nat \<Rightarrow> nat option" where
  "u16_at xs i = do { a \<leftarrow> idx xs i; b \<leftarrow> idx xs (i + 1); Some (unat a * 256 + unat b) }"

definition u24_at :: "bytes \<Rightarrow> nat \<Rightarrow> nat option" where
  "u24_at xs i = do { a \<leftarrow> idx xs i; b \<leftarrow> idx xs (i + 1); c \<leftarrow> idx xs (i + 2);
                      Some (unat a * 65536 + unat b * 256 + unat c) }"

definition CT_CHANGE_CIPHER_SPEC :: byte where "CT_CHANGE_CIPHER_SPEC = 20"
definition CT_ALERT :: byte where "CT_ALERT = 21"
definition CT_HANDSHAKE :: byte where "CT_HANDSHAKE = 22"
definition CT_APPLICATION_DATA :: byte where "CT_APPLICATION_DATA = 23"
definition HS_CLIENT_HELLO :: byte where "HS_CLIENT_HELLO = 1"
definition HS_SERVER_HELLO :: byte where "HS_SERVER_HELLO = 2"
definition HS_CERTIFICATE :: byte where "HS_CERTIFICATE = 11"
definition HS_FINISHED :: byte where "HS_FINISHED = 20"

section \<open>Random bytes\<close>

text \<open>\<open>i\<close> counts the readings of the time stamp counter.\<close>

function rand_loop :: "(nat \<Rightarrow> u64) \<Rightarrow> nat \<Rightarrow> u64 \<Rightarrow> nat \<Rightarrow> bytes" where
  "rand_loop tsc i counter n =
     (if n = 0 then []
      else let h = sha256 (le_of_nat 8 (unat (tsc i)) @ le_of_nat 8 (unat counter) @ le_of_nat 8 (unat (tsc (i + 1))))
           in take (min n 32) h @ rand_loop tsc (i + 2) (counter + 1) (n - min n 32))"
  by auto
termination by (relation "measure (\<lambda>(tsc, i, c, n). n)") auto

declare rand_loop.simps [simp del]

definition rand_bytes :: "(nat \<Rightarrow> u64) \<Rightarrow> nat \<Rightarrow> nat \<Rightarrow> bytes" where
  "rand_bytes tsc i n = rand_loop tsc i 0 n"

section \<open>Record framing\<close>

record 'c stream =
  s_conn :: 'c
  s_buf :: bytes
  s_pos :: nat

definition stream_new :: "'c \<Rightarrow> 'c stream" where
  "stream_new c = \<lparr>s_conn = c, s_buf = [], s_pos = 0\<rparr>"

function read_exact :: "'c pipe \<Rightarrow> nat \<Rightarrow> 'c stream \<Rightarrow> (bytes option \<times> 'c stream) option" where
  "read_exact ops n s =
     (if n = 0 then Some (Some [], s)
      else if s_pos s < length (s_buf s) then
        (let k = min (length (s_buf s) - s_pos s) n
         in case read_exact ops (n - k) (s\<lparr>s_pos := s_pos s + k\<rparr>) of
              None \<Rightarrow> None
            | Some (None, s') \<Rightarrow> Some (None, s')
            | Some (Some out, s') \<Rightarrow> Some (Some (slice (s_buf s) (s_pos s) (s_pos s + k) @ out), s'))
      else (case p_recv ops 1600 (s_conn s) of
              None \<Rightarrow> None
            | Some (None, c) \<Rightarrow> Some (None, \<lparr>s_conn = c, s_buf = [], s_pos = 0\<rparr>)
            | Some (Some d, c) \<Rightarrow>
                if d = [] then Some (None, \<lparr>s_conn = c, s_buf = [], s_pos = 0\<rparr>)
                else read_exact ops n \<lparr>s_conn = c, s_buf = d, s_pos = 0\<rparr>))"
  by auto
termination
  by (relation "measures [\<lambda>(ops, n, s). n, \<lambda>(ops, n, s). if s_pos s < length (s_buf s) then 0 else 1]") auto

declare read_exact.simps [simp del]

definition read_record :: "'c pipe \<Rightarrow> 'c stream \<Rightarrow> ((byte \<times> bytes \<times> bytes) option \<times> 'c stream) option" where
  "read_record ops s =
     (case read_exact ops 5 s of
        None \<Rightarrow> None
      | Some (None, s) \<Rightarrow> Some (None, s)
      | Some (Some hdr, s) \<Rightarrow>
          let len = be16_at hdr 3
          in if len = 0 \<or> 18432 < len then Some (None, s)
             else (case read_exact ops len s of
                     None \<Rightarrow> None
                   | Some (None, s) \<Rightarrow> Some (None, s)
                   | Some (Some body, s) \<Rightarrow> Some (Some (hdr ! 0, hdr, body), s)))"

definition send_raw :: "'c pipe \<Rightarrow> bytes \<Rightarrow> 'c stream \<Rightarrow> (bool \<times> 'c stream) option" where
  "send_raw ops dat s = map_option (\<lambda>(b, c). (b, s\<lparr>s_conn := c\<rparr>)) (p_send ops dat (s_conn s))"

section \<open>Record protection\<close>

record keys =
  k_key :: bytes
  k_iv :: bytes

definition make_nonce :: "bytes \<Rightarrow> nat \<Rightarrow> bytes" where
  "make_nonce iv sq = take 4 iv @ xor_bytes (drop 4 iv) (be_of_nat 8 sq)"

definition seal_record :: "keys \<Rightarrow> nat \<Rightarrow> bytes \<Rightarrow> byte \<Rightarrow> bytes" where
  "seal_record k sq content_bytes inner_type =
     (let plain = content_bytes @ [inner_type];
          total_len = length plain + 16;
          hdr = [CT_APPLICATION_DATA, 0x03, 0x03, of_nat (total_len div 256), of_nat total_len];
          (ct, tag) = aead_seal (k_key k) (make_nonce (k_iv k) sq) hdr plain
      in hdr @ ct @ tag)"

definition open_record :: "keys \<Rightarrow> nat \<Rightarrow> bytes \<Rightarrow> bytes \<Rightarrow> (byte \<times> bytes) option" where
  "open_record k sq hdr body =
     (if length body < 16 then None
      else let ct_len = length body - 16;
               (good, buf) = aead_open (k_key k) (make_nonce (k_iv k) sq) hdr (take ct_len body) (drop ct_len body)
           in if \<not> good then None
              else let end_pos = length (dropWhile (\<lambda>b. b = 0) (rev buf))
                   in if end_pos = 0 then None
                      else Some (buf ! (end_pos - 1), take (end_pos - 1) buf))"

section \<open>Key schedule\<close>

definition traffic_keys :: "bytes \<Rightarrow> keys option" where
  "traffic_keys secret = do {
     key \<leftarrow> hkdf_expand_label secret (ascii ''key'') [] 32;
     iv \<leftarrow> hkdf_expand_label secret (ascii ''iv'') [] 12;
     Some \<lparr>k_key = key, k_iv = iv\<rparr>
   }"

definition empty_hash :: bytes where "empty_hash = sha256 []"

section \<open>ClientHello\<close>

text \<open>What \<open>push_u16_len\<close> appends when its closure appends \<open>xs\<close>.\<close>

definition u16_len :: "bytes \<Rightarrow> bytes" where
  "u16_len xs = [of_nat (length xs div 256), of_nat (length xs)] @ xs"

definition build_client_hello :: "bytes \<Rightarrow> bytes \<Rightarrow> bytes \<Rightarrow> bytes \<Rightarrow> bytes" where
  "build_client_hello host client_random session_id pubkey =
     (let b = [0x03, 0x03] @ client_random @ [32] @ session_id @ [0x00, 0x02, 0x13, 0x03] @ [0x01, 0x00]
            @ u16_len
                ([0x00, 0x00] @ u16_len (u16_len ([0x00] @ u16_len host))
                 @ [0x00, 0x0a] @ u16_len (u16_len [0x00, 0x1d])
                 @ [0x00, 0x0d] @ u16_len (u16_len [0x04, 0x03, 0x08, 0x04, 0x04, 0x01, 0x08, 0x05, 0x08, 0x06, 0x05, 0x03, 0x06, 0x03, 0x02, 0x01])
                 @ [0x00, 0x2b] @ u16_len [0x02, 0x03, 0x04]
                 @ [0x00, 0x2d] @ u16_len [0x01, 0x01]
                 @ [0x00, 0x33] @ u16_len (u16_len ([0x00, 0x1d] @ u16_len pubkey)))
      in [HS_CLIENT_HELLO, of_nat (length b div 65536), of_nat (length b div 256), of_nat (length b)] @ b)"

section \<open>ServerHello and Certificate\<close>

function sh_extensions :: "bytes \<Rightarrow> nat \<Rightarrow> nat \<Rightarrow> bytes option option" where
  "sh_extensions body ext_end i =
     (if i + 4 \<le> ext_end then
        (case (u16_at body i, u16_at body (i + 2)) of
           (Some etype, Some elen) \<Rightarrow>
             if ext_end < i + 4 + elen then Some None
             else (case (if etype = 0x0033 \<and> 4 \<le> elen then
                           do { klen \<leftarrow> u16_at body (i + 4 + 2);
                                if klen = 32 \<and> i + 4 + 4 + 32 \<le> length body
                                then map_option Some (sub body (i + 4 + 4) (i + 4 + 4 + 32)) else Some None }
                         else Some None) of
                     None \<Rightarrow> None
                   | Some (Some k) \<Rightarrow> Some (Some k)
                   | Some None \<Rightarrow> sh_extensions body ext_end (i + 4 + elen))
         | _ \<Rightarrow> None)
      else Some None)"
  by auto
termination by (relation "measure (\<lambda>(body, e, i). e - i)") auto

declare sh_extensions.simps [simp del]

definition parse_server_hello :: "bytes \<Rightarrow> bytes option option" where
  "parse_server_hello msg =
     (if length msg < 4 \<or> msg ! 0 \<noteq> HS_SERVER_HELLO then Some None
      else let body = drop 4 msg; i = 2 + 32
           in if length body \<le> i then Some None
              else do {
                sid_len \<leftarrow> idx body i;
                let i = i + (1 + unat sid_len) + 2 + 1;
                (if length body < i + 2 then Some None
                 else do {
                   ext_total \<leftarrow> u16_at body i;
                   let i = i + 2;
                   sh_extensions body (min (i + ext_total) (length body)) i
                 })
              })"

function cert_entries :: "bytes \<Rightarrow> nat \<Rightarrow> nat \<Rightarrow> bytes list \<Rightarrow> bytes list option" where
  "cert_entries body end_pos p out =
     (if p + 3 \<le> end_pos then
        (case u24_at body p of
           None \<Rightarrow> None
         | Some clen \<Rightarrow>
             if end_pos < p + 3 + clen then Some out
             else (case sub body (p + 3) (p + 3 + clen) of
                     None \<Rightarrow> None
                   | Some der \<Rightarrow>
                       if end_pos < p + 3 + clen + 2 then Some (out @ [der])
                       else (case u16_at body (p + 3 + clen) of
                               None \<Rightarrow> None
                             | Some ext_len \<Rightarrow> cert_entries body end_pos (p + 3 + clen + (2 + ext_len)) (out @ [der]))))
      else Some out)"
  by auto
termination by (relation "measure (\<lambda>(body, e, p, out). e - p)") auto

declare cert_entries.simps [simp del]

definition parse_cert_list :: "bytes \<Rightarrow> bytes list \<Rightarrow> bytes list option" where
  "parse_cert_list body out =
     (if body = [] then Some out
      else let p = 1 + unat (body ! 0)
           in if length body < p + 3 then Some out
              else do {
                list_len \<leftarrow> u24_at body p;
                let p = p + 3;
                cert_entries body (min (p + list_len) (length body)) p out
              })"

section \<open>The handshake\<close>

text \<open>
  Reading ServerHello: the loop goes on while the peer sends ChangeCipherSpec. The result is the
  server's key share and the transcript with the record's body in it.
\<close>

partial_function (option) server_hello ::
  "'c pipe \<Rightarrow> u32 list md \<Rightarrow> 'c stream \<Rightarrow> ((bytes \<times> u32 list md) option \<times> 'c stream) option" where
  "server_hello ops transcript s =
     (case read_record ops s of
        None \<Rightarrow> None
      | Some (None, s) \<Rightarrow> Some (None, s)
      | Some (Some (typ, hdr, body), s) \<Rightarrow>
          if typ = CT_CHANGE_CIPHER_SPEC then server_hello ops transcript s
          else if typ = CT_ALERT then Some (None, s)
          else if typ = CT_HANDSHAKE then
            (case parse_server_hello body of
               None \<Rightarrow> None
             | Some None \<Rightarrow> Some (None, s)
             | Some (Some k) \<Rightarrow> Some (Some (k, sha256_update transcript body), s))
          else Some (None, s))"

record hs_secrets =
  hs_secret :: bytes
  c_hs_secret :: bytes
  s_hs_secret :: bytes
  c_hs :: keys
  s_hs :: keys

definition handshake_secrets :: "bytes \<Rightarrow> bytes \<Rightarrow> hs_secrets option" where
  "handshake_secrets shared th_chsh =
     (let zero = replicate 32 0; early_secret = hkdf_extract zero zero
      in do {
        derived \<leftarrow> derive_secret early_secret (ascii ''derived'') empty_hash;
        let handshake_secret = hkdf_extract derived shared;
        c \<leftarrow> derive_secret handshake_secret (ascii ''c hs traffic'') th_chsh;
        s \<leftarrow> derive_secret handshake_secret (ascii ''s hs traffic'') th_chsh;
        ck \<leftarrow> traffic_keys c;
        sk \<leftarrow> traffic_keys s;
        Some \<lparr>hs_secret = handshake_secret, c_hs_secret = c, s_hs_secret = s, c_hs = ck, s_hs = sk\<rparr>
      })"

text \<open>The verify data of a Finished message under a traffic secret.\<close>

definition finished_mac :: "bytes \<Rightarrow> bytes \<Rightarrow> bytes option" where
  "finished_mac secret th = do {
     fin_key \<leftarrow> hkdf_expand_label secret (ascii ''finished'') [] 32;
     Some (hmac_sha256 fin_key th)
   }"

text \<open>The loop over the complete handshake messages in \<open>hs_acc\<close>.\<close>

datatype flight = More bytes "u32 list md" "bytes list" | Done "u32 list md" "bytes list" | Bad

function hs_drain :: "bytes \<Rightarrow> bytes \<Rightarrow> u32 list md \<Rightarrow> bytes list \<Rightarrow> flight option" where
  "hs_drain secret acc transcript chain =
     (if length acc < 4 then Some (More acc transcript chain)
      else case u24_at acc 1 of
        None \<Rightarrow> None
      | Some mlen \<Rightarrow>
          if length acc < 4 + mlen then Some (More acc transcript chain)
          else let mtype = acc ! 0; msg = take (4 + mlen) acc; acc = drop (4 + mlen) acc
               in if mtype = HS_FINISHED then
                    (case finished_mac secret (sha256_finalize transcript) of
                       None \<Rightarrow> None
                     | Some expect \<Rightarrow>
                         if length msg < 4 + 32 \<or> expect \<noteq> slice msg 4 (4 + 32) then Some Bad
                         else Some (Done (sha256_update transcript msg) chain))
                  else (case (if mtype = HS_CERTIFICATE then parse_cert_list (drop 4 msg) chain else Some chain) of
                          None \<Rightarrow> None
                        | Some chain \<Rightarrow> hs_drain secret acc (sha256_update transcript msg) chain))"
  by auto
termination by (relation "measure (\<lambda>(sec, acc, tr, chain). length acc)") auto

declare hs_drain.simps [simp del]

text \<open>The loop over the records of the server's flight; \<open>g\<close> is what is left of the 64 rounds.\<close>

fun server_flight ::
  "'c pipe \<Rightarrow> hs_secrets \<Rightarrow> nat \<Rightarrow> nat \<Rightarrow> bytes \<Rightarrow> u32 list md \<Rightarrow> bytes list \<Rightarrow> 'c stream
    \<Rightarrow> ((u32 list md \<times> bytes list) option \<times> 'c stream) option" where
  "server_flight ops sec 0 srv_seq acc transcript chain s = Some (None, s)"
| "server_flight ops sec (Suc g) srv_seq acc transcript chain s =
     (case read_record ops s of
        None \<Rightarrow> None
      | Some (None, s) \<Rightarrow> Some (None, s)
      | Some (Some (typ, hdr, body), s) \<Rightarrow>
          if typ = CT_CHANGE_CIPHER_SPEC then server_flight ops sec g srv_seq acc transcript chain s
          else if typ = CT_ALERT then Some (None, s)
          else if typ \<noteq> CT_APPLICATION_DATA then Some (None, s)
          else (case open_record (s_hs sec) srv_seq hdr body of
                  None \<Rightarrow> Some (None, s)
                | Some (inner_type, plain) \<Rightarrow>
                    if inner_type = CT_ALERT then Some (None, s)
                    else if inner_type \<noteq> CT_HANDSHAKE then server_flight ops sec g (srv_seq + 1) acc transcript chain s
                    else (case hs_drain (s_hs_secret sec) (acc @ plain) transcript chain of
                            None \<Rightarrow> None
                          | Some Bad \<Rightarrow> Some (None, s)
                          | Some (Done transcript chain) \<Rightarrow> Some (Some (transcript, chain), s)
                          | Some (More acc transcript chain) \<Rightarrow>
                              server_flight ops sec g (srv_seq + 1) acc transcript chain s)))"

section \<open>The request\<close>

fun dec_digits :: "nat \<Rightarrow> bytes" where
  "dec_digits n = (if n < 10 then [of_nat (48 + n)] else of_nat (48 + n mod 10) # dec_digits (n div 10))"

declare dec_digits.simps [simp del]

text \<open>The digits go into a ten-byte array, least significant first.\<close>

definition build_request :: "bytes \<Rightarrow> bytes \<Rightarrow> bytes \<Rightarrow> bytes \<Rightarrow> bytes \<Rightarrow> bytes option" where
  "build_request meth host path content_type body =
     (let safe_path = (if path = [] then ascii ''/'' else path);
          crlf = [13, 10];
          req = meth @ [32] @ safe_path @ ascii '' HTTP/1.1'' @ crlf @ ascii ''Host: '' @ host
            @ crlf @ ascii ''User-Agent: RustyPenguin/2.7'' @ crlf @ ascii ''Accept: */*'' @ crlf @ ascii ''Connection: close'' @ crlf
      in if body = [] then Some (req @ crlf @ body)
         else if 10 < length (dec_digits (length body)) then None
         else Some (req @ ascii ''Content-Type: '' @ content_type @ crlf @ ascii ''Content-Length: ''
                      @ rev (dec_digits (length body)) @ crlf @ crlf @ body))"

text \<open>The loop over the records of the response; \<open>out\<close> is the written part of a buffer of \<open>cap\<close> bytes.\<close>

fun read_response :: "'c pipe \<Rightarrow> keys \<Rightarrow> nat \<Rightarrow> nat \<Rightarrow> nat \<Rightarrow> bytes \<Rightarrow> 'c stream \<Rightarrow> (bytes \<times> 'c stream) option" where
  "read_response ops k cap 0 rcv_seq out s = Some (out, s)"
| "read_response ops k cap (Suc g) rcv_seq out s =
     (case read_record ops s of
        None \<Rightarrow> None
      | Some (None, s) \<Rightarrow> Some (out, s)
      | Some (Some (typ, hdr, body), s) \<Rightarrow>
          if typ = CT_CHANGE_CIPHER_SPEC then read_response ops k cap g rcv_seq out s
          else if typ \<noteq> CT_APPLICATION_DATA then Some (out, s)
          else (case open_record k rcv_seq hdr body of
                  None \<Rightarrow> Some (out, s)
                | Some (inner_type, plain) \<Rightarrow>
                    if inner_type = CT_APPLICATION_DATA then
                      (let out = out @ take (cap - length out) plain
                       in if cap \<le> length out then Some (out, s)
                          else read_response ops k cap g (rcv_seq + 1) out s)
                    else if inner_type = CT_ALERT then Some (out, s)
                    else read_response ops k cap g (rcv_seq + 1) out s))"

record request =
  rq_host :: bytes
  rq_method :: bytes
  rq_path :: bytes
  rq_type :: bytes
  rq_body :: bytes
  rq_cap :: nat

text \<open>What the client brings: the random bytes of the session, trust anchors and clock.\<close>

record session =
  ss_priv :: bytes
  ss_random :: bytes
  ss_id :: bytes
  ss_anchors :: "bytes list"
  ss_now :: nat

text \<open>Steps 5 to 7, once the server's flight is accepted: application keys, Finished, request, response.\<close>

definition tls_exchange ::
  "'c pipe \<Rightarrow> hs_secrets \<Rightarrow> u32 list md \<Rightarrow> request \<Rightarrow> 'c stream \<Rightarrow> (bytes option \<times> 'c stream) option" where
  "tls_exchange ops sec transcript rq s =
     (let th_sfin = sha256_finalize transcript
      in do {
        derived2 \<leftarrow> derive_secret (hs_secret sec) (ascii ''derived'') empty_hash;
        let master_secret = hkdf_extract derived2 (replicate 32 0);
        c_ap_secret \<leftarrow> derive_secret master_secret (ascii ''c ap traffic'') th_sfin;
        s_ap_secret \<leftarrow> derive_secret master_secret (ascii ''s ap traffic'') th_sfin;
        c_ap \<leftarrow> traffic_keys c_ap_secret;
        s_ap \<leftarrow> traffic_keys s_ap_secret;
        verify \<leftarrow> finished_mac (c_hs_secret sec) th_sfin;
        (sent_fin, s) \<leftarrow> send_raw ops (seal_record (c_hs sec) 0 ([HS_FINISHED, 0, 0, 32] @ verify) CT_HANDSHAKE) s;
        (if \<not> sent_fin then Some (None, s)
         else do {
           req \<leftarrow> build_request (rq_method rq) (rq_host rq) (rq_path rq) (rq_type rq) (rq_body rq);
           (sent_req, s) \<leftarrow> send_raw ops (seal_record c_ap 0 req CT_APPLICATION_DATA) s;
           (if \<not> sent_req then Some (None, s)
            else do {
              (out, s) \<leftarrow> read_response ops s_ap (rq_cap rq) 4096 0 [] s;
              c \<leftarrow> p_close ops (s_conn s);
              Some (if out \<noteq> [] then Some out else None, s\<lparr>s_conn := c\<rparr>)
            })
         })
      })"

definition tls_session :: "'c pipe \<Rightarrow> session \<Rightarrow> request \<Rightarrow> 'c \<Rightarrow> (bytes option \<times> 'c stream) option" where
  "tls_session ops ss rq c =
     (let s = stream_new c;
          ch = build_client_hello (rq_host rq) (ss_random ss) (ss_id ss) (x25519_base (ss_priv ss));
          transcript = sha256_update sha256_new ch;
          ch_rec = [CT_HANDSHAKE, 0x03, 0x01, of_nat (length ch div 256), of_nat (length ch)] @ ch
      in do {
        (sent_ch, s) \<leftarrow> send_raw ops ch_rec s;
        (if \<not> sent_ch then Some (None, s)
         else do {
           (hello, s) \<leftarrow> server_hello ops transcript s;
           (case hello of
              None \<Rightarrow> Some (None, s)
            | Some (server_pub, transcript) \<Rightarrow> do {
                sec \<leftarrow> handshake_secrets (x25519 (ss_priv ss) server_pub) (sha256_finalize transcript);
                (_, s) \<leftarrow> send_raw ops [CT_CHANGE_CIPHER_SPEC, 0x03, 0x03, 0x00, 0x01, 0x01] s;
                (fl, s) \<leftarrow> server_flight ops sec 64 0 [] transcript [] s;
                (case fl of
                   None \<Rightarrow> Some (None, s)
                 | Some (transcript, chain) \<Rightarrow>
                     if validate_chain (ss_anchors ss) (ss_now ss) chain (rq_host rq) \<noteq> V_Ok then Some (None, s)
                     else tls_exchange ops sec transcript rq s)
              })
         })
      })"

section \<open>HTTPS over TcpConn\<close>

definition https_request ::
  "(nat \<Rightarrow> u64) \<Rightarrow> bytes list \<Rightarrow> nat \<Rightarrow> request \<Rightarrow> net \<Rightarrow> (bytes option \<times> net) option" where
  "https_request tsc anchors now rq st = do {
     (ip, st) \<leftarrow> resolve_host (rq_host rq) st;
     (case ip of
        None \<Rightarrow> Some (None, st)
      | Some ip \<Rightarrow> do {
          (conn, st) \<leftarrow> tcp_connect ip 443 st;
          (case conn of
             None \<Rightarrow> Some (None, st)
           | Some conn \<Rightarrow>
               let ss = \<lparr>ss_priv = rand_bytes tsc 0 32, ss_random = rand_bytes tsc 2 32, ss_id = rand_bytes tsc 4 32,
                         ss_anchors = anchors, ss_now = now\<rparr>
               in map_option (\<lambda>(r, s). (r, snd (s_conn s))) (tls_session tcp_pipe ss rq (conn, st)))
        })
   }"

definition https_get ::
  "(nat \<Rightarrow> u64) \<Rightarrow> bytes list \<Rightarrow> nat \<Rightarrow> bytes \<Rightarrow> bytes \<Rightarrow> nat \<Rightarrow> net \<Rightarrow> (bytes option \<times> net) option" where
  "https_get tsc anchors now host path cap =
     https_request tsc anchors now
       \<lparr>rq_host = host, rq_method = ascii ''GET'', rq_path = path, rq_type = [], rq_body = [], rq_cap = cap\<rparr>"

definition https_post ::
  "(nat \<Rightarrow> u64) \<Rightarrow> bytes list \<Rightarrow> nat \<Rightarrow> bytes \<Rightarrow> bytes \<Rightarrow> bytes \<Rightarrow> bytes \<Rightarrow> nat \<Rightarrow> net \<Rightarrow> (bytes option \<times> net) option" where
  "https_post tsc anchors now host path content_type body cap =
     https_request tsc anchors now
       \<lparr>rq_host = host, rq_method = ascii ''POST'', rq_path = path, rq_type = content_type, rq_body = body, rq_cap = cap\<rparr>"

end
