(* ===== verification/Net_Frames.thy ===== *)
theory Net_Frames
  imports Net
begin

lemma list_update_num [simp]: "(x # xs)[numeral k := v] = x # xs[pred_numeral k := v]"
  by (simp add: numeral_eq_Suc)

lemma replicate_num: "replicate (numeral k) x = x # replicate (pred_numeral k) x"
  by (simp add: numeral_eq_Suc)

lemma length4: "length xs = 4 \<Longrightarrow> \<exists>a b c d. xs = [a, b, c, d]"
proof -
  have "(4 :: nat) = Suc (Suc (Suc (Suc 0)))" by simp
  then show "length xs = 4 \<Longrightarrow> ?thesis" by (simp only: length_Suc_conv length_0_conv) blast
qed

lemma length6: "length xs = 6 \<Longrightarrow> \<exists>a b c d e f. xs = [a, b, c, d, e, f]"
proof -
  have "(6 :: nat) = Suc (Suc (Suc (Suc (Suc (Suc 0)))))" by simp
  then show "length xs = 6 \<Longrightarrow> ?thesis" by (simp only: length_Suc_conv length_0_conv) blast
qed

abbreviation hi :: "nat \<Rightarrow> byte" where "hi v \<equiv> of_nat (v div 256)"
abbreviation lo :: "nat \<Rightarrow> byte" where "lo v \<equiv> of_nat v"

definition ip_head :: "nat \<Rightarrow> byte \<Rightarrow> bytes \<Rightarrow> bytes \<Rightarrow> nat \<Rightarrow> bytes" where
  "ip_head len proto src dst ck =
     [0x45, 0, hi len, lo len, 0, 0, 0x40, 0, 64, proto, hi ck, lo ck] @ src @ dst"

definition tcp_head :: "nat \<Rightarrow> nat \<Rightarrow> u32 \<Rightarrow> u32 \<Rightarrow> byte \<Rightarrow> nat \<Rightarrow> bytes" where
  "tcp_head sport dport sq ack flags ck =
     [hi sport, lo sport, hi dport, lo dport] @ be_of_nat 4 (unat sq) @ be_of_nat 4 (unat ack)
       @ [0x50, flags, 0x20, 0, hi ck, lo ck, 0, 0]"

lemma tcp_fields_layout:
  assumes "length dm = 6" "length sm = 6" "54 + length payload \<le> length f"
  shows "tcp_fields f dm sm dport sq ack flags payload =
    dm @ sm @ [8, 0] @ replicate 20 0 @ tcp_head OUR_PORT dport sq ack flags 0 @ payload
      @ replicate (length f - (54 + length payload)) 0"
proof -
  obtain d0 d1 d2 d3 d4 d5 where d: "dm = [d0, d1, d2, d3, d4, d5]" using length6 [OF assms(1)] by blast
  obtain s0 s1 s2 s3 s4 s5 where s: "sm = [s0, s1, s2, s3, s4, s5]" using length6 [OF assms(2)] by blast
  obtain q0 q1 q2 q3 where q: "be_of_nat 4 (unat sq) = [q0, q1, q2, q3]" using length4 [OF length_be_of_nat] by blast
  obtain a0 a1 a2 a3 where a: "be_of_nat 4 (unat ack) = [a0, a1, a2, a3]" using length4 [OF length_be_of_nat] by blast
  define r where "r = length f - (54 + length payload)"
  have f: "length f = 54 + (length payload + r)" using assms(3) by (simp add: r_def)
  have z: "replicate (length f) (0 :: byte) = replicate 54 0 @ replicate (length payload) 0 @ replicate r 0"
    unfolding f replicate_add ..
  have dd: "drop (54 + k) xs = drop k (drop 54 xs)" for k and xs :: bytes by (simp add: add.commute)
  show ?thesis
    unfolding tcp_fields_def z r_def [symmetric] tcp_head_def Let_def put16_def q a blit_def
    by (simp add: d s replicate_num dd)
qed

lemma ipv4_header_layout:
  assumes "length src = 4" "length dst = 4" "length pre = 14"
  shows "ipv4_header (pre @ replicate 20 0 @ rest) len proto src dst =
    pre @ ip_head len proto src dst (inet_checksum (ip_head len proto src dst 0)) @ rest"
proof -
  obtain a0 a1 a2 a3 where a: "src = [a0, a1, a2, a3]" using length4 [OF assms(1)] by blast
  obtain b0 b1 b2 b3 where b: "dst = [b0, b1, b2, b3]" using length4 [OF assms(2)] by blast
  have u: "(pre @ xs)[k := v] = pre @ xs[k - 14 := v]" if "14 \<le> k" for k v xs
    using that assms(3) by (simp add: list_update_append)
  have bl: "blit (pre @ xs) k ys = pre @ blit xs (k - 14) ys" if "14 \<le> k" for k xs ys
    using that assms(3) by (simp add: blit_def)
  have sl: "slice (pre @ xs) 14 34 = take 20 xs" for xs using assms(3) by (simp add: slice_def)
  show ?thesis
    unfolding ipv4_header_def put16_def Let_def ip_head_def
    by (simp add: u bl sl a b replicate_num) (simp add: blit_def)
qed

section \<open>The checksum\<close>

text \<open>The sum of big-endian 16-bit words, an odd last byte taken as a high byte.\<close>

fun word_sum :: "bytes \<Rightarrow> nat" where
  "word_sum [] = 0"
| "word_sum [a] = unat a * 256"
| "word_sum (a # b # xs) = unat a * 256 + unat b + word_sum xs"

lemma sum16_eq: "s + 65536 * length xs < 4294967296 \<Longrightarrow> sum16 s xs = s + word_sum xs"
proof (induction s xs rule: sum16.induct)
  case (2 s a)
  have "s + 65536 < 4294967296" using 2 by simp
  then have "s + unat a * 256 < 4294967296" using byte_lt [of a] by linarith
  then show ?case by simp
next
  case (3 s a b xs)
  have "unat a * 256 + unat b < 65536" using byte_lt [of a] byte_lt [of b] by linarith
  then have "u32_add s (unat a * 256 + unat b) = s + (unat a * 256 + unat b)"
    "s + (unat a * 256 + unat b) + 65536 * length xs < 4294967296" using "3.prems" by simp_all
  then show ?case using "3.IH" by simp
qed simp

lemma fold_carry_spec:
  "fold_carry s \<le> 65535" "fold_carry s \<le> s" "fold_carry s mod 65535 = s mod 65535" "fold_carry s = 0 \<longleftrightarrow> s = 0"
proof -
  have "fold_carry s \<le> 65535 \<and> fold_carry s \<le> s \<and> fold_carry s mod 65535 = s mod 65535 \<and> (fold_carry s = 0 \<longleftrightarrow> s = 0)"
  proof (induction s rule: fold_carry.induct)
    case (1 s)
    show ?case
    proof (cases "s div 65536 = 0")
      case True
      then have "s \<le> 65535" by (simp add: div_eq_0_iff)
      moreover have "fold_carry s = s" using True by (subst fold_carry.simps) simp
      ultimately show ?thesis by simp
    next
      case False
      define q r where "q = s div 65536" and "r = s mod 65536"
      have s: "s = q * 65535 + (r + q)" using div_mult_mod_eq [of s 65536] by (simp add: q_def r_def)
      have "fold_carry s = fold_carry (r + q)" using False by (subst fold_carry.simps) (simp add: q_def r_def)
      moreover have "s mod 65535 = (r + q) mod 65535" unfolding s by (rule mod_mult_self3)
      moreover have "r + q \<noteq> 0" using False by (simp add: q_def)
      moreover have "s \<noteq> 0" using False by (rule contrapos_nn) simp
      moreover have "r + q \<le> s" using s by linarith
      ultimately show ?thesis using "1.IH" [OF False, folded q_def r_def] by simp
    qed
  qed
  then show "fold_carry s \<le> 65535" "fold_carry s \<le> s" "fold_carry s mod 65535 = s mod 65535" "fold_carry s = 0 \<longleftrightarrow> s = 0"
    by simp_all
qed

text \<open>Adding the complement of the folded sum folds to all ones.\<close>

lemma fold_carry_complement: "fold_carry (s + (65535 - fold_carry s)) = 65535"
proof -
  define f where "f = fold_carry s"
  note f = fold_carry_spec [of s, folded f_def]
  define g where "g = fold_carry (s + (65535 - f))"
  note g = fold_carry_spec [of "s + (65535 - f)", folded g_def]
  have e: "s + (65535 - f) = s - f + 65535" using f(1,2) by simp
  have "(s - f) mod 65535 = 0" using f(2,3) mod_eq_dvd_iff_nat [of f s 65535] by simp
  then have "(s + (65535 - f)) mod 65535 = 0" unfolding e by simp
  then have "65535 dvd g" using g(3) by (simp add: dvd_eq_mod_eq_0)
  then obtain k where k: "g = 65535 * k" by (rule dvdE)
  moreover have "g \<noteq> 0" unfolding g(4) e by simp
  ultimately have "k = 1" using g(1) by (cases k) auto
  then show ?thesis using k by (simp add: g_def f_def)
qed

lemma word_sum_append: "even (length xs) \<Longrightarrow> word_sum (xs @ ys) = word_sum xs + word_sum ys"
  by (induction xs rule: word_sum.induct) auto

lemma word_of_bytes: "v < 65536 \<Longrightarrow> unat (hi v) * 256 + unat (lo v) = v"
  by (simp add: unat_of_nat)

lemma word_sum_field:
  assumes "even (length xs)" "v < 65536"
  shows "word_sum (xs @ [hi v, lo v] @ ys) = word_sum (xs @ [0, 0] @ ys) + v"
proof -
  have "word_sum ([hi v, lo v] @ ys) = unat (hi v) * 256 + unat (lo v) + word_sum ys" by simp
  also have "\<dots> = v + word_sum ys" unfolding word_of_bytes [OF assms(2)] ..
  finally show ?thesis using assms(1) by (simp only: word_sum_append) simp
qed

lemma inet_checksum_field:
  assumes "even (length xs)" "length xs + length ys < 60000"
  shows "inet_checksum (xs @ [hi (inet_checksum (xs @ [0, 0] @ ys)), lo (inet_checksum (xs @ [0, 0] @ ys))] @ ys) = 0"
proof -
  define s where "s = word_sum (xs @ [0, 0] @ ys)"
  have c: "inet_checksum (xs @ [0, 0] @ ys) = 65535 - fold_carry s"
    using assms(2) by (simp add: inet_checksum_def sum16_eq s_def)
  have "word_sum (xs @ [hi (65535 - fold_carry s), lo (65535 - fold_carry s)] @ ys) = s + (65535 - fold_carry s)"
    unfolding s_def by (rule word_sum_field [OF assms(1)]) simp
  then show ?thesis unfolding c using assms(2)
    by (simp add: inet_checksum_def sum16_eq fold_carry_complement)
qed

definition pseudo_sum :: "bytes \<Rightarrow> bytes \<Rightarrow> nat \<Rightarrow> nat" where
  "pseudo_sum src dst n = be16_at src 0 + be16_at src 2 + be16_at dst 0 + be16_at dst 2 + unat PROTO_TCP + n"

lemma be16_bound: "be16_at xs i < 65536"
  using byte_lt [of "xs ! i"] byte_lt [of "xs ! (i + 1)"] unfolding be16_at_def by linarith

lemma tcp_checksum_eq:
  assumes "length seg < 60000"
  shows "tcp_checksum src dst seg = 65535 - fold_carry (pseudo_sum src dst (length seg) + word_sum seg)"
proof -
  define a b c d where "a = be16_at src 0" and "b = be16_at src 2" and "c = be16_at dst 0" and "d = be16_at dst 2"
  have bd: "a < 65536" "b < 65536" "c < 65536" "d < 65536" using be16_bound by (simp_all add: a_def b_def c_def d_def)
  have p: "unat PROTO_TCP = 6" by (simp add: PROTO_TCP_def)
  have "u32_add (u32_add (u32_add (u32_add (u32_add (u32_add 0 a) b) c) d) 6) (length seg mod 4294967296)
      = pseudo_sum src dst (length seg)"
    using bd assms by (simp add: pseudo_sum_def a_def b_def c_def d_def p u32_add_id)
  moreover have "pseudo_sum src dst (length seg) + 65536 * length seg < 4294967296"
    using bd assms by (simp add: pseudo_sum_def a_def [symmetric] b_def [symmetric] c_def [symmetric] d_def [symmetric] p)
  ultimately show ?thesis
    unfolding tcp_checksum_def Let_def a_def [symmetric] b_def [symmetric] c_def [symmetric] d_def [symmetric] p
    by (simp add: sum16_eq)
qed

lemma tcp_checksum_field:
  assumes "even (length xs)" "length xs + length ys < 50000"
  shows "tcp_checksum src dst (xs @ [hi (tcp_checksum src dst (xs @ [0, 0] @ ys)), lo (tcp_checksum src dst (xs @ [0, 0] @ ys))] @ ys) = 0"
proof -
  define n where "n = length xs + 2 + length ys"
  define s where "s = pseudo_sum src dst n + word_sum (xs @ [0, 0] @ ys)"
  have c: "tcp_checksum src dst (xs @ [0, 0] @ ys) = 65535 - fold_carry s"
    using assms(2) by (subst tcp_checksum_eq) (simp_all add: s_def n_def)
  have "pseudo_sum src dst n + word_sum (xs @ [hi (65535 - fold_carry s), lo (65535 - fold_carry s)] @ ys) = s + (65535 - fold_carry s)"
    unfolding s_def by (subst word_sum_field [OF assms(1)]) simp_all
  then show ?thesis unfolding c using assms(2)
    by (subst tcp_checksum_eq) (simp_all add: fold_carry_complement n_def)
qed

section \<open>Reading what was built\<close>

text \<open>What a receiver sees of a segment: the header fields, the payload, both checksums right.\<close>

definition tcp_frame :: "bytes \<Rightarrow> bytes \<Rightarrow> bytes \<Rightarrow> bytes \<Rightarrow> nat \<Rightarrow> nat \<Rightarrow> u32 \<Rightarrow> u32 \<Rightarrow> byte \<Rightarrow> bytes \<Rightarrow> bytes" where
  "tcp_frame dm sm src dst sport dport sq ack flags payload =
     dm @ sm @ [8, 0]
       @ ip_head (40 + length payload) PROTO_TCP src dst (inet_checksum (ip_head (40 + length payload) PROTO_TCP src dst 0))
       @ tcp_head sport dport sq ack flags (tcp_checksum src dst (tcp_head sport dport sq ack flags 0 @ payload))
       @ payload"

lemma length_heads [simp]:
  "length src = 4 \<Longrightarrow> length dst = 4 \<Longrightarrow> length (ip_head len proto src dst ck) = 20"
  "length (tcp_head sport dport sq ack flags ck) = 20"
  by (simp_all add: ip_head_def tcp_head_def)

lemma length_tcp_frame [simp]:
  "length dm = 6 \<Longrightarrow> length sm = 6 \<Longrightarrow> length src = 4 \<Longrightarrow> length dst = 4 \<Longrightarrow>
   length (tcp_frame dm sm src dst sport dport sq ack flags payload) = 54 + length payload"
  by (simp add: tcp_frame_def)

lemma build_tcp_frame:
  assumes "length dm = 6" "length sm = 6" "length src = 4" "length dst = 4"
    "54 + length payload \<le> length f" "length payload < 60000"
  shows "\<exists>g. build_tcp f dm sm src dst dport sq ack flags payload = Some (g, 54 + length payload) \<and>
    take (54 + length payload) g = tcp_frame dm sm src dst OUR_PORT dport sq ack flags payload"
proof -
  define pre where "pre = dm @ sm @ [8, 0]"
  have pre: "length pre = 14" using assms(1,2) by (simp add: pre_def)
  define z where "z = replicate (length f - (54 + length payload)) (0 :: byte)"
  define h where "h = tcp_head OUR_PORT dport sq ack flags"
  have lh: "length (h ck) = 20" for ck by (simp add: h_def)
  define ck where "ck = tcp_checksum src dst (h 0 @ payload)"
  have f1: "tcp_fields f dm sm dport sq ack flags payload = pre @ replicate 20 0 @ h 0 @ payload @ z"
    using tcp_fields_layout [OF assms(1,2,5)] by (simp add: pre_def h_def z_def)
  have sl: "slice (pre @ replicate 20 0 @ h 0 @ payload @ z) 34 (34 + (20 + length payload)) = h 0 @ payload"
    using pre lh by (simp add: slice_def)
  have hk: "put16 (h 0 @ xs) 16 k = h k @ xs" for k xs
    using length4 [OF length_be_of_nat [of 4 "unat sq"]] length4 [OF length_be_of_nat [of 4 "unat ack"]]
    by (auto simp: h_def tcp_head_def put16_def)
  have f2: "put16 (pre @ replicate 20 0 @ h 0 @ payload @ z) 50 ck = pre @ replicate 20 0 @ h ck @ payload @ z"
  proof -
    have "put16 (ys @ xs) (length ys + 16) ck = ys @ put16 xs 16 ck" for ys xs
      by (simp add: put16_def list_update_append)
    from this [of "pre @ replicate 20 0" "h 0 @ payload @ z"] show ?thesis using pre hk by simp
  qed
  have nl: "\<not> length f < 54 + length payload" using assms(5) by simp
  have l: "(20 + (20 + length payload)) mod 65536 = 40 + length payload" using assms(6) by simp
  define g where "g = tcp_frame dm sm src dst OUR_PORT dport sq ack flags payload"
  have "length g = 54 + length payload" using assms(1-4) by (simp add: g_def)
  then have "take (54 + length payload) (g @ z) = g" by simp
  moreover have "build_tcp f dm sm src dst dport sq ack flags payload = Some (g @ z, 54 + length payload)"
    unfolding build_tcp_def if_not_P [OF nl] Let_def f1 sl ck_def [symmetric] f2 ipv4_header_layout [OF assms(3,4) pre] l
    by (simp add: g_def tcp_frame_def pre_def h_def ck_def)
  ultimately show ?thesis unfolding g_def by blast
qed

lemma of_nat_be4: "of_nat (nat_of_be (be_of_nat 4 (unat w))) = (w :: u32)"
proof -
  have "unat w < 256 ^ 4" using unsigned_less [of w] by simp
  then show ?thesis by (simp add: nat_of_be_of_nat del: power_numeral)
qed

lemma parse_tcp_frame:
  assumes "length dm = 6" "length sm = 6" "length src = 4" "length dst = 4" "length payload < 60000"
  shows "parse_tcp (tcp_frame dm sm src dst sport OUR_PORT sq ack flags payload) = Some (sq, ack, flags, 54, length payload)"
    "slice (tcp_frame dm sm src dst sport dport sq ack flags payload) 54 (54 + length payload) = payload"
proof -
  let ?p = "tcp_frame dm sm src dst sport OUR_PORT sq ack flags payload"
  define ck where "ck = inet_checksum (ip_head (40 + length payload) PROTO_TCP src dst 0)"
  define tk where "tk = tcp_checksum src dst (tcp_head sport OUR_PORT sq ack flags 0 @ payload)"
  have at: "?p ! (14 + i) = (ip_head (40 + length payload) PROTO_TCP src dst ck @ tcp_head sport OUR_PORT sq ack flags tk @ payload) ! i" for i
    using assms by (simp add: tcp_frame_def ck_def tk_def nth_append)
  have ip: "?p ! (14 + i) = ip_head (40 + length payload) PROTO_TCP src dst ck ! i" if "i < 20" for i
    using at [of i] that assms by (simp add: nth_append)
  have tcp: "?p ! (34 + i) = tcp_head sport OUR_PORT sq ack flags tk ! i" if "i < 20" for i
    using at [of "20 + i"] that assms by (simp add: nth_append)
  have eth: "?p ! 12 = 8" "?p ! 13 = 0" using assms by (simp_all add: tcp_frame_def nth_append)
  have pr: "?p ! 23 = PROTO_TCP" using ip [of 9] by (simp add: ip_head_def)
  have tl: "be16_at ?p 16 = 40 + length payload"
    using ip [of 2] ip [of 3] word_of_bytes [of "40 + length payload"] assms(5) by (simp add: be16_at_def ip_head_def)
  have po: "?p ! 36 = hi OUR_PORT" "?p ! 37 = lo OUR_PORT" using tcp [of 2] tcp [of 3] by (simp_all add: tcp_head_def)
  have off: "?p ! 46 = 0x50" "?p ! 47 = flags" using tcp [of 12] tcp [of 13] by (simp_all add: tcp_head_def nth_append)
  have drop: "drop 34 ?p = tcp_head sport OUR_PORT sq ack flags tk @ payload"
    using assms by (simp add: tcp_frame_def tk_def)
  have sl: "slice ?p (34 + i) (34 + j) = slice (tcp_head sport OUR_PORT sq ack flags tk @ payload) i j" for i j
    unfolding slice_def drop [symmetric] by (simp add: add.commute)
  have fs: "slice ?p 38 42 = be_of_nat 4 (unat sq)" "slice ?p 42 46 = be_of_nat 4 (unat ack)"
    using sl [of 4 8] sl [of 8 12] by (simp_all add: slice_def tcp_head_def)
  have db: "unat (drop_bit 4 (0x50 :: byte)) = 5" by simp
  show "parse_tcp ?p = Some (sq, ack, flags, 54, length payload)"
    using assms eth pr po off tl fs db unfolding parse_tcp_def
    by (simp add: Let_def be32_at_def of_nat_be4)
  show "slice (tcp_frame dm sm src dst sport dport sq ack flags payload) 54 (54 + length payload) = payload"
    using assms by (simp add: tcp_frame_def slice_def)
qed

lemma tcp_frame_checksums:
  assumes "length dm = 6" "length sm = 6" "length src = 4" "length dst = 4" "length payload < 40000"
  shows "inet_checksum (slice (tcp_frame dm sm src dst sport dport sq ack flags payload) 14 34) = 0"
    "tcp_checksum src dst (drop 34 (tcp_frame dm sm src dst sport dport sq ack flags payload)) = 0"
proof -
  let ?len = "40 + length payload"
  have i: "ip_head ?len PROTO_TCP src dst k = [0x45, 0, hi ?len, lo ?len, 0, 0, 0x40, 0, 64, PROTO_TCP] @ [hi k, lo k] @ (src @ dst)" for k
    by (simp add: ip_head_def)
  have "slice (tcp_frame dm sm src dst sport dport sq ack flags payload) 14 34 =
      ip_head ?len PROTO_TCP src dst (inet_checksum (ip_head ?len PROTO_TCP src dst 0))"
    using assms by (simp add: tcp_frame_def slice_def)
  then show "inet_checksum (slice (tcp_frame dm sm src dst sport dport sq ack flags payload) 14 34) = 0"
    using inet_checksum_field [of "[0x45, 0, hi ?len, lo ?len, 0, 0, 0x40, 0, 64, PROTO_TCP]" "src @ dst"] assms
    unfolding i by simp
  define xs where "xs = [hi sport, lo sport, hi dport, lo dport] @ be_of_nat 4 (unat sq) @ be_of_nat 4 (unat ack) @ [0x50, flags, 0x20, 0]"
  have t: "tcp_head sport dport sq ack flags k @ payload = xs @ [hi k, lo k] @ ([0, 0] @ payload)" for k
    by (simp add: tcp_head_def xs_def)
  have "drop 34 (tcp_frame dm sm src dst sport dport sq ack flags payload) =
      tcp_head sport dport sq ack flags (tcp_checksum src dst (tcp_head sport dport sq ack flags 0 @ payload)) @ payload"
    using assms by (simp add: tcp_frame_def)
  moreover have "length xs = 16" by (simp add: xs_def)
  ultimately show "tcp_checksum src dst (drop 34 (tcp_frame dm sm src dst sport dport sq ack flags payload)) = 0"
    using tcp_checksum_field [of xs "[0, 0] @ payload" src dst] assms(5) unfolding t by simp
qed

end
