(* ===== verification/Tls_Stream.thy ===== *)
theory Tls_Stream
  imports Tls Net_Frames
begin

text \<open>
  The client over any connection that keeps the \<open>byte_pipe\<close> contract: records are read off the byte
  stream one after the other, every loop ends, and no step panics.
\<close>

unbundle bit_operations_syntax

section \<open>No index out of range\<close>

lemma idx_some: "i < length xs \<Longrightarrow> idx xs i = Some (xs ! i)"
  by (simp add: idx_def)

lemma u16_at_some: "i + 1 < length xs \<Longrightarrow> u16_at xs i = Some (be16_at xs i)"
  by (simp add: u16_at_def idx_some be16_at_def)

lemma u24_at_some: "i + 2 < length xs \<Longrightarrow> \<exists>v. u24_at xs i = Some v"
  by (simp add: u24_at_def idx_some)

lemma sub_some: "i \<le> j \<Longrightarrow> j \<le> length xs \<Longrightarrow> sub xs i j = Some (slice xs i j)"
  by (simp add: sub_def)

lemma sh_extensions_total: "e \<le> length body \<Longrightarrow> \<exists>r. sh_extensions body e i = Some r"
proof (induction body e i rule: sh_extensions.induct)
  case (1 body e i)
  show ?case
  proof (cases "i + 4 \<le> e")
    case True
    define elen where "elen = be16_at body (i + 2)"
    have u: "u16_at body i = Some (be16_at body i)" "u16_at body (i + 2) = Some elen"
      using True "1.prems" by (simp_all add: u16_at_some elen_def)
    show ?thesis
    proof (cases "e < i + 4 + elen")
      case False
      define f where "f = (if be16_at body i = 0x0033 \<and> 4 \<le> elen then
          do { klen \<leftarrow> u16_at body (i + 4 + 2);
               if klen = 32 \<and> i + 4 + 4 + 32 \<le> length body
               then map_option Some (sub body (i + 4 + 4) (i + 4 + 4 + 32)) else Some None }
          else Some (None :: bytes option))"
      have "f \<noteq> None" using False "1.prems" by (auto simp: f_def u16_at_some sub_some)
      then obtain x where x: "f = Some x" by blast
      have st: "sh_extensions body e i = (case f of None \<Rightarrow> None | Some (Some k) \<Rightarrow> Some (Some k)
          | Some None \<Rightarrow> sh_extensions body e (i + 4 + elen))"
        using True u False by (subst sh_extensions.simps) (simp add: f_def)
      show ?thesis
      proof (cases x)
        case None
        have "\<exists>r. sh_extensions body e (i + 4 + elen) = Some r"
          using "1.IH" [OF True refl u(1) u(2) False] x [unfolded f_def] None "1.prems" by simp
        then show ?thesis unfolding st x None by simp
      next
        case (Some k)
        then show ?thesis unfolding st x by simp
      qed
    next
      case True
      then show ?thesis using u by (subst sh_extensions.simps) simp
    qed
  next
    case False
    then show ?thesis by (subst sh_extensions.simps) simp
  qed
qed

lemma parse_server_hello_total: "\<exists>r. parse_server_hello msg = Some r"
proof -
  let ?body = "drop 4 msg"
  show ?thesis
  proof (cases "length msg < 4 \<or> msg ! 0 \<noteq> HS_SERVER_HELLO \<or> length ?body \<le> 34")
    case False
    define i where "i = 34 + (1 + unat (?body ! 34)) + 2 + 1"
    have b: "idx ?body 34 = Some (?body ! 34)" using False by (intro idx_some) simp
    show ?thesis
    proof (cases "length ?body < i + 2")
      case True
      then show ?thesis using False b by (simp add: parse_server_hello_def i_def Let_def)
    next
      case long: False
      have "u16_at ?body i = Some (be16_at ?body i)" using long by (intro u16_at_some) simp
      moreover obtain r where "sh_extensions ?body (min (i + 2 + be16_at ?body i) (length ?body)) (i + 2) = Some r"
        using sh_extensions_total [of "min (i + 2 + be16_at ?body i) (length ?body)" ?body "i + 2"] by auto
      ultimately have "parse_server_hello msg = Some r"
        unfolding parse_server_hello_def using False long b by (simp add: Let_def i_def)
      then show ?thesis ..
    qed
  qed (auto simp: parse_server_hello_def Let_def)
qed

lemma cert_entries_total: "e \<le> length body \<Longrightarrow> \<exists>r. cert_entries body e p out = Some r"
proof (induction body e p out rule: cert_entries.induct)
  case (1 body e p out)
  show ?case
  proof (cases "p + 3 \<le> e")
    case True
    obtain clen where c: "u24_at body p = Some clen" using u24_at_some [of p body] True "1.prems" by auto
    show ?thesis
    proof (cases "e < p + 3 + clen")
      case False
      have s: "sub body (p + 3) (p + 3 + clen) = Some (slice body (p + 3) (p + 3 + clen))"
        using False "1.prems" by (simp add: sub_some)
      show ?thesis
      proof (cases "e < p + 3 + clen + 2")
        case True
        then show ?thesis using \<open>p + 3 \<le> e\<close> c False s by (subst cert_entries.simps) simp
      next
        case long: False
        have u: "u16_at body (p + 3 + clen) = Some (be16_at body (p + 3 + clen))" using long "1.prems" by (simp add: u16_at_some)
        show ?thesis using "1.IH" [OF True c False s long u] "1.prems" True c False s long u
          by (subst cert_entries.simps) simp
      qed
    next
      case short: True
      then show ?thesis using True c by (subst cert_entries.simps) simp
    qed
  next
    case False
    then show ?thesis by (subst cert_entries.simps) simp
  qed
qed

lemma parse_cert_list_total: "\<exists>r. parse_cert_list body out = Some r"
proof (cases "body = [] \<or> length body < 1 + unat (body ! 0) + 3")
  case False
  define p where "p = 1 + unat (body ! 0)"
  obtain v where v: "u24_at body p = Some v" using u24_at_some [of p body] False by (auto simp: p_def)
  obtain r where "cert_entries body (min (p + 3 + v) (length body)) (p + 3) out = Some r"
    using cert_entries_total [of "min (p + 3 + v) (length body)" body] by auto
  then show ?thesis using False v by (simp add: parse_cert_list_def p_def Let_def)
qed (auto simp: parse_cert_list_def Let_def)

section \<open>The key schedule never panics\<close>

lemma length_ascii [simp]: "length (ascii s) = length s"
  by (simp add: ascii_def)

lemma expand_label_some:
  "length label + length ctx \<le> 500 \<Longrightarrow> \<exists>k. hkdf_expand_label secret label ctx n = Some k \<and> length k = n"
  by (simp add: hkdf_expand_label_def hkdf_expand_def Let_def)

lemma derive_secret_some:
  "length label + length th \<le> 500 \<Longrightarrow> \<exists>k. derive_secret secret label th = Some k \<and> length k = 32"
  unfolding derive_secret_def by (rule expand_label_some)

lemma traffic_keys_some: "\<exists>k. traffic_keys secret = Some k \<and> length (k_key k) = 32 \<and> length (k_iv k) = 12"
proof -
  obtain a b where "hkdf_expand_label secret (ascii ''key'') [] 32 = Some a" "length a = 32"
    "hkdf_expand_label secret (ascii ''iv'') [] 12 = Some b" "length b = 12"
    using expand_label_some [of "ascii ''key''" "[]" secret 32] expand_label_some [of "ascii ''iv''" "[]" secret 12] by auto
  then show ?thesis by (simp add: traffic_keys_def)
qed

lemma finished_mac_some: "\<exists>m. finished_mac secret th = Some m \<and> length m = 32"
proof -
  obtain k where "hkdf_expand_label secret (ascii ''finished'') [] 32 = Some k"
    using expand_label_some [of "ascii ''finished''" "[]" secret 32] by auto
  then show ?thesis by (simp add: finished_mac_def)
qed

lemma handshake_secrets_some:
  assumes "length th = 32"
  shows "\<exists>sec. handshake_secrets shared th = Some sec \<and> length (k_key (s_hs sec)) = 32 \<and> length (k_iv (s_hs sec)) = 12"
proof -
  define early where "early = hkdf_extract (replicate 32 0) (replicate 32 0)"
  have e: "length empty_hash = 32" by (simp add: empty_hash_def)
  obtain d where d: "derive_secret early (ascii ''derived'') empty_hash = Some d"
    using derive_secret_some [of "ascii ''derived''" empty_hash early] e by auto
  obtain c where c: "derive_secret (hkdf_extract d shared) (ascii ''c hs traffic'') th = Some c"
    using derive_secret_some [of "ascii ''c hs traffic''" th "hkdf_extract d shared"] assms by auto
  obtain s where s: "derive_secret (hkdf_extract d shared) (ascii ''s hs traffic'') th = Some s"
    using derive_secret_some [of "ascii ''s hs traffic''" th "hkdf_extract d shared"] assms by auto
  obtain ck sk where "traffic_keys c = Some ck" "traffic_keys s = Some sk" "length (k_key sk) = 32" "length (k_iv sk) = 12"
    using traffic_keys_some [of c] traffic_keys_some [of s] by auto
  then show ?thesis using d c s by (simp add: handshake_secrets_def early_def [symmetric] Let_def)
qed

lemma hs_drain_total: "\<exists>r. hs_drain secret acc tr chain = Some r"
proof (induction secret acc tr chain rule: hs_drain.induct)
  case (1 secret acc tr chain)
  show ?case
  proof (cases "length acc < 4")
    case True
    then show ?thesis by (subst hs_drain.simps) simp
  next
    case False
    then obtain mlen where m: "u24_at acc 1 = Some mlen" using u24_at_some [of 1 acc] by auto
    show ?thesis
    proof (cases "length acc < 4 + mlen")
      case True
      then show ?thesis using False m by (subst hs_drain.simps) simp
    next
      case long: False
      define msg where "msg = take (4 + mlen) acc"
      show ?thesis
      proof (cases "acc ! 0 = HS_FINISHED")
        case True
        obtain x where "finished_mac secret (sha256_finalize tr) = Some x" using finished_mac_some by blast
        then show ?thesis using False m long True by (subst hs_drain.simps) (simp add: Let_def)
      next
        case other: False
        obtain ch where c: "(if acc ! 0 = HS_CERTIFICATE then parse_cert_list (drop 4 msg) chain else Some chain) = Some ch"
          using parse_cert_list_total [of "drop 4 msg" chain] by (cases "acc ! 0 = HS_CERTIFICATE") auto
        then have "hs_drain secret acc tr chain = hs_drain secret (drop (4 + mlen) acc) (sha256_update tr msg) ch"
          using False m long other by (subst hs_drain.simps) (cases "acc ! 0 = HS_CERTIFICATE"; simp add: Let_def msg_def)
        then show ?thesis using "1.IH" [OF False m long refl refl refl other c [unfolded msg_def]] by (simp add: msg_def)
      qed
    qed
  qed
qed

section \<open>Reading off the byte stream\<close>

lemma length_finalize [simp]: "length (sha256_finalize tr) = 32"
proof -
  have four: "\<forall>x \<in> set (map be_of_u32 (md_finish sha256_block tr)). length x = 4" by (auto simp: be_of_u32_def)
  have "length (md_finish sha256_block tr) = 8" by (simp add: md_finish_def Let_def)
  then show ?thesis using length_concat_uniform [OF four] by (simp add: sha256_finalize_def)
qed

context byte_pipe
begin

text \<open>What the stream still has: the rest of its buffer, then the connection's content.\<close>

definition avail :: "'c stream \<Rightarrow> bytes" where
  "avail s = drop (s_pos s) (s_buf s) @ content (s_conn s)"

lemma read_exact_spec:
  "ok (s_conn s) \<Longrightarrow> \<exists>r s'. read_exact ops n s = Some (r, s') \<and> ok (s_conn s') \<and>
     (if n \<le> length (avail s) then r = Some (take n (avail s)) \<and> avail s' = drop n (avail s) else r = None)"
proof (induction n arbitrary: s rule: less_induct)
  case (less n)
  text \<open>With something in the buffer.\<close>
  have buffered: "\<exists>r s'. read_exact ops n s = Some (r, s') \<and> ok (s_conn s') \<and>
     (if n \<le> length (avail s) then r = Some (take n (avail s)) \<and> avail s' = drop n (avail s) else r = None)"
    if ok: "ok (s_conn s)" and p: "s_pos s < length (s_buf s)" and n: "n \<noteq> 0" for s
  proof -
    define k where "k = min (length (s_buf s) - s_pos s) n"
    define s1 where "s1 = s\<lparr>s_pos := s_pos s + k\<rparr>"
    have k: "0 < k" "k \<le> n" "k \<le> length (s_buf s) - s_pos s" using p n by (auto simp: k_def)
    have a: "avail s = slice (s_buf s) (s_pos s) (s_pos s + k) @ avail s1"
      using append_take_drop_id [of k "drop (s_pos s) (s_buf s)"]
      by (simp add: avail_def s1_def slice_def add.commute)
    have lk: "length (slice (s_buf s) (s_pos s) (s_pos s + k)) = k" using k(3) by simp
    obtain r s' where r: "read_exact ops (n - k) s1 = Some (r, s')" "ok (s_conn s')"
      "if n - k \<le> length (avail s1) then r = Some (take (n - k) (avail s1)) \<and> avail s' = drop (n - k) (avail s1) else r = None"
      using less.IH [of "n - k" s1] k ok by (auto simp: s1_def)
    have e: "read_exact ops n s = (case r of None \<Rightarrow> Some (None, s')
        | Some out \<Rightarrow> Some (Some (slice (s_buf s) (s_pos s) (s_pos s + k) @ out), s'))"
      using n p r(1) by (subst read_exact.simps) (simp add: k_def [symmetric] s1_def Let_def split: option.splits)
    show ?thesis
    proof (cases "n \<le> length (avail s)")
      case True
      then have "n - k \<le> length (avail s1)" unfolding a using lk by simp
      then have "r = Some (take (n - k) (avail s1))" "avail s' = drop (n - k) (avail s1)" using r(3) by simp_all
      then show ?thesis using e r(2) True k(2) lk unfolding a by simp
    next
      case False
      then have "r = None" using r(3) lk unfolding a by (auto split: if_splits)
      then show ?thesis using e r(2) False by simp
    qed
  qed
  show ?case
  proof (cases "n = 0")
    case True
    then show ?thesis using less.prems by (subst read_exact.simps) simp
  next
    case n: False
    show ?thesis
    proof (cases "s_pos s < length (s_buf s)")
      case True
      then show ?thesis using buffered less.prems n by blast
    next
      case False
      then have av: "avail s = content (s_conn s)" by (simp add: avail_def)
      show ?thesis
      proof (cases "content (s_conn s) = []")
        case True
        then obtain r c' where "p_recv ops 1600 (s_conn s) = Some (r, c')" "r = None \<or> r = Some []" "ok c'"
          using recv_end [OF less.prems] by blast
        then show ?thesis using n False av True by (subst read_exact.simps) auto
      next
        case ne: False
        obtain d c' where d: "p_recv ops 1600 (s_conn s) = Some (Some d, c')" "d \<noteq> []" "ok c'" "content (s_conn s) = d @ content c'"
          using recv [OF less.prems ne] by blast
        define s1 where "s1 = \<lparr>s_conn = c', s_buf = d, s_pos = 0\<rparr>"
        have e: "read_exact ops n s = read_exact ops n s1"
          using n False d(1,2) by (subst read_exact.simps) (simp add: s1_def)
        have a: "avail s1 = avail s" using av d(4) by (simp add: avail_def s1_def)
        have "ok (s_conn s1)" "s_pos s1 < length (s_buf s1)" using d(2,3) by (simp_all add: s1_def)
        then show ?thesis using buffered [OF _ _ n, of s1, unfolded a] unfolding e by blast
      qed
    qed
  qed
qed

lemma read_record_total:
  assumes "ok (s_conn s)"
  shows "\<exists>r s'. read_record ops s = Some (r, s') \<and> ok (s_conn s') \<and> (r \<noteq> None \<longrightarrow> length (avail s') < length (avail s))"
proof -
  obtain r1 s1 where r1: "read_exact ops 5 s = Some (r1, s1)" "ok (s_conn s1)"
    "if 5 \<le> length (avail s) then r1 = Some (take 5 (avail s)) \<and> avail s1 = drop 5 (avail s) else r1 = None"
    using read_exact_spec [OF assms, of 5] by blast
  show ?thesis
  proof (cases r1)
    case None
    then show ?thesis using r1 by (simp add: read_record_def)
  next
    case (Some hdr)
    define len where "len = be16_at hdr 3"
    have l: "length (avail s1) + 5 = length (avail s)" using r1(3) Some by (auto split: if_splits)
    obtain r2 s2 where r2: "read_exact ops len s1 = Some (r2, s2)" "ok (s_conn s2)"
      "if len \<le> length (avail s1) then r2 = Some (take len (avail s1)) \<and> avail s2 = drop len (avail s1) else r2 = None"
      using read_exact_spec [OF r1(2), of len] by blast
    show ?thesis
    proof (cases "len = 0 \<or> 18432 < len")
      case True
      then show ?thesis using r1 Some by (auto simp: read_record_def len_def Let_def)
    next
      case False
      show ?thesis
      proof (cases r2)
        case None
        then show ?thesis using r1 r2 Some False by (simp add: read_record_def len_def Let_def)
      next
        case (Some body)
        then have "length (avail s2) \<le> length (avail s1)" using r2(3) by (auto split: if_splits)
        moreover have "read_record ops s = Some (Some (hdr ! 0, hdr, body), s2)"
          unfolding read_record_def r1(1) \<open>r1 = Some hdr\<close> option.case prod.case Let_def len_def [symmetric] if_not_P [OF False] r2(1) Some ..
        ultimately show ?thesis using r2(2) l by auto
      qed
    qed
  qed
qed

text \<open>A record at the head of the stream is read as it is.\<close>

lemma read_record_head:
  assumes "ok (s_conn s)" "avail s = [t, a, b] @ u16_len body @ rest" "body \<noteq> []" "length body \<le> 18432"
  shows "\<exists>s'. read_record ops s = Some (Some (t, [t, a, b, of_nat (length body div 256), of_nat (length body)], body), s') \<and>
    ok (s_conn s') \<and> avail s' = rest"
proof -
  define h where "h = [t, a, b, of_nat (length body div 256), of_nat (length body)]"
  have av: "avail s = h @ body @ rest" using assms(2) by (simp add: u16_len_def h_def)
  have len: "be16_at h 3 = length body" using assms(4) word_of_bytes [of "length body"] by (simp add: be16_at_def h_def)
  have lh: "length h = 5" by (simp add: h_def)
  obtain s1 where s1: "read_exact ops 5 s = Some (Some h, s1)" "ok (s_conn s1)" "avail s1 = body @ rest"
    using read_exact_spec [OF assms(1), of 5] av lh by auto
  obtain s2 where s2: "read_exact ops (length body) s1 = Some (Some body, s2)" "ok (s_conn s2)" "avail s2 = rest"
    using read_exact_spec [OF s1(2), of "length body"] s1(3) by auto
  show ?thesis using s1 s2 len assms(3,4) by (simp add: read_record_def Let_def h_def)
qed

lemma send_raw_ok: "ok (s_conn s) \<Longrightarrow> \<exists>s'. send_raw ops d s = Some (True, s') \<and> ok (s_conn s') \<and> avail s' = avail s"
proof -
  assume "ok (s_conn s)"
  then obtain c' where "p_send ops d (s_conn s) = Some (True, c')" "ok c'" "content c' = content (s_conn s)"
    using send by blast
  then show ?thesis by (simp add: send_raw_def avail_def)
qed

lemma server_hello_total:
  "ok (s_conn s) \<Longrightarrow> \<exists>r s'. server_hello ops tr s = Some (r, s') \<and> ok (s_conn s')"
proof (induction "length (avail s)" arbitrary: s rule: less_induct)
  case less
  obtain r s1 where r: "read_record ops s = Some (r, s1)" "ok (s_conn s1)" "r \<noteq> None \<longrightarrow> length (avail s1) < length (avail s)"
    using read_record_total [OF less.prems] by blast
  show ?case
  proof (cases r)
    case None
    then show ?thesis using r by (subst server_hello.simps) simp
  next
    case (Some x)
    obtain ty hdr body where x: "x = (ty, hdr, body)" by (cases x) auto
    obtain k where k: "parse_server_hello body = Some k" using parse_server_hello_total by blast
    have ih: "\<exists>r s'. server_hello ops tr s1 = Some (r, s') \<and> ok (s_conn s')" using less.hyps [of s1] r Some by simp
    show ?thesis using r Some x k ih by (subst server_hello.simps) (auto split: option.splits)
  qed
qed

lemma server_flight_total:
  "ok (s_conn s) \<Longrightarrow> \<exists>r s'. server_flight ops sec g sq acc tr chain s = Some (r, s') \<and> ok (s_conn s')"
proof (induction g arbitrary: sq acc tr chain s)
  case (Suc g)
  obtain r s1 where r: "read_record ops s = Some (r, s1)" "ok (s_conn s1)" using read_record_total [OF Suc.prems] by blast
  note ih = Suc.IH [OF r(2)]
  show ?case
  proof (cases r)
    case (Some x)
    obtain ty hdr body where x: "x = (ty, hdr, body)" by (cases x) auto
    show ?thesis
    proof (cases "open_record (s_hs sec) sq hdr body")
      case None
      then show ?thesis using r Some x ih by auto
    next
      case op: (Some y)
      obtain ity plain where y: "y = (ity, plain)" by (cases y) auto
      obtain fl where fl: "hs_drain (s_hs_secret sec) (acc @ plain) tr chain = Some fl" using hs_drain_total by blast
      show ?thesis using r Some x op y fl ih by (cases fl) auto
    qed
  qed (use r in simp)
qed simp

lemma read_response_total:
  "ok (s_conn s) \<Longrightarrow> \<exists>out' s'. read_response ops k cap g sq out s = Some (out', s') \<and> ok (s_conn s')"
proof (induction g arbitrary: sq out s)
  case (Suc g)
  obtain r s1 where r: "read_record ops s = Some (r, s1)" "ok (s_conn s1)" using read_record_total [OF Suc.prems] by blast
  note ih = Suc.IH [OF r(2)]
  show ?case
  proof (cases r)
    case (Some x)
    obtain ty hdr body where x: "x = (ty, hdr, body)" by (cases x) auto
    show ?thesis using r Some x ih
      by (cases "open_record k sq hdr body") (auto simp: Let_def)
  qed (use r in simp)
qed simp

lemma build_request_some: "length (dec_digits (length body)) \<le> 10 \<Longrightarrow> \<exists>req. build_request m h p t body = Some req"
  by (cases "body = []") (simp_all add: build_request_def Let_def)

lemma tls_exchange_total:
  assumes "ok (s_conn s)" "length (dec_digits (length (rq_body rq))) \<le> 10"
  shows "\<exists>r s'. tls_exchange ops sec tr rq s = Some (r, s')"
proof -
  define th where "th = sha256_finalize tr"
  have th: "length th = 32" by (simp add: th_def)
  obtain d2 where d2: "derive_secret (hs_secret sec) (ascii ''derived'') empty_hash = Some d2"
    using derive_secret_some [of "ascii ''derived''" empty_hash] by (auto simp: empty_hash_def)
  define ms where "ms = hkdf_extract d2 (replicate 32 0)"
  obtain ca where ca: "derive_secret ms (ascii ''c ap traffic'') th = Some ca"
    using derive_secret_some [of "ascii ''c ap traffic''" th ms] th by auto
  obtain sa where sa: "derive_secret ms (ascii ''s ap traffic'') th = Some sa"
    using derive_secret_some [of "ascii ''s ap traffic''" th ms] th by auto
  obtain ck sk v where k: "traffic_keys ca = Some ck" "traffic_keys sa = Some sk" "finished_mac (c_hs_secret sec) th = Some v"
    using traffic_keys_some finished_mac_some by blast
  obtain s1 where s1: "send_raw ops (seal_record (c_hs sec) 0 ([HS_FINISHED, 0, 0, 32] @ v) CT_HANDSHAKE) s = Some (True, s1)"
    "ok (s_conn s1)" using send_raw_ok [OF assms(1)] by blast
  obtain req where req: "build_request (rq_method rq) (rq_host rq) (rq_path rq) (rq_type rq) (rq_body rq) = Some req"
    using build_request_some [OF assms(2)] by blast
  obtain s2 where s2: "send_raw ops (seal_record ck 0 req CT_APPLICATION_DATA) s1 = Some (True, s2)" "ok (s_conn s2)"
    using send_raw_ok [OF s1(2)] by blast
  obtain out s3 where s3: "read_response ops sk (rq_cap rq) 4096 0 [] s2 = Some (out, s3)" "ok (s_conn s3)"
    using read_response_total [OF s2(2)] by blast
  obtain c' where c': "p_close ops (s_conn s3) = Some c'" using close [OF s3(2)] by blast
  show ?thesis
    unfolding tls_exchange_def Let_def th_def [symmetric] using d2 ca sa k s1(1) req s2(1) s3(1) c'
    by (simp add: ms_def)
qed

lemma tls_session_total:
  assumes "ok c" "length (dec_digits (length (rq_body rq))) \<le> 10"
  shows "\<exists>r s'. tls_session ops ss rq c = Some (r, s')"
proof -
  define ch where "ch = build_client_hello (rq_host rq) (ss_random ss) (ss_id ss) (x25519_base (ss_priv ss))"
  define tr where "tr = sha256_update sha256_new ch"
  define rec where "rec = [CT_HANDSHAKE, 0x03, 0x01, of_nat (length ch div 256), of_nat (length ch)] @ ch"
  have "ok (s_conn (stream_new c))" using assms(1) by (simp add: stream_new_def)
  then obtain s1 where s1: "send_raw ops rec (stream_new c) = Some (True, s1)" "ok (s_conn s1)" using send_raw_ok by blast
  obtain h s2 where s2: "server_hello ops tr s1 = Some (h, s2)" "ok (s_conn s2)" using server_hello_total [OF s1(2)] by blast
  note unfolds = tls_session_def ch_def [symmetric] tr_def [symmetric]
  show ?thesis
  proof (cases h)
    case None
    then show ?thesis using s1(1) s2(1) unfolding tls_session_def by (simp add: ch_def tr_def rec_def Let_def)
  next
    case (Some x)
    obtain pub tr2 where x: "x = (pub, tr2)" by (cases x) auto
    obtain sec where sec: "handshake_secrets (x25519 (ss_priv ss) pub) (sha256_finalize tr2) = Some sec"
      using handshake_secrets_some [OF length_finalize] by blast
    obtain s3 where s3: "send_raw ops [CT_CHANGE_CIPHER_SPEC, 0x03, 0x03, 0x00, 0x01, 0x01] s2 = Some (True, s3)" "ok (s_conn s3)"
      using send_raw_ok [OF s2(2)] by blast
    obtain fl s4 where s4: "server_flight ops sec 64 0 [] tr2 [] s3 = Some (fl, s4)" "ok (s_conn s4)"
      using server_flight_total [OF s3(2)] by blast
    have ex: "\<exists>r s'. tls_exchange ops sec tr' rq s4 = Some (r, s')" for tr' by (rule tls_exchange_total [OF s4(2) assms(2)])
    show ?thesis
    proof (cases fl)
      case None
      then show ?thesis using s1(1) s2(1) Some x sec s3(1) s4(1) unfolding tls_session_def
        by (simp add: ch_def tr_def rec_def Let_def)
    next
      case fl: (Some y)
      then show ?thesis using s1(1) s2(1) Some x sec s3(1) s4(1) ex [of "fst y"] unfolding tls_session_def
        by (cases y) (simp add: ch_def tr_def rec_def Let_def)
    qed
  qed
qed

end

end
