(* ===== verification/Tls_Auth.thy ===== *)
theory Tls_Auth
  imports Tls_Stream
begin

text \<open>
  Handshake messages: what the client's loop over them has checked when it accepts, the transcript and
  the certificates it has taken from them, and when a message is still incomplete.
\<close>

unbundle bit_operations_syntax

section \<open>What an accepted handshake means\<close>

text \<open>A complete handshake message: type, 24-bit length, body.\<close>

definition is_message :: "bytes \<Rightarrow> bool" where
  "is_message m \<longleftrightarrow> 4 \<le> length m \<and> u24_at m 1 = Some (length m - 4)"

text \<open>Bytes that do not hold a complete message yet.\<close>

definition incomplete :: "bytes \<Rightarrow> bool" where
  "incomplete xs \<longleftrightarrow> length xs < 4 \<or> (\<exists>n. u24_at xs 1 = Some n \<and> length xs < 4 + n)"

text \<open>The certificates of the Certificate messages, in order.\<close>

fun collect_certs :: "bytes list \<Rightarrow> bytes list \<Rightarrow> bytes list option" where
  "collect_certs [] chain = Some chain"
| "collect_certs (m # ms) chain =
     (case (if m ! 0 = HS_CERTIFICATE then parse_cert_list (drop 4 m) chain else Some chain) of
        None \<Rightarrow> None | Some chain \<Rightarrow> collect_certs ms chain)"

lemma u24_prefix: "4 \<le> length xs \<Longrightarrow> u24_at (take (4 + n) xs) 1 = u24_at xs 1"
  by (simp add: u24_at_def idx_def)

lemma hs_drain_meaning:
  "hs_drain secret acc tr chain = Some r \<Longrightarrow>
   case r of
     More acc' tr' chain' \<Rightarrow>
       \<exists>msgs. acc = concat msgs @ acc' \<and> (\<forall>m \<in> set msgs. is_message m \<and> m ! 0 \<noteq> HS_FINISHED) \<and>
         tr' = foldl sha256_update tr msgs \<and> collect_certs msgs chain = Some chain' \<and> incomplete acc'
   | Done tr' chain' \<Rightarrow>
       \<exists>msgs fin rest. acc = concat msgs @ fin @ rest \<and> (\<forall>m \<in> set msgs. is_message m \<and> m ! 0 \<noteq> HS_FINISHED) \<and>
         is_message fin \<and> fin ! 0 = HS_FINISHED \<and> tr' = sha256_update (foldl sha256_update tr msgs) fin \<and>
         finished_mac secret (sha256_finalize (foldl sha256_update tr msgs)) = Some (slice fin 4 36) \<and>
         collect_certs msgs chain = Some chain'
   | Bad \<Rightarrow> True"
proof (induction secret acc tr chain rule: hs_drain.induct)
  case (1 secret acc tr chain)
  show ?case
  proof (cases "length acc < 4")
    case True
    then have "r = More acc tr chain" using "1.prems" by (subst (asm) hs_drain.simps) simp
    then show ?thesis using True by (auto simp: incomplete_def intro: exI [of _ "[]"])
  next
    case False
    then obtain mlen where m: "u24_at acc 1 = Some mlen" using u24_at_some [of 1 acc] by auto
    show ?thesis
    proof (cases "length acc < 4 + mlen")
      case True
      then have "r = More acc tr chain" using "1.prems" False m by (subst (asm) hs_drain.simps) simp
      then show ?thesis using True m by (auto simp: incomplete_def intro: exI [of _ "[]"])
    next
      case long: False
      define msg where "msg = take (4 + mlen) acc"
      define rest where "rest = drop (4 + mlen) acc"
      have acc: "acc = msg @ rest" by (simp add: msg_def rest_def)
      have lm: "length msg = 4 + mlen" using long by (simp add: msg_def)
      have im: "is_message msg" using lm m u24_prefix [of acc mlen] False by (simp add: is_message_def msg_def)
      have ty: "msg ! 0 = acc ! 0" using lm by (simp add: msg_def)
      show ?thesis
      proof (cases "acc ! 0 = HS_FINISHED")
        case True
        obtain x where x: "finished_mac secret (sha256_finalize tr) = Some x" using finished_mac_some by blast
        have r: "r = (if length msg < 36 \<or> x \<noteq> slice msg 4 36 then Bad else Done (sha256_update tr msg) chain)"
          using "1.prems" False m long True x by (subst (asm) hs_drain.simps) (simp add: Let_def msg_def split: if_splits)
        show ?thesis
        proof (cases "length msg < 36 \<or> x \<noteq> slice msg 4 36")
          case False
          then have rd: "r = Done (sha256_update tr msg) chain" "x = slice msg 4 36" using r by simp_all
          show ?thesis unfolding rd(1) flight.case
            by (rule exI [of _ "[] :: bytes list"], rule exI [of _ msg], rule exI [of _ rest])
              (use acc im ty True x rd(2) in simp)
        qed (use r in simp)
      next
        case other: False
        obtain ch where c: "(if acc ! 0 = HS_CERTIFICATE then parse_cert_list (drop 4 msg) chain else Some chain) = Some ch"
          using parse_cert_list_total [of "drop 4 msg" chain] by (cases "acc ! 0 = HS_CERTIFICATE") auto
        have "hs_drain secret acc tr chain = hs_drain secret rest (sha256_update tr msg) ch"
          using c False m long other
          by (subst hs_drain.simps) (cases "acc ! 0 = HS_CERTIFICATE"; simp add: Let_def msg_def rest_def)
        then have d: "hs_drain secret rest (sha256_update tr msg) ch = Some r" using "1.prems" by simp
        note ih = "1.IH" [OF False m long refl refl refl other c [unfolded msg_def], folded msg_def rest_def, OF d]
        have step: "collect_certs (msg # ms) chain = collect_certs ms ch" for ms using c ty by simp
        show ?thesis
        proof (cases r)
          case (More a t cc)
          then obtain msgs where "rest = concat msgs @ a" "\<forall>m \<in> set msgs. is_message m \<and> m ! 0 \<noteq> HS_FINISHED"
            "t = foldl sha256_update (sha256_update tr msg) msgs" "collect_certs msgs ch = Some cc" "incomplete a" using ih by auto
          then show ?thesis using More acc im ty other step by (auto intro!: exI [of _ "msg # msgs"])
        next
          case (Done t cc)
          then obtain msgs fin rs where "rest = concat msgs @ fin @ rs" "\<forall>m \<in> set msgs. is_message m \<and> m ! 0 \<noteq> HS_FINISHED"
            "is_message fin" "fin ! 0 = HS_FINISHED" "t = sha256_update (foldl sha256_update (sha256_update tr msg) msgs) fin"
            "finished_mac secret (sha256_finalize (foldl sha256_update (sha256_update tr msg) msgs)) = Some (slice fin 4 36)"
            "collect_certs msgs ch = Some cc" using ih by auto
          note f = this
          show ?thesis unfolding Done flight.case
            by (rule exI [of _ "msg # msgs"], rule exI [of _ fin], rule exI [of _ rs]) (use f acc im ty other step in simp)
        qed simp
      qed
    qed
  qed
qed

text \<open>A message that begins in incomplete bytes ends after them.\<close>

lemma incomplete_ends:
  assumes "incomplete acc" "is_message m" "acc @ xs = m @ ys"
  shows "length acc < length m"
proof (rule ccontr)
  assume "\<not> length acc < length m"
  then have l: "length m \<le> length acc" "4 \<le> length m" using assms(2) by (simp_all add: is_message_def)
  have m: "m = take (4 + (length m - 4)) acc" using arg_cong [OF assms(3), of "take (length m)"] l by simp
  have "u24_at m 1 = u24_at acc 1" by (subst m) (rule u24_prefix, use l in simp)
  then show False using assms(1,2) l by (auto simp: incomplete_def is_message_def)
qed

lemma collect_append:
  "collect_certs (xs @ ys) chain = (case collect_certs xs chain of None \<Rightarrow> None | Some c \<Rightarrow> collect_certs ys c)"
  by (induction xs arbitrary: chain) (auto split: option.splits)

end
