(* ===== verification/Tls_Wire.thy ===== *)
theory Tls_Wire
  imports Tls_Auth Poly1305
begin

text \<open>
  The messages of the handshake as a server writes them, and that the client's parsers read them
  back: protected records, ServerHello, Certificate, and a flight that ends with Finished.
\<close>

unbundle bit_operations_syntax

section \<open>Protected records\<close>

lemma open_sealed_record:
  fixes k :: keys and sq :: nat
  assumes "inner \<noteq> 0" "length plain < 16000"
  defines "r \<equiv> seal_record k sq plain inner"
  shows "\<exists>body. r = [CT_APPLICATION_DATA, 3, 3] @ u16_len body \<and> length body = length plain + 17 \<and>
    open_record k sq (take 5 r) body = Some (inner, plain)"
proof -
  define hdr where "hdr = [CT_APPLICATION_DATA, 0x03, 0x03, of_nat ((length plain + 17) div 256), of_nat (length plain + 17)]"
  define nonce where "nonce = make_nonce (k_iv k) sq"
  define ct tag where "ct = fst (aead_seal (k_key k) nonce hdr (plain @ [inner]))"
    and "tag = snd (aead_seal (k_key k) nonce hdr (plain @ [inner]))"
  have l: "length ct = length plain + 1" "length tag = 16" by (simp_all add: ct_def tag_def aead_seal_parts)
  have len: "length (plain @ [inner]) + 16 = length plain + 17" by simp
  have r: "r = hdr @ ct @ tag"
    unfolding r_def seal_record_def Let_def len ct_def tag_def nonce_def hdr_def case_prod_beta ..
  define body where "body = ct @ tag"
  have lb: "length body = length plain + 17" using l by (simp add: body_def)
  have o: "aead_open (k_key k) nonce hdr ct tag = (True, plain @ [inner])" unfolding ct_def tag_def by (rule aead_open_sealed)
  have t: "take (length body - 16) body = ct" "drop (length body - 16) body = tag" using l by (simp_all add: body_def)
  have "open_record k sq hdr body = Some (inner, plain)"
    unfolding open_record_def Let_def t using lb o assms(1) by (simp add: nonce_def)
  moreover have "take 5 r = hdr" unfolding r by (simp add: hdr_def)
  moreover have "r = [CT_APPLICATION_DATA, 3, 3] @ u16_len body" unfolding r u16_len_def lb unfolding body_def hdr_def by simp
  ultimately show ?thesis using lb by auto
qed

section \<open>Messages\<close>

text \<open>A 24-bit length and the bytes it counts; a handshake message.\<close>

definition u24_len :: "bytes \<Rightarrow> bytes" where
  "u24_len xs = [of_nat (length xs div 65536), of_nat (length xs div 256), of_nat (length xs)] @ xs"

definition hs_message :: "byte \<Rightarrow> bytes \<Rightarrow> bytes" where
  "hs_message ty body = ty # u24_len body"

definition cert_entry :: "bytes \<Rightarrow> bytes" where
  "cert_entry der = u24_len der @ [0, 0]"

definition certificate_msg :: "bytes list \<Rightarrow> bytes" where
  "certificate_msg ders = hs_message HS_CERTIFICATE ([0] @ u24_len (concat (map cert_entry ders)))"

definition server_hello_msg :: "bytes \<Rightarrow> bytes \<Rightarrow> bytes" where
  "server_hello_msg random pub =
     hs_message HS_SERVER_HELLO ([3, 3] @ random @ [0, 0x13, 0x03, 0]
       @ u16_len ([0, 0x2b, 0, 2, 3, 4] @ [0, 0x33] @ u16_len ([0, 0x1d] @ u16_len pub)))"

lemma word_of_bytes3:
  "n < 2 ^ 24 \<Longrightarrow> unat (of_nat (n div 65536) :: byte) * 65536 + unat (of_nat (n div 256) :: byte) * 256 + unat (of_nat n :: byte) = n"
proof -
  assume n: "n < 2 ^ 24"
  have a: "n div 65536 mod 256 = n div 65536" using n by simp
  have b: "n div 65536 * 256 + n div 256 mod 256 = n div 256"
    using div_mult_mod_eq [of "n div 256" 256] by (simp add: div_mult2_eq [symmetric])
  have "n div 65536 * 65536 + n div 256 mod 256 * 256 + n mod 256 = (n div 65536 * 256 + n div 256 mod 256) * 256 + n mod 256"
    by (simp add: algebra_simps)
  also have "\<dots> = n" unfolding b by simp
  finally show ?thesis using a by (simp add: unat_of_nat)
qed

lemma u24_at_len:
  "length xs < 2 ^ 24 \<Longrightarrow> u24_at (pre @ u24_len xs @ rest) (length pre) = Some (length xs)"
  using word_of_bytes3 [of "length xs"] by (simp add: u24_at_def idx_def u24_len_def nth_append)

lemma length_u24_len [simp]: "length (u24_len xs) = length xs + 3"
  by (simp add: u24_len_def)

lemma cert_entries_wire:
  assumes "\<forall>d \<in> set ders. length d < 2 ^ 24"
  shows "cert_entries (pre @ concat (map cert_entry ders)) (length pre + length (concat (map cert_entry ders))) (length pre) out
    = Some (out @ ders)"
  using assms
proof (induction ders arbitrary: pre out)
  case Nil
  then show ?case by (subst cert_entries.simps) simp
next
  case (Cons d ds)
  define rest where "rest = concat (map cert_entry ds)"
  define body where "body = pre @ u24_len d @ [0, 0] @ rest"
  have b: "pre @ concat (map cert_entry (d # ds)) = body" by (simp add: body_def cert_entry_def rest_def)
  have l: "length pre + length (concat (map cert_entry (d # ds))) = length pre + length d + 5 + length rest"
    by (simp add: cert_entry_def rest_def)
  have u: "u24_at body (length pre) = Some (length d)" unfolding body_def using u24_at_len Cons.prems by simp
  have len: "length body = length pre + length d + 5 + length rest" by (simp add: body_def)
  have s: "sub body (length pre + 3) (length pre + 3 + length d) = Some d"
    by (simp add: sub_def len) (simp add: body_def u24_len_def slice_def)
  have z: "u16_at body (length pre + 3 + length d) = Some 0"
    by (simp add: u16_at_def idx_def len) (simp add: body_def u24_len_def nth_append)
  have "cert_entries body (length body) (length pre) out =
      cert_entries body (length body) (length pre + length d + 5) (out @ [d])"
    using u s z by (subst cert_entries.simps) (simp add: len add.commute add.left_commute)
  also have "\<dots> = Some ((out @ [d]) @ ds)"
    using Cons.IH [of "pre @ u24_len d @ [0, 0]" "out @ [d]"] Cons.prems by (simp add: body_def rest_def ac_simps)
  finally show ?case unfolding b l len by simp
qed

lemma parse_cert_list_wire:
  assumes "length (concat (map cert_entry ders)) < 2 ^ 24"
  shows "parse_cert_list ([0] @ u24_len (concat (map cert_entry ders))) out = Some (out @ ders)"
proof -
  define es where "es = concat (map cert_entry ders)"
  have "length d \<le> length es" if "d \<in> set ders" for d
    using that unfolding es_def by (induction ders) (auto simp: cert_entry_def)
  then have d: "\<forall>d \<in> set ders. length d < 2 ^ 24" using assms unfolding es_def [symmetric] by (meson le_less_trans)
  define pre where "pre = [0 :: byte, of_nat (length es div 65536), of_nat (length es div 256), of_nat (length es)]"
  have b: "[0] @ u24_len es = pre @ es" by (simp add: pre_def u24_len_def)
  have u: "u24_at (pre @ es) 1 = Some (length es)"
    using u24_at_len [of es "[0]" "[]"] assms unfolding b es_def [symmetric] by (simp flip: b)
  have lp: "length pre = 4" by (simp add: pre_def)
  have p: "length (pre @ es) = 4 + length es" "(pre @ es) ! 0 = 0" "pre @ es \<noteq> []" by (simp_all add: pre_def)
  have "cert_entries (pre @ es) (4 + length es) 4 out = Some (out @ ders)"
    using cert_entries_wire [OF d, of pre out] unfolding es_def [symmetric] lp .
  then show ?thesis using u unfolding es_def [symmetric] b parse_cert_list_def Let_def p(1,2) if_not_P [OF p(3)]
    by (simp del: length_append)
qed

lemma parse_server_hello_wire:
  assumes "length random = 32" "length pub = 32"
  shows "parse_server_hello (server_hello_msg random pub) = Some (Some pub)"
proof -
  define exts where "exts = [0, 0x2b, 0, 2, 3, 4, 0, 0x33, 0, 36, 0, 0x1d, 0, 32] @ pub"
  define body where "body = [3, 3] @ random @ [0, 0x13, 0x03, 0, 0, 46] @ exts"
  have le: "length exts = 46" "length body = 86" using assms by (simp_all add: exts_def body_def)
  have m: "server_hello_msg random pub = hs_message HS_SERVER_HELLO body"
    using assms by (simp add: server_hello_msg_def u16_len_def body_def exts_def)
  have n: "body ! i = exts ! (i - 40)" if "40 \<le> i" for i
  proof -
    have l: "length ([3, 3] @ random @ [0, 0x13, 0x03, 0, 0, 46]) = 40" using assms by simp
    have b: "body = ([3, 3] @ random @ [0, 0x13, 0x03, 0, 0, 46]) @ exts" by (simp add: body_def)
    show ?thesis unfolding b nth_append l using that by simp
  qed
  have h: "body ! 34 = 0" "body ! 38 = 0" "body ! 39 = 46" using assms by (simp_all add: body_def nth_append)
  have k: "sub body 54 86 = Some pub"
    using assms by (simp add: sub_def le) (simp add: body_def exts_def slice_def)
  have e2: "sh_extensions body 86 46 = Some (Some pub)"
    using k by (subst sh_extensions.simps) (simp add: u16_at_def idx_def le n exts_def)
  have e1: "sh_extensions body 86 40 = Some (Some pub)"
    using e2 by (subst sh_extensions.simps) (simp add: u16_at_def idx_def le n exts_def)
  have d: "drop 4 (hs_message HS_SERVER_HELLO body) = body" "hs_message HS_SERVER_HELLO body ! 0 = HS_SERVER_HELLO"
    "length (hs_message HS_SERVER_HELLO body) = 90" by (simp_all add: hs_message_def le) (simp add: u24_len_def)
  show ?thesis unfolding m parse_server_hello_def d Let_def using e1 h
    by (simp add: le idx_def u16_at_def)
qed

section \<open>A server's side of a session\<close>

lemma hs_drain_flight:
  assumes "\<forall>m \<in> set msgs. is_message m \<and> m ! 0 \<noteq> HS_FINISHED" "collect_certs msgs chain = Some chain'"
    "is_message fin" "fin ! 0 = HS_FINISHED" "36 \<le> length fin"
    "finished_mac secret (sha256_finalize (foldl sha256_update tr msgs)) = Some (slice fin 4 36)"
  shows "hs_drain secret (concat msgs @ fin) tr chain = Some (Done (sha256_update (foldl sha256_update tr msgs) fin) chain')"
  using assms(1,2,6)
proof (induction msgs arbitrary: tr chain)
  case Nil
  have "u24_at fin 1 = Some (length fin - 4)" "4 \<le> length fin" using assms(3) by (simp_all add: is_message_def)
  then show ?case using Nil assms(4,5) by (subst hs_drain.simps) (simp add: Let_def)
next
  case (Cons m ms)
  define rest where "rest = concat ms @ fin"
  have m: "4 \<le> length m" "u24_at m 1 = Some (length m - 4)" "m ! 0 \<noteq> HS_FINISHED"
    using Cons.prems(1) by (simp_all add: is_message_def)
  have u: "u24_at (m @ rest) 1 = Some (length m - 4)" "(m @ rest) ! 0 = m ! 0"
    using m u24_prefix [of "m @ rest" "length m - 4"] by (auto simp: nth_append)
  obtain c where c: "(if m ! 0 = HS_CERTIFICATE then parse_cert_list (drop 4 m) chain else Some chain) = Some c"
    "collect_certs ms c = Some chain'" using Cons.prems(2) by (auto split: option.splits)
  have "hs_drain secret (m @ rest) tr chain = hs_drain secret rest (sha256_update tr m) c"
    using u m c(1) by (subst hs_drain.simps) (cases "m ! 0 = HS_CERTIFICATE"; simp add: Let_def)
  then show ?case using Cons.IH [OF _ c(2), of "sha256_update tr m"] Cons.prems(1,3) by (simp add: rest_def)
qed

text \<open>The application keys of client and server.\<close>

definition app_keys :: "hs_secrets \<Rightarrow> bytes \<Rightarrow> (keys \<times> keys) option" where
  "app_keys sec th = do {
     derived \<leftarrow> derive_secret (hs_secret sec) (ascii ''derived'') empty_hash;
     let master = hkdf_extract derived (replicate 32 0);
     c \<leftarrow> derive_secret master (ascii ''c ap traffic'') th;
     s \<leftarrow> derive_secret master (ascii ''s ap traffic'') th;
     ck \<leftarrow> traffic_keys c;
     sk \<leftarrow> traffic_keys s;
     Some (ck, sk)
   }"

definition client_hello_of :: "session \<Rightarrow> request \<Rightarrow> bytes" where
  "client_hello_of ss rq = build_client_hello (rq_host rq) (ss_random ss) (ss_id ss) (x25519_base (ss_priv ss))"

text \<open>
  What a server sends in a session: ServerHello with its key share \<open>pub\<close>, the handshake messages
  \<open>msgs\<close> and Finished in one protected record, and the response in another. It needs the Diffie-Hellman
  secret it shares with the client and nothing else.
\<close>

definition server_stream :: "session \<Rightarrow> request \<Rightarrow> bytes \<Rightarrow> bytes \<Rightarrow> bytes list \<Rightarrow> bytes \<Rightarrow> bytes option" where
  "server_stream ss rq random pub msgs resp = do {
     let ch = client_hello_of ss rq;
     let sh = server_hello_msg random pub;
     sec \<leftarrow> handshake_secrets (x25519 (ss_priv ss) pub) (sha256 (ch @ sh));
     verify \<leftarrow> finished_mac (s_hs_secret sec) (sha256 (ch @ sh @ concat msgs));
     let fin = hs_message HS_FINISHED verify;
     (c_ap, s_ap) \<leftarrow> app_keys sec (sha256 (ch @ sh @ concat msgs @ fin));
     Some ([CT_HANDSHAKE, 3, 3] @ u16_len sh @ seal_record (s_hs sec) 0 (concat msgs @ fin) CT_HANDSHAKE
       @ seal_record s_ap 0 resp CT_APPLICATION_DATA)
   }"

lemma app_keys_some: "length th = 32 \<Longrightarrow> \<exists>ck sk. app_keys sec th = Some (ck, sk)"
proof -
  assume th: "length th = 32"
  obtain d where d: "derive_secret (hs_secret sec) (ascii ''derived'') empty_hash = Some d"
    using derive_secret_some [of "ascii ''derived''" empty_hash] by (auto simp: empty_hash_def)
  define ms where "ms = hkdf_extract d (replicate 32 0)"
  obtain ca sa where "derive_secret ms (ascii ''c ap traffic'') th = Some ca" "derive_secret ms (ascii ''s ap traffic'') th = Some sa"
    using derive_secret_some [of "ascii ''c ap traffic''" th ms] derive_secret_some [of "ascii ''s ap traffic''" th ms] th by auto
  moreover obtain ck sk where "traffic_keys ca = Some ck" "traffic_keys sa = Some sk" using traffic_keys_some by blast
  ultimately show ?thesis using d by (simp add: app_keys_def ms_def Let_def)
qed

text \<open>The exchange with its keys named.\<close>

lemma tls_exchange_keys:
  assumes "app_keys sec (sha256_finalize tr) = Some (ck, sk)" "finished_mac (c_hs_secret sec) (sha256_finalize tr) = Some v"
  shows "tls_exchange ops sec tr rq s = do {
    (sent_fin, s) \<leftarrow> send_raw ops (seal_record (c_hs sec) 0 ([HS_FINISHED, 0, 0, 32] @ v) CT_HANDSHAKE) s;
    (if \<not> sent_fin then Some (None, s)
     else do {
       req \<leftarrow> build_request (rq_method rq) (rq_host rq) (rq_path rq) (rq_type rq) (rq_body rq);
       (sent_req, s) \<leftarrow> send_raw ops (seal_record ck 0 req CT_APPLICATION_DATA) s;
       (if \<not> sent_req then Some (None, s)
        else do {
          (out, s) \<leftarrow> read_response ops sk (rq_cap rq) 4096 0 [] s;
          c \<leftarrow> p_close ops (s_conn s);
          Some (if out \<noteq> [] then Some out else None, s\<lparr>s_conn := c\<rparr>)
        })
     })
  }"
proof -
  obtain d c sa where d: "derive_secret (hs_secret sec) (ascii ''derived'') empty_hash = Some d"
    "derive_secret (hkdf_extract d (replicate 32 0)) (ascii ''c ap traffic'') (sha256_finalize tr) = Some c"
    "derive_secret (hkdf_extract d (replicate 32 0)) (ascii ''s ap traffic'') (sha256_finalize tr) = Some sa"
    "traffic_keys c = Some ck" "traffic_keys sa = Some sk"
    using assms(1) unfolding app_keys_def Let_def by (auto split: Option.bind_splits)
  show ?thesis unfolding tls_exchange_def Let_def d assms(2) bind.bind_lunit ..
qed

context byte_pipe
begin

lemma read_sealed:
  assumes "ok (s_conn s)" "avail s = seal_record k sq plain inner @ rest" "inner \<noteq> 0" "length plain < 16000"
  shows "\<exists>hdr body s'. read_record ops s = Some (Some (CT_APPLICATION_DATA, hdr, body), s') \<and>
    open_record k sq hdr body = Some (inner, plain) \<and> ok (s_conn s') \<and> avail s' = rest"
proof -
  define r where "r = seal_record k sq plain inner"
  obtain body where b: "r = [CT_APPLICATION_DATA, 3, 3] @ u16_len body" "length body = length plain + 17"
    "open_record k sq (take 5 r) body = Some (inner, plain)"
    using open_sealed_record [OF assms(3,4), of k sq] unfolding r_def by blast
  have av: "avail s = [CT_APPLICATION_DATA, 3, 3] @ u16_len body @ rest" unfolding assms(2) r_def [symmetric] b(1) by simp
  have nb: "body \<noteq> []" "length body \<le> 18432" using b(2) assms(4) by auto
  have h: "take 5 r = [CT_APPLICATION_DATA, 3, 3, of_nat (length body div 256), of_nat (length body)]"
    unfolding b(1) by (simp add: u16_len_def)
  show ?thesis using read_record_head [OF assms(1) av nb] b(3) unfolding h by blast
qed

lemma read_record_end: "ok (s_conn s) \<Longrightarrow> avail s = [] \<Longrightarrow> \<exists>s'. read_record ops s = Some (None, s') \<and> ok (s_conn s')"
  using read_exact_spec [of s 5] by (auto simp: read_record_def)

lemma read_response_one:
  assumes "ok (s_conn s)" "avail s = seal_record k 0 resp CT_APPLICATION_DATA" "length resp < 16000" "length resp \<le> cap"
  shows "\<exists>s'. read_response ops k cap (Suc (Suc g)) 0 [] s = Some (resp, s') \<and> ok (s_conn s')"
proof -
  obtain hdr body s1 where r: "read_record ops s = Some (Some (CT_APPLICATION_DATA, hdr, body), s1)"
    "open_record k 0 hdr body = Some (CT_APPLICATION_DATA, resp)" "ok (s_conn s1)" "avail s1 = []"
    using read_sealed [OF assms(1), of k 0 resp CT_APPLICATION_DATA "[]"] assms(2,3) by (auto simp: CT_APPLICATION_DATA_def)
  obtain s2 where "read_record ops s1 = Some (None, s2)" "ok (s_conn s2)" using read_record_end [OF r(3,4)] by blast
  then show ?thesis using r(1-3) assms(4)
    by (auto simp: CT_APPLICATION_DATA_def CT_CHANGE_CIPHER_SPEC_def Let_def)
qed

lemma tls_exchange_answers:
  assumes "ok (s_conn s)" "length (dec_digits (length (rq_body rq))) \<le> 10" "app_keys sec (sha256_finalize tr) = Some (ck, sk)"
    "avail s = seal_record sk 0 resp CT_APPLICATION_DATA" "resp \<noteq> []" "length resp < 16000" "length resp \<le> rq_cap rq"
  shows "\<exists>s'. tls_exchange ops sec tr rq s = Some (Some resp, s')"
proof -
  obtain v where v: "finished_mac (c_hs_secret sec) (sha256_finalize tr) = Some v" using finished_mac_some by blast
  obtain s1 where s1: "send_raw ops (seal_record (c_hs sec) 0 ([HS_FINISHED, 0, 0, 32] @ v) CT_HANDSHAKE) s = Some (True, s1)"
    "ok (s_conn s1)" "avail s1 = avail s" using send_raw_ok [OF assms(1)] by blast
  obtain req where req: "build_request (rq_method rq) (rq_host rq) (rq_path rq) (rq_type rq) (rq_body rq) = Some req"
    using build_request_some [OF assms(2)] by blast
  obtain s2 where s2: "send_raw ops (seal_record ck 0 req CT_APPLICATION_DATA) s1 = Some (True, s2)" "ok (s_conn s2)"
    "avail s2 = avail s1" using send_raw_ok [OF s1(2)] by blast
  have g: "(4096 :: nat) = Suc (Suc 4094)" by simp
  obtain s3 where s3: "read_response ops sk (rq_cap rq) 4096 0 [] s2 = Some (resp, s3)" "ok (s_conn s3)"
    using read_response_one [OF s2(2) _ assms(6,7)] assms(4) s1(3) s2(3) unfolding g by metis
  obtain c' where c': "p_close ops (s_conn s3) = Some c'" using close [OF s3(2)] by blast
  show ?thesis using s1(1) req s2(1) s3(1) c' assms(5) unfolding tls_exchange_keys [OF assms(3) v] by simp
qed

lemma server_hello_wire:
  assumes "ok (s_conn s)" "avail s = [CT_HANDSHAKE, 3, 3] @ u16_len (server_hello_msg random pub) @ rest"
    "length random = 32" "length pub = 32"
  shows "\<exists>s'. server_hello ops tr s = Some (Some (pub, sha256_update tr (server_hello_msg random pub)), s') \<and>
    ok (s_conn s') \<and> avail s' = rest"
proof -
  have l: "length (server_hello_msg random pub) = 90" using assms(3,4) by (simp add: server_hello_msg_def hs_message_def u16_len_def)
  then have ne: "server_hello_msg random pub \<noteq> []" "length (server_hello_msg random pub) \<le> 18432" by auto
  obtain hdr s1 where "read_record ops s = Some (Some (CT_HANDSHAKE, hdr, server_hello_msg random pub), s1)"
    "ok (s_conn s1)" "avail s1 = rest" using read_record_head [OF assms(1,2) ne] by blast
  then show ?thesis using parse_server_hello_wire [OF assms(3,4)]
    by (subst server_hello.simps) (simp add: CT_HANDSHAKE_def CT_CHANGE_CIPHER_SPEC_def CT_ALERT_def)
qed

lemma server_flight_wire:
  assumes "ok (s_conn s)" "avail s = seal_record (s_hs sec) 0 (concat msgs @ fin) CT_HANDSHAKE @ rest"
    "length (concat msgs @ fin) < 16000"
    "\<forall>m \<in> set msgs. is_message m \<and> m ! 0 \<noteq> HS_FINISHED" "collect_certs msgs [] = Some chain"
    "is_message fin" "fin ! 0 = HS_FINISHED" "36 \<le> length fin"
    "finished_mac (s_hs_secret sec) (sha256_finalize (foldl sha256_update tr msgs)) = Some (slice fin 4 36)"
  shows "\<exists>s'. server_flight ops sec (Suc g) 0 [] tr [] s =
      Some (Some (sha256_update (foldl sha256_update tr msgs) fin, chain), s') \<and> ok (s_conn s') \<and> avail s' = rest"
proof -
  obtain hdr body s1 where r: "read_record ops s = Some (Some (CT_APPLICATION_DATA, hdr, body), s1)"
    "open_record (s_hs sec) 0 hdr body = Some (CT_HANDSHAKE, concat msgs @ fin)" "ok (s_conn s1)" "avail s1 = rest"
    using read_sealed [OF assms(1,2) _ assms(3)] by (auto simp: CT_HANDSHAKE_def)
  have d: "hs_drain (s_hs_secret sec) (concat msgs @ fin) tr [] = Some (Done (sha256_update (foldl sha256_update tr msgs) fin) chain)"
    by (rule hs_drain_flight [OF assms(4-9)])
  show ?thesis using r d
    by (simp add: CT_APPLICATION_DATA_def CT_HANDSHAKE_def CT_CHANGE_CIPHER_SPEC_def CT_ALERT_def)
qed

lemma tls_session_answers:
  assumes "ok c" "length (dec_digits (length (rq_body rq))) \<le> 10"
    "server_stream ss rq random pub msgs resp = Some (content c)" "length random = 32" "length pub = 32"
    "\<forall>m \<in> set msgs. is_message m \<and> m ! 0 \<noteq> HS_FINISHED" "collect_certs msgs [] = Some chain"
    "length (concat msgs) < 15900" "validate_chain (ss_anchors ss) (ss_now ss) chain (rq_host rq) = V_Ok"
    "resp \<noteq> []" "length resp < 16000" "length resp \<le> rq_cap rq"
  shows "\<exists>s'. tls_session ops ss rq c = Some (Some resp, s')"
proof -
  define ch where "ch = client_hello_of ss rq"
  define sh where "sh = server_hello_msg random pub"
  define tr where "tr = sha256_update sha256_new ch"
  define tr2 where "tr2 = sha256_update tr sh"
  have stream: "sha256_finalize tr2 = sha256 (ch @ sh)"
    "sha256_finalize (foldl sha256_update tr2 msgs) = sha256 (ch @ sh @ concat msgs)"
    using sha256.streaming [of "[ch, sh]"] sha256.streaming [of "[ch, sh] @ msgs"] by (simp_all add: tr_def tr2_def)
  obtain sec verify ck sk where sec: "handshake_secrets (x25519 (ss_priv ss) pub) (sha256 (ch @ sh)) = Some sec"
    and verify: "finished_mac (s_hs_secret sec) (sha256 (ch @ sh @ concat msgs)) = Some verify"
    and keys: "app_keys sec (sha256 (ch @ sh @ concat msgs @ hs_message HS_FINISHED verify)) = Some (ck, sk)"
    and cont: "content c = [CT_HANDSHAKE, 3, 3] @ u16_len sh @ seal_record (s_hs sec) 0 (concat msgs @ hs_message HS_FINISHED verify) CT_HANDSHAKE
      @ seal_record sk 0 resp CT_APPLICATION_DATA"
    using assms(3) unfolding server_stream_def Let_def ch_def [symmetric] sh_def [symmetric]
    by (auto split: Option.bind_splits)
  define fin where "fin = hs_message HS_FINISHED verify"
  have lv: "length verify = 32" using finished_mac_some [of "s_hs_secret sec" "sha256 (ch @ sh @ concat msgs)"] verify by auto
  have fin: "is_message fin" "fin ! 0 = HS_FINISHED" "length fin = 36" "slice fin 4 36 = verify"
    using lv u24_at_len [of verify "[HS_FINISHED]" "[]"]
    by (simp_all add: is_message_def fin_def hs_message_def) (simp add: u24_len_def slice_def)
  have tr3: "sha256_finalize (sha256_update (foldl sha256_update tr2 msgs) fin) = sha256 (ch @ sh @ concat msgs @ fin)"
    using sha256.streaming [of "[ch, sh] @ msgs @ [fin]"] by (simp add: tr_def tr2_def)
  define s0 where "s0 = stream_new c"
  have s0: "ok (s_conn s0)" "avail s0 = content c" using assms(1) by (simp_all add: s0_def stream_new_def avail_def)
  obtain s1 where s1: "send_raw ops ([CT_HANDSHAKE, 0x03, 0x01, of_nat (length ch div 256), of_nat (length ch)] @ ch) s0 = Some (True, s1)"
    "ok (s_conn s1)" "avail s1 = content c" using send_raw_ok [OF s0(1)] s0(2) by metis
  obtain s2 where s2: "server_hello ops tr s1 = Some (Some (pub, tr2), s2)" "ok (s_conn s2)"
    "avail s2 = seal_record (s_hs sec) 0 (concat msgs @ fin) CT_HANDSHAKE @ seal_record sk 0 resp CT_APPLICATION_DATA"
    using server_hello_wire [OF s1(2) _ assms(4,5)] s1(3) cont unfolding sh_def [symmetric] tr2_def fin_def [symmetric] by metis
  obtain s3 where s3: "send_raw ops [CT_CHANGE_CIPHER_SPEC, 0x03, 0x03, 0x00, 0x01, 0x01] s2 = Some (True, s3)" "ok (s_conn s3)"
    "avail s3 = avail s2" using send_raw_ok [OF s2(2)] by blast
  have g: "(64 :: nat) = Suc 63" by simp
  have fl: "length (concat msgs @ fin) < 16000" "36 \<le> length fin" using assms(8) fin(3) by simp_all
  have mac: "finished_mac (s_hs_secret sec) (sha256_finalize (foldl sha256_update tr2 msgs)) = Some (slice fin 4 36)"
    using verify by (simp only: stream fin(4))
  obtain s4 where s4: "server_flight ops sec 64 0 [] tr2 [] s3 = Some (Some (sha256_update (foldl sha256_update tr2 msgs) fin, chain), s4)"
    "ok (s_conn s4)" "avail s4 = seal_record sk 0 resp CT_APPLICATION_DATA"
    using server_flight_wire [OF s3(2) s3(3) [unfolded s2(3)] fl(1) assms(6,7) fin(1,2) fl(2) mac] unfolding g by blast
  have keys2: "app_keys sec (sha256_finalize (sha256_update (foldl sha256_update tr2 msgs) fin)) = Some (ck, sk)"
    using keys by (simp only: tr3 fin_def [symmetric])
  obtain s5 where s5: "tls_exchange ops sec (sha256_update (foldl sha256_update tr2 msgs) fin) rq s4 = Some (Some resp, s5)"
    using tls_exchange_answers [OF s4(2) assms(2) keys2 s4(3) assms(10-12)] by blast
  show ?thesis
    using s1(1) s2(1) sec s3(1) s4(1) s5 assms(9)
    unfolding tls_session_def Let_def client_hello_of_def [symmetric] ch_def [symmetric] s0_def [symmetric] tr_def [symmetric]
    by (simp add: stream(1))
qed

end

end
