(* ===== verification/Tls_Accept.thy ===== *)
theory Tls_Accept
  imports Tls_Wire
begin

text \<open>
  What a delivered response means, in terms of the bytes the connection delivered: a specification of
  an accepted session as a reading of the received stream record by record, and that every session
  that delivers a response meets it.
\<close>

unbundle bit_operations_syntax

section \<open>Records received\<close>

type_synonym tls_record = "byte \<times> bytes \<times> bytes"

definition is_record :: "tls_record \<Rightarrow> bool" where
  "is_record r \<longleftrightarrow> (case r of (typ, hdr, body) \<Rightarrow> length hdr = 5 \<and> hdr ! 0 = typ \<and> be16_at hdr 3 = length body \<and> body \<noteq> [])"

text \<open>The bytes of a sequence of records.\<close>

definition wire :: "tls_record list \<Rightarrow> bytes" where
  "wire rs = concat (map (\<lambda>(typ, hdr, body). hdr @ body) rs)"

text \<open>
  Opening the protected records of a sequence in order, under consecutive sequence numbers from \<open>n\<close>;
  ChangeCipherSpec records are passed over, and any other kind of record is not allowed.
\<close>

fun open_all :: "keys \<Rightarrow> nat \<Rightarrow> tls_record list \<Rightarrow> (byte \<times> bytes) list option" where
  "open_all k n [] = Some []"
| "open_all k n ((typ, hdr, body) # rs) =
     (if typ = CT_CHANGE_CIPHER_SPEC then open_all k n rs
      else if typ \<noteq> CT_APPLICATION_DATA then None
      else case open_record k n hdr body of
        None \<Rightarrow> None
      | Some p \<Rightarrow> map_option (Cons p) (open_all k (n + 1) rs))"

text \<open>What came with inner type \<open>typ\<close>.\<close>

definition data_of :: "byte \<Rightarrow> (byte \<times> bytes) list \<Rightarrow> bytes" where
  "data_of typ ps = concat (map snd (filter (\<lambda>p. fst p = typ) ps))"

section \<open>Accepted sessions\<close>

text \<open>
  \<open>accepted ss rq stream resp\<close>: the received bytes begin with ChangeCipherSpec records, the record of a
  ServerHello \<open>sh\<close>, the records \<open>flight\<close> and the records \<open>reply\<close>. The secrets are those of the client's
  private key with the key share in \<open>sh\<close>. The records of \<open>flight\<close>, opened in order under the server's
  handshake key, carry no alert, and their handshake data is a sequence of messages followed by a
  Finished that is complete with the last record and not before. Its verify data is the MAC, under the
  server's secret, of the hash of ClientHello, \<open>sh\<close> and these messages; the certificates in the messages
  make a chain that validates for the host of the request. The records of \<open>reply\<close> open in order under
  the server's application key of that transcript, and \<open>resp\<close> is their data, cut to the capacity.
\<close>

definition accepted :: "session \<Rightarrow> request \<Rightarrow> bytes \<Rightarrow> bytes \<Rightarrow> bool" where
  "accepted ss rq stream resp \<longleftrightarrow>
     (\<exists>ccs hdr sh flight reply pub sec ps p msgs fin rest chain ck sk qs.
        let ch = client_hello_of ss rq; rs = ccs @ [(CT_HANDSHAKE, hdr, sh)] @ flight @ reply
        in (\<forall>r \<in> set rs. is_record r) \<and> prefix (wire rs) stream \<and>
           (\<forall>r \<in> set ccs. fst r = CT_CHANGE_CIPHER_SPEC) \<and>
           parse_server_hello sh = Some (Some pub) \<and>
           handshake_secrets (x25519 (ss_priv ss) pub) (sha256 (ch @ sh)) = Some sec \<and>
           open_all (s_hs sec) 0 flight = Some (ps @ [(CT_HANDSHAKE, p)]) \<and> CT_ALERT \<notin> fst ` set ps \<and>
           data_of CT_HANDSHAKE ps @ p = concat msgs @ fin @ rest \<and>
           length (data_of CT_HANDSHAKE ps) < length (concat msgs @ fin) \<and>
           (\<forall>m \<in> set msgs. is_message m \<and> m ! 0 \<noteq> HS_FINISHED) \<and> is_message fin \<and> fin ! 0 = HS_FINISHED \<and>
           finished_mac (s_hs_secret sec) (sha256 (ch @ sh @ concat msgs)) = Some (slice fin 4 36) \<and>
           collect_certs msgs [] = Some chain \<and>
           validate_chain (ss_anchors ss) (ss_now ss) chain (rq_host rq) = V_Ok \<and>
           app_keys sec (sha256 (ch @ sh @ concat msgs @ fin)) = Some (ck, sk) \<and>
           open_all sk 0 reply = Some qs \<and> CT_ALERT \<notin> fst ` set qs \<and>
           resp = take (rq_cap rq) (data_of CT_APPLICATION_DATA qs) \<and> resp \<noteq> [])"

lemma wire_simps [simp]:
  "wire [] = []" "wire ((t, h, b) # rs) = h @ b @ wire rs" "wire (xs @ ys) = wire xs @ wire ys"
  by (simp_all add: wire_def)

lemma data_of_simps [simp]:
  "data_of t [] = []" "data_of t ((u, d) # ps) = (if u = t then d else []) @ data_of t ps"
  "data_of t (ps @ qs) = data_of t ps @ data_of t qs"
  by (simp_all add: data_of_def)

context byte_pipe
begin

lemma read_record_sound:
  assumes "ok (s_conn s)" "read_record ops s = Some (Some (typ, hdr, body), s')"
  shows "is_record (typ, hdr, body)" "avail s = hdr @ body @ avail s'" "ok (s_conn s')"
proof -
  obtain r1 s1 where r1: "read_exact ops 5 s = Some (r1, s1)" "ok (s_conn s1)"
    "if 5 \<le> length (avail s) then r1 = Some (take 5 (avail s)) \<and> avail s1 = drop 5 (avail s) else r1 = None"
    using read_exact_spec [OF assms(1), of 5] by blast
  obtain h where h: "r1 = Some h" using assms(2) r1(1) by (cases r1) (auto simp: read_record_def)
  have lh: "length h = 5" "avail s = h @ avail s1" using r1(3) h by (auto split: if_splits)
  define len where "len = be16_at h 3"
  have len: "\<not> (len = 0 \<or> 18432 < len)"
    using assms(2) r1(1) h by (auto simp: read_record_def Let_def len_def split: if_splits)
  obtain r2 s2 where r2: "read_exact ops len s1 = Some (r2, s2)" "ok (s_conn s2)"
    "if len \<le> length (avail s1) then r2 = Some (take len (avail s1)) \<and> avail s2 = drop len (avail s1) else r2 = None"
    using read_exact_spec [OF r1(2), of len] by blast
  obtain b where b: "r2 = Some b"
    using assms(2) r1(1) h len r2(1) by (cases r2) (auto simp: read_record_def Let_def len_def)
  have lb: "length b = len" "avail s1 = b @ avail s2" using r2(3) b by (auto split: if_splits)
  have e: "typ = h ! 0" "hdr = h" "body = b" "s' = s2"
    using assms(2) r1(1) h len r2(1) b by (auto simp: read_record_def Let_def len_def)
  show "is_record (typ, hdr, body)" using lh lb len e by (auto simp: is_record_def len_def)
  show "avail s = hdr @ body @ avail s'" using lh(2) lb(2) e by simp
  show "ok (s_conn s')" using r2(2) e by simp
qed

lemma send_raw_sound:
  assumes "ok (s_conn s)" "send_raw ops d s = Some (b, s')"
  shows "ok (s_conn s') \<and> avail s' = avail s"
  using send_raw_ok [OF assms(1), of d] assms(2) by auto

lemma server_hello_sound:
  "server_hello ops' tr s = Some r \<Longrightarrow> ops' = ops \<Longrightarrow> ok (s_conn s) \<Longrightarrow> fst r = Some (pub, tr') \<Longrightarrow>
   \<exists>ccs hdr sh. avail s = wire (ccs @ [(CT_HANDSHAKE, hdr, sh)]) @ avail (snd r) \<and> ok (s_conn (snd r)) \<and>
     (\<forall>r \<in> set (ccs @ [(CT_HANDSHAKE, hdr, sh)]). is_record r) \<and> (\<forall>r \<in> set ccs. fst r = CT_CHANGE_CIPHER_SPEC) \<and>
     parse_server_hello sh = Some (Some pub) \<and> tr' = sha256_update tr sh"
proof (induction ops' tr s r rule: server_hello.raw_induct [rotated, consumes 1, case_names step])
  case (step server_hello ops' tr s r)
  obtain ty hdr body s1 where r: "read_record ops s = Some (Some (ty, hdr, body), s1)"
    using step(2,3,5) by (auto split: option.splits prod.splits)
  note rd = read_record_sound [OF step(4) r]
  show ?case
  proof (cases "ty = CT_CHANGE_CIPHER_SPEC")
    case True
    then have "server_hello ops' tr s1 = Some r" using step(2,3) r by simp
    from step(1) [OF this step(3) rd(3) step(5)] obtain ccs h sh where
      i: "avail s1 = wire (ccs @ [(CT_HANDSHAKE, h, sh)]) @ avail (snd r)" "ok (s_conn (snd r))"
      "\<forall>r \<in> set (ccs @ [(CT_HANDSHAKE, h, sh)]). is_record r" "\<forall>r \<in> set ccs. fst r = CT_CHANGE_CIPHER_SPEC"
      "parse_server_hello sh = Some (Some pub)" "tr' = sha256_update tr sh" by blast
    show ?thesis
      by (rule exI [of _ "(ty, hdr, body) # ccs"], rule exI [of _ h], rule exI [of _ sh]) (use i rd True in simp)
  next
    case False
    then have e: "ty = CT_HANDSHAKE" "snd r = s1" "parse_server_hello body = Some (Some pub)" "tr' = sha256_update tr body"
      using step(2,3,5) r by (auto split: option.splits if_splits)
    show ?thesis
      by (rule exI [of _ "[]"], rule exI [of _ hdr], rule exI [of _ body]) (use e rd in simp)
  qed
qed

lemma server_flight_sound:
  "server_flight ops sec g sq acc tr chain s = Some (Some (tr', chain'), s') \<Longrightarrow> ok (s_conn s) \<Longrightarrow> incomplete acc \<Longrightarrow>
   \<exists>rs ps p msgs fin rest. avail s = wire rs @ avail s' \<and> ok (s_conn s') \<and> (\<forall>r \<in> set rs. is_record r) \<and>
     open_all (s_hs sec) sq rs = Some (ps @ [(CT_HANDSHAKE, p)]) \<and> CT_ALERT \<notin> fst ` set ps \<and>
     acc @ data_of CT_HANDSHAKE ps @ p = concat msgs @ fin @ rest \<and>
     length (acc @ data_of CT_HANDSHAKE ps) < length (concat msgs @ fin) \<and>
     (\<forall>m \<in> set msgs. is_message m \<and> m ! 0 \<noteq> HS_FINISHED) \<and> is_message fin \<and> fin ! 0 = HS_FINISHED \<and>
     finished_mac (s_hs_secret sec) (sha256_finalize (foldl sha256_update tr msgs)) = Some (slice fin 4 36) \<and>
     tr' = sha256_update (foldl sha256_update tr msgs) fin \<and> collect_certs msgs chain = Some chain'"
proof (induction g arbitrary: sq acc tr chain s)
  case (Suc g)
  note prem = Suc.prems(1)
  obtain ty hdr body s1 where r: "read_record ops s = Some (Some (ty, hdr, body), s1)"
    using prem by (auto split: option.splits prod.splits)
  note rd = read_record_sound [OF Suc.prems(2) r]
  show ?case
  proof (cases "ty = CT_CHANGE_CIPHER_SPEC")
    case True
    then have "server_flight ops sec g sq acc tr chain s1 = Some (Some (tr', chain'), s')" using prem r by simp
    from Suc.IH [OF this rd(3) Suc.prems(3)] obtain rs ps p msgs fin rest where
      i: "avail s1 = wire rs @ avail s'" "ok (s_conn s')" "\<forall>r \<in> set rs. is_record r"
      "open_all (s_hs sec) sq rs = Some (ps @ [(CT_HANDSHAKE, p)])" "CT_ALERT \<notin> fst ` set ps"
      "acc @ data_of CT_HANDSHAKE ps @ p = concat msgs @ fin @ rest"
      "length (acc @ data_of CT_HANDSHAKE ps) < length (concat msgs @ fin)"
      "\<forall>m \<in> set msgs. is_message m \<and> m ! 0 \<noteq> HS_FINISHED" "is_message fin" "fin ! 0 = HS_FINISHED"
      "finished_mac (s_hs_secret sec) (sha256_finalize (foldl sha256_update tr msgs)) = Some (slice fin 4 36)"
      "tr' = sha256_update (foldl sha256_update tr msgs) fin" "collect_certs msgs chain = Some chain'" by blast
    have w: "avail s = wire ((ty, hdr, body) # rs) @ avail s'" "\<forall>r \<in> set ((ty, hdr, body) # rs). is_record r"
      "open_all (s_hs sec) sq ((ty, hdr, body) # rs) = Some (ps @ [(CT_HANDSHAKE, p)])" using i rd True by simp_all
    show ?thesis
      by (rule exI [of _ "(ty, hdr, body) # rs"], rule exI [of _ ps], rule exI [of _ p], rule exI [of _ msgs],
          rule exI [of _ fin], rule exI [of _ rest], intro conjI w i)
  next
    case ccs: False
    obtain ity plain where o: "open_record (s_hs sec) sq hdr body = Some (ity, plain)"
      using prem r ccs by (auto split: option.splits if_splits)
    have ty: "ty \<noteq> CT_ALERT" "ty = CT_APPLICATION_DATA" "ity \<noteq> CT_ALERT" using prem r ccs o by (auto split: if_splits)
    have op: "open_all (s_hs sec) sq ((ty, hdr, body) # rs) = map_option (Cons (ity, plain)) (open_all (s_hs sec) (sq + 1) rs)" for rs
      using ccs ty(2) o by simp
    show ?thesis
    proof (cases "ity = CT_HANDSHAKE")
      case False
      then have "server_flight ops sec g (sq + 1) acc tr chain s1 = Some (Some (tr', chain'), s')"
        using prem r o ty ccs by simp
      from Suc.IH [OF this rd(3) Suc.prems(3)] obtain rs ps p msgs fin rest where
        i: "avail s1 = wire rs @ avail s'" "ok (s_conn s')" "\<forall>r \<in> set rs. is_record r"
        "open_all (s_hs sec) (sq + 1) rs = Some (ps @ [(CT_HANDSHAKE, p)])" "CT_ALERT \<notin> fst ` set ps"
        "acc @ data_of CT_HANDSHAKE ps @ p = concat msgs @ fin @ rest"
        "length (acc @ data_of CT_HANDSHAKE ps) < length (concat msgs @ fin)"
        "\<forall>m \<in> set msgs. is_message m \<and> m ! 0 \<noteq> HS_FINISHED" "is_message fin" "fin ! 0 = HS_FINISHED"
        "finished_mac (s_hs_secret sec) (sha256_finalize (foldl sha256_update tr msgs)) = Some (slice fin 4 36)"
        "tr' = sha256_update (foldl sha256_update tr msgs) fin" "collect_certs msgs chain = Some chain'" by blast
      have w: "avail s = wire ((ty, hdr, body) # rs) @ avail s'" "\<forall>r \<in> set ((ty, hdr, body) # rs). is_record r"
        "open_all (s_hs sec) sq ((ty, hdr, body) # rs) = Some (((ity, plain) # ps) @ [(CT_HANDSHAKE, p)])"
        "CT_ALERT \<notin> fst ` set ((ity, plain) # ps)"
        "acc @ data_of CT_HANDSHAKE ((ity, plain) # ps) @ p = concat msgs @ fin @ rest"
        "length (acc @ data_of CT_HANDSHAKE ((ity, plain) # ps)) < length (concat msgs @ fin)"
        unfolding op using i rd ty(3) False by simp_all
      show ?thesis
        by (rule exI [of _ "(ty, hdr, body) # rs"], rule exI [of _ "(ity, plain) # ps"], rule exI [of _ p], rule exI [of _ msgs],
            rule exI [of _ fin], rule exI [of _ rest], intro conjI w i)
    next
      case hs: True
      obtain fl where d: "hs_drain (s_hs_secret sec) (acc @ plain) tr chain = Some fl" using hs_drain_total by blast
      note dm = hs_drain_meaning [OF d]
      have e: "server_flight ops sec (Suc g) sq acc tr chain s =
          (case fl of Bad \<Rightarrow> Some (None, s1) | Done t c \<Rightarrow> Some (Some (t, c), s1)
           | More a t c \<Rightarrow> server_flight ops sec g (sq + 1) a t c s1)"
        using r o ty hs d ccs by (auto split: flight.splits)
      show ?thesis
      proof (cases fl)
        case (More a t c)
        obtain ms where m: "acc @ plain = concat ms @ a" "\<forall>m \<in> set ms. is_message m \<and> m ! 0 \<noteq> HS_FINISHED"
          "t = foldl sha256_update tr ms" "collect_certs ms chain = Some c" "incomplete a" using dm More by auto
        have "server_flight ops sec g (sq + 1) a t c s1 = Some (Some (tr', chain'), s')" using prem e More by simp
        from Suc.IH [OF this rd(3) m(5)] obtain rs ps p msgs fin rest where
          i: "avail s1 = wire rs @ avail s'" "ok (s_conn s')" "\<forall>r \<in> set rs. is_record r"
          "open_all (s_hs sec) (sq + 1) rs = Some (ps @ [(CT_HANDSHAKE, p)])" "CT_ALERT \<notin> fst ` set ps"
          "a @ data_of CT_HANDSHAKE ps @ p = concat msgs @ fin @ rest"
          "length (a @ data_of CT_HANDSHAKE ps) < length (concat msgs @ fin)"
          "\<forall>m \<in> set msgs. is_message m \<and> m ! 0 \<noteq> HS_FINISHED" "is_message fin" "fin ! 0 = HS_FINISHED"
          "finished_mac (s_hs_secret sec) (sha256_finalize (foldl sha256_update t msgs)) = Some (slice fin 4 36)"
          "tr' = sha256_update (foldl sha256_update t msgs) fin" "collect_certs msgs c = Some chain'" by blast
        have j: "acc @ plain @ xs = concat ms @ a @ xs" for xs using m(1) by (metis append_assoc)
        have la: "length acc + length plain = length (concat ms) + length a" using arg_cong [OF m(1), of length] by simp
        have w: "avail s = wire ((ty, hdr, body) # rs) @ avail s'" "\<forall>r \<in> set ((ty, hdr, body) # rs). is_record r"
          "open_all (s_hs sec) sq ((ty, hdr, body) # rs) = Some (((ity, plain) # ps) @ [(CT_HANDSHAKE, p)])"
          "CT_ALERT \<notin> fst ` set ((ity, plain) # ps)"
          "acc @ data_of CT_HANDSHAKE ((ity, plain) # ps) @ p = concat (ms @ msgs) @ fin @ rest"
          "length (acc @ data_of CT_HANDSHAKE ((ity, plain) # ps)) < length (concat (ms @ msgs) @ fin)"
          "\<forall>m \<in> set (ms @ msgs). is_message m \<and> m ! 0 \<noteq> HS_FINISHED"
          "finished_mac (s_hs_secret sec) (sha256_finalize (foldl sha256_update tr (ms @ msgs))) = Some (slice fin 4 36)"
          "tr' = sha256_update (foldl sha256_update tr (ms @ msgs)) fin" "collect_certs (ms @ msgs) chain = Some chain'"
          unfolding op using i rd ty(3) hs m la by (auto simp: j collect_append)
        show ?thesis
          by (rule exI [of _ "(ty, hdr, body) # rs"], rule exI [of _ "(ity, plain) # ps"], rule exI [of _ p],
              rule exI [of _ "ms @ msgs"], rule exI [of _ fin], rule exI [of _ rest], intro conjI w i)
      next
        case (Done t c)
        then have t: "tr' = t" "chain' = c" "s' = s1" using prem e by simp_all
        obtain msgs fin rest where f: "acc @ plain = concat msgs @ fin @ rest"
          "\<forall>m \<in> set msgs. is_message m \<and> m ! 0 \<noteq> HS_FINISHED" "is_message fin" "fin ! 0 = HS_FINISHED"
          "t = sha256_update (foldl sha256_update tr msgs) fin"
          "finished_mac (s_hs_secret sec) (sha256_finalize (foldl sha256_update tr msgs)) = Some (slice fin 4 36)"
          "collect_certs msgs chain = Some c" using dm Done by auto
        have "length acc < length (concat msgs @ fin)"
        proof (cases msgs)
          case Nil
          then show ?thesis using incomplete_ends [OF Suc.prems(3) f(3), of plain rest] f(1) by simp
        next
          case (Cons m ms)
          then show ?thesis using incomplete_ends [OF Suc.prems(3), of m plain "concat ms @ fin @ rest"] f(1,2) by simp
        qed
        then have w: "avail s = wire [(ty, hdr, body)] @ avail s'" "\<forall>r \<in> set [(ty, hdr, body)]. is_record r"
          "open_all (s_hs sec) sq [(ty, hdr, body)] = Some ([] @ [(CT_HANDSHAKE, plain)])" "CT_ALERT \<notin> fst ` set ([] :: (byte \<times> bytes) list)"
          "acc @ data_of CT_HANDSHAKE [] @ plain = concat msgs @ fin @ rest"
          "length (acc @ data_of CT_HANDSHAKE []) < length (concat msgs @ fin)" "ok (s_conn s')"
          unfolding op using rd f(1) hs t(3) by simp_all
        show ?thesis
          by (rule exI [of _ "[(ty, hdr, body)]"], rule exI [of _ "[]"], rule exI [of _ plain],
              rule exI [of _ msgs], rule exI [of _ fin], rule exI [of _ rest], unfold t(1,2), intro conjI w f)
      next
        case Bad
        then show ?thesis using prem e by simp
      qed
    qed
  qed
qed simp

lemma read_response_sound:
  "read_response ops k cap g sq out s = Some (out', s') \<Longrightarrow> ok (s_conn s) \<Longrightarrow>
   \<exists>rs qs t. avail s = wire rs @ t \<and> (\<forall>r \<in> set rs. is_record r) \<and> open_all k sq rs = Some qs \<and>
     CT_ALERT \<notin> fst ` set qs \<and> out' = out @ take (cap - length out) (data_of CT_APPLICATION_DATA qs)"
proof (induction g arbitrary: sq out s)
  case 0
  then show ?case by (intro exI [of _ "[]"] exI [of _ "avail s"]) simp
next
  case (Suc g)
  note prem = Suc.prems(1)
  have stop: ?case if "out' = out"
    using that by (intro exI [of _ "[]"] exI [of _ "avail s"]) simp
  show ?case
  proof (cases "fst (the (read_record ops s))")
    case None
    then show ?thesis using prem stop by (auto split: option.splits)
  next
    case (Some x)
    then obtain ty hdr body s1 where r: "read_record ops s = Some (Some (ty, hdr, body), s1)"
      using prem by (cases x) (auto split: option.splits)
    note rd = read_record_sound [OF Suc.prems(2) r]
    have cons: ?thesis
      if rr: "read_response ops k cap g sq2 out2 s1 = Some (out', s')"
        and op: "\<And>rs qs. open_all k sq2 rs = Some qs \<Longrightarrow> open_all k sq ((ty, hdr, body) # rs) = Some (new @ qs)"
        and na: "CT_ALERT \<notin> fst ` set new" and o2: "out2 = out @ take (cap - length out) (data_of CT_APPLICATION_DATA new)"
      for sq2 out2 new
    proof -
      obtain rs qs t where i: "avail s1 = wire rs @ t" "\<forall>r \<in> set rs. is_record r" "open_all k sq2 rs = Some qs"
        "CT_ALERT \<notin> fst ` set qs" "out' = out2 @ take (cap - length out2) (data_of CT_APPLICATION_DATA qs)"
        using Suc.IH [OF rr rd(3)] by blast
      have "out' = out @ take (cap - length out) (data_of CT_APPLICATION_DATA (new @ qs))"
        unfolding i(5) o2 by (simp add: min_def)
      then show ?thesis using i rd op na
        by (intro exI [of _ "(ty, hdr, body) # rs"] exI [of _ "new @ qs"] exI [of _ t]) auto
    qed
    show ?thesis
    proof (cases "ty = CT_CHANGE_CIPHER_SPEC")
      case True
      show ?thesis by (rule cons [of sq out "[]"]) (use prem r True in simp_all)
    next
      case ccs: False
      show ?thesis
      proof (cases "ty = CT_APPLICATION_DATA \<and> open_record k sq hdr body \<noteq> None")
        case False
        then have "out' = out" using prem r ccs by (auto split: option.splits)
        then show ?thesis by (rule stop)
      next
        case app: True
        then obtain ity plain where o: "open_record k sq hdr body = Some (ity, plain)" by auto
        have op: "open_all k (sq + 1) rs = Some qs \<Longrightarrow> open_all k sq ((ty, hdr, body) # rs) = Some ([(ity, plain)] @ qs)" for rs qs
          using ccs app o by simp
        show ?thesis
        proof (cases "ity = CT_APPLICATION_DATA")
          case True
          define out2 where "out2 = out @ take (cap - length out) plain"
          have e: "read_response ops k cap (Suc g) sq out s =
              (if cap \<le> length out2 then Some (out2, s1) else read_response ops k cap g (sq + 1) out2 s1)"
            using r ccs app o True by (auto simp: out2_def Let_def)
          have al: "CT_ALERT \<noteq> CT_APPLICATION_DATA" by (simp add: CT_ALERT_def CT_APPLICATION_DATA_def)
          show ?thesis
          proof (cases "cap \<le> length out2")
            case full: True
            then have "out' = out2" using prem unfolding e by simp
            then show ?thesis using rd op [of "[]" "[]"] True al
              by (intro exI [of _ "[(ty, hdr, body)]"] exI [of _ "[(ity, plain)]"] exI [of _ "avail s1"]) (simp add: out2_def)
          next
            case False
            then have "read_response ops k cap g (sq + 1) out2 s1 = Some (out', s')" using prem unfolding e by simp
            then show ?thesis by (rule cons [OF _ op]) (use True al in \<open>simp_all add: out2_def\<close>)
          qed
        next
          case other: False
          show ?thesis
          proof (cases "ity = CT_ALERT")
            case True
            then have "out' = out" using prem r ccs app o other by simp
            then show ?thesis by (rule stop)
          next
            case False
            then have "read_response ops k cap g (sq + 1) out s1 = Some (out', s')" using prem r ccs app o other by simp
            then show ?thesis by (rule cons [OF _ op]) (use False other in simp_all)
          qed
        qed
      qed
    qed
  qed
qed

lemma tls_exchange_sound:
  assumes "tls_exchange ops sec tr rq s = Some (Some resp, s')" "ok (s_conn s)"
  shows "\<exists>ck sk rs qs t. app_keys sec (sha256_finalize tr) = Some (ck, sk) \<and> avail s = wire rs @ t \<and>
    (\<forall>r \<in> set rs. is_record r) \<and> open_all sk 0 rs = Some qs \<and> CT_ALERT \<notin> fst ` set qs \<and>
    resp = take (rq_cap rq) (data_of CT_APPLICATION_DATA qs) \<and> resp \<noteq> []"
proof -
  obtain ck sk where k: "app_keys sec (sha256_finalize tr) = Some (ck, sk)" using app_keys_some [OF length_finalize] by blast
  obtain v where v: "finished_mac (c_hs_secret sec) (sha256_finalize tr) = Some v" using finished_mac_some by blast
  obtain s1 where s1: "send_raw ops (seal_record (c_hs sec) 0 ([HS_FINISHED, 0, 0, 32] @ v) CT_HANDSHAKE) s = Some (True, s1)"
    "ok (s_conn s1)" "avail s1 = avail s" using send_raw_ok [OF assms(2)] by blast
  note e = assms(1) [unfolded tls_exchange_keys [OF k v] s1(1)]
  obtain req where req: "build_request (rq_method rq) (rq_host rq) (rq_path rq) (rq_type rq) (rq_body rq) = Some req"
    using e by (cases "build_request (rq_method rq) (rq_host rq) (rq_path rq) (rq_type rq) (rq_body rq)") auto
  obtain s2 where s2: "send_raw ops (seal_record ck 0 req CT_APPLICATION_DATA) s1 = Some (True, s2)" "ok (s_conn s2)" "avail s2 = avail s1"
    using send_raw_ok [OF s1(2)] by blast
  obtain out s3 where s3: "read_response ops sk (rq_cap rq) 4096 0 [] s2 = Some (out, s3)"
    using read_response_total [OF s2(2)] by blast
  have r: "resp = out" "resp \<noteq> []" using e req s2(1) s3 by (auto split: Option.bind_splits if_splits)
  obtain rs qs t where "avail s2 = wire rs @ t" "\<forall>r \<in> set rs. is_record r" "open_all sk 0 rs = Some qs" "CT_ALERT \<notin> fst ` set qs"
    "out = [] @ take (rq_cap rq - length ([] :: bytes)) (data_of CT_APPLICATION_DATA qs)"
    using read_response_sound [OF s3 s2(2)] by blast
  then show ?thesis using k r s1(3) s2(3) by auto
qed

lemma tls_session_sound:
  assumes "ok c" "tls_session ops ss rq c = Some (Some resp, s')"
  shows "accepted ss rq (content c) resp"
proof -
  define ch where "ch = client_hello_of ss rq"
  define tr where "tr = sha256_update sha256_new ch"
  define rec where "rec = [CT_HANDSHAKE, 0x03, 0x01, of_nat (length ch div 256), of_nat (length ch)] @ ch"
  have a0: "ok (s_conn (stream_new c))" "avail (stream_new c) = content c" using assms(1) by (simp_all add: stream_new_def avail_def)
  obtain s0 where s0: "send_raw ops rec (stream_new c) = Some (True, s0)" "ok (s_conn s0)" "avail s0 = content c"
    using send_raw_ok [OF a0(1)] a0(2) by auto
  have e0: "(do {
           (hello, s) \<leftarrow> server_hello ops tr s0;
           (case hello of
              None \<Rightarrow> Some (None, s)
            | Some (server_pub, transcript) \<Rightarrow> do {
                sec \<leftarrow> handshake_secrets (x25519 (ss_priv ss) server_pub) (sha256_finalize transcript);
                (_, s) \<leftarrow> send_raw ops [CT_CHANGE_CIPHER_SPEC, 0x03, 0x03, 0x00, 0x01, 0x01] s;
                (fl, s) \<leftarrow> server_flight ops sec 64 0 [] transcript [] s;
                (case fl of
                   None \<Rightarrow> Some (None, s)
                 | Some (transcript, chain) \<Rightarrow>
                     if validate_chain (ss_anchors ss) (ss_now ss) chain (rq_host rq) \<noteq> V_Ok then Some (None, s)
                     else tls_exchange ops sec transcript rq s)
              })
         }) = Some (Some resp, s')"
    using assms(2) s0(1) unfolding tls_session_def Let_def client_hello_of_def [symmetric] ch_def [symmetric] tr_def [symmetric] rec_def [symmetric]
    by simp
  obtain pub tr2 s2 where h: "server_hello ops tr s0 = Some (Some (pub, tr2), s2)"
    using e0 by (auto split: Option.bind_splits option.splits)
  obtain ccs hdr sh where hs: "avail s0 = wire (ccs @ [(CT_HANDSHAKE, hdr, sh)]) @ avail s2" "ok (s_conn s2)"
    "\<forall>r \<in> set (ccs @ [(CT_HANDSHAKE, hdr, sh)]). is_record r" "\<forall>r \<in> set ccs. fst r = CT_CHANGE_CIPHER_SPEC"
    "parse_server_hello sh = Some (Some pub)" "tr2 = sha256_update tr sh"
    using server_hello_sound [OF h refl s0(2)] by auto
  obtain s3 where s3: "send_raw ops [CT_CHANGE_CIPHER_SPEC, 0x03, 0x03, 0x00, 0x01, 0x01] s2 = Some (True, s3)"
    "ok (s_conn s3)" "avail s3 = avail s2" using send_raw_ok [OF hs(2)] by blast
  obtain sec tr3 chain s4 where sec: "handshake_secrets (x25519 (ss_priv ss) pub) (sha256_finalize tr2) = Some sec"
    and fl: "server_flight ops sec 64 0 [] tr2 [] s3 = Some (Some (tr3, chain), s4)"
    and v: "validate_chain (ss_anchors ss) (ss_now ss) chain (rq_host rq) = V_Ok"
    and ex: "tls_exchange ops sec tr3 rq s4 = Some (Some resp, s')"
    using e0 h s3(1) by (auto split: Option.bind_splits option.splits if_splits)
  have inc: "incomplete []" by (simp add: incomplete_def)
  obtain flight ps p msgs fin rest where f: "avail s3 = wire flight @ avail s4" "ok (s_conn s4)" "\<forall>r \<in> set flight. is_record r"
    "open_all (s_hs sec) 0 flight = Some (ps @ [(CT_HANDSHAKE, p)])" "CT_ALERT \<notin> fst ` set ps"
    "[] @ data_of CT_HANDSHAKE ps @ p = concat msgs @ fin @ rest"
    "length ([] @ data_of CT_HANDSHAKE ps) < length (concat msgs @ fin)"
    "\<forall>m \<in> set msgs. is_message m \<and> m ! 0 \<noteq> HS_FINISHED" "is_message fin" "fin ! 0 = HS_FINISHED"
    "finished_mac (s_hs_secret sec) (sha256_finalize (foldl sha256_update tr2 msgs)) = Some (slice fin 4 36)"
    "tr3 = sha256_update (foldl sha256_update tr2 msgs) fin" "collect_certs msgs [] = Some chain"
    using server_flight_sound [OF fl s3(2) inc] by blast
  obtain ck sk reply qs t where x: "app_keys sec (sha256_finalize tr3) = Some (ck, sk)" "avail s4 = wire reply @ t"
    "\<forall>r \<in> set reply. is_record r" "open_all sk 0 reply = Some qs" "CT_ALERT \<notin> fst ` set qs"
    "resp = take (rq_cap rq) (data_of CT_APPLICATION_DATA qs)" "resp \<noteq> []"
    using tls_exchange_sound [OF ex f(2)] by blast
  have t: "sha256_finalize tr2 = sha256 (ch @ sh)" "sha256_finalize (foldl sha256_update tr2 msgs) = sha256 (ch @ sh @ concat msgs)"
    "sha256_finalize tr3 = sha256 (ch @ sh @ concat msgs @ fin)"
    using sha256.streaming [of "[ch, sh]"] sha256.streaming [of "[ch, sh] @ msgs"] sha256.streaming [of "[ch, sh] @ msgs @ [fin]"]
    by (simp_all add: tr_def hs(6) f(12))
  define rs where "rs = ccs @ [(CT_HANDSHAKE, hdr, sh)] @ flight @ reply"
  have "content c = wire rs @ t" using s0(3) s3(3) hs(1) f(1) x(2) by (simp add: rs_def)
  then have w: "prefix (wire rs) (content c)" "\<forall>r \<in> set rs. is_record r" using hs(3) f(3) x(3) by (auto simp: rs_def)
  note c2 = sec [unfolded t] f(11) [unfolded t] x(1) [unfolded t] f(6) [unfolded append_Nil] f(7) [unfolded append_Nil]
  show ?thesis unfolding accepted_def Let_def ch_def [symmetric]
    by (rule exI [of _ ccs], rule exI [of _ hdr], rule exI [of _ sh], rule exI [of _ flight], rule exI [of _ reply], rule exI [of _ pub],
        rule exI [of _ sec], rule exI [of _ ps], rule exI [of _ p], rule exI [of _ msgs], rule exI [of _ fin], rule exI [of _ rest],
        rule exI [of _ chain], rule exI [of _ ck], rule exI [of _ sk], rule exI [of _ qs], unfold rs_def [symmetric],
        intro conjI w hs(4,5) f(4,5,8-10,13) c2 v x(4-7))
qed

end

end
