(* ===== verification/Net_Dns.thy ===== *)
theory Net_Dns
  imports Net_Frames
begin

text \<open>
  DNS messages: what \<open>build_dns_query\<close> writes, and that \<open>parse_dns_a\<close> finds the first address record
  of every well-formed response, whatever names, compression pointers and other records it holds.
\<close>

unbundle bit_operations_syntax

section \<open>Names on the wire\<close>

definition label_ok :: "bytes \<Rightarrow> bool" where
  "label_ok l \<longleftrightarrow> l \<noteq> [] \<and> length l \<le> 63"

definition wire_labels :: "bytes list \<Rightarrow> bytes" where
  "wire_labels ls = concat (map (\<lambda>l. of_nat (length l) # l) ls)"

definition wire_end :: "bytes \<Rightarrow> bool" where
  "wire_end t \<longleftrightarrow> t = [0] \<or> (\<exists>c d. t = [c, d] \<and> c AND 0xC0 = 0xC0)"

definition wire_name :: "bytes \<Rightarrow> bool" where
  "wire_name n \<longleftrightarrow> (\<exists>ls t. n = wire_labels ls @ t \<and> (\<forall>l \<in> set ls. label_ok l) \<and> wire_end t)"

lemma label_byte:
  assumes "label_ok l"
  shows "(of_nat (length l) :: byte) \<noteq> 0" "(of_nat (length l) :: byte) AND 0xC0 \<noteq> 0xC0"
    "unat (of_nat (length l) :: byte) = length l"
proof -
  have l: "0 < length l" "length l \<le> 63" using assms by (auto simp: label_ok_def)
  then show u: "unat (of_nat (length l) :: byte) = length l" by simp
  then show "(of_nat (length l) :: byte) \<noteq> 0" using l by (metis unat_0 less_irrefl)
  have "(of_nat (length l) :: byte) AND 0xC0 \<le> of_nat (length l)" by (rule word_and_le2)
  moreover have "(of_nat (length l) :: byte) < 0xC0" using l u by (simp add: word_less_nat_alt)
  ultimately show "(of_nat (length l) :: byte) AND 0xC0 \<noteq> 0xC0" by auto
qed

lemma dns_skip_name_labels:
  assumes "\<forall>l \<in> set ls. label_ok l" "drop p msg = wire_labels ls @ rest" "rest \<noteq> []"
  shows "dns_skip_name msg p = dns_skip_name msg (p + length (wire_labels ls))"
  using assms
proof (induction ls arbitrary: p)
  case (Cons l ls)
  note b = label_byte [of l]
  have d: "drop p msg = of_nat (length l) # l @ wire_labels ls @ rest"
    using Cons.prems(2) by (simp add: wire_labels_def)
  then have p: "p < length msg" "msg ! p = of_nat (length l)"
    using nth_via_drop [OF d] by (auto simp: not_less [symmetric]) (metis drop_all list.distinct(1) not_less)
  have "drop (p + (1 + length l)) msg = drop (1 + length l) (drop p msg)" by (simp add: add.commute)
  also have "\<dots> = wire_labels ls @ rest" unfolding d by simp
  finally have n: "drop (p + (1 + length l)) msg = wire_labels ls @ rest" .
  have "dns_skip_name msg p = dns_skip_name msg (p + (1 + length l))"
    using p b Cons.prems(1) by (subst dns_skip_name.simps) (simp add: Let_def)
  also have "\<dots> = dns_skip_name msg (p + (1 + length l) + length (wire_labels ls))"
    using Cons.IH [OF _ n] Cons.prems by simp
  also have "p + (1 + length l) + length (wire_labels ls) = p + length (wire_labels (l # ls))"
    by (simp add: wire_labels_def)
  finally show ?case .
qed (simp add: wire_labels_def)

lemma dns_skip_wire_name:
  assumes "wire_name n" "drop p msg = n @ rest"
  shows "dns_skip_name msg p = Some (p + length n)"
proof -
  obtain ls t where n: "n = wire_labels ls @ t" "\<forall>l \<in> set ls. label_ok l" "wire_end t"
    using assms(1) by (auto simp: wire_name_def)
  have t: "t \<noteq> []" using n(3) by (auto simp: wire_end_def)
  define k where "k = p + length (wire_labels ls)"
  have "dns_skip_name msg p = dns_skip_name msg k"
    unfolding k_def using dns_skip_name_labels [OF n(2), of p msg "t @ rest"] assms(2) n(1) t by simp
  moreover have d: "drop k msg = t @ rest"
  proof -
    have "drop k msg = drop (length (wire_labels ls)) (drop p msg)" by (simp add: k_def add.commute)
    then show ?thesis unfolding assms(2) n(1) by simp
  qed
  moreover have "dns_skip_name msg k = Some (k + length t)"
  proof -
    have l: "k < length msg" using d t by (cases "k < length msg") auto
    have h: "msg ! k = hd t" using d t nth_via_drop [of k msg "hd t" "tl t @ rest"] by (cases t) auto
    show ?thesis using n(3) l h by (subst dns_skip_name.simps) (auto simp: wire_end_def Let_def)
  qed
  ultimately show ?thesis by (simp add: k_def n(1))
qed

section \<open>Responses\<close>

text \<open>A resource record: name, type, the six bytes of class and lifetime, data.\<close>

record dns_rr =
  rr_name :: bytes
  rr_type :: nat
  rr_mid :: bytes
  rr_data :: bytes

definition rr_ok :: "dns_rr \<Rightarrow> bool" where
  "rr_ok r \<longleftrightarrow> wire_name (rr_name r) \<and> rr_type r < 65536 \<and> length (rr_mid r) = 6 \<and> length (rr_data r) < 65536"

definition rr_bytes :: "dns_rr \<Rightarrow> bytes" where
  "rr_bytes r = rr_name r @ [hi (rr_type r), lo (rr_type r)] @ rr_mid r
     @ [hi (length (rr_data r)), lo (length (rr_data r))] @ rr_data r"

definition is_address :: "dns_rr \<Rightarrow> bool" where
  "is_address r \<longleftrightarrow> rr_type r = 1 \<and> length (rr_data r) = 4"

definition dns_response :: "nat \<Rightarrow> byte \<Rightarrow> byte \<Rightarrow> bytes \<Rightarrow> bytes list \<Rightarrow> dns_rr list \<Rightarrow> bytes \<Rightarrow> bytes" where
  "dns_response txid f1 f2 counts qs rrs rest =
     [hi txid, lo txid, f1, f2, hi (length qs), lo (length qs), hi (length rrs), lo (length rrs)] @ counts
       @ concat qs @ concat (map rr_bytes rrs) @ rest"

text \<open>A question is a name and four bytes of type and class.\<close>

definition question_ok :: "bytes \<Rightarrow> bool" where
  "question_ok q \<longleftrightarrow> (\<exists>n tc. q = n @ tc \<and> wire_name n \<and> length tc = 4)"

lemma drop_plus: "drop p msg = xs @ ys \<Longrightarrow> drop (p + length xs) msg = ys"
  by (metis add.commute append_eq_conv_conj drop_drop)

lemma dns_skip_questions_ok:
  "\<forall>q \<in> set qs. question_ok q \<Longrightarrow> drop p msg = concat qs @ rest \<Longrightarrow>
   dns_skip_questions msg (length qs) p = Some (p + length (concat qs))"
proof (induction qs arbitrary: p)
  case (Cons q qs)
  obtain n tc where q: "q = n @ tc" "wire_name n" "length tc = 4" using Cons.prems(1) by (auto simp: question_ok_def)
  have "dns_skip_name msg p = Some (p + length n)"
    using dns_skip_wire_name [OF q(2), of p msg "tc @ concat qs @ rest"] Cons.prems(2) q(1) by simp
  moreover have "drop (p + length q) msg = concat qs @ rest" using drop_plus [of p msg q] Cons.prems(2) by simp
  then have "dns_skip_questions msg (length qs) (p + length q) = Some (p + length q + length (concat qs))"
    using Cons.IH Cons.prems(1) by simp
  ultimately show ?case using q by (simp add: add.assoc)
qed simp

lemma nth_of_drop: "drop p msg = xs @ ys \<Longrightarrow> i < length xs \<Longrightarrow> msg ! (p + i) = xs ! i"
proof -
  assume d: "drop p msg = xs @ ys" and i: "i < length xs"
  then have "p \<le> length msg" by (cases "p \<le> length msg") auto
  then have "msg ! (p + i) = drop p msg ! i" by simp
  then show ?thesis using d i by (simp add: nth_append)
qed

lemma length_of_drop: "drop p msg = xs @ ys \<Longrightarrow> xs \<noteq> [] \<Longrightarrow> p + length xs \<le> length msg"
proof -
  assume d: "drop p msg = xs @ ys" and x: "xs \<noteq> []"
  have "length msg - p = length xs + length ys" using arg_cong [OF d, of length] by simp
  then show ?thesis using x by (cases xs) auto
qed

lemma be16_drop: "drop p msg = [hi v, lo v] @ ys \<Longrightarrow> v < 65536 \<Longrightarrow> be16_at msg p = v"
proof -
  assume d: "drop p msg = [hi v, lo v] @ ys" and v: "v < 65536"
  have "msg ! p = hi v" "msg ! (p + 1) = lo v" using nth_of_drop [OF d, of 0] nth_of_drop [OF d, of 1] by simp_all
  then show ?thesis using word_of_bytes [OF v] by (simp add: be16_at_def)
qed

lemma rr_read:
  assumes "rr_ok r" "drop p msg = rr_bytes r @ rest"
  defines "q \<equiv> p + length (rr_name r)"
  shows "dns_skip_name msg p = Some q" "q + 10 \<le> length msg" "be16_at msg q = rr_type r"
    "be16_at msg (q + 8) = length (rr_data r)" "drop (q + 10) msg = rr_data r @ rest"
    "q + 10 + length (rr_data r) = p + length (rr_bytes r)"
proof -
  note r = assms(1) [unfolded rr_ok_def]
  define tail where "tail = rr_mid r @ [hi (length (rr_data r)), lo (length (rr_data r))] @ rr_data r @ rest"
  have d: "drop p msg = rr_name r @ [hi (rr_type r), lo (rr_type r)] @ tail"
    using assms(2) by (simp add: rr_bytes_def tail_def)
  show "dns_skip_name msg p = Some q" unfolding q_def using r by (intro dns_skip_wire_name [OF _ d]) simp
  have q: "drop q msg = [hi (rr_type r), lo (rr_type r)] @ tail" unfolding q_def by (rule drop_plus [OF d])
  show "be16_at msg q = rr_type r" using be16_drop [OF q] r by simp
  have "drop q msg = ([hi (rr_type r), lo (rr_type r)] @ rr_mid r) @ [hi (length (rr_data r)), lo (length (rr_data r))] @ rr_data r @ rest"
    unfolding q tail_def by simp
  from drop_plus [OF this] have q8: "drop (q + 8) msg = [hi (length (rr_data r)), lo (length (rr_data r))] @ rr_data r @ rest"
    using r by simp
  show "be16_at msg (q + 8) = length (rr_data r)" using be16_drop [OF q8] r by simp
  show "drop (q + 10) msg = rr_data r @ rest" using drop_plus [OF q8] by (simp add: add.commute)
  show "q + 10 \<le> length msg" using length_of_drop [OF q8] by simp
  show "q + 10 + length (rr_data r) = p + length (rr_bytes r)" using r by (simp add: q_def rr_bytes_def)
qed

lemma dns_answers_first:
  "\<forall>r \<in> set rrs. rr_ok r \<Longrightarrow> drop p msg = concat (map rr_bytes rrs) @ rest \<Longrightarrow>
   dns_answers msg (length rrs) p = map_option rr_data (List.find is_address rrs)"
proof (induction rrs arbitrary: p)
  case (Cons r rrs)
  have d: "drop p msg = rr_bytes r @ (concat (map rr_bytes rrs) @ rest)" using Cons.prems(2) by simp
  define q where "q = p + length (rr_name r)"
  note rd = rr_read [OF _ d, folded q_def]
  have ok: "rr_ok r" using Cons.prems(1) by simp
  have next_rr: "drop (q + 10 + length (rr_data r)) msg = concat (map rr_bytes rrs) @ rest"
    using drop_plus [OF rd(5) [OF ok]] .
  then have ih: "dns_answers msg (length rrs) (q + 10 + length (rr_data r)) = map_option rr_data (List.find is_address rrs)"
    using Cons.IH Cons.prems(1) by simp
  show ?case
  proof (cases "is_address r")
    case True
    have "rr_data r \<noteq> []" using True by (auto simp: is_address_def)
    then have "q + 10 + 4 \<le> length msg" using length_of_drop [OF rd(5) [OF ok]] True by (simp add: is_address_def)
    moreover have "slice msg (q + 10) (q + 10 + 4) = rr_data r"
      using rd(5) [OF ok] True by (simp add: slice_def is_address_def)
    ultimately show ?thesis using rd(1-4) [OF ok] True by (simp add: Let_def is_address_def)
  next
    case False
    then have "\<not> (rr_type r = 1 \<and> length (rr_data r) = 4 \<and> q + 10 + 4 \<le> length msg)"
      by (auto simp: is_address_def)
    then have "dns_answers msg (length (r # rrs)) p = dns_answers msg (length rrs) (q + 10 + length (rr_data r))"
      using rd(1-4) [OF ok] by (auto simp: Let_def)
    then show ?thesis using ih False by simp
  qed
qed simp

lemma dns_response_parsed:
  assumes "txid < 65536" "f1 AND 0x80 \<noteq> 0" "length counts = 4" "length qs < 65536" "length rrs < 65536"
    "\<forall>q \<in> set qs. question_ok q" "\<forall>r \<in> set rrs. rr_ok r"
  shows "parse_dns_a (dns_response txid f1 f2 counts qs rrs rest) txid = map_option rr_data (List.find is_address rrs)"
proof -
  let ?m = "dns_response txid f1 f2 counts qs rrs rest"
  have l: "12 \<le> length ?m" using assms(3) by (simp add: dns_response_def)
  have hd: "?m ! 0 = hi txid" "?m ! 1 = lo txid" "?m ! 2 = f1" by (simp_all add: dns_response_def)
  have "drop 4 ?m = [hi (length qs), lo (length qs)] @ drop 6 ?m" "drop 6 ?m = [hi (length rrs), lo (length rrs)] @ drop 8 ?m"
    by (simp_all add: dns_response_def)
  then have c: "be16_at ?m 4 = length qs" "be16_at ?m 6 = length rrs" using be16_drop assms(4,5) by blast+
  have d12: "drop 12 ?m = concat qs @ (concat (map rr_bytes rrs) @ rest)" using assms(3) by (simp add: dns_response_def)
  note sq = dns_skip_questions_ok [OF assms(6) d12]
  note an = dns_answers_first [OF assms(7) drop_plus [OF d12]]
  show ?thesis
  proof (cases "rrs = []")
    case True
    then show ?thesis using c l hd by (simp add: parse_dns_a_def Let_def)
  next
    case False
    have "\<not> length ?m < 12" "length rrs \<noteq> 0" using l False by simp_all
    then show ?thesis using assms(2) hd c sq an unfolding parse_dns_a_def Let_def by simp
  qed
qed

section \<open>Queries\<close>

lemma split_on_nonempty: "split_on c xs \<noteq> []"
  by (induction xs) (auto split: list.splits)

text \<open>The label loop, while the labels fit.\<close>

lemma put_labels_fit:
  assumes "\<forall>l \<in> set ls. label_ok l" "p + length (wire_labels ls) < length buf"
  shows "put_labels buf p ls = (blit buf p (wire_labels ls), p + length (wire_labels ls))"
  using assms
proof (induction ls arbitrary: buf p)
  case (Cons l ls)
  have l: "label_ok l" and w: "wire_labels (l # ls) = of_nat (length l) # l @ wire_labels ls"
    using Cons.prems(1) by (simp_all add: wire_labels_def)
  have fit: "\<not> (l = [] \<or> 63 < length l \<or> length buf \<le> p + 1 + length l)"
    using l Cons.prems(2) unfolding w by (auto simp: label_ok_def)
  define b where "b = blit (buf[p := of_nat (length l)]) (p + 1) l"
  have lb: "length b = length buf" using Cons.prems(2) unfolding b_def w by simp
  have "put_labels buf p (l # ls) = put_labels b (p + 1 + length l) ls" using fit by (simp add: b_def)
  also have "\<dots> = (blit b (p + 1 + length l) (wire_labels ls), p + 1 + length l + length (wire_labels ls))"
    using Cons.IH [of "p + 1 + length l" b] Cons.prems unfolding w lb by simp
  also have "blit b (p + 1 + length l) (wire_labels ls) = blit buf p (wire_labels (l # ls))"
    unfolding w b_def using Cons.prems(2) [unfolded w]
    by (intro nth_equalityI) (auto simp: nth_blit nth_list_update nth_Cons' nth_append)
  finally show ?case unfolding w by simp
qed (simp add: wire_labels_def blit_def)

text \<open>The length of a name on the wire is one more than its text.\<close>

lemma wire_labels_split: "length (wire_labels (split_on c xs)) = length xs + 1"
proof (induction xs)
  case (Cons x xs)
  obtain p ps where "split_on c xs = p # ps" using split_on_nonempty [of c xs] by (cases "split_on c xs") auto
  then show ?case using Cons by (auto simp: wire_labels_def)
qed (simp add: wire_labels_def)

lemma dns_query_built:
  assumes "\<forall>l \<in> set (split_on 46 domain). label_ok l" "txid < 65536" "12 + length domain + 1 < length buf"
  defines "ls \<equiv> split_on 46 domain"
  shows "build_dns_query buf domain txid =
    (if length buf < length domain + 18 then None
     else Some (([hi txid, lo txid, 1, 0, 0, 1, 0, 0, 0, 0, 0, 0] @ wire_labels ls @ [0, 0, 1, 0, 1]) @ drop (length domain + 18) buf,
                length domain + 18))"
proof -
  have n: "length (wire_labels ls) = length domain + 1" unfolding ls_def by (rule wire_labels_split)
  define b where "b = blit (put16 buf 0 txid) 2 [1, 0, 0, 1, 0, 0, 0, 0, 0, 0]"
  have lp: "length (put16 buf 0 txid) = length buf" by (simp add: put16_def)
  have lb: "length b = length buf" using assms(3) lp unfolding b_def by simp
  obtain c0 c1 rest where c: "buf = c0 # c1 # rest" using assms(3) by (cases buf; cases "tl buf") auto
  define h :: bytes where "h = [hi txid, lo txid, 1, 0, 0, 1, 0, 0, 0, 0, 0, 0]"
  have h: "length h = 12" by (simp add: h_def)
  have b: "b = h @ drop 12 buf"
    unfolding b_def c put16_def blit_def h_def by simp
  have pl: "put_labels b 12 ls = (blit b 12 (wire_labels ls), 12 + (length domain + 1))"
    using put_labels_fit [of ls 12 b] assms(1,3) n lb by (simp add: ls_def)
  have bl: "blit b 12 (wire_labels ls) = h @ wire_labels ls @ drop (length domain + 13) buf"
    unfolding b blit_def n using h by (simp add: add.commute)
  have nl: "\<not> length buf < 12" using assms(3) by simp
  have "blit (blit b 12 (wire_labels ls)) (length domain + 13) [0, 0, 1, 0, 1] =
      (h @ wire_labels ls @ [0, 0, 1, 0, 1]) @ drop (length domain + 18) buf"
    unfolding bl using n h by (simp add: blit_def add.commute)
  moreover have "length (blit b 12 (wire_labels ls)) = length buf" using n lb assms(3) by simp
  ultimately show ?thesis
    unfolding build_dns_query_def if_not_P [OF nl] Let_def b_def [symmetric] ls_def [symmetric] h_def [symmetric] pl prod.case
    by (simp add: ac_simps)
qed

end
