(* ===== verification/Net_Props.thy ===== *)
theory Net_Props
  imports Net_Dns Net_Http Net_Stream
begin

text \<open>
  What the packet code guarantees: segments round-trip with valid checksums, the resolver reads
  well-formed responses and builds queries up to a length it then crashes at, and the limits of the
  HTTP client.
\<close>

text \<open>
  A TCP segment built by \<open>build_tcp\<close> is one a receiver takes: it fits, both checksums over it
  verify, and \<open>parse_tcp\<close>, at the port it was sent to, reads back the sequence and acknowledgement
  numbers, the flags and exactly the payload.
\<close>

theorem tcp_segment_roundtrip:
  assumes "length dm = 6" "length sm = 6" "length src = 4" "length dst = 4"
    "54 + length payload \<le> length f" "length payload < 40000"
  shows "\<exists>g. build_tcp f dm sm src dst OUR_PORT sq ack flags payload = Some (g, 54 + length payload) \<and>
    (let rx = take (54 + length payload) g
     in parse_tcp rx = Some (sq, ack, flags, 54, length payload) \<and> drop 54 rx = payload \<and>
        inet_checksum (slice rx 14 34) = 0 \<and> tcp_checksum src dst (drop 34 rx) = 0)"
proof -
  obtain g where g: "build_tcp f dm sm src dst OUR_PORT sq ack flags payload = Some (g, 54 + length payload)"
    "take (54 + length payload) g = tcp_frame dm sm src dst OUR_PORT OUR_PORT sq ack flags payload"
    using build_tcp_frame [OF assms(1-5), of OUR_PORT sq ack flags] assms(6) by auto
  have "drop 54 (tcp_frame dm sm src dst OUR_PORT OUR_PORT sq ack flags payload) = payload"
    using assms(1-4) by (simp add: tcp_frame_def)
  then show ?thesis
    using g parse_tcp_frame(1) [OF assms(1-4), of payload] tcp_frame_checksums [OF assms(1-4,6)] assms(6)
    by (auto simp: Let_def)
qed

lemma tcp_segment_roundtrip_witness:
  "\<exists>g. build_tcp (replicate 57 0) BCAST BCAST OUR_IP GW_IP OUR_PORT 7 9 TCP_ACK [1, 2, 3] = Some (g, 57) \<and>
     parse_tcp (take 57 g) = Some (7, 9, TCP_ACK, 54, 3)"
  using tcp_segment_roundtrip [of BCAST BCAST OUR_IP GW_IP "[1, 2, 3]" "replicate 57 0" 7 9 TCP_ACK]
  by (auto simp: BCAST_def OUR_IP_def GW_IP_def Let_def)

text \<open>
  C25: The resolver answers with the first address record of the response: for every well-formed
  response with the query's identifier, whatever names and compression pointers, questions and
  records of other types it carries, \<open>parse_dns_a\<close> returns the data of the first four-byte record
  of type A, and None when there is none.
\<close>

theorem dns_first_address:
  assumes "txid < 65536" "f1 AND 0x80 \<noteq> 0" "length counts = 4" "length qs < 65536" "length rrs < 65536"
    "\<forall>q \<in> set qs. question_ok q" "\<forall>r \<in> set rrs. rr_ok r"
  shows "parse_dns_a (dns_response txid f1 f2 counts qs rrs rest) txid = map_option rr_data (List.find is_address rrs)"
  by (rule dns_response_parsed [OF assms])

definition sample_alias :: dns_rr where
  "sample_alias = \<lparr>rr_name = [192, 12], rr_type = 5, rr_mid = [0, 1, 0, 0, 0, 60], rr_data = [1, 98, 0]\<rparr>"

definition sample_address :: dns_rr where
  "sample_address = \<lparr>rr_name = [1, 98, 0], rr_type = 1, rr_mid = [0, 1, 0, 0, 0, 60], rr_data = [93, 184, 216, 34]\<rparr>"

lemma sample_names: "wire_name [192, 12]" "wire_name [1, 98, 0]"
proof -
  have "wire_end [192, 12]" "wire_end [0]" by (simp_all add: wire_end_def)
  moreover have "[192, 12] = wire_labels [] @ [192, 12]" "[1, 98, 0] = wire_labels [[98]] @ [0]"
    by (simp_all add: wire_labels_def)
  moreover have "\<forall>l \<in> set []. label_ok l" "\<forall>l \<in> set [[98]]. label_ok l" by (simp_all add: label_ok_def)
  ultimately show "wire_name [192, 12]" "wire_name [1, 98, 0]" unfolding wire_name_def by blast+
qed

lemma dns_first_address_witness:
  "parse_dns_a (dns_response 0x1A2B 0x81 0x80 [0, 0, 0, 0] [[1, 98, 0, 0, 1, 0, 1]] [sample_alias, sample_address] []) 0x1A2B
     = Some [93, 184, 216, 34]"
proof -
  have q: "\<forall>q \<in> set [[1, 98, 0, 0, 1, 0, 1]]. question_ok q"
    using sample_names(2) unfolding question_ok_def
    by (intro ballI exI [of _ "[1, 98, 0]"] exI [of _ "[0, 1, 0, 1]"]) simp
  have r: "\<forall>r \<in> set [sample_alias, sample_address]. rr_ok r"
    using sample_names by (simp add: rr_ok_def sample_alias_def sample_address_def)
  have f: "List.find is_address [sample_alias, sample_address] = Some sample_address"
    by (simp add: is_address_def sample_alias_def sample_address_def)
  have d: "rr_data sample_address = [93, 184, 216, 34]" by (simp add: sample_address_def)
  show ?thesis by (subst dns_first_address) (use q r f d in \<open>simp_all del: find.simps\<close>)
qed

text \<open>
  C32: A name of up to 238 characters becomes the query RFC 1035 asks for, one label after the other;
  a legal name of 239 to 242 characters makes \<open>build_dns_query\<close> write past its 256-byte buffer, so
  that looking it up panics the kernel.
\<close>

theorem dns_query_limits:
  assumes "\<forall>l \<in> set (split_on 46 domain). label_ok l" "nic_mac st = Some mac" "length domain \<le> 242"
  shows "(length domain \<le> 238 \<longrightarrow>
      build_dns_query (replicate 256 0) domain 0x1A2B =
        Some (([0x1A, 0x2B, 1, 0, 0, 1, 0, 0, 0, 0, 0, 0] @ wire_labels (split_on 46 domain) @ [0, 0, 1, 0, 1])
          @ replicate (238 - length domain) 0, length domain + 18)) \<and>
    (238 < length domain \<longrightarrow> dns_resolve dns domain st = None)"
proof -
  have h: "hi (0x1A2B :: nat) = 0x1A" "lo (0x1A2B :: nat) = 0x2B" by simp_all
  have "build_dns_query (replicate 256 0) domain 0x1A2B =
    (if 238 < length domain then None
     else Some (([0x1A, 0x2B, 1, 0, 0, 1, 0, 0, 0, 0, 0, 0] @ wire_labels (split_on 46 domain) @ [0, 0, 1, 0, 1])
        @ replicate (238 - length domain) 0, length domain + 18))"
    using dns_query_built [OF assms(1), where buf = "replicate 256 0" and txid = "0x1A2B"] assms(3) unfolding h by auto
  then show ?thesis using assms(2) by (simp add: dns_resolve_def)
qed

lemma split_on_join: "c \<notin> set l \<Longrightarrow> split_on c l = [l]"
  by (induction l) auto

lemma split_on_dot: "c \<notin> set l \<Longrightarrow> split_on c (l @ c # xs) = l # split_on c xs"
  by (induction l) auto

lemma dns_query_limits_witness:
  "dns_resolve BCAST (replicate 60 97 @ [46] @ replicate 60 97 @ [46] @ replicate 60 97 @ [46] @ replicate 57 97)
     \<lparr>nic_mac = Some BCAST, polls = [], sent = [], net_up = True, gw_mac = None, dns_mac = None, trust = 0\<rparr> = None"
proof -
  let ?d = "replicate 60 97 @ [46] @ replicate 60 97 @ [46] @ replicate 60 97 @ [46] @ replicate 57 (97 :: byte)"
  let ?st = "\<lparr>nic_mac = Some BCAST, polls = [], sent = [], net_up = True, gw_mac = None, dns_mac = None, trust = 0\<rparr>"
  have "split_on 46 ?d = [replicate 60 97, replicate 60 97, replicate 60 97, replicate 57 97]"
    by (simp add: split_on_dot split_on_join)
  then have "\<forall>l \<in> set (split_on 46 ?d). label_ok l" by (simp add: label_ok_def)
  then show ?thesis using dns_query_limits [where domain = ?d and st = ?st and dns = BCAST] by simp
qed

section \<open>The byte stream\<close>

text \<open>
  Every data segment on the wire is a piece of the peer's stream \<open>S\<close>, numbered from \<open>base\<close>; they may
  be lost, repeated and out of order, among frames of other kinds.
\<close>

definition from_stream :: "u32 \<Rightarrow> bytes \<Rightarrow> bytes option list \<Rightarrow> bool" where
  "from_stream base S ps \<longleftrightarrow>
     (\<forall>rx sq ackn fl po pl. Some rx \<in> set ps \<and> parse_tcp (take 1600 rx) = Some (sq, ackn, fl, po, pl) \<and> 0 < pl \<longrightarrow>
        (\<exists>i. sq = base + of_nat i \<and> i + pl \<le> length S \<and> slice (take 1600 rx) po (po + pl) = slice S i (i + pl)))"

lemma seq_inj:
  assumes "base + of_nat i = base + (of_nat j :: u32)" "i < 2 ^ 32" "j < 2 ^ 32"
  shows "i = j"
proof -
  have "(of_nat i :: u32) = of_nat j" using assms(1) by simp
  then have "unat (of_nat i :: u32) = unat (of_nat j :: u32)" by simp
  then show ?thesis using assms(2,3) by (simp add: unat_of_nat)
qed

lemma pending_prefix:
  assumes "from_stream base S ps" "j \<le> length S" "length S < 2 ^ 32"
  shows "prefix (pending (base + of_nat j) ps) (drop j S)"
  using assms
proof (induction ps arbitrary: j)
  case (Cons x ps)
  have fs: "from_stream base S ps" using Cons.prems(1) by (auto simp: from_stream_def)
  show ?case
  proof (cases "Option.bind x (\<lambda>rx. recv_event (base + of_nat j) (take 1600 rx))")
    case None
    then show ?thesis using Cons.IH [OF fs Cons.prems(2,3)] by simp
  next
    case (Some ev)
    show ?thesis
    proof (cases ev)
      case (Segment fl d)
      obtain rx where x: "x = Some rx" "recv_event (base + of_nat j) (take 1600 rx) = Some (Segment fl d)"
        using Some Segment by (cases x) auto
      obtain sq ackn f po pl where p: "parse_tcp (take 1600 rx) = Some (sq, ackn, f, po, pl)"
        using x(2) by (cases "parse_tcp (take 1600 rx)") (auto simp: recv_event_def)
      have d: "d = slice (take 1600 rx) po (po + pl)" "0 < pl" "sq = base + of_nat j"
        using x(2) p by (auto simp: recv_event_def split: if_splits)
      obtain i where i: "sq = base + of_nat i" "i + pl \<le> length S" "d = slice S i (i + pl)"
        using Cons.prems(1) x(1) p d(1,2) unfolding from_stream_def by (metis list.set_intros(1))
      have "i = j" using seq_inj [of base i j] i(1,2) d(3) Cons.prems(2,3) by simp
      then have dd: "d = slice S j (j + pl)" "j + pl \<le> length S" "length d = pl" using i by simp_all
      have "d = take pl (drop j S)" using dd(1) by (simp add: slice_def)
      then have s: "drop j S = d @ drop (j + pl) S" using append_take_drop_id [of pl "drop j S"] by (simp add: add.commute)
      have "prefix (pending (base + of_nat (j + pl)) ps) (drop (j + pl) S)" by (rule Cons.IH [OF fs dd(2) Cons.prems(3)])
      then show ?thesis using x Segment Some dd(3) s by (simp add: add.assoc)
    qed (use Some in simp_all)
  qed
qed simp

text \<open>
  C11: Receiving never panics and never delivers anything but the peer's stream: whatever the network
  does to the segments of a stream of less than 4 GiB, and whatever other frames and resets it
  delivers, any number of calls of \<open>recv\<close> yields, concatenated, a prefix of what the peer sent from
  the position the connection is at.
\<close>

theorem tcp_delivers_prefix:
  assumes "nic_mac st \<noteq> None" "length (polls st) \<le> 20000000" "\<not> pending_fin c"
    "from_stream base S (polls st)" "length S < 2 ^ 32" "j \<le> length S" "c_rcv c = base + of_nat j"
  shows "\<exists>ds s'. recv_run tcp_pipe k (c, st) = Some (ds, s') \<and> prefix ds (drop j S)"
proof -
  have "tcp_ok (c, st)" using assms(1,2) by (simp add: tcp_ok_def)
  then obtain ds s' where r: "recv_run tcp_pipe k (c, st) = Some (ds, s')" "prefix ds (tcp_content (c, st))"
    using tcp.recv_run_content [of "(c, st)" k] by blast
  have "prefix (tcp_content (c, st)) (drop j S)"
    using pending_prefix [OF assms(4,6,5)] assms(3,7) by (simp add: tcp_content_def)
  then show ?thesis using r prefix_order.trans by blast
qed

text \<open>The frames that are TCP segments for our port.\<close>

fun heard :: "bytes option list \<Rightarrow> bytes list" where
  "heard [] = []"
| "heard (None # ps) = heard ps"
| "heard (Some rx # ps) = (if parse_tcp (take 1600 rx) = None then heard ps else rx # heard ps)"

lemma pending_heard: "pending rcv ps = pending rcv (map Some (heard ps))"
  by (induction ps arbitrary: rcv rule: heard.induct)
    (auto simp: recv_event_def split: option.splits event.splits)

lemma emit_tcp_frame:
  assumes "length gw = 6" "length mac = 6" "length dst = 4" "length payload \<le> 1460"
  shows "emit_tcp 1600 gw mac dst dport sq ack flags payload st =
    Some (st\<lparr>sent := sent st @ [tcp_frame gw mac OUR_IP dst OUR_PORT dport sq ack flags payload]\<rparr>)"
proof -
  have "length OUR_IP = 4" by (simp add: OUR_IP_def)
  then show ?thesis
    using build_tcp_frame [of gw mac OUR_IP dst payload "replicate 1600 0" dport sq ack flags] assms
    by (auto simp: emit_tcp_def nic_send_def)
qed

lemma recv_own_segment:
  assumes "length gw = 6" "length mac = 6" "length dst = 4" "length d \<le> 1460" "d \<noteq> []"
  shows "recv_event sq (take 1600 (tcp_frame gw mac OUR_IP dst OUR_PORT OUR_PORT sq ack (TCP_PSH OR TCP_ACK) d)) =
    Some (Segment (TCP_PSH OR TCP_ACK) d)"
proof -
  have ip: "length OUR_IP = 4" by (simp add: OUR_IP_def)
  define fr where "fr = tcp_frame gw mac OUR_IP dst OUR_PORT OUR_PORT sq ack (TCP_PSH OR TCP_ACK) d"
  have "length fr \<le> 1600" using assms ip by (simp add: fr_def)
  then have t: "take 1600 fr = fr" by simp
  have p: "parse_tcp fr = Some (sq, ack, TCP_PSH OR TCP_ACK, 54, length d)" "slice fr 54 (54 + length d) = d"
    unfolding fr_def using parse_tcp_frame [OF assms(1,2) ip assms(3), of d] assms(4) by simp_all
  have fl: "(TCP_PSH OR TCP_ACK) AND TCP_RST = 0" "(TCP_PSH OR TCP_ACK) AND TCP_FIN = 0"
    by (simp_all add: TCP_PSH_def TCP_ACK_def TCP_RST_def TCP_FIN_def)
  show ?thesis using p fl assms(5) unfolding fr_def [symmetric] t by (simp add: recv_event_def)
qed

lemma send_loop_frames:
  assumes "length (c_gw c) = 6" "length (c_mac c) = 6" "length (c_ip c) = 4" "c_port c = OUR_PORT"
  shows "\<exists>c' fs. send_loop dat c st = Some (c', st\<lparr>sent := sent st @ fs\<rparr>) \<and>
    heard (map Some fs) = fs \<and> pending (c_snd c) (map Some fs) = dat \<and> length fs \<le> length dat"
  using assms
proof (induction dat c st rule: send_loop.induct)
  case (1 dat c st)
  show ?case
  proof (cases "dat = []")
    case True
    then show ?thesis by (subst send_loop.simps) (auto intro: exI [of _ "[]"])
  next
    case False
    define d where "d = take TCP_MSS dat"
    have d: "length d \<le> 1460" "d \<noteq> []" "d @ drop TCP_MSS dat = dat" using False by (simp_all add: d_def TCP_MSS_def)
    define fr where "fr = tcp_frame (c_gw c) (c_mac c) OUR_IP (c_ip c) OUR_PORT OUR_PORT (c_snd c) (c_rcv c) (TCP_PSH OR TCP_ACK) d"
    define st1 where "st1 = st\<lparr>sent := sent st @ [fr]\<rparr>"
    define c1 where "c1 = c\<lparr>c_snd := c_snd c + of_nat (length d)\<rparr>"
    have e: "emit_tcp 1600 (c_gw c) (c_mac c) (c_ip c) (c_port c) (c_snd c) (c_rcv c) (TCP_PSH OR TCP_ACK) d st = Some st1"
      using emit_tcp_frame [OF "1.prems"(1-3) d(1)] "1.prems"(4) by (simp add: fr_def st1_def)
    note re = recv_own_segment [OF "1.prems"(1-3) d(1,2), of "c_snd c" "c_rcv c", folded fr_def]
    have ih: "\<exists>c' fs. send_loop (drop TCP_MSS dat) c1 st1 = Some (c', st1\<lparr>sent := sent st1 @ fs\<rparr>) \<and>
        heard (map Some fs) = fs \<and> pending (c_snd c1) (map Some fs) = drop TCP_MSS dat \<and> length fs \<le> length (drop TCP_MSS dat)"
      using "1.IH" [OF False e [unfolded d_def]] "1.prems" unfolding c1_def d_def by simp
    then obtain c' fs where ih: "send_loop (drop TCP_MSS dat) c1 st1 = Some (c', st1\<lparr>sent := sent st1 @ fs\<rparr>)"
      "heard (map Some fs) = fs" "pending (c_snd c1) (map Some fs) = drop TCP_MSS dat" "length fs \<le> length (drop TCP_MSS dat)" by blast
    have "0 < TCP_MSS" "0 < length dat" using False by (simp_all add: TCP_MSS_def)
    then have lf: "length (fr # fs) \<le> length dat" using ih(4) by (simp only: length_drop list.size)
    have "send_loop dat c st = Some (c', st\<lparr>sent := sent st @ (fr # fs)\<rparr>)"
      using False e ih(1) by (subst send_loop.simps) (simp add: d_def [symmetric] c1_def st1_def)
    moreover have "parse_tcp (take 1600 fr) \<noteq> None" using re by (cases "parse_tcp (take 1600 fr)") (auto simp: recv_event_def)
    then have "heard (map Some (fr # fs)) = fr # fs" using ih(2) by simp
    moreover have "(TCP_PSH OR TCP_ACK) AND TCP_FIN = 0" by (simp add: TCP_PSH_def TCP_ACK_def TCP_FIN_def)
    then have "pending (c_snd c) (map Some (fr # fs)) = dat" using re ih(3) d(3) by (simp add: c1_def)
    ultimately show ?thesis using lf by blast
  qed
qed

text \<open>
  C14: What one side sends the other receives: when the segments \<open>tcp_send\<close> puts on the wire reach the
  port of the other side in order, among any frames that are no segments for it, receiving yields
  exactly the bytes that were sent, for data of any length.
\<close>

theorem tcp_transfer:
  assumes "tcp_send dat a st = Some (True, a', st')"
    "length (c_gw a) = 6" "length (c_mac a) = 6" "length (c_ip a) = 4" "c_port a = OUR_PORT"
    "heard (polls stb) = drop (length (sent st)) (sent st')" "nic_mac stb \<noteq> None" "length (polls stb) \<le> 20000000"
    "c_rcv b = c_snd a" "\<not> pending_fin b"
  shows "\<exists>s'. recv_run tcp_pipe (length dat) (b, stb) = Some (dat, s')"
proof -
  obtain c' fs where f: "send_loop dat a st = Some (c', st\<lparr>sent := sent st @ fs\<rparr>)"
    "heard (map Some fs) = fs" "pending (c_snd a) (map Some fs) = dat"
    using send_loop_frames [OF assms(2-5)] by blast
  have "sent st' = sent st @ fs" using assms(1) f(1) by (auto simp: tcp_send_def split: if_splits)
  then have h: "heard (polls stb) = fs" using assms(6) by simp
  have "tcp_content (b, stb) = pending (c_snd a) (polls stb)" using assms(9,10) by (simp add: tcp_content_def)
  also have "\<dots> = dat" using pending_heard [of "c_snd a" "polls stb"] h f(3) by simp
  finally have "tcp_content (b, stb) = dat" .
  moreover have "tcp_ok (b, stb)" using assms(7,8) by (simp add: tcp_ok_def)
  ultimately show ?thesis using tcp.recv_run_content [of "(b, stb)" "length dat"] by auto
qed

definition sample_net :: "bytes option list \<Rightarrow> net" where
  "sample_net ps = \<lparr>nic_mac = Some BCAST, polls = ps, sent = [], net_up = True, gw_mac = Some BCAST, dns_mac = Some BCAST, trust = 0\<rparr>"

definition sample_conn :: tcp_conn where
  "sample_conn = \<lparr>c_gw = BCAST, c_mac = BCAST, c_ip = GW_IP, c_port = OUR_PORT, c_snd = 100, c_rcv = 100,
     pending_fin = False, c_closed = False\<rparr>"

lemma sample_sent:
  "\<exists>c' fs. send_loop [1, 2, 3] sample_conn (sample_net []) = Some (c', (sample_net [])\<lparr>sent := fs\<rparr>) \<and>
     heard (map Some fs) = fs \<and> length fs \<le> 1"
proof -
  have "length BCAST = 6" "length GW_IP = 4" by (simp_all add: BCAST_def GW_IP_def)
  then have l: "length (c_gw sample_conn) = 6" "length (c_mac sample_conn) = 6" "length (c_ip sample_conn) = 4" "c_port sample_conn = OUR_PORT"
    by (simp_all add: sample_conn_def)
  obtain c' fs where f: "send_loop [1, 2, 3] sample_conn (sample_net []) = Some (c', (sample_net [])\<lparr>sent := sent (sample_net []) @ fs\<rparr>)"
    "heard (map Some fs) = fs" using send_loop_frames [OF l] by blast
  moreover have "length fs \<le> 1"
    using f(1) emit_tcp_frame [OF l(1-3), of "[1, 2, 3]"]
    by (auto simp: send_loop.simps TCP_MSS_def sample_net_def)
  ultimately show ?thesis by (auto simp: sample_net_def)
qed

lemma tcp_transfer_witness:
  "\<exists>fs s'. recv_run tcp_pipe 3 (sample_conn, sample_net (None # map Some fs)) = Some ([1, 2, 3], s')"
proof -
  obtain c' fs where f: "send_loop [1, 2, 3] sample_conn (sample_net []) = Some (c', (sample_net [])\<lparr>sent := fs\<rparr>)"
    "heard (map Some fs) = fs" "length fs \<le> 1" using sample_sent by blast
  have s: "tcp_send [1, 2, 3] sample_conn (sample_net []) = Some (True, c', (sample_net [])\<lparr>sent := fs\<rparr>)"
    using f(1) by (simp add: tcp_send_def sample_net_def)
  have three: "length [1, 2, 3 :: byte] = 3" by simp
  have "\<exists>s'. recv_run tcp_pipe (length [1, 2, 3 :: byte]) (sample_conn, sample_net (None # map Some fs)) = Some ([1, 2, 3], s')"
    by (rule tcp_transfer [OF s]) (use f in \<open>simp_all add: sample_conn_def sample_net_def BCAST_def GW_IP_def\<close>)
  then show ?thesis unfolding three by blast
qed

lemma tcp_delivers_prefix_witness:
  "let fr = tcp_frame BCAST BCAST OUR_IP GW_IP OUR_PORT OUR_PORT 101 0 TCP_ACK [2, 3]
   in \<exists>ds s'. recv_run tcp_pipe 5 (sample_conn, sample_net [None, Some fr, Some [1, 2], Some fr]) = Some (ds, s') \<and> prefix ds [1, 2, 3]"
proof -
  define fr where "fr = tcp_frame BCAST BCAST OUR_IP GW_IP OUR_PORT OUR_PORT 101 0 TCP_ACK [2, 3]"
  have l: "length BCAST = 6" "length OUR_IP = 4" "length GW_IP = 4" by (simp_all add: BCAST_def OUR_IP_def GW_IP_def)
  have "length fr \<le> 1600" using l by (simp add: fr_def)
  then have t: "take 1600 fr = fr" by simp
  have p: "parse_tcp fr = Some (101, 0, TCP_ACK, 54, 2)" "slice fr 54 56 = [2, 3]"
    unfolding fr_def using parse_tcp_frame [OF l(1,1,2,3), of "[2, 3]"] by simp_all
  have n: "parse_tcp [1, 2] = None" by (simp add: parse_tcp_def)
  have i: "\<exists>i. (101 :: u32) = 100 + of_nat i \<and> i + 2 \<le> length [1, 2, 3 :: byte] \<and> [2, 3] = slice [1, 2, 3 :: byte] i (i + 2)"
    by (rule exI [of _ 1]) (simp add: slice_def)
  have "from_stream 100 [1, 2, 3] [None, Some fr, Some [1, 2], Some fr]"
    using i p n t by (auto simp: from_stream_def)
  then show ?thesis
    using tcp_delivers_prefix [of "sample_net [None, Some fr, Some [1, 2], Some fr]" sample_conn 100 "[1, 2, 3]" 0 5]
    unfolding fr_def [symmetric] Let_def by (simp add: sample_net_def sample_conn_def)
qed

end
