(* ===== verification/Tls_Props.thy ===== *)
theory Tls_Props
  imports Tls_Accept X509_Props Net_Props
begin

text \<open>
  What the TLS client guarantees and what it does not: protected records round-trip, every network
  input is handled without a panic and in finite time, a delivered response means a Finished that
  authenticates the transcript and a chain that validates, and no signature by the server's key is
  ever asked for.
\<close>

unbundle bit_operations_syntax

section \<open>Protected records\<close>

text \<open>
  C33: What one side seals the other opens: a sealed record of any content below 16000 bytes, sent
  over a connection, is read back by the record layer of the side that has the same keys and counts
  the same sequence number, with its content and its inner type.
\<close>

theorem tls_record_roundtrip:
  assumes "tcp_ok c" "tcp_content c = seal_record k sq plain inner @ rest" "inner \<noteq> 0" "length plain < 16000"
  shows "\<exists>hdr body s'. read_record tcp_pipe (stream_new c) = Some (Some (CT_APPLICATION_DATA, hdr, body), s') \<and>
    open_record k sq hdr body = Some (inner, plain)"
proof -
  have "tcp.avail (stream_new c) = seal_record k sq plain inner @ rest"
    using assms(2) by (simp add: stream_new_def tcp.avail_def)
  moreover have "tcp_ok (s_conn (stream_new c))" using assms(1) by (simp add: stream_new_def)
  ultimately show ?thesis using tcp.read_sealed assms(3,4) by blast
qed

text \<open>A connection that has a given byte stream to deliver.\<close>

lemma stream_exists:
  assumes "length bs \<le> 100000"
  shows "\<exists>fs. tcp_ok (sample_conn, sample_net (map Some fs)) \<and> tcp_content (sample_conn, sample_net (map Some fs)) = bs \<and>
    length fs \<le> 100000"
proof -
  have l: "length (c_gw sample_conn) = 6" "length (c_mac sample_conn) = 6" "length (c_ip sample_conn) = 4" "c_port sample_conn = OUR_PORT"
    by (simp_all add: sample_conn_def BCAST_def GW_IP_def)
  obtain c' fs where f: "send_loop bs sample_conn (sample_net []) = Some (c', (sample_net [])\<lparr>sent := sent (sample_net []) @ fs\<rparr>)"
    "pending (c_snd sample_conn) (map Some fs) = bs" "length fs \<le> length bs"
    using send_loop_frames [OF l] by blast
  have "c_rcv sample_conn = c_snd sample_conn" "\<not> pending_fin sample_conn" by (simp_all add: sample_conn_def)
  then have "tcp_content (sample_conn, sample_net (map Some fs)) = bs" using f(2) by (simp add: tcp_content_def sample_net_def)
  moreover have "tcp_ok (sample_conn, sample_net (map Some fs))" using f(3) assms by (simp add: tcp_ok_def sample_net_def)
  moreover have "length fs \<le> 100000" using f(3) assms by simp
  ultimately show ?thesis by blast
qed

lemma length_seal_record: "length (seal_record k sq plain inner) = length plain + 22"
  by (simp add: seal_record_def Let_def case_prod_beta aead_seal_parts)

definition sample_keys :: keys where
  "sample_keys = \<lparr>k_key = replicate 32 7, k_iv = replicate 12 9\<rparr>"

lemma tls_record_roundtrip_witness:
  "\<exists>fs hdr body s'. read_record tcp_pipe (stream_new (sample_conn, sample_net (map Some fs))) = Some (Some (CT_APPLICATION_DATA, hdr, body), s') \<and>
    open_record sample_keys 3 hdr body = Some (CT_HANDSHAKE, [1, 2, 3])"
proof -
  define bs where "bs = seal_record sample_keys 3 [1, 2, 3] CT_HANDSHAKE"
  have "length bs \<le> 100000" by (simp add: bs_def length_seal_record)
  then obtain fs where f: "tcp_ok (sample_conn, sample_net (map Some fs))" "tcp_content (sample_conn, sample_net (map Some fs)) = bs"
    using stream_exists by blast
  have "CT_HANDSHAKE \<noteq> 0" "length [1, 2, 3 :: byte] < 16000" by (simp_all add: CT_HANDSHAKE_def)
  then show ?thesis using tls_record_roundtrip [OF f(1), of sample_keys 3 "[1, 2, 3]" CT_HANDSHAKE "[]"] f(2)
    unfolding bs_def by auto
qed

section \<open>The session\<close>

text \<open>
  C5: What a delivered response means for the bytes received on its connection: they begin with
  ChangeCipherSpec records, one ServerHello record, the records of the server's flight and those of the
  reply. Under the secrets of the client's private key with the key share in that ServerHello, the
  records of the flight open in order, from sequence number 0, to handshake messages up to a Finished,
  complete with the last of them, whose verify data is the MAC of the hash of ClientHello, that
  ServerHello and exactly those messages; the certificates in the messages form a chain
  \<open>validate_chain\<close> accepts for the requested host; and the response is the application data, cut to the
  buffer, that the records of the reply open to, in order and from sequence number 0, under the server's
  application key of that transcript. The connection is one with at most 20 million polls left.
\<close>

theorem tls_response_authenticated:
  assumes "tcp_ok c" "tls_session tcp_pipe ss rq c = Some (Some resp, s')"
  shows "accepted ss rq (tcp_content c) resp"
  by (rule tcp.tls_session_sound [OF assms])

text \<open>
  C10: A session with a server that follows the protocol succeeds: if what the connection delivers
  is a ServerHello, protected messages with a certificate chain that validates for the host, a Finished
  and a response that fits the buffer, then that response is the result. The messages beside the
  Certificate are arbitrary: a server that sends no CertificateVerify, or one with any signature in
  it, is accepted as well, so that a validating chain and the Diffie-Hellman secret are all a peer
  needs, and never the private key of the certificate.
\<close>

theorem tls_needs_no_certificate_key:
  assumes "tcp_ok c" "server_stream ss rq random pub msgs resp = Some (tcp_content c)"
    "length random = 32" "length pub = 32"
    "\<forall>m \<in> set msgs. is_message m \<and> m ! 0 \<noteq> HS_FINISHED" "collect_certs msgs [] = Some chain"
    "length (concat msgs) < 15900" "validate_chain (ss_anchors ss) (ss_now ss) chain (rq_host rq) = V_Ok"
    "resp \<noteq> []" "length resp < 16000" "length resp \<le> rq_cap rq" "length (dec_digits (length (rq_body rq))) \<le> 10"
  shows "\<exists>s'. tls_session tcp_pipe ss rq c = Some (Some resp, s')"
  by (rule tcp.tls_session_answers [OF assms(1,12,2-11)])

definition sample_session :: session where
  "sample_session = \<lparr>ss_priv = replicate 32 1, ss_random = replicate 32 2, ss_id = replicate 32 3,
     ss_anchors = [demo_der], ss_now = 20250101000000\<rparr>"

definition sample_request :: request where
  "sample_request = \<lparr>rq_host = [0x41], rq_method = ascii ''GET'', rq_path = [], rq_type = [], rq_body = [], rq_cap = 4096\<rparr>"

lemma server_stream_some: "\<exists>bs. server_stream ss rq random pub msgs resp = Some bs"
proof -
  define ch where "ch = client_hello_of ss rq"
  define sh where "sh = server_hello_msg random pub"
  obtain sec where sec: "handshake_secrets (x25519 (ss_priv ss) pub) (sha256 (ch @ sh)) = Some sec"
    using handshake_secrets_some [of "sha256 (ch @ sh)"] by auto
  obtain v where v: "finished_mac (s_hs_secret sec) (sha256 (ch @ sh @ concat msgs)) = Some v" using finished_mac_some by blast
  obtain ck sk where "app_keys sec (sha256 (ch @ sh @ concat msgs @ hs_message HS_FINISHED v)) = Some (ck, sk)"
    using app_keys_some [of "sha256 (ch @ sh @ concat msgs @ hs_message HS_FINISHED v)" sec] by auto
  then show ?thesis unfolding server_stream_def Let_def ch_def [symmetric] sh_def [symmetric] using sec v by simp
qed

lemma server_stream_length:
  assumes "server_stream ss rq random pub msgs resp = Some bs" "length random = 32" "length pub = 32"
  shows "length bs = 175 + length (concat msgs) + length resp"
proof -
  have l: "length (server_hello_msg random pub) = 90" using assms(2,3) by (simp add: server_hello_msg_def hs_message_def u16_len_def)
  have v: "length v = 32" if "finished_mac k th = Some v" for k th v using finished_mac_some [of k th] that by auto
  show ?thesis using assms(1) unfolding server_stream_def Let_def
    by (auto split: Option.bind_splits simp: l u16_len_def length_seal_record hs_message_def dest!: v)
qed

definition sample_msgs :: "bytes list" where
  "sample_msgs = [certificate_msg [demo_der]]"

lemma sample_msgs_ok:
  "\<forall>m \<in> set sample_msgs. is_message m \<and> m ! 0 \<noteq> HS_FINISHED" "collect_certs sample_msgs [] = Some [demo_der]"
  "length (concat sample_msgs) < 15900"
proof -
  have l: "length demo_der = 99" by (simp add: demo_der_def)
  define body where "body = [0] @ u24_len (concat (map cert_entry [demo_der]))"
  have m: "certificate_msg [demo_der] = HS_CERTIFICATE # u24_len body" by (simp add: certificate_msg_def hs_message_def body_def)
  have lb: "length body = 108" by (simp add: body_def cert_entry_def l)
  have "is_message (certificate_msg [demo_der])"
    using u24_at_len [of body "[HS_CERTIFICATE]" "[]"] lb unfolding m is_message_def by simp
  then show "\<forall>m \<in> set sample_msgs. is_message m \<and> m ! 0 \<noteq> HS_FINISHED"
    by (simp add: sample_msgs_def m HS_CERTIFICATE_def HS_FINISHED_def)
  have d: "drop 4 (certificate_msg [demo_der]) = body" unfolding m by (simp add: u24_len_def)
  have "parse_cert_list body [] = Some [demo_der]"
    using parse_cert_list_wire [of "[demo_der]" "[]"] by (simp add: body_def cert_entry_def l)
  then show "collect_certs sample_msgs [] = Some [demo_der]" by (simp add: sample_msgs_def d) (simp add: m)
  show "length (concat sample_msgs) < 15900" by (simp add: sample_msgs_def m lb)
qed

lemma sample_valid: "validate_chain (ss_anchors sample_session) (ss_now sample_session) [demo_der] (rq_host sample_request) = V_Ok"
  using demo_chain by (simp add: sample_session_def sample_request_def)

lemma sample_stream:
  "\<exists>fs. tcp_ok (sample_conn, sample_net (map Some fs)) \<and>
     server_stream sample_session sample_request (replicate 32 4) (replicate 32 9) sample_msgs [72, 105]
       = Some (tcp_content (sample_conn, sample_net (map Some fs)))"
proof -
  obtain bs where b: "server_stream sample_session sample_request (replicate 32 4) (replicate 32 9) sample_msgs [72, 105] = Some bs"
    using server_stream_some by blast
  have "length bs \<le> 100000" using server_stream_length [OF b] sample_msgs_ok(3) by simp
  then show ?thesis using stream_exists [of bs] b by auto
qed

lemma sample_digits: "length (dec_digits (length (rq_body sample_request))) \<le> 10"
  by (simp add: sample_request_def dec_digits.simps)

lemma tls_needs_no_certificate_key_witness:
  "\<exists>fs s'. tls_session tcp_pipe sample_session sample_request (sample_conn, sample_net (map Some fs)) = Some (Some [72, 105], s')"
proof -
  obtain fs where "tcp_ok (sample_conn, sample_net (map Some fs))"
    "server_stream sample_session sample_request (replicate 32 4) (replicate 32 9) sample_msgs [72, 105]
       = Some (tcp_content (sample_conn, sample_net (map Some fs)))" using sample_stream by blast
  from tls_needs_no_certificate_key [OF this _ _ sample_msgs_ok(1,2,3) sample_valid _ _ _ sample_digits]
  show ?thesis by (auto simp: sample_request_def)
qed

lemma tls_response_authenticated_witness:
  "\<exists>fs. accepted sample_session sample_request (tcp_content (sample_conn, sample_net (map Some fs))) [72, 105]"
proof -
  obtain fs where f: "tcp_ok (sample_conn, sample_net (map Some fs))"
    "server_stream sample_session sample_request (replicate 32 4) (replicate 32 9) sample_msgs [72, 105]
       = Some (tcp_content (sample_conn, sample_net (map Some fs)))" using sample_stream by blast
  from tcp.tls_session_answers [OF f(1) sample_digits f(2) _ _ sample_msgs_ok(1,2,3) sample_valid]
  obtain s' where "tls_session tcp_pipe sample_session sample_request (sample_conn, sample_net (map Some fs)) = Some (Some [72, 105], s')"
    by (auto simp: sample_request_def)
  from tls_response_authenticated [OF f(1) this] show ?thesis by blast
qed

section \<open>Every request returns\<close>

lemma put_labels_bound:
  assumes "p + length (wire_labels ls) \<le> length buf" "put_labels buf p ls = (b, q)"
  shows "length b = length buf \<and> q \<le> p + length (wire_labels ls)"
  using assms
proof (induction ls arbitrary: buf p)
  case (Cons l ls)
  have w: "length (wire_labels (l # ls)) = 1 + length l + length (wire_labels ls)" by (simp add: wire_labels_def)
  show ?case
  proof (cases "l = [] \<or> 63 < length l \<or> length buf \<le> p + 1 + length l")
    case True
    then show ?thesis using Cons.prems(2) by auto
  next
    case False
    define buf2 where "buf2 = blit (buf[p := of_nat (length l)]) (p + 1) l"
    have "length buf2 = length buf" using False by (simp add: buf2_def)
    moreover have "put_labels buf2 (p + 1 + length l) ls = (b, q)" using False Cons.prems(2) by (simp add: buf2_def)
    ultimately show ?thesis using Cons.IH [of "p + 1 + length l" buf2] Cons.prems(1) unfolding w by simp
  qed
qed simp

lemma dns_query_some:
  assumes "length domain \<le> 238"
  shows "\<exists>b n. build_dns_query (replicate 256 0) domain txid = Some (b, n) \<and> n \<le> 256"
proof -
  define buf where "buf = blit (put16 (replicate 256 0) 0 txid) 2 [1, 0, 0, 1, 0, 0, 0, 0, 0, 0 :: byte]"
  have lb: "length buf = 256" by (simp add: buf_def put16_def)
  obtain b q where q: "put_labels buf 12 (split_on 46 domain) = (b, q)" by force
  have "length b = 256 \<and> q \<le> 13 + length domain"
    using put_labels_bound [OF _ q] lb assms by (simp add: wire_labels_split)
  then show ?thesis using q assms unfolding build_dns_query_def Let_def buf_def [symmetric] by simp
qed

lemma poll_until_suffix: "suffix (snd (poll_until n cap f ps)) ps"
  by (induction n cap f ps rule: poll_until.induct) (auto split: option.splits intro: suffix_ConsI)

text \<open>What an operation may do to the device: consume polls.\<close>

definition later :: "net \<Rightarrow> net \<Rightarrow> bool" where
  "later st st' \<longleftrightarrow> nic_mac st' = nic_mac st \<and> suffix (polls st') (polls st)"

lemma poll_net_later: "poll_net n cap f st = (r, st') \<Longrightarrow> later st st'"
  using poll_until_suffix [of n cap f "polls st"] by (auto simp: poll_net_def later_def split: prod.splits)

lemma later_trans: "later a b \<Longrightarrow> later b c \<Longrightarrow> later a c"
  by (auto simp: later_def intro: suffix_order.trans)

lemma later_length: "later st st' \<Longrightarrow> length (polls st') \<le> length (polls st)"
  by (simp add: later_def suffix_length_le)

lemma later_send: "later st (nic_send fr st)" "later st (st\<lparr>sent := s\<rparr>)"
  by (simp_all add: later_def nic_send_def)

lemma dns_resolve_total:
  assumes "length domain \<le> 238"
  shows "\<exists>r st'. dns_resolve dns domain st = Some (r, st') \<and> later st st'"
proof (cases "nic_mac st")
  case None
  then show ?thesis by (simp add: dns_resolve_def later_def)
next
  case (Some mac)
  obtain b n where q: "build_dns_query (replicate 256 0) domain 0x1A2B = Some (b, n)" "n \<le> 256"
    using dns_query_some [OF assms] by blast
  obtain f m where u: "build_udp (replicate 512 0) dns mac OUR_IP DNS_IP OUR_DNS_PORT DNS_PORT (take n b) = Some (f, m)"
    using q(2) by (simp add: build_udp_def Let_def)
  obtain r st' where p: "poll_net 10000000 1536 (dns_reply 0x1A2B) (nic_send (take m f) st) = (r, st')" by force
  then have "later st st'" using poll_net_later later_trans later_send(1) by blast
  then show ?thesis using Some q(1) u p by (simp add: dns_resolve_def)
qed

lemma resolve_host_total:
  assumes "length host \<le> 238"
  shows "\<exists>r st'. resolve_host host st = Some (r, st') \<and> later st st'"
  using dns_resolve_total [OF assms] by (auto simp: resolve_host_def later_def split: option.splits)

lemma tcp_connect_total:
  "\<exists>r st'. tcp_connect ip port st = Some (r, st') \<and> later st st' \<and> (r \<noteq> None \<longrightarrow> nic_mac st' \<noteq> None)"
proof (cases "net_up st \<and> gw_mac st \<noteq> None \<and> nic_mac st \<noteq> None")
  case False
  then show ?thesis by (auto simp: tcp_connect_def later_def split: option.splits)
next
  case True
  then obtain gw mac where m: "gw_mac st = Some gw" "nic_mac st = Some mac" "net_up st" by auto
  have fit: "54 + length ([] :: bytes) \<le> 1600" by simp
  obtain fr where e: "emit_tcp 1600 gw mac ip port 0x00C0FFEE 0 TCP_SYN [] st = Some (st\<lparr>sent := sent st @ [fr]\<rparr>)"
    using emit_tcp_fits [OF fit] by blast
  obtain r st1 where p: "poll_net 15000000 1600 (syn_ack 0x00C0FFEE) (st\<lparr>sent := sent st @ [fr]\<rparr>) = (r, st1)" by force
  have l: "later st st1" using poll_net_later [OF p] later_trans later_send(2) by blast
  then have n: "nic_mac st1 \<noteq> None" using m(2) by (simp add: later_def)
  show ?thesis
  proof (cases "r = None \<or> r = Some None")
    case True
    then show ?thesis using m e p l unfolding tcp_connect_def Let_def by auto
  next
    case False
    then obtain q where q: "r = Some (Some q)" by (cases r) auto
    obtain fr2 where f2: "emit_tcp 1600 gw mac ip port (0x00C0FFEE + 1) (q + 1) TCP_ACK [] st1 = Some (st1\<lparr>sent := sent st1 @ [fr2]\<rparr>)"
      using emit_tcp_fits [OF fit] by blast
    have "later st (st1\<lparr>sent := sent st1 @ [fr2]\<rparr>)" using l later_send(2) later_trans by blast
    then show ?thesis using m e p n f2 q unfolding tcp_connect_def Let_def by simp
  qed
qed

text \<open>
  C15: An HTTPS request answers every finite network input without a panic: for a host name of up to 238
  characters, a body whose length has at most ten digits, and whatever frames the network delivers in up
  to 20 million polls, after which it is silent, name lookup, connection, handshake, request and
  response come to an answer. It is the input that ends here, not the loops alone: the one that waits for
  ServerHello has no bound of its own, so nothing is claimed of a network that never falls silent.
\<close>

theorem https_request_returns:
  assumes "length (rq_host rq) \<le> 238" "length (dec_digits (length (rq_body rq))) \<le> 10" "length (polls st) \<le> 20000000"
  shows "\<exists>r st'. https_request tsc anchors now rq st = Some (r, st')"
proof -
  obtain ip st1 where r: "resolve_host (rq_host rq) st = Some (ip, st1)" "later st st1"
    using resolve_host_total [OF assms(1)] by blast
  show ?thesis
  proof (cases ip)
    case None
    then show ?thesis using r(1) by (simp add: https_request_def)
  next
    case (Some a)
    obtain conn st2 where c: "tcp_connect a 443 st1 = Some (conn, st2)" "later st1 st2" "conn \<noteq> None \<longrightarrow> nic_mac st2 \<noteq> None"
      using tcp_connect_total by blast
    show ?thesis
    proof (cases conn)
      case None
      then show ?thesis using r(1) Some c(1) by (simp add: https_request_def)
    next
      case conn: (Some cn)
      have "tcp_ok (cn, st2)" using later_length [OF r(2)] later_length [OF c(2)] c(3) conn assms(3) by (auto simp: tcp_ok_def)
      then obtain x s' where "tls_session tcp_pipe
          \<lparr>ss_priv = rand_bytes tsc 0 32, ss_random = rand_bytes tsc 2 32, ss_id = rand_bytes tsc 4 32,
            ss_anchors = anchors, ss_now = now\<rparr> rq (cn, st2) = Some (x, s')"
        using tcp.tls_session_total [OF _ assms(2)] by blast
      then show ?thesis using r(1) Some c(1) conn unfolding https_request_def Let_def by simp
    qed
  qed
qed

lemma https_request_returns_witness:
  "\<exists>r st'. https_request (\<lambda>i. of_nat i) [] 0 sample_request (sample_net [None, Some [1, 2, 3]]) = Some (r, st')"
  by (rule https_request_returns) (simp_all add: sample_request_def dec_digits.simps sample_net_def)

section \<open>The loop without a bound\<close>

text \<open>
  C16: The loop that waits for ServerHello takes as many turns as the peer likes: \<open>n\<close> ChangeCipherSpec
  records, for any \<open>n\<close> the connection carries, are read one by one and leave the client where it
  was, waiting for ServerHello on the rest of the stream. No counter ends it.
\<close>

theorem hello_waits_through_ccs:
  assumes "tcp_ok c" "tcp_content c = concat (replicate n [CT_CHANGE_CIPHER_SPEC, 3, 3, 0, 1, 1]) @ rest"
  shows "\<exists>s. server_hello tcp_pipe tr (stream_new c) = server_hello tcp_pipe tr s \<and> tcp_ok (s_conn s) \<and>
    drop (s_pos s) (s_buf s) @ tcp_content (s_conn s) = rest"
proof -
  have "\<exists>s. server_hello tcp_pipe tr s0 = server_hello tcp_pipe tr s \<and> tcp_ok (s_conn s) \<and> tcp.avail s = rest"
    if "tcp_ok (s_conn s0)" "tcp.avail s0 = concat (replicate n [CT_CHANGE_CIPHER_SPEC, 3, 3, 0, 1, 1]) @ rest" for n s0
    using that
  proof (induction n arbitrary: s0)
    case 0
    then show ?case by auto
  next
    case (Suc n)
    have u: "u16_len [1 :: byte] = [0, 1, 1]" by (simp add: u16_len_def)
    obtain s1 h where s1: "read_record tcp_pipe s0 = Some (Some (CT_CHANGE_CIPHER_SPEC, h, [1]), s1)" "tcp_ok (s_conn s1)"
      "tcp.avail s1 = concat (replicate n [CT_CHANGE_CIPHER_SPEC, 3, 3, 0, 1, 1]) @ rest"
      using tcp.read_record_head [OF Suc.prems(1), of CT_CHANGE_CIPHER_SPEC 3 3 "[1]"] Suc.prems(2) by (auto simp: u)
    have "server_hello tcp_pipe tr s0 = server_hello tcp_pipe tr s1" by (subst server_hello.simps) (simp add: s1(1))
    then show ?case using Suc.IH [OF s1(2,3)] by simp
  qed
  then show ?thesis using assms unfolding tcp.avail_def by (force simp: stream_new_def)
qed

lemma hello_waits_through_ccs_witness:
  "\<exists>fs s. server_hello tcp_pipe sha256_new (stream_new (sample_conn, sample_net (map Some fs))) = server_hello tcp_pipe sha256_new s \<and>
     drop (s_pos s) (s_buf s) @ tcp_content (s_conn s) = [CT_ALERT] \<and> 60000 \<le> length (tcp_content (sample_conn, sample_net (map Some fs)))"
proof -
  define bs where "bs = concat (replicate 10000 [CT_CHANGE_CIPHER_SPEC, 3, 3, 0, 1, 1]) @ [CT_ALERT]"
  have l: "length bs = 60001" by (simp add: bs_def length_concat sum_list_replicate)
  then have "length bs \<le> 100000" by simp
  then obtain fs where f: "tcp_ok (sample_conn, sample_net (map Some fs))" "tcp_content (sample_conn, sample_net (map Some fs)) = bs"
    using stream_exists by blast
  from hello_waits_through_ccs [OF f(1) f(2) [unfolded bs_def], of sha256_new] obtain s where
    "server_hello tcp_pipe sha256_new (stream_new (sample_conn, sample_net (map Some fs))) = server_hello tcp_pipe sha256_new s"
    "drop (s_pos s) (s_buf s) @ tcp_content (s_conn s) = [CT_ALERT]" by blast
  then show ?thesis using f(2) l by (intro exI [of _ fs] exI [of _ s]) simp
qed

end
