(* ===== verification/Http_Props.thy ===== *)
theory Http_Props
  imports Tls_Props
begin

text \<open>
  HTTP and HTTPS together: what the trust indicator of \<open>http_get\<close> says about the page it came with, the
  connection the page came over and the host it came from, and the length of request the plain client
  survives.
\<close>

unbundle bit_operations_syntax

section \<open>The plain client\<close>

lemma length_clipped:
  "length buf \<le> n \<Longrightarrow> length (fold (\<lambda>part buf. buf @ take (n - length buf) part) ps buf) = min n (length buf + sum_list (map length ps))"
proof (induction ps arbitrary: buf)
  case (Cons p ps)
  have "length (buf @ take (n - length buf) p) = min n (length buf + length p)" using Cons.prems by simp
  then show ?case using Cons.IH [of "buf @ take (n - length buf) p"] by simp
qed simp

lemma http_request_length:
  "length (http_request host path) = min 384 (74 + length host + max 1 (length path))"
proof -
  define p where "p = (if path = [] then ascii ''/'' else path)"
  have lp: "length p = max 1 (length path)" by (cases path) (simp_all add: p_def)
  show ?thesis unfolding http_request_def Let_def p_def [symmetric] using lp by (simp only: length_clipped list.size) simp
qed

lemma http_recv_total:
  assumes "\<And>rcv flags st. \<exists>fr. reply rcv flags st = Some (st\<lparr>sent := sent st @ [fr]\<rparr>)"
  shows "\<exists>a b c d. http_recv reply cap n xs rcv got out st = Some (a, b, c, d)"
proof (induction xs arbitrary: n rcv got out st)
  case (Cons x xs)
  have tot: "\<exists>st'. reply rcv flags st = Some st'" for rcv flags st using assms by blast
  have fin: "\<exists>a b c d. Option.bind (reply p TCP_ACK st) (\<lambda>st. Option.bind (reply p f st) (\<lambda>st. Some (m, w, zs, st))) = Some (a, b, c, d)"
    for p f st and m :: nat and w :: bytes and zs :: "bytes option list"
  proof -
    obtain s1 where s1: "reply p TCP_ACK st = Some s1" using tot by blast
    obtain s2 where s2: "reply p f s1 = Some s2" using tot by blast
    show ?thesis by (simp add: s1 s2)
  qed
  show ?case
  proof (cases "Option.bind x (\<lambda>rx. parse_tcp (take 1536 rx))")
    case None
    then show ?thesis using Cons.IH by simp
  next
    case (Some y)
    obtain sq ackn flags poff plen where y: "y = (sq, ackn, flags, poff, plen)" by (cases y) auto
    obtain s1 where "reply (rcv + of_nat plen) TCP_ACK st = Some s1" using tot by blast
    then show ?thesis using Some y Cons.IH fin by (simp add: Let_def)
  qed
qed simp

lemma emit_tcp_cases:
  "emit_tcp n gw mac dst dport sq ack flags payload st = (if n < 54 + length payload then None else
     emit_tcp n gw mac dst dport sq ack flags payload st)"
  by (auto simp: emit_tcp_def build_tcp_def)

text \<open>
  C31: The plain HTTP client survives a request only if it is short: once the server has answered the
  SYN, \<open>tcp_http_get\<close> panics exactly when host and path together have more than 128 characters,
  because the request goes into a frame buffer of 256 bytes; for every shorter one it returns, whatever
  the network sends.
\<close>

theorem http_get_panics_iff_long:
  assumes "nic_mac st = Some mac" "polls st = Some rx # ps" "syn_ack 0x00012000 (take 1536 rx) = Some (Some their_seq)"
  shows "tcp_http_get gw ip port host path cap st = None \<longleftrightarrow> 128 < length host + max 1 (length path)"
proof -
  define emit where "emit = emit_tcp 256 gw mac ip port"
  have fit: "54 + length ([] :: bytes) \<le> 256" by simp
  have e0: "\<exists>fr. emit sq ack flags [] s = Some (s\<lparr>sent := sent s @ [fr]\<rparr>)" for sq ack flags s
    unfolding emit_def using emit_tcp_fits [OF fit] by blast
  obtain f1 where f1: "emit 0x00012000 0 TCP_SYN [] st = Some (st\<lparr>sent := sent st @ [f1]\<rparr>)" using e0 by blast
  define st1 where "st1 = st\<lparr>sent := sent st @ [f1], polls := ps\<rparr>"
  have p: "poll_net 10000000 1536 (syn_ack 0x00012000) (st\<lparr>sent := sent st @ [f1]\<rparr>) = (Some (Some their_seq), st1)"
    using assms(2,3) by (simp add: poll_net_def st1_def)
  define rcv where "rcv = their_seq + 1"
  define snd_nxt where "snd_nxt = (0x00012000 :: u32) + 1"
  obtain st2 where st2: "emit snd_nxt rcv TCP_ACK [] st1 = Some st2" using e0 by blast
  define req where "req = http_request host path"
  have big: "128 < length host + max 1 (length path) \<longleftrightarrow> 256 < 54 + length req"
    unfolding req_def http_request_length by (simp add: min_def)
  show ?thesis
  proof (cases "256 < 54 + length req")
    case True
    then have "emit snd_nxt rcv (TCP_PSH OR TCP_ACK) req st2 = None"
      unfolding emit_def by (subst emit_tcp_cases) simp
    then show ?thesis using assms(1) f1 p st2 True big unfolding tcp_http_get_def Let_def
      by (simp add: emit_def rcv_def snd_nxt_def req_def)
  next
    case False
    then have "54 + length req \<le> 256" by simp
    then obtain st3 where st3: "emit snd_nxt rcv (TCP_PSH OR TCP_ACK) req st2 = Some st3"
      unfolding emit_def using emit_tcp_fits by blast
    obtain a b c d where r: "http_recv (\<lambda>rcv flags. emit (snd_nxt + of_nat (length req)) rcv flags []) cap 15000000 (polls st3) rcv 0 [] st3 = Some (a, b, c, d)"
      using http_recv_total [of "\<lambda>rcv flags. emit (snd_nxt + of_nat (length req)) rcv flags []"] e0 by blast
    show ?thesis using assms(1) f1 p st2 st3 r False big unfolding tcp_http_get_def Let_def
      by (simp add: emit_def rcv_def snd_nxt_def req_def)
  qed
qed

definition syn_ack_frame :: "u32 \<Rightarrow> bytes" where
  "syn_ack_frame isn = tcp_frame BCAST BCAST GW_IP OUR_IP 80 OUR_PORT 99 (isn + 1) (TCP_SYN OR TCP_ACK) []"

lemma syn_ack_frame: "syn_ack isn (syn_ack_frame isn) = Some (Some 99)" "length (syn_ack_frame isn) = 54"
proof -
  have l: "length BCAST = 6" "length GW_IP = 4" "length OUR_IP = 4" by (simp_all add: BCAST_def GW_IP_def OUR_IP_def)
  have "parse_tcp (syn_ack_frame isn) = Some (99, isn + 1, TCP_SYN OR TCP_ACK, 54, 0)"
    unfolding syn_ack_frame_def using parse_tcp_frame(1) [OF l(1,1,2,3), of "[]"] by simp
  then show "syn_ack isn (syn_ack_frame isn) = Some (Some 99)"
    by (simp add: syn_ack_def TCP_SYN_def TCP_ACK_def TCP_RST_def)
  show "length (syn_ack_frame isn) = 54" using l by (simp add: syn_ack_frame_def)
qed

lemma http_get_panics_iff_long_witness:
  "tcp_http_get BCAST GW_IP 80 (replicate 100 97) (replicate 29 47) 4096 (sample_net [Some (syn_ack_frame 0x00012000)]) = None \<and>
   tcp_http_get BCAST GW_IP 80 (replicate 100 97) (replicate 28 47) 4096 (sample_net [Some (syn_ack_frame 0x00012000)]) \<noteq> None"
proof -
  have "syn_ack 0x00012000 (take 1536 (syn_ack_frame 0x00012000)) = Some (Some 99)" by (simp add: syn_ack_frame)
  then show ?thesis
    using http_get_panics_iff_long [of "sample_net [Some (syn_ack_frame 0x00012000)]" BCAST "syn_ack_frame 0x00012000" "[]" 99]
    by (simp add: sample_net_def)
qed

section \<open>The trust indicator\<close>

lemma poll_net_trust: "poll_net n cap f st = (r, st') \<Longrightarrow> trust st' = trust st"
  by (auto simp: poll_net_def split: prod.splits)

lemma emit_tcp_trust: "emit_tcp n gw mac dst dport sq ack flags payload st = Some st' \<Longrightarrow> trust st' = trust st"
  by (auto simp: emit_tcp_def nic_send_def split: option.splits)

lemma dns_resolve_trust: "dns_resolve dns domain st = Some (r, st') \<Longrightarrow> trust st' = trust st"
  by (auto simp: dns_resolve_def nic_send_def split: option.splits Option.bind_splits dest!: poll_net_trust)

lemma http_recv_trust:
  assumes "\<And>rcv flags st st'. reply rcv flags st = Some st' \<Longrightarrow> trust st' = trust st"
  shows "http_recv reply cap n xs rcv got out st = Some (a, b, c, st') \<Longrightarrow> trust st' = trust st"
proof (induction xs arbitrary: n rcv got out st)
  case (Cons x xs)
  show ?case
  proof (cases "Option.bind x (\<lambda>rx. parse_tcp (take 1536 rx))")
    case None
    then show ?thesis using Cons by (auto split: if_splits)
  next
    case (Some y)
    obtain sq ackn flags poff plen where y: "y = (sq, ackn, flags, poff, plen)" by (cases y) auto
    show ?thesis
      using Cons.prems Some y unfolding http_recv.simps Let_def
      by (auto split: if_splits option.splits Option.bind_splits dest!: assms Cons.IH)
  qed
qed simp

lemma tcp_http_get_trust: "tcp_http_get gw ip port host path cap st = Some (r, st') \<Longrightarrow> trust st' = trust st"
  unfolding tcp_http_get_def Let_def
  by (auto split: option.splits Option.bind_splits prod.splits
      dest!: emit_tcp_trust poll_net_trust http_recv_trust [rotated])

text \<open>
  One hop of the plain client: the response \<open>page\<close> that the host \<open>h\<close>, looked up in state \<open>s\<close>, gives for
  path \<open>p\<close>, and the state after it.
\<close>

definition answered :: "bytes \<Rightarrow> bytes \<Rightarrow> nat \<Rightarrow> bytes \<Rightarrow> bytes \<Rightarrow> net \<Rightarrow> bytes \<Rightarrow> net \<Rightarrow> bool" where
  "answered gw dns cap h p s page s' \<longleftrightarrow> utf8_ok h \<and>
     (\<exists>ip s1. dns_resolve dns h s = Some (Some ip, s1) \<and>
        tcp_http_get gw ip 80 h (if utf8_ok p then p else [47]) cap s1 = Some (Some page, s'))"

definition redirects :: "bytes \<Rightarrow> bool" where
  "redirects page \<longleftrightarrow> (case http_status page of Some code \<Rightarrow> 301 \<le> code \<and> code \<le> 308 \<and> code \<noteq> 304 | None \<Rightarrow> False)"

text \<open>What is asked of the plain client for a URL, and then for the plain Location of each response.\<close>

inductive asked :: "bytes \<Rightarrow> bytes \<Rightarrow> nat \<Rightarrow> bytes \<Rightarrow> bytes \<Rightarrow> net \<Rightarrow> bytes \<Rightarrow> bytes \<Rightarrow> net \<Rightarrow> bool"
  for gw dns cap h0 p0 s0 where
  asked_first: "asked gw dns cap h0 p0 s0 h0 p0 s0"
| asked_next: "asked gw dns cap h0 p0 s0 h p s \<Longrightarrow> answered gw dns cap h p s page s' \<Longrightarrow> redirects page \<Longrightarrow>
    parse_location page 128 256 = Some (False, nh, np) \<Longrightarrow> asked gw dns cap h0 p0 s0 nh np s'"

text \<open>The https URL that the Location of such a response names, a host it leaves out being the one asked.\<close>

definition sent_to_https :: "bytes \<Rightarrow> bytes \<Rightarrow> nat \<Rightarrow> bytes \<Rightarrow> bytes \<Rightarrow> net \<Rightarrow> bytes \<Rightarrow> bytes \<Rightarrow> net \<Rightarrow> bool" where
  "sent_to_https gw dns cap h0 p0 s0 host path s' \<longleftrightarrow>
     (\<exists>h p s page nh np. asked gw dns cap h0 p0 s0 h p s \<and> answered gw dns cap h p s page s' \<and> redirects page \<and>
        parse_location page 128 256 = Some (True, nh, np) \<and>
        host = (if nh = [] \<or> \<not> utf8_ok nh then h else nh) \<and> path = (if utf8_ok np then np else [47]))"

text \<open>
  \<open>page\<close> is what a TLS session for \<open>host\<close> delivers: the session runs on the connection to port 443 of the
  address \<open>host\<close> resolves to in state \<open>s\<close>, and it is accepted.
\<close>

definition tls_page :: "(nat \<Rightarrow> u64) \<Rightarrow> bytes list \<Rightarrow> nat \<Rightarrow> nat \<Rightarrow> bytes \<Rightarrow> bytes \<Rightarrow> net \<Rightarrow> bytes \<Rightarrow> bool" where
  "tls_page tsc anchors now cap host path s page \<longleftrightarrow>
     (\<exists>ip s1 conn s2. resolve_host host s = Some (Some ip, s1) \<and> tcp_connect ip 443 s1 = Some (Some conn, s2) \<and>
        accepted
          \<lparr>ss_priv = rand_bytes tsc 0 32, ss_random = rand_bytes tsc 2 32, ss_id = rand_bytes tsc 4 32,
            ss_anchors = anchors, ss_now = now\<rparr>
          \<lparr>rq_host = host, rq_method = ascii ''GET'', rq_path = path, rq_type = [], rq_body = [], rq_cap = cap\<rparr>
          (tcp_content (conn, s2)) page)"

lemma http_hops_trust:
  "http_hops https gw dns cap k host path st = Some (r, st') \<Longrightarrow> trust st = - 1 \<Longrightarrow> trust st' = 1 \<Longrightarrow>
   asked gw dns cap h0 p0 s0 host path st \<Longrightarrow>
   \<exists>h p s page s'. sent_to_https gw dns cap h0 p0 s0 h p s \<and> https h p cap s = Some (Some page, s') \<and> r = Some page"
proof (induction k arbitrary: host path st)
  case (Suc k)
  obtain x st1 where d: "dns_resolve dns host st = Some (x, st1)" "utf8_ok host"
    using Suc.prems(1,2,3) by (auto split: if_splits option.splits)
  have t1: "trust st1 = - 1" using dns_resolve_trust [OF d(1)] Suc.prems(2) by simp
  obtain ip where ip: "x = Some ip" using Suc.prems(1,3) d t1 by (cases x) auto
  obtain y st2 where g: "tcp_http_get gw ip 80 host (if utf8_ok path then path else [47]) cap st1 = Some (y, st2)"
    using Suc.prems(1) d ip by (auto split: option.splits)
  have t2: "trust st2 = - 1" using tcp_http_get_trust [OF g] t1 by simp
  obtain page where page: "y = Some page" using Suc.prems(1,3) d ip g t2 by (cases y) auto
  have ans: "answered gw dns cap host path st page st2" unfolding answered_def using d ip g page by blast
  note e = Suc.prems(1) [unfolded http_hops.simps]
  show ?case
  proof (cases "case http_status page of Some code \<Rightarrow> 301 \<le> code \<and> code \<le> 308 \<and> code \<noteq> 304 \<and> 0 < k | None \<Rightarrow> False")
    case False
    then show ?thesis using e d ip g page Suc.prems(3) by (auto simp: set_trust_def)
  next
    case True
    then have red: "redirects page" by (auto simp: redirects_def split: option.splits)
    show ?thesis
    proof (cases "parse_location page 128 256")
      case None
      then show ?thesis using e d ip g page True Suc.prems(3) by (auto simp: set_trust_def)
    next
      case (Some loc)
      obtain https' nh np where loc: "loc = (https', nh, np)" by (cases loc) auto
      show ?thesis
      proof (cases https')
        case False
        then have "http_hops https gw dns cap k nh np st2 = Some (r, st')" using e d ip g page True Some loc by simp
        moreover have "asked gw dns cap h0 p0 s0 nh np st2"
          using asked_next [OF Suc.prems(4) ans red] Some loc False by simp
        ultimately show ?thesis using Suc.IH t2 Suc.prems(3) by blast
      next
        case https: True
        define h where "h = (if nh = [] \<or> \<not> utf8_ok nh then host else nh)"
        define p where "p = (if utf8_ok np then np else [47])"
        have "(if nh = [] then host else if utf8_ok nh then nh else host) = h" by (simp add: h_def)
        then have hp: "map_option (\<lambda>(r, st). (r, set_trust (if r \<noteq> None then 1 else - 1) st)) (https h p cap st2) = Some (r, st')"
          using e d ip g page True Some loc https by (simp add: Let_def p_def)
        then obtain s' where f: "https h p cap st2 = Some (r, s')" "trust st' = (if r \<noteq> None then 1 else - 1)"
          by (auto simp: set_trust_def)
        have "sent_to_https gw dns cap h0 p0 s0 h p st2"
          unfolding sent_to_https_def h_def p_def
          by (rule exI [of _ host], rule exI [of _ path], rule exI [of _ st], rule exI [of _ page], rule exI [of _ nh], rule exI [of _ np])
            (use Suc.prems(4) ans red Some loc https in simp)
        then show ?thesis using f Suc.prems(3) by (cases r) auto
      qed
    qed
  qed
qed simp

lemma emit_tcp_later: "emit_tcp n gw mac dst dport sq ack flags payload st = Some st' \<Longrightarrow> later st st' \<and> polls st' = polls st"
  by (auto simp: emit_tcp_def nic_send_def later_def split: option.splits)

lemma dns_resolve_later: "dns_resolve dns domain st = Some (r, st') \<Longrightarrow> later st st'"
  by (auto simp: dns_resolve_def split: option.splits Option.bind_splits
      dest!: poll_net_later intro: later_trans [OF later_send(1)]) (simp add: later_def)

lemma http_recv_later:
  assumes "\<And>rcv flags st st'. reply rcv flags st = Some st' \<Longrightarrow> nic_mac st' = nic_mac st"
  shows "http_recv reply cap n xs rcv got out st = Some (a, b, ys, st') \<Longrightarrow> suffix ys xs \<and> nic_mac st' = nic_mac st"
proof (induction xs arbitrary: n rcv got out st)
  case (Cons x xs)
  show ?case
  proof (cases "Option.bind x (\<lambda>rx. parse_tcp (take 1536 rx))")
    case None
    then show ?thesis using Cons by (auto split: if_splits intro: suffix_ConsI)
  next
    case (Some y)
    obtain sq ackn flags poff plen where y: "y = (sq, ackn, flags, poff, plen)" by (cases y) auto
    show ?thesis
      using Cons.prems Some y unfolding http_recv.simps Let_def
      by (auto split: if_splits option.splits Option.bind_splits intro: suffix_ConsI dest!: assms Cons.IH)
  qed
qed simp

lemma tcp_http_get_later:
  assumes "tcp_http_get gw ip port host path cap st = Some (r, st')"
  shows "later st st'"
proof (cases "nic_mac st")
  case None
  then show ?thesis using assms by (simp add: tcp_http_get_def later_def)
next
  case (Some mac)
  obtain st1 where 1: "emit_tcp 256 gw mac ip port 0x00012000 0 TCP_SYN [] st = Some st1"
    using assms Some by (auto simp: tcp_http_get_def Let_def split: Option.bind_splits)
  obtain q st2 where 2: "poll_net 10000000 1536 (syn_ack 0x00012000) st1 = (q, st2)" by force
  have l2: "later st st2" using emit_tcp_later [OF 1] poll_net_later [OF 2] later_trans by blast
  show ?thesis
  proof (cases "q = None \<or> q = Some None")
    case True
    then show ?thesis using assms Some 1 2 l2 by (auto simp: tcp_http_get_def Let_def)
  next
    case False
    then obtain ts where q: "q = Some (Some ts)" by (cases q) auto
    define emit where "emit = emit_tcp 256 gw mac ip port"
    define req where "req = http_request host path"
    define rp where "rp = (\<lambda>rcv flags. emit ((0x00012000 :: u32) + 1 + of_nat (length req)) rcv flags [])"
    obtain st3 st4 got out ps st5 where 3: "emit (0x00012000 + 1) (ts + 1) TCP_ACK [] st2 = Some st3"
      "emit (0x00012000 + 1) (ts + 1) (TCP_PSH OR TCP_ACK) req st3 = Some st4"
      "http_recv rp cap 15000000 (polls st4) (ts + 1) 0 [] st4 = Some (got, out, ps, st5)" "st' = st5\<lparr>polls := ps\<rparr>"
      using assms Some 1 2 q unfolding tcp_http_get_def Let_def emit_def req_def rp_def
      by (auto split: Option.bind_splits)
    have "suffix ps (polls st4) \<and> nic_mac st5 = nic_mac st4"
      using http_recv_later [OF _ 3(3)] emit_tcp_later unfolding rp_def emit_def later_def by blast
    moreover have "later st2 st4"
      using emit_tcp_later [OF 3(1) [unfolded emit_def]] emit_tcp_later [OF 3(2) [unfolded emit_def]] by (auto intro: later_trans)
    ultimately have "later st2 st'" unfolding 3(4) later_def by (auto intro: suffix_order.trans)
    then show ?thesis using l2 later_trans by blast
  qed
qed

lemma answered_later: "answered gw dns cap h p s page s' \<Longrightarrow> later s s'"
  unfolding answered_def using dns_resolve_later tcp_http_get_later later_trans by blast

lemma asked_later: "asked gw dns cap h0 p0 s0 h p s \<Longrightarrow> later s0 s"
proof (induction rule: asked.induct)
  case asked_first
  show ?case by (simp add: later_def)
next
  case (asked_next h p s page s' nh np)
  then show ?case using answered_later later_trans by blast
qed

lemma https_get_page:
  assumes "https_get tsc anchors now host path cap st = Some (Some page, st')" "length (polls st) \<le> 20000000"
  shows "tls_page tsc anchors now cap host path st page"
proof -
  define rq where "rq = \<lparr>rq_host = host, rq_method = ascii ''GET'', rq_path = path, rq_type = [], rq_body = [], rq_cap = cap\<rparr>"
  define ss where "ss = \<lparr>ss_priv = rand_bytes tsc 0 32, ss_random = rand_bytes tsc 2 32, ss_id = rand_bytes tsc 4 32,
    ss_anchors = anchors, ss_now = now\<rparr>"
  have h: "rq_host rq = host" by (simp add: rq_def)
  obtain ip s1 conn s2 s' where t: "resolve_host host st = Some (Some ip, s1)" "tcp_connect ip 443 s1 = Some (Some conn, s2)"
    "tls_session tcp_pipe ss rq (conn, s2) = Some (Some page, s')"
    using assms(1) unfolding https_get_def https_request_def rq_def [symmetric] Let_def ss_def [symmetric] h
    by (auto split: option.splits Option.bind_splits)
  have l1: "later st s1" using t(1) dns_resolve_later by (auto simp: resolve_host_def split: if_splits option.splits)
  have l2: "later s1 s2" "nic_mac s2 \<noteq> None" using tcp_connect_total [of ip 443 s1] t(2) by auto
  have "tcp_ok (conn, s2)" using later_length [OF l1] later_length [OF l2(1)] l2(2) assms(2) by (simp add: tcp_ok_def)
  from tcp.tls_session_sound [OF this t(3)] show ?thesis unfolding tls_page_def ss_def rq_def using t(1,2) by blast
qed

lemma position_prefix:
  "position p xs = Some k \<Longrightarrow> take k xs = takeWhile (\<lambda>x. \<not> p x) xs"
  "position p xs = None \<Longrightarrow> takeWhile (\<lambda>x. \<not> p x) xs = xs"
  by (induction xs arbitrary: k) (auto split: if_splits)

text \<open>
  C3: The trust indicator after \<open>http_get\<close> is 1 only when the page it returns is what an accepted TLS
  session delivered: the page is the response of a session, accepted in the sense of \<open>accepted\<close>, on the
  bytes received over the connection made to port 443 of the address its host resolved to, under the
  kernel's trust anchors and clock. For an https URL the host is that of the URL; for any other it is
  the one named by the https Location of a redirect that the plain client received, at the end of a
  chain of redirects that starts at the URL's host. The network has at most 20 million polls.
\<close>

theorem trust_means_authenticated:
  assumes "http_get (https_get tsc anchors now) target cap st = Some (r, st')" "trust st' = 1" "length (polls st) \<le> 20000000"
  shows "\<exists>page host path s. r = Some page \<and> tls_page tsc anchors now cap host path s page \<and>
    (if starts_with_ci target (ascii ''https://'')
     then host = takeWhile (\<lambda>b. b \<noteq> 47) (drop 8 target) \<and> s = set_trust (- 1) st
     else \<exists>gw dns p0. gw_mac st = Some gw \<and> dns_mac st = Some dns \<and>
       sent_to_https gw dns cap
         (take 128 (takeWhile (\<lambda>b. b \<noteq> 47) (if starts_with_ci target (ascii ''http://'') then drop 7 target else target)))
         p0 (set_trust (- 1) st) host path s)"
proof -
  define st0 where "st0 = set_trust (- 1) st"
  have t0: "trust st0 = - 1" "length (polls st0) \<le> 20000000" using assms(3) by (simp_all add: st0_def set_trust_def)
  have up: "net_up st0" using assms t0 unfolding http_get_def Let_def st0_def [symmetric] by (auto split: if_splits)
  obtain gw dns where gd: "gw_mac st0 = Some gw" "dns_mac st0 = Some dns"
    using assms t0 up unfolding http_get_def Let_def st0_def [symmetric] by (cases "gw_mac st0"; cases "dns_mac st0") auto
  note e = assms(1) [unfolded http_get_def Let_def st0_def [symmetric] gd]
  show ?thesis
  proof (cases "starts_with_ci target (ascii ''https://'')")
    case True
    define rest where "rest = drop 8 target"
    define host where "host = takeWhile (\<lambda>b. b \<noteq> 47) rest"
    obtain path where m: "map_option (\<lambda>(r, st). (r, set_trust (if r \<noteq> None then 1 else - 1) st))
        (https_get tsc anchors now host path cap st0) = Some (r, st')"
      using e up True unfolding rest_def [symmetric]
      by (cases "position (\<lambda>b. b = 47) rest") (simp_all add: host_def position_prefix)
    then obtain page s' where p: "https_get tsc anchors now host path cap st0 = Some (Some page, s')" "r = Some page"
      using assms(2) by (cases r) (auto simp: set_trust_def)
    from https_get_page [OF p(1) t0(2)] show ?thesis
      using p(2) True unfolding host_def rest_def st0_def by auto
  next
    case False
    define rest where "rest = (if starts_with_ci target (ascii ''http://'') then drop 7 target else target)"
    define h0 where "h0 = take 128 (takeWhile (\<lambda>b. b \<noteq> 47) rest)"
    obtain p0 where h: "http_hops (https_get tsc anchors now) gw dns cap 6 h0 p0 st0 = Some (r, st')"
    proof (cases "position (\<lambda>b. b = 47) rest")
      case None
      then have "http_hops (https_get tsc anchors now) gw dns cap 6 h0 (take 256 [47]) st0 = Some (r, st')"
        using e up False unfolding h0_def position_prefix(2) [OF None] by (simp add: rest_def split: if_splits)
      then show thesis by (rule that)
    next
      case (Some i)
      then have "http_hops (https_get tsc anchors now) gw dns cap 6 h0 (take 256 (drop i rest)) st0 = Some (r, st')"
        using e up False unfolding h0_def position_prefix(1) [OF Some, symmetric] by (simp add: rest_def split: if_splits)
      then show thesis by (rule that)
    qed
    obtain host path s page s' where f: "sent_to_https gw dns cap h0 p0 st0 host path s"
      "https_get tsc anchors now host path cap s = Some (Some page, s')" "r = Some page"
      using http_hops_trust [OF h t0(1) assms(2) asked_first] by blast
    have "later st0 s" using f(1) asked_later answered_later later_trans unfolding sent_to_https_def by blast
    then have "length (polls s) \<le> 20000000" using later_length t0(2) le_trans by blast
    note pg = https_get_page [OF f(2) this]
    have g2: "gw_mac st = Some gw" "dns_mac st = Some dns" using gd by (simp_all add: st0_def set_trust_def)
    show ?thesis unfolding if_not_P [OF False]
      by (rule exI [of _ page], rule exI [of _ host], rule exI [of _ path], rule exI [of _ s], intro conjI f(3) pg,
          rule exI [of _ gw], rule exI [of _ dns], rule exI [of _ p0], intro conjI g2)
        (rule f(1) [unfolded h0_def rest_def st0_def])
  qed
qed

text \<open>A network that answers the name lookup, the SYN and the TLS client.\<close>

definition sample_dns :: bytes where
  "sample_dns = dns_response 0x1A2B 0x81 0x80 [0, 0, 0, 0] [] [sample_address] []"

definition dns_frame :: bytes where
  "dns_frame = replicate 12 0 @ [8, 0] @ replicate 9 0 @ [17] @ replicate 10 0
     @ [0, 53, 192, 1, 0, of_nat (8 + length sample_dns), 0, 0] @ sample_dns"

lemma dns_frame: "dns_reply 0x1A2B (take 1536 dns_frame) = Some [93, 184, 216, 34]"
proof -
  have r: "\<forall>r \<in> set [sample_address]. rr_ok r"
    using sample_names by (simp add: rr_ok_def sample_address_def)
  have f: "List.find is_address [sample_address] = Some sample_address" "rr_data sample_address = [93, 184, 216, 34]"
    by (simp_all add: is_address_def sample_address_def)
  have d: "parse_dns_a sample_dns 0x1A2B = Some [93, 184, 216, 34]"
    unfolding sample_dns_def
    by (subst dns_response_parsed) (use r f in \<open>simp_all del: find.simps\<close>)
  have l: "length sample_dns = 29" by (simp add: sample_dns_def dns_response_def rr_bytes_def sample_address_def)
  have t: "take 1536 dns_frame = dns_frame" by (simp add: dns_frame_def l)
  have u: "parse_udp_payload dns_frame DNS_PORT OUR_DNS_PORT = Some (42, 29)"
    by (simp add: parse_udp_payload_def dns_frame_def l be16_at_def nth_append PROTO_UDP_def DNS_PORT_def OUR_DNS_PORT_def Let_def)
  have s: "slice dns_frame 42 71 = sample_dns" by (simp add: dns_frame_def slice_def l)
  show ?thesis unfolding t dns_reply_def u using s d by simp
qed

lemma dns_resolve_answered:
  assumes "nic_mac st = Some mac" "polls st = Some fr # ps" "dns_reply 0x1A2B (take 1536 fr) = Some ip" "length domain \<le> 238"
  shows "\<exists>s. dns_resolve dns domain st = Some (Some ip, st\<lparr>polls := ps, sent := s\<rparr>)"
proof -
  obtain b n where q: "build_dns_query (replicate 256 0) domain 0x1A2B = Some (b, n)" "n \<le> 256"
    using dns_query_some [OF assms(4)] by blast
  obtain f m where u: "build_udp (replicate 512 0) dns mac OUR_IP DNS_IP OUR_DNS_PORT DNS_PORT (take n b) = Some (f, m)"
    using q(2) by (simp add: build_udp_def Let_def)
  show ?thesis using assms(1-3) q(1) u
    by (intro exI [of _ "sent st @ [take m f]"]) (simp add: dns_resolve_def poll_net_def nic_send_def)
qed

lemma tcp_connect_answered:
  assumes "net_up st" "gw_mac st = Some gw" "nic_mac st = Some mac" "polls st = Some fr # ps"
    "syn_ack 0x00C0FFEE (take 1600 fr) = Some (Some their_seq)"
  shows "\<exists>c s. tcp_connect ip port st = Some (Some c, st\<lparr>polls := ps, sent := s\<rparr>) \<and> c_rcv c = their_seq + 1 \<and> \<not> pending_fin c"
proof -
  have fit: "54 + length ([] :: bytes) \<le> 1600" by simp
  obtain f1 where f1: "emit_tcp 1600 gw mac ip port 0x00C0FFEE 0 TCP_SYN [] st = Some (st\<lparr>sent := sent st @ [f1]\<rparr>)"
    using emit_tcp_fits [OF fit] by blast
  define st1 where "st1 = st\<lparr>sent := sent st @ [f1], polls := ps\<rparr>"
  obtain f2 where f2: "emit_tcp 1600 gw mac ip port (0x00C0FFEE + 1) (their_seq + 1) TCP_ACK [] st1 = Some (st1\<lparr>sent := sent st1 @ [f2]\<rparr>)"
    using emit_tcp_fits [OF fit] by blast
  have p: "poll_net 15000000 1600 (syn_ack 0x00C0FFEE) (st\<lparr>sent := sent st @ [f1]\<rparr>) = (Some (Some their_seq), st1)"
    using assms(4,5) by (simp add: poll_net_def st1_def)
  show ?thesis using assms(1-3) f1 f2 p unfolding tcp_connect_def Let_def
    by (simp add: st1_def) (rule exI, rule refl)
qed

lemma trust_means_authenticated_witness:
  "\<exists>st path. trust (snd (the (http_get (https_get (\<lambda>i. of_nat i) [demo_der] 20250101000000) (ascii ''https://A'') 4096 st))) = 1 \<and>
     tls_page (\<lambda>i. of_nat i) [demo_der] 20250101000000 4096 [0x41] path (set_trust (- 1) st) [72, 105]"
proof -
  define tsc where "tsc = (\<lambda>i. of_nat i :: u64)"
  define rq where "rq = \<lparr>rq_host = [0x41], rq_method = ascii ''GET'', rq_path = [47], rq_type = [], rq_body = [], rq_cap = 4096\<rparr>"
  define ss where "ss = \<lparr>ss_priv = rand_bytes tsc 0 32, ss_random = rand_bytes tsc 2 32, ss_id = rand_bytes tsc 4 32,
    ss_anchors = [demo_der], ss_now = 20250101000000\<rparr>"
  obtain bs where b: "server_stream ss rq (replicate 32 4) (replicate 32 9) sample_msgs [72, 105] = Some bs"
    using server_stream_some by blast
  have "length bs \<le> 100000" using server_stream_length [OF b] sample_msgs_ok(3) by simp
  then obtain fs where fs: "tcp_ok (sample_conn, sample_net (map Some fs))" "tcp_content (sample_conn, sample_net (map Some fs)) = bs"
    "length fs \<le> 100000"
    using stream_exists by blast
  define st where "st = sample_net (Some dns_frame # Some (syn_ack_frame 0x00C0FFEE) # map Some fs)"
  define st0 where "st0 = set_trust (- 1) st"
  have st0: "net_up st0" "gw_mac st0 = Some BCAST" "dns_mac st0 = Some BCAST" "nic_mac st0 = Some BCAST"
    "polls st0 = Some dns_frame # Some (syn_ack_frame 0x00C0FFEE) # map Some fs"
    by (simp_all add: st0_def st_def sample_net_def set_trust_def)
  have "length [0x41 :: byte] \<le> 238" by simp
  then obtain s1 where r: "dns_resolve BCAST [0x41] st0 = Some (Some [93, 184, 216, 34], st0\<lparr>polls := Some (syn_ack_frame 0x00C0FFEE) # map Some fs, sent := s1\<rparr>)"
    using dns_resolve_answered [OF st0(4,5) dns_frame] by blast
  define st1 where "st1 = st0\<lparr>polls := Some (syn_ack_frame 0x00C0FFEE) # map Some fs, sent := s1\<rparr>"
  have sa: "syn_ack 0x00C0FFEE (take 1600 (syn_ack_frame 0x00C0FFEE)) = Some (Some 99)" by (simp add: syn_ack_frame)
  obtain c s2 where c: "tcp_connect [93, 184, 216, 34] 443 st1 = Some (Some c, st1\<lparr>polls := map Some fs, sent := s2\<rparr>)"
    "c_rcv c = 99 + 1" "\<not> pending_fin c"
    using tcp_connect_answered [of st1 BCAST BCAST "syn_ack_frame 0x00C0FFEE" "map Some fs" 99 "[93, 184, 216, 34]" 443] st0 sa
    by (auto simp: st1_def)
  define st2 where "st2 = st1\<lparr>polls := map Some fs, sent := s2\<rparr>"
  have ok: "tcp_ok (c, st2)" using fs(1) st0(4) by (simp add: tcp_ok_def st2_def st1_def sample_net_def)
  have cont: "tcp_content (c, st2) = bs" using fs(2) c(2,3) by (simp add: tcp_content_def st2_def sample_net_def sample_conn_def)
  have d10: "length (dec_digits (length (rq_body rq))) \<le> 10" by (simp add: rq_def dec_digits.simps)
  have val: "validate_chain (ss_anchors ss) (ss_now ss) [demo_der] (rq_host rq) = V_Ok" using demo_chain by (simp add: ss_def rq_def)
  obtain s' where s': "tls_session tcp_pipe ss rq (c, st2) = Some (Some [72, 105], s')"
    using tcp.tls_session_answers [OF ok d10 b [folded cont] _ _ sample_msgs_ok(1,2,3) val] by (auto simp: rq_def)
  have g: "https_get tsc [demo_der] 20250101000000 [0x41] [47] 4096 st0 = Some (Some [72, 105], snd (s_conn s'))"
    using r c(1) s' st0(1,3) unfolding https_get_def https_request_def Let_def rq_def [symmetric] ss_def [symmetric]
    by (simp add: resolve_host_def rq_def [THEN arg_cong, of rq_host] st1_def [symmetric] st2_def [symmetric])
  have u: "starts_with_ci (ascii ''https://A'') (ascii ''https://'')" "drop 8 (ascii ''https://A'') = [0x41]"
    by (simp_all add: starts_with_ci_def ascii_def)
  have h: "http_get (https_get tsc [demo_der] 20250101000000) (ascii ''https://A'') 4096 st = Some (Some [72, 105], set_trust 1 (snd (s_conn s')))"
    using g st0(1-3) u unfolding http_get_def Let_def st0_def [symmetric] by simp
  have t: "trust (set_trust 1 (snd (s_conn s'))) = 1" by (simp add: set_trust_def)
  have "length (polls st) \<le> 20000000" using fs(3) by (simp add: st_def sample_net_def)
  from trust_means_authenticated [OF h t this] u obtain path where
    "tls_page tsc [demo_der] 20250101000000 4096 [0x41] path (set_trust (- 1) st) [72, 105]" by auto
  then show ?thesis
    by (intro exI [of _ st] exI [of _ path]) (use h in \<open>simp add: tsc_def set_trust_def\<close>)
qed

end
