(* ===== verification/Ramfs.thy ===== *)
theory Ramfs
  imports Prelude
begin

text \<open>
  The initial RAM disk, kernel/src/ramfs.rs, and the descriptor table over it, kernel/src/vfs.rs.
  Memory is a function from addresses to bytes, because an inode holds a pointer into the archive and
  its contents are read there later; a slice is an address and a length.
\<close>

unbundle bit_operations_syntax

type_synonym memory = "nat \<Rightarrow> byte"

definition bytes_at :: "memory \<Rightarrow> nat \<Rightarrow> nat \<Rightarrow> bytes" where
  "bytes_at m a n = map (\<lambda>i. m (a + i)) [0..<n]"

text \<open>\<open>copy_nonoverlapping\<close> of the bytes \<open>xs\<close> to address \<open>a\<close>.\<close>

definition put_bytes :: "memory \<Rightarrow> nat \<Rightarrow> bytes \<Rightarrow> memory" where
  "put_bytes m a xs = (\<lambda>x. if a \<le> x \<and> x < a + length xs then xs ! (x - a) else m x)"

section \<open>The archive parser\<close>

definition MAX_INODES :: nat where "MAX_INODES = 64"

record inode =
  i_name :: bytes
  i_name_len :: nat
  i_data :: nat
  i_size :: nat

record ramfs =
  inodes :: "inode option list"
  inode_count :: nat
  deleted_mask :: u64

definition ramfs_zero :: ramfs where
  "ramfs_zero = \<lparr>inodes = replicate MAX_INODES None, inode_count = 0, deleted_mask = 0\<rparr>"

definition hex_digit :: "byte \<Rightarrow> u32" where
  "hex_digit b =
     (if 48 \<le> b \<and> b \<le> 57 then ucast (b - 48)
      else if 97 \<le> b \<and> b \<le> 102 then ucast (b - 97 + 10)
      else if 65 \<le> b \<and> b \<le> 70 then ucast (b - 65 + 10)
      else 0)"

definition parse_hex8 :: "bytes \<Rightarrow> u32" where
  "parse_hex8 s = foldl (\<lambda>v b. push_bit 4 v OR hex_digit b) 0 (take 8 s)"

definition align4 :: "nat \<Rightarrow> nat" where
  "align4 n = (n + 3) div 4 * 4"

text \<open>"070701" and "TRAILER!!!" with its NUL.\<close>

definition magic :: bytes where
  "magic = [48, 55, 48, 55, 48, 49]"

definition trailer :: bytes where
  "trailer = [84, 82, 65, 73, 76, 69, 82, 33, 33, 33, 0]"

definition add_inode :: "bytes \<Rightarrow> nat \<Rightarrow> nat \<Rightarrow> nat \<Rightarrow> ramfs \<Rightarrow> ramfs" where
  "add_inode name_bytes name_len data_ptr filesize fs =
     (if inode_count fs < MAX_INODES \<and> 0 < filesize then
        let copy_len = min name_len 63;
            n = blit (replicate 64 0) 0 (take copy_len name_bytes)
        in fs\<lparr>inodes := (inodes fs)[inode_count fs := Some \<lparr>i_name = n, i_name_len = copy_len, i_data = data_ptr, i_size = filesize\<rparr>],
              inode_count := inode_count fs + 1\<rparr>
      else fs)"

function init_loop :: "memory \<Rightarrow> nat \<Rightarrow> nat \<Rightarrow> nat \<Rightarrow> ramfs \<Rightarrow> ramfs" where
  "init_loop m base total_size off fs =
     (if off + 110 \<le> total_size then
        let hdr = bytes_at m (base + off) 110
        in if slice hdr 0 6 \<noteq> magic then fs
           else let namesize = unat (parse_hex8 (slice hdr 94 102));
                    filesize = unat (parse_hex8 (slice hdr 54 62));
                    off = off + 110
                in if total_size < off + namesize then fs
                   else let name_bytes = bytes_at m (base + off) namesize;
                            name_len = (case position (\<lambda>b. b = 0) name_bytes of Some k \<Rightarrow> k | None \<Rightarrow> namesize);
                            off = align4 (off + namesize);
                            data_ptr = base + off
                        in if name_len = 11 \<and> take 11 name_bytes = trailer then fs
                           else init_loop m base total_size (align4 (off + filesize))
                                  (add_inode name_bytes name_len data_ptr filesize fs)
      else fs)"
  by auto
termination by (relation "measure (\<lambda>(m, base, t, off, fs). t - off)") (auto simp: align4_def)

declare init_loop.simps [simp del]

definition ramfs_init :: "memory \<Rightarrow> nat \<Rightarrow> nat \<Rightarrow> ramfs \<Rightarrow> ramfs" where
  "ramfs_init m base total_size fs = init_loop m base total_size 0 (fs\<lparr>inode_count := 0\<rparr>)"

section \<open>Lookup and deletion\<close>

definition is_deleted :: "ramfs \<Rightarrow> nat \<Rightarrow> bool" where
  "is_deleted fs i \<longleftrightarrow> deleted_mask fs AND push_bit i 1 \<noteq> 0"

definition inode_at :: "ramfs \<Rightarrow> nat \<Rightarrow> inode option" where
  "inode_at fs i = (if MAX_INODES \<le> i then None else if is_deleted fs i then None else inodes fs ! i)"

definition ramfs_delete :: "nat \<Rightarrow> ramfs \<Rightarrow> bool \<times> ramfs" where
  "ramfs_delete i fs =
     (if MAX_INODES \<le> i \<or> inodes fs ! i = None then (False, fs)
      else if is_deleted fs i then (False, fs)
      else (True, fs\<lparr>deleted_mask := deleted_mask fs OR push_bit i 1\<rparr>))"

definition stored_name :: "inode \<Rightarrow> bytes" where
  "stored_name ino =
     (let name = take (i_name_len ino) (i_name ino) in if take 2 name = [46, 47] then drop 2 name else name)"

fun find_from :: "ramfs \<Rightarrow> bytes \<Rightarrow> nat list \<Rightarrow> (nat \<times> nat) option" where
  "find_from fs path [] = None"
| "find_from fs path (i # is) =
     (if is_deleted fs i then find_from fs path is
      else case inodes fs ! i of
             None \<Rightarrow> find_from fs path is
           | Some ino \<Rightarrow> if stored_name ino = path then Some (i_data ino, i_size ino) else find_from fs path is)"

definition ramfs_find :: "bytes \<Rightarrow> ramfs \<Rightarrow> (nat \<times> nat) option" where
  "ramfs_find path fs = find_from fs path [0..<inode_count fs]"

section \<open>The descriptor table\<close>

definition MAX_FDS :: nat where "MAX_FDS = 16"

definition FD_ERR :: u64 where "FD_ERR = - 1"

record fd_entry =
  e_data :: nat
  e_size :: nat
  e_pos :: nat

type_synonym fd_table = "fd_entry option list"

definition fd_zero :: fd_table where
  "fd_zero = replicate MAX_FDS None"

definition fd_open :: "ramfs \<Rightarrow> bytes \<Rightarrow> fd_table \<Rightarrow> u64 \<times> fd_table" where
  "fd_open fs path tab =
     (case ramfs_find path fs of
        None \<Rightarrow> (FD_ERR, tab)
      | Some (d, n) \<Rightarrow>
          (case List.find (\<lambda>fd. tab ! fd = None) [3..<MAX_FDS] of
             None \<Rightarrow> (FD_ERR, tab)
           | Some fd \<Rightarrow> (of_nat fd, tab[fd := Some \<lparr>e_data = d, e_size = n, e_pos = 0\<rparr>])))"

definition fd_close :: "u64 \<Rightarrow> fd_table \<Rightarrow> u64 \<times> fd_table" where
  "fd_close fd tab =
     (let i = unat fd
      in if i < 3 \<or> MAX_FDS \<le> i then (FD_ERR, tab)
         else if tab ! i \<noteq> None then (0, tab[i := None]) else (FD_ERR, tab))"

definition fd_read :: "u64 \<Rightarrow> nat \<Rightarrow> nat \<Rightarrow> memory \<Rightarrow> fd_table \<Rightarrow> u64 \<times> memory \<times> fd_table" where
  "fd_read fd buf len m tab =
     (let i = unat fd
      in if i < 3 \<or> MAX_FDS \<le> i then (FD_ERR, m, tab)
         else case tab ! i of
                None \<Rightarrow> (FD_ERR, m, tab)
              | Some e \<Rightarrow>
                  let avail = e_size e - e_pos e; n = min avail len
                  in if n = 0 then (0, m, tab)
                     else (of_nat n, put_bytes m buf (bytes_at m (e_data e + e_pos e) n), tab[i := Some (e\<lparr>e_pos := e_pos e + n\<rparr>)]))"

end
