(* ===== verification/Ramfs_Props.thy ===== *)
theory Ramfs_Props
  imports Ramfs
begin

text \<open>
  The RAM disk against archives as cpio writes them: the parser loads exactly the non-empty files, and
  the descriptor table over it serves their contents as a table of remaining bytes.
\<close>

unbundle bit_operations_syntax

section \<open>Memory\<close>

lemma length_bytes_at [simp]: "length (bytes_at m a n) = n"
  by (simp add: bytes_at_def)

lemma bytes_at_add: "bytes_at m a (n + k) = bytes_at m a n @ bytes_at m (a + n) k"
  by (simp add: bytes_at_def upt_add_eq_append [of 0 n k] map_upt_shift [of _ n k, simplified] add.assoc)

lemma bytes_at_part:
  assumes "bytes_at m a n = xs @ ys @ zs"
  shows "bytes_at m (a + length xs) (length ys) = ys"
proof -
  have n: "n = length xs + (length ys + length zs)" using arg_cong [OF assms, of length] by simp
  have "bytes_at m a n = bytes_at m a (length xs) @ bytes_at m (a + length xs) (length ys) @ bytes_at m (a + length xs + length ys) (length zs)"
    unfolding n bytes_at_add by simp
  then show ?thesis using assms by (metis append_eq_append_conv length_bytes_at)
qed

lemma bytes_at_slice: "i \<le> j \<Longrightarrow> j \<le> n \<Longrightarrow> slice (bytes_at m a n) i j = bytes_at m (a + i) (j - i)"
  by (rule nth_equalityI) (auto simp: nth_slice bytes_at_def add.assoc)

section \<open>Archives\<close>

text \<open>A hexadecimal digit, upper or lower case; eight of them, each in its own case, that read as \<open>n\<close>.\<close>

definition hex_char :: "bool \<Rightarrow> nat \<Rightarrow> byte" where
  "hex_char upper d = (if d < 10 then of_nat (48 + d) else if upper then of_nat (55 + d) else of_nat (87 + d))"

definition hex_field :: "nat \<Rightarrow> bytes \<Rightarrow> bool" where
  "hex_field n xs \<longleftrightarrow> length xs = 8 \<and>
     (\<forall>k < 8. xs ! k = hex_char True (n div 16 ^ (7 - k) mod 16) \<or> xs ! k = hex_char False (n div 16 ^ (7 - k) mod 16))"

record cpio_file =
  f_head :: bytes
  f_size :: bytes
  f_mid :: bytes
  f_nsize :: bytes
  f_check :: bytes
  f_name :: bytes
  f_content :: bytes

definition pad4 :: "nat \<Rightarrow> bytes" where
  "pad4 n = replicate (align4 n - n) 0"

definition file_ok :: "cpio_file \<Rightarrow> bool" where
  "file_ok f \<longleftrightarrow> length (f_head f) = 48 \<and> length (f_mid f) = 32 \<and> length (f_check f) = 8 \<and> 0 \<notin> set (f_name f) \<and>
     length (f_name f) + 1 < 2 ^ 32 \<and> length (f_content f) < 2 ^ 32 \<and>
     hex_field (length (f_content f)) (f_size f) \<and> hex_field (length (f_name f) + 1) (f_nsize f)"

definition file_header :: "cpio_file \<Rightarrow> bytes" where
  "file_header f = magic @ f_head f @ f_size f @ f_mid f @ f_nsize f @ f_check f"

definition file_entry :: "cpio_file \<Rightarrow> bytes" where
  "file_entry f = file_header f @ (f_name f @ [0]) @ pad4 (110 + length (f_name f) + 1) @ f_content f @ pad4 (length (f_content f))"

lemma hex_char_digit: "d < 16 \<Longrightarrow> hex_digit (hex_char upper d) = of_nat d"
proof -
  assume "d < 16"
  then have "d \<in> set [0..<16]" by simp
  then show ?thesis by (cases upper) (simp_all add: upt_rec, (elim disjE; simp add: hex_digit_def hex_char_def)+)
qed

lemma or_digit: "d < 16 \<Longrightarrow> v < 2 ^ 28 \<Longrightarrow> push_bit 4 (of_nat v :: u32) OR of_nat d = of_nat (v * 16 + d)"
proof -
  assume d: "d < 16" and v: "v < 2 ^ 28"
  have z: "push_bit 4 (of_nat v :: u32) AND of_nat d = 0"
  proof (rule bit_word_eqI)
    fix n assume "n < LENGTH(32)"
    have "\<not> bit (of_nat d :: u32) n" if "4 \<le> n"
    proof -
      have "d < 2 ^ n" using d that power_increasing [of 4 n "2 :: nat"] by simp
      then have "\<not> bit d n" by (simp add: bit_iff_odd)
      then show ?thesis by (simp add: bit_simps)
    qed
    then show "bit (push_bit 4 (of_nat v :: u32) AND of_nat d) n = bit 0 n" by (auto simp: bit_simps)
  qed
  have "push_bit 4 (of_nat v :: u32) OR of_nat d = push_bit 4 (of_nat v) + of_nat d"
    by (rule disjunctive_add_eq_or [symmetric, OF z])
  also have "\<dots> = of_nat (v * 16 + d)" by (simp add: push_bit_eq_mult)
  finally show ?thesis .
qed

lemma parse_hex_field:
  assumes "hex_field n xs" "n < 2 ^ 32"
  shows "unat (parse_hex8 xs) = n"
proof -
  have l: "length xs = 8" using assms(1) by (simp add: hex_field_def)
  have dig: "hex_digit (xs ! k) = of_nat (n div 16 ^ (7 - k) mod 16)" if "k < 8" for k
    using assms(1) that hex_char_digit [of "n div 16 ^ (7 - k) mod 16"] by (auto simp: hex_field_def)
  have step: "foldl (\<lambda>v b. push_bit 4 v OR hex_digit b) 0 (take k xs) = of_nat (n div 16 ^ (8 - k))" if "k \<le> 8" for k
    using that
  proof (induction k)
    case 0
    then show ?case using assms(2) by simp
  next
    case (Suc k)
    define v where "v = n div 16 ^ (8 - k)"
    have e: "8 - k = Suc (7 - k)" using Suc.prems by simp
    have v: "v < 2 ^ 28"
    proof -
      have "v \<le> n div 16" unfolding v_def e using div_le_mono2 [of 16 "16 ^ Suc (7 - k)" n] by simp
      then show ?thesis using assms(2) by simp
    qed
    have "v = n div 16 ^ (7 - k) div 16" unfolding v_def e by (simp only: power_Suc2 div_mult2_eq)
    then have m: "v * 16 + n div 16 ^ (7 - k) mod 16 = n div 16 ^ (7 - k)" by simp
    have t: "take (Suc k) xs = take k xs @ [xs ! k]" using Suc.prems l by (simp add: take_Suc_conv_app_nth)
    have "push_bit 4 (of_nat v :: u32) OR of_nat (n div 16 ^ (7 - k) mod 16) = of_nat (n div 16 ^ (7 - k))"
      using or_digit [OF _ v, of "n div 16 ^ (7 - k) mod 16"] unfolding m by simp
    then show ?case using Suc dig [of k] unfolding t by (simp add: v_def [symmetric])
  qed
  have "parse_hex8 xs = of_nat n" using step [of 8] l by (simp add: parse_hex8_def)
  then show ?thesis using assms(2) by (simp add: unat_of_nat)
qed

lemma align4_add: "4 dvd a \<Longrightarrow> align4 (a + b) = a + align4 b"
proof -
  assume "4 dvd a"
  then obtain k where "a = 4 * k" by (elim dvdE)
  moreover have "(4 * k + b + 3) div 4 = k + (b + 3) div 4" by (simp add: add.assoc)
  ultimately show ?thesis by (simp add: align4_def)
qed

lemma align4_ge: "n \<le> align4 n" "4 dvd align4 n"
  by (auto simp: align4_def)

lemma length_pad4 [simp]: "length (pad4 n) = align4 n - n"
  by (simp add: pad4_def)

lemma length_magic [simp]: "length magic = 6"
  by (simp add: magic_def)

lemma file_header_parts:
  assumes "file_ok f"
  shows "length (file_header f) = 110" "slice (file_header f) 0 6 = magic"
    "slice (file_header f) 54 62 = f_size f" "slice (file_header f) 94 102 = f_nsize f"
  using assms by (simp_all add: file_ok_def hex_field_def file_header_def slice_def)

lemma length_file_entry:
  assumes "file_ok f"
  shows "length (file_entry f) = align4 (110 + length (f_name f) + 1) + align4 (length (f_content f))" "4 dvd length (file_entry f)"
proof -
  show e: "length (file_entry f) = align4 (110 + length (f_name f) + 1) + align4 (length (f_content f))"
    using file_header_parts(1) [OF assms] align4_ge(1) [of "110 + length (f_name f) + 1"] align4_ge(1) [of "length (f_content f)"]
    by (simp add: file_entry_def)
  show "4 dvd length (file_entry f)" unfolding e using align4_ge(2) by (intro dvd_add)
qed

lemma name_position: "0 \<notin> set xs \<Longrightarrow> position (\<lambda>b. b = 0) (xs @ [0 :: byte]) = Some (length xs)"
  by (induction xs) auto

lemma not_trailer: "0 \<notin> set xs \<Longrightarrow> \<not> (length xs = 11 \<and> take 11 (xs @ [0]) = trailer)"
  by (auto simp: trailer_def)

text \<open>What the parser makes of the entries from address \<open>a\<close> on.\<close>

fun load_files :: "cpio_file list \<Rightarrow> nat \<Rightarrow> ramfs \<Rightarrow> ramfs" where
  "load_files [] a fs = fs"
| "load_files (f # files) a fs =
     load_files files (a + length (file_entry f))
       (add_inode (f_name f @ [0]) (length (f_name f)) (a + align4 (110 + length (f_name f) + 1)) (length (f_content f)) fs)"

lemma init_loop_entry:
  assumes "file_ok f" "bytes_at m (base + off) (length (file_entry f)) = file_entry f" "4 dvd off" "off + length (file_entry f) \<le> t"
  shows "init_loop m base t off fs = init_loop m base t (off + length (file_entry f))
    (add_inode (f_name f @ [0]) (length (f_name f)) (base + (off + align4 (110 + length (f_name f) + 1))) (length (f_content f)) fs)"
proof -
  note h = file_header_parts [OF assms(1)]
  have n: "0 \<notin> set (f_name f)" "length (f_name f) + 1 < 2 ^ 32" "length (f_content f) < 2 ^ 32"
    "hex_field (length (f_content f)) (f_size f)" "hex_field (length (f_name f) + 1) (f_nsize f)"
    using assms(1) by (simp_all add: file_ok_def)
  have hdr: "bytes_at m (base + off) 110 = file_header f"
    using bytes_at_part [of m "base + off" _ "[]" "file_header f"] assms(2) h(1) by (simp add: file_entry_def)
  have name: "bytes_at m (base + (off + 110)) (length (f_name f) + 1) = f_name f @ [0]"
    using bytes_at_part [of m "base + off" _ "file_header f" "f_name f @ [0]"] assms(2) h(1) by (simp add: file_entry_def add.assoc)
  have sz: "unat (parse_hex8 (slice (file_header f) 94 102)) = length (f_name f) + 1"
    "unat (parse_hex8 (slice (file_header f) 54 62)) = length (f_content f)"
    unfolding h(3,4) using parse_hex_field n(2-5) by simp_all
  have len: "\<not> t < off + 110 + (length (f_name f) + 1)" "off + 110 \<le> t"
    using assms(4) length_file_entry(1) [OF assms(1)] align4_ge(1) [of "110 + length (f_name f) + 1"] by simp_all
  have al: "align4 (off + 110 + (length (f_name f) + 1)) = off + align4 (110 + length (f_name f) + 1)"
    using align4_add [OF assms(3), of "110 + length (f_name f) + 1"] by (simp add: ac_simps)
  have al2: "align4 (off + align4 (110 + length (f_name f) + 1) + length (f_content f)) = off + length (file_entry f)"
    unfolding length_file_entry(1) [OF assms(1)]
    using align4_add [of "off + align4 (110 + length (f_name f) + 1)" "length (f_content f)"] align4_ge(2) assms(3) by (simp add: dvd_add add.assoc)
  show ?thesis
    using len not_trailer [OF n(1)] name_position [OF n(1)]
    by (subst init_loop.simps) (simp only: hdr h(2) sz al al2 name Let_def if_True if_False simp_thms option.case)
qed

text \<open>What ends the archive: too little for a header, or no magic number.\<close>

definition no_entry :: "bytes \<Rightarrow> bool" where
  "no_entry tail \<longleftrightarrow> length tail < 110 \<or> take 6 tail \<noteq> magic"

lemma init_loop_end:
  assumes "bytes_at m (base + off) (length tail) = tail" "no_entry tail" "t = off + length tail"
  shows "init_loop m base t off fs = fs"
proof (cases "off + 110 \<le> t")
  case True
  then have l: "110 \<le> length tail" using assms(3) by simp
  have "bytes_at m (base + off) 110 = take 110 tail"
    using bytes_at_part [of m "base + off" "length tail" "[]" "take 110 tail" "drop 110 tail"] assms(1) l by simp
  then have "slice (bytes_at m (base + off) 110) 0 6 = take 6 tail" by (simp add: slice_def min_def)
  then show ?thesis using True l assms(2) by (subst init_loop.simps) (simp add: no_entry_def Let_def)
qed (subst init_loop.simps, simp)

lemma init_loop_files:
  assumes "\<forall>f \<in> set files. file_ok f" "no_entry tail" "4 dvd off"
    "bytes_at m (base + off) (length (concat (map file_entry files) @ tail)) = concat (map file_entry files) @ tail"
    "t = off + length (concat (map file_entry files) @ tail)"
  shows "init_loop m base t off fs = load_files files (base + off) fs"
  using assms
proof (induction files arbitrary: off fs)
  case Nil
  then show ?case using init_loop_end by simp
next
  case (Cons f files)
  define rest where "rest = concat (map file_entry files) @ tail"
  have f: "file_ok f" using Cons.prems(1) by simp
  have b: "bytes_at m (base + off) (length (file_entry f) + length rest) = file_entry f @ rest"
    using Cons.prems(4) by (simp add: rest_def add.assoc)
  have e: "bytes_at m (base + off) (length (file_entry f)) = file_entry f"
    using bytes_at_part [of m "base + off" _ "[]" "file_entry f" rest] b by simp
  have r: "bytes_at m (base + (off + length (file_entry f))) (length rest) = rest"
    using bytes_at_part [of m "base + off" _ "file_entry f" rest "[]"] b by (simp add: add.assoc)
  have t: "t = off + length (file_entry f) + length rest" using Cons.prems(5) by (simp add: rest_def)
  have d: "4 dvd off + length (file_entry f)" using Cons.prems(3) length_file_entry(2) [OF f] by (rule dvd_add)
  note i = init_loop_entry [OF f e Cons.prems(3)]
  show ?case
    using i [of t fs] t Cons.IH [OF _ Cons.prems(2) d r [unfolded rest_def] t [unfolded rest_def]] Cons.prems(1)
    by (simp add: add.assoc)
qed

section \<open>The files an archive gives\<close>

text \<open>The files on view: stored name and content of every inode that is not deleted, in order.\<close>

definition entry_view :: "memory \<Rightarrow> inode \<Rightarrow> bytes \<times> bytes" where
  "entry_view m ino = (stored_name ino, bytes_at m (i_data ino) (i_size ino))"

definition files_on_view :: "memory \<Rightarrow> ramfs \<Rightarrow> (bytes \<times> bytes) list" where
  "files_on_view m fs =
     map (\<lambda>i. entry_view m (the (inodes fs ! i))) (filter (\<lambda>i. \<not> is_deleted fs i) [0..<inode_count fs])"

text \<open>Every inode below the count is there, and no other.\<close>

definition ramfs_wf :: "ramfs \<Rightarrow> bool" where
  "ramfs_wf fs \<longleftrightarrow> length (inodes fs) = MAX_INODES \<and> inode_count fs \<le> MAX_INODES \<and>
     (\<forall>i < MAX_INODES. inodes fs ! i \<noteq> None \<longleftrightarrow> i < inode_count fs)"

lemma find_from_map_of:
  assumes "\<forall>i \<in> set is. inodes fs ! i \<noteq> None"
  shows "map_option (\<lambda>(a, n). bytes_at m a n) (find_from fs path is) =
    map_of (map (\<lambda>i. entry_view m (the (inodes fs ! i))) (filter (\<lambda>i. \<not> is_deleted fs i) is)) path"
  using assms by (induction "is") (auto simp: entry_view_def)

lemma ramfs_find_map_of:
  assumes "ramfs_wf fs"
  shows "map_option (\<lambda>(a, n). bytes_at m a n) (ramfs_find path fs) = map_of (files_on_view m fs) path"
proof -
  have "\<forall>i \<in> set [0..<inode_count fs]. inodes fs ! i \<noteq> None"
    using assms by (auto simp: ramfs_wf_def)
  then show ?thesis unfolding ramfs_find_def files_on_view_def by (rule find_from_map_of)
qed

text \<open>A name as the table holds it: at most 63 bytes, without a leading "./".\<close>

definition table_name :: "bytes \<Rightarrow> bytes" where
  "table_name n = (let n = take 63 n in if take 2 n = [46, 47] then drop 2 n else n)"

lemma stored_name_added:
  assumes "length name = len"
  shows "stored_name \<lparr>i_name = blit (replicate 64 0) 0 (take (min len 63) (name @ [0])), i_name_len = min len 63,
    i_data = a, i_size = n\<rparr> = table_name name"
proof -
  have "take (min len 63) (blit (replicate 64 0) 0 (take (min len 63) (name @ [0]))) = take 63 name"
    using assms by (simp add: blit_def min_def)
  then show ?thesis by (simp add: stored_name_def table_name_def Let_def)
qed

definition pristine :: "ramfs \<Rightarrow> bool" where
  "pristine fs \<longleftrightarrow> ramfs_wf fs \<and> deleted_mask fs = 0"

lemma pristine_view: "pristine fs \<Longrightarrow> files_on_view m fs = map (\<lambda>i. entry_view m (the (inodes fs ! i))) [0..<inode_count fs]"
  by (simp add: pristine_def files_on_view_def is_deleted_def)

lemma add_inode_view:
  fixes a n :: nat and m :: memory
  assumes "pristine fs" "length name = len"
  defines "fs' \<equiv> add_inode (name @ [0]) len a n fs"
  shows "pristine fs'"
    "files_on_view m fs' = files_on_view m fs @ (if inode_count fs < MAX_INODES \<and> 0 < n then [(table_name name, bytes_at m a n)] else [])"
proof -
  define ino where "ino = \<lparr>i_name = blit (replicate 64 0) 0 (take (min len 63) (name @ [0])), i_name_len = min len 63, i_data = a, i_size = n\<rparr>"
  have e: "fs' = (if inode_count fs < MAX_INODES \<and> 0 < n
      then fs\<lparr>inodes := (inodes fs)[inode_count fs := Some ino], inode_count := inode_count fs + 1\<rparr> else fs)"
    by (simp add: fs'_def add_inode_def ino_def Let_def)
  have l: "length (inodes fs) = MAX_INODES" using assms(1) by (simp add: pristine_def ramfs_wf_def)
  show p: "pristine fs'"
    using assms(1) unfolding e pristine_def ramfs_wf_def by (auto simp: nth_list_update less_Suc_eq)
  have v: "entry_view m ino = (table_name name, bytes_at m a n)"
    using stored_name_added [OF assms(2)] by (simp add: entry_view_def ino_def)
  show "files_on_view m fs' = files_on_view m fs @ (if inode_count fs < MAX_INODES \<and> 0 < n then [(table_name name, bytes_at m a n)] else [])"
    unfolding pristine_view [OF p] pristine_view [OF assms(1)] using l v by (auto simp: e)
qed

lemma count_view: "pristine fs \<Longrightarrow> inode_count fs = length (files_on_view m fs)"
  by (simp add: pristine_view)

lemma load_files_view:
  assumes "pristine fs" "\<forall>f \<in> set files. file_ok f"
    "bytes_at m a (length (concat (map file_entry files))) = concat (map file_entry files)"
  shows "pristine (load_files files a fs) \<and>
    files_on_view m (load_files files a fs) =
      take MAX_INODES (files_on_view m fs @ map (\<lambda>f. (table_name (f_name f), f_content f)) (filter (\<lambda>f. f_content f \<noteq> []) files))"
  using assms
proof (induction files arbitrary: a fs)
  case Nil
  then show ?case using count_view [OF Nil.prems(1), of m] by (simp add: pristine_def ramfs_wf_def)
next
  case (Cons f files)
  define d where "d = a + align4 (110 + length (f_name f) + 1)"
  define fs2 where "fs2 = add_inode (f_name f @ [0]) (length (f_name f)) d (length (f_content f)) fs"
  define rest where "rest = concat (map file_entry files)"
  have f: "file_ok f" using Cons.prems(2) by simp
  have b: "bytes_at m a (length (file_entry f) + length rest) = file_entry f @ rest"
    using Cons.prems(3) by (simp add: rest_def)
  have r: "bytes_at m (a + length (file_entry f)) (length rest) = rest"
    using bytes_at_part [of m a _ "file_entry f" rest "[]"] b by simp
  have l: "length (file_header f @ (f_name f @ [0]) @ pad4 (110 + length (f_name f) + 1)) = align4 (110 + length (f_name f) + 1)"
    using file_header_parts(1) [OF f] align4_ge(1) [of "110 + length (f_name f) + 1"] by simp
  have data: "bytes_at m d (length (f_content f)) = f_content f"
    using bytes_at_part [of m a _ "file_header f @ (f_name f @ [0]) @ pad4 (110 + length (f_name f) + 1)" "f_content f"
        "pad4 (length (f_content f)) @ rest"] b
    unfolding l d_def by (simp add: file_entry_def)
  note v = add_inode_view [OF Cons.prems(1) refl, where name = "f_name f" and a = d and n = "length (f_content f)", folded fs2_def]
  have cnt: "inode_count fs = length (files_on_view m fs)" by (rule count_view [OF Cons.prems(1)])
  have le: "inode_count fs \<le> MAX_INODES" using Cons.prems(1) by (simp add: pristine_def ramfs_wf_def)
  have "pristine (load_files files (a + length (file_entry f)) fs2) \<and>
      files_on_view m (load_files files (a + length (file_entry f)) fs2) =
        take MAX_INODES (files_on_view m fs2 @ map (\<lambda>f. (table_name (f_name f), f_content f)) (filter (\<lambda>f. f_content f \<noteq> []) files))"
    using Cons.IH [OF v(1)] Cons.prems(2) r unfolding rest_def by simp
  moreover have "load_files (f # files) a fs = load_files files (a + length (file_entry f)) fs2"
    by (simp only: load_files.simps fs2_def d_def)
  ultimately show ?case using v(2) [of m] data cnt le by (auto simp: take_Cons')
qed

lemma pristine_zero: "pristine ramfs_zero" "files_on_view m ramfs_zero = []" "ramfs_zero\<lparr>inode_count := 0\<rparr> = ramfs_zero"
  by (simp_all add: pristine_def ramfs_wf_def ramfs_zero_def files_on_view_def)

lemma ramfs_init_view:
  assumes "\<forall>f \<in> set files. file_ok f" "no_entry tail"
    "bytes_at m base t = concat (map file_entry files) @ tail" "t = length (concat (map file_entry files) @ tail)"
  shows "pristine (ramfs_init m base t ramfs_zero)"
    "files_on_view m (ramfs_init m base t ramfs_zero) =
       take MAX_INODES (map (\<lambda>f. (table_name (f_name f), f_content f)) (filter (\<lambda>f. f_content f \<noteq> []) files))"
proof -
  have i: "ramfs_init m base t ramfs_zero = load_files files base ramfs_zero"
    unfolding ramfs_init_def pristine_zero(3) using init_loop_files [OF assms(1,2), of 0 m base t] assms(3,4) by simp
  have b: "bytes_at m base (length (concat (map file_entry files))) = concat (map file_entry files)"
    using bytes_at_part [of m base t "[]" "concat (map file_entry files)" tail] assms(3) by simp
  note l = load_files_view [OF pristine_zero(1) assms(1) b]
  show "pristine (ramfs_init m base t ramfs_zero)" using l unfolding i by simp
  show "files_on_view m (ramfs_init m base t ramfs_zero) =
       take MAX_INODES (map (\<lambda>f. (table_name (f_name f), f_content f)) (filter (\<lambda>f. f_content f \<noteq> []) files))"
    using l unfolding i pristine_zero(2) by simp
qed

text \<open>
  C22: The RAM disk serves the archive it was given: for every well-formed newc archive in memory,
  whatever its size fields are written in (capital or small hexadecimal letters) and whatever follows it, looking a path up gives the content of the first non-empty file of that name,
  names cut to 63 bytes and without a leading "./", among the first 64 non-empty files, and nothing
  for any other path. An empty file, and the TRAILER!!! entry like any other, leaves no inode, and
  what comes after the trailer is loaded as well.
\<close>

theorem ramfs_serves_archive:
  assumes "\<forall>f \<in> set files. file_ok f" "no_entry tail"
    "bytes_at m base t = concat (map file_entry files) @ tail" "t = length (concat (map file_entry files) @ tail)"
  shows "map_option (\<lambda>(a, n). bytes_at m a n) (ramfs_find path (ramfs_init m base t ramfs_zero)) =
    map_of (take 64 (map (\<lambda>f. (table_name (f_name f), f_content f)) (filter (\<lambda>f. f_content f \<noteq> []) files))) path"
proof -
  have "ramfs_wf (ramfs_init m base t ramfs_zero)" using ramfs_init_view(1) [OF assms] by (simp add: pristine_def)
  from ramfs_find_map_of [OF this, of m path] show ?thesis
    unfolding ramfs_init_view(2) [OF assms] MAX_INODES_def .
qed

text \<open>Fields as cpio writes them, in capital letters.\<close>

definition hex8 :: "nat \<Rightarrow> bytes" where
  "hex8 n = map (\<lambda>k. hex_char True (n div 16 ^ (7 - k) mod 16)) [0..<8]"

lemma hex8_field: "hex_field n (hex8 n)" "length (hex8 n) = 8"
  by (simp_all add: hex_field_def hex8_def)

definition demo_file :: "bytes \<Rightarrow> bytes \<Rightarrow> cpio_file" where
  "demo_file name content = \<lparr>f_head = replicate 48 48, f_size = hex8 (length content), f_mid = replicate 32 48,
     f_nsize = hex8 (length name + 1), f_check = replicate 8 48, f_name = name, f_content = content\<rparr>"

definition demo_files :: "cpio_file list" where
  "demo_files = [demo_file [46, 47, 97] [1, 2, 3], demo_file (butlast trailer) [], demo_file [97] (replicate 10 4), demo_file [98] [5, 6]]"

definition demo_memory :: memory where
  "demo_memory = (\<lambda>x. let bs = concat (map file_entry demo_files) in if 4096 \<le> x \<and> x < 4096 + length bs then bs ! (x - 4096) else 0)"

lemma demo_archive:
  "\<forall>f \<in> set demo_files. file_ok f" "no_entry []"
  "bytes_at demo_memory 4096 (length (concat (map file_entry demo_files))) = concat (map file_entry demo_files) @ []"
proof -
  show "\<forall>f \<in> set demo_files. file_ok f" by (simp add: demo_files_def demo_file_def file_ok_def trailer_def hex8_field)
  show "no_entry []" by (simp add: no_entry_def)
  show "bytes_at demo_memory 4096 (length (concat (map file_entry demo_files))) = concat (map file_entry demo_files) @ []"
    by (rule nth_equalityI) (simp_all add: bytes_at_def demo_memory_def Let_def)
qed

lemma ramfs_serves_archive_witness:
  "map_option (\<lambda>(a, n). bytes_at demo_memory a n)
     (ramfs_find [98] (ramfs_init demo_memory 4096 (length (concat (map file_entry demo_files))) ramfs_zero)) = Some [5, 6]"
  using ramfs_serves_archive [OF demo_archive, of "[98]"]
  by (simp add: demo_files_def demo_file_def table_name_def Let_def)

section \<open>The descriptor table\<close>

text \<open>What a program does with it, and what it sees: the result and the bytes put in its buffer.\<close>

datatype fd_op = Open bytes | Close u64 | Read u64 nat nat

fun fd_step :: "ramfs \<Rightarrow> fd_op \<Rightarrow> memory \<times> fd_table \<Rightarrow> (u64 \<times> bytes) \<times> memory \<times> fd_table" where
  "fd_step fs (Open path) (m, tab) = (let (r, tab) = fd_open fs path tab in ((r, []), m, tab))"
| "fd_step fs (Close fd) (m, tab) = (let (r, tab) = fd_close fd tab in ((r, []), m, tab))"
| "fd_step fs (Read fd buf len) (m, tab) =
     (let (r, m, tab) = fd_read fd buf len m tab in ((r, if r = FD_ERR then [] else bytes_at m buf (unat r)), m, tab))"

fun fd_run :: "ramfs \<Rightarrow> fd_op list \<Rightarrow> memory \<times> fd_table \<Rightarrow> (u64 \<times> bytes) list" where
  "fd_run fs [] s = []"
| "fd_run fs (p # ps) s = (let (out, s) = fd_step fs p s in out # fd_run fs ps s)"

text \<open>The specification: a table of what is left to read, over a map from paths to contents.\<close>

type_synonym fd_view = "nat \<Rightarrow> bytes option"

definition first_free :: "fd_view \<Rightarrow> nat option" where
  "first_free v = List.find (\<lambda>fd. v fd = None) [3..<MAX_FDS]"

fun spec_step :: "(bytes \<Rightarrow> bytes option) \<Rightarrow> fd_op \<Rightarrow> fd_view \<Rightarrow> (u64 \<times> bytes) \<times> fd_view" where
  "spec_step look (Open path) v =
     (case (look path, first_free v) of
        (Some c, Some fd) \<Rightarrow> ((of_nat fd, []), v(fd := Some c))
      | _ \<Rightarrow> ((FD_ERR, []), v))"
| "spec_step look (Close fd) v = (if v (unat fd) = None then ((FD_ERR, []), v) else ((0, []), v(unat fd := None)))"
| "spec_step look (Read fd buf len) v =
     (case v (unat fd) of
        None \<Rightarrow> ((FD_ERR, []), v)
      | Some c \<Rightarrow> ((of_nat (min (length c) len), take len c), v(unat fd := Some (drop len c))))"

fun spec_run :: "(bytes \<Rightarrow> bytes option) \<Rightarrow> fd_op list \<Rightarrow> fd_view \<Rightarrow> (u64 \<times> bytes) list" where
  "spec_run look [] v = []"
| "spec_run look (p # ps) v = (let (out, v) = spec_step look p v in out # spec_run look ps v)"

definition fd_view :: "memory \<Rightarrow> fd_table \<Rightarrow> fd_view" where
  "fd_view m tab fd =
     (if 3 \<le> fd \<and> fd < MAX_FDS then map_option (\<lambda>e. drop (e_pos e) (bytes_at m (e_data e) (e_size e))) (tab ! fd) else None)"

text \<open>Every slice the RAM disk hands out lies in \<open>R\<close>, and no buffer does.\<close>

definition data_in :: "nat set \<Rightarrow> nat \<Rightarrow> nat \<Rightarrow> bool" where
  "data_in R a n \<longleftrightarrow> n < 2 ^ 32 \<and> {a..<a + n} \<subseteq> R"

definition buffers_off :: "nat set \<Rightarrow> fd_op \<Rightarrow> bool" where
  "buffers_off R p \<longleftrightarrow> (case p of Read fd buf len \<Rightarrow> {buf..<buf + len} \<inter> R = {} | _ \<Rightarrow> True)"

definition tab_ok :: "nat set \<Rightarrow> fd_table \<Rightarrow> bool" where
  "tab_ok R tab \<longleftrightarrow> length tab = MAX_FDS \<and> (\<forall>e. Some e \<in> set tab \<longrightarrow> data_in R (e_data e) (e_size e) \<and> e_pos e \<le> e_size e)"

lemma put_bytes_off: "{b..<b + length xs} \<inter> {a..<a + n} = {} \<Longrightarrow> bytes_at (put_bytes m b xs) a n = bytes_at m a n"
  by (rule nth_equalityI) (auto simp: bytes_at_def put_bytes_def disjoint_iff)

lemma put_bytes_same: "bytes_at (put_bytes m b xs) b (length xs) = xs"
  by (rule nth_equalityI) (auto simp: bytes_at_def put_bytes_def)

lemma tab_okD: "tab_ok R tab \<Longrightarrow> i < MAX_FDS \<Longrightarrow> tab ! i = Some e \<Longrightarrow> data_in R (e_data e) (e_size e) \<and> e_pos e \<le> e_size e"
  unfolding tab_ok_def by (metis nth_mem)

lemma tab_ok_update: "tab_ok R tab \<Longrightarrow> (\<And>e. x = Some e \<Longrightarrow> data_in R (e_data e) (e_size e) \<and> e_pos e \<le> e_size e) \<Longrightarrow> tab_ok R (tab[i := x])"
  unfolding tab_ok_def using set_update_subset_insert by fastforce

lemma fd_view_update:
  "length tab = MAX_FDS \<Longrightarrow> 3 \<le> i \<Longrightarrow> i < MAX_FDS \<Longrightarrow>
   fd_view m (tab[i := x]) = (fd_view m tab)(i := map_option (\<lambda>e. drop (e_pos e) (bytes_at m (e_data e) (e_size e))) x)"
  by (auto simp: fd_view_def fun_eq_iff)

lemma fd_view_put:
  assumes "tab_ok R tab" "{b..<b + length xs} \<inter> R = {}"
  shows "fd_view (put_bytes m b xs) tab = fd_view m tab"
proof -
  have "bytes_at (put_bytes m b xs) (e_data e) (e_size e) = bytes_at m (e_data e) (e_size e)" if "tab ! i = Some e" "i < MAX_FDS" for i e
  proof (rule put_bytes_off)
    have "{e_data e..<e_data e + e_size e} \<subseteq> R" using tab_okD [OF assms(1) that(2,1)] by (simp add: data_in_def)
    then show "{b..<b + length xs} \<inter> {e_data e..<e_data e + e_size e} = {}" using assms(2) by blast
  qed
  then show ?thesis by (auto simp: fd_view_def fun_eq_iff split: option.splits cong: option.case_cong) (metis (no_types, lifting) option.map_cong0 option.set_cases)
qed

lemma first_free_view: "length tab = MAX_FDS \<Longrightarrow> List.find (\<lambda>fd. tab ! fd = None) [3..<MAX_FDS] = first_free (fd_view m tab)"
  unfolding first_free_def by (rule find_cong) (auto simp: fd_view_def)

text \<open>One step.\<close>

lemma fd_step_refines:
  assumes "tab_ok R tab" "buffers_off R p" "\<And>path a n. ramfs_find path fs = Some (a, n) \<Longrightarrow> data_in R a n"
    "look = (\<lambda>path. map_option (\<lambda>(a, n). bytes_at m a n) (ramfs_find path fs))"
    "fd_step fs p (m, tab) = (out, m', tab')"
  shows "spec_step look p (fd_view m tab) = (out, fd_view m' tab') \<and> tab_ok R tab' \<and> (\<forall>x \<in> R. m' x = m x)"
proof -
  have l: "length tab = MAX_FDS" using assms(1) by (simp add: tab_ok_def)
  show ?thesis
  proof (cases p)
    case (Open path)
    show ?thesis
    proof (cases "ramfs_find path fs")
      case None
      then show ?thesis using assms(1,4,5) Open by (auto simp: fd_open_def)
    next
      case (Some an)
      obtain a n where an: "an = (a, n)" by (cases an)
      show ?thesis
      proof (cases "first_free (fd_view m tab)")
        case None
        then show ?thesis using assms(1,4,5) Open Some an first_free_view [OF l, of m] by (auto simp: fd_open_def)
      next
        case (Some fd)
        then have fd: "3 \<le> fd" "fd < MAX_FDS" unfolding first_free_def by (auto simp: find_Some_iff nth_append dest!: nth_mem)
        have o: "out = (of_nat fd, [])" "m' = m" "tab' = tab[fd := Some \<lparr>e_data = a, e_size = n, e_pos = 0\<rparr>]"
          using assms(5) Open \<open>ramfs_find path fs = Some an\<close> an Some first_free_view [OF l, of m] by (auto simp: fd_open_def)
        have "look path = Some (bytes_at m a n)" using assms(4) \<open>ramfs_find path fs = Some an\<close> an by simp
        moreover have "tab_ok R tab'" unfolding o(3) using assms(3) \<open>ramfs_find path fs = Some an\<close> an
          by (intro tab_ok_update [OF assms(1)]) auto
        ultimately show ?thesis using Open Some fd_view_update [OF l fd] by (simp add: o)
      qed
    qed
  next
    case (Close fd)
    show ?thesis
    proof (cases "fd_view m tab (unat fd)")
      case None
      then show ?thesis using assms(1,5) Close by (auto simp: fd_close_def fd_view_def Let_def split: if_splits)
    next
      case (Some c)
      then have fd: "3 \<le> unat fd" "unat fd < MAX_FDS" "tab ! unat fd \<noteq> None" by (auto simp: fd_view_def split: if_splits)
      then have o: "out = (0, [])" "m' = m" "tab' = tab[unat fd := None]" using assms(5) Close by (auto simp: fd_close_def)
      have "tab_ok R (tab[unat fd := None])" by (rule tab_ok_update [OF assms(1)]) simp
      then show ?thesis using Close Some fd_view_update [OF l fd(1,2)] by (simp add: o)
    qed
  next
    case (Read fd buf len)
    show ?thesis
    proof (cases "fd_view m tab (unat fd)")
      case None
      then show ?thesis using assms(1,5) Read by (auto simp: fd_read_def fd_view_def Let_def split: if_splits)
    next
      case (Some c)
      then have fd: "3 \<le> unat fd" "unat fd < MAX_FDS" by (auto simp: fd_view_def split: if_splits)
      then obtain e where e: "tab ! unat fd = Some e" "c = drop (e_pos e) (bytes_at m (e_data e) (e_size e))"
        using Some by (auto simp: fd_view_def)
      have ok: "data_in R (e_data e) (e_size e)" "e_pos e \<le> e_size e" using tab_okD [OF assms(1) fd(2) e(1)] by simp_all
      define n where "n = min (length c) len"
      have lc: "length c = e_size e - e_pos e" unfolding e(2) by simp
      have "n \<le> e_size e" using lc by (simp add: n_def)
      then have small: "n < 2 ^ 32" using ok(1) unfolding data_in_def by linarith
      then have un: "unat (of_nat n :: u64) = n" by (simp add: unat_of_nat)
      have ne: "(of_nat n :: u64) \<noteq> FD_ERR"
      proof
        assume "(of_nat n :: u64) = FD_ERR"
        then have "n = unat FD_ERR" using un by simp
        then show False using small by (simp add: FD_ERR_def unsigned_minus_1_eq_mask mask_eq_exp_minus_1)
      qed
      have take: "bytes_at m (e_data e + e_pos e) n = take len c"
      proof -
        have "e_size e = e_pos e + length c" using lc ok(2) by simp
        then have "c = bytes_at m (e_data e + e_pos e) (length c)" unfolding e(2) by (metis append_eq_conv_conj bytes_at_add length_bytes_at)
        moreover have "length c = n + (length c - n)" by (simp add: n_def)
        ultimately have "take n c = bytes_at m (e_data e + e_pos e) n" by (metis append_eq_conv_conj bytes_at_add length_bytes_at)
        then show ?thesis by (simp add: n_def min_def split: if_splits)
      qed
      show ?thesis
      proof (cases "n = 0")
        case True
        then have o: "out = (0, [])" "m' = m" "tab' = tab" using assms(5) Read fd e(1) lc n_def ne by (auto simp: fd_read_def Let_def bytes_at_def)
        have d: "drop len c = c" "take len c = []" using True by (auto simp: n_def min_def split: if_splits)
        have "(fd_view m tab)(unat fd := Some c) = fd_view m tab" using Some by (simp add: fun_upd_idem)
        then show ?thesis using Read Some True d assms(1) by (simp add: o n_def [symmetric])
      next
        case False
        define m2 where "m2 = put_bytes m buf (take len c)"
        define tab2 where "tab2 = tab[unat fd := Some (e\<lparr>e_pos := e_pos e + n\<rparr>)]"
        have nn: "min (e_size e - e_pos e) len = n" using lc by (simp add: n_def)
        have fr: "fd_read fd buf len m tab = (of_nat n, m2, tab2)"
          using fd e(1) nn False take by (simp add: fd_read_def Let_def m2_def tab2_def)
        have lt: "length (take len c) = n" by (simp add: n_def)
        have o: "out = (of_nat n, take len c)" "m' = m2" "tab' = tab2"
          using assms(5) Read fr ne un put_bytes_same [of m buf "take len c"] lt by (auto simp: m2_def)
        have "{buf..<buf + length (take len c)} \<subseteq> {buf..<buf + len}" by auto
        moreover have "{buf..<buf + len} \<inter> R = {}" using assms(2) Read by (simp add: buffers_off_def)
        ultimately have off: "{buf..<buf + length (take len c)} \<inter> R = {}" by blast
        have ok2: "tab_ok R tab2" unfolding tab2_def using ok lc by (intro tab_ok_update [OF assms(1)]) (auto simp: n_def)
        have "fd_view m2 tab2 = fd_view m tab2" unfolding m2_def by (rule fd_view_put [OF ok2 off])
        also have "\<dots> = (fd_view m tab)(unat fd := Some (drop (e_pos e + n) (bytes_at m (e_data e) (e_size e))))"
          unfolding tab2_def by (simp add: fd_view_update [OF l fd])
        also have "drop (e_pos e + n) (bytes_at m (e_data e) (e_size e)) = drop len c"
          unfolding e(2) drop_drop using lc by (cases "length c \<le> len") (simp_all add: n_def e(2) add.commute)
        finally have v: "fd_view m2 tab2 = (fd_view m tab)(unat fd := Some (drop len c))" .
        have "m2 x = m x" if "x \<in> R" for x
        proof -
          have "x \<notin> {buf..<buf + length (take len c)}" using off that by blast
          then show ?thesis unfolding m2_def put_bytes_def by (simp only: atLeastLessThan_iff if_False)
        qed
        then have "\<forall>x \<in> R. m2 x = m x" by blast
        then show ?thesis using Read Some v ok2 by (simp add: o n_def)
      qed
    qed
  qed
qed

text \<open>
  C20: The descriptor table is a table of what is left to read: for every sequence of opens, closes and
  reads whose buffers stay off the files, each call returns what the specification over the map from
  paths to contents returns, and each read delivers the bytes it says: descriptors are the lowest free ones
  from 3 to 15, reads of one descriptor deliver its file in order and without gaps whatever the others do,
  and every error is \<open>u64::MAX\<close> and changes nothing.
\<close>

theorem fd_table_refines:
  assumes "\<And>path a n. ramfs_find path fs = Some (a, n) \<Longrightarrow> data_in R a n" "\<forall>p \<in> set ps. buffers_off R p"
  shows "fd_run fs ps (m, fd_zero) = spec_run (\<lambda>path. map_option (\<lambda>(a, n). bytes_at m a n) (ramfs_find path fs)) ps (\<lambda>fd. None)"
proof -
  define look where "look = (\<lambda>path. map_option (\<lambda>(a, n). bytes_at m a n) (ramfs_find path fs))"
  have same: "look = (\<lambda>path. map_option (\<lambda>(a, n). bytes_at m2 a n) (ramfs_find path fs))" if "\<forall>x \<in> R. m2 x = m x" for m2
  proof
    fix path
    have "bytes_at m2 a n = bytes_at m a n" if "ramfs_find path fs = Some (a, n)" for a n
      using assms(1) [OF that] \<open>\<forall>x \<in> R. m2 x = m x\<close> by (auto simp: bytes_at_def data_in_def subset_iff)
    then show "look path = map_option (\<lambda>(a, n). bytes_at m2 a n) (ramfs_find path fs)"
      by (cases "ramfs_find path fs") (auto simp: look_def)
  qed
  have "fd_run fs ps (m2, tab) = spec_run look ps (fd_view m2 tab)" if "tab_ok R tab" "\<forall>x \<in> R. m2 x = m x" for m2 tab
    using assms(2) that
  proof (induction ps arbitrary: m2 tab)
    case (Cons p ps)
    obtain out m3 tab3 where s: "fd_step fs p (m2, tab) = (out, m3, tab3)" by (metis prod.collapse)
    have bo: "buffers_off R p" using Cons.prems(1) by simp
    note r = fd_step_refines [OF Cons.prems(2) bo assms(1) same [OF Cons.prems(3)] s]
    have "fd_run fs ps (m3, tab3) = spec_run look ps (fd_view m3 tab3)"
      using r Cons.prems by (intro Cons.IH) auto
    then show ?case using r s by simp
  qed simp
  moreover have "tab_ok R fd_zero" by (simp add: tab_ok_def fd_zero_def)
  moreover have "fd_view m fd_zero = (\<lambda>fd. None)" by (auto simp: fd_view_def fd_zero_def fun_eq_iff)
  ultimately show ?thesis unfolding look_def by metis
qed

definition demo_fs :: ramfs where
  "demo_fs = ramfs_zero\<lparr>inodes := (inodes ramfs_zero)[0 := Some \<lparr>i_name = 98 # replicate 63 0, i_name_len = 1, i_data = 8, i_size = 3\<rparr>],
     inode_count := 1\<rparr>"

lemma fd_table_refines_witness:
  "fd_run demo_fs [Open [98], Open [98], Read 3 100 2, Close 4, Read 3 200 9, Read 4 100 1] (\<lambda>x. of_nat x, fd_zero) =
     [(3, []), (4, []), (2, [8, 9]), (0, []), (1, [10]), (FD_ERR, [])]"
proof -
  have f: "ramfs_find path demo_fs = (if path = [98] then Some (8, 3) else None)" for path
    by (simp add: ramfs_find_def demo_fs_def ramfs_zero_def MAX_INODES_def is_deleted_def stored_name_def)
  have d: "data_in {8..<11} a n" if "ramfs_find path demo_fs = Some (a, n)" for path a n
    using that by (auto simp: f data_in_def split: if_splits)
  have b: "\<forall>p \<in> set [Open [98], Open [98], Read 3 100 2, Close 4, Read 3 200 9, Read 4 100 1]. buffers_off {8..<11} p"
    by (simp add: buffers_off_def)
  have ff: "first_free v = (if v 3 = None then Some 3 else if v 4 = None then Some 4 else List.find (\<lambda>fd. v fd = None) [5..<16])" for v
    by (simp add: first_free_def MAX_FDS_def upt_rec)
  have "fd_run demo_fs [Open [98], Open [98], Read 3 100 2, Close 4, Read 3 200 9, Read 4 100 1] (\<lambda>x. of_nat x, fd_zero) =
      spec_run (\<lambda>path. map_option (\<lambda>(a, n). bytes_at (\<lambda>x. of_nat x) a n) (ramfs_find path demo_fs))
        [Open [98], Open [98], Read 3 100 2, Close 4, Read 3 200 9, Read 4 100 1] (\<lambda>fd. None)"
    by (rule fd_table_refines [where R = "{8..<11}"]) (use d b in auto)
  then show ?thesis by (simp add: f ff bytes_at_def upt_rec)
qed

end
