(* ===== verification/Diskfs.thy ===== *)
theory Diskfs
  imports Rpfs_Mount
begin

text \<open>
  The kernel's disk filesystem, kernel/src/diskfs.rs: RPFS on the AHCI disk from sector 8192 on. The
  disk is a block device as an argument; the state is the static \<open>FS\<close>. Then what it promises across
  a reboot: whatever was done to the files, opening the disk again finds them as they were.
\<close>

definition FS_BASE :: nat where "FS_BASE = 8192"
definition DISK_SECTORS :: nat where "DISK_SECTORS = 256 * 1024 * 1024 div 512"

definition diskfs_init :: "'d block_dev \<Rightarrow> bool \<Rightarrow> 'd \<Rightarrow> 'd rpfs option \<Rightarrow> 'd rpfs option" where
  "diskfs_init ops ahci_ready d st = (if \<not> ahci_ready then st else Some (open_fs ops d FS_BASE DISK_SECTORS))"

definition diskfs_write_file :: "'d block_dev \<Rightarrow> bytes \<Rightarrow> bytes \<Rightarrow> 'd rpfs option \<Rightarrow> bool \<times> 'd rpfs option" where
  "diskfs_write_file ops name data st =
     (case st of Some f \<Rightarrow> (let (r, f) = write_file ops name data f in (r, Some f)) | None \<Rightarrow> (False, None))"

definition diskfs_read_file ::
  "'d block_dev \<Rightarrow> bytes \<Rightarrow> bytes \<Rightarrow> 'd rpfs option \<Rightarrow> nat option \<times> bytes \<times> 'd rpfs option" where
  "diskfs_read_file ops name out st =
     (case st of Some f \<Rightarrow> (let (r, out, f) = read_file ops name out f in (r, out, Some f)) | None \<Rightarrow> (None, out, None))"

definition diskfs_delete_file :: "'d block_dev \<Rightarrow> bytes \<Rightarrow> 'd rpfs option \<Rightarrow> bool \<times> 'd rpfs option" where
  "diskfs_delete_file ops name st =
     (case st of Some f \<Rightarrow> (let (r, f) = delete_file ops name f in (r, Some f)) | None \<Rightarrow> (False, None))"

definition diskfs_mkdir :: "'d block_dev \<Rightarrow> bytes \<Rightarrow> 'd rpfs option \<Rightarrow> bool \<times> 'd rpfs option" where
  "diskfs_mkdir ops name st =
     (case st of Some f \<Rightarrow> (let (r, f) = mkdir ops name f in (r, Some f)) | None \<Rightarrow> (False, None))"

definition diskfs_list_dir :: "(bytes \<Rightarrow> 's) \<Rightarrow> bytes \<Rightarrow> 'd rpfs option \<Rightarrow> 's dir_item list" where
  "diskfs_list_dir lossy path st = (case st of Some f \<Rightarrow> list_dir lossy path f | None \<Rightarrow> [])"

definition diskfs_is_ready :: "'d rpfs option \<Rightarrow> bool" where
  "diskfs_is_ready st = (case st of Some f \<Rightarrow> ready f | None \<Rightarrow> False)"

section \<open>The place of the filesystem never moves\<close>

definition placed :: "'d rpfs \<Rightarrow> nat \<times> nat \<times> nat" where
  "placed fs = (base fs, total_blocks fs, bitmap_sectors fs)"

lemma placed_upd [simp]:
  "placed (fs\<lparr>dev := d\<rparr>) = placed fs" "placed (fs\<lparr>dir := x\<rparr>) = placed fs" "placed (fs\<lparr>bitmap := b\<rparr>) = placed fs"
  "placed (fs\<lparr>scratch := s\<rparr>) = placed fs" "placed (fs\<lparr>ready := r\<rparr>) = placed fs"
  by (simp_all add: placed_def)

lemma placed_flush [simp]:
  "placed (flush_super ops fs) = placed fs" "placed (flush_dir_entry ops i fs) = placed fs" "placed (free_run s n fs) = placed fs"
  by (simp_all add: flush_super_def flush_dir_entry_def free_run_def Let_def)

lemma placed_flush_range [simp]: "placed (flush_bitmap_range ops s n fs) = placed fs"
proof -
  have "placed (flush_range_loop ops ss fs) = placed fs" for ss
    by (induction ops ss fs rule: flush_range_loop.induct) (simp_all add: Let_def)
  then show ?thesis by (simp add: flush_bitmap_range_def Let_def)
qed

lemma placed_flush_all [simp]: "placed (flush_dir_all ops fs) = placed fs" "placed (flush_bitmap_all ops fs) = placed fs"
proof -
  have "placed (flush_dir_loop ops k fs) = placed fs" for k
    by (induction ops k fs rule: flush_dir_loop.induct) (subst flush_dir_loop.simps, simp add: Let_def)
  then show "placed (flush_dir_all ops fs) = placed fs" by (simp add: flush_dir_all_def)
  have "placed (flush_bitmap_loop ops k fs) = placed fs" for k
    by (induction ops k fs rule: flush_bitmap_loop.induct) (subst flush_bitmap_loop.simps, simp add: Let_def)
  then show "placed (flush_bitmap_all ops fs) = placed fs" by (simp add: flush_bitmap_all_def)
qed

lemma placed_one [simp]: "placed (ensure_one ops p fs) = placed fs"
  by (simp add: ensure_one_def split: option.splits)

lemma placed_parents [simp]: "placed (ensure_parents ops name fs) = placed fs"
proof -
  have "placed (ensure_parents_loop ops name i fs) = placed fs" for i
    by (induction ops name i fs rule: ensure_parents_loop.induct)
      (subst ensure_parents_loop.simps, auto simp: Let_def split: option.splits)
  then show ?thesis by (simp add: ensure_parents_def)
qed

lemma placed_write_loop: "write_loop ops data s n b w fs = (r, fs') \<Longrightarrow> placed fs' = placed fs"
proof (induction ops data s n b w fs rule: write_loop.induct)
  case (1 ops data s n b w fs)
  show ?case
  proof (cases "b < n")
    case True
    obtain ok copy fs1 where c: "write_chunk ops data s (min (n - b) SCRATCH_SECTORS) b w fs = (ok, copy, fs1)" by (metis prod_cases3)
    then have p: "placed fs1 = placed fs" by (auto simp: write_chunk_def Let_def split: prod.splits)
    show ?thesis
    proof (cases ok)
      case True
      have "write_loop ops data s n (b + min (n - b) SCRATCH_SECTORS) (w + copy) fs1 = (r, fs')"
        using "1.prems" \<open>b < n\<close> c True by (subst (asm) write_loop.simps) (simp add: Let_def)
      then show ?thesis using "1.IH" [OF \<open>b < n\<close> refl c [symmetric] refl] True p by simp
    next
      case False
      then show ?thesis using "1.prems" \<open>b < n\<close> c p by (subst (asm) write_loop.simps) (simp add: Let_def)
    qed
  next
    case False
    then show ?thesis using "1.prems" by (subst (asm) write_loop.simps) simp
  qed
qed

lemma placed_alloc: "alloc_run n fs = (r, fs') \<Longrightarrow> placed fs' = placed fs"
  by (auto simp: alloc_run_def split: option.splits if_splits)

lemma placed_claim: "claim_slot ops name fs = Some (i, fs') \<Longrightarrow> placed fs' = placed fs"
  by (auto simp: claim_slot_def Let_def split: option.splits if_splits)

lemma placed_write: "write_file ops name data fs = (r, fs') \<Longrightarrow> placed fs' = placed fs"
  by (auto simp: write_file_def Let_def split: option.splits prod.splits if_splits bool.splits
      dest!: placed_claim placed_alloc placed_write_loop)

lemma placed_delete: "delete_file ops name fs = (r, fs') \<Longrightarrow> placed fs' = placed fs"
  by (auto simp: delete_file_def Let_def split: option.splits if_splits)

lemma placed_mkdir: "mkdir ops name fs = (r, fs') \<Longrightarrow> placed fs' = placed fs"
  by (auto simp: mkdir_def Let_def split: option.splits if_splits)

lemma placed_open_raw:
  assumes "\<not> (fst (snd (bd_read ops d bas 1 (replicate SECTOR 0))) \<and> take 8 (snd (snd (bd_read ops d bas 1 (replicate SECTOR 0)))) = MAGIC
    \<and> rd_u32 (snd (snd (bd_read ops d bas 1 (replicate SECTOR 0)))) 8 = VERSION)"
  shows "placed (open_fs ops d bas n) = (bas, geometry bas n)"
proof -
  obtain d1 ok sb where r: "bd_read ops d bas 1 (replicate SECTOR 0) = (d1, ok, sb)" by (metis prod_cases3)
  have c: "\<not> (ok \<and> take 8 sb = MAGIC \<and> rd_u32 sb 8 = VERSION)" using assms unfolding r by simp
  obtain nb bms where g: "geometry bas n = (nb, bms)" by (metis prod.collapse)
  have "placed (format_fs ops (blank_fs d1 bas nb bms)) = (bas, nb, bms)"
    by (simp add: format_fs_def Let_def) (simp add: placed_def blank_fs_def)
  then show ?thesis unfolding open_fs_def r g Let_def prod.case if_not_P [OF c] by simp
qed

section \<open>Across a reboot\<close>

text \<open>What programs do to the disk, and what it means for the map from names to contents.\<close>

datatype disk_op = Write bytes bytes | Delete bytes | Mkdir bytes

definition op_ok :: "disk_op \<Rightarrow> bool" where
  "op_ok p \<longleftrightarrow> (case p of Write n d \<Rightarrow> good_name n \<and> length d \<le> MAX_FILE | Delete n \<Rightarrow> True | Mkdir n \<Rightarrow> good_name n)"

fun disk_step :: "'d block_dev \<Rightarrow> disk_op \<Rightarrow> 'd rpfs option \<Rightarrow> bool \<times> 'd rpfs option" where
  "disk_step ops (Write n d) st = diskfs_write_file ops n d st"
| "disk_step ops (Delete n) st = diskfs_delete_file ops n st"
| "disk_step ops (Mkdir n) st = diskfs_mkdir ops n st"

fun disk_run :: "'d block_dev \<Rightarrow> disk_op list \<Rightarrow> 'd rpfs option \<Rightarrow> bool list \<times> 'd rpfs option" where
  "disk_run ops [] st = ([], st)"
| "disk_run ops (p # ps) st =
     (let (r, st) = disk_step ops p st; (rs, st) = disk_run ops ps st in (r # rs, st))"

fun op_effect :: "disk_op \<times> bool \<Rightarrow> (bytes \<Rightarrow> bytes option) \<Rightarrow> (bytes \<Rightarrow> bytes option)" where
  "op_effect (Write n d, r) fm = fm(n := if r then Some d else None)"
| "op_effect (Delete n, r) fm = (if r then fm(n := None) else fm)"
| "op_effect (Mkdir n, r) fm = fm"

context block_device
begin

lemma disk_step_spec:
  assumes "fs_inv sec nsec fs" "op_ok p" "disk_step ops p (Some fs) = (r, st)"
  shows "\<exists>fs'. st = Some fs' \<and> fs_inv sec nsec fs' \<and> placed fs' = placed fs \<and> lookup sec fs' = op_effect (p, r) (lookup sec fs)"
proof (cases p)
  case (Write n d)
  obtain fs' where w: "write_file ops n d fs = (r, fs')" "st = Some fs'"
    using assms(3) Write by (auto simp: diskfs_write_file_def split: prod.splits)
  show ?thesis using write_file_spec [OF assms(1) _ _ w(1)] placed_write [OF w(1)] assms(2) Write w(2) by (auto simp: op_ok_def)
next
  case (Delete n)
  obtain fs' where w: "delete_file ops n fs = (r, fs')" "st = Some fs'"
    using assms(3) Delete by (auto simp: diskfs_delete_file_def split: prod.splits)
  show ?thesis using delete_file_spec [OF assms(1) w(1)] placed_delete [OF w(1)] Delete w(2) by auto
next
  case (Mkdir n)
  obtain fs' where w: "mkdir ops n fs = (r, fs')" "st = Some fs'"
    using assms(3) Mkdir by (auto simp: diskfs_mkdir_def split: prod.splits)
  show ?thesis using mkdir_spec [OF assms(1) _ w(1)] placed_mkdir [OF w(1)] assms(2) Mkdir w(2) by (auto simp: op_ok_def)
qed

lemma disk_run_spec:
  assumes "fs_inv sec nsec fs" "\<forall>p \<in> set ps. op_ok p" "disk_run ops ps (Some fs) = (rs, st)"
  shows "\<exists>fs'. st = Some fs' \<and> fs_inv sec nsec fs' \<and> placed fs' = placed fs \<and>
    lookup sec fs' = fold op_effect (zip ps rs) (lookup sec fs)"
  using assms
proof (induction ps arbitrary: fs rs)
  case (Cons p ps)
  obtain r st1 where s: "disk_step ops p (Some fs) = (r, st1)" by (metis prod.collapse)
  obtain fs1 where 1: "st1 = Some fs1" "fs_inv sec nsec fs1" "placed fs1 = placed fs" "lookup sec fs1 = op_effect (p, r) (lookup sec fs)"
    using disk_step_spec [OF Cons.prems(1) _ s] Cons.prems(2) by auto
  obtain rs1 where 2: "disk_run ops ps (Some fs1) = (rs1, st)" "rs = r # rs1"
    using Cons.prems(3) s 1(1) by (auto split: prod.splits)
  show ?case using Cons.IH [OF 1(2) _ 2(1)] Cons.prems(2) 1(3,4) 2(2) by auto
qed auto

lemma disk_geometry: "geometry FS_BASE DISK_SECTORS = (515457, 126)"
proof -
  have "DISK_SECTORS < 4294967296" "FS_BASE + 1 + DIR_SECTORS + 2 \<le> DISK_SECTORS"
    by (simp_all add: DISK_SECTORS_def FS_BASE_def DIR_SECTORS_def DIR_ENTRIES_def ENTRY_SZ_def SECTOR_def)
  from geometry_eq(1) [OF this] show ?thesis
    by (simp add: DISK_SECTORS_def FS_BASE_def DIR_SECTORS_def DIR_ENTRIES_def ENTRY_SZ_def SECTOR_def)
qed

lemma reboot_spec:
  assumes "DISK_SECTORS \<le> nsec d" "take 8 (sec d FS_BASE) \<noteq> MAGIC \<or> rd_u32 (sec d FS_BASE) 8 \<noteq> VERSION"
    "\<forall>p \<in> set ps. op_ok p" "disk_run ops ps (diskfs_init ops True d None) = (rs, st)"
  shows "\<exists>fs fs2. st = Some fs \<and> diskfs_init ops True (dev fs) None = Some fs2 \<and> fs_inv sec nsec fs2 \<and>
    lookup sec fs2 = fold op_effect (zip ps rs) Map.empty"
proof -
  define fs0 where "fs0 = open_fs ops d FS_BASE DISK_SECTORS"
  have sz: "FS_BASE + 1 + DIR_SECTORS + 2 \<le> DISK_SECTORS" "DISK_SECTORS < 4294967296" "FS_BASE + 1 \<le> DISK_SECTORS"
    by (simp_all add: DISK_SECTORS_def FS_BASE_def DIR_SECTORS_def DIR_ENTRIES_def ENTRY_SZ_def SECTOR_def)
  have o: "fs_inv sec nsec fs0" "lookup sec fs0 = Map.empty"
    using open_unformatted [OF sz(1) assms(1) sz(2) assms(2)] by (simp_all add: fs0_def)
  have x: "xfer_ok nsec d FS_BASE 1 (replicate SECTOR 0)" using sz(3) assms(1) by (simp add: xfer_ok_def)
  have rd: "bd_read ops d FS_BASE 1 (replicate SECTOR 0) = (d, True, sec d FS_BASE)" using read_law [OF x] by (simp add: region_def)
  have p0: "placed fs0 = (FS_BASE, 515457, 126)"
    unfolding fs0_def using placed_open_raw [of ops d FS_BASE DISK_SECTORS] assms(2) disk_geometry by (simp add: rd [unfolded One_nat_def])
  obtain fs where 1: "st = Some fs" "fs_inv sec nsec fs" "placed fs = (FS_BASE, 515457, 126)" "lookup sec fs = fold op_effect (zip ps rs) Map.empty"
    using disk_run_spec [OF o(1) assms(3)] assms(4) o(2) p0 by (auto simp: diskfs_init_def fs0_def)
  have b: "base fs = FS_BASE" "bitmap_sectors fs = 126" using 1(3) by (simp_all add: placed_def)
  have r: "open_fs ops (dev fs) FS_BASE DISK_SECTORS = fs\<lparr>scratch := replicate (SCRATCH_SECTORS * SECTOR) 0\<rparr>"
    using open_remount [OF 1(2), of DISK_SECTORS] b by simp
  define fs2 where "fs2 = fs\<lparr>scratch := replicate (SCRATCH_SECTORS * SECTOR) 0\<rparr>"
  have "fs_inv sec nsec fs2" "lookup sec fs2 = lookup sec fs"
    using 1(2) by (auto simp: fs2_def fs_inv_def geom_ok_def bm_sync_def dir_sync_def lookup_def content_def fun_eq_iff split: option.splits)
  moreover have "diskfs_init ops True (dev fs) None = Some fs2" using r by (simp add: diskfs_init_def fs2_def)
  ultimately show ?thesis using 1(1,4) by metis
qed

end

text \<open>
  C2: Files survive a reboot. On a disk of at least 256 MiB without a filesystem the first boot formats
  it; whatever sequence of writes, deletions and directory creations follows, with whatever answers,
  opening the disk that is left again gives a filesystem in which every name reads back as the answers
  said: the data of its last successful write, cut to the buffer, and nothing for a name that was never
  written, was deleted, or whose last write failed.
\<close>

theorem disk_survives_reboot:
  assumes "block_device ops sec nsec" "DISK_SECTORS \<le> nsec d"
    "take 8 (sec d FS_BASE) \<noteq> MAGIC \<or> rd_u32 (sec d FS_BASE) 8 \<noteq> VERSION"
    "\<forall>p \<in> set ps. op_ok p" "disk_run ops ps (diskfs_init ops True d None) = (rs, st)"
  shows "\<exists>fs. st = Some fs \<and>
    (case fold op_effect (zip ps rs) Map.empty name of
       None \<Rightarrow> fst (diskfs_read_file ops name out (diskfs_init ops True (dev fs) None)) = None
     | Some data \<Rightarrow> let n = min (length data) (length out) in
         \<exists>st'. diskfs_read_file ops name out (diskfs_init ops True (dev fs) None) = (Some n, take n data @ drop n out, st'))"
proof -
  obtain fs fs2 where f: "st = Some fs" "diskfs_init ops True (dev fs) None = Some fs2" "fs_inv sec nsec fs2"
    "lookup sec fs2 = fold op_effect (zip ps rs) Map.empty"
    using block_device.reboot_spec [OF assms] by blast
  obtain scr where r: "read_file ops name out fs2 =
    (case lookup sec fs2 name of
       None \<Rightarrow> (None, out, fs2)
     | Some data \<Rightarrow> (Some (min (length data) (length out)),
          take (min (length data) (length out)) data @ drop (min (length data) (length out)) out, fs2\<lparr>scratch := scr\<rparr>))"
    using block_device.read_file_spec [OF assms(1) f(3)] by blast
  show ?thesis using f(1,2) r unfolding f(4) by (auto simp: diskfs_read_file_def Let_def split: option.splits)
qed

lemma blank_disk:
  "DISK_SECTORS \<le> ram_nsec (ram_new DISK_SECTORS)"
  "take 8 (ram_sec (ram_new DISK_SECTORS) FS_BASE) \<noteq> MAGIC \<or> rd_u32 (ram_sec (ram_new DISK_SECTORS) FS_BASE) 8 \<noteq> VERSION"
proof -
  show "DISK_SECTORS \<le> ram_nsec (ram_new DISK_SECTORS)" by (simp add: ram_nsec_def ram_new_def SECTOR_def)
  have s: "(1 :: nat) \<le> DISK_SECTORS - FS_BASE" by (simp add: DISK_SECTORS_def FS_BASE_def)
  have "take 8 (ram_sec (ram_new DISK_SECTORS) FS_BASE) = replicate 8 0"
    by (simp add: ram_sec_def ram_new_def slice_def SECTOR_def DISK_SECTORS_def FS_BASE_def)
  then show "take 8 (ram_sec (ram_new DISK_SECTORS) FS_BASE) \<noteq> MAGIC \<or> rd_u32 (ram_sec (ram_new DISK_SECTORS) FS_BASE) 8 \<noteq> VERSION"
    by (auto simp: MAGIC_def dest: arg_cong [where f = hd])
qed

lemma disk_survives_reboot_witness:
  "let ps = [Write [97] [1, 2, 3], Mkdir [98], Write [97] [4], Delete [97]];
       (rs, st) = disk_run ram_dev ps (diskfs_init ram_dev True (ram_new DISK_SECTORS) None)
   in \<exists>fs. st = Some fs \<and> fst (diskfs_read_file ram_dev [99] [] (diskfs_init ram_dev True (dev fs) None)) = None"
proof -
  define ps where "ps = [Write [97] [1, 2, 3], Mkdir [98], Write [97] [4], Delete [97]]"
  obtain rs st where r: "disk_run ram_dev ps (diskfs_init ram_dev True (ram_new DISK_SECTORS) None) = (rs, st)" by (metis prod.collapse)
  have ok: "\<forall>p \<in> set ps. op_ok p" by (simp add: ps_def op_ok_def good_name_def MAX_NAME_def MAX_FILE_def)
  have keep: "op_effect (p, b) fm [99] = fm [99]" if "p \<in> set ps" for p b fm using that by (auto simp: ps_def)
  have "fold op_effect (zip qs rs) fm [99] = fm [99]" if "set qs \<subseteq> set ps" for qs rs fm
    using that
  proof (induction qs arbitrary: rs fm)
    case (Cons q qs)
    then show ?case using keep by (cases rs) auto
  qed simp
  then have "fold op_effect (zip ps rs) Map.empty [99] = None" by simp
  then show ?thesis
    using disk_survives_reboot [OF ram.block_device_axioms blank_disk ok r, of "[99]" "[]"] r
    unfolding ps_def [symmetric] Let_def by simp
qed

end
