(* ===== verification/Disk_Space.thy ===== *)
theory Disk_Space
  imports Diskfs Rpfs_Props
begin

text \<open>
  Space on the disk: every entry takes exactly the blocks its content needs, and whatever sequence
  of operations ran, the blocks that are not free are those of the files that are there.
\<close>

section \<open>Entries hold no more blocks than their content needs\<close>

definition tight :: "bytes \<Rightarrow> bool" where
  "tight d \<longleftrightarrow> dir_ok d \<and> (\<forall>i \<in> files d. e_nblocks d i = max ((e_size d i + SECTOR - 1) div SECTOR) 1)"

lemma tight_set_entry:
  assumes "tight d" "i < DIR_ENTRIES" "good_name name" "-128 \<le> t" "t < 128" "s < 4294967296" "sz < 4294967296" "n < 4294967296"
    "k = K_DIR \<or> t \<noteq> 1 \<or> n = max ((sz + SECTOR - 1) div SECTOR) 1"
  shows "tight (set_entry i name k t s sz n d)"
proof -
  have d: "dir_ok d" using assms(1) by (simp add: tight_def)
  have "e_nblocks (set_entry i name k t s sz n d) j = max ((e_size (set_entry i name k t s sz n d) j + SECTOR - 1) div SECTOR) 1"
    if "j \<in> files (set_entry i name k t s sz n d)" for j
  proof (cases "j = i")
    case True
    then show ?thesis using that assms d by (auto simp: files_def is_file_def active_def set_entry_fields)
  next
    case False
    then have "j \<in> files d" using that assms(2-8) d by (auto simp: files_def is_file_def active_def set_entry_fields)
    moreover have "j < DIR_ENTRIES" using that by (simp add: files_def is_file_def active_def)
    ultimately show ?thesis using assms d False by (simp add: tight_def set_entry_fields)
  qed
  then show ?thesis using d assms(2) by (simp add: tight_def)
qed

lemma tight_tombstone:
  assumes "tight d" "i < DIR_ENTRIES"
  shows "tight (d[i * ENTRY_SZ + 112 := -1])"
proof -
  have d: "dir_ok d" using assms(1) by (simp add: tight_def)
  have "j \<in> files d" "j < DIR_ENTRIES" if "j \<in> files (d[i * ENTRY_SZ + 112 := -1])" for j
    using that tombstone_fields(1,2) [OF d assms(2), of j] by (auto simp: files_def is_file_def active_def split: if_splits)
  then show ?thesis using assms d tombstone_fields(5,6) [OF d assms(2)] by (auto simp: tight_def)
qed

lemma tight_one:
  assumes "tight (dir fs)" "good_name p"
  shows "tight (dir (ensure_one ops p fs))"
  using assms free_slot_Some [of "dir fs"]
  by (auto simp: ensure_one_def intro!: tight_set_entry split: option.splits)

lemma good_name_take: "good_name name \<Longrightarrow> 0 < k \<Longrightarrow> good_name (take k name)"
  using set_take_subset [of k name] by (auto simp: good_name_def)

lemma tight_parents:
  assumes "tight (dir fs)" "good_name name"
  shows "tight (dir (ensure_parents ops name fs))"
proof -
  have "tight (dir fs) \<Longrightarrow> tight (dir (ensure_parents_loop ops name idx fs))" for idx
    using assms(2)
  proof (induction ops name idx fs rule: ensure_parents_loop.induct)
    case (1 ops name idx fs)
    show ?case
    proof (cases "position (\<lambda>c. c = SLASH) (drop idx name)")
      case None
      then show ?thesis using "1.prems" by (subst ensure_parents_loop.simps) simp
    next
      case (Some pos)
      define fs' where "fs' = (if idx + pos > 0 then ensure_one ops (take (idx + pos) name) fs else fs)"
      have "tight (dir fs')" using tight_one [OF "1.prems"(1) good_name_take [OF "1.prems"(2)]] "1.prems" by (simp add: fs'_def)
      then have "tight (dir (ensure_parents_loop ops name (idx + pos + 1) fs'))"
        using "1.IH" [OF Some refl refl] "1.prems"(2) unfolding fs'_def by blast
      then show ?thesis using Some by (subst ensure_parents_loop.simps) (simp add: Let_def fs'_def)
    qed
  qed
  then show ?thesis using assms(1) by (simp add: ensure_parents_def)
qed

lemma dir_claim: "claim_slot ops name fs = Some (i, fs1) \<Longrightarrow> dir fs1 = dir fs \<and> i < DIR_ENTRIES"
  using free_slot_Some [of "dir fs" i] find_entry_Some [of "dir fs" name i]
  by (auto simp: claim_slot_def Let_def free_run_def active_def split: option.splits if_splits)

lemma dir_alloc: "alloc_run n fs = (r, fs') \<Longrightarrow> dir fs' = dir fs"
  by (auto simp: alloc_run_def split: option.splits if_splits)

lemma alloc_start: "alloc_run n fs = (Some s, fs') \<Longrightarrow> 0 < n \<Longrightarrow> s + n \<le> total_blocks fs"
  using alloc_scan_Some [of "bitmap fs" n "total_blocks fs" s] by (auto simp: alloc_run_def split: option.splits if_splits)

context block_device
begin

lemma tight_write:
  assumes "fs_inv sec nsec fs" "tight (dir fs)" "good_name name" "length data \<le> MAX_FILE" "write_file ops name data fs = (r, fs')"
  shows "tight (dir fs')"
proof -
  note bl = blocks_for_bounds [OF assms(4)]
  have tb: "total_blocks fs < 4294967296" using assms(1) by (simp add: fs_inv_def geom_ok_def)
  have need: "blocks_for data = max ((length data + SECTOR - 1) div SECTOR) 1"
    using assms(4) by (simp add: blocks_for_def as_u32_def MAX_FILE_def SECTOR_def)
  show ?thesis
  proof (cases "(\<not> ready fs \<or> name = [] \<or> length name > MAX_NAME \<or> length data > MAX_FILE) \<or> claim_slot ops name fs = None")
    case True
    then show ?thesis using assms(2,5) by (auto simp: write_file_def Let_def split: if_splits)
  next
    case False
    then obtain slot fs1 where c: "claim_slot ops name fs = Some (slot, fs1)" by auto
    obtain q fs2 where al: "alloc_run (blocks_for data) fs1 = (q, fs2)" by fastforce
    have d2: "dir fs2 = dir fs" "slot < DIR_ENTRIES" using dir_claim [OF c] dir_alloc [OF al] by auto
    show ?thesis
    proof (cases q)
      case None
      then have "fs' = flush_dir_entry ops slot (fs2\<lparr>dir := set_entry slot name K_FILE (-1) 0 0 0 (dir fs2)\<rparr>)"
        using False assms(5) c al by (auto simp: write_file_def Let_def)
      then show ?thesis using tight_set_entry [OF assms(2) d2(2) assms(3)] d2(1) by simp
    next
      case (Some start)
      obtain ok fs3 where w: "write_loop ops data start (blocks_for data) 0 0 fs2 = (ok, fs3)" by fastforce
      have d3: "dir fs3 = dir fs" using dir_write_loop [OF w] d2(1) by simp
      have "total_blocks fs1 = total_blocks fs" using claim_slot_effect(4) [OF assms(1) c] by auto
      then have st: "start < 4294967296" using alloc_start [OF al [unfolded Some] bl(1)] tb by simp
      show ?thesis
      proof (cases ok)
        case True
        define fs4 where "fs4 = ensure_parents ops name fs3"
        have "tight (dir fs4)" using tight_parents [of fs3 name ops] assms(2,3) d3 by (simp add: fs4_def)
        moreover have "dir fs' = set_entry slot name K_FILE 1 start (length data) (blocks_for data) (dir fs4)"
          using False assms(5) c al Some w True bl(4) by (auto simp: write_file_def Let_def fs4_def)
        ultimately show ?thesis
          using tight_set_entry [of "dir fs4" slot name 1 start "length data" "blocks_for data" K_FILE] d2(2) assms(3,4) st bl(2) need
          by (simp add: MAX_FILE_def)
      next
        case not_ok: False
        then have "fs' = fs3" using False assms(5) c al Some w by (auto simp: write_file_def Let_def)
        then show ?thesis using assms(2) d3 by simp
      qed
    qed
  qed
qed

lemma tight_delete:
  assumes "tight (dir fs)" "delete_file ops name fs = (r, fs')"
  shows "tight (dir fs')"
proof (cases "fs' = fs")
  case False
  then obtain i where i: "find_entry (dir fs) name = Some i"
    using assms(2) by (auto simp: delete_file_def split: if_splits option.splits)
  have "i < DIR_ENTRIES" using find_entry_Some [OF i] by (simp add: active_def)
  moreover have "dir fs' = (dir fs)[i * ENTRY_SZ + 112 := -1]"
    using assms(2) False i by (auto simp: delete_file_def Let_def free_run_def split: if_splits)
  ultimately show ?thesis using tight_tombstone [OF assms(1)] by simp
qed (use assms in simp)

lemma tight_mkdir:
  assumes "tight (dir fs)" "good_name name" "mkdir ops name fs = (r, fs')"
  shows "tight (dir fs')"
proof -
  have t: "tight (dir (ensure_parents ops name fs))" by (rule tight_parents [OF assms(1,2)])
  then have "tight (set_entry i name K_DIR 1 0 0 0 (dir (ensure_parents ops name fs)))"
    if "free_slot (dir (ensure_parents ops name fs)) = Some i" for i
    using tight_set_entry [OF t _ assms(2)] free_slot_Some [OF that] by simp
  then show ?thesis using assms(1,3) t by (auto simp: mkdir_def Let_def split: if_splits option.splits)
qed

lemma tight_run:
  assumes "fs_inv sec nsec fs" "tight (dir fs)" "\<forall>p \<in> set ps. op_ok p" "disk_run ops ps (Some fs) = (rs, Some fs')"
  shows "tight (dir fs')"
  using assms
proof (induction ps arbitrary: fs rs)
  case (Cons p ps)
  obtain r st1 where s: "disk_step ops p (Some fs) = (r, st1)" by (metis prod.collapse)
  obtain fs1 where 1: "st1 = Some fs1" "fs_inv sec nsec fs1"
    using disk_step_spec [OF Cons.prems(1) _ s] Cons.prems(3) by auto
  have ok: "op_ok p" using Cons.prems(3) by simp
  have "tight (dir fs1)"
  proof (cases p)
    case (Write n dt)
    then have "write_file ops n dt fs = (r, fs1)" using s 1(1) by (auto simp: diskfs_write_file_def split: prod.splits)
    then show ?thesis using tight_write [OF Cons.prems(1,2), of n dt r fs1] ok Write by (simp add: op_ok_def)
  next
    case (Delete n)
    then have "delete_file ops n fs = (r, fs1)" using s 1(1) by (auto simp: diskfs_delete_file_def split: prod.splits)
    then show ?thesis by (rule tight_delete [OF Cons.prems(2)])
  next
    case (Mkdir n)
    then have "mkdir ops n fs = (r, fs1)" using s 1(1) by (auto simp: diskfs_mkdir_def split: prod.splits)
    then show ?thesis using tight_mkdir [OF Cons.prems(2), of n r fs1] ok Mkdir by (simp add: op_ok_def)
  qed
  moreover obtain rs1 where "disk_run ops ps (Some fs1) = (rs1, Some fs')"
    using Cons.prems(4) s 1(1) by (auto split: prod.splits)
  ultimately show ?case using Cons.IH [OF 1(2)] Cons.prems(3) by simp
qed simp

section \<open>Free blocks and contents\<close>

lemma free_and_used:
  assumes "fs_inv sec nsec fs" "tight (dir fs)"
  shows "free_blocks fs + (\<Sum>n \<in> dom (lookup sec fs). max ((length (the (lookup sec fs n)) + SECTOR - 1) div SECTOR) 1)
    = total_blocks fs"
proof -
  let ?F = "files (dir fs)"
  have n: "names_ok (dir fs)" and a: "alloc_ok (total_blocks fs) (bitmap fs) (dir fs)" and g: "geom_ok nsec fs"
    using assms(1) by (auto simp: fs_inv_def)
  have fin: "finite ?F" by (rule finite_subset [of _ "{..<DIR_ENTRIES}"]) (auto simp: files_def is_file_def active_def)
  have inj: "inj_on (e_name (dir fs)) ?F" using n by (auto simp: inj_on_def names_ok_def files_def is_file_def)
  have look: "lookup sec fs (e_name (dir fs) i) = Some (content sec fs i)" if "i \<in> ?F" for i
    using that lookup_iff [OF n, of sec "e_name (dir fs) i"] by blast
  have dom: "dom (lookup sec fs) = e_name (dir fs) ` ?F"
    using lookup_iff [OF n, of sec] by (auto simp: dom_def image_iff)
  have len: "length (content sec fs i) = e_size (dir fs) i" if "i \<in> ?F" for i
  proof -
    have "e_start (dir fs) i + e_nblocks (dir fs) i \<le> total_blocks fs" "e_size (dir fs) i \<le> e_nblocks (dir fs) i * SECTOR"
      using a that by (auto simp: alloc_on_def)
    then show ?thesis using g by (simp add: content_def geom_ok_def)
  qed
  have "(\<Sum>n \<in> dom (lookup sec fs). max ((length (the (lookup sec fs n)) + SECTOR - 1) div SECTOR) 1)
      = (\<Sum>i \<in> ?F. max ((e_size (dir fs) i + SECTOR - 1) div SECTOR) 1)"
    unfolding dom sum.reindex [OF inj] by (rule sum.cong) (simp_all add: look len)
  also have "\<dots> = (\<Sum>i \<in> ?F. e_nblocks (dir fs) i)" by (rule sum.cong) (use assms(2) in \<open>simp_all add: tight_def\<close>)
  finally show ?thesis using alloc_on_count [OF a fin] by (simp add: free_blocks_def)
qed

lemma space_spec:
  assumes "DISK_SECTORS \<le> nsec d" "take 8 (sec d FS_BASE) \<noteq> MAGIC \<or> rd_u32 (sec d FS_BASE) 8 \<noteq> VERSION"
    "\<forall>p \<in> set ps. op_ok p" "disk_run ops ps (diskfs_init ops True d None) = (rs, st)"
    "fm = fold op_effect (zip ps rs) Map.empty"
  shows "\<exists>fs. st = Some fs \<and> free_blocks fs + (\<Sum>n \<in> dom fm. max ((length (the (fm n)) + SECTOR - 1) div SECTOR) 1) = 515457"
proof -
  define fs0 where "fs0 = open_fs ops d FS_BASE DISK_SECTORS"
  have sz: "FS_BASE + 1 + DIR_SECTORS + 2 \<le> DISK_SECTORS" "DISK_SECTORS < 4294967296" "FS_BASE + 1 \<le> DISK_SECTORS"
    by (simp_all add: DISK_SECTORS_def FS_BASE_def DIR_SECTORS_def DIR_ENTRIES_def ENTRY_SZ_def SECTOR_def)
  have o: "fs_inv sec nsec fs0" "lookup sec fs0 = Map.empty"
    using open_unformatted [OF sz(1) assms(1) sz(2) assms(2)] by (simp_all add: fs0_def)
  have "names_ok (dir fs0)" "dir_ok (dir fs0)" using o(1) by (simp_all add: fs_inv_def geom_ok_def)
  then have "files (dir fs0) = {}" "dir_ok (dir fs0)" using lookup_iff [of fs0 sec] o(2) by auto
  then have t0: "tight (dir fs0)" by (simp add: tight_def)
  have x: "xfer_ok nsec d FS_BASE 1 (replicate SECTOR 0)" using sz(3) assms(1) by (simp add: xfer_ok_def)
  have rd: "bd_read ops d FS_BASE 1 (replicate SECTOR 0) = (d, True, sec d FS_BASE)" using read_law [OF x] by (simp add: region_def)
  have p0: "placed fs0 = (FS_BASE, 515457, 126)"
    unfolding fs0_def using placed_open_raw [of ops d FS_BASE DISK_SECTORS] assms(2) disk_geometry by (simp add: rd [unfolded One_nat_def])
  have run: "disk_run ops ps (Some fs0) = (rs, st)" using assms(4) by (simp add: diskfs_init_def fs0_def)
  obtain fs where f: "st = Some fs" "fs_inv sec nsec fs" "placed fs = (FS_BASE, 515457, 126)" "lookup sec fs = fm"
    using disk_run_spec [OF o(1) assms(3) run] o(2) p0 assms(5) by auto
  have "tight (dir fs)" using tight_run [OF o(1) t0 assms(3)] run f(1) by simp
  then show ?thesis using free_and_used [OF f(2)] f(1,3,4) by (simp add: placed_def)
qed

end

text \<open>
  C21: No block is leaked. After the first boot of an empty disk of at least 256 MiB, and whatever
  sequence of writes, overwrites, deletions and directory creations with whatever answers, the free
  blocks of the bitmap and the blocks the contents of the files that are there need, one for each
  512 bytes begun and one for an empty file, add up to all 515457 blocks of the data region.
\<close>

theorem disk_no_block_leak:
  assumes "block_device ops sec nsec" "DISK_SECTORS \<le> nsec d"
    "take 8 (sec d FS_BASE) \<noteq> MAGIC \<or> rd_u32 (sec d FS_BASE) 8 \<noteq> VERSION"
    "\<forall>p \<in> set ps. op_ok p" "disk_run ops ps (diskfs_init ops True d None) = (rs, st)"
    "fm = fold op_effect (zip ps rs) Map.empty"
  shows "\<exists>fs. st = Some fs \<and> free_blocks fs + (\<Sum>n \<in> dom fm. max ((length (the (fm n)) + SECTOR - 1) div SECTOR) 1) = 515457"
  by (rule block_device.space_spec [OF assms])

text \<open>A file written, overwritten by a longer one and deleted leaves the whole disk free.\<close>

lemma disk_no_block_leak_witness:
  "\<exists>fs. snd (disk_run ram_dev [Write [97] [1, 2, 3], Write [97] (replicate 600 7), Delete [97]]
      (diskfs_init ram_dev True (ram_new DISK_SECTORS) None)) = Some fs \<and> (free_blocks fs = 515457 \<or> free_blocks fs = 515455)"
proof -
  define ps where "ps = [Write [97] [1, 2, 3], Write [97] (replicate 600 7), Delete [97]]"
  obtain rs st where r: "disk_run ram_dev ps (diskfs_init ram_dev True (ram_new DISK_SECTORS) None) = (rs, st)" by (metis prod.collapse)
  have ok: "\<forall>p \<in> set ps. op_ok p" by (simp add: ps_def op_ok_def good_name_def MAX_NAME_def MAX_FILE_def)
  define fm where "fm = fold op_effect (zip ps rs) Map.empty"
  obtain fs where f: "st = Some fs" "free_blocks fs + (\<Sum>n \<in> dom fm. max ((length (the (fm n)) + SECTOR - 1) div SECTOR) 1) = 515457"
    using disk_no_block_leak [OF ram.block_device_axioms blank_disk ok r fm_def] by blast
  have "length rs = 3" using r by (auto simp: ps_def split: prod.splits)
  then obtain a b c where rs: "rs = [a, b, c]" by (auto simp: length_Suc_conv eval_nat_numeral)
  have "fm = Map.empty \<or> fm = [[97] \<mapsto> replicate 600 7]" unfolding fm_def rs ps_def by auto
  then have "free_blocks fs = 515457 \<or> free_blocks fs = 515455" using f(2) by (elim disjE) (simp_all add: SECTOR_def)
  then show ?thesis using r f(1) unfolding ps_def by simp
qed

end
