(* ===== verification/Bump.thy ===== *)
theory Bump
  imports Prelude
begin

text \<open>
  The kernel's bump allocator, kernel/src/allocator.rs: the two atomics, one attempt of the
  compare-and-exchange loop of \<open>alloc\<close>, and the loop run by any number of interleaved callers, as a
  step relation. Addresses are natural numbers: a \<open>Layout\<close> has size and alignment below \<open>2 ^ 63\<close> and
  the heap lies below that, so no sum wraps; rounding up to a power of two by masking is division.
\<close>

definition HEAP_SIZE :: nat where "HEAP_SIZE = 1048576"

record bump =
  heap_start :: nat
  heap_next :: nat

definition bump_init :: "nat \<Rightarrow> bump" where
  "bump_init start = \<lparr>heap_start = start, heap_next = start\<rparr>"

definition bump_used :: "bump \<Rightarrow> nat" where
  "bump_used b = heap_next b - heap_start b"

text \<open>From \<open>cur\<close>, the block and the next free address; None when the heap is exhausted.\<close>

definition bump_attempt :: "nat \<Rightarrow> nat \<Rightarrow> nat \<Rightarrow> nat \<Rightarrow> (nat \<times> nat) option" where
  "bump_attempt start cur sz al =
     (let block = (cur + al - 1) div al * al; next_free = block + sz
      in if start + HEAP_SIZE < next_free then None else Some (block, next_free))"

text \<open>
  A caller is idle, or in the loop with the value of \<open>HEAP_NEXT\<close> it loaded. \<open>blocks\<close> are the blocks handed
  out, address and size, latest first; \<open>refused\<close> counts null pointers.
\<close>

datatype caller = Idle | Loaded nat nat nat

record alloc_state =
  atomics :: bump
  callers :: "nat \<Rightarrow> caller"
  blocks :: "(nat \<times> nat \<times> nat) list"
  refused :: nat

inductive alloc_step :: "alloc_state \<Rightarrow> alloc_state \<Rightarrow> bool" where
  call: "callers s t = Idle \<Longrightarrow> heap_start (atomics s) \<noteq> 0 \<Longrightarrow> 0 < al \<Longrightarrow>
    alloc_step s (s\<lparr>callers := (callers s)(t := Loaded (heap_next (atomics s)) sz al)\<rparr>)"
| uninit: "callers s t = Idle \<Longrightarrow> heap_start (atomics s) = 0 \<Longrightarrow>
    alloc_step s (s\<lparr>refused := refused s + 1\<rparr>)"
| full: "callers s t = Loaded cur sz al \<Longrightarrow> bump_attempt (heap_start (atomics s)) cur sz al = None \<Longrightarrow>
    alloc_step s (s\<lparr>callers := (callers s)(t := Idle), refused := refused s + 1\<rparr>)"
| won: "callers s t = Loaded cur sz al \<Longrightarrow> bump_attempt (heap_start (atomics s)) cur sz al = Some (block, next_free) \<Longrightarrow>
    heap_next (atomics s) = cur \<Longrightarrow>
    alloc_step s (s\<lparr>atomics := (atomics s)\<lparr>heap_next := next_free\<rparr>, callers := (callers s)(t := Idle),
                    blocks := (block, sz, al) # blocks s\<rparr>)"
| lost: "callers s t = Loaded cur sz al \<Longrightarrow> bump_attempt (heap_start (atomics s)) cur sz al = Some (block, next_free) \<Longrightarrow>
    heap_next (atomics s) \<noteq> cur \<Longrightarrow>
    alloc_step s (s\<lparr>callers := (callers s)(t := Loaded (heap_next (atomics s)) sz al)\<rparr>)"

definition alloc_initial :: "nat \<Rightarrow> alloc_state" where
  "alloc_initial start = \<lparr>atomics = bump_init start, callers = (\<lambda>t. Idle), blocks = [], refused = 0\<rparr>"

text \<open>Blocks from the latest to the first lie one below the other, aligned, up to the next free address.\<close>

fun stacked :: "nat \<Rightarrow> nat \<Rightarrow> (nat \<times> nat \<times> nat) list \<Rightarrow> bool" where
  "stacked lo hi [] \<longleftrightarrow> lo \<le> hi"
| "stacked lo hi ((b, sz, al) # bs) \<longleftrightarrow> b + sz \<le> hi \<and> al dvd b \<and> stacked lo b bs"

definition alloc_inv :: "nat \<Rightarrow> alloc_state \<Rightarrow> bool" where
  "alloc_inv start s \<longleftrightarrow> heap_start (atomics s) = start \<and> heap_next (atomics s) \<le> start + HEAP_SIZE \<and>
     stacked start (heap_next (atomics s)) (blocks s) \<and> (\<forall>t cur sz al. callers s t = Loaded cur sz al \<longrightarrow> 0 < al)"

lemma round_up:
  fixes al cur :: nat
  shows "0 < al \<Longrightarrow> cur \<le> (cur + al - 1) div al * al"
proof -
  assume al: "0 < al"
  have "cur + al - 1 = (cur + al - 1) div al * al + (cur + al - 1) mod al" by simp
  moreover have "(cur + al - 1) mod al \<le> al - 1" using al by (metis Suc_pred' less_Suc_eq_le mod_less_divisor)
  ultimately show ?thesis using al by linarith
qed

lemma attempt_Some:
  "bump_attempt start cur sz al = Some (block, nxt) \<Longrightarrow> 0 < al \<Longrightarrow>
   cur \<le> block \<and> al dvd block \<and> nxt = block + sz \<and> nxt \<le> start + HEAP_SIZE"
  using round_up [of al cur] by (auto simp: bump_attempt_def Let_def split: if_splits)

lemma stacked_mono: "stacked lo hi bs \<Longrightarrow> hi \<le> hi' \<Longrightarrow> stacked lo hi' bs"
  by (cases bs) auto

lemma alloc_step_inv: "alloc_step s s' \<Longrightarrow> alloc_inv start s \<Longrightarrow> alloc_inv start s'"
proof (induction rule: alloc_step.induct)
  case (won s t cur sz al block next_free)
  have al: "0 < al" using won.hyps(1) won.prems by (auto simp: alloc_inv_def)
  have a: "cur \<le> block" "al dvd block" "next_free = block + sz" "next_free \<le> start + HEAP_SIZE"
    using attempt_Some [OF won.hyps(2) al] won.prems by (auto simp: alloc_inv_def)
  have "stacked start block (blocks s)"
    using stacked_mono [OF _ a(1)] won.prems won.hyps(3) by (auto simp: alloc_inv_def)
  then show ?case using won.prems a by (auto simp: alloc_inv_def)
qed (auto simp: alloc_inv_def)

lemma stacked_le: "stacked lo hi bs \<Longrightarrow> lo \<le> hi"
  by (induction lo hi bs rule: stacked.induct) auto

lemma stacked_bounds: "stacked lo hi bs \<Longrightarrow> (b, sz, al) \<in> set bs \<Longrightarrow> lo \<le> b \<and> b + sz \<le> hi \<and> al dvd b"
proof (induction lo hi bs rule: stacked.induct)
  case (2 lo hi b' sz' al' bs)
  show ?case
  proof (cases "(b, sz, al) = (b', sz', al')")
    case True
    then show ?thesis using "2.prems"(1) stacked_le by auto
  next
    case False
    then have "lo \<le> b \<and> b + sz \<le> b' \<and> al dvd b" using 2 by auto
    then show ?thesis using "2.prems"(1) by auto
  qed
qed simp

lemma stacked_sum: "stacked lo hi bs \<Longrightarrow> lo + sum_list (map (\<lambda>(b, sz, al). sz) bs) \<le> hi"
  by (induction lo hi bs rule: stacked.induct) auto

lemma stacked_disjoint:
  "stacked lo hi bs \<Longrightarrow> i < j \<Longrightarrow> j < length bs \<Longrightarrow> bs ! i = (b1, s1, a1) \<Longrightarrow> bs ! j = (b2, s2, a2) \<Longrightarrow> b2 + s2 \<le> b1"
proof (induction lo hi bs arbitrary: i j rule: stacked.induct)
  case (2 lo hi b sz al bs)
  show ?case
  proof (cases i)
    case 0
    then have "(b2, s2, a2) \<in> set bs" using "2.prems" by (cases j) (auto, metis nth_mem)
    moreover have "b = b1" using "2.prems"(4) 0 by simp
    ultimately show ?thesis using stacked_bounds "2.prems"(1) by auto
  next
    case (Suc k)
    then show ?thesis using 2 by (cases j) auto
  qed
qed simp

text \<open>
  C27: Interleaved callers never share memory: in every state that any number of concurrent calls of
  \<open>alloc\<close> can reach, every block handed out lies in the heap and is aligned as asked, any two of them are
  disjoint, and the bytes in use are at least their sum.
\<close>

theorem bump_blocks_disjoint:
  assumes "alloc_step\<^sup>*\<^sup>* (alloc_initial start) s"
  shows "(\<forall>(b, sz, al) \<in> set (blocks s). start \<le> b \<and> b + sz \<le> start + HEAP_SIZE \<and> al dvd b) \<and>
    (\<forall>j < length (blocks s). \<forall>i < j. case (blocks s ! i, blocks s ! j) of ((b1, s1, _), (b2, s2, _)) \<Rightarrow>
       {b1..<b1 + s1} \<inter> {b2..<b2 + s2} = {}) \<and>
    sum_list (map (\<lambda>(b, sz, al). sz) (blocks s)) \<le> bump_used (atomics s)"
proof -
  have inv: "alloc_inv start s" using assms
  proof (induction rule: rtranclp_induct)
    case base
    then show ?case by (simp add: alloc_inv_def alloc_initial_def bump_init_def)
  qed (use alloc_step_inv in blast)
  then have st: "stacked start (heap_next (atomics s)) (blocks s)" "heap_next (atomics s) \<le> start + HEAP_SIZE" "heap_start (atomics s) = start"
    by (simp_all add: alloc_inv_def)
  have A: "\<forall>(b, sz, al) \<in> set (blocks s). start \<le> b \<and> b + sz \<le> start + HEAP_SIZE \<and> al dvd b"
    using stacked_bounds [OF st(1)] st(2) by fastforce
  have D: "case (blocks s ! i, blocks s ! j) of ((b1, s1, _), (b2, s2, _)) \<Rightarrow> {b1..<b1 + s1} \<inter> {b2..<b2 + s2} = {}"
    if ij: "i < j" "j < length (blocks s)" for i j
  proof -
    obtain b1 s1 a1 b2 s2 a2 where b: "blocks s ! i = (b1, s1, a1)" "blocks s ! j = (b2, s2, a2)"
      by (meson prod_cases3)
    then show ?thesis using stacked_disjoint [OF st(1) ij b] by simp
  qed
  have U: "sum_list (map (\<lambda>(b, sz, al). sz) (blocks s)) \<le> bump_used (atomics s)"
    using stacked_sum [OF st(1)] by (simp add: bump_used_def st(3))
  show ?thesis by (intro conjI A U allI impI D)
qed

lemma bump_blocks_disjoint_witness:
  "\<exists>s. alloc_step\<^sup>*\<^sup>* (alloc_initial 4096) s \<and> length (blocks s) = 1 \<and> bump_used (atomics s) = 100 \<and>
     (\<forall>(b, sz, al) \<in> set (blocks s). 4096 \<le> b \<and> b + sz \<le> 4096 + HEAP_SIZE \<and> al dvd b)"
proof -
  define s1 where "s1 = (alloc_initial 4096)\<lparr>callers := (callers (alloc_initial 4096))(0 := Loaded 4096 100 16)\<rparr>"
  define s2 where "s2 = s1\<lparr>callers := (callers s1)(1 := Loaded 4096 8 8)\<rparr>"
  define s3 where "s3 = s2\<lparr>atomics := (atomics s2)\<lparr>heap_next := 4196\<rparr>, callers := (callers s2)(0 := Idle), blocks := (4096, 100, 16) # blocks s2\<rparr>"
  define s4 where "s4 = s3\<lparr>callers := (callers s3)(1 := Loaded 4196 8 8)\<rparr>"
  have h: "heap_next (atomics (alloc_initial 4096)) = 4096" "heap_start (atomics (alloc_initial 4096)) = 4096"
    by (simp_all add: alloc_initial_def bump_init_def)
  have "alloc_step (alloc_initial 4096) s1"
    unfolding s1_def using call [of "alloc_initial 4096" 0 16 100] h by (simp add: alloc_initial_def)
  moreover have "alloc_step s1 s2"
    unfolding s2_def using call [of s1 1 8 8] h by (simp add: s1_def alloc_initial_def)
  moreover have "alloc_step s2 s3"
    unfolding s3_def using won [of s2 0 4096 100 16 4096 4196] h
    by (simp add: s1_def s2_def alloc_initial_def bump_attempt_def HEAP_SIZE_def)
  moreover have "alloc_step s3 s4"
    unfolding s4_def using lost [of s3 1 4096 8 8 4096 4104] h
    by (simp add: s1_def s2_def s3_def alloc_initial_def bump_attempt_def HEAP_SIZE_def bump_init_def)
  ultimately have r: "alloc_step\<^sup>*\<^sup>* (alloc_initial 4096) s4" by (meson converse_rtranclp_into_rtranclp rtranclp.rtrancl_refl)
  have "length (blocks s4) = 1" "bump_used (atomics s4) = 100"
    by (simp_all add: s4_def s3_def s2_def s1_def alloc_initial_def bump_init_def bump_used_def)
  then show ?thesis using r bump_blocks_disjoint [OF r] by blast
qed

end
