(* ===== verification/Sched.thy ===== *)
theory Sched
  imports Vmm
begin

text \<open>
  The scheduler, kernel/src/sched.rs: the process table and the accounting of idle time; the task table
  with one kernel stack per task, the priming of fresh stacks, the round robin choice, the cooperative
  switch, and the timer interrupt that preempts a task: the stub in assembler that saves and restores
  the whole register set around \<open>preempt_tick\<close>. The kernel stacks are cells of 64 bits by address; every
  stack pointer in the file is a multiple of 16 less a multiple of 8. Processor state that the code reads
  and writes besides the general registers is the record \<open>cpu\<close>.
\<close>

unbundle bit_operations_syntax

section \<open>The process table\<close>

definition MAX_PROCS :: nat where "MAX_PROCS = 16"

record proc_entry =
  p_pid :: u64
  p_state :: byte
  p_name :: bytes

record procs =
  proc_slots :: "proc_entry option list"
  current :: nat
  next_pid :: u64

definition procs_zero :: procs where
  "procs_zero = \<lparr>proc_slots = replicate MAX_PROCS None, current = 0, next_pid = 0\<rparr>"

text \<open>"idle".\<close>

definition procs_init :: "procs \<Rightarrow> procs" where
  "procs_init ps =
     ps\<lparr>proc_slots := (proc_slots ps)[0 := Some \<lparr>p_pid = 0, p_state = 0, p_name = blit (replicate 16 0) 0 [105, 100, 108, 101]\<rparr>],
        next_pid := 1, current := 0\<rparr>"

definition register :: "bytes \<Rightarrow> procs \<Rightarrow> u64 \<times> procs" where
  "register proc_name ps =
     (let pid = next_pid ps; ps = ps\<lparr>next_pid := next_pid ps + 1\<rparr>
      in if unat pid < MAX_PROCS then
           let len = min (length proc_name) 15;
               name = blit (replicate 16 0) 0 (take len proc_name)
           in (pid, ps\<lparr>proc_slots := (proc_slots ps)[unat pid := Some \<lparr>p_pid = pid, p_state = 1, p_name = name\<rparr>],
                       current := unat pid\<rparr>)
         else (pid, ps))"

definition current_pid :: "procs \<Rightarrow> u64" where
  "current_pid ps = (case proc_slots ps ! current ps of Some p \<Rightarrow> p_pid p | None \<Rightarrow> 0)"

text \<open>The records written to the buffer, and their number.\<close>

definition ps_record :: "proc_entry \<Rightarrow> bytes" where
  "ps_record p = map (\<lambda>i. ucast (drop_bit (8 * i) (p_pid p))) [0..<8] @ [p_state p] @ replicate 7 0 @ p_name p"

fun fill_ps_loop :: "nat \<Rightarrow> proc_entry option list \<Rightarrow> nat \<times> bytes \<Rightarrow> nat \<times> bytes" where
  "fill_ps_loop mx [] (count, buf) = (count, buf)"
| "fill_ps_loop mx (s # ss) (count, buf) =
     (if mx \<le> count then (count, buf)
      else case s of
             None \<Rightarrow> fill_ps_loop mx ss (count, buf)
           | Some p \<Rightarrow> fill_ps_loop mx ss (count + 1, buf @ ps_record p))"

definition fill_ps :: "nat \<Rightarrow> procs \<Rightarrow> nat \<times> bytes" where
  "fill_ps mx ps = fill_ps_loop mx (proc_slots ps) (0, [])"

section \<open>Idle time\<close>

record meter =
  idle_cycles :: u64
  win_start_tsc :: u64
  last_busy_pm :: u32

definition cpu_sample :: "u64 \<Rightarrow> meter \<Rightarrow> u32 \<times> meter" where
  "cpu_sample now m =
     (if win_start_tsc m = 0 then (last_busy_pm m, m\<lparr>win_start_tsc := now, idle_cycles := 0\<rparr>)
      else let total = now - win_start_tsc m;
               idle = min (idle_cycles m) total;
               pm = (if 0 < total then ucast ((total - idle) * 1000 div total) else 0)
           in (pm, m\<lparr>last_busy_pm := pm, win_start_tsc := now, idle_cycles := 0\<rparr>))"

text \<open>\<open>yield_\<close> halts from \<open>t0\<close> to \<open>t1\<close>.\<close>

definition yield_idle :: "u64 \<Rightarrow> u64 \<Rightarrow> meter \<Rightarrow> meter" where
  "yield_idle t0 t1 m = m\<lparr>idle_cycles := idle_cycles m + (t1 - t0)\<rparr>"

section \<open>The task table\<close>

definition MAX_TASKS :: nat where "MAX_TASKS = 4"
definition KSTACK_SIZE :: nat where "KSTACK_SIZE = 32 * 1024"

record task =
  t_rsp :: u64
  t_used :: bool
  t_alive :: bool
  t_cr3 :: u64
  t_gs_base :: u64

type_synonym stacks = "u64 \<Rightarrow> u64"

record sched =
  tasks :: "task list"
  cur_task :: nat
  task_linux :: "bool list"
  task_wine :: "bool list"
  task_calls :: "u64 list"
  preemptive_linux :: bool
  stacks :: stacks
  kstacks_base :: u64

definition no_task :: task where
  "no_task = \<lparr>t_rsp = 0, t_used = False, t_alive = False, t_cr3 = 0, t_gs_base = 0\<rparr>"

definition sched_zero :: "u64 \<Rightarrow> sched" where
  "sched_zero kb = \<lparr>tasks = replicate MAX_TASKS no_task, cur_task = 0, task_linux = replicate MAX_TASKS False,
     task_wine = replicate MAX_TASKS False, task_calls = replicate MAX_TASKS 0, preemptive_linux = False,
     stacks = (\<lambda>_. 0), kstacks_base = kb\<rparr>"

text \<open>\<open>TASKS[0] = Task { used: true, alive: true, .. }; CUR_TASK = 0\<close>: the boot thread becomes task 0.\<close>

definition adopt_boot_thread :: "u64 \<Rightarrow> sched \<Rightarrow> sched" where
  "adopt_boot_thread root sc =
     sc\<lparr>tasks := (tasks sc)[0 := \<lparr>t_rsp = 0, t_used = True, t_alive = True, t_cr3 = root, t_gs_base = 0\<rparr>], cur_task := 0\<rparr>"

definition mark_task_linux :: "nat \<Rightarrow> sched \<Rightarrow> sched" where
  "mark_task_linux i sc = sc\<lparr>task_linux := (task_linux sc)[i := True]\<rparr>"

definition mark_task_wine :: "nat \<Rightarrow> sched \<Rightarrow> sched" where
  "mark_task_wine i sc = sc\<lparr>task_wine := (task_wine sc)[i := True]\<rparr>"

definition exit_current_scheduled :: "sched \<Rightarrow> sched" where
  "exit_current_scheduled sc =
     sc\<lparr>tasks := (tasks sc)[cur_task sc := (tasks sc ! cur_task sc)\<lparr>t_alive := False\<rparr>]\<rparr>"

definition note_syscall :: "sched \<Rightarrow> sched" where
  "note_syscall sc =
     (let c = cur_task sc
      in if c < MAX_TASKS then sc\<lparr>task_calls := (task_calls sc)[c := task_calls sc ! c + 1]\<rparr> else sc)"

definition task_syscalls :: "nat \<Rightarrow> sched \<Rightarrow> u64" where
  "task_syscalls idx sc = (if idx < MAX_TASKS then task_calls sc ! idx else 0)"

definition kill_task :: "nat \<Rightarrow> sched \<Rightarrow> sched" where
  "kill_task idx sc =
     (if idx < MAX_TASKS \<and> idx \<noteq> 0
      then sc\<lparr>tasks := (tasks sc)[idx := (tasks sc ! idx)\<lparr>t_alive := False, t_used := False\<rparr>]\<rparr> else sc)"

section \<open>Fresh stacks\<close>

text \<open>The closure \<open>push\<close> of the spawn functions, and the top of a task's kernel stack.\<close>

definition push_cell :: "u64 \<Rightarrow> u64 \<times> stacks \<Rightarrow> u64 \<times> stacks" where
  "push_cell v = (\<lambda>(sp, st). (sp - 8, st(sp - 8 := v)))"

definition push_cells :: "u64 list \<Rightarrow> u64 \<times> stacks \<Rightarrow> u64 \<times> stacks" where
  "push_cells vs p = fold push_cell vs p"

definition kstack_top :: "sched \<Rightarrow> nat \<Rightarrow> u64" where
  "kstack_top sc i = (kstacks_base sc + of_nat (i * KSTACK_SIZE) + of_nat KSTACK_SIZE) AND NOT 0xF"

definition free_slot :: "sched \<Rightarrow> nat option" where
  "free_slot sc = find (\<lambda>i. \<not> t_used (tasks sc ! i)) [1..<MAX_TASKS]"

text \<open>Words pushed on the stack of slot \<open>i\<close>, from its top, and the slot's entry written.\<close>

definition start_task :: "nat \<Rightarrow> u64 list \<Rightarrow> u64 \<Rightarrow> u64 \<Rightarrow> sched \<Rightarrow> sched" where
  "start_task i ws root gs sc =
     (let (sp, st) = push_cells ws (kstack_top sc i, stacks sc)
      in sc\<lparr>stacks := st,
            tasks := (tasks sc)[i := \<lparr>t_rsp = sp, t_used = True, t_alive = True, t_cr3 = root, t_gs_base = gs\<rparr>]\<rparr>)"

text \<open>An \<open>iretq\<close> frame and fifteen zero registers.\<close>

definition fresh_frame :: "u64 \<Rightarrow> u64 \<Rightarrow> u64 \<Rightarrow> u64 \<Rightarrow> u64 list" where
  "fresh_frame ss rsp cs rip = [ss, rsp, 0x202, cs, rip] @ replicate 15 0"

definition spawn :: "u64 \<Rightarrow> sched \<Rightarrow> nat \<times> sched" where
  "spawn entry sc =
     (case free_slot sc of None \<Rightarrow> (0, sc) | Some i \<Rightarrow> (i, start_task i (entry # replicate 6 0) 0 0 sc))"

definition spawn_wine_thread :: "u64 \<Rightarrow> u64 \<Rightarrow> u64 \<Rightarrow> u64 \<Rightarrow> sched \<Rightarrow> nat \<times> sched" where
  "spawn_wine_thread root rip rsp gs sc =
     (case free_slot sc of
        None \<Rightarrow> (0, sc)
      | Some i \<Rightarrow> let sc = start_task i (fresh_frame 0x1b rsp 0x23 rip) root gs sc
                  in (i, sc\<lparr>task_wine := (task_wine sc)[i := True]\<rparr>))"

definition spawn_preempt :: "u64 \<Rightarrow> sched \<Rightarrow> nat \<times> sched" where
  "spawn_preempt entry sc =
     (case free_slot sc of
        None \<Rightarrow> (0, sc)
      | Some i \<Rightarrow> (i, start_task i (fresh_frame 0x10 (kstack_top sc i) 0x08 entry) 0 0 sc))"

definition spawn_preempt_as :: "u64 \<Rightarrow> sched \<times> mmu \<Rightarrow> nat \<times> sched \<times> mmu" where
  "spawn_preempt_as entry = (\<lambda>(sc, mm).
     let (i, sc) = spawn_preempt entry sc
     in if i \<noteq> 0 then
          (case new_address_space mm of
             (Some as, mm) \<Rightarrow> (i, sc\<lparr>tasks := (tasks sc)[i := (tasks sc ! i)\<lparr>t_cr3 := as\<rparr>]\<rparr>, mm)
           | (None, mm) \<Rightarrow> (i, sc, mm))
        else (i, sc, mm))"

section \<open>Choosing the next task\<close>

definition next_alive :: "sched \<Rightarrow> nat \<Rightarrow> nat" where
  "next_alive sc from =
     (case find (\<lambda>i. i = 0 \<or> (t_used (tasks sc ! i) \<and> t_alive (tasks sc ! i)))
             (map (\<lambda>off. (from + off) mod MAX_TASKS) [1..<MAX_TASKS + 1]) of
        Some i \<Rightarrow> i | None \<Rightarrow> 0)"

section \<open>Cooperative switching\<close>

text \<open>
  What the switch touches: rbp, rbx, r12 to r15, the return address of the call and the stack pointer.
\<close>

record coop =
  co_saved :: "u64 list"
  co_ret :: u64
  co_rsp :: u64

text \<open>The pushes and pops of \<open>context_switch\<close>, its own return address pushed by the call.\<close>

definition context_switch :: "u64 \<Rightarrow> coop \<times> stacks \<Rightarrow> u64 \<times> coop \<times> stacks" where
  "context_switch nxt = (\<lambda>(r, st).
     let (sp, st) = push_cells (co_ret r # co_saved r) (co_rsp r, st)
     in (sp, \<lparr>co_saved = rev (map (\<lambda>k. st (nxt + 8 * of_nat k)) [0..<6]), co_ret = st (nxt + 8 * 6), co_rsp = nxt + 8 * 7\<rparr>, st))"

definition yield_cpu :: "coop \<times> sched \<Rightarrow> coop \<times> sched" where
  "yield_cpu = (\<lambda>(r, sc).
     let cur = cur_task sc; nxt = next_alive sc cur
     in if nxt = cur then (r, sc)
        else let sc = sc\<lparr>cur_task := nxt\<rparr>;
                 (sp, r, st) = context_switch (t_rsp (tasks sc ! nxt)) (r, stacks sc)
             in (r, sc\<lparr>stacks := st, tasks := (tasks sc)[cur := (tasks sc ! cur)\<lparr>t_rsp := sp\<rparr>]\<rparr>))"

definition task_exit :: "coop \<times> sched \<Rightarrow> coop \<times> sched" where
  "task_exit = (\<lambda>(r, sc).
     let sc = exit_current_scheduled sc;
         nxt = next_alive sc (cur_task sc);
         sc = sc\<lparr>cur_task := nxt\<rparr>;
         (scratch, r, st) = context_switch (t_rsp (tasks sc ! nxt)) (r, stacks sc)
     in (r, sc\<lparr>stacks := st\<rparr>))"

section \<open>Preemption\<close>

record cpu =
  c_gs_base :: u64
  c_mmu :: mmu
  c_rsp0 :: u64
  c_syscall_stack :: u64
  c_linux :: bool
  c_wine :: bool

definition preempt_tick :: "u64 \<Rightarrow> sched \<times> cpu \<Rightarrow> u64 \<times> sched \<times> cpu" where
  "preempt_tick cur_rsp = (\<lambda>(sc, c).
     let cur = cur_task sc;
         sc = sc\<lparr>tasks := (tasks sc)[cur := (tasks sc ! cur)\<lparr>t_gs_base := c_gs_base c, t_rsp := cur_rsp\<rparr>]\<rparr>;
         nxt = next_alive sc cur;
         sc = sc\<lparr>cur_task := nxt\<rparr>;
         c = c\<lparr>c_gs_base := t_gs_base (tasks sc ! nxt)\<rparr>;
         c = (if t_cr3 (tasks sc ! nxt) \<noteq> 0
              then c\<lparr>c_mmu := switch_address_space (t_cr3 (tasks sc ! nxt)) (c_mmu c)\<rparr> else c);
         c = c\<lparr>c_rsp0 := kstack_top sc nxt, c_syscall_stack := kstack_top sc nxt,
               c_linux := task_linux sc ! nxt, c_wine := task_wine sc ! nxt\<rparr>
     in (t_rsp (tasks sc ! nxt), sc, c))"

text \<open>
  The general registers in the order in which the stub pushes them, rax to r15, and what the processor
  itself saves on an interrupt.
\<close>

record regs =
  r_gprs :: "u64 list"
  r_rip :: u64
  r_cs :: u64
  r_rflags :: u64
  r_rsp :: u64
  r_ss :: u64

text \<open>From ring 3 the processor switches to the stack of the task state segment; it aligns either.\<close>

definition interrupt_sp :: "cpu \<Rightarrow> regs \<Rightarrow> u64" where
  "interrupt_sp c r = (if r_cs r AND 3 = 3 then c_rsp0 c else r_rsp r) AND NOT 0xF"

definition frame_words :: "regs \<Rightarrow> u64 list" where
  "frame_words r = [r_ss r, r_rsp r, r_rflags r, r_cs r, r_rip r] @ r_gprs r"

text \<open>The pops from \<open>sp\<close> up, and \<open>iretq\<close>.\<close>

definition pop_frame :: "stacks \<Rightarrow> u64 \<Rightarrow> regs" where
  "pop_frame st sp =
     (let w = map (\<lambda>k. st (sp + 8 * of_nat k)) [0..<20]
      in \<lparr>r_gprs = rev (take 15 w), r_rip = w ! 15, r_cs = w ! 16, r_rflags = w ! 17, r_rsp = w ! 18, r_ss = w ! 19\<rparr>)"

definition irq_timer_preempt :: "regs \<times> sched \<times> cpu \<Rightarrow> regs \<times> sched \<times> cpu" where
  "irq_timer_preempt = (\<lambda>(r, sc, c).
     let (sp, st) = push_cells (frame_words r) (interrupt_sp c r, stacks sc);
         (sp, sc, c) = preempt_tick sp (sc\<lparr>stacks := st\<rparr>, c)
     in (pop_frame (stacks sc) sp, sc, c))"

end
