(* ===== verification/Elf.thy ===== *)
theory Elf
  imports Prelude
begin

text \<open>
  ELF files, kernel/src/elf.rs, and the field readers of kernel/src/sched.rs. The file reads header
  fields through pointers cast to the C layout: a field is a little-endian number at its offset. The
  bounds checks are computed in 64-bit arithmetic and can be passed by an offset near \<open>2 ^ 64\<close>; a read
  outside the file that follows is undefined there, and a failing slice a panic: both are None here.
  Memory is a function from addresses to bytes.
\<close>

unbundle bit_operations_syntax

type_synonym image = "u64 \<Rightarrow> byte"

definition EHDR_SIZE :: nat where "EHDR_SIZE = 64"
definition PHDR_SIZE :: nat where "PHDR_SIZE = 56"

definition ELF_MAGIC :: bytes where "ELF_MAGIC = [0x7F, 69, 76, 70]"
definition PT_LOAD :: nat where "PT_LOAD = 1"
definition PT_INTERP :: nat where "PT_INTERP = 3"

definition rd_u64 :: "bytes \<Rightarrow> nat \<Rightarrow> u64" where
  "rd_u64 b off = of_nat (nat_of_le (slice b off (off + 8)))"

definition rd_u32 :: "bytes \<Rightarrow> nat \<Rightarrow> nat" where
  "rd_u32 b off = nat_of_le (slice b off (off + 4))"

definition rd_u16 :: "bytes \<Rightarrow> nat \<Rightarrow> nat" where
  "rd_u16 b off = nat_of_le (slice b off (off + 2))"

section \<open>Headers\<close>

definition e_type :: "bytes \<Rightarrow> nat" where "e_type elf = rd_u16 elf 16"
definition e_machine :: "bytes \<Rightarrow> nat" where "e_machine elf = rd_u16 elf 18"
definition e_entry :: "bytes \<Rightarrow> u64" where "e_entry elf = rd_u64 elf 24"
definition e_phoff :: "bytes \<Rightarrow> u64" where "e_phoff elf = rd_u64 elf 32"
definition e_phentsize :: "bytes \<Rightarrow> nat" where "e_phentsize elf = rd_u16 elf 54"
definition e_phnum :: "bytes \<Rightarrow> nat" where "e_phnum elf = rd_u16 elf 56"

record phdr =
  p_type :: nat
  p_flags :: nat
  p_offset :: u64
  p_vaddr :: u64
  p_filesz :: u64
  p_memsz :: u64

definition phdr_at :: "bytes \<Rightarrow> nat \<Rightarrow> phdr" where
  "phdr_at elf off = \<lparr>p_type = rd_u32 elf off, p_flags = rd_u32 elf (off + 4), p_offset = rd_u64 elf (off + 8),
     p_vaddr = rd_u64 elf (off + 16), p_filesz = rd_u64 elf (off + 32), p_memsz = rd_u64 elf (off + 40)\<rparr>"

text \<open>
  Program header \<open>i\<close>: its offset, the test \<open>off + 56 > elf.len()\<close>, the read. Outside: the test failed.
\<close>

datatype phdr_read = Outside | Stray | Header phdr

definition read_phdr :: "bytes \<Rightarrow> nat \<Rightarrow> phdr_read" where
  "read_phdr elf i =
     (let off = e_phoff elf + of_nat i * of_nat (e_phentsize elf)
      in if of_nat (length elf) < off + of_nat PHDR_SIZE then Outside
         else if length elf < unat off + PHDR_SIZE then Stray
         else Header (phdr_at elf (unat off)))"

section \<open>Loading in place\<close>

text \<open>\<open>ptr::write_bytes(a, 0, n)\<close> and \<open>copy_nonoverlapping\<close>.\<close>

definition zero_bytes :: "u64 \<Rightarrow> u64 \<Rightarrow> image \<Rightarrow> image" where
  "zero_bytes a n m = (\<lambda>x. if x - a < n then 0 else m x)"

definition copy_bytes :: "bytes \<Rightarrow> u64 \<Rightarrow> image \<Rightarrow> image" where
  "copy_bytes xs a m = (\<lambda>x. if unat (x - a) < length xs then xs ! unat (x - a) else m x)"

text \<open>One segment; the Boolean is False where the function returns None.\<close>

definition load_segment :: "bytes \<Rightarrow> u64 \<Rightarrow> phdr \<Rightarrow> image \<Rightarrow> bool \<times> image" where
  "load_segment elf bias ph m =
     (if p_type ph \<noteq> PT_LOAD \<or> p_memsz ph = 0 then (True, m)
      else let vaddr = p_vaddr ph + bias;
               zero_len = ((vaddr + p_memsz ph + 0xFFF) AND NOT 0xFFF) - vaddr;
               m = zero_bytes vaddr zero_len m
           in if 0 < p_filesz ph then
                let foff = unat (p_offset ph); src_end = foff + unat (p_filesz ph)
                in if 2 ^ 64 \<le> src_end \<or> length elf < src_end then (False, m)
                   else (True, copy_bytes (slice elf foff src_end) vaddr m)
              else (True, m))"

fun load_loop :: "bytes \<Rightarrow> u64 \<Rightarrow> nat list \<Rightarrow> image \<Rightarrow> (bool \<times> image) option" where
  "load_loop elf bias [] m = Some (True, m)"
| "load_loop elf bias (i # is) m =
     (case read_phdr elf i of
        Outside \<Rightarrow> Some (False, m)
      | Stray \<Rightarrow> None
      | Header ph \<Rightarrow>
          (case load_segment elf bias ph m of
             (False, m) \<Rightarrow> Some (False, m)
           | (True, m) \<Rightarrow> load_loop elf bias is m))"

definition load_bias :: "bytes \<Rightarrow> u64 \<Rightarrow> image \<Rightarrow> (u64 option \<times> image) option" where
  "load_bias elf bias m =
     (if length elf < EHDR_SIZE then Some (None, m)
      else if slice elf 0 4 \<noteq> ELF_MAGIC then Some (None, m)
      else if e_machine elf \<noteq> 0x3E then Some (None, m)
      else if e_phnum elf = 0 then Some (None, m)
      else map_option (\<lambda>(ok, m). (if ok then Some (e_entry elf + bias) else None, m))
             (load_loop elf bias [0..<e_phnum elf] m))"

definition load :: "bytes \<Rightarrow> image \<Rightarrow> (u64 option \<times> image) option" where
  "load elf m = load_bias elf 0 m"

section \<open>Queries\<close>

definition is_dyn :: "bytes \<Rightarrow> bool" where
  "is_dyn elf \<longleftrightarrow> \<not> length elf < EHDR_SIZE \<and> slice elf 0 4 = ELF_MAGIC \<and> e_type elf = 3"

fun interp_loop :: "bytes \<Rightarrow> nat list \<Rightarrow> bytes option option" where
  "interp_loop elf [] = Some None"
| "interp_loop elf (i # is) =
     (case read_phdr elf i of
        Outside \<Rightarrow> Some None
      | Stray \<Rightarrow> None
      | Header ph \<Rightarrow>
          if p_type ph = PT_INTERP then
            let s = unat (p_offset ph); e = unat (p_offset ph + p_filesz ph)
            in if e \<le> length elf then
                 if e < s then None
                 else let bytes = slice elf s e
                      in Some (Some (case position (\<lambda>b. b = 0) bytes of Some z \<Rightarrow> take z bytes | None \<Rightarrow> bytes))
               else interp_loop elf is
          else interp_loop elf is)"

definition interp_path :: "bytes \<Rightarrow> bytes option option" where
  "interp_path elf =
     (if length elf < EHDR_SIZE then Some None
      else if slice elf 0 4 \<noteq> ELF_MAGIC then Some None
      else interp_loop elf [0..<e_phnum elf])"

fun phdr_info_loop :: "bytes \<Rightarrow> nat list \<Rightarrow> (u64 \<times> u64 \<times> u64) option option" where
  "phdr_info_loop elf [] = Some None"
| "phdr_info_loop elf (i # is) =
     (case read_phdr elf i of
        Outside \<Rightarrow> Some None
      | Stray \<Rightarrow> None
      | Header ph \<Rightarrow>
          if p_type ph = PT_LOAD \<and> p_offset ph \<le> e_phoff elf \<and> e_phoff elf < p_offset ph + p_filesz ph
          then Some (Some (p_vaddr ph + (e_phoff elf - p_offset ph), of_nat (e_phentsize elf), of_nat (e_phnum elf)))
          else phdr_info_loop elf is)"

definition phdr_info :: "bytes \<Rightarrow> (u64 \<times> u64 \<times> u64) option option" where
  "phdr_info elf =
     (if length elf < EHDR_SIZE then Some None
      else if slice elf 0 4 \<noteq> ELF_MAGIC then Some None
      else phdr_info_loop elf [0..<e_phnum elf])"

end
