(* ===== verification/Loader.thy ===== *)
theory Loader
  imports Sched Elf Ramfs
begin

text \<open>
  Starting programs, kernel/src/sched.rs: an ELF file is loaded page by page into a fresh private address
  space, each page through the direct map of physical memory, then a stack, then the task with its
  interrupt frame; for a Linux program also the initial stack of the System V ABI and, if it names one,
  its dynamic linker. Memory is that of \<open>Vmm\<close>, 64-bit cells; a byte is a part of its cell. None is a
  panic (a slice out of range) or a copy from outside the file.
\<close>

unbundle bit_operations_syntax

section \<open>Bytes of physical memory\<close>

definition cell_byte :: "u64 \<Rightarrow> nat \<Rightarrow> byte" where
  "cell_byte w k = ucast (drop_bit (8 * k) w)"

definition set_cell_byte :: "nat \<Rightarrow> byte \<Rightarrow> u64 \<Rightarrow> u64" where
  "set_cell_byte k b w = (w AND NOT (push_bit (8 * k) 0xFF)) OR push_bit (8 * k) (ucast b)"

definition read8 :: "mmu \<Rightarrow> u64 \<Rightarrow> byte" where
  "read8 st a = cell_byte (m_cells st (a AND NOT 7)) (unat (a AND 7))"

definition write8 :: "u64 \<Rightarrow> byte \<Rightarrow> mmu \<Rightarrow> mmu" where
  "write8 a b st = st\<lparr>m_cells := (m_cells st)(a AND NOT 7 := set_cell_byte (unat (a AND 7)) b (m_cells st (a AND NOT 7)))\<rparr>"

text \<open>Through a kernel address \<open>v\<close> of the direct map: bytes copied, a page cleared, a word stored.\<close>

fun put_bytes_at :: "u64 \<Rightarrow> bytes \<Rightarrow> mmu \<Rightarrow> mmu" where
  "put_bytes_at v [] st = st"
| "put_bytes_at v (b # bs) st = put_bytes_at (v + 1) bs (write8 (window v) b st)"

definition zero_page :: "u64 \<Rightarrow> mmu \<Rightarrow> mmu" where
  "zero_page v st = st\<lparr>m_cells := (\<lambda>a. if a - window v < 4096 then 0 else m_cells st a)\<rparr>"

definition put_word :: "u64 \<Rightarrow> u64 \<Rightarrow> mmu \<Rightarrow> mmu" where
  "put_word v w st = st\<lparr>m_cells := (m_cells st)(window v := w)\<rparr>"

fun put_words :: "u64 \<Rightarrow> u64 list \<Rightarrow> mmu \<Rightarrow> mmu" where
  "put_words v [] st = st"
| "put_words v (w # ws) st = put_words (v + 8) ws (put_word v w st)"

section \<open>Segments\<close>

text \<open>\<open>while va < end { .. va += 4096 }\<close> from a page boundary to a page boundary.\<close>

definition pages_between :: "u64 \<Rightarrow> u64 \<Rightarrow> u64 list" where
  "pages_between start end_va =
     (if start < end_va then map (\<lambda>k. start + of_nat k * 4096) [0..<unat (end_va - start) div 4096] else [])"

text \<open>One page of a segment: a cleared frame, the bytes of the file that fall into it, the mapping.\<close>

definition load_page :: "u64 \<Rightarrow> bytes \<Rightarrow> u64 \<Rightarrow> u64 \<Rightarrow> u64 \<Rightarrow> u64 \<Rightarrow> u64 \<Rightarrow> mmu \<Rightarrow> (bool \<times> mmu) option" where
  "load_page as elf p_off p_va p_fsz pfw va st =
     (case alloc_frame (m_pmm st) of
        (None, p) \<Rightarrow> Some (False, st\<lparr>m_pmm := p\<rparr>)
      | (Some f, p) \<Rightarrow>
          let frame = of_nat f;
              dst = phys_to_virt frame;
              st = zero_page dst (st\<lparr>m_pmm := p\<rparr>);
              file_va_end = p_va + p_fsz;
              cs = max va p_va;
              ce = min (va + 4096) file_va_end;
              src_off = p_off + (cs - p_va);
              dst_off = cs - va;
              len = ce - cs;
              copied = (if cs < ce \<and> src_off + len \<le> of_nat (length elf) then
                          if length elf < unat src_off + unat len then None
                          else Some (put_bytes_at (dst + dst_off) (slice elf (unat src_off) (unat src_off + unat len)) st)
                        else Some st)
          in map_option (\<lambda>st. map_page_in as va frame pfw st) copied)"

fun load_pages :: "u64 \<Rightarrow> bytes \<Rightarrow> u64 \<Rightarrow> u64 \<Rightarrow> u64 \<Rightarrow> u64 \<Rightarrow> u64 list \<Rightarrow> mmu \<Rightarrow> (bool \<times> mmu) option" where
  "load_pages as elf p_off p_va p_fsz pfw [] st = Some (True, st)"
| "load_pages as elf p_off p_va p_fsz pfw (va # vas) st =
     (case load_page as elf p_off p_va p_fsz pfw va st of
        None \<Rightarrow> None
      | Some (False, st) \<Rightarrow> Some (False, st)
      | Some (True, st) \<Rightarrow> load_pages as elf p_off p_va p_fsz pfw vas st)"

definition load_ph :: "u64 \<Rightarrow> bytes \<Rightarrow> u64 \<Rightarrow> u64 \<Rightarrow> phdr \<Rightarrow> mmu \<Rightarrow> (bool \<times> mmu) option" where
  "load_ph as elf bias pfw ph st =
     (let p_va = p_vaddr ph + bias;
          start = p_va AND NOT 0xFFF;
          end_va = (p_va + p_memsz ph + 0xFFF) AND NOT 0xFFF
      in load_pages as elf (p_offset ph) p_va (p_filesz ph) pfw (pages_between start end_va) st)"

text \<open>A header outside the file is passed over here, and the loop goes on.\<close>

fun load_headers :: "u64 \<Rightarrow> bytes \<Rightarrow> u64 \<Rightarrow> u64 \<Rightarrow> nat list \<Rightarrow> mmu \<Rightarrow> (bool \<times> mmu) option" where
  "load_headers as elf bias pfw [] st = Some (True, st)"
| "load_headers as elf bias pfw (s # ss) st =
     (case read_phdr elf s of
        Outside \<Rightarrow> load_headers as elf bias pfw ss st
      | Stray \<Rightarrow> None
      | Header ph \<Rightarrow>
          if p_type ph \<noteq> 1 then load_headers as elf bias pfw ss st
          else (case load_ph as elf bias pfw ph st of
                  None \<Rightarrow> None
                | Some (False, st) \<Rightarrow> Some (False, st)
                | Some (True, st) \<Rightarrow> load_headers as elf bias pfw ss st))"

definition load_segments_into :: "u64 \<Rightarrow> bytes \<Rightarrow> u64 \<Rightarrow> u64 \<Rightarrow> mmu \<Rightarrow> (bool \<times> mmu) option" where
  "load_segments_into as elf bias pfw st =
     (if length elf < 58 then None else load_headers as elf bias pfw [0..<e_phnum elf] st)"

section \<open>Stacks\<close>

text \<open>Cleared, mapped pages; the last component is the direct-map address of the frame of page \<open>tp\<close>.\<close>

fun map_stack :: "u64 \<Rightarrow> u64 \<Rightarrow> u64 \<Rightarrow> u64 list \<Rightarrow> u64 \<times> mmu \<Rightarrow> bool \<times> u64 \<times> mmu" where
  "map_stack as pfw tp [] (kva, st) = (True, kva, st)"
| "map_stack as pfw tp (sva # svas) (kva, st) =
     (case alloc_frame (m_pmm st) of
        (None, p) \<Rightarrow> (False, kva, st\<lparr>m_pmm := p\<rparr>)
      | (Some f, p) \<Rightarrow>
          let stk = of_nat f;
              st = zero_page (phys_to_virt stk) (st\<lparr>m_pmm := p\<rparr>);
              st = snd (map_page_in as sva stk pfw st)
          in map_stack as pfw tp svas (if sva = tp then phys_to_virt stk else kva, st))"

definition ELF_STACK_VA :: u64 where "ELF_STACK_VA = 0x00700000"
definition ELF_STACK_TOP :: u64 where "ELF_STACK_TOP = ELF_STACK_VA + 0x1000"
definition FB_VA :: u64 where "FB_VA = 0x00800000"
definition USER_STACK_TOP :: u64 where "USER_STACK_TOP = 0x03F00000"
definition USER_STACK_PAGES :: nat where "USER_STACK_PAGES = 16"

definition user_flags :: u64 where "user_flags = PTE_PRESENT OR PTE_WRITABLE OR PTE_USER"

section \<open>Native programs\<close>

definition is_elf :: "bytes \<Rightarrow> bool" where
  "is_elf elf \<longleftrightarrow> \<not> length elf < 64 \<and> slice elf 0 4 = ELF_MAGIC"

definition spawn_ring3_elf_cfg :: "bytes \<Rightarrow> u64 \<Rightarrow> nat \<Rightarrow> u64 \<Rightarrow> sched \<times> mmu \<Rightarrow> (nat \<times> sched \<times> mmu) option" where
  "spawn_ring3_elf_cfg elf stack_top stack_pages fb_frame = (\<lambda>(sc, mm).
     if \<not> is_elf elf then Some (0, sc, mm)
     else case free_slot sc of
       None \<Rightarrow> Some (0, sc, mm)
     | Some i \<Rightarrow>
      (case new_address_space_private mm of
         (None, mm) \<Rightarrow> Some (0, sc, mm)
       | (Some as, mm) \<Rightarrow>
      (case load_segments_into as elf 0 user_flags mm of
         None \<Rightarrow> None
       | Some (False, mm) \<Rightarrow> Some (0, sc, mm)
       | Some (True, mm) \<Rightarrow>
      (case map_stack as user_flags 0 (pages_between (stack_top - of_nat stack_pages * 4096) stack_top) (0, mm) of
         (False, _, mm) \<Rightarrow> Some (0, sc, mm)
       | (True, _, mm) \<Rightarrow>
           let mm = (if fb_frame \<noteq> 0 then snd (map_page_in as FB_VA fb_frame user_flags mm) else mm);
               sc = start_task i (fresh_frame 0x1b (stack_top - 8) 0x23 (rd_u64 elf 24)) as 0 sc
           in Some (i, sc\<lparr>task_linux := (task_linux sc)[i := False]\<rparr>, mm)))))"

definition spawn_ring3_elf :: "bytes \<Rightarrow> u64 \<Rightarrow> sched \<times> mmu \<Rightarrow> (nat \<times> sched \<times> mmu) option" where
  "spawn_ring3_elf elf fb_frame = spawn_ring3_elf_cfg elf ELF_STACK_TOP 1 fb_frame"

section \<open>Linux programs\<close>

text \<open>"/bin/linuxapp" with its NUL.\<close>

definition argv0 :: bytes where
  "argv0 = [47, 98, 105, 110, 47, 108, 105, 110, 117, 120, 97, 112, 112, 0]"

text \<open>The sixteen bytes for AT_RANDOM, from the timer ticks.\<close>

fun random_bytes :: "nat \<Rightarrow> u64 \<Rightarrow> bytes" where
  "random_bytes 0 x = []"
| "random_bytes (Suc n) x =
     (let x = x * 6364136223846793005 + 1 in ucast (drop_bit 40 x) # random_bytes n x)"

definition random_seed :: "u64 \<Rightarrow> u64" where
  "random_seed ticks = ticks * 2862933555777941757 + 3037000493"

definition wordv :: "u64 \<Rightarrow> u64 \<times> u64 \<times> u64 \<Rightarrow> u64 \<Rightarrow> u64 \<Rightarrow> u64 \<Rightarrow> u64 list" where
  "wordv argv0_ptr ph at_base at_entry rand_ptr =
     (case ph of (phdr, phent, phnum) \<Rightarrow>
       [1, argv0_ptr, 0, 0, 3, phdr, 4, phent, 5, phnum, 6, 4096, 7, at_base, 9, at_entry, 25, rand_ptr, 0, 0])"

text \<open>The initial stack in the top page, whose frame is at \<open>kva\<close> of the direct map; the stack pointer.\<close>

definition initial_stack :: "u64 \<Rightarrow> u64 \<Rightarrow> u64 \<times> u64 \<times> u64 \<Rightarrow> u64 \<Rightarrow> u64 \<Rightarrow> u64 \<Rightarrow> mmu \<Rightarrow> u64 \<times> mmu" where
  "initial_stack kva ticks ph at_base at_entry stack_top mm =
     (let page_lo = stack_top - 4096;
          kaddr = (\<lambda>uva. kva + (uva - page_lo));
          argv0_ptr = stack_top - of_nat (length argv0);
          mm = put_bytes_at (kaddr argv0_ptr) argv0 mm;
          rand_ptr = (argv0_ptr - 16) AND NOT 0xF;
          mm = put_bytes_at (kaddr rand_ptr) (random_bytes 16 (random_seed ticks)) mm;
          ws = wordv argv0_ptr ph at_base at_entry rand_ptr;
          user_rsp = (rand_ptr - of_nat (length ws * 8)) AND NOT 0xF
      in (user_rsp, put_words (kaddr user_rsp) ws mm))"

text \<open>What both Linux loaders do after the program is in place: stack, registers, task.\<close>

definition finish_linux ::
  "nat \<Rightarrow> u64 \<Rightarrow> u64 \<Rightarrow> bytes \<Rightarrow> u64 \<Rightarrow> u64 \<Rightarrow> u64 \<Rightarrow> u64 \<Rightarrow> sched \<times> mmu \<Rightarrow> (nat \<times> sched \<times> mmu) option" where
  "finish_linux i as ticks elf bias at_base at_entry rip = (\<lambda>(sc, mm).
     let stack_top = USER_STACK_TOP;
         stack_bottom = stack_top - of_nat USER_STACK_PAGES * 4096
     in case map_stack as user_flags (stack_top - 4096) (pages_between stack_bottom stack_top) (0, mm) of
          (False, _, mm) \<Rightarrow> Some (0, sc, mm)
        | (True, kva, mm) \<Rightarrow>
            if kva = 0 then Some (0, sc, mm)
            else map_option (\<lambda>info.
                   let ph = (case info of Some (v, e, n) \<Rightarrow> (v + bias, e, n) | None \<Rightarrow> (0, 56, 0));
                       (user_rsp, mm) = initial_stack kva ticks ph at_base at_entry stack_top mm;
                       sc = start_task i (fresh_frame 0x1b user_rsp 0x23 rip) as 0 sc
                   in (i, sc\<lparr>task_linux := (task_linux sc)[i := True], preemptive_linux := True\<rparr>, mm)) (phdr_info elf))"

definition spawn_linux_static_elf :: "u64 \<Rightarrow> bytes \<Rightarrow> sched \<times> mmu \<Rightarrow> (nat \<times> sched \<times> mmu) option" where
  "spawn_linux_static_elf ticks elf = (\<lambda>(sc, mm).
     if \<not> is_elf elf then Some (0, sc, mm)
     else if rd_u16 elf 16 \<noteq> 2 then Some (0, sc, mm)
     else case free_slot sc of
       None \<Rightarrow> Some (0, sc, mm)
     | Some i \<Rightarrow>
      (case new_address_space_private mm of
         (None, mm) \<Rightarrow> Some (0, sc, mm)
       | (Some as, mm) \<Rightarrow>
      (case load_segments_into as elf 0 user_flags mm of
         None \<Rightarrow> None
       | Some (False, mm) \<Rightarrow> Some (0, sc, mm)
       | Some (True, mm) \<Rightarrow>
           finish_linux i as ticks elf 0 0 (rd_u64 elf 24) (rd_u64 elf 24) (sc, mm))))"

definition INTERP_BASE :: u64 where "INTERP_BASE = 0x00800000"
definition PROG_BASE :: u64 where "PROG_BASE = 0x01000000"

text \<open>
  The dynamic linker named by the program, in the RAM disk, loaded beside it: the address to start at, its
  base. The inner None is the failure of the spawn.
\<close>

definition load_interp :: "memory \<Rightarrow> ramfs \<Rightarrow> u64 \<Rightarrow> bytes \<Rightarrow> u64 \<Rightarrow> mmu \<Rightarrow> ((u64 \<times> u64) option \<times> mmu) option" where
  "load_interp m fs as elf prog_entry mm =
     (case interp_path elf of
        None \<Rightarrow> None
      | Some None \<Rightarrow> Some (Some (prog_entry, 0), mm)
      | Some (Some ipath) \<Rightarrow>
          let p = (if take 1 ipath = [47] then drop 1 ipath else ipath)
          in (case ramfs_find p fs of
                None \<Rightarrow> Some (None, mm)
              | Some (a, n) \<Rightarrow>
                  let interp = bytes_at m a n
                  in (case load_segments_into as interp INTERP_BASE user_flags mm of
                        None \<Rightarrow> None
                      | Some (False, mm) \<Rightarrow> Some (None, mm)
                      | Some (True, mm) \<Rightarrow> Some (Some (rd_u64 interp 24 + INTERP_BASE, INTERP_BASE), mm))))"

definition spawn_linux_dyn_elf :: "memory \<Rightarrow> ramfs \<Rightarrow> u64 \<Rightarrow> bytes \<Rightarrow> sched \<times> mmu \<Rightarrow> (nat \<times> sched \<times> mmu) option" where
  "spawn_linux_dyn_elf m fs ticks elf = (\<lambda>(sc, mm).
     if \<not> is_elf elf then Some (0, sc, mm)
     else let prog_bias = (if is_dyn elf then PROG_BASE else 0)
     in case free_slot sc of
       None \<Rightarrow> Some (0, sc, mm)
     | Some i \<Rightarrow>
      (case new_address_space_private mm of
         (None, mm) \<Rightarrow> Some (0, sc, mm)
       | (Some as, mm) \<Rightarrow>
      (case load_segments_into as elf prog_bias user_flags mm of
         None \<Rightarrow> None
       | Some (False, mm) \<Rightarrow> Some (0, sc, mm)
       | Some (True, mm) \<Rightarrow>
      (let prog_entry = rd_u64 elf 24 + prog_bias
       in case load_interp m fs as elf prog_entry mm of
            None \<Rightarrow> None
          | Some (None, mm) \<Rightarrow> Some (0, sc, mm)
          | Some (Some (rip, at_base), mm) \<Rightarrow>
              finish_linux i as ticks elf prog_bias at_base prog_entry rip (sc, mm)))))"

section \<open>Hand-written programs\<close>

definition R3_CODE_VA :: u64 where "R3_CODE_VA = 0x8000000000"
definition R3_STACK_VA :: u64 where "R3_STACK_VA = 0x8000100000"
definition R3_STACK_TOP :: u64 where "R3_STACK_TOP = R3_STACK_VA + 0x1000"
definition LOW_CODE_VA :: u64 where "LOW_CODE_VA = 0x00400000"
definition LOW_STACK_VA :: u64 where "LOW_STACK_VA = 0x00401000"
definition LOW_STACK_TOP :: u64 where "LOW_STACK_TOP = LOW_STACK_VA + 0x1000"

text \<open>\<open>alloc_frame().unwrap_or(0)\<close>, cleared, at its physical address.\<close>

definition frame_or_0 :: "mmu \<Rightarrow> u64 \<times> mmu" where
  "frame_or_0 mm = (case alloc_frame (m_pmm mm) of
     (None, p) \<Rightarrow> (0, zero_page 0 (mm\<lparr>m_pmm := p\<rparr>))
   | (Some f, p) \<Rightarrow> (of_nat f, zero_page (of_nat f) (mm\<lparr>m_pmm := p\<rparr>)))"

definition place_stub :: "u64 \<Rightarrow> u64 \<Rightarrow> u64 \<Rightarrow> bytes \<Rightarrow> byte option \<Rightarrow> mmu \<Rightarrow> mmu" where
  "place_stub as code_va stack_va stub tag mm =
     (let pf = PTE_PRESENT OR PTE_USER; pfw = pf OR PTE_WRITABLE;
          (code, mm) = frame_or_0 mm;
          mm = put_bytes_at code stub mm;
          mm = (case tag of Some t \<Rightarrow> write8 (window (code + 1)) t mm | None \<Rightarrow> mm);
          mm = snd (map_page_in as code_va code pf mm);
          (stk, mm) = frame_or_0 mm
      in snd (map_page_in as stack_va stk pfw mm))"

definition spawn_ring3 :: "bytes \<Rightarrow> sched \<times> mmu \<Rightarrow> nat \<times> sched \<times> mmu" where
  "spawn_ring3 stub = (\<lambda>(sc, mm).
     case free_slot sc of
       None \<Rightarrow> (0, sc, mm)
     | Some i \<Rightarrow>
        (case new_address_space mm of
           (None, mm) \<Rightarrow> (0, sc, mm)
         | (Some as, mm) \<Rightarrow>
             (i, start_task i (fresh_frame 0x1b R3_STACK_TOP 0x23 R3_CODE_VA) as 0 sc,
              place_stub as R3_CODE_VA R3_STACK_VA stub None mm)))"

definition spawn_ring3_low_with :: "bytes \<Rightarrow> byte option \<Rightarrow> sched \<times> mmu \<Rightarrow> nat \<times> sched \<times> mmu" where
  "spawn_ring3_low_with stub tag = (\<lambda>(sc, mm).
     case free_slot sc of
       None \<Rightarrow> (0, sc, mm)
     | Some i \<Rightarrow>
        (case new_address_space_private mm of
           (None, mm) \<Rightarrow> (0, sc, mm)
         | (Some as, mm) \<Rightarrow>
             (i, start_task i (fresh_frame 0x1b LOW_STACK_TOP 0x23 LOW_CODE_VA) as 0 sc,
              place_stub as LOW_CODE_VA LOW_STACK_VA stub tag mm)))"

text \<open>The minimal static file the boot tests run: one header, one segment, the code after them.\<close>

definition make_elf :: "u64 \<Rightarrow> bytes \<Rightarrow> bytes" where
  "make_elf load_va code =
     (let hdrs = 64 + 56; p = 64;
          entry = load_va + of_nat hdrs;
          total = hdrs + length code;
          e = replicate hdrs 0;
          e = blit e 0 ELF_MAGIC;
          e = e[4 := 2]; e = e[5 := 1]; e = e[6 := 1];
          e = blit e 16 (le_of_nat 2 2);
          e = blit e 18 (le_of_nat 2 0x3E);
          e = blit e 20 (le_of_nat 4 1);
          e = blit e 24 (le_of_nat 8 (unat entry));
          e = blit e 32 (le_of_nat 8 64);
          e = blit e 52 (le_of_nat 2 64);
          e = blit e 54 (le_of_nat 2 56);
          e = blit e 56 (le_of_nat 2 1);
          e = blit e p (le_of_nat 4 1);
          e = blit e (p + 4) (le_of_nat 4 5);
          e = blit e (p + 16) (le_of_nat 8 (unat load_va));
          e = blit e (p + 24) (le_of_nat 8 (unat load_va));
          e = blit e (p + 32) (le_of_nat 8 total);
          e = blit e (p + 40) (le_of_nat 8 total);
          e = blit e (p + 48) (le_of_nat 8 0x1000)
      in e @ code)"

definition R3_STUB :: bytes where
  "R3_STUB = [0xbf, 0x55, 0, 0, 0, 0xb8, 0x37, 0x13, 0, 0, 0x0f, 0x05, 0xb9, 0, 0, 0, 1, 0xff, 0xc9, 0x75, 0xfc, 0xeb, 0xe9]"

definition make_test_elf :: "u64 \<Rightarrow> byte \<Rightarrow> bytes" where
  "make_test_elf load_va tag = make_elf load_va (R3_STUB[1 := tag])"

end
