(* ===== verification/Vmm_Data.thy ===== *)
theory Vmm_Data
  imports Vmm_Props
begin

text \<open>
  Frames that hold data: neither free nor a table of any address space. Mapping pages and filling fresh
  frames leaves their contents alone, so that what a process has in memory stays there.
\<close>

unbundle bit_operations_syntax

definition page_no :: "u64 \<Rightarrow> nat" where
  "page_no a = unat a div 4096"

definition data_frame :: "u64 set \<Rightarrow> mmu \<Rightarrow> u64 \<Rightarrow> bool" where
  "data_frame R st f \<longleftrightarrow> is_frame f \<and> page_no f \<notin> free_set st \<and> (\<forall>r \<in> R. \<forall>q. path q \<longrightarrow> tables (m_cells st) r q \<noteq> Some f)"

text \<open>Every data frame is one still, with the same contents.\<close>

definition keeps_data :: "u64 set \<Rightarrow> mmu \<Rightarrow> mmu \<Rightarrow> bool" where
  "keeps_data R st st' \<longleftrightarrow> (\<forall>f. data_frame R st f \<longrightarrow> data_frame R st' f \<and> (\<forall>a. page_no a = page_no f \<longrightarrow> m_cells st' a = m_cells st a))"

lemma keeps_data_refl [simp]: "keeps_data R st st"
  by (simp add: keeps_data_def)

lemma keeps_data_trans: "keeps_data R st1 st2 \<Longrightarrow> keeps_data R st2 st3 \<Longrightarrow> keeps_data R st1 st3"
  unfolding keeps_data_def by metis

lemma frame_eq: "is_frame f \<Longrightarrow> is_frame g \<Longrightarrow> page_no f = page_no g \<Longrightarrow> f = g"
proof -
  assume a: "is_frame f" "is_frame g" "page_no f = page_no g"
  obtain q q' where "unat f = q * 4096" "unat g = q' * 4096" using is_frame_unat a(1,2) by metis
  then show ?thesis using a(3) by (simp add: page_no_def word_unat_eq_iff)
qed

lemma page_no_slot: "is_frame t \<Longrightarrow> i < 512 \<Longrightarrow> page_no (t + of_nat i * 8) = page_no t"
  using unat_slot [of t i] is_frame_unat [of t] by (auto simp: page_no_def)

lemma write64_elsewhere:
  assumes "is_frame t" "i < 512" "page_no a \<noteq> page_no t"
  shows "m_cells (write64 t i v st) a = m_cells st a"
proof -
  have "a \<noteq> t + of_nat i * 8" using page_no_slot [OF assms(1,2)] assms(3) by auto
  then show ?thesis by (simp add: write64_def window_slot [OF assms(1,2)])
qed

lemma in_frame_range:
  assumes "is_frame f"
  shows "a - f < 4096 \<longleftrightarrow> page_no a = page_no f"
proof -
  obtain q where q: "unat f = q * 4096" "q < 1048576" using is_frame_unat [OF assms] by blast
  have u: "unat (a - f) = (if unat f \<le> unat a then unat a - unat f else unat a + 2 ^ 64 - unat f)"
    by (simp add: unat_sub_if_size word_size)
  have n: "a - f < 4096 \<longleftrightarrow> unat (a - f) < 4096" by (simp add: word_less_nat_alt)
  show ?thesis
  proof (cases "unat f \<le> unat a")
    case True
    then show ?thesis using q u n by (auto simp: page_no_def)
  next
    case False
    have "page_no a < page_no f" using False q by (auto simp: page_no_def)
    moreover have "\<not> unat (a - f) < 4096" using u False q by simp
    ultimately show ?thesis using n by simp
  qed
qed

lemma zero_frame_elsewhere:
  assumes "is_frame f" "page_no a \<noteq> page_no f"
  shows "m_cells (zero_frame f st) a = m_cells st a"
proof -
  have "unat f < 2 ^ 40" using is_frame_unat [OF assms(1)] by auto
  then show ?thesis using in_frame_range [OF assms(1), of a] assms(2) by (simp add: zero_frame_def window_frame_virt)
qed

lemma descend_data:
  assumes ok: "tables_ok R st" and r: "r \<in> R" and p: "path (p @ [i])" "private_path (p @ [i])"
    and t: "tables (m_cells st) r p = Some t" and d: "descend t i table_flags st = (res, st')"
  shows "keeps_data R st st'"
proof -
  note tok = ok [unfolded tables_ok_def]
  have trees: "trees_ok R (m_cells st) (free_set st)" using tok by simp
  have pp: "path p" "i < 512" using p by simp_all
  have tf: "is_frame t" using trees_okD(1) [OF trees r pp(1) t] .
  show ?thesis
  proof (cases "read64 st t i AND PTE_PRESENT = 0")
    case False
    then show ?thesis using d by (auto simp: descend_def Let_def split: if_splits)
  next
    case True
    show ?thesis
    proof (cases "alloc_frame (m_pmm st)")
      case (Pair x pm)
      show ?thesis
      proof (cases x)
        case None
        then have "st' = st" using descend_spec(3) [OF ok r p t d] d True Pair by (auto simp: descend_def Let_def)
        then show ?thesis by simp
      next
        case (Some a)
        have al: "alloc_frame (m_pmm st) = (Some a, pm)" using Pair Some by simp
        define g where "g = (of_nat a :: u64)"
        note fr = allocated_frame [OF tok [THEN conjunct1] tok [THEN conjunct2, THEN conjunct1] al, folded g_def]
        have st': "st' = write64 t i (of_nat a OR table_flags) (zero_frame (of_nat a) (st\<lparr>m_pmm := pm\<rparr>))"
          using d True al by (auto simp: descend_def Let_def)
        note tab = descend_graft(3) [OF ok r p t True al, folded st']
        show ?thesis unfolding keeps_data_def
        proof (intro allI impI)
          fix f assume f: "data_frame R st f"
          have ne: "page_no f \<noteq> page_no g" "page_no f \<noteq> page_no t"
            using f fr(2) frame_eq [OF _ tf, of f] r pp(1) t by (auto simp: data_frame_def page_no_def)
          have "m_cells st' b = m_cells st b" if "page_no b = page_no f" for b
            unfolding st' g_def [symmetric] using that ne
            by (simp add: write64_elsewhere [OF tf pp(2)] zero_frame_elsewhere [OF fr(1)])
          moreover have "tables (m_cells st') r' q \<noteq> Some f" if "r' \<in> R" "path q" for r' q
            using tab [OF that] f that ne(1) by (auto simp: data_frame_def g_def)
          moreover have "free_set st' \<subseteq> free_set st" using fr(3) by (auto simp: st')
          ultimately show "data_frame R st' f \<and> (\<forall>a. page_no a = page_no f \<longrightarrow> m_cells st' a = m_cells st a)"
            using f by (auto simp: data_frame_def)
        qed
      qed
    qed
  qed
qed

lemma leaf_data:
  assumes ok: "tables_ok R st" and r: "r \<in> R" and p: "path p" "private_path p" "length p = 3" "i < 512"
    and t: "tables (m_cells st) r p = Some t" and v: "indices virt = p @ [i]" and e: "e AND PTE_PRESENT \<noteq> 0"
  shows "keeps_data R st (write64 t i e st)"
proof -
  have trees: "trees_ok R (m_cells st) (free_set st)" using ok by (simp add: tables_ok_def)
  have tf: "is_frame t" using trees_okD(1) [OF trees r p(1) t] .
  have "page_no f \<noteq> page_no t" if "data_frame R st f" for f
    using that frame_eq [OF _ tf, of f] r p(1) t by (auto simp: data_frame_def)
  then show ?thesis
    using leaf_write(4) [OF assms] write64_elsewhere [OF tf p(4)] by (auto simp: keeps_data_def data_frame_def)
qed

lemma map_page_in_data:
  assumes ok: "tables_ok R st" and r: "r \<in> R" and priv: "pml4_idx virt \<noteq> 256" "pml4_idx virt \<noteq> 511"
    and d: "map_page_in r virt phys flags st = (res, st')"
  shows "keeps_data R st st'"
proof -
  define i4 i3 i2 i1 where "i4 = pml4_idx virt" and "i3 = pdpt_idx virt" and "i2 = pd_idx virt" and "i1 = pt_idx virt"
  have ix: "indices virt = [i4, i3, i2] @ [i1]" by (simp add: indices_def i4_def i3_def i2_def i1_def)
  have b: "i4 < 512" "i3 < 512" "i2 < 512" "i1 < 512" by (simp_all add: i4_def i3_def i2_def i1_def)
  have paths: "path ([] @ [i4])" "path ([i4] @ [i3])" "path ([i4, i3] @ [i2])" "path [i4, i3, i2]"
    using b by (simp_all add: path_def)
  have privs: "private_path ([] @ [i4])" "private_path ([i4] @ [i3])" "private_path ([i4, i3] @ [i2])" "private_path [i4, i3, i2]"
    using priv by (simp_all add: private_path_def i4_def)
  obtain x1 st1 where d1: "descend r i4 table_flags st = (x1, st1)" by force
  note s1 = descend_spec [OF ok r paths(1) privs(1) tables_Nil d1]
  note k1 = descend_data [OF ok r paths(1) privs(1) tables_Nil d1]
  show ?thesis
  proof (cases x1)
    case None
    then show ?thesis using d d1 k1 by (simp add: map_page_in_def Let_def i4_def)
  next
    case (Some t3)
    have t3: "tables_ok R st1" "tables (m_cells st1) r [i4] = Some t3" using s1(1) s1(2) [OF Some] by (simp_all add: keeps_def)
    obtain x2 st2 where d2: "descend t3 i3 table_flags st1 = (x2, st2)" by force
    note s2 = descend_spec [OF t3(1) r paths(2) privs(2) t3(2) d2]
    note k2 = keeps_data_trans [OF k1 descend_data [OF t3(1) r paths(2) privs(2) t3(2) d2]]
    show ?thesis
    proof (cases x2)
      case None
      then show ?thesis using d d1 d2 Some k2 by (simp add: map_page_in_def Let_def i4_def i3_def)
    next
      case x2: (Some t2)
      have t2: "tables_ok R st2" "tables (m_cells st2) r [i4, i3] = Some t2" using s2(1) s2(2) [OF x2] by (simp_all add: keeps_def)
      obtain x3 st3 where d3: "descend t2 i2 table_flags st2 = (x3, st3)" by force
      note s3 = descend_spec [OF t2(1) r paths(3) privs(3) t2(2) d3]
      note k3 = keeps_data_trans [OF k2 descend_data [OF t2(1) r paths(3) privs(3) t2(2) d3]]
      show ?thesis
      proof (cases x3)
        case None
        then show ?thesis using d d1 d2 d3 Some x2 k3 by (simp add: map_page_in_def Let_def i4_def i3_def i2_def)
      next
        case x3: (Some t1)
        have t1: "tables_ok R st3" "tables (m_cells st3) r [i4, i3, i2] = Some t1" using s3(1) s3(2) [OF x3] by (simp_all add: keeps_def)
        define e where "e = phys OR flags OR PTE_PRESENT"
        have e: "e AND PTE_PRESENT \<noteq> 0" by (simp add: pte_bits(1) e_def bit_or_iff pte_bits)
        have "st' = write64 t1 i1 e st3" using d d1 d2 d3 Some x2 x3
          by (simp add: map_page_in_def Let_def i4_def i3_def i2_def i1_def e_def)
        then show ?thesis using keeps_data_trans [OF k3 leaf_data [OF t1(1) r paths(4) privs(4) _ b(4) t1(2) ix e]] by simp
      qed
    qed
  qed
qed

text \<open>A frame taken from the allocator and filled: one data frame more, and nothing else has changed.\<close>

lemma filled_frame:
  assumes ok: "tables_ok R st" and al: "alloc_frame (m_pmm st) = (Some a, pm)"
    and st': "m_pmm st' = pm" "m_cr3 st' = m_cr3 st" "m_physmap st' = m_physmap st"
      "\<And>b. page_no b \<noteq> page_no (of_nat a) \<Longrightarrow> m_cells st' b = m_cells st b"
  shows "tables_ok R st'" "data_frame R st' (of_nat a)" "keeps_data R st st'"
    "r \<in> R \<Longrightarrow> translate st' r v = translate st r v" "card (free_set st) = card (free_set st') + 1"
proof -
  define g where "g = (of_nat a :: u64)"
  note tok = ok [unfolded tables_ok_def]
  note fr = allocated_frame [OF tok [THEN conjunct1] tok [THEN conjunct2, THEN conjunct1] al, folded g_def]
  have trees: "trees_ok R (m_cells st) (free_set st)" using tok by simp
  have same: "slot (m_cells st') t j = slot (m_cells st) t j" if "is_frame t" "j < 512" "t \<noteq> g" for t j
  proof -
    have "page_no (t + of_nat j * 8) \<noteq> page_no g" using page_no_slot [OF that(1,2)] frame_eq [OF that(1) fr(1)] that(3) by auto
    then show ?thesis unfolding slot_def by (rule st'(4) [folded g_def])
  qed
  note ff = fresh_frame [OF trees fr(2), of "m_cells st'"]
  have tab: "tables (m_cells st') r q = tables (m_cells st) r q" if "r \<in> R" "path q" for r q
    using ff(1) [OF _ that] same by blast
  have sub: "free_set st' = free_set st - {page_no g}" using fr(3) st'(1) by (simp add: page_no_def)
  show "tables_ok R st'"
    using trees_ok_same_tables [OF trees tab, of "free_set st'"] sub fr(4,5) st'(1) by (auto simp: tables_ok_def)
  show "data_frame R st' (of_nat a)"
    using fr(1,2) sub tab trees_okD(2) [OF trees] by (auto simp: data_frame_def g_def [symmetric] page_no_def)
  show "keeps_data R st st'"
    unfolding keeps_data_def
  proof (intro allI impI)
    fix f assume f: "data_frame R st f"
    have ne: "page_no f \<noteq> page_no g" using f fr(2) by (auto simp: data_frame_def page_no_def)
    have "m_cells st' b = m_cells st b" if "page_no b = page_no f" for b
      using that ne st'(4) by (simp add: g_def)
    then show "data_frame R st' f \<and> (\<forall>a. page_no a = page_no f \<longrightarrow> m_cells st' a = m_cells st a)"
      using f tab sub by (auto simp: data_frame_def)
  qed
  show "r \<in> R \<Longrightarrow> translate st' r v = translate st r v"
    using ff(2) [OF _ _ path_Nil, of r r "indices v"] same indices_bound [of v] by (simp add: translate_def)
  have "finite (free_set st)" by (rule finite_subset [OF free_pages_le]) simp
  then show "card (free_set st) = card (free_set st') + 1"
    unfolding sub using card_Suc_Diff1 [of "free_set st" "page_no g"] fr(2) by (simp add: page_no_def)
qed

lemma map_page_in_cost:
  assumes "pmm_ready (m_pmm st)" "pmm_ok (m_pmm st)" "map_page_in r virt phys flags st = (res, st')"
  shows "card (free_set st) \<le> card (free_set st') + 3"
proof -
  obtain x1 st1 where d1: "descend r (pml4_idx virt) table_flags st = (x1, st1)" by force
  note f1 = descend_frames [OF assms(1,2) d1]
  show ?thesis
  proof (cases x1)
    case None
    then show ?thesis using f1(3) assms(3) d1 by (simp add: map_page_in_def Let_def)
  next
    case (Some t3)
    obtain x2 st2 where d2: "descend t3 (pdpt_idx virt) table_flags st1 = (x2, st2)" by force
    note f2 = descend_frames [OF f1(1,2) d2]
    show ?thesis
    proof (cases x2)
      case None
      then show ?thesis using f1(3) f2(3) assms(3) d1 d2 Some by (simp add: map_page_in_def Let_def)
    next
      case x2: (Some t2)
      obtain x3 st3 where d3: "descend t2 (pd_idx virt) table_flags st2 = (x3, st3)" by force
      note f3 = descend_frames [OF f2(1,2) d3]
      have "free_set st' = free_set st3" using assms(3) d1 d2 d3 Some x2
        by (auto simp: map_page_in_def Let_def split: option.splits)
      then show ?thesis using f1(3) f2(3) f3(3) by simp
    qed
  qed
qed

text \<open>A private address space: the frames that held data do so for all spaces, the new one included.\<close>

lemma private_data:
  assumes ok: "tables_ok R st" and c: "cr3 st \<in> R" and n: "new_address_space_private st = (Some as, st')" and f: "data_frame R st f"
  shows "data_frame (insert as R) st' f" "page_no a = page_no f \<Longrightarrow> m_cells st' a = m_cells st a"
proof -
  note ps = private_slots [OF ok c n]
  have trees: "trees_ok R (m_cells st) (free_set st)" using ok by (simp add: tables_ok_def)
  have ne: "page_no as \<noteq> page_no f" using f ps(2) by (auto simp: data_frame_def page_no_def)
  have upds: "\<forall>t' j. is_frame t' \<longrightarrow> j < 512 \<longrightarrow> t' \<noteq> as \<longrightarrow> slot (m_cells st') t' j = slot (m_cells st) t' j" using ps(6) by simp
  have tab: "tables (m_cells st') r q = tables (m_cells st) r q" if "r \<in> R" "path q" for r q
    using fresh_frame(1) [OF trees ps(2) upds that] .
  have kas: "cr3 st \<noteq> as" using trees_okD(2) [OF trees c path_Nil, of "cr3 st"] ps(2) by auto
  have kf: "is_frame (cr3 st)" using trees_okD(1) [OF trees c path_Nil, of "cr3 st"] by simp
  have new: "tables (m_cells st') as q \<noteq> Some f" if q: "path q" for q
  proof (cases q)
    case Nil
    then show ?thesis using ne by auto
  next
    case (Cons i q')
    have i: "i < 512" using q Cons by (simp add: path_def)
    show ?thesis
    proof (cases "i = 256 \<or> i = 511")
      case True
      have "slot (m_cells st') as i = slot (m_cells st') (cr3 st) i"
        using ps(6) [OF ps(1) i] ps(6) [OF kf i] kas True by simp
      then have "tables (m_cells st') as q = tables (m_cells st') (cr3 st) q" by (simp add: Cons tables_Cons)
      then show ?thesis using tab [OF c q] f c q by (auto simp: data_frame_def)
    next
      case False
      then have "slot (m_cells st') as i = 0" using ps(6) [OF ps(1) i] by simp
      then show ?thesis by (simp add: Cons tables_Cons)
    qed
  qed
  show "data_frame (insert as R) st' f" using f tab new ps(5) by (auto simp: data_frame_def)
  obtain b pm where al: "alloc_frame (m_pmm st) = (Some b, pm)" and as: "as = of_nat b"
    using n by (auto simp: new_address_space_private_def Let_def split: prod.splits option.splits)
  have i: "(256 :: nat) < 512" "(511 :: nat) < 512" by simp_all
  show "m_cells st' a = m_cells st a" if "page_no a = page_no f"
    using n ne that
    by (auto simp: new_address_space_private_def al as [symmetric] Let_def write64_elsewhere [OF ps(1) i(1)] write64_elsewhere [OF ps(1) i(2)]
        zero_frame_elsewhere [OF ps(1)])
qed

end
