(* ===== verification/Loader_Pages.thy ===== *)
theory Loader_Pages
  imports Loader Vmm_Data
begin

text \<open>
  Loading into an address space, read through its page tables: the bytes of physical memory, what a
  process sees at an address, and the effect of one page, one segment and all segments on that view.
\<close>

unbundle bit_operations_syntax

section \<open>Bytes in cells\<close>

lemma unat_align8: "unat (a AND NOT 7 :: u64) = unat a div 8 * 8" "unat (a AND 7 :: u64) = unat a mod 8"
proof -
  have m: "(7 :: u64) = mask 3" by (simp add: mask_eq_exp_minus_1)
  have "a AND NOT 7 = push_bit 3 (drop_bit 3 a)"
    by (rule bit_word_eqI) (auto simp: m bit_and_iff bit_not_iff bit_mask_iff bit_push_bit_iff bit_drop_bit_eq not_less dest: bit_imp_le_length)
  moreover have "unat a div 8 * 8 < 2 ^ 64" by (rule le_less_trans [OF div_times_less_eq_dividend]) (use unsigned_less [of a] in simp)
  ultimately show "unat (a AND NOT 7) = unat a div 8 * 8"
    by (simp add: push_bit_eq_mult unat_word_ariths unat_drop_bit_eq drop_bit_eq_div)
  have "a AND 7 = take_bit 3 a" unfolding m by (simp add: take_bit_eq_mask)
  then show "unat (a AND 7) = unat a mod 8" by (simp only: unsigned_take_bit_eq) (simp add: take_bit_eq_mod)
qed

lemma byte_address: "a AND NOT 7 = b AND NOT 7 \<Longrightarrow> a AND 7 = b AND 7 \<Longrightarrow> a = (b :: u64)"
proof -
  assume "a AND NOT 7 = b AND NOT 7" "a AND 7 = b AND 7"
  then have "unat a div 8 * 8 = unat b div 8 * 8" "unat a mod 8 = unat b mod 8" by (metis unat_align8)+
  then have "unat a = unat b" by (metis div_mult_mod_eq)
  then show ?thesis by (simp add: word_unat_eq_iff)
qed

lemma byte_address_iff: "a = (b :: u64) \<longleftrightarrow> a AND NOT 7 = b AND NOT 7 \<and> unat (a AND 7) = unat (b AND 7)"
  using byte_address [of a b] word_unat_eq_iff [of "a AND 7" "b AND 7"] by auto

lemma page_no_align8: "page_no (a AND NOT 7) = page_no a"
  unfolding page_no_def unat_align8
proof -
  have "(y * 8) div 4096 = y div 512" for y :: nat by simp
  then show "unat a div 8 * 8 div 4096 = unat a div 4096" using div_mult2_eq [of "unat a" 8 512] by simp
qed

lemma cell_byte_set:
  assumes "k < 8" "j < 8"
  shows "cell_byte (set_cell_byte k b w) j = (if j = k then b else cell_byte w j)"
proof (rule bit_word_eqI)
  fix n assume "n < LENGTH(8)"
  then have n: "n < 8" by simp
  have m: "(0xFF :: u64) = mask 8" by (simp add: mask_eq_exp_minus_1)
  have lt: "8 * j + n < 64" using assms(2) n by simp
  have ix: "8 * k \<le> 8 * j + n \<and> 8 * j + n - 8 * k < 8 \<longleftrightarrow> j = k"
    using n by (cases j k rule: linorder_cases) auto
  show "bit (cell_byte (set_cell_byte k b w) j) n \<longleftrightarrow> bit (if j = k then b else cell_byte w j) n"
    using n lt ix unfolding cell_byte_def set_cell_byte_def m
    by (cases "j = k") (auto simp: bit_ucast_iff bit_drop_bit_eq bit_or_iff bit_and_iff bit_not_iff bit_push_bit_iff bit_mask_iff dest: bit_imp_le_length)
qed

lemma unat_and7: "unat (a AND 7 :: u64) < 8"
  by (simp add: unat_align8)

lemma read8_write8: "read8 (write8 a b st) c = (if c = a then b else read8 st c)"
  using cell_byte_set [OF unat_and7 [of a] unat_and7 [of c], of b "m_cells st (a AND NOT 7)"] byte_address_iff [of c a]
  by (auto simp: read8_def write8_def)

lemma cell_byte_0 [simp]: "cell_byte 0 k = 0"
  by (simp add: cell_byte_def)

definition fills :: "u64 \<Rightarrow> mmu \<Rightarrow> mmu \<Rightarrow> bool" where
  "fills f st st' \<longleftrightarrow> m_pmm st' = m_pmm st \<and> m_cr3 st' = m_cr3 st \<and> m_physmap st' = m_physmap st \<and> m_boot_cr3 st' = m_boot_cr3 st \<and>
     (\<forall>a. page_no a \<noteq> page_no f \<longrightarrow> m_cells st' a = m_cells st a)"

lemma fills_trans: "fills f st1 st2 \<Longrightarrow> fills f st2 st3 \<Longrightarrow> fills f st1 st3"
  by (auto simp: fills_def)

lemma phys_window:
  assumes "is_frame f" "unat n < 4096"
  shows "window (phys_to_virt f + n) = f + n" "page_no (f + n) = page_no f" "unat (f + n) = unat f + unat n"
proof -
  obtain q where q: "unat f = q * 4096" "q < 1048576" using is_frame_unat [OF assms(1)] by blast
  have u: "unat (f + n) = unat f + unat n" using q assms(2) by (simp add: unat_word_ariths)
  then show "unat (f + n) = unat f + unat n" .
  show "page_no (f + n) = page_no f" using u q assms(2) by (simp add: page_no_def)
  have "unat (f + n) < 2 ^ 40" using u q assms(2) by simp
  then have "window (frame_virt (undefined\<lparr>m_physmap := True\<rparr>) (f + n)) = f + n" by (rule window_frame_virt)
  then show "window (phys_to_virt f + n) = f + n" by (simp add: frame_virt_def phys_to_virt_def add.assoc)
qed

lemma put_bytes_spec:
  assumes "is_frame f" "unat n + length xs \<le> 4096"
  shows "fills f st (put_bytes_at (phys_to_virt f + n) xs st)"
    "read8 (put_bytes_at (phys_to_virt f + n) xs st) a =
       (if unat f + unat n \<le> unat a \<and> unat a < unat f + unat n + length xs then xs ! (unat a - (unat f + unat n)) else read8 st a)"
  using assms(2)
proof (induction xs arbitrary: n st)
  case Nil
  { case 1 then show ?case by (simp add: fills_def) }
  { case 2 then show ?case by auto }
next
  case (Cons b bs)
  have n: "unat n < 4096" "unat (n + 1) + length bs \<le> 4096" "unat (n + 1) = unat n + 1" if "unat n + length (b # bs) \<le> 4096" for n :: u64
    using that by (simp_all add: unat_word_ariths)
  have w: "put_bytes_at (phys_to_virt f + n) (b # bs) st = put_bytes_at (phys_to_virt f + (n + 1)) bs (write8 (f + n) b st)"
    if "unat n + length (b # bs) \<le> 4096" for n st
    using phys_window(1) [OF assms(1) n(1) [OF that]] by (simp add: add.assoc)
  have f1: "fills f st (write8 (f + n) b st)" if "unat n + length (b # bs) \<le> 4096" for n st
    using phys_window(2) [OF assms(1) n(1) [OF that]] page_no_align8 [of "f + n"] by (auto simp: fills_def write8_def)
  { case 1
    show ?case unfolding w [OF 1] using fills_trans [OF f1 [OF 1] Cons.IH(1) [OF n(2) [OF 1]]] . }
  { case 2
    have u: "unat (f + n) = unat f + unat n" using phys_window(3) [OF assms(1) n(1) [OF 2]] .
    show ?case unfolding w [OF 2] Cons.IH(2) [OF n(2) [OF 2]] n(3) [OF 2] read8_write8
      using u by (auto simp: word_unat_eq_iff nth_Cons' Suc_diff_le not_less_eq_eq) }
qed

lemma zero_page_spec:
  assumes "is_frame f"
  shows "fills f st (zero_page (phys_to_virt f) st)"
    "read8 (zero_page (phys_to_virt f) st) a = (if page_no a = page_no f then 0 else read8 st a)"
    "m_cells (zero_page (phys_to_virt f) st) a = (if page_no a = page_no f then 0 else m_cells st a)"
proof -
  have w: "window (phys_to_virt f) = f" using phys_window(1) [OF assms, of 0] by simp
  then show "fills f st (zero_page (phys_to_virt f) st)" using in_frame_range [OF assms] by (simp add: fills_def zero_page_def)
  show c: "m_cells (zero_page (phys_to_virt f) st) a = (if page_no a = page_no f then 0 else m_cells st a)" for a
    using w in_frame_range [OF assms] by (simp add: zero_page_def)
  show "read8 (zero_page (phys_to_virt f) st) a = (if page_no a = page_no f then 0 else read8 st a)"
    unfolding read8_def c page_no_align8 by simp
qed

section \<open>What a process sees\<close>

text \<open>The byte at a virtual address, read through the tables of address space \<open>r\<close>.\<close>

definition virt_read :: "mmu \<Rightarrow> u64 \<Rightarrow> u64 \<Rightarrow> byte option" where
  "virt_read st r v =
     (case translate st r v of
        None \<Rightarrow> None
      | Some (e, k) \<Rightarrow> let m = mask (12 + 9 * k) in Some (read8 st ((e AND NOT m) + (v AND m))))"

definition user_page :: "u64 set \<Rightarrow> mmu \<Rightarrow> u64 \<Rightarrow> u64 \<Rightarrow> bool" where
  "user_page R st r v \<longleftrightarrow> (\<exists>f. translate st r v = Some (f OR user_flags OR PTE_PRESENT, 0) \<and> data_frame R st f)"

definition low :: "u64 \<Rightarrow> bool" where
  "low v \<longleftrightarrow> unat v < 2 ^ 47"

text \<open>Nothing in the lower half but pages of the process's own.\<close>

definition private_view :: "u64 set \<Rightarrow> mmu \<Rightarrow> u64 \<Rightarrow> bool" where
  "private_view R st r \<longleftrightarrow> (\<forall>v. low v \<longrightarrow> translate st r v = None \<or> user_page R st r v)"

lemma idx_nat: "pml4_idx v = unat v div 2 ^ 39 mod 512" "pdpt_idx v = unat v div 2 ^ 30 mod 512"
  "pd_idx v = unat v div 2 ^ 21 mod 512" "pt_idx v = unat v div 2 ^ 12 mod 512"
proof -
  have m: "(0x1FF :: u64) = mask 9" by (simp add: mask_eq_exp_minus_1)
  have "unat (drop_bit n v AND 0x1FF) = unat v div 2 ^ n mod 512" for n
  proof -
    have "drop_bit n v AND 0x1FF = take_bit 9 (drop_bit n v)" unfolding m by (simp add: take_bit_eq_mask)
    then show ?thesis by (simp only: unsigned_take_bit_eq unat_drop_bit_eq) (simp add: take_bit_eq_mod drop_bit_eq_div)
  qed
  then show "pml4_idx v = unat v div 2 ^ 39 mod 512" "pdpt_idx v = unat v div 2 ^ 30 mod 512"
    "pd_idx v = unat v div 2 ^ 21 mod 512" "pt_idx v = unat v div 2 ^ 12 mod 512"
    unfolding pml4_idx_def pdpt_idx_def pd_idx_def pt_idx_def by blast+
qed

lemma page_digits:
  assumes "low v"
  shows "page_no v = pt_idx v + 512 * (pd_idx v + 512 * (pdpt_idx v + 512 * pml4_idx v))" "pml4_idx v < 256"
proof -
  define p where "p = unat v div 4096"
  have p: "p < 2 ^ 35" using assms by (simp add: low_def p_def)
  have d: "unat v div 2 ^ 39 = p div 512 div 512 div 512" "unat v div 2 ^ 30 = p div 512 div 512" "unat v div 2 ^ 21 = p div 512"
    by (simp_all add: p_def div_mult2_eq [symmetric])
  have q: "p div 512 div 512 div 512 < 256" using p by (simp add: div_mult2_eq [symmetric])
  then show "pml4_idx v < 256" unfolding idx_nat(1) d(1) by simp
  have "x = x mod 512 + 512 * (x div 512)" for x :: nat by simp
  then have "p = p mod 512 + 512 * (p div 512 mod 512 + 512 * (p div 512 div 512 mod 512 + 512 * (p div 512 div 512 div 512)))" by metis
  moreover have "p div 512 div 512 div 512 mod 512 = p div 512 div 512 div 512" using q by simp
  ultimately show "page_no v = pt_idx v + 512 * (pd_idx v + 512 * (pdpt_idx v + 512 * pml4_idx v))"
    unfolding idx_nat d by (simp add: page_no_def p_def [symmetric])
qed

lemma indices_page:
  assumes "low v"
  shows "page_no w = page_no v \<Longrightarrow> indices w = indices v"
    "low w \<Longrightarrow> indices w = indices v \<Longrightarrow> page_no w = page_no v"
proof -
  have "unat w div 4096 = unat v div 4096 \<Longrightarrow> indices w = indices v"
  proof -
    assume e: "unat w div 4096 = unat v div 4096"
    have "unat x div 2 ^ 39 = unat x div 4096 div 2 ^ 27" "unat x div 2 ^ 30 = unat x div 4096 div 2 ^ 18"
      "unat x div 2 ^ 21 = unat x div 4096 div 2 ^ 9" for x :: u64 by (simp_all add: div_mult2_eq [symmetric])
    then show ?thesis using e by (simp add: indices_def idx_nat)
  qed
  then show "page_no w = page_no v \<Longrightarrow> indices w = indices v" by (simp add: page_no_def)
  show "low w \<Longrightarrow> indices w = indices v \<Longrightarrow> page_no w = page_no v"
    using page_digits(1) [OF assms] page_digits(1) [of w] by (simp add: indices_def)
qed

lemma unat_of_page: "unat (of_nat (n mod 4096) :: u64) = n mod 4096"
proof -
  have "n mod 4096 < 2 ^ 64" by (rule less_trans [of _ 4096]) simp_all
  then show ?thesis by (simp add: unat_of_nat)
qed

lemma virt_read_page:
  assumes "translate st r v = Some (f OR user_flags OR PTE_PRESENT, 0)" "is_frame f"
  shows "virt_read st r v = Some (read8 st (f + of_nat (unat v mod 4096)))"
proof -
  have m: "mask 12 = (0xFFF :: u64)" by (simp add: mask_eq_exp_minus_1)
  have a: "(f OR user_flags OR PTE_PRESENT) AND NOT 0xFFF = f"
  proof (rule bit_word_eqI, unfold bit_clear_offset)
    fix n
    show "12 \<le> n \<and> bit (f OR user_flags OR PTE_PRESENT) n \<longleftrightarrow> bit f n"
      using frame_low_bits [OF assms(2), of n] by (cases "n < 12") (auto simp: bit_or_iff pte_bits user_flags_def)
  qed
  have "v AND mask 12 = take_bit 12 v" by (simp add: take_bit_eq_mask)
  moreover have "unat (take_bit 12 v) = unat v mod 4096" by (simp only: unsigned_take_bit_eq) (simp add: take_bit_eq_mod)
  moreover have "unat (of_nat (unat v mod 4096) :: u64) = unat v mod 4096" by (rule unat_of_page)
  ultimately have b: "v AND mask 12 = of_nat (unat v mod 4096)" by (simp add: word_unat_eq_iff)
  have k: "12 + 9 * (0 :: nat) = 12" by simp
  show ?thesis unfolding virt_read_def assms(1) option.case prod.case Let_def k b unfolding m a by simp
qed

lemma read8_same: "(\<And>a. page_no a = page_no b \<Longrightarrow> m_cells st' a = m_cells st a) \<Longrightarrow> read8 st' b = read8 st b"
proof -
  assume "\<And>a. page_no a = page_no b \<Longrightarrow> m_cells st' a = m_cells st a"
  then have "m_cells st' (b AND NOT 7) = m_cells st (b AND NOT 7)" using page_no_align8 by blast
  then show ?thesis unfolding read8_def by (simp only:)
qed

lemma in_page: "is_frame f \<Longrightarrow> page_no (f + of_nat (n mod 4096)) = page_no f"
  by (rule phys_window(2)) (simp_all add: unat_of_page)

lemma user_page_kept:
  assumes "user_page R st r v" "keeps_data R st st'" "translate st' r v = translate st r v"
  shows "user_page R st' r v" "virt_read st' r v = virt_read st r v"
proof -
  obtain f where f: "translate st r v = Some (f OR user_flags OR PTE_PRESENT, 0)" "data_frame R st f"
    using assms(1) by (auto simp: user_page_def)
  have k: "data_frame R st' f" "\<And>a. page_no a = page_no f \<Longrightarrow> m_cells st' a = m_cells st a"
    using assms(2) f(2) by (auto simp: keeps_data_def)
  then show "user_page R st' r v" using f assms(3) by (auto simp: user_page_def)
  have fr: "is_frame f" using f(2) by (simp add: data_frame_def)
  have "read8 st' (f + of_nat (unat v mod 4096)) = read8 st (f + of_nat (unat v mod 4096))"
    by (rule read8_same) (use k(2) in_page [OF fr] in simp)
  then show "virt_read st' r v = virt_read st r v"
    using virt_read_page [OF f(1) fr] virt_read_page [of st' r v f] f(1) assms(3) fr by simp
qed

section \<open>One page\<close>

text \<open>The byte that a segment puts at \<open>w\<close>: of the file, or zero.\<close>

definition seg_byte :: "bytes \<Rightarrow> u64 \<Rightarrow> u64 \<Rightarrow> u64 \<Rightarrow> u64 \<Rightarrow> byte" where
  "seg_byte elf p_off p_va p_fsz w =
     (if unat p_va \<le> unat w \<and> unat w < unat p_va + unat p_fsz then elf ! (unat p_off + (unat w - unat p_va)) else 0)"

definition seg_ok :: "bytes \<Rightarrow> u64 \<Rightarrow> u64 \<Rightarrow> u64 \<Rightarrow> bool" where
  "seg_ok elf p_off p_va p_fsz \<longleftrightarrow> length elf < 2 ^ 63 \<and> unat p_va + unat p_fsz < 2 ^ 64 \<and> unat p_off + unat p_fsz \<le> length elf"

lemma unat_add: "unat a + unat b < 2 ^ 64 \<Longrightarrow> unat (a + b :: u64) = unat a + unat b"
  by (simp add: unat_word_ariths)

lemma unat_diff: "unat b \<le> unat a \<Longrightarrow> unat (a - b :: u64) = unat a - unat b"
  by (simp add: unat_sub_if_size)

lemma unat_max_min: "unat (max a b :: u64) = max (unat a) (unat b)" "unat (min a b) = min (unat a) (unat b)"
  by (simp_all add: max_def min_def word_le_nat_alt)

lemma page_copy:
  fixes va p_va p_fsz p_off :: u64 and st :: mmu
  assumes fr: "is_frame f" and va: "low va" "unat va mod 4096 = 0" and seg: "seg_ok elf p_off p_va p_fsz"
  defines "cs \<equiv> max va p_va" and "ce \<equiv> min (va + 4096) (p_va + p_fsz)"
  defines "src \<equiv> p_off + (cs - p_va)"
  defines "copied \<equiv> (if cs < ce \<and> src + (ce - cs) \<le> of_nat (length elf) then
        if length elf < unat src + unat (ce - cs) then None
        else Some (put_bytes_at (phys_to_virt f + (cs - va)) (slice elf (unat src) (unat src + unat (ce - cs))) st)
      else Some st)"
  assumes z: "\<And>a. page_no a = page_no f \<Longrightarrow> read8 st a = 0"
  shows "\<exists>st'. copied = Some st' \<and> fills f st st' \<and>
    (\<forall>n < 4096. read8 st' (f + of_nat n) = seg_byte elf p_off p_va p_fsz (va + of_nat n))"
proof -
  define V P F S where "V = unat va" and "P = unat p_va" and "F = unat p_fsz" and "S = unat p_off"
  have len: "unat (of_nat (length elf) :: u64) = length elf" using seg by (simp add: seg_ok_def unat_of_nat)
  have b: "V < 2 ^ 47" "P + F < 2 ^ 64" "S + F \<le> length elf" "length elf < 2 ^ 63" using va seg by (simp_all add: low_def seg_ok_def V_def P_def F_def S_def)
  have uva: "unat (va + 4096) = V + 4096" using b(1) by (simp add: V_def unat_word_ariths)
  have upe: "unat (p_va + p_fsz) = P + F" using b(2) unat_add by (simp add: P_def F_def)
  have ucs: "unat cs = max V P" by (simp add: cs_def unat_max_min V_def P_def)
  have uce: "unat ce = min (V + 4096) (P + F)" by (simp add: ce_def unat_max_min uva upe)
  have uw: "unat (va + of_nat n) = V + n" if "n < 4096" for n
    using that b(1) by (simp add: V_def unat_word_ariths unat_of_nat)
  have un: "unat (of_nat n :: u64) = n" if "n < 4096" for n using that by (simp add: unat_of_nat)
  have uf: "unat (f + of_nat n) = unat f + n" "page_no (f + of_nat n) = page_no f" if "n < 4096" for n
    using phys_window(2,3) [OF fr, of "of_nat n"] un [OF that] that by simp_all
  show ?thesis
  proof (cases "cs < ce")
    case False
    then have "\<not> unat cs < unat ce" by (simp add: word_less_nat_alt)
    then have "min (V + 4096) (P + F) \<le> max V P" unfolding ucs uce by (simp only: not_less)
    then have "seg_byte elf p_off p_va p_fsz (va + of_nat n) = 0" if "n < 4096" for n
      using uw [OF that] that by (auto simp: seg_byte_def P_def [symmetric] F_def [symmetric])
    then show ?thesis using False z uf(2) by (simp add: copied_def fills_def)
  next
    case True
    then have "unat cs < unat ce" by (simp add: word_less_nat_alt)
    then have lt: "max V P < min (V + 4096) (P + F)" unfolding ucs uce .
    have ud: "unat (cs - p_va) = max V P - P" using ucs by (subst unat_diff) (simp_all add: P_def)
    have "max V P - P \<le> F" using lt by (auto simp: max_def min_def split: if_splits)
    then have "S + (max V P - P) < 2 ^ 64" using b(3,4) by simp
    then have us: "unat src = S + (max V P - P)" using unat_add [of p_off "cs - p_va"] unfolding ud src_def S_def by blast
    have ul: "unat (ce - cs) = min (V + 4096) (P + F) - max V P" using ucs uce lt by (subst unat_diff) simp_all
    have uo: "unat (cs - va) = max V P - V" using ucs by (subst unat_diff) (simp_all add: V_def)
    have sl: "unat src + unat (ce - cs) \<le> length elf" unfolding us ul using lt b(3) by (simp add: max_def min_def split: if_splits)
    have sle: "src + (ce - cs) \<le> of_nat (length elf)" using sl b(4) len by (simp add: word_le_nat_alt unat_add)
    have ll: "length (slice elf (unat src) (unat src + unat (ce - cs))) = unat (ce - cs)" using sl by simp
    have fit: "unat (cs - va) + length (slice elf (unat src) (unat src + unat (ce - cs))) \<le> 4096"
      unfolding ll unfolding uo ul using lt by (auto simp: max_def min_def split: if_splits)
    define st' where "st' = put_bytes_at (phys_to_virt f + (cs - va)) (slice elf (unat src) (unat src + unat (ce - cs))) st"
    have c: "copied = Some st'" using True sle sl by (simp add: copied_def st'_def)
    note pb = put_bytes_spec [OF fr fit, of st, folded st'_def, unfolded ll, unfolded uo ul]
    have "read8 st' (f + of_nat n) = seg_byte elf p_off p_va p_fsz (va + of_nat n)" if n: "n < 4096" for n
    proof (cases "max V P \<le> V + n \<and> V + n < P + F")
      case True
      define k where "k = n - (max V P - V)"
      have i: "unat f + (max V P - V) \<le> unat (f + of_nat n)" "unat (f + of_nat n) < unat f + (max V P - V) + (min (V + 4096) (P + F) - max V P)"
        "unat (f + of_nat n) - (unat f + (max V P - V)) = k"
        using True n lt uf(1) [OF n] by (auto simp: k_def)
      have k: "k < unat (ce - cs)" using True n lt by (auto simp: k_def ul)
      have "read8 st' (f + of_nat n) = slice elf (unat src) (unat src + unat (ce - cs)) ! k"
        unfolding pb(2) i(3) using i(1,2) by (simp add: ul)
      also have "\<dots> = elf ! (unat src + k)" using k sl by (simp add: nth_slice)
      also have "unat src + k = S + (V + n - P)" unfolding us k_def using True by (simp add: max_def split: if_splits)
      finally show ?thesis using True uw [OF n] by (simp add: seg_byte_def P_def F_def S_def)
    next
      case False
      then have neg: "\<not> (unat f + (max V P - V) \<le> unat (f + of_nat n) \<and> unat (f + of_nat n) < unat f + (max V P - V) + (min (V + 4096) (P + F) - max V P))"
        using n lt uf(1) [OF n] by auto
      have "read8 st' (f + of_nat n) = 0" unfolding pb(2) if_not_P [OF neg] by (rule z [OF uf(2) [OF n]])
      moreover have "seg_byte elf p_off p_va p_fsz (va + of_nat n) = 0"
        using False uw [OF n] by (auto simp: seg_byte_def P_def [symmetric] F_def [symmetric])
      ultimately show ?thesis by simp
    qed
    then show ?thesis using c pb(1) by blast
  qed
qed

end
