(* ===== verification/Loader_Image.thy ===== *)
theory Loader_Image
  imports Loader_Pages
begin

text \<open>
  What loading leaves in an address space: page by page, segment by segment, and the fresh frames it takes.
\<close>

unbundle bit_operations_syntax

text \<open>Only the pages with indices in \<open>P\<close> of address space \<open>as\<close> have another translation, and no data has changed.\<close>

definition loaded :: "u64 set \<Rightarrow> u64 \<Rightarrow> nat list set \<Rightarrow> mmu \<Rightarrow> mmu \<Rightarrow> bool" where
  "loaded R as P st st' \<longleftrightarrow> tables_ok R st' \<and> keeps_data R st st' \<and> m_cr3 st' = m_cr3 st \<and>
     (\<forall>r \<in> R. \<forall>w. r \<noteq> as \<or> indices w \<notin> P \<longrightarrow> translate st' r w = translate st r w)"

lemma loaded_refl: "tables_ok R st \<Longrightarrow> loaded R as P st st"
  by (simp add: loaded_def)

lemma loaded_trans: "loaded R as P st1 st2 \<Longrightarrow> loaded R as Q st2 st3 \<Longrightarrow> loaded R as (P \<union> Q) st1 st3"
  unfolding loaded_def using keeps_data_trans [of R st1 st2 st3] by auto

lemma loaded_mono: "loaded R as P st st' \<Longrightarrow> P \<subseteq> Q \<Longrightarrow> loaded R as Q st st'"
  unfolding loaded_def by blast

lemma loaded_view:
  assumes "loaded R as P st st'" "as \<in> R" "private_view R st as" "low w" "indices w \<notin> P"
  shows "virt_read st' as w = virt_read st as w" "translate st' as w = None \<or> user_page R st' as w"
proof -
  have t: "translate st' as w = translate st as w" using assms(1,2,5) by (simp add: loaded_def)
  have k: "keeps_data R st st'" using assms(1) by (simp add: loaded_def)
  consider "translate st as w = None" | "user_page R st as w" using assms(3,4) by (auto simp: private_view_def)
  then have "virt_read st' as w = virt_read st as w \<and> (translate st' as w = None \<or> user_page R st' as w)"
  proof cases
    case 1
    then show ?thesis using t by (simp add: virt_read_def)
  next
    case 2
    then show ?thesis using user_page_kept [OF 2 k t] by blast
  qed
  then show "virt_read st' as w = virt_read st as w" "translate st' as w = None \<or> user_page R st' as w" by blast+
qed

lemma descend_cr3: "m_cr3 (snd (descend t i fl st)) = m_cr3 st"
  by (auto simp: descend_def Let_def split: prod.splits option.splits)

lemma map_page_in_cr3: "map_page_in r virt phys fl st = (res, st') \<Longrightarrow> m_cr3 st' = m_cr3 st"
  using descend_cr3 [of r "pml4_idx virt" table_flags st]
  by (auto simp: map_page_in_def Let_def split: prod.splits option.splits dest: arg_cong [where f = snd])
    (metis descend_cr3 snd_conv)+

lemma low_not_kernel: "low v \<Longrightarrow> pml4_idx v \<noteq> 256 \<and> pml4_idx v \<noteq> 511"
  using page_digits(2) [of v] by auto

text \<open>A frame filled and mapped: the common step of the loaders.\<close>

lemma map_filled:
  assumes ok: "tables_ok R st" and as: "as \<in> R" and view: "private_view R st as" and va: "low va"
    and al: "alloc_frame (m_pmm st) = (Some a, pm)" and fill: "fills (of_nat a) (st\<lparr>m_pmm := pm\<rparr>) st1"
    and mp: "map_page_in as va (of_nat a) user_flags st1 = (res, st')"
  shows "loaded R as {indices va} st st'" "private_view R st' as"
    "res \<Longrightarrow> low w \<Longrightarrow> page_no w = page_no va \<Longrightarrow>
       user_page R st' as w \<and> virt_read st' as w = Some (read8 st1 (of_nat a + of_nat (unat w mod 4096)))"
    "res \<Longrightarrow> translate st' as va = Some (of_nat a OR user_flags OR PTE_PRESENT, 0) \<and> data_frame R st' (of_nat a) \<and>
       (\<forall>b. page_no b = page_no (of_nat a) \<longrightarrow> m_cells st' b = m_cells st1 b)"
    "4 \<le> card (free_set st) \<Longrightarrow> res" "card (free_set st) \<le> card (free_set st') + 4"
proof -
  define f where "f = (of_nat a :: u64)"
  note ff = filled_frame [OF ok al, of st1, folded f_def]
  have f1: "tables_ok R st1" "data_frame R st1 f" "keeps_data R st st1" "\<And>r v. r \<in> R \<Longrightarrow> translate st1 r v = translate st r v"
    "card (free_set st) = card (free_set st1) + 1"
    using ff fill by (simp_all add: fills_def f_def)
  have pv: "pml4_idx va \<noteq> 256" "pml4_idx va \<noteq> 511" using low_not_kernel [OF va] by simp_all
  note mp' = mp [folded f_def]
  note sp0 = map_page_in_spec [OF f1(1) as pv mp']
  have sp: "tables_ok R st'" "\<forall>r' \<in> R. \<forall>w. (r', indices w) \<noteq> (as, indices va) \<longrightarrow> translate st' r' w = translate st1 r' w"
    "if res then translate st' as va = Some (f OR user_flags OR PTE_PRESENT, 0)
     else translate st' as va = translate st1 as va \<and> (card (free_set st1) \<le> 2 \<or> (\<exists>e k. translate st1 as va = Some (e, Suc k)))"
    using sp0 map_page_in_frames [of st1 as va f user_flags st'] mp' f1(1) by (cases res; force simp: tables_ok_def)+
  have kd: "keeps_data R st1 st'" by (rule map_page_in_data [OF f1(1) as pv mp'])
  have c3: "m_cr3 st' = m_cr3 st" using map_page_in_cr3 [OF mp'] fill by (simp add: fills_def)
  show ld: "loaded R as {indices va} st st'"
    unfolding loaded_def using sp f1(4) keeps_data_trans [OF f1(3) kd] c3 by auto
  have nh: "\<nexists>e k. translate st1 as va = Some (e, Suc k)"
    using view va f1(4) [OF as] by (auto simp: private_view_def user_page_def)
  show "4 \<le> card (free_set st) \<Longrightarrow> res" using sp nh f1(5) by (cases res) auto
  have "card (free_set st1) \<le> card (free_set st') + 3"
    using map_page_in_cost [OF _ _ mp'] f1(1) by (simp add: tables_ok_def)
  then show "card (free_set st) \<le> card (free_set st') + 4" using f1(5) by simp
  have fr: "is_frame f" using f1(2) by (simp add: data_frame_def)
  have df: "data_frame R st' f" "\<And>b. page_no b = page_no f \<Longrightarrow> m_cells st' b = m_cells st1 b"
    using kd f1(2) by (auto simp: keeps_data_def)
  have tr: "translate st' as va = Some (f OR user_flags OR PTE_PRESENT, 0)" if res using sp that by simp
  then show "res \<Longrightarrow> translate st' as va = Some (of_nat a OR user_flags OR PTE_PRESENT, 0) \<and> data_frame R st' (of_nat a) \<and>
       (\<forall>b. page_no b = page_no (of_nat a) \<longrightarrow> m_cells st' b = m_cells st1 b)" using df by (simp add: f_def)
  have up: "user_page R st' as w \<and> virt_read st' as w = Some (read8 st1 (f + of_nat (unat w mod 4096)))"
    if "res" "low w" "page_no w = page_no va" for w
  proof -
    have t: "translate st' as w = Some (f OR user_flags OR PTE_PRESENT, 0)"
      using tr [OF that(1)] indices_page(1) [OF va that(3)] by (simp add: translate_def)
    have "read8 st' (f + of_nat (unat w mod 4096)) = read8 st1 (f + of_nat (unat w mod 4096))"
      by (rule read8_same) (use df(2) in_page [OF fr] in simp)
    then show ?thesis using t virt_read_page [OF t fr] df(1) by (auto simp: user_page_def)
  qed
  then show "res \<Longrightarrow> low w \<Longrightarrow> page_no w = page_no va \<Longrightarrow>
       user_page R st' as w \<and> virt_read st' as w = Some (read8 st1 (of_nat a + of_nat (unat w mod 4096)))" by (simp add: f_def)
  show "private_view R st' as"
    unfolding private_view_def
  proof (intro allI impI)
    fix v assume v: "low v"
    show "translate st' as v = None \<or> user_page R st' as v"
    proof (cases "indices v = indices va")
      case False
      then show ?thesis using loaded_view(2) [OF ld as view v] by simp
    next
      case True
      have pg: "page_no v = page_no va" using indices_page(2) [OF va v True] .
      show ?thesis
      proof (cases res)
        case True
        then show ?thesis using up [OF True v pg] by simp
      next
        case False
        have "translate st' as v = translate st as v" using sp False True f1(4) [OF as] by (simp add: translate_def)
        then show ?thesis using view v user_page_kept(1) [of R st as v st'] keeps_data_trans [OF f1(3) kd]
          by (auto simp: private_view_def)
      qed
    qed
  qed
qed

section \<open>Pages and segments\<close>

lemma alloc_some:
  assumes "tables_ok R st" "free_set st \<noteq> {}"
  shows "\<exists>a pm. alloc_frame (m_pmm st) = (Some a, pm) \<and> is_frame (of_nat a)"
proof -
  have t: "pmm_ready (m_pmm st)" "pmm_ok (m_pmm st)" using assms(1) by (simp_all add: tables_ok_def)
  obtain a pm where al: "alloc_frame (m_pmm st) = (Some a, pm)" using alloc_frame_some [OF t assms(2)] by blast
  then show ?thesis using allocated_frame(1) [OF t al] by blast
qed

lemma load_page_spec:
  assumes ok: "tables_ok R st" and as: "as \<in> R" and view: "private_view R st as"
    and va: "low va" "unat va mod 4096 = 0" and seg: "seg_ok elf p_off p_va p_fsz"
  shows "\<exists>res st'. load_page as elf p_off p_va p_fsz user_flags va st = Some (res, st') \<and>
    loaded R as {indices va} st st' \<and> private_view R st' as \<and>
    (res \<longrightarrow> (\<forall>w. low w \<longrightarrow> page_no w = page_no va \<longrightarrow> virt_read st' as w = Some (seg_byte elf p_off p_va p_fsz w))) \<and>
    (4 \<le> card (free_set st) \<longrightarrow> res) \<and> card (free_set st) \<le> card (free_set st') + 4"
proof (cases "free_set st = {}")
  case True
  then have "alloc_frame (m_pmm st) = (None, m_pmm st)" using alloc_frame_empty [of "m_pmm st"] ok by (simp add: tables_ok_def)
  then have l: "load_page as elf p_off p_va p_fsz user_flags va st = Some (False, st)" by (simp add: load_page_def)
  show ?thesis
    by (rule exI [of _ False], rule exI [of _ st]) (use l loaded_refl [OF ok] view True in simp)
next
  case False
  then obtain a pm where al: "alloc_frame (m_pmm st) = (Some a, pm)" and fr: "is_frame (of_nat a)" using alloc_some [OF ok] by blast
  define z where "z = zero_page (phys_to_virt (of_nat a)) (st\<lparr>m_pmm := pm\<rparr>)"
  note zp = zero_page_spec [OF fr, of "st\<lparr>m_pmm := pm\<rparr>", folded z_def]
  obtain st1 where c: "(if max va p_va < min (va + 4096) (p_va + p_fsz) \<and> p_off + (max va p_va - p_va) + (min (va + 4096) (p_va + p_fsz) - max va p_va) \<le> of_nat (length elf) then
        if length elf < unat (p_off + (max va p_va - p_va)) + unat (min (va + 4096) (p_va + p_fsz) - max va p_va) then None
        else Some (put_bytes_at (phys_to_virt (of_nat a) + (max va p_va - va))
          (slice elf (unat (p_off + (max va p_va - p_va))) (unat (p_off + (max va p_va - p_va)) + unat (min (va + 4096) (p_va + p_fsz) - max va p_va))) z)
      else Some z) = Some st1" "fills (of_nat a) z st1"
    "\<And>n. n < 4096 \<Longrightarrow> read8 st1 (of_nat a + of_nat n) = seg_byte elf p_off p_va p_fsz (va + of_nat n)"
    using page_copy [OF fr va seg, of z] zp(2) by auto
  obtain res st' where mp: "map_page_in as va (of_nat a) user_flags st1 = (res, st')" by (metis prod.collapse)
  have l: "load_page as elf p_off p_va p_fsz user_flags va st = Some (res, st')"
    unfolding load_page_def al prod.case option.case Let_def z_def [symmetric] c(1) by (simp add: mp)
  have fill: "fills (of_nat a) (st\<lparr>m_pmm := pm\<rparr>) st1" using fills_trans [OF zp(1) c(2)] .
  note m = map_filled [OF ok as view va(1) al fill mp]
  have b: "virt_read st' as w = Some (seg_byte elf p_off p_va p_fsz w)" if "res" "low w" "page_no w = page_no va" for w
  proof -
    have "unat w = unat va + unat w mod 4096"
      using that(3) va(2) by (metis page_no_def add.commute add.right_neutral div_mult_mod_eq)
    moreover have "unat va + unat w mod 4096 < 2 ^ 64" using calculation unsigned_less [of w] by simp
    ultimately have w: "w = va + of_nat (unat w mod 4096)" by (simp add: word_unat_eq_iff unat_add unat_of_page)
    have "read8 st1 (of_nat a + of_nat (unat w mod 4096)) = seg_byte elf p_off p_va p_fsz w"
      by (subst c(3)) (simp_all add: w [symmetric])
    then show ?thesis using m(3) [OF that] by simp
  qed
  show ?thesis by (rule exI [of _ res], rule exI [of _ st']) (use l m(1,2,5,6) b in blast)
qed

lemma load_pages_spec:
  assumes "tables_ok R st" "as \<in> R" "private_view R st as" "\<forall>va \<in> set vas. low va \<and> unat va mod 4096 = 0"
    "seg_ok elf p_off p_va p_fsz"
  shows "\<exists>res st'. load_pages as elf p_off p_va p_fsz user_flags vas st = Some (res, st') \<and>
    loaded R as (indices ` set vas) st st' \<and> private_view R st' as \<and>
    (res \<longrightarrow> (\<forall>w. low w \<longrightarrow> virt_read st' as w =
       (if page_no w \<in> page_no ` set vas then Some (seg_byte elf p_off p_va p_fsz w) else virt_read st as w))) \<and>
    (4 * length vas \<le> card (free_set st) \<longrightarrow> res) \<and> card (free_set st) \<le> card (free_set st') + 4 * length vas"
  using assms(1,3,4)
proof (induction vas arbitrary: st)
  case Nil
  then show ?case using loaded_refl by auto
next
  case (Cons va vas)
  obtain r1 st1 where s: "load_page as elf p_off p_va p_fsz user_flags va st = Some (r1, st1)" "loaded R as {indices va} st st1"
    "private_view R st1 as" "r1 \<Longrightarrow> \<forall>w. low w \<longrightarrow> page_no w = page_no va \<longrightarrow> virt_read st1 as w = Some (seg_byte elf p_off p_va p_fsz w)"
    "4 \<le> card (free_set st) \<Longrightarrow> r1" "card (free_set st) \<le> card (free_set st1) + 4"
    using load_page_spec [OF Cons.prems(1) assms(2) Cons.prems(2) _ _ assms(5), of va] Cons.prems(3) by auto
  have va: "low va" using Cons.prems(3) by simp
  show ?case
  proof (cases r1)
    case False
    have "loaded R as (indices ` set (va # vas)) st st1" using loaded_mono [OF s(2)] by simp
    moreover have "\<not> 4 * length (va # vas) \<le> card (free_set st)" using s(5) False by auto
    ultimately show ?thesis using s(1,3,6) False
      by (intro exI [of _ False] exI [of _ st1]) simp
  next
    case True
    have ok1: "tables_ok R st1" using s(2) by (simp add: loaded_def)
    obtain r2 st2 where t: "load_pages as elf p_off p_va p_fsz user_flags vas st1 = Some (r2, st2)"
      "loaded R as (indices ` set vas) st1 st2" "private_view R st2 as"
      "r2 \<Longrightarrow> \<forall>w. low w \<longrightarrow> virt_read st2 as w =
         (if page_no w \<in> page_no ` set vas then Some (seg_byte elf p_off p_va p_fsz w) else virt_read st1 as w)"
      "4 * length vas \<le> card (free_set st1) \<Longrightarrow> r2" "card (free_set st1) \<le> card (free_set st2) + 4 * length vas"
      using Cons.IH [OF ok1 s(3)] Cons.prems(3) by auto
    have v: "virt_read st2 as w = (if page_no w \<in> page_no ` set (va # vas) then Some (seg_byte elf p_off p_va p_fsz w) else virt_read st as w)"
      if "r2" "low w" for w
    proof (cases "page_no w = page_no va")
      case True
      then show ?thesis using t(4) [OF that(1)] s(4) \<open>r1\<close> that(2) by simp
    next
      case False
      then have "indices w \<notin> {indices va}" using indices_page(2) [OF va that(2)] by blast
      then have "virt_read st1 as w = virt_read st as w" using loaded_view(1) [OF s(2) assms(2) Cons.prems(2) that(2)] by simp
      then show ?thesis using t(4) [OF that(1)] that(2) False by simp
    qed
    have ld: "loaded R as (indices ` set (va # vas)) st st2" using loaded_trans [OF s(2) t(2)] by simp
    have "load_pages as elf p_off p_va p_fsz user_flags (va # vas) st = Some (r2, st2)" using s(1) True t(1) by simp
    moreover have "4 * length (va # vas) \<le> card (free_set st) \<longrightarrow> r2" using t(5) s(6) by auto
    moreover have "card (free_set st) \<le> card (free_set st2) + 4 * length (va # vas)" using t(6) s(6) by simp
    ultimately show ?thesis using ld t(3) v by blast
  qed
qed

text \<open>The pages of a segment.\<close>

definition seg_lo :: "u64 \<Rightarrow> phdr \<Rightarrow> nat" where
  "seg_lo bias ph = unat (p_vaddr ph) + unat bias"

definition seg_pages :: "u64 \<Rightarrow> phdr \<Rightarrow> nat set" where
  "seg_pages bias ph = {seg_lo bias ph div 4096..<(seg_lo bias ph + unat (p_memsz ph) + 4095) div 4096}"

definition ph_ok :: "bytes \<Rightarrow> u64 \<Rightarrow> phdr \<Rightarrow> bool" where
  "ph_ok elf bias ph \<longleftrightarrow> seg_lo bias ph + unat (p_memsz ph) + 4095 < 2 ^ 47 \<and> unat (p_offset ph) + unat (p_filesz ph) \<le> length elf"

lemma unat_mask12: "unat (a AND NOT 0xFFF :: u64) = unat a div 4096 * 4096"
proof -
  have m: "(0xFFF :: u64) = mask 12" by (simp add: mask_eq_exp_minus_1)
  have "a AND NOT 0xFFF = push_bit 12 (drop_bit 12 a)"
    by (rule bit_word_eqI) (auto simp: m bit_and_iff bit_not_iff bit_mask_iff bit_push_bit_iff bit_drop_bit_eq not_less dest: bit_imp_le_length)
  moreover have "unat a div 4096 * 4096 < 2 ^ 64" by (rule le_less_trans [OF div_times_less_eq_dividend]) (use unsigned_less [of a] in simp)
  ultimately show ?thesis by (simp add: push_bit_eq_mult unat_word_ariths unat_drop_bit_eq drop_bit_eq_div)
qed

lemma pages_between_spec:
  assumes "unat start = s * 4096" "unat stop = e * 4096" "e * 4096 < 2 ^ 47"
  shows "set (pages_between start stop) = {v. unat v mod 4096 = 0 \<and> s \<le> page_no v \<and> page_no v < e}"
    "length (pages_between start stop) = e - s" "page_no ` set (pages_between start stop) = {s..<e}"
    "v \<in> set (pages_between start stop) \<Longrightarrow> low v \<and> unat v mod 4096 = 0"
proof -
  have lt: "start < stop \<longleftrightarrow> s < e" using assms by (simp add: word_less_nat_alt)
  have d: "unat (stop - start) div 4096 = e - s" if "s < e"
  proof -
    have "unat (stop - start) = (e - s) * 4096" using assms that by (subst unat_diff) (simp_all add: diff_mult_distrib)
    then show ?thesis by simp
  qed
  have u: "unat (start + of_nat k * 4096) = (s + k) * 4096" if "s + k < e" for k
  proof -
    have "k * 4096 < 2 ^ 47" using that assms(3) by simp
    then have "unat (of_nat k * 4096 :: u64) = k * 4096" by (simp add: unat_word_ariths unat_of_nat)
    moreover have "(s + k) * 4096 < 2 ^ 64" using that assms(3) by simp
    ultimately show ?thesis using assms(1) by (subst unat_add) (simp_all add: add_mult_distrib)
  qed
  have l: "pages_between start stop = map (\<lambda>k. start + of_nat k * 4096) [0..<e - s]"
    using lt d by (cases "s < e") (simp_all add: pages_between_def)
  show "length (pages_between start stop) = e - s" by (simp add: l)
  show S: "set (pages_between start stop) = {v. unat v mod 4096 = 0 \<and> s \<le> page_no v \<and> page_no v < e}"
  proof (intro set_eqI iffI)
    fix v assume "v \<in> set (pages_between start stop)"
    then obtain k where "k < e - s" "v = start + of_nat k * 4096" by (auto simp: l)
    then show "v \<in> {v. unat v mod 4096 = 0 \<and> s \<le> page_no v \<and> page_no v < e}" using u [of k] by (simp add: page_no_def)
  next
    fix v assume v: "v \<in> {v. unat v mod 4096 = 0 \<and> s \<le> page_no v \<and> page_no v < e}"
    define k where "k = page_no v - s"
    have k: "s + k = page_no v" "s + k < e" using v by (simp_all add: k_def)
    have "unat v = page_no v * 4096" using v div_mult_mod_eq [of "unat v" 4096] by (simp add: page_no_def)
    then have "v = start + of_nat k * 4096" using u [OF k(2)] k(1) by (simp add: word_unat_eq_iff)
    then show "v \<in> set (pages_between start stop)" using k(2) by (auto simp: l)
  qed
  have "{s..<e} \<subseteq> page_no ` set (pages_between start stop)"
  proof
    fix q assume q: "q \<in> {s..<e}"
    have "q * 4096 < 2 ^ 64" using q assms(3) by auto
    then have "unat (of_nat (q * 4096) :: u64) = q * 4096" by (simp add: unat_of_nat del: of_nat_mult)
    then have "of_nat (q * 4096) \<in> set (pages_between start stop)" "page_no (of_nat (q * 4096)) = q"
      unfolding S using q by (simp_all add: page_no_def del: of_nat_mult)
    then show "q \<in> page_no ` set (pages_between start stop)" by (metis imageI)
  qed
  then show "page_no ` set (pages_between start stop) = {s..<e}" unfolding S by auto
  show "low v \<and> unat v mod 4096 = 0" if v: "v \<in> set (pages_between start stop)"
  proof -
    have m: "unat v mod 4096 = 0" "page_no v < e" using v unfolding S by auto
    then have "unat v < e * 4096" using div_mult_mod_eq [of "unat v" 4096] by (simp add: page_no_def)
    then show ?thesis using m assms(3) by (simp add: low_def)
  qed
qed

lemma load_ph_spec:
  assumes ok: "tables_ok R st" and as: "as \<in> R" and view: "private_view R st as" and ph: "ph_ok elf bias ph" "length elf < 2 ^ 63"
  shows "\<exists>res st' P. load_ph as elf bias user_flags ph st = Some (res, st') \<and>
    loaded R as P st st' \<and> private_view R st' as \<and> (\<forall>w. low w \<longrightarrow> indices w \<in> P \<longrightarrow> page_no w \<in> seg_pages bias ph) \<and>
    (\<forall>i \<in> P. \<exists>w. low w \<and> indices w = i) \<and>
    (res \<longrightarrow> (\<forall>w. low w \<longrightarrow> virt_read st' as w =
       (if page_no w \<in> seg_pages bias ph then Some (seg_byte elf (p_offset ph) (p_vaddr ph + bias) (p_filesz ph) w) else virt_read st as w))) \<and>
    (4 * card (seg_pages bias ph) \<le> card (free_set st) \<longrightarrow> res) \<and> card (free_set st) \<le> card (free_set st') + 4 * card (seg_pages bias ph)"
proof -
  define s e where "s = seg_lo bias ph div 4096" and "e = (seg_lo bias ph + unat (p_memsz ph) + 4095) div 4096"
  have b: "seg_lo bias ph + unat (p_memsz ph) + 4095 < 2 ^ 47" "unat (p_offset ph) + unat (p_filesz ph) \<le> length elf"
    using ph(1) by (simp_all add: ph_ok_def)
  have u1: "unat (p_vaddr ph + bias) = seg_lo bias ph" using b(1) by (simp add: unat_add seg_lo_def)
  then have u2: "unat (p_vaddr ph + bias + p_memsz ph) = seg_lo bias ph + unat (p_memsz ph)" using b(1) by (simp add: unat_add)
  have u3: "unat (p_vaddr ph + bias + p_memsz ph + 0xFFF) = seg_lo bias ph + unat (p_memsz ph) + 4095"
    using b(1) unat_add [of "p_vaddr ph + bias + p_memsz ph" "0xFFF"] unfolding u2 by simp
  have st: "unat ((p_vaddr ph + bias) AND NOT 0xFFF) = s * 4096" "unat ((p_vaddr ph + bias + p_memsz ph + 0xFFF) AND NOT 0xFFF) = e * 4096"
    unfolding unat_mask12 u1 u3 s_def e_def by simp_all
  have e: "e * 4096 < 2 ^ 47" using b(1) unfolding e_def by (rule le_less_trans [OF div_times_less_eq_dividend])
  define vas where "vas = pages_between ((p_vaddr ph + bias) AND NOT 0xFFF) ((p_vaddr ph + bias + p_memsz ph + 0xFFF) AND NOT 0xFFF)"
  note pg = pages_between_spec [OF st e, folded vas_def]
  have sp: "seg_pages bias ph = {s..<e}" by (simp add: seg_pages_def s_def e_def)
  have seg: "seg_ok elf (p_offset ph) (p_vaddr ph + bias) (p_filesz ph)"
    unfolding seg_ok_def u1 using b ph(2) by simp
  have l: "load_ph as elf bias user_flags ph st = load_pages as elf (p_offset ph) (p_vaddr ph + bias) (p_filesz ph) user_flags vas st"
    by (simp add: load_ph_def vas_def Let_def)
  have al: "\<forall>va \<in> set vas. low va \<and> unat va mod 4096 = 0" using pg(4) by blast
  have ix: "page_no w \<in> seg_pages bias ph" if lw: "low w" "indices w \<in> indices ` set vas" for w
  proof -
    obtain va where va: "va \<in> set vas" "indices w = indices va" using lw(2) by blast
    then have "page_no w = page_no va" using indices_page(2) [of va w] al lw(1) by blast
    then show ?thesis using va(1) pg(3) sp by blast
  qed
  have im: "\<forall>i \<in> indices ` set vas. \<exists>w. low w \<and> indices w = i" using al by blast
  obtain res st' where r: "load_pages as elf (p_offset ph) (p_vaddr ph + bias) (p_filesz ph) user_flags vas st = Some (res, st')"
    "loaded R as (indices ` set vas) st st'" "private_view R st' as"
    "res \<longrightarrow> (\<forall>w. low w \<longrightarrow> virt_read st' as w =
       (if page_no w \<in> page_no ` set vas then Some (seg_byte elf (p_offset ph) (p_vaddr ph + bias) (p_filesz ph) w) else virt_read st as w))"
    "4 * length vas \<le> card (free_set st) \<longrightarrow> res" "card (free_set st) \<le> card (free_set st') + 4 * length vas"
    using load_pages_spec [OF ok as view al seg] by blast
  have "card (seg_pages bias ph) = length vas" by (simp add: sp pg(2))
  then show ?thesis
    using r ix im unfolding l pg(3) sp by (intro exI [of _ res] exI [of _ st'] exI [of _ "indices ` set vas"]) simp
qed

section \<open>Whole files\<close>

text \<open>
  What the loops over the program headers \<open>hs\<close> put at \<open>w\<close>, over what was there: the last segment that has the page wins.
\<close>

fun prog_view :: "bytes \<Rightarrow> u64 \<Rightarrow> nat list \<Rightarrow> u64 \<Rightarrow> byte option \<Rightarrow> byte option" where
  "prog_view elf bias [] w x = x"
| "prog_view elf bias (s # ss) w x =
     prog_view elf bias ss w
       (case read_phdr elf s of
          Header ph \<Rightarrow> if p_type ph = PT_LOAD \<and> page_no w \<in> seg_pages bias ph
                       then Some (seg_byte elf (p_offset ph) (p_vaddr ph + bias) (p_filesz ph) w) else x
        | _ \<Rightarrow> x)"

fun prog_pages :: "bytes \<Rightarrow> u64 \<Rightarrow> nat list \<Rightarrow> nat" where
  "prog_pages elf bias [] = 0"
| "prog_pages elf bias (s # ss) =
     (case read_phdr elf s of Header ph \<Rightarrow> if p_type ph = PT_LOAD then card (seg_pages bias ph) else 0 | _ \<Rightarrow> 0) + prog_pages elf bias ss"

definition headers_ok :: "bytes \<Rightarrow> u64 \<Rightarrow> nat list \<Rightarrow> bool" where
  "headers_ok elf bias hs \<longleftrightarrow> length elf < 2 ^ 63 \<and> (\<forall>s \<in> set hs.
     (case read_phdr elf s of Outside \<Rightarrow> True | Stray \<Rightarrow> False | Header ph \<Rightarrow> p_type ph = PT_LOAD \<longrightarrow> ph_ok elf bias ph))"

definition low_set :: "nat list set \<Rightarrow> bool" where
  "low_set P \<longleftrightarrow> (\<forall>i \<in> P. \<exists>w. low w \<and> indices w = i)"

lemma load_headers_spec:
  assumes "tables_ok R st" "as \<in> R" "private_view R st as" "headers_ok elf bias hs"
  shows "\<exists>res st' P. load_headers as elf bias user_flags hs st = Some (res, st') \<and>
    loaded R as P st st' \<and> private_view R st' as \<and> low_set P \<and>
    (res \<longrightarrow> (\<forall>w. low w \<longrightarrow> virt_read st' as w = prog_view elf bias hs w (virt_read st as w))) \<and>
    (4 * prog_pages elf bias hs \<le> card (free_set st) \<longrightarrow> res) \<and> card (free_set st) \<le> card (free_set st') + 4 * prog_pages elf bias hs"
  using assms(1,3,4)
proof (induction hs arbitrary: st)
  case Nil
  then show ?case using loaded_refl by (auto simp: low_set_def intro: exI [of _ "{}"])
next
  case (Cons s ss)
  have hs: "headers_ok elf bias ss" using Cons.prems(3) by (simp add: headers_ok_def)
  show ?case
  proof (cases "\<exists>ph. read_phdr elf s = Header ph \<and> p_type ph = PT_LOAD")
    case False
    moreover have "read_phdr elf s \<noteq> Stray" using Cons.prems(3) by (auto simp: headers_ok_def)
    ultimately have "load_headers as elf bias user_flags (s # ss) st = load_headers as elf bias user_flags ss st"
      "prog_pages elf bias (s # ss) = prog_pages elf bias ss" "prog_view elf bias (s # ss) w x = prog_view elf bias ss w x" for w x
      by (auto simp: PT_LOAD_def split: phdr_read.splits)
    then show ?thesis using Cons.IH [OF Cons.prems(1,2) hs] by simp
  next
    case True
    then obtain ph where ph: "read_phdr elf s = Header ph" "p_type ph = PT_LOAD" by blast
    have po: "ph_ok elf bias ph" "length elf < 2 ^ 63" using Cons.prems(3) ph by (simp_all add: headers_ok_def)
    obtain r1 st1 P1 where l1: "load_ph as elf bias user_flags ph st = Some (r1, st1)" "loaded R as P1 st st1" "private_view R st1 as"
      "low_set P1" "r1 \<Longrightarrow> \<forall>w. low w \<longrightarrow> virt_read st1 as w =
         (if page_no w \<in> seg_pages bias ph then Some (seg_byte elf (p_offset ph) (p_vaddr ph + bias) (p_filesz ph) w) else virt_read st as w)"
      "4 * card (seg_pages bias ph) \<le> card (free_set st) \<Longrightarrow> r1" "card (free_set st) \<le> card (free_set st1) + 4 * card (seg_pages bias ph)"
      using load_ph_spec [OF Cons.prems(1) assms(2) Cons.prems(2) po] unfolding low_set_def by blast
    have np: "prog_pages elf bias (s # ss) = card (seg_pages bias ph) + prog_pages elf bias ss" using ph by simp
    show ?thesis
    proof (cases r1)
      case False
      then have "load_headers as elf bias user_flags (s # ss) st = Some (False, st1)" using l1(1) ph by (simp add: PT_LOAD_def)
      moreover have "\<not> 4 * prog_pages elf bias (s # ss) \<le> card (free_set st)" using l1(6) False np by auto
      moreover have "card (free_set st) \<le> card (free_set st1) + 4 * prog_pages elf bias (s # ss)" using l1(7) np by simp
      ultimately show ?thesis using l1(2-4) by blast
    next
      case True
      have ok1: "tables_ok R st1" using l1(2) by (simp add: loaded_def)
      obtain r2 st2 P2 where l2: "load_headers as elf bias user_flags ss st1 = Some (r2, st2)" "loaded R as P2 st1 st2" "private_view R st2 as"
        "low_set P2" "r2 \<Longrightarrow> \<forall>w. low w \<longrightarrow> virt_read st2 as w = prog_view elf bias ss w (virt_read st1 as w)"
        "4 * prog_pages elf bias ss \<le> card (free_set st1) \<Longrightarrow> r2" "card (free_set st1) \<le> card (free_set st2) + 4 * prog_pages elf bias ss"
        using Cons.IH [OF ok1 l1(3) hs] by blast
      have "load_headers as elf bias user_flags (s # ss) st = Some (r2, st2)" using l1(1) l2(1) True ph by (simp add: PT_LOAD_def)
      moreover have "loaded R as (P1 \<union> P2) st st2" using loaded_trans [OF l1(2) l2(2)] .
      moreover have "low_set (P1 \<union> P2)" using l1(4) l2(4) by (auto simp: low_set_def)
      moreover have "\<forall>w. low w \<longrightarrow> virt_read st2 as w = prog_view elf bias (s # ss) w (virt_read st as w)" if r2
        using l2(5) [OF that] l1(5) [OF True] ph by simp
      moreover have "4 * prog_pages elf bias (s # ss) \<le> card (free_set st) \<Longrightarrow> r2" using l2(6) l1(7) np by simp
      moreover have "card (free_set st) \<le> card (free_set st2) + 4 * prog_pages elf bias (s # ss)" using l2(7) l1(7) np by simp
      ultimately show ?thesis using l2(3) by blast
    qed
  qed
qed

end
