(* ===== verification/Loader_Files.thy ===== *)
theory Loader_Files
  imports Loader_Image
begin

text \<open>
  Files as the kernel itself builds them, and the two loaders compared: \<open>load_bias\<close>, which writes a
  program in place, and \<open>load_segments_into\<close>, which puts it into an address space page by page.
\<close>

unbundle bit_operations_syntax

section \<open>The file of \<open>make_elf\<close>\<close>













section \<open>Loading in place\<close>







section \<open>The two loaders\<close>











end
