(* ===== verification/Sched_Props.thy ===== *)
theory Sched_Props
  imports Sched
begin

text \<open>
  What the scheduler promises: a task that is preempted goes on with the registers it had, whatever the
  others did in between (\<open>kstep\<close> is every interleaving of the tasks' own work with ticks, spawns, exits and
  kills); every runnable task runs again within \<open>MAX_TASKS\<close> ticks; and a slot left by an exit is lost.
\<close>

unbundle bit_operations_syntax

section \<open>Pushing and popping\<close>

lemma cells_apart: "k < 2 ^ 32 \<Longrightarrow> l < 2 ^ 32 \<Longrightarrow> (8 * of_nat k :: u64) = 8 * of_nat l \<Longrightarrow> k = l"
proof -
  assume a: "k < 2 ^ 32" "l < 2 ^ 32" "(8 * of_nat k :: u64) = 8 * of_nat l"
  have u: "unat (8 * of_nat j :: u64) = 8 * j" if "j < 2 ^ 32" for j
    using that by (simp add: unat_word_ariths unat_of_nat)
  show "k = l" using arg_cong [OF a(3), of unat] u [OF a(1)] u [OF a(2)] by simp
qed

lemma push_cells_snoc: "push_cells (ws @ [v]) p = push_cell v (push_cells ws p)"
  by (simp add: push_cells_def)

lemma push_cells_sp: "fst (push_cells ws (sp, st)) = sp - 8 * of_nat (length ws)"
proof (induction ws rule: rev_induct)
  case (snoc v ws)
  then show ?case by (cases "push_cells ws (sp, st)") (simp add: push_cells_snoc push_cell_def algebra_simps)
qed (simp add: push_cells_def)

lemma push_cells_pushed:
  "length ws < 2 ^ 31 \<Longrightarrow> k < length ws \<Longrightarrow> snd (push_cells ws (sp, st)) (sp - 8 * of_nat (Suc k)) = ws ! k"
proof (induction ws rule: rev_induct)
  case (snoc v ws)
  obtain sp1 st1 where p: "push_cells ws (sp, st) = (sp1, st1)" by (metis prod.collapse)
  have sp1: "sp1 = sp - 8 * of_nat (length ws)" using push_cells_sp [of ws sp st] p by simp
  have s: "sp1 - 8 = sp - 8 * of_nat (Suc (length ws))" by (simp add: sp1 algebra_simps)
  have r: "snd (push_cells (ws @ [v]) (sp, st)) = st1(sp - 8 * of_nat (Suc (length ws)) := v)"
    by (simp add: push_cells_snoc p push_cell_def s)
  show ?case
  proof (cases "k = length ws")
    case True
    then show ?thesis by (simp add: r)
  next
    case False
    then have k: "k < length ws" using snoc.prems(2) by simp
    have "(8 * of_nat (Suc k) :: u64) \<noteq> 8 * of_nat (Suc (length ws))"
      using cells_apart [of "Suc k" "Suc (length ws)"] snoc.prems(1) k by auto
    moreover have "x \<noteq> y \<Longrightarrow> sp - x \<noteq> sp - y" for x y :: u64 by simp
    ultimately have "sp - 8 * of_nat (Suc k) \<noteq> sp - 8 * of_nat (Suc (length ws))" by blast
    then have "snd (push_cells (ws @ [v]) (sp, st)) (sp - 8 * of_nat (Suc k)) = st1 (sp - 8 * of_nat (Suc k))"
      unfolding r by (rule fun_upd_other)
    also have "\<dots> = ws ! k" using snoc.IH snoc.prems(1) k p by simp
    finally show ?thesis using k by (simp add: nth_append)
  qed
qed simp

lemma push_cells_other:
  "(\<And>k. k < length ws \<Longrightarrow> a \<noteq> sp - 8 * of_nat (Suc k)) \<Longrightarrow> snd (push_cells ws (sp, st)) a = st a"
proof (induction ws rule: rev_induct)
  case (snoc v ws)
  obtain sp1 st1 where p: "push_cells ws (sp, st) = (sp1, st1)" by (metis prod.collapse)
  have sp1: "sp1 = sp - 8 * of_nat (length ws)" using push_cells_sp [of ws sp st] p by simp
  have s: "sp1 - 8 = sp - 8 * of_nat (Suc (length ws))" by (simp add: sp1 algebra_simps)
  have "a \<noteq> sp - 8 * of_nat (Suc (length ws))" using snoc.prems [of "length ws"] by simp
  moreover have "st1 a = st a" using snoc.IH snoc.prems p by (metis length_append_singleton less_Suc_eq snd_conv)
  ultimately show ?case by (simp add: push_cells_snoc p push_cell_def s)
qed (simp add: push_cells_def)

definition frame_at :: "stacks \<Rightarrow> u64 \<Rightarrow> regs \<Rightarrow> bool" where
  "frame_at st sp r \<longleftrightarrow> (\<forall>k < 20. st (sp + 8 * of_nat k) = rev (frame_words r) ! k)"

lemma pop_frame_at:
  assumes "frame_at st sp r" "length (r_gprs r) = 15"
  shows "pop_frame st sp = r"
proof -
  have "map (\<lambda>k. st (sp + 8 * of_nat k)) [0..<20] = rev (frame_words r)"
    using assms by (intro nth_equalityI) (auto simp: frame_at_def frame_words_def)
  then show ?thesis using assms(2) by (simp add: pop_frame_def frame_words_def Let_def nth_append)
qed

lemma cell_from_below:
  assumes "k < 20"
  shows "sp - 160 + 8 * of_nat k = (sp - 8 * of_nat (Suc (19 - k)) :: u64)"
proof -
  have j: "k + Suc (19 - k) = 20" using assms by simp
  have "of_nat k + of_nat (Suc (19 - k)) = (20 :: u64)" unfolding of_nat_add [symmetric] j by simp
  then have "8 * of_nat k = 8 * (20 - of_nat (Suc (19 - k)) :: u64)" by (metis add_diff_cancel_right')
  then show ?thesis by (simp add: right_diff_distrib del: of_nat_Suc)
qed

lemma push_frame:
  assumes "push_cells ws (sp, st) = (sp', st')" "ws = frame_words r" "length (r_gprs r) = 15"
  shows "sp' = sp - 160" "frame_at st' sp' r"
proof -
  have l: "length ws = 20" using assms(2,3) by (simp add: frame_words_def)
  show sp: "sp' = sp - 160" using push_cells_sp [of ws sp st] assms(1) l by simp
  have "st' (sp' + 8 * of_nat k) = rev ws ! k" if k: "k < 20" for k
  proof -
    have "st' (sp - 8 * of_nat (Suc (19 - k))) = ws ! (19 - k)"
      using push_cells_pushed [of ws "19 - k" sp st] assms(1) l by simp
    then show ?thesis using k l by (simp add: sp cell_from_below rev_nth del: of_nat_Suc)
  qed
  then show "frame_at st' sp' r" using assms(2) by (simp add: frame_at_def)
qed

section \<open>Kernel stacks\<close>

definition kregion :: "sched \<Rightarrow> nat \<Rightarrow> u64 set" where
  "kregion sc i = {a. unat (kstacks_base sc) + i * KSTACK_SIZE \<le> unat a \<and> unat a < unat (kstacks_base sc) + Suc i * KSTACK_SIZE}"

text \<open>Task 0 is the boot thread: it also owns the boot stack \<open>B\<close>.\<close>

definition own :: "u64 set \<Rightarrow> sched \<Rightarrow> nat \<Rightarrow> u64 set" where
  "own B sc i = (if i = 0 then B else {}) \<union> kregion sc i"

definition layout :: "u64 set \<Rightarrow> sched \<Rightarrow> bool" where
  "layout B sc \<longleftrightarrow> unat (kstacks_base sc) + MAX_TASKS * KSTACK_SIZE < 2 ^ 64 \<and> (\<forall>i. 0 < i \<longrightarrow> i < MAX_TASKS \<longrightarrow> B \<inter> kregion sc i = {})"

text \<open>Room for a frame of twenty words below \<open>sp\<close>.\<close>

definition room :: "u64 set \<Rightarrow> u64 \<Rightarrow> bool" where
  "room S sp \<longleftrightarrow> (\<forall>k < 20. sp - 8 * of_nat (Suc k) \<in> S)"

lemmas task_consts = MAX_TASKS_def KSTACK_SIZE_def

lemma kregion_disjoint: "i \<noteq> j \<Longrightarrow> kregion sc i \<inter> kregion sc j = {}"
proof -
  have "False" if "i < j" "a \<in> kregion sc i" "a \<in> kregion sc j" for i j a
  proof -
    have "Suc i * KSTACK_SIZE \<le> j * KSTACK_SIZE" using that(1) by (intro mult_le_mono1) simp
    then show False using that(2,3) by (simp add: kregion_def)
  qed
  then show "i \<noteq> j \<Longrightarrow> kregion sc i \<inter> kregion sc j = {}" by (metis disjoint_iff nat_neq_iff)
qed

lemma own_disjoint: "layout B sc \<Longrightarrow> i < MAX_TASKS \<Longrightarrow> j < MAX_TASKS \<Longrightarrow> i \<noteq> j \<Longrightarrow> own B sc i \<inter> own B sc j = {}"
  using kregion_disjoint [of i j sc] by (cases "i = 0"; cases "j = 0") (auto simp: own_def layout_def)

lemma unat_align16: "unat (x AND NOT 0xF :: u64) = unat x div 16 * 16"
proof -
  have m: "(0xF :: u64) = mask 4" by (simp add: mask_eq_exp_minus_1)
  have "x AND NOT 0xF = push_bit 4 (drop_bit 4 x)"
    by (rule bit_word_eqI) (auto simp: m bit_and_iff bit_not_iff bit_mask_iff bit_push_bit_iff bit_drop_bit_eq not_less dest: bit_imp_le_length)
  moreover have "unat x div 16 * 16 < 2 ^ 64" by (rule le_less_trans [OF div_times_less_eq_dividend]) (use unsigned_less [of x] in simp)
  ultimately show ?thesis by (simp add: push_bit_eq_mult unat_word_ariths unat_drop_bit_eq drop_bit_eq_div)
qed

lemma align16_idem [simp]: "(x AND NOT 0xF) AND NOT 0xF = (x AND NOT 0xF :: u64)"
  by (simp add: and.assoc)

lemma kstack_room:
  assumes "layout B sc" "i < MAX_TASKS"
  shows "room (kregion sc i) (kstack_top sc i)"
proof -
  define e where "e = unat (kstacks_base sc) + Suc i * KSTACK_SIZE"
  have le: "Suc i * KSTACK_SIZE \<le> MAX_TASKS * KSTACK_SIZE" using assms(2) by (intro mult_le_mono1) simp
  then have e: "e < 2 ^ 64" "KSTACK_SIZE \<le> e" using assms(1) by (simp_all add: e_def layout_def)
  have "unat (kstacks_base sc + of_nat (i * KSTACK_SIZE) + of_nat KSTACK_SIZE) = e"
  proof -
    have "kstacks_base sc + of_nat (i * KSTACK_SIZE) + of_nat KSTACK_SIZE = of_nat e"
      by (simp add: e_def algebra_simps)
    then show ?thesis using e(1) by (simp add: unat_of_nat)
  qed
  then have t: "unat (kstack_top sc i) = e div 16 * 16" unfolding kstack_top_def unat_align16 by (simp only:)
  have k: "sp - 8 * of_nat (Suc k) \<in> kregion sc i" if "k < 20" "sp = kstack_top sc i" for k sp
  proof -
    have u: "unat (8 * of_nat (Suc k) :: u64) = 8 * Suc k" using that(1) by (simp add: unat_word_ariths unat_of_nat del: of_nat_Suc)
    have b: "160 \<le> e div 16 * 16" "e < e div 16 * 16 + 16" using e(2) by (simp_all add: KSTACK_SIZE_def)
    have "unat (sp - 8 * of_nat (Suc k)) = e div 16 * 16 - 8 * Suc k"
      using u t b(1) that by (simp add: unat_sub_if_size word_size del: of_nat_Suc)
    moreover have "e div 16 * 16 \<le> e" by simp
    ultimately show ?thesis using that(1) b by (auto simp: kregion_def e_def KSTACK_SIZE_def)
  qed
  then show ?thesis by (simp add: room_def del: of_nat_Suc)
qed

section \<open>Every interleaving\<close>

text \<open>
  The world: the registers, the scheduler and the processor; beside it a history variable that no step
  reads, the register file and GS base that each task has by its own doing: \<open>work\<close> and its creation.
  A task works on its own stack, in ring 3 or in ring 0 with room for an interrupt; it may call whatever
  changes memory and page tables, but not CR3.
\<close>

type_synonym world = "regs \<times> sched \<times> cpu"
type_synonym files = "nat \<Rightarrow> regs \<times> u64"

definition file_ok :: "u64 set \<Rightarrow> sched \<Rightarrow> nat \<Rightarrow> regs \<Rightarrow> bool" where
  "file_ok B sc i r \<longleftrightarrow> length (r_gprs r) = 15 \<and> (r_cs r AND 3 \<noteq> 3 \<longrightarrow> room (own B sc i) (r_rsp r AND NOT 0xF))"

inductive kstep :: "u64 set \<Rightarrow> world \<times> files \<Rightarrow> world \<times> files \<Rightarrow> bool" for B where
  work: "\<forall>a. a \<notin> own B sc (cur_task sc) \<longrightarrow> st a = stacks sc a \<Longrightarrow> file_ok B sc (cur_task sc) r' \<Longrightarrow> m_cr3 mm = m_cr3 (c_mmu c) \<Longrightarrow>
    kstep B ((r, sc, c), V) ((r', sc\<lparr>stacks := st\<rparr>, c\<lparr>c_gs_base := g, c_mmu := mm\<rparr>), V(cur_task sc := (r', g)))"
| timer: "kstep B (w, V) (irq_timer_preempt w, V)"
| spawned: "free_slot sc = Some i \<Longrightarrow> cs AND 3 = 3 \<or> rsp = kstack_top sc i \<Longrightarrow>
    kstep B ((r, sc, c), V) ((r, start_task i (fresh_frame ss rsp cs rip) root gs sc, c),
      V(i := (\<lparr>r_gprs = replicate 15 0, r_rip = rip, r_cs = cs, r_rflags = 0x202, r_rsp = rsp, r_ss = ss\<rparr>, gs)))"
| flagged: "kstep B ((r, sc, c), V) ((r, sc\<lparr>task_linux := l, task_wine := w, task_calls := n, preemptive_linux := p\<rparr>, c), V)"
| killed: "i \<noteq> cur_task sc \<Longrightarrow> kstep B ((r, sc, c), V) ((r, kill_task i sc, c), V)"
| exited: "kstep B ((r, sc, c), V) ((r, exit_current_scheduled sc, c), V)"

definition runnable :: "sched \<Rightarrow> nat \<Rightarrow> bool" where
  "runnable sc i \<longleftrightarrow> i = 0 \<or> (t_used (tasks sc ! i) \<and> t_alive (tasks sc ! i))"

definition saved :: "u64 set \<Rightarrow> sched \<Rightarrow> files \<Rightarrow> nat \<Rightarrow> bool" where
  "saved B sc V i \<longleftrightarrow> frame_at (stacks sc) (t_rsp (tasks sc ! i)) (fst (V i)) \<and>
     (\<forall>k < 20. t_rsp (tasks sc ! i) + 8 * of_nat k \<in> own B sc i) \<and> t_gs_base (tasks sc ! i) = snd (V i)"

definition kinv :: "u64 set \<Rightarrow> world \<times> files \<Rightarrow> bool" where
  "kinv B = (\<lambda>((r, sc, c), V). layout B sc \<and> length (tasks sc) = MAX_TASKS \<and> cur_task sc < MAX_TASKS \<and>
     (cur_task sc = 0 \<or> t_used (tasks sc ! cur_task sc)) \<and>
     V (cur_task sc) = (r, c_gs_base c) \<and>
     room (own B sc (cur_task sc)) (c_rsp0 c AND NOT 0xF) \<and>
     (t_cr3 (tasks sc ! cur_task sc) \<noteq> 0 \<longrightarrow> m_cr3 (c_mmu c) = t_cr3 (tasks sc ! cur_task sc) AND NOT 0xFFF) \<and>
     (\<forall>i < MAX_TASKS. i = cur_task sc \<or> runnable sc i \<longrightarrow> file_ok B sc i (fst (V i))) \<and>
     (\<forall>i < MAX_TASKS. i \<noteq> cur_task sc \<longrightarrow> runnable sc i \<longrightarrow> saved B sc V i))"

text \<open>A thread in ring 0 on its own stack, the only task, adopted by the scheduler.\<close>

definition boot_world :: "u64 set \<Rightarrow> world \<Rightarrow> bool" where
  "boot_world B = (\<lambda>(r, sc, c). layout B sc \<and> length (tasks sc) = MAX_TASKS \<and> cur_task sc = 0 \<and>
     (\<forall>i. 0 < i \<longrightarrow> i < MAX_TASKS \<longrightarrow> \<not> t_used (tasks sc ! i)) \<and> file_ok B sc 0 r \<and> room (own B sc 0) (c_rsp0 c AND NOT 0xF) \<and>
     (t_cr3 (tasks sc ! 0) \<noteq> 0 \<longrightarrow> m_cr3 (c_mmu c) = t_cr3 (tasks sc ! 0) AND NOT 0xFFF))"

lemma layout_cong: "kstacks_base sc' = kstacks_base sc \<Longrightarrow> layout B sc' = layout B sc \<and> own B sc' = own B sc \<and> kregion sc' = kregion sc \<and>
  kstack_top sc' = kstack_top sc"
  by (auto simp: layout_def own_def kregion_def kstack_top_def fun_eq_iff)

lemma file_ok_cong: "kstacks_base sc' = kstacks_base sc \<Longrightarrow> file_ok B sc' = file_ok B sc"
  using layout_cong [of sc' sc B] by (auto simp: file_ok_def fun_eq_iff)

lemma saved_cong:
  assumes "kstacks_base sc' = kstacks_base sc" "tasks sc' ! i = tasks sc ! i" "V' i = V i"
    "\<forall>a \<in> own B sc i. stacks sc' a = stacks sc a" "saved B sc V i"
  shows "saved B sc' V' i"
  using assms layout_cong [of sc' sc B] by (simp add: saved_def frame_at_def)

lemma next_alive_spec: "next_alive sc i < MAX_TASKS \<and> runnable sc (next_alive sc i)"
proof -
  define xs where "xs = map (\<lambda>off. (i + off) mod MAX_TASKS) [1..<MAX_TASKS + 1]"
  define P where "P = (\<lambda>i. i = 0 \<or> (t_used (tasks sc ! i) \<and> t_alive (tasks sc ! i)))"
  have n: "next_alive sc i = (case find P xs of Some i \<Rightarrow> i | None \<Rightarrow> 0)" by (simp add: next_alive_def xs_def P_def)
  show ?thesis
  proof (cases "find P xs")
    case None
    then show ?thesis by (simp add: n runnable_def MAX_TASKS_def)
  next
    case (Some j)
    then have "P j" "j \<in> set xs" by (auto simp: find_Some_iff)
    then show ?thesis using Some by (auto simp: n runnable_def P_def xs_def MAX_TASKS_def)
  qed
qed

lemma kinvD:
  assumes "kinv B ((r, sc, c), V)"
  shows "layout B sc" "length (tasks sc) = MAX_TASKS" "cur_task sc < MAX_TASKS" "cur_task sc = 0 \<or> t_used (tasks sc ! cur_task sc)"
    "V (cur_task sc) = (r, c_gs_base c)" "room (own B sc (cur_task sc)) (c_rsp0 c AND NOT 0xF)"
    "t_cr3 (tasks sc ! cur_task sc) \<noteq> 0 \<Longrightarrow> m_cr3 (c_mmu c) = t_cr3 (tasks sc ! cur_task sc) AND NOT 0xFFF"
    "i < MAX_TASKS \<Longrightarrow> i = cur_task sc \<or> runnable sc i \<Longrightarrow> file_ok B sc i (fst (V i))"
    "i < MAX_TASKS \<Longrightarrow> i \<noteq> cur_task sc \<Longrightarrow> runnable sc i \<Longrightarrow> saved B sc V i"
  using assms unfolding kinv_def by blast+

lemma kinvI:
  assumes "layout B sc" "length (tasks sc) = MAX_TASKS" "cur_task sc < MAX_TASKS" "cur_task sc = 0 \<or> t_used (tasks sc ! cur_task sc)"
    "V (cur_task sc) = (r, c_gs_base c)" "room (own B sc (cur_task sc)) (c_rsp0 c AND NOT 0xF)"
    "t_cr3 (tasks sc ! cur_task sc) \<noteq> 0 \<Longrightarrow> m_cr3 (c_mmu c) = t_cr3 (tasks sc ! cur_task sc) AND NOT 0xFFF"
    "\<And>i. i < MAX_TASKS \<Longrightarrow> i = cur_task sc \<or> runnable sc i \<Longrightarrow> file_ok B sc i (fst (V i))"
    "\<And>i. i < MAX_TASKS \<Longrightarrow> i \<noteq> cur_task sc \<Longrightarrow> runnable sc i \<Longrightarrow> saved B sc V i"
  shows "kinv B ((r, sc, c), V)"
  unfolding kinv_def prod.case by (intro conjI allI impI assms; assumption)

lemma boot_inv:
  assumes "boot_world B (r, sc, c)" "V 0 = (r, c_gs_base c)"
  shows "kinv B ((r, sc, c), V)"
proof -
  have z: "i = 0" if "i < MAX_TASKS" "i = cur_task sc \<or> runnable sc i" for i
    using assms(1) that by (cases "i = 0") (auto simp: boot_world_def runnable_def)
  have f: "file_ok B sc i (fst (V i))" if "i < MAX_TASKS" "i = cur_task sc \<or> runnable sc i" for i
    using z [OF that] assms by (simp add: boot_world_def)
  have "saved B sc V i" if "i < MAX_TASKS" "i \<noteq> cur_task sc" "runnable sc i" for i
    using z that assms(1) by (simp add: boot_world_def)
  then show ?thesis using assms f by (intro kinvI) (auto simp: boot_world_def MAX_TASKS_def)
qed

lemma kinv_work:
  assumes "kinv B ((r, sc, c), V)" "\<forall>a. a \<notin> own B sc (cur_task sc) \<longrightarrow> st a = stacks sc a" "file_ok B sc (cur_task sc) r'"
    "m_cr3 mm = m_cr3 (c_mmu c)"
  shows "kinv B ((r', sc\<lparr>stacks := st\<rparr>, c\<lparr>c_gs_base := g, c_mmu := mm\<rparr>), V(cur_task sc := (r', g)))"
proof -
  note i = kinvD [OF assms(1)]
  let ?sc = "sc\<lparr>stacks := st\<rparr>"
  have k: "kstacks_base ?sc = kstacks_base sc" by simp
  have s: "saved B ?sc (V(cur_task sc := (r', g))) j" if "j < MAX_TASKS" "j \<noteq> cur_task sc" "runnable sc j" for j
    by (rule saved_cong [OF k _ _ _ i(9) [OF that]])
      (use that(2) own_disjoint [OF i(1) that(1) i(3) that(2)] assms(2) in auto)
  have run: "runnable ?sc j = runnable sc j" for j by (simp add: runnable_def)
  have f: "file_ok B ?sc j (fst ((V(cur_task sc := (r', g))) j))" if "j < MAX_TASKS" "j = cur_task ?sc \<or> runnable ?sc j" for j
    using that i(8) assms(3) run file_ok_cong [OF k, of B] by (cases "j = cur_task sc") auto
  show ?thesis
    by (rule kinvI) (use i(1-7) assms(4) s f run layout_cong [OF k, of B] in simp_all)
qed

lemma push_in_room:
  assumes "room S sp" "length ws \<le> 20" "a \<notin> S"
  shows "snd (push_cells ws (sp, st)) a = st a"
  using assms by (intro push_cells_other) (auto simp: room_def)

lemma kinv_spawned:
  assumes "kinv B ((r, sc, c), V)" "free_slot sc = Some i" "cs AND 3 = 3 \<or> rsp = kstack_top sc i"
  shows "kinv B ((r, start_task i (fresh_frame ss rsp cs rip) root gs sc, c),
      V(i := (\<lparr>r_gprs = replicate 15 0, r_rip = rip, r_cs = cs, r_rflags = 0x202, r_rsp = rsp, r_ss = ss\<rparr>, gs)))"
proof -
  note v = kinvD [OF assms(1)]
  let ?r = "\<lparr>r_gprs = replicate 15 0, r_rip = rip, r_cs = cs, r_rflags = 0x202, r_rsp = rsp, r_ss = ss\<rparr>"
  let ?ws = "fresh_frame ss rsp cs rip"
  let ?sc = "start_task i ?ws root gs sc"
  have fs: "0 < i" "i < MAX_TASKS" "\<not> t_used (tasks sc ! i)"
    using assms(2) by (auto simp: free_slot_def find_Some_iff)
  then have ne: "i \<noteq> cur_task sc" using v(4) by auto
  obtain sp st where p: "push_cells ?ws (kstack_top sc i, stacks sc) = (sp, st)" by (metis prod.collapse)
  have k: "kstacks_base ?sc = kstacks_base sc" "cur_task ?sc = cur_task sc" "stacks ?sc = st"
    "tasks ?sc = (tasks sc)[i := \<lparr>t_rsp = sp, t_used = True, t_alive = True, t_cr3 = root, t_gs_base = gs\<rparr>]"
    by (simp_all add: start_task_def p)
  have w: "?ws = frame_words ?r" by (simp add: fresh_frame_def frame_words_def)
  have rm: "room (kregion sc i) (kstack_top sc i)" using kstack_room v(1) fs(2) by blast
  have rmo: "room (own B sc i) (kstack_top sc i)" using rm by (auto simp: room_def own_def)
  have fr: "sp = kstack_top sc i - 160" "frame_at st sp ?r" using push_frame [OF p w] by simp_all
  have out: "st a = stacks sc a" if "a \<notin> own B sc i" for a
    using push_in_room [OF rmo, of ?ws a "stacks sc"] that p by (simp add: fresh_frame_def)
  have ownsp: "sp + 8 * of_nat l \<in> own B sc i" if "l < 20" for l
    unfolding fr(1) cell_from_below [OF that] using rmo that by (simp add: room_def del: of_nat_Suc)
  have al: "kstack_top sc i AND NOT 0xF = kstack_top sc i" by (simp add: kstack_top_def and.assoc)
  have new: "file_ok B sc i ?r" using assms(3) rmo al by (auto simp: file_ok_def)
  have other: "saved B ?sc (V(i := (?r, gs))) j" if "j < MAX_TASKS" "j \<noteq> cur_task sc" "runnable sc j" "j \<noteq> i" for j
    by (rule saved_cong [OF k(1) _ _ _ v(9) [OF that(1-3)]])
      (use that(4) own_disjoint [OF v(1) that(1) fs(2) that(4)] out k in auto)
  have me: "saved B ?sc (V(i := (?r, gs))) i"
    using fr(2) ownsp fs(2) v(2) k layout_cong [OF k(1), of B] by (auto simp: saved_def)
  have run: "runnable ?sc j \<longleftrightarrow> j = i \<or> runnable sc j" if "j < MAX_TASKS" for j
    using that v(2) k(4) fs(1) by (cases "j = i") (auto simp: runnable_def)
  have cur: "tasks ?sc ! cur_task sc = tasks sc ! cur_task sc" "length (tasks ?sc) = MAX_TASKS" using ne k(4) v(2) by simp_all
  have sv: "saved B ?sc (V(i := (?r, gs))) j" if "j < MAX_TASKS" "j \<noteq> cur_task ?sc" "runnable ?sc j" for j
    using that me other run k(2) by (cases "j = i") auto
  have fl: "file_ok B ?sc j (fst ((V(i := (?r, gs))) j))" if "j < MAX_TASKS" "j = cur_task ?sc \<or> runnable ?sc j" for j
    using that v(8) run new file_ok_cong [OF k(1), of B] ne k(2) by (cases "j = i") auto
  show ?thesis
    by (rule kinvI [OF _ _ _ _ _ _ _ fl sv]) (use v(1-7) ne cur k(2) layout_cong [OF k(1), of B] in simp_all)
qed

lemma kinv_timer:
  assumes "kinv B (w, V)"
  shows "kinv B (irq_timer_preempt w, V)"
proof -
  obtain r sc c where w: "w = (r, sc, c)" by (metis prod_cases3)
  note v = kinvD [OF assms [unfolded w]]
  let ?cur = "cur_task sc"
  have fo: "file_ok B sc ?cur r" using v(8) [of ?cur] v(3,5) by simp
  then have len: "length (r_gprs r) = 15" by (simp add: file_ok_def)
  have rm: "room (own B sc ?cur) (interrupt_sp c r)"
    using fo v(6) by (simp add: interrupt_sp_def file_ok_def)
  obtain sp st where p: "push_cells (frame_words r) (interrupt_sp c r, stacks sc) = (sp, st)" by (metis prod.collapse)
  have fr: "sp = interrupt_sp c r - 160" "frame_at st sp r" using push_frame [OF p refl len] by simp_all
  have out: "st a = stacks sc a" if "a \<notin> own B sc ?cur" for a
    using push_in_room [OF rm, of "frame_words r" a "stacks sc"] that p len by (simp add: frame_words_def)
  have ownsp: "sp + 8 * of_nat l \<in> own B sc ?cur" if "l < 20" for l
    unfolding fr(1) cell_from_below [OF that] using rm that by (simp add: room_def del: of_nat_Suc)
  define t1 where "t1 = (tasks sc ! ?cur)\<lparr>t_gs_base := c_gs_base c, t_rsp := sp\<rparr>"
  define sc1 where "sc1 = sc\<lparr>stacks := st, tasks := (tasks sc)[?cur := t1]\<rparr>"
  define nxt where "nxt = next_alive sc1 ?cur"
  define sc2 where "sc2 = sc1\<lparr>cur_task := nxt\<rparr>"
  obtain c2 where irq: "irq_timer_preempt w = (pop_frame st (t_rsp (tasks sc1 ! nxt)), sc2, c2)"
    "c_gs_base c2 = t_gs_base (tasks sc1 ! nxt)" "c_rsp0 c2 = kstack_top sc nxt"
    "t_cr3 (tasks sc1 ! nxt) \<noteq> 0 \<Longrightarrow> m_cr3 (c_mmu c2) = t_cr3 (tasks sc1 ! nxt) AND NOT 0xFFF"
  proof
    let ?c = "c\<lparr>c_gs_base := t_gs_base (tasks sc1 ! nxt)\<rparr>"
    let ?c1 = "if t_cr3 (tasks sc1 ! nxt) \<noteq> 0 then ?c\<lparr>c_mmu := switch_address_space (t_cr3 (tasks sc1 ! nxt)) (c_mmu ?c)\<rparr> else ?c"
    let ?c2 = "?c1\<lparr>c_rsp0 := kstack_top sc2 nxt, c_syscall_stack := kstack_top sc2 nxt, c_linux := task_linux sc2 ! nxt, c_wine := task_wine sc2 ! nxt\<rparr>"
    show "irq_timer_preempt w = (pop_frame st (t_rsp (tasks sc1 ! nxt)), sc2, ?c2)"
      unfolding w irq_timer_preempt_def prod.case p preempt_tick_def Let_def
      by (simp add: sc1_def sc2_def nxt_def t1_def)
  qed (simp_all add: kstack_top_def sc2_def sc1_def switch_address_space_def)
  have k: "kstacks_base sc2 = kstacks_base sc" "cur_task sc2 = nxt" "stacks sc2 = st" "tasks sc2 = (tasks sc)[?cur := t1]" "tasks sc1 = tasks sc2"
    by (simp_all add: sc1_def sc2_def)
  have n: "nxt < MAX_TASKS" "runnable sc1 nxt" using next_alive_spec unfolding nxt_def by blast+
  have run: "runnable sc2 j = runnable sc j" if "j < MAX_TASKS" for j
    using that v(2) by (cases "j = ?cur") (simp_all add: runnable_def k(4) t1_def)
  have nr: "runnable sc nxt" using n run by (simp add: runnable_def k(5) [symmetric])
  have sv: "saved B sc2 V j" if "j < MAX_TASKS" "runnable sc j" for j
  proof (cases "j = ?cur")
    case True
    then show ?thesis
      using fr(2) ownsp v(2,3,5) k layout_cong [OF k(1), of B] by (simp add: saved_def t1_def)
  next
    case False
    show ?thesis
      by (rule saved_cong [OF k(1) _ _ _ v(9) [OF that(1) False that(2)]])
        (use False own_disjoint [OF v(1) that(1) v(3) False] out k in auto)
  qed
  have fl: "file_ok B sc2 j (fst (V j))" if "j < MAX_TASKS" "j = cur_task sc2 \<or> runnable sc2 j" for j
    using that v(8) [OF that(1)] run nr file_ok_cong [OF k(1), of B] k(2) by auto
  have pop: "pop_frame st (t_rsp (tasks sc2 ! nxt)) = fst (V nxt)"
    by (rule pop_frame_at) (use sv [OF n(1) nr] fl [OF n(1)] k in \<open>auto simp: saved_def file_ok_def\<close>)
  have gsn: "t_gs_base (tasks sc2 ! nxt) = snd (V nxt)" using sv [OF n(1) nr] by (simp add: saved_def)
  have rs: "room (own B sc2 nxt) (kstack_top sc nxt)"
    using kstack_room [OF v(1) n(1)] layout_cong [OF k(1), of B] by (auto simp: room_def own_def)
  have al: "kstack_top sc nxt AND NOT 0xF = kstack_top sc nxt" by (simp add: kstack_top_def and.assoc)
  have us: "nxt = 0 \<or> t_used (tasks sc2 ! nxt)" using n(2) k(5) by (auto simp: runnable_def)
  show ?thesis unfolding irq(1)
  proof (rule kinvI [OF _ _ _ _ _ _ _ fl])
    show "saved B sc2 V j" if "j < MAX_TASKS" "j \<noteq> cur_task sc2" "runnable sc2 j" for j using sv that run by blast
    show "V (cur_task sc2) = (pop_frame st (t_rsp (tasks sc1 ! nxt)), c_gs_base c2)"
      using pop gsn irq(2) k(2,5) by simp
    show "room (own B sc2 (cur_task sc2)) (c_rsp0 c2 AND NOT 0xF)" unfolding irq(3) al k(2) by (rule rs)
    show "m_cr3 (c_mmu c2) = t_cr3 (tasks sc2 ! cur_task sc2) AND NOT 0xFFF" if "t_cr3 (tasks sc2 ! cur_task sc2) \<noteq> 0"
      using irq(4) that k(2,5) by simp
  qed (use v(1,2) n(1) us k layout_cong [OF k(1), of B] in simp_all)
qed

text \<open>A change of the table that takes nobody's registers, and makes no task runnable, keeps the invariant.\<close>

lemma kinv_table:
  assumes "kinv B ((r, sc, c), V)" "kstacks_base sc' = kstacks_base sc" "stacks sc' = stacks sc" "cur_task sc' = cur_task sc"
    "length (tasks sc') = length (tasks sc)" "cur_task sc = 0 \<or> t_used (tasks sc' ! cur_task sc)"
    "\<And>i. t_cr3 (tasks sc' ! i) = t_cr3 (tasks sc ! i)" "\<And>i. i < MAX_TASKS \<Longrightarrow> runnable sc' i \<Longrightarrow> runnable sc i"
    "\<And>i. t_rsp (tasks sc' ! i) = t_rsp (tasks sc ! i)" "\<And>i. t_gs_base (tasks sc' ! i) = t_gs_base (tasks sc ! i)"
  shows "kinv B ((r, sc', c), V)"
proof -
  note v = kinvD [OF assms(1)]
  note eq = layout_cong [OF assms(2), of B] file_ok_cong [OF assms(2), of B]
  have sv: "saved B sc' V i" if "i < MAX_TASKS" "i \<noteq> cur_task sc'" "runnable sc' i" for i
    using v(9) [of i] that assms(3,4,8-10) eq by (simp add: saved_def)
  have fl: "file_ok B sc' i (fst (V i))" if "i < MAX_TASKS" "i = cur_task sc' \<or> runnable sc' i" for i
    using v(8) [of i] that assms(4,8) eq by auto
  show ?thesis by (rule kinvI [OF _ _ _ _ _ _ _ fl sv]) (use v(1-7) assms(4-7) eq in simp_all)
qed

lemma killed_task:
  assumes "length (tasks sc) = MAX_TASKS"
  shows "tasks (kill_task i sc) ! j = (if j = i \<and> i < MAX_TASKS \<and> i \<noteq> 0 then (tasks sc ! i)\<lparr>t_alive := False, t_used := False\<rparr> else tasks sc ! j)"
    "kstacks_base (kill_task i sc) = kstacks_base sc" "stacks (kill_task i sc) = stacks sc" "cur_task (kill_task i sc) = cur_task sc"
    "length (tasks (kill_task i sc)) = length (tasks sc)"
  using assms by (simp_all add: kill_task_def nth_list_update)

lemma exited_task:
  assumes "length (tasks sc) = MAX_TASKS" "cur_task sc < MAX_TASKS"
  shows "tasks (exit_current_scheduled sc) ! j = (if j = cur_task sc then (tasks sc ! j)\<lparr>t_alive := False\<rparr> else tasks sc ! j)"
    "kstacks_base (exit_current_scheduled sc) = kstacks_base sc" "stacks (exit_current_scheduled sc) = stacks sc"
    "cur_task (exit_current_scheduled sc) = cur_task sc" "length (tasks (exit_current_scheduled sc)) = length (tasks sc)"
  using assms by (simp_all add: exit_current_scheduled_def nth_list_update)

lemma kinv_step: "kstep B x y \<Longrightarrow> kinv B x \<Longrightarrow> kinv B y"
proof (induction rule: kstep.induct)
  case (work sc st r' mm c r V g)
  then show ?case using kinv_work by blast
next
  case (timer w V)
  then show ?case by (rule kinv_timer)
next
  case (spawned sc i cs rsp r ss rip root gs c V)
  then show ?case using kinv_spawned by blast
next
  case (flagged r sc c V l w n p)
  then show ?case using kinvD(4) [OF flagged] by (intro kinv_table [OF flagged]) (simp_all add: runnable_def)
next
  case (killed i sc r c V)
  note l = kinvD(2,4) [OF killed.prems]
  show ?case
    by (rule kinv_table [OF killed.prems]) (use l killed.hyps in \<open>auto simp: killed_task runnable_def split: if_splits\<close>)
next
  case (exited r sc c V)
  note l = kinvD(2,3,4) [OF exited]
  show ?case
    by (rule kinv_table [OF exited]) (use l in \<open>auto simp: exited_task runnable_def split: if_splits\<close>)
qed

section \<open>Preemption is not seen\<close>

text \<open>
  C7: A task never sees that it was preempted. From a boot thread adopted as the only task, in every state that
  any interleaving of the tasks' own work with timer interrupts, spawns, exits and kills can reach, the
  processor runs with exactly the fifteen registers, instruction pointer, flags, stack and GS base that
  the current task gave itself in its own steps (or was created with), and, if the task has an
  address space of its own, with that address space; whatever is current has not been killed.
\<close>

theorem preemption_is_transparent:
  assumes "boot_world B (r0, sc0, c0)" "V0 0 = (r0, c_gs_base c0)" "(kstep B)\<^sup>*\<^sup>* ((r0, sc0, c0), V0) ((r, sc, c), V)"
  shows "cur_task sc < MAX_TASKS \<and> (cur_task sc = 0 \<or> t_used (tasks sc ! cur_task sc)) \<and>
    (r, c_gs_base c) = V (cur_task sc) \<and>
    (t_cr3 (tasks sc ! cur_task sc) \<noteq> 0 \<longrightarrow> m_cr3 (c_mmu c) = t_cr3 (tasks sc ! cur_task sc) AND NOT 0xFFF)"
proof -
  have "kinv B ((r, sc, c), V)" using assms(3)
    by (induction rule: rtranclp_induct) (use boot_inv [of B r0 sc0 c0 V0] assms(1,2) kinv_step in blast)+
  note v = kinvD [OF this]
  show ?thesis using v(3,4,5) v(7) by simp
qed

section \<open>A small system\<close>

definition demo_mmu :: mmu where
  "demo_mmu = \<lparr>m_cells = (\<lambda>_. 0), m_cr3 = 0x1000, m_physmap = True, m_boot_cr3 = 0x1000, m_pmm = pmm_start\<rparr>"

definition demo_cpu :: cpu where
  "demo_cpu = \<lparr>c_gs_base = 7, c_mmu = demo_mmu, c_rsp0 = 0x9000, c_syscall_stack = 0x9000, c_linux = False, c_wine = False\<rparr>"

definition demo_regs :: regs where
  "demo_regs = \<lparr>r_gprs = replicate 15 5, r_rip = 0x2000, r_cs = 8, r_rflags = 0x202, r_rsp = 0x9000, r_ss = 0x10\<rparr>"

definition demo_sched :: sched where
  "demo_sched = adopt_boot_thread 0x1000 (sched_zero 0x100000)"

definition boot_stack :: "u64 set" where "boot_stack = {a. 0x8000 \<le> unat a \<and> unat a < 0x9000}"

lemma demo_boot: "boot_world boot_stack (demo_regs, demo_sched, demo_cpu)"
proof -
  have lay: "layout boot_stack demo_sched"
    by (auto simp: layout_def demo_sched_def adopt_boot_thread_def sched_zero_def task_consts boot_stack_def kregion_def)
  have al: "(0x9000 AND NOT 0xF :: u64) = 0x9000" by simp
  have "unat (0x9000 - 8 * of_nat (Suc k) :: u64) = 0x9000 - 8 * Suc k" if "k < 20" for k
  proof -
    have "unat (8 * of_nat (Suc k) :: u64) = 8 * Suc k" using that by (simp add: unat_word_ariths unat_of_nat del: of_nat_Suc)
    then show ?thesis using that by (simp add: unat_sub_if_size word_size del: of_nat_Suc)
  qed
  then have rm: "room (own boot_stack demo_sched 0) 0x9000" by (auto simp: room_def own_def boot_stack_def simp del: of_nat_Suc)
  have rm2: "room (own boot_stack demo_sched 0) (0x9000 AND NOT 0xF)" unfolding al by (rule rm)
  have f: "file_ok boot_stack demo_sched 0 demo_regs" using rm2 by (simp add: file_ok_def demo_regs_def)
  show ?thesis unfolding boot_world_def prod.case
  proof (intro conjI lay f)
    show "room (own boot_stack demo_sched 0) (c_rsp0 demo_cpu AND NOT 0xF)" using rm2 by (simp add: demo_cpu_def)
    show "\<forall>i. 0 < i \<longrightarrow> i < MAX_TASKS \<longrightarrow> \<not> t_used (tasks demo_sched ! i)"
      by (simp add: demo_sched_def adopt_boot_thread_def sched_zero_def no_task_def)
  qed (simp_all add: demo_sched_def adopt_boot_thread_def sched_zero_def demo_cpu_def demo_mmu_def task_consts)
qed

text \<open>A task spawned in ring 3, and one timer interrupt.\<close>

definition demo_sched1 :: sched where
  "demo_sched1 = start_task 1 (fresh_frame 0x1b 0x402000 0x23 0x400000) 0x5000 0 demo_sched"

definition demo_user :: regs where
  "demo_user = \<lparr>r_gprs = replicate 15 0, r_rip = 0x400000, r_cs = 0x23, r_rflags = 0x202, r_rsp = 0x402000, r_ss = 0x1b\<rparr>"

lemma demo_slot: "free_slot demo_sched = Some 1"
  by (simp add: free_slot_def task_consts demo_sched_def adopt_boot_thread_def sched_zero_def no_task_def upt_rec)

lemma demo_steps:
  fixes V :: files
  shows "(kstep boot_stack)\<^sup>*\<^sup>* ((demo_regs, demo_sched, demo_cpu), V)
    (irq_timer_preempt (demo_regs, demo_sched1, demo_cpu), V(1 := (demo_user, 0)))"
proof -
  have "kstep boot_stack ((demo_regs, demo_sched, demo_cpu), V) ((demo_regs, demo_sched1, demo_cpu), V(1 := (demo_user, 0)))"
    unfolding demo_sched1_def demo_user_def by (rule spawned [OF demo_slot]) simp
  then show ?thesis using timer by (meson rtranclp.intros)
qed

lemma demo_current: "cur_task (fst (snd (irq_timer_preempt (demo_regs, demo_sched1, demo_cpu)))) = 1"
proof -
  have t: "\<exists>sp. tasks demo_sched1 = [\<lparr>t_rsp = 0, t_used = True, t_alive = True, t_cr3 = 0x1000, t_gs_base = 0\<rparr>,
      \<lparr>t_rsp = sp, t_used = True, t_alive = True, t_cr3 = 0x5000, t_gs_base = 0\<rparr>, no_task, no_task]" "cur_task demo_sched1 = 0"
    by (simp_all add: demo_sched1_def start_task_def demo_sched_def adopt_boot_thread_def sched_zero_def task_consts
        numeral_eq_Suc split: prod.split)
  then show ?thesis
    by (auto simp: irq_timer_preempt_def preempt_tick_def Let_def next_alive_def MAX_TASKS_def upt_rec split: prod.split)
qed

lemma preemption_is_transparent_witness:
  "case irq_timer_preempt (demo_regs, demo_sched1, demo_cpu) of (r, sc, c) \<Rightarrow>
     cur_task sc = 1 \<and> r = demo_user \<and> c_gs_base c = 0"
proof -
  obtain r sc c where i: "irq_timer_preempt (demo_regs, demo_sched1, demo_cpu) = (r, sc, c)" by (metis prod_cases3)
  define V where "V = (\<lambda>_ :: nat. (demo_regs, c_gs_base demo_cpu))"
  have "(r, c_gs_base c) = (V(1 := (demo_user, 0))) (cur_task sc)"
    using preemption_is_transparent [OF demo_boot _ demo_steps [unfolded i], of V] by (simp add: V_def)
  then show ?thesis using demo_current i by simp
qed

section \<open>Nobody starves\<close>

text \<open>How many tasks come before \<open>i\<close> in the round.\<close>

definition rank :: "nat \<Rightarrow> nat \<Rightarrow> nat" where
  "rank i cur = (i + MAX_TASKS - cur - 1) mod MAX_TASKS"

lemma next_alive_from:
  "next_alive sc 0 = (if runnable sc 1 then 1 else if runnable sc 2 then 2 else if runnable sc 3 then 3 else 0)"
  "next_alive sc 1 = (if runnable sc 2 then 2 else if runnable sc 3 then 3 else 0)"
  "next_alive sc 2 = (if runnable sc 3 then 3 else 0)"
  "next_alive sc 3 = 0"
proof -
  have u: "[1..<5] = [1, 2, 3, 4 :: nat]" by (simp add: upt_rec)
  have m: "map (\<lambda>off. (0 + off) mod 4) [1..<5] = [1, 2, 3, 0 :: nat]" "map (\<lambda>off. (1 + off) mod 4) [1..<5] = [2, 3, 0, 1 :: nat]"
    "map (\<lambda>off. (2 + off) mod 4) [1..<5] = [3, 0, 1, 2 :: nat]" "map (\<lambda>off. (3 + off) mod 4) [1..<5] = [0, 1, 2, 3 :: nat]"
    unfolding u by simp_all
  have f: "(4 :: nat) + 1 = 5" by simp
  show "next_alive sc 0 = (if runnable sc 1 then 1 else if runnable sc 2 then 2 else if runnable sc 3 then 3 else 0)"
    "next_alive sc 1 = (if runnable sc 2 then 2 else if runnable sc 3 then 3 else 0)"
    "next_alive sc 2 = (if runnable sc 3 then 3 else 0)" "next_alive sc 3 = 0"
    unfolding next_alive_def MAX_TASKS_def f m runnable_def by simp_all
qed

lemma next_alive_rank:
  assumes "i < MAX_TASKS" "cur < MAX_TASKS" "runnable sc i" "cur \<noteq> i"
  shows "next_alive sc cur = i \<or> rank i (next_alive sc cur) < rank i cur"
proof -
  have "cur = 0 \<or> cur = 1 \<or> cur = 2 \<or> cur = 3" "i = 0 \<or> i = 1 \<or> i = 2 \<or> i = 3" using assms(1,2) by (auto simp: MAX_TASKS_def)
  then show ?thesis
    using assms(3,4) by (elim disjE) (simp_all add: next_alive_from MAX_TASKS_def rank_def del: One_nat_def)
qed

lemma kinv_path:
  assumes "kinv B (p 0)" "\<forall>k < n. kstep B (p k) (p (Suc k))" "k \<le> n"
  shows "kinv B (p k)"
  using assms(3)
proof (induction k)
  case (Suc k)
  then show ?case using assms(2) kinv_step [of B "p k" "p (Suc k)"] by simp
qed (rule assms(1))

text \<open>The task a world runs, its table, and a step that is a timer interrupt.\<close>

definition running :: "world \<times> files \<Rightarrow> nat" where "running x = cur_task (fst (snd (fst x)))"
definition table_of :: "world \<times> files \<Rightarrow> sched" where "table_of x = fst (snd (fst x))"
definition is_tick :: "world \<times> files \<Rightarrow> world \<times> files \<Rightarrow> bool" where
  "is_tick x y \<longleftrightarrow> y = (irq_timer_preempt (fst x), snd x)"

lemma irq_running: "\<exists>st t. running (irq_timer_preempt w, V) =
    next_alive (table_of (w, V)\<lparr>stacks := st, tasks := (tasks (table_of (w, V)))[running (w, V) := t]\<rparr>) (running (w, V)) \<and>
    t_used t = t_used (tasks (table_of (w, V)) ! running (w, V)) \<and> t_alive t = t_alive (tasks (table_of (w, V)) ! running (w, V))"
proof -
  obtain r sc c where w: "w = (r, sc, c)" by (metis prod_cases3)
  obtain sp st where p: "push_cells (frame_words r) (interrupt_sp c r, stacks sc) = (sp, st)" by (metis prod.collapse)
  show ?thesis
    by (rule exI [of _ st], rule exI [of _ "(tasks sc ! cur_task sc)\<lparr>t_gs_base := c_gs_base c, t_rsp := sp\<rparr>"])
      (simp add: w running_def table_of_def irq_timer_preempt_def p preempt_tick_def Let_def)
qed

lemma tick_rank:
  assumes "kinv B x" "is_tick x y" "i < MAX_TASKS" "runnable (table_of x) i" "running x \<noteq> i"
  shows "running y = i \<or> rank i (running y) < rank i (running x)"
proof -
  obtain w V where x: "x = (w, V)" by (metis prod.collapse)
  obtain r sc c where w: "w = (r, sc, c)" by (metis prod_cases3)
  note v = kinvD [OF assms(1) [unfolded x w]]
  obtain st t where q: "running y = next_alive (sc\<lparr>stacks := st, tasks := (tasks sc)[cur_task sc := t]\<rparr>) (cur_task sc)"
    "t_used t = t_used (tasks sc ! cur_task sc)" "t_alive t = t_alive (tasks sc ! cur_task sc)"
    using irq_running [of w V] assms(2) by (auto simp: is_tick_def x w running_def table_of_def)
  have "runnable (sc\<lparr>stacks := st, tasks := (tasks sc)[cur_task sc := t]\<rparr>) i"
    using assms(4) q(2,3) v(2,3) by (cases "i = cur_task sc") (simp_all add: runnable_def x w table_of_def)
  then show ?thesis
    using next_alive_rank [OF assms(3) v(3)] assms(5) q(1) by (simp add: x w running_def)
qed

lemma other_running: "kstep B x y \<Longrightarrow> is_tick x y \<or> running y = running x"
  by (induction rule: kstep.induct)
    (auto simp: is_tick_def running_def start_task_def kill_task_def exit_current_scheduled_def split: prod.splits)

lemma rank_bound: "i < MAX_TASKS \<Longrightarrow> cur < MAX_TASKS \<Longrightarrow> cur \<noteq> i \<Longrightarrow> rank i cur < MAX_TASKS - 1"
proof -
  assume "i < MAX_TASKS" "cur < MAX_TASKS" "cur \<noteq> i"
  then have "cur = 0 \<or> cur = 1 \<or> cur = 2 \<or> cur = 3" "i = 0 \<or> i = 1 \<or> i = 2 \<or> i = 3" "cur \<noteq> i" by (auto simp: MAX_TASKS_def)
  then show ?thesis by (elim disjE) (simp_all add: rank_def MAX_TASKS_def)
qed

definition ticks :: "(nat \<Rightarrow> world \<times> files) \<Rightarrow> nat \<Rightarrow> nat" where
  "ticks p n = card {k. k < n \<and> is_tick (p k) (p (Suc k))}"

lemma ticks_Suc: "ticks p (Suc n) = ticks p n + (if is_tick (p n) (p (Suc n)) then 1 else 0)"
proof -
  have "{k. k < Suc n \<and> is_tick (p k) (p (Suc k))} =
      (if is_tick (p n) (p (Suc n)) then insert n {k. k < n \<and> is_tick (p k) (p (Suc k))} else {k. k < n \<and> is_tick (p k) (p (Suc k))})"
    by (auto simp: less_Suc_eq)
  then show ?thesis by (simp add: ticks_def)
qed

lemma passed_over:
  assumes "kinv B (p 0)" "\<forall>k < n. kstep B (p k) (p (Suc k))" "i < MAX_TASKS" "\<forall>k \<le> n. runnable (table_of (p k)) i"
    "\<forall>k \<le> n. running (p k) \<noteq> i"
  shows "rank i (running (p n)) + ticks p n \<le> rank i (running (p 0))"
  using assms(2,4,5)
proof (induction n)
  case (Suc n)
  have IH: "rank i (running (p n)) + ticks p n \<le> rank i (running (p 0))" using Suc by simp
  have inv: "kinv B (p n)" using kinv_path [of B p n n] assms(1) Suc.prems(1) by simp
  show ?case
  proof (cases "is_tick (p n) (p (Suc n))")
    case True
    then show ?thesis using tick_rank [OF inv True assms(3)] Suc.prems IH by (auto simp: ticks_Suc)
  next
    case False
    then show ?thesis using other_running [of B "p n" "p (Suc n)"] Suc.prems(1) IH by (simp add: ticks_Suc)
  qed
qed (simp add: ticks_def)

text \<open>
  C18: No runnable task starves: however the tasks' work, spawns, exits and kills are interleaved, a task that
  stays runnable gets the processor at the latest at the third timer interrupt, one less than there are
  slots.
\<close>

theorem runnable_task_runs:
  assumes "boot_world B (r0, sc0, c0)" "V0 0 = (r0, c_gs_base c0)" "(kstep B)\<^sup>*\<^sup>* ((r0, sc0, c0), V0) (p 0)"
    "\<forall>k < n. kstep B (p k) (p (Suc k))" "i < MAX_TASKS" "\<forall>k \<le> n. runnable (table_of (p k)) i" "MAX_TASKS - 1 \<le> ticks p n"
  shows "\<exists>k \<le> n. running (p k) = i"
proof (rule ccontr)
  assume "\<not> ?thesis"
  then have nr: "\<forall>k \<le> n. running (p k) \<noteq> i" by blast
  have inv: "kinv B (p 0)" using assms(3)
    by (induction rule: rtranclp_induct) (use boot_inv [of B r0 sc0 c0 V0] assms(1,2) kinv_step in blast)+
  have "ticks p n \<le> rank i (running (p 0))" using passed_over [OF inv assms(4,5,6) nr] by simp
  moreover have "running (p 0) < MAX_TASKS" using inv kinvD(3) by (cases "p 0") (auto simp: running_def)
  ultimately show False using rank_bound [OF assms(5), of "running (p 0)"] nr assms(7) by auto
qed

text \<open>The boot thread alone, three interrupts: it is its own successor each time.\<close>

lemma runnable_task_runs_witness:
  "\<exists>p k. ticks p 3 = 3 \<and> (\<forall>k < 3. kstep boot_stack (p k) (p (Suc k))) \<and> runnable (table_of (p 0)) 0 \<and> k \<le> 3 \<and> running (p k) = 0"
proof -
  define V where "V = (\<lambda>_ :: nat. (demo_regs, c_gs_base demo_cpu))"
  define p where "p = (\<lambda>k. ((irq_timer_preempt ^^ k) (demo_regs, demo_sched, demo_cpu), V))"
  have tick: "is_tick (p k) (p (Suc k))" for k by (simp add: is_tick_def p_def)
  have s: "\<forall>k < 3. kstep boot_stack (p k) (p (Suc k))" by (simp add: p_def timer)
  have t: "ticks p 3 = 3" by (simp add: ticks_def tick)
  have z: "(kstep boot_stack)\<^sup>*\<^sup>* ((demo_regs, demo_sched, demo_cpu), V) (p 0)" by (simp add: p_def)
  have "\<exists>k \<le> 3. running (p k) = 0"
    by (rule runnable_task_runs [OF demo_boot _ z s]) (simp_all add: V_def runnable_def t MAX_TASKS_def)
  then show ?thesis using s t by (auto simp: runnable_def)
qed

section \<open>Slots of tasks that exit\<close>

text \<open>A step that is not the force-quit of slot \<open>i\<close>.\<close>

definition kstep_but_kill :: "u64 set \<Rightarrow> nat \<Rightarrow> world \<times> files \<Rightarrow> world \<times> files \<Rightarrow> bool" where
  "kstep_but_kill B i x y \<longleftrightarrow> kstep B x y \<and> table_of y \<noteq> kill_task i (table_of x)"

definition dead_slot :: "nat \<Rightarrow> sched \<Rightarrow> bool" where
  "dead_slot i sc \<longleftrightarrow> t_used (tasks sc ! i) \<and> \<not> t_alive (tasks sc ! i)"

lemma start_task_other: "i \<noteq> j \<Longrightarrow> tasks (start_task j ws root gs sc) ! i = tasks sc ! i"
  by (simp add: start_task_def split: prod.split)

lemma dead_slot_step:
  assumes "kstep B x y" "table_of y \<noteq> kill_task i (table_of x)" "dead_slot i (table_of x)" "kinv B x" "i \<noteq> 0" "i < MAX_TASKS"
  shows "dead_slot i (table_of y)"
  using assms
proof (induction rule: kstep.induct)
  case (timer w V)
  obtain r sc c where w: "w = (r, sc, c)" by (metis prod_cases3)
  obtain sp st where p: "push_cells (frame_words r) (interrupt_sp c r, stacks sc) = (sp, st)" by (metis prod.collapse)
  show ?case using timer.prems(2) kinvD(2,3) [OF timer.prems(3) [unfolded w]]
    by (simp add: w dead_slot_def table_of_def irq_timer_preempt_def p preempt_tick_def Let_def nth_list_update)
next
  case (spawned sc j cs rsp r ss rip root gs c V)
  then have "j \<noteq> i" by (auto simp: free_slot_def find_Some_iff dead_slot_def table_of_def)
  then show ?case using spawned.prems(2) by (simp add: dead_slot_def table_of_def start_task_other)
next
  case (killed j sc r c V)
  then show ?case using kinvD(2) [OF killed.prems(3)] by (cases "i = j") (auto simp: dead_slot_def table_of_def killed_task)
next
  case (exited r sc c V)
  then show ?case using kinvD(2,3) [OF exited.prems(3)] by (auto simp: dead_slot_def table_of_def exited_task)
qed (simp_all add: dead_slot_def table_of_def)

text \<open>
  The slot of a task that exits is never used again, although the comment at \<open>exit_current_scheduled\<close>
  says a later spawn can reuse it: from then on, unless the slot is force-quit, the task is not
  runnable and no spawn function finds its slot free. When all three slots are in that state every spawn
  fails.
\<close>

theorem exited_slot_lost:
  assumes "boot_world B (r0, sc0, c0)" "V0 0 = (r0, c_gs_base c0)" "(kstep B)\<^sup>*\<^sup>* ((r0, sc0, c0), V0) ((r, sc, c), V)"
    "cur_task sc = i" "i \<noteq> 0" "(kstep_but_kill B i)\<^sup>*\<^sup>* ((r, exit_current_scheduled sc, c), V) y"
  shows "\<not> runnable (table_of y) i \<and> free_slot (table_of y) \<noteq> Some i \<and>
    ((\<forall>j. 0 < j \<longrightarrow> j < MAX_TASKS \<longrightarrow> dead_slot j (table_of y)) \<longrightarrow>
       spawn_preempt entry (table_of y) = (0, table_of y) \<and> spawn_wine_thread root rip rsp gs (table_of y) = (0, table_of y))"
proof -
  have inv0: "kinv B ((r, sc, c), V)" using assms(3)
    by (induction rule: rtranclp_induct) (use boot_inv [of B r0 sc0 c0 V0] assms(1,2) kinv_step in blast)+
  note v = kinvD [OF inv0]
  have i: "i < MAX_TASKS" using v(3) assms(4) by simp
  have "kinv B y \<and> dead_slot i (table_of y)" using assms(6)
  proof (induction rule: rtranclp_induct)
    case base
    have "kinv B ((r, exit_current_scheduled sc, c), V)" using kinv_step [OF exited inv0] by blast
    moreover have "dead_slot i (exit_current_scheduled sc)"
      using v(2,3,4) assms(4,5) by (simp add: dead_slot_def exited_task)
    ultimately show ?case by (simp add: table_of_def)
  next
    case (step y z)
    then show ?case using dead_slot_step [of B y z i] kinv_step [of B y z] assms(5) i by (auto simp: kstep_but_kill_def)
  qed
  then have d: "dead_slot i (table_of y)" by blast
  have f: "free_slot (table_of y) \<noteq> Some j" if "dead_slot j (table_of y)" for j
    using that by (auto simp: free_slot_def find_Some_iff dead_slot_def)
  have n: "free_slot (table_of y) = None" if "\<forall>j. 0 < j \<longrightarrow> j < MAX_TASKS \<longrightarrow> dead_slot j (table_of y)"
    using that by (auto simp: free_slot_def find_None_iff dead_slot_def)
  show ?thesis using d f [OF d] n assms(5)
    by (auto simp: runnable_def dead_slot_def spawn_preempt_def spawn_wine_thread_def)
qed

lemma exited_slot_lost_witness:
  "case irq_timer_preempt (demo_regs, demo_sched1, demo_cpu) of (r, sc, c) \<Rightarrow>
     cur_task sc = 1 \<and> free_slot (exit_current_scheduled sc) \<noteq> Some 1 \<and> \<not> runnable (exit_current_scheduled sc) 1"
proof -
  obtain r sc c where i: "irq_timer_preempt (demo_regs, demo_sched1, demo_cpu) = (r, sc, c)" by (metis prod_cases3)
  define V where "V = (\<lambda>_ :: nat. (demo_regs, c_gs_base demo_cpu))"
  have cur: "cur_task sc = 1" using demo_current i by simp
  have "\<not> runnable (table_of ((r, exit_current_scheduled sc, c), V(1 := (demo_user, 0)))) 1 \<and>
      free_slot (table_of ((r, exit_current_scheduled sc, c), V(1 := (demo_user, 0)))) \<noteq> Some 1"
    using exited_slot_lost [OF demo_boot _ demo_steps [unfolded i] cur, of V] by (simp add: V_def)
  then show ?thesis using cur i by (simp add: table_of_def)
qed

end
