(* ===== verification/Spec2Isabelle.thy ===== *)
theory Spec2Isabelle
  imports Ternary Rpfs_Props Heap_Props Bignum_Exp Sha256 Wpa2 Eapol_Props P256_Props X509_Props Poly1305 X25519_Props Vmm_Props Http_Props Ramfs_Props Disk_Space Bump Loader_Props
begin

text \<open>
  A verification library for Rusty Penguin, an operating system written from scratch in Rust:
  a kernel (src/kernel), a desktop on its system calls (src/desktop-metal), the ternary-logic crates
  both rest on (src/ternary-core, src/mathematics, src/ai-runtime) and hosted tools. The library
  models the parts whose correctness is a matter of logic: data structures on raw memory, page
  tables, the scheduler and the program loader, the RAM disk and the on-disk filesystem, the network stack with its TLS client, and the cryptography and
  certificate checking under it and under the WPA2 supplicant.

  Conventions. Bytes and registers are words of their width, or integers and natural numbers with
  the wrap-around written out where a register holds a number (\<open>u64_add\<close>, \<open>i64\<close>, \<open>as_u16\<close>,
  \<open>mod 2 ^ 64\<close>), so that the absence of overflow is proved and not assumed. A Rust slice is a list;
  \<open>&xs[i..j]\<close> is \<open>slice xs i j\<close>, \<open>copy_from_slice\<close> is \<open>blit\<close>. A method on \<open>&mut self\<close> takes the
  record of its state and returns it updated. A call that would panic by an index out of range is
  None where the theory says so; a caller's contract is a hypothesis elsewhere. A loop is a fold or
  a recursive function with its measure; a loop that may run forever is a \<open>partial_function
  (option)\<close>, and then that it returns is part of what is proved (\<open>alloc_loop\<close>, \<open>locate\<close>,
  \<open>now_packed\<close>; \<open>server_hello\<close> only for a network that falls silent, since the code bounds that loop by
  nothing but its input, which \<open>hello_waits_through_ccs\<close> shows). No fuel is used: where a loop counts rounds (the polling loops, the 64 records
  of a server's flight, the 4096 of a response), the bound is the code's own.

  The theories, in the order they build on each other:

  \<^item> \<open>Prelude\<close>: machine types, slices and in-place copies (\<open>slice_simps\<close>), little- and big-endian
    readings, bitwise facts, searching.
  \<^item> \<open>Ternary\<close>: trits, nine-trit words and their arithmetic (ternary-core/src/lib.rs,
    mathematics/src/lib.rs), the sparse ternary layer (ai-runtime/src/lib.rs). Round trip with
    integers, adder, multiplier and divider, the sparse product equals the dense one.
  \<^item> \<open>Rpfs\<close>, \<open>Rpfs_Bytes\<close>, \<open>Rpfs_Alloc\<close>, \<open>Rpfs_Device\<close>, \<open>Rpfs_Spec\<close>, \<open>Rpfs_Sync\<close>, \<open>Rpfs_Ops\<close>,
    \<open>Rpfs_Mount\<close>, \<open>Rpfs_Props\<close>: the filesystem kernel/src/rpfs.rs over any block device. The device
    is the locale of \<open>Rpfs_Device\<close> (reads return what was written), interpreted on the RAM disk of
    tools/rpfs_test.rs. \<open>fs_inv\<close> is the invariant of the mounted state (bitmap, directory and extents
    agree, in memory and on the device); \<open>lookup\<close> abstracts it to a map from names to contents, and
    every operation is shown to refine an operation on that map. \<open>Diskfs\<close>: the kernel's disk on top of
    it, kernel/src/diskfs.rs, and what a reboot finds after any sequence of operations; \<open>Disk_Space\<close>: the
    blocks that are not free are exactly those the contents need, whatever was overwritten or deleted.
  \<^item> \<open>Ramfs\<close>, \<open>Ramfs_Props\<close>: the initial RAM disk and the descriptor table, kernel/src/ramfs.rs and
    vfs.rs, against archives as cpio writes them, in either case of hexadecimal letters.
  \<^item> \<open>Bump\<close>: the bump allocator of the kernel, kernel/src/allocator.rs, as interleaved compare-and-exchange
    steps; blocks handed out never overlap.
  \<^item> \<open>Heap\<close>, \<open>Heap_List\<close>, \<open>Heap_Refine\<close>, \<open>Heap_Props\<close>: the free-list allocator
    desktop-metal/src/heap.rs on an explicit store of machine words. The linked list in memory
    refines a sorted list of blocks; the invariant relates it to the blocks the clients hold.
  \<^item> \<open>Bignum\<close>, \<open>Bignum_Mont\<close>, \<open>Bignum_Exp\<close>: kernel/src/bignum.rs, Montgomery products and modular
    exponentiation, up to \<open>mod_exp\<close> being exponentiation of numbers.
  \<^item> \<open>Md\<close>: what SHA-1 and SHA-256 share, as a locale over the compression function: streaming equals
    one-shot, and HMAC on top is RFC 2104. \<open>Sha256\<close> (kernel/src/crypto.rs, with HKDF) and \<open>Wpa2\<close>
    (kernel/src/wpa2.rs: SHA-1, PBKDF2, the 802.11i PRF) interpret it on their own functions.
  \<^item> \<open>Aes\<close>, \<open>Aes_Props\<close>: kernel/src/aes.rs, decryption inverts encryption, key unwrapping inverts
    wrapping. \<open>Eapol\<close>, \<open>Eapol_Props\<close>: the four-way handshake kernel/src/eapol.rs on \<open>Wpa2\<close> and
    \<open>Aes\<close>, against frames as an access point builds them.
  \<^item> \<open>Aead\<close>, \<open>Poly1305\<close>: ChaCha20, Poly1305 and the AEAD of kernel/src/crypto.rs; the 26-bit limbs
    compute the authenticator modulo \<open>2 ^ 130 - 5\<close>, opening undoes sealing.
  \<^item> \<open>X25519\<close>, \<open>X25519_Field\<close>, \<open>X25519_Props\<close>: X25519 of kernel/src/crypto.rs; limb bounds, values
    modulo \<open>2 ^ 255 - 19\<close>, and the ladder against the pseudo-code of RFC 7748.
  \<^item> \<open>P256\<close>, \<open>P256_Props\<close>: kernel/src/p256.rs. Field addition and subtraction are right; the theory
    proves that field and scalar multiplication are not, with the operands that show it.
  \<^item> \<open>X509\<close>, \<open>X509_Props\<close>: kernel/src/x509.rs, DER reading, certificate parsing, RSA signature
    checking on \<open>Bignum\<close>, host names, clock, and what an accepted chain guarantees and does not.

  \<^item> \<open>Pmm\<close>, \<open>Pmm_Props\<close>: the frame allocator kernel/src/pmm.rs on its bitmap; which frames the boot
    memory map leaves free, single and contiguous allocation.
  \<^item> \<open>Vmm\<close>, \<open>Vmm_Tables\<close>, \<open>Vmm_Props\<close>: the page tables of kernel/src/vmm.rs in physical memory.
    \<open>Vmm_Tables\<close> reads tables as trees of disjoint frames; mapping a page changes one translation
    and no other address space (outside the two PML4 slots all spaces share), and a private space shares
    the kernel's half only.
  \<^item> \<open>Sched\<close>, \<open>Sched_Props\<close>: kernel/src/sched.rs, the process table, the task table, the priming of stacks,
    the round robin, the cooperative switch and the preempting timer interrupt with its assembler stub, on
    an explicit store of stack cells. The step relation \<open>kstep\<close> interleaves the tasks' own work, timer
    interrupts, spawns, exits and kills; a ghost map records what each task left in its registers, and
    the invariant \<open>kinv\<close> says that the saved frames hold it.
  \<^item> \<open>Elf\<close> (kernel/src/elf.rs) and \<open>Loader\<close> (the spawn functions of sched.rs): header fields, loading in place,
    loading page by page through the direct map, stacks, interrupt frames, the initial stack of Linux
    programs. \<open>Vmm_Data\<close>, \<open>Loader_Pages\<close>, \<open>Loader_Image\<close>, \<open>Loader_Files\<close> prove what a process then sees
    through its tables, that the two loaders agree, and \<open>Loader_Props\<close> that a started program is isolated.
  \<^item> \<open>Net\<close>, \<open>Net_Frames\<close>, \<open>Net_Dns\<close>: the packets of kernel/src/net.rs, ARP, ICMP, DHCP, IPv4, TCP, UDP and
    DNS, their layout and checksums, and the wire form of names and records they are read against.
  \<^item> \<open>Net_Conn\<close>: the operations on the card. The record \<open>net\<close> has the frames sent and the results of the
    polls still to come, so that everything the network may do is a value of \<open>polls\<close>. \<open>Net_Http\<close>: the
    one-shot HTTP client, redirects, the trust indicator, bring-up.
  \<^item> \<open>Byte_Pipe\<close>, \<open>Net_Stream\<close>: a connection as a byte stream, the locale the TLS client is verified
    in, and TcpConn as an instance of it. \<open>Net_Props\<close>: segments, names, the stream a receiver sees.
  \<^item> \<open>Tls\<close>: kernel/src/tls.rs. \<open>Tls_Stream\<close> proves that every operation returns on a finite stream,
    \<open>Tls_Auth\<close> what the message loop has checked, \<open>Tls_Wire\<close> that a conforming server is understood.
    \<open>Tls_Accept\<close> specifies an accepted session as a reading of the bytes the connection delivered
    (\<open>accepted\<close>: records, protected data in sequence, messages, Finished, certificates, response) and
    proves that a delivered response meets it; \<open>Tls_Props\<close> and \<open>Http_Props\<close> put it on TcpConn and on
    \<open>http_get\<close> with its redirects.

  Interfaces. \<open>Rpfs_Device\<close> states what the filesystem needs of a device, \<open>Md\<close> what a streaming hash
  needs of a compression function; \<open>Byte_Pipe\<close> what the TLS client needs of a connection (bytes arrive in order, sending does not disturb
  them, the end is seen); all are interpreted on the code's own definitions. The HTTP client takes the
  HTTPS client as an argument, which \<open>Http_Props\<close> instantiates with \<open>https_get\<close>. The
  certificate checker uses \<open>mod_exp\<close> and \<open>p256_verify\<close> as they are defined here, the handshake
  \<open>hmac_sha1\<close>, \<open>ptk\<close> and \<open>key_unwrap\<close>.

  Not modelled, and why: interrupt, port and memory-mapped device code (drivers, network cards, ACPI,
  USB, GPU, sound), which is register access without logic of its own; the
  boot sequence; drawing and event handling of the desktop; hosted wrappers of Linux system calls;
  generated fonts, icons and embedded certificates; and the self-tests the kernel runs at boot.
\<close>

end
